(* ===== verification/Prelude.thy ===== *)
theory Prelude
  imports Complex_Main "HOL-Library.Multiset"
begin

text \<open>
  Shared vocabulary of the SafeTrail development: the id and time types of
  \<^verbatim>\<open>include/safetrail/types.hpp\<close>, the C++ integer operations whose meaning differs from
  the HOL ones, the collections that carry the component proofs, and generic list lemmas.

  Ids and sizes are naturals, with the truncation written out at the one place a wider value
  is converted. Timestamps are \<open>int64_t\<close> in the code: signed overflow there is undefined, so
  they are unbounded integers here and the places where the code relies on the bound
  (\<open>INT64_MAX\<close> as a sentinel) name it.
\<close>

named_theorems inv_intros \<open>operations preserve their component's invariant\<close>
named_theorems abs_simps \<open>operations seen through their component's abstraction\<close>

type_synonym zone_id = nat
type_synonym tourist_id = nat
type_synonym alert_id = nat
type_synonym incident_id = nat
type_synonym device_id = nat
type_synonym timestamp = int
type_synonym millis = int

definition int64_max :: int where
  "int64_max = 9223372036854775807"

definition int64_min :: int where
  "int64_min = - 9223372036854775808"

definition kForever :: timestamp where
  "kForever = int64_max"

definition kNoId :: nat where
  "kNoId = 4294967295"

definition uint32_of :: "nat \<Rightarrow> nat" where
  "uint32_of n = n mod 4294967296"

text \<open>C++ integer division truncates towards zero.\<close>

definition trunc_div :: "int \<Rightarrow> int \<Rightarrow> int" where
  "trunc_div a b =
     (let quotient = \<bar>a\<bar> div \<bar>b\<bar>
      in if (a < 0) = (b < 0) then quotient else - quotient)"

lemma trunc_div_nonneg: "0 \<le> a \<Longrightarrow> 0 < b \<Longrightarrow> trunc_div a b = a div b"
  by (simp add: trunc_div_def)

lemma trunc_div_nonpos: "a \<le> 0 \<Longrightarrow> 0 < b \<Longrightarrow> trunc_div a b \<le> 0"
  by (cases "a = 0") (simp_all add: trunc_div_def Let_def pos_imp_zdiv_nonneg_iff)

lemma le_zdiv_iff: "0 < b \<Longrightarrow> e \<le> a div b \<longleftrightarrow> e * b \<le> (a::int)"
proof
  assume b: "0 < b" and e: "e \<le> a div b"
  have "e * b \<le> (a div b) * b" using b e by (simp add: mult_right_mono)
  also have "\<dots> \<le> a" using b by (simp add: div_mult_mod_eq [symmetric] minus_mod_eq_div_mult [symmetric])
  finally show "e * b \<le> a" .
next
  assume b: "0 < b" and "e * b \<le> a"
  then have "(e * b) div b \<le> a div b" by (intro zdiv_mono1)
  then show "e \<le> a div b" using b by simp
qed

section \<open>Lists updated by index\<close>

definition swap_at :: "'a list \<Rightarrow> nat \<Rightarrow> nat \<Rightarrow> 'a list" where
  "swap_at xs i j = xs[i := xs ! j, j := xs ! i]"

lemma length_swap_at [simp]: "length (swap_at xs i j) = length xs"
  by (simp add: swap_at_def)

lemma nth_swap_at:
  "i < length xs \<Longrightarrow> j < length xs \<Longrightarrow> k < length xs \<Longrightarrow>
   swap_at xs i j ! k = (if k = i then xs ! j else if k = j then xs ! i else xs ! k)"
  by (simp add: swap_at_def nth_list_update)

lemma mset_swap_at [simp]:
  "i < length xs \<Longrightarrow> j < length xs \<Longrightarrow> mset (swap_at xs i j) = mset xs"
  unfolding swap_at_def by (rule mset_swap)

lemma set_swap_at [simp]:
  "i < length xs \<Longrightarrow> j < length xs \<Longrightarrow> set (swap_at xs i j) = set xs"
  by (metis mset_swap_at set_mset_mset)

lemma mset_update_nth:
  "i < length xs \<Longrightarrow> mset (xs[i := x]) = add_mset x (mset xs - {# xs ! i #})"
  by (simp add: mset_update)

lemma length_filter_update:
  assumes "i < length xs"
  shows "length (filter P (xs[i := x])) + (if P (xs ! i) then 1 else 0)
       = length (filter P xs) + (if P x then 1 else 0)"
proof -
  have 1: "xs = take i xs @ xs ! i # drop (Suc i) xs"
    using assms by (rule id_take_nth_drop)
  have 2: "xs[i := x] = take i xs @ x # drop (Suc i) xs"
    using assms by (rule upd_conv_take_nth_drop)
  have "length (filter P xs)
      = length (filter P (take i xs @ xs ! i # drop (Suc i) xs))"
    using 1 by simp
  then show ?thesis
    unfolding 2 by simp
qed

text \<open>\<open>std::vector::pop_back\<close> after overwriting a slot with the last element: removal by swap.\<close>

definition swap_remove :: "'a list \<Rightarrow> nat \<Rightarrow> 'a list" where
  "swap_remove xs i = butlast (xs[i := last xs])"

lemma mset_butlast: "xs \<noteq> [] \<Longrightarrow> add_mset (last xs) (mset (butlast xs)) = mset xs"
  by (metis append_butlast_last_id mset_append mset.simps(1) mset.simps(2)
      union_mset_add_mset_right add.right_neutral)

lemma mset_swap_remove:
  assumes "i < length xs"
  shows "mset (swap_remove xs i) = mset xs - {# xs ! i #}"
proof -
  let ?ys = "xs[i := last xs]"
  have ne: "?ys \<noteq> []" using assms by auto
  have l: "last ?ys = last xs"
    using assms by (metis last_list_update list_update_nonempty list.size(3) not_less_zero)
  have "add_mset (last xs) (mset (butlast ?ys)) = mset ?ys"
    using mset_butlast [OF ne] l by simp
  also have "\<dots> = add_mset (last xs) (mset xs - {# xs ! i #})"
    using assms by (simp add: mset_update)
  finally show ?thesis
    by (simp add: swap_remove_def)
qed

lemma length_swap_remove [simp]: "length (swap_remove xs i) = length xs - 1"
  by (simp add: swap_remove_def)


text \<open>The index of the first element that satisfies a predicate, as a counting loop finds it.\<close>

fun first_index :: "('a \<Rightarrow> bool) \<Rightarrow> 'a list \<Rightarrow> nat option" where
  "first_index P [] = None"
| "first_index P (x # xs) = (if P x then Some 0 else map_option Suc (first_index P xs))"

lemma first_index_Some:
  "first_index P xs = Some i \<Longrightarrow> i < length xs \<and> P (xs ! i) \<and> (\<forall>j < i. \<not> P (xs ! j))"
proof (induction xs arbitrary: i)
  case (Cons x xs)
  show ?case
  proof (cases "P x")
    case False
    with Cons.prems obtain k where "first_index P xs = Some k" "i = Suc k" by auto
    then show ?thesis using Cons.IH False by (auto simp: less_Suc_eq_0_disj)
  qed (use Cons.prems in auto)
qed simp

lemma first_index_None: "first_index P xs = None \<longleftrightarrow> (\<forall>x \<in> set xs. \<not> P x)"
  by (induction xs) auto

definition trunc_mod :: "int \<Rightarrow> int \<Rightarrow> int" where
  "trunc_mod a b = a - b * trunc_div a b"

lemma trunc_mod_nonneg: "0 \<le> a \<Longrightarrow> 0 < b \<Longrightarrow> trunc_mod a b = a mod b"
  by (simp add: trunc_mod_def trunc_div_nonneg minus_mult_div_eq_mod)

lemma mset_concat_update:
  "i < length xss \<Longrightarrow>
   mset (concat (xss[i := ys])) + mset (xss ! i) = mset (concat xss) + mset ys"
proof (induction xss arbitrary: i)
  case (Cons xs xss)
  show ?case
  proof (cases i)
    case 0
    then show ?thesis by (simp add: ac_simps)
  next
    case (Suc k)
    then have "mset (concat (xss[k := ys])) + mset (xss ! k) = mset (concat xss) + mset ys"
      using Cons by simp
    then show ?thesis using Suc by (simp add: ac_simps)
  qed
qed simp

lemma in_set_concat_nth: "x \<in> set (concat xss) \<longleftrightarrow> (\<exists>i < length xss. x \<in> set (xss ! i))"
proof
  assume "x \<in> set (concat xss)"
  then obtain ys where "ys \<in> set xss" "x \<in> set ys" by auto
  then show "\<exists>i < length xss. x \<in> set (xss ! i)" by (metis in_set_conv_nth)
next
  assume "\<exists>i < length xss. x \<in> set (xss ! i)"
  then show "x \<in> set (concat xss)" using nth_mem by fastforce
qed

lemma filter_mset_none: "(\<And>x. x \<in># M \<Longrightarrow> \<not> P x) \<Longrightarrow> filter_mset P M = {#}"
  by (induction M) auto

lemma filter_mset_all: "(\<And>x. x \<in># M \<Longrightarrow> P x) \<Longrightarrow> filter_mset P M = M"
  by (induction M) auto

lemma mset_set_list:
  assumes "mset xs = mset_set A" "finite A"
  shows "distinct xs" "set xs = A"
proof -
  show s: "set xs = A"
    using arg_cong [OF assms(1), of set_mset] assms(2) by simp
  show "distinct xs"
    unfolding distinct_count_atmost_1 assms(1) s using assms(2) by simp
qed

end
