(* ===== verification/Circular_Buffer.thy ===== *)
theory Circular_Buffer
  imports Prelude
begin

text \<open>
  The ring buffer of \<^verbatim>\<open>include/safetrail/ds/circular_buffer.hpp\<close>: an array of N slots, the
  slot the next push writes, and the number of live entries. Index 0 is the newest entry. The
  abstraction \<open>cb_list\<close> is the list of live entries, newest first; a push is then consing
  and cutting at N.
\<close>

record 'a circular_buffer =
  cb_buf :: "'a list"
  cb_head :: nat
  cb_count :: nat

definition cb_capacity :: "'a circular_buffer \<Rightarrow> nat" where
  "cb_capacity b = length (cb_buf b)"

definition cb_init :: "nat \<Rightarrow> 'a \<Rightarrow> 'a circular_buffer" where
  "cb_init N d = \<lparr>cb_buf = replicate N d, cb_head = 0, cb_count = 0\<rparr>"

definition cb_push :: "'a circular_buffer \<Rightarrow> 'a \<Rightarrow> 'a circular_buffer" where
  "cb_push b v =
     (let N = cb_capacity b
      in b\<lparr>cb_buf := (cb_buf b)[cb_head b := v],
           cb_head := (cb_head b + 1) mod N,
           cb_count := (if cb_count b < N then cb_count b + 1 else cb_count b)\<rparr>)"

definition cb_empty :: "'a circular_buffer \<Rightarrow> bool" where
  "cb_empty b \<longleftrightarrow> cb_count b = 0"

definition cb_clear :: "'a circular_buffer \<Rightarrow> 'a circular_buffer" where
  "cb_clear b = b\<lparr>cb_head := 0, cb_count := 0\<rparr>"

definition cb_slot :: "'a circular_buffer \<Rightarrow> nat \<Rightarrow> nat" where
  "cb_slot b i =
     (let N = cb_capacity b
      in (cb_head b + N - 1 - i mod (if cb_count b \<noteq> 0 then cb_count b else 1)) mod N)"

definition cb_get :: "'a circular_buffer \<Rightarrow> nat \<Rightarrow> 'a" where
  "cb_get b i = cb_buf b ! cb_slot b i"

definition cb_newest :: "'a circular_buffer \<Rightarrow> 'a" where
  "cb_newest b = cb_get b 0"

definition cb_oldest :: "'a circular_buffer \<Rightarrow> 'a" where
  "cb_oldest b = cb_get b (if cb_count b \<noteq> 0 then cb_count b - 1 else 0)"

section \<open>Invariant and abstraction\<close>

definition cb_inv :: "'a circular_buffer \<Rightarrow> bool" where
  "cb_inv b \<longleftrightarrow> cb_head b < cb_capacity b \<and> cb_count b \<le> cb_capacity b"

definition cb_list :: "'a circular_buffer \<Rightarrow> 'a list" where
  "cb_list b = map (cb_get b) [0..<cb_count b]"

lemma cb_init_inv [inv_intros]: "0 < N \<Longrightarrow> cb_inv (cb_init N d)"
  by (simp add: cb_inv_def cb_init_def cb_capacity_def)

lemma cb_push_inv [inv_intros]: "cb_inv b \<Longrightarrow> cb_inv (cb_push b v)"
  by (auto simp: cb_inv_def cb_push_def cb_capacity_def Let_def intro!: mod_less_divisor)

lemma cb_clear_inv [inv_intros]: "cb_inv b \<Longrightarrow> cb_inv (cb_clear b)"
  by (auto simp: cb_inv_def cb_clear_def cb_capacity_def)

lemma cb_capacity_push [simp]: "cb_capacity (cb_push b v) = cb_capacity b"
  by (simp add: cb_push_def cb_capacity_def Let_def)

lemma cb_list_init [abs_simps]: "cb_list (cb_init N d) = []"
  by (simp add: cb_list_def cb_init_def)

lemma cb_list_clear [abs_simps]: "cb_list (cb_clear b) = []"
  by (simp add: cb_list_def cb_clear_def)

lemma length_cb_list [simp]: "length (cb_list b) = cb_count b"
  by (simp add: cb_list_def)

text \<open>No read goes outside the array, whatever index a caller passes.\<close>

lemma cb_slot_bound: "cb_inv b \<Longrightarrow> cb_slot b i < cb_capacity b"
  by (simp add: cb_slot_def cb_inv_def Let_def)

lemma cb_slot_live:
  assumes "cb_inv b" "i < cb_count b"
  shows "cb_slot b i = (if i < cb_head b then cb_head b - 1 - i
                        else cb_head b + cb_capacity b - 1 - i)"
proof -
  let ?N = "cb_capacity b" and ?h = "cb_head b"
  have m: "i mod cb_count b = i" and h: "?h < ?N" and iN: "i < ?N"
    using assms by (auto simp: cb_inv_def)
  have e: "cb_slot b i = (?h + ?N - 1 - i) mod ?N"
    using assms m by (simp add: cb_slot_def Let_def)
  show ?thesis
  proof (cases "i < ?h")
    case True
    then have "?h + ?N - 1 - i = (?h - 1 - i) + ?N" using h by arith
    then have "(?h + ?N - 1 - i) mod ?N = (?h - 1 - i) mod ?N" by simp
    then show ?thesis using True h e by simp
  next
    case False
    then have "?h + ?N - 1 - i < ?N" using iN h by arith
    then show ?thesis using False e by simp
  qed
qed

lemma cb_push_get_0:
  assumes "cb_inv b"
  shows "cb_get (cb_push b v) 0 = v"
proof -
  let ?N = "cb_capacity b" and ?c = "cb_push b v"
  have h: "cb_head b < ?N" using assms by (simp add: cb_inv_def)
  have "0 < cb_count ?c"
    using h by (auto simp: cb_push_def Let_def)
  moreover have "cb_head ?c = (cb_head b + 1) mod ?N"
    by (simp add: cb_push_def Let_def)
  ultimately have "cb_slot ?c 0 = cb_head b"
    using cb_slot_live [of ?c 0] cb_push_inv [OF assms] h
    by (cases "cb_head b + 1 = ?N") (auto simp: mod_less)
  then show ?thesis
    using h by (simp add: cb_get_def cb_push_def Let_def cb_capacity_def)
qed

lemma cb_push_get_Suc:
  assumes "cb_inv b" "i < cb_count b" "Suc i < cb_capacity b"
  shows "cb_get (cb_push b v) (Suc i) = cb_get b i"
proof -
  let ?N = "cb_capacity b" and ?c = "cb_push b v"
  have h: "cb_head b < ?N" using assms by (simp add: cb_inv_def)
  have hc: "cb_head ?c = (cb_head b + 1) mod ?N"
    by (simp add: cb_push_def Let_def)
  have "Suc i < cb_count ?c"
    using assms by (auto simp: cb_push_def Let_def)
  then have "cb_slot ?c (Suc i) = cb_slot b i"
    using cb_slot_live [of ?c "Suc i"] cb_slot_live [OF assms(1,2)] cb_push_inv [OF assms(1)] h hc
      assms(3)
    by (cases "cb_head b + 1 = ?N") (auto simp: mod_less)
  moreover have "cb_slot b i \<noteq> cb_head b"
    using cb_slot_live [OF assms(1,2)] assms(3) h by auto
  ultimately show ?thesis
    by (simp add: cb_get_def cb_push_def Let_def)
qed

lemma cb_list_push [abs_simps]:
  assumes "cb_inv b"
  shows "cb_list (cb_push b v) = take (cb_capacity b) (v # cb_list b)"
proof (rule nth_equalityI)
  have c: "cb_count (cb_push b v) = min (cb_capacity b) (Suc (cb_count b))"
    using assms by (auto simp: cb_push_def Let_def cb_inv_def)
  show "length (cb_list (cb_push b v)) = length (take (cb_capacity b) (v # cb_list b))"
    by (simp add: c)
  fix i assume "i < length (cb_list (cb_push b v))"
  then have i: "i < min (cb_capacity b) (Suc (cb_count b))" by (simp add: c)
  then show "cb_list (cb_push b v) ! i = take (cb_capacity b) (v # cb_list b) ! i"
    using assms by (cases i) (auto simp: cb_list_def c cb_push_get_0 cb_push_get_Suc)
qed

lemma cb_newest_list: "0 < cb_count b \<Longrightarrow> cb_newest b = hd (cb_list b)"
  by (simp add: cb_newest_def cb_list_def hd_map)

lemma cb_oldest_list: "0 < cb_count b \<Longrightarrow> cb_oldest b = last (cb_list b)"
  by (simp add: cb_oldest_def cb_list_def last_map)

section \<open>The state of a session of pushes\<close>

definition cb_pushes :: "'a circular_buffer \<Rightarrow> 'a list \<Rightarrow> 'a circular_buffer" where
  "cb_pushes = foldl cb_push"

lemma cb_pushes_inv: "cb_inv b \<Longrightarrow> cb_inv (cb_pushes b vs)"
  by (induction vs arbitrary: b) (auto simp: cb_pushes_def intro: inv_intros)

lemma cb_capacity_pushes [simp]: "cb_capacity (cb_pushes b vs) = cb_capacity b"
  by (induction vs arbitrary: b) (auto simp: cb_pushes_def)

lemma cb_list_pushes:
  "cb_inv b \<Longrightarrow> cb_list (cb_pushes b vs) = take (cb_capacity b) (rev vs @ cb_list b)"
proof (induction vs arbitrary: b)
  case Nil
  then show ?case by (auto simp: cb_pushes_def cb_inv_def)
next
  case (Cons v vs)
  then have "cb_list (cb_pushes (cb_push b v) vs)
      = take (cb_capacity b) (rev vs @ take (cb_capacity b) (v # cb_list b))"
    by (simp add: inv_intros abs_simps)
  then show ?case
    by (simp add: cb_pushes_def take_add min_def)
qed

section \<open>Properties\<close>

text \<open>After any sequence of pushes into a fresh buffer of N slots the live entries, read
  from index 0 up, are the last N values pushed, newest first; and no index a caller passes makes
  the buffer read outside its array.\<close>

lemma ring_buffer_keeps_newest:
  assumes "0 < N"
  shows "cb_list (cb_pushes (cb_init N d) vs) = take N (rev vs) \<and>
    cb_slot (cb_pushes (cb_init N d) vs) i < N"
proof -
  have "cb_inv (cb_init N d)" using assms by (rule cb_init_inv)
  moreover have "cb_capacity (cb_init N d) = N" by (simp add: cb_capacity_def cb_init_def)
  ultimately show ?thesis
    using cb_list_pushes cb_slot_bound [OF cb_pushes_inv] by (metis append_Nil2 cb_capacity_pushes cb_list_init)
qed

lemma ring_buffer_keeps_newest_witness:
  "cb_list (cb_pushes (cb_init 3 (0::nat)) [1, 2, 3, 4]) = [4, 3, 2] \<and>
   cb_slot (cb_pushes (cb_init 3 (0::nat)) [1, 2, 3, 4]) 7 < 3"
  using ring_buffer_keeps_newest [of 3 "0::nat" "[1, 2, 3, 4]" 7] by simp

end
