(* ===== verification/Binary_Heap.thy ===== *)
theory Binary_Heap
  imports Prelude
begin

text \<open>
  The array-backed binary heap of \<^verbatim>\<open>include/safetrail/ds/priority_queue.hpp\<close>. The
  comparator is the template parameter \<open>Less\<close>; \<open>lt a b\<close> means that \<open>a\<close> pops before
  \<open>b\<close>. The laws a comparator must obey (a strict weak order) are the locale \<open>heap_order\<close>;
  the heap lemmas are proved once inside it and each user of the heap interprets it on the
  comparator it passes.
\<close>

definition heap_parent :: "nat \<Rightarrow> nat" where
  "heap_parent i = (i - 1) div 2"

lemma heap_parent_less: "0 < i \<Longrightarrow> heap_parent i < i"
  by (simp add: heap_parent_def)

lemma heap_parent_iff: "0 < j \<Longrightarrow> heap_parent j = i \<longleftrightarrow> j = 2 * i + 1 \<or> j = 2 * i + 2"
  unfolding heap_parent_def by arith

function sift_up :: "('a \<Rightarrow> 'a \<Rightarrow> bool) \<Rightarrow> 'a list \<Rightarrow> nat \<Rightarrow> 'a list" where
  "sift_up lt xs i =
     (if 0 < i then
        let parent = heap_parent i
        in if \<not> lt (xs ! i) (xs ! parent) then xs
           else sift_up lt (swap_at xs i parent) parent
      else xs)"
  by pat_completeness auto
termination
  by (relation "measure (\<lambda>(lt, xs, i). i)") (auto simp: heap_parent_less)

declare sift_up.simps [simp del]

definition best_child :: "('a \<Rightarrow> 'a \<Rightarrow> bool) \<Rightarrow> 'a list \<Rightarrow> nat \<Rightarrow> nat" where
  "best_child lt xs i =
     (let n = length xs; l = 2 * i + 1; r = 2 * i + 2;
          best = (if l < n \<and> lt (xs ! l) (xs ! i) then l else i)
      in if r < n \<and> lt (xs ! r) (xs ! best) then r else best)"

lemma best_child_cases:
  "best_child lt xs i = i \<or>
   (i < best_child lt xs i \<and> best_child lt xs i < length xs \<and>
    (best_child lt xs i = 2 * i + 1 \<or> best_child lt xs i = 2 * i + 2))"
  by (auto simp: best_child_def Let_def)

function sift_down :: "('a \<Rightarrow> 'a \<Rightarrow> bool) \<Rightarrow> 'a list \<Rightarrow> nat \<Rightarrow> 'a list" where
  "sift_down lt xs i =
     (let best = best_child lt xs i
      in if best = i then xs else sift_down lt (swap_at xs i best) best)"
  by pat_completeness auto
termination
proof (relation "measure (\<lambda>(lt, xs, i). length xs - i)", simp)
  fix lt :: "'a \<Rightarrow> 'a \<Rightarrow> bool" and xs i best
  assume "best = best_child lt xs i" "best \<noteq> i"
  then show "((lt, swap_at xs i best, best), lt, xs, i)
    \<in> measure (\<lambda>(lt, xs, i). length xs - i)"
    using best_child_cases [of lt xs i] by auto
qed

declare sift_down.simps [simp del]

definition heap_push :: "('a \<Rightarrow> 'a \<Rightarrow> bool) \<Rightarrow> 'a list \<Rightarrow> 'a \<Rightarrow> 'a list" where
  "heap_push lt h v = (let h' = h @ [v] in sift_up lt h' (length h' - 1))"

definition heap_top :: "'a list \<Rightarrow> 'a" where
  "heap_top h = hd h"

text \<open>Undefined on an empty heap in the code (the caller checks); \<open>None\<close> here.\<close>

definition heap_pop :: "('a \<Rightarrow> 'a \<Rightarrow> bool) \<Rightarrow> 'a list \<Rightarrow> ('a \<times> 'a list) option" where
  "heap_pop lt h =
     (if h = [] then None
      else let out = hd h; h' = butlast (h[0 := last h])
           in Some (out, if h' = [] then h' else sift_down lt h' 0))"

text \<open>The loop every client runs: pop at most n times.\<close>

primrec heap_drain :: "('a \<Rightarrow> 'a \<Rightarrow> bool) \<Rightarrow> nat \<Rightarrow> 'a list \<Rightarrow> 'a list" where
  "heap_drain lt 0 h = []"
| "heap_drain lt (Suc n) h =
     (case heap_pop lt h of None \<Rightarrow> [] | Some (x, h') \<Rightarrow> x # heap_drain lt n h')"

section \<open>The heap property\<close>

definition heap_ordered :: "('a \<Rightarrow> 'a \<Rightarrow> bool) \<Rightarrow> 'a list \<Rightarrow> bool" where
  "heap_ordered lt xs \<longleftrightarrow>
     (\<forall>i. 0 < i \<and> i < length xs \<longrightarrow> \<not> lt (xs ! i) (xs ! (heap_parent i)))"

lemma length_sift_up [simp]: "length (sift_up lt xs i) = length xs"
  by (induction lt xs i rule: sift_up.induct) (subst sift_up.simps, simp add: Let_def)

lemma mset_sift_up: "i < length xs \<Longrightarrow> mset (sift_up lt xs i) = mset xs"
proof (induction lt xs i rule: sift_up.induct)
  case (1 lt xs i)
  then show ?case
    using heap_parent_less [of i] by (subst sift_up.simps) (auto simp: Let_def)
qed

lemma length_sift_down [simp]: "length (sift_down lt xs i) = length xs"
  by (induction lt xs i rule: sift_down.induct) (subst sift_down.simps, simp add: Let_def)

lemma mset_sift_down: "i < length xs \<Longrightarrow> mset (sift_down lt xs i) = mset xs"
proof (induction lt xs i rule: sift_down.induct)
  case (1 lt xs i)
  then show ?case
    using best_child_cases [of lt xs i] by (subst sift_down.simps) (auto simp: Let_def)
qed

locale heap_order =
  fixes lt :: "'a \<Rightarrow> 'a \<Rightarrow> bool"
  assumes asym: "lt a b \<Longrightarrow> \<not> lt b a"
    and neg_trans: "\<not> lt a b \<Longrightarrow> \<not> lt b c \<Longrightarrow> \<not> lt a c"
begin

lemma irrefl: "\<not> lt a a"
  using asym by blast

lemma less_neg_trans: "lt a b \<Longrightarrow> \<not> lt c b \<Longrightarrow> \<not> lt c a"
  using asym neg_trans by blast

text \<open>
  While an element travels up from position \<open>i\<close>, every edge but the one above \<open>i\<close> is in
  order, and the children of \<open>i\<close> are in order with the parent of \<open>i\<close>.
\<close>

definition up_ok :: "'a list \<Rightarrow> nat \<Rightarrow> bool" where
  "up_ok xs i \<longleftrightarrow>
     (\<forall>j. 0 < j \<and> j < length xs \<and> j \<noteq> i \<longrightarrow> \<not> lt (xs ! j) (xs ! (heap_parent j))) \<and>
     (0 < i \<longrightarrow> (\<forall>j. 0 < j \<and> j < length xs \<and> heap_parent j = i \<longrightarrow>
        \<not> lt (xs ! j) (xs ! (heap_parent i))))"

lemma up_ok_step:
  assumes "up_ok xs i" "0 < i" "i < length xs" "lt (xs ! i) (xs ! (heap_parent i))"
  shows "up_ok (swap_at xs i (heap_parent i)) (heap_parent i)"
proof -
  let ?p = "heap_parent i"
  let ?ys = "swap_at xs i ?p"
  have p: "?p < length xs" "?p < i" using assms(2,3) heap_parent_less [of i] by auto
  have nth: "\<And>k. k < length xs \<Longrightarrow>
      ?ys ! k = (if k = i then xs ! ?p else if k = ?p then xs ! i else xs ! k)"
    using p assms(3) by (simp add: nth_swap_at)
  have ok: "\<And>j. 0 < j \<Longrightarrow> j < length xs \<Longrightarrow> j \<noteq> i \<Longrightarrow> \<not> lt (xs ! j) (xs ! (heap_parent j))"
    and kids: "\<And>j. 0 < j \<Longrightarrow> j < length xs \<Longrightarrow> heap_parent j = i \<Longrightarrow> \<not> lt (xs ! j) (xs ! ?p)"
    using assms(1,2) by (auto simp: up_ok_def)
  have A: "\<not> lt (?ys ! j) (?ys ! (heap_parent j))"
    if j: "0 < j" "j < length xs" "j \<noteq> ?p" for j
  proof -
    have q: "heap_parent j < length xs" "heap_parent j < j" using j heap_parent_less [of j] by auto
    consider "j = i" | "j \<noteq> i" "heap_parent j = i" | "j \<noteq> i" "heap_parent j = ?p"
      | "j \<noteq> i" "heap_parent j \<noteq> i" "heap_parent j \<noteq> ?p" by blast
    then show ?thesis
    proof cases
      case 1 then show ?thesis using nth [of i] nth [of ?p] p assms(3,4) asym by auto
    next
      case 2 then show ?thesis using nth [OF j(2)] nth [OF q(1)] j kids by auto
    next
      case 3
      then have "\<not> lt (xs ! j) (xs ! ?p)" using ok [of j] j by simp
      then show ?thesis
        using nth [OF j(2)] nth [OF q(1)] j 3 p less_neg_trans [OF assms(4)] by auto
    next
      case 4 then show ?thesis using nth [OF j(2)] nth [OF q(1)] j ok by auto
    qed
  qed
  have B: "\<not> lt (?ys ! j) (?ys ! (heap_parent ?p))"
    if "0 < ?p" and j: "0 < j" "j < length xs" "heap_parent j = ?p" for j
  proof -
    have gp: "heap_parent ?p < length xs" "heap_parent ?p \<noteq> i" "heap_parent ?p \<noteq> ?p"
      using that(1) p heap_parent_less [of ?p] by auto
    have pg: "\<not> lt (xs ! ?p) (xs ! (heap_parent ?p))" using ok [of ?p] that(1) p by auto
    show ?thesis
    proof (cases "j = i")
      case True then show ?thesis using nth [OF gp(1)] nth [of i] gp pg assms(3) by auto
    next
      case False
      then have "\<not> lt (xs ! j) (xs ! ?p)" using ok [of j] j by simp
      moreover have "j \<noteq> ?p" using that(1) j(3) heap_parent_less [of ?p] by auto
      ultimately show ?thesis
        using nth [OF gp(1)] nth [OF j(2)] gp pg False neg_trans by auto
    qed
  qed
  show ?thesis unfolding up_ok_def using A B by auto
qed

lemma sift_up_heap: "up_ok xs i \<Longrightarrow> i < length xs \<Longrightarrow> heap_ordered lt (sift_up lt xs i)"
proof (induction i arbitrary: xs rule: less_induct)
  case (less i)
  show ?case
  proof (cases "0 < i \<and> lt (xs ! i) (xs ! (heap_parent i))")
    case True
    then have "heap_ordered lt
        (sift_up lt (swap_at xs i (heap_parent i)) (heap_parent i))"
      using less.prems heap_parent_less [of i] by (intro less.IH up_ok_step) auto
    then show ?thesis using True by (simp add: sift_up.simps [of lt xs i] Let_def)
  next
    case False
    have "\<not> lt (xs ! j) (xs ! (heap_parent j))" if "0 < j" "j < length xs" for j
      using that False less.prems(1) by (cases "j = i") (auto simp: up_ok_def)
    then have "heap_ordered lt xs" by (auto simp: heap_ordered_def)
    then show ?thesis using False by (auto simp: sift_up.simps [of lt xs i] Let_def)
  qed
qed

lemma push_heap_ordered:
  assumes "heap_ordered lt h"
  shows "heap_ordered lt (heap_push lt h v)"
proof -
  have par: "heap_parent j < j" if "0 < j" for j
    using that by (rule heap_parent_less)
  have "up_ok (h @ [v]) (length h)"
    unfolding up_ok_def
  proof (intro conjI allI impI)
    fix j assume j: "0 < j \<and> j < length (h @ [v]) \<and> j \<noteq> length h"
    then have "heap_parent j < length h" using par [of j] by simp
    then show "\<not> lt ((h @ [v]) ! j) ((h @ [v]) ! heap_parent j)"
      using j assms by (auto simp: heap_ordered_def nth_append)
  next
    fix j assume "0 < j \<and> j < length (h @ [v]) \<and> heap_parent j = length h"
    then have False using par [of j] by simp
    then show "\<not> lt ((h @ [v]) ! j) ((h @ [v]) ! heap_parent (length h))" ..
  qed
  then show ?thesis
    by (simp add: heap_push_def Let_def sift_up_heap)
qed

lemma mset_push: "mset (heap_push lt h v) = add_mset v (mset h)"
  by (simp add: heap_push_def Let_def mset_sift_up)

text \<open>Going down, every edge but the ones below \<open>i\<close> is in order.\<close>

definition down_ok :: "'a list \<Rightarrow> nat \<Rightarrow> bool" where
  "down_ok xs i \<longleftrightarrow>
     (\<forall>j. 0 < j \<and> j < length xs \<and> heap_parent j \<noteq> i \<longrightarrow> \<not> lt (xs ! j) (xs ! (heap_parent j))) \<and>
     (0 < i \<longrightarrow> (\<forall>j. 0 < j \<and> j < length xs \<and> heap_parent j = i \<longrightarrow>
        \<not> lt (xs ! j) (xs ! (heap_parent i))))"

lemma best_child_least:
  assumes "0 < j" "j < length xs" "heap_parent j = i"
  shows "\<not> lt (xs ! j) (xs ! best_child lt xs i)"
proof -
  let ?l = "2 * i + 1" and ?r = "2 * i + 2"
  define b where "b = (if ?l < length xs \<and> lt (xs ! ?l) (xs ! i) then ?l else i)"
  have bc: "best_child lt xs i = (if ?r < length xs \<and> lt (xs ! ?r) (xs ! b) then ?r else b)"
    by (simp add: best_child_def Let_def b_def)
  have l: "\<not> lt (xs ! ?l) (xs ! b)" if "?l < length xs"
    using that irrefl by (simp add: b_def)
  from assms heap_parent_iff [of j i] consider "j = ?l" | "j = ?r" by blast
  then show ?thesis
  proof cases
    case 1
    then have jb: "\<not> lt (xs ! j) (xs ! b)" using l assms(2) by simp
    show ?thesis
    proof (cases "?r < length xs \<and> lt (xs ! ?r) (xs ! b)")
      case True
      then have "\<not> lt (xs ! j) (xs ! ?r)" using jb less_neg_trans by blast
      then show ?thesis using True by (simp add: bc)
    next
      case False
      then have "best_child lt xs i = b" unfolding bc by (rule if_not_P)
      then show ?thesis using jb by simp
    qed
  next
    case 2
    then show ?thesis using assms(2) irrefl by (simp add: bc)
  qed
qed

lemma best_child_up:
  assumes "best_child lt xs i \<noteq> i"
  shows "lt (xs ! best_child lt xs i) (xs ! i)"
proof -
  let ?l = "2 * i + 1" and ?r = "2 * i + 2"
  define b where "b = (if ?l < length xs \<and> lt (xs ! ?l) (xs ! i) then ?l else i)"
  have bc: "best_child lt xs i = (if ?r < length xs \<and> lt (xs ! ?r) (xs ! b) then ?r else b)"
    by (simp add: best_child_def Let_def b_def)
  have b: "b = i \<or> lt (xs ! b) (xs ! i)" by (simp add: b_def)
  show ?thesis
  proof (cases "?r < length xs \<and> lt (xs ! ?r) (xs ! b)")
    case True
    then have "lt (xs ! ?r) (xs ! i)" using b asym neg_trans by blast
    then show ?thesis using True by (simp add: bc)
  next
    case False
    then have "best_child lt xs i = b" unfolding bc by (rule if_not_P)
    then show ?thesis using assms b by simp
  qed
qed

lemma down_ok_step:
  assumes "down_ok xs i" "i < length xs" "best_child lt xs i \<noteq> i"
  shows "down_ok (swap_at xs i (best_child lt xs i)) (best_child lt xs i)"
proof -
  let ?b = "best_child lt xs i"
  let ?ys = "swap_at xs i ?b"
  have b: "i < ?b" "?b < length xs" "?b = 2 * i + 1 \<or> ?b = 2 * i + 2"
    using best_child_cases [of lt xs i] assms(3) by auto
  have pb: "heap_parent ?b = i" using b heap_parent_iff [of ?b i] by simp
  have up: "lt (xs ! ?b) (xs ! i)" using assms(3) by (rule best_child_up)
  have nth: "\<And>k. k < length xs \<Longrightarrow>
      ?ys ! k = (if k = i then xs ! ?b else if k = ?b then xs ! i else xs ! k)"
    using b assms(2) by (simp add: nth_swap_at)
  have ok: "\<And>j. 0 < j \<Longrightarrow> j < length xs \<Longrightarrow> heap_parent j \<noteq> i \<Longrightarrow>
      \<not> lt (xs ! j) (xs ! heap_parent j)"
    and kids: "\<And>j. 0 < i \<Longrightarrow> 0 < j \<Longrightarrow> j < length xs \<Longrightarrow> heap_parent j = i \<Longrightarrow>
      \<not> lt (xs ! j) (xs ! heap_parent i)"
    using assms(1) by (auto simp: down_ok_def)
  have A: "\<not> lt (?ys ! j) (?ys ! heap_parent j)"
    if j: "0 < j" "j < length xs" "heap_parent j \<noteq> ?b" for j
  proof -
    have q: "heap_parent j < length xs" "heap_parent j < j"
      using j heap_parent_less [of j] by auto
    show ?thesis
    proof (cases "heap_parent j = i")
      case True
      then have y: "?ys ! heap_parent j = xs ! ?b" using nth [OF q(1)] by simp
      show ?thesis
      proof (cases "j = ?b")
        case True then show ?thesis using y nth [OF j(2)] b up asym by simp
      next
        case False
        then have "?ys ! j = xs ! j" using nth [OF j(2)] q(2) True by simp
        then show ?thesis using y best_child_least [OF j(1,2) True] by simp
      qed
    next
      case False
      then have jb: "j \<noteq> ?b" using pb by auto
      have y: "?ys ! heap_parent j = xs ! heap_parent j"
        using nth [OF q(1)] False j(3) by simp
      show ?thesis
      proof (cases "j = i")
        case True
        then show ?thesis using y nth [OF j(2)] kids [of ?b] j(1) b pb by simp
      next
        case ji: False
        then show ?thesis using y nth [OF j(2)] jb ok [OF j(1,2) False] by simp
      qed
    qed
  qed
  have B: "\<not> lt (?ys ! j) (?ys ! heap_parent ?b)"
    if j: "0 < j" "j < length xs" "heap_parent j = ?b" for j
  proof -
    have "j \<noteq> i" "j \<noteq> ?b" using j b heap_parent_less [of j] by auto
    moreover have "\<not> lt (xs ! j) (xs ! ?b)" using ok [OF j(1,2)] j(3) b by simp
    ultimately show ?thesis using nth [OF j(2)] nth [of i] pb assms(2) by simp
  qed
  show ?thesis unfolding down_ok_def using A B by auto
qed

lemma sift_down_heap: "down_ok xs i \<Longrightarrow> i < length xs \<Longrightarrow> heap_ordered lt (sift_down lt xs i)"
proof (induction "length xs - i" arbitrary: xs i rule: less_induct)
  case less
  let ?b = "best_child lt xs i"
  show ?case
  proof (cases "?b = i")
    case True
    have "\<not> lt (xs ! j) (xs ! heap_parent j)" if j: "0 < j" "j < length xs" for j
      using less.prems(1) j best_child_least [of j xs i] True
      by (cases "heap_parent j = i") (auto simp: down_ok_def)
    then show ?thesis
      using True by (auto simp: sift_down.simps [of lt xs i] heap_ordered_def)
  next
    case False
    have b: "i < ?b" "?b < length xs" using best_child_cases [of lt xs i] False by auto
    have "heap_ordered lt (sift_down lt (swap_at xs i ?b) ?b)"
      using b down_ok_step [OF less.prems False] by (intro less.hyps) auto
    then show ?thesis using False by (simp add: sift_down.simps [of lt xs i] Let_def)
  qed
qed

lemma heap_top_least:
  assumes "heap_ordered lt h" "i < length h"
  shows "\<not> lt (h ! i) (h ! 0)"
  using assms(2)
proof (induction i rule: less_induct)
  case (less i)
  show ?case
  proof (cases "i = 0")
    case True then show ?thesis using irrefl by simp
  next
    case False
    have p: "heap_parent i < i" using False by (simp add: heap_parent_less)
    then have "\<not> lt (h ! heap_parent i) (h ! 0)" using less by simp
    moreover have "\<not> lt (h ! i) (h ! heap_parent i)"
      using assms(1) less.prems False by (simp add: heap_ordered_def)
    ultimately show ?thesis using neg_trans by blast
  qed
qed

lemma pop_heap:
  assumes "heap_ordered lt h" "h \<noteq> []"
  obtains h' where "heap_pop lt h = Some (hd h, h')" "heap_ordered lt h'"
    "mset h = add_mset (hd h) (mset h')" "\<forall>x \<in> set h. \<not> lt x (hd h)"
proof -
  let ?g = "butlast (h[0 := last h])"
  let ?h' = "if ?g = [] then ?g else sift_down lt ?g 0"
  have len: "length ?g = length h - 1" by simp
  have swap: "?g = swap_remove h 0" by (simp add: swap_remove_def)
  have m: "mset ?g = mset h - {# hd h #}"
    unfolding swap using assms(2) by (subst mset_swap_remove) (auto simp: hd_conv_nth)
  have nth: "?g ! j = h ! j" if "0 < j" "j < length ?g" for j
    using that by (simp add: nth_butlast)
  have down: "down_ok ?g 0"
    unfolding down_ok_def
  proof (intro conjI allI impI)
    fix j assume j: "0 < j \<and> j < length ?g \<and> heap_parent j \<noteq> 0"
    then have "0 < heap_parent j" "heap_parent j < length ?g"
      using heap_parent_less [of j] by auto
    moreover have "j < length h" "0 < j" using j by auto
    then have "\<not> lt (h ! j) (h ! heap_parent j)"
      using assms(1) by (simp add: heap_ordered_def)
    ultimately show "\<not> lt (?g ! j) (?g ! heap_parent j)"
      using j nth [of j] nth [of "heap_parent j"] by simp
  qed simp
  have "heap_ordered lt ?h'"
    using down sift_down_heap [of ?g 0] by (auto simp: heap_ordered_def)
  moreover have "mset ?h' = mset ?g"
  proof (cases "?g = []")
    case False
    then have "mset (sift_down lt ?g 0) = mset ?g"
      by (intro mset_sift_down) (simp only: length_greater_0_conv not_False_eq_True)
    then show ?thesis using False by simp
  qed simp
  moreover have "\<forall>x \<in> set h. \<not> lt x (hd h)"
    using heap_top_least [OF assms(1)] assms(2) by (auto simp: in_set_conv_nth hd_conv_nth)
  moreover have "mset h = add_mset (hd h) (mset ?g)"
    using m assms(2) by simp
  moreover have "heap_pop lt h = Some (hd h, ?h')"
    using assms(2) by (simp add: heap_pop_def Let_def)
  ultimately show ?thesis using that by simp
qed

lemma pops_ordered:
  "heap_ordered lt h \<Longrightarrow>
   mset (heap_drain lt (length h) h) = mset h \<and> sorted_wrt (\<lambda>a b. \<not> lt b a) (heap_drain lt (length h) h)"
proof (induction "length h" arbitrary: h)
  case 0
  then show ?case by simp
next
  case (Suc n)
  then have "h \<noteq> []" by auto
  with Suc.prems obtain h' where h': "heap_pop lt h = Some (hd h, h')" "heap_ordered lt h'"
    "mset h = add_mset (hd h) (mset h')" "\<forall>x \<in> set h. \<not> lt x (hd h)"
    by (rule pop_heap)
  have "n = length h'"
    using Suc.hyps(2) arg_cong [OF h'(3), of size] by simp
  moreover have "set h = insert (hd h) (set h')"
    using arg_cong [OF h'(3), of set_mset] by simp
  moreover note IH = Suc.hyps(1) [OF \<open>n = length h'\<close> h'(2)]
  moreover have "set (heap_drain lt (length h') h') = set h'"
    using IH by (metis set_mset_mset)
  ultimately show ?case
    using h' Suc.hyps(2) [symmetric] by simp
qed

end

end
