(* ===== verification/Hash_Table.thy ===== *)
theory Hash_Table
  imports Prelude
begin

unbundle bit_operations_syntax

text \<open>
  The open-addressed hash table of \<^verbatim>\<open>include/safetrail/ds/hash_table.hpp\<close>: linear probing,
  tombstones, and a rehash that grows only when the live entries need it. The hash functor \<open>H\<close>
  is the template parameter. \<open>put\<close> calls \<open>maybe_rehash\<close>, which calls \<open>rehash\<close>, which
  calls \<open>put\<close> again; the model counts that nesting and the lemmas show that it never goes
  beyond one level (the comment in \<open>rehash\<close>), so two levels always suffice. The probe loop of
  \<open>put\<close> has no bound in the code; here it carries fuel, and \<open>hm_put_total\<close> shows that
  as much fuel as there are slots is enough.
\<close>

text \<open>The hash functor: Fibonacci hashing of integers, FNV-1a of strings, modulo the word size.\<close>

definition hash_u32 :: "nat \<Rightarrow> nat" where
  "hash_u32 k = (k * 2654435769) mod 2 ^ 32"

definition hash_u64 :: "nat \<Rightarrow> nat" where
  "hash_u64 k = (k * 11400714819323198485) mod 2 ^ 64"

definition hash_string :: "string \<Rightarrow> nat" where
  "hash_string s = foldl (\<lambda>h c. ((h XOR of_char c) * 1099511628211) mod 2 ^ 64) 1469598103934665603 s"

datatype ('k, 'v) slot = Empty | Full 'k 'v | Tomb

record ('k, 'v) hash_map =
  slots :: "('k, 'v) slot list"
  hm_count :: nat
  tombstones :: nat
  rehashes :: nat
  growths :: nat

definition hm_init :: "('k, 'v) hash_map" where
  "hm_init = \<lparr>slots = replicate 16 Empty, hm_count = 0, tombstones = 0, rehashes = 0, growths = 0\<rparr>"

definition home_slot :: "('k \<Rightarrow> nat) \<Rightarrow> ('k, 'v) hash_map \<Rightarrow> 'k \<Rightarrow> nat" where
  "home_slot H m k = H k AND (length (slots m) - 1)"

definition next_slot :: "('k, 'v) slot list \<Rightarrow> nat \<Rightarrow> nat" where
  "next_slot s i = (i + 1) AND (length s - 1)"

fun find_loop :: "('k, 'v) slot list \<Rightarrow> 'k \<Rightarrow> nat \<Rightarrow> nat \<Rightarrow> nat option" where
  "find_loop s k 0 i = None"
| "find_loop s k (Suc probes) i =
     (case s ! i of
        Empty \<Rightarrow> None
      | Full k' v \<Rightarrow> if k' = k then Some i
                    else find_loop s k probes (next_slot s i)
      | Tomb \<Rightarrow> find_loop s k probes (next_slot s i))"

definition hm_find :: "('k \<Rightarrow> nat) \<Rightarrow> ('k, 'v) hash_map \<Rightarrow> 'k \<Rightarrow> nat option" where
  "hm_find H m k = find_loop (slots m) k (length (slots m)) (home_slot H m k)"

definition hm_get :: "('k \<Rightarrow> nat) \<Rightarrow> ('k, 'v) hash_map \<Rightarrow> 'k \<Rightarrow> 'v option" where
  "hm_get H m k =
     (case hm_find H m k of
        None \<Rightarrow> None
      | Some i \<Rightarrow> (case slots m ! i of Full _ v \<Rightarrow> Some v | _ \<Rightarrow> None))"

definition hm_contains :: "('k \<Rightarrow> nat) \<Rightarrow> ('k, 'v) hash_map \<Rightarrow> 'k \<Rightarrow> bool" where
  "hm_contains H m k \<longleftrightarrow> hm_find H m k \<noteq> None"

definition hm_erase :: "('k \<Rightarrow> nat) \<Rightarrow> ('k, 'v) hash_map \<Rightarrow> 'k \<Rightarrow> bool \<times> ('k, 'v) hash_map" where
  "hm_erase H m k =
     (case hm_find H m k of
        None \<Rightarrow> (False, m)
      | Some i \<Rightarrow>
          (True, m\<lparr>slots := (slots m)[i := Tomb],
                   hm_count := hm_count m - 1,
                   tombstones := tombstones m + 1\<rparr>))"

text \<open>Mutation through the pointer that the non-const \<open>get\<close> returns.\<close>

definition hm_modify ::
  "('k \<Rightarrow> nat) \<Rightarrow> ('k, 'v) hash_map \<Rightarrow> 'k \<Rightarrow> ('v \<Rightarrow> 'v) \<Rightarrow> ('k, 'v) hash_map" where
  "hm_modify H m k f =
     (case hm_find H m k of
        None \<Rightarrow> m
      | Some i \<Rightarrow> (case slots m ! i of
                     Full k' v \<Rightarrow> m\<lparr>slots := (slots m)[i := Full k' (f v)]\<rparr>
                   | _ \<Rightarrow> m))"

text \<open>
  Where the probe loop of \<open>put\<close> stops: at the key (overwrite), or at an empty slot, with the
  first tombstone passed on the way.
\<close>

datatype probe_end = Overwrite nat | Fresh nat | Reuse nat

fun put_loop :: "('k, 'v) slot list \<Rightarrow> 'k \<Rightarrow> nat \<Rightarrow> nat \<Rightarrow> nat option \<Rightarrow> probe_end option" where
  "put_loop s k 0 i first_tomb = None"
| "put_loop s k (Suc fuel) i first_tomb =
     (case s ! i of
        Empty \<Rightarrow> Some (case first_tomb of None \<Rightarrow> Fresh i | Some t \<Rightarrow> Reuse t)
      | Tomb \<Rightarrow> put_loop s k fuel (next_slot s i)
                 (case first_tomb of None \<Rightarrow> Some i | Some t \<Rightarrow> Some t)
      | Full k' v \<Rightarrow> if k' = k then Some (Overwrite i)
                    else put_loop s k fuel (next_slot s i) first_tomb)"

definition hm_store ::
  "('k \<Rightarrow> nat) \<Rightarrow> ('k, 'v) hash_map \<Rightarrow> 'k \<Rightarrow> 'v \<Rightarrow> (bool \<times> ('k, 'v) hash_map) option" where
  "hm_store H m k v =
     (case put_loop (slots m) k (length (slots m)) (home_slot H m k) None of
        None \<Rightarrow> None
      | Some (Overwrite i) \<Rightarrow> Some (False, m\<lparr>slots := (slots m)[i := Full k v]\<rparr>)
      | Some (Fresh i) \<Rightarrow>
          Some (True, m\<lparr>slots := (slots m)[i := Full k v], hm_count := hm_count m + 1\<rparr>)
      | Some (Reuse t) \<Rightarrow>
          Some (True, m\<lparr>slots := (slots m)[t := Full k v], hm_count := hm_count m + 1,
                        tombstones := tombstones m - 1\<rparr>))"

text \<open>Reinsertion of the live entries of the old slot array, in slot order.\<close>

fun reinsert ::
  "(('k, 'v) hash_map \<Rightarrow> 'k \<Rightarrow> 'v \<Rightarrow> (bool \<times> ('k, 'v) hash_map) option) \<Rightarrow>
   ('k, 'v) slot list \<Rightarrow> ('k, 'v) hash_map \<Rightarrow> ('k, 'v) hash_map option" where
  "reinsert put [] m = Some m"
| "reinsert put (Full k v # s) m =
     (case put m k v of None \<Rightarrow> None | Some (_, m') \<Rightarrow> reinsert put s m')"
| "reinsert put (Empty # s) m = reinsert put s m"
| "reinsert put (Tomb # s) m = reinsert put s m"

definition rehash ::
  "(('k, 'v) hash_map \<Rightarrow> 'k \<Rightarrow> 'v \<Rightarrow> (bool \<times> ('k, 'v) hash_map) option) \<Rightarrow>
   ('k, 'v) hash_map \<Rightarrow> nat \<Rightarrow> ('k, 'v) hash_map option" where
  "rehash put m new_size =
     reinsert put (slots m)
       (m\<lparr>slots := replicate new_size Empty, hm_count := 0, tombstones := 0\<rparr>)"

definition live_needs_growth :: "('k, 'v) hash_map \<Rightarrow> bool" where
  "live_needs_growth m \<longleftrightarrow> (hm_count m + 1) * 10 \<ge> length (slots m) * 7"

definition maybe_rehash ::
  "(('k, 'v) hash_map \<Rightarrow> 'k \<Rightarrow> 'v \<Rightarrow> (bool \<times> ('k, 'v) hash_map) option) \<Rightarrow>
   ('k, 'v) hash_map \<Rightarrow> ('k, 'v) hash_map option" where
  "maybe_rehash put m =
     (let n = length (slots m); grow = live_needs_growth m
      in case rehash put m (if grow then n * 2 else n) of
           None \<Rightarrow> None
         | Some m' \<Rightarrow>
             Some (if grow then m'\<lparr>growths := growths m' + 1\<rparr>
                   else m'\<lparr>rehashes := rehashes m' + 1\<rparr>))"

fun put_nested ::
  "nat \<Rightarrow> ('k \<Rightarrow> nat) \<Rightarrow> ('k, 'v) hash_map \<Rightarrow> 'k \<Rightarrow> 'v \<Rightarrow>
   (bool \<times> ('k, 'v) hash_map) option" where
  "put_nested 0 H m k v = None"
| "put_nested (Suc d) H m k v =
     (if (hm_count m + tombstones m + 1) * 10 \<ge> length (slots m) * 7
      then (case maybe_rehash (put_nested d H) m of
              None \<Rightarrow> None | Some m' \<Rightarrow> hm_store H m' k v)
      else hm_store H m k v)"

declare put_nested.simps [simp del]

definition hm_put ::
  "('k \<Rightarrow> nat) \<Rightarrow> ('k, 'v) hash_map \<Rightarrow> 'k \<Rightarrow> 'v \<Rightarrow> (bool \<times> ('k, 'v) hash_map) option" where
  "hm_put H m k v = put_nested 2 H m k v"

text \<open>The live entries in slot order, as \<open>for_each\<close> visits them.\<close>

fun live :: "('k, 'v) slot list \<Rightarrow> ('k \<times> 'v) list" where
  "live [] = []"
| "live (Full k v # s) = (k, v) # live s"
| "live (Empty # s) = live s"
| "live (Tomb # s) = live s"

definition hm_entries :: "('k, 'v) hash_map \<Rightarrow> ('k \<times> 'v) list" where
  "hm_entries m = live (slots m)"


section \<open>Slot arrays\<close>

lemma and_size_mask: "(x::nat) AND (2 ^ j - 1) = x mod 2 ^ j"
  unfolding mask_eq_exp_minus_1 [symmetric] take_bit_eq_mask [symmetric] by (rule take_bit_eq_mod)

lemma live_append [simp]: "live (s @ t) = live s @ live t"
  by (induction s rule: live.induct) simp_all

lemma set_live: "set (live s) = {(k, v). Full k v \<in> set s}"
  by (induction s rule: live.induct) auto

lemma live_replicate_Empty [simp]: "live (replicate n Empty) = []"
  by (induction n) simp_all

definition slot_live :: "('k, 'v) slot \<Rightarrow> ('k \<times> 'v) list" where
  "slot_live x = live [x]"

lemma slot_live_simps [simp]:
  "slot_live Empty = []" "slot_live Tomb = []" "slot_live (Full k v) = [(k, v)]"
  by (simp_all add: slot_live_def)

lemma live_split:
  "p < length s \<Longrightarrow> live s = live (take p s) @ slot_live (s ! p) @ live (drop (Suc p) s)"
  by (metis append_Cons append_Nil id_take_nth_drop live_append slot_live_def)

lemma live_update:
  "p < length s \<Longrightarrow> live (s[p := x]) = live (take p s) @ slot_live x @ live (drop (Suc p) s)"
  by (metis append_Cons append_Nil upd_conv_take_nth_drop live_append slot_live_def)

definition tomb_count :: "('k, 'v) slot list \<Rightarrow> nat" where
  "tomb_count s = length (filter (\<lambda>x. x = Tomb) s)"

lemma tomb_count_update:
  "p < length s \<Longrightarrow> tomb_count (s[p := x]) + (if s ! p = Tomb then 1 else 0)
     = tomb_count s + (if x = Tomb then 1 else 0)"
  unfolding tomb_count_def by (rule length_filter_update)

lemma tomb_count_replicate [simp]: "tomb_count (replicate n Empty) = 0"
  by (simp add: tomb_count_def)

lemma occupied_bound: "length (live s) + tomb_count s + length (filter (\<lambda>x. x = Empty) s) = length s"
  by (induction s rule: live.induct) (auto simp: tomb_count_def)

text \<open>The d-th slot of the probe sequence that starts at slot h.\<close>

definition probe :: "('k, 'v) slot list \<Rightarrow> nat \<Rightarrow> nat \<Rightarrow> nat" where
  "probe s h d = (h + d) mod length s"

lemma probe_bound [simp]: "s \<noteq> [] \<Longrightarrow> probe s h d < length s"
  by (simp add: probe_def)

lemma probe_update [simp]: "probe (s[p := x]) h d = probe s h d"
  by (simp add: probe_def)

lemma probe_0: "h < length s \<Longrightarrow> probe s h 0 = h"
  by (simp add: probe_def)

lemma probe_Suc_start: "probe s (Suc h mod length s) d = probe s h (Suc d)"
  by (simp add: probe_def mod_add_left_eq)

lemma probe_next: "Suc (probe s h d) mod length s = probe s h (Suc d)"
  by (simp add: probe_def mod_Suc_eq)

lemma probe_reaches:
  assumes "p < length s" "h < length s"
  obtains d where "d < length s" "probe s h d = p"
proof (cases "h \<le> p")
  case True
  then show ?thesis using assms by (intro that [of "p - h"]) (auto simp: probe_def)
next
  case False
  then show ?thesis using assms by (intro that [of "p + length s - h"]) (auto simp: probe_def)
qed

text \<open>An entry is reachable: no empty slot lies between its key's home slot and it.\<close>

definition chained :: "('k, 'v) slot list \<Rightarrow> nat \<Rightarrow> nat \<Rightarrow> bool" where
  "chained s h p \<longleftrightarrow> (\<exists>d < length s. p = probe s h d \<and> (\<forall>e < d. s ! probe s h e \<noteq> Empty))"

lemma chained_update:
  assumes "chained s h p" "s \<noteq> []" "x \<noteq> Empty"
  shows "chained (s[q := x]) h p"
proof -
  obtain d where "d < length s" "p = probe s h d" "\<forall>e < d. s ! probe s h e \<noteq> Empty"
    using assms(1) by (auto simp: chained_def)
  then show ?thesis
    using assms(2,3) unfolding chained_def
    by (cases "q < length s") (auto simp: nth_list_update list_update_beyond intro!: exI [of _ d])
qed

section \<open>The two probe loops\<close>

definition pow2_slots :: "('k, 'v) slot list \<Rightarrow> bool" where
  "pow2_slots s \<longleftrightarrow> (\<exists>j. length s = 2 ^ j)"

lemma pow2_slots_nonempty: "pow2_slots s \<Longrightarrow> s \<noteq> []"
  by (auto simp: pow2_slots_def)

lemma pow2_slots_and: "pow2_slots s \<Longrightarrow> x AND (length s - 1) = x mod length s"
  unfolding pow2_slots_def using and_size_mask by auto

lemma next_slot_mod: "pow2_slots s \<Longrightarrow> next_slot s i = Suc i mod length s"
  unfolding next_slot_def by (simp only: pow2_slots_and Suc_eq_plus1)

lemma home_slot_mod: "pow2_slots (slots m) \<Longrightarrow> home_slot H m k = H k mod length (slots m)"
  unfolding home_slot_def by (rule pow2_slots_and)

lemma pow2_slots_update [simp]: "pow2_slots (s[p := x]) = pow2_slots s"
  by (simp add: pow2_slots_def)

lemma find_loop_sound:
  "pow2_slots s \<Longrightarrow> i < length s \<Longrightarrow> find_loop s k f i = Some p \<Longrightarrow>
   p < length s \<and> (\<exists>v. s ! p = Full k v)"
proof (induction s k f i rule: find_loop.induct)
  case (2 s k f i)
  have "next_slot s i < length s"
    using 2 by (simp add: next_slot_mod pow2_slots_nonempty)
  then show ?case
    using 2 by (auto split: slot.splits if_splits)
qed simp

lemma find_loop_complete:
  assumes "pow2_slots s"
  shows "d < f \<Longrightarrow> i < length s \<Longrightarrow> s ! probe s i d = Full k v \<Longrightarrow>
         \<forall>e < d. s ! probe s i e \<noteq> Empty \<Longrightarrow> find_loop s k f i \<noteq> None"
proof (induction f arbitrary: i d)
  case (Suc f)
  let ?i = "Suc i mod length s"
  have n: "next_slot s i = ?i" "?i < length s"
    using assms by (simp_all add: next_slot_mod pow2_slots_nonempty)
  have pi: "probe s i 0 = i" using Suc.prems(2) by (rule probe_0)
  have rec: "find_loop s k f ?i \<noteq> None" if d: "0 < d"
  proof -
    obtain d' where d': "d = Suc d'" using d by (cases d) auto
    have "\<forall>e < d'. s ! probe s ?i e \<noteq> Empty"
      using Suc.prems(4) d' by (simp add: probe_Suc_start)
    moreover have "s ! probe s ?i d' = Full k v"
      using Suc.prems(3) d' by (simp add: probe_Suc_start)
    ultimately show ?thesis
      using Suc.prems(1) d' n(2) by (intro Suc.IH [of d']) auto
  qed
  show ?case
  proof (cases "s ! i")
    case Empty
    then show ?thesis using Suc.prems pi by (cases d) auto
  next
    case (Full k' v')
    then show ?thesis using Suc.prems rec pi n by (cases d) auto
  next
    case Tomb
    then show ?thesis using Suc.prems rec pi n by (cases d) auto
  qed
qed simp

text \<open>The slots the probe loop of \<open>put\<close> passed: neither empty nor holding the key.\<close>

definition passed :: "('k, 'v) slot list \<Rightarrow> 'k \<Rightarrow> nat \<Rightarrow> nat \<Rightarrow> bool" where
  "passed s k h c \<longleftrightarrow>
     (\<forall>e < c. s ! probe s h e \<noteq> Empty \<and> (\<forall>v. s ! probe s h e \<noteq> Full k v))"

definition tomb_seen :: "('k, 'v) slot list \<Rightarrow> nat \<Rightarrow> nat \<Rightarrow> nat option \<Rightarrow> bool" where
  "tomb_seen s h c t \<longleftrightarrow>
     (case t of None \<Rightarrow> True | Some t \<Rightarrow> \<exists>e < c. t = probe s h e \<and> s ! t = Tomb)"

fun probe_end_ok :: "('k, 'v) slot list \<Rightarrow> 'k \<Rightarrow> nat \<Rightarrow> nat \<Rightarrow> probe_end \<Rightarrow> bool" where
  "probe_end_ok s k h N (Overwrite p) \<longleftrightarrow>
     (\<exists>d < N. p = probe s h d \<and> passed s k h d \<and> (\<exists>v. s ! p = Full k v))"
| "probe_end_ok s k h N (Fresh p) \<longleftrightarrow>
     (\<exists>d < N. p = probe s h d \<and> passed s k h d \<and> s ! p = Empty)"
| "probe_end_ok s k h N (Reuse t) \<longleftrightarrow>
     (\<exists>d < N. passed s k h d \<and> s ! probe s h d = Empty \<and>
        (\<exists>e < d. t = probe s h e \<and> s ! t = Tomb))"

lemma passed_Suc:
  "passed s k h (Suc c) \<longleftrightarrow> passed s k h c \<and>
     s ! probe s h c \<noteq> Empty \<and> (\<forall>v. s ! probe s h c \<noteq> Full k v)"
  by (auto simp: passed_def less_Suc_eq)

lemma put_loop_ok:
  assumes "pow2_slots s"
  shows "put_loop s k f (probe s h c) t = Some r \<Longrightarrow> passed s k h c \<Longrightarrow> tomb_seen s h c t \<Longrightarrow>
         probe_end_ok s k h (c + f) r"
proof (induction f arbitrary: c t)
  case (Suc f)
  have next_probe: "next_slot s (probe s h c) = probe s h (Suc c)"
    using assms by (simp add: next_slot_mod probe_next)
  note step = Suc.IH [of "Suc c", unfolded passed_Suc]
  show ?case
  proof (cases "s ! probe s h c")
    case Empty
    show ?thesis
    proof (cases t)
      case None
      then have r: "r = Fresh (probe s h c)" using Suc.prems(1) Empty by simp
      show ?thesis unfolding r probe_end_ok.simps
        using Suc.prems(2) Empty by (intro exI [of _ c]) simp
    next
      case (Some t')
      then have r: "r = Reuse t'" using Suc.prems(1) Empty by simp
      show ?thesis unfolding r probe_end_ok.simps
        using Suc.prems(2,3) Empty Some by (intro exI [of _ c]) (simp add: tomb_seen_def)
    qed
  next
    case (Full k' v)
    show ?thesis
    proof (cases "k' = k")
      case True
      then have r: "r = Overwrite (probe s h c)" using Suc.prems(1) Full by simp
      show ?thesis unfolding r probe_end_ok.simps
        using Suc.prems(2) Full True by (intro exI [of _ c]) simp
    next
      case False
      have "tomb_seen s h (Suc c) t"
        using Suc.prems(3) by (auto simp: tomb_seen_def less_Suc_eq split: option.splits)
      then show ?thesis
        using step [of t] Suc.prems Full False next_probe by simp
    qed
  next
    case Tomb
    let ?t = "case t of None \<Rightarrow> Some (probe s h c) | Some t \<Rightarrow> Some t"
    have "tomb_seen s h (Suc c) ?t"
      using Suc.prems(3) Tomb by (auto simp: tomb_seen_def less_Suc_eq split: option.splits)
    then show ?thesis
      using step [of ?t] Suc.prems Tomb next_probe by simp
  qed
qed simp

lemma put_loop_returns:
  assumes "pow2_slots s"
  shows "d < f \<Longrightarrow> i < length s \<Longrightarrow> s ! probe s i d = Empty \<Longrightarrow> put_loop s k f i t \<noteq> None"
proof (induction f arbitrary: i d t)
  case (Suc f)
  let ?i = "Suc i mod length s"
  have n: "next_slot s i = ?i" "?i < length s"
    using assms by (simp_all add: next_slot_mod pow2_slots_nonempty)
  have pi: "probe s i 0 = i" using Suc.prems(2) by (rule probe_0)
  have rec: "put_loop s k f ?i t' \<noteq> None" if d: "0 < d" for t'
  proof -
    obtain d' where "d = Suc d'" using d by (cases d) auto
    then show ?thesis
      using Suc.prems n(2)
      by (intro Suc.IH [of d']) (auto simp: probe_Suc_start)
  qed
  show ?case
    using Suc.prems(3) rec pi n
    by (cases d; cases "s ! i") auto
qed simp


section \<open>The table invariant\<close>

definition hm_inv :: "('k \<Rightarrow> nat) \<Rightarrow> ('k, 'v) hash_map \<Rightarrow> bool" where
  "hm_inv H m \<longleftrightarrow>
     pow2_slots (slots m) \<and> 16 \<le> length (slots m) \<and>
     hm_count m = length (hm_entries m) \<and>
     tombstones m = tomb_count (slots m) \<and>
     (hm_count m + tombstones m) * 10 < length (slots m) * 7 \<and>
     distinct (map fst (hm_entries m)) \<and>
     (\<forall>p < length (slots m). \<forall>k v. slots m ! p = Full k v \<longrightarrow>
        chained (slots m) (home_slot H m k) p)"

definition hm_map :: "('k, 'v) hash_map \<Rightarrow> 'k \<rightharpoonup> 'v" where
  "hm_map m = map_of (hm_entries m)"

text \<open>Room for one more entry, as it is when \<open>hm_store\<close> runs.\<close>

definition roomy :: "('k, 'v) hash_map \<Rightarrow> bool" where
  "roomy m \<longleftrightarrow> (hm_count m + tombstones m + 1) * 10 < length (slots m) * 7"

lemma hm_invD:
  assumes "hm_inv H m"
  shows "pow2_slots (slots m)" "slots m \<noteq> []" "distinct (map fst (hm_entries m))"
    "home_slot H m k < length (slots m)"
  using assms pow2_slots_nonempty [of "slots m"]
  by (auto simp: hm_inv_def home_slot_mod)

lemma home_slot_cong: "length (slots m') = length (slots m) \<Longrightarrow> home_slot H m' k = home_slot H m k"
  by (simp add: home_slot_def)

lemma hm_init_inv [inv_intros]: "hm_inv H hm_init"
proof -
  have "pow2_slots (replicate 16 Empty :: ('a, 'b) slot list)"
    unfolding pow2_slots_def by (rule exI [of _ 4]) simp
  then show ?thesis by (simp add: hm_inv_def hm_init_def hm_entries_def)
qed

lemma hm_map_init [abs_simps]: "hm_map hm_init = Map.empty"
  by (simp add: hm_map_def hm_init_def hm_entries_def)

lemma map_of_remove_middle:
  assumes "distinct (map fst (A @ (k, v) # B))"
  shows "map_of (A @ B) = (map_of (A @ (k, v) # B))(k := None)"
proof
  fix x
  have "map_of A k = None" "map_of B k = None"
    using assms by (auto simp: map_of_eq_None_iff)
  then show "map_of (A @ B) x = ((map_of (A @ (k, v) # B))(k := None)) x"
    by (cases "x = k") (auto simp: map_add_def split: option.splits)
qed

lemma map_of_insert_middle:
  assumes "k \<notin> fst ` set A"
  shows "map_of (A @ (k, v) # B) = (map_of (A @ B))(k \<mapsto> v)"
  using assms by (simp add: map_add_upd_left dom_map_of_conv_image_fst)

lemma map_of_change_middle:
  assumes "distinct (map fst (A @ (k, w) # B))"
  shows "map_of (A @ (k, v) # B) = (map_of (A @ (k, w) # B))(k \<mapsto> v)"
proof -
  have "k \<notin> fst ` set A" using assms by auto
  then show ?thesis
    using map_of_insert_middle [of k A v B] map_of_insert_middle [of k A w B] by (metis fun_upd_upd)
qed

lemma hm_map_Full:
  assumes "hm_inv H m" "p < length (slots m)" "slots m ! p = Full k v"
  shows "hm_map m k = Some v"
proof -
  have "(k, v) \<in> set (hm_entries m)"
    using assms(2,3) by (auto simp: hm_entries_def set_live in_set_conv_nth)
  then show ?thesis using assms(1) by (simp add: hm_map_def hm_inv_def)
qed

lemma hm_map_SomeD:
  assumes "hm_map m k = Some v"
  obtains p where "p < length (slots m)" "slots m ! p = Full k v"
  using map_of_SomeD [of "hm_entries m" k v] assms
  by (auto simp: hm_map_def hm_entries_def set_live in_set_conv_nth)

section \<open>Lookup\<close>

lemma hm_find_Some:
  assumes "hm_inv H m" "hm_find H m k = Some p"
  shows "p < length (slots m) \<and> (\<exists>v. slots m ! p = Full k v)"
  using assms hm_invD [OF assms(1)] by (auto simp: hm_find_def dest: find_loop_sound)

lemma hm_find_iff:
  assumes "hm_inv H m"
  shows "hm_find H m k = None \<longleftrightarrow> hm_map m k = None"
proof
  assume n: "hm_find H m k = None"
  show "hm_map m k = None"
  proof (rule ccontr)
    assume "hm_map m k \<noteq> None"
    then obtain v p where p: "p < length (slots m)" "slots m ! p = Full k v"
      by (auto elim: hm_map_SomeD)
    then have "chained (slots m) (home_slot H m k) p"
      using assms by (auto simp: hm_inv_def)
    then obtain d where "d < length (slots m)" "p = probe (slots m) (home_slot H m k) d"
      "\<forall>e < d. slots m ! probe (slots m) (home_slot H m k) e \<noteq> Empty"
      by (auto simp: chained_def)
    then have "hm_find H m k \<noteq> None"
      using p(2) hm_invD [OF assms] unfolding hm_find_def
      by (intro find_loop_complete) auto
    then show False using n by simp
  qed
next
  assume "hm_map m k = None"
  then show "hm_find H m k = None"
    using hm_find_Some [OF assms] hm_map_Full [OF assms] by (cases "hm_find H m k") fastforce+
qed

lemma hm_get_map: "hm_inv H m \<Longrightarrow> hm_get H m k = hm_map m k"
  using hm_find_iff [of H m k] hm_find_Some [of H m k] hm_map_Full [of H m]
  by (cases "hm_find H m k") (fastforce simp: hm_get_def)+

lemma hm_contains_map: "hm_inv H m \<Longrightarrow> hm_contains H m k \<longleftrightarrow> k \<in> dom (hm_map m)"
  by (simp add: hm_contains_def hm_find_iff dom_def)

section \<open>Writing one slot\<close>

lemma hm_inv_write:
  assumes inv: "hm_inv H m" and p: "p < length (slots m)" and x: "x \<noteq> Empty"
    and s': "slots m' = (slots m)[p := x]"
    and count: "hm_count m' = length (live (slots m'))"
    and tombs: "tombstones m' = tomb_count (slots m')"
    and load: "(hm_count m' + tombstones m') * 10 < length (slots m) * 7"
    and dist: "distinct (map fst (live (slots m')))"
    and reach: "\<And>k v. x = Full k v \<Longrightarrow> chained (slots m) (home_slot H m k) p"
  shows "hm_inv H m'"
proof -
  have len: "length (slots m') = length (slots m)" by (simp add: s')
  have ne: "slots m \<noteq> []" using inv by (rule hm_invD)
  have "chained (slots m') (home_slot H m' k) q"
    if q: "q < length (slots m')" "slots m' ! q = Full k v" for q k v
  proof -
    have "chained (slots m) (home_slot H m k) q"
      using q inv reach by (cases "q = p") (auto simp: s' hm_inv_def nth_list_update)
    then show ?thesis
      using chained_update [OF _ ne x] by (simp add: s' home_slot_def)
  qed
  then show ?thesis
    using assms by (auto simp: hm_inv_def hm_entries_def)
qed

lemma hm_erase_correct:
  assumes inv: "hm_inv H m"
  shows "hm_inv H (snd (hm_erase H m k))"
    and "hm_map (snd (hm_erase H m k)) = (hm_map m)(k := None)"
    and "fst (hm_erase H m k) \<longleftrightarrow> k \<in> dom (hm_map m)"
proof -
  have "hm_inv H (snd (hm_erase H m k)) \<and>
        hm_map (snd (hm_erase H m k)) = (hm_map m)(k := None) \<and>
        (fst (hm_erase H m k) \<longleftrightarrow> k \<in> dom (hm_map m))"
  proof (cases "hm_find H m k")
    case None
    then have "hm_map m k = None" using hm_find_iff [OF inv] by simp
    then show ?thesis using None inv by (auto simp: hm_erase_def)
  next
    case (Some p)
    then obtain v where p: "p < length (slots m)" "slots m ! p = Full k v"
      using hm_find_Some [OF inv] by blast
    let ?A = "live (take p (slots m))" and ?B = "live (drop (Suc p) (slots m))"
    let ?m = "snd (hm_erase H m k)"
    have e: "hm_entries m = ?A @ (k, v) # ?B"
      unfolding hm_entries_def using live_split [OF p(1)] p(2) by simp
    have s': "slots ?m = (slots m)[p := Tomb]" by (simp add: hm_erase_def Some)
    have e': "live (slots ?m) = ?A @ ?B"
      unfolding s' using live_update [OF p(1), of Tomb] by simp
    have t': "tomb_count (slots ?m) = tombstones m + 1"
      using tomb_count_update [OF p(1), of Tomb] p(2) inv by (simp add: s' hm_inv_def)
    have c: "hm_count m = length ?A + length ?B + 1" using inv e by (simp add: hm_inv_def)
    have d: "distinct (map fst (hm_entries m))" using inv by (rule hm_invD)
    have "hm_inv H ?m"
    proof (rule hm_inv_write [OF inv p(1) _ s'])
      show "hm_count ?m = length (live (slots ?m))" using c e' by (simp add: hm_erase_def Some)
      show "tombstones ?m = tomb_count (slots ?m)" using t' by (simp add: hm_erase_def Some)
      show "(hm_count ?m + tombstones ?m) * 10 < length (slots m) * 7"
      proof -
        have "hm_count ?m + tombstones ?m = hm_count m + tombstones m"
          using c by (simp add: hm_erase_def Some)
        moreover have "(hm_count m + tombstones m) * 10 < length (slots m) * 7"
          using inv unfolding hm_inv_def by blast
        ultimately show ?thesis by (simp only:)
      qed
      show "distinct (map fst (live (slots ?m)))" using d e by (auto simp: e')
    qed simp_all
    moreover have "hm_map ?m = (hm_map m)(k := None)"
      using map_of_remove_middle [of ?A k v ?B] d e e' by (simp add: hm_map_def hm_entries_def)
    moreover have "k \<in> dom (hm_map m)" using hm_map_Full [OF inv p] by auto
    ultimately show ?thesis by (simp add: hm_erase_def Some)
  qed
  then show "hm_inv H (snd (hm_erase H m k))"
    and "hm_map (snd (hm_erase H m k)) = (hm_map m)(k := None)"
    and "fst (hm_erase H m k) \<longleftrightarrow> k \<in> dom (hm_map m)" by blast+
qed

lemma hm_modify_correct:
  assumes inv: "hm_inv H m"
  shows "hm_inv H (hm_modify H m k f) \<and>
    hm_map (hm_modify H m k f) =
      (case hm_map m k of None \<Rightarrow> hm_map m | Some v \<Rightarrow> (hm_map m)(k \<mapsto> f v)) \<and>
    hm_count (hm_modify H m k f) = hm_count m"
proof (cases "hm_find H m k")
  case None
  then show ?thesis using hm_find_iff [OF inv, of k] inv by (simp add: hm_modify_def)
next
  case (Some p)
  then obtain w where p: "p < length (slots m)" "slots m ! p = Full k w"
    using hm_find_Some [OF inv] by blast
  let ?A = "live (take p (slots m))" and ?B = "live (drop (Suc p) (slots m))"
  let ?m = "m\<lparr>slots := (slots m)[p := Full k (f w)]\<rparr>"
  have e: "hm_entries m = ?A @ (k, w) # ?B"
    unfolding hm_entries_def using live_split [OF p(1)] p(2) by simp
  have e': "live (slots ?m) = ?A @ (k, f w) # ?B"
    using live_update [OF p(1), of "Full k (f w)"] by simp
  have dst: "distinct (map fst (?A @ (k, w) # ?B))" using hm_invD(3) [OF inv] e by simp
  have t: "tomb_count (slots ?m) = tomb_count (slots m)"
    using tomb_count_update [OF p(1), of "Full k (f w)"] p(2) by simp
  have "hm_inv H ?m"
  proof (rule hm_inv_write [OF inv p(1)])
    show "distinct (map fst (live (slots ?m)))" using dst unfolding e' by simp
    show "hm_count ?m = length (live (slots ?m))" using inv e unfolding e' by (simp add: hm_inv_def)
    show "tombstones ?m = tomb_count (slots ?m)" using inv t by (simp add: hm_inv_def)
    show "(hm_count ?m + tombstones ?m) * 10 < length (slots m) * 7"
      using inv by (simp add: hm_inv_def)
    show "\<And>ka va. Full k (f w) = Full ka va \<Longrightarrow> chained (slots m) (home_slot H m ka) p"
      using inv p by (auto simp: hm_inv_def)
  qed simp_all
  moreover have "hm_map ?m = (hm_map m)(k \<mapsto> f w)"
    unfolding hm_map_def hm_entries_def [of ?m] e e' using map_of_change_middle [OF dst] .
  moreover have "hm_modify H m k f = ?m" using Some p by (simp add: hm_modify_def)
  ultimately show ?thesis using hm_map_Full [OF inv p] by simp
qed

lemma room_for_empty:
  assumes inv: "hm_inv H m"
  obtains d where "d < length (slots m)" "slots m ! probe (slots m) (home_slot H m k) d = Empty"
proof -
  have "length (live (slots m)) + tomb_count (slots m) < length (slots m)"
    using inv by (simp add: hm_inv_def hm_entries_def)
  then have "filter (\<lambda>x. x = Empty) (slots m) \<noteq> []"
    using occupied_bound [of "slots m"] by (metis add.right_neutral list.size(3) nat_less_le)
  then obtain p where "p < length (slots m)" "slots m ! p = Empty"
    by (auto simp: filter_empty_conv in_set_conv_nth)
  then show ?thesis
    using probe_reaches [of p "slots m" "home_slot H m k"] hm_invD(4) [OF inv] that by metis
qed


section \<open>Storing an entry when there is room\<close>

lemma not_full_of_passed:
  assumes inv: "hm_inv H m" and d: "d < length (slots m)"
    and pass: "passed (slots m) k (home_slot H m k) d"
    and e: "slots m ! probe (slots m) (home_slot H m k) d = Empty"
  shows "hm_map m k = None"
proof (rule ccontr)
  let ?p = "probe (slots m) (home_slot H m k)"
  assume "hm_map m k \<noteq> None"
  then obtain v q where q: "q < length (slots m)" "slots m ! q = Full k v"
    by (auto elim: hm_map_SomeD)
  then obtain c where c: "q = ?p c" "\<forall>e < c. slots m ! ?p e \<noteq> Empty"
    using inv by (fastforce simp: hm_inv_def chained_def)
  have "\<not> c < d" using pass q(2) c(1) by (auto simp: passed_def)
  moreover have "\<not> d < c" using c(2) e by auto
  moreover have "c \<noteq> d" using e q(2) c(1) by auto
  ultimately show False by simp
qed

lemma chained_of_passed:
  "passed s k h d \<Longrightarrow> e \<le> d \<Longrightarrow> e < length s \<Longrightarrow> chained s h (probe s h e)"
  by (auto simp: chained_def passed_def)

lemma hm_store_fresh:
  assumes inv: "hm_inv H m" and room: "roomy m"
    and p: "p < length (slots m)" "\<forall>k v. slots m ! p \<noteq> Full k v"
    and none: "hm_map m k = None" and ch: "chained (slots m) (home_slot H m k) p"
    and m': "slots m' = (slots m)[p := Full k v]" "hm_count m' = hm_count m + 1"
      "tombstones m' + (if slots m ! p = Tomb then 1 else 0) = tombstones m"
  shows "hm_inv H m' \<and> hm_map m' = (hm_map m)(k \<mapsto> v)"
proof -
  let ?A = "live (take p (slots m))" and ?B = "live (drop (Suc p) (slots m))"
  have "slot_live (slots m ! p) = []" using p(2) by (cases "slots m ! p") auto
  then have e: "hm_entries m = ?A @ ?B"
    unfolding hm_entries_def using live_split [OF p(1)] by simp
  have e': "live (slots m') = ?A @ (k, v) # ?B"
    unfolding m'(1) using live_update [OF p(1), of "Full k v"] by simp
  have k: "k \<notin> fst ` set (?A @ ?B)"
    using none by (simp add: hm_map_def e map_of_eq_None_iff del: map_of_append set_append)
  have t: "tombstones m' = tomb_count (slots m')"
    using tomb_count_update [OF p(1), of "Full k v"] m' inv by (simp add: hm_inv_def)
  have "hm_inv H m'"
  proof (rule hm_inv_write [OF inv p(1) _ m'(1) _ t])
    show "hm_count m' = length (live (slots m'))"
      using inv e e' m'(2) by (simp add: hm_inv_def)
    have "hm_count m' + tombstones m' \<le> hm_count m + tombstones m + 1" using m'(2,3) by simp
    then show "(hm_count m' + tombstones m') * 10 < length (slots m) * 7"
      using room unfolding roomy_def by (meson mult_le_mono1 le_less_trans)
    show "distinct (map fst (live (slots m')))"
      using hm_invD(3) [OF inv] k by (auto simp: e e')
    show "\<And>ka va. Full k v = Full ka va \<Longrightarrow> chained (slots m) (home_slot H m ka) p"
      using ch by simp
  qed simp
  moreover have "hm_map m' = (hm_map m)(k \<mapsto> v)"
    unfolding hm_map_def e hm_entries_def [of m'] e' using k by (intro map_of_insert_middle) auto
  ultimately show ?thesis by blast
qed

lemma hm_store_correct:
  assumes inv: "hm_inv H m" and room: "roomy m"
  obtains m' where "hm_store H m k v = Some (k \<notin> dom (hm_map m), m')" "hm_inv H m'"
    "hm_map m' = (hm_map m)(k \<mapsto> v)" "length (slots m') = length (slots m)"
    "hm_count m' = (if k \<in> dom (hm_map m) then hm_count m else hm_count m + 1)"
    "tombstones m' \<le> tombstones m" "growths m' = growths m" "rehashes m' = rehashes m"
proof -
  let ?h = "home_slot H m k" and ?s = "slots m"
  have h: "?h < length ?s" and pow: "pow2_slots ?s" and ne: "?s \<noteq> []"
    using hm_invD [OF inv] by auto
  obtain d where "d < length ?s" "?s ! probe ?s ?h d = Empty" using room_for_empty [OF inv] .
  then have "put_loop ?s k (length ?s) ?h None \<noteq> None"
    using pow h by (intro put_loop_returns) auto
  then obtain r where r: "put_loop ?s k (length ?s) ?h None = Some r" by blast
  then have "put_loop ?s k (length ?s) (probe ?s ?h 0) None = Some r" using h by (simp add: probe_0)
  then have ok: "probe_end_ok ?s k ?h (length ?s) r"
    using put_loop_ok [OF pow, of k "length ?s" ?h 0 None r] by (simp add: passed_def tomb_seen_def)
  show ?thesis
  proof (cases r)
    case (Overwrite p)
    then obtain w where p: "p < length ?s" "?s ! p = Full k w" using ok ne by auto
    let ?A = "live (take p ?s)" and ?B = "live (drop (Suc p) ?s)"
    let ?m = "m\<lparr>slots := ?s[p := Full k v]\<rparr>"
    have e: "hm_entries m = ?A @ (k, w) # ?B"
      unfolding hm_entries_def using live_split [OF p(1)] p(2) by simp
    have e': "live (slots ?m) = ?A @ (k, v) # ?B" using live_update [OF p(1), of "Full k v"] by simp
    have dst: "distinct (map fst (?A @ (k, w) # ?B))" using hm_invD(3) [OF inv] e by simp
    have t: "tomb_count (slots ?m) = tomb_count ?s"
      using tomb_count_update [OF p(1), of "Full k v"] p(2) by simp
    have "hm_inv H ?m"
    proof (rule hm_inv_write [OF inv p(1)])
      show "distinct (map fst (live (slots ?m)))" using dst unfolding e' by simp
      show "hm_count ?m = length (live (slots ?m))" using inv e unfolding e' by (simp add: hm_inv_def)
      show "tombstones ?m = tomb_count (slots ?m)" using inv t by (simp add: hm_inv_def)
      show "(hm_count ?m + tombstones ?m) * 10 < length ?s * 7" using inv by (simp add: hm_inv_def)
      show "\<And>ka va. Full k v = Full ka va \<Longrightarrow> chained ?s (home_slot H m ka) p"
        using inv p by (auto simp: hm_inv_def)
    qed simp_all
    moreover have "hm_map ?m = (hm_map m)(k \<mapsto> v)"
      unfolding hm_map_def hm_entries_def [of ?m] e e' using map_of_change_middle [OF dst] .
    moreover have kd: "k \<in> dom (hm_map m)" using hm_map_Full [OF inv p] by auto
    moreover have "hm_store H m k v = Some (False, ?m)" by (simp add: hm_store_def r Overwrite)
    ultimately show ?thesis by (intro that [of ?m]) auto
  next
    case (Fresh p)
    then obtain d where d: "d < length ?s" "p = probe ?s ?h d" "passed ?s k ?h d" "?s ! p = Empty"
      using ok by auto
    let ?m = "m\<lparr>slots := ?s[p := Full k v], hm_count := hm_count m + 1\<rparr>"
    have none: "hm_map m k = None" using not_full_of_passed [OF inv d(1,3)] d by simp
    have "hm_inv H ?m \<and> hm_map ?m = (hm_map m)(k \<mapsto> v)"
      using d ne none chained_of_passed [OF d(3) _ d(1)] inv room by (intro hm_store_fresh) auto
    moreover have "hm_store H m k v = Some (True, ?m)" by (simp add: hm_store_def r Fresh)
    ultimately show ?thesis using none by (intro that [of ?m]) auto
  next
    case (Reuse t)
    then obtain d e where d: "d < length ?s" "passed ?s k ?h d" "?s ! probe ?s ?h d = Empty"
      "e < d" "t = probe ?s ?h e" "?s ! t = Tomb"
      using ok by auto
    let ?m = "m\<lparr>slots := ?s[t := Full k v], hm_count := hm_count m + 1,
                tombstones := tombstones m - 1\<rparr>"
    have none: "hm_map m k = None" using not_full_of_passed [OF inv d(1,2,3)] .
    have t: "t < length ?s" using d ne by simp
    have "0 < tomb_count ?s"
      using t d(6) by (auto simp: tomb_count_def filter_empty_conv in_set_conv_nth)
    then have "0 < tombstones m" using inv by (simp add: hm_inv_def)
    then have "hm_inv H ?m \<and> hm_map ?m = (hm_map m)(k \<mapsto> v)"
      using d t none chained_of_passed [OF d(2), of e] inv room by (intro hm_store_fresh) auto
    moreover have "hm_store H m k v = Some (True, ?m)" by (simp add: hm_store_def r Reuse)
    ultimately show ?thesis using none by (intro that [of ?m]) auto
  qed
qed


section \<open>Rehashing\<close>

text \<open>
  Reinsertion into a table that is large enough never triggers another rehash, so one level of
  nesting is enough: the comment of \<open>rehash\<close>.
\<close>

lemma put_nested_roomy: "roomy m \<Longrightarrow> put_nested (Suc d) H m k v = hm_store H m k v"
  by (simp add: put_nested.simps roomy_def not_le)

lemma reinsert_correct:
  assumes "distinct (map fst (live s @ hm_entries m))" "hm_inv H m" "tombstones m = 0"
    "(hm_count m + length (live s)) * 10 < length (slots m) * 7"
  shows "\<exists>m'. (\<forall>d. reinsert (put_nested (Suc d) H) s m = Some m') \<and> hm_inv H m' \<and>
     hm_map m' = hm_map m ++ map_of (live s) \<and> length (slots m') = length (slots m) \<and>
     hm_count m' = hm_count m + length (live s) \<and> tombstones m' = 0"
  using assms
proof (induction s arbitrary: m rule: live.induct)
  case (2 k v s)
  have roomy: "roomy m" using 2(4,5) by (simp add: roomy_def)
  have k: "k \<notin> dom (hm_map m)" "k \<notin> fst ` set (live s)"
    using 2(2) by (auto simp: hm_map_def dom_map_of_conv_image_fst)
  obtain m1 where m1: "hm_store H m k v = Some (k \<notin> dom (hm_map m), m1)" "hm_inv H m1"
    "hm_map m1 = (hm_map m)(k \<mapsto> v)" "length (slots m1) = length (slots m)"
    "hm_count m1 = (if k \<in> dom (hm_map m) then hm_count m else hm_count m + 1)"
    "tombstones m1 \<le> tombstones m"
    using hm_store_correct [OF 2(3) roomy] .
  have c1: "hm_count m1 = hm_count m + 1" and t1: "tombstones m1 = 0" using m1 k(1) 2(4) by auto
  have dom1: "fst ` set (hm_entries m1) = insert k (fst ` set (hm_entries m))"
    using arg_cong [OF m1(3), of dom] by (simp add: hm_map_def dom_map_of_conv_image_fst)
  have "distinct (map fst (live s @ hm_entries m1))"
    using 2(2) dom1 hm_invD(3) [OF m1(2)] by auto
  then have "\<exists>m'. (\<forall>d. reinsert (put_nested (Suc d) H) s m1 = Some m') \<and> hm_inv H m' \<and>
     hm_map m' = hm_map m1 ++ map_of (live s) \<and> length (slots m') = length (slots m1) \<and>
     hm_count m' = hm_count m1 + length (live s) \<and> tombstones m' = 0"
    using m1(2,4) c1 t1 2(5) by (intro 2(1)) auto
  then obtain m' where m': "\<forall>d. reinsert (put_nested (Suc d) H) s m1 = Some m'" "hm_inv H m'"
     "hm_map m' = hm_map m1 ++ map_of (live s)" "length (slots m') = length (slots m1)"
     "hm_count m' = hm_count m1 + length (live s)" "tombstones m' = 0"
    by blast
  have step: "put_nested (Suc d) H m k v = Some (k \<notin> dom (hm_map m), m1)" for d
    using put_nested_roomy [OF roomy] m1(1) by simp
  have "hm_map m' = (hm_map m)(k \<mapsto> v) ++ map_of (live s)" using m'(3) m1(3) by simp
  also have "\<dots> = hm_map m ++ map_of (live (Full k v # s))"
    using k(2) by (simp add: map_add_upd_left dom_map_of_conv_image_fst)
  finally have mm: "hm_map m' = hm_map m ++ map_of (live (Full k v # s))" .
  have "\<forall>d. reinsert (put_nested (Suc d) H) (Full k v # s) m = Some m'"
    using step m'(1) by simp
  moreover have "length (slots m') = length (slots m)" using m'(4) m1(4) by simp
  moreover have "hm_count m' = hm_count m + length (live (Full k v # s))" using m'(5) c1 by simp
  ultimately show ?case using mm m'(2,6) by blast
qed auto

lemma hm_inv_fresh_array:
  assumes "hm_inv H m" "n = length (slots m) \<or> n = length (slots m) * 2"
  shows "hm_inv H (m\<lparr>slots := replicate n Empty, hm_count := 0, tombstones := 0\<rparr>)"
proof -
  obtain j where j: "length (slots m) = 2 ^ j" using assms(1) by (auto simp: hm_inv_def pow2_slots_def)
  have "n = 2 ^ j \<or> n = 2 ^ Suc j" using assms(2) j by auto
  then have "pow2_slots (replicate n Empty :: ('a, 'b) slot list)"
    unfolding pow2_slots_def by (metis length_replicate)
  then show ?thesis using assms by (auto simp: hm_inv_def hm_entries_def)
qed

lemma maybe_rehash_correct:
  assumes inv: "hm_inv H m"
  shows "\<exists>m'. (\<forall>d. maybe_rehash (put_nested (Suc d) H) m = Some m') \<and> hm_inv H m' \<and> roomy m' \<and>
     hm_map m' = hm_map m \<and> hm_count m' = hm_count m \<and>
     length (slots m') = (if live_needs_growth m then 2 else 1) * length (slots m)"
proof -
  let ?n = "if live_needs_growth m then length (slots m) * 2 else length (slots m)"
  let ?z = "m\<lparr>slots := replicate ?n Empty, hm_count := 0, tombstones := 0\<rparr>"
  have small: "(hm_count m + 1) * 10 < ?n * 7"
    using inv by (auto simp: hm_inv_def live_needs_growth_def)
  have cnt: "hm_count m = length (live (slots m))" using inv by (simp add: hm_inv_def hm_entries_def)
  have "distinct (map fst (live (slots m) @ hm_entries ?z))"
    using hm_invD(3) [OF inv] by (simp add: hm_entries_def)
  moreover have "hm_inv H ?z" using inv by (intro hm_inv_fresh_array) auto
  moreover have "(hm_count ?z + length (live (slots m))) * 10 < length (slots ?z) * 7"
    using small cnt by simp
  ultimately have "\<exists>m'. (\<forall>d. reinsert (put_nested (Suc d) H) (slots m) ?z = Some m') \<and>
     hm_inv H m' \<and> hm_map m' = hm_map ?z ++ map_of (live (slots m)) \<and>
     length (slots m') = length (slots ?z) \<and>
     hm_count m' = hm_count ?z + length (live (slots m)) \<and> tombstones m' = 0"
    by (intro reinsert_correct) auto
  then obtain m' where m': "\<forall>d. reinsert (put_nested (Suc d) H) (slots m) ?z = Some m'" "hm_inv H m'"
     "hm_map m' = hm_map ?z ++ map_of (live (slots m))" "length (slots m') = length (slots ?z)"
     "hm_count m' = hm_count ?z + length (live (slots m))" "tombstones m' = 0"
    by blast
  have mm: "hm_map m' = hm_map m" using m'(3) by (simp add: hm_map_def hm_entries_def)
  have cc: "hm_count m' = hm_count m" using m'(5) cnt by simp
  have room: "roomy m'" using small cc m'(4,6) by (simp add: roomy_def)
  let ?r = "if live_needs_growth m then m'\<lparr>growths := growths m' + 1\<rparr>
            else m'\<lparr>rehashes := rehashes m' + 1\<rparr>"
  have "\<forall>d. maybe_rehash (put_nested (Suc d) H) m = Some ?r"
    using m'(1) by (simp add: maybe_rehash_def rehash_def Let_def)
  moreover have "hm_inv H ?r" using m'(2) by (auto simp: hm_inv_def hm_entries_def home_slot_def)
  moreover have "roomy ?r" using room by (simp add: roomy_def)
  moreover have "hm_map ?r = hm_map m" using mm by (simp add: hm_map_def hm_entries_def)
  moreover have "hm_count ?r = hm_count m" using cc by simp
  moreover have "length (slots ?r) = (if live_needs_growth m then 2 else 1) * length (slots m)"
    using m'(4) by simp
  ultimately show ?thesis by blast
qed

section \<open>Insertion\<close>

lemma put_nested_correct:
  assumes inv: "hm_inv H m"
  shows "\<exists>m'. (\<forall>d. put_nested (Suc (Suc d)) H m k v = Some (k \<notin> dom (hm_map m), m')) \<and>
     hm_inv H m' \<and> hm_map m' = (hm_map m)(k \<mapsto> v) \<and>
     length (slots m') = (if \<not> roomy m \<and> live_needs_growth m then 2 else 1) * length (slots m) \<and>
     hm_count m' = (if k \<in> dom (hm_map m) then hm_count m else hm_count m + 1)"
proof (cases "roomy m")
  case True
  obtain m' where m': "hm_store H m k v = Some (k \<notin> dom (hm_map m), m')" "hm_inv H m'"
    "hm_map m' = (hm_map m)(k \<mapsto> v)" "length (slots m') = length (slots m)"
    "hm_count m' = (if k \<in> dom (hm_map m) then hm_count m else hm_count m + 1)"
    using hm_store_correct [OF inv True] .
  show ?thesis
    by (rule exI [of _ m']) (simp add: put_nested_roomy [OF True] m' True)
next
  case False
  then have trigger: "(hm_count m + tombstones m + 1) * 10 \<ge> length (slots m) * 7"
    by (simp add: roomy_def)
  obtain m1 where m1: "\<forall>d. maybe_rehash (put_nested (Suc d) H) m = Some m1" "hm_inv H m1" "roomy m1"
     "hm_map m1 = hm_map m" "hm_count m1 = hm_count m"
     "length (slots m1) = (if live_needs_growth m then 2 else 1) * length (slots m)"
    using maybe_rehash_correct [OF inv] by blast
  obtain m' where m': "hm_store H m1 k v = Some (k \<notin> dom (hm_map m1), m')" "hm_inv H m'"
    "hm_map m' = (hm_map m1)(k \<mapsto> v)" "length (slots m') = length (slots m1)"
    "hm_count m' = (if k \<in> dom (hm_map m1) then hm_count m1 else hm_count m1 + 1)"
    using hm_store_correct [OF m1(2,3)] .
  have "put_nested (Suc (Suc d)) H m k v = hm_store H m1 k v" for d
    using trigger m1(1) by (simp add: put_nested.simps(2) [of "Suc d"])
  then show ?thesis
    using m' m1 False by (intro exI [of _ m']) simp
qed

lemma hm_put_correct:
  assumes "hm_inv H m"
  obtains m' where "hm_put H m k v = Some (k \<notin> dom (hm_map m), m')" "hm_inv H m'"
    "hm_map m' = (hm_map m)(k \<mapsto> v)"
    "length (slots m') = (if \<not> roomy m \<and> live_needs_growth m then 2 else 1) * length (slots m)"
    "hm_count m' = (if k \<in> dom (hm_map m) then hm_count m else hm_count m + 1)"
  using put_nested_correct [OF assms, of k v] unfolding hm_put_def numeral_2_eq_2 by blast

lemma hm_put_nesting: "hm_inv H m \<Longrightarrow> put_nested (Suc (Suc d)) H m k v = hm_put H m k v"
  using put_nested_correct [of H m k v] unfolding hm_put_def numeral_2_eq_2 by metis

lemma hm_count_map: "hm_inv H m \<Longrightarrow> hm_count m = card (dom (hm_map m))"
  by (simp add: hm_inv_def hm_map_def dom_map_of_conv_image_fst distinct_card flip: set_map)


section \<open>The interface the rest of the engine uses\<close>

text \<open>
  What the escalation tracker and the reconciler rely on: \<open>put\<close> always returns, says whether
  the key is new, and the other operations see its effect.
\<close>

locale keyed_store =
  fixes inv :: "'s \<Rightarrow> bool"
    and empty :: 's
    and put :: "'s \<Rightarrow> 'k \<Rightarrow> 'v \<Rightarrow> (bool \<times> 's) option"
    and get :: "'s \<Rightarrow> 'k \<Rightarrow> 'v option"
    and size_of :: "'s \<Rightarrow> nat"
  assumes empty_inv: "inv empty"
    and get_empty: "get empty k = None"
    and put_returns: "inv s \<Longrightarrow> \<exists>s'. put s k v = Some (get s k = None, s')"
    and put_inv: "inv s \<Longrightarrow> put s k v = Some (b, s') \<Longrightarrow> inv s'"
    and get_put: "inv s \<Longrightarrow> put s k v = Some (b, s') \<Longrightarrow> get s' j = (if j = k then Some v else get s j)"
    and size_get: "inv s \<Longrightarrow> size_of s = card {k. get s k \<noteq> None} \<and> finite {k. get s k \<noteq> None}"
begin

lemma put_new: "inv s \<Longrightarrow> put s k v = Some (b, s') \<Longrightarrow> b \<longleftrightarrow> get s k = None"
  using put_returns [of s k v] by auto

lemma put_total:
  assumes "inv s"
  obtains s' where "put s k v = Some (get s k = None, s')" "inv s'"
    "\<And>j. get s' j = (if j = k then Some v else get s j)"
  using put_returns [OF assms, of k v] put_inv [OF assms] get_put [OF assms] by metis

lemma size_put:
  assumes "inv s" "put s k v = Some (b, s')"
  shows "size_of s' = (if b then size_of s + 1 else size_of s)"
proof -
  have "{j. get s' j \<noteq> None} = insert k {j. get s j \<noteq> None}"
    using get_put [OF assms] by auto
  then show ?thesis
    using size_get [OF assms(1)] size_get [OF put_inv [OF assms]] put_new [OF assms]
    by (simp add: card_insert_if)
qed

end

interpretation hm: keyed_store "hm_inv H" hm_init "hm_put H" "hm_get H" hm_count
  for H :: "'k \<Rightarrow> nat"
proof (unfold_locales, goal_cases)
  case 1 show ?case by (rule hm_init_inv)
next
  case (2 k) show ?case by (simp add: hm_get_map hm_init_inv hm_map_init)
next
  case (3 s k v)
  obtain m' where "hm_put H s k v = Some (k \<notin> dom (hm_map s), m')"
    using hm_put_correct [OF 3] .
  then show ?case using 3 by (simp add: hm_get_map domIff)
next
  case (4 s k v b s')
  obtain m' where "hm_put H s k v = Some (k \<notin> dom (hm_map s), m')" "hm_inv H m'"
    using hm_put_correct [OF 4(1)] .
  then show ?case using 4(2) by simp
next
  case (5 s k v b s' j)
  obtain m' where "hm_put H s k v = Some (k \<notin> dom (hm_map s), m')" "hm_inv H m'"
    "hm_map m' = (hm_map s)(k \<mapsto> v)" using hm_put_correct [OF 5(1)] .
  then show ?case using 5 by (simp add: hm_get_map)
next
  case (6 s)
  have "{k. hm_get H s k \<noteq> None} = dom (hm_map s)" using 6 by (auto simp: hm_get_map)
  then show ?case using 6 hm_count_map by (simp add: hm_map_def finite_dom_map_of)
qed

section \<open>Churn keeps the table bounded\<close>

datatype ('k, 'v) hm_op = Put 'k 'v | Erase 'k

fun hm_step :: "('k \<Rightarrow> nat) \<Rightarrow> ('k, 'v) hash_map \<Rightarrow> ('k, 'v) hm_op \<Rightarrow> ('k, 'v) hash_map option" where
  "hm_step H m (Put k v) = map_option snd (hm_put H m k v)"
| "hm_step H m (Erase k) = Some (snd (hm_erase H m k))"

fun hm_run :: "('k \<Rightarrow> nat) \<Rightarrow> ('k, 'v) hash_map \<Rightarrow> ('k, 'v) hm_op list \<Rightarrow> ('k, 'v) hash_map option" where
  "hm_run H m [] = Some m"
| "hm_run H m (x # xs) = (case hm_step H m x of None \<Rightarrow> None | Some m' \<Rightarrow> hm_run H m' xs)"

fun spec_step :: "('k \<rightharpoonup> 'v) \<Rightarrow> ('k, 'v) hm_op \<Rightarrow> ('k \<rightharpoonup> 'v)" where
  "spec_step f (Put k v) = f(k \<mapsto> v)"
| "spec_step f (Erase k) = f(k := None)"

text \<open>No more than P entries are live at any moment of the run.\<close>

fun peak :: "nat \<Rightarrow> ('k \<rightharpoonup> 'v) \<Rightarrow> ('k, 'v) hm_op list \<Rightarrow> bool" where
  "peak P f [] \<longleftrightarrow> card (dom f) \<le> P"
| "peak P f (x # xs) \<longleftrightarrow> card (dom f) \<le> P \<and> peak P (spec_step f x) xs"

lemma hm_step_correct:
  assumes "hm_inv H m"
  obtains m' where "hm_step H m x = Some m'" "hm_inv H m'" "hm_map m' = spec_step (hm_map m) x"
    "length (slots m') = length (slots m) \<or>
     (length (slots m') = 2 * length (slots m) \<and> length (slots m) * 7 \<le> (hm_count m + 1) * 10)"
proof (cases x)
  case (Put k v)
  obtain m' where m': "hm_put H m k v = Some (k \<notin> dom (hm_map m), m')" "hm_inv H m'"
    "hm_map m' = (hm_map m)(k \<mapsto> v)"
    "length (slots m') = (if \<not> roomy m \<and> live_needs_growth m then 2 else 1) * length (slots m)"
    using hm_put_correct [OF assms] .
  have "hm_step H m x = Some m'" using m'(1) Put by simp
  moreover have "hm_map m' = spec_step (hm_map m) x" using m'(3) Put by simp
  moreover have "length (slots m') = length (slots m) \<or>
     (length (slots m') = 2 * length (slots m) \<and> length (slots m) * 7 \<le> (hm_count m + 1) * 10)"
    using m'(4) by (cases "\<not> roomy m \<and> live_needs_growth m") (auto simp: live_needs_growth_def)
  ultimately show ?thesis using m'(2) that by blast
next
  case (Erase k)
  have "length (slots (snd (hm_erase H m k))) = length (slots m)"
    by (simp add: hm_erase_def split: option.split)
  then show ?thesis
    using Erase hm_erase_correct [OF assms, of k] by (intro that [of "snd (hm_erase H m k)"]) auto
qed

lemma hm_run_correct:
  assumes "hm_inv H m" "peak P (hm_map m) xs" "length (slots m) * 7 \<le> max 112 ((P + 1) * 20)"
  shows "\<exists>m'. hm_run H m xs = Some m' \<and> hm_inv H m' \<and>
     hm_map m' = foldl spec_step (hm_map m) xs \<and> length (slots m') * 7 \<le> max 112 ((P + 1) * 20)"
  using assms
proof (induction xs arbitrary: m)
  case (Cons x xs)
  obtain m1 where m1: "hm_step H m x = Some m1" "hm_inv H m1" "hm_map m1 = spec_step (hm_map m) x"
    "length (slots m1) = length (slots m) \<or>
     (length (slots m1) = 2 * length (slots m) \<and> length (slots m) * 7 \<le> (hm_count m + 1) * 10)"
    using hm_step_correct [OF Cons.prems(1)] .
  have "hm_count m \<le> P" using Cons.prems(1,2) by (simp add: hm_count_map)
  then have "length (slots m1) * 7 \<le> max 112 ((P + 1) * 20)"
    using m1(4) Cons.prems(3) by auto
  then show ?case
    using Cons.IH [OF m1(2)] Cons.prems(2) m1(1,3) by auto
qed auto

section \<open>Properties\<close>

lemma peak_exists: "\<exists>P. peak P f xs"
proof (induction xs arbitrary: f)
  case (Cons x xs)
  obtain P where "peak P (spec_step f x) xs" using Cons.IH by blast
  moreover have "peak P f xs \<Longrightarrow> P \<le> Q \<Longrightarrow> peak Q f xs" for P Q f and xs :: "('a, 'b) hm_op list"
    by (induction xs arbitrary: f) auto
  ultimately have "peak (max P (card (dom f))) f (x # xs)" by auto
  then show ?case by blast
qed auto

lemma hm_run_total:
  obtains m where "hm_run H hm_init xs = Some m" "hm_inv H m"
    "hm_map m = foldl spec_step Map.empty xs"
proof -
  obtain P where P: "peak P (hm_map (hm_init :: ('a, 'b) hash_map)) xs" using peak_exists by blast
  then show ?thesis
    using hm_run_correct [OF hm_init_inv P] that by (auto simp: hm_init_def hm_map_init [unfolded hm_init_def])
qed

text \<open>C16: Every sequence of insertions and erasures on a fresh table returns, whatever the hash
  function, and leaves a table that looks up exactly like the map the sequence describes; its size
  is the number of keys of that map.\<close>

theorem hash_table_refines_map:
  "\<exists>m. hm_run H hm_init xs = Some m \<and>
     (\<forall>k. hm_get H m k = foldl spec_step Map.empty xs k \<and>
          hm_contains H m k = (k \<in> dom (foldl spec_step Map.empty xs))) \<and>
     hm_count m = card (dom (foldl spec_step Map.empty xs))"
proof -
  obtain m where m: "hm_run H hm_init xs = Some m" "hm_inv H m"
     "hm_map m = foldl spec_step Map.empty xs"
    using hm_run_total .
  then show ?thesis
    using hm_get_map [OF m(2)] hm_contains_map [OF m(2)] hm_count_map [OF m(2)]
    by (intro exI [of _ m]) simp
qed

text \<open>Churn does not grow the table: if no more than P entries are ever live at once, the
  slot array never exceeds the larger of its initial 16 slots and 20/7 of P + 1, however many
  insertions and erasures the run makes.\<close>

lemma hash_table_churn_bound:
  assumes "peak P Map.empty xs"
  shows "\<exists>m. hm_run H hm_init xs = Some m \<and> length (slots m) * 7 \<le> max 112 ((P + 1) * 20)"
proof -
  have "peak P (hm_map hm_init) xs" using assms by (simp add: hm_map_init)
  then show ?thesis using hm_run_correct [OF hm_init_inv, of P xs H] by (auto simp: hm_init_def)
qed

lemma hash_table_churn_bound_witness:
  "\<exists>m. hm_run hash_u32 hm_init (concat (replicate 3 [Put 7 True, Erase 7])) = Some m \<and>
       length (slots m) * 7 \<le> max 112 ((1 + 1) * 20)"
  by (rule hash_table_churn_bound) (simp add: numeral_3_eq_3)

text \<open>A rehash never triggers another one: insertion nests at most one level, as the comment
  in \<open>rehash\<close> claims, so allowing it to nest deeper changes nothing.\<close>

lemma hash_table_rehash_nests_once:
  assumes "hm_run H hm_init xs = Some m"
  shows "put_nested (Suc (Suc d)) H m k v = hm_put H m k v \<and> hm_put H m k v \<noteq> None"
proof -
  have "hm_inv H m' \<Longrightarrow> hm_run H m' xs = Some m \<Longrightarrow> hm_inv H m" for m'
  proof (induction xs arbitrary: m')
    case (Cons x xs)
    obtain m1 where "hm_step H m' x = Some m1" "hm_inv H m1"
      using hm_step_correct [OF Cons.prems(1)] by metis
    then show ?case using Cons by simp
  qed simp
  then have i: "hm_inv H m" using hm_init_inv assms by blast
  obtain m' where "hm_put H m k v = Some (k \<notin> dom (hm_map m), m')"
    using hm_put_correct [OF i] .
  then show ?thesis using hm_put_nesting [OF i] by simp
qed

lemma hash_table_rehash_nests_once_witness:
  "\<exists>m. hm_run hash_u32 hm_init [Put 1 True] = Some m \<and>
       put_nested (Suc (Suc 3)) hash_u32 m 2 False = hm_put hash_u32 m 2 False"
proof -
  obtain m where m: "hm_run hash_u32 hm_init [Put 1 True] = Some m"
    using hm_run_total [of hash_u32 "[Put 1 True]"] .
  show ?thesis
    using hash_table_rehash_nests_once [OF m, of 3 2 False] by (intro exI [of _ m] conjI m) (erule conjunct1)
qed

end
