(* ===== verification/Timer_Wheel.thy ===== *)
theory Timer_Wheel
  imports Prelude
begin

text \<open>
  The hashed timing wheel of \<^verbatim>\<open>include/safetrail/ds/timer_wheel.hpp\<close>. A slot holds its
  entries as a list of (id, absolute expiry tick). The abstraction is the multiset of pending
  entries: scheduling adds one, cancelling removes one, and advancing to a target tick removes
  exactly those whose expiry has come.
\<close>

record 'id timer_wheel =
  tick_ms :: int
  n_slots :: nat
  start_ms :: int
  cur_tick :: int
  tw_count :: nat
  wheel :: "('id \<times> int) list list"

definition tw_init :: "int \<Rightarrow> nat \<Rightarrow> int \<Rightarrow> 'id timer_wheel" where
  "tw_init t n start =
     (let n' = (if n < 1 then 1 else n)
      in \<lparr>tick_ms = (if t < 1 then 1 else t), n_slots = n', start_ms = start, cur_tick = 0,
          tw_count = 0, wheel = replicate n' []\<rparr>)"

definition ceil_div :: "int \<Rightarrow> int \<Rightarrow> int" where
  "ceil_div a b = (if a \<le> 0 then 0 else trunc_div (a + b - 1) b)"

definition expiry_tick :: "'id timer_wheel \<Rightarrow> int \<Rightarrow> int" where
  "expiry_tick w deadline_ms =
     (let et = ceil_div (deadline_ms - start_ms w) (tick_ms w)
      in if et \<le> cur_tick w then cur_tick w + 1 else et)"

definition slot_of :: "'id timer_wheel \<Rightarrow> int \<Rightarrow> nat" where
  "slot_of w tick = nat (trunc_mod tick (int (n_slots w)))"

definition tw_now :: "'id timer_wheel \<Rightarrow> int" where
  "tw_now w = start_ms w + cur_tick w * tick_ms w"

definition tw_schedule :: "'id timer_wheel \<Rightarrow> 'id \<Rightarrow> int \<Rightarrow> 'id timer_wheel" where
  "tw_schedule w i deadline_ms =
     (let s = slot_of w (expiry_tick w deadline_ms)
      in w\<lparr>wheel := (wheel w)[s := wheel w ! s @ [(i, expiry_tick w deadline_ms)]],
           tw_count := tw_count w + 1\<rparr>)"

definition tw_cancel :: "'id timer_wheel \<Rightarrow> 'id \<Rightarrow> int \<Rightarrow> bool \<times> 'id timer_wheel" where
  "tw_cancel w i deadline_ms =
     (let et = expiry_tick w deadline_ms
      in if et \<le> cur_tick w then (False, w)
         else let s = slot_of w et; bucket = wheel w ! s
              in case first_index (\<lambda>e. snd e = et \<and> fst e = i) bucket of
                   None \<Rightarrow> (False, w)
                 | Some j \<Rightarrow>
                     (True, w\<lparr>wheel := (wheel w)[s := swap_remove bucket j],
                              tw_count := tw_count w - 1\<rparr>))"

text \<open>One iteration of the loop of \<open>advance\<close>: fire the due entries of one slot, keep the rest.\<close>

definition tw_tick :: "'id timer_wheel \<Rightarrow> 'id list \<times> 'id timer_wheel" where
  "tw_tick w =
     (let c = cur_tick w + 1; s = slot_of w c; bucket = wheel w ! s;
          fired = filter (\<lambda>e. snd e \<le> c) bucket;
          kept = filter (\<lambda>e. \<not> snd e \<le> c) bucket
      in (map fst fired,
          w\<lparr>cur_tick := c, wheel := (wheel w)[s := kept], tw_count := tw_count w - length fired\<rparr>))"

function advance_to :: "int \<Rightarrow> 'id timer_wheel \<Rightarrow> 'id list \<Rightarrow> 'id list \<times> 'id timer_wheel" where
  "advance_to target w fired =
     (if cur_tick w < target
      then (case tw_tick w of (f, w') \<Rightarrow> advance_to target w' (fired @ f))
      else (fired, w))"
  by pat_completeness auto
termination
  by (relation "measure (\<lambda>(target, w, fired). nat (target - cur_tick w))")
     (auto simp: tw_tick_def Let_def)

declare advance_to.simps [simp del]

definition target_tick :: "'id timer_wheel \<Rightarrow> int \<Rightarrow> int" where
  "target_tick w now_ms = trunc_div (now_ms - start_ms w) (tick_ms w)"

definition tw_advance :: "'id timer_wheel \<Rightarrow> int \<Rightarrow> 'id list \<times> 'id timer_wheel" where
  "tw_advance w now_ms = advance_to (target_tick w now_ms) w []"

section \<open>Invariant and abstraction\<close>

definition tw_inv :: "'id timer_wheel \<Rightarrow> bool" where
  "tw_inv w \<longleftrightarrow>
     1 \<le> tick_ms w \<and> 1 \<le> n_slots w \<and> length (wheel w) = n_slots w \<and> 0 \<le> cur_tick w \<and>
     tw_count w = length (concat (wheel w)) \<and>
     (\<forall>s < n_slots w. \<forall>e \<in> set (wheel w ! s). cur_tick w < snd e \<and> slot_of w (snd e) = s)"

definition tw_pending :: "'id timer_wheel \<Rightarrow> ('id \<times> int) multiset" where
  "tw_pending w = mset (concat (wheel w))"

lemma tw_invD:
  assumes "tw_inv w"
  shows "1 \<le> tick_ms w" "1 \<le> n_slots w" "length (wheel w) = n_slots w" "0 \<le> cur_tick w"
    "tw_count w = length (concat (wheel w))"
  using assms by (auto simp: tw_inv_def)

lemma tw_inv_bucketD:
  assumes "tw_inv w" "s < n_slots w" "e \<in> set (wheel w ! s)"
  shows "cur_tick w < snd e" "slot_of w (snd e) = s"
  using assms by (auto simp: tw_inv_def)

lemma slot_of_mod: "tw_inv w \<Longrightarrow> 0 \<le> t \<Longrightarrow> slot_of w t = nat (t mod int (n_slots w))"
  by (simp add: slot_of_def tw_inv_def trunc_mod_nonneg)

lemma slot_of_bound: "tw_inv w \<Longrightarrow> 0 \<le> t \<Longrightarrow> slot_of w t < n_slots w"
  by (simp add: slot_of_mod) (simp add: tw_inv_def nat_less_iff)

lemma slot_of_cong: "n_slots w' = n_slots w \<Longrightarrow> slot_of w' t = slot_of w t"
  by (simp add: slot_of_def)

lemma expiry_tick_future: "cur_tick w < expiry_tick w d"
  by (simp add: expiry_tick_def Let_def)

lemma tw_init_inv [inv_intros]: "tw_inv (tw_init t n s)"
  by (simp add: tw_inv_def tw_init_def Let_def)

lemma tw_pending_init [abs_simps]: "tw_pending (tw_init t n s) = {#}"
  by (simp add: tw_pending_def tw_init_def Let_def)

lemma tw_count_pending: "tw_inv w \<Longrightarrow> tw_count w = size (tw_pending w)"
  by (simp add: tw_inv_def tw_pending_def)

lemma tw_pending_slot:
  assumes "tw_inv w"
  shows "e \<in># tw_pending w \<longleftrightarrow> cur_tick w < snd e \<and> e \<in> set (wheel w ! slot_of w (snd e))"
proof
  assume "e \<in># tw_pending w"
  then have "e \<in> set (concat (wheel w))" by (simp only: tw_pending_def set_mset_mset)
  then obtain s where "s < n_slots w" "e \<in> set (wheel w ! s)"
    unfolding in_set_concat_nth using tw_invD(3) [OF assms] by metis
  then show "cur_tick w < snd e \<and> e \<in> set (wheel w ! slot_of w (snd e))"
    using tw_inv_bucketD [OF assms] by metis
next
  assume e: "cur_tick w < snd e \<and> e \<in> set (wheel w ! slot_of w (snd e))"
  then have "slot_of w (snd e) < length (wheel w)"
    using slot_of_bound [OF assms, of "snd e"] tw_invD [OF assms] by simp
  then have "e \<in> set (concat (wheel w))"
    unfolding in_set_concat_nth using e by metis
  then show "e \<in># tw_pending w" by (simp only: tw_pending_def set_mset_mset)
qed

text \<open>Replacing one bucket: the invariant follows from what the new bucket holds.\<close>

lemma tw_inv_bucket:
  assumes inv: "tw_inv w" and s: "s < n_slots w"
    and w': "tick_ms w' = tick_ms w" "n_slots w' = n_slots w" "cur_tick w' = cur_tick w"
      "wheel w' = (wheel w)[s := b]" "tw_count w' = length (concat (wheel w'))"
    and b: "\<forall>e \<in> set b. cur_tick w < snd e \<and> slot_of w (snd e) = s"
  shows "tw_inv w'"
  using assms unfolding tw_inv_def
  by (auto simp: slot_of_cong [OF w'(2)] nth_list_update)

lemma concat_bucket_size:
  assumes "s < length xss"
  shows "length (concat (xss[s := b])) + length (xss ! s) = length (concat xss) + length b"
  using arg_cong [OF mset_concat_update [OF assms, of b], of size] by simp

lemma tw_schedule_correct:
  assumes inv: "tw_inv w"
  shows "tw_inv (tw_schedule w i d)"
    and "tw_pending (tw_schedule w i d) = add_mset (i, expiry_tick w d) (tw_pending w)"
proof -
  let ?et = "expiry_tick w d" and ?s = "slot_of w (expiry_tick w d)"
  let ?b = "wheel w ! ?s @ [(i, ?et)]"
  have c: "cur_tick w < ?et" by (rule expiry_tick_future)
  then have s: "?s < n_slots w" using inv by (intro slot_of_bound) (auto simp: tw_inv_def)
  then have l: "?s < length (wheel w)" using inv by (simp add: tw_inv_def)
  have w': "wheel (tw_schedule w i d) = (wheel w)[?s := ?b]"
    by (simp add: tw_schedule_def Let_def)
  have "tw_count (tw_schedule w i d) = length (concat (wheel (tw_schedule w i d)))"
    using concat_bucket_size [OF l, of ?b] inv unfolding w'
    by (simp add: tw_schedule_def Let_def tw_inv_def)
  then show "tw_inv (tw_schedule w i d)"
    using inv s c
    by (intro tw_inv_bucket [OF inv s _ _ _ w'])
       (auto simp: tw_schedule_def Let_def tw_inv_def)
  have "tw_pending (tw_schedule w i d) + mset (wheel w ! ?s) = tw_pending w + mset ?b"
    using mset_concat_update [OF l, of ?b] by (simp add: tw_pending_def w')
  then show "tw_pending (tw_schedule w i d) = add_mset (i, ?et) (tw_pending w)" by simp
qed

lemma tw_cancel_correct:
  assumes inv: "tw_inv w"
  shows "tw_inv (snd (tw_cancel w i d))"
    and "tw_pending (snd (tw_cancel w i d)) = tw_pending w - {# (i, expiry_tick w d) #}"
    and "fst (tw_cancel w i d) \<longleftrightarrow> (i, expiry_tick w d) \<in># tw_pending w"
proof -
  let ?et = "expiry_tick w d" and ?s = "slot_of w (expiry_tick w d)"
  let ?bk = "wheel w ! ?s" and ?w = "snd (tw_cancel w i d)"
  have c: "cur_tick w < ?et" by (rule expiry_tick_future)
  then have s: "?s < n_slots w" using inv by (intro slot_of_bound) (auto simp: tw_inv_def)
  then have l: "?s < length (wheel w)" using inv by (simp add: tw_inv_def)
  have mem: "(i, ?et) \<in># tw_pending w \<longleftrightarrow> (i, ?et) \<in> set ?bk"
    using tw_pending_slot [OF inv] c by simp
  have "tw_inv ?w \<and> tw_pending ?w = tw_pending w - {# (i, ?et) #} \<and>
        (fst (tw_cancel w i d) \<longleftrightarrow> (i, ?et) \<in># tw_pending w)"
  proof (cases "first_index (\<lambda>e. snd e = ?et \<and> fst e = i) ?bk")
    case None
    then have "(i, ?et) \<notin> set ?bk" by (auto simp: first_index_None)
    then show ?thesis using None c inv mem by (simp add: tw_cancel_def Let_def)
  next
    case (Some j)
    then have j: "j < length ?bk" "?bk ! j = (i, ?et)"
      using first_index_Some by (fastforce simp: prod_eq_iff)+
    let ?b = "swap_remove ?bk j"
    have w': "wheel ?w = (wheel w)[?s := ?b]" and f: "fst (tw_cancel w i d)"
      using Some c by (simp_all add: tw_cancel_def Let_def)
    have "(i, ?et) \<in> set ?bk" using j by (metis nth_mem)
    then have m: "(i, ?et) \<in># tw_pending w" using mem by simp
    have mb: "mset ?b = mset ?bk - {# (i, ?et) #}" using mset_swap_remove [OF j(1)] j(2) by simp
    have "tw_count ?w = length (concat (wheel ?w))"
      using concat_bucket_size [OF l, of ?b] inv j(1) Some c unfolding w'
      by (auto simp: tw_cancel_def Let_def tw_inv_def)
    moreover have "\<forall>e \<in> set ?b. cur_tick w < snd e \<and> slot_of w (snd e) = ?s"
    proof
      fix e assume "e \<in> set ?b"
      then have "e \<in># mset ?bk - {# (i, ?et) #}" by (simp flip: mb)
      then have "e \<in> set ?bk" by (auto dest: in_diffD)
      then show "cur_tick w < snd e \<and> slot_of w (snd e) = ?s" using inv s by (simp add: tw_inv_def)
    qed
    ultimately have "tw_inv ?w"
      using Some c by (intro tw_inv_bucket [OF inv s _ _ _ w']) (auto simp: tw_cancel_def Let_def)
    moreover have "tw_pending ?w + mset ?bk = tw_pending w + mset ?b"
      using mset_concat_update [OF l, of ?b] by (simp add: tw_pending_def w')
    then have "tw_pending ?w + add_mset (i, ?et) (mset ?b) = tw_pending w + mset ?b"
      using mb \<open>(i, ?et) \<in> set ?bk\<close> by simp
    then have "add_mset (i, ?et) (tw_pending ?w) = tw_pending w" by simp
    then have "tw_pending ?w = tw_pending w - {# (i, ?et) #}" by (metis add_mset_remove_trivial)
    ultimately show ?thesis using f m by simp
  qed
  then show "tw_inv ?w" "tw_pending ?w = tw_pending w - {# (i, ?et) #}"
    "fst (tw_cancel w i d) \<longleftrightarrow> (i, ?et) \<in># tw_pending w" by blast+
qed


section \<open>Advancing\<close>

lemma tw_tick_fields [simp]:
  "cur_tick (snd (tw_tick w)) = cur_tick w + 1" "tick_ms (snd (tw_tick w)) = tick_ms w"
  "n_slots (snd (tw_tick w)) = n_slots w" "start_ms (snd (tw_tick w)) = start_ms w"
  by (simp_all add: tw_tick_def Let_def)

lemma due_in_bucket:
  assumes "tw_inv w" "e \<in># tw_pending w" "snd e \<le> cur_tick w + 1"
  shows "snd e = cur_tick w + 1"
  using assms tw_pending_slot [OF assms(1), of e] by simp

lemma tw_tick_correct:
  assumes inv: "tw_inv w"
  shows "tw_inv (snd (tw_tick w))"
    and "tw_pending (snd (tw_tick w)) = filter_mset (\<lambda>e. cur_tick w + 1 < snd e) (tw_pending w)"
    and "\<exists>ps. fst (tw_tick w) = map fst ps \<and> (\<forall>e \<in> set ps. snd e = cur_tick w + 1) \<and>
           mset ps = filter_mset (\<lambda>e. snd e \<le> cur_tick w + 1) (tw_pending w)"
proof -
  let ?c = "cur_tick w + 1" and ?w = "snd (tw_tick w)"
  let ?s = "slot_of w ?c"
  let ?bk = "wheel w ! ?s"
  let ?fired = "filter (\<lambda>e. snd e \<le> ?c) ?bk" and ?kept = "filter (\<lambda>e. \<not> snd e \<le> ?c) ?bk"
  have s: "?s < n_slots w" using inv by (intro slot_of_bound) (auto simp: tw_inv_def)
  then have l: "?s < length (wheel w)" using inv by (simp add: tw_inv_def)
  have w': "wheel ?w = (wheel w)[?s := ?kept]" by (simp add: tw_tick_def Let_def)
  have bucket: "\<forall>e \<in> set ?bk. cur_tick w < snd e \<and> slot_of w (snd e) = ?s"
    using inv s by (simp add: tw_inv_def)
  have parts: "mset ?bk = mset ?fired + mset ?kept" by (simp add: multiset_partition)
  have whole: "tw_pending w = tw_pending ?w + mset ?fired"
  proof -
    have "tw_pending ?w + mset ?bk = tw_pending w + mset ?kept"
      unfolding tw_pending_def w' by (rule mset_concat_update [OF l])
    then have "tw_pending ?w + mset ?fired + mset ?kept = tw_pending w + mset ?kept"
      unfolding parts by (simp only: add.assoc)
    then show ?thesis by (simp only: add_right_cancel)
  qed
  have late: "?c < snd e" if e: "e \<in># tw_pending ?w" for e
  proof (rule ccontr)
    assume n: "\<not> ?c < snd e"
    have p: "e \<in># tw_pending w" using e whole by simp
    then have c: "snd e = ?c" using due_in_bucket [OF inv p] n by simp
    obtain t where t: "t < length (wheel ?w)" "e \<in> set (wheel ?w ! t)"
      using e in_set_concat_nth [of e "wheel ?w"] by (auto simp: tw_pending_def)
    show False
    proof (cases "t = ?s")
      case True then show False using t l n by (simp add: w')
    next
      case False
      then have "e \<in> set (wheel w ! t)" "t < n_slots w"
        using t inv by (auto simp: w' tw_inv_def)
      then have "slot_of w (snd e) = t" using inv by (simp add: tw_inv_def)
      then show False using c False by simp
    qed
  qed
  have keep: "filter_mset (\<lambda>e. ?c < snd e) (tw_pending ?w) = tw_pending ?w"
    by (rule filter_mset_all) (rule late)
  have none: "filter_mset (\<lambda>e. snd e \<le> ?c) (tw_pending ?w) = {#}"
    by (rule filter_mset_none) (use late in force)
  have f: "filter_mset (\<lambda>e. ?c < snd e) (mset ?fired) = {#}"
    by (rule filter_mset_none) auto
  have g: "filter_mset (\<lambda>e. snd e \<le> ?c) (mset ?fired) = mset ?fired"
    by (rule filter_mset_all) auto
  show pend: "tw_pending ?w = filter_mset (\<lambda>e. ?c < snd e) (tw_pending w)"
    by (simp only: whole filter_union_mset keep f add_0_right)
  have fm: "mset ?fired = filter_mset (\<lambda>e. snd e \<le> ?c) (tw_pending w)"
    by (simp only: whole filter_union_mset none g add_0_left)
  have "fst (tw_tick w) = map fst ?fired" by (simp add: tw_tick_def Let_def)
  moreover have "\<forall>e \<in> set ?fired. snd e = ?c" using bucket by fastforce
  ultimately show "\<exists>ps. fst (tw_tick w) = map fst ps \<and> (\<forall>e \<in> set ps. snd e = ?c) \<and>
      mset ps = filter_mset (\<lambda>e. snd e \<le> ?c) (tw_pending w)"
    using fm by blast
  have count: "tw_count ?w = length (concat (wheel ?w))"
  proof -
    have "length (concat (wheel w)) = length (concat (wheel ?w)) + length ?fired"
      using arg_cong [OF whole, of size] unfolding tw_pending_def size_union size_mset .
    moreover have "tw_count ?w = tw_count w - length ?fired" by (simp add: tw_tick_def Let_def)
    ultimately show ?thesis using tw_invD(5) [OF inv] by linarith
  qed
  show "tw_inv ?w"
    unfolding tw_inv_def
  proof (intro conjI allI impI ballI)
    fix t e assume t: "t < n_slots ?w" "e \<in> set (wheel ?w ! t)"
    have tl: "t < length (wheel ?w)" using t(1) inv by (simp add: w' tw_inv_def)
    then show "cur_tick ?w < snd e"
      using late [of e] t(2) in_set_concat_nth [of e "wheel ?w"] by (auto simp: tw_pending_def)
    have "e \<in> set (wheel w ! t)" using t(2) l by (cases "t = ?s") (auto simp: w')
    then show "slot_of ?w (snd e) = t"
      using t(1) inv slot_of_cong [of ?w w] by (simp add: tw_inv_def)
  qed (use inv count in \<open>simp_all add: tw_inv_def w'\<close>)
qed

lemma advance_to_correct:
  assumes "tw_inv w"
  shows "\<exists>ps. fst (advance_to target w acc) = acc @ map fst ps \<and> sorted (map snd ps) \<and>
           mset ps = filter_mset (\<lambda>e. snd e \<le> target) (tw_pending w) \<and>
           tw_inv (snd (advance_to target w acc)) \<and>
           tw_pending (snd (advance_to target w acc))
             = filter_mset (\<lambda>e. target < snd e) (tw_pending w) \<and>
           cur_tick (snd (advance_to target w acc)) = max (cur_tick w) target"
  using assms
proof (induction target w acc rule: advance_to.induct)
  case (1 target w acc)
  have pos: "\<forall>e \<in># tw_pending w. cur_tick w < snd e" using tw_pending_slot [OF "1.prems"] by blast
  show ?case
  proof (cases "cur_tick w < target")
    case False
    have "filter_mset (\<lambda>e. snd e \<le> target) (tw_pending w) = {#}"
      by (rule filter_mset_none) (use pos False in force)
    moreover have "filter_mset (\<lambda>e. target < snd e) (tw_pending w) = tw_pending w"
      by (rule filter_mset_all) (use pos False in force)
    ultimately show ?thesis
      using False "1.prems" by (intro exI [of _ "[]"]) (simp add: advance_to.simps)
  next
    case True
    let ?w = "snd (tw_tick w)" and ?f = "fst (tw_tick w)"
    let ?P = "tw_pending w"
    obtain qs where qs: "?f = map fst qs" "\<forall>e \<in> set qs. snd e = cur_tick w + 1"
      "mset qs = filter_mset (\<lambda>e. snd e \<le> cur_tick w + 1) ?P"
      using tw_tick_correct(3) [OF "1.prems"] by blast
    have unf: "advance_to target w acc = advance_to target ?w (acc @ ?f)"
      using True by (simp add: advance_to.simps [of target w acc] split_beta)
    obtain ps where ps: "fst (advance_to target ?w (acc @ ?f)) = (acc @ ?f) @ map fst ps"
      "sorted (map snd ps)" "mset ps = filter_mset (\<lambda>e. snd e \<le> target) (tw_pending ?w)"
      "tw_inv (snd (advance_to target ?w (acc @ ?f)))"
      "tw_pending (snd (advance_to target ?w (acc @ ?f)))
         = filter_mset (\<lambda>e. target < snd e) (tw_pending ?w)"
      "cur_tick (snd (advance_to target ?w (acc @ ?f))) = max (cur_tick ?w) target"
      using "1.IH" [OF True prod.collapse tw_tick_correct(1) [OF "1.prems"]] by blast
    note P' = tw_tick_correct(2) [OF "1.prems"]
    have later: "cur_tick w + 1 < snd e" if "e \<in> set ps" for e
    proof -
      have "e \<in># mset ps" using that by simp
      then show ?thesis unfolding ps(3) P' by simp
    qed
    have "sorted (map snd qs)" using qs(2) by (induction qs) auto
    then have "sorted (map snd (qs @ ps))"
      using qs(2) ps(2) later by (force simp: sorted_append)
    moreover have "mset (qs @ ps) = filter_mset (\<lambda>e. snd e \<le> target) ?P"
    proof -
      have "filter_mset (\<lambda>e. snd e \<le> target) ?P
          = filter_mset (\<lambda>e. snd e \<le> cur_tick w + 1) (filter_mset (\<lambda>e. snd e \<le> target) ?P)
          + filter_mset (\<lambda>e. \<not> snd e \<le> cur_tick w + 1) (filter_mset (\<lambda>e. snd e \<le> target) ?P)"
        by (rule multiset_partition)
      also have "\<dots> = mset qs + mset ps"
        unfolding qs(3) ps(3) P' filter_filter_mset
        using True by (intro arg_cong2 [of _ _ _ _ "(+)"] filter_mset_cong refl) auto
      finally show ?thesis by simp
    qed
    moreover have "filter_mset (\<lambda>e. target < snd e) (tw_pending ?w)
        = filter_mset (\<lambda>e. target < snd e) ?P"
      unfolding P' filter_filter_mset using True by (intro filter_mset_cong refl) auto
    ultimately show ?thesis
      unfolding unf ps(1) ps(5) ps(6) using ps(4) qs(1) True
      by (intro exI [of _ "qs @ ps"]) simp
  qed
qed

lemma tw_advance_correct:
  assumes "tw_inv w"
  obtains ps where "fst (tw_advance w t) = map fst ps" "sorted (map snd ps)"
    "mset ps = filter_mset (\<lambda>e. snd e \<le> target_tick w t) (tw_pending w)"
    "tw_inv (snd (tw_advance w t))"
    "tw_pending (snd (tw_advance w t)) = filter_mset (\<lambda>e. target_tick w t < snd e) (tw_pending w)"
    "cur_tick (snd (tw_advance w t)) = max (cur_tick w) (target_tick w t)"
  using advance_to_correct [OF assms, of "target_tick w t" "[]"] unfolding tw_advance_def by auto

lemma advance_to_fields:
  "tick_ms (snd (advance_to target w acc)) = tick_ms w \<and>
   start_ms (snd (advance_to target w acc)) = start_ms w \<and>
   n_slots (snd (advance_to target w acc)) = n_slots w"
proof (induction target w acc rule: advance_to.induct)
  case (1 target w acc)
  show ?case
    using "1.IH" [OF _ prod.collapse]
    by (auto simp: advance_to.simps [of target w acc] split_beta)
qed

section \<open>Ticks and deadlines\<close>

text \<open>
  The tick a timer is filed under is the first boundary at or after its deadline, or the next
  tick when that boundary has passed.
\<close>

lemma ceil_div_bounds:
  assumes "1 \<le> b" "0 < a"
  shows "a \<le> b * ceil_div a b" "b * (ceil_div a b - 1) < a"
proof -
  have c: "ceil_div a b = (a + b - 1) div b"
    using assms by (simp add: ceil_div_def trunc_div_nonneg)
  have m: "b * ((a + b - 1) div b) + (a + b - 1) mod b = a + b - 1" by simp
  have "0 \<le> (a + b - 1) mod b" "(a + b - 1) mod b < b" using assms by simp_all
  then show "a \<le> b * ceil_div a b" "b * (ceil_div a b - 1) < a"
    using m unfolding c right_diff_distrib by linarith+
qed

lemma target_reaches:
  assumes "tw_inv w" "1 \<le> e"
  shows "e \<le> target_tick w t \<longleftrightarrow> start_ms w + e * tick_ms w \<le> t"
proof (cases "0 \<le> t - start_ms w")
  case True
  have "0 < tick_ms w" using tw_invD(1) [OF assms(1)] by simp
  then show ?thesis
    using True by (simp add: target_tick_def trunc_div_nonneg le_zdiv_iff algebra_simps)
next
  case False
  have "1 \<le> tick_ms w" using tw_invD(1) [OF assms(1)] .
  moreover have "1 * 1 \<le> e * tick_ms w" using assms(2) calculation by (intro mult_mono) auto
  moreover have "target_tick w t \<le> 0"
    using False calculation(1) by (simp add: target_tick_def trunc_div_nonpos)
  ultimately show ?thesis using False assms(2) by auto
qed

lemma expiry_tick_pos: "tw_inv w \<Longrightarrow> 1 \<le> expiry_tick w d"
  using expiry_tick_future [of w d] tw_invD(4) [of w] by simp

lemma expiry_not_early:
  assumes "tw_inv w"
  shows "d \<le> start_ms w + expiry_tick w d * tick_ms w"
proof (cases "0 < d - start_ms w")
  case True
  let ?c = "ceil_div (d - start_ms w) (tick_ms w)"
  have t: "1 \<le> tick_ms w" using tw_invD(1) [OF assms] .
  have "d - start_ms w \<le> tick_ms w * ?c" using ceil_div_bounds(1) [OF t True] .
  also have "\<dots> \<le> tick_ms w * expiry_tick w d"
    using t by (intro mult_left_mono) (auto simp: expiry_tick_def Let_def)
  finally show ?thesis by (simp add: mult.commute)
next
  case False
  have "0 \<le> expiry_tick w d * tick_ms w"
    using expiry_tick_pos [OF assms, of d] tw_invD(1) [OF assms] by simp
  then show ?thesis using False by simp
qed

lemma expiry_not_late:
  assumes "tw_inv w" "tw_now w < d"
  shows "start_ms w + (expiry_tick w d - 1) * tick_ms w < d"
proof -
  let ?c = "ceil_div (d - start_ms w) (tick_ms w)"
  have t: "1 \<le> tick_ms w" and c0: "0 \<le> cur_tick w" using tw_invD [OF assms(1)] by auto
  have "0 \<le> cur_tick w * tick_ms w" using t c0 by simp
  then have pos: "0 < d - start_ms w" using assms(2) by (simp add: tw_now_def)
  have "cur_tick w < ?c"
  proof (rule ccontr)
    assume "\<not> cur_tick w < ?c"
    then have "tick_ms w * ?c \<le> tick_ms w * cur_tick w" using t by (intro mult_left_mono) auto
    then show False
      using ceil_div_bounds(1) [OF t pos] assms(2) by (simp add: tw_now_def mult.commute)
  qed
  then have "expiry_tick w d = ?c" by (simp add: expiry_tick_def Let_def)
  then show ?thesis using ceil_div_bounds(2) [OF t pos] by (simp add: mult.commute)
qed

lemma expiry_tick_past:
  assumes "tw_inv w" "d \<le> tw_now w"
  shows "expiry_tick w d = cur_tick w + 1"
proof -
  let ?c = "ceil_div (d - start_ms w) (tick_ms w)"
  have t: "1 \<le> tick_ms w" and c0: "0 \<le> cur_tick w" using tw_invD [OF assms(1)] by auto
  have "?c \<le> cur_tick w"
  proof (cases "0 < d - start_ms w")
    case True
    have "tick_ms w * (?c - 1) < tick_ms w * cur_tick w"
      using ceil_div_bounds(2) [OF t True] assms(2) by (simp add: tw_now_def mult.commute)
    then have "?c - 1 < cur_tick w" using t by (simp add: mult_less_cancel_left_pos)
    then show ?thesis by simp
  qed (use c0 in \<open>simp add: ceil_div_def\<close>)
  then show ?thesis by (simp add: expiry_tick_def Let_def)
qed

section \<open>Properties\<close>

text \<open>C23: Advancing the clock fires exactly the pending timers whose tick boundary the new time
  has reached, in the order of their ticks, each once, and leaves the others pending.\<close>

theorem timer_wheel_fires_exactly_due:
  assumes "tw_inv w"
  shows "\<exists>ps. fst (tw_advance w t) = map fst ps \<and> sorted (map snd ps) \<and>
    mset ps = filter_mset (\<lambda>e. start_ms w + snd e * tick_ms w \<le> t) (tw_pending w) \<and>
    tw_inv (snd (tw_advance w t)) \<and>
    tw_pending (snd (tw_advance w t)) =
      filter_mset (\<lambda>e. t < start_ms w + snd e * tick_ms w) (tw_pending w)"
proof -
  obtain ps where ps: "fst (tw_advance w t) = map fst ps" "sorted (map snd ps)"
    "mset ps = filter_mset (\<lambda>e. snd e \<le> target_tick w t) (tw_pending w)"
    "tw_inv (snd (tw_advance w t))"
    "tw_pending (snd (tw_advance w t)) = filter_mset (\<lambda>e. target_tick w t < snd e) (tw_pending w)"
    using tw_advance_correct [OF assms] by metis
  have "1 \<le> snd e" if e: "e \<in># tw_pending w" for e
  proof -
    obtain s where "s < n_slots w" "e \<in> set (wheel w ! s)"
      using e tw_invD(3) [OF assms] unfolding tw_pending_def set_mset_mset in_set_concat_nth by auto
    then have "cur_tick w < snd e" using tw_inv_bucketD(1) [OF assms] by blast
    then show ?thesis using tw_invD(4) [OF assms] by simp
  qed
  then have "snd e \<le> target_tick w t \<longleftrightarrow> start_ms w + snd e * tick_ms w \<le> t"
    if "e \<in># tw_pending w" for e using that target_reaches [OF assms] by blast
  then show ?thesis
    using ps by (intro exI [of _ ps]) (auto intro!: filter_mset_cong simp: not_le [symmetric])
qed

lemma timer_wheel_fires_exactly_due_witness:
  "tw_inv (tw_schedule (tw_init 1000 8 0) (7::nat) 2500) \<and>
   tw_inv (snd (tw_advance (tw_schedule (tw_init 1000 8 0) (7::nat) 2500) 3000))"
proof -
  have i: "tw_inv (tw_schedule (tw_init 1000 8 0) (7::nat) 2500)"
    by (intro tw_schedule_correct tw_init_inv)
  show ?thesis using timer_wheel_fires_exactly_due [OF i, of 3000] i by blast
qed

text \<open>A timer scheduled for a deadline ahead of the clock never fires before its deadline, and
  it has fired once the clock is a tick past it; other firings are not disturbed.\<close>

lemma timer_wheel_deadline:
  assumes "tw_inv w" "tw_now w < d"
  shows "(t < d \<longrightarrow> mset (fst (tw_advance (tw_schedule w i d) t)) = mset (fst (tw_advance w t))) \<and>
    (d + tick_ms w \<le> t \<longrightarrow>
      mset (fst (tw_advance (tw_schedule w i d) t)) = add_mset i (mset (fst (tw_advance w t))))"
proof -
  let ?w = "tw_schedule w i d" and ?g = "target_tick w t"
  note s = tw_schedule_correct [OF assms(1), of i d]
  have g: "target_tick ?w t = ?g" by (simp add: target_tick_def tw_schedule_def Let_def)
  obtain ps where ps: "fst (tw_advance w t) = map fst ps"
    "mset ps = filter_mset (\<lambda>e. snd e \<le> ?g) (tw_pending w)"
    using tw_advance_correct [OF assms(1)] by metis
  obtain qs where qs: "fst (tw_advance ?w t) = map fst qs"
    "mset qs = filter_mset (\<lambda>e. snd e \<le> ?g) (add_mset (i, expiry_tick w d) (tw_pending w))"
    using tw_advance_correct [OF s(1)] g s(2) by metis
  have img: "mset (fst (tw_advance ?w t)) = (if expiry_tick w d \<le> ?g
      then add_mset i (mset (fst (tw_advance w t))) else mset (fst (tw_advance w t)))"
    using ps qs by simp
  have reach: "expiry_tick w d \<le> ?g \<longleftrightarrow> start_ms w + expiry_tick w d * tick_ms w \<le> t"
    using target_reaches [OF assms(1) expiry_tick_pos [OF assms(1)]] .
  have "mset (fst (tw_advance ?w t)) = mset (fst (tw_advance w t))" if "t < d"
    using img reach expiry_not_early [OF assms(1), of d] that by simp
  moreover have "mset (fst (tw_advance ?w t)) = add_mset i (mset (fst (tw_advance w t)))"
    if "d + tick_ms w \<le> t"
    using img reach expiry_not_late [OF assms] that by (simp add: left_diff_distrib)
  ultimately show ?thesis by blast
qed

lemma timer_wheel_deadline_witness:
  "mset (fst (tw_advance (tw_schedule (tw_init 1000 8 0) (7::nat) 2500) 2499)) =
     mset (fst (tw_advance (tw_init 1000 8 0) 2499)) \<and>
   mset (fst (tw_advance (tw_schedule (tw_init 1000 8 0) (7::nat) 2500) 3500)) =
     add_mset 7 (mset (fst (tw_advance (tw_init 1000 8 0) 3500)))"
proof -
  have n: "tw_now (tw_init 1000 8 0 :: nat timer_wheel) < 2500" by (simp add: tw_now_def tw_init_def)
  show ?thesis
    using timer_wheel_deadline [OF tw_init_inv n, of 2499 7]
      timer_wheel_deadline [OF tw_init_inv n, of 3500 7]
    by (simp add: tw_init_def)
qed

text \<open>The guard of \<open>cancel\<close> against timers that have fired never takes effect: the tick
  it recomputes for a deadline in the past is the next tick, so cancelling a timer that has already
  fired cancels an unrelated pending timer of the same id that is due at the next tick.\<close>

lemma timer_wheel_cancel_after_fire:
  "let w0 = tw_schedule (tw_init 1000 8 0) (7::nat) 1000;
       (fired, w1) = tw_advance w0 1000;
       w2 = tw_schedule w1 7 2000;
       (ok, w3) = tw_cancel w2 7 1000
   in fired = [7] \<and> ok \<and> fst (tw_advance w3 5000) = []"
  by code_simp

end
