(* ===== verification/Escalation.thy ===== *)
theory Escalation
  imports Hash_Table Timer_Wheel
begin

text \<open>
  The escalation tracker of \<^verbatim>\<open>include/safetrail/alert/escalation.hpp\<close>: a timing wheel for
  the deadlines and a hash table for each alert's state and the deadline it was given. The
  invariant ties the two together: the wheel holds exactly one timer for every armed alert, at
  the tick of the stored deadline, and nothing else. \<open>None\<close> as the result of an operation
  would be a hash-table insertion that never returns; it is shown not to happen.
\<close>

datatype esc_status = Armed | Acknowledged | Escalated

record esc_record =
  esc_state :: esc_status
  esc_deadline :: timestamp

record tracker =
  timeout_ms :: int
  esc_wheel :: "alert_id timer_wheel"
  esc_table :: "(alert_id, esc_record) hash_map"

definition esc_init :: "int \<Rightarrow> int \<Rightarrow> nat \<Rightarrow> int \<Rightarrow> tracker" where
  "esc_init timeout tick n start =
     \<lparr>timeout_ms = timeout, esc_wheel = tw_init tick n start, esc_table = hm_init\<rparr>"

definition esc_arm :: "tracker \<Rightarrow> alert_id \<Rightarrow> timestamp \<Rightarrow> tracker option" where
  "esc_arm e i raised_ms =
     (if hm_contains hash_u32 (esc_table e) i then Some e
      else let deadline = raised_ms + timeout_ms e
           in case hm_put hash_u32 (esc_table e) i \<lparr>esc_state = Armed, esc_deadline = deadline\<rparr> of
                None \<Rightarrow> None
              | Some (_, t') \<Rightarrow>
                  Some (e\<lparr>esc_table := t', esc_wheel := tw_schedule (esc_wheel e) i deadline\<rparr>))"

definition esc_acknowledge :: "tracker \<Rightarrow> alert_id \<Rightarrow> tracker" where
  "esc_acknowledge e i =
     (case hm_get hash_u32 (esc_table e) i of
        None \<Rightarrow> e
      | Some r \<Rightarrow>
          if esc_state r \<noteq> Armed then e
          else e\<lparr>esc_table := hm_modify hash_u32 (esc_table e) i (\<lambda>r. r\<lparr>esc_state := Acknowledged\<rparr>),
                 esc_wheel := snd (tw_cancel (esc_wheel e) i (esc_deadline r))\<rparr>)"

text \<open>The loop of \<open>advance\<close> over the timers the wheel fired.\<close>

fun esc_fire ::
  "(alert_id, esc_record) hash_map \<Rightarrow> alert_id list \<Rightarrow> alert_id list \<times> (alert_id, esc_record) hash_map"
where
  "esc_fire t [] = ([], t)"
| "esc_fire t (i # is) =
     (case hm_get hash_u32 t i of
        Some r \<Rightarrow>
          if esc_state r = Armed
          then (case esc_fire (hm_modify hash_u32 t i (\<lambda>r. r\<lparr>esc_state := Escalated\<rparr>)) is of
                  (out, t') \<Rightarrow> (i # out, t'))
          else esc_fire t is
      | None \<Rightarrow> esc_fire t is)"

definition esc_advance :: "tracker \<Rightarrow> timestamp \<Rightarrow> alert_id list \<times> tracker" where
  "esc_advance e now_ms =
     (case tw_advance (esc_wheel e) now_ms of
        (due, w') \<Rightarrow>
          (case esc_fire (esc_table e) due of
             (escalated, t') \<Rightarrow> (escalated, e\<lparr>esc_wheel := w', esc_table := t'\<rparr>)))"

definition esc_tracked :: "tracker \<Rightarrow> nat" where
  "esc_tracked e = tw_count (esc_wheel e)"

definition esc_known :: "tracker \<Rightarrow> nat" where
  "esc_known e = hm_count (esc_table e)"

section \<open>Abstraction and invariant\<close>

definition esc_map :: "tracker \<Rightarrow> alert_id \<rightharpoonup> esc_record" where
  "esc_map e = hm_map (esc_table e)"

definition armed_deadline :: "(alert_id \<rightharpoonup> esc_record) \<Rightarrow> alert_id \<rightharpoonup> timestamp" where
  "armed_deadline f i =
     (case f i of None \<Rightarrow> None
      | Some r \<Rightarrow> if esc_state r = Armed then Some (esc_deadline r) else None)"

definition timers :: "alert_id timer_wheel \<Rightarrow> (alert_id \<rightharpoonup> esc_record) \<Rightarrow> (alert_id \<times> int) set" where
  "timers w f = {(i, expiry_tick w d) | i d. armed_deadline f i = Some d}"

definition esc_inv :: "tracker \<Rightarrow> bool" where
  "esc_inv e \<longleftrightarrow>
     tw_inv (esc_wheel e) \<and> hm_inv hash_u32 (esc_table e) \<and>
     finite (dom (esc_map e)) \<and>
     tw_pending (esc_wheel e) = mset_set (timers (esc_wheel e) (esc_map e))"

lemma finite_timers: "finite (dom f) \<Longrightarrow> finite (timers w f)"
proof -
  assume "finite (dom f)"
  moreover have "timers w f \<subseteq> (\<lambda>i. (i, expiry_tick w (the (armed_deadline f i)))) ` dom f"
  proof
    fix p assume "p \<in> timers w f"
    then obtain i d where d: "p = (i, expiry_tick w d)" "armed_deadline f i = Some d"
      by (auto simp: timers_def)
    then have "i \<in> dom f" by (auto simp: armed_deadline_def split: option.splits)
    then show "p \<in> (\<lambda>i. (i, expiry_tick w (the (armed_deadline f i)))) ` dom f"
      using d by (intro image_eqI [of _ _ i]) simp_all
  qed
  ultimately show ?thesis using finite_subset by blast
qed

lemma timers_cong:
  "cur_tick w' = cur_tick w \<Longrightarrow> start_ms w' = start_ms w \<Longrightarrow> tick_ms w' = tick_ms w \<Longrightarrow>
   timers w' f = timers w f"
proof -
  assume "cur_tick w' = cur_tick w" "start_ms w' = start_ms w" "tick_ms w' = tick_ms w"
  then have "expiry_tick w' d = expiry_tick w d" for d by (simp add: expiry_tick_def Let_def)
  then show ?thesis by (simp add: timers_def)
qed

lemma esc_init_inv [inv_intros]: "esc_inv (esc_init timeout tick n start)"
  by (simp add: esc_inv_def esc_init_def inv_intros esc_map_def abs_simps timers_def
      armed_deadline_def)

lemma tw_schedule_clock [simp]:
  "cur_tick (tw_schedule w i d) = cur_tick w" "start_ms (tw_schedule w i d) = start_ms w"
  "tick_ms (tw_schedule w i d) = tick_ms w"
  by (simp_all add: tw_schedule_def Let_def)

lemma tw_cancel_clock [simp]:
  "cur_tick (snd (tw_cancel w i d)) = cur_tick w" "start_ms (snd (tw_cancel w i d)) = start_ms w"
  "tick_ms (snd (tw_cancel w i d)) = tick_ms w"
  by (simp_all add: tw_cancel_def Let_def split: option.split)

lemma timers_arm:
  assumes "f i = None"
  shows "timers w (f(i \<mapsto> \<lparr>esc_state = Armed, esc_deadline = d\<rparr>))
       = insert (i, expiry_tick w d) (timers w f)"
    and "(i, t) \<notin> timers w f"
  using assms by (auto simp: timers_def armed_deadline_def split: if_splits)

lemma timers_disarm:
  assumes "armed_deadline f i = Some d" "r = the (f i)\<lparr>esc_state := s\<rparr>" "s \<noteq> Armed"
  shows "timers w (f(i \<mapsto> r)) = timers w f - {(i, expiry_tick w d)}"
    and "(i, expiry_tick w d) \<in> timers w f"
  using assms by (auto simp: timers_def armed_deadline_def split: option.splits if_splits)

lemma esc_contains_map: "esc_inv e \<Longrightarrow> hm_contains hash_u32 (esc_table e) i \<longleftrightarrow> i \<in> dom (esc_map e)"
  by (simp add: esc_inv_def hm_contains_map esc_map_def)

lemma esc_arm_correct:
  assumes inv: "esc_inv e"
  obtains e' where "esc_arm e i t = Some e'" "esc_inv e'" "timeout_ms e' = timeout_ms e"
    "esc_map e' = (if i \<in> dom (esc_map e) then esc_map e
       else (esc_map e)(i \<mapsto> \<lparr>esc_state = Armed, esc_deadline = t + timeout_ms e\<rparr>))"
proof (cases "i \<in> dom (esc_map e)")
  case True
  then show ?thesis using inv by (intro that [of e]) (auto simp: esc_arm_def esc_contains_map)
next
  case False
  let ?d = "t + timeout_ms e" and ?w = "esc_wheel e"
  let ?r = "\<lparr>esc_state = Armed, esc_deadline = ?d\<rparr>"
  have hi: "hm_inv hash_u32 (esc_table e)" and wi: "tw_inv ?w" using inv by (auto simp: esc_inv_def)
  obtain t' where t': "hm_put hash_u32 (esc_table e) i ?r = Some (i \<notin> dom (hm_map (esc_table e)), t')"
    "hm_inv hash_u32 t'" "hm_map t' = (hm_map (esc_table e))(i \<mapsto> ?r)"
    using hm_put_correct [OF hi] .
  let ?e = "e\<lparr>esc_table := t', esc_wheel := tw_schedule ?w i ?d\<rparr>"
  have m: "esc_map ?e = (esc_map e)(i \<mapsto> ?r)" using t'(3) by (simp add: esc_map_def)
  have none: "esc_map e i = None" using False by auto
  have fin: "finite (timers ?w (esc_map e))" using inv by (intro finite_timers) (simp add: esc_inv_def)
  have "tw_pending (tw_schedule ?w i ?d) = mset_set (timers ?w (esc_map ?e))"
    unfolding tw_schedule_correct(2) [OF wi] m timers_arm(1) [where f = "esc_map e", OF none]
    using inv fin timers_arm(2) [where f = "esc_map e", OF none] by (simp add: esc_inv_def)
  then have "tw_pending (esc_wheel ?e) = mset_set (timers (esc_wheel ?e) (esc_map ?e))"
    using timers_cong [of "tw_schedule ?w i ?d" ?w] by simp
  then have "esc_inv ?e"
    using inv t'(2) tw_schedule_correct(1) [OF wi] m by (simp add: esc_inv_def)
  moreover have "esc_arm e i t = Some ?e"
    using False t'(1) by (simp add: esc_arm_def esc_contains_map [OF inv] Let_def)
  ultimately show ?thesis using m False by (intro that [of ?e]) auto
qed

lemma esc_acknowledge_correct:
  assumes inv: "esc_inv e"
  shows "esc_inv (esc_acknowledge e i) \<and> timeout_ms (esc_acknowledge e i) = timeout_ms e \<and>
    esc_map (esc_acknowledge e i) =
      (case armed_deadline (esc_map e) i of None \<Rightarrow> esc_map e
       | Some d \<Rightarrow> (esc_map e)(i \<mapsto> \<lparr>esc_state = Acknowledged, esc_deadline = d\<rparr>))"
proof -
  let ?w = "esc_wheel e"
  have hi: "hm_inv hash_u32 (esc_table e)" and wi: "tw_inv ?w" using inv by (auto simp: esc_inv_def)
  have get: "hm_get hash_u32 (esc_table e) i = esc_map e i"
    using hm_get_map [OF hi] by (simp add: esc_map_def)
  show ?thesis
  proof (cases "armed_deadline (esc_map e) i")
    case None
    then show ?thesis
      using inv get by (auto simp: esc_acknowledge_def armed_deadline_def split: option.splits if_splits)
  next
    case (Some d)
    then obtain r where r: "esc_map e i = Some r" "esc_state r = Armed" "esc_deadline r = d"
      by (auto simp: armed_deadline_def split: option.splits if_splits)
    let ?t = "hm_modify hash_u32 (esc_table e) i (\<lambda>r. r\<lparr>esc_state := Acknowledged\<rparr>)"
    let ?w' = "snd (tw_cancel ?w i d)"
    have e': "esc_acknowledge e i = e\<lparr>esc_table := ?t, esc_wheel := ?w'\<rparr>"
      using r get by (simp add: esc_acknowledge_def)
    have m: "hm_inv hash_u32 ?t" "hm_map ?t = (esc_map e)(i \<mapsto> r\<lparr>esc_state := Acknowledged\<rparr>)"
      using hm_modify_correct [OF hi, of i "\<lambda>r. r\<lparr>esc_state := Acknowledged\<rparr>"] r
      by (simp_all add: esc_map_def)
    have fin: "finite (timers ?w (esc_map e))"
      using inv by (intro finite_timers) (simp add: esc_inv_def)
    note dis = timers_disarm [OF Some, of "r\<lparr>esc_state := Acknowledged\<rparr>" Acknowledged ?w]
    have "tw_pending ?w' = mset_set (timers ?w (hm_map ?t))"
      using tw_cancel_correct(2) [OF wi, of i d] inv fin dis r(1)
      by (simp add: esc_inv_def m(2) mset_set_Diff)
    then have "esc_inv (esc_acknowledge e i)"
      using inv m tw_cancel_correct(1) [OF wi, of i d] timers_cong [of ?w' ?w]
      unfolding e' by (simp add: esc_inv_def esc_map_def)
    moreover have "r\<lparr>esc_state := Acknowledged\<rparr> = \<lparr>esc_state = Acknowledged, esc_deadline = d\<rparr>"
      using r(3) by (cases r) simp
    ultimately show ?thesis using m(2) Some unfolding e' by (simp add: esc_map_def)
  qed
qed

text \<open>Firing a list of distinct armed alerts escalates each of them once, in order.\<close>

lemma esc_fire_correct:
  assumes "hm_inv hash_u32 t" "distinct is"
    "\<forall>i \<in> set is. armed_deadline (hm_map t) i \<noteq> None"
  shows "fst (esc_fire t is) = is \<and> hm_inv hash_u32 (snd (esc_fire t is)) \<and>
    hm_map (snd (esc_fire t is)) =
      (\<lambda>j. if j \<in> set is then map_option (\<lambda>r. r\<lparr>esc_state := Escalated\<rparr>) (hm_map t j)
           else hm_map t j)"
  using assms
proof (induction "is" arbitrary: t)
  case (Cons i "is")
  let ?t = "hm_modify hash_u32 t i (\<lambda>r. r\<lparr>esc_state := Escalated\<rparr>)"
  from Cons.prems(3) obtain r where r: "hm_map t i = Some r" "esc_state r = Armed"
    by (auto simp: armed_deadline_def split: option.splits if_splits)
  have t: "hm_inv hash_u32 ?t" "hm_map ?t = (hm_map t)(i \<mapsto> r\<lparr>esc_state := Escalated\<rparr>)"
    using hm_modify_correct [OF Cons.prems(1), of i "\<lambda>r. r\<lparr>esc_state := Escalated\<rparr>"] r by simp_all
  have "\<forall>j \<in> set is. armed_deadline (hm_map ?t) j \<noteq> None"
    using Cons.prems(2,3) by (auto simp: t(2) armed_deadline_def)
  note IH = Cons.IH [OF t(1) _ this]
  have "esc_fire t (i # is) = (i # fst (esc_fire ?t is), snd (esc_fire ?t is))"
    using hm_get_map [OF Cons.prems(1), of i] r by (simp add: split_beta)
  then show ?case
    using IH Cons.prems(2) r(1) by (auto simp: t(2) fun_eq_iff)
qed simp

lemma expiry_tick_stable:
  assumes "cur_tick w' = max (cur_tick w) g" "tick_ms w' = tick_ms w" "start_ms w' = start_ms w"
    "g < expiry_tick w d"
  shows "expiry_tick w' d = expiry_tick w d"
  using assms by (auto simp: expiry_tick_def Let_def split: if_splits)

definition esc_due :: "tracker \<Rightarrow> timestamp \<Rightarrow> alert_id \<Rightarrow> bool" where
  "esc_due e t i \<longleftrightarrow>
     (\<exists>d. armed_deadline (esc_map e) i = Some d \<and>
          expiry_tick (esc_wheel e) d \<le> target_tick (esc_wheel e) t)"

lemma esc_advance_correct:
  assumes inv: "esc_inv e"
  shows "esc_inv (snd (esc_advance e t)) \<and> distinct (fst (esc_advance e t)) \<and>
    set (fst (esc_advance e t)) = {i. esc_due e t i} \<and>
    timeout_ms (snd (esc_advance e t)) = timeout_ms e \<and>
    esc_map (snd (esc_advance e t)) =
      (\<lambda>j. if esc_due e t j then map_option (\<lambda>r. r\<lparr>esc_state := Escalated\<rparr>) (esc_map e j)
           else esc_map e j)"
proof -
  let ?w = "esc_wheel e" and ?f = "esc_map e" and ?g = "target_tick (esc_wheel e) t"
  let ?w' = "snd (tw_advance ?w t)" and ?T = "timers (esc_wheel e) (esc_map e)"
  have hi: "hm_inv hash_u32 (esc_table e)" and wi: "tw_inv ?w" using inv by (auto simp: esc_inv_def)
  have fin: "finite ?T" using inv by (intro finite_timers) (simp add: esc_inv_def)
  obtain ps where ps: "fst (tw_advance ?w t) = map fst ps"
    "mset ps = filter_mset (\<lambda>e. snd e \<le> ?g) (tw_pending ?w)" "tw_inv ?w'"
    "tw_pending ?w' = filter_mset (\<lambda>e. ?g < snd e) (tw_pending ?w)"
    "cur_tick ?w' = max (cur_tick ?w) ?g"
    using tw_advance_correct [OF wi, of t] by blast
  have "mset ps = mset_set {p \<in> ?T. snd p \<le> ?g}"
    using ps(2) inv fin by (simp add: esc_inv_def filter_mset_mset_set)
  then have dps: "distinct ps" "set ps = {p \<in> ?T. snd p \<le> ?g}"
    using fin by (auto dest: mset_set_list)
  have "inj_on fst (set ps)"
    unfolding dps(2) by (rule inj_onI) (auto simp: timers_def)
  then have dis: "distinct (map fst ps)" using dps(1) by (simp add: distinct_map)
  have ids: "set (map fst ps) = {i. esc_due e t i}"
    unfolding set_map dps(2) by (force simp: timers_def esc_due_def image_iff)
  have armed: "\<forall>i \<in> set (map fst ps). armed_deadline (hm_map (esc_table e)) i \<noteq> None"
    unfolding ids by (auto simp: esc_due_def esc_map_def)
  note fire = esc_fire_correct [OF hi dis armed]
  let ?t' = "snd (esc_fire (esc_table e) (map fst ps))"
  have adv: "fst (esc_advance e t) = map fst ps"
    "snd (esc_advance e t) = e\<lparr>esc_wheel := ?w', esc_table := ?t'\<rparr>"
    using fire ps(1) by (simp_all add: esc_advance_def split_beta)
  have map': "hm_map ?t' = (\<lambda>j. if esc_due e t j
      then map_option (\<lambda>r. r\<lparr>esc_state := Escalated\<rparr>) (?f j) else ?f j)"
    using fire ids by (auto simp: esc_map_def fun_eq_iff)
  have dom': "dom (hm_map ?t') = dom ?f" by (auto simp: map' dom_def split: if_splits)
  have ad: "armed_deadline (hm_map ?t') j = Some d \<longleftrightarrow>
      armed_deadline ?f j = Some d \<and> ?g < expiry_tick ?w d" for j d
    by (cases "?f j") (auto simp: map' armed_deadline_def esc_due_def)
  have clock: "tick_ms ?w' = tick_ms ?w" "start_ms ?w' = start_ms ?w"
    using advance_to_fields [of ?g ?w "[]"] by (simp_all add: tw_advance_def)
  have "timers ?w' (hm_map ?t') = {p \<in> ?T. ?g < snd p}"
    using expiry_tick_stable [OF ps(5) clock] unfolding timers_def ad by fastforce
  then have "tw_pending ?w' = mset_set (timers ?w' (hm_map ?t'))"
    using ps(4) inv fin by (simp add: esc_inv_def filter_mset_mset_set)
  then have "esc_inv (snd (esc_advance e t))"
    using ps(3) fire inv dom' unfolding adv by (simp add: esc_inv_def esc_map_def)
  then show ?thesis
    using dis ids map' unfolding adv by (simp add: esc_map_def)
qed

section \<open>Runs of the tracker\<close>

datatype esc_op = Arm alert_id timestamp | Ack alert_id | Advance timestamp

fun esc_step :: "tracker \<Rightarrow> esc_op \<Rightarrow> (alert_id list \<times> tracker) option" where
  "esc_step e (Arm i t) = map_option (Pair []) (esc_arm e i t)"
| "esc_step e (Ack i) = Some ([], esc_acknowledge e i)"
| "esc_step e (Advance t) = Some (esc_advance e t)"

text \<open>All the escalations a sequence of calls reports.\<close>

fun esc_run :: "tracker \<Rightarrow> esc_op list \<Rightarrow> (alert_id list \<times> tracker) option" where
  "esc_run e [] = Some ([], e)"
| "esc_run e (x # xs) =
     (case esc_step e x of None \<Rightarrow> None
      | Some (out, e') \<Rightarrow>
          (case esc_run e' xs of None \<Rightarrow> None | Some (outs, e'') \<Rightarrow> Some (out @ outs, e'')))"

text \<open>What one call may do to the tracked states: an alert leaves Armed once, for good.\<close>

definition settled :: "tracker \<Rightarrow> alert_id \<Rightarrow> bool" where
  "settled e i \<longleftrightarrow> (\<exists>r. esc_map e i = Some r \<and> esc_state r \<noteq> Armed)"

lemma settledI: "esc_map e i = Some r \<Longrightarrow> esc_state r \<noteq> Armed \<Longrightarrow> settled e i"
  by (auto simp: settled_def)

lemma esc_step_correct:
  assumes inv: "esc_inv e"
  obtains out e' where "esc_step e x = Some (out, e')" "esc_inv e'" "distinct out"
    "\<And>i. i \<in> set out \<Longrightarrow> \<not> settled e i \<and> settled e' i"
    "\<And>i. settled e i \<Longrightarrow> settled e' i \<and> esc_map e' i = esc_map e i"
proof (cases x)
  case (Arm i t)
  obtain e' where e': "esc_arm e i t = Some e'" "esc_inv e'"
    "esc_map e' = (if i \<in> dom (esc_map e) then esc_map e
       else (esc_map e)(i \<mapsto> \<lparr>esc_state = Armed, esc_deadline = t + timeout_ms e\<rparr>))"
    using esc_arm_correct [OF inv] .
  have "settled e j \<Longrightarrow> settled e' j \<and> esc_map e' j = esc_map e j" for j
    using e'(3) by (auto simp: settled_def dom_def)
  then show ?thesis using Arm e' by (intro that [of "[]" e']) auto
next
  case (Ack i)
  note ack = esc_acknowledge_correct [OF inv, of i]
  have "settled e j \<Longrightarrow> settled (esc_acknowledge e i) j \<and>
      esc_map (esc_acknowledge e i) j = esc_map e j" for j
    using ack by (auto simp: settled_def armed_deadline_def split: option.splits if_splits)
  then show ?thesis using Ack ack by (intro that [of "[]" "esc_acknowledge e i"]) auto
next
  case (Advance t)
  note adv = esc_advance_correct [OF inv, of t]
  let ?e = "snd (esc_advance e t)"
  have due: "esc_due e t j \<Longrightarrow> \<not> settled e j" for j
    by (auto simp: settled_def esc_due_def armed_deadline_def split: option.splits if_splits)
  have "esc_due e t j \<Longrightarrow> settled ?e j" for j
    using adv by (auto simp: settled_def esc_due_def armed_deadline_def split: option.splits)
  moreover have "settled e j \<Longrightarrow> settled ?e j \<and> esc_map ?e j = esc_map e j" for j
    using adv due [of j] by (auto simp: settled_def)
  ultimately show ?thesis
    using Advance adv due by (intro that [of "fst (esc_advance e t)" ?e]) auto
qed

lemma esc_run_correct:
  assumes "esc_inv e"
  shows "\<exists>outs e'. esc_run e xs = Some (outs, e') \<and> esc_inv e' \<and> distinct outs \<and>
    (\<forall>i \<in> set outs. \<not> settled e i) \<and> (\<forall>i. settled e i \<longrightarrow> esc_map e' i = esc_map e i)"
  using assms
proof (induction xs arbitrary: e)
  case (Cons x xs)
  obtain out e1 where s: "esc_step e x = Some (out, e1)" "esc_inv e1" "distinct out"
    "\<And>i. i \<in> set out \<Longrightarrow> \<not> settled e i \<and> settled e1 i"
    "\<And>i. settled e i \<Longrightarrow> settled e1 i \<and> esc_map e1 i = esc_map e i"
    using esc_step_correct [OF Cons.prems, of x] by blast
  obtain outs e2 where r: "esc_run e1 xs = Some (outs, e2)" "esc_inv e2" "distinct outs"
    "\<forall>i \<in> set outs. \<not> settled e1 i" "\<forall>i. settled e1 i \<longrightarrow> esc_map e2 i = esc_map e1 i"
    using Cons.IH [OF s(2)] by blast
  have "esc_run e (x # xs) = Some (out @ outs, e2)" using s(1) r(1) by simp
  moreover have "distinct (out @ outs)" using s(3,4) r(3,4) by auto
  moreover have "\<forall>i \<in> set (out @ outs). \<not> settled e i" using s(4,5) r(4) by auto
  moreover have "\<forall>i. settled e i \<longrightarrow> esc_map e2 i = esc_map e i" using s(5) r(5) by simp
  ultimately show ?case using r(2) by blast
qed simp

lemma esc_tracked_armed:
  assumes "esc_inv e"
  shows "esc_tracked e = card {i. armed_deadline (esc_map e) i \<noteq> None}"
proof -
  let ?T = "timers (esc_wheel e) (esc_map e)"
  have "esc_tracked e = card ?T"
    using assms tw_count_pending [of "esc_wheel e"] by (simp add: esc_tracked_def esc_inv_def)
  also have "\<dots> = card (fst ` ?T)"
    by (rule card_image [symmetric]) (auto intro!: inj_onI simp: timers_def)
  also have "fst ` ?T = {i. armed_deadline (esc_map e) i \<noteq> None}"
    by (force simp: timers_def image_iff)
  finally show ?thesis .
qed

section \<open>Properties\<close>

text \<open>C21: Whatever sequence of raises, acknowledgements and clock advances the tracker sees, every
  call returns, each alert is escalated at most once, and an alert that was acknowledged (or
  escalated) before a point of the run is not escalated after it and keeps its record.\<close>

theorem escalation_at_most_once:
  "\<exists>outs e. esc_run (esc_init timeout tick n start) xs = Some (outs, e) \<and> distinct outs \<and>
    (\<exists>outs' e'. esc_run e ys = Some (outs', e') \<and> distinct (outs @ outs') \<and>
      (\<forall>i r. esc_map e i = Some r \<and> esc_state r \<noteq> Armed \<longrightarrow>
         i \<notin> set outs' \<and> esc_map e' i = Some r))"
proof -
  let ?e0 = "esc_init timeout tick n start"
  obtain outs e where e: "esc_run ?e0 xs = Some (outs, e)" "esc_inv e" "distinct outs"
    using esc_run_correct [OF esc_init_inv] by blast
  obtain outs' e' where e': "esc_run e ys = Some (outs', e')" "distinct outs'"
    "\<forall>i \<in> set outs'. \<not> settled e i" "\<forall>i. settled e i \<longrightarrow> esc_map e' i = esc_map e i"
    using esc_run_correct [OF e(2)] by blast
  have app: "esc_run d zs = Some (os, d1) \<Longrightarrow> esc_run d1 ys = Some (os', d2) \<Longrightarrow>
      esc_run d (zs @ ys) = Some (os @ os', d2)" for d zs os d1 os' d2
    by (induction zs arbitrary: d os) (auto split: option.splits)
  have "esc_run ?e0 (xs @ ys) = Some (outs @ outs', e')" using app [OF e(1) e'(1)] .
  moreover obtain all_outs e2 where "esc_run ?e0 (xs @ ys) = Some (all_outs, e2)" "distinct all_outs"
    using esc_run_correct [OF esc_init_inv] by blast
  ultimately have "distinct (outs @ outs')" by simp
  moreover have "i \<notin> set outs' \<and> esc_map e' i = Some r"
    if "esc_map e i = Some r" "esc_state r \<noteq> Armed" for i r
    using that e'(3,4) settledI by fastforce
  ultimately show ?thesis using e e' by blast
qed

lemma escalation_at_most_once_witness:
  "\<exists>outs e outs' e'. esc_run (esc_init 5000 1000 8 0) [Arm 3 0, Ack 3] = Some (outs, e) \<and>
     esc_run e [Advance 9000] = Some (outs', e') \<and> distinct (outs @ outs')"
  using escalation_at_most_once [of 5000 1000 8 0 "[Arm 3 0, Ack 3]" "[Advance 9000]"] by blast

lemma esc_run_inv:
  assumes "esc_run (esc_init timeout tick n start) xs = Some (outs, e)"
  shows "esc_inv e"
  using esc_run_correct [OF esc_init_inv, of timeout tick n start xs] assms by auto

text \<open>An advance of a tracker in any reachable state escalates only armed alerts whose deadline
  has passed, and all the armed ones whose deadline and the wheel's clock are at least one tick
  behind; the escalated alerts are marked as such and the records of all others are untouched.\<close>

lemma escalation_advance_exact:
  assumes "esc_run (esc_init timeout tick n start) xs = Some (outs, e)"
    and "esc_advance e t = (due, e')"
  shows "(\<forall>i \<in> set due. \<exists>d. armed_deadline (esc_map e) i = Some d \<and> d \<le> t) \<and>
    (\<forall>i d. armed_deadline (esc_map e) i = Some d \<and>
       max d (tw_now (esc_wheel e)) + tick_ms (esc_wheel e) \<le> t \<longrightarrow> i \<in> set due) \<and>
    esc_map e' = (\<lambda>i. if i \<in> set due
       then map_option (\<lambda>r. r\<lparr>esc_state := Escalated\<rparr>) (esc_map e i) else esc_map e i)"
proof -
  let ?w = "esc_wheel e"
  have inv: "esc_inv e" using esc_run_inv [OF assms(1)] .
  have wi: "tw_inv ?w" using inv by (simp add: esc_inv_def)
  note adv = esc_advance_correct [OF inv, of t, unfolded assms(2) fst_conv snd_conv]
  have reach: "expiry_tick ?w d \<le> target_tick ?w t \<longleftrightarrow>
      start_ms ?w + expiry_tick ?w d * tick_ms ?w \<le> t" for d
    using target_reaches [OF wi expiry_tick_pos [OF wi]] .
  have "\<exists>d. armed_deadline (esc_map e) i = Some d \<and> d \<le> t" if "i \<in> set due" for i
  proof -
    have "esc_due e t i" using that adv by auto
    then obtain d where "armed_deadline (esc_map e) i = Some d"
      "expiry_tick ?w d \<le> target_tick ?w t" by (auto simp: esc_due_def)
    moreover note expiry_not_early [OF wi, of d]
    ultimately show ?thesis using reach by force
  qed
  moreover have "i \<in> set due" if a: "armed_deadline (esc_map e) i = Some d"
    and late: "max d (tw_now ?w) + tick_ms ?w \<le> t" for i d
  proof -
    have "start_ms ?w + expiry_tick ?w d * tick_ms ?w \<le> t"
    proof (cases "tw_now ?w < d")
      case True
      then show ?thesis using expiry_not_late [OF wi True] late by (simp add: left_diff_distrib)
    next
      case False
      then have "expiry_tick ?w d = cur_tick ?w + 1" using expiry_tick_past [OF wi] by simp
      then show ?thesis using late False by (simp add: tw_now_def distrib_right)
    qed
    then have "esc_due e t i" using a reach by (auto simp: esc_due_def)
    then show ?thesis using adv by simp
  qed
  moreover have "esc_map e' = (\<lambda>i. if i \<in> set due
       then map_option (\<lambda>r. r\<lparr>esc_state := Escalated\<rparr>) (esc_map e i) else esc_map e i)"
    using adv by simp
  ultimately show ?thesis by blast
qed

lemma escalation_advance_exact_witness:
  "\<exists>outs e due e'. esc_run (esc_init 5000 1000 8 0) [Arm 3 0] = Some (outs, e) \<and>
     esc_advance e 9000 = (due, e') \<and> (\<forall>i \<in> set due. \<exists>d. armed_deadline (esc_map e) i = Some d)"
proof -
  obtain outs e where e: "esc_run (esc_init 5000 1000 8 0) [Arm 3 0] = Some (outs, e)"
    using esc_run_correct [OF esc_init_inv] by blast
  obtain due e' where "esc_advance e 9000 = (due, e')" by (cases "esc_advance e 9000")
  then show ?thesis using escalation_advance_exact [OF e] e by blast
qed

text \<open>In every reachable state the timers the wheel counts are exactly the armed alerts.\<close>

lemma escalation_tracked_is_armed:
  assumes "esc_run (esc_init timeout tick n start) xs = Some (outs, e)"
  shows "esc_tracked e = card {i. armed_deadline (esc_map e) i \<noteq> None} \<and>
    esc_known e = card (dom (esc_map e))"
proof -
  have inv: "esc_inv e" using esc_run_inv [OF assms] .
  then have "hm_inv hash_u32 (esc_table e)" by (simp add: esc_inv_def)
  then show ?thesis
    using esc_tracked_armed [OF inv] hm_count_map by (auto simp: esc_known_def esc_map_def)
qed

lemma escalation_tracked_is_armed_witness:
  "\<exists>outs e. esc_run (esc_init 5000 1000 8 0) [Arm 3 0, Ack 3] = Some (outs, e) \<and>
     esc_known e = card (dom (esc_map e))"
proof -
  obtain outs e where e: "esc_run (esc_init 5000 1000 8 0) [Arm 3 0, Ack 3] = Some (outs, e)"
    using esc_run_correct [OF esc_init_inv] by blast
  then show ?thesis using escalation_tracked_is_armed [OF e] by blast
qed

end
