(* ===== verification/Rollback_DSU.thy ===== *)
theory Rollback_DSU
  imports Prelude
begin

text \<open>
  Union-find with rollback: \<^verbatim>\<open>include/safetrail/ds/dynamic_connectivity.hpp\<close> and
  \<^verbatim>\<open>src/ds/dynamic_connectivity.cpp\<close>. \<open>find\<close> is a loop without a bound; it is a
  partial function here, and the invariant (ranks grow strictly along parent pointers) shows that
  it returns, after at most log2 of the node count steps. The abstraction is the equivalence
  relation of being connected.
\<close>

record undo =
  u_child :: nat
  u_old_parent :: nat
  u_parent_of :: nat
  u_old_rank :: nat

record dsu =
  parent :: "nat list"
  rank :: "nat list"
  dsize :: "nat list"
  undo_log :: "undo list"
  n_components :: nat

definition dsu_init :: "nat \<Rightarrow> dsu" where
  "dsu_init n = \<lparr>parent = [0..<n], rank = replicate n 0, dsize = replicate n 1, undo_log = [],
                 n_components = n\<rparr>"

partial_function (option) find_root :: "nat list \<Rightarrow> nat \<Rightarrow> nat option" where
  "find_root p x = (if p ! x \<noteq> x then find_root p (p ! x) else Some x)"

definition dsu_find :: "dsu \<Rightarrow> nat \<Rightarrow> nat option" where
  "dsu_find d x = find_root (parent d) x"

definition link :: "dsu \<Rightarrow> nat \<Rightarrow> nat \<Rightarrow> dsu" where
  "link d rx ry =
     \<lparr>parent = (parent d)[ry := rx],
      rank = (if rank d ! rx = rank d ! ry then (rank d)[rx := rank d ! rx + 1] else rank d),
      dsize = (dsize d)[rx := dsize d ! rx + dsize d ! ry],
      undo_log = undo_log d @ [\<lparr>u_child = ry, u_old_parent = parent d ! ry, u_parent_of = rx,
                               u_old_rank = rank d ! rx\<rparr>],
      n_components = n_components d - 1\<rparr>"

definition dsu_unite :: "dsu \<Rightarrow> nat \<Rightarrow> nat \<Rightarrow> (bool \<times> dsu) option" where
  "dsu_unite d x y =
     (case dsu_find d x of None \<Rightarrow> None
      | Some rx \<Rightarrow>
          (case dsu_find d y of None \<Rightarrow> None
           | Some ry \<Rightarrow>
               if rx = ry then Some (False, d)
               else if rank d ! rx < rank d ! ry then Some (True, link d ry rx)
               else Some (True, link d rx ry)))"

definition dsu_connected :: "dsu \<Rightarrow> nat \<Rightarrow> nat \<Rightarrow> bool option" where
  "dsu_connected d x y =
     (case dsu_find d x of None \<Rightarrow> None
      | Some rx \<Rightarrow> (case dsu_find d y of None \<Rightarrow> None | Some ry \<Rightarrow> Some (rx = ry)))"

definition component_size :: "dsu \<Rightarrow> nat \<Rightarrow> nat option" where
  "component_size d x = map_option (\<lambda>r. dsize d ! r) (dsu_find d x)"

definition snapshot :: "dsu \<Rightarrow> nat" where
  "snapshot d = length (undo_log d)"

definition undo_one :: "dsu \<Rightarrow> dsu" where
  "undo_one d =
     (let u = last (undo_log d)
      in \<lparr>parent = (parent d)[u_child u := u_old_parent u],
          rank = (rank d)[u_parent_of u := u_old_rank u],
          dsize = (dsize d)[u_parent_of u := dsize d ! u_parent_of u - dsize d ! u_child u],
          undo_log = butlast (undo_log d),
          n_components = n_components d + 1\<rparr>)"

function rollback_to :: "nat \<Rightarrow> dsu \<Rightarrow> dsu" where
  "rollback_to mark d = (if mark < length (undo_log d) then rollback_to mark (undo_one d) else d)"
  by pat_completeness auto
termination
  by (relation "measure (\<lambda>(mark, d). length (undo_log d))") (auto simp: undo_one_def Let_def)

declare rollback_to.simps [simp del]

text \<open>
  \<open>components()\<close>: the node list is scanned once; \<open>slot\<close> maps a root to the position of its
  member list (\<open>SIZE_MAX\<close> in the code is \<open>None\<close> here).
\<close>

fun components_loop ::
  "dsu \<Rightarrow> nat list \<Rightarrow> nat option list \<Rightarrow> nat list list \<Rightarrow> nat list list option" where
  "components_loop d [] slot out = Some out"
| "components_loop d (i # is) slot out =
     (case dsu_find d i of None \<Rightarrow> None
      | Some r \<Rightarrow>
          (case slot ! r of
             None \<Rightarrow> components_loop d is (slot[r := Some (length out)]) (out @ [[i]])
           | Some j \<Rightarrow> components_loop d is slot (out[j := out ! j @ [i]])))"

definition dsu_components :: "dsu \<Rightarrow> nat list list option" where
  "dsu_components d =
     (let n = length (parent d) in components_loop d [0..<n] (replicate n None) [])"

section \<open>The forest invariant\<close>

definition forest :: "nat list \<Rightarrow> nat list \<Rightarrow> bool" where
  "forest p rk \<longleftrightarrow>
     length rk = length p \<and>
     (\<forall>x < length p. p ! x < length p \<and> (p ! x \<noteq> x \<longrightarrow> rk ! x < rk ! (p ! x)))"

lemma find_root_total:
  assumes f: "forest p rk" and x: "x < length p"
  obtains r k where "find_root p x = Some r" "r < length p" "p ! r = r"
    "((\<lambda>y. p ! y) ^^ k) x = r" "rk ! x + k \<le> rk ! r"
proof -
  define B where "B = Max (set rk)"
  have B: "rk ! y \<le> B" if "y < length p" for y
    using that f by (simp add: B_def forest_def)
  have "\<exists>r k. find_root p x = Some r \<and> r < length p \<and> p ! r = r \<and>
      ((\<lambda>y. p ! y) ^^ k) x = r \<and> rk ! x + k \<le> rk ! r"
    using x
  proof (induction "B - rk ! x" arbitrary: x rule: less_induct)
    case less
    show ?case
    proof (cases "p ! x = x")
      case True
      then have "find_root p x = Some x" by (simp add: find_root.simps)
      then show ?thesis using True less.prems by (intro exI [of _ x] exI [of _ 0]) simp
    next
      case False
      have up: "p ! x < length p" "rk ! x < rk ! (p ! x)"
        using f less.prems False by (auto simp: forest_def)
      then have "B - rk ! (p ! x) < B - rk ! x" using B [OF up(1)] by linarith
      then obtain r k where r: "find_root p (p ! x) = Some r" "r < length p" "p ! r = r"
        "((\<lambda>y. p ! y) ^^ k) (p ! x) = r" "rk ! (p ! x) + k \<le> rk ! r"
        using less.hyps up(1) by blast
      have "find_root p x = Some r" using r(1) False by (subst find_root.simps) simp
      moreover have "((\<lambda>y. p ! y) ^^ Suc k) x = r" using r(4) by (simp add: funpow_swap1)
      ultimately show ?thesis using r(2,3,5) up(2) by (intro exI [of _ r] exI [of _ "Suc k"]) simp
    qed
  qed
  then show ?thesis using that by blast
qed

lemma find_root_step: "p ! x \<noteq> x \<Longrightarrow> find_root p x = find_root p (p ! x)"
  by (subst find_root.simps) simp

lemma find_root_root: "p ! x = x \<Longrightarrow> find_root p x = Some x"
  by (simp add: find_root.simps)

lemma find_root_Some:
  assumes "forest p rk" "x < length p" "find_root p x = Some r"
  shows "r < length p \<and> p ! r = r \<and> rk ! x \<le> rk ! r"
proof -
  obtain r' k where "find_root p x = Some r'" "r' < length p" "p ! r' = r'" "rk ! x + k \<le> rk ! r'"
    using find_root_total [OF assms(1,2)] .
  then show ?thesis using assms(3) by auto
qed

text \<open>Linking one root under another of at least the same rank.\<close>

lemma forest_link:
  assumes f: "forest p rk" and r: "rx < length p" "ry < length p" "p ! rx = rx" "p ! ry = ry" "rx \<noteq> ry"
    and le: "rk ! ry \<le> rk ! rx"
  defines "rk' \<equiv> (if rk ! rx = rk ! ry then rk[rx := rk ! rx + 1] else rk)"
  shows "forest (p[ry := rx]) rk'"
proof -
  have len: "length rk = length p" using f by (simp add: forest_def)
  have mono: "rk ! z \<le> rk' ! z" if "z < length p" for z
    using that r len by (auto simp: rk'_def nth_list_update)
  have same: "rk' ! z = rk ! z" if "z \<noteq> rx" for z
    using that by (simp add: rk'_def)
  have top: "rk ! ry < rk' ! rx" using le r len by (auto simp: rk'_def)
  have "p[ry := rx] ! z < length p \<and>
      (p[ry := rx] ! z \<noteq> z \<longrightarrow> rk' ! z < rk' ! (p[ry := rx] ! z))" if z: "z < length p" for z
  proof (cases "z = ry")
    case True
    then show ?thesis using r top same [of ry] by simp
  next
    case False
    then have e: "p[ry := rx] ! z = p ! z" using r by simp
    have "p ! z < length p \<and> (p ! z \<noteq> z \<longrightarrow> rk ! z < rk ! (p ! z))"
      using f z by (simp add: forest_def)
    then show ?thesis using e mono [of "p ! z"] same [of z] r(3)
      by (cases "z = rx") (auto simp del: nth_list_update_neq)
  qed
  then show ?thesis using len by (simp add: forest_def rk'_def)
qed

lemma find_root_link:
  assumes f: "forest p rk" and f': "forest (p[ry := rx]) rk'"
    and r: "rx < length p" "ry < length p" "p ! rx = rx" "p ! ry = ry" "rx \<noteq> ry"
    and z: "z < length p" "find_root p z = Some s"
  shows "find_root (p[ry := rx]) z = Some (if s = ry then rx else s)"
proof -
  define B where "B = Max (set rk)"
  have B: "rk ! y \<le> B" if "y < length p" for y
    using that f by (simp add: B_def forest_def)
  show ?thesis
    using z
  proof (induction "B - rk ! z" arbitrary: z rule: less_induct)
    case less
    show ?case
    proof (cases "p ! z = z")
      case True
      then have s: "s = z" using less.prems(2) by (simp add: find_root_root)
      have rx: "find_root (p[ry := rx]) rx = Some rx" using r by (intro find_root_root) simp
      show ?thesis
      proof (cases "z = ry")
        case True
        then have "find_root (p[ry := rx]) z = find_root (p[ry := rx]) rx"
          using r by (subst find_root_step) simp_all
        then show ?thesis using True s rx by simp
      next
        case False
        then show ?thesis using \<open>p ! z = z\<close> s by (simp add: find_root_root)
      qed
    next
      case False
      have up: "p ! z < length p" "rk ! z < rk ! (p ! z)"
        using f less.prems(1) False by (auto simp: forest_def)
      have "z \<noteq> ry" using False r(4) by auto
      then have "find_root (p[ry := rx]) z = find_root (p[ry := rx]) (p ! z)"
        using False by (subst find_root_step) simp_all
      moreover have "find_root p (p ! z) = Some s"
        using less.prems(2) False by (simp add: find_root_step [of p z])
      moreover have "B - rk ! (p ! z) < B - rk ! z" using B [OF up(1)] up(2) by linarith
      ultimately show ?thesis using less.hyps up(1) by metis
    qed
  qed
qed


section \<open>The structure's invariant\<close>

definition rep :: "dsu \<Rightarrow> nat \<Rightarrow> nat" where
  "rep d z = the (find_root (parent d) z)"

abbreviation nodes :: "dsu \<Rightarrow> nat" where
  "nodes d \<equiv> length (parent d)"

definition members :: "dsu \<Rightarrow> nat \<Rightarrow> nat set" where
  "members d r = {z. z < nodes d \<and> rep d z = r}"

definition roots :: "dsu \<Rightarrow> nat set" where
  "roots d = {r. r < nodes d \<and> parent d ! r = r}"

definition dsu_inv :: "dsu \<Rightarrow> bool" where
  "dsu_inv d \<longleftrightarrow>
     forest (parent d) (rank d) \<and> length (dsize d) = nodes d \<and>
     n_components d = card (roots d) \<and>
     (\<forall>r \<in> roots d. dsize d ! r = card (members d r) \<and> 2 ^ (rank d ! r) \<le> card (members d r))"

lemma dsu_find_rep:
  assumes "dsu_inv d" "x < nodes d"
  shows "dsu_find d x = Some (rep d x)" "rep d x \<in> roots d"
proof -
  have "forest (parent d) (rank d)" using assms(1) by (simp add: dsu_inv_def)
  then obtain r k where "find_root (parent d) x = Some r" "r < nodes d" "parent d ! r = r"
    using find_root_total [OF _ assms(2)] by metis
  then show "dsu_find d x = Some (rep d x)" "rep d x \<in> roots d"
    by (simp_all add: dsu_find_def rep_def roots_def)
qed

lemma rep_root: "r \<in> roots d \<Longrightarrow> rep d r = r"
  by (simp add: roots_def rep_def find_root_root)

lemma finite_members [simp]: "finite (members d r)"
  by (simp add: members_def)

lemma finite_roots [simp]: "finite (roots d)"
  by (simp add: roots_def)

lemma dsu_init_rep: "x < n \<Longrightarrow> rep (dsu_init n) x = x"
  by (simp add: rep_def dsu_init_def find_root_root)

lemma dsu_init_inv [inv_intros]: "dsu_inv (dsu_init n)"
proof -
  have "members (dsu_init n) r = {r}" if "r < n" for r
    using that dsu_init_rep [of _ n] by (auto simp: members_def) (simp_all add: dsu_init_def)
  moreover have "roots (dsu_init n) = {..<n}" by (auto simp: roots_def dsu_init_def)
  ultimately show ?thesis by (simp add: dsu_inv_def) (simp add: dsu_init_def forest_def)
qed

lemma link_correct:
  assumes inv: "dsu_inv d" and r: "rx \<in> roots d" "ry \<in> roots d" "rx \<noteq> ry"
    and le: "rank d ! ry \<le> rank d ! rx"
  shows "dsu_inv (link d rx ry)"
    and "\<And>z. z < nodes d \<Longrightarrow> rep (link d rx ry) z = (if rep d z = ry then rx else rep d z)"
proof -
  let ?d = "link d rx ry"
  have f: "forest (parent d) (rank d)" using inv by (simp add: dsu_inv_def)
  have b: "rx < nodes d" "ry < nodes d" "parent d ! rx = rx" "parent d ! ry = ry"
    using r by (auto simp: roots_def)
  have f': "forest (parent ?d) (rank ?d)"
    using forest_link [OF f b r(3) le] by (simp add: link_def)
  show rep': "rep ?d z = (if rep d z = ry then rx else rep d z)" if z: "z < nodes d" for z
  proof -
    have "find_root (parent d) z = Some (rep d z)"
      using dsu_find_rep(1) [OF inv z] by (simp add: dsu_find_def)
    then have "find_root (parent ?d) z = Some (if rep d z = ry then rx else rep d z)"
      using find_root_link [OF f _ b r(3) z] f' by (simp add: link_def)
    then show ?thesis by (simp add: rep_def)
  qed
  have len: "nodes ?d = nodes d" "length (dsize d) = nodes d" "length (rank d) = nodes d"
    using inv f by (simp_all add: link_def dsu_inv_def forest_def)
  have roots': "roots ?d = roots d - {ry}"
    using b r(3) by (auto simp: roots_def link_def nth_list_update split: if_splits)
  have mem': "members ?d s = (if s = rx then members d rx \<union> members d ry else members d s)"
    if "s \<noteq> ry" for s
    using that rep' r(3) by (auto simp: members_def len split: if_splits)
  have disj: "members d rx \<inter> members d ry = {}" using r(3) by (auto simp: members_def)
  have old: "dsize d ! s = card (members d s)" "2 ^ (rank d ! s) \<le> card (members d s)"
    if "s \<in> roots d" for s
    using inv that by (simp_all add: dsu_inv_def)
  have "dsize ?d ! s = card (members ?d s) \<and> 2 ^ (rank ?d ! s) \<le> card (members ?d s)"
    if s: "s \<in> roots ?d" for s
  proof (cases "s = rx")
    case True
    have c: "card (members ?d rx) = card (members d rx) + card (members d ry)"
      using mem' [OF r(3)] disj by (simp add: card_Un_disjoint)
    have "dsize ?d ! rx = dsize d ! rx + dsize d ! ry" using b len by (simp add: link_def)
    moreover have "2 ^ (rank ?d ! rx) \<le> card (members d rx) + card (members d ry)"
      using old(2) [OF r(1)] old(2) [OF r(2)] b len
      by (cases "rank d ! rx = rank d ! ry") (simp_all add: link_def)
    ultimately show ?thesis using True c old(1) [OF r(1)] old(1) [OF r(2)] by simp
  next
    case False
    then have "dsize ?d ! s = dsize d ! s" "rank ?d ! s = rank d ! s" by (simp_all add: link_def)
    then show ?thesis using False s old mem' [of s] by (simp add: roots')
  qed
  moreover have "n_components ?d = card (roots ?d)"
  proof -
    have "n_components ?d = n_components d - 1" by (simp add: link_def)
    then show ?thesis
      using inv r(2) unfolding roots' by (simp add: dsu_inv_def card_Diff_singleton)
  qed
  ultimately show "dsu_inv ?d" using f' len by (simp add: dsu_inv_def link_def)
qed

lemma undo_link:
  assumes "length (rank d) = nodes d" "length (dsize d) = nodes d" "rx \<noteq> ry"
    "rx < nodes d" "ry < nodes d" "0 < n_components d"
  shows "undo_one (link d rx ry) = d"
proof -
  have "rank d ! rx = rank d ! ry \<Longrightarrow> (rank d)[rx := rank d ! ry] = rank d"
    using list_update_id [of "rank d" rx] by simp
  then show ?thesis
    using assms by (cases d) (simp add: undo_one_def link_def Let_def list_update_swap [of ry rx])
qed

definition joins :: "dsu \<Rightarrow> dsu \<Rightarrow> nat \<Rightarrow> nat \<Rightarrow> bool" where
  "joins d d' x y \<longleftrightarrow>
     (\<forall>u < nodes d. \<forall>v < nodes d.
        rep d' u = rep d' v \<longleftrightarrow>
          rep d u = rep d v \<or> (rep d u = rep d x \<and> rep d v = rep d y) \<or>
          (rep d u = rep d y \<and> rep d v = rep d x))"

lemma unite_correct:
  assumes inv: "dsu_inv d" and x: "x < nodes d" and y: "y < nodes d"
  obtains d' where "dsu_unite d x y = Some (rep d x \<noteq> rep d y, d')" "dsu_inv d'"
    "nodes d' = nodes d" "joins d d' x y"
    "if rep d x \<noteq> rep d y then undo_one d' = d \<and> length (undo_log d') = length (undo_log d) + 1
     else d' = d"
proof (cases "rep d x = rep d y")
  case True
  then show ?thesis
    using dsu_find_rep [OF inv x] dsu_find_rep [OF inv y] inv
    by (intro that [of d]) (auto simp: dsu_unite_def joins_def)
next
  case False
  define sw where "sw \<longleftrightarrow> rank d ! rep d x < rank d ! rep d y"
  define rx where "rx = (if sw then rep d y else rep d x)"
  define ry where "ry = (if sw then rep d x else rep d y)"
  have r: "rx \<in> roots d" "ry \<in> roots d" "rx \<noteq> ry" "rank d ! ry \<le> rank d ! rx"
    using dsu_find_rep [OF inv x] dsu_find_rep [OF inv y] False
    by (auto simp: rx_def ry_def sw_def)
  have "dsu_unite d x y = Some (True, link d rx ry)"
    using dsu_find_rep [OF inv x] dsu_find_rep [OF inv y] False
    by (simp add: dsu_unite_def rx_def ry_def sw_def)
  moreover note link_correct [OF inv r]
  moreover have "joins d (link d rx ry) x y"
    unfolding joins_def
  proof (intro allI impI)
    fix u v assume uv: "u < nodes d" "v < nodes d"
    show "rep (link d rx ry) u = rep (link d rx ry) v \<longleftrightarrow>
          rep d u = rep d v \<or> (rep d u = rep d x \<and> rep d v = rep d y) \<or>
          (rep d u = rep d y \<and> rep d v = rep d x)"
      using link_correct(2) [OF inv r uv(1)] link_correct(2) [OF inv r uv(2)] r(3)
      by (cases sw) (auto simp: rx_def ry_def)
  qed
  moreover have "undo_one (link d rx ry) = d"
  proof (rule undo_link)
    show "length (rank d) = nodes d" "length (dsize d) = nodes d"
      using inv by (auto simp: dsu_inv_def forest_def)
    show "rx < nodes d" "ry < nodes d" using r by (auto simp: roots_def)
    have "0 < card (roots d)" using r(1) by (auto simp: card_gt_0_iff)
    then show "0 < n_components d" using inv by (simp add: dsu_inv_def)
  qed (rule r)
  moreover have "nodes (link d rx ry) = nodes d" "length (undo_log (link d rx ry)) = length (undo_log d) + 1"
    by (simp_all add: link_def)
  ultimately show ?thesis using False by (intro that [of "link d rx ry"]) simp_all
qed

section \<open>Sequences of unions, and rolling them back\<close>

fun unite_all :: "dsu \<Rightarrow> (nat \<times> nat) list \<Rightarrow> dsu option" where
  "unite_all d [] = Some d"
| "unite_all d ((x, y) # es) =
     (case dsu_unite d x y of None \<Rightarrow> None | Some (_, d') \<Rightarrow> unite_all d' es)"

definition edges_in :: "nat \<Rightarrow> (nat \<times> nat) list \<Rightarrow> bool" where
  "edges_in n es \<longleftrightarrow> (\<forall>(x, y) \<in> set es. x < n \<and> y < n)"

lemma edges_in_Cons [simp]: "edges_in n ((x, y) # es) \<longleftrightarrow> x < n \<and> y < n \<and> edges_in n es"
  by (simp add: edges_in_def)

lemma rollback_unite:
  assumes "dsu_inv d" "x < nodes d" "y < nodes d" "mark \<le> snapshot d" "dsu_unite d x y = Some (b, d')"
  shows "rollback_to mark d' = rollback_to mark d"
proof -
  obtain d1 where d1: "dsu_unite d x y = Some (rep d x \<noteq> rep d y, d1)"
    "if rep d x \<noteq> rep d y then undo_one d1 = d \<and> length (undo_log d1) = length (undo_log d) + 1
     else d1 = d"
    using unite_correct [OF assms(1-3)] .
  then have "d' = d1" using assms(5) by simp
  show ?thesis
  proof (cases "rep d x = rep d y")
    case True
    then show ?thesis using d1(2) \<open>d' = d1\<close> by simp
  next
    case False
    then have "mark < length (undo_log d1)" "undo_one d1 = d"
      using d1(2) assms(4) by (simp_all add: snapshot_def)
    then show ?thesis using \<open>d' = d1\<close> by (simp add: rollback_to.simps [of mark d1])
  qed
qed

lemma unite_all_correct:
  assumes "dsu_inv d" "edges_in (nodes d) es"
  obtains d' where "unite_all d es = Some d'" "dsu_inv d'" "nodes d' = nodes d"
    "snapshot d \<le> snapshot d'" "\<And>mark. mark \<le> snapshot d \<Longrightarrow> rollback_to mark d' = rollback_to mark d"
proof -
  have "\<exists>d'. unite_all d es = Some d' \<and> dsu_inv d' \<and> nodes d' = nodes d \<and> snapshot d \<le> snapshot d' \<and>
      (\<forall>mark \<le> snapshot d. rollback_to mark d' = rollback_to mark d)"
    using assms
  proof (induction es arbitrary: d)
    case (Cons e es)
    obtain x y where e: "e = (x, y)" by (cases e)
    then have xy: "x < nodes d" "y < nodes d" "edges_in (nodes d) es" using Cons.prems(2) by simp_all
    obtain d1 where d1: "dsu_unite d x y = Some (rep d x \<noteq> rep d y, d1)" "dsu_inv d1"
      "nodes d1 = nodes d" "if rep d x \<noteq> rep d y then undo_one d1 = d \<and>
         length (undo_log d1) = length (undo_log d) + 1 else d1 = d"
      using unite_correct [OF Cons.prems(1) xy(1,2)] by blast
    have s: "snapshot d \<le> snapshot d1" using d1(4) by (auto simp: snapshot_def split: if_splits)
    obtain d' where d': "unite_all d1 es = Some d'" "dsu_inv d'" "nodes d' = nodes d1"
      "snapshot d1 \<le> snapshot d'" "\<forall>mark \<le> snapshot d1. rollback_to mark d' = rollback_to mark d1"
      using Cons.IH [OF d1(2)] xy(3) d1(3) by auto
    have "\<forall>mark \<le> snapshot d. rollback_to mark d' = rollback_to mark d"
      using d'(5) s rollback_unite [OF Cons.prems(1) xy(1,2) _ d1(1)] by auto
    then show ?case using d1 d' s e by auto
  qed auto
  then show ?thesis using that by blast
qed

section \<open>Connectivity is the equivalence closure of the united pairs\<close>

definition linked :: "(nat \<times> nat) set \<Rightarrow> (nat \<times> nat) set" where
  "linked E = (E \<union> E\<inverse>)\<^sup>*"

lemma linked_sym: "(x, y) \<in> linked E \<Longrightarrow> (y, x) \<in> linked E"
proof -
  have "sym (E \<union> E\<inverse>)" by (auto simp: sym_def)
  then show "(x, y) \<in> linked E \<Longrightarrow> (y, x) \<in> linked E"
    unfolding linked_def by (meson sym_rtrancl symE)
qed

lemma linked_trans: "(x, y) \<in> linked E \<Longrightarrow> (y, z) \<in> linked E \<Longrightarrow> (x, z) \<in> linked E"
  by (simp add: linked_def)

lemma linked_refl [simp]: "(x, x) \<in> linked E"
  by (simp add: linked_def)

lemma linked_mono: "E \<subseteq> F \<Longrightarrow> linked E \<subseteq> linked F"
  unfolding linked_def by (intro rtrancl_mono) auto

lemma linked_insert:
  "(u, v) \<in> linked (insert (x, y) E) \<longleftrightarrow>
     (u, v) \<in> linked E \<or> ((u, x) \<in> linked E \<and> (y, v) \<in> linked E) \<or>
     ((u, y) \<in> linked E \<and> (x, v) \<in> linked E)"
proof
  assume "(u, v) \<in> linked (insert (x, y) E)"
  then show "(u, v) \<in> linked E \<or> ((u, x) \<in> linked E \<and> (y, v) \<in> linked E) \<or>
     ((u, y) \<in> linked E \<and> (x, v) \<in> linked E)"
    unfolding linked_def [of "insert (x, y) E"]
  proof (induction rule: rtrancl_induct)
    case (step v w)
    then consider "(v, w) \<in> E \<union> E\<inverse>" | "v = x" "w = y" | "v = y" "w = x" by blast
    then show ?case
    proof cases
      case 1
      then have "(v, w) \<in> linked E" unfolding linked_def by (rule r_into_rtrancl)
      then show ?thesis using step.IH linked_trans by blast
    next
      case 2 then show ?thesis using step.IH linked_refl linked_trans linked_sym by metis
    next
      case 3 then show ?thesis using step.IH linked_refl linked_trans linked_sym by metis
    qed
  qed simp
next
  have m: "linked E \<subseteq> linked (insert (x, y) E)" by (intro linked_mono) auto
  have e: "(x, y) \<in> linked (insert (x, y) E)" by (auto simp: linked_def)
  assume "(u, v) \<in> linked E \<or> ((u, x) \<in> linked E \<and> (y, v) \<in> linked E) \<or>
     ((u, y) \<in> linked E \<and> (x, v) \<in> linked E)"
  then show "(u, v) \<in> linked (insert (x, y) E)"
    using m e linked_sym [OF e] linked_trans by blast
qed

definition same_comp :: "dsu \<Rightarrow> (nat \<times> nat) set \<Rightarrow> bool" where
  "same_comp d E \<longleftrightarrow>
     (\<forall>u < nodes d. \<forall>v < nodes d. rep d u = rep d v \<longleftrightarrow> (u, v) \<in> linked E)"

lemma same_comp_init: "same_comp (dsu_init n) {}"
  using dsu_init_rep [of _ n] by (auto simp: same_comp_def linked_def) (simp_all add: dsu_init_def)

lemma same_comp_unite:
  assumes "same_comp d E" "joins d d' x y" "nodes d' = nodes d" "x < nodes d" "y < nodes d"
  shows "same_comp d' (insert (x, y) E)"
  unfolding same_comp_def assms(3)
proof (intro allI impI)
  fix u v assume uv: "u < nodes d" "v < nodes d"
  have "rep d' u = rep d' v \<longleftrightarrow> rep d u = rep d v \<or> (rep d u = rep d x \<and> rep d v = rep d y) \<or>
          (rep d u = rep d y \<and> rep d v = rep d x)"
    using assms(2) uv by (simp add: joins_def)
  also have "\<dots> \<longleftrightarrow> (u, v) \<in> linked E \<or> ((u, x) \<in> linked E \<and> (v, y) \<in> linked E) \<or>
          ((u, y) \<in> linked E \<and> (v, x) \<in> linked E)"
    using assms(1,4,5) uv by (simp add: same_comp_def)
  also have "\<dots> \<longleftrightarrow> (u, v) \<in> linked (insert (x, y) E)"
    unfolding linked_insert using linked_sym by blast
  finally show "rep d' u = rep d' v \<longleftrightarrow> (u, v) \<in> linked (insert (x, y) E)" .
qed

lemma unite_all_same_comp:
  assumes "dsu_inv d" "edges_in (nodes d) es" "same_comp d E" "unite_all d es = Some d'"
  shows "same_comp d' (set es \<union> E)"
  using assms
proof (induction es arbitrary: d E)
  case (Cons e es)
  obtain x y where e: "e = (x, y)" by (cases e)
  then have xy: "x < nodes d" "y < nodes d" "edges_in (nodes d) es" using Cons.prems(2) by simp_all
  obtain d1 where d1: "dsu_unite d x y = Some (rep d x \<noteq> rep d y, d1)" "dsu_inv d1"
    "nodes d1 = nodes d" "joins d d1 x y"
    using unite_correct [OF Cons.prems(1) xy(1,2)] by blast
  have "unite_all d1 es = Some d'" using Cons.prems(4) e d1(1) by simp
  then have "same_comp d' (set es \<union> insert (x, y) E)"
    using same_comp_unite [OF Cons.prems(3) d1(4,3) xy(1,2)] xy(3) d1(3)
    by (intro Cons.IH [OF d1(2)]) simp_all
  moreover have "set es \<union> insert (x, y) E = set (e # es) \<union> E" using e by auto
  ultimately show ?case by metis
qed simp

section \<open>The component listing\<close>

definition class_of :: "dsu \<Rightarrow> nat list \<Rightarrow> nat \<Rightarrow> nat list" where
  "class_of d ps r = filter (\<lambda>z. rep d z = r) ps"

lemma first_index_snoc:
  "first_index P (xs @ [x]) =
     (case first_index P xs of Some i \<Rightarrow> Some i
      | None \<Rightarrow> if P x then Some (length xs) else None)"
  by (induction xs) (auto split: option.splits)

lemma first_index_eq_distinct:
  "distinct xs \<Longrightarrow> i < length xs \<Longrightarrow> first_index (\<lambda>s. s = xs ! i) xs = Some i"
proof -
  assume d: "distinct xs" and i: "i < length xs"
  then obtain k where k: "first_index (\<lambda>s. s = xs ! i) xs = Some k"
    using first_index_None [of "\<lambda>s. s = xs ! i" xs] by (cases "first_index (\<lambda>s. s = xs ! i) xs") auto
  then show ?thesis using first_index_Some [OF k] nth_eq_iff_index_eq [OF d, of k i] i by simp
qed

lemma components_loop_correct:
  assumes inv: "dsu_inv d" and "\<forall>i \<in> set is. i < nodes d" "length slot = nodes d"
    and "distinct rs" "set rs = rep d ` set ps" "out = map (class_of d ps) rs"
    and "\<forall>r < nodes d. slot ! r = first_index (\<lambda>s. s = r) rs"
  shows "\<exists>rs'. distinct rs' \<and> set rs' = rep d ` (set ps \<union> set is) \<and>
           components_loop d is slot out = Some (map (class_of d (ps @ is)) rs')"
  using assms(2-)
proof (induction "is" arbitrary: slot out rs ps)
  case (Cons i is')
  define r where "r = rep d i"
  have i: "i < nodes d" using Cons.prems(1) by simp
  have f: "dsu_find d i = Some r" "r < nodes d"
    using dsu_find_rep [OF inv i] by (simp_all add: r_def roots_def)
  have sl: "slot ! r = first_index (\<lambda>s. s = r) rs" using Cons.prems(6) f(2) by simp
  show ?case
  proof (cases "slot ! r")
    case None
    then have new: "r \<notin> set rs" using sl by (auto simp: first_index_None)
    have cl: "class_of d (ps @ [i]) s = class_of d ps s" if "s \<in> set rs" for s
      using that new by (auto simp: class_of_def r_def)
    have cr: "class_of d (ps @ [i]) r = [i]"
      using new Cons.prems(4) by (auto simp: class_of_def r_def filter_empty_conv) (metis imageI)
    have "\<exists>rs'. distinct rs' \<and> set rs' = rep d ` (set (ps @ [i]) \<union> set is') \<and>
           components_loop d is' (slot[r := Some (length out)]) (out @ [[i]]) =
             Some (map (class_of d ((ps @ [i]) @ is')) rs')"
    proof (rule Cons.IH [of _ "rs @ [r]"])
      show "set (rs @ [r]) = rep d ` set (ps @ [i])" using Cons.prems(4) by (simp add: r_def)
      show "out @ [[i]] = map (class_of d (ps @ [i])) (rs @ [r])"
        using Cons.prems(5) cl cr by simp
      show "\<forall>q < nodes d. slot[r := Some (length out)] ! q = first_index (\<lambda>s. s = q) (rs @ [r])"
        using Cons.prems(2,5,6) None sl f(2)
        by (auto simp: first_index_snoc nth_list_update split: option.splits)
    qed (use Cons.prems new in simp_all)
    then show ?thesis using f None by simp
  next
    case (Some j)
    then have j: "j < length rs" "rs ! j = r" using sl first_index_Some by fastforce+
    have "out[j := out ! j @ [i]] = map (class_of d (ps @ [i])) rs"
    proof (rule nth_equalityI)
      fix k assume "k < length (out[j := out ! j @ [i]])"
      then have k: "k < length rs" using Cons.prems(5) by simp
      have "k = j \<longleftrightarrow> rs ! k = r" using k j Cons.prems(3) nth_eq_iff_index_eq by blast
      then show "out[j := out ! j @ [i]] ! k = map (class_of d (ps @ [i])) rs ! k"
        using k j Cons.prems(5) by (auto simp: class_of_def r_def nth_list_update)
    qed (use Cons.prems(5) in simp)
    moreover have "set rs = rep d ` set (ps @ [i])"
      using Cons.prems(4) j nth_mem [OF j(1)] by (auto simp: r_def)
    ultimately have "\<exists>rs'. distinct rs' \<and> set rs' = rep d ` (set (ps @ [i]) \<union> set is') \<and>
           components_loop d is' slot (out[j := out ! j @ [i]]) =
             Some (map (class_of d ((ps @ [i]) @ is')) rs')"
      using Cons.prems Cons.IH [of slot rs "ps @ [i]"] by simp
    then show ?thesis using f Some by simp
  qed
next
  case Nil
  then show ?case by (intro exI [of _ rs]) simp
qed

lemma components_correct:
  assumes "dsu_inv d"
  obtains rs where "distinct rs" "set rs = roots d"
    "dsu_components d = Some (map (class_of d [0..<nodes d]) rs)"
proof -
  have im: "rep d ` {0..<nodes d} = roots d"
  proof
    show "rep d ` {0..<nodes d} \<subseteq> roots d" using dsu_find_rep(2) [OF assms] by auto
    show "roots d \<subseteq> rep d ` {0..<nodes d}"
      using rep_root [of _ d] by (force simp: roots_def image_iff)
  qed
  have "\<exists>rs'. distinct rs' \<and> set rs' = rep d ` (set [] \<union> set [0..<nodes d]) \<and>
      components_loop d [0..<nodes d] (replicate (nodes d) None) [] =
        Some (map (class_of d ([] @ [0..<nodes d])) rs')"
    by (rule components_loop_correct [OF assms, of _ _ "[]"]) simp_all
  then show ?thesis using im that by (auto simp: dsu_components_def Let_def)
qed

section \<open>Properties\<close>

lemma unite_all_init:
  assumes "edges_in n es"
  obtains d where "unite_all (dsu_init n) es = Some d" "dsu_inv d" "nodes d = n"
    "same_comp d (set es)"
proof -
  have n: "nodes (dsu_init n) = n" by (simp add: dsu_init_def)
  obtain d where d: "unite_all (dsu_init n) es = Some d" "dsu_inv d" "nodes d = n"
    using unite_all_correct [OF dsu_init_inv, of n es] assms n by metis
  have "same_comp d (set es \<union> {})"
    using unite_all_same_comp [OF dsu_init_inv _ same_comp_init d(1)] assms n by simp
  then show ?thesis using d that by simp
qed

text \<open>C26: Uniting the pairs of a list one after the other makes two nodes connected exactly when
  the pairs link them, and the size reported for a node is the number of nodes linked to it.
  Every find along the way returns.\<close>

theorem dsu_connectivity:
  assumes "edges_in n es"
  shows "\<exists>d. unite_all (dsu_init n) es = Some d \<and>
    (\<forall>u < n. \<forall>v < n. dsu_connected d u v = Some ((u, v) \<in> linked (set es))) \<and>
    (\<forall>u < n. component_size d u = Some (card {v. v < n \<and> (u, v) \<in> linked (set es)}))"
proof -
  obtain d where d: "unite_all (dsu_init n) es = Some d" "dsu_inv d" "nodes d = n"
    "same_comp d (set es)"
    using unite_all_init [OF assms] .
  have "dsu_connected d u v = Some ((u, v) \<in> linked (set es))" if "u < n" "v < n" for u v
    using d dsu_find_rep(1) [OF d(2)] that by (simp add: dsu_connected_def same_comp_def)
  moreover have "component_size d u = Some (card {v. v < n \<and> (u, v) \<in> linked (set es)})"
    if u: "u < n" for u
  proof -
    have "members d (rep d u) = {v. v < n \<and> (u, v) \<in> linked (set es)}"
      using d(3,4) u by (force simp: members_def same_comp_def)
    moreover have "dsize d ! rep d u = card (members d (rep d u))"
      using d(2) dsu_find_rep(2) [OF d(2)] u d(3) by (simp add: dsu_inv_def)
    ultimately show ?thesis
      using dsu_find_rep(1) [OF d(2)] u d(3) by (simp add: component_size_def)
  qed
  ultimately show ?thesis using d(1) by blast
qed

lemma dsu_connectivity_witness:
  "edges_in 4 [(0, 1), (2, 1)] \<and>
   (\<exists>d. unite_all (dsu_init 4) [(0, 1), (2, 1)] = Some d \<and>
      dsu_connected d 0 2 = Some ((0, 2) \<in> linked {(0, 1), (2, 1)}))"
proof -
  have e: "edges_in 4 [(0, 1), (2, 1)]" by (simp add: edges_in_def)
  show ?thesis using dsu_connectivity [OF e] e by auto
qed

text \<open>C36: A rollback to a snapshot restores the structure bit for bit, whatever was united in
  between: parents, ranks, sizes, log and component count.\<close>

theorem dsu_rollback_exact:
  assumes "edges_in n es" "edges_in n es'"
    and "unite_all (dsu_init n) es = Some d" "unite_all d es' = Some d'"
  shows "rollback_to (snapshot d) d' = d"
proof -
  have d: "dsu_inv d" "nodes d = n" using unite_all_init [OF assms(1)] assms(3) by auto
  obtain d1 where "unite_all d es' = Some d1"
    "\<And>mark. mark \<le> snapshot d \<Longrightarrow> rollback_to mark d1 = rollback_to mark d"
    using unite_all_correct [OF d(1), of es'] assms(2) d(2) by blast
  then have "rollback_to (snapshot d) d' = rollback_to (snapshot d) d" using assms(4) by simp
  then show ?thesis by (simp add: rollback_to.simps [of _ d] snapshot_def)
qed

lemma dsu_rollback_exact_witness:
  "\<exists>d d'. unite_all (dsu_init 3) [(0, 1)] = Some d \<and> unite_all d [(1, 2)] = Some d' \<and>
      rollback_to (snapshot d) d' = d"
proof -
  have e: "edges_in 3 [(0, 1)]" "edges_in 3 [(1, 2)]" by (simp_all add: edges_in_def)
  obtain d where d: "unite_all (dsu_init 3) [(0, 1)] = Some d" "dsu_inv d" "nodes d = 3"
    using unite_all_init [OF e(1)] by metis
  obtain d' where "unite_all d [(1, 2)] = Some d'"
    using unite_all_correct [OF d(2), of "[(1, 2)]"] e(2) d(3) by auto
  then show ?thesis using dsu_rollback_exact [OF e d(1)] d(1) by blast
qed

text \<open>The component listing partitions the nodes: every node is in exactly one list, two
  nodes are in the same list exactly when the united pairs link them, no list is empty, and there
  are as many lists as the component counter says.\<close>

lemma dsu_components_partition:
  assumes "edges_in n es" "unite_all (dsu_init n) es = Some d"
  shows "\<exists>out. dsu_components d = Some out \<and> length out = n_components d \<and> [] \<notin> set out \<and>
    (\<forall>u < n. \<exists>!j. j < length out \<and> u \<in> set (out ! j)) \<and>
    (\<forall>j < length out. \<forall>u \<in> set (out ! j). \<forall>v.
       v \<in> set (out ! j) \<longleftrightarrow> v < n \<and> (u, v) \<in> linked (set es))"
proof -
  have d: "dsu_inv d" "nodes d = n" "same_comp d (set es)"
    using unite_all_init [OF assms(1)] assms(2) by auto
  obtain rs where rs: "distinct rs" "set rs = roots d"
    "dsu_components d = Some (map (class_of d [0..<n]) rs)"
    using components_correct [OF d(1)] d(2) by metis
  let ?out = "map (class_of d [0..<n]) rs"
  have mem: "u \<in> set (?out ! j) \<longleftrightarrow> u < n \<and> rep d u = rs ! j" if "j < length rs" for u j
    using that by (auto simp: class_of_def)
  have "length ?out = n_components d"
    using rs d(1) distinct_card [OF rs(1)] by (simp add: dsu_inv_def)
  moreover have "[] \<notin> set ?out"
  proof
    assume "[] \<in> set ?out"
    then obtain r where "r \<in> roots d" "class_of d [0..<n] r = []" using rs(2) by auto
    then show False using rep_root [of r d] d(2) by (auto simp: class_of_def filter_empty_conv roots_def)
  qed
  moreover have "\<exists>!j. j < length ?out \<and> u \<in> set (?out ! j)" if u: "u < n" for u
  proof -
    obtain j where j: "j < length rs" "rs ! j = rep d u"
      using dsu_find_rep(2) [OF d(1)] u d(2) rs(2) by (metis in_set_conv_nth)
    show ?thesis
    proof (rule ex1I [of _ j])
      show "j < length ?out \<and> u \<in> set (?out ! j)" using mem [OF j(1), of u] j u by simp
      fix i assume "i < length ?out \<and> u \<in> set (?out ! i)"
      then have i: "u \<in> set (?out ! i)" "i < length rs" by (blast, simp)
      then have "rs ! i = rs ! j" using mem [OF i(2), of u] i(1) j(2) by (simp del: nth_map)
      then show "i = j" using nth_eq_iff_index_eq [OF rs(1)] i(2) j(1) by simp
    qed
  qed
  moreover have "v \<in> set (?out ! j) \<longleftrightarrow> v < n \<and> (u, v) \<in> linked (set es)"
    if j: "j < length ?out" "u \<in> set (?out ! j)" for u v j
  proof -
    have u: "u < n" "rep d u = rs ! j" and iff: "v \<in> set (?out ! j) \<longleftrightarrow> v < n \<and> rep d v = rs ! j"
      using mem [of j] j by simp_all
    have "v < n \<Longrightarrow> rep d u = rep d v \<longleftrightarrow> (u, v) \<in> linked (set es)"
      using u(1) d(2,3) by (simp add: same_comp_def)
    then show ?thesis using u(2) iff by metis
  qed
  ultimately show ?thesis using rs(3) by blast
qed

lemma dsu_components_partition_witness:
  "\<exists>d out. unite_all (dsu_init 3) [(0, 2)] = Some d \<and> dsu_components d = Some out \<and>
      length out = n_components d"
proof -
  have e: "edges_in 3 [(0, 2)]" by (simp add: edges_in_def)
  obtain d where d: "unite_all (dsu_init 3) [(0, 2)] = Some d"
    using unite_all_init [OF e] by metis
  then show ?thesis using dsu_components_partition [OF e d] by blast
qed

text \<open>Finding a root takes at most log2 of the component's size steps along parent
  pointers.\<close>

lemma dsu_find_depth:
  assumes "edges_in n es" "unite_all (dsu_init n) es = Some d" "x < n"
  shows "\<exists>k r. dsu_find d x = Some r \<and> ((\<lambda>y. parent d ! y) ^^ k) x = r \<and> parent d ! r = r \<and>
    (\<exists>s. component_size d x = Some s \<and> 2 ^ k \<le> s)"
proof -
  have d: "dsu_inv d" "nodes d = n" using unite_all_init [OF assms(1)] assms(2) by auto
  have f: "forest (parent d) (rank d)" using d(1) by (simp add: dsu_inv_def)
  have x: "x < nodes d" using assms(3) d(2) by simp
  obtain r k where r: "find_root (parent d) x = Some r" "r < nodes d" "parent d ! r = r"
    "((\<lambda>y. parent d ! y) ^^ k) x = r" "rank d ! x + k \<le> rank d ! r"
    using find_root_total [OF f x] .
  have "r \<in> roots d" using r by (simp add: roots_def)
  then have "2 ^ (rank d ! r) \<le> dsize d ! r" using d(1) by (simp add: dsu_inv_def)
  moreover have "(2::nat) ^ k \<le> 2 ^ (rank d ! r)" using r(5) by (intro power_increasing) simp_all
  ultimately have "2 ^ k \<le> dsize d ! r" by linarith
  then show ?thesis using r by (intro exI [of _ k] exI [of _ r]) (simp add: dsu_find_def component_size_def)
qed

lemma dsu_find_depth_witness:
  "\<exists>d k r. unite_all (dsu_init 3) [(0, 2)] = Some d \<and> dsu_find d 2 = Some r \<and>
     ((\<lambda>y. parent d ! y) ^^ k) 2 = r"
proof -
  have e: "edges_in 3 [(0, 2)]" by (simp add: edges_in_def)
  obtain d where d: "unite_all (dsu_init 3) [(0, 2)] = Some d"
    using unite_all_init [OF e] by metis
  have "(2::nat) < 3" by simp
  from dsu_find_depth [OF e d this] show ?thesis using d by blast
qed

end
