(* ===== verification/Interval_Tree.thy ===== *)
theory Interval_Tree
  imports Prelude "HOL-Library.Product_Lexorder"
begin

text \<open>
  The AVL interval tree of \<^verbatim>\<open>include/safetrail/ds/interval_tree.hpp\<close>. The nodes the code
  links by array index are an algebraic tree here; every node keeps the index it occupies, and the
  pool (array length and free list) is part of the state, so slot reuse is visible. Values are
  of any linearly ordered type, as the code asks of \<open>T\<close>. The rotation counters, which only the
  lab page reads, are left out.
\<close>

record 'v entry =
  low :: timestamp
  high :: timestamp
  val :: 'v

datatype 'v itree =
    Tip
  | Nd (node_slot: nat) (payload: "'v entry") (seqno: nat) (stored_height: nat)
       (stored_max: timestamp) (left: "'v itree") (right: "'v itree")

record 'v interval_tree =
  it_root :: "'v itree"
  it_count :: nat
  it_next_seq :: nat
  it_free :: "nat list"
  it_pool :: nat

definition it_empty :: "'v interval_tree" where
  "it_empty = \<lparr>it_root = Tip, it_count = 0, it_next_seq = 0, it_free = [], it_pool = 0\<rparr>"

definition it_clear :: "'v interval_tree \<Rightarrow> 'v interval_tree" where
  "it_clear t = t\<lparr>it_pool := 0, it_free := [], it_root := Tip, it_count := 0, it_next_seq := 0\<rparr>"

definition cmp_triple :: "'v::linorder entry \<Rightarrow> 'v entry \<Rightarrow> int" where
  "cmp_triple a b =
     (if low a \<noteq> low b then (if low a < low b then -1 else 1)
      else if high a \<noteq> high b then (if high a < high b then -1 else 1)
      else if val a < val b then -1
      else if val b < val a then 1
      else 0)"

definition less_full :: "'v::linorder entry \<Rightarrow> nat \<Rightarrow> 'v entry \<Rightarrow> nat \<Rightarrow> bool" where
  "less_full x xs y ys = (let c = cmp_triple x y in if c \<noteq> 0 then c < 0 else xs < ys)"

fun it_h :: "'v itree \<Rightarrow> nat" where
  "it_h Tip = 0"
| "it_h (Nd i e s h m l r) = h"

fun it_mh :: "'v itree \<Rightarrow> timestamp" where
  "it_mh Tip = int64_min"
| "it_mh (Nd i e s h m l r) = m"

definition max_high_of :: "'v entry \<Rightarrow> 'v itree \<Rightarrow> 'v itree \<Rightarrow> timestamp" where
  "max_high_of e l r =
     (let m0 = high e;
          m1 = (if it_mh l > m0 then it_mh l else m0)
      in if it_mh r > m1 then it_mh r else m1)"

fun refit :: "'v itree \<Rightarrow> 'v itree" where
  "refit Tip = Tip"
| "refit (Nd i e s h m l r) =
     Nd i e s (1 + (if it_h l > it_h r then it_h l else it_h r)) (max_high_of e l r) l r"

fun rot_right :: "'v itree \<Rightarrow> 'v itree" where
  "rot_right (Nd y ey sy hy my (Nd x ex sx hx mx xl xr) yr) =
     refit (Nd x ex sx hx mx xl (refit (Nd y ey sy hy my xr yr)))"
| "rot_right t = t"

fun rot_left :: "'v itree \<Rightarrow> 'v itree" where
  "rot_left (Nd x ex sx hx mx xl (Nd y ey sy hy my yl yr)) =
     refit (Nd y ey sy hy my (refit (Nd x ex sx hx mx xl yl)) yr)"
| "rot_left t = t"

fun set_left :: "'v itree \<Rightarrow> 'v itree \<Rightarrow> 'v itree" where
  "set_left (Nd i e s h m l r) l' = Nd i e s h m l' r"
| "set_left Tip l' = Tip"

fun set_right :: "'v itree \<Rightarrow> 'v itree \<Rightarrow> 'v itree" where
  "set_right (Nd i e s h m l r) r' = Nd i e s h m l r'"
| "set_right Tip r' = Tip"

definition rebalance :: "'v itree \<Rightarrow> 'v itree" where
  "rebalance t0 =
     (let t = refit t0; l = left t; r = right t; bal = int (it_h l) - int (it_h r)
      in if bal > 1
         then rot_right (if it_h (left l) < it_h (right l) then set_left t (rot_left l) else t)
         else if bal < -1
         then rot_left (if it_h (right r) < it_h (left r) then set_right t (rot_right r) else t)
         else t)"

fun insert_at :: "'v::linorder itree \<Rightarrow> 'v itree \<Rightarrow> 'v itree" where
  "insert_at Tip nd = refit nd"
| "insert_at (Nd i e s h m l r) nd =
     (if less_full (payload nd) (seqno nd) e s
      then rebalance (Nd i e s h m (insert_at l nd) r)
      else rebalance (Nd i e s h m l (insert_at r nd)))"

text \<open>\<open>erase_min\<close> also returns the unlinked node; only its slot, payload and seq are read.\<close>

fun erase_min :: "'v itree \<Rightarrow> 'v itree \<times> (nat \<times> 'v entry \<times> nat)" where
  "erase_min (Nd i e s h m Tip r) = (r, (i, e, s))"
| "erase_min (Nd i e s h m l r) =
     (case erase_min l of (l', mn) \<Rightarrow> (rebalance (Nd i e s h m l' r), mn))"
| "erase_min Tip = (Tip, undefined)"

fun erase_node :: "'v itree \<Rightarrow> 'v itree \<times> nat" where
  "erase_node (Nd i e s h m l r) =
     (if l = Tip \<or> r = Tip then (if l \<noteq> Tip then l else r, i)
      else case erase_min r of
             (r', (j, e', s')) \<Rightarrow> (rebalance (Nd i e' s' h m l r'), j))"
| "erase_node Tip = (Tip, undefined)"

text \<open>\<open>Some i\<close> means found, with the slot to put on the free list.\<close>

fun erase_first :: "'v::linorder itree \<Rightarrow> 'v entry \<Rightarrow> 'v itree \<times> nat option" where
  "erase_first Tip key = (Tip, None)"
| "erase_first (Nd i e s h m l r) key =
     (let c = cmp_triple key e
      in if c = 0 then (case erase_node (Nd i e s h m l r) of (t', j) \<Rightarrow> (t', Some j))
         else let (l', fl) = (if c < 0 then erase_first l key else (l, None));
                  (r', fr) = (if c < 0 then (r, None) else erase_first r key);
                  found = (if c < 0 then fl else fr);
                  t' = Nd i e s h m l' r'
              in if found = None then (refit t', None) else (rebalance t', found))"

definition it_alloc :: "'v interval_tree \<Rightarrow> nat \<times> 'v interval_tree" where
  "it_alloc t =
     (if it_free t \<noteq> [] then (last (it_free t), t\<lparr>it_free := butlast (it_free t)\<rparr>)
      else (it_pool t, t\<lparr>it_pool := it_pool t + 1\<rparr>))"

definition it_insert :: "'v::linorder interval_tree \<Rightarrow> timestamp \<Rightarrow> timestamp \<Rightarrow> 'v \<Rightarrow> 'v interval_tree"
where
  "it_insert t lo hi v =
     (case it_alloc t of
        (i, t1) \<Rightarrow>
          t1\<lparr>it_root := insert_at (it_root t) (Nd i \<lparr>low = lo, high = hi, val = v\<rparr> (it_next_seq t) 1 hi Tip Tip),
             it_next_seq := it_next_seq t + 1,
             it_count := it_count t + 1\<rparr>)"

definition it_remove ::
  "'v::linorder interval_tree \<Rightarrow> timestamp \<Rightarrow> timestamp \<Rightarrow> 'v \<Rightarrow> bool \<times> 'v interval_tree" where
  "it_remove t lo hi v =
     (case erase_first (it_root t) \<lparr>low = lo, high = hi, val = v\<rparr> of
        (r, None) \<Rightarrow> (False, t\<lparr>it_root := r\<rparr>)
      | (r, Some i) \<Rightarrow>
          (True, t\<lparr>it_root := r, it_free := it_free t @ [i], it_count := it_count t - 1\<rparr>))"

fun it_descend :: "'v itree \<Rightarrow> timestamp \<Rightarrow> timestamp \<Rightarrow> 'v list" where
  "it_descend Tip lo hi = []"
| "it_descend (Nd i e s h m l r) lo hi =
     (if m \<le> lo then []
      else it_descend l lo hi @
           (if low e < hi \<and> lo < high e then [val e] else []) @
           (if low e < hi then it_descend r lo hi else []))"

definition it_overlapping :: "'v interval_tree \<Rightarrow> timestamp \<Rightarrow> timestamp \<Rightarrow> 'v list" where
  "it_overlapping t lo hi = (if lo \<ge> hi then [] else it_descend (it_root t) lo hi)"

definition it_stabbing :: "'v interval_tree \<Rightarrow> timestamp \<Rightarrow> 'v list" where
  "it_stabbing t instant =
     (if instant = int64_max then [] else it_descend (it_root t) instant (instant + 1))"

definition it_height :: "'v interval_tree \<Rightarrow> nat" where
  "it_height t = it_h (it_root t)"

definition it_balanced :: "'v interval_tree \<Rightarrow> bool" where
  "it_balanced t \<longleftrightarrow>
     (if it_count t < 2 then True
      else real (it_height t) \<le> 1.4405 * (ln (real (it_count t) + 2) / ln 2) + 1)"

text \<open>The structural audit the code carries; the bounds are the nodes on either side.\<close>

fun it_audit ::
  "'v::linorder itree \<Rightarrow> ('v entry \<times> nat) option \<Rightarrow> ('v entry \<times> nat) option \<Rightarrow> bool \<times> nat" where
  "it_audit Tip lo hi = (True, 0)"
| "it_audit (Nd i e s h m l r) lo hi =
     (if (case lo of None \<Rightarrow> False | Some (e', s') \<Rightarrow> \<not> less_full e' s' e s) then (False, 0)
      else if (case hi of None \<Rightarrow> False | Some (e', s') \<Rightarrow> \<not> less_full e s e' s') then (False, 0)
      else case it_audit l lo (Some (e, s)) of
             (okl, nl) \<Rightarrow>
               if \<not> okl then (False, 1 + nl)
               else case it_audit r (Some (e, s)) hi of
                      (okr, nr) \<Rightarrow>
                        (okr \<and> h = 1 + (if it_h l > it_h r then it_h l else it_h r) \<and>
                         \<bar>int (it_h l) - int (it_h r)\<bar> \<le> 1 \<and> m = max_high_of e l r,
                         1 + nl + nr))"

definition it_check_invariants :: "'v::linorder interval_tree \<Rightarrow> bool" where
  "it_check_invariants t =
     (case it_audit (it_root t) None None of (ok, live) \<Rightarrow> ok \<and> live = it_count t)"

section \<open>The order of the nodes\<close>

definition triple :: "'v entry \<Rightarrow> timestamp \<times> timestamp \<times> 'v" where
  "triple e = (low e, high e, val e)"

definition key_of :: "'v entry \<times> nat \<Rightarrow> timestamp \<times> timestamp \<times> 'v \<times> nat" where
  "key_of p = (low (fst p), high (fst p), val (fst p), snd p)"

lemma triple_inject [simp]: "triple a = triple b \<longleftrightarrow> a = b"
  by (cases a; cases b) (simp add: triple_def)

lemma cmp_triple_iff:
  "cmp_triple a b < 0 \<longleftrightarrow> triple a < triple b"
  "cmp_triple a b = 0 \<longleftrightarrow> a = b"
  "0 < cmp_triple a b \<longleftrightarrow> triple b < triple a"
  by (cases a; cases b; auto simp: cmp_triple_def triple_def)+

lemma less_full_iff: "less_full x xs y ys \<longleftrightarrow> key_of (x, xs) < key_of (y, ys)"
  by (cases x; cases y) (auto simp: less_full_def cmp_triple_def key_of_def Let_def)

lemma triple_less_key: "triple (fst p) < triple (fst q) \<Longrightarrow> key_of p < key_of q"
  by (auto simp: triple_def key_of_def)

lemma key_less_triple:
  fixes p q :: "'v::linorder entry \<times> nat"
  shows "key_of p < key_of q \<Longrightarrow> triple (fst p) \<le> triple (fst q)"
  by (auto simp: triple_def key_of_def intro: less_imp_le)

fun inorder :: "'v itree \<Rightarrow> ('v entry \<times> nat) list" where
  "inorder Tip = []"
| "inorder (Nd i e s h m l r) = inorder l @ (e, s) # inorder r"

fun slots_of :: "'v itree \<Rightarrow> nat list" where
  "slots_of Tip = []"
| "slots_of (Nd i e s h m l r) = slots_of l @ i # slots_of r"

definition ordered :: "('v::linorder entry \<times> nat) list \<Rightarrow> bool" where
  "ordered ps \<longleftrightarrow> sorted_wrt (\<lambda>p q. key_of p < key_of q) ps"

lemma ordered_simps [simp]:
  "ordered []"
  "ordered (p # ps) \<longleftrightarrow> (\<forall>q \<in> set ps. key_of p < key_of q) \<and> ordered ps"
  "ordered (ps @ qs) \<longleftrightarrow> ordered ps \<and> ordered qs \<and> (\<forall>p \<in> set ps. \<forall>q \<in> set qs. key_of p < key_of q)"
  by (auto simp: ordered_def sorted_wrt_append)

text \<open>What the stored height and maximum must be, and the balance of every node.\<close>

fun shaped :: "'v itree \<Rightarrow> bool" where
  "shaped Tip \<longleftrightarrow> True"
| "shaped (Nd i e s h m l r) \<longleftrightarrow>
     h = 1 + max (it_h l) (it_h r) \<and> m = max_high_of e l r \<and>
     it_h l \<le> it_h r + 1 \<and> it_h r \<le> it_h l + 1 \<and> shaped l \<and> shaped r"

lemma max_high_of_max: "max_high_of e l r = max (high e) (max (it_mh l) (it_mh r))"
  by (auto simp: max_high_of_def Let_def)

lemma inorder_refit [simp]: "inorder (refit t) = inorder t" "slots_of (refit t) = slots_of t"
  by (cases t; simp)+

lemma inorder_rot_right [simp]: "inorder (rot_right t) = inorder t" "slots_of (rot_right t) = slots_of t"
  by (cases t rule: rot_right.cases; simp)+

lemma inorder_rot_left [simp]: "inorder (rot_left t) = inorder t" "slots_of (rot_left t) = slots_of t"
  by (cases t rule: rot_left.cases; simp)+

lemma inorder_rebalance [simp]: "inorder (rebalance t) = inorder t" "slots_of (rebalance t) = slots_of t"
  by (cases t; simp add: rebalance_def Let_def)+

text \<open>
  Rebalancing a node whose subtrees are in shape and differ by at most two in height restores the
  shape; the result is as high as the taller subtree, or one higher.
\<close>

definition near :: "'v itree \<Rightarrow> 'v itree \<Rightarrow> bool" where
  "near l r \<longleftrightarrow> shaped l \<and> shaped r \<and> it_h l \<le> it_h r + 2 \<and> it_h r \<le> it_h l + 2"

lemma rebalance_balanced:
  assumes "shaped l" "shaped r" "it_h l \<le> it_h r + 1" "it_h r \<le> it_h l + 1"
  shows "shaped (rebalance (Nd i e s h m l r)) \<and>
    it_h (rebalance (Nd i e s h m l r)) = 1 + max (it_h l) (it_h r)"
  using assms by (auto simp: rebalance_def Let_def max_def)

lemma rebalance_left:
  assumes "shaped l" "shaped r" "it_h l = it_h r + 2"
  shows "shaped (rebalance (Nd i e s h m l r)) \<and>
    (it_h (rebalance (Nd i e s h m l r)) = it_h r + 2 \<or> it_h (rebalance (Nd i e s h m l r)) = it_h r + 3)"
proof -
  obtain j e' s' h' m' ll lr where l: "l = Nd j e' s' h' m' ll lr"
    using assms(3) by (cases l) auto
  show ?thesis
  proof (cases "it_h ll < it_h lr")
    case True
    then obtain k e2 s2 h2 m2 a b where "lr = Nd k e2 s2 h2 m2 a b" by (cases lr) auto
    then show ?thesis using assms l True by (auto simp: rebalance_def Let_def max_def split: if_splits)
  next
    case False
    then show ?thesis using assms l by (auto simp: rebalance_def Let_def max_def split: if_splits)
  qed
qed

lemma rebalance_right:
  assumes "shaped l" "shaped r" "it_h r = it_h l + 2"
  shows "shaped (rebalance (Nd i e s h m l r)) \<and>
    (it_h (rebalance (Nd i e s h m l r)) = it_h l + 2 \<or> it_h (rebalance (Nd i e s h m l r)) = it_h l + 3)"
proof -
  obtain j e' s' h' m' rl rr where r: "r = Nd j e' s' h' m' rl rr"
    using assms(3) by (cases r) auto
  show ?thesis
  proof (cases "it_h rr < it_h rl")
    case True
    then obtain k e2 s2 h2 m2 a b where "rl = Nd k e2 s2 h2 m2 a b" by (cases rl) auto
    then show ?thesis using assms r True by (auto simp: rebalance_def Let_def max_def split: if_splits)
  next
    case False
    then show ?thesis using assms r by (auto simp: rebalance_def Let_def max_def split: if_splits)
  qed
qed

lemma rebalance_shaped:
  assumes "near l r"
  shows "shaped (rebalance (Nd i e s h m l r))"
    and "it_h (rebalance (Nd i e s h m l r)) \<le> 1 + max (it_h l) (it_h r)"
    and "max (it_h l) (it_h r) \<le> it_h (rebalance (Nd i e s h m l r))"
    and "it_h (rebalance (Nd i e s h m l r)) = 1 + max (it_h l) (it_h r) \<or>
         it_h l = it_h r + 2 \<or> it_h r = it_h l + 2"
proof -
  let ?t = "rebalance (Nd i e s h m l r)"
  have n: "shaped l" "shaped r" "it_h l \<le> it_h r + 2" "it_h r \<le> it_h l + 2"
    using assms by (auto simp: near_def)
  consider "it_h l = it_h r + 2" | "it_h r = it_h l + 2" | "it_h l \<le> it_h r + 1" "it_h r \<le> it_h l + 1"
    using n(3,4) by linarith
  then have "shaped ?t \<and> it_h ?t \<le> 1 + max (it_h l) (it_h r) \<and> max (it_h l) (it_h r) \<le> it_h ?t"
  proof cases
    case 1 then show ?thesis using rebalance_left [OF n(1,2) 1, of i e s h m] by auto
  next
    case 2 then show ?thesis using rebalance_right [OF n(1,2) 2, of i e s h m] by auto
  next
    case 3 then show ?thesis using rebalance_balanced [OF n(1,2) 3, of i e s h m] by auto
  qed
  then show "shaped ?t" "it_h ?t \<le> 1 + max (it_h l) (it_h r)" "max (it_h l) (it_h r) \<le> it_h ?t"
    by auto
  show "it_h ?t = 1 + max (it_h l) (it_h r) \<or> it_h l = it_h r + 2 \<or> it_h r = it_h l + 2"
    using rebalance_balanced [OF n(1,2), of i e s h m] n(3,4) by linarith
qed

section \<open>Insertion and removal\<close>

lemma insert_at_shaped:
  "shaped t \<Longrightarrow> shaped (insert_at t (Nd i e s h m Tip Tip)) \<and>
     it_h t \<le> it_h (insert_at t (Nd i e s h m Tip Tip)) \<and>
     it_h (insert_at t (Nd i e s h m Tip Tip)) \<le> it_h t + 1"
proof (induction t "Nd i e s h m Tip Tip" rule: insert_at.induct)
  case (2 j e' s' h' m' l r)
  let ?nd = "Nd i e s h m Tip Tip"
  show ?case
  proof (cases "less_full e s e' s'")
    case True
    then have IH: "shaped (insert_at l ?nd)" "it_h l \<le> it_h (insert_at l ?nd)"
      "it_h (insert_at l ?nd) \<le> it_h l + 1" using 2 by auto
    then have "near (insert_at l ?nd) r" using 2 by (auto simp: near_def)
    then show ?thesis
      using True IH 2(3) rebalance_shaped [of "insert_at l ?nd" r j e' s' h' m'] by simp linarith
  next
    case False
    then have IH: "shaped (insert_at r ?nd)" "it_h r \<le> it_h (insert_at r ?nd)"
      "it_h (insert_at r ?nd) \<le> it_h r + 1" using 2 by auto
    then have "near l (insert_at r ?nd)" using 2 by (auto simp: near_def)
    then show ?thesis
      using False IH 2(3) rebalance_shaped [of l "insert_at r ?nd" j e' s' h' m'] by simp linarith
  qed
qed (simp add: max_high_of_def)

lemma insert_at_inorder:
  assumes "ordered (inorder t)" "(e, s) \<notin> set (inorder t)"
  shows "\<exists>xs ys. inorder t = xs @ ys \<and> inorder (insert_at t (Nd i e s h m Tip Tip)) = xs @ (e, s) # ys \<and>
    (\<forall>p \<in> set xs. key_of p < key_of (e, s)) \<and> (\<forall>p \<in> set ys. key_of (e, s) < key_of p) \<and>
    mset (slots_of (insert_at t (Nd i e s h m Tip Tip))) = add_mset i (mset (slots_of t))"
  using assms
proof (induction t "Nd i e s h m Tip Tip" rule: insert_at.induct)
  case (2 j e' s' h' m' l r)
  have inj: "key_of (e, s) \<noteq> key_of (e', s')"
    using 2(4) by (cases e; cases e') (auto simp: key_of_def)
  show ?case
  proof (cases "less_full e s e' s'")
    case True
    obtain xs ys where "inorder l = xs @ ys"
      "inorder (insert_at l (Nd i e s h m Tip Tip)) = xs @ (e, s) # ys"
      "\<forall>p \<in> set xs. key_of p < key_of (e, s)" "\<forall>p \<in> set ys. key_of (e, s) < key_of p"
      "mset (slots_of (insert_at l (Nd i e s h m Tip Tip))) = add_mset i (mset (slots_of l))"
      using 2(1,3,4) True by auto
    then show ?thesis
      using 2(3) True
      by (intro exI [of _ xs] exI [of _ "ys @ (e', s') # inorder r"])
         (auto simp: less_full_iff dest: less_trans)
  next
    case False
    then have gt: "key_of (e', s') < key_of (e, s)" using inj by (simp add: less_full_iff)
    obtain xs ys where "inorder r = xs @ ys"
      "inorder (insert_at r (Nd i e s h m Tip Tip)) = xs @ (e, s) # ys"
      "\<forall>p \<in> set xs. key_of p < key_of (e, s)" "\<forall>p \<in> set ys. key_of (e, s) < key_of p"
      "mset (slots_of (insert_at r (Nd i e s h m Tip Tip))) = add_mset i (mset (slots_of r))"
      using 2(2,3,4) False by auto
    then show ?thesis
      using 2(3) False gt
      by (intro exI [of _ "inorder l @ (e', s') # xs"] exI [of _ ys]) (auto dest: less_trans)
  qed
qed simp

lemma erase_min_correct:
  assumes "t \<noteq> Tip" "shaped t"
  shows "\<exists>t' i e s. erase_min t = (t', (i, e, s)) \<and> shaped t' \<and> it_h t' \<le> it_h t \<and> it_h t \<le> it_h t' + 1 \<and>
    inorder t = (e, s) # inorder t' \<and> mset (slots_of t) = add_mset i (mset (slots_of t'))"
  using assms
proof (induction t rule: erase_min.induct)
  case (1 i e s h m r)
  then show ?case by auto
next
  case (2 i e s h m li le ls lh lm ll lr r)
  let ?l = "Nd li le ls lh lm ll lr"
  obtain l' j e' s' where l': "erase_min ?l = (l', (j, e', s'))" "shaped l'" "it_h l' \<le> it_h ?l"
    "it_h ?l \<le> it_h l' + 1" "inorder ?l = (e', s') # inorder l'"
    "mset (slots_of ?l) = add_mset j (mset (slots_of l'))"
    using 2 by auto
  have "near l' r" using 2(3) l'(2-4) by (auto simp: near_def)
  note rs = rebalance_shaped [OF this, of i e s h m]
  have hgt: "it_h (Nd i e s h m ?l r) = 1 + max (it_h ?l) (it_h r)" "it_h ?l \<le> it_h r + 1"
    "it_h r \<le> it_h ?l + 1" using 2(3) by auto
  have "it_h (rebalance (Nd i e s h m l' r)) \<le> it_h (Nd i e s h m ?l r)"
    "it_h (Nd i e s h m ?l r) \<le> it_h (rebalance (Nd i e s h m l' r)) + 1"
    using rs(2-4) hgt l'(3,4) by linarith+
  moreover have "inorder (Nd i e s h m ?l r) = (e', s') # inorder (rebalance (Nd i e s h m l' r))"
    using l'(5) by simp
  moreover have "mset (slots_of (Nd i e s h m ?l r)) = add_mset j (mset (slots_of (rebalance (Nd i e s h m l' r))))"
    using l'(6) by simp
  moreover have "erase_min (Nd i e s h m ?l r) = (rebalance (Nd i e s h m l' r), (j, e', s'))"
    using l'(1) by simp
  ultimately show ?case using rs(1) by blast
qed simp

lemma erase_node_correct:
  assumes "shaped (Nd i e s h m l r)"
  shows "\<exists>t' j. erase_node (Nd i e s h m l r) = (t', j) \<and> shaped t' \<and> it_h t' \<le> h \<and> h \<le> it_h t' + 1 \<and>
    inorder t' = inorder l @ inorder r \<and>
    mset (slots_of (Nd i e s h m l r)) = add_mset j (mset (slots_of t'))"
proof (cases "l = Tip \<or> r = Tip")
  case True
  then show ?thesis using assms by auto
next
  case False
  then obtain r' j e' s' where r': "erase_min r = (r', (j, e', s'))" "shaped r'" "it_h r' \<le> it_h r"
    "it_h r \<le> it_h r' + 1" "inorder r = (e', s') # inorder r'"
    "mset (slots_of r) = add_mset j (mset (slots_of r'))"
    using erase_min_correct [of r] assms by auto
  have "near l r'" using assms r'(2-4) by (auto simp: near_def)
  note rs = rebalance_shaped [OF this, of i e' s' h m]
  have hgt: "h = 1 + max (it_h l) (it_h r)" "it_h l \<le> it_h r + 1" "it_h r \<le> it_h l + 1"
    using assms by auto
  have "it_h (rebalance (Nd i e' s' h m l r')) \<le> h" "h \<le> it_h (rebalance (Nd i e' s' h m l r')) + 1"
    using rs(2-4) hgt r'(3,4) by linarith+
  then show ?thesis using rs(1) r' False by auto
qed

text \<open>What a removal of the entry \<open>k\<close> from the tree \<open>t\<close> leaves.\<close>

definition erased :: "'v::linorder entry \<Rightarrow> 'v itree \<Rightarrow> 'v itree \<Rightarrow> nat option \<Rightarrow> bool" where
  "erased k t t' f \<longleftrightarrow> shaped t' \<and> it_h t' \<le> it_h t \<and> it_h t \<le> it_h t' + 1 \<and>
    (case f of
       None \<Rightarrow> k \<notin> fst ` set (inorder t) \<and> t' = t
     | Some j \<Rightarrow> (\<exists>xs s ys. inorder t = xs @ (k, s) # ys \<and> inorder t' = xs @ ys) \<and>
         mset (slots_of t) = add_mset j (mset (slots_of t')))"

lemma refit_shaped: "shaped t \<Longrightarrow> refit t = t"
  by (cases t) (auto simp: max_def)

lemma erased_left:
  assumes "erased k l l' f" "shaped (Nd i e s h m l r)" "f \<noteq> None"
  shows "erased k (Nd i e s h m l r) (rebalance (Nd i e s h m l' r)) f"
proof -
  obtain j where f: "f = Some j" using assms(3) by auto
  obtain xs u ys where io: "inorder l = xs @ (k, u) # ys" "inorder l' = xs @ ys"
    using assms(1) f by (auto simp: erased_def)
  have l': "shaped l'" "it_h l' \<le> it_h l" "it_h l \<le> it_h l' + 1"
    "mset (slots_of l) = add_mset j (mset (slots_of l'))"
    using assms(1) f by (auto simp: erased_def)
  have hgt: "h = 1 + max (it_h l) (it_h r)" "it_h l \<le> it_h r + 1" "it_h r \<le> it_h l + 1"
    using assms(2) by auto
  have "near l' r" using l' assms(2) by (auto simp: near_def)
  note rs = rebalance_shaped [OF this, of i e s h m]
  have "it_h (rebalance (Nd i e s h m l' r)) \<le> h" "h \<le> it_h (rebalance (Nd i e s h m l' r)) + 1"
    using rs(2-4) hgt l'(2,3) by linarith+
  moreover have "\<exists>xs u ys. inorder (Nd i e s h m l r) = xs @ (k, u) # ys \<and>
      inorder (rebalance (Nd i e s h m l' r)) = xs @ ys"
    using io by (intro exI [of _ xs] exI [of _ u] exI [of _ "ys @ (e, s) # inorder r"]) simp
  ultimately show ?thesis using rs(1) l'(4) f by (simp add: erased_def)
qed

lemma erased_right:
  assumes "erased k r r' f" "shaped (Nd i e s h m l r)" "f \<noteq> None"
  shows "erased k (Nd i e s h m l r) (rebalance (Nd i e s h m l r')) f"
proof -
  obtain j where f: "f = Some j" using assms(3) by auto
  obtain xs u ys where io: "inorder r = xs @ (k, u) # ys" "inorder r' = xs @ ys"
    using assms(1) f by (auto simp: erased_def)
  have r': "shaped r'" "it_h r' \<le> it_h r" "it_h r \<le> it_h r' + 1"
    "mset (slots_of r) = add_mset j (mset (slots_of r'))"
    using assms(1) f by (auto simp: erased_def)
  have hgt: "h = 1 + max (it_h l) (it_h r)" "it_h l \<le> it_h r + 1" "it_h r \<le> it_h l + 1"
    using assms(2) by auto
  have "near l r'" using r' assms(2) by (auto simp: near_def)
  note rs = rebalance_shaped [OF this, of i e s h m]
  have "it_h (rebalance (Nd i e s h m l r')) \<le> h" "h \<le> it_h (rebalance (Nd i e s h m l r')) + 1"
    using rs(2-4) hgt r'(2,3) by linarith+
  moreover have "\<exists>xs u ys. inorder (Nd i e s h m l r) = xs @ (k, u) # ys \<and>
      inorder (rebalance (Nd i e s h m l r')) = xs @ ys"
    using io by (intro exI [of _ "inorder l @ (e, s) # xs"] exI [of _ u] exI [of _ ys]) simp
  ultimately show ?thesis using rs(1) r'(4) f by (simp add: erased_def)
qed

lemma erase_first_correct:
  assumes "shaped t" "ordered (inorder t)" "erase_first t k = (t', f)"
  shows "erased k t t' f"
  using assms
proof (induction t arbitrary: t' f)
  case (Nd i e s h m l r)
  let ?t = "Nd i e s h m l r"
  have sh: "shaped l" "shaped r" and ord: "ordered (inorder l)" "ordered (inorder r)"
    using Nd.prems(1,2) by auto
  have nl: "k \<noteq> e" "k \<notin> fst ` set (inorder r)" if "cmp_triple k e < 0"
  proof -
    have lt: "triple k < triple e" using that by (simp add: cmp_triple_iff)
    then show "k \<noteq> e" by auto
    have "triple e \<le> triple (fst p)" if "p \<in> set (inorder r)" for p
      using that Nd.prems(2) key_less_triple [of "(e, s)" p] by auto
    then show "k \<notin> fst ` set (inorder r)" using lt by fastforce
  qed
  have nr: "k \<noteq> e" "k \<notin> fst ` set (inorder l)" if "0 < cmp_triple k e"
  proof -
    have lt: "triple e < triple k" using that by (simp add: cmp_triple_iff)
    then show "k \<noteq> e" by auto
    have "triple (fst p) \<le> triple e" if "p \<in> set (inorder l)" for p
      using that Nd.prems(2) key_less_triple [of p "(e, s)"] by auto
    then show "k \<notin> fst ` set (inorder l)" using lt by fastforce
  qed
  consider "cmp_triple k e = 0" | "cmp_triple k e < 0" | "cmp_triple k e > 0" by linarith
  then show ?case
  proof cases
    case 1
    then have "k = e" by (simp add: cmp_triple_iff)
    obtain t1 j where t1: "erase_node ?t = (t1, j)" "shaped t1" "it_h t1 \<le> h" "h \<le> it_h t1 + 1"
      "inorder t1 = inorder l @ inorder r" "mset (slots_of ?t) = add_mset j (mset (slots_of t1))"
      using erase_node_correct [OF Nd.prems(1)] by auto
    have "\<exists>xs s ys. inorder ?t = xs @ (k, s) # ys \<and> inorder t1 = xs @ ys"
      using t1(5) \<open>k = e\<close> by (intro exI [of _ "inorder l"] exI [of _ s] exI [of _ "inorder r"]) simp
    moreover have "t' = t1" "f = Some j" using Nd.prems(3) 1 t1(1) by auto
    ultimately show ?thesis using t1 by (simp add: erased_def)
  next
    case 2
    obtain l' g where l': "erase_first l k = (l', g)" by (cases "erase_first l k")
    have e: "erased k l l' g" using Nd.IH(1) [OF sh(1) ord(1) l'] .
    show ?thesis
    proof (cases g)
      case None
      then have "l' = l" "k \<notin> fst ` set (inorder l)" using e by (auto simp: erased_def)
      moreover have "t' = refit (Nd i e s h m l' r)" "f = None" using Nd.prems(3) 2 l' None by auto
      ultimately show ?thesis
        using refit_shaped [OF Nd.prems(1)] nl [OF 2] Nd.prems(1) by (auto simp: erased_def)
    next
      case (Some j)
      then have "t' = rebalance (Nd i e s h m l' r)" "f = g" using Nd.prems(3) 2 l' by auto
      then show ?thesis using erased_left [OF e Nd.prems(1)] Some by simp
    qed
  next
    case 3
    obtain r' g where r': "erase_first r k = (r', g)" by (cases "erase_first r k")
    have e: "erased k r r' g" using Nd.IH(2) [OF sh(2) ord(2) r'] .
    show ?thesis
    proof (cases g)
      case None
      then have "r' = r" "k \<notin> fst ` set (inorder r)" using e by (auto simp: erased_def)
      moreover have "t' = refit (Nd i e s h m l r')" "f = None" using Nd.prems(3) 3 r' None by auto
      ultimately show ?thesis
        using refit_shaped [OF Nd.prems(1)] nr [OF 3] Nd.prems(1) by (auto simp: erased_def)
    next
      case (Some j)
      then have "t' = rebalance (Nd i e s h m l r')" "f = g" using Nd.prems(3) 3 r' by auto
      then show ?thesis using erased_right [OF e Nd.prems(1)] Some by simp
    qed
  qed
qed (simp add: erased_def)

section \<open>Queries\<close>

definition overlaps :: "timestamp \<Rightarrow> timestamp \<Rightarrow> 'v entry \<Rightarrow> bool" where
  "overlaps lo hi e \<longleftrightarrow> low e < hi \<and> lo < high e"

lemma shaped_mh: "shaped t \<Longrightarrow> p \<in> set (inorder t) \<Longrightarrow> high (fst p) \<le> it_mh t"
  by (induction t) (auto simp: max_high_of_max)

definition hits :: "timestamp \<Rightarrow> timestamp \<Rightarrow> ('v entry \<times> nat) list \<Rightarrow> 'v list" where
  "hits lo hi ps = map (\<lambda>p. val (fst p)) (filter (\<lambda>p. overlaps lo hi (fst p)) ps)"

lemma hits_simps [simp]:
  "hits lo hi [] = []"
  "hits lo hi (p # ps) = (if overlaps lo hi (fst p) then val (fst p) # hits lo hi ps else hits lo hi ps)"
  "hits lo hi (ps @ qs) = hits lo hi ps @ hits lo hi qs"
  by (simp_all add: hits_def)

lemma hits_empty: "hits lo hi ps = [] \<longleftrightarrow> (\<forall>p \<in> set ps. \<not> overlaps lo hi (fst p))"
  by (simp add: hits_def filter_empty_conv)

text \<open>The pruned descent reports exactly the overlapping entries, in key order.\<close>

lemma it_descend_correct:
  "shaped t \<Longrightarrow> ordered (inorder t) \<Longrightarrow> it_descend t lo hi = hits lo hi (inorder t)"
proof (induction t)
  case (Nd i e s h m l r)
  let ?t = "Nd i e s h m l r"
  have IH: "it_descend l lo hi = hits lo hi (inorder l)" "it_descend r lo hi = hits lo hi (inorder r)"
    using Nd by simp_all
  show ?case
  proof (cases "m \<le> lo")
    case True
    have "hits lo hi (inorder ?t) = []"
      unfolding hits_empty using shaped_mh [OF Nd.prems(1)] True by (fastforce simp: overlaps_def)
    then show ?thesis using True by (simp only: it_descend.simps if_True)
  next
    case False
    have "hits lo hi (inorder r) = []" if ge: "\<not> low e < hi"
      unfolding hits_empty
    proof
      fix p assume "p \<in> set (inorder r)"
      then have "key_of (e, s) < key_of p" using Nd.prems(2) by simp
      then have "low e \<le> low (fst p)" by (auto simp: key_of_def)
      then show "\<not> overlaps lo hi (fst p)" using ge by (simp add: overlaps_def)
    qed
    then show ?thesis using False IH by (auto simp: overlaps_def)
  qed
qed simp

section \<open>The whole structure\<close>

definition it_inv :: "'v::linorder interval_tree \<Rightarrow> bool" where
  "it_inv t \<longleftrightarrow>
     shaped (it_root t) \<and> ordered (inorder (it_root t)) \<and>
     it_count t = length (inorder (it_root t)) \<and>
     (\<forall>p \<in> set (inorder (it_root t)). snd p < it_next_seq t) \<and>
     mset (slots_of (it_root t)) + mset (it_free t) = mset [0..<it_pool t]"

definition it_entries :: "'v interval_tree \<Rightarrow> 'v entry multiset" where
  "it_entries t = image_mset fst (mset (inorder (it_root t)))"

lemma it_empty_inv [inv_intros]: "it_inv it_empty"
  by (simp add: it_inv_def it_empty_def)

lemma it_clear_inv [inv_intros]: "it_inv (it_clear t)"
  by (simp add: it_inv_def it_clear_def)

lemma it_entries_empty [abs_simps]: "it_entries it_empty = {#}" "it_entries (it_clear t) = {#}"
  by (simp_all add: it_entries_def it_empty_def it_clear_def)

lemma it_alloc_correct:
  assumes "it_inv t"
  obtains i t1 where "it_alloc t = (i, t1)" "it_root t1 = it_root t" "it_count t1 = it_count t"
    "it_next_seq t1 = it_next_seq t"
    "add_mset i (mset (slots_of (it_root t)) + mset (it_free t1)) = mset [0..<it_pool t1]"
proof (cases "it_free t = []")
  case True
  then show ?thesis
    using assms by (intro that [of "it_pool t" "t\<lparr>it_pool := it_pool t + 1\<rparr>"])
      (auto simp: it_alloc_def it_inv_def)
next
  case False
  have "add_mset (last (it_free t)) (mset (butlast (it_free t))) = mset (it_free t)"
    using False by (rule mset_butlast)
  then have "add_mset (last (it_free t)) (mset (slots_of (it_root t)) + mset (butlast (it_free t)))
      = mset [0..<it_pool t]"
    using assms by (simp add: it_inv_def flip: union_mset_add_mset_right)
  then show ?thesis
    using False by (intro that [of "last (it_free t)" "t\<lparr>it_free := butlast (it_free t)\<rparr>"])
      (auto simp: it_alloc_def)
qed

lemma it_insert_correct:
  assumes inv: "it_inv t"
  shows "it_inv (it_insert t lo hi v) \<and>
    it_entries (it_insert t lo hi v) = add_mset \<lparr>low = lo, high = hi, val = v\<rparr> (it_entries t)"
proof -
  obtain i t1 where t1: "it_alloc t = (i, t1)" "it_root t1 = it_root t" "it_count t1 = it_count t"
    "it_next_seq t1 = it_next_seq t"
    "add_mset i (mset (slots_of (it_root t)) + mset (it_free t1)) = mset [0..<it_pool t1]"
    using it_alloc_correct [OF inv] .
  let ?e = "\<lparr>low = lo, high = hi, val = v\<rparr>" and ?s = "it_next_seq t" and ?r = "it_root t"
  let ?r' = "insert_at ?r (Nd i ?e ?s 1 hi Tip Tip)"
  have sh: "shaped ?r" and ord: "ordered (inorder ?r)"
    and fresh: "(?e, ?s) \<notin> set (inorder ?r)"
    using inv by (auto simp: it_inv_def)
  obtain xs ys where io: "inorder ?r = xs @ ys" "inorder ?r' = xs @ (?e, ?s) # ys"
    "\<forall>p \<in> set xs. key_of p < key_of (?e, ?s)" "\<forall>p \<in> set ys. key_of (?e, ?s) < key_of p"
    "mset (slots_of ?r') = add_mset i (mset (slots_of ?r))"
    using insert_at_inorder [OF ord fresh, of i 1 hi] by blast
  have ins: "it_insert t lo hi v = t1\<lparr>it_root := ?r', it_next_seq := ?s + 1, it_count := it_count t + 1\<rparr>"
    by (simp add: it_insert_def t1(1))
  have "ordered (inorder ?r')" using ord io by auto
  moreover have "shaped ?r'" using insert_at_shaped [OF sh] by blast
  moreover have "it_count t + 1 = length (inorder ?r')" using inv io by (simp add: it_inv_def)
  moreover have "\<forall>p \<in> set (inorder ?r'). snd p < ?s + 1"
    using inv io by (auto simp: it_inv_def less_Suc_eq)
  ultimately have "it_inv (it_insert t lo hi v)" using io(5) t1(5) unfolding ins by (simp add: it_inv_def)
  moreover have "it_entries (it_insert t lo hi v) = add_mset ?e (it_entries t)"
    using io unfolding ins by (simp add: it_entries_def)
  ultimately show ?thesis by blast
qed

lemma it_remove_correct:
  assumes inv: "it_inv t"
  shows "it_inv (snd (it_remove t lo hi v)) \<and>
    (fst (it_remove t lo hi v) \<longleftrightarrow> \<lparr>low = lo, high = hi, val = v\<rparr> \<in># it_entries t) \<and>
    it_entries (snd (it_remove t lo hi v)) = it_entries t - {# \<lparr>low = lo, high = hi, val = v\<rparr> #}"
proof -
  let ?k = "\<lparr>low = lo, high = hi, val = v\<rparr>" and ?r = "it_root t"
  have sh: "shaped ?r" and ord: "ordered (inorder ?r)" using inv by (auto simp: it_inv_def)
  obtain r' f where ef: "erase_first ?r ?k = (r', f)" by (cases "erase_first ?r ?k")
  have er: "erased ?k ?r r' f" using erase_first_correct [OF sh ord ef] .
  show ?thesis
  proof (cases f)
    case None
    then have "r' = ?r" "?k \<notin> fst ` set (inorder ?r)" using er by (auto simp: erased_def)
    then show ?thesis
      using inv ef None by (auto simp: it_remove_def it_entries_def diff_single_trivial)
  next
    case (Some j)
    obtain xs s ys where io: "inorder ?r = xs @ (?k, s) # ys" "inorder r' = xs @ ys"
      using er Some by (auto simp: erased_def)
    have r': "shaped r'" "mset (slots_of ?r) = add_mset j (mset (slots_of r'))"
      using er Some by (auto simp: erased_def)
    have rem: "it_remove t lo hi v =
        (True, t\<lparr>it_root := r', it_free := it_free t @ [j], it_count := it_count t - 1\<rparr>)"
      by (simp add: it_remove_def ef Some)
    have "ordered (inorder r')" using ord io by auto
    then have "it_inv (snd (it_remove t lo hi v))"
      using inv io r' unfolding rem by (auto simp: it_inv_def)
    then show ?thesis using io unfolding rem by (simp add: it_entries_def)
  qed
qed

lemma it_overlapping_correct:
  assumes "it_inv t"
  shows "mset (it_overlapping t lo hi) =
    image_mset val (filter_mset (\<lambda>e. lo < hi \<and> overlaps lo hi e) (it_entries t))"
proof (cases "lo < hi")
  case True
  have "mset (it_overlapping t lo hi) = mset (hits lo hi (inorder (it_root t)))"
    using True assms it_descend_correct [of "it_root t" lo hi]
    by (simp add: it_overlapping_def it_inv_def)
  then show ?thesis
    using True
    by (simp add: hits_def it_entries_def filter_mset_image_mset image_mset.compositionality comp_def)
next
  case False
  then show ?thesis by (simp add: it_overlapping_def filter_mset_none)
qed

lemma it_stabbing_correct:
  assumes "it_inv t" "\<forall>e \<in># it_entries t. high e \<le> int64_max"
  shows "mset (it_stabbing t x) = image_mset val (filter_mset (\<lambda>e. low e \<le> x \<and> x < high e) (it_entries t))"
proof (cases "x = int64_max")
  case True
  have "filter_mset (\<lambda>e. low e \<le> x \<and> x < high e) (it_entries t) = {#}"
    using assms(2) True by (intro filter_mset_none) fastforce
  then show ?thesis using True by (simp add: it_stabbing_def)
next
  case False
  then have "it_stabbing t x = it_overlapping t x (x + 1)"
    by (simp add: it_stabbing_def it_overlapping_def)
  moreover have "(\<lambda>e. x < x + 1 \<and> overlaps x (x + 1) e) = (\<lambda>e :: 'a entry. low e \<le> x \<and> x < high e)"
    by (auto simp: overlaps_def fun_eq_iff)
  ultimately show ?thesis using it_overlapping_correct [OF assms(1)] by simp
qed

section \<open>The audit and the balance bound\<close>

definition in_bounds :: "('v::linorder entry \<times> nat) option \<Rightarrow> ('v entry \<times> nat) option \<Rightarrow> 'v entry \<times> nat \<Rightarrow> bool"
where
  "in_bounds lo hi p \<longleftrightarrow>
     (\<forall>q. lo = Some q \<longrightarrow> key_of q < key_of p) \<and> (\<forall>q. hi = Some q \<longrightarrow> key_of p < key_of q)"

lemma it_audit_correct:
  "shaped t \<Longrightarrow> ordered (inorder t) \<Longrightarrow> \<forall>p \<in> set (inorder t). in_bounds lo hi p \<Longrightarrow>
   it_audit t lo hi = (True, length (inorder t))"
proof (induction t arbitrary: lo hi)
  case (Nd i e s h m l r)
  have here: "in_bounds lo hi (e, s)" using Nd.prems(3) by simp
  have "it_audit l lo (Some (e, s)) = (True, length (inorder l))"
    using Nd.prems by (intro Nd.IH(1)) (auto simp: in_bounds_def)
  moreover have "it_audit r (Some (e, s)) hi = (True, length (inorder r))"
    using Nd.prems by (intro Nd.IH(2)) (auto simp: in_bounds_def)
  moreover have "\<not> (case lo of None \<Rightarrow> False | Some (e', s') \<Rightarrow> \<not> less_full e' s' e s)"
    "\<not> (case hi of None \<Rightarrow> False | Some (e', s') \<Rightarrow> \<not> less_full e s e' s')"
    using here by (auto simp: in_bounds_def less_full_iff split: option.splits)
  ultimately show ?case using Nd.prems(1) by (auto simp: max_def)
qed simp

text \<open>
  The constant 1.4405 of the code: with \<open>x\<close> the rational 1.618 below the golden ratio, a tree of
  height h has at least \<open>x ^ h - 1\<close> nodes, and \<open>x ^ 1.4405\<close> is at least 2.
\<close>

definition golden :: real where
  "golden = 987 / 610"

lemma golden_step: "golden ^ 2 \<le> golden + 1"
  by (simp add: golden_def power2_eq_square)

lemma golden_pos: "1 < golden"
  by (simp add: golden_def)

lemma golden_power: "(2::real) ^ 84 \<le> golden ^ 121"
proof -
  have "(199::real) \<le> golden ^ 11" by (simp add: golden_def power_divide)
  then have "(199::real) ^ 11 \<le> (golden ^ 11) ^ 11" by (intro power_mono) simp_all
  moreover have "(2::real) ^ 84 \<le> 199 ^ 11" by simp
  ultimately show ?thesis by (simp flip: power_mult)
qed

lemma shaped_size: "shaped t \<Longrightarrow> golden ^ it_h t \<le> real (length (inorder t)) + 1"
proof (induction t)
  case (Nd i e s h m l r)
  define a where "a = min (it_h l) (it_h r)"
  have IH: "golden ^ it_h l \<le> real (length (inorder l)) + 1" "golden ^ it_h r \<le> real (length (inorder r)) + 1"
    using Nd by auto
  have hs: "it_h l = a \<and> (it_h r = a \<or> it_h r = a + 1) \<or> it_h r = a \<and> it_h l = a + 1"
    "h \<le> a + 2" "h = 1 + max (it_h l) (it_h r)"
    using Nd.prems by (auto simp: a_def)
  have "golden ^ h \<le> golden ^ it_h l + golden ^ it_h r"
  proof (cases "it_h l = it_h r")
    case True
    have "golden ^ h = golden * golden ^ it_h l" using hs(3) True by simp
    also have "\<dots> \<le> 2 * golden ^ it_h l"
      using golden_pos by (intro mult_right_mono) (auto simp: golden_def)
    finally show ?thesis using True by simp
  next
    case False
    then have "h = a + 2" using hs by auto
    then have "golden ^ h = golden ^ a * golden ^ 2" by (simp only: power_add)
    also have "\<dots> \<le> golden ^ a * (golden + 1)"
      using golden_step golden_pos by (intro mult_left_mono) auto
    also have "\<dots> = golden ^ (a + 1) + golden ^ a" by (simp add: algebra_simps)
    also have "\<dots> = golden ^ it_h l + golden ^ it_h r" using hs(1) False by auto
    finally show ?thesis .
  qed
  then show ?case using IH Nd.prems by simp
qed simp

lemma golden_log: "ln 2 \<le> 1.4405 * ln golden"
proof -
  have "84 * ln 2 = ln ((2::real) ^ 84)" by (subst ln_realpow) simp_all
  also have "\<dots> \<le> ln (golden ^ 121)" using golden_power golden_pos by simp
  also have "\<dots> = 121 * ln golden" using golden_pos by (simp add: ln_realpow)
  finally have "84 * ln 2 \<le> 121 * ln golden" .
  moreover have "0 < ln golden" using golden_pos by simp
  ultimately show ?thesis by simp
qed

lemma it_balanced_correct:
  assumes "it_inv t"
  shows "it_balanced t"
proof -
  let ?h = "it_height t" and ?n = "real (it_count t)"
  have "golden ^ ?h \<le> ?n + 1"
    using shaped_size [of "it_root t"] assms by (simp add: it_inv_def it_height_def)
  also have "\<dots> \<le> ?n + 2" by simp
  finally have "ln (golden ^ ?h) \<le> ln (?n + 2)" using golden_pos by (subst ln_le_cancel_iff) auto
  then have 1: "real ?h * ln golden \<le> ln (?n + 2)" using golden_pos by (simp add: ln_realpow)
  have "real ?h * ln 2 \<le> real ?h * (1.4405 * ln golden)"
    using golden_log by (intro mult_left_mono) auto
  also have "\<dots> = 1.4405 * (real ?h * ln golden)" by simp
  also have "\<dots> \<le> 1.4405 * ln (?n + 2)" using 1 by (intro mult_left_mono) auto
  finally have "real ?h \<le> 1.4405 * ln (?n + 2) / ln 2" by (simp add: le_divide_eq)
  then show ?thesis by (simp add: it_balanced_def)
qed

section \<open>Runs of operations\<close>

datatype 'v it_op = Insert timestamp timestamp 'v | Remove timestamp timestamp 'v | Clear

fun it_step :: "'v::linorder interval_tree \<Rightarrow> 'v it_op \<Rightarrow> 'v interval_tree" where
  "it_step t (Insert lo hi v) = it_insert t lo hi v"
| "it_step t (Remove lo hi v) = snd (it_remove t lo hi v)"
| "it_step t Clear = it_clear t"

definition it_run :: "'v::linorder interval_tree \<Rightarrow> 'v it_op list \<Rightarrow> 'v interval_tree" where
  "it_run = foldl it_step"

text \<open>The contract: a bag of entries.\<close>

fun bag_step :: "'v entry multiset \<Rightarrow> 'v it_op \<Rightarrow> 'v entry multiset" where
  "bag_step M (Insert lo hi v) = add_mset \<lparr>low = lo, high = hi, val = v\<rparr> M"
| "bag_step M (Remove lo hi v) = M - {# \<lparr>low = lo, high = hi, val = v\<rparr> #}"
| "bag_step M Clear = {#}"

definition bag_run :: "'v it_op list \<Rightarrow> 'v entry multiset" where
  "bag_run = foldl bag_step {#}"

text \<open>The largest number of live entries at any point of a run.\<close>

fun bag_peak :: "'v entry multiset \<Rightarrow> 'v it_op list \<Rightarrow> nat" where
  "bag_peak M [] = size M"
| "bag_peak M (x # xs) = max (size M) (bag_peak (bag_step M x) xs)"

lemma it_step_correct:
  assumes "it_inv t"
  shows "it_inv (it_step t x) \<and> it_entries (it_step t x) = bag_step (it_entries t) x"
  using it_insert_correct [OF assms] it_remove_correct [OF assms]
  by (cases x) (simp_all add: it_clear_inv it_entries_empty)

lemma it_run_correct:
  "it_inv t \<Longrightarrow> it_inv (it_run t xs) \<and> it_entries (it_run t xs) = foldl bag_step (it_entries t) xs"
proof (induction xs arbitrary: t)
  case (Cons x xs)
  then show ?case using it_step_correct [OF Cons.prems, of x] by (simp add: it_run_def)
qed (simp add: it_run_def)

lemma it_count_entries: "it_inv t \<Longrightarrow> it_count t = size (it_entries t)"
  by (simp add: it_inv_def it_entries_def)

lemma slots_of_length: "length (slots_of t) = length (inorder t)"
  by (induction t) simp_all

lemma it_pool_size: "it_inv t \<Longrightarrow> it_pool t = it_count t + length (it_free t)"
  using slots_of_length [of "it_root t"] unfolding it_inv_def
  by (metis length_upt diff_zero size_mset size_union)

lemma it_pool_step:
  assumes "it_inv t"
  shows "it_pool (it_step t x) \<le> max (it_pool t) (size (bag_step (it_entries t) x))"
proof (cases x)
  case (Insert lo hi v)
  then show ?thesis
    using it_pool_size [OF assms] it_count_entries [OF assms]
    by (auto simp: it_insert_def it_alloc_def)
next
  case (Remove lo hi v)
  then show ?thesis by (auto simp: it_remove_def split: prod.split option.split)
next
  case Clear
  then show ?thesis by (simp add: it_clear_def)
qed

lemma it_pool_run:
  "it_inv t \<Longrightarrow> it_pool (it_run t xs) \<le> max (it_pool t) (bag_peak (it_entries t) xs)"
proof (induction xs arbitrary: t)
  case (Cons x xs)
  note st = it_step_correct [OF Cons.prems, of x]
  have "it_pool (it_run (it_step t x) xs) \<le> max (it_pool (it_step t x)) (bag_peak (it_entries (it_step t x)) xs)"
    using Cons.IH st by blast
  moreover have "size M \<le> bag_peak M xs" for M by (cases xs) auto
  then have "size (bag_step (it_entries t) x) \<le> bag_peak (bag_step (it_entries t) x) xs" .
  ultimately show ?case
    using it_pool_step [OF Cons.prems, of x] st by (auto simp: it_run_def)
qed (simp add: it_run_def)

section \<open>Properties\<close>

text \<open>Whatever insertions, removals and clears a tree has seen, the structural audit the code
  carries succeeds (order, heights, balance, cached maxima, live count), its height stays within
  the AVL bound the code states, its size is the number of live entries, and its node array is no
  longer than the largest number of entries that were ever live at once.\<close>

lemma interval_tree_invariants:
  "it_check_invariants (it_run it_empty xs) \<and> it_balanced (it_run it_empty xs) \<and>
   it_count (it_run it_empty xs) = size (bag_run xs) \<and>
   it_pool (it_run it_empty xs) \<le> bag_peak {#} xs"
proof -
  let ?t = "it_run it_empty xs"
  have inv: "it_inv ?t" and ent: "it_entries ?t = bag_run xs"
    using it_run_correct [OF it_empty_inv, of xs] by (simp_all add: bag_run_def it_entries_empty)
  have "it_audit (it_root ?t) None None = (True, length (inorder (it_root ?t)))"
    using inv by (intro it_audit_correct) (simp_all add: it_inv_def in_bounds_def)
  then have "it_check_invariants ?t" using inv by (simp add: it_check_invariants_def it_inv_def)
  moreover have "it_pool ?t \<le> bag_peak {#} xs"
    using it_pool_run [OF it_empty_inv, of xs] by (simp add: it_empty_def it_entries_empty [unfolded it_empty_def])
  ultimately show ?thesis
    using it_balanced_correct [OF inv] it_count_entries [OF inv] ent by simp
qed

text \<open>C27: After any run of operations the pruned queries report exactly the live entries that
  overlap the half-open range, or contain the instant, each as often as it is stored; and a
  removal succeeds exactly when the triple is stored, and then removes one copy of it.\<close>

theorem interval_tree_queries:
  assumes "\<forall>e \<in># bag_run xs. high e \<le> int64_max"
  shows "mset (it_overlapping (it_run it_empty xs) lo hi) =
       image_mset val (filter_mset (\<lambda>e. lo < hi \<and> low e < hi \<and> lo < high e) (bag_run xs)) \<and>
    mset (it_stabbing (it_run it_empty xs) instant) =
       image_mset val (filter_mset (\<lambda>e. low e \<le> instant \<and> instant < high e) (bag_run xs)) \<and>
    (fst (it_remove (it_run it_empty xs) lo hi v) \<longleftrightarrow> \<lparr>low = lo, high = hi, val = v\<rparr> \<in># bag_run xs)"
proof -
  let ?t = "it_run it_empty xs"
  have inv: "it_inv ?t" and ent: "it_entries ?t = bag_run xs"
    using it_run_correct [OF it_empty_inv, of xs] by (simp_all add: bag_run_def it_entries_empty)
  show ?thesis
    using it_overlapping_correct [OF inv, of lo hi] it_stabbing_correct [OF inv, of instant]
      it_remove_correct [OF inv, of lo hi v] assms ent by (simp add: overlaps_def)
qed

lemma interval_tree_queries_witness:
  "mset (it_stabbing (it_run it_empty [Insert 0 10 (1::nat), Insert 5 20 2, Remove 0 10 1]) 7) = {# 2 #}"
  using interval_tree_queries [of "[Insert 0 10 (1::nat), Insert 5 20 2, Remove 0 10 1]" 0 0 7 0]
  by (simp add: bag_run_def int64_max_def)

end
