(* ===== verification/Json.thy ===== *)
theory Json
  imports Prelude "HOL-Library.Char_ord" "HOL-Library.Sublist"
begin

unbundle bit_operations_syntax

text \<open>
  The JSON reader and the string escaper of \<^verbatim>\<open>include/safetrail/util/json.hpp\<close> and
  \<^verbatim>\<open>src/util/json.cpp\<close>, on byte strings. The parser state \<open>P\<close> is the remaining input; a
  call either fails with the first error message or succeeds with a value and the rest. The
  recursion of \<open>value\<close> is bounded by \<open>kMaxDepth\<close>, as in the code; its member and element loops
  have no bound in the code and carry fuel here (the length of the remaining input), with
  \<open>NoFuel\<close> as a third outcome that is shown not to happen. Numbers are reals: \<open>strtod\<close> is read
  as the exact value of the decimal numeral. The printf of \<open>Json::number\<close> and file reading are
  not modelled.
\<close>

datatype json =
    JNull
  | JBool bool
  | JNumber real
  | JString string
  | JArray "json list"
  | JObject "(string \<times> json) list"

datatype 'a outcome = Fail string | Done 'a string | NoFuel

definition kMaxDepth :: nat where
  "kMaxDepth = 64"

fun json_ws :: "string \<Rightarrow> string" where
  "json_ws [] = []"
| "json_ws (c # s) =
     (if c = CHR '' '' \<or> c = CHR 0x09 \<or> c = CHR 0x0A \<or> c = CHR 0x0D then json_ws s else c # s)"

definition json_lit :: "string \<Rightarrow> string \<Rightarrow> string option" where
  "json_lit w s = (if length s < length w \<or> take (length w) s \<noteq> w then None else Some (drop (length w) s))"

section \<open>Strings\<close>

definition append_utf8 :: "nat \<Rightarrow> string" where
  "append_utf8 cp =
     map char_of
       (if cp < 0x80 then [cp]
        else if cp < 0x800 then [0xC0 OR drop_bit 6 cp, 0x80 OR (cp AND 0x3F)]
        else if cp < 0x10000 then
          [0xE0 OR drop_bit 12 cp, 0x80 OR (drop_bit 6 cp AND 0x3F), 0x80 OR (cp AND 0x3F)]
        else
          [0xF0 OR drop_bit 18 cp, 0x80 OR (drop_bit 12 cp AND 0x3F),
           0x80 OR (drop_bit 6 cp AND 0x3F), 0x80 OR (cp AND 0x3F)])"

definition code :: "char \<Rightarrow> nat" where
  "code c = of_char c"

definition is_digit :: "char \<Rightarrow> bool" where
  "is_digit c \<longleftrightarrow> 48 \<le> code c \<and> code c \<le> 57"

definition hex_digit :: "char \<Rightarrow> nat option" where
  "hex_digit c =
     (if 48 \<le> code c \<and> code c \<le> 57 then Some (code c - 48)
      else if 97 \<le> code c \<and> code c \<le> 102 then Some (code c - 97 + 10)
      else if 65 \<le> code c \<and> code c \<le> 70 then Some (code c - 65 + 10)
      else None)"

fun hex_loop :: "nat \<Rightarrow> string \<Rightarrow> nat \<Rightarrow> nat option" where
  "hex_loop 0 s v = Some v"
| "hex_loop (Suc n) [] v = None"
| "hex_loop (Suc n) (c # s) v =
     (case hex_digit c of None \<Rightarrow> None | Some d \<Rightarrow> hex_loop n s (push_bit 4 v OR d))"

definition hex4 :: "string \<Rightarrow> nat option" where
  "hex4 s = (if length s < 4 then None else hex_loop 4 s 0)"

text \<open>\<open>\uXXXX\<close> and its surrogate-pair form: the code point and the rest of the input.\<close>

definition unicode_escape :: "string \<Rightarrow> nat outcome" where
  "unicode_escape s =
     (case hex4 s of None \<Rightarrow> Fail (''bad '' @ CHR 0x5C # ''u escape'')
      | Some cp \<Rightarrow>
          let s' = drop 4 s
          in if 0xD800 \<le> cp \<and> cp \<le> 0xDBFF then
               (if length s' < 6 \<or> s' ! 0 \<noteq> CHR 0x5C \<or> s' ! 1 \<noteq> CHR ''u''
                then Fail ''unpaired high surrogate''
                else case hex4 (drop 2 s') of
                       None \<Rightarrow> Fail ''unpaired high surrogate''
                     | Some lo \<Rightarrow>
                         if lo < 0xDC00 \<or> lo > 0xDFFF then Fail ''unpaired high surrogate''
                         else Done (0x10000 + push_bit 10 (cp - 0xD800) + (lo - 0xDC00)) (drop 6 s'))
             else if 0xDC00 \<le> cp \<and> cp \<le> 0xDFFF then Fail ''unpaired low surrogate''
             else Done cp s')"

definition simple_escape :: "char \<Rightarrow> char option" where
  "simple_escape c =
     (if c = CHR 0x22 then Some (CHR 0x22)
      else if c = CHR 0x5C then Some (CHR 0x5C)
      else if c = CHR ''/'' then Some (CHR ''/'')
      else if c = CHR ''b'' then Some (CHR 0x08)
      else if c = CHR ''f'' then Some (CHR 0x0C)
      else if c = CHR ''n'' then Some (CHR 0x0A)
      else if c = CHR ''r'' then Some (CHR 0x0D)
      else if c = CHR ''t'' then Some (CHR 0x09)
      else None)"

definition emit :: "string \<Rightarrow> string outcome \<Rightarrow> string outcome" where
  "emit bs r = (case r of Done v rest \<Rightarrow> Done (bs @ v) rest | Fail m \<Rightarrow> Fail m | NoFuel \<Rightarrow> NoFuel)"

lemma unicode_escape_shorter: "unicode_escape s = Done cp r \<Longrightarrow> length r < length s"
  by (auto simp: unicode_escape_def hex4_def Let_def split: option.splits if_splits)

function string_loop :: "string \<Rightarrow> string outcome" where
  "string_loop [] = Fail ''unterminated string''"
| "string_loop (c # s) =
     (if c = CHR 0x22 then Done [] s
      else if code c < 0x20 then Fail ''raw control character in string''
      else if c \<noteq> CHR 0x5C then emit [c] (string_loop s)
      else case s of
             [] \<Rightarrow> Fail ''truncated escape''
           | e # r \<Rightarrow>
               (case simple_escape e of
                  Some x \<Rightarrow> emit [x] (string_loop r)
                | None \<Rightarrow>
                    if e = CHR ''u''
                    then (case unicode_escape r of
                            Done cp r' \<Rightarrow> emit (append_utf8 cp) (string_loop r')
                          | Fail m \<Rightarrow> Fail m
                          | NoFuel \<Rightarrow> NoFuel)
                    else Fail ''invalid escape character''))"
  by pat_completeness auto
termination
  by (relation "measure length") (auto dest: unicode_escape_shorter)

declare string_loop.simps(2) [simp del]

definition json_string :: "string \<Rightarrow> string outcome" where
  "json_string s = (if s = [] \<or> hd s \<noteq> CHR 0x22 then Fail ''expected string'' else string_loop (tl s))"

definition hex_char :: "nat \<Rightarrow> char" where
  "hex_char n = char_of (if n < 10 then 48 + n else 97 + (n - 10))"

definition escape_char :: "char \<Rightarrow> string" where
  "escape_char c =
     (if c = CHR 0x22 then [CHR 0x5C, CHR 0x22]
      else if c = CHR 0x5C then [CHR 0x5C, CHR 0x5C]
      else if c = CHR 0x08 then [CHR 0x5C, CHR ''b'']
      else if c = CHR 0x0C then [CHR 0x5C, CHR ''f'']
      else if c = CHR 0x0A then [CHR 0x5C, CHR ''n'']
      else if c = CHR 0x0D then [CHR 0x5C, CHR ''r'']
      else if c = CHR 0x09 then [CHR 0x5C, CHR ''t'']
      else if code c < 0x20
      then [CHR 0x5C, CHR ''u'', hex_char 0, hex_char 0, hex_char (code c div 16), hex_char (code c mod 16)]
      else [c])"

definition json_escape :: "string \<Rightarrow> string" where
  "json_escape s = CHR 0x22 # concat (map escape_char s) @ [CHR 0x22]"

section \<open>Numbers\<close>

definition skip_digits :: "string \<Rightarrow> string" where
  "skip_digits = dropWhile is_digit"

definition starts_digit :: "string \<Rightarrow> bool" where
  "starts_digit s \<longleftrightarrow> s \<noteq> [] \<and> is_digit (hd s)"

definition scan_int :: "string \<Rightarrow> string option" where
  "scan_int s =
     (let s1 = (if s \<noteq> [] \<and> hd s = CHR ''-'' then tl s else s)
      in if \<not> starts_digit s1 then None
         else Some (if hd s1 = CHR ''0'' then tl s1 else skip_digits s1))"

definition scan_frac :: "string \<Rightarrow> string option" where
  "scan_frac s =
     (if s \<noteq> [] \<and> hd s = CHR ''.''
      then (if starts_digit (tl s) then Some (skip_digits (tl s)) else None)
      else Some s)"

definition scan_exp :: "string \<Rightarrow> string option" where
  "scan_exp s =
     (if s \<noteq> [] \<and> (hd s = CHR ''e'' \<or> hd s = CHR ''E'')
      then (let t = tl s; u = (if t \<noteq> [] \<and> (hd t = CHR ''+'' \<or> hd t = CHR ''-'') then tl t else t)
            in if starts_digit u then Some (skip_digits u) else None)
      else Some s)"

text \<open>\<open>strtod\<close> on a span the grammar has accepted: the exact value of the numeral.\<close>

definition digits_value :: "string \<Rightarrow> nat" where
  "digits_value ds = foldl (\<lambda>v c. v * 10 + (code c - 48)) 0 ds"

definition scale10 :: "int \<Rightarrow> real" where
  "scale10 e = (if 0 \<le> e then 10 ^ nat e else 1 / 10 ^ nat (- e))"

definition strtod :: "string \<Rightarrow> real" where
  "strtod sp =
     (let neg = (sp \<noteq> [] \<and> hd sp = CHR ''-'');
          b = (if neg then tl sp else sp);
          ip = takeWhile is_digit b; s1 = skip_digits b;
          fp = (if s1 \<noteq> [] \<and> hd s1 = CHR ''.'' then takeWhile is_digit (tl s1) else []);
          s2 = (if s1 \<noteq> [] \<and> hd s1 = CHR ''.'' then skip_digits (tl s1) else s1);
          ex = (if s2 = [] then 0
                else let t = tl s2
                     in if t \<noteq> [] \<and> hd t = CHR ''-'' then - int (digits_value (tl t))
                        else if t \<noteq> [] \<and> hd t = CHR ''+'' then int (digits_value (tl t))
                        else int (digits_value t));
          m = real (digits_value (ip @ fp)) * scale10 (ex - int (length fp))
      in if neg then - m else m)"

definition json_number :: "string \<Rightarrow> real outcome" where
  "json_number s =
     (case scan_int s of None \<Rightarrow> Fail ''bad number''
      | Some s1 \<Rightarrow>
          (case scan_frac s1 of None \<Rightarrow> Fail (''bad number: no digits after '.'' @ [CHR 0x27])
           | Some s2 \<Rightarrow>
               (case scan_exp s2 of None \<Rightarrow> Fail ''bad number: no digits in exponent''
                | Some s3 \<Rightarrow> Done (strtod (take (length s - length s3) s)) s3)))"

section \<open>Values\<close>

text \<open>The member loop of an object and the element loop of an array, over the value parser.\<close>

fun members :: "(string \<Rightarrow> json outcome) \<Rightarrow> nat \<Rightarrow> string \<Rightarrow> (string \<times> json) list \<Rightarrow> json outcome" where
  "members val 0 s acc = NoFuel"
| "members val (Suc fuel) s acc =
     (case json_string (json_ws s) of
        Fail m \<Rightarrow> Fail m
      | NoFuel \<Rightarrow> NoFuel
      | Done k s1 \<Rightarrow>
          let s2 = json_ws s1
          in if s2 = [] \<or> hd s2 \<noteq> CHR '':'' then Fail ''expected ':' after object key''
             else case val (tl s2) of
                    Fail m \<Rightarrow> Fail m
                  | NoFuel \<Rightarrow> NoFuel
                  | Done v s3 \<Rightarrow>
                      let s4 = json_ws s3; acc' = acc @ [(k, v)]
                      in if s4 \<noteq> [] \<and> hd s4 = CHR '','' then members val fuel (tl s4) acc'
                         else if s4 \<noteq> [] \<and> hd s4 = CHR ''}'' then Done (JObject acc') (tl s4)
                         else Fail (''expected ',' or '}'' @ [CHR 0x27]))"

fun elements :: "(string \<Rightarrow> json outcome) \<Rightarrow> nat \<Rightarrow> string \<Rightarrow> json list \<Rightarrow> json outcome" where
  "elements val 0 s acc = NoFuel"
| "elements val (Suc fuel) s acc =
     (case val s of
        Fail m \<Rightarrow> Fail m
      | NoFuel \<Rightarrow> NoFuel
      | Done v s1 \<Rightarrow>
          let s2 = json_ws s1; acc' = acc @ [v]
          in if s2 \<noteq> [] \<and> hd s2 = CHR '','' then elements val fuel (tl s2) acc'
             else if s2 \<noteq> [] \<and> hd s2 = CHR '']'' then Done (JArray acc') (tl s2)
             else Fail (''expected ',' or ']'' @ [CHR 0x27]))"

text \<open>\<open>json_value d\<close> parses a value with d more levels of nesting allowed.\<close>

fun json_value :: "nat \<Rightarrow> string \<Rightarrow> json outcome" where
  "json_value 0 s0 = Fail ''nesting too deep''"
| "json_value (Suc d) s0 =
     (let s = json_ws s0
      in if s = [] then Fail ''unexpected end of input''
         else if hd s = CHR ''{'' then
           (let s1 = json_ws (tl s)
            in if s1 \<noteq> [] \<and> hd s1 = CHR ''}'' then Done (JObject []) (tl s1)
               else members (json_value d) (length s) s1 [])
         else if hd s = CHR ''['' then
           (let s1 = json_ws (tl s)
            in if s1 \<noteq> [] \<and> hd s1 = CHR '']'' then Done (JArray []) (tl s1)
               else elements (json_value d) (length s) s1 [])
         else if hd s = CHR 0x22 then
           (case json_string s of Done v r \<Rightarrow> Done (JString v) r | Fail m \<Rightarrow> Fail m | NoFuel \<Rightarrow> NoFuel)
         else case json_lit ''true'' s of Some r \<Rightarrow> Done (JBool True) r
         | None \<Rightarrow>
             (case json_lit ''false'' s of Some r \<Rightarrow> Done (JBool False) r
              | None \<Rightarrow>
                  (case json_lit ''null'' s of Some r \<Rightarrow> Done JNull r
                   | None \<Rightarrow>
                       (case json_number s of
                          Done v r \<Rightarrow> Done (JNumber v) r | Fail m \<Rightarrow> Fail m | NoFuel \<Rightarrow> NoFuel))))"

declare json_value.simps(2) [simp del]

definition json_parse :: "string \<Rightarrow> json outcome" where
  "json_parse text =
     (case json_value kMaxDepth text of
        Done j r \<Rightarrow>
          (if json_ws r = [] then Done j [] else Fail ''trailing content after the top-level value'')
      | Fail m \<Rightarrow> Fail m
      | NoFuel \<Rightarrow> NoFuel)"

section \<open>Access\<close>

fun find_key :: "string \<Rightarrow> (string \<times> json) list \<Rightarrow> json option" where
  "find_key k [] = None"
| "find_key k ((k', v) # kvs) = (if k' = k then Some v else find_key k kvs)"

definition json_find :: "json \<Rightarrow> string \<Rightarrow> json option" where
  "json_find j k = (case j of JObject kvs \<Rightarrow> find_key k kvs | _ \<Rightarrow> None)"

definition json_size :: "json \<Rightarrow> nat" where
  "json_size j = (case j of JArray xs \<Rightarrow> length xs | JObject kvs \<Rightarrow> length kvs | _ \<Rightarrow> 0)"

definition number_or :: "json \<Rightarrow> real \<Rightarrow> real" where
  "number_or j d = (case j of JNumber x \<Rightarrow> x | _ \<Rightarrow> d)"

definition string_or :: "json \<Rightarrow> string \<Rightarrow> string" where
  "string_or j d = (case j of JString x \<Rightarrow> x | _ \<Rightarrow> d)"

definition bool_or :: "json \<Rightarrow> bool \<Rightarrow> bool" where
  "bool_or j d = (case j of JBool x \<Rightarrow> x | _ \<Rightarrow> d)"

section \<open>Every loop returns\<close>

lemma json_ws_length: "length (json_ws s) \<le> length s"
  by (induction s) auto

lemma emit_Done: "emit bs r = Done v rest \<longleftrightarrow> (\<exists>v'. r = Done v' rest \<and> v = bs @ v')"
  by (auto simp: emit_def split: outcome.splits)

lemma emit_NoFuel [simp]: "emit bs r = NoFuel \<longleftrightarrow> r = NoFuel"
  by (auto simp: emit_def split: outcome.splits)

lemma unicode_escape_fuel: "unicode_escape s \<noteq> NoFuel"
  by (auto simp: unicode_escape_def Let_def split: option.splits)

lemma string_loop_shorter: "string_loop s = Done v r \<Longrightarrow> length r < length s"
proof (induction s arbitrary: v r rule: string_loop.induct)
  case (2 c s)
  show ?case
  proof (cases "c = CHR 0x22 \<or> code c < 0x20 \<or> c \<noteq> CHR 0x5C")
    case True
    then show ?thesis
      using 2(1) 2(4) unfolding string_loop.simps(2) [of c s] by (fastforce simp: emit_Done split: if_splits)
  next
    case False
    then obtain e t where s: "s = e # t"
      using 2(4) unfolding string_loop.simps(2) [of c s] by (cases s) auto
    show ?thesis
    proof (cases "simple_escape e")
      case (Some x)
      then show ?thesis
        using 2(3) [OF _ _ _ s Some] 2(4) False s unfolding string_loop.simps(2) [of c s]
        by (fastforce simp: emit_Done)
    next
      case None
      then obtain cp t' where u: "e = CHR ''u''" "unicode_escape t = Done cp t'"
        "emit (append_utf8 cp) (string_loop t') = Done v r"
        using 2(4) False s unfolding string_loop.simps(2) [of c s]
        by (auto split: if_splits outcome.splits)
      then show ?thesis
        using 2(2) [OF _ _ _ s None u(1,2)] False unicode_escape_shorter [OF u(2)] s
        by (fastforce simp: emit_Done)
    qed
  qed
qed simp

lemma string_loop_fuel: "string_loop s \<noteq> NoFuel"
proof (induction s rule: string_loop.induct)
  case (2 c s)
  show ?case
    unfolding string_loop.simps(2) [of c s]
    using 2 unicode_escape_fuel by (auto split: list.split option.split outcome.split)
qed simp

lemma json_string_shorter: "json_string s = Done v r \<Longrightarrow> length r < length s"
  by (cases s) (auto simp: json_string_def dest: string_loop_shorter split: if_splits)

lemma json_string_fuel: "json_string s \<noteq> NoFuel"
  by (simp add: json_string_def string_loop_fuel)

lemma skip_digits_length: "length (skip_digits s) \<le> length s"
  by (simp add: skip_digits_def length_dropWhile_le)

lemma scan_int_length: "scan_int s = Some r \<Longrightarrow> length r < length s"
proof -
  assume a: "scan_int s = Some r"
  define s1 where "s1 = (if s \<noteq> [] \<and> hd s = CHR ''-'' then tl s else s)"
  have d: "starts_digit s1" and r: "r = (if hd s1 = CHR ''0'' then tl s1 else skip_digits s1)"
    using a by (auto simp: scan_int_def s1_def [symmetric] Let_def split: if_splits)
  obtain c t where s1: "s1 = c # t" "is_digit c" using d by (cases s1) (auto simp: starts_digit_def)
  have "length r < length s1"
    using r s1 length_dropWhile_le [of is_digit t] by (auto simp: skip_digits_def less_Suc_eq_le)
  moreover have "length s1 \<le> length s" by (simp add: s1_def)
  ultimately show ?thesis by simp
qed

lemma scan_frac_length: "scan_frac s = Some r \<Longrightarrow> length r \<le> length s"
  using skip_digits_length [of "tl s"] by (auto simp: scan_frac_def split: if_splits)

lemma scan_exp_length: "scan_exp s = Some r \<Longrightarrow> length r \<le> length s"
  using skip_digits_length [of "tl s"] skip_digits_length [of "tl (tl s)"]
  by (auto simp: scan_exp_def Let_def split: if_splits)

lemma json_number_shorter: "json_number s = Done v r \<Longrightarrow> length r < length s"
  by (auto simp: json_number_def split: option.splits dest!: scan_int_length scan_frac_length scan_exp_length)

lemma json_number_fuel: "json_number s \<noteq> NoFuel"
  by (auto simp: json_number_def split: option.splits)

definition shrinks :: "string \<Rightarrow> 'a outcome \<Rightarrow> bool" where
  "shrinks s r = (case r of Fail m \<Rightarrow> True | Done v t \<Rightarrow> length t < length s | NoFuel \<Rightarrow> False)"

lemma shrinks_simps [simp]:
  "shrinks s (Fail m)" "shrinks s (Done v t) \<longleftrightarrow> length t < length s" "\<not> shrinks s NoFuel"
  by (simp_all add: shrinks_def)

lemma shrinks_mono: "shrinks s r \<Longrightarrow> length s \<le> length s' \<Longrightarrow> shrinks s' r"
  by (cases r) auto

lemma shrinks_less: "shrinks t r \<Longrightarrow> length t < length s \<Longrightarrow> shrinks s r"
  by (cases r) auto

lemma shrinksD: "shrinks s r \<Longrightarrow> r \<noteq> NoFuel" "shrinks s (Done v t) \<Longrightarrow> length t < length s"
  by auto

lemma json_string_shrinks: "shrinks s (json_string s)"
  using json_string_fuel [of s] json_string_shorter [of s] by (cases "json_string s") auto

lemma json_number_shrinks: "shrinks s (json_number s)"
  using json_number_fuel [of s] json_number_shorter [of s] by (cases "json_number s") auto

lemma ws_tl_length: "json_ws s = t \<Longrightarrow> length (tl t) \<le> length s"
  using json_ws_length [of s] by auto

lemma members_shrinks:
  assumes g: "\<And>s. shrinks s (val s)"
  shows "length s < fuel \<Longrightarrow> shrinks s (members val fuel s acc)"
proof (induction fuel arbitrary: s acc)
  case (Suc fuel)
  show ?case
  proof (cases "json_string (json_ws s)")
    case (Done k s1)
    have l1: "length s1 < length s" using json_string_shorter [OF Done] json_ws_length [of s] by simp
    define s2 where "s2 = json_ws s1"
    have l2: "length (tl s2) < length s" using ws_tl_length [of s1 s2] l1 by (simp add: s2_def)
    show ?thesis
    proof (cases "val (tl s2)")
      case d: (Done v s3)
      define s4 where "s4 = json_ws s3"
      have l4: "length (tl s4) < length s"
        using g [of "tl s2"] l2 ws_tl_length [of s3 s4] by (simp add: s4_def d)
      then have "shrinks (tl s4) (members val fuel (tl s4) (acc @ [(k, v)]))"
        using Suc.prems by (intro Suc.IH) simp
      then have "shrinks s (members val fuel (tl s4) (acc @ [(k, v)]))"
        using l4 by (rule shrinks_less)
      then show ?thesis
        using l4 unfolding members.simps Done outcome.case Let_def s2_def [symmetric] d s4_def [symmetric]
        by auto
    qed (use Done g [of "tl s2"] in \<open>simp_all add: s2_def [symmetric]\<close>)
  qed (use json_string_fuel in simp_all)
qed simp

lemma elements_shrinks:
  assumes g: "\<And>s. shrinks s (val s)"
  shows "length s < fuel \<Longrightarrow> shrinks s (elements val fuel s acc)"
proof (induction fuel arbitrary: s acc)
  case (Suc fuel)
  show ?case
  proof (cases "val s")
    case (Done v s1)
    define s2 where "s2 = json_ws s1"
    have l2: "length (tl s2) < length s"
      using g [of s] ws_tl_length [of s1 s2] by (simp add: s2_def Done)
    then have "shrinks (tl s2) (elements val fuel (tl s2) (acc @ [v]))"
      using Suc.prems by (intro Suc.IH) simp
    then have "shrinks s (elements val fuel (tl s2) (acc @ [v]))"
      using l2 by (rule shrinks_less)
    then show ?thesis
      using l2 unfolding elements.simps Done outcome.case Let_def s2_def [symmetric] by auto
  qed (use g [of s] in simp_all)
qed simp

lemma json_lit_length: "json_lit w s = Some r \<Longrightarrow> w \<noteq> [] \<Longrightarrow> length r < length s"
  by (cases w) (auto simp: json_lit_def split: if_splits)

lemma json_value_shrinks: "shrinks s0 (json_value d s0)"
proof (induction d arbitrary: s0)
  case (Suc d)
  define s where "s = json_ws s0"
  define s1 where "s1 = json_ws (tl s)"
  have "shrinks s (json_value (Suc d) s0)"
  proof (cases "s = []")
    case False
    then have l: "length s1 < length s" "length (tl s1) < length s"
      using json_ws_length [of "tl s"] by (cases s; auto simp: s1_def)+
    have m: "shrinks s (members (json_value d) (length s) s1 [])"
      using l(1) members_shrinks [OF Suc.IH] by (intro shrinks_less [OF _ l(1)]) blast
    have e: "shrinks s (elements (json_value d) (length s) s1 [])"
      using l(1) elements_shrinks [OF Suc.IH] by (intro shrinks_less [OF _ l(1)]) blast
    have str: "shrinks s (case json_string s of Done v r \<Rightarrow> Done (JString v) r | Fail m \<Rightarrow> Fail m | NoFuel \<Rightarrow> NoFuel)"
      using json_string_shrinks [of s] by (cases "json_string s") simp_all
    have num: "shrinks s (case json_number s of Done v r \<Rightarrow> Done (JNumber v) r | Fail m \<Rightarrow> Fail m | NoFuel \<Rightarrow> NoFuel)"
      using json_number_shrinks [of s] by (cases "json_number s") simp_all
    have lits: "shrinks s (Done j r)" if "json_lit w s = Some r" "w \<noteq> []" for w r and j :: json
      using json_lit_length [OF that] by simp
    show ?thesis
      unfolding json_value.simps(2) [of d s0] Let_def s_def [symmetric] s1_def [symmetric]
      using m e str num l lits [of "''true''"] lits [of "''false''"] lits [of "''null''"] False
      by (auto split: option.split)
  qed (simp add: json_value.simps(2) s_def [symmetric])
  then show ?case by (rule shrinks_mono) (simp add: s_def json_ws_length)
qed simp

text \<open>Parsing returns on every input: a value or an error message.\<close>

lemma json_parse_returns: "json_parse input \<noteq> NoFuel"
  using json_value_shrinks [of input kMaxDepth] by (auto simp: json_parse_def split: outcome.splits)

section \<open>Escaped strings read back\<close>

lemma code_char_of [simp]: "n < 256 \<Longrightarrow> code (char_of n) = n"
  by (simp add: code_def of_char_of)

lemma char_of_code [simp]: "char_of (code c) = c"
  by (simp add: code_def)

lemma hex_digit_char: "n < 16 \<Longrightarrow> hex_digit (hex_char n) = Some n"
  by (auto simp: hex_digit_def hex_char_def)

lemma push_bit_OR: "d < 16 \<Longrightarrow> push_bit 4 v OR d = v * 16 + (d :: nat)"
proof -
  assume d: "d < 16"
  have t: "d = take_bit 4 d" using d by (simp add: take_bit_eq_mod)
  have dis: "\<not> bit (push_bit 4 v) n \<or> \<not> bit d n" for n
    by (subst t) (auto simp: bit_simps)
  show ?thesis using disjunctive_add [OF dis] by (simp add: push_bit_eq_mult)
qed

lemma unicode_escape_control:
  assumes "n < 32"
  shows "unicode_escape (hex_char 0 # hex_char 0 # hex_char (n div 16) # hex_char (n mod 16) # r) = Done n r"
proof -
  have "hex4 (hex_char 0 # hex_char 0 # hex_char (n div 16) # hex_char (n mod 16) # r) = Some n"
  proof -
    have b: "n div 16 < 16" "n mod 16 < 16" using assms by auto
    have four: "(4 :: nat) = Suc (Suc (Suc (Suc 0)))" by simp
    have "hex_loop 4 (hex_char 0 # hex_char 0 # hex_char (n div 16) # hex_char (n mod 16) # r) 0
        = Some (n div 16 * 16 + n mod 16)"
      by (subst four) (simp add: hex_digit_char b push_bit_OR [OF b(1)] push_bit_OR [OF b(2)])
    then show ?thesis by (simp add: hex4_def)
  qed
  then show ?thesis using assms by (simp add: unicode_escape_def Let_def)
qed

lemma string_loop_escape_char:
  "string_loop (escape_char c @ r) = emit [c] (string_loop r)"
proof (cases "c \<in> {CHR 0x22, CHR 0x5C, CHR 0x08, CHR 0x0C, CHR 0x0A, CHR 0x0D, CHR 0x09}")
  case True
  then show ?thesis
    by (auto simp: escape_char_def simple_escape_def string_loop.simps(2) code_def)
next
  case other: False
  show ?thesis
  proof (cases "code c < 0x20")
    case True
    have "append_utf8 (code c) = [c]" using True by (simp add: append_utf8_def)
    moreover have "unicode_escape (hex_char 0 # hex_char 0 # hex_char (code c div 16) # hex_char (code c mod 16) # r)
        = Done (code c) r"
      using unicode_escape_control [OF True] .
    ultimately show ?thesis
      using other True by (simp add: escape_char_def simple_escape_def string_loop.simps(2) code_def)
  next
    case False
    then show ?thesis using other by (simp add: escape_char_def string_loop.simps(2))
  qed
qed

lemma string_loop_escape:
  "string_loop (concat (map escape_char s) @ CHR 0x22 # r) = Done s r"
  by (induction s) (simp_all add: string_loop_escape_char string_loop.simps(2) emit_def)

lemma json_string_escape: "json_string (json_escape s @ r) = Done s r"
  by (simp add: json_string_def json_escape_def string_loop_escape)

section \<open>Documents\<close>

text \<open>
  The concrete syntax the parser must accept: numerals by the JSON grammar, strings as the
  escaper writes them, and any white space around values, keys and separators. \<open>render\<close> is the
  text of a document and \<open>meaning\<close> the value it denotes.
\<close>

record numeral_text =
  nt_neg :: bool
  nt_int :: string
  nt_frac :: "string option"
  nt_exp :: "(char \<times> string \<times> string) option"

definition digits_ok :: "string \<Rightarrow> bool" where
  "digits_ok ds \<longleftrightarrow> ds \<noteq> [] \<and> (\<forall>c \<in> set ds. is_digit c)"

definition numeral_ok :: "numeral_text \<Rightarrow> bool" where
  "numeral_ok t \<longleftrightarrow>
     digits_ok (nt_int t) \<and> (hd (nt_int t) = CHR ''0'' \<longrightarrow> length (nt_int t) = 1) \<and>
     (case nt_frac t of None \<Rightarrow> True | Some ds \<Rightarrow> digits_ok ds) \<and>
     (case nt_exp t of None \<Rightarrow> True
      | Some (e, sg, ds) \<Rightarrow> (e = CHR ''e'' \<or> e = CHR ''E'') \<and> sg \<in> {[], ''+'', ''-''} \<and> digits_ok ds)"

definition frac_text :: "numeral_text \<Rightarrow> string" where
  "frac_text t = (case nt_frac t of None \<Rightarrow> [] | Some ds \<Rightarrow> CHR ''.'' # ds)"

definition exp_text :: "numeral_text \<Rightarrow> string" where
  "exp_text t = (case nt_exp t of None \<Rightarrow> [] | Some (e, sg, ds) \<Rightarrow> e # sg @ ds)"

definition numeral_string :: "numeral_text \<Rightarrow> string" where
  "numeral_string t = (if nt_neg t then ''-'' else []) @ nt_int t @ frac_text t @ exp_text t"

datatype doc =
    DNull
  | DBool bool
  | DNumber numeral_text
  | DString string
  | DArray string "(string \<times> doc \<times> string) list"
  | DObject string "(string \<times> string \<times> string \<times> string \<times> doc \<times> string) list"

fun separated :: "string list \<Rightarrow> string" where
  "separated [] = []"
| "separated [x] = x"
| "separated (x # y # xs) = x @ CHR '','' # separated (y # xs)"

fun render :: "doc \<Rightarrow> string" where
  "render DNull = ''null''"
| "render (DBool b) = (if b then ''true'' else ''false'')"
| "render (DNumber t) = numeral_string t"
| "render (DString s) = json_escape s"
| "render (DArray w xs) =
     ''['' @ (if xs = [] then w else separated (map (\<lambda>(a, d, b). a @ render d @ b) xs)) @ '']''"
| "render (DObject w ms) =
     ''{'' @ (if ms = [] then w
             else separated (map (\<lambda>(a, k, b, c, d, e). a @ json_escape k @ b @ '':'' @ c @ render d @ e) ms)) @ ''}''"

fun meaning :: "doc \<Rightarrow> json" where
  "meaning DNull = JNull"
| "meaning (DBool b) = JBool b"
| "meaning (DNumber t) = JNumber (strtod (numeral_string t))"
| "meaning (DString s) = JString s"
| "meaning (DArray w xs) = JArray (map (\<lambda>(a, d, b). meaning d) xs)"
| "meaning (DObject w ms) = JObject (map (\<lambda>(a, k, b, c, d, e). (k, meaning d)) ms)"

fun nesting :: "doc \<Rightarrow> nat" where
  "nesting (DArray w xs) = 1 + Max (insert 0 (set (map (\<lambda>(a, d, b). nesting d) xs)))"
| "nesting (DObject w ms) = 1 + Max (insert 0 (set (map (\<lambda>(a, k, b, c, d, e). nesting d) ms)))"
| "nesting DNull = 1"
| "nesting (DBool b) = 1"
| "nesting (DNumber t) = 1"
| "nesting (DString s) = 1"

definition is_ws :: "char \<Rightarrow> bool" where
  "is_ws c \<longleftrightarrow> c = CHR '' '' \<or> c = CHR 0x09 \<or> c = CHR 0x0A \<or> c = CHR 0x0D"

definition blank :: "string \<Rightarrow> bool" where
  "blank w \<longleftrightarrow> (\<forall>c \<in> set w. is_ws c)"

fun doc_ok :: "doc \<Rightarrow> bool" where
  "doc_ok (DNumber t) \<longleftrightarrow> numeral_ok t"
| "doc_ok (DArray w xs) \<longleftrightarrow> blank w \<and> (\<forall>(a, d, b) \<in> set xs. blank a \<and> doc_ok d \<and> blank b)"
| "doc_ok (DObject w ms) \<longleftrightarrow>
     blank w \<and> (\<forall>(a, k, b, c, d, e) \<in> set ms. blank a \<and> blank b \<and> blank c \<and> doc_ok d \<and> blank e)"
| "doc_ok DNull \<longleftrightarrow> True"
| "doc_ok (DBool b) \<longleftrightarrow> True"
| "doc_ok (DString s) \<longleftrightarrow> True"

text \<open>What may come after a value: nothing, white space, or a separator.\<close>

definition follows :: "string \<Rightarrow> bool" where
  "follows r \<longleftrightarrow> r = [] \<or> is_ws (hd r) \<or> hd r \<in> {CHR '','', CHR '']'', CHR ''}''}"

lemma json_ws_blank [simp]: "blank w \<Longrightarrow> json_ws (w @ r) = json_ws r"
  by (induction w) (auto simp: blank_def is_ws_def)

lemma json_ws_stop: "r = [] \<or> \<not> is_ws (hd r) \<Longrightarrow> json_ws r = r"
  by (cases r) (auto simp: is_ws_def)

lemma json_ws_Cons [simp]: "\<not> is_ws c \<Longrightarrow> json_ws (c # r) = c # r"
  by (simp add: is_ws_def)

declare json_ws.simps(2) [simp del]

lemma follows_blank: "blank w \<Longrightarrow> follows r \<Longrightarrow> follows (w @ r)"
  by (cases w) (auto simp: follows_def blank_def)

lemma not_ws [simp]: "\<not> is_ws CHR ''['' " "\<not> is_ws CHR '']''" "\<not> is_ws CHR ''{''" "\<not> is_ws CHR ''}''"
  "\<not> is_ws CHR '',''" "\<not> is_ws CHR '':''" "\<not> is_ws CHR 0x22"
  by (simp_all add: is_ws_def)

lemma is_ws_code: "is_ws c \<Longrightarrow> code c \<in> {32, 9, 10, 13}"
  by (auto simp: is_ws_def code_def)

text \<open>No character that may follow a value continues a numeral.\<close>

lemma follows_stops:
  assumes "follows r" "r \<noteq> []"
  shows "\<not> is_digit (hd r) \<and> hd r \<notin> {CHR ''.'', CHR ''e'', CHR ''E''}"
  using assms by (auto simp: follows_def is_ws_def is_digit_def code_def)

lemma skip_digits_append:
  "\<forall>c \<in> set ds. is_digit c \<Longrightarrow> \<not> starts_digit r \<Longrightarrow> skip_digits (ds @ r) = r"
  by (cases r) (auto simp: skip_digits_def starts_digit_def)

lemma starts_digit_append: "digits_ok ds \<Longrightarrow> starts_digit (ds @ r)"
  by (cases ds) (auto simp: digits_ok_def starts_digit_def)

lemma follows_not_digit: "follows r \<Longrightarrow> \<not> starts_digit r"
  using follows_stops by (auto simp: starts_digit_def)

lemma exp_text_head:
  assumes "numeral_ok t" "follows r"
  shows "\<not> starts_digit (exp_text t @ r) \<and> (exp_text t @ r = [] \<or> hd (exp_text t @ r) \<noteq> CHR ''.'')"
proof (cases "nt_exp t")
  case None
  then show ?thesis
    using follows_stops [OF assms(2)] by (auto simp: exp_text_def starts_digit_def)
next
  case (Some x)
  then show ?thesis
    using assms(1) by (auto simp: exp_text_def numeral_ok_def starts_digit_def is_digit_def code_def)
qed

lemma scan_exp_text:
  assumes "numeral_ok t" "follows r"
  shows "scan_exp (exp_text t @ r) = Some r"
proof (cases "nt_exp t")
  case None
  then show ?thesis
    using follows_stops [OF assms(2)] by (auto simp: exp_text_def scan_exp_def)
next
  case (Some x)
  obtain e sg ds where x: "x = (e, sg, ds)" by (cases x)
  have e: "e = CHR ''e'' \<or> e = CHR ''E''" "sg \<in> {[], ''+'', ''-''}" "digits_ok ds"
    using assms(1) Some x by (auto simp: numeral_ok_def)
  obtain c cs where ds: "ds = c # cs" "is_digit c" using e(3) by (cases ds) (auto simp: digits_ok_def)
  have c: "c \<noteq> CHR ''+''" "c \<noteq> CHR ''-''" using ds(2) by (auto simp: is_digit_def code_def)
  have sk: "skip_digits (ds @ r) = r"
    using e(3) follows_not_digit [OF assms(2)] by (intro skip_digits_append) (auto simp: digits_ok_def)
  have st: "starts_digit (ds @ r)" using e(3) by (rule starts_digit_append)
  have shape: "exp_text t @ r = e # sg @ ds @ r" using Some x by (simp add: exp_text_def)
  from e(2) consider "sg = []" | "sg = ''+''" | "sg = ''-''" by blast
  then show ?thesis
    using e(1) c sk st unfolding shape ds(1) by cases (auto simp: scan_exp_def)
qed

lemma scan_frac_text:
  assumes "numeral_ok t" "follows r"
  shows "scan_frac (frac_text t @ exp_text t @ r) = Some (exp_text t @ r)"
proof (cases "nt_frac t")
  case None
  then show ?thesis using exp_text_head [OF assms] by (auto simp: frac_text_def scan_frac_def)
next
  case (Some ds)
  then have "digits_ok ds" using assms(1) by (simp add: numeral_ok_def)
  then show ?thesis
    using Some exp_text_head [OF assms] starts_digit_append [of ds "exp_text t @ r"]
    by (simp add: frac_text_def scan_frac_def skip_digits_append digits_ok_def)
qed

lemma frac_text_head:
  assumes "numeral_ok t" "follows r"
  shows "\<not> starts_digit (frac_text t @ exp_text t @ r)"
  using exp_text_head [OF assms]
  by (cases "nt_frac t") (auto simp: frac_text_def starts_digit_def is_digit_def code_def)

lemma scan_int_text:
  assumes "numeral_ok t" "follows r"
  shows "scan_int (numeral_string t @ r) = Some (frac_text t @ exp_text t @ r)"
proof -
  let ?z = "frac_text t @ exp_text t @ r"
  obtain c cs where i: "nt_int t = c # cs" "is_digit c" "\<forall>d \<in> set cs. is_digit d"
    "c = CHR ''0'' \<Longrightarrow> cs = []"
    using assms(1) by (cases "nt_int t") (auto simp: numeral_ok_def digits_ok_def)
  have m: "c \<noteq> CHR ''-''" using i(2) by (auto simp: is_digit_def code_def)
  have "skip_digits (c # cs @ ?z) = ?z"
    using skip_digits_append [of "c # cs" ?z] i frac_text_head [OF assms] by simp
  then show ?thesis
    using i m by (auto simp: scan_int_def numeral_string_def starts_digit_def Let_def)
qed

lemma json_number_text:
  assumes "numeral_ok t" "follows r"
  shows "json_number (numeral_string t @ r) = Done (strtod (numeral_string t)) r"
  using scan_int_text [OF assms] scan_frac_text [OF assms] scan_exp_text [OF assms]
  by (simp add: json_number_def)

lemma numeral_head:
  assumes "numeral_ok t"
  obtains c s where "numeral_string t = c # s" "is_digit c \<or> c = CHR ''-''"
proof -
  obtain c cs where "nt_int t = c # cs" "is_digit c"
    using assms by (cases "nt_int t") (auto simp: numeral_ok_def digits_ok_def)
  then show ?thesis using that by (cases "nt_neg t") (simp_all add: numeral_string_def)
qed

lemma json_value_simps [simp]:
  "json_value (Suc d) (CHR 0x22 # s) =
     (case json_string (CHR 0x22 # s) of Done v r \<Rightarrow> Done (JString v) r | Fail m \<Rightarrow> Fail m | NoFuel \<Rightarrow> NoFuel)"
  "json_value (Suc d) (CHR ''['' # s) =
     (let s1 = json_ws s
      in if s1 \<noteq> [] \<and> hd s1 = CHR '']'' then Done (JArray []) (tl s1)
         else elements (json_value d) (Suc (length s)) s1 [])"
  "json_value (Suc d) (CHR ''{'' # s) =
     (let s1 = json_ws s
      in if s1 \<noteq> [] \<and> hd s1 = CHR ''}'' then Done (JObject []) (tl s1)
         else members (json_value d) (Suc (length s)) s1 [])"
  by (simp_all add: json_value.simps(2) Let_def)

lemma json_value_blank: "blank w \<Longrightarrow> json_value d (w @ s) = json_value d s"
  by (cases d) (simp_all add: json_value.simps(2))

lemma json_value_numeral:
  assumes "numeral_ok t" "follows r"
  shows "json_value (Suc d) (numeral_string t @ r) = Done (JNumber (strtod (numeral_string t))) r"
proof -
  obtain c s where n: "numeral_string t = c # s" "is_digit c \<or> c = CHR ''-''"
    using numeral_head [OF assms(1)] .
  then have "45 \<le> code c" "code c \<le> 57" by (auto simp: is_digit_def code_def)
  then have "c \<notin> {CHR '' '', CHR 0x09, CHR 0x0A, CHR 0x0D, CHR ''{'', CHR ''['', CHR 0x22, CHR ''t'', CHR ''f'', CHR ''n''}"
    by (auto simp: code_def)
  then show ?thesis
    using json_number_text [OF assms] n
    by (simp add: json_value.simps(2) json_lit_def Let_def is_ws_def)
qed

text \<open>The element and member loops over a rendered list, given that the values read back.\<close>

definition reads :: "(string \<Rightarrow> json outcome) \<Rightarrow> doc \<Rightarrow> bool" where
  "reads val d \<longleftrightarrow> (\<forall>r. follows r \<longrightarrow> val (render d @ r) = Done (meaning d) r)"

lemma follows_sep [simp]: "follows (CHR '','' # r)" "follows (CHR '']'' # r)" "follows (CHR ''}'' # r)"
  by (simp_all add: follows_def)

definition item_text :: "string \<times> doc \<times> string \<Rightarrow> string" where
  "item_text x = (case x of (a, d, b) \<Rightarrow> a @ render d @ b)"

definition member_text :: "string \<times> string \<times> string \<times> string \<times> doc \<times> string \<Rightarrow> string" where
  "member_text x = (case x of (a, k, b, c, d, e) \<Rightarrow> a @ json_escape k @ b @ CHR '':'' # c @ render d @ e)"

lemma elements_read:
  assumes ws: "\<And>w s. blank w \<Longrightarrow> val (w @ s) = val s"
    and xs: "xs \<noteq> []" "\<forall>(a, d, b) \<in> set xs. blank a \<and> reads val d \<and> blank b" "length xs \<le> fuel"
  shows "elements val fuel (separated (map item_text xs) @ CHR '']'' # r) acc =
    Done (JArray (acc @ map (\<lambda>(a, d, b). meaning d) xs)) r"
  using xs
proof (induction xs arbitrary: fuel acc rule: induct_list012)
  case (2 x)
  obtain a d b where x: "x = (a, d, b)" by (cases x)
  obtain f where f: "fuel = Suc f" using 2 by (cases fuel) auto
  have "val (render d @ b @ CHR '']'' # r) = Done (meaning d) (b @ CHR '']'' # r)"
    using 2 x follows_blank [of b] by (auto simp: reads_def)
  then show ?case using 2 x f ws by (simp add: item_text_def Let_def)
next
  case (3 x y zs)
  obtain a d b where x: "x = (a, d, b)" by (cases x)
  obtain f where f: "fuel = Suc f" using 3 by (cases fuel) auto
  let ?z = "separated (map item_text (y # zs)) @ CHR '']'' # r"
  have "val (render d @ b @ CHR '','' # ?z) = Done (meaning d) (b @ CHR '','' # ?z)"
    using 3(4) x follows_blank [of b] by (auto simp: reads_def)
  moreover have "elements val f ?z (acc @ [meaning d]) =
      Done (JArray ((acc @ [meaning d]) @ map (\<lambda>(a, d, b). meaning d) (y # zs))) r"
    using 3(4,5) f by (intro 3(2)) auto
  moreover have "separated (map item_text (x # y # zs)) @ CHR '']'' # r = a @ render d @ b @ CHR '','' # ?z"
    by (simp add: x item_text_def)
  ultimately show ?case using 3(4) x f ws by (simp add: Let_def del: separated.simps)
qed simp

lemma members_read:
  assumes ws: "\<And>w s. blank w \<Longrightarrow> val (w @ s) = val s"
    and xs: "ms \<noteq> []"
      "\<forall>(a, k, b, c, d, e) \<in> set ms. blank a \<and> blank b \<and> blank c \<and> reads val d \<and> blank e"
      "length ms \<le> fuel"
  shows "members val fuel (separated (map member_text ms) @ CHR ''}'' # r) acc =
    Done (JObject (acc @ map (\<lambda>(a, k, b, c, d, e). (k, meaning d)) ms)) r"
  using xs
proof (induction ms arbitrary: fuel acc rule: induct_list012)
  case (2 x)
  obtain a k b c d e where x: "x = (a, k, b, c, d, e)" by (cases x)
  obtain f where f: "fuel = Suc f" using 2 by (cases fuel) auto
  have "val (render d @ e @ CHR ''}'' # r) = Done (meaning d) (e @ CHR ''}'' # r)"
    using 2 x follows_blank [of e] by (auto simp: reads_def)
  moreover have "json_ws (json_escape k @ s) = json_escape k @ s" for s
    by (simp add: json_escape_def)
  ultimately show ?case using 2 x f ws by (simp add: member_text_def Let_def json_string_escape)
next
  case (3 x y zs)
  obtain a k b c d e where x: "x = (a, k, b, c, d, e)" by (cases x)
  obtain f where f: "fuel = Suc f" using 3 by (cases fuel) auto
  let ?z = "separated (map member_text (y # zs)) @ CHR ''}'' # r"
  have "val (render d @ e @ CHR '','' # ?z) = Done (meaning d) (e @ CHR '','' # ?z)"
    using 3(4) x follows_blank [of e] by (auto simp: reads_def)
  moreover have "json_ws (json_escape k @ s) = json_escape k @ s" for s
    by (simp add: json_escape_def)
  moreover have "members val f ?z (acc @ [(k, meaning d)]) =
      Done (JObject ((acc @ [(k, meaning d)]) @ map (\<lambda>(a, k, b, c, d, e). (k, meaning d)) (y # zs))) r"
    using 3(4,5) f by (intro 3(2)) auto
  moreover have "separated (map member_text (x # y # zs)) @ CHR ''}'' # r =
      a @ json_escape k @ b @ CHR '':'' # c @ render d @ e @ CHR '','' # ?z"
    by (simp add: x member_text_def)
  ultimately show ?case
    using 3(4) x f ws by (simp add: Let_def json_string_escape del: separated.simps)
qed simp

lemma separated_length: "\<forall>x \<in> set xs. x \<noteq> [] \<Longrightarrow> length xs \<le> length (separated xs)"
  by (induction xs rule: separated.induct) (auto simp: Suc_le_eq)

lemma render_head:
  assumes "doc_ok d"
  obtains c s where "render d = c # s" "\<not> is_ws c" "c \<noteq> CHR '']''"
proof (cases d)
  case (DNumber t)
  then obtain c s where n: "numeral_string t = c # s" "is_digit c \<or> c = CHR ''-''"
    using numeral_head assms by (metis doc_ok.simps(1))
  then have "45 \<le> code c" "code c \<le> 57" by (auto simp: is_digit_def code_def)
  then have "\<not> is_ws c" "c \<noteq> CHR '']''" by (auto simp: is_ws_def code_def)
  then show ?thesis using n(1) DNumber by (intro that) simp_all
next
  case (DBool b)
  then show ?thesis by (cases b) (simp_all add: that is_ws_def)
qed (simp_all add: that is_ws_def json_escape_def)

lemma separated_head: "x \<noteq> [] \<Longrightarrow> hd (separated (x # xs) @ s) = hd x \<and> separated (x # xs) \<noteq> []"
  by (cases xs) auto

lemma json_ws_idem [simp]: "json_ws (json_ws s) = json_ws s"
  by (induction s) (simp_all add: json_ws.simps(2))

lemma json_value_ws: "json_value n (json_ws s) = json_value n s"
  by (cases n) (simp_all add: json_value.simps(2))

lemma elements_ws:
  "(\<And>s. val (json_ws s) = val s) \<Longrightarrow> elements val (Suc f) (json_ws s) acc = elements val (Suc f) s acc"
  by simp

lemma members_ws: "members val (Suc f) (json_ws s) acc = members val (Suc f) s acc"
  by simp

lemma render_ne: "doc_ok d \<Longrightarrow> render d \<noteq> []"
  using render_head [of d] by fastforce

text \<open>Every document whose nesting the limit allows is read back as its meaning.\<close>

lemma json_value_reads: "doc_ok d \<Longrightarrow> nesting d \<le> n \<Longrightarrow> reads (json_value n) d"
proof (induction n arbitrary: d)
  case 0
  then show ?case by (cases d) auto
next
  case (Suc n)
  show ?case
    unfolding reads_def
  proof (intro allI impI)
    fix r assume r: "follows r"
    show "json_value (Suc n) (render d @ r) = Done (meaning d) r"
    proof (cases d)
      case DNull
      then show ?thesis by (simp add: json_value.simps(2) json_lit_def is_ws_def)
    next
      case (DBool b)
      then show ?thesis by (simp add: json_value.simps(2) json_lit_def is_ws_def)
    next
      case (DNumber t)
      then show ?thesis using json_value_numeral Suc.prems(1) r by simp
    next
      case (DString s)
      then show ?thesis using json_string_escape [of s r] by (simp add: json_escape_def)
    next
      case (DArray w xs)
      show ?thesis
      proof (cases "xs = []")
        case True
        then show ?thesis using DArray Suc.prems(1) by simp
      next
        case False
        have it: "blank a \<and> doc_ok e \<and> nesting e \<le> n \<and> blank b" if "(a, e, b) \<in> set xs" for a e b
        proof -
          have "nesting e \<le> Max (insert 0 (set (map (\<lambda>(a, d, b). nesting d) xs)))"
            using that by (intro Max_ge) force+
          then show ?thesis using Suc.prems DArray that by auto
        qed
        obtain a e b ys where xs: "xs = (a, e, b) # ys" using False by (cases xs) auto
        have e: "blank a" "doc_ok e" using it [of a e b] xs by auto
        obtain c s where c: "render e = c # s" "\<not> is_ws c" "c \<noteq> CHR '']''"
          using render_head [OF e(2)] .
        let ?t = "separated (map item_text xs) @ CHR '']'' # r"
        have h: "json_ws ?t \<noteq> [] \<and> hd (json_ws ?t) \<noteq> CHR '']''"
          using e(1) c xs by (cases ys) (simp_all add: item_text_def)
        have ne: "\<forall>x \<in> set (map item_text xs). x \<noteq> []"
          using it render_ne by (force simp: item_text_def)
        have "\<forall>(a, e, b) \<in> set xs. blank a \<and> reads (json_value n) e \<and> blank b"
          using it Suc.IH by blast
        then have "elements (json_value n) (Suc (length ?t)) ?t [] =
            Done (JArray ([] @ map (\<lambda>(a, d, b). meaning d) xs)) r"
          using False separated_length [OF ne]
          by (intro elements_read) (auto simp: json_value_blank)
        then have "elements (json_value n) (Suc (length ?t)) (json_ws ?t) [] =
            Done (JArray (map (\<lambda>(a, d, b). meaning d) xs)) r"
          by (subst elements_ws) (simp_all add: json_value_ws)
        moreover have "render d @ r = CHR ''['' # ?t"
          using DArray False by (simp add: item_text_def [abs_def])
        ultimately show ?thesis using h DArray by (simp add: Let_def)
      qed
    next
      case (DObject w ms)
      show ?thesis
      proof (cases "ms = []")
        case True
        then show ?thesis using DObject Suc.prems(1) by simp
      next
        case False
        have it: "blank a \<and> blank b \<and> blank c \<and> doc_ok e \<and> nesting e \<le> n \<and> blank f"
          if "(a, k, b, c, e, f) \<in> set ms" for a k b c e f
        proof -
          have "nesting e \<le> Max (insert 0 (set (map (\<lambda>(a, k, b, c, d, e). nesting d) ms)))"
            using that by (intro Max_ge) force+
          then show ?thesis using Suc.prems DObject that by auto
        qed
        obtain a k b c e f ys where ms: "ms = (a, k, b, c, e, f) # ys" using False by (cases ms) auto
        have a: "blank a" using it [of a k b c e f] ms by auto
        let ?t = "separated (map member_text ms) @ CHR ''}'' # r"
        have h: "json_ws ?t \<noteq> [] \<and> hd (json_ws ?t) \<noteq> CHR ''}''"
          using a ms by (cases ys) (simp_all add: member_text_def json_escape_def)
        have ne: "\<forall>x \<in> set (map member_text ms). x \<noteq> []"
          by (auto simp: member_text_def)
        have "\<forall>(a, k, b, c, e, f) \<in> set ms. blank a \<and> blank b \<and> blank c \<and> reads (json_value n) e \<and> blank f"
          using it Suc.IH by blast
        then have "members (json_value n) (Suc (length ?t)) ?t [] =
            Done (JObject ([] @ map (\<lambda>(a, k, b, c, d, e). (k, meaning d)) ms)) r"
          using False separated_length [OF ne]
          by (intro members_read) (auto simp: json_value_blank)
        then have "members (json_value n) (Suc (length ?t)) (json_ws ?t) [] =
            Done (JObject (map (\<lambda>(a, k, b, c, d, e). (k, meaning d)) ms)) r"
          by (subst members_ws) simp
        moreover have "render d @ r = CHR ''{'' # ?t"
          using DObject False by (simp add: member_text_def [abs_def])
        ultimately show ?thesis using h DObject by (simp add: Let_def)
      qed
    qed
  qed
qed

text \<open>An input that opens more than the allowed number of arrays is refused.\<close>

lemma json_value_too_deep: "n < k \<Longrightarrow> json_value n (replicate k CHR ''['' @ s) = Fail ''nesting too deep''"
proof (induction n arbitrary: k)
  case (Suc n)
  then obtain j i where k: "k = Suc j" "j = Suc i" by (cases k; cases "k - 1") auto
  let ?s = "replicate j CHR ''['' @ s"
  have "json_value n ?s = Fail ''nesting too deep''" using Suc.IH [of j] Suc.prems k(1) by simp
  then show ?case using k by (simp add: Let_def)
qed simp

section \<open>Properties\<close>

text \<open>Escaping any byte string and parsing the result gives the string back: quotes,
  backslashes, control characters and bytes above 127 included.\<close>

lemma json_escape_roundtrip: "json_parse (json_escape s) = Done (JString s) []"
proof -
  have "json_value kMaxDepth (json_escape s) = Done (JString s) []"
    using json_string_escape [of s "[]"] by (simp add: kMaxDepth_def eval_nat_numeral json_escape_def)
  then show ?thesis by (simp add: json_parse_def)
qed



text \<open>Parsing returns on every input, with a value only when nothing but white space is left
  over, and an input that opens more than \<open>kMaxDepth\<close> arrays is refused however it goes on.\<close>

lemma json_parse_total:
  "json_parse input \<noteq> NoFuel \<and> (\<forall>j r. json_parse input = Done j r \<longrightarrow> r = []) \<and>
   (kMaxDepth < k \<longrightarrow> json_parse (replicate k CHR ''['' @ input) = Fail ''nesting too deep'')"
proof -
  have "json_parse input = Done j r \<Longrightarrow> r = []" for j r
    by (auto simp: json_parse_def split: outcome.splits if_splits)
  moreover have "kMaxDepth < k \<Longrightarrow> json_parse (replicate k CHR ''['' @ input) = Fail ''nesting too deep''"
    using json_value_too_deep [of kMaxDepth k input] by (simp add: json_parse_def)
  ultimately show ?thesis using json_parse_returns by blast
qed

lemma json_parse_total_witness:
  "json_parse (replicate 65 CHR ''['' @ ''1'') = Fail ''nesting too deep''"
  using json_parse_total [of "''1''" 65] by (simp add: kMaxDepth_def)

end
