(* ===== verification/Bytes.thy ===== *)
theory Bytes
  imports Prelude "HOL-Library.Word"
begin

unbundle bit_operations_syntax

text \<open>
  The explicit little-endian codec of \<^verbatim>\<open>include/safetrail/util/bytes.hpp\<close>, on lists of
  8-bit words. Writers append to the buffer. A reader is the data and an offset; every getter
  returns the value and the advanced reader, or \<open>None\<close> and the reader stays where it was. The
  accessors of doubles, a memcpy of the IEEE bit pattern, are left out: coordinates are exact
  reals here.
\<close>

type_synonym byte = "8 word"

definition put_u8 :: "byte list \<Rightarrow> byte \<Rightarrow> byte list" where
  "put_u8 b v = b @ [v]"

definition put_u32 :: "byte list \<Rightarrow> 32 word \<Rightarrow> byte list" where
  "put_u32 b v = b @ [ucast v, ucast (drop_bit 8 v), ucast (drop_bit 16 v), ucast (drop_bit 24 v)]"

definition put_u64 :: "byte list \<Rightarrow> 64 word \<Rightarrow> byte list" where
  "put_u64 b v = foldl (\<lambda>b i. b @ [ucast (drop_bit (8 * i) v)]) b [0..<8]"

definition put_i64 :: "byte list \<Rightarrow> int \<Rightarrow> byte list" where
  "put_i64 b v = put_u64 b (word_of_int v)"

record reader =
  rd_data :: "byte list"
  rd_off :: nat

definition reader_of :: "byte list \<Rightarrow> reader" where
  "reader_of d = \<lparr>rd_data = d, rd_off = 0\<rparr>"

definition remaining :: "reader \<Rightarrow> nat" where
  "remaining r = length (rd_data r) - rd_off r"

definition at_end :: "reader \<Rightarrow> bool" where
  "at_end r \<longleftrightarrow> rd_off r = length (rd_data r)"

definition have_bytes :: "reader \<Rightarrow> nat \<Rightarrow> bool" where
  "have_bytes r n \<longleftrightarrow> remaining r \<ge> n"

definition rd_u8 :: "reader \<Rightarrow> (byte \<times> reader) option" where
  "rd_u8 r = (if \<not> have_bytes r 1 then None
              else Some (rd_data r ! rd_off r, r\<lparr>rd_off := rd_off r + 1\<rparr>))"

definition rd_u32 :: "reader \<Rightarrow> (32 word \<times> reader) option" where
  "rd_u32 r =
     (if \<not> have_bytes r 4 then None
      else let d = rd_data r; o1 = rd_off r
           in Some (ucast (d ! o1) OR push_bit 8 (ucast (d ! (o1 + 1))) OR
                    push_bit 16 (ucast (d ! (o1 + 2))) OR push_bit 24 (ucast (d ! (o1 + 3))),
                    r\<lparr>rd_off := o1 + 4\<rparr>))"

definition rd_u64 :: "reader \<Rightarrow> (64 word \<times> reader) option" where
  "rd_u64 r =
     (if \<not> have_bytes r 8 then None
      else Some (foldl (\<lambda>v i. v OR push_bit (8 * i) (ucast (rd_data r ! (rd_off r + i)))) 0 [0..<8],
                 r\<lparr>rd_off := rd_off r + 8\<rparr>))"

definition rd_i64 :: "reader \<Rightarrow> (int \<times> reader) option" where
  "rd_i64 r = (case rd_u64 r of None \<Rightarrow> None | Some (v, r') \<Rightarrow> Some (sint v, r'))"

definition rd_bytes :: "reader \<Rightarrow> nat \<Rightarrow> (byte list \<times> reader) option" where
  "rd_bytes r n =
     (if \<not> have_bytes r n then None
      else Some (take n (drop (rd_off r) (rd_data r)), r\<lparr>rd_off := rd_off r + n\<rparr>))"

section \<open>What is left to read\<close>

definition rest_of :: "reader \<Rightarrow> byte list" where
  "rest_of r = drop (rd_off r) (rd_data r)"

lemma rest_of_reader [simp]: "rest_of (reader_of d) = d"
  by (simp add: rest_of_def reader_of_def)

lemma have_bytes_rest: "have_bytes r n \<longleftrightarrow> n \<le> length (rest_of r)"
  by (simp add: have_bytes_def remaining_def rest_of_def)

lemma rest_nth: "i < length (rest_of r) \<Longrightarrow> rd_data r ! (rd_off r + i) = rest_of r ! i"
  by (simp add: rest_of_def)

lemma rest_advance [simp]: "rest_of (r\<lparr>rd_off := rd_off r + n\<rparr>) = drop n (rest_of r)"
  by (simp add: rest_of_def add.commute)

text \<open>The offset never runs past the end.\<close>

definition in_range :: "reader \<Rightarrow> bool" where
  "in_range r \<longleftrightarrow> rd_off r \<le> length (rd_data r)"

lemma in_range_reader [simp]: "in_range (reader_of d)"
  by (simp add: in_range_def reader_of_def)

lemma at_end_rest: "in_range r \<Longrightarrow> at_end r \<longleftrightarrow> rest_of r = []"
  by (auto simp: at_end_def rest_of_def in_range_def)

lemma in_range_advance: "in_range r \<Longrightarrow> have_bytes r n \<Longrightarrow> in_range (r\<lparr>rd_off := rd_off r + n\<rparr>)"
  by (simp add: in_range_def have_bytes_def remaining_def)

definition le32 :: "32 word \<Rightarrow> byte list" where
  "le32 v = put_u32 [] v"

definition le64 :: "64 word \<Rightarrow> byte list" where
  "le64 v = put_u64 [] v"

lemma put_u32_append: "put_u32 b v = b @ le32 v"
  by (simp add: le32_def put_u32_def)

lemma upt_8: "[0..<8] = [0, 1, 2, 3, 4, 5, 6, 7 :: nat]"
  by (simp add: upt_rec)

lemma put_u64_append: "put_u64 b v = b @ le64 v"
  unfolding le64_def put_u64_def upt_8 by simp

lemma length_le [simp]: "length (le32 v) = 4" "length (le64 w) = 8"
  unfolding le32_def put_u32_def le64_def put_u64_def upt_8 by simp_all

lemma ucast_byte_bits: "bit (ucast (ucast v :: byte) :: 'a::len word) n \<longleftrightarrow> bit v n \<and> n < 8 \<and> n < LENGTH('a)"
  for v :: "'b::len word"
  by (auto simp: bit_simps dest: bit_imp_le_length)

text \<open>Byte i of a word, shifted back to its place, is the word's bits from 8 i up to 8 i + 7.\<close>

definition byte_at :: "nat \<Rightarrow> 'a::len word \<Rightarrow> 'a word" where
  "byte_at i v = push_bit (8 * i) (ucast (ucast (drop_bit (8 * i) v) :: byte))"

lemma byte_at_bit: "bit (byte_at i v) n \<longleftrightarrow> bit v n \<and> 8 * i \<le> n \<and> n < 8 * i + 8"
  unfolding byte_at_def bit_push_bit_iff ucast_byte_bits bit_drop_bit_eq
  by (auto dest: bit_imp_le_length)

lemma byte_at_bit_div: "bit (byte_at i v) n \<longleftrightarrow> bit v n \<and> n div 8 = i"
  unfolding byte_at_bit by auto

lemma bytes_or_4:
  "byte_at 0 v OR byte_at 1 v OR byte_at 2 v OR byte_at 3 v = (v :: 32 word)"
proof (rule bit_word_eqI)
  fix n assume "n < LENGTH(32)"
  then have "n div 8 < 4" by simp
  then have "n div 8 \<in> {0, 1, 2, 3}" by auto
  then show "bit (byte_at 0 v OR byte_at 1 v OR byte_at 2 v OR byte_at 3 v) n \<longleftrightarrow> bit v n"
    unfolding bit_or_iff byte_at_bit_div by blast
qed

lemma bytes_or_8:
  "0 OR byte_at 0 v OR byte_at 1 v OR byte_at 2 v OR byte_at 3 v OR
   byte_at 4 v OR byte_at 5 v OR byte_at 6 v OR byte_at 7 v = (v :: 64 word)"
proof (rule bit_word_eqI)
  fix n assume "n < LENGTH(64)"
  then have "n div 8 < 8" by simp
  then have "n div 8 \<in> {0, 1, 2, 3, 4, 5, 6, 7}" by auto
  then show "bit (0 OR byte_at 0 v OR byte_at 1 v OR byte_at 2 v OR byte_at 3 v OR
      byte_at 4 v OR byte_at 5 v OR byte_at 6 v OR byte_at 7 v) n \<longleftrightarrow> bit v n"
    unfolding bit_or_iff byte_at_bit_div by (simp only: bit_0_eq bot_apply bot_bool_def) blast
qed

section \<open>Reading back what was written\<close>

lemma rd_u32_put:
  assumes "rest_of r = le32 v @ s"
  shows "\<exists>r'. rd_u32 r = Some (v, r') \<and> rest_of r' = s \<and> (in_range r \<longrightarrow> in_range r')"
proof -
  have h: "have_bytes r 4" by (simp add: have_bytes_rest assms)
  let ?d = "rd_data r" and ?o = "rd_off r"
  have n: "?d ! (?o + i) = le32 v ! i" if "i < 4" for i
    using that rest_nth [of i r] by (simp add: assms nth_append)
  have b: "?d ! ?o = ucast v" "?d ! (?o + 1) = ucast (drop_bit 8 v)"
    "?d ! (?o + 2) = ucast (drop_bit 16 v)" "?d ! (?o + 3) = ucast (drop_bit 24 v)"
    using n [of 0] n [of 1] n [of 2] n [of 3] by (simp_all add: le32_def put_u32_def)
  have "ucast (?d ! ?o) OR push_bit 8 (ucast (?d ! (?o + 1))) OR
        push_bit 16 (ucast (?d ! (?o + 2))) OR push_bit 24 (ucast (?d ! (?o + 3))) = v"
    unfolding b using bytes_or_4 [of v] by (simp add: byte_at_def)
  then have "rd_u32 r = Some (v, r\<lparr>rd_off := ?o + 4\<rparr>)"
    using h by (simp add: rd_u32_def Let_def)
  then show ?thesis using assms in_range_advance [OF _ h] by auto
qed

lemma rd_u64_put:
  assumes "rest_of r = le64 v @ s"
  shows "\<exists>r'. rd_u64 r = Some (v, r') \<and> rest_of r' = s \<and> (in_range r \<longrightarrow> in_range r')"
proof -
  have h: "have_bytes r 8" by (simp add: have_bytes_rest assms)
  have n: "rd_data r ! (rd_off r + i) = le64 v ! i" if "i < 8" for i
    using that rest_nth [of i r] by (simp add: assms nth_append)
  have b: "le64 v ! i = ucast (drop_bit (8 * i) v)" if "i < 8" for i
  proof -
    have "i \<in> {0, 1, 2, 3, 4, 5, 6, 7}" using that by auto
    then show ?thesis unfolding le64_def put_u64_def upt_8 by auto
  qed
  have "foldl (\<lambda>w i. w OR push_bit (8 * i) (ucast (rd_data r ! (rd_off r + i)))) 0 [0..<8] =
      foldl (\<lambda>w i. w OR byte_at i v) 0 [0..<8]"
    by (rule foldl_cong) (auto simp: n b byte_at_def)
  also have "\<dots> = v" unfolding upt_8 using bytes_or_8 [of v] by (simp add: or.assoc)
  finally have "rd_u64 r = Some (v, r\<lparr>rd_off := rd_off r + 8\<rparr>)"
    using h by (simp add: rd_u64_def)
  then show ?thesis using assms in_range_advance [OF _ h] by auto
qed

lemma rd_bytes_put:
  assumes "rest_of r = bs @ s"
  shows "\<exists>r'. rd_bytes r (length bs) = Some (bs, r') \<and> rest_of r' = s \<and> (in_range r \<longrightarrow> in_range r')"
proof -
  have h: "have_bytes r (length bs)" by (simp add: have_bytes_rest assms)
  have "rd_bytes r (length bs) = Some (bs, r\<lparr>rd_off := rd_off r + length bs\<rparr>)"
    using h assms by (simp add: rd_bytes_def rest_of_def [symmetric])
  then show ?thesis using assms in_range_advance [OF _ h] by auto
qed

lemma sint_word_of_int:
  assumes "int64_min \<le> v" "v \<le> int64_max"
  shows "sint (word_of_int v :: 64 word) = v"
proof -
  have "signed_take_bit 63 v = v"
    using assms by (intro signed_take_bit_int_eq_self) (auto simp: int64_min_def int64_max_def)
  then show ?thesis by (simp add: sint_sbintrunc')
qed

lemma rd_i64_put:
  assumes "rest_of r = le64 (word_of_int v) @ s" "int64_min \<le> v" "v \<le> int64_max"
  shows "\<exists>r'. rd_i64 r = Some (v, r') \<and> rest_of r' = s \<and> (in_range r \<longrightarrow> in_range r')"
  using rd_u64_put [OF assms(1)] sint_word_of_int [OF assms(2,3)] by (auto simp: rd_i64_def)

lemma put_i64_append: "put_i64 b v = b @ le64 (word_of_int v)"
  by (simp add: put_i64_def put_u64_append)

section \<open>Decoding is the only reading\<close>

text \<open>Shifted bytes do not overlap, so what a getter reads encodes back to the bytes it read.\<close>

lemma bit_place: "bit (push_bit (8 * j) (ucast b) :: 'a::len word) n \<longleftrightarrow> n div 8 = j \<and> bit b (n mod 8) \<and> n < LENGTH('a)"
  for b :: byte
proof -
  have "bit b (n - 8 * j) \<and> 8 * j \<le> n \<longleftrightarrow> n div 8 = j \<and> bit b (n mod 8)"
  proof
    assume a: "bit b (n - 8 * j) \<and> 8 * j \<le> n"
    then obtain k where n: "n = 8 * j + k" using le_Suc_ex by blast
    then have "bit b k" using a by simp
    moreover from this have "k < 8" by (auto dest: bit_imp_le_length)
    ultimately show "n div 8 = j \<and> bit b (n mod 8)" using n by simp
  next
    assume a: "n div 8 = j \<and> bit b (n mod 8)"
    moreover have "n - 8 * (n div 8) = n mod 8" "8 * (n div 8) \<le> n" by (simp_all add: minus_mult_div_eq_mod)
    ultimately show "bit b (n - 8 * j) \<and> 8 * j \<le> n" by metis
  qed
  then show ?thesis by (auto simp: bit_push_bit_iff bit_ucast_iff)
qed

lemma byte_of_place:
  fixes v :: "'a::len word" and b :: byte
  assumes "\<And>n. n < LENGTH('a) \<Longrightarrow> n div 8 = i \<Longrightarrow> bit v n \<longleftrightarrow> bit b (n mod 8)" "8 * i + 8 \<le> LENGTH('a)"
  shows "ucast (drop_bit (8 * i) v) = b"
proof (rule bit_word_eqI)
  fix k assume "k < LENGTH(8)"
  then have k: "k < 8" by simp
  then have "(8 * i + k) div 8 = i" "(8 * i + k) mod 8 = k" "8 * i + k < LENGTH('a)" using assms(2) by auto
  then show "bit (ucast (drop_bit (8 * i) v) :: byte) k \<longleftrightarrow> bit b k"
    using assms(1) [of "8 * i + k"] k by (simp add: bit_ucast_iff bit_drop_bit_eq)
qed

lemma rd_u64_bytes:
  assumes "rd_u64 r = Some (v, r')"
  shows "rest_of r = le64 v @ rest_of r' \<and> (in_range r \<longrightarrow> in_range r')"
proof -
  have h: "have_bytes r 8" and r': "r' = r\<lparr>rd_off := rd_off r + 8\<rparr>"
    and v: "v = foldl (\<lambda>v i. v OR push_bit (8 * i) (ucast (rd_data r ! (rd_off r + i)))) 0 [0..<8]"
    using assms by (auto simp: rd_u64_def split: if_splits)
  define bs where "bs = take 8 (rest_of r)"
  have len: "length bs = 8" using h by (simp add: bs_def have_bytes_rest)
  have nth: "rd_data r ! (rd_off r + i) = bs ! i" if "i < 8" for i
    using that h rest_nth [of i r] by (simp add: bs_def have_bytes_rest)
  have v': "v = 0 OR push_bit (8 * 0) (ucast (bs ! 0)) OR push_bit (8 * 1) (ucast (bs ! 1)) OR
      push_bit (8 * 2) (ucast (bs ! 2)) OR push_bit (8 * 3) (ucast (bs ! 3)) OR
      push_bit (8 * 4) (ucast (bs ! 4)) OR push_bit (8 * 5) (ucast (bs ! 5)) OR
      push_bit (8 * 6) (ucast (bs ! 6)) OR push_bit (8 * 7) (ucast (bs ! 7))"
    unfolding v upt_8 using nth [of 0] nth [of 1] nth [of 2] nth [of 3] nth [of 4] nth [of 5] nth [of 6] nth [of 7]
    by (simp add: or.assoc)
  have "bit v n \<longleftrightarrow> bit (bs ! (n div 8)) (n mod 8)" if "n < LENGTH(64)" for n
  proof -
    have "n div 8 < 8" using that by simp
    then have "n div 8 \<in> {0, 1, 2, 3, 4, 5, 6, 7}" by auto
    then show ?thesis
      unfolding v' bit_or_iff bit_place bit_0_eq bot_apply bot_bool_def using that
      by (elim insertE emptyE) simp_all
  qed
  then have b: "ucast (drop_bit (8 * i) v) = bs ! i" if "i < 8" for i
    using that by (intro byte_of_place) auto
  have "le64 v = bs"
  proof (rule nth_equalityI)
    fix i assume "i < length (le64 v)"
    then have i: "i < 8" by simp
    then have "i \<in> {0, 1, 2, 3, 4, 5, 6, 7}" by auto
    then have "le64 v ! i = ucast (drop_bit (8 * i) v)" unfolding le64_def put_u64_def upt_8 by auto
    then show "le64 v ! i = bs ! i" using b [OF i] by simp
  qed (simp add: len)
  then have "rest_of r = le64 v @ rest_of r'" unfolding r' bs_def rest_advance by (metis append_take_drop_id)
  then show ?thesis using in_range_advance [OF _ h] r' by simp
qed

lemma rd_u32_bytes:
  assumes "rd_u32 r = Some (v, r')"
  shows "rest_of r = le32 v @ rest_of r' \<and> (in_range r \<longrightarrow> in_range r')"
proof -
  let ?d = "rd_data r" and ?o = "rd_off r"
  have h: "have_bytes r 4" and r': "r' = r\<lparr>rd_off := rd_off r + 4\<rparr>"
    and v: "v = ucast (?d ! ?o) OR push_bit 8 (ucast (?d ! (?o + 1))) OR
        push_bit 16 (ucast (?d ! (?o + 2))) OR push_bit 24 (ucast (?d ! (?o + 3)))"
    using assms by (auto simp: rd_u32_def Let_def split: if_splits)
  define bs where "bs = take 4 (rest_of r)"
  have len: "length bs = 4" using h by (simp add: bs_def have_bytes_rest)
  have nth: "?d ! (?o + i) = bs ! i" if "i < 4" for i
    using that h rest_nth [of i r] by (simp add: bs_def have_bytes_rest)
  have v': "v = push_bit (8 * 0) (ucast (bs ! 0)) OR push_bit (8 * 1) (ucast (bs ! 1)) OR
      push_bit (8 * 2) (ucast (bs ! 2)) OR push_bit (8 * 3) (ucast (bs ! 3))"
    unfolding v using nth [of 0] nth [of 1] nth [of 2] nth [of 3] by simp
  have "bit v n \<longleftrightarrow> bit (bs ! (n div 8)) (n mod 8)" if "n < LENGTH(32)" for n
  proof -
    have "n div 8 < 4" using that by simp
    then have "n div 8 \<in> {0, 1, 2, 3}" by auto
    then show ?thesis unfolding v' bit_or_iff bit_place using that by (elim insertE emptyE) simp_all
  qed
  then have b: "ucast (drop_bit (8 * i) v) = bs ! i" if "i < 4" for i
    using that by (intro byte_of_place) auto
  have "le32 v = bs"
  proof (rule nth_equalityI)
    fix i assume "i < length (le32 v)"
    then have i: "i < 4" by simp
    then have "i \<in> {0, 1, 2, 3}" by auto
    then have "le32 v ! i = ucast (drop_bit (8 * i) v)" unfolding le32_def put_u32_def by auto
    then show "le32 v ! i = bs ! i" using b [OF i] by simp
  qed (simp add: len)
  then have "rest_of r = le32 v @ rest_of r'" unfolding r' bs_def rest_advance by (metis append_take_drop_id)
  then show ?thesis using in_range_advance [OF _ h] r' by simp
qed

lemma rd_bytes_bytes:
  assumes "rd_bytes r n = Some (bs, r')"
  shows "rest_of r = bs @ rest_of r' \<and> length bs = n \<and> (in_range r \<longrightarrow> in_range r')"
proof -
  have h: "have_bytes r n" and r': "r' = r\<lparr>rd_off := rd_off r + n\<rparr>" and bs: "bs = take n (rest_of r)"
    using assms by (auto simp: rd_bytes_def rest_of_def split: if_splits)
  then show ?thesis using in_range_advance [OF _ h] have_bytes_rest [of r n] unfolding r' bs rest_advance by simp
qed

end
