(* ===== verification/Sha256.thy ===== *)
theory Sha256
  imports Bytes
begin

unbundle bit_operations_syntax

text \<open>
  SHA-256 as \<^verbatim>\<open>src/evidence/sha256.cpp\<close> computes it, on 32-bit words whose addition wraps:
  the message schedule, the 64 rounds, the padding of the last one or two blocks. A digest is a
  list of 32 bytes.
\<close>

type_synonym hash = "byte list"

definition rotr :: "32 word \<Rightarrow> nat \<Rightarrow> 32 word" where
  "rotr x n = drop_bit n x OR push_bit (32 - n) x"

definition sha_K :: "32 word list" where
  "sha_K = concat
   [[0x428a2f98, 0x71374491, 0xb5c0fbcf, 0xe9b5dba5, 0x3956c25b, 0x59f111f1, 0x923f82a4, 0xab1c5ed5],
    [0xd807aa98, 0x12835b01, 0x243185be, 0x550c7dc3, 0x72be5d74, 0x80deb1fe, 0x9bdc06a7, 0xc19bf174],
    [0xe49b69c1, 0xefbe4786, 0x0fc19dc6, 0x240ca1cc, 0x2de92c6f, 0x4a7484aa, 0x5cb0a9dc, 0x76f988da],
    [0x983e5152, 0xa831c66d, 0xb00327c8, 0xbf597fc7, 0xc6e00bf3, 0xd5a79147, 0x06ca6351, 0x14292967],
    [0x27b70a85, 0x2e1b2138, 0x4d2c6dfc, 0x53380d13, 0x650a7354, 0x766a0abb, 0x81c2c92e, 0x92722c85],
    [0xa2bfe8a1, 0xa81a664b, 0xc24b8b70, 0xc76c51a3, 0xd192e819, 0xd6990624, 0xf40e3585, 0x106aa070],
    [0x19a4c116, 0x1e376c08, 0x2748774c, 0x34b0bcb5, 0x391c0cb3, 0x4ed8aa4a, 0x5b9cca4f, 0x682e6ff3],
    [0x748f82ee, 0x78a5636f, 0x84c87814, 0x8cc70208, 0x90befffa, 0xa4506ceb, 0xbef9a3f7, 0xc67178f2]]"

definition load_be :: "byte list \<Rightarrow> nat \<Rightarrow> 32 word" where
  "load_be block i =
     push_bit 24 (ucast (block ! (i * 4))) OR push_bit 16 (ucast (block ! (i * 4 + 1))) OR
     push_bit 8 (ucast (block ! (i * 4 + 2))) OR ucast (block ! (i * 4 + 3))"

definition schedule_step :: "32 word list \<Rightarrow> nat \<Rightarrow> 32 word list" where
  "schedule_step w i =
     (let s0 = rotr (w ! (i - 15)) 7 XOR rotr (w ! (i - 15)) 18 XOR drop_bit 3 (w ! (i - 15));
          s1 = rotr (w ! (i - 2)) 17 XOR rotr (w ! (i - 2)) 19 XOR drop_bit 10 (w ! (i - 2))
      in w @ [w ! (i - 16) + s0 + w ! (i - 7) + s1])"

definition schedule :: "byte list \<Rightarrow> 32 word list" where
  "schedule block = foldl schedule_step (map (load_be block) [0..<16]) [16..<64]"

type_synonym sha_state =
  "32 word \<times> 32 word \<times> 32 word \<times> 32 word \<times> 32 word \<times> 32 word \<times> 32 word \<times> 32 word"

fun sha_round :: "32 word list \<Rightarrow> sha_state \<Rightarrow> nat \<Rightarrow> sha_state" where
  "sha_round w (a, b, c, d, e, f, g, h) i =
     (let S1 = rotr e 6 XOR rotr e 11 XOR rotr e 25;
          ch = (e AND f) XOR (NOT e AND g);
          t1 = h + S1 + ch + sha_K ! i + w ! i;
          S0 = rotr a 2 XOR rotr a 13 XOR rotr a 22;
          maj = (a AND b) XOR (a AND c) XOR (b AND c);
          t2 = S0 + maj
      in (t1 + t2, a, b, c, d + t1, e, f, g))"

fun add_state :: "sha_state \<Rightarrow> sha_state \<Rightarrow> sha_state" where
  "add_state (a, b, c, d, e, f, g, h) (a', b', c', d', e', f', g', h') =
     (a + a', b + b', c + c', d + d', e + e', f + f', g + g', h + h')"

definition sha_process :: "sha_state \<Rightarrow> byte list \<Rightarrow> sha_state" where
  "sha_process st block = (let w = schedule block in add_state st (foldl (sha_round w) st [0..<64]))"

definition sha_init :: sha_state where
  "sha_init = (0x6a09e667, 0xbb67ae85, 0x3c6ef372, 0xa54ff53a,
               0x510e527f, 0x9b05688c, 0x1f83d9ab, 0x5be0cd19)"

text \<open>The remainder of the input, the 0x80 mark, zeroes, and the bit length in big endian.\<close>

definition sha_tail :: "byte list \<Rightarrow> byte list" where
  "sha_tail data =
     (let len = length data; rem = len - (len div 64) * 64;
          padlen = (if rem < 56 then 64 else 128);
          bits = word_of_nat len * 8 :: 64 word
      in drop ((len div 64) * 64) data @ [0x80] @ replicate (padlen - rem - 1 - 8) 0 @
         map (\<lambda>i. ucast (drop_bit (8 * i) bits)) (rev [0..<8]))"

definition store_be :: "32 word \<Rightarrow> byte list" where
  "store_be x = [ucast (drop_bit 24 x), ucast (drop_bit 16 x), ucast (drop_bit 8 x), ucast x]"

fun sha_digest :: "sha_state \<Rightarrow> hash" where
  "sha_digest (a, b, c, d, e, f, g, h) =
     store_be a @ store_be b @ store_be c @ store_be d @
     store_be e @ store_be f @ store_be g @ store_be h"

definition block_at :: "byte list \<Rightarrow> nat \<Rightarrow> byte list" where
  "block_at data i = take 64 (drop (i * 64) data)"

definition sha256 :: "byte list \<Rightarrow> hash" where
  "sha256 data =
     (let st = foldl (\<lambda>st i. sha_process st (block_at data i)) sha_init [0..<length data div 64];
          tl = sha_tail data;
          st1 = sha_process st (take 64 tl);
          st2 = (if length tl = 128 then sha_process st1 (drop 64 tl) else st1)
      in sha_digest st2)"

definition sha256_pair :: "hash \<Rightarrow> hash \<Rightarrow> hash" where
  "sha256_pair l r = sha256 ([0x01] @ take 32 l @ take 32 r)"

definition hex_of_nibble :: "nat \<Rightarrow> char" where
  "hex_of_nibble n = ''0123456789abcdef'' ! n"

definition to_hex :: "byte list \<Rightarrow> string" where
  "to_hex h = concat (map (\<lambda>b. [hex_of_nibble (unat (drop_bit 4 b)), hex_of_nibble (unat (b AND 15))]) h)"

section \<open>Shape\<close>

lemma length_sha_digest: "length (sha_digest st) = 32"
  by (cases st rule: sha_digest.cases) (simp add: store_be_def)

lemma length_sha256 [simp]: "length (sha256 d) = 32"
  by (simp add: sha256_def Let_def length_sha_digest)

lemma length_sha256_pair [simp]: "length (sha256_pair l r) = 32"
  by (simp add: sha256_pair_def)

text \<open>The padded message is a whole number of blocks, of one or two for the tail.\<close>

lemma length_sha_tail:
  "length (sha_tail d) = (if length d mod 64 < 56 then 64 else 128)"
proof -
  have "length d - (length d div 64) * 64 = length d mod 64" by (simp add: minus_div_mult_eq_mod)
  moreover have "length d mod 64 < 64" by simp
  ultimately show ?thesis by (auto simp: sha_tail_def Let_def)
qed

lemma length_block_at: "i < length d div 64 \<Longrightarrow> length (block_at d i) = 64"
proof -
  assume "i < length d div 64"
  then have "Suc i * 64 \<le> length d" by (metis Suc_leI div_times_less_eq_dividend le_trans mult_le_mono1)
  then show ?thesis by (simp add: block_at_def)
qed

end
