(* ===== verification/Merkle_Log.thy ===== *)
theory Merkle_Log
  imports Sha256
begin

text \<open>
  The append-only evidence log of \<^verbatim>\<open>src/evidence/merkle_log.cpp\<close>: an RFC 6962 Merkle tree with
  inclusion and consistency proofs, and its on-disk format. The verifiers are loops over bit
  patterns of positions; the recursive checkers \<open>fold_path\<close> and \<open>fold_consistency\<close> say what
  they compute, and the equivalence with them carries both directions: proofs the log issues are
  accepted, and an accepted proof determines the leaf, or the old log, as long as no two of the
  pairs hashed on the way collide.
\<close>

definition leaf_hash :: "byte list \<Rightarrow> hash" where
  "leaf_hash data = sha256 (0x00 # data)"

record inclusion_proof =
  ip_index :: nat
  ip_size :: nat
  ip_path :: "hash list"

record merkle_log =
  leaves :: "hash list"
  entries :: "byte list list"

definition ml_empty :: merkle_log where
  "ml_empty = \<lparr>leaves = [], entries = []\<rparr>"

text \<open>The largest power of two below n, for n > 1; k is at least 1 on every call.\<close>

function split_loop :: "nat \<Rightarrow> nat \<Rightarrow> nat" where
  "split_loop k n = (if 0 < k \<and> k * 2 < n then split_loop (k * 2) n else k)"
  by pat_completeness auto
termination
  by (relation "measure (\<lambda>(k, n). n - k)") auto

declare split_loop.simps [simp del]

definition split_at :: "nat \<Rightarrow> nat" where
  "split_at n = split_loop 1 n"

lemma split_loop_power:
  "0 < k \<Longrightarrow> k < n \<Longrightarrow> \<exists>j. split_loop k n = k * 2 ^ j \<and> split_loop k n < n \<and> n \<le> 2 * split_loop k n"
proof (induction k n rule: split_loop.induct)
  case (1 k n)
  show ?case
  proof (cases "k * 2 < n")
    case True
    then obtain j where "split_loop (k * 2) n = k * 2 * 2 ^ j" "split_loop (k * 2) n < n"
      "n \<le> 2 * split_loop (k * 2) n"
      using 1 by auto
    moreover have "split_loop k n = split_loop (k * 2) n"
      using True 1(2) by (simp add: split_loop.simps [of k n])
    ultimately show ?thesis by (intro exI [of _ "Suc j"]) simp
  next
    case False
    then have "split_loop k n = k" by (simp add: split_loop.simps [of k n])
    then show ?thesis using False 1(3) by (intro exI [of _ 0]) simp
  qed
qed

lemma split_at_power:
  assumes "1 < n"
  obtains j where "split_at n = 2 ^ j" "2 ^ j < n" "n \<le> 2 ^ Suc j"
  using split_loop_power [of 1 n] assms unfolding split_at_def by auto

lemma split_at_bounds: "1 < n \<Longrightarrow> 0 < split_at n \<and> split_at n < n"
  using split_at_power [of n] by (metis zero_less_numeral zero_less_power)

lemma split_at_smaller: "n \<noteq> 0 \<Longrightarrow> n \<noteq> Suc 0 \<Longrightarrow> 0 < split_at n \<and> split_at n < n"
  using split_at_bounds [of n] by simp

function mth :: "hash list \<Rightarrow> nat \<Rightarrow> nat \<Rightarrow> hash" where
  "mth lv lo hi =
     (let n = hi - lo
      in if n = 0 then sha256 []
         else if n = 1 then lv ! lo
         else let k = split_at n
              in sha256_pair (mth lv lo (lo + k)) (mth lv (lo + k) hi))"
  by pat_completeness auto
termination
proof (relation "measure (\<lambda>(lv, lo, hi). hi - lo)", simp, goal_cases)
  case (1 lv lo hi n k)
  then have "0 < split_at n" "split_at n < n"
    using split_at_smaller [of n] by (cases "n = 0"; simp; fail)+
  then show ?case using 1 by auto
next
  case (2 lv lo hi n k)
  then have "0 < split_at n" "split_at n < n"
    using split_at_smaller [of n] by (cases "n = 0"; simp; fail)+
  then show ?case using 2 by auto
qed

declare mth.simps [simp del]

function path_of :: "hash list \<Rightarrow> nat \<Rightarrow> nat \<Rightarrow> nat \<Rightarrow> hash list" where
  "path_of lv m lo hi =
     (let n = hi - lo
      in if n \<le> 1 then []
         else let k = split_at n
              in if m < k then path_of lv m lo (lo + k) @ [mth lv (lo + k) hi]
                 else path_of lv (m - k) (lo + k) hi @ [mth lv lo (lo + k)])"
  by pat_completeness auto
termination
proof (relation "measure (\<lambda>(lv, m, lo, hi). hi - lo)", simp, goal_cases)
  case (1 lv m lo hi n k)
  then have "0 < split_at n" "split_at n < n"
    using split_at_smaller [of n] by (cases "n = 0"; simp; fail)+
  then show ?case using 1 by auto
next
  case (2 lv m lo hi n k)
  then have "0 < split_at n" "split_at n < n"
    using split_at_smaller [of n] by (cases "n = 0"; simp; fail)+
  then show ?case using 2 by auto
qed

declare path_of.simps [simp del]

function subproof :: "hash list \<Rightarrow> nat \<Rightarrow> nat \<Rightarrow> nat \<Rightarrow> bool \<Rightarrow> hash list" where
  "subproof lv m lo hi b =
     (let n = hi - lo
      in if m = n then (if \<not> b then [mth lv lo hi] else [])
         else if n \<le> 1 then []
         else let k = split_at n
              in if m \<le> k then subproof lv m lo (lo + k) b @ [mth lv (lo + k) hi]
                 else subproof lv (m - k) (lo + k) hi False @ [mth lv lo (lo + k)])"
  by pat_completeness auto
termination
proof (relation "measure (\<lambda>(lv, m, lo, hi, b). hi - lo)", simp, goal_cases)
  case (1 lv m lo hi b n k)
  then have "0 < split_at n" "split_at n < n"
    using split_at_smaller [of n] by (cases "n = 0"; simp; fail)+
  then show ?case using 1 by auto
next
  case (2 lv m lo hi b n k)
  then have "0 < split_at n" "split_at n < n"
    using split_at_smaller [of n] by (cases "n = 0"; simp; fail)+
  then have "hi - (lo + split_at n) < hi - lo" using 2(1) by linarith
  then show ?case using 2 by simp
qed

declare subproof.simps [simp del]

definition ml_append :: "merkle_log \<Rightarrow> byte list \<Rightarrow> nat \<times> merkle_log" where
  "ml_append lg entry =
     (let lg' = lg\<lparr>leaves := leaves lg @ [leaf_hash entry], entries := entries lg @ [entry]\<rparr>
      in (length (leaves lg') - 1, lg'))"

definition ml_root :: "merkle_log \<Rightarrow> hash" where
  "ml_root lg = mth (leaves lg) 0 (length (leaves lg))"

definition ml_size :: "merkle_log \<Rightarrow> nat" where
  "ml_size lg = length (leaves lg)"

definition ml_prove :: "merkle_log \<Rightarrow> nat \<Rightarrow> inclusion_proof" where
  "ml_prove lg index =
     \<lparr>ip_index = index, ip_size = length (leaves lg),
      ip_path = (if index < length (leaves lg)
                 then path_of (leaves lg) index 0 (length (leaves lg)) else [])\<rparr>"

definition ml_get :: "merkle_log \<Rightarrow> nat \<Rightarrow> byte list option" where
  "ml_get lg index = (if index \<ge> length (entries lg) then None else Some (entries lg ! index))"

text \<open>
  The inner loop of the verifier shifts until the position is odd; it is only entered with a
  position that is not 0, where it stops.
\<close>

function shift_to_odd :: "nat \<Rightarrow> nat \<Rightarrow> nat \<times> nat" where
  "shift_to_odd fn sn =
     (if fn = 0 \<or> odd fn then (fn, sn) else shift_to_odd (fn div 2) (sn div 2))"
  by pat_completeness auto
termination
  by (relation "measure fst") auto

declare shift_to_odd.simps [simp del]

definition verify_step :: "nat \<times> nat \<times> hash \<Rightarrow> hash \<Rightarrow> (nat \<times> nat \<times> hash) option" where
  "verify_step st p =
     (case st of (fn, sn, h) \<Rightarrow>
        if sn = 0 then None
        else if odd fn \<or> fn = sn
        then let h' = sha256_pair p h;
                 (fn', sn') = (if even fn then shift_to_odd fn sn else (fn, sn))
             in Some (fn' div 2, sn' div 2, h')
        else Some (fn div 2, sn div 2, sha256_pair h p))"

fun verify_loop :: "nat \<times> nat \<times> hash \<Rightarrow> hash list \<Rightarrow> (nat \<times> nat \<times> hash) option" where
  "verify_loop st [] = Some st"
| "verify_loop st (p # ps) = (case verify_step st p of None \<Rightarrow> None | Some st' \<Rightarrow> verify_loop st' ps)"

definition ip_verify :: "inclusion_proof \<Rightarrow> hash \<Rightarrow> hash \<Rightarrow> bool" where
  "ip_verify p leaf rt =
     (if ip_index p \<ge> ip_size p then False
      else case verify_loop (ip_index p, ip_size p - 1, leaf) (ip_path p) of
             None \<Rightarrow> False
           | Some (fn, sn, h) \<Rightarrow> sn = 0 \<and> h = rt)"

definition prove_consistency :: "merkle_log \<Rightarrow> nat \<Rightarrow> hash list" where
  "prove_consistency lg old_size =
     (if old_size = 0 \<or> old_size \<ge> length (leaves lg) then []
      else subproof (leaves lg) old_size 0 (length (leaves lg)) True)"

function strip_odd :: "nat \<Rightarrow> nat \<Rightarrow> nat \<times> nat" where
  "strip_odd node lst = (if odd node then strip_odd (node div 2) (lst div 2) else (node, lst))"
  by pat_completeness auto
termination
  by (relation "measure fst") (auto elim: oddE)

declare strip_odd.simps [simp del]

text \<open>The two loops of \<open>verify_consistency\<close>: while the old position is not 0, then the rest.\<close>

function climb_both ::
  "nat \<Rightarrow> nat \<Rightarrow> hash \<Rightarrow> hash \<Rightarrow> hash list \<Rightarrow> (nat \<times> hash \<times> hash \<times> hash list) option" where
  "climb_both node lst h1 h2 ps =
     (if node = 0 then Some (lst, h1, h2, ps)
      else if odd node then
        (case ps of [] \<Rightarrow> None
         | p # ps' \<Rightarrow> climb_both (node div 2) (lst div 2) (sha256_pair p h1) (sha256_pair p h2) ps')
      else if node < lst then
        (case ps of [] \<Rightarrow> None
         | p # ps' \<Rightarrow> climb_both (node div 2) (lst div 2) h1 (sha256_pair h2 p) ps')
      else climb_both (node div 2) (lst div 2) h1 h2 ps)"
  by pat_completeness auto
termination
  by (relation "measure fst") auto

declare climb_both.simps [simp del]

function climb_new :: "nat \<Rightarrow> hash \<Rightarrow> hash list \<Rightarrow> (hash \<times> hash list) option" where
  "climb_new lst h2 ps =
     (if lst = 0 then Some (h2, ps)
      else case ps of [] \<Rightarrow> None | p # ps' \<Rightarrow> climb_new (lst div 2) (sha256_pair h2 p) ps')"
  by pat_completeness auto
termination
  by (relation "measure fst") auto

declare climb_new.simps [simp del]

definition verify_consistency :: "nat \<Rightarrow> hash \<Rightarrow> nat \<Rightarrow> hash \<Rightarrow> hash list \<Rightarrow> bool" where
  "verify_consistency old_size old_root new_size new_root proof =
     (if old_size > new_size then False
      else if old_size = new_size then proof = [] \<and> old_root = new_root
      else if old_size = 0 then True
      else case strip_odd (old_size - 1) (new_size - 1) of
        (node, lst) \<Rightarrow>
          (case (if node \<noteq> 0 then (case proof of [] \<Rightarrow> None | p # ps \<Rightarrow> Some (p, ps)) else Some (old_root, proof)) of
             None \<Rightarrow> False
           | Some (h, ps) \<Rightarrow>
               (case climb_both node lst h h ps of
                  None \<Rightarrow> False
                | Some (lst', h1, h2, ps') \<Rightarrow>
                    (case climb_new lst' h2 ps' of
                       None \<Rightarrow> False
                     | Some (h2', ps'') \<Rightarrow> h1 = old_root \<and> h2' = new_root \<and> ps'' = []))))"

section \<open>The on-disk format\<close>

definition kLogMagic :: "32 word" where
  "kLogMagic = 0x314C4B4D"

definition kMaxEntryBytes :: nat where
  "kMaxEntryBytes = 16777216"

definition kMaxEntries :: nat where
  "kMaxEntries = 67108864"

definition ml_save :: "merkle_log \<Rightarrow> byte list" where
  "ml_save lg =
     foldl (\<lambda>buf e. put_u64 buf (word_of_nat (length e)) @ e)
       (put_u64 (put_u32 [] kLogMagic) (word_of_nat (length (entries lg)))) (entries lg)"

fun load_entries :: "nat \<Rightarrow> reader \<Rightarrow> merkle_log \<Rightarrow> (reader \<times> merkle_log) option" where
  "load_entries 0 r lg = Some (r, lg)"
| "load_entries (Suc n) r lg =
     (case rd_u64 r of None \<Rightarrow> None
      | Some (len, r1) \<Rightarrow>
          if unat len > kMaxEntryBytes then None
          else if len \<noteq> 0
          then (case rd_bytes r1 (unat len) of None \<Rightarrow> None
                | Some (e, r2) \<Rightarrow> load_entries n r2 (snd (ml_append lg e)))
          else load_entries n r1 (snd (ml_append lg [])))"

text \<open>The new log, or \<open>None\<close> for a refusal, which leaves the old log in place.\<close>

definition ml_load :: "byte list \<Rightarrow> merkle_log option" where
  "ml_load blob =
     (case rd_u32 (reader_of blob) of None \<Rightarrow> None
      | Some (magic, r1) \<Rightarrow>
          if magic \<noteq> kLogMagic then None
          else case rd_u64 r1 of None \<Rightarrow> None
               | Some (n, r2) \<Rightarrow>
                   if unat n > kMaxEntries then None
                   else case load_entries (unat n) r2 ml_empty of None \<Rightarrow> None
                        | Some (r3, lg) \<Rightarrow> if \<not> at_end r3 then None else Some lg)"

section \<open>Trees over lists of leaves\<close>

text \<open>The Merkle tree hash and the two kinds of proof, over the leaves themselves.\<close>

function tree_root :: "hash list \<Rightarrow> hash" where
  "tree_root xs =
     (if length xs = 0 then sha256 [] else if length xs = 1 then hd xs
      else sha256_pair (tree_root (take (split_at (length xs)) xs)) (tree_root (drop (split_at (length xs)) xs)))"
  by pat_completeness auto
termination
proof (relation "measure length", simp, goal_cases)
  case (1 xs)
  then show ?case using split_at_bounds [of "length xs"] by (cases xs) auto
next
  case (2 xs)
  then show ?case using split_at_bounds [of "length xs"] by (cases xs) auto
qed

declare tree_root.simps [simp del]

lemma tree_root_split:
  "1 < length xs \<Longrightarrow> tree_root xs =
     sha256_pair (tree_root (take (split_at (length xs)) xs)) (tree_root (drop (split_at (length xs)) xs))"
  by (cases xs) (simp_all add: tree_root.simps [of "_ # _"])

lemma tree_root_single: "tree_root [x] = x"
  by (subst tree_root.simps) simp

lemma tree_root_nil: "tree_root [] = sha256 []"
  by (subst tree_root.simps) simp

definition slice :: "'a list \<Rightarrow> nat \<Rightarrow> nat \<Rightarrow> 'a list" where
  "slice xs lo hi = take (hi - lo) (drop lo xs)"

lemma length_slice [simp]: "hi \<le> length xs \<Longrightarrow> length (slice xs lo hi) = hi - lo"
  by (simp add: slice_def)

lemma slice_parts:
  assumes "lo + k \<le> hi"
  shows "take k (slice xs lo hi) = slice xs lo (lo + k)" "drop k (slice xs lo hi) = slice xs (lo + k) hi"
  using assms by (simp_all add: slice_def drop_take add.commute)

lemma slice_all [simp]: "slice xs 0 (length xs) = xs"
  by (simp add: slice_def)

lemma mth_slice: "hi \<le> length lv \<Longrightarrow> lo \<le> hi \<Longrightarrow> mth lv lo hi = tree_root (slice lv lo hi)"
proof (induction lv lo hi rule: mth.induct)
  case (1 lv lo hi)
  let ?n = "hi - lo" and ?xs = "slice lv lo hi"
  have len: "length ?xs = ?n" using 1 by simp
  consider "?n = 0" | "?n = 1" | "1 < ?n" by linarith
  then show ?case
  proof cases
    case 1
    then show ?thesis
      using len by (subst mth.simps) (simp add: tree_root_nil)
  next
    case 2
    then have "?xs = [lv ! lo]" using "1.prems" by (simp add: slice_def take_Suc hd_drop_conv_nth)
    then show ?thesis using 2 by (subst mth.simps) (simp add: tree_root_single)
  next
    case 3
    let ?k = "split_at ?n"
    have k: "0 < ?k" "?k < ?n" using split_at_bounds [OF 3] by auto
    have "mth lv lo (lo + ?k) = tree_root (take ?k ?xs)" "mth lv (lo + ?k) hi = tree_root (drop ?k ?xs)"
      using "1.IH" [OF refl _ _ refl] "1.prems" 3 k slice_parts [of lo ?k hi lv] by simp_all
    moreover have "mth lv lo hi = sha256_pair (mth lv lo (lo + ?k)) (mth lv (lo + ?k) hi)"
    proof -
      have "?n \<noteq> 0" "?n \<noteq> 1" using 3 by auto
      then show ?thesis by (subst mth.simps) (simp only: Let_def if_False)
    qed
    moreover have "tree_root ?xs = sha256_pair (tree_root (take ?k ?xs)) (tree_root (drop ?k ?xs))"
      using tree_root_split [of ?xs] 3 len by simp
    ultimately show ?thesis by simp
  qed
qed

lemma ml_root_tree: "ml_root lg = tree_root (leaves lg)"
  using mth_slice [of "length (leaves lg)" "leaves lg" 0] by (simp add: ml_root_def)

section \<open>Inclusion proofs\<close>

text \<open>
  What the verifier computes: the path is read from its end, each element being the root of the
  other half of the tree.
\<close>

function fold_path :: "nat \<Rightarrow> nat \<Rightarrow> hash \<Rightarrow> hash list \<Rightarrow> hash option" where
  "fold_path m n h ps =
     (if n \<le> 1 then (if ps = [] then Some h else None)
      else if ps = [] then None
      else let k = split_at n
           in if m < k then map_option (\<lambda>x. sha256_pair x (last ps)) (fold_path m k h (butlast ps))
              else map_option (\<lambda>x. sha256_pair (last ps) x) (fold_path (m - k) (n - k) h (butlast ps)))"
  by pat_completeness auto
termination
proof (relation "measure (\<lambda>(m, n, h, ps). n)", simp, goal_cases)
  case (1 m n h ps k)
  then show ?case using split_at_bounds [of n] by auto
next
  case (2 m n h ps k)
  then show ?case using split_at_bounds [of n] by auto
qed

declare fold_path.simps [simp del]

lemma verify_loop_append:
  "verify_loop st (ps @ qs) = (case verify_loop st ps of None \<Rightarrow> None | Some st' \<Rightarrow> verify_loop st' qs)"
  by (induction ps arbitrary: st) (auto split: option.splits)

text \<open>In a perfect left subtree of height e the verifier behaves as if that were the whole tree.\<close>

lemma verify_loop_left:
  "verify_loop (fn, 2 ^ e - 1, h) ps = Some (a, 0, h') \<Longrightarrow> fn < 2 ^ e \<Longrightarrow> 2 ^ e \<le> sn \<Longrightarrow> sn < 2 ^ Suc e \<Longrightarrow>
   verify_loop (fn, sn, h) ps = Some (0, 1, h')"
proof (induction ps arbitrary: fn sn h e)
  case Nil
  then have "(2::nat) ^ e \<le> 2 ^ 0" by simp
  then have "e = 0" by (subst (asm) power_increasing_iff) auto
  then show ?case using Nil by simp
next
  case (Cons p ps)
  obtain d where e: "e = Suc d" using Cons.prems(1) by (cases e) (auto simp: verify_step_def)
  define x :: nat where "x = 2 ^ d"
  have x: "1 \<le> x" and e2: "(2::nat) ^ e = 2 * x" by (simp_all add: x_def e)
  have half: "(2 * x - 1) div 2 = x - 1" "2 * x - 1 \<noteq> 0" "odd (2 * x - 1)" using x by (arith, arith, simp)
  define h1 where "h1 = (if odd fn then sha256_pair p h else sha256_pair h p)"
  have "verify_step (fn, 2 ^ e - 1, h) p = Some (fn div 2, x - 1, h1)"
    using half x by (auto simp: verify_step_def e2 h1_def)
  then have "verify_loop (fn div 2, 2 ^ d - 1, h1) ps = Some (a, 0, h')"
    using Cons.prems(1) by (simp add: x_def)
  moreover have b: "fn div 2 < 2 ^ d" "2 ^ d \<le> sn div 2" "sn div 2 < 2 ^ Suc d"
    using Cons.prems(2-4) e by auto
  ultimately have "verify_loop (fn div 2, sn div 2, h1) ps = Some (0, 1, h')" by (rule Cons.IH)
  moreover have "verify_step (fn, sn, h) p = Some (fn div 2, sn div 2, h1)"
    using Cons.prems(2-4) x by (auto simp: verify_step_def e2 h1_def)
  ultimately show ?case by simp
qed

text \<open>
  In a right subtree, positions carry one more bit at the top; the verifier behaves as in the
  subtree alone, with that bit moving down.
\<close>

lemma shift_to_odd_lift:
  "0 < fn \<Longrightarrow> fn < 2 ^ e \<Longrightarrow> \<exists>d. d < e \<and> (\<exists>c. 0 < c \<and> c < 2 ^ (e - d) \<and> odd c \<and>
     shift_to_odd fn fn = (c, c) \<and> shift_to_odd (fn + 2 ^ e) (fn + 2 ^ e) = (c + 2 ^ (e - d), c + 2 ^ (e - d)))"
proof (induction fn arbitrary: e rule: less_induct)
  case (less fn)
  obtain d where e: "e = Suc d" using less.prems by (cases e) auto
  show ?case
  proof (cases "odd fn")
    case True
    then have "odd (fn + 2 ^ e)" using e by simp
    then show ?thesis
      using True less.prems e by (intro exI [of _ 0]) (auto simp: shift_to_odd.simps)
  next
    case False
    then obtain g where g: "fn = 2 * g" by (auto elim: evenE)
    have gb: "0 < g" "g < 2 ^ d" "g < fn" using g less.prems e by auto
    obtain d' c where IH: "d' < d" "0 < c" "c < 2 ^ (d - d')" "odd c" "shift_to_odd g g = (c, c)"
      "shift_to_odd (g + 2 ^ d) (g + 2 ^ d) = (c + 2 ^ (d - d'), c + 2 ^ (d - d'))"
      using less.IH [OF gb(3) gb(1,2)] by blast
    have "shift_to_odd fn fn = shift_to_odd g g"
      using g gb by (subst shift_to_odd.simps) simp
    moreover have "shift_to_odd (fn + 2 ^ e) (fn + 2 ^ e) = shift_to_odd (g + 2 ^ d) (g + 2 ^ d)"
      using g gb e by (subst shift_to_odd.simps) simp
    ultimately show ?thesis
      using IH e by (intro exI [of _ "Suc d'"]) auto
  qed
qed

lemma verify_loop_right:
  "verify_loop (fn, sn, h) ps = Some (a, 0, h') \<Longrightarrow> fn \<le> sn \<Longrightarrow> sn < 2 ^ e \<Longrightarrow>
   \<exists>d. verify_loop (fn + 2 ^ e, sn + 2 ^ e, h) ps = Some (2 ^ d, 2 ^ d, h')"
proof (induction ps arbitrary: fn sn h e)
  case (Cons p ps)
  have sn: "sn \<noteq> 0" using Cons.prems(1) by (cases "sn = 0") (simp_all add: verify_step_def)
  obtain d where e: "e = Suc d" using Cons.prems(3) sn by (cases e) auto
  show ?case
  proof (cases "fn = sn \<and> even fn")
    case True
    then obtain d' c where c: "d' < e" "0 < c" "c < 2 ^ (e - d')" "odd c" "shift_to_odd sn sn = (c, c)"
      "shift_to_odd (sn + 2 ^ e) (sn + 2 ^ e) = (c + 2 ^ (e - d'), c + 2 ^ (e - d'))"
      using shift_to_odd_lift [of sn e] Cons.prems(3) sn by auto
    obtain k where k: "e - d' = Suc k" using c(1) by (cases "e - d'") auto
    have "verify_loop (c div 2, c div 2, sha256_pair p h) ps = Some (a, 0, h')"
      using Cons.prems(1) conjunct1 [OF True] conjunct2 [OF True] sn c(5) by (simp add: verify_step_def)
    moreover have "c div 2 < 2 ^ k" using c(3) k by auto
    ultimately obtain j where
      "verify_loop (c div 2 + 2 ^ k, c div 2 + 2 ^ k, sha256_pair p h) ps = Some (2 ^ j, 2 ^ j, h')"
      using Cons.IH [of "c div 2" "c div 2" "sha256_pair p h" k] by auto
    moreover have "verify_step (fn + 2 ^ e, sn + 2 ^ e, h) p =
        Some (c div 2 + 2 ^ k, c div 2 + 2 ^ k, sha256_pair p h)"
      using conjunct1 [OF True] conjunct2 [OF True] c(6) e k by (simp add: verify_step_def)
    ultimately show ?thesis by auto
  next
    case False
    define h1 where "h1 = (if odd fn then sha256_pair p h else sha256_pair h p)"
    have "verify_step (fn, sn, h) p = Some (fn div 2, sn div 2, h1)"
      using False sn by (auto simp: verify_step_def h1_def)
    then have "verify_loop (fn div 2, sn div 2, h1) ps = Some (a, 0, h')" using Cons.prems(1) by simp
    moreover have "fn div 2 \<le> sn div 2" "sn div 2 < 2 ^ d"
      using Cons.prems(2,3) e by (auto simp: div_le_mono)
    ultimately obtain j where
      "verify_loop (fn div 2 + 2 ^ d, sn div 2 + 2 ^ d, h1) ps = Some (2 ^ j, 2 ^ j, h')"
      using Cons.IH by blast
    moreover have "verify_step (fn + 2 ^ e, sn + 2 ^ e, h) p = Some (fn div 2 + 2 ^ d, sn div 2 + 2 ^ d, h1)"
      using False e by (auto simp: verify_step_def h1_def)
    ultimately show ?thesis by auto
  qed
qed auto

lemma fold_path_length:
  "length ps = length qs \<Longrightarrow> (fold_path m n h ps = None) = (fold_path m n h' qs = None)"
proof (induction m n h ps arbitrary: h' qs rule: fold_path.induct)
  case (1 m n h ps)
  have len: "length (butlast ps) = length (butlast qs)" and ne: "ps = [] \<longleftrightarrow> qs = []"
    using "1.prems" by auto
  show ?case
  proof (cases "n \<le> 1 \<or> ps = []")
    case True
    then show ?thesis
      unfolding fold_path.simps [of m n h ps] fold_path.simps [of m n h' qs] using ne by auto
  next
    case False
    then have n: "\<not> n \<le> 1" "ps \<noteq> []" by auto
    show ?thesis
      unfolding fold_path.simps [of m n h ps] fold_path.simps [of m n h' qs]
      using "1.IH"(1) [OF n refl _ len] "1.IH"(2) [OF n refl _ len] n ne by (simp add: Let_def)
  qed
qed

lemma fold_path_verify:
  "fold_path m n h ps = Some x \<Longrightarrow> m < n \<Longrightarrow> \<exists>a. verify_loop (m, n - 1, h) ps = Some (a, 0, x)"
proof (induction m n h ps arbitrary: x rule: fold_path.induct)
  case (1 m n h ps)
  show ?case
  proof (cases "n \<le> 1")
    case True
    then show ?thesis using "1.prems" by (auto simp: fold_path.simps [of m n h ps] split: if_splits)
  next
    case False
    then obtain j where k: "split_at n = 2 ^ j" "2 ^ j < n" "n \<le> 2 ^ Suc j"
      using split_at_power [of n] by auto
    have ne: "ps \<noteq> []" using False "1.prems"(1) by (auto simp: fold_path.simps [of m n h ps])
    then have ps: "ps = butlast ps @ [last ps]" by simp
    show ?thesis
    proof (cases "m < 2 ^ j")
      case True
      then obtain y where y: "fold_path m (2 ^ j) h (butlast ps) = Some y" "x = sha256_pair y (last ps)"
        using False ne k(1) "1.prems"(1) by (auto simp: fold_path.simps [of m n h ps] Let_def)
      obtain a where "verify_loop (m, 2 ^ j - 1, h) (butlast ps) = Some (a, 0, y)"
        using "1.IH"(1) [OF False ne refl] True k(1) y(1) by auto
      then have "verify_loop (m, n - 1, h) (butlast ps) = Some (0, 1, y)"
        using True k by (intro verify_loop_left [of _ j]) auto
      then have "verify_loop (m, n - 1, h) (butlast ps @ [last ps]) = Some (0, 0, x)"
        by (simp add: verify_loop_append verify_step_def y(2))
      then show ?thesis using ps by metis
    next
      case right: False
      then obtain y where y: "fold_path (m - 2 ^ j) (n - 2 ^ j) h (butlast ps) = Some y"
        "x = sha256_pair (last ps) y"
        using False ne k(1) "1.prems"(1) by (auto simp: fold_path.simps [of m n h ps] Let_def)
      have "m - 2 ^ j < n - 2 ^ j" using right "1.prems"(2) by linarith
      then obtain a where "verify_loop (m - 2 ^ j, n - 2 ^ j - 1, h) (butlast ps) = Some (a, 0, y)"
        using "1.IH"(2) [OF False ne refl] right k(1) y(1) by auto
      moreover have "m - 2 ^ j \<le> n - 2 ^ j - 1" "n - 2 ^ j - 1 < 2 ^ j" using right k "1.prems"(2) by auto
      ultimately obtain d where
        "verify_loop (m - 2 ^ j + 2 ^ j, n - 2 ^ j - 1 + 2 ^ j, h) (butlast ps) = Some (2 ^ d, 2 ^ d, y)"
        using verify_loop_right [of "m - 2 ^ j" "n - 2 ^ j - 1" h "butlast ps" a y j] by blast
      moreover have "m - 2 ^ j + 2 ^ j = m" "n - 2 ^ j - 1 + 2 ^ j = n - 1" using right k(2) by auto
      ultimately have *: "verify_loop (m, n - 1, h) (butlast ps) = Some (2 ^ d, 2 ^ d, y)" by simp
      have "shift_to_odd (2 ^ d) (2 ^ d) = (1, 1)"
        by (induction d) (subst shift_to_odd.simps, simp)+
      then have "verify_step (2 ^ d, 2 ^ d, y) (last ps) = Some (0, 0, x)"
        by (cases d) (auto simp: verify_step_def y(2))
      then have "verify_loop (m, n - 1, h) (butlast ps @ [last ps]) = Some (0, 0, x)"
        using * by (simp add: verify_loop_append)
      then show ?thesis using ps by metis
    qed
  qed
qed

text \<open>Whether the verifier runs to the end depends on the length of the path alone.\<close>

lemma verify_loop_length:
  "verify_loop (fn, sn, h) ps = Some (a, 0, x) \<Longrightarrow> verify_loop (fn, sn, h') qs = Some (b, 0, y) \<Longrightarrow>
   length ps = length qs"
proof (induction ps arbitrary: fn sn h h' qs)
  case Nil
  then show ?case by (cases qs) (auto simp: verify_step_def)
next
  case (Cons p ps)
  have sn: "sn \<noteq> 0" using Cons.prems(1) by (cases "sn = 0") (simp_all add: verify_step_def)
  then obtain q qs' where q: "qs = q # qs'" using Cons.prems(2) by (cases qs) auto
  obtain fn' sn' h1 h2 where st: "verify_step (fn, sn, h) p = Some (fn', sn', h1)"
    "verify_step (fn, sn, h') q = Some (fn', sn', h2)"
    using sn by (cases "even fn"; cases "fn = sn"; cases "shift_to_odd fn sn") (auto simp: verify_step_def)
  then have "length ps = length qs'" using Cons.prems q by (intro Cons.IH [of fn' sn' h1 h2]) simp_all
  then show ?case using q by simp
qed

text \<open>A path of the right length exists.\<close>

function path_length :: "nat \<Rightarrow> nat \<Rightarrow> nat" where
  "path_length m n =
     (if n \<le> 1 then 0
      else if m < split_at n then Suc (path_length m (split_at n))
      else Suc (path_length (m - split_at n) (n - split_at n)))"
  by pat_completeness auto
termination
proof (relation "measure snd", simp, goal_cases)
  case (1 m n)
  then show ?case using split_at_bounds [of n] by auto
next
  case (2 m n)
  then show ?case using split_at_bounds [of n] by auto
qed

declare path_length.simps [simp del]

lemma fold_path_total: "length ps = path_length m n \<Longrightarrow> fold_path m n h ps \<noteq> None"
proof (induction m n h ps rule: fold_path.induct)
  case (1 m n h ps)
  show ?case
  proof (cases "n \<le> 1")
    case True
    then show ?thesis
      using "1.prems" unfolding fold_path.simps [of m n h ps] path_length.simps [of m n] by simp
  next
    case False
    then have ne: "ps \<noteq> []" using "1.prems" by (auto simp: path_length.simps [of m n] split: if_splits)
    have "length (butlast ps) = path_length m (split_at n)" if "m < split_at n"
      using "1.prems" False that by (simp add: path_length.simps [of m n])
    moreover have "length (butlast ps) = path_length (m - split_at n) (n - split_at n)" if "\<not> m < split_at n"
      using "1.prems" False that by (simp add: path_length.simps [of m n])
    ultimately show ?thesis
      using "1.IH" [OF False ne refl] False ne by (auto simp: fold_path.simps [of m n h ps] Let_def)
  qed
qed

lemma verify_loop_fold:
  assumes "m < n" "verify_loop (m, n - 1, h) ps = Some (a, 0, x)"
  shows "fold_path m n h ps = Some x"
proof -
  let ?qs = "replicate (path_length m n) h"
  obtain y where y: "fold_path m n h ?qs = Some y" using fold_path_total [of ?qs m n h] by auto
  obtain b where "verify_loop (m, n - 1, h) ?qs = Some (b, 0, y)" using fold_path_verify [OF y assms(1)] by blast
  then have "length ps = length ?qs" using verify_loop_length [OF assms(2)] by blast
  then obtain z where z: "fold_path m n h ps = Some z" using fold_path_length y by (metis not_Some_eq)
  then show ?thesis using fold_path_verify [OF z assms(1)] assms(2) by auto
qed

text \<open>The verifier's loop computes the recursive check.\<close>

lemma ip_verify_fold:
  "ip_verify p leaf rt \<longleftrightarrow>
     ip_index p < ip_size p \<and> fold_path (ip_index p) (ip_size p) leaf (ip_path p) = Some rt"
proof (cases "ip_index p < ip_size p")
  case True
  show ?thesis
  proof
    assume "ip_verify p leaf rt"
    then obtain a where "verify_loop (ip_index p, ip_size p - 1, leaf) (ip_path p) = Some (a, 0, rt)"
      by (auto simp: ip_verify_def split: if_splits option.splits)
    then show "ip_index p < ip_size p \<and> fold_path (ip_index p) (ip_size p) leaf (ip_path p) = Some rt"
      using verify_loop_fold [OF True] True by blast
  next
    assume "ip_index p < ip_size p \<and> fold_path (ip_index p) (ip_size p) leaf (ip_path p) = Some rt"
    then show "ip_verify p leaf rt" using fold_path_verify [OF _ True] by (fastforce simp: ip_verify_def)
  qed
qed (simp add: ip_verify_def)

lemma path_of_folds:
  "m < hi - lo \<Longrightarrow> hi \<le> length lv \<Longrightarrow> lo \<le> hi \<Longrightarrow>
   fold_path m (hi - lo) (slice lv lo hi ! m) (path_of lv m lo hi) = Some (tree_root (slice lv lo hi))"
proof (induction lv m lo hi rule: path_of.induct)
  case (1 lv m lo hi)
  let ?n = "hi - lo" and ?xs = "slice lv lo hi"
  have len: "length ?xs = ?n" using "1.prems" by simp
  show ?case
  proof (cases "?n \<le> 1")
    case True
    then have "?n = 1" "m = 0" using "1.prems" by auto
    then have "?xs = [?xs ! m]" using len by (cases ?xs) auto
    moreover have "path_of lv m lo hi = []" using True by (subst path_of.simps) (simp add: Let_def)
    ultimately show ?thesis using True tree_root_single [of "?xs ! m"] by (subst fold_path.simps) simp
  next
    case False
    let ?k = "split_at ?n"
    have k: "0 < ?k" "?k < ?n" using split_at_bounds [of ?n] False by auto
    have halves: "take ?k ?xs = slice lv lo (lo + ?k)" "drop ?k ?xs = slice lv (lo + ?k) hi"
      using slice_parts [of lo ?k hi lv] k by auto
    have root: "tree_root ?xs = sha256_pair (tree_root (slice lv lo (lo + ?k))) (tree_root (slice lv (lo + ?k) hi))"
      using tree_root_split [of ?xs] False len halves by simp
    have mths: "mth lv (lo + ?k) hi = tree_root (slice lv (lo + ?k) hi)"
      "mth lv lo (lo + ?k) = tree_root (slice lv lo (lo + ?k))"
      using "1.prems" k by (auto intro!: mth_slice)
    show ?thesis
    proof (cases "m < ?k")
      case True
      have "slice lv lo (lo + ?k) ! m = ?xs ! m" using True halves(1) by (metis nth_take)
      then have IH: "fold_path m ?k (?xs ! m) (path_of lv m lo (lo + ?k)) = Some (tree_root (slice lv lo (lo + ?k)))"
        using "1.IH"(1) [OF refl False refl True] True "1.prems" k by simp
      have "path_of lv m lo hi = path_of lv m lo (lo + ?k) @ [mth lv (lo + ?k) hi]"
        using False True by (subst path_of.simps) (simp only: Let_def if_True if_False)
      then show ?thesis
        using IH False True by (subst fold_path.simps) (simp add: Let_def root mths)
    next
      case right: False
      have "slice lv (lo + ?k) hi ! (m - ?k) = ?xs ! m"
        using right halves(2) "1.prems" len by (metis le_add_diff_inverse not_less nth_drop k(2) less_imp_le)
      moreover have "hi - (lo + ?k) = ?n - ?k" by simp
      ultimately have IH: "fold_path (m - ?k) (?n - ?k) (?xs ! m) (path_of lv (m - ?k) (lo + ?k) hi) =
          Some (tree_root (slice lv (lo + ?k) hi))"
        using "1.IH"(2) [OF refl False refl right] right "1.prems" k by auto
      have "path_of lv m lo hi = path_of lv (m - ?k) (lo + ?k) hi @ [mth lv lo (lo + ?k)]"
        using False right by (subst path_of.simps) (simp only: Let_def if_False)
      then show ?thesis
        using IH False right by (subst fold_path.simps) (simp add: Let_def root mths)
    qed
  qed
qed

text \<open>The pairs a tree hashes, and the pairs the verifier hashes along a path.\<close>

function tree_pairs :: "hash list \<Rightarrow> (hash \<times> hash) set" where
  "tree_pairs xs =
     (if length xs \<le> 1 then {}
      else let k = split_at (length xs); l = take k xs; r = drop k xs
           in insert (tree_root l, tree_root r) (tree_pairs l \<union> tree_pairs r))"
  by pat_completeness auto
termination
proof (relation "measure length", simp, goal_cases)
  case (1 xs k l r)
  then show ?case using split_at_bounds [of "length xs"] by auto
next
  case (2 xs k l r)
  then show ?case using split_at_bounds [of "length xs"] by auto
qed

declare tree_pairs.simps [simp del]

function fold_pairs :: "nat \<Rightarrow> nat \<Rightarrow> hash \<Rightarrow> hash list \<Rightarrow> (hash \<times> hash) set" where
  "fold_pairs m n h ps =
     (if n \<le> 1 \<or> ps = [] then {}
      else let k = split_at n
           in if m < k then fold_pairs m k h (butlast ps) \<union>
                (case fold_path m k h (butlast ps) of None \<Rightarrow> {} | Some x \<Rightarrow> {(x, last ps)})
              else fold_pairs (m - k) (n - k) h (butlast ps) \<union>
                (case fold_path (m - k) (n - k) h (butlast ps) of None \<Rightarrow> {} | Some x \<Rightarrow> {(last ps, x)}))"
  by pat_completeness auto
termination
proof (relation "measure (\<lambda>(m, n, h, ps). n)", simp, goal_cases)
  case (1 m n h ps k)
  then show ?case using split_at_bounds [of n] by auto
next
  case (2 m n h ps k)
  then show ?case using split_at_bounds [of n] by auto
qed

declare fold_pairs.simps [simp del]

definition no_collision :: "(hash \<times> hash) set \<Rightarrow> bool" where
  "no_collision P \<longleftrightarrow> inj_on (\<lambda>(l, r). sha256_pair l r) P"

lemma no_collisionD:
  "no_collision P \<Longrightarrow> (a, b) \<in> P \<Longrightarrow> (c, d) \<in> P \<Longrightarrow> sha256_pair a b = sha256_pair c d \<Longrightarrow> a = c \<and> b = d"
  unfolding no_collision_def inj_on_def by fastforce

lemma no_collision_subset: "no_collision P \<Longrightarrow> Q \<subseteq> P \<Longrightarrow> no_collision Q"
  unfolding no_collision_def by (rule inj_on_subset)

lemma tree_pairs_split:
  assumes "1 < length xs" "k = split_at (length xs)"
  shows "tree_pairs xs = insert (tree_root (take k xs), tree_root (drop k xs))
    (tree_pairs (take k xs) \<union> tree_pairs (drop k xs))"
  using assms by (subst tree_pairs.simps) (simp add: Let_def)

lemma fold_path_sound:
  assumes "no_collision P"
  shows "fold_path m n h ps = Some (tree_root xs) \<Longrightarrow> length xs = n \<Longrightarrow> m < n \<Longrightarrow>
    tree_pairs xs \<subseteq> P \<Longrightarrow> fold_pairs m n h ps \<subseteq> P \<Longrightarrow> h = xs ! m"
proof (induction m n h ps arbitrary: xs rule: fold_path.induct)
  case (1 m n h ps)
  show ?case
  proof (cases "n \<le> 1")
    case True
    then obtain x where "xs = [x]" "m = 0" using "1.prems"(2,3) by (cases xs) auto
    then show ?thesis
      using "1.prems"(1) True by (subst (asm) fold_path.simps) (auto simp: tree_root_single split: if_splits)
  next
    case False
    let ?k = "split_at n"
    have k: "0 < ?k" "?k < n" using split_at_bounds [of n] False by auto
    have ne: "ps \<noteq> []" using False "1.prems"(1) by (auto simp: fold_path.simps [of m n h ps])
    have tp: "tree_pairs xs = insert (tree_root (take ?k xs), tree_root (drop ?k xs))
        (tree_pairs (take ?k xs) \<union> tree_pairs (drop ?k xs))"
      using False "1.prems"(2) by (intro tree_pairs_split) auto
    have rt: "tree_root xs = sha256_pair (tree_root (take ?k xs)) (tree_root (drop ?k xs))"
      using tree_root_split [of xs] False "1.prems"(2) by simp
    show ?thesis
    proof (cases "m < ?k")
      case True
      obtain x where x: "fold_path m ?k h (butlast ps) = Some x" "sha256_pair x (last ps) = tree_root xs"
        using "1.prems"(1) False ne True by (subst (asm) fold_path.simps) (auto simp: Let_def)
      have fp: "fold_pairs m n h ps = fold_pairs m ?k h (butlast ps) \<union> {(x, last ps)}"
        using False ne True x(1) by (subst fold_pairs.simps) (simp add: Let_def)
      have "x = tree_root (take ?k xs)"
        using no_collisionD [OF assms, of x "last ps"] fp tp "1.prems"(4,5) x(2) rt by auto
      then have "h = take ?k xs ! m"
        using "1.IH"(1) [OF False ne refl True] x(1) "1.prems" k True tp fp by auto
      then show ?thesis using True by simp
    next
      case right: False
      obtain x where x: "fold_path (m - ?k) (n - ?k) h (butlast ps) = Some x" "sha256_pair (last ps) x = tree_root xs"
        using "1.prems"(1) False ne right by (subst (asm) fold_path.simps) (auto simp: Let_def)
      have fp: "fold_pairs m n h ps = fold_pairs (m - ?k) (n - ?k) h (butlast ps) \<union> {(last ps, x)}"
        using False ne right x(1) by (subst fold_pairs.simps) (simp add: Let_def)
      have "x = tree_root (drop ?k xs)"
        using no_collisionD [OF assms, of "last ps" x] fp tp "1.prems"(4,5) x(2) rt by auto
      then have "h = drop ?k xs ! (m - ?k)"
        using "1.IH"(2) [OF False ne refl right] x(1) "1.prems" k right tp fp by auto
      then show ?thesis using right k "1.prems"(2,3) by simp
    qed
  qed
qed

section \<open>Consistency proofs\<close>

text \<open>
  What the verifier computes from an old root and a proof: the old and the new root, rebuilt from
  the last element of the proof inwards.
\<close>

function fold_consistency :: "nat \<Rightarrow> nat \<Rightarrow> bool \<Rightarrow> hash \<Rightarrow> hash list \<Rightarrow> (hash \<times> hash) option" where
  "fold_consistency m n b old ps =
     (if m = n then
        (if b then (if ps = [] then Some (old, old) else None)
         else (case ps of [x] \<Rightarrow> Some (x, x) | _ \<Rightarrow> None))
      else if n \<le> 1 \<or> ps = [] then None
      else let k = split_at n
           in if m \<le> k
              then map_option (\<lambda>(v, w). (v, sha256_pair w (last ps))) (fold_consistency m k b old (butlast ps))
              else map_option (\<lambda>(v, w). (sha256_pair (last ps) v, sha256_pair (last ps) w))
                     (fold_consistency (m - k) (n - k) False old (butlast ps)))"
  by pat_completeness auto
termination
proof (relation "measure (\<lambda>(m, n, b, old, ps). n)", simp, goal_cases)
  case (1 m n b old ps k)
  then show ?case using split_at_bounds [of n] by auto
next
  case (2 m n b old ps k)
  then show ?case using split_at_bounds [of n] by auto
qed

declare fold_consistency.simps [simp del]

text \<open>The two climbing loops as one.\<close>

definition climb :: "nat \<Rightarrow> nat \<Rightarrow> hash \<Rightarrow> hash \<Rightarrow> hash list \<Rightarrow> (hash \<times> hash \<times> hash list) option" where
  "climb node lst h1 h2 ps =
     (case climb_both node lst h1 h2 ps of None \<Rightarrow> None
      | Some (lst', v, w, ps') \<Rightarrow> map_option (\<lambda>(w', ps''). (v, w', ps'')) (climb_new lst' w ps'))"

lemma climb_unfold:
  "climb node lst h1 h2 ps =
     (if node = 0 \<and> lst = 0 then Some (h1, h2, ps)
      else if odd node then
        (case ps of [] \<Rightarrow> None
         | p # ps' \<Rightarrow> climb (node div 2) (lst div 2) (sha256_pair p h1) (sha256_pair p h2) ps')
      else if node = 0 \<or> node < lst then
        (case ps of [] \<Rightarrow> None
         | p # ps' \<Rightarrow> climb (node div 2) (lst div 2) h1 (sha256_pair h2 p) ps')
      else climb (node div 2) (lst div 2) h1 h2 ps)"
proof (cases "node = 0")
  case True
  have both: "climb_both 0 l v w qs = Some (l, v, w, qs)" for l v w qs
    by (subst climb_both.simps) simp
  show ?thesis
  proof (cases "lst = 0")
    case False
    have "climb_new lst h2 ps =
        (case ps of [] \<Rightarrow> None | p # ps' \<Rightarrow> climb_new (lst div 2) (sha256_pair h2 p) ps')"
      using False by (subst climb_new.simps) simp
    then show ?thesis using True False by (simp add: climb_def both split: list.split)
  next
    case zero: True
    have "climb_new 0 h2 ps = Some (h2, ps)" by (subst climb_new.simps) simp
    then show ?thesis using True zero by (simp add: climb_def both)
  qed
next
  case False
  have "climb_both node lst h1 h2 ps =
     (if odd node then
        (case ps of [] \<Rightarrow> None
         | p # ps' \<Rightarrow> climb_both (node div 2) (lst div 2) (sha256_pair p h1) (sha256_pair p h2) ps')
      else if node < lst then
        (case ps of [] \<Rightarrow> None
         | p # ps' \<Rightarrow> climb_both (node div 2) (lst div 2) h1 (sha256_pair h2 p) ps')
      else climb_both (node div 2) (lst div 2) h1 h2 ps)"
    using False by (subst climb_both.simps) simp
  then show ?thesis using False by (simp add: climb_def split: list.split)
qed

lemma climb_done: "climb 0 0 h1 h2 ps = Some (h1, h2, ps)"
  by (subst climb_unfold) simp

lemma climb_odd:
  "odd node \<Longrightarrow> climb node lst h1 h2 ps =
     (case ps of [] \<Rightarrow> None
      | p # ps' \<Rightarrow> climb (node div 2) (lst div 2) (sha256_pair p h1) (sha256_pair p h2) ps')"
  by (subst climb_unfold) (auto elim: oddE)

lemma climb_even:
  "even node \<Longrightarrow> node < lst \<Longrightarrow> climb node lst h1 h2 ps =
     (case ps of [] \<Rightarrow> None | p # ps' \<Rightarrow> climb (node div 2) (lst div 2) h1 (sha256_pair h2 p) ps')"
  by (subst climb_unfold) auto

lemma climb_skip: "even node \<Longrightarrow> 0 < node \<Longrightarrow> climb node node h1 h2 ps = climb (node div 2) (node div 2) h1 h2 ps"
  by (subst climb_unfold) simp

lemma climb_left:
  "climb node (2 ^ e - 1) h1 h2 ps = Some (v, w, []) \<Longrightarrow> node < 2 ^ e \<Longrightarrow> 2 ^ e \<le> lst \<Longrightarrow> lst < 2 ^ Suc e \<Longrightarrow>
   climb node lst h1 h2 (ps @ [q]) = Some (v, sha256_pair w q, [])"
proof (induction e arbitrary: node lst h1 h2 ps)
  case 0
  then have "node = 0" "lst = 1" "v = h1" "w = h2" "ps = []" by (auto simp: climb_done)
  then show ?case using climb_even [of 0 1] by (simp add: climb_done)
next
  case (Suc d)
  define x :: nat where "x = 2 ^ d"
  have x: "1 \<le> x" by (simp add: x_def)
  have e2: "2 ^ Suc d = 2 * x" by (simp add: x_def)
  have half: "(2 * x - 1) div 2 = 2 ^ d - 1" using x by (simp add: x_def)
  have b: "node div 2 < 2 ^ d" "2 ^ d \<le> lst div 2" "lst div 2 < 2 ^ Suc d" using Suc.prems(2-4) by auto
  show ?case
  proof (cases "odd node")
    case True
    then obtain p ps' where ps: "ps = p # ps'"
      "climb (node div 2) (2 ^ d - 1) (sha256_pair p h1) (sha256_pair p h2) ps' = Some (v, w, [])"
      using Suc.prems(1) climb_odd [OF True] half unfolding e2 by (auto split: list.splits)
    show ?thesis using Suc.IH [OF ps(2) b] climb_odd [OF True] ps(1) by simp
  next
    case False
    have "node < 2 * x" "2 * x \<le> lst" using Suc.prems(2,3) unfolding e2 by auto
    then have lt: "node < 2 * x - 1" "node < lst" using False by (presburger, linarith)
    then obtain p ps' where ps: "ps = p # ps'"
      "climb (node div 2) (2 ^ d - 1) h1 (sha256_pair h2 p) ps' = Some (v, w, [])"
      using Suc.prems(1) climb_even [OF _ lt(1)] False half unfolding e2 by (auto split: list.splits)
    show ?thesis using Suc.IH [OF ps(2) b] climb_even [OF _ lt(2)] False ps(1) by simp
  qed
qed

lemma climb_right:
  "climb node lst h1 h2 ps = Some (v, w, []) \<Longrightarrow> node \<le> lst \<Longrightarrow> lst < 2 ^ e \<Longrightarrow>
   climb (node + 2 ^ e) (lst + 2 ^ e) h1 h2 (ps @ [q]) = Some (sha256_pair q v, sha256_pair q w, [])"
proof (induction e arbitrary: node lst h1 h2 ps)
  case 0
  then have "node = 0" "lst = 0" "v = h1" "w = h2" "ps = []" by (auto simp: climb_done)
  then show ?case using climb_odd [of 1 1] by (simp add: climb_done)
next
  case (Suc d)
  have b: "node div 2 \<le> lst div 2" "lst div 2 < 2 ^ d" using Suc.prems(2,3) by (auto simp: div_le_mono)
  have half: "(node + 2 ^ Suc d) div 2 = node div 2 + 2 ^ d" "(lst + 2 ^ Suc d) div 2 = lst div 2 + 2 ^ d"
    by simp_all
  have par: "odd (node + 2 ^ Suc d) \<longleftrightarrow> odd node" by simp
  show ?case
  proof (cases "odd node")
    case True
    then obtain p ps' where ps: "ps = p # ps'"
      "climb (node div 2) (lst div 2) (sha256_pair p h1) (sha256_pair p h2) ps' = Some (v, w, [])"
      using Suc.prems(1) climb_odd [OF True] by (auto split: list.splits)
    have o: "odd (node + 2 ^ Suc d)" using True by simp
    show ?thesis unfolding climb_odd [OF o] half ps(1) using Suc.IH [OF ps(2) b] by simp
  next
    case even: False
    show ?thesis
    proof (cases "node < lst")
      case True
      then obtain p ps' where ps: "ps = p # ps'"
        "climb (node div 2) (lst div 2) h1 (sha256_pair h2 p) ps' = Some (v, w, [])"
        using Suc.prems(1) climb_even [OF _ True] even by (auto split: list.splits)
      have o: "even (node + 2 ^ Suc d)" "node + 2 ^ Suc d < lst + 2 ^ Suc d" using even True by simp_all
      show ?thesis unfolding climb_even [OF o] half ps(1) using Suc.IH [OF ps(2) b] by simp
    next
      case False
      then have eq: "lst = node" using Suc.prems(2) by simp
      have "climb (node div 2) (node div 2) h1 h2 ps = Some (v, w, [])"
      proof (cases "node = 0")
        case False
        then show ?thesis using Suc.prems(1) climb_skip [of node] even eq by simp
      qed (use Suc.prems(1) eq in simp)
      then have "climb (node div 2 + 2 ^ d) (node div 2 + 2 ^ d) h1 h2 (ps @ [q]) =
          Some (sha256_pair q v, sha256_pair q w, [])"
        using Suc.IH [of "node div 2" "node div 2"] b(2) eq by simp
      moreover have o: "even (node + 2 ^ Suc d)" "0 < node + 2 ^ Suc d" using even by simp_all
      ultimately show ?thesis unfolding eq climb_skip [OF o] half(1) by simp
    qed
  qed
qed

text \<open>Stripping the trailing ones of the old position, in a left and in a right subtree.\<close>

lemma strip_even: "even node \<Longrightarrow> strip_odd node lst = (node, lst)"
  by (subst strip_odd.simps) simp

lemma strip_step: "odd node \<Longrightarrow> strip_odd node lst = strip_odd (node div 2) (lst div 2)"
  by (subst strip_odd.simps) simp

lemma strip_left:
  "node < 2 ^ e \<Longrightarrow> 2 ^ e \<le> lst \<Longrightarrow> lst < 2 ^ Suc e \<Longrightarrow>
   \<exists>a l f. strip_odd node lst = (a, l) \<and> strip_odd node (2 ^ e - 1) = (a, 2 ^ f - 1) \<and>
     a < 2 ^ f \<and> 2 ^ f \<le> l \<and> l < 2 ^ Suc f"
proof (induction e arbitrary: node lst)
  case 0
  then show ?case by (intro exI [of _ 0] exI [of _ 1]) (auto simp: strip_even)
next
  case (Suc d)
  show ?case
  proof (cases "odd node")
    case False
    then show ?thesis
      using Suc.prems by (intro exI [of _ node] exI [of _ lst] exI [of _ "Suc d"]) (simp add: strip_even)
  next
    case True
    have half: "((2::nat) ^ Suc d - 1) div 2 = 2 ^ d - 1"
    proof -
      have "(2 * x - 1) div 2 = x - 1" if "1 \<le> x" for x :: nat using that by arith
      then show ?thesis by simp
    qed
    have b: "node div 2 < 2 ^ d" "2 ^ d \<le> lst div 2" "lst div 2 < 2 ^ Suc d" using Suc.prems by auto
    obtain a l f where "strip_odd (node div 2) (lst div 2) = (a, l)"
      "strip_odd (node div 2) (2 ^ d - 1) = (a, 2 ^ f - 1)" "a < 2 ^ f" "2 ^ f \<le> l" "l < 2 ^ Suc f"
      using Suc.IH [OF b] by blast
    then show ?thesis
      unfolding strip_step [OF True] half by blast
  qed
qed

lemma strip_right:
  "node < lst \<Longrightarrow> lst < 2 ^ e \<Longrightarrow>
   \<exists>a l f. strip_odd node lst = (a, l) \<and> strip_odd (node + 2 ^ e) (lst + 2 ^ e) = (a + 2 ^ f, l + 2 ^ f) \<and>
     a \<le> l \<and> l < 2 ^ f"
proof (induction e arbitrary: node lst)
  case (Suc d)
  show ?case
  proof (cases "odd node")
    case False
    then show ?thesis
      using Suc.prems by (intro exI [of _ node] exI [of _ lst] exI [of _ "Suc d"]) (simp add: strip_even)
  next
    case True
    then have b: "node div 2 < lst div 2" "lst div 2 < 2 ^ d" using Suc.prems by (presburger, simp)
    obtain a l f where "strip_odd (node div 2) (lst div 2) = (a, l)"
      "strip_odd (node div 2 + 2 ^ d) (lst div 2 + 2 ^ d) = (a + 2 ^ f, l + 2 ^ f)" "a \<le> l" "l < 2 ^ f"
      using Suc.IH [OF b] by blast
    moreover have "odd (node + 2 ^ Suc d)" using True by simp
    then have "strip_odd (node + 2 ^ Suc d) (lst + 2 ^ Suc d) =
        strip_odd (node div 2 + 2 ^ d) (lst div 2 + 2 ^ d)"
      by (subst strip_step) (simp_all add: add.commute)
    ultimately show ?thesis unfolding strip_step [OF True] by auto
  qed
qed simp

lemma strip_all_ones: "strip_odd (2 ^ e - 1) (2 ^ e - 1) = (0, 0)"
proof (induction e)
  case (Suc d)
  have "(2 * x - 1) div 2 = x - 1 \<and> odd (2 * x - 1)" if "1 \<le> x" for x :: nat
    using that by (cases x) auto
  then have "((2::nat) ^ Suc d - 1) div 2 = 2 ^ d - 1" "odd ((2::nat) ^ Suc d - 1)" by simp_all
  then show ?case using Suc strip_step [of "2 ^ Suc d - 1"] by simp
qed (simp add: strip_even)

text \<open>The loops after the first element of the proof has been chosen; \<open>b\<close>: it may be the old root.\<close>

definition run_consistency :: "nat \<Rightarrow> nat \<Rightarrow> bool \<Rightarrow> hash \<Rightarrow> hash list \<Rightarrow> (hash \<times> hash \<times> hash list) option" where
  "run_consistency m n b old ps =
     (case strip_odd (m - 1) (n - 1) of
        (node, lst) \<Rightarrow>
          if node \<noteq> 0 \<or> \<not> b
          then (case ps of [] \<Rightarrow> None | p # ps' \<Rightarrow> climb node lst p p ps')
          else climb node lst old old ps)"

lemma verify_consistency_run:
  "0 < m \<Longrightarrow> m < n \<Longrightarrow> verify_consistency m v n w ps \<longleftrightarrow> run_consistency m n True v ps = Some (v, w, [])"
  unfolding verify_consistency_def run_consistency_def climb_def
  by (auto split: prod.splits option.splits list.splits if_splits)

lemma fold_consistency_run:
  "fold_consistency m n b old ps = Some (v, w) \<Longrightarrow> 0 < m \<Longrightarrow> m < n \<or> (m = n \<and> n = 2 ^ e) \<Longrightarrow>
   run_consistency m n b old ps = Some (v, w, [])"
proof (induction m n b old ps arbitrary: v w e rule: fold_consistency.induct)
  case (1 m n b old ps)
  show ?case
  proof (cases "m = n")
    case True
    then have "n = 2 ^ e" using "1.prems"(3) by simp
    then have "strip_odd (m - 1) (n - 1) = (0, 0)" using strip_all_ones [of e] True by simp
    then show ?thesis
      using "1.prems"(1) True
      by (subst (asm) fold_consistency.simps) (auto simp: run_consistency_def climb_done split: if_splits list.splits)
  next
    case neq: False
    then have mn: "m < n" using "1.prems"(3) by simp
    then have n: "1 < n" using "1.prems"(2) by simp
    obtain j where k: "split_at n = 2 ^ j" "2 ^ j < n" "n \<le> 2 ^ Suc j" using split_at_power [OF n] .
    have ne: "ps \<noteq> []" using "1.prems"(1) neq n by (subst (asm) fold_consistency.simps) auto
    then have ps: "ps = butlast ps @ [last ps]" by simp
    have c: "\<not> (n \<le> 1 \<or> ps = [])" using n ne by simp
    show ?thesis
    proof (cases "m \<le> 2 ^ j")
      case True
      obtain w' where w': "fold_consistency m (2 ^ j) b old (butlast ps) = Some (v, w')"
        "w = sha256_pair w' (last ps)"
        using "1.prems"(1) neq c True k(1) by (subst (asm) fold_consistency.simps) (auto simp: Let_def)
      have run: "run_consistency m (2 ^ j) b old (butlast ps) = Some (v, w', [])"
        using "1.IH"(1) [OF neq c refl] True k(1) w'(1) "1.prems"(2) by (cases "m = 2 ^ j") auto
      have "m - 1 < 2 ^ j" "2 ^ j \<le> n - 1" "n - 1 < 2 ^ Suc j" using True "1.prems"(2) k by auto
      then obtain a l f where st: "strip_odd (m - 1) (n - 1) = (a, l)"
        "strip_odd (m - 1) (2 ^ j - 1) = (a, 2 ^ f - 1)" "a < 2 ^ f" "2 ^ f \<le> l" "l < 2 ^ Suc f"
        using strip_left by blast
      have "run_consistency m n b old (butlast ps @ [last ps]) = Some (v, w, [])"
      proof (cases "a \<noteq> 0 \<or> \<not> b")
        case True
        then obtain p qs where "butlast ps = p # qs" "climb a (2 ^ f - 1) p p qs = Some (v, w', [])"
          using run st(2) by (auto simp: run_consistency_def split: list.splits)
        then show ?thesis
          using True climb_left [OF _ st(3-5)] st(1) w'(2) by (auto simp: run_consistency_def)
      next
        case False
        then have "climb a (2 ^ f - 1) old old (butlast ps) = Some (v, w', [])"
          using run st(2) by (auto simp: run_consistency_def)
        then show ?thesis
          using False climb_left [OF _ st(3-5)] st(1) w'(2) by (auto simp: run_consistency_def)
      qed
      then show ?thesis using ps by simp
    next
      case False
      obtain v' w' where w': "fold_consistency (m - 2 ^ j) (n - 2 ^ j) False old (butlast ps) = Some (v', w')"
        "v = sha256_pair (last ps) v'" "w = sha256_pair (last ps) w'"
        using "1.prems"(1) neq c False k(1) by (subst (asm) fold_consistency.simps) (auto simp: Let_def)
      have "m - 2 ^ j < n - 2 ^ j" "0 < m - 2 ^ j" using mn False by auto
      then have run: "run_consistency (m - 2 ^ j) (n - 2 ^ j) False old (butlast ps) = Some (v', w', [])"
        using "1.IH"(2) [OF neq c refl] False k(1) w'(1) by auto
      have "m - 2 ^ j - 1 < n - 2 ^ j - 1" "n - 2 ^ j - 1 < 2 ^ j" using mn False k by auto
      then obtain a l f where st: "strip_odd (m - 2 ^ j - 1) (n - 2 ^ j - 1) = (a, l)"
        "strip_odd (m - 2 ^ j - 1 + 2 ^ j) (n - 2 ^ j - 1 + 2 ^ j) = (a + 2 ^ f, l + 2 ^ f)" "a \<le> l" "l < 2 ^ f"
        using strip_right by blast
      have e: "m - 2 ^ j - 1 + 2 ^ j = m - 1" "n - 2 ^ j - 1 + 2 ^ j = n - 1" using False k by auto
      obtain p qs where "butlast ps = p # qs" "climb a l p p qs = Some (v', w', [])"
        using run st(1) by (auto simp: run_consistency_def split: list.splits)
      then have "run_consistency m n b old (butlast ps @ [last ps]) = Some (v, w, [])"
        using climb_right [OF _ st(3,4)] st(2) w'(2,3) unfolding e by (auto simp: run_consistency_def)
      then show ?thesis using ps by simp
    qed
  qed
qed

text \<open>Again the length of the proof alone decides whether the verifier reaches its end.\<close>

lemma climb_length:
  "climb node lst h1 h2 ps = Some (v, w, []) \<Longrightarrow> climb node lst h1' h2' qs = Some (v', w', []) \<Longrightarrow>
   length ps = length qs"
proof (induction "node + lst" arbitrary: node lst h1 h2 h1' h2' ps qs rule: less_induct)
  case less
  consider (zero) "node = 0" "lst = 0" | (odd) "odd node" | (right) "even node" "node < lst"
    | (skip) "even node" "node \<noteq> 0" "\<not> node < lst"
    by fastforce
  then show ?case
  proof cases
    case zero
    then show ?thesis using less.prems by (simp add: climb_done)
  next
    case odd
    have lt: "node div 2 + lst div 2 < node + lst" using odd by (cases node) auto
    obtain p ps' where ps: "ps = p # ps'"
      "climb (node div 2) (lst div 2) (sha256_pair p h1) (sha256_pair p h2) ps' = Some (v, w, [])"
      using less.prems(1) unfolding climb_odd [OF odd] by (cases ps) auto
    obtain q qs' where qs: "qs = q # qs'"
      "climb (node div 2) (lst div 2) (sha256_pair q h1') (sha256_pair q h2') qs' = Some (v', w', [])"
      using less.prems(2) unfolding climb_odd [OF odd] by (cases qs) auto
    show ?thesis using less.hyps [OF lt ps(2) qs(2)] ps(1) qs(1) by simp
  next
    case right
    have lt: "node div 2 + lst div 2 < node + lst" using right by (cases lst) auto
    obtain p ps' where ps: "ps = p # ps'"
      "climb (node div 2) (lst div 2) h1 (sha256_pair h2 p) ps' = Some (v, w, [])"
      using less.prems(1) unfolding climb_even [OF right] by (cases ps) auto
    obtain q qs' where qs: "qs = q # qs'"
      "climb (node div 2) (lst div 2) h1' (sha256_pair h2' q) qs' = Some (v', w', [])"
      using less.prems(2) unfolding climb_even [OF right] by (cases qs) auto
    show ?thesis using less.hyps [OF lt ps(2) qs(2)] ps(1) qs(1) by simp
  next
    case skip
    have "node div 2 < node" "lst div 2 \<le> lst" using skip by auto
    then have lt: "node div 2 + lst div 2 < node + lst" by linarith
    have "climb node lst a b rs = climb (node div 2) (lst div 2) a b rs" for a b rs
      using skip by (subst climb_unfold) simp
    then show ?thesis using less.hyps [OF lt] less.prems by simp
  qed
qed

lemma run_consistency_length:
  assumes "run_consistency m n b old ps = Some (v, w, [])" "run_consistency m n b old' qs = Some (v', w', [])"
  shows "length ps = length qs"
proof -
  obtain node lst where st: "strip_odd (m - 1) (n - 1) = (node, lst)" by (cases "strip_odd (m - 1) (n - 1)")
  show ?thesis
  proof (cases "node \<noteq> 0 \<or> \<not> b")
    case True
    obtain p ps' where ps: "ps = p # ps'" "climb node lst p p ps' = Some (v, w, [])"
      using assms(1) True st by (cases ps) (auto simp: run_consistency_def)
    obtain q qs' where qs: "qs = q # qs'" "climb node lst q q qs' = Some (v', w', [])"
      using assms(2) True st by (cases qs) (auto simp: run_consistency_def)
    show ?thesis using climb_length [OF ps(2) qs(2)] ps(1) qs(1) by simp
  next
    case False
    then have "climb node lst old old ps = Some (v, w, [])" "climb node lst old' old' qs = Some (v', w', [])"
      using assms st by (auto simp: run_consistency_def)
    then show ?thesis by (rule climb_length)
  qed
qed

function proof_length :: "nat \<Rightarrow> nat \<Rightarrow> bool \<Rightarrow> nat" where
  "proof_length m n b =
     (if m = n then (if b then 0 else 1)
      else if n \<le> 1 then 0
      else if m \<le> split_at n then Suc (proof_length m (split_at n) b)
      else Suc (proof_length (m - split_at n) (n - split_at n) False))"
  by pat_completeness auto
termination
proof (relation "measure (\<lambda>(m, n, b). n)", simp, goal_cases)
  case (1 m n b)
  then show ?case using split_at_bounds [of n] by auto
next
  case (2 m n b)
  then show ?case using split_at_bounds [of n] by auto
qed

declare proof_length.simps [simp del]

lemma fold_consistency_total:
  "0 < m \<Longrightarrow> m \<le> n \<Longrightarrow> fold_consistency m n b old ps \<noteq> None \<longleftrightarrow> length ps = proof_length m n b"
proof (induction m n b old ps rule: fold_consistency.induct)
  case (1 m n b old ps)
  show ?case
  proof (cases "m = n")
    case True
    then show ?thesis
      unfolding fold_consistency.simps [of m n b old ps] proof_length.simps [of m n b]
      by (auto split: list.split)
  next
    case neq: False
    then have n: "1 < n" "m < n" using "1.prems" by auto
    let ?k = "split_at n"
    have k: "0 < ?k" "?k < n" using split_at_bounds [OF n(1)] by auto
    show ?thesis
    proof (cases "ps = []")
      case True
      then show ?thesis
        using n neq unfolding fold_consistency.simps [of m n b old ps] proof_length.simps [of m n b] by simp
    next
      case ne: False
      then have c: "\<not> (n \<le> 1 \<or> ps = [])" using n by simp
      have len: "length (butlast ps) = x \<longleftrightarrow> length ps = Suc x" for x
        using ne by (cases ps rule: rev_cases) auto
      show ?thesis
      proof (cases "m \<le> ?k")
        case True
        have "fold_consistency m ?k b old (butlast ps) \<noteq> None \<longleftrightarrow>
            length (butlast ps) = proof_length m ?k b"
          using "1.IH"(1) [OF neq c refl True] "1.prems" True by simp
        then show ?thesis
          unfolding fold_consistency.simps [of m n b old ps] proof_length.simps [of m n b]
          using True neq n ne unfolding len by (auto simp: Let_def)
      next
        case False
        have "fold_consistency (m - ?k) (n - ?k) False old (butlast ps) \<noteq> None \<longleftrightarrow>
            length (butlast ps) = proof_length (m - ?k) (n - ?k) False"
          using "1.IH"(2) [OF neq c refl False] n False by simp
        then show ?thesis
          unfolding fold_consistency.simps [of m n b old ps] proof_length.simps [of m n b]
          using False neq n ne unfolding len by (auto simp: Let_def)
      qed
    qed
  qed
qed

text \<open>The verifier's loops compute the recursive check.\<close>

lemma verify_consistency_fold:
  assumes "0 < m" "m < n"
  shows "verify_consistency m v n w ps \<longleftrightarrow> fold_consistency m n True v ps = Some (v, w)"
proof
  assume "verify_consistency m v n w ps"
  then have run: "run_consistency m n True v ps = Some (v, w, [])"
    using verify_consistency_run [OF assms] by blast
  let ?qs = "replicate (proof_length m n True) v"
  obtain a c where "fold_consistency m n True v ?qs = Some (a, c)"
    using fold_consistency_total [OF assms(1), of n True v ?qs] assms(2) by auto
  then have "run_consistency m n True v ?qs = Some (a, c, [])"
    using fold_consistency_run assms by blast
  then have "length ps = proof_length m n True" using run_consistency_length [OF run] by simp
  then obtain a c where "fold_consistency m n True v ps = Some (a, c)"
    using fold_consistency_total [OF assms(1), of n True v ps] assms(2) by auto
  then show "fold_consistency m n True v ps = Some (v, w)"
    using fold_consistency_run assms run by fastforce
next
  assume "fold_consistency m n True v ps = Some (v, w)"
  then show "verify_consistency m v n w ps"
    using fold_consistency_run assms verify_consistency_run by blast
qed

lemma power2_between:
  fixes m :: nat
  assumes "2 ^ i < m" "m \<le> 2 ^ Suc i" "2 ^ j < m" "m \<le> 2 ^ Suc j"
  shows "(2 :: nat) ^ i = 2 ^ j"
proof -
  have "(2 :: nat) ^ i < 2 ^ Suc j" "(2 :: nat) ^ j < 2 ^ Suc i" using assms by linarith+
  then have "i < Suc j" "j < Suc i"
    using power_less_imp_less_exp [of "2 :: nat" i "Suc j"] power_less_imp_less_exp [of "2 :: nat" j "Suc i"]
    by simp_all
  then show ?thesis by simp
qed

lemma subproof_folds:
  "0 < m \<Longrightarrow> m \<le> hi - lo \<Longrightarrow> hi \<le> length lv \<Longrightarrow> (b \<Longrightarrow> old = tree_root (slice lv lo (lo + m))) \<Longrightarrow>
   fold_consistency m (hi - lo) b old (subproof lv m lo hi b) =
     Some (tree_root (slice lv lo (lo + m)), tree_root (slice lv lo hi))"
proof (induction lv m lo hi b rule: subproof.induct)
  case (1 lv m lo hi b)
  let ?n = "hi - lo" and ?xs = "slice lv lo hi"
  show ?case
  proof (cases "m = ?n")
    case True
    then have "lo + m = hi" using "1.prems"(1) by simp
    moreover have "mth lv lo hi = tree_root ?xs" using "1.prems" True by (intro mth_slice) auto
    ultimately show ?thesis
      using True "1.prems"(4) by (subst subproof.simps, subst fold_consistency.simps) (simp add: Let_def)
  next
    case neq: False
    then have n: "1 < ?n" "m < ?n" using "1.prems"(1,2) by auto
    let ?k = "split_at ?n"
    have k: "0 < ?k" "?k < ?n" using split_at_bounds [OF n(1)] by auto
    have n1: "\<not> ?n \<le> 1" using n(1) by simp
    have len: "length ?xs = ?n" using "1.prems" by simp
    have halves: "take ?k ?xs = slice lv lo (lo + ?k)" "drop ?k ?xs = slice lv (lo + ?k) hi"
      using slice_parts [of lo ?k hi lv] k by auto
    have root: "tree_root ?xs = sha256_pair (tree_root (slice lv lo (lo + ?k))) (tree_root (slice lv (lo + ?k) hi))"
      using tree_root_split [of ?xs] n(1) len halves by simp
    have mths: "mth lv (lo + ?k) hi = tree_root (slice lv (lo + ?k) hi)"
      "mth lv lo (lo + ?k) = tree_root (slice lv lo (lo + ?k))"
      using "1.prems" k by (auto intro!: mth_slice)
    show ?thesis
    proof (cases "m \<le> ?k")
      case True
      have IH: "fold_consistency m ?k b old (subproof lv m lo (lo + ?k) b) =
          Some (tree_root (slice lv lo (lo + m)), tree_root (slice lv lo (lo + ?k)))"
        using "1.IH"(1) [OF refl neq n1 refl True] True "1.prems" k by simp
      have "subproof lv m lo hi b = subproof lv m lo (lo + ?k) b @ [mth lv (lo + ?k) hi]"
        using neq n1 True by (subst subproof.simps) (simp only: Let_def if_True if_False)
      then show ?thesis
        using IH neq n1 True by (subst fold_consistency.simps) (simp add: Let_def root mths)
    next
      case False
      have e: "lo + ?k + (m - ?k) = lo + m" "hi - (lo + ?k) = ?n - ?k" using False by auto
      have IH: "fold_consistency (m - ?k) (?n - ?k) False old (subproof lv (m - ?k) (lo + ?k) hi False) =
          Some (tree_root (slice lv (lo + ?k) (lo + m)), tree_root (slice lv (lo + ?k) hi))"
        using "1.IH"(2) [OF refl neq n1 refl False] False "1.prems" k n unfolding e by simp
      have sp: "subproof lv m lo hi b = subproof lv (m - ?k) (lo + ?k) hi False @ [mth lv lo (lo + ?k)]"
        using neq n1 False by (subst subproof.simps) (simp only: Let_def if_False)
      let ?ys = "slice lv lo (lo + m)"
      have ly: "length ?ys = m" using "1.prems" n by (simp add: slice_def)
      obtain j where j: "?k = 2 ^ j" "?n \<le> 2 ^ Suc j" using split_at_power [OF n(1)] by metis
      obtain i where i: "split_at m = 2 ^ i" "2 ^ i < m" "m \<le> 2 ^ Suc i"
        using split_at_power [of m] False k by auto
      have "split_at m = ?k"
        using power2_between [of i m j] i j n False by simp
      then have "tree_root ?ys = sha256_pair (tree_root (take ?k ?ys)) (tree_root (drop ?k ?ys))"
        using tree_root_split [of ?ys] False k ly by simp
      moreover have "take ?k ?ys = slice lv lo (lo + ?k)" "drop ?k ?ys = slice lv (lo + ?k) (lo + m)"
        using slice_parts [of lo ?k "lo + m" lv] False by auto
      ultimately show ?thesis
        using IH neq n1 False by (subst fold_consistency.simps) (simp add: Let_def root mths sp)
    qed
  qed
qed

function consistency_pairs :: "nat \<Rightarrow> nat \<Rightarrow> bool \<Rightarrow> hash \<Rightarrow> hash list \<Rightarrow> (hash \<times> hash) set" where
  "consistency_pairs m n b old ps =
     (if m = n \<or> n \<le> 1 \<or> ps = [] then {}
      else let k = split_at n
           in if m \<le> k
              then consistency_pairs m k b old (butlast ps) \<union>
                (case fold_consistency m k b old (butlast ps) of None \<Rightarrow> {} | Some (v, w) \<Rightarrow> {(w, last ps)})
              else consistency_pairs (m - k) (n - k) False old (butlast ps) \<union>
                (case fold_consistency (m - k) (n - k) False old (butlast ps) of None \<Rightarrow> {}
                 | Some (v, w) \<Rightarrow> {(last ps, v), (last ps, w)}))"
  by pat_completeness auto
termination
proof (relation "measure (\<lambda>(m, n, b, old, ps). n)", simp, goal_cases)
  case (1 m n b old ps k)
  then show ?case using split_at_bounds [of n] by auto
next
  case (2 m n b old ps k)
  then show ?case using split_at_bounds [of n] by auto
qed

declare consistency_pairs.simps [simp del]

text \<open>Two lists of the same length with the same root are equal, unless a pair collides.\<close>

lemma tree_root_inj:
  assumes "no_collision P"
  shows "tree_root xs = tree_root ys \<Longrightarrow> length xs = length ys \<Longrightarrow> tree_pairs xs \<subseteq> P \<Longrightarrow> tree_pairs ys \<subseteq> P \<Longrightarrow> xs = ys"
proof (induction xs arbitrary: ys rule: tree_root.induct)
  case (1 xs)
  consider "length xs = 0" | "length xs = 1" | "1 < length xs" by linarith
  then show ?case
  proof cases
    case 1
    then show ?thesis using "1.prems"(2) by simp
  next
    case 2
    then obtain x y where "xs = [x]" "ys = [y]" using "1.prems"(2) by (cases xs; cases ys) auto
    then show ?thesis using "1.prems"(1) by (simp add: tree_root_single)
  next
    case 3
    let ?k = "split_at (length xs)"
    have tp: "tree_pairs xs = insert (tree_root (take ?k xs), tree_root (drop ?k xs))
        (tree_pairs (take ?k xs) \<union> tree_pairs (drop ?k xs))"
      "tree_pairs ys = insert (tree_root (take ?k ys), tree_root (drop ?k ys))
        (tree_pairs (take ?k ys) \<union> tree_pairs (drop ?k ys))"
      using 3 "1.prems"(2) by (auto intro!: tree_pairs_split)
    have "sha256_pair (tree_root (take ?k xs)) (tree_root (drop ?k xs)) =
        sha256_pair (tree_root (take ?k ys)) (tree_root (drop ?k ys))"
      using tree_root_split [OF 3] tree_root_split [of ys] 3 "1.prems"(1,2) by simp
    then have roots: "tree_root (take ?k xs) = tree_root (take ?k ys)" "tree_root (drop ?k xs) = tree_root (drop ?k ys)"
      using no_collisionD [OF assms] "1.prems"(3,4) unfolding tp by blast+
    have c: "length xs \<noteq> 0" "length xs \<noteq> 1" using 3 by auto
    have "take ?k xs = take ?k ys"
      using "1.IH"(1) [OF c roots(1)] "1.prems"(2-4) unfolding tp by simp
    moreover have "drop ?k xs = drop ?k ys"
      using "1.IH"(2) [OF c roots(2)] "1.prems"(2-4) unfolding tp by simp
    ultimately show ?thesis by (metis append_take_drop_id)
  qed
qed

lemma fold_consistency_sound:
  assumes "no_collision P"
  shows "fold_consistency m n b old ps = Some (tree_root os, tree_root xs) \<Longrightarrow> length xs = n \<Longrightarrow> length os = m \<Longrightarrow>
    0 < m \<Longrightarrow> m \<le> n \<Longrightarrow> tree_pairs xs \<subseteq> P \<Longrightarrow> tree_pairs os \<subseteq> P \<Longrightarrow> consistency_pairs m n b old ps \<subseteq> P \<Longrightarrow>
    os = take m xs"
proof (induction m n b old ps arbitrary: os xs rule: fold_consistency.induct)
  case (1 m n b old ps)
  show ?case
  proof (cases "m = n")
    case True
    then have "tree_root os = tree_root xs"
      using "1.prems"(1) by (subst (asm) fold_consistency.simps) (auto split: if_splits list.splits)
    then show ?thesis using tree_root_inj [OF assms] "1.prems" True by simp
  next
    case neq: False
    then have n: "1 < n" "m < n" using "1.prems" by auto
    let ?k = "split_at n"
    have k: "0 < ?k" "?k < n" using split_at_bounds [OF n(1)] by auto
    have ne: "ps \<noteq> []" using "1.prems"(1) neq n by (subst (asm) fold_consistency.simps) auto
    have c: "\<not> (n \<le> 1 \<or> ps = [])" using n ne by simp
    have tp: "tree_pairs xs = insert (tree_root (take ?k xs), tree_root (drop ?k xs))
        (tree_pairs (take ?k xs) \<union> tree_pairs (drop ?k xs))"
      using n "1.prems"(2) by (intro tree_pairs_split) auto
    have rt: "tree_root xs = sha256_pair (tree_root (take ?k xs)) (tree_root (drop ?k xs))"
      using tree_root_split [of xs] n "1.prems"(2) by simp
    show ?thesis
    proof (cases "m \<le> ?k")
      case True
      obtain w where w: "fold_consistency m ?k b old (butlast ps) = Some (tree_root os, w)"
        "tree_root xs = sha256_pair w (last ps)"
        using "1.prems"(1) neq c True by (subst (asm) fold_consistency.simps) (auto simp: Let_def)
      have cp: "consistency_pairs m n b old ps = consistency_pairs m ?k b old (butlast ps) \<union> {(w, last ps)}"
        using neq c True w(1) by (subst consistency_pairs.simps) (simp add: Let_def)
      have "w = tree_root (take ?k xs)"
        using no_collisionD [OF assms, of w "last ps"] cp tp "1.prems"(6,8) w(2) rt by auto
      then have "os = take m (take ?k xs)"
        using "1.IH"(1) [OF neq c refl True, of os "take ?k xs"] w(1) "1.prems" k True tp cp by simp
      then show ?thesis using True by simp
    next
      case False
      obtain v w where w: "fold_consistency (m - ?k) (n - ?k) False old (butlast ps) = Some (v, w)"
        "tree_root os = sha256_pair (last ps) v" "tree_root xs = sha256_pair (last ps) w"
        using "1.prems"(1) neq c False by (subst (asm) fold_consistency.simps) (auto simp: Let_def)
      have cp: "consistency_pairs m n b old ps =
          consistency_pairs (m - ?k) (n - ?k) False old (butlast ps) \<union> {(last ps, v), (last ps, w)}"
        using neq c False w(1) by (subst consistency_pairs.simps) (simp add: Let_def)
      obtain j where j: "?k = 2 ^ j" "n \<le> 2 ^ Suc j" using split_at_power [OF n(1)] by metis
      obtain i where i: "split_at m = 2 ^ i" "2 ^ i < m" "m \<le> 2 ^ Suc i"
        using split_at_power [of m] False k by auto
      have mk: "split_at m = ?k" using power2_between [of i m j] i j n False by simp
      have m1: "1 < length os" using False k "1.prems"(3) by simp
      have to: "tree_root os = sha256_pair (tree_root (take ?k os)) (tree_root (drop ?k os))"
        "tree_pairs os = insert (tree_root (take ?k os), tree_root (drop ?k os))
          (tree_pairs (take ?k os) \<union> tree_pairs (drop ?k os))"
        using tree_root_split [OF m1] tree_pairs_split [OF m1 refl] mk "1.prems"(3) by simp_all
      have W: "last ps = tree_root (take ?k xs)" "w = tree_root (drop ?k xs)"
        using no_collisionD [OF assms, of "last ps" w] cp tp "1.prems"(6,8) w(3) rt by auto
      have V: "last ps = tree_root (take ?k os)" "v = tree_root (drop ?k os)"
        using no_collisionD [OF assms, of "last ps" v] cp to(2) "1.prems"(7,8) w(2) to(1) by auto
      have l: "take ?k os = take ?k xs"
        using tree_root_inj [OF assms, of "take ?k os" "take ?k xs"] W(1) V(1) to(2) tp "1.prems" False k by auto
      have d: "drop ?k os = take (m - ?k) (drop ?k xs)"
        using "1.IH"(2) [OF neq c refl False, of "drop ?k os" "drop ?k xs"] w(1) W(2) V(2) "1.prems" False k n to(2) tp cp
        by simp
      have "os = take ?k xs @ take (m - ?k) (drop ?k xs)" using l d by (metis append_take_drop_id)
      also have "\<dots> = take m xs" using False by (metis le_add_diff_inverse nat_le_linear take_add)
      finally show ?thesis .
    qed
  qed
qed

section \<open>The log and its file\<close>

definition ml_of :: "byte list list \<Rightarrow> merkle_log" where
  "ml_of es = foldl (\<lambda>lg e. snd (ml_append lg e)) ml_empty es"

lemma ml_append_fields:
  "leaves (snd (ml_append lg e)) = leaves lg @ [leaf_hash e]"
  "entries (snd (ml_append lg e)) = entries lg @ [e]"
  by (simp_all add: ml_append_def Let_def)

lemma ml_append_all:
  "leaves (foldl (\<lambda>lg e. snd (ml_append lg e)) lg es) = leaves lg @ map leaf_hash es \<and>
   entries (foldl (\<lambda>lg e. snd (ml_append lg e)) lg es) = entries lg @ es"
  by (induction es arbitrary: lg) (simp_all add: ml_append_fields)

lemma ml_of_fields [simp]: "leaves (ml_of es) = map leaf_hash es" "entries (ml_of es) = es"
  using ml_append_all [of ml_empty es] by (simp_all add: ml_of_def ml_empty_def)

definition entry_image :: "byte list \<Rightarrow> byte list" where
  "entry_image e = le64 (word_of_nat (length e)) @ e"

lemma ml_save_image:
  "ml_save lg = le32 kLogMagic @ le64 (word_of_nat (length (entries lg))) @ concat (map entry_image (entries lg))"
proof -
  have "foldl (\<lambda>buf e. put_u64 buf (word_of_nat (length e)) @ e) b es = b @ concat (map entry_image es)" for b es
    by (induction es arbitrary: b) (simp_all add: put_u64_append entry_image_def)
  then show ?thesis by (simp add: ml_save_def put_u64_append put_u32_append)
qed

lemma unat_of_nat64: "n < 2 ^ 64 \<Longrightarrow> unat (word_of_nat n :: 64 word) = n"
  by (simp add: unat_of_nat take_bit_nat_eq_self)

lemma load_entries_save:
  "\<forall>e \<in> set es. length e \<le> kMaxEntryBytes \<Longrightarrow> rest_of r = concat (map entry_image es) @ s \<Longrightarrow> in_range r \<Longrightarrow>
   \<exists>r'. load_entries (length es) r lg = Some (r', foldl (\<lambda>lg e. snd (ml_append lg e)) lg es) \<and>
     rest_of r' = s \<and> in_range r'"
proof (induction es arbitrary: r lg)
  case (Cons e es)
  have small: "length e \<le> kMaxEntryBytes" "length e < 2 ^ 64"
    using Cons.prems(1) by (auto simp: kMaxEntryBytes_def)
  then have u: "unat (word_of_nat (length e) :: 64 word) = length e" by (intro unat_of_nat64)
  then have z: "(word_of_nat (length e) :: 64 word) = 0 \<longleftrightarrow> e = []"
    by (simp add: word_unat_eq_iff)
  have rest: "rest_of r = le64 (word_of_nat (length e)) @ e @ concat (map entry_image es) @ s"
    using Cons.prems(2) by (simp add: entry_image_def [of e])
  obtain r1 where r1: "rd_u64 r = Some (word_of_nat (length e), r1)"
    "rest_of r1 = e @ concat (map entry_image es) @ s" "in_range r1"
    using rd_u64_put [of r "word_of_nat (length e)"] rest Cons.prems(3) by blast
  obtain r2 where r2: "e \<noteq> [] \<Longrightarrow> rd_bytes r1 (length e) = Some (e, r2)" "e = [] \<Longrightarrow> r2 = r1"
    "rest_of r2 = concat (map entry_image es) @ s" "in_range r2"
    using rd_bytes_put [OF r1(2)] r1(2,3) by (cases "e = []") auto
  obtain r' where "load_entries (length es) r2 (snd (ml_append lg e)) =
      Some (r', foldl (\<lambda>lg e. snd (ml_append lg e)) lg (e # es))" "rest_of r' = s" "in_range r'"
    using Cons.IH [OF _ r2(3,4), of "snd (ml_append lg e)"] Cons.prems(1) by auto
  then show ?case
    using r1(1) r2(1,2) u z small(1) by (cases "e = []") auto
qed auto

lemma load_entries_image:
  "load_entries n r lg = Some (r', lg') \<Longrightarrow> in_range r \<Longrightarrow>
   \<exists>es. length es = n \<and> rest_of r = concat (map entry_image es) @ rest_of r' \<and> in_range r' \<and>
     lg' = foldl (\<lambda>lg e. snd (ml_append lg e)) lg es"
proof (induction n arbitrary: r lg)
  case (Suc n)
  obtain len r1 where r1: "rd_u64 r = Some (len, r1)" using Suc.prems(1) by (auto split: option.splits)
  have l1: "rest_of r = le64 len @ rest_of r1" "in_range r1" using rd_u64_bytes [OF r1] Suc.prems(2) by auto
  obtain e r2 where r2: "rest_of r1 = e @ rest_of r2" "length e = unat len" "in_range r2"
    "load_entries n r2 (snd (ml_append lg e)) = Some (r', lg')"
  proof (cases "len = 0")
    case True
    then show ?thesis using Suc.prems(1) r1 l1(2) by (intro that [of "[]" r1]) (auto split: if_splits)
  next
    case False
    then obtain e r2 where "rd_bytes r1 (unat len) = Some (e, r2)"
      "load_entries n r2 (snd (ml_append lg e)) = Some (r', lg')"
      using Suc.prems(1) r1 by (auto split: if_splits option.splits)
    then show ?thesis using rd_bytes_bytes l1(2) by (intro that [of e r2]) auto
  qed
  obtain es where es: "length es = n" "rest_of r2 = concat (map entry_image es) @ rest_of r'" "in_range r'"
    "lg' = foldl (\<lambda>lg e. snd (ml_append lg e)) (snd (ml_append lg e)) es"
    using Suc.IH [OF r2(4,3)] by blast
  have "le64 len = le64 (word_of_nat (length e))" using r2(2) by simp
  then show ?case
    using l1 r2 es by (intro exI [of _ "e # es"]) (simp add: entry_image_def [of e])
qed auto

section \<open>Properties\<close>

lemma issued_consistency:
  assumes m: "m \<le> ml_size lg"
  shows "verify_consistency m (tree_root (take m (leaves lg))) (ml_size lg) (ml_root lg) (prove_consistency lg m)"
proof -
  let ?lv = "leaves lg" and ?n = "length (leaves lg)"
  consider "m = ?n" | "m = 0" "m < ?n" | "0 < m" "m < ?n" using m by (fastforce simp: ml_size_def)
  then show ?thesis
  proof cases
    case 3
    have "fold_consistency m ?n True (tree_root (take m ?lv)) (subproof ?lv m 0 ?n True) =
        Some (tree_root (take m ?lv), tree_root ?lv)"
      using subproof_folds [of m ?n 0 ?lv True "tree_root (take m ?lv)"] 3 by (simp add: slice_def)
    then show ?thesis
      using 3 by (simp add: verify_consistency_fold prove_consistency_def ml_size_def ml_root_tree)
  qed (simp_all add: verify_consistency_def prove_consistency_def ml_size_def ml_root_tree)
qed

text \<open>C29: Every proof the log issues is accepted: for each entry the verifier, given only the
  leaf hash and the published root, accepts the inclusion proof; and the root of every earlier
  size is accepted as a prefix by the consistency proof.\<close>

theorem merkle_proofs_accepted:
  "(i < ml_size lg \<longrightarrow> ip_verify (ml_prove lg i) (leaves lg ! i) (ml_root lg)) \<and>
   (m \<le> ml_size lg \<longrightarrow>
      verify_consistency m (tree_root (take m (leaves lg))) (ml_size lg) (ml_root lg) (prove_consistency lg m))"
proof (intro conjI impI)
  let ?lv = "leaves lg"
  assume i: "i < ml_size lg"
  have "fold_path i (length ?lv) (?lv ! i) (path_of ?lv i 0 (length ?lv)) = Some (tree_root ?lv)"
    using path_of_folds [of i "length ?lv" 0 ?lv] i by (simp add: ml_size_def)
  then show "ip_verify (ml_prove lg i) (?lv ! i) (ml_root lg)"
    using i by (simp add: ip_verify_fold ml_prove_def ml_size_def ml_root_tree)
qed (rule issued_consistency)

lemma merkle_proofs_accepted_witness:
  "ip_verify (ml_prove (ml_of [[1], [2], [3]]) 2) (leaf_hash [3]) (ml_root (ml_of [[1], [2], [3]])) \<and>
   verify_consistency 2 (tree_root [leaf_hash [1], leaf_hash [2]]) 3 (ml_root (ml_of [[1], [2], [3]]))
     (prove_consistency (ml_of [[1], [2], [3]]) 2)"
  using merkle_proofs_accepted [of 2 "ml_of [[1], [2], [3]]" 2] by (simp add: ml_size_def numeral_2_eq_2 numeral_3_eq_3)

text \<open>C13: A verified inclusion proof is evidence: if the verifier accepts a leaf at an index
  against the root of a log of the proof's size, the leaf is the one logged at that index, unless
  two different pairs among those hashed by the log and by the verifier collide.\<close>

theorem merkle_inclusion_sound:
  assumes "ip_verify p leaf (tree_root lv)" "ip_size p = length lv"
    and "no_collision (tree_pairs lv \<union> fold_pairs (ip_index p) (ip_size p) leaf (ip_path p))"
  shows "ip_index p < length lv \<and> leaf = lv ! ip_index p"
proof -
  have v: "ip_index p < ip_size p" "fold_path (ip_index p) (ip_size p) leaf (ip_path p) = Some (tree_root lv)"
    using assms(1) by (simp_all add: ip_verify_fold)
  show ?thesis using fold_path_sound [OF assms(3) v(2)] v(1) assms(2) by simp
qed

lemma merkle_inclusion_sound_witness:
  "[7 :: byte] = [[7 :: byte]] ! 0"
  using merkle_inclusion_sound [of "\<lparr>ip_index = 0, ip_size = 1, ip_path = []\<rparr>" "[7]" "[[7]]"]
  by (simp add: ip_verify_def tree_root_single no_collision_def tree_pairs.simps fold_pairs.simps)

text \<open>C14: A verified consistency proof is evidence that history was only appended to: if the
  verifier accepts it between the root of an old list of leaves and the root of a new one, the old
  list is a prefix of the new one, unless two different pairs among those hashed collide.\<close>

theorem merkle_consistency_sound:
  assumes "verify_consistency (length os) (tree_root os) (length lv) (tree_root lv) proof"
    and "no_collision (tree_pairs lv \<union> tree_pairs os \<union>
           consistency_pairs (length os) (length lv) True (tree_root os) proof)"
  shows "os = take (length os) lv"
proof -
  have le: "length os \<le> length lv" using assms(1) by (simp add: verify_consistency_def split: if_splits)
  consider "length os = 0" | "length os = length lv" | "0 < length os" "length os < length lv"
    using le by linarith
  then show ?thesis
  proof cases
    case 2
    then have "tree_root os = tree_root lv" using assms(1) by (simp add: verify_consistency_def)
    then show ?thesis using tree_root_inj [OF assms(2)] 2 by auto
  next
    case 3
    then have "fold_consistency (length os) (length lv) True (tree_root os) proof =
        Some (tree_root os, tree_root lv)"
      using assms(1) verify_consistency_fold by blast
    from fold_consistency_sound [OF assms(2) this refl refl 3(1) le] show ?thesis by blast
  qed simp
qed

lemma merkle_consistency_sound_witness:
  "[[7 :: byte]] = take (length [[7 :: byte]]) [[7]]"
  using merkle_consistency_sound [of "[[7]]" "[[7]]" "[]"]
  by (simp add: verify_consistency_def no_collision_def tree_pairs.simps consistency_pairs.simps)

text \<open>The file format is exact: a saved log within the limits loads back to the same entries
  and leaf hashes, and whatever loads is byte for byte the file of the log it loads as, so no
  truncated, extended or altered file passes for another log.\<close>

lemma merkle_file_exact:
  "(length es \<le> kMaxEntries \<and> (\<forall>e \<in> set es. length e \<le> kMaxEntryBytes) \<longrightarrow>
      ml_load (ml_save (ml_of es)) = Some (ml_of es)) \<and>
   (ml_load blob = Some lg \<longrightarrow> blob = ml_save lg \<and> leaves lg = map leaf_hash (entries lg))"
proof (intro conjI impI)
  assume a: "length es \<le> kMaxEntries \<and> (\<forall>e \<in> set es. length e \<le> kMaxEntryBytes)"
  let ?n = "word_of_nat (length es) :: 64 word" and ?b = "ml_save (ml_of es)"
  have n: "unat ?n = length es" using a by (intro unat_of_nat64) (simp add: kMaxEntries_def)
  have b: "rest_of (reader_of ?b) = le32 kLogMagic @ le64 ?n @ concat (map entry_image es) @ []"
    by (simp add: ml_save_image)
  obtain r1 where r1: "rd_u32 (reader_of ?b) = Some (kLogMagic, r1)"
    "rest_of r1 = le64 ?n @ concat (map entry_image es) @ []" "in_range r1"
    using rd_u32_put [OF b] by auto
  obtain r2 where r2: "rd_u64 r1 = Some (?n, r2)" "rest_of r2 = concat (map entry_image es) @ []" "in_range r2"
    using rd_u64_put [OF r1(2)] r1(3) by auto
  obtain r3 where r3: "load_entries (length es) r2 ml_empty = Some (r3, ml_of es)" "rest_of r3 = []" "in_range r3"
    using load_entries_save [OF _ r2(2,3)] a unfolding ml_of_def by blast
  then show "ml_load ?b = Some (ml_of es)"
    using a r1(1) r2(1) n by (simp add: ml_load_def at_end_rest)
next
  assume l: "ml_load blob = Some lg"
  obtain r1 n r2 r3 where r: "rd_u32 (reader_of blob) = Some (kLogMagic, r1)" "rd_u64 r1 = Some (n, r2)"
    "load_entries (unat n) r2 ml_empty = Some (r3, lg)" "at_end r3"
    using l by (auto simp: ml_load_def split: option.splits if_splits)
  have 1: "blob = le32 kLogMagic @ rest_of r1" "in_range r1" using rd_u32_bytes [OF r(1)] by auto
  have 2: "rest_of r1 = le64 n @ rest_of r2" "in_range r2" using rd_u64_bytes [OF r(2)] 1(2) by auto
  obtain es where es: "length es = unat n" "rest_of r2 = concat (map entry_image es) @ rest_of r3" "in_range r3"
    "lg = ml_of es"
    using load_entries_image [OF r(3) 2(2)] unfolding ml_of_def by blast
  have "rest_of r3 = []" using r(4) es(3) by (simp add: at_end_rest)
  moreover have "word_of_nat (length es) = n" using es(1) by simp
  ultimately show "blob = ml_save lg" using 1 2 es by (simp add: ml_save_image)
  show "leaves lg = map leaf_hash (entries lg)" using es(4) by simp
qed

lemma merkle_file_exact_witness:
  "ml_load (ml_save (ml_of [[1, 2], []])) = Some (ml_of [[1, 2], []])"
  using merkle_file_exact [of "[[1, 2], []]"] by (simp add: kMaxEntries_def kMaxEntryBytes_def)

end
