(* ===== verification/Digital_Id.thy ===== *)
theory Digital_Id
  imports Merkle_Log
begin

text \<open>
  The tourist identity of \<^verbatim>\<open>src/evidence/digital_id.cpp\<close>: the identity record committed to the
  evidence log, the text a QR code carries, and the offline check of a presented record against a
  cached root. Output parameters the code writes before it knows the result are returned next to
  the flag. \<open>std::stoull\<close> is modelled with its conversions: leading white space, a sign, the
  digits up to the first other character, and the two exceptions.
\<close>

section \<open>The identity record\<close>

definition id_put_u32 :: "byte list \<Rightarrow> 32 word \<Rightarrow> byte list" where
  "id_put_u32 b v = foldl (\<lambda>b i. b @ [ucast (drop_bit (8 * i) v AND 0xFF)]) b [0..<4]"

definition id_get_u32 :: "byte list \<Rightarrow> nat \<Rightarrow> (32 word \<times> nat) option" where
  "id_get_u32 b off =
     (if off + 4 > length b then None
      else Some (foldl (\<lambda>v i. v OR push_bit (8 * i) (ucast (b ! (off + i)))) 0 [0..<4], off + 4))"

definition id_put_i64 :: "byte list \<Rightarrow> int \<Rightarrow> byte list" where
  "id_put_i64 b v =
     (let u = word_of_int v :: 64 word
      in foldl (\<lambda>b i. b @ [ucast (drop_bit (8 * i) u AND 0xFF)]) b [0..<8])"

definition id_get_i64 :: "byte list \<Rightarrow> nat \<Rightarrow> (int \<times> nat) option" where
  "id_get_i64 b off =
     (if off + 8 > length b then None
      else let u = foldl (\<lambda>u i. u OR push_bit (8 * i) (ucast (b ! (off + i)))) 0 [0..<8] :: 64 word
           in Some (sint u, off + 8))"

definition byte_of_char :: "char \<Rightarrow> byte" where
  "byte_of_char c = word_of_nat (of_char c)"

definition char_of_byte :: "byte \<Rightarrow> char" where
  "char_of_byte b = char_of (unat b)"

definition make_identity_record :: "string \<Rightarrow> int \<Rightarrow> byte list" where
  "make_identity_record digital_id issued_ms =
     (let r = id_put_u32 [] (word_of_nat (length digital_id));
          r = r @ map byte_of_char digital_id
      in id_put_i64 r issued_ms)"

definition parse_identity_record :: "byte list \<Rightarrow> string \<times> int \<Rightarrow> bool \<times> string \<times> int" where
  "parse_identity_record record out =
     (case id_get_u32 record 0 of None \<Rightarrow> (False, out)
      | Some (len, off) \<Rightarrow>
          if off + unat len > length record then (False, out)
          else let digital_id = map char_of_byte (take (unat len) (drop off record));
                   off = off + unat len
               in case id_get_i64 record off of None \<Rightarrow> (False, digital_id, snd out)
                  | Some (t, off) \<Rightarrow> (off = length record, digital_id, t))"

section \<open>The QR text\<close>

record qr_payload =
  qr_index :: nat
  qr_size :: nat
  qr_path :: "hash list"

definition encode_qr :: "merkle_log \<Rightarrow> nat \<Rightarrow> qr_payload" where
  "encode_qr lg index =
     \<lparr>qr_index = index, qr_size = ml_size lg, qr_path = ip_path (ml_prove lg index)\<rparr>"

fun dec_string :: "nat \<Rightarrow> string" where
  "dec_string n = (if n < 10 then [char_of (48 + n)] else dec_string (n div 10) @ [char_of (48 + n mod 10)])"

declare dec_string.simps [simp del]

definition qr_to_string :: "qr_payload \<Rightarrow> string" where
  "qr_to_string qr =
     foldl (\<lambda>os h. os @ ''|'' @ to_hex h)
       (''SFTL-ID1|'' @ dec_string (qr_index qr) @ ''|'' @ dec_string (qr_size qr)) (qr_path qr)"

fun split_bar :: "string \<Rightarrow> string list" where
  "split_bar [] = [[]]"
| "split_bar (c # cs) =
     (if c = CHR ''|'' then [] # split_bar cs
      else case split_bar cs of [] \<Rightarrow> [[c]] | p # ps \<Rightarrow> (c # p) # ps)"

definition is_space :: "char \<Rightarrow> bool" where
  "is_space c \<longleftrightarrow> of_char c = (32 :: nat) \<or> (9 \<le> (of_char c :: nat) \<and> of_char c \<le> (13 :: nat))"

definition is_digit :: "char \<Rightarrow> bool" where
  "is_digit c \<longleftrightarrow> 48 \<le> (of_char c :: nat) \<and> of_char c \<le> (57 :: nat)"

definition dec_value :: "string \<Rightarrow> nat" where
  "dec_value ds = foldl (\<lambda>v c. 10 * v + (of_char c - 48)) 0 ds"

fun sign_of :: "string \<Rightarrow> bool \<times> string" where
  "sign_of (c # cs) = (if c = CHR ''-'' then (True, cs) else if c = CHR ''+'' then (False, cs) else (False, c # cs))"
| "sign_of [] = (False, [])"

definition stoull :: "string \<Rightarrow> nat option" where
  "stoull s =
     (let (neg, s') = sign_of (dropWhile is_space s);
          ds = takeWhile is_digit s'; v = dec_value ds
      in if ds = [] \<or> v \<ge> 2 ^ 64 then None
         else Some (if neg then (2 ^ 64 - v) mod 2 ^ 64 else v))"

definition id_hex_digit :: "char \<Rightarrow> nat option" where
  "id_hex_digit c =
     (let n = of_char c
      in if 48 \<le> n \<and> n \<le> 57 then Some (n - 48)
         else if 97 \<le> n \<and> n \<le> 102 then Some (n - 97 + 10)
         else if 65 \<le> n \<and> n \<le> 70 then Some (n - 65 + 10)
         else None)"

fun hex_pairs :: "string \<Rightarrow> byte list option" where
  "hex_pairs (c1 # c2 # cs) =
     (case (id_hex_digit c1, id_hex_digit c2) of
        (Some hi, Some lo) \<Rightarrow>
          (case hex_pairs cs of None \<Rightarrow> None | Some bs \<Rightarrow> Some (word_of_nat (push_bit 4 hi OR lo) # bs))
      | _ \<Rightarrow> None)"
| "hex_pairs cs = Some []"

definition from_hex :: "string \<Rightarrow> byte list option" where
  "from_hex s = (if length s mod 2 \<noteq> 0 then None else hex_pairs s)"

fun qr_read_path :: "string list \<Rightarrow> hash list \<Rightarrow> bool \<times> hash list" where
  "qr_read_path [] path = (True, path)"
| "qr_read_path (p # ps) path =
     (case from_hex p of None \<Rightarrow> (False, path)
      | Some raw \<Rightarrow> if length raw \<noteq> 32 then (False, path) else qr_read_path ps (path @ [raw]))"

definition qr_from_string :: "string \<Rightarrow> qr_payload \<Rightarrow> bool \<times> qr_payload" where
  "qr_from_string s out =
     (let parts = split_bar s
      in if length parts < 3 \<or> parts ! 0 \<noteq> ''SFTL-ID1'' then (False, out)
         else case stoull (parts ! 1) of None \<Rightarrow> (False, out)
              | Some index \<Rightarrow>
                  (let out = out\<lparr>qr_index := index\<rparr>
                   in case stoull (parts ! 2) of None \<Rightarrow> (False, out)
                      | Some n \<Rightarrow>
                          (let (ok, path) = qr_read_path (drop 3 parts) []
                           in (ok, out\<lparr>qr_size := n, qr_path := path\<rparr>))))"

datatype qr_verdict = QrAccepted | QrIndexOutOfRange | QrProofMismatch

definition verify_qr :: "qr_payload \<Rightarrow> byte list \<Rightarrow> hash \<Rightarrow> qr_verdict" where
  "verify_qr qr presented_record cached_root =
     (if qr_index qr \<ge> qr_size qr then QrIndexOutOfRange
      else if \<not> ip_verify \<lparr>ip_index = qr_index qr, ip_size = qr_size qr, ip_path = qr_path qr\<rparr>
                 (leaf_hash presented_record) cached_root
           then QrProofMismatch
      else QrAccepted)"

section \<open>The record round trip\<close>

lemma mask_byte: "ucast (v AND 0xFF) = (ucast v :: byte)" for v :: "'a::len word"
proof (rule bit_word_eqI)
  fix n assume "n < LENGTH(8)"
  then have "n < 8" by simp
  moreover have "bit (0xFF :: 'a word) n \<longleftrightarrow> n < LENGTH('a)" if "n < 8"
  proof -
    have "(0xFF :: 'a word) = mask 8" by (simp add: mask_eq_exp_minus_1)
    then show ?thesis using that by (simp only: bit_mask_iff) auto
  qed
  ultimately show "bit (ucast (v AND 0xFF) :: byte) n \<longleftrightarrow> bit (ucast v :: byte) n"
    by (auto simp: bit_ucast_iff bit_and_iff dest: bit_imp_le_length)
qed

lemma id_put_u32_append: "id_put_u32 b v = b @ le32 v"
proof -
  have "[0..<4] = [0, 1, 2, 3 :: nat]" by (simp add: upt_rec)
  then show ?thesis unfolding id_put_u32_def le32_def put_u32_def by (simp add: mask_byte)
qed

lemma id_put_i64_append: "id_put_i64 b v = b @ le64 (word_of_int v)"
  unfolding id_put_i64_def le64_def put_u64_def upt_8 by (simp add: mask_byte Let_def)

definition reader_at :: "byte list \<Rightarrow> nat \<Rightarrow> reader" where
  "reader_at b off = \<lparr>rd_data = b, rd_off = off\<rparr>"

lemma id_get_u32_reader:
  "off \<le> length b \<Longrightarrow> id_get_u32 b off = map_option (\<lambda>(v, r). (v, rd_off r)) (rd_u32 (reader_at b off))"
proof -
  have u: "[0..<4] = [0, 1, 2, 3 :: nat]" by (simp add: upt_rec)
  assume "off \<le> length b"
  then show ?thesis
    unfolding id_get_u32_def rd_u32_def u
    by (auto simp: reader_at_def have_bytes_def remaining_def Let_def or.assoc)
qed

lemma id_get_i64_reader:
  "off \<le> length b \<Longrightarrow> id_get_i64 b off = map_option (\<lambda>(v, r). (v, rd_off r)) (rd_i64 (reader_at b off))"
  by (auto simp: id_get_i64_def rd_i64_def rd_u64_def reader_at_def have_bytes_def remaining_def)

lemma char_byte_char [simp]: "char_of_byte (byte_of_char c) = c"
proof -
  have "of_char c < (256 :: nat)" by simp
  then have "unat (word_of_nat (of_char c) :: byte) = of_char c"
    by (simp add: unat_of_nat take_bit_nat_eq_self)
  then show ?thesis by (simp add: char_of_byte_def byte_of_char_def)
qed

lemma byte_char_byte [simp]: "byte_of_char (char_of_byte b) = b"
proof -
  have "unat b < 256" using unsigned_less [of b] by simp
  then show ?thesis by (simp add: char_of_byte_def byte_of_char_def of_char_of)
qed

lemma parse_make_identity:
  assumes "length d < 2 ^ 32" "int64_min \<le> t" "t \<le> int64_max"
  shows "parse_identity_record (make_identity_record d t) out = (True, d, t)"
proof -
  let ?n = "word_of_nat (length d) :: 32 word" and ?bs = "map byte_of_char d"
  let ?r = "make_identity_record d t"
  have n: "unat ?n = length d" using assms(1) by (simp add: unat_of_nat take_bit_nat_eq_self)
  have r: "?r = le32 ?n @ ?bs @ le64 (word_of_int t)"
    by (simp add: make_identity_record_def id_put_u32_append id_put_i64_append Let_def)
  have "rest_of (reader_at ?r 0) = le32 ?n @ ?bs @ le64 (word_of_int t)"
    by (simp add: rest_of_def reader_at_def r)
  then obtain r1 where r1: "rd_u32 (reader_at ?r 0) = Some (?n, r1)"
    using rd_u32_put by blast
  have o1: "rd_off r1 = 4" using r1 by (auto simp: rd_u32_def reader_at_def Let_def split: if_splits)
  have g1: "id_get_u32 ?r 0 = Some (?n, 4)" using r1 o1 by (simp add: id_get_u32_reader)
  have len: "length ?r = 4 + length d + 8" by (simp add: r)
  have "rest_of (reader_at ?r (4 + length d)) = le64 (word_of_int t) @ []"
    by (simp add: rest_of_def reader_at_def r)
  then obtain r2 where r2: "rd_i64 (reader_at ?r (4 + length d)) = Some (t, r2)"
    using rd_i64_put assms(2,3) by blast
  have o2: "rd_off r2 = 4 + length d + 8"
    using r2 by (auto simp: rd_i64_def rd_u64_def reader_at_def split: if_splits option.splits)
  have g2: "id_get_i64 ?r (4 + length d) = Some (t, 4 + length d + 8)"
    using r2 o2 len by (simp add: id_get_i64_reader)
  have "map char_of_byte (take (length d) (drop 4 ?r)) = d"
    by (simp add: r comp_def)
  then show ?thesis using g1 g2 len n by (simp add: parse_identity_record_def Let_def)
qed

lemma make_parse_identity:
  assumes "parse_identity_record rec out = (True, d, t)"
  shows "rec = make_identity_record d t"
proof -
  obtain len o1 where g1: "id_get_u32 rec 0 = Some (len, o1)"
    using assms by (auto simp: parse_identity_record_def split: option.splits)
  then obtain r1 where r1: "rd_u32 (reader_at rec 0) = Some (len, r1)" "o1 = rd_off r1"
    by (auto simp: id_get_u32_reader)
  have o1: "o1 = 4" using r1 by (auto simp: rd_u32_def reader_at_def Let_def split: if_splits)
  have f: "4 + unat len \<le> length rec" "d = map char_of_byte (take (unat len) (drop 4 rec))"
    using assms g1 o1 by (auto simp: parse_identity_record_def Let_def split: option.splits if_splits)
  obtain o2 where g2: "id_get_i64 rec (4 + unat len) = Some (t, o2)" "o2 = length rec"
    using assms g1 o1 by (auto simp: parse_identity_record_def Let_def split: option.splits if_splits)
  obtain r2 where r2: "rd_i64 (reader_at rec (4 + unat len)) = Some (t, r2)"
    using g2 id_get_i64_reader [OF f(1)] by auto
  then obtain v where v: "rd_u64 (reader_at rec (4 + unat len)) = Some (v, r2)" "t = sint v"
    by (auto simp: rd_i64_def split: option.splits)
  have l2: "o2 = 4 + unat len + 8" using g2 by (auto simp: id_get_i64_def Let_def split: if_splits)
  have "rest_of r2 = []"
    using v(1) l2 g2(2) by (auto simp: rd_u64_def reader_at_def rest_of_def split: if_splits)
  then have tl: "drop (4 + unat len) rec = le64 v"
    using rd_u64_bytes [OF v(1)] by (simp add: rest_of_def reader_at_def)
  have "rest_of r1 = drop 4 rec"
    using r1(1) by (auto simp: rd_u32_def reader_at_def rest_of_def Let_def split: if_splits)
  then have hd: "rec = le32 len @ drop 4 rec"
    using rd_u32_bytes [OF r1(1)] by (simp add: rest_of_def reader_at_def)
  have md: "drop 4 rec = take (unat len) (drop 4 rec) @ le64 v"
    using tl by (metis add.commute append_take_drop_id drop_drop)
  have "length d = unat len" using f by simp
  then have "word_of_nat (length d) = len" by simp
  moreover have "map byte_of_char d = take (unat len) (drop 4 rec)"
    by (simp add: f(2) comp_def)
  moreover have "word_of_int t = v" by (simp add: v(2))
  ultimately show ?thesis
    using hd md by (simp add: make_identity_record_def id_put_u32_append id_put_i64_append Let_def)
qed

section \<open>The QR text round trip\<close>

lemma split_bar_append: "CHR ''|'' \<notin> set a \<Longrightarrow> split_bar (a @ ''|'' @ b) = a # split_bar b"
  by (induction a) auto

lemma split_bar_last: "CHR ''|'' \<notin> set a \<Longrightarrow> split_bar a = [a]"
  by (induction a) auto

lemma split_bar_join:
  "\<forall>q \<in> set (p # qs). CHR ''|'' \<notin> set q \<Longrightarrow> split_bar (p @ concat (map (\<lambda>q. ''|'' @ q) qs)) = p # qs"
proof (induction qs arbitrary: p)
  case (Cons q qs)
  then show ?case using split_bar_append [of p "q @ concat (map (\<lambda>q. ''|'' @ q) qs)"] by simp
qed (simp add: split_bar_last)

lemma digit_char: "(n :: nat) < 10 \<Longrightarrow> is_digit (char_of (48 + n))"
  by (simp add: is_digit_def of_char_of)

lemma dec_string_digits: "\<forall>c \<in> set (dec_string n). is_digit c"
proof (induction n rule: dec_string.induct)
  case (1 n)
  then show ?case by (subst dec_string.simps) (auto simp: digit_char)
qed

lemma dec_string_nonempty: "dec_string n \<noteq> []"
  by (subst dec_string.simps) simp

lemma dec_value_snoc: "dec_value (ds @ [c]) = 10 * dec_value ds + (of_char c - 48)"
  by (simp add: dec_value_def)

lemma dec_value_string: "dec_value (dec_string n) = n"
proof (induction n rule: dec_string.induct)
  case (1 n)
  show ?case
  proof (cases "n < 10")
    case True
    then show ?thesis by (subst dec_string.simps) (simp add: dec_value_def of_char_of)
  next
    case False
    then show ?thesis using 1 by (subst dec_string.simps) (simp add: dec_value_snoc of_char_of)
  qed
qed

lemma digit_plain: "is_digit c \<Longrightarrow> \<not> is_space c \<and> c \<noteq> CHR ''-'' \<and> c \<noteq> CHR ''+'' \<and> c \<noteq> CHR ''|''"
  by (auto simp: is_digit_def is_space_def)

lemma stoull_dec: "n < 2 ^ 64 \<Longrightarrow> stoull (dec_string n) = Some n"
proof -
  assume n: "n < 2 ^ 64"
  obtain c cs where d: "dec_string n = c # cs" using dec_string_nonempty [of n] by (cases "dec_string n") auto
  have c: "is_digit c" using dec_string_digits [of n] d by auto
  have "sign_of (dropWhile is_space (dec_string n)) = (False, dec_string n)"
    using digit_plain [OF c] by (simp add: d)
  moreover have "takeWhile is_digit (dec_string n) = dec_string n"
    using dec_string_digits by (simp add: takeWhile_eq_all_conv)
  ultimately show ?thesis using n dec_string_nonempty [of n] unfolding stoull_def by (simp del: takeWhile_eq_all_conv add: dec_value_string Let_def)
qed

lemma nibble_digit: "n < 16 \<Longrightarrow> id_hex_digit (hex_of_nibble n) = Some n \<and> hex_of_nibble n \<noteq> CHR ''|''"
proof -
  assume "n < 16"
  moreover have "\<forall>n \<in> set [0..<16]. id_hex_digit (hex_of_nibble n) = Some n \<and> hex_of_nibble n \<noteq> CHR ''|''"
    by code_simp
  ultimately show ?thesis by simp
qed

lemma nibbles: "word_of_nat (push_bit 4 (unat (drop_bit 4 b)) OR unat (b AND 15)) = (b :: byte)"
proof -
  have m: "b AND 15 = take_bit 4 b" by (simp add: take_bit_eq_mask mask_eq_exp_minus_1)
  have "word_of_nat (push_bit 4 (unat (drop_bit 4 b)) OR unat (b AND 15)) = push_bit 4 (drop_bit 4 b) OR (b AND 15)"
    by (simp add: of_nat_or_eq of_nat_push_bit)
  also have "\<dots> = b" unfolding m by (rule bit_eqI) (auto simp: bit_simps)
  finally show ?thesis .
qed

lemma nibble_bounds: "unat (drop_bit 4 b) < 16" "unat (b AND 15) < 16" for b :: byte
proof -
  have "unat (drop_bit 4 b) = unat b div 16" using unat_drop_bit_eq [of 4 b] by (simp add: drop_bit_eq_div [of 4 "unat b"])
  moreover have "unat b < 256" using unsigned_less [of b] by simp
  ultimately show "unat (drop_bit 4 b) < 16" by simp
  have "b AND 15 = take_bit 4 b" by (simp add: take_bit_eq_mask mask_eq_exp_minus_1)
  then have "unat (b AND 15) = take_bit 4 (unat b)" by (simp only: unsigned_take_bit_eq)
  then show "unat (b AND 15) < 16" by (simp add: take_bit_eq_mod)
qed

lemma hex_pairs_to_hex: "hex_pairs (to_hex h) = Some h \<and> length (to_hex h) = 2 * length h \<and> CHR ''|'' \<notin> set (to_hex h)"
proof (induction h)
  case (Cons b h)
  then show ?case
    using nibble_digit [OF nibble_bounds(1) [of b]] nibble_digit [OF nibble_bounds(2) [of b]] nibbles [of b]
    by (simp add: to_hex_def) metis
qed (simp add: to_hex_def)

lemma from_hex_to_hex: "from_hex (to_hex h) = Some h"
  using hex_pairs_to_hex by (simp add: from_hex_def)

lemma qr_read_path_hex: "\<forall>h \<in> set path. length h = 32 \<Longrightarrow> qr_read_path (map to_hex path) acc = (True, acc @ path)"
  by (induction path arbitrary: acc) (simp_all add: from_hex_to_hex)

lemma qr_string_parts:
  "split_bar (qr_to_string qr) =
     ''SFTL-ID1'' # dec_string (qr_index qr) # dec_string (qr_size qr) # map to_hex (qr_path qr)"
proof -
  have f: "foldl (\<lambda>os h. os @ ''|'' @ to_hex h) s hs = s @ concat (map (\<lambda>q. ''|'' @ q) (map to_hex hs))" for s hs
    by (induction hs arbitrary: s) simp_all
  have s: "qr_to_string qr =
      ''SFTL-ID1'' @ concat (map (\<lambda>q. ''|'' @ q) (dec_string (qr_index qr) # dec_string (qr_size qr) # map to_hex (qr_path qr)))"
    unfolding qr_to_string_def f by (simp add: comp_def)
  have "CHR ''|'' \<notin> set (dec_string n)" for n using dec_string_digits [of n] digit_plain by blast
  then have "\<forall>q \<in> set (''SFTL-ID1'' # dec_string (qr_index qr) # dec_string (qr_size qr) # map to_hex (qr_path qr)).
      CHR ''|'' \<notin> set q"
    using hex_pairs_to_hex by auto
  then show ?thesis unfolding s by (rule split_bar_join)
qed

lemma qr_scan_print:
  assumes "qr_index qr < 2 ^ 64" "qr_size qr < 2 ^ 64" "\<forall>h \<in> set (qr_path qr). length h = 32"
  shows "qr_from_string (qr_to_string qr) out = (True, qr)"
  using assms by (simp add: qr_from_string_def qr_string_parts stoull_dec qr_read_path_hex)

lemma mth_length: "\<forall>h \<in> set lv. length h = 32 \<Longrightarrow> hi \<le> length lv \<Longrightarrow> length (mth lv lo hi) = 32"
  by (subst mth.simps) (simp add: Let_def sha256_pair_def)

lemma path_of_lengths:
  "\<forall>h \<in> set lv. length h = 32 \<Longrightarrow> lo \<le> hi \<Longrightarrow> hi \<le> length lv \<Longrightarrow> \<forall>h \<in> set (path_of lv m lo hi). length h = 32"
proof (induction lv m lo hi rule: path_of.induct)
  case (1 lv m lo hi)
  show ?case
  proof (cases "hi - lo \<le> 1")
    case True
    then show ?thesis by (subst path_of.simps) simp
  next
    case False
    then have k: "split_at (hi - lo) < hi - lo" using split_at_bounds [of "hi - lo"] by simp
    have "\<forall>h \<in> set (path_of lv m lo (lo + split_at (hi - lo))). length h = 32" if "m < split_at (hi - lo)"
      using 1(1) [OF refl False refl that 1(3)] 1(5) k by simp
    moreover have "\<forall>h \<in> set (path_of lv (m - split_at (hi - lo)) (lo + split_at (hi - lo)) hi). length h = 32"
      if "\<not> m < split_at (hi - lo)"
      using 1(2) [OF refl False refl that 1(3)] 1(5) k by simp
    moreover have "lo + split_at (hi - lo) \<le> length lv" using k 1(5) by simp
    ultimately show ?thesis
      using False mth_length [OF 1(3)] 1(5) by (subst path_of.simps) (simp add: Let_def)
  qed
qed

section \<open>Properties\<close>

text \<open>The identity record is exact: a digital id of any bytes with its issue time parses back
  to itself, and a record that parses is byte for byte the record of what was parsed, so no two
  records carry the same identity.\<close>

lemma identity_record_exact:
  "(length d < 2 ^ 32 \<and> int64_min \<le> t \<and> t \<le> int64_max \<longrightarrow>
      parse_identity_record (make_identity_record d t) out = (True, d, t)) \<and>
   (parse_identity_record rec out = (True, d, t) \<longrightarrow> rec = make_identity_record d t)"
  using parse_make_identity [of d t out] make_parse_identity [of rec out d t] by blast

lemma identity_record_exact_witness:
  "parse_identity_record (make_identity_record ''T-17|x'' (- 5)) ([], 0) = (True, ''T-17|x'', - 5)"
  using identity_record_exact [of "''T-17|x''" "- 5" "([], 0)"] by (simp add: int64_min_def int64_max_def)

text \<open>C30: The printed permit verifies offline: the QR text of a logged record scans back to the
  proof that was issued, and a verifier that holds only the log's root accepts the record under it.\<close>

theorem qr_permit_verifies:
  assumes "i < length es" "length es < 2 ^ 64"
  shows "qr_from_string (qr_to_string (encode_qr (ml_of es) i)) out = (True, encode_qr (ml_of es) i) \<and>
         verify_qr (encode_qr (ml_of es) i) (es ! i) (ml_root (ml_of es)) = QrAccepted"
proof
  let ?lv = "map leaf_hash es" and ?qr = "encode_qr (ml_of es) i"
  have qr: "qr_index ?qr = i" "qr_size ?qr = length es" "qr_path ?qr = path_of ?lv i 0 (length es)"
    using assms(1) by (simp_all add: encode_qr_def ml_size_def ml_prove_def)
  have "\<forall>h \<in> set ?lv. length h = 32" by (simp add: leaf_hash_def)
  then have "\<forall>h \<in> set (qr_path ?qr). length h = 32"
    unfolding qr(3) by (intro path_of_lengths) simp_all
  then show "qr_from_string (qr_to_string ?qr) out = (True, ?qr)"
    using assms qr by (intro qr_scan_print) simp_all
  have "fold_path i (length es) (?lv ! i) (path_of ?lv i 0 (length es)) = Some (tree_root ?lv)"
    using path_of_folds [of i "length ?lv" 0 ?lv] assms(1) slice_all [of ?lv] by (simp del: slice_all)
  then show "verify_qr ?qr (es ! i) (ml_root (ml_of es)) = QrAccepted"
    using assms(1) qr by (simp add: verify_qr_def ip_verify_fold ml_root_tree)
qed

lemma qr_permit_verifies_witness:
  "verify_qr (encode_qr (ml_of [[7], [8]]) 1) [8] (ml_root (ml_of [[7], [8]])) = QrAccepted"
  using qr_permit_verifies [of 1 "[[7], [8]]"] by simp

end
