(* ===== verification/Lamport.thy ===== *)
theory Lamport
  imports Hash_Table Bytes "HOL-Library.Product_Lexorder"
begin

text \<open>
  Offline reconciliation, \<^verbatim>\<open>src/sync/lamport.cpp\<close>: the device's queue with its logical clock and its
  file, and the server's reconciler, which admits each stamp once (a lookup in the open-addressing
  table), keeps the timeline in Lamport order and measures the skew of the device clocks against
  it. Counters and device ids keep their machine widths, so the clocks wrap as the code's do.
\<close>

section \<open>Clocks and events\<close>

record lamport_clock =
  lc_counter :: "64 word"
  lc_device :: "32 word"

definition lc_tick :: "lamport_clock \<Rightarrow> 64 word \<times> lamport_clock" where
  "lc_tick c = (let n = lc_counter c + 1 in (n, c\<lparr>lc_counter := n\<rparr>))"

definition lc_observe :: "64 word \<Rightarrow> lamport_clock \<Rightarrow> lamport_clock" where
  "lc_observe remote c =
     c\<lparr>lc_counter := (if remote > lc_counter c then remote else lc_counter c) + 1\<rparr>"

definition lc_before :: "lamport_clock \<Rightarrow> lamport_clock \<Rightarrow> bool" where
  "lc_before a b =
     (if lc_counter a \<noteq> lc_counter b then lc_counter a < lc_counter b else lc_device a < lc_device b)"

record stamped_event =
  ev_stamp :: lamport_clock
  device_wall_ms :: int
  payload :: "byte list"
  clock_skew_ms :: int

section \<open>The device's queue\<close>

record offline_queue =
  oq_clock :: lamport_clock
  oq_events :: "stamped_event list"

definition oq_new :: "32 word \<Rightarrow> offline_queue" where
  "oq_new self = \<lparr>oq_clock = \<lparr>lc_counter = 0, lc_device = self\<rparr>, oq_events = []\<rparr>"

definition oq_append :: "offline_queue \<Rightarrow> byte list \<Rightarrow> int \<Rightarrow> 64 word \<times> offline_queue" where
  "oq_append q pl wall_ms =
     (let (c, clk) = lc_tick (oq_clock q);
          e = \<lparr>ev_stamp = \<lparr>lc_counter = c, lc_device = lc_device clk\<rparr>, device_wall_ms = wall_ms,
               payload = pl, clock_skew_ms = 0\<rparr>
      in (c, \<lparr>oq_clock = clk, oq_events = oq_events q @ [e]\<rparr>))"

definition oq_pending :: "offline_queue \<Rightarrow> nat" where
  "oq_pending q = length (oq_events q)"

definition oq_drain :: "offline_queue \<Rightarrow> stamped_event list \<times> offline_queue" where
  "oq_drain q = (oq_events q, q\<lparr>oq_events := []\<rparr>)"

definition kQueueMagic :: "32 word" where
  "kQueueMagic = 0x00315153"

definition kMaxPayloadBytes :: nat where
  "kMaxPayloadBytes = 2 ^ 20"

definition flush_event :: "byte list \<Rightarrow> stamped_event \<Rightarrow> byte list" where
  "flush_event buf e =
     (let buf = put_u64 buf (lc_counter (ev_stamp e));
          buf = put_u32 buf (lc_device (ev_stamp e));
          buf = put_i64 buf (device_wall_ms e);
          buf = put_u32 buf (word_of_nat (length (payload e)))
      in buf @ payload e)"

definition flush_to_disk :: "offline_queue \<Rightarrow> byte list" where
  "flush_to_disk q =
     (let buf = put_u32 [] kQueueMagic;
          buf = put_u32 buf (lc_device (oq_clock q));
          buf = put_u32 buf (word_of_nat (length (oq_events q)))
      in foldl flush_event buf (oq_events q))"

definition read_event :: "reader \<Rightarrow> (stamped_event \<times> reader) option" where
  "read_event r =
     (case rd_u64 r of None \<Rightarrow> None | Some (cnt, r) \<Rightarrow>
      (case rd_u32 r of None \<Rightarrow> None | Some (sdev, r) \<Rightarrow>
      (case rd_i64 r of None \<Rightarrow> None | Some (wall, r) \<Rightarrow>
      (case rd_u32 r of None \<Rightarrow> None | Some (len, r) \<Rightarrow>
         let e = \<lparr>ev_stamp = \<lparr>lc_counter = cnt, lc_device = sdev\<rparr>, device_wall_ms = wall,
                  payload = [], clock_skew_ms = 0\<rparr>
         in if unat len > kMaxPayloadBytes then None
            else if len \<noteq> 0
            then (case rd_bytes r (unat len) of None \<Rightarrow> None
                  | Some (pl, r) \<Rightarrow> Some (e\<lparr>payload := pl\<rparr>, r))
            else Some (e, r)))))"

fun read_events :: "nat \<Rightarrow> reader \<Rightarrow> 64 word \<Rightarrow> stamped_event list \<Rightarrow>
    (stamped_event list \<times> 64 word \<times> reader) option" where
  "read_events 0 r high loaded = Some (loaded, high, r)"
| "read_events (Suc n) r high loaded =
     (case read_event r of None \<Rightarrow> None
      | Some (e, r') \<Rightarrow> read_events n r' (max high (lc_counter (ev_stamp e))) (loaded @ [e]))"

text \<open>The flag and the queue; a refused file leaves the queue as it was.\<close>

definition load_from_disk :: "byte list \<Rightarrow> offline_queue \<Rightarrow> bool \<times> offline_queue" where
  "load_from_disk blob q =
     (case rd_u32 (reader_of blob) of None \<Rightarrow> (False, q) | Some (magic, r) \<Rightarrow>
      if magic \<noteq> kQueueMagic then (False, q) else
      (case rd_u32 r of None \<Rightarrow> (False, q) | Some (dev, r) \<Rightarrow>
      (case rd_u32 r of None \<Rightarrow> (False, q) | Some (cnt, r) \<Rightarrow>
      (case read_events (unat cnt) r 0 [] of None \<Rightarrow> (False, q) | Some (loaded, high, r) \<Rightarrow>
         if \<not> at_end r then (False, q)
         else (True, \<lparr>oq_clock = \<lparr>lc_counter = max (lc_counter (oq_clock q)) high, lc_device = dev\<rparr>,
                      oq_events = loaded\<rparr>)))))"

section \<open>The server's reconciler\<close>

record rec_stats =
  merged :: nat
  duplicates_rejected :: nat
  reordered :: nat
  max_skew_ms :: int

type_synonym stamp_key = "64 word \<times> 32 word"

definition stamp_hash :: "stamp_key \<Rightarrow> nat" where
  "stamp_hash k =
     unat ((fst k * 0x9E3779B97F4A7C15) XOR ((ucast (snd k) :: 64 word) * 0xC2B2AE3D27D4EB4F))"

definition key_of :: "stamped_event \<Rightarrow> stamp_key" where
  "key_of e = (lc_counter (ev_stamp e), lc_device (ev_stamp e))"

record reconciler =
  rc_clock :: lamport_clock
  timeline :: "stamped_event list"
  seen :: "(stamp_key, nat) hash_map"
  rc_stats :: rec_stats

definition rc_new :: reconciler where
  "rc_new = \<lparr>rc_clock = \<lparr>lc_counter = 0, lc_device = 0\<rparr>, timeline = [], seen = hm_init,
             rc_stats = \<lparr>merged = 0, duplicates_rejected = 0, reordered = 0, max_skew_ms = 0\<rparr>\<rparr>"

fun merge_events :: "stamped_event list \<Rightarrow> stamped_event list \<Rightarrow> reconciler \<Rightarrow>
    (stamped_event list \<times> reconciler) option" where
  "merge_events [] admitted rc = Some (admitted, rc)"
| "merge_events (e # es) admitted rc =
     (case hm_put stamp_hash (seen rc) (key_of e) 1 of None \<Rightarrow> None
      | Some (is_new, seen') \<Rightarrow>
          if \<not> is_new
          then merge_events es admitted
                 (rc\<lparr>seen := seen', rc_stats := (rc_stats rc)\<lparr>duplicates_rejected := duplicates_rejected (rc_stats rc) + 1\<rparr>\<rparr>)
          else merge_events es (admitted @ [e])
                 (rc\<lparr>seen := seen', rc_clock := lc_observe (lc_counter (ev_stamp e)) (rc_clock rc),
                     timeline := timeline rc @ [e],
                     rc_stats := (rc_stats rc)\<lparr>merged := merged (rc_stats rc) + 1\<rparr>\<rparr>))"

text \<open>\<open>std::stable_sort\<close> under \<open>before\<close>: the sort key is the stamp, in lexicographic order.\<close>

definition lamport_sort :: "stamped_event list \<Rightarrow> stamped_event list" where
  "lamport_sort es = sort_key key_of es"

fun skew_pass :: "stamped_event list \<Rightarrow> int \<Rightarrow> rec_stats \<Rightarrow> stamped_event list \<times> rec_stats" where
  "skew_pass [] running_max_wall st = ([], st)"
| "skew_pass (e # es) running_max_wall st =
     (let wall = device_wall_ms e;
          (e', st') =
            (if running_max_wall \<noteq> int64_min \<and> wall < running_max_wall
             then let skew = running_max_wall - wall
                  in (e\<lparr>clock_skew_ms := - skew\<rparr>,
                      st\<lparr>reordered := reordered st + 1,
                         max_skew_ms := (if skew > max_skew_ms st then skew else max_skew_ms st)\<rparr>)
             else (e\<lparr>clock_skew_ms := 0\<rparr>, st));
          (es', st'') = skew_pass es (max running_max_wall wall) st'
      in (e' # es', st''))"

definition rc_merge :: "stamped_event list \<Rightarrow> reconciler \<Rightarrow> (nat \<times> stamped_event list \<times> reconciler) option" where
  "rc_merge batch rc =
     (case merge_events batch [] rc of None \<Rightarrow> None
      | Some (admitted, rc) \<Rightarrow>
          let (tl, st) = skew_pass (lamport_sort (timeline rc)) int64_min
                           ((rc_stats rc)\<lparr>reordered := 0, max_skew_ms := 0\<rparr>)
          in Some (length admitted, admitted, rc\<lparr>timeline := tl, rc_stats := st\<rparr>))"

section \<open>Admission\<close>

text \<open>The events of a batch that are new: the first of each stamp that is not held yet.\<close>

fun fresh_events :: "stamp_key set \<Rightarrow> stamped_event list \<Rightarrow> stamped_event list" where
  "fresh_events S [] = []"
| "fresh_events S (e # es) =
     (if key_of e \<in> S then fresh_events S es else e # fresh_events (insert (key_of e) S) es)"

lemma fresh_events_append:
  "fresh_events S (xs @ ys) = fresh_events S xs @ fresh_events (S \<union> key_of ` set xs) ys"
proof (induction xs arbitrary: S)
  case (Cons x xs)
  show ?case
  proof (cases "key_of x \<in> S")
    case True
    then show ?thesis using Cons by (simp add: insert_absorb)
  next
    case False
    then show ?thesis using Cons by simp
  qed
qed simp

lemma fresh_events_keys:
  "key_of ` set (fresh_events S es) = key_of ` set es - S"
  "distinct (map key_of (fresh_events S es))"
  "set (fresh_events S es) \<subseteq> set es"
  by (induction S es rule: fresh_events.induct) auto

text \<open>What an event carries apart from the skew that the reconciler computes.\<close>

definition strip :: "stamped_event \<Rightarrow> stamped_event" where
  "strip e = e\<lparr>clock_skew_ms := 0\<rparr>"

lemma strip_simps [simp]: "key_of (strip e) = key_of e" "device_wall_ms (strip e) = device_wall_ms e"
  "strip (strip e) = strip e" "strip (e\<lparr>clock_skew_ms := x\<rparr>) = strip e"
  by (simp_all add: strip_def key_of_def)

definition seen_keys :: "reconciler \<Rightarrow> stamp_key set" where
  "seen_keys rc = dom (hm_map (seen rc))"

definition rc_inv :: "reconciler \<Rightarrow> bool" where
  "rc_inv rc \<longleftrightarrow> hm_inv stamp_hash (seen rc) \<and> seen_keys rc = key_of ` set (timeline rc)"

lemma merge_events_correct:
  "hm_inv stamp_hash (seen rc) \<Longrightarrow>
   \<exists>rc'. merge_events es adm rc = Some (adm @ fresh_events (seen_keys rc) es, rc') \<and>
     hm_inv stamp_hash (seen rc') \<and> seen_keys rc' = seen_keys rc \<union> key_of ` set es \<and>
     timeline rc' = timeline rc @ fresh_events (seen_keys rc) es"
proof (induction es arbitrary: adm rc)
  case (Cons e es)
  obtain s' where s': "hm_put stamp_hash (seen rc) (key_of e) 1 = Some (key_of e \<notin> seen_keys rc, s')"
    "hm_inv stamp_hash s'" "hm_map s' = (hm_map (seen rc))(key_of e \<mapsto> 1)"
    unfolding seen_keys_def using hm_put_correct [OF Cons.prems] by metis
  show ?case
  proof (cases "key_of e \<in> seen_keys rc")
    case True
    define rc1 where "rc1 = rc\<lparr>seen := s', rc_stats := (rc_stats rc)\<lparr>duplicates_rejected := duplicates_rejected (rc_stats rc) + 1\<rparr>\<rparr>"
    have k: "seen_keys rc1 = seen_keys rc" "hm_inv stamp_hash (seen rc1)" "timeline rc1 = timeline rc"
      using s' True by (auto simp: seen_keys_def rc1_def)
    have "merge_events (e # es) adm rc = merge_events es adm rc1"
      using s'(1) True by (simp add: rc1_def)
    then show ?thesis using Cons.IH [OF k(2), of adm] k True by (auto simp: insert_absorb)
  next
    case False
    define rc1 where "rc1 = rc\<lparr>seen := s', rc_clock := lc_observe (lc_counter (ev_stamp e)) (rc_clock rc),
                     timeline := timeline rc @ [e],
                     rc_stats := (rc_stats rc)\<lparr>merged := merged (rc_stats rc) + 1\<rparr>\<rparr>"
    have k: "seen_keys rc1 = insert (key_of e) (seen_keys rc)" "hm_inv stamp_hash (seen rc1)"
      "timeline rc1 = timeline rc @ [e]"
      using s' by (auto simp: seen_keys_def rc1_def)
    have "merge_events (e # es) adm rc = merge_events es (adm @ [e]) rc1"
      using s'(1) False by (simp add: rc1_def)
    then show ?thesis using Cons.IH [OF k(2), of "adm @ [e]"] k False by auto
  qed
qed simp

section \<open>Order and skew\<close>

lemma skew_pass_strip: "map strip (fst (skew_pass es w st)) = map strip es"
  by (induction es w st rule: skew_pass.induct) (auto simp: Let_def split: prod.splits if_splits)

lemma skew_pass_keys: "map key_of (fst (skew_pass es w st)) = map key_of es"
proof -
  have "map key_of xs = map key_of (map strip xs)" for xs by (simp add: comp_def)
  then show ?thesis by (metis skew_pass_strip)
qed

text \<open>The annotation depends on the wall clocks only: neither the skew left from an earlier merge
  nor the counters of the statistics matter.\<close>

lemma skew_pass_cong:
  "map strip es = map strip fs \<Longrightarrow> fst (skew_pass es w st) = fst (skew_pass fs w st')"
proof (induction es arbitrary: fs w st st')
  case (Cons e es)
  then obtain f fs' where fs: "fs = f # fs'" "strip e = strip f" "map strip es = map strip fs'" by auto
  have w: "device_wall_ms e = device_wall_ms f" using fs(2) by (metis strip_simps(2))
  have "e\<lparr>clock_skew_ms := x\<rparr> = f\<lparr>clock_skew_ms := x\<rparr>" for x
    using fs(2) unfolding strip_def by (cases e; cases f) simp
  then show ?case
    using w Cons.IH [OF fs(3)] unfolding fs(1)
    by (simp add: Let_def split_beta)
qed simp

definition annotate :: "stamped_event list \<Rightarrow> stamped_event list" where
  "annotate es = fst (skew_pass es int64_min \<lparr>merged = 0, duplicates_rejected = 0, reordered = 0, max_skew_ms = 0\<rparr>)"

lemma annotate_skew_pass: "fst (skew_pass es int64_min st) = annotate (map strip es)"
  unfolding annotate_def by (rule skew_pass_cong) simp

lemma map_strip_sort: "map strip (lamport_sort es) = lamport_sort (map strip es)"
proof -
  have ins: "map strip (insort_key key_of x xs) = insort_key key_of (strip x) (map strip xs)" for x xs
    by (induction xs) auto
  show ?thesis unfolding lamport_sort_def by (induction es) (simp_all add: ins)
qed

lemma key_of_before: "key_of a < key_of b \<longleftrightarrow> lc_before (ev_stamp a) (ev_stamp b)"
  by (auto simp: key_of_def lc_before_def less_prod_def)

text \<open>Events with distinct stamps have one Lamport order.\<close>

lemma lamport_sort_unique:
  assumes "set xs = set ys" "distinct (map key_of xs)" "distinct (map key_of ys)"
  shows "lamport_sort xs = lamport_sort ys"
proof -
  have "mset xs = mset ys" using assms by (metis distinct_map set_eq_iff_mset_eq_distinct)
  moreover have "inj_on key_of (set ys)" using assms(3) by (simp add: distinct_map)
  ultimately show ?thesis
    unfolding lamport_sort_def using assms(1) by (intro sort_key_inj_key_eq) simp_all
qed

section \<open>A run of merges\<close>

text \<open>All batches the server received, one after the other. A run never gets stuck.\<close>

fun rc_run :: "stamped_event list list \<Rightarrow> reconciler \<Rightarrow> reconciler option" where
  "rc_run [] rc = Some rc"
| "rc_run (b # bs) rc = (case rc_merge b rc of None \<Rightarrow> None | Some (_, _, rc') \<Rightarrow> rc_run bs rc')"

definition timeline_of :: "stamped_event list \<Rightarrow> stamped_event list" where
  "timeline_of es = annotate (lamport_sort (map strip (fresh_events {} es)))"

lemma rc_merge_correct:
  assumes "rc_inv rc"
  obtains rc' where "rc_merge b rc = Some (length (fresh_events (seen_keys rc) b), fresh_events (seen_keys rc) b, rc')"
    "rc_inv rc'" "seen_keys rc' = seen_keys rc \<union> key_of ` set b"
    "timeline rc' = annotate (lamport_sort (map strip (timeline rc @ fresh_events (seen_keys rc) b)))"
proof -
  let ?fr = "fresh_events (seen_keys rc) b"
  obtain rc1 where m: "merge_events b [] rc = Some (?fr, rc1)" "hm_inv stamp_hash (seen rc1)"
    "seen_keys rc1 = seen_keys rc \<union> key_of ` set b" "timeline rc1 = timeline rc @ ?fr"
    using merge_events_correct [of rc b "[]"] assms by (auto simp: rc_inv_def)
  define sk where "sk = skew_pass (lamport_sort (timeline rc1)) int64_min ((rc_stats rc1)\<lparr>reordered := 0, max_skew_ms := 0\<rparr>)"
  define rc' where "rc' = rc1\<lparr>timeline := fst sk, rc_stats := snd sk\<rparr>"
  have tl: "timeline rc' = annotate (lamport_sort (map strip (timeline rc @ ?fr)))"
    by (simp add: rc'_def sk_def annotate_skew_pass map_strip_sort m(4))
  have "map key_of (timeline rc') = map key_of (lamport_sort (timeline rc1))"
    by (simp add: rc'_def sk_def skew_pass_keys)
  then have "key_of ` set (timeline rc') = key_of ` set (timeline rc1)"
    by (metis lamport_sort_def list.set_map set_sort)
  also have "\<dots> = seen_keys rc1"
    using assms m(3,4) fresh_events_keys(1) [of "seen_keys rc" b] by (auto simp: rc_inv_def image_Un)
  finally have "rc_inv rc'" using m(2) by (simp add: rc_inv_def rc'_def seen_keys_def)
  moreover have "rc_merge b rc = Some (length ?fr, ?fr, rc')"
    using m(1) by (simp add: rc_merge_def rc'_def sk_def Let_def split_beta)
  moreover have "seen_keys rc' = seen_keys rc \<union> key_of ` set b" using m(3) by (simp add: rc'_def seen_keys_def)
  ultimately show ?thesis using tl that by blast
qed

lemma annotate_strip: "map strip (annotate es) = map strip es"
  unfolding annotate_def by (rule skew_pass_strip)

lemma lamport_sort_append: "lamport_sort (lamport_sort xs @ ys) = lamport_sort (xs @ ys)"
proof -
  have "filter (\<lambda>x. key_of x = k) (sort_key key_of (sort_key key_of xs @ ys)) =
      filter (\<lambda>x. key_of x = k) (sort_key key_of xs @ ys)" for k
    by (rule sort_key_stable)
  then have "filter (\<lambda>x. key_of k = key_of x) (sort_key key_of (sort_key key_of xs @ ys)) =
      filter (\<lambda>x. key_of k = key_of x) (xs @ ys)" for k
    using sort_key_stable [of key_of "key_of k" xs] by (simp add: eq_commute [of "key_of k"])
  then show ?thesis
    unfolding lamport_sort_def by (intro properties_for_sort_key [symmetric]) simp_all
qed

lemma rc_new_inv: "rc_inv rc_new" "seen_keys rc_new = {}" "timeline rc_new = []"
  by (simp_all add: rc_inv_def rc_new_def seen_keys_def hm_init_inv hm_map_init)

lemma rc_run_correct:
  "rc_inv rc \<Longrightarrow> seen_keys rc = key_of ` set es \<Longrightarrow> timeline rc = timeline_of es \<Longrightarrow>
   \<exists>rc'. rc_run bs rc = Some rc' \<and> rc_inv rc' \<and> seen_keys rc' = key_of ` set (es @ concat bs) \<and>
     timeline rc' = timeline_of (es @ concat bs)"
proof (induction bs arbitrary: rc es)
  case (Cons b bs)
  let ?fr = "fresh_events (seen_keys rc) b"
  obtain rc1 where m: "rc_merge b rc = Some (length ?fr, ?fr, rc1)"
    "rc_inv rc1" "seen_keys rc1 = seen_keys rc \<union> key_of ` set b"
    "timeline rc1 = annotate (lamport_sort (map strip (timeline rc @ ?fr)))"
    using rc_merge_correct [OF Cons.prems(1)] .
  have "map strip (timeline rc) = lamport_sort (map strip (fresh_events {} es))"
    unfolding Cons.prems(3) timeline_of_def annotate_strip map_strip_sort by (simp add: comp_def)
  then have "lamport_sort (map strip (timeline rc @ ?fr)) = lamport_sort (map strip (fresh_events {} (es @ b)))"
    unfolding fresh_events_append using Cons.prems(2) by (simp add: lamport_sort_append)
  then have "timeline rc1 = timeline_of (es @ b)" using m(4) by (simp add: timeline_of_def)
  moreover have "seen_keys rc1 = key_of ` set (es @ b)" using m(3) Cons.prems(2) by auto
  ultimately show ?case using Cons.IH [OF m(2), of "es @ b"] m(1) by simp
qed simp

lemma timeline_of_nil: "timeline_of [] = []"
  by (simp add: timeline_of_def annotate_def lamport_sort_def)

lemma rc_run_new:
  "\<exists>rc'. rc_run bs rc_new = Some rc' \<and> rc_inv rc' \<and> seen_keys rc' = key_of ` set (concat bs) \<and>
     timeline rc' = timeline_of (concat bs)"
  using rc_run_correct [of rc_new "[]" bs] rc_new_inv timeline_of_nil by simp

section \<open>The queue file\<close>

definition event_image :: "stamped_event \<Rightarrow> byte list" where
  "event_image e =
     le64 (lc_counter (ev_stamp e)) @ le32 (lc_device (ev_stamp e)) @ le64 (word_of_int (device_wall_ms e)) @
     le32 (word_of_nat (length (payload e))) @ payload e"

lemma flush_image:
  "flush_to_disk q = le32 kQueueMagic @ le32 (lc_device (oq_clock q)) @
     le32 (word_of_nat (length (oq_events q))) @ concat (map event_image (oq_events q))"
proof -
  have "foldl flush_event b es = b @ concat (map event_image es)" for b es
    by (induction es arbitrary: b)
      (simp_all add: flush_event_def event_image_def put_u64_append put_u32_append put_i64_append Let_def)
  then show ?thesis by (simp add: flush_to_disk_def put_u32_append Let_def)
qed

definition event_ok :: "stamped_event \<Rightarrow> bool" where
  "event_ok e \<longleftrightarrow> int64_min \<le> device_wall_ms e \<and> device_wall_ms e \<le> int64_max \<and> length (payload e) \<le> kMaxPayloadBytes"

lemma unat_of_nat32: "n < 2 ^ 32 \<Longrightarrow> unat (word_of_nat n :: 32 word) = n"
  by (simp add: unat_of_nat take_bit_nat_eq_self)

lemma read_event_image:
  assumes "event_ok e" "rest_of r = event_image e @ s" "in_range r"
  shows "\<exists>r'. read_event r = Some (strip e, r') \<and> rest_of r' = s \<and> in_range r'"
proof -
  let ?n = "word_of_nat (length (payload e)) :: 32 word"
  have r0: "rest_of r = le64 (lc_counter (ev_stamp e)) @ le32 (lc_device (ev_stamp e)) @
      le64 (word_of_int (device_wall_ms e)) @ le32 ?n @ payload e @ s"
    using assms(2) by (simp add: event_image_def)
  obtain r1 where r1: "rd_u64 r = Some (lc_counter (ev_stamp e), r1)"
    "rest_of r1 = le32 (lc_device (ev_stamp e)) @ le64 (word_of_int (device_wall_ms e)) @ le32 ?n @ payload e @ s"
    "in_range r1"
    using rd_u64_put [OF r0] assms(3) by auto
  obtain r2 where r2: "rd_u32 r1 = Some (lc_device (ev_stamp e), r2)"
    "rest_of r2 = le64 (word_of_int (device_wall_ms e)) @ le32 ?n @ payload e @ s" "in_range r2"
    using rd_u32_put [OF r1(2)] r1(3) by auto
  obtain r3 where r3: "rd_i64 r2 = Some (device_wall_ms e, r3)" "rest_of r3 = le32 ?n @ payload e @ s" "in_range r3"
    using rd_i64_put [OF r2(2)] r2(3) assms(1) by (auto simp: event_ok_def)
  obtain r4 where r4: "rd_u32 r3 = Some (?n, r4)" "rest_of r4 = payload e @ s" "in_range r4"
    using rd_u32_put [OF r3(2)] r3(3) by auto
  obtain r5 where r5: "rd_bytes r4 (length (payload e)) = Some (payload e, r5)" "rest_of r5 = s" "in_range r5"
    using rd_bytes_put [OF r4(2)] r4(3) by auto
  have "length (payload e) < 2 ^ 32" using assms(1) by (simp add: event_ok_def kMaxPayloadBytes_def)
  then have "unat ?n = length (payload e)" by (rule unat_of_nat32)
  then have n: "unat ?n = length (payload e)" "unat ?n \<le> kMaxPayloadBytes"
    using assms(1) by (simp_all add: event_ok_def)
  then have z: "?n = 0 \<longleftrightarrow> payload e = []" by (simp add: word_unat_eq_iff)
  have e: "\<lparr>ev_stamp = \<lparr>lc_counter = lc_counter (ev_stamp e), lc_device = lc_device (ev_stamp e)\<rparr>,
       device_wall_ms = device_wall_ms e, payload = payload e, clock_skew_ms = 0\<rparr> = strip e"
    unfolding strip_def by (cases e) simp
  show ?thesis
  proof (cases "payload e = []")
    case True
    then show ?thesis using r1(1) r2(1) r3(1) r4 n(2) z e by (simp add: read_event_def)
  next
    case False
    then show ?thesis using r1(1) r2(1) r3(1) r4(1) r5 n z e by (simp add: read_event_def)
  qed
qed

definition high_counter :: "64 word \<Rightarrow> stamped_event list \<Rightarrow> 64 word" where
  "high_counter h es = foldl (\<lambda>h e. max h (lc_counter (ev_stamp e))) h es"

lemma read_events_image:
  "\<forall>e \<in> set es. event_ok e \<Longrightarrow> rest_of r = concat (map event_image es) @ s \<Longrightarrow> in_range r \<Longrightarrow>
   \<exists>r'. read_events (length es) r h ld = Some (ld @ map strip es, high_counter h es, r') \<and> rest_of r' = s \<and> in_range r'"
proof (induction es arbitrary: r h ld)
  case (Cons e es)
  obtain r1 where r1: "read_event r = Some (strip e, r1)" "rest_of r1 = concat (map event_image es) @ s" "in_range r1"
    using read_event_image [of e r "concat (map event_image es) @ s"] Cons.prems by auto
  have "lc_counter (ev_stamp (strip e)) = lc_counter (ev_stamp e)" by (simp add: strip_def)
  then show ?case
    using r1(1) Cons.IH [OF _ r1(2,3), of "max h (lc_counter (ev_stamp e))" "ld @ [strip e]"] Cons.prems(1)
    by (simp add: high_counter_def)
qed (simp add: high_counter_def)

lemma load_flush:
  assumes "length (oq_events q) < 2 ^ 32" "\<forall>e \<in> set (oq_events q). event_ok e"
  shows "load_from_disk (flush_to_disk q) q0 =
    (True, \<lparr>oq_clock = \<lparr>lc_counter = max (lc_counter (oq_clock q0)) (high_counter 0 (oq_events q)),
                        lc_device = lc_device (oq_clock q)\<rparr>,
            oq_events = map strip (oq_events q)\<rparr>)"
proof -
  let ?b = "flush_to_disk q" and ?n = "word_of_nat (length (oq_events q)) :: 32 word"
  have r0: "rest_of (reader_of ?b) = le32 kQueueMagic @ le32 (lc_device (oq_clock q)) @ le32 ?n @
      concat (map event_image (oq_events q)) @ []"
    by (simp add: flush_image)
  obtain r1 where r1: "rd_u32 (reader_of ?b) = Some (kQueueMagic, r1)"
    "rest_of r1 = le32 (lc_device (oq_clock q)) @ le32 ?n @ concat (map event_image (oq_events q)) @ []" "in_range r1"
    using rd_u32_put [OF r0] by auto
  obtain r2 where r2: "rd_u32 r1 = Some (lc_device (oq_clock q), r2)"
    "rest_of r2 = le32 ?n @ concat (map event_image (oq_events q)) @ []" "in_range r2"
    using rd_u32_put [OF r1(2)] r1(3) by auto
  obtain r3 where r3: "rd_u32 r2 = Some (?n, r3)"
    "rest_of r3 = concat (map event_image (oq_events q)) @ []" "in_range r3"
    using rd_u32_put [OF r2(2)] r2(3) by auto
  obtain r4 where r4: "read_events (length (oq_events q)) r3 0 [] = Some (map strip (oq_events q), high_counter 0 (oq_events q), r4)"
    "rest_of r4 = []" "in_range r4"
    using read_events_image [OF assms(2) r3(2,3), of 0 "[]"] by auto
  have "unat ?n = length (oq_events q)" using assms(1) by (rule unat_of_nat32)
  then show ?thesis
    using r1(1) r2(1) r3(1) r4 by (simp add: load_from_disk_def at_end_rest)
qed

text \<open>What loads is the image of what was loaded.\<close>

lemma read_event_bytes:
  assumes "read_event r = Some (e, r')" "in_range r"
  shows "rest_of r = event_image e @ rest_of r' \<and> in_range r' \<and> strip e = e"
proof -
  obtain cnt sdev wall len r1 r2 r3 r4 where g: "rd_u64 r = Some (cnt, r1)" "rd_u32 r1 = Some (sdev, r2)"
    "rd_i64 r2 = Some (wall, r3)" "rd_u32 r3 = Some (len, r4)"
    using assms(1) unfolding read_event_def by (auto split: option.splits)
  obtain w where w: "rd_u64 r2 = Some (w, r3)" "wall = sint w"
    using g(3) by (auto simp: rd_i64_def split: option.splits)
  have b1: "rest_of r = le64 cnt @ rest_of r1" "in_range r1" using rd_u64_bytes [OF g(1)] assms(2) by auto
  have b2: "rest_of r1 = le32 sdev @ rest_of r2" "in_range r2" using rd_u32_bytes [OF g(2)] b1(2) by auto
  have b3: "rest_of r2 = le64 w @ rest_of r3" "in_range r3" using rd_u64_bytes [OF w(1)] b2(2) by auto
  have b4: "rest_of r3 = le32 len @ rest_of r4" "in_range r4" using rd_u32_bytes [OF g(4)] b3(2) by auto
  define e0 where "e0 = \<lparr>ev_stamp = \<lparr>lc_counter = cnt, lc_device = sdev\<rparr>, device_wall_ms = wall,
                  payload = [], clock_skew_ms = 0\<rparr>"
  obtain pl where pl: "e = e0\<lparr>payload := pl\<rparr>" "rest_of r4 = pl @ rest_of r'" "length pl = unat len" "in_range r'"
  proof (cases "len = 0")
    case True
    then show ?thesis
      using assms(1) g b4(2) by (intro that [of "[]"]) (auto simp: read_event_def e0_def split: if_splits)
  next
    case False
    then obtain pl where p: "rd_bytes r4 (unat len) = Some (pl, r')" "e = e0\<lparr>payload := pl\<rparr>"
      using assms(1) g by (auto simp: read_event_def e0_def Let_def split: if_splits option.splits)
    show ?thesis using rd_bytes_bytes [OF p(1)] p(2) b4(2) by (intro that [of pl]) auto
  qed
  have "word_of_nat (length pl) = len" by (simp add: pl(3))
  then show ?thesis
    using b1 b2 b3 b4 pl w(2) by (simp add: event_image_def strip_def e0_def)
qed

lemma read_events_bytes:
  "read_events n r h ld = Some (ld', h', r') \<Longrightarrow> in_range r \<Longrightarrow>
   \<exists>es. ld' = ld @ es \<and> length es = n \<and> rest_of r = concat (map event_image es) @ rest_of r' \<and> in_range r' \<and>
     map strip es = es"
proof (induction n arbitrary: r h ld)
  case (Suc n)
  obtain e r1 where e: "read_event r = Some (e, r1)"
    "read_events n r1 (max h (lc_counter (ev_stamp e))) (ld @ [e]) = Some (ld', h', r')"
    using Suc.prems(1) by (auto split: option.splits)
  have b: "rest_of r = event_image e @ rest_of r1" "in_range r1" "strip e = e"
    using read_event_bytes [OF e(1) Suc.prems(2)] by auto
  obtain es where "ld' = (ld @ [e]) @ es" "length es = n" "rest_of r1 = concat (map event_image es) @ rest_of r'"
    "in_range r'" "map strip es = es"
    using Suc.IH [OF e(2) b(2)] by blast
  then show ?case using b by (intro exI [of _ "e # es"]) simp
qed simp

lemma load_image:
  assumes "load_from_disk blob q0 = (True, q)"
  shows "blob = flush_to_disk q \<and> map strip (oq_events q) = oq_events q"
proof -
  obtain r1 dev r2 cnt r3 ld high r4 where g: "rd_u32 (reader_of blob) = Some (kQueueMagic, r1)"
    "rd_u32 r1 = Some (dev, r2)" "rd_u32 r2 = Some (cnt, r3)"
    "read_events (unat cnt) r3 0 [] = Some (ld, high, r4)" "at_end r4"
    "oq_events q = ld" "lc_device (oq_clock q) = dev"
    using assms unfolding load_from_disk_def by (auto split: option.splits if_splits)
  have b1: "blob = le32 kQueueMagic @ rest_of r1" "in_range r1" using rd_u32_bytes [OF g(1)] by auto
  have b2: "rest_of r1 = le32 dev @ rest_of r2" "in_range r2" using rd_u32_bytes [OF g(2)] b1(2) by auto
  have b3: "rest_of r2 = le32 cnt @ rest_of r3" "in_range r3" using rd_u32_bytes [OF g(3)] b2(2) by auto
  have b4: "length ld = unat cnt" "rest_of r3 = concat (map event_image ld) @ rest_of r4" "in_range r4" "map strip ld = ld"
    using read_events_bytes [OF g(4) b3(2)] by auto
  have "rest_of r4 = []" using g(5) b4(3) by (simp add: at_end_rest)
  moreover have "word_of_nat (length ld) = cnt" by (simp add: b4(1))
  ultimately show ?thesis using b1 b2 b3 b4 g(6,7) by (simp add: flush_image)
qed

section \<open>Properties\<close>

text \<open>The offline queue survives a restart exactly: the file of a queue loads back to its
  events with the clock no lower than any stamp in it, a file that loads is byte for byte the file of
  the queue it loads as, and a refused file leaves the queue in memory as it was.\<close>

lemma offline_queue_file_exact:
  "(length (oq_events q) < 2 ^ 32 \<and> (\<forall>e \<in> set (oq_events q). event_ok e) \<longrightarrow>
      load_from_disk (flush_to_disk q) q0 =
        (True, \<lparr>oq_clock = \<lparr>lc_counter = max (lc_counter (oq_clock q0)) (high_counter 0 (oq_events q)),
                            lc_device = lc_device (oq_clock q)\<rparr>,
                oq_events = map strip (oq_events q)\<rparr>)) \<and>
   (load_from_disk blob q0 = (True, q) \<longrightarrow> blob = flush_to_disk q) \<and>
   (\<not> fst (load_from_disk blob q0) \<longrightarrow> snd (load_from_disk blob q0) = q0)"
proof (intro conjI impI)
  assume "\<not> fst (load_from_disk blob q0)"
  then show "snd (load_from_disk blob q0) = q0"
    unfolding load_from_disk_def by (auto split: option.splits if_splits)
qed (use load_flush [of q q0] load_image [of blob q0 q] in auto)

lemma offline_queue_file_exact_witness:
  "oq_events (snd (load_from_disk (flush_to_disk (snd (oq_append (oq_new 3) [1, 2] (- 7)))) (oq_new 0))) =
   [\<lparr>ev_stamp = \<lparr>lc_counter = 1, lc_device = 3\<rparr>, device_wall_ms = - 7, payload = [1, 2], clock_skew_ms = 0\<rparr>]"
proof -
  have "oq_events (snd (oq_append (oq_new 3) [1, 2] (- 7))) =
      [\<lparr>ev_stamp = \<lparr>lc_counter = 1, lc_device = 3\<rparr>, device_wall_ms = - 7, payload = [1, 2], clock_skew_ms = 0\<rparr>]"
    by (simp add: oq_append_def oq_new_def lc_tick_def)
  then show ?thesis
    using offline_queue_file_exact [of "snd (oq_append (oq_new 3) [1, 2] (- 7))" "oq_new 0" "[]"]
    by (simp add: event_ok_def int64_min_def int64_max_def kMaxPayloadBytes_def strip_def)
qed

text \<open>Reconciliation keeps every event once and in order: after any batches the timeline
  holds exactly the stamps received, strictly increasing in Lamport order, each with the content
  of an event received under it; replaying events already received admits nothing and leaves the
  timeline as it is.\<close>

lemma reconcile_idempotent:
  "\<exists>rc. rc_run bs rc_new = Some rc \<and>
     sorted_wrt (\<lambda>a b. lc_before (ev_stamp a) (ev_stamp b)) (timeline rc) \<and>
     key_of ` set (timeline rc) = key_of ` set (concat bs) \<and>
     strip ` set (timeline rc) \<subseteq> strip ` set (concat bs) \<and>
     (\<forall>b. key_of ` set b \<subseteq> key_of ` set (concat bs) \<longrightarrow>
        (\<exists>rc'. rc_merge b rc = Some (0, [], rc') \<and> timeline rc' = timeline rc))"
proof -
  let ?es = "concat bs"
  obtain rc where rc: "rc_run bs rc_new = Some rc" "rc_inv rc" "seen_keys rc = key_of ` set ?es"
    "timeline rc = timeline_of ?es"
    using rc_run_new by blast
  have st: "map strip (timeline rc) = lamport_sort (map strip (fresh_events {} ?es))"
    unfolding rc(4) timeline_of_def annotate_strip map_strip_sort by (simp add: comp_def)
  have keys: "map key_of (timeline rc) = map key_of (map strip (timeline rc))" by (simp add: comp_def)
  have d: "distinct (map key_of (timeline rc))"
  proof -
    have "mset (map key_of (timeline rc)) = mset (map key_of (fresh_events {} ?es))"
      unfolding keys st lamport_sort_def by (simp add: image_mset.compositionality comp_def)
    then show ?thesis using fresh_events_keys(2) mset_eq_imp_distinct_iff by blast
  qed
  moreover have "sorted (map key_of (timeline rc))" unfolding keys st lamport_sort_def by simp
  ultimately have "sorted_wrt (<) (map key_of (timeline rc))" unfolding strict_sorted_iff by blast
  then have "sorted_wrt (\<lambda>a b. key_of a < key_of b) (timeline rc)" by (simp only: sorted_wrt_map)
  then have 1: "sorted_wrt (\<lambda>a b. lc_before (ev_stamp a) (ev_stamp b)) (timeline rc)"
    by (simp add: key_of_before)
  have "strip ` set (timeline rc) = strip ` set (fresh_events {} ?es)"
    using arg_cong [OF st, of set] by (simp add: lamport_sort_def)
  then have 2: "strip ` set (timeline rc) \<subseteq> strip ` set ?es" using fresh_events_keys(3) by blast
  have 3: "\<exists>rc'. rc_merge b rc = Some (0, [], rc') \<and> timeline rc' = timeline rc"
    if b: "key_of ` set b \<subseteq> key_of ` set ?es" for b
  proof -
    have "key_of ` set (fresh_events (seen_keys rc) b) = {}"
      using b unfolding fresh_events_keys(1) rc(3) by blast
    then have "fresh_events (seen_keys rc) b = []" by simp
    then obtain rc' where m: "rc_merge b rc = Some (0, [], rc')"
      "timeline rc' = annotate (lamport_sort (map strip (timeline rc)))"
      using rc_merge_correct [OF rc(2), of b] by (metis append_Nil2 list.size(3))
    have "lamport_sort (map strip (timeline rc)) = lamport_sort (map strip (fresh_events {} ?es))"
      unfolding st using lamport_sort_append [of _ "[]"] by simp
    then show ?thesis using m rc(4) by (simp add: timeline_of_def)
  qed
  show ?thesis using rc 1 2 3 by (auto simp: rc_inv_def)
qed

definition sample_event :: stamped_event where
  "sample_event = hd (oq_events (snd (oq_append (oq_new 1) [4] 9)))"

lemma reconcile_idempotent_witness:
  "\<exists>rc rc'. rc_run [[sample_event], []] rc_new = Some rc \<and> rc_merge [sample_event] rc = Some (0, [], rc') \<and>
     timeline rc' = timeline rc"
  using reconcile_idempotent [of "[[sample_event], []]"] by fastforce

text \<open>C22: The timeline does not depend on how the events travelled: when a stamp identifies an
  event, any two ways of splitting, ordering and repeating the same events in batches give the same
  timeline, skews included.\<close>

theorem reconcile_order_independent:
  assumes "set (concat bs) = set (concat cs)" "inj_on key_of (set (concat cs))"
  shows "\<exists>rb rc. rc_run bs rc_new = Some rb \<and> rc_run cs rc_new = Some rc \<and> timeline rb = timeline rc"
proof -
  have fr: "set (fresh_events {} es) = set es" if "inj_on key_of (set es)" for es
  proof (rule card_subset_eq)
    have "card (set (fresh_events {} es)) = card (key_of ` set (fresh_events {} es))"
      using inj_on_subset [OF that fresh_events_keys(3)] by (simp add: card_image)
    then show "card (set (fresh_events {} es)) = card (set es)"
      using that by (simp add: fresh_events_keys(1) card_image)
  qed (simp_all add: fresh_events_keys(3))
  have "set (map strip (fresh_events {} (concat bs))) = set (map strip (fresh_events {} (concat cs)))"
    using fr [of "concat bs"] fr [of "concat cs"] assms by simp
  then have "timeline_of (concat bs) = timeline_of (concat cs)"
    unfolding timeline_of_def
    using lamport_sort_unique [of "map strip (fresh_events {} (concat bs))" "map strip (fresh_events {} (concat cs))"]
      fresh_events_keys(2) [of "{}" "concat bs"] fresh_events_keys(2) [of "{}" "concat cs"]
    by (simp add: comp_def)
  then show ?thesis using rc_run_new [of bs] rc_run_new [of cs] by auto
qed

lemma reconcile_order_independent_witness:
  "\<exists>rb rc. rc_run [[sample_event], [sample_event\<lparr>ev_stamp := \<lparr>lc_counter = 1, lc_device = 0\<rparr>\<rparr>]] rc_new = Some rb \<and>
     rc_run [[sample_event\<lparr>ev_stamp := \<lparr>lc_counter = 1, lc_device = 0\<rparr>\<rparr>], [], [sample_event, sample_event]] rc_new = Some rc \<and>
     timeline rb = timeline rc"
  using reconcile_order_independent
    [of "[[sample_event], [sample_event\<lparr>ev_stamp := \<lparr>lc_counter = 1, lc_device = 0\<rparr>\<rparr>]]"
        "[[sample_event\<lparr>ev_stamp := \<lparr>lc_counter = 1, lc_device = 0\<rparr>\<rparr>], [], [sample_event, sample_event]]"]
  by (auto simp: sample_event_def oq_append_def oq_new_def lc_tick_def key_of_def inj_on_def)

end
