(* ===== verification/Geo_Base.thy ===== *)
theory Geo_Base
  imports Prelude
begin

text \<open>
  Points on the sphere and their bounding boxes, \<^verbatim>\<open>src/geo/point.cpp\<close> and
  \<^verbatim>\<open>src/geo/bbox.cpp\<close>. Doubles are exact reals here, so rounding, NaN and the padding against it
  are outside the model; the literal the code uses for the circle constant is kept, since the
  correctness of the boxes needs that it is not above the true one. \<open>Bbox::empty()\<close>, whose corners
  are infinite, is the constructor \<open>NoBox\<close>.
\<close>

section \<open>Points\<close>

record lat_lon =
  lat :: real
  lon :: real

record uncertain_point =
  pos :: lat_lon
  accuracy_m :: real
  t_ms :: int

definition kUnusableAccuracy :: real where
  "kUnusableAccuracy = 150"

definition usable :: "uncertain_point \<Rightarrow> bool" where
  "usable p \<longleftrightarrow> accuracy_m p > 0 \<and> accuracy_m p < kUnusableAccuracy"

definition ll_valid :: "lat_lon \<Rightarrow> bool" where
  "ll_valid p \<longleftrightarrow> lat p \<ge> - 90 \<and> lat p \<le> 90 \<and> lon p \<ge> - 180 \<and> lon p \<le> 180"

definition kEarthR :: real where
  "kEarthR = 6371008.8"

definition kPi :: real where
  "kPi = 3.14159265358979323846"

definition kDeg2Rad :: real where
  "kDeg2Rad = kPi / 180"

definition kRad2Deg :: real where
  "kRad2Deg = 180 / kPi"

definition haversine :: "lat_lon \<Rightarrow> lat_lon \<Rightarrow> real" where
  "haversine a b =
     (let p1 = lat a * kDeg2Rad; p2 = lat b * kDeg2Rad;
          dp = (lat b - lat a) * kDeg2Rad; dl = (lon b - lon a) * kDeg2Rad
      in sin (dp / 2) * sin (dp / 2) + cos p1 * cos p2 * sin (dl / 2) * sin (dl / 2))"

definition distance_m :: "lat_lon \<Rightarrow> lat_lon \<Rightarrow> real" where
  "distance_m a b =
     (let s = haversine a b
      in 2 * kEarthR * arcsin (sqrt (if s < 0 then 0 else if s > 1 then 1 else s)))"

text \<open>\<open>std::atan2\<close>, with the one zero the reals have.\<close>

definition atan2 :: "real \<Rightarrow> real \<Rightarrow> real" where
  "atan2 y x =
     (if x > 0 then arctan (y / x)
      else if x < 0 then (if y \<ge> 0 then arctan (y / x) + pi else arctan (y / x) - pi)
      else if y > 0 then pi / 2 else if y < 0 then - pi / 2 else 0)"

definition bearing_deg :: "lat_lon \<Rightarrow> lat_lon \<Rightarrow> real" where
  "bearing_deg a b =
     (let p1 = lat a * kDeg2Rad; p2 = lat b * kDeg2Rad; dl = (lon b - lon a) * kDeg2Rad;
          y = sin dl * cos p2;
          x = cos p1 * sin p2 - sin p1 * cos p2 * cos dl;
          d = atan2 y x * kRad2Deg
      in if d < 0 then d + 360 else d)"

text \<open>The two loops of \<open>normalize_lon\<close>.\<close>

function wrap_down :: "real \<Rightarrow> real" where
  "wrap_down x = (if x > 180 then wrap_down (x - 360) else x)"
  by auto
termination
proof (relation "measure (\<lambda>x. nat \<lceil>x\<rceil>)", simp)
  fix x :: real assume "180 < x"
  moreover have "\<lceil>x - 360\<rceil> = \<lceil>x\<rceil> - 360" by (simp add: ceiling_diff_numeral)
  moreover have "180 < \<lceil>x\<rceil>" using \<open>180 < x\<close> by (simp add: less_ceiling_iff)
  ultimately show "(x - 360, x) \<in> measure (\<lambda>x. nat \<lceil>x\<rceil>)" by simp
qed

function wrap_up :: "real \<Rightarrow> real" where
  "wrap_up x = (if x \<le> - 180 then wrap_up (x + 360) else x)"
  by auto
termination
proof (relation "measure (\<lambda>x. nat \<lceil>- x\<rceil>)", simp)
  fix x :: real assume x: "x \<le> - 180"
  have "\<lceil>- x - 360\<rceil> = \<lceil>- x\<rceil> - 360" by (simp add: ceiling_diff_numeral)
  moreover have "- (x + 360) = - x - 360" by simp
  moreover have "180 \<le> \<lceil>- x\<rceil>" using x by (simp add: le_ceiling_iff)
  ultimately show "(x + 360, x) \<in> measure (\<lambda>x. nat \<lceil>- x\<rceil>)" by simp
qed

declare wrap_down.simps [simp del] wrap_up.simps [simp del]

definition normalize_lon :: "real \<Rightarrow> real" where
  "normalize_lon lon_deg = wrap_up (wrap_down lon_deg)"

definition offset :: "lat_lon \<Rightarrow> real \<Rightarrow> real \<Rightarrow> lat_lon" where
  "offset origin bearing d =
     (let br = bearing * kDeg2Rad; p1 = lat origin * kDeg2Rad;
          l1 = lon origin * kDeg2Rad; ad = d / kEarthR;
          p2 = arcsin (sin p1 * cos ad + cos p1 * sin ad * cos br);
          l2 = l1 + atan2 (sin br * sin ad * cos p1) (cos ad - sin p1 * sin p2)
      in \<lparr>lat = p2 * kRad2Deg, lon = normalize_lon (l2 * kRad2Deg)\<rparr>)"

section \<open>Bounding boxes\<close>

datatype bbox = NoBox | Box (min_lat: real) (min_lon: real) (max_lat: real) (max_lon: real)

fun bb_contains :: "bbox \<Rightarrow> lat_lon \<Rightarrow> bool" where
  "bb_contains NoBox p = False"
| "bb_contains (Box a b c d) p \<longleftrightarrow> lat p \<ge> a \<and> lat p \<le> c \<and> lon p \<ge> b \<and> lon p \<le> d"

fun bb_intersects :: "bbox \<Rightarrow> bbox \<Rightarrow> bool" where
  "bb_intersects (Box a b c d) (Box a' b' c' d') \<longleftrightarrow> \<not> (a' > c \<or> c' < a \<or> b' > d \<or> d' < b)"
| "bb_intersects _ _ = False"

fun bb_expand_point :: "bbox \<Rightarrow> lat_lon \<Rightarrow> bbox" where
  "bb_expand_point NoBox p = Box (lat p) (lon p) (lat p) (lon p)"
| "bb_expand_point (Box a b c d) p = Box (min a (lat p)) (min b (lon p)) (max c (lat p)) (max d (lon p))"

fun bb_expand :: "bbox \<Rightarrow> bbox \<Rightarrow> bbox" where
  "bb_expand NoBox q = q"
| "bb_expand q NoBox = q"
| "bb_expand (Box a b c d) (Box a' b' c' d') = Box (min a a') (min b b') (max c c') (max d d')"

definition bb_of :: "lat_lon list \<Rightarrow> bbox" where
  "bb_of pts = foldl bb_expand_point NoBox pts"

text \<open>The centre and the area are only taken of boxes that hold something.\<close>

definition bb_center :: "bbox \<Rightarrow> lat_lon" where
  "bb_center b = \<lparr>lat = (min_lat b + max_lat b) / 2, lon = (min_lon b + max_lon b) / 2\<rparr>"

definition bb_area :: "bbox \<Rightarrow> real" where
  "bb_area b = (max_lat b - min_lat b) * (max_lon b - min_lon b)"

definition enlargement_to_include :: "bbox \<Rightarrow> bbox \<Rightarrow> real" where
  "enlargement_to_include b q = bb_area (bb_expand b q) - bb_area b"

definition clamp :: "real \<Rightarrow> real \<Rightarrow> real \<Rightarrow> real" where
  "clamp lo hi x = (if x < lo then lo else if x > hi then hi else x)"

definition bb_min_distance_m :: "bbox \<Rightarrow> lat_lon \<Rightarrow> real" where
  "bb_min_distance_m b p =
     (let clat = clamp (min_lat b) (max_lat b) (lat p); clon = clamp (min_lon b) (max_lon b) (lon p)
      in if clat = lat p \<and> clon = lon p then 0 else distance_m p \<lparr>lat = clat, lon = clon\<rparr>)"

definition bb_around :: "lat_lon \<Rightarrow> real \<Rightarrow> bbox" where
  "bb_around c radius_m =
     (let kDeg = 180 / kPi;
          r = (if radius_m > 0 then radius_m else 0);
          delta = (r / kEarthR) * (1 + 1 / 10 ^ 9);
          phi = lat c / kDeg;
          lo = lat c - delta * kDeg; hi = lat c + delta * kDeg
      in if hi \<ge> 90 \<or> lo \<le> - 90 \<or> cos phi \<le> sin delta
         then Box (if lo < - 90 then - 90 else lo) (- 180) (if hi > 90 then 90 else hi) 180
         else let dlon = arcsin (sin delta / cos phi) * kDeg * (1 + 1 / 10 ^ 9)
              in Box lo (lon c - dlon) hi (lon c + dlon))"

section \<open>Normalised longitudes\<close>

lemma wrap_down_le: "wrap_down x \<le> 180 \<and> wrap_down x \<le> x \<and> (- 180 < x \<longrightarrow> - 180 < wrap_down x)"
proof (induction x rule: wrap_down.induct)
  case (1 x)
  then show ?case by (subst (1 2 3) wrap_down.simps) auto
qed

lemma wrap_up_gt: "- 180 < wrap_up x \<and> (x \<le> 180 \<longrightarrow> wrap_up x \<le> 180)"
proof (induction x rule: wrap_up.induct)
  case (1 x)
  then show ?case by (subst (1 2) wrap_up.simps) auto
qed

lemma normalize_lon_range: "- 180 < normalize_lon x \<and> normalize_lon x \<le> 180"
  unfolding normalize_lon_def using wrap_down_le [of x] wrap_up_gt [of "wrap_down x"] by simp

lemma wrap_whole_turns: "\<exists>k. wrap_down x = x + 360 * real_of_int k" "\<exists>k. wrap_up y = y + 360 * real_of_int k"
proof -
  show "\<exists>k. wrap_down x = x + 360 * real_of_int k"
  proof (induction x rule: wrap_down.induct)
    case (1 x)
    show ?case
    proof (cases "x > 180")
      case True
      then obtain k where "wrap_down (x - 360) = x - 360 + 360 * real_of_int k" using 1 by blast
      then have "wrap_down x = x + 360 * real_of_int (k - 1)" using True by (subst wrap_down.simps) (simp add: algebra_simps)
      then show ?thesis by blast
    next
      case False
      then have "wrap_down x = x + 360 * real_of_int 0" by (subst wrap_down.simps) simp
      then show ?thesis by blast
    qed
  qed
  show "\<exists>k. wrap_up y = y + 360 * real_of_int k"
  proof (induction y rule: wrap_up.induct)
    case (1 y)
    show ?case
    proof (cases "y \<le> - 180")
      case True
      then obtain k where "wrap_up (y + 360) = y + 360 + 360 * real_of_int k" using 1 by blast
      then have "wrap_up y = y + 360 * real_of_int (k + 1)" using True by (subst wrap_up.simps) (simp add: algebra_simps)
      then show ?thesis by blast
    next
      case False
      then have "wrap_up y = y + 360 * real_of_int 0" by (subst wrap_up.simps) simp
      then show ?thesis by blast
    qed
  qed
qed

section \<open>The literal circle constant is not above the true one\<close>

lemma arctan_partial_sums:
  assumes "0 < x" "x \<le> 1"
  shows "(\<Sum>i<2*n. (- 1) ^ i * (1 / real (i * 2 + 1) * x ^ (i * 2 + 1))) \<le> arctan x"
    and "arctan x \<le> (\<Sum>i<2*n+1. (- 1) ^ i * (1 / real (i * 2 + 1) * x ^ (i * 2 + 1)))"
proof -
  have a: "\<bar>x\<bar> \<le> 1" using assms by simp
  have "(\<Sum>i. (- 1) ^ i * (1 / real (i * 2 + 1) * x ^ (i * 2 + 1))) \<in>
      {\<Sum>i<2*n. (- 1) ^ i * (1 / real (i * 2 + 1) * x ^ (i * 2 + 1)) ..
       \<Sum>i<2*n+1. (- 1) ^ i * (1 / real (i * 2 + 1) * x ^ (i * 2 + 1))}"
    using summable_Leibniz(2) [OF zeroseq_arctan_series [OF a] monoseq_arctan_series [OF a]] assms(1) by simp
  then show "(\<Sum>i<2*n. (- 1) ^ i * (1 / real (i * 2 + 1) * x ^ (i * 2 + 1))) \<le> arctan x"
    "arctan x \<le> (\<Sum>i<2*n+1. (- 1) ^ i * (1 / real (i * 2 + 1) * x ^ (i * 2 + 1)))"
    using arctan_series [OF a] by simp_all
qed

lemma kPi_le_pi: "kPi \<le> pi"
proof -
  have "arctan (1 / 5) \<ge> (\<Sum>i<2*8. (- 1) ^ i * (1 / real (i * 2 + 1) * (1 / 5) ^ (i * 2 + 1)))"
    by (rule arctan_partial_sums(1)) simp_all
  moreover have "arctan (1 / 239) \<le> (\<Sum>i<2*2+1. (- 1) ^ i * (1 / real (i * 2 + 1) * (1 / 239) ^ (i * 2 + 1)))"
    by (rule arctan_partial_sums(2)) simp_all
  ultimately have "pi \<ge> 16 * (\<Sum>i<2*8. (- 1) ^ i * (1 / real (i * 2 + 1) * (1 / 5) ^ (i * 2 + 1))) -
      4 * (\<Sum>i<2*2+1. (- 1) ^ i * (1 / real (i * 2 + 1) * (1 / 239) ^ (i * 2 + 1)))"
    using machin by linarith
  moreover have "kPi \<le> 16 * (\<Sum>i<2*8. (- 1) ^ i * (1 / real (i * 2 + 1) * (1 / 5) ^ (i * 2 + 1))) -
      4 * (\<Sum>i<2*2+1. (- 1) ^ i * (1 / real (i * 2 + 1) * (1 / 239) ^ (i * 2 + 1)))"
    by (simp add: kPi_def eval_nat_numeral)
  ultimately show ?thesis by linarith
qed

section \<open>The bounding box of a disc\<close>

lemma kPi_bounds: "0 < kPi" "kPi \<le> pi" "kDeg2Rad > 0" "90 * kDeg2Rad = kPi / 2"
  using kPi_le_pi by (simp_all add: kPi_def kDeg2Rad_def)

lemma degree_span: "\<bar>x\<bar> \<le> 180 \<Longrightarrow> \<bar>x * kDeg2Rad\<bar> \<le> pi"
proof -
  assume "\<bar>x\<bar> \<le> 180"
  then have "\<bar>x\<bar> * kDeg2Rad \<le> 180 * kDeg2Rad" using kPi_bounds(3) by (intro mult_right_mono) simp_all
  also have "180 * kDeg2Rad = kPi" by (simp add: kDeg2Rad_def)
  finally show ?thesis using kPi_bounds by (simp add: abs_mult)
qed

lemma cos_lat_nonneg: "\<bar>x\<bar> \<le> 90 \<Longrightarrow> 0 \<le> cos (x * kDeg2Rad)"
proof -
  assume "\<bar>x\<bar> \<le> 90"
  then have "\<bar>x\<bar> * kDeg2Rad \<le> 90 * kDeg2Rad" using kPi_bounds(3) by (intro mult_right_mono) simp_all
  then have "\<bar>x * kDeg2Rad\<bar> \<le> pi / 2" using kPi_bounds by (simp add: abs_mult)
  then show ?thesis by (intro cos_ge_zero) linarith+
qed

lemma cos_central_angle:
  "1 - 2 * haversine c p =
     sin (lat c * kDeg2Rad) * sin (lat p * kDeg2Rad) +
     cos (lat c * kDeg2Rad) * cos (lat p * kDeg2Rad) * cos ((lon p - lon c) * kDeg2Rad)"
proof -
  have half: "sin (x / 2) * sin (x / 2) = (1 - cos x) / 2" for x :: real
  proof -
    have "cos x = cos (x / 2 + x / 2)" by simp
    also have "\<dots> = cos (x / 2) * cos (x / 2) - sin (x / 2) * sin (x / 2)" by (rule cos_add)
    also have "cos (x / 2) * cos (x / 2) = 1 - sin (x / 2) * sin (x / 2)"
      using sin_squared_eq [of "x / 2"] by (simp add: power2_eq_square)
    finally show ?thesis by simp
  qed
  let ?dl = "(lon p - lon c) * kDeg2Rad" and ?a = "lat c * kDeg2Rad" and ?b = "lat p * kDeg2Rad"
  have "cos ?a * cos ?b * sin (?dl / 2) * sin (?dl / 2) = cos ?a * cos ?b * ((1 - cos ?dl) / 2)"
    using half [of ?dl] by (simp add: mult.assoc)
  moreover have "cos ((lat p - lat c) * kDeg2Rad) = cos ?b * cos ?a + sin ?b * sin ?a"
    by (simp add: left_diff_distrib cos_diff)
  ultimately show ?thesis
    unfolding haversine_def Let_def half by (simp add: field_simps)
qed

text \<open>Within a distance r, the central angle is at most \<open>r / R\<close>.\<close>

lemma within_central_angle:
  assumes "\<bar>lat c\<bar> \<le> 90" "\<bar>lat p\<bar> \<le> 90" "distance_m c p \<le> r" "r / kEarthR \<le> t" "t < pi"
  shows "cos t \<le> 1 - 2 * haversine c p" "0 \<le> r"
proof -
  let ?s = "haversine c p"
  have R: "kEarthR > 0" by (simp add: kEarthR_def)
  have s0: "0 \<le> ?s"
  proof -
    have "?s = sin ((lat p - lat c) * kDeg2Rad / 2) ^ 2 +
        cos (lat c * kDeg2Rad) * cos (lat p * kDeg2Rad) * sin ((lon p - lon c) * kDeg2Rad / 2) ^ 2"
      unfolding haversine_def Let_def by (simp add: power2_eq_square)
    then show ?thesis using cos_lat_nonneg assms(1,2) by simp
  qed
  define q where "q = (if ?s > 1 then 1 else ?s)"
  have q: "0 \<le> q" "q \<le> 1" "q \<le> ?s" "?s \<le> 1 \<Longrightarrow> q = ?s" using s0 by (simp_all add: q_def)
  have d: "distance_m c p = 2 * kEarthR * arcsin (sqrt q)"
    using s0 by (simp add: distance_m_def q_def)
  have as: "0 \<le> arcsin (sqrt q)" using q arcsin_le_arcsin [of 0 "sqrt q"] by simp
  then show r0: "0 \<le> r" using d assms(3) R by (metis mult_nonneg_nonneg order_trans zero_le_numeral less_imp_le)
  have "arcsin (sqrt q) \<le> (r / kEarthR) / 2" using d assms(3) R by (simp add: field_simps)
  then have le: "arcsin (sqrt q) \<le> t / 2" using assms(4) by simp
  have "0 \<le> sqrt q" "sqrt q \<le> 1" using q by simp_all
  then have "- 1 \<le> sqrt q" by linarith
  then have "sqrt q = sin (arcsin (sqrt q))" using \<open>sqrt q \<le> 1\<close> by (rule sin_arcsin [symmetric])
  also have "\<dots> \<le> sin (t / 2)"
    using le as assms(5) by (intro sin_monotone_2pi_le) simp_all
  finally have sq: "sqrt q \<le> sin (t / 2)" .
  have t0: "0 \<le> t" using le as by simp
  have "q = sqrt q ^ 2" using q by simp
  also have "\<dots> \<le> sin (t / 2) ^ 2" using sq q by (intro power_mono) simp_all
  finally have qs: "q \<le> sin (t / 2) ^ 2" .
  have "cos (t / 2) > 0" using t0 assms(5) by (intro cos_gt_zero_pi) simp_all
  then have "sin (t / 2) ^ 2 < 1" by (simp add: sin_squared_eq)
  then have "?s \<le> 1" using qs by (simp add: q_def split: if_splits)
  then have "?s \<le> sin (t / 2) ^ 2" using q qs by simp
  moreover have "cos t = 1 - 2 * sin (t / 2) ^ 2" using cos_double_sin [of "t / 2"] by simp
  ultimately show "cos t \<le> 1 - 2 * ?s" by simp
qed

lemma within_latitude:
  assumes "\<bar>lat c\<bar> \<le> 90" "\<bar>lat p\<bar> \<le> 90" "distance_m c p \<le> r" "r / kEarthR \<le> t" "0 \<le> t"
  shows "\<bar>lat p - lat c\<bar> * kDeg2Rad \<le> t"
proof (cases "t < pi")
  case True
  let ?x = "(lat p - lat c) * kDeg2Rad"
  have "\<bar>lat p - lat c\<bar> \<le> 180" using assms(1,2) by linarith
  then have x: "\<bar>?x\<bar> \<le> pi" by (rule degree_span)
  have "cos ?x = cos (lat p * kDeg2Rad) * cos (lat c * kDeg2Rad) + sin (lat p * kDeg2Rad) * sin (lat c * kDeg2Rad)"
    by (simp add: left_diff_distrib cos_diff)
  moreover have "cos (lat c * kDeg2Rad) * cos (lat p * kDeg2Rad) * cos ((lon p - lon c) * kDeg2Rad) \<le>
      cos (lat c * kDeg2Rad) * cos (lat p * kDeg2Rad)"
    using cos_lat_nonneg assms(1,2) by (intro mult_left_le) simp_all
  ultimately have "1 - 2 * haversine c p \<le> cos ?x"
    unfolding cos_central_angle by (simp add: mult.commute)
  then have "cos t \<le> cos \<bar>?x\<bar>" using within_central_angle(1) [OF assms(1-4) True] by (simp add: abs_if)
  then have "\<bar>?x\<bar> \<le> t" using x True assms(5) by (subst (asm) cos_mono_le_eq) simp_all
  then show ?thesis using kPi_bounds(3) by (simp add: abs_mult)
next
  case False
  have "\<bar>lat p - lat c\<bar> \<le> 180" using assms(1,2) by linarith
  then have "\<bar>(lat p - lat c) * kDeg2Rad\<bar> \<le> pi" by (rule degree_span)
  then show ?thesis using False kPi_bounds(3) by (simp add: abs_mult)
qed

lemma two_squares: "(A * s + B * c)\<^sup>2 + (A * c - B * s)\<^sup>2 = (A\<^sup>2 + B\<^sup>2) * (s\<^sup>2 + c\<^sup>2)" for A B s c :: real
  by (simp add: power2_eq_square algebra_simps)

lemma within_longitude:
  assumes "\<bar>lat c\<bar> \<le> 90" "\<bar>lat p\<bar> \<le> 90" "distance_m c p \<le> r" "r / kEarthR \<le> t"
    and "0 \<le> t" "t \<le> pi / 2" "sin t < cos (lat c * kDeg2Rad)" "\<bar>lon p - lon c\<bar> \<le> 180"
  shows "\<bar>lon p - lon c\<bar> * kDeg2Rad \<le> arcsin (sin t / cos (lat c * kDeg2Rad))"
proof -
  let ?a = "lat c * kDeg2Rad" and ?b = "lat p * kDeg2Rad" and ?l = "(lon p - lon c) * kDeg2Rad"
  have st: "0 \<le> sin t" "0 \<le> cos t" using assms(5,6) by (auto intro!: sin_ge_zero cos_ge_zero)
  then have ca: "0 < cos ?a" using assms(7) by simp
  have cb: "0 \<le> cos ?b" using cos_lat_nonneg assms(2) by simp
  have t: "t < pi" using assms(6) pi_gt_zero by linarith
  have ang: "cos t \<le> sin ?a * sin ?b + cos ?a * cos ?b * cos ?l"
    using within_central_angle(1) [OF assms(1-4) t] unfolding cos_central_angle by simp
  have "cos ?l > 0"
  proof (rule ccontr)
    assume "\<not> cos ?l > 0"
    then have "cos ?a * cos ?b * cos ?l \<le> 0" using ca cb by (simp add: mult_nonneg_nonpos)
    then have "cos t \<le> \<bar>sin ?a * sin ?b\<bar>" using ang by linarith
    then have "cos t \<le> \<bar>sin ?a\<bar> * \<bar>sin ?b\<bar>" by (simp only: abs_mult)
    also have "\<dots> \<le> \<bar>sin ?a\<bar>" by (simp add: mult_left_le)
    finally have "cos t ^ 2 \<le> \<bar>sin ?a\<bar> ^ 2" using st(2) by (rule power_mono)
    then have "cos t ^ 2 \<le> sin ?a ^ 2" by (simp only: power2_abs)
    then have "cos ?a ^ 2 \<le> sin t ^ 2" by (simp add: cos_squared_eq)
    then have "cos ?a \<le> sin t" using st(1) by (rule power2_le_imp_le)
    then show False using assms(7) by simp
  qed
  have l: "\<bar>?l\<bar> \<le> pi" using assms(8) by (rule degree_span)
  have l2: "\<bar>?l\<bar> < pi / 2"
  proof (rule ccontr)
    assume "\<not> \<bar>?l\<bar> < pi / 2"
    then have "cos \<bar>?l\<bar> \<le> cos (pi / 2)" using l by (intro cos_monotone_0_pi_le) simp_all
    then show False using \<open>cos ?l > 0\<close> by (simp add: abs_if split: if_splits)
  qed
  let ?A = "sin ?a" and ?B = "cos ?a * cos ?l"
  have cs: "(?A * sin ?b + ?B * cos ?b)\<^sup>2 + (?A * cos ?b - ?B * sin ?b)\<^sup>2 = ?A\<^sup>2 + ?B\<^sup>2"
  proof -
    have "(?A * sin ?b + ?B * cos ?b)\<^sup>2 + (?A * cos ?b - ?B * sin ?b)\<^sup>2 =
        (?A\<^sup>2 + ?B\<^sup>2) * ((sin ?b)\<^sup>2 + (cos ?b)\<^sup>2)"
      by (rule two_squares)
    then show ?thesis by (simp only: sin_cos_squared_add mult_1_right)
  qed
  have "(cos t)\<^sup>2 \<le> (?A * sin ?b + ?B * cos ?b)\<^sup>2"
    using ang st(2) by (intro power_mono) (simp_all add: algebra_simps)
  also have "\<dots> \<le> ?A\<^sup>2 + ?B\<^sup>2" using cs by (metis le_add_same_cancel1 zero_le_power2)
  also have "?A\<^sup>2 + ?B\<^sup>2 = 1 - (cos ?a * sin ?l)\<^sup>2"
    by (simp add: power_mult_distrib sin_squared_eq algebra_simps)
  finally have "(cos ?a * sin ?l)\<^sup>2 \<le> (sin t)\<^sup>2" by (simp add: cos_squared_eq)
  then have "\<bar>cos ?a * sin ?l\<bar> \<le> sin t" using st(1) by (metis abs_le_square_iff abs_of_nonneg)
  then have "cos ?a * \<bar>sin ?l\<bar> \<le> sin t" using ca by (simp add: abs_mult)
  moreover have "\<bar>sin ?l\<bar> = sin \<bar>?l\<bar>"
  proof -
    have "0 \<le> sin \<bar>?l\<bar>" using l by (intro sin_ge_zero) simp_all
    moreover have "\<bar>sin ?l\<bar> = \<bar>sin \<bar>?l\<bar>\<bar>" by (simp add: abs_if)
    ultimately show ?thesis by simp
  qed
  ultimately have "sin \<bar>?l\<bar> \<le> sin t / cos ?a" using ca by (simp add: field_simps)
  moreover have "sin t / cos ?a \<le> 1" using ca assms(7) by simp
  moreover have "0 \<le> sin \<bar>?l\<bar>" using l by (intro sin_ge_zero) simp_all
  ultimately have "arcsin (sin \<bar>?l\<bar>) \<le> arcsin (sin t / cos ?a)" by (intro arcsin_le_arcsin) simp_all
  moreover have "arcsin (sin \<bar>?l\<bar>) = \<bar>?l\<bar>" using l2 by (intro arcsin_sin) simp_all
  ultimately show ?thesis using kPi_bounds(3) by (simp add: abs_mult)
qed

lemma degree_le: "\<bar>x\<bar> * kDeg2Rad \<le> t \<Longrightarrow> \<bar>x\<bar> \<le> t * (180 / kPi)"
  using kPi_bounds(1) by (simp add: kDeg2Rad_def field_simps)

section \<open>Boxes as sets of points\<close>

lemma bb_intersects_sym: "bb_intersects a b = bb_intersects b a"
  by (cases a; cases b) auto

lemma bb_intersects_common:
  "bb_contains a p \<Longrightarrow> bb_contains b p \<Longrightarrow> bb_intersects a b"
  by (cases a; cases b) auto

lemma bb_expand_point_contains1: "bb_contains b p \<Longrightarrow> bb_contains (bb_expand_point b q) p"
  by (cases b) (simp_all add: min_le_iff_disj le_max_iff_disj)

lemma bb_expand_point_contains2: "bb_contains (bb_expand_point b q) q"
  by (cases b) simp_all

lemma bb_expand_contains1: "bb_contains a p \<Longrightarrow> bb_contains (bb_expand a b) p"
  by (cases a; cases b) (simp_all add: min_le_iff_disj le_max_iff_disj)

lemma bb_expand_contains2: "bb_contains b p \<Longrightarrow> bb_contains (bb_expand a b) p"
  by (cases a; cases b) (simp_all add: min_le_iff_disj le_max_iff_disj)

lemma bb_of_contains: "p \<in> set pts \<Longrightarrow> bb_contains (bb_of pts) p"
proof -
  have "bb_contains b p \<or> p \<in> set pts \<Longrightarrow> bb_contains (foldl bb_expand_point b pts) p" for b
    by (induction pts arbitrary: b) (auto intro: bb_expand_point_contains1 bb_expand_point_contains2)
  then show "p \<in> set pts \<Longrightarrow> bb_contains (bb_of pts) p" by (simp add: bb_of_def)
qed

lemma around_covers:
  assumes "ll_valid c" "ll_valid p" "\<bar>lon p - lon c\<bar> \<le> 180" "distance_m c p \<le> r"
  shows "bb_contains (bb_around c r) p"
proof -
  define delta where "delta = ((if r > 0 then r else 0) / kEarthR) * (1 + 1 / 10 ^ 9 :: real)"
  define kd where "kd = 180 / kPi"
  define phi where "phi = lat c / kd"
  have R: "kEarthR > 0" by (simp add: kEarthR_def)
  have kd: "0 < kd" "kd * kDeg2Rad = 1" using kPi_bounds(1) by (simp_all add: kd_def kDeg2Rad_def)
  have phi: "phi = lat c * kDeg2Rad" by (simp add: phi_def kd_def kDeg2Rad_def)
  have lats: "\<bar>lat c\<bar> \<le> 90" "\<bar>lat p\<bar> \<le> 90" using assms(1,2) by (auto simp: ll_valid_def)
  have d0: "0 \<le> delta" using R by (simp add: delta_def)
  have rd: "r / kEarthR \<le> delta"
  proof (cases "r > 0")
    case True
    then have "(r / kEarthR) * 1 \<le> (r / kEarthR) * (1 + 1 / 10 ^ 9 :: real)" using R by (intro mult_left_mono) simp_all
    then show ?thesis using True by (simp add: delta_def)
  qed (use R in \<open>simp add: delta_def divide_nonpos_pos\<close>)
  have la: "\<bar>lat p - lat c\<bar> \<le> delta * kd"
    unfolding kd_def by (rule degree_le) (rule within_latitude [OF lats assms(4) rd d0])
  have around: "bb_around c r =
     (if lat c + delta * kd \<ge> 90 \<or> lat c - delta * kd \<le> - 90 \<or> cos phi \<le> sin delta
      then Box (if lat c - delta * kd < - 90 then - 90 else lat c - delta * kd) (- 180)
             (if lat c + delta * kd > 90 then 90 else lat c + delta * kd) 180
      else Box (lat c - delta * kd) (lon c - arcsin (sin delta / cos phi) * kd * (1 + 1 / 10 ^ 9))
             (lat c + delta * kd) (lon c + arcsin (sin delta / cos phi) * kd * (1 + 1 / 10 ^ 9)))"
    unfolding bb_around_def Let_def delta_def kd_def phi_def by (rule refl)
  show ?thesis
  proof (cases "lat c + delta * kd \<ge> 90 \<or> lat c - delta * kd \<le> - 90 \<or> cos phi \<le> sin delta")
    case True
    then show ?thesis using la assms(2) unfolding around by (auto simp: ll_valid_def)
  next
    case False
    then have f: "lat c + delta * kd < 90" "- 90 < lat c - delta * kd" "sin delta < cos phi" by auto
    then have "delta * kd < 90" by linarith
    then have "delta * kd * kDeg2Rad < 90 * kDeg2Rad" using kPi_bounds(3) by (rule mult_strict_right_mono)
    then have dl: "delta \<le> pi / 2" using kd(2) kPi_bounds by (simp add: mult.assoc)
    have q: "0 \<le> sin delta" using d0 dl by (intro sin_ge_zero) simp_all
    have lo: "\<bar>lon p - lon c\<bar> * kDeg2Rad \<le> arcsin (sin delta / cos phi)"
      using within_longitude [OF lats assms(4) rd d0 dl] f(3) assms(3) unfolding phi by simp
    have "sin delta / cos phi \<le> 1" "0 \<le> sin delta / cos phi" using f(3) q by simp_all
    then have a0: "0 \<le> arcsin (sin delta / cos phi)" using arcsin_le_arcsin [of 0] by fastforce
    have "\<bar>lon p - lon c\<bar> \<le> arcsin (sin delta / cos phi) * kd"
      unfolding kd_def by (rule degree_le [OF lo])
    also have "\<dots> \<le> arcsin (sin delta / cos phi) * kd * (1 + 1 / 10 ^ 9)"
      using a0 kd(1) by (simp add: mult_left_mono mult_le_cancel_left1)
    finally have "\<bar>lon p - lon c\<bar> \<le> arcsin (sin delta / cos phi) * kd * (1 + 1 / 10 ^ 9)" .
    then show ?thesis
      using la unfolding around if_not_P [OF False] bb_contains.simps abs_le_iff by linarith
  qed
qed

section \<open>Properties\<close>



end
