(* ===== verification/Geo_Plane.thy ===== *)
theory Geo_Plane
  imports Geo_Base
begin

text \<open>
  Segments in coordinate space (\<^verbatim>\<open>src/geo/segment.cpp\<close>) and the local metric plane that distances
  to edges are measured in (\<^verbatim>\<open>src/geo/projection.cpp\<close>).
\<close>

section \<open>Segments\<close>

definition kOrientEps :: real where
  "kOrientEps = 1 / 10 ^ 14"

definition kOnEdgeEps :: real where
  "kOnEdgeEps = 1 / 10 ^ 9"

definition within_extent :: "lat_lon \<Rightarrow> lat_lon \<Rightarrow> lat_lon \<Rightarrow> real \<Rightarrow> bool" where
  "within_extent a b p eps \<longleftrightarrow>
     min (lon a) (lon b) - eps \<le> lon p \<and> lon p \<le> max (lon a) (lon b) + eps \<and>
     min (lat a) (lat b) - eps \<le> lat p \<and> lat p \<le> max (lat a) (lat b) + eps"

definition orientation :: "lat_lon \<Rightarrow> lat_lon \<Rightarrow> lat_lon \<Rightarrow> int" where
  "orientation a b c =
     (let v = (lon b - lon a) * (lat c - lat a) - (lat b - lat a) * (lon c - lon a)
      in if v > kOrientEps then 1 else if v < - kOrientEps then - 1 else 0)"

definition point_on_segment :: "lat_lon \<Rightarrow> lat_lon \<Rightarrow> lat_lon \<Rightarrow> bool" where
  "point_on_segment a b p =
     (let dx = lon b - lon a; dy = lat b - lat a;
          cross = dx * (lat p - lat a) - dy * (lon p - lon a)
      in if \<bar>cross\<bar> > kOnEdgeEps * sqrt (dx * dx + dy * dy) then False
         else within_extent a b p kOnEdgeEps)"

definition segments_intersect :: "lat_lon \<Rightarrow> lat_lon \<Rightarrow> lat_lon \<Rightarrow> lat_lon \<Rightarrow> bool" where
  "segments_intersect a b c d =
     (let o1 = orientation a b c; o2 = orientation a b d;
          o3 = orientation c d a; o4 = orientation c d b
      in if o1 \<noteq> o2 \<and> o3 \<noteq> o4 then True
         else if o1 = 0 \<and> within_extent a b c kOrientEps then True
         else if o2 = 0 \<and> within_extent a b d kOrientEps then True
         else if o3 = 0 \<and> within_extent c d a kOrientEps then True
         else if o4 = 0 \<and> within_extent c d b kOrientEps then True
         else False)"

definition segments_properly_cross :: "lat_lon \<Rightarrow> lat_lon \<Rightarrow> lat_lon \<Rightarrow> lat_lon \<Rightarrow> bool" where
  "segments_properly_cross a b c d =
     (let o1 = orientation a b c; o2 = orientation a b d;
          o3 = orientation c d a; o4 = orientation c d b
      in if o1 = 0 \<or> o2 = 0 \<or> o3 = 0 \<or> o4 = 0 then False else o1 \<noteq> o2 \<and> o3 \<noteq> o4)"

lemma orientation_swap: "orientation b a c = - orientation a b c"
proof -
  have "(lon a - lon b) * (lat c - lat b) - (lat a - lat b) * (lon c - lon b) =
      - ((lon b - lon a) * (lat c - lat a) - (lat b - lat a) * (lon c - lon a))"
    by (simp add: algebra_simps)
  moreover have "kOrientEps > 0" by (simp add: kOrientEps_def)
  ultimately show ?thesis by (simp add: orientation_def Let_def)
qed

lemma within_extent_swap: "within_extent b a p e = within_extent a b p e"
  by (simp add: within_extent_def min.commute max.commute)

text \<open>The predicate does not depend on the direction of the segments or on their order.\<close>

lemma segments_intersect_flip1: "segments_intersect b a c d = segments_intersect a b c d"
  unfolding segments_intersect_def Let_def orientation_swap [of b a] within_extent_swap [of b a]
  by auto

lemma segments_intersect_sym: "segments_intersect c d a b = segments_intersect a b c d"
  unfolding segments_intersect_def Let_def by auto

lemma segments_intersect_flip2: "segments_intersect a b d c = segments_intersect a b c d"
  using segments_intersect_flip1 segments_intersect_sym by metis

lemma properly_cross_intersect: "segments_properly_cross a b c d \<Longrightarrow> segments_intersect a b c d"
  by (auto simp: segments_properly_cross_def segments_intersect_def Let_def split: if_splits)

section \<open>The local plane\<close>

record meters =
  m_x :: real
  m_y :: real

definition m_per_deg_lat :: real where
  "m_per_deg_lat = kEarthR * kDeg2Rad"

definition m_per_deg_lon :: "real \<Rightarrow> real" where
  "m_per_deg_lon lat_deg = kEarthR * kDeg2Rad * cos (lat_deg * kDeg2Rad)"

definition lon_delta_deg :: "real \<Rightarrow> real \<Rightarrow> real" where
  "lon_delta_deg l1 l2 = wrap_up (wrap_down (l2 - l1))"

record local_plane =
  lp_origin :: lat_lon
  lp_per_lat :: real
  lp_per_lon :: real

definition plane_at :: "lat_lon \<Rightarrow> local_plane" where
  "plane_at orig = \<lparr>lp_origin = orig, lp_per_lat = m_per_deg_lat, lp_per_lon = m_per_deg_lon (lat orig)\<rparr>"

definition to_meters :: "local_plane \<Rightarrow> lat_lon \<Rightarrow> meters" where
  "to_meters pl p =
     \<lparr>m_x = lon_delta_deg (lon (lp_origin pl)) (lon p) * lp_per_lon pl,
      m_y = (lat p - lat (lp_origin pl)) * lp_per_lat pl\<rparr>"

definition to_latlon :: "local_plane \<Rightarrow> meters \<Rightarrow> lat_lon" where
  "to_latlon pl m =
     (let la = lat (lp_origin pl) + m_y m / lp_per_lat pl;
          lo = lon (lp_origin pl) + (if lp_per_lon pl \<noteq> 0 then m_x m / lp_per_lon pl else 0)
      in \<lparr>lat = la, lon = wrap_up (wrap_down lo)\<rparr>)"

definition plane_distance_m :: "meters \<Rightarrow> meters \<Rightarrow> real" where
  "plane_distance_m a b =
     (let dx = m_x a - m_x b; dy = m_y a - m_y b in sqrt (dx * dx + dy * dy))"

text \<open>The distance and the clamped parameter of the closest point.\<close>

definition seg_distance :: "lat_lon \<Rightarrow> lat_lon \<Rightarrow> lat_lon \<Rightarrow> real \<times> real" where
  "seg_distance p a b =
     (let plane = plane_at a; pm = to_meters plane p; bm = to_meters plane b;
          len2 = m_x bm * m_x bm + m_y bm * m_y bm
      in if len2 < 1 / 10 ^ 12 then (sqrt (m_x pm * m_x pm + m_y pm * m_y pm), 0)
         else let t = (m_x pm * m_x bm + m_y pm * m_y bm) / len2;
                  t = (if t < 0 then 0 else if t > 1 then 1 else t);
                  dx = m_x pm - t * m_x bm; dy = m_y pm - t * m_y bm
              in (sqrt (dx * dx + dy * dy), t))"

definition point_segment_distance_m :: "lat_lon \<Rightarrow> lat_lon \<Rightarrow> lat_lon \<Rightarrow> real" where
  "point_segment_distance_m p a b = fst (seg_distance p a b)"

definition point_segment_closest :: "lat_lon \<Rightarrow> lat_lon \<Rightarrow> lat_lon \<Rightarrow> real \<times> lat_lon" where
  "point_segment_closest p a b =
     (let (d, t) = seg_distance p a b; bm = to_meters (plane_at a) b
      in (d, to_latlon (plane_at a) \<lparr>m_x = t * m_x bm, m_y = t * m_y bm\<rparr>))"

lemma seg_distance_nonneg: "0 \<le> fst (seg_distance p a b)"
  by (simp add: seg_distance_def Let_def)

text \<open>The clamped parameter is the closest one of the segment.\<close>

lemma clamped_projection_minimal:
  fixes px py cx cy :: real
  assumes "0 < cx * cx + cy * cy" "0 \<le> u" "u \<le> 1"
    and t: "t = (let q = (px * cx + py * cy) / (cx * cx + cy * cy) in if q < 0 then 0 else if q > 1 then 1 else q)"
  shows "(px - t * cx) * (px - t * cx) + (py - t * cy) * (py - t * cy) \<le>
         (px - u * cx) * (px - u * cx) + (py - u * cy) * (py - u * cy)"
proof -
  define L where "L = cx * cx + cy * cy"
  define q where "q = (px * cx + py * cy) / L"
  have L: "0 < L" "px * cx + py * cy = q * L" using assms(1) by (simp_all add: L_def q_def)
  have sq: "(px - s * cx) * (px - s * cx) + (py - s * cy) * (py - s * cy) =
      px * px + py * py - q * q * L + L * ((s - q) * (s - q))" for s
  proof -
    have "(px - s * cx) * (px - s * cx) + (py - s * cy) * (py - s * cy) =
        px * px + py * py - 2 * s * (px * cx + py * cy) + s * s * L"
      by (simp add: L_def algebra_simps)
    then show ?thesis unfolding L(2) by (simp add: algebra_simps)
  qed
  have "\<bar>t - q\<bar> \<le> \<bar>u - q\<bar>"
    using t assms(2,3) unfolding L_def [symmetric] q_def [symmetric] Let_def by (auto split: if_splits)
  then have "(t - q) * (t - q) \<le> (u - q) * (u - q)" by (metis abs_le_square_iff power2_eq_square)
  then show ?thesis unfolding sq using L(1) by simp
qed

end
