(* ===== verification/Sweep_Line.thy ===== *)
theory Sweep_Line
  imports Geo_Plane
begin

text \<open>
  Self-intersection of a ring: the pairwise reference of \<^verbatim>\<open>src/geo/polygon.cpp\<close> and the
  Shamos-Hoey sweep of \<^verbatim>\<open>src/geo/sweep_line.cpp\<close> with its AVL status structure. The code keeps the
  tree in an array of nodes; here it is an algebraic tree with the stored heights, and SIZE_MAX is
  \<open>None\<close>. Every crossing the sweep reports is one that the reference reports.
\<close>

type_synonym ring = "lat_lon list"

record segment =
  seg_a :: lat_lon
  seg_b :: lat_lon

section \<open>The pairwise reference\<close>

definition ring_self_intersects_pairwise :: "ring \<Rightarrow> bool" where
  "ring_self_intersects_pairwise r =
     (let n = length r
      in if n < 4 then False
         else list_ex (\<lambda>i. list_ex (\<lambda>j.
                \<not> (j = i + 1 \<or> i = 0 \<and> j = n - 1) \<and>
                segments_intersect (r ! i) (r ! ((i + 1) mod n)) (r ! j) (r ! ((j + 1) mod n)))
              [i + 1..<n]) [0..<n])"

section \<open>Order of the active segments\<close>

definition segs_cross :: "segment \<Rightarrow> segment \<Rightarrow> bool" where
  "segs_cross s t = segments_intersect (seg_a s) (seg_b s) (seg_a t) (seg_b t)"

definition y_at :: "segment \<Rightarrow> real \<Rightarrow> real" where
  "y_at s x =
     (let x1 = lon (seg_a s); y1 = lat (seg_a s); x2 = lon (seg_b s); y2 = lat (seg_b s)
      in if \<bar>x2 - x1\<bar> < 1 / 10 ^ 18 then min y1 y2
         else let xc = x;
                  xc = (if xc < min x1 x2 then min x1 x2 else xc);
                  xc = (if xc > max x1 x2 then max x1 x2 else xc)
              in y1 + (y2 - y1) * (xc - x1) / (x2 - x1))"

definition slope :: "segment \<Rightarrow> real" where
  "slope s =
     (let dx = lon (seg_b s) - lon (seg_a s); dy = lat (seg_b s) - lat (seg_a s)
      in if \<bar>dx\<bar> < 1 / 10 ^ 18 then 10 ^ 18 else dy / dx)"

definition kEpsX :: real where
  "kEpsX = 1 / 10 ^ 9"

definition less_at :: "segment \<Rightarrow> segment \<Rightarrow> real \<Rightarrow> bool" where
  "less_at a b x =
     (let xb = x - kEpsX; ya = y_at a xb; yb = y_at b xb
      in if \<bar>ya - yb\<bar> > 1 / 10 ^ 12 then ya < yb else slope a < slope b)"

record sweep_event =
  se_x :: real
  se_type :: nat
  se_si :: nat

definition ring_adjacent :: "nat \<Rightarrow> nat \<Rightarrow> nat \<Rightarrow> bool" where
  "ring_adjacent i j n =
     (let lo = min i j; hi = max i j in hi - lo = 1 \<or> lo = 0 \<and> hi = n - 1)"

section \<open>The status structure\<close>

datatype stree = SLeaf | SNode stree nat int stree

record status =
  st_segs :: "segment list"
  st_root :: stree
  st_x :: real

definition st_less :: "segment list \<Rightarrow> real \<Rightarrow> nat \<Rightarrow> nat \<Rightarrow> bool" where
  "st_less segs x a b =
     (if less_at (segs ! a) (segs ! b) x then True
      else if less_at (segs ! b) (segs ! a) x then False
      else a < b)"

fun pred_loop :: "(nat \<Rightarrow> nat \<Rightarrow> bool) \<Rightarrow> stree \<Rightarrow> nat \<Rightarrow> nat option \<Rightarrow> nat option" where
  "pred_loop lt SLeaf sg best = best"
| "pred_loop lt (SNode l s h r) sg best = (if lt s sg then pred_loop lt r sg (Some s) else pred_loop lt l sg best)"

fun succ_loop :: "(nat \<Rightarrow> nat \<Rightarrow> bool) \<Rightarrow> stree \<Rightarrow> nat \<Rightarrow> nat option \<Rightarrow> nat option" where
  "succ_loop lt SLeaf sg best = best"
| "succ_loop lt (SNode l s h r) sg best = (if lt sg s then succ_loop lt l sg (Some s) else succ_loop lt r sg best)"

definition st_predecessor :: "status \<Rightarrow> nat \<Rightarrow> nat option" where
  "st_predecessor st sg = pred_loop (st_less (st_segs st) (st_x st)) (st_root st) sg None"

definition st_successor :: "status \<Rightarrow> nat \<Rightarrow> nat option" where
  "st_successor st sg = succ_loop (st_less (st_segs st) (st_x st)) (st_root st) sg None"

fun st_h :: "stree \<Rightarrow> int" where
  "st_h SLeaf = 0"
| "st_h (SNode l s h r) = h"

definition st_fix :: "stree \<Rightarrow> nat \<Rightarrow> stree \<Rightarrow> stree" where
  "st_fix l s r = SNode l s (1 + max (st_h l) (st_h r)) r"

fun st_bal :: "stree \<Rightarrow> int" where
  "st_bal SLeaf = 0"
| "st_bal (SNode l s h r) = st_h l - st_h r"

fun st_rot_r :: "stree \<Rightarrow> stree" where
  "st_rot_r (SNode (SNode a x hx b) y hy c) = st_fix a x (st_fix b y c)"
| "st_rot_r t = t"

fun st_rot_l :: "stree \<Rightarrow> stree" where
  "st_rot_l (SNode a x hx (SNode b y hy c)) = st_fix (st_fix a x b) y c"
| "st_rot_l t = t"

definition st_rebalance :: "stree \<Rightarrow> nat \<Rightarrow> stree \<Rightarrow> stree" where
  "st_rebalance l s r =
     (let t = st_fix l s r; b = st_bal t
      in if b > 1 then st_rot_r (SNode (if st_bal l < 0 then st_rot_l l else l) s (st_h t) r)
         else if b < - 1 then st_rot_l (SNode l s (st_h t) (if st_bal r > 0 then st_rot_r r else r))
         else t)"

fun st_insert_at :: "(nat \<Rightarrow> nat \<Rightarrow> bool) \<Rightarrow> stree \<Rightarrow> nat \<Rightarrow> stree" where
  "st_insert_at lt SLeaf sg = SNode SLeaf sg 1 SLeaf"
| "st_insert_at lt (SNode l s h r) sg =
     (if lt sg s then st_rebalance (st_insert_at lt l sg) s r
      else st_rebalance l s (st_insert_at lt r sg))"

fun st_min :: "stree \<Rightarrow> nat \<Rightarrow> nat" where
  "st_min SLeaf d = d"
| "st_min (SNode l s h r) d = st_min l s"

fun st_erase_at :: "(nat \<Rightarrow> nat \<Rightarrow> bool) \<Rightarrow> stree \<Rightarrow> nat \<Rightarrow> stree" where
  "st_erase_at lt SLeaf sg = SLeaf"
| "st_erase_at lt (SNode l s h r) sg =
     (if lt sg s then st_rebalance (st_erase_at lt l sg) s r
      else if lt s sg then st_rebalance l s (st_erase_at lt r sg)
      else if l = SLeaf then r
      else if r = SLeaf then l
      else let m = st_min r s in st_rebalance l m (st_erase_at lt r m))"

definition st_insert :: "status \<Rightarrow> nat \<Rightarrow> status" where
  "st_insert st sg = st\<lparr>st_root := st_insert_at (st_less (st_segs st) (st_x st)) (st_root st) sg\<rparr>"

definition st_erase :: "status \<Rightarrow> nat \<Rightarrow> status" where
  "st_erase st sg = st\<lparr>st_root := st_erase_at (st_less (st_segs st) (st_x st)) (st_root st) sg\<rparr>"

section \<open>The sweep\<close>

definition kReach :: nat where
  "kReach = 3"

definition left_to_right :: "segment \<Rightarrow> segment" where
  "left_to_right sg = (if lon (seg_a sg) > lon (seg_b sg) then \<lparr>seg_a = seg_b sg, seg_b = seg_a sg\<rparr> else sg)"

definition event_le :: "sweep_event \<Rightarrow> sweep_event \<Rightarrow> bool" where
  "event_le p q \<longleftrightarrow>
     (if se_x p \<noteq> se_x q then se_x p < se_x q
      else if se_type p \<noteq> se_type q then se_type p < se_type q
      else se_si p \<le> se_si q)"

fun insert_event :: "sweep_event \<Rightarrow> sweep_event list \<Rightarrow> sweep_event list" where
  "insert_event e [] = [e]"
| "insert_event e (f # fs) = (if event_le e f then e # f # fs else f # insert_event e fs)"

definition sweep_events :: "segment list \<Rightarrow> sweep_event list" where
  "sweep_events s =
     foldr insert_event
       (concat (map (\<lambda>i. [\<lparr>se_x = lon (seg_a (s ! i)), se_type = 0, se_si = i\<rparr>,
                          \<lparr>se_x = lon (seg_b (s ! i)), se_type = 1, se_si = i\<rparr>]) [0..<length s])) []"

text \<open>The nearest active segments on one side, nearest first, at most \<open>kReach\<close>.\<close>

fun reach :: "nat \<Rightarrow> (nat \<Rightarrow> nat option) \<Rightarrow> nat option \<Rightarrow> nat list" where
  "reach 0 step p = []"
| "reach (Suc k) step None = []"
| "reach (Suc k) step (Some p) = p # reach k step (step p)"

definition sweep_test :: "segment list \<Rightarrow> bool \<Rightarrow> nat \<Rightarrow> nat \<Rightarrow> bool" where
  "sweep_test s ring_adjacency a b \<longleftrightarrow>
     \<not> (ring_adjacency \<and> ring_adjacent a b (length s)) \<and> segs_cross (s ! a) (s ! b)"

fun sweep_loop :: "segment list \<Rightarrow> bool \<Rightarrow> sweep_event list \<Rightarrow> status \<Rightarrow> bool" where
  "sweep_loop s adj [] st = False"
| "sweep_loop s adj (e # es) st =
     (let st = st\<lparr>st_x := se_x e\<rparr>; si = se_si e
      in if se_type e = 0
         then let st = st_insert st si;
                  lo = reach kReach (st_predecessor st) (st_predecessor st si);
                  hi = reach kReach (st_successor st) (st_successor st si)
              in if list_ex (sweep_test s adj si) (lo @ hi) then True else sweep_loop s adj es st
         else let p = st_predecessor st si; q = st_successor st si
              in if (case (p, q) of (Some p, Some q) \<Rightarrow> sweep_test s adj p q | _ \<Rightarrow> False) then True
                 else sweep_loop s adj es (st_erase st si))"

definition sweep :: "segment list \<Rightarrow> bool \<Rightarrow> bool" where
  "sweep segs adj =
     (if length segs < 2 then False
      else let s = map left_to_right segs
           in sweep_loop s adj (sweep_events s) \<lparr>st_segs = s, st_root = SLeaf, st_x = 0\<rparr>)"

definition ring_segments :: "ring \<Rightarrow> segment list" where
  "ring_segments r = map (\<lambda>i. \<lparr>seg_a = r ! i, seg_b = r ! ((i + 1) mod length r)\<rparr>) [0..<length r]"

definition ring_self_intersects_sweep :: "ring \<Rightarrow> bool" where
  "ring_self_intersects_sweep r = (if length r < 4 then False else sweep (ring_segments r) True)"

definition kSweepThresholdVertices :: nat where
  "kSweepThresholdVertices = 80"

definition ring_self_intersects :: "ring \<Rightarrow> bool" where
  "ring_self_intersects r =
     (if length r \<ge> kSweepThresholdVertices then ring_self_intersects_sweep r
      else ring_self_intersects_pairwise r)"

section \<open>What the status structure holds\<close>

fun st_set :: "stree \<Rightarrow> nat set" where
  "st_set SLeaf = {}"
| "st_set (SNode l s h r) = insert s (st_set l \<union> st_set r)"

lemma st_fix_set [simp]: "st_set (st_fix l s r) = insert s (st_set l \<union> st_set r)"
  by (simp add: st_fix_def)

lemma st_rot_r_set [simp]: "st_set (st_rot_r t) = st_set t"
  by (cases t rule: st_rot_r.cases) auto

lemma st_rot_l_set [simp]: "st_set (st_rot_l t) = st_set t"
  by (cases t rule: st_rot_l.cases) auto

lemma st_rebalance_set [simp]: "st_set (st_rebalance l s r) = insert s (st_set l \<union> st_set r)"
  by (simp add: st_rebalance_def Let_def)

lemma st_insert_at_set: "st_set (st_insert_at lt t sg) = insert sg (st_set t)"
  by (induction t) auto

lemma st_min_in: "st_min t d \<in> insert d (st_set t)"
  by (induction t arbitrary: d) auto

lemma st_erase_at_set: "st_set (st_erase_at lt t sg) \<subseteq> st_set t"
proof (induction t arbitrary: sg)
  case (SNode l s h r)
  have "st_min r s \<in> insert s (st_set r)" by (rule st_min_in)
  then show ?case using SNode.IH(1) [of sg] SNode.IH(2) [of sg] SNode.IH(2) [of "st_min r s"]
    by (auto simp: Let_def)
qed simp

lemma pred_loop_in: "pred_loop lt t sg best = Some p \<Longrightarrow> best = Some p \<or> p \<in> st_set t \<and> lt p sg"
  by (induction lt t sg best rule: pred_loop.induct) (auto split: if_splits)

lemma succ_loop_in: "succ_loop lt t sg best = Some p \<Longrightarrow> best = Some p \<or> p \<in> st_set t \<and> lt sg p"
  by (induction lt t sg best rule: succ_loop.induct) (auto split: if_splits)

lemma less_at_asym: "less_at a b x \<Longrightarrow> \<not> less_at b a x"
  by (auto simp: less_at_def Let_def abs_minus_commute split: if_splits)

lemma st_less_asym: "st_less segs x a b \<Longrightarrow> \<not> st_less segs x b a"
  using less_at_asym by (fastforce simp: st_less_def split: if_splits)

section \<open>Reported crossings are genuine\<close>

text \<open>The order of three segments can only be cyclic through ties below the tolerance.\<close>

definition cyclic_order :: "segment list \<Rightarrow> bool" where
  "cyclic_order s \<longleftrightarrow>
     (\<exists>x a b c. st_less s x a b \<and> st_less s x b c \<and> st_less s x c a)"

definition reports :: "segment list \<Rightarrow> bool \<Rightarrow> bool" where
  "reports s adj \<longleftrightarrow>
     (\<exists>a < length s. \<exists>b < length s. a \<noteq> b \<and> sweep_test s adj a b)"

lemma reach_chain:
  assumes "\<And>a b. step a = Some b \<Longrightarrow> b \<in> S \<and> R b a" "step si = p" "q \<in> set (reach 3 step p)"
    and "\<And>a b. R a b \<Longrightarrow> \<not> R b a"
  shows "q \<in> S \<and> (q \<noteq> si \<or> (\<exists>a b. R si a \<and> R a b \<and> R b si))"
proof (cases p)
  case (Some p0)
  note 0 = assms(1) [of si p0]
  show ?thesis
  proof (cases "step p0")
    case None
    then show ?thesis using assms Some 0 by (auto simp: numeral_3_eq_3)
  next
    case (Some p1)
    note 1 = assms(1) [of p0 p1]
    show ?thesis
    proof (cases "step p1")
      case None
      then show ?thesis using assms \<open>p = Some p0\<close> Some 0 1 by (auto simp: numeral_3_eq_3)
    next
      case (Some p2)
      then show ?thesis
        using assms(1) [of p1 p2] assms(2-4) \<open>p = Some p0\<close> \<open>step p0 = Some p1\<close> 0 1
        by (auto simp: numeral_3_eq_3)
    qed
  qed
qed (use assms(3) in \<open>simp add: numeral_3_eq_3\<close>)

lemma sweep_loop_sound:
  "sweep_loop s adj es st \<Longrightarrow> st_segs st = s \<Longrightarrow> st_set (st_root st) \<subseteq> {..<length s} \<Longrightarrow>
   \<forall>e \<in> set es. se_si e < length s \<Longrightarrow> reports s adj \<or> cyclic_order s"
proof (induction es arbitrary: st)
  case (Cons e es)
  define st1 where "st1 = st\<lparr>st_x := se_x e\<rparr>"
  let ?si = "se_si e"
  have si: "?si < length s" and f: "st_segs st1 = s" "st_set (st_root st1) \<subseteq> {..<length s}"
    using Cons.prems by (auto simp: st1_def)
  show ?case
  proof (cases "se_type e = 0")
    case True
    define st2 where "st2 = st_insert st1 ?si"
    have g: "st_segs st2 = s" "st_set (st_root st2) \<subseteq> {..<length s}"
      using f si by (auto simp: st2_def st_insert_def st_insert_at_set)
    let ?lo = "reach kReach (st_predecessor st2) (st_predecessor st2 ?si)"
    let ?hi = "reach kReach (st_successor st2) (st_successor st2 ?si)"
    have "list_ex (sweep_test s adj ?si) (?lo @ ?hi) \<or> sweep_loop s adj es st2"
      using Cons.prems(1) True by (auto simp: st1_def st2_def Let_def split: if_splits)
    then show ?thesis
    proof
      assume "sweep_loop s adj es st2"
      then show ?thesis using Cons.IH g Cons.prems(4) by auto
    next
      assume "list_ex (sweep_test s adj ?si) (?lo @ ?hi)"
      then obtain q where q: "q \<in> set ?lo \<or> q \<in> set ?hi" "sweep_test s adj ?si q" by (auto simp: list_ex_iff)
      let ?R = "st_less s (st_x st2)"
      have "q \<in> st_set (st_root st2) \<and> (q \<noteq> ?si \<or> (\<exists>a b. ?R ?si a \<and> ?R a b \<and> ?R b ?si))"
        using q(1)
      proof
        assume "q \<in> set ?lo"
        then show ?thesis
          using reach_chain [of "st_predecessor st2" "st_set (st_root st2)" ?R ?si _ q] pred_loop_in g(1) st_less_asym
          unfolding st_predecessor_def kReach_def by blast
      next
        assume "q \<in> set ?hi"
        then have "q \<in> st_set (st_root st2) \<and> (q \<noteq> ?si \<or> (\<exists>a b. ?R a ?si \<and> ?R b a \<and> ?R ?si b))"
          using reach_chain [of "st_successor st2" "st_set (st_root st2)" "\<lambda>a b. ?R b a" ?si _ q] succ_loop_in g(1) st_less_asym
          unfolding st_successor_def kReach_def by blast
        then show ?thesis by blast
      qed
      then show ?thesis using q(2) si g(2) unfolding reports_def cyclic_order_def by blast
    qed
  next
    case False
    define st2 where "st2 = st_erase st1 ?si"
    have g: "st_segs st2 = s" "st_set (st_root st2) \<subseteq> {..<length s}"
      using f st_erase_at_set by (fastforce simp: st2_def st_erase_def)+
    consider p q where "st_predecessor st1 ?si = Some p" "st_successor st1 ?si = Some q" "sweep_test s adj p q"
      | "sweep_loop s adj es st2"
      using Cons.prems(1) False by (auto simp: st1_def st2_def Let_def split: if_splits option.splits)
    then show ?thesis
    proof cases
      case 1
      then have "p \<in> st_set (st_root st1) \<and> st_less s (st_x st1) p ?si"
        "q \<in> st_set (st_root st1) \<and> st_less s (st_x st1) ?si q"
        using pred_loop_in succ_loop_in f(1) unfolding st_predecessor_def st_successor_def by blast+
      then have "p < length s" "q < length s" "p \<noteq> q" using f(2) st_less_asym by blast+
      then show ?thesis using 1(3) unfolding reports_def by blast
    next
      case 2
      then show ?thesis using Cons.IH g Cons.prems(4) by auto
    qed
  qed
qed simp

lemma insert_event_set: "set (insert_event e es) = insert e (set es)"
  by (induction es) auto

lemma sweep_events_indices: "e \<in> set (sweep_events s) \<Longrightarrow> se_si e < length s"
proof -
  have "set (foldr insert_event xs ys) = set xs \<union> set ys" for xs ys
    by (induction xs) (auto simp: insert_event_set)
  then show "e \<in> set (sweep_events s) \<Longrightarrow> se_si e < length s" by (auto simp: sweep_events_def)
qed

lemma segs_cross_left_to_right: "segs_cross (left_to_right s) (left_to_right t) = segs_cross s t"
  unfolding segs_cross_def left_to_right_def
  by (simp add: segments_intersect_flip1 segments_intersect_flip2)

lemma ring_segments_cross:
  assumes "i < length r" "j < length r"
  shows "segs_cross (ring_segments r ! i) (ring_segments r ! j) =
    segments_intersect (r ! i) (r ! ((i + 1) mod length r)) (r ! j) (r ! ((j + 1) mod length r))"
  using assms by (simp add: segs_cross_def ring_segments_def)

lemma ring_sweep_sound:
  assumes "ring_self_intersects_sweep r"
  shows "ring_self_intersects_pairwise r \<or> cyclic_order (map left_to_right (ring_segments r))"
proof -
  let ?s = "map left_to_right (ring_segments r)" and ?n = "length r"
  have n: "4 \<le> ?n" "length ?s = ?n"
    using assms by (auto simp: ring_self_intersects_sweep_def ring_segments_def split: if_splits)
  define st where "st = \<lparr>st_segs = ?s, st_root = SLeaf, st_x = 0\<rparr>"
  have st: "st_segs st = ?s" "st_set (st_root st) = {}" by (simp_all add: st_def)
  have "sweep_loop ?s True (sweep_events ?s) st"
    using assms n by (simp add: ring_self_intersects_sweep_def sweep_def Let_def st_def split: if_splits)
  then have "reports ?s True \<or> cyclic_order ?s"
    using sweep_loop_sound [of ?s True "sweep_events ?s" st] st sweep_events_indices [of _ ?s] by blast
  moreover have "ring_self_intersects_pairwise r" if "reports ?s True"
  proof -
    from that obtain a b where ab: "a < ?n" "b < ?n" "a \<noteq> b" "sweep_test ?s True a b"
      unfolding reports_def n(2) by blast
    define i j where "i = min a b" and "j = max a b"
    have ij: "i < j" "j < ?n" using ab by (auto simp: i_def j_def)
    have len: "length (ring_segments r) = ?n" by (simp add: ring_segments_def)
    have "segs_cross (?s ! a) (?s ! b)" "\<not> ring_adjacent a b ?n"
      using ab(4) n(2) by (auto simp: sweep_test_def)
    then have "segs_cross (ring_segments r ! a) (ring_segments r ! b)"
      using ab(1,2) len by (simp add: segs_cross_left_to_right)
    then have "segs_cross (ring_segments r ! i) (ring_segments r ! j)"
      unfolding i_def j_def by (cases "a < b") (auto simp: segs_cross_def segments_intersect_sym min_def max_def)
    then have "segments_intersect (r ! i) (r ! ((i + 1) mod ?n)) (r ! j) (r ! ((j + 1) mod ?n))"
      using ij by (simp add: ring_segments_cross)
    moreover have "\<not> (j = i + 1 \<or> i = 0 \<and> j = ?n - 1)"
      using \<open>\<not> ring_adjacent a b ?n\<close> by (auto simp: ring_adjacent_def Let_def i_def j_def)
    moreover have "i \<in> set [0..<?n]" "j \<in> set [i + 1..<?n]" "\<not> ?n < 4" using ij n(1) by auto
    ultimately show ?thesis
      unfolding ring_self_intersects_pairwise_def Let_def list_ex_iff by (simp only: if_False) blast
  qed
  ultimately show ?thesis by blast
qed

end
