(* ===== verification/Polygon.thy ===== *)
theory Polygon
  imports Sweep_Line
begin

text \<open>
  Polygons with holes and their validation, \<^verbatim>\<open>src/geo/polygon.cpp\<close>, and point containment and the
  three-valued verdict on an uncertain fix, \<^verbatim>\<open>src/geo/containment.cpp\<close>. The loops over a ring visit
  the edges from vertex j to vertex i with \<open>j = i - 1\<close>, cyclically: \<open>ring_edges\<close> lists them in
  that order.
\<close>

record polygon =
  outer :: ring
  holes :: "ring list"
  pg_bbox :: bbox

definition polygon_of :: "ring \<Rightarrow> polygon" where
  "polygon_of r = \<lparr>outer = r, holes = [], pg_bbox = bb_of r\<rparr>"

definition recompute_bbox :: "polygon \<Rightarrow> polygon" where
  "recompute_bbox pg = pg\<lparr>pg_bbox := bb_of (outer pg)\<rparr>"

definition add_hole :: "polygon \<Rightarrow> ring \<Rightarrow> polygon" where
  "add_hole pg h = recompute_bbox (pg\<lparr>holes := holes pg @ [h]\<rparr>)"

definition vertex_count :: "polygon \<Rightarrow> nat" where
  "vertex_count pg = foldl (\<lambda>n h. n + length h) (length (outer pg)) (holes pg)"

definition ring_edges :: "ring \<Rightarrow> (lat_lon \<times> lat_lon) list" where
  "ring_edges r = (if r = [] then [] else zip (last r # butlast r) r)"

definition cross_term :: "lat_lon \<times> lat_lon \<Rightarrow> real" where
  "cross_term e = lon (fst e) * lat (snd e) - lon (snd e) * lat (fst e)"

definition ring_signed_area :: "ring \<Rightarrow> real" where
  "ring_signed_area r =
     (if length r < 3 then 0 else foldl (\<lambda>a e. a + cross_term e) 0 (ring_edges r) / 2)"

definition ring_moment :: "ring \<Rightarrow> real \<times> real \<times> real" where
  "ring_moment r =
     foldl (\<lambda>(a, mx, my) e.
              (a + cross_term e,
               mx + (lon (fst e) + lon (snd e)) * cross_term e,
               my + (lat (fst e) + lat (snd e)) * cross_term e)) (0, 0, 0) (ring_edges r)"

definition ring_perimeter_m :: "ring \<Rightarrow> real" where
  "ring_perimeter_m r =
     (if length r < 2 then 0 else foldl (\<lambda>p e. p + distance_m (fst e) (snd e)) 0 (ring_edges r))"

text \<open>The half-open rule: the edge meets the rightward ray from p.\<close>

definition crosses_ray :: "lat_lon \<Rightarrow> lat_lon \<times> lat_lon \<Rightarrow> bool" where
  "crosses_ray p e =
     (let rj = fst e; ri = snd e
      in if (lat ri > lat p) \<noteq> (lat rj > lat p)
         then let t = (lat p - lat ri) / (lat rj - lat ri)
              in lon p < lon ri + t * (lon rj - lon ri)
         else False)"

fun point_in_edges :: "(lat_lon \<times> lat_lon) list \<Rightarrow> lat_lon \<Rightarrow> bool \<Rightarrow> bool" where
  "point_in_edges [] p ins = ins"
| "point_in_edges (e # es) p ins =
     (if point_on_segment (fst e) (snd e) p then True
      else point_in_edges es p (if crosses_ray p e then \<not> ins else ins))"

definition point_in_ring :: "ring \<Rightarrow> lat_lon \<Rightarrow> bool" where
  "point_in_ring r p = (if length r < 3 then False else point_in_edges (ring_edges r) p False)"

definition rings_edges_cross :: "ring \<Rightarrow> ring \<Rightarrow> bool" where
  "rings_edges_cross a b =
     list_ex (\<lambda>i. list_ex (\<lambda>j.
        segments_intersect (a ! i) (a ! ((i + 1) mod length a)) (b ! j) (b ! ((j + 1) mod length b)))
        [0..<length b]) [0..<length a]"

definition outer_signed_area :: "polygon \<Rightarrow> real" where
  "outer_signed_area pg = ring_signed_area (outer pg)"

definition outer_perimeter_m :: "polygon \<Rightarrow> real" where
  "outer_perimeter_m pg = ring_perimeter_m (outer pg)"

definition pg_signed_area :: "polygon \<Rightarrow> real" where
  "pg_signed_area pg =
     (let out = ring_signed_area (outer pg);
          hs = foldl (\<lambda>s h. s + \<bar>ring_signed_area h\<bar>) 0 (holes pg);
          sign = (if out < 0 then - 1 else 1);
          magnitude = \<bar>out\<bar> - hs
      in sign * (if magnitude > 0 then magnitude else 0))"

definition centroid :: "polygon \<Rightarrow> lat_lon" where
  "centroid pg =
     (let m0 = ring_moment (outer pg);
          outer_sign = (if fst m0 < 0 then - 1 else 1);
          (a2, mx, my) =
            foldl (\<lambda>(a2, mx, my) h.
                     let (ha2, hmx, hmy) = ring_moment h;
                         flip = (if ha2 * outer_sign > 0 then - 1 else 1)
                     in (a2 + flip * ha2, mx + flip * hmx, my + flip * hmy)) m0 (holes pg)
      in if \<bar>a2\<bar> < 1 / 10 ^ 18 then (if outer pg = [] then \<lparr>lat = 0, lon = 0\<rparr> else outer pg ! 0)
         else \<lparr>lat = my / (3 * a2), lon = mx / (3 * a2)\<rparr>)"

definition perimeter_m :: "polygon \<Rightarrow> real" where
  "perimeter_m pg = foldl (\<lambda>p h. p + ring_perimeter_m h) (ring_perimeter_m (outer pg)) (holes pg)"

section \<open>Validation\<close>

datatype validity =
    Ok | TooFewVertices | SelfIntersecting | ZeroArea | HoleTooFewVertices | HoleSelfIntersecting
  | HoleZeroArea | HoleOutsideOuter | HoleCrossesOuter | HolesOverlap

fun validate_holes :: "ring \<Rightarrow> ring list \<Rightarrow> validity" where
  "validate_holes out [] = Ok"
| "validate_holes out (h # hs) =
     (if length h < 3 then HoleTooFewVertices
      else if ring_self_intersects h then HoleSelfIntersecting
      else if \<bar>ring_signed_area h\<bar> < 1 / 10 ^ 16 then HoleZeroArea
      else if list_ex (\<lambda>v. \<not> point_in_ring out v) h then HoleOutsideOuter
      else if rings_edges_cross h out then HoleCrossesOuter
      else validate_holes out hs)"

definition holes_overlap :: "ring list \<Rightarrow> bool" where
  "holes_overlap hs =
     list_ex (\<lambda>i. list_ex (\<lambda>j.
        rings_edges_cross (hs ! i) (hs ! j) \<or>
        point_in_ring (hs ! i) (hs ! j ! 0) \<or> point_in_ring (hs ! j) (hs ! i ! 0))
        [i + 1..<length hs]) [0..<length hs]"

definition validate :: "polygon \<Rightarrow> validity" where
  "validate pg =
     (if length (outer pg) < 3 then TooFewVertices
      else if ring_self_intersects (outer pg) then SelfIntersecting
      else if \<bar>ring_signed_area (outer pg)\<bar> < 1 / 10 ^ 16 then ZeroArea
      else case validate_holes (outer pg) (holes pg) of
             Ok \<Rightarrow> if holes_overlap (holes pg) then HolesOverlap else Ok
           | v \<Rightarrow> v)"

section \<open>Containment by ray casting\<close>

text \<open>The crossings, or \<open>None\<close> when the point is on the boundary.\<close>

fun edge_crossings :: "(lat_lon \<times> lat_lon) list \<Rightarrow> lat_lon \<Rightarrow> nat \<Rightarrow> nat option" where
  "edge_crossings [] p c = Some c"
| "edge_crossings (e # es) p c =
     (if point_on_segment (fst e) (snd e) p then None
      else edge_crossings es p (if crosses_ray p e then c + 1 else c))"

definition ring_crossings :: "ring \<Rightarrow> lat_lon \<Rightarrow> nat option" where
  "ring_crossings r p = edge_crossings (ring_edges r) p 0"

fun hole_crossings :: "ring list \<Rightarrow> lat_lon \<Rightarrow> nat \<Rightarrow> nat option" where
  "hole_crossings [] p c = Some c"
| "hole_crossings (h # hs) p c =
     (case ring_crossings h p of None \<Rightarrow> None | Some k \<Rightarrow> hole_crossings hs p (c + k))"

definition pg_contains :: "polygon \<Rightarrow> lat_lon \<Rightarrow> bool" where
  "pg_contains pg p =
     (if \<not> bb_contains (pg_bbox pg) p then False
      else case ring_crossings (outer pg) p of None \<Rightarrow> True
           | Some c \<Rightarrow> (case hole_crossings (holes pg) p c of None \<Rightarrow> True | Some c \<Rightarrow> odd c))"

section \<open>Containment by winding number\<close>

definition side_of :: "lat_lon \<Rightarrow> lat_lon \<times> lat_lon \<Rightarrow> real" where
  "side_of p e =
     (let rj = fst e; ri = snd e
      in (lon rj - lon ri) * (lat p - lat ri) - (lon p - lon ri) * (lat rj - lat ri))"

definition wind_step :: "lat_lon \<Rightarrow> lat_lon \<times> lat_lon \<Rightarrow> int" where
  "wind_step p e =
     (let rj = fst e; ri = snd e
      in if lat ri \<le> lat p
         then (if lat rj > lat p \<and> side_of p e > 0 then 1 else 0)
         else (if lat rj \<le> lat p \<and> side_of p e < 0 then - 1 else 0))"

definition on_boundary :: int where
  "on_boundary = 1000000"

fun wind_edges :: "(lat_lon \<times> lat_lon) list \<Rightarrow> lat_lon \<Rightarrow> int \<Rightarrow> int" where
  "wind_edges [] p w = w"
| "wind_edges (e # es) p w =
     (if point_on_segment (fst e) (snd e) p then on_boundary else wind_edges es p (w + wind_step p e))"

definition wind :: "ring \<Rightarrow> lat_lon \<Rightarrow> int" where
  "wind r p = wind_edges (ring_edges r) p 0"

fun wind_holes :: "bool \<Rightarrow> ring list \<Rightarrow> lat_lon \<Rightarrow> int \<Rightarrow> bool" where
  "wind_holes outer_neg [] p w = (w \<noteq> 0)"
| "wind_holes outer_neg (h # hs) p w =
     (let hw = wind h p
      in if hw = on_boundary then True
         else wind_holes outer_neg hs p (w + (if (ring_signed_area h < 0) = outer_neg then - hw else hw)))"

definition contains_winding :: "polygon \<Rightarrow> lat_lon \<Rightarrow> bool" where
  "contains_winding pg p =
     (if \<not> bb_contains (pg_bbox pg) p then False
      else let w = wind (outer pg) p
           in if w = on_boundary then True
              else wind_holes (ring_signed_area (outer pg) < 0) (holes pg) p w)"

section \<open>Distance to the boundary and the verdict\<close>

definition all_edges :: "polygon \<Rightarrow> (lat_lon \<times> lat_lon) list" where
  "all_edges pg = ring_edges (outer pg) @ concat (map ring_edges (holes pg))"

text \<open>\<open>None\<close> is the infinity the scan starts from.\<close>

fun nearest_scan :: "lat_lon \<Rightarrow> (lat_lon \<times> lat_lon) list \<Rightarrow> (real \<times> lat_lon) option \<Rightarrow> (real \<times> lat_lon) option" where
  "nearest_scan p [] best = best"
| "nearest_scan p (e # es) best =
     (let d = point_segment_closest p (fst e) (snd e)
      in nearest_scan p es (case best of None \<Rightarrow> Some d | Some b \<Rightarrow> if fst d < fst b then Some d else best))"

definition nearest_edge :: "polygon \<Rightarrow> lat_lon \<Rightarrow> (real \<times> lat_lon) option" where
  "nearest_edge pg p = nearest_scan p (all_edges pg) None"

definition signed_distance_m :: "polygon \<Rightarrow> lat_lon \<Rightarrow> real option" where
  "signed_distance_m pg p =
     map_option (\<lambda>(d, w). if pg_contains pg p then - d else d) (nearest_edge pg p)"

definition nearest_boundary_point :: "polygon \<Rightarrow> lat_lon \<Rightarrow> lat_lon" where
  "nearest_boundary_point pg p = (case nearest_edge pg p of None \<Rightarrow> \<lparr>lat = 0, lon = 0\<rparr> | Some (d, w) \<Rightarrow> w)"

datatype containment = Outside | Inside | Uncertain

definition classify :: "real \<Rightarrow> real \<Rightarrow> containment" where
  "classify signed_dist_m acc =
     (if signed_dist_m < - acc then Inside else if signed_dist_m > acc then Outside else Uncertain)"

text \<open>A polygon without edges is infinitely far away.\<close>

definition classify_opt :: "real option \<Rightarrow> real \<Rightarrow> containment" where
  "classify_opt sd acc = (case sd of None \<Rightarrow> Outside | Some d \<Rightarrow> classify d acc)"

definition evaluate_fast :: "polygon \<Rightarrow> uncertain_point \<Rightarrow> containment" where
  "evaluate_fast pg p =
     (if bb_min_distance_m (pg_bbox pg) (pos p) > accuracy_m p then Outside
      else classify_opt (signed_distance_m pg (pos p)) (accuracy_m p))"

definition evaluate_fix :: "polygon \<Rightarrow> uncertain_point \<Rightarrow> containment \<times> real option" where
  "evaluate_fix pg p =
     (let sd = signed_distance_m pg (pos p) in (classify_opt sd (accuracy_m p), sd))"

section \<open>The two containment tests count the same crossings\<close>

lemma wind_step_crossing: "(if crosses_ray p e then 1 else 0) = \<bar>wind_step p e\<bar>"
proof -
  define D where "D = lat (fst e) - lat (snd e)"
  define L where "L = lon p - lon (snd e)"
  define W where "W = (lat p - lat (snd e)) * (lon (fst e) - lon (snd e))"
  have side: "side_of p e = W - L * D" by (simp add: side_of_def Let_def D_def L_def W_def algebra_simps)
  have ray: "crosses_ray p e \<longleftrightarrow> (lat (snd e) > lat p) \<noteq> (lat (fst e) > lat p) \<and> L < W / D"
  proof -
    have "(lat p - lat (snd e)) / D * (lon (fst e) - lon (snd e)) = W / D" unfolding W_def by (rule times_divide_eq_left)
    moreover have "lon p < lon (snd e) + q \<longleftrightarrow> L < q" for q unfolding L_def by linarith
    ultimately show ?thesis unfolding crosses_ray_def Let_def D_def [symmetric] by (simp only:) simp
  qed
  consider "lat (snd e) \<le> lat p" "lat (fst e) > lat p" | "lat (snd e) > lat p" "lat (fst e) \<le> lat p"
    | "(lat (snd e) > lat p) = (lat (fst e) > lat p)"
    by linarith
  then show ?thesis
  proof cases
    case 1
    then have "0 < D" by (simp add: D_def)
    then have "L < W / D \<longleftrightarrow> W - L * D > 0" by (simp add: field_simps)
    then show ?thesis using 1 unfolding ray wind_step_def side Let_def by simp
  next
    case 2
    then have "D < 0" by (simp add: D_def)
    then have "L < W / D \<longleftrightarrow> W - L * D < 0" by (simp add: field_simps)
    then show ?thesis using 2 unfolding ray wind_step_def side Let_def by simp
  next
    case 3
    then show ?thesis unfolding ray wind_step_def Let_def by auto
  qed
qed

definition edge_winding :: "lat_lon \<Rightarrow> (lat_lon \<times> lat_lon) list \<Rightarrow> int" where
  "edge_winding p es = (\<Sum>e\<leftarrow>es. wind_step p e)"

lemma edge_winding_cons [simp]: "edge_winding p (e # es) = wind_step p e + edge_winding p es" "edge_winding p [] = 0"
  by (simp_all add: edge_winding_def)

lemma edge_winding_bound: "\<bar>edge_winding p es\<bar> \<le> int (length es)"
proof (induction es)
  case (Cons e es)
  have "\<bar>wind_step p e\<bar> \<le> 1" using wind_step_crossing [of p e] by (metis order_refl zero_le_one)
  then show ?case using Cons by simp
qed simp

lemma crossings_parity:
  "edge_crossings es p c = Some c' \<Longrightarrow>
   wind_edges es p w = w + edge_winding p es \<and> even (edge_winding p es - int (c' - c)) \<and> c \<le> c'"
proof (induction es arbitrary: c w)
  case (Cons e es)
  let ?c = "if crosses_ray p e then c + 1 else c"
  have off: "\<not> point_on_segment (fst e) (snd e) p" and rec: "edge_crossings es p ?c = Some c'"
    using Cons.prems by (simp_all split: if_splits)
  have IH: "wind_edges es p (w + wind_step p e) = w + wind_step p e + edge_winding p es"
    "even (edge_winding p es - int (c' - ?c))" "?c \<le> c'"
    using Cons.IH [OF rec] by blast+
  have "even (wind_step p e - (if crosses_ray p e then 1 else 0))"
    unfolding wind_step_crossing by (simp add: abs_if)
  then have "even (edge_winding p es - int (c' - ?c) + (wind_step p e - (if crosses_ray p e then 1 else 0)))"
    using IH(2) by simp
  moreover have "int (c' - c) = int (c' - ?c) + (if crosses_ray p e then 1 else 0)" using IH(3) by (auto simp: of_nat_diff split: if_splits)
  ultimately have "even (edge_winding p (e # es) - int (c' - c))" by (simp add: algebra_simps)
  then show ?case using IH off by (simp split: if_splits)
qed simp

lemma crossings_boundary: "edge_crossings es p c = None \<Longrightarrow> wind_edges es p w = on_boundary"
  by (induction es arbitrary: c w) (auto split: if_splits)

lemma ring_crossings_wind:
  "(case ring_crossings r p of None \<Rightarrow> wind r p = on_boundary
    | Some c \<Rightarrow> wind r p = edge_winding p (ring_edges r) \<and> even (edge_winding p (ring_edges r) - int c))"
  using crossings_boundary [of "ring_edges r" p 0 0] crossings_parity [of "ring_edges r" p 0 _ 0]
  by (auto simp: ring_crossings_def wind_def split: option.splits)

text \<open>The winding number of the region: holes wound like the outer ring are negated.\<close>

definition hole_winding :: "bool \<Rightarrow> lat_lon \<Rightarrow> ring \<Rightarrow> int" where
  "hole_winding outer_neg p h =
     (if (ring_signed_area h < 0) = outer_neg then - edge_winding p (ring_edges h) else edge_winding p (ring_edges h))"

definition region_winding :: "polygon \<Rightarrow> lat_lon \<Rightarrow> int" where
  "region_winding pg p =
     edge_winding p (ring_edges (outer pg)) + (\<Sum>h\<leftarrow>holes pg. hole_winding (ring_signed_area (outer pg) < 0) p h)"

lemma length_ring_edges: "length (ring_edges r) = length r"
  by (cases r rule: rev_cases) (simp_all add: ring_edges_def)

lemma hole_crossings_wind:
  assumes "\<forall>h \<in> set hs. length h < 1000000" "even (w - int c)"
  shows "(case hole_crossings hs p c of None \<Rightarrow> wind_holes neg hs p w
     | Some k \<Rightarrow> even (w + (\<Sum>h\<leftarrow>hs. hole_winding neg p h) - int k) \<and>
         (wind_holes neg hs p w \<longleftrightarrow> w + (\<Sum>h\<leftarrow>hs. hole_winding neg p h) \<noteq> 0))"
  using assms
proof (induction hs arbitrary: w c)
  case (Cons h hs)
  show ?case
  proof (cases "ring_crossings h p")
    case None
    then show ?thesis using ring_crossings_wind [of h p] by simp
  next
    case (Some k)
    then have k: "wind h p = edge_winding p (ring_edges h)" "even (edge_winding p (ring_edges h) - int k)"
      using ring_crossings_wind [of h p] by auto
    have "\<bar>edge_winding p (ring_edges h)\<bar> < 1000000"
      using edge_winding_bound [of p "ring_edges h"] Cons.prems(1) by (simp add: length_ring_edges)
    then have nb: "wind h p \<noteq> on_boundary" by (auto simp: k(1) on_boundary_def)
    have hw: "(if (ring_signed_area h < 0) = neg then - wind h p else wind h p) = hole_winding neg p h"
      by (simp add: hole_winding_def k(1))
    have "even (hole_winding neg p h - int k)" using k(2) by (auto simp: hole_winding_def)
    then have "even (w + hole_winding neg p h - int (c + k))" using Cons.prems(2) by simp
    then have IH: "case hole_crossings hs p (c + k) of None \<Rightarrow> wind_holes neg hs p (w + hole_winding neg p h)
       | Some k \<Rightarrow> even (w + hole_winding neg p h + (\<Sum>h\<leftarrow>hs. hole_winding neg p h) - int k) \<and>
         (wind_holes neg hs p (w + hole_winding neg p h) \<longleftrightarrow> w + hole_winding neg p h + (\<Sum>h\<leftarrow>hs. hole_winding neg p h) \<noteq> 0)"
      using Cons.IH Cons.prems(1) by auto
    have "wind_holes neg (h # hs) p w = wind_holes neg hs p (w + hole_winding neg p h)"
      using nb hw by (simp add: Let_def)
    then show ?thesis using IH Some by (simp add: add.assoc split: option.splits)
  qed
qed simp

section \<open>Properties\<close>

text \<open>C25: The two containment tests agree: a point the ray casting puts inside is inside for the
  winding number too, whatever the orientation of rings and holes, and they agree exactly when the
  region winds around the point at most once, so a disagreement shows overlapping rings.\<close>

theorem containment_methods_agree:
  assumes "\<forall>r \<in> set (outer pg # holes pg). length r < 1000000"
  shows "(pg_contains pg p \<longrightarrow> contains_winding pg p) \<and>
    (\<bar>region_winding pg p\<bar> \<le> 1 \<longrightarrow> contains_winding pg p = pg_contains pg p)"
proof (cases "bb_contains (pg_bbox pg) p")
  case True
  let ?neg = "ring_signed_area (outer pg) < 0"
  show ?thesis
  proof (cases "ring_crossings (outer pg) p")
    case None
    then show ?thesis using True ring_crossings_wind [of "outer pg" p] by (simp add: pg_contains_def contains_winding_def)
  next
    case (Some c)
    then have w: "wind (outer pg) p = edge_winding p (ring_edges (outer pg))"
      "even (edge_winding p (ring_edges (outer pg)) - int c)"
      using ring_crossings_wind [of "outer pg" p] by auto
    have "\<bar>edge_winding p (ring_edges (outer pg))\<bar> < 1000000"
      using edge_winding_bound [of p "ring_edges (outer pg)"] assms by (simp add: length_ring_edges)
    then have nb: "wind (outer pg) p \<noteq> on_boundary" by (auto simp: w(1) on_boundary_def)
    have "case hole_crossings (holes pg) p c of None \<Rightarrow> contains_winding pg p
       | Some k \<Rightarrow> even (region_winding pg p - int k) \<and> (contains_winding pg p \<longleftrightarrow> region_winding pg p \<noteq> 0)"
      using hole_crossings_wind [where hs = "holes pg" and w = "edge_winding p (ring_edges (outer pg))" and c = c and p = p and neg = ?neg] assms w nb True
      by (auto simp: contains_winding_def Let_def region_winding_def split: option.splits)
    then show ?thesis
      using Some True unfolding pg_contains_def by (auto split: option.splits)
  qed
qed (simp add: pg_contains_def contains_winding_def)

definition sample_triangle :: polygon where
  "sample_triangle = polygon_of [\<lparr>lat = 0, lon = 0\<rparr>, \<lparr>lat = 0, lon = 2\<rparr>, \<lparr>lat = 2, lon = 0\<rparr>]"

lemma containment_methods_agree_witness:
  "contains_winding sample_triangle \<lparr>lat = 0, lon = 0\<rparr>"
proof -
  have "pg_contains sample_triangle \<lparr>lat = 0, lon = 0\<rparr>"
    by (simp add: sample_triangle_def polygon_of_def pg_contains_def bb_of_def ring_crossings_def ring_edges_def
        point_on_segment_def within_extent_def kOnEdgeEps_def)
  then show ?thesis
    using containment_methods_agree [of sample_triangle "\<lparr>lat = 0, lon = 0\<rparr>"]
    by (simp add: sample_triangle_def polygon_of_def)
qed

end
