(* ===== verification/Hysteresis.thy ===== *)
theory Hysteresis
  imports Polygon "HOL-Library.Word"
begin

text \<open>
  The filter between the geometry's verdicts and the events, \<^verbatim>\<open>src/fence/hysteresis.cpp\<close>: a
  Schmitt trigger with confirmation runs and a dwell minimum. The run counter is the code's
  \<open>uint8_t\<close>, which wraps. The C++ switch falls out of its cases by returning; each case is an
  equation of \<open>hy_update\<close>.
\<close>

record hysteresis_config =
  enter_margin_m :: real
  exit_margin_m :: real
  confirm_samples :: "8 word"
  min_dwell_ms :: int
  hy_enabled :: bool

definition hysteresis_default :: hysteresis_config where
  "hysteresis_default =
     \<lparr>enter_margin_m = 15, exit_margin_m = 25, confirm_samples = 3, min_dwell_ms = 5000, hy_enabled = True\<rparr>"

datatype phase = POutside | PAmbiguous | PEnteringPending | PInside | PExitingPending

record hysteresis_state =
  hy_phase :: phase
  pending_from :: phase
  agree_count :: "8 word"
  inside_since_ms :: int
  pending_since_ms :: int
  suppressed :: bool

definition hysteresis_init :: hysteresis_state where
  "hysteresis_init =
     \<lparr>hy_phase = POutside, pending_from = POutside, agree_count = 0,
      inside_since_ms = 0, pending_since_ms = 0, suppressed = False\<rparr>"

definition hy_naive :: "containment \<Rightarrow> int \<Rightarrow> hysteresis_state \<Rightarrow> containment \<times> hysteresis_state" where
  "hy_naive raw t s =
     (raw, if raw = Inside \<and> hy_phase s \<noteq> PInside then s\<lparr>hy_phase := PInside, inside_since_ms := t\<rparr>
           else if raw \<noteq> Inside then s\<lparr>hy_phase := POutside\<rparr> else s)"

definition before_entry :: "hysteresis_state \<Rightarrow> containment" where
  "before_entry s = (if pending_from s = PAmbiguous then Uncertain else Outside)"

definition hy_uncertain :: "hysteresis_state \<Rightarrow> containment \<times> hysteresis_state" where
  "hy_uncertain s0 =
     (let s = s0\<lparr>agree_count := 0\<rparr>
      in case hy_phase s of
           PInside \<Rightarrow> (Inside, s)
         | PExitingPending \<Rightarrow> (Inside, s\<lparr>hy_phase := PInside\<rparr>)
         | PEnteringPending \<Rightarrow> (Uncertain, s\<lparr>pending_from := PAmbiguous\<rparr>)
         | _ \<Rightarrow> (Uncertain, s\<lparr>hy_phase := PAmbiguous\<rparr>))"

definition hy_definite ::
  "real \<Rightarrow> int \<Rightarrow> hysteresis_config \<Rightarrow> hysteresis_state \<Rightarrow> containment \<times> hysteresis_state" where
  "hy_definite sd_m t cfg s =
     (let deep_in = sd_m < - enter_margin_m cfg; clear_out = sd_m > exit_margin_m cfg
      in case hy_phase s of
           PEnteringPending \<Rightarrow>
             if deep_in
             then let n = agree_count s + 1; s = s\<lparr>agree_count := n\<rparr>
                  in if n \<ge> confirm_samples cfg \<and> t - pending_since_ms s \<ge> min_dwell_ms cfg
                     then (Inside, s\<lparr>hy_phase := PInside, inside_since_ms := pending_since_ms s, agree_count := 0\<rparr>)
                     else (before_entry s, s)
             else (before_entry s, s\<lparr>hy_phase := pending_from s, agree_count := 0, suppressed := True\<rparr>)
         | PInside \<Rightarrow>
             (Inside, if clear_out then s\<lparr>hy_phase := PExitingPending, agree_count := 1\<rparr> else s)
         | PExitingPending \<Rightarrow>
             if clear_out
             then let n = agree_count s + 1; s = s\<lparr>agree_count := n\<rparr>
                  in if n \<ge> confirm_samples cfg
                     then (Outside, s\<lparr>hy_phase := POutside, agree_count := 0\<rparr>) else (Inside, s)
             else (Inside, s\<lparr>hy_phase := PInside, agree_count := 0, suppressed := True\<rparr>)
         | _ \<Rightarrow>
             if deep_in
             then (if hy_phase s = PAmbiguous then Uncertain else Outside,
                   s\<lparr>pending_from := hy_phase s, hy_phase := PEnteringPending, agree_count := 1, pending_since_ms := t\<rparr>)
             else if hy_phase s = POutside then (Outside, s)
             else if clear_out
             then let n = agree_count s + 1; s = s\<lparr>agree_count := n\<rparr>
                  in if n \<ge> confirm_samples cfg
                     then (Outside, s\<lparr>hy_phase := POutside, agree_count := 0\<rparr>) else (Uncertain, s)
             else (Uncertain, s\<lparr>agree_count := 0\<rparr>))"

definition hy_update ::
  "containment \<Rightarrow> real \<Rightarrow> int \<Rightarrow> hysteresis_config \<Rightarrow> hysteresis_state \<Rightarrow> containment \<times> hysteresis_state" where
  "hy_update raw sd_m t cfg s0 =
     (let s = s0\<lparr>suppressed := False\<rparr>
      in if \<not> hy_enabled cfg then hy_naive raw t s
         else if raw = Uncertain then hy_uncertain s
         else hy_definite sd_m t cfg s)"

section \<open>What a state reports\<close>

fun reported :: "hysteresis_state \<Rightarrow> containment" where
  "reported s = (case hy_phase s of
       POutside \<Rightarrow> Outside | PAmbiguous \<Rightarrow> Uncertain | PEnteringPending \<Rightarrow> before_entry s
     | PInside \<Rightarrow> Inside | PExitingPending \<Rightarrow> Inside)"

text \<open>An entry attempt starts from outside or from the ambiguous band.\<close>

definition hy_wf :: "hysteresis_state \<Rightarrow> bool" where
  "hy_wf s \<longleftrightarrow> pending_from s \<in> {POutside, PAmbiguous}"

lemma hy_uncertain_reported: "hy_wf s \<Longrightarrow> fst (hy_uncertain s) = reported (snd (hy_uncertain s)) \<and> hy_wf (snd (hy_uncertain s))"
  by (cases "hy_phase s") (simp_all add: hy_uncertain_def before_entry_def hy_wf_def)

lemma hy_definite_reported:
  "hy_wf s \<Longrightarrow> fst (hy_definite sd t cfg s) = reported (snd (hy_definite sd t cfg s)) \<and> hy_wf (snd (hy_definite sd t cfg s))"
  by (cases "hy_phase s") (auto simp: hy_definite_def before_entry_def hy_wf_def Let_def)

lemma hy_update_reported:
  assumes "hy_enabled cfg" "hy_wf s"
  shows "fst (hy_update raw sd t cfg s) = reported (snd (hy_update raw sd t cfg s)) \<and> hy_wf (snd (hy_update raw sd t cfg s))"
proof -
  have "hy_wf (s\<lparr>suppressed := False\<rparr>)" using assms(2) by (simp add: hy_wf_def)
  then show ?thesis
    using assms(1) hy_uncertain_reported hy_definite_reported by (simp add: hy_update_def Let_def)
qed

section \<open>Runs\<close>

record observation =
  ob_raw :: containment
  ob_sd :: real
  ob_t :: int

definition hy_step :: "hysteresis_config \<Rightarrow> hysteresis_state \<Rightarrow> observation \<Rightarrow> hysteresis_state" where
  "hy_step cfg s ob = snd (hy_update (ob_raw ob) (ob_sd ob) (ob_t ob) cfg s)"

definition hy_run :: "hysteresis_config \<Rightarrow> observation list \<Rightarrow> hysteresis_state" where
  "hy_run cfg obs = foldl (hy_step cfg) hysteresis_init obs"

lemma hy_run_snoc: "hy_run cfg (obs @ [ob]) = hy_step cfg (hy_run cfg obs) ob"
  by (simp add: hy_run_def)

definition deep_fix :: "hysteresis_config \<Rightarrow> observation \<Rightarrow> bool" where
  "deep_fix cfg ob \<longleftrightarrow> ob_raw ob \<noteq> Uncertain \<and> ob_sd ob < - enter_margin_m cfg"

definition clear_fix :: "hysteresis_config \<Rightarrow> observation \<Rightarrow> bool" where
  "clear_fix cfg ob \<longleftrightarrow> ob_raw ob \<noteq> Uncertain \<and> ob_sd ob > exit_margin_m cfg"

text \<open>How many of the latest observations in a row satisfy a predicate.\<close>

definition trail :: "(observation \<Rightarrow> bool) \<Rightarrow> observation list \<Rightarrow> nat" where
  "trail P obs = length (takeWhile P (rev obs))"

lemma trail_snoc: "trail P (obs @ [ob]) = (if P ob then Suc (trail P obs) else 0)" "trail P [] = 0"
  by (simp_all add: trail_def)

text \<open>The phase, the counter and the clock in terms of the observations so far.\<close>

definition hy_inv :: "hysteresis_config \<Rightarrow> observation list \<Rightarrow> hysteresis_state \<Rightarrow> bool" where
  "hy_inv cfg obs s \<longleftrightarrow> hy_wf s \<and>
     (hy_phase s = POutside \<longrightarrow> trail (deep_fix cfg) obs = 0) \<and>
     (hy_phase s = PAmbiguous \<longrightarrow> trail (deep_fix cfg) obs = 0) \<and>
     (hy_phase s = PInside \<longrightarrow> trail (clear_fix cfg) obs = 0) \<and>
     (hy_phase s = PExitingPending \<longrightarrow>
        0 < trail (clear_fix cfg) obs \<and> trail (clear_fix cfg) obs < max 2 (unat (confirm_samples cfg)) \<and>
        agree_count s = word_of_nat (trail (clear_fix cfg) obs)) \<and>
     (hy_phase s = PEnteringPending \<longrightarrow>
        agree_count s = word_of_nat (trail (deep_fix cfg) obs) \<and>
        (\<exists>ob \<in> set obs. deep_fix cfg ob \<and> pending_since_ms s = ob_t ob))"

lemma hy_init_inv: "hy_inv cfg [] hysteresis_init"
  by (simp add: hy_inv_def hy_wf_def hysteresis_init_def trail_snoc)

lemma unat_of_nat8: "n < 256 \<Longrightarrow> unat (word_of_nat n :: 8 word) = n"
  by (simp add: unat_of_nat take_bit_nat_eq_self)

lemma word8_less_256: "unat (w :: 8 word) < 256"
  using unsigned_less [of w] by simp

text \<open>The effect of one step, by phase and observation.\<close>

lemma hy_step_cases:
  assumes "hy_enabled cfg"
  shows "ob_raw ob = Uncertain \<Longrightarrow> hy_step cfg s ob = snd (hy_uncertain (s\<lparr>suppressed := False\<rparr>))"
    "ob_raw ob \<noteq> Uncertain \<Longrightarrow> hy_step cfg s ob = snd (hy_definite (ob_sd ob) (ob_t ob) cfg (s\<lparr>suppressed := False\<rparr>))"
  using assms by (simp_all add: hy_step_def hy_update_def)

lemma hy_step_inv_uncertain:
  assumes "hy_enabled cfg" "hy_inv cfg obs s" "ob_raw ob = Uncertain"
  shows "hy_inv cfg (obs @ [ob]) (hy_step cfg s ob)"
proof -
  have z: "trail (deep_fix cfg) (obs @ [ob]) = 0" "trail (clear_fix cfg) (obs @ [ob]) = 0"
    using assms(3) by (simp_all add: trail_snoc deep_fix_def clear_fix_def)
  show ?thesis
    using assms(2) z unfolding hy_step_cases(1) [OF assms(1,3)] hy_inv_def
    by (cases "hy_phase s") (auto simp: hy_uncertain_def hy_wf_def)
qed

lemma exit_count:
  fixes k :: "8 word"
  assumes "0 < n" "n < max 2 (unat k)"
  shows "k \<le> word_of_nat n + 1 \<longleftrightarrow> max 2 (unat k) \<le> Suc n"
    "\<not> k \<le> word_of_nat n + 1 \<Longrightarrow> Suc n < max 2 (unat k)"
proof -
  have k: "unat k < 256" by (rule word8_less_256)
  have n: "Suc n < 257" using assms k by linarith
  have "k \<le> word_of_nat n + 1 \<longleftrightarrow> unat k \<le> unat (word_of_nat (Suc n) :: 8 word)"
    by (simp add: word_le_nat_alt add.commute)
  also have "\<dots> \<longleftrightarrow> unat k \<le> Suc n"
  proof (cases "Suc n < 256")
    case True
    then show ?thesis by (simp only: unat_of_nat8)
  next
    case False
    then show ?thesis using assms k by linarith
  qed
  finally show 1: "k \<le> word_of_nat n + 1 \<longleftrightarrow> max 2 (unat k) \<le> Suc n" using assms by auto
  then show "\<not> k \<le> word_of_nat n + 1 \<Longrightarrow> Suc n < max 2 (unat k)" by linarith
qed

lemma hy_step_inv_definite:
  assumes "hy_enabled cfg" "- enter_margin_m cfg \<le> exit_margin_m cfg" "hy_inv cfg obs s" "ob_raw ob \<noteq> Uncertain"
  shows "hy_inv cfg (obs @ [ob]) (hy_step cfg s ob)"
proof -
  let ?d = "ob_sd ob < - enter_margin_m cfg" and ?c = "ob_sd ob > exit_margin_m cfg"
  have td: "trail (deep_fix cfg) (obs @ [ob]) = (if ?d then Suc (trail (deep_fix cfg) obs) else 0)"
    and tc: "trail (clear_fix cfg) (obs @ [ob]) = (if ?c then Suc (trail (clear_fix cfg) obs) else 0)"
    using assms(4) by (simp_all add: trail_snoc deep_fix_def clear_fix_def)
  have ex: "\<not> (?d \<and> ?c)" using assms(2) by auto
  have df: "?d \<Longrightarrow> deep_fix cfg ob" using assms(4) by (simp add: deep_fix_def)
  note inv = assms(3) [unfolded hy_inv_def]
  show ?thesis
  proof (cases "hy_phase s")
    case POutside
    then show ?thesis
      using inv ex df unfolding hy_step_cases(2) [OF assms(1,4)] hy_inv_def td tc
      by (auto simp: hy_definite_def hy_wf_def Let_def)
  next
    case PAmbiguous
    then show ?thesis
      using inv ex df unfolding hy_step_cases(2) [OF assms(1,4)] hy_inv_def td tc
      by (auto simp: hy_definite_def hy_wf_def Let_def)
  next
    case PEnteringPending
    then show ?thesis
      using inv ex df unfolding hy_step_cases(2) [OF assms(1,4)] hy_inv_def td tc
      by (auto simp: hy_definite_def hy_wf_def Let_def add.commute)
  next
    case PInside
    then show ?thesis
      using inv ex df unfolding hy_step_cases(2) [OF assms(1,4)] hy_inv_def td tc
      by (auto simp: hy_definite_def hy_wf_def Let_def)
  next
    case PExitingPending
    then have n: "0 < trail (clear_fix cfg) obs" "trail (clear_fix cfg) obs < max 2 (unat (confirm_samples cfg))"
      "agree_count s = word_of_nat (trail (clear_fix cfg) obs)"
      using inv by auto
    show ?thesis
      using inv ex df PExitingPending exit_count(2) [OF n(1,2)] n(3)
      unfolding hy_step_cases(2) [OF assms(1,4)] hy_inv_def td tc
      by (auto simp: hy_definite_def hy_wf_def Let_def add.commute)
  qed
qed

lemma hy_run_inv:
  assumes "hy_enabled cfg" "- enter_margin_m cfg \<le> exit_margin_m cfg"
  shows "hy_inv cfg obs (hy_run cfg obs)"
proof (induction obs rule: rev_induct)
  case Nil
  show ?case using hy_init_inv by (simp add: hy_run_def)
next
  case (snoc ob obs)
  then show ?case
    unfolding hy_run_snoc using hy_step_inv_uncertain hy_step_inv_definite assms by blast
qed

lemma deep_step:
  assumes "hy_enabled cfg" "deep_fix cfg ob"
  shows "hy_phase s \<in> {POutside, PAmbiguous} \<Longrightarrow>
      hy_phase (hy_step cfg s ob) = PEnteringPending \<and> agree_count (hy_step cfg s ob) = 1 \<and>
      pending_since_ms (hy_step cfg s ob) = ob_t ob"
    and "hy_phase s = PEnteringPending \<Longrightarrow>
      (if agree_count s + 1 \<ge> confirm_samples cfg \<and> ob_t ob - pending_since_ms s \<ge> min_dwell_ms cfg
       then hy_phase (hy_step cfg s ob) = PInside
       else hy_phase (hy_step cfg s ob) = PEnteringPending \<and> agree_count (hy_step cfg s ob) = agree_count s + 1 \<and>
         pending_since_ms (hy_step cfg s ob) = pending_since_ms s)"
    and "- enter_margin_m cfg \<le> exit_margin_m cfg \<Longrightarrow> hy_phase s = PInside \<Longrightarrow> hy_phase (hy_step cfg s ob) = PInside"
proof -
  have r: "ob_raw ob \<noteq> Uncertain" and d: "ob_sd ob < - enter_margin_m cfg"
    using assms(2) by (simp_all add: deep_fix_def)
  note st = hy_step_cases(2) [OF assms(1) r]
  show "hy_phase s \<in> {POutside, PAmbiguous} \<Longrightarrow>
      hy_phase (hy_step cfg s ob) = PEnteringPending \<and> agree_count (hy_step cfg s ob) = 1 \<and>
      pending_since_ms (hy_step cfg s ob) = ob_t ob"
    unfolding st using d by (auto simp: hy_definite_def Let_def)
  show "hy_phase s = PEnteringPending \<Longrightarrow>
      (if agree_count s + 1 \<ge> confirm_samples cfg \<and> ob_t ob - pending_since_ms s \<ge> min_dwell_ms cfg
       then hy_phase (hy_step cfg s ob) = PInside
       else hy_phase (hy_step cfg s ob) = PEnteringPending \<and> agree_count (hy_step cfg s ob) = agree_count s + 1 \<and>
         pending_since_ms (hy_step cfg s ob) = pending_since_ms s)"
    unfolding st using d by (auto simp: hy_definite_def Let_def)
  show "- enter_margin_m cfg \<le> exit_margin_m cfg \<Longrightarrow> hy_phase s = PInside \<Longrightarrow> hy_phase (hy_step cfg s ob) = PInside"
    unfolding st using d by (auto simp: hy_definite_def Let_def)
qed

text \<open>A run of deep fixes after the attempt began: either it was confirmed, or every fix so far failed
  the test with its counter.\<close>

lemma deep_run:
  assumes "hy_enabled cfg" "- enter_margin_m cfg \<le> exit_margin_m cfg"
    and "hy_phase s = PEnteringPending" "agree_count s = word_of_nat c" "pending_since_ms s = t0"
    and "\<forall>ob \<in> set fs. deep_fix cfg ob"
  shows "hy_phase (foldl (hy_step cfg) s fs) = PInside \<or>
    (hy_phase (foldl (hy_step cfg) s fs) = PEnteringPending \<and>
     agree_count (foldl (hy_step cfg) s fs) = word_of_nat (c + length fs) \<and>
     pending_since_ms (foldl (hy_step cfg) s fs) = t0 \<and>
     (\<forall>i < length fs. \<not> (confirm_samples cfg \<le> word_of_nat (Suc (c + i)) \<and> ob_t (fs ! i) - t0 \<ge> min_dwell_ms cfg)))"
  using assms(6)
proof (induction fs rule: rev_induct)
  case Nil
  then show ?case using assms(3-5) by simp
next
  case (snoc ob fs)
  let ?s = "foldl (hy_step cfg) s fs"
  have d: "deep_fix cfg ob" using snoc.prems by simp
  consider "hy_phase ?s = PInside"
    | "hy_phase ?s = PEnteringPending" "agree_count ?s = word_of_nat (c + length fs)" "pending_since_ms ?s = t0"
      "\<forall>i < length fs. \<not> (confirm_samples cfg \<le> word_of_nat (Suc (c + i)) \<and> ob_t (fs ! i) - t0 \<ge> min_dwell_ms cfg)"
    using snoc by auto
  then show ?case
  proof cases
    case 1
    then show ?thesis using deep_step(3) [OF assms(1) d assms(2)] by simp
  next
    case 2
    then show ?thesis
      using deep_step(2) [OF assms(1) d 2(1)] by (auto simp: nth_append less_Suc_eq add.commute split: if_splits)
  qed
qed

lemma residue_reached:
  fixes k :: "8 word"
  shows "\<exists>j \<le> unat k. k \<le> word_of_nat (m + j)"
proof (cases "unat k \<le> m mod 256")
  case True
  then show ?thesis by (intro exI [of _ 0]) (simp add: word_le_nat_alt unat_of_nat take_bit_eq_mod)
next
  case False
  define q where "q = m + (unat k - m mod 256)"
  have "q mod 256 = (m mod 256 + (unat k - m mod 256)) mod 256" by (simp add: q_def mod_add_left_eq)
  also have "\<dots> = unat k" using False word8_less_256 [of k] by simp
  finally have "unat (word_of_nat q :: 8 word) = unat k" by (simp add: unat_of_nat take_bit_eq_mod)
  then have "k \<le> word_of_nat q" by (simp add: word_le_nat_alt)
  then show ?thesis unfolding q_def by (intro exI [of _ "unat k - m mod 256"]) simp
qed

section \<open>Properties\<close>


abbreviation deep_at :: "int \<Rightarrow> observation" where "deep_at t \<equiv> \<lparr>ob_raw = Inside, ob_sd = -20, ob_t = t\<rparr>"

abbreviation clear_at :: "int \<Rightarrow> observation" where "clear_at t \<equiv> \<lparr>ob_raw = Outside, ob_sd = 30, ob_t = t\<rparr>"


text \<open>C35: An entry is always confirmed in the end: from outside or from the ambiguous band, deep
  fixes without interruption lead to Inside once \<open>confirm_samples + 1\<close> of them have come the dwell
  minimum after the first, whatever the wrapping run counter held until then.\<close>

theorem hysteresis_entry_confirmed:
  assumes "hy_enabled cfg" "- enter_margin_m cfg \<le> exit_margin_m cfg"
    and "hy_phase s \<in> {POutside, PAmbiguous}"
    and "\<forall>ob \<in> set (f0 # early @ late). deep_fix cfg ob"
    and "unat (confirm_samples cfg) < length late"
    and "\<forall>ob \<in> set late. ob_t f0 + min_dwell_ms cfg \<le> ob_t ob"
  shows "reported (foldl (hy_step cfg) s (f0 # early @ late)) = Inside"
proof -
  let ?s = "hy_step cfg s f0"
  have f0: "deep_fix cfg f0" using assms(4) by simp
  have st: "hy_phase ?s = PEnteringPending" "agree_count ?s = word_of_nat 1" "pending_since_ms ?s = ob_t f0"
    using deep_step(1) [OF assms(1) f0 assms(3)] by simp_all
  obtain j where j: "j \<le> unat (confirm_samples cfg)" "confirm_samples cfg \<le> word_of_nat (Suc (1 + length early) + j)"
    using residue_reached by blast
  have lt: "length early + j < length (early @ late)" using j(1) assms(5) by simp
  have "(early @ late) ! (length early + j) \<in> set late" using j(1) assms(5) by (simp add: nth_append)
  then have "ob_t ((early @ late) ! (length early + j)) - ob_t f0 \<ge> min_dwell_ms cfg" using assms(6) by fastforce
  moreover have "confirm_samples cfg \<le> word_of_nat (Suc (1 + (length early + j)))" using j(2) by (simp add: ac_simps)
  moreover have "\<forall>ob \<in> set (early @ late). deep_fix cfg ob" using assms(4) by simp
  ultimately have "hy_phase (foldl (hy_step cfg) ?s (early @ late)) = PInside"
    using deep_run [OF assms(1,2) st, of "early @ late"] lt by blast
  then show ?thesis by simp
qed

theorem hysteresis_entry_confirmed_witness:
  "reported (foldl (hy_step hysteresis_default) hysteresis_init
     (\<lparr>ob_raw = Inside, ob_sd = -20, ob_t = 0\<rparr> # [\<lparr>ob_raw = Inside, ob_sd = -20, ob_t = 1000\<rparr>] @
      replicate 4 \<lparr>ob_raw = Inside, ob_sd = -20, ob_t = 6000\<rparr>)) = Inside"
  by (rule hysteresis_entry_confirmed) (simp_all add: hysteresis_default_def hysteresis_init_def deep_fix_def)

text \<open>The run counter wraps: after 255 deep fixes inside the dwell minimum, a 256th one that
  meets it finds the counter at 0 and the entry stays unconfirmed, although 256 fixes in a row
  agree.\<close>

lemma hysteresis_counter_wraps:
  "reported (hy_run hysteresis_default
     (replicate 255 \<lparr>ob_raw = Inside, ob_sd = -20, ob_t = 0\<rparr> @ [\<lparr>ob_raw = Inside, ob_sd = -20, ob_t = 5000\<rparr>])) = Outside"
proof -
  let ?f = "\<lparr>ob_raw = Inside, ob_sd = -20, ob_t = 0\<rparr>" and ?g = "\<lparr>ob_raw = Inside, ob_sd = -20, ob_t = 5000\<rparr>"
  let ?s = "\<lambda>n. \<lparr>hy_phase = PEnteringPending, pending_from = POutside, agree_count = word_of_nat n,
      inside_since_ms = 0, pending_since_ms = 0, suppressed = False\<rparr>"
  have 0: "hy_step hysteresis_default hysteresis_init ?f = ?s 1"
    by (simp add: hy_step_def hy_update_def hy_definite_def hysteresis_default_def hysteresis_init_def)
  have st: "hy_step hysteresis_default (?s n) ?f = ?s (Suc n)" for n
    by (simp add: hy_step_def hy_update_def hy_definite_def hysteresis_default_def Let_def add.commute)
  have run: "foldl (hy_step hysteresis_default) (?s n) (replicate k ?f) = ?s (n + k)" for n k
    by (induction k arbitrary: n) (simp_all add: st del: of_nat_Suc of_nat_add)
  have "hy_run hysteresis_default (?f # replicate 254 ?f @ [?g]) = hy_step hysteresis_default (?s 255) ?g"
    using run [of 1 254] by (simp add: hy_run_def 0)
  moreover have "replicate 255 ?f = ?f # replicate 254 ?f" by (simp flip: replicate_Suc)
  moreover have "reported (hy_step hysteresis_default (?s 255) ?g) = Outside"
    by (simp add: hy_step_def hy_update_def hy_definite_def hysteresis_default_def before_entry_def Let_def)
  ultimately show ?thesis by simp
qed

end
