(* ===== verification/Spatial_Index.thy ===== *)
theory Spatial_Index
  imports Geo_Base
begin

text \<open>
  The interface of \<^verbatim>\<open>include/safetrail/index/spatial_index.hpp\<close> and its brute-force
  implementation. The virtual functions are the fields of a record of operations; the contract
  every implementation owes its callers is the locale \<open>spatial_index\<close>, and inside it stands the
  lemma the callers need: what any lawful index answers, as a function of the operations alone.
\<close>

type_synonym index_item = "zone_id \<times> bbox"

record index_counters =
  st_queries :: nat
  st_candidates :: nat

definition no_counters :: index_counters where
  "no_counters = \<lparr>st_queries = 0, st_candidates = 0\<rparr>"

definition count_query :: "nat \<Rightarrow> index_counters \<Rightarrow> index_counters" where
  "count_query found c = c\<lparr>st_queries := st_queries c + 1, st_candidates := st_candidates c + found\<rparr>"

record index_shape =
  node_count :: nat
  tree_depth :: nat

record node_trace =
  nt_box :: bbox
  nt_depth :: nat
  nt_leaf :: bool
  nt_hit :: bool
  nt_items :: nat

record 's index_ops =
  op_build :: "index_item list \<Rightarrow> 's \<Rightarrow> 's"
  op_insert :: "zone_id \<Rightarrow> bbox \<Rightarrow> 's \<Rightarrow> 's"
  op_remove :: "zone_id \<Rightarrow> 's \<Rightarrow> bool \<times> 's"
  op_query :: "bbox \<Rightarrow> zone_id list \<Rightarrow> 's \<Rightarrow> zone_id list \<times> 's"
  op_size :: "'s \<Rightarrow> nat"

text \<open>A box with its corners in order, as every ring of vertices has.\<close>

definition bb_proper :: "bbox \<Rightarrow> bool" where
  "bb_proper b \<longleftrightarrow> b \<noteq> NoBox \<and> min_lat b \<le> max_lat b \<and> min_lon b \<le> max_lon b"

lemma bb_proper_cases:
  assumes "bb_proper b"
  obtains a b' c d where "b = Box a b' c d" "a \<le> c" "b' \<le> d"
  using assms by (cases b) (auto simp: bb_proper_def)

section \<open>The contract\<close>

definition items_ok :: "index_item list \<Rightarrow> bool" where
  "items_ok its \<longleftrightarrow> distinct (map fst its) \<and> (\<forall>it \<in> set its. bb_proper (snd it))"

definition box_hits :: "bbox \<Rightarrow> (zone_id \<rightharpoonup> bbox) \<Rightarrow> zone_id set" where
  "box_hits q m = {i. \<exists>b. m i = Some b \<and> bb_intersects b q}"

locale spatial_index =
  fixes ops :: "'s index_ops"
    and inv :: "'s \<Rightarrow> bool"
    and contents :: "'s \<Rightarrow> (zone_id \<rightharpoonup> bbox)"
  assumes built: "inv s \<Longrightarrow> items_ok its \<Longrightarrow>
      inv (op_build ops its s) \<and> contents (op_build ops its s) = map_of its"
    and inserted: "inv s \<Longrightarrow> bb_proper b \<Longrightarrow> contents s i = None \<Longrightarrow>
      inv (op_insert ops i b s) \<and> contents (op_insert ops i b s) = (contents s)(i \<mapsto> b)"
    and removed: "inv s \<Longrightarrow>
      fst (op_remove ops i s) = (contents s i \<noteq> None) \<and> inv (snd (op_remove ops i s)) \<and>
      contents (snd (op_remove ops i s)) = (contents s)(i := None)"
    and queried: "inv s \<Longrightarrow> bb_proper q \<Longrightarrow>
      (\<exists>found. fst (op_query ops q out s) = out @ found \<and> distinct found \<and> set found = box_hits q (contents s)) \<and>
      inv (snd (op_query ops q out s)) \<and> contents (snd (op_query ops q out s)) = contents s"
    and sized: "inv s \<Longrightarrow> finite (dom (contents s)) \<and> op_size ops s = card (dom (contents s))"

text \<open>Operation sequences and their answers; the candidates of a query are a set, so they are put in
  id order, as the evaluator does with them.\<close>

datatype index_op =
  IBuild "index_item list" | IInsert zone_id bbox | IRemove zone_id | IQuery bbox | ISize

datatype index_answer = Ran | Removed bool | Found "zone_id list" | Sized nat

fun index_step :: "'s index_ops \<Rightarrow> index_op \<Rightarrow> 's \<Rightarrow> index_answer \<times> 's" where
  "index_step ops (IBuild its) s = (Ran, op_build ops its s)"
| "index_step ops (IInsert i b) s = (Ran, op_insert ops i b s)"
| "index_step ops (IRemove i) s = (let r = op_remove ops i s in (Removed (fst r), snd r))"
| "index_step ops (IQuery q) s = (let r = op_query ops q [] s in (Found (sort (fst r)), snd r))"
| "index_step ops ISize s = (Sized (op_size ops s), s)"

fun index_run :: "'s index_ops \<Rightarrow> index_op list \<Rightarrow> 's \<Rightarrow> index_answer list" where
  "index_run ops [] s = []"
| "index_run ops (p # ps) s = (let r = index_step ops p s in fst r # index_run ops ps (snd r))"

definition index_state :: "'s index_ops \<Rightarrow> index_op list \<Rightarrow> 's \<Rightarrow> 's" where
  "index_state ops ps s = foldl (\<lambda>s p. snd (index_step ops p s)) s ps"

text \<open>The specification: the same operations on a map from ids to boxes.\<close>

fun spec_step :: "index_op \<Rightarrow> (zone_id \<rightharpoonup> bbox) \<Rightarrow> index_answer \<times> (zone_id \<rightharpoonup> bbox)" where
  "spec_step (IBuild its) m = (Ran, map_of its)"
| "spec_step (IInsert i b) m = (Ran, m(i \<mapsto> b))"
| "spec_step (IRemove i) m = (Removed (m i \<noteq> None), m(i := None))"
| "spec_step (IQuery q) m = (Found (sorted_list_of_set (box_hits q m)), m)"
| "spec_step ISize m = (Sized (card (dom m)), m)"

fun spec_run :: "index_op list \<Rightarrow> (zone_id \<rightharpoonup> bbox) \<Rightarrow> index_answer list" where
  "spec_run [] m = []"
| "spec_run (p # ps) m = fst (spec_step p m) # spec_run ps (snd (spec_step p m))"

text \<open>What a caller must respect: proper boxes, and an id is inserted only while it is not stored.\<close>

fun op_ok :: "index_op \<Rightarrow> (zone_id \<rightharpoonup> bbox) \<Rightarrow> bool" where
  "op_ok (IBuild its) m = items_ok its"
| "op_ok (IInsert i b) m \<longleftrightarrow> bb_proper b \<and> m i = None"
| "op_ok (IQuery q) m = bb_proper q"
| "op_ok _ m = True"

fun ops_ok :: "index_op list \<Rightarrow> (zone_id \<rightharpoonup> bbox) \<Rightarrow> bool" where
  "ops_ok [] m = True"
| "ops_ok (p # ps) m \<longleftrightarrow> op_ok p m \<and> ops_ok ps (snd (spec_step p m))"

lemma sort_found: "distinct found \<Longrightarrow> set found = S \<Longrightarrow> sort found = sorted_list_of_set S"
  by (metis distinct_remdups_id sorted_list_of_set_sort_remdups)

context spatial_index
begin

lemma step_refines:
  assumes "inv s" "op_ok p (contents s)"
  shows "fst (index_step ops p s) = fst (spec_step p (contents s)) \<and> inv (snd (index_step ops p s)) \<and>
    contents (snd (index_step ops p s)) = snd (spec_step p (contents s))"
proof (cases p)
  case (IQuery q)
  then show ?thesis using queried [OF assms(1), of q "[]"] assms(2) sort_found by (auto simp: Let_def)
qed (use assms built inserted removed sized in \<open>auto simp: Let_def\<close>)

lemma run_refines: "inv s \<Longrightarrow> ops_ok ps (contents s) \<Longrightarrow> index_run ops ps s = spec_run ps (contents s)"
proof (induction ps arbitrary: s)
  case (Cons p ps)
  then show ?case using step_refines [of s p] by (auto simp: Let_def)
qed simp

lemma query_sorted:
  assumes "inv s" "bb_proper q"
  shows "sort (fst (op_query ops q [] s)) = sorted_list_of_set (box_hits q (contents s))"
  using queried [OF assms, of "[]"] sort_found by auto

end

section \<open>Brute force\<close>

record brute_force =
  bf_items :: "index_item list"
  bf_st :: index_counters

definition bf_new :: brute_force where
  "bf_new = \<lparr>bf_items = [], bf_st = no_counters\<rparr>"

definition bf_build :: "index_item list \<Rightarrow> brute_force \<Rightarrow> brute_force" where
  "bf_build its s = s\<lparr>bf_items := its\<rparr>"

definition bf_insert :: "zone_id \<Rightarrow> bbox \<Rightarrow> brute_force \<Rightarrow> brute_force" where
  "bf_insert i b s = s\<lparr>bf_items := bf_items s @ [(i, b)]\<rparr>"

text \<open>The first item with the id, if any, is erased.\<close>

fun erase_id :: "zone_id \<Rightarrow> index_item list \<Rightarrow> index_item list option" where
  "erase_id i [] = None"
| "erase_id i (it # its) = (if fst it = i then Some its else map_option ((#) it) (erase_id i its))"

definition bf_remove :: "zone_id \<Rightarrow> brute_force \<Rightarrow> bool \<times> brute_force" where
  "bf_remove i s = (case erase_id i (bf_items s) of
      Some its \<Rightarrow> (True, s\<lparr>bf_items := its\<rparr>) | None \<Rightarrow> (False, s))"

definition matching :: "bbox \<Rightarrow> index_item list \<Rightarrow> zone_id list" where
  "matching q its = map fst (filter (\<lambda>it. bb_intersects (snd it) q) its)"

definition bf_query :: "bbox \<Rightarrow> zone_id list \<Rightarrow> brute_force \<Rightarrow> zone_id list \<times> brute_force" where
  "bf_query q out s =
     (let out' = out @ matching q (bf_items s)
      in (out', s\<lparr>bf_st := count_query (length out' - length out) (bf_st s)\<rparr>))"

definition bf_stats :: "brute_force \<Rightarrow> index_shape" where
  "bf_stats s = \<lparr>node_count = length (bf_items s), tree_depth = 1\<rparr>"

definition bf_reset_counters :: "brute_force \<Rightarrow> brute_force" where
  "bf_reset_counters s = s\<lparr>bf_st := no_counters\<rparr>"

definition bf_ops :: "brute_force index_ops" where
  "bf_ops = \<lparr>op_build = bf_build, op_insert = bf_insert, op_remove = bf_remove, op_query = bf_query,
     op_size = \<lambda>s. length (bf_items s)\<rparr>"

text \<open>Facts on item lists that every implementation uses.\<close>

lemma erase_id_None: "erase_id i its = None \<longleftrightarrow> map_of its i = None"
  by (induction its) auto

lemma erase_id_Some_mset:
  "erase_id i its = Some its' \<Longrightarrow> \<exists>b. (i, b) \<in> set its \<and> mset its = add_mset (i, b) (mset its')"
  by (induction its arbitrary: its') (fastforce split: if_splits)+

lemma items_ok_mset: "mset its = mset its' \<Longrightarrow> items_ok its \<longleftrightarrow> items_ok its'"
proof -
  assume m: "mset its = mset its'"
  then have "mset (map fst its) = mset (map fst its')" by simp
  then have "distinct (map fst its) \<longleftrightarrow> distinct (map fst its')" by (rule mset_eq_imp_distinct_iff)
  then show ?thesis using mset_eq_setD [OF m] by (simp add: items_ok_def)
qed

lemma map_of_mset:
  assumes "mset its = mset its'" "items_ok its"
  shows "map_of its = map_of its'"
  using assms items_ok_mset [OF assms(1)] mset_eq_setD [OF assms(1)]
  by (intro map_of_inject_set [THEN iffD2]) (auto simp: items_ok_def)

lemma items_ok_Cons: "items_ok (it # its) \<longleftrightarrow> fst it \<notin> fst ` set its \<and> bb_proper (snd it) \<and> items_ok its"
  by (auto simp: items_ok_def)

lemma items_ok_insert:
  assumes "items_ok its" "map_of its i = None" "bb_proper b" "mset its' = add_mset (i, b) (mset its)"
  shows "items_ok its'" "map_of its' = (map_of its)(i \<mapsto> b)"
proof -
  have ok: "items_ok ((i, b) # its)" using assms(1-3) by (simp add: items_ok_Cons map_of_eq_None_iff)
  have m: "mset ((i, b) # its) = mset its'" using assms(4) by simp
  show "items_ok its'" using ok items_ok_mset [OF m] by simp
  show "map_of its' = (map_of its)(i \<mapsto> b)" using map_of_mset [OF m ok] by simp
qed

lemma items_ok_erase:
  assumes "items_ok its" "erase_id i its = Some its0" "mset its' = mset its0"
  shows "items_ok its'" "map_of its' = (map_of its)(i := None)" "map_of its i \<noteq> None"
proof -
  obtain b where b: "mset its = add_mset (i, b) (mset its0)" using erase_id_Some_mset [OF assms(2)] by blast
  then have m: "mset its = mset ((i, b) # its')" using assms(3) by simp
  have ok: "items_ok ((i, b) # its')" using assms(1) items_ok_mset [OF m] by simp
  then show "items_ok its'" by (simp add: items_ok_Cons)
  have "map_of its' i = None" using ok by (simp add: items_ok_Cons map_of_eq_None_iff)
  then show "map_of its' = (map_of its)(i := None)" using map_of_mset [OF m assms(1)] by auto
  show "map_of its i \<noteq> None" using assms(2) erase_id_None [of i its] by auto
qed

lemma matching_hits:
  assumes "items_ok its" "mset found = mset (matching q its)"
  shows "distinct found" "set found = box_hits q (map_of its)"
proof -
  have d: "distinct (map fst its)" using assms(1) by (simp add: items_ok_def)
  then have "distinct (matching q its)" by (simp add: matching_def distinct_map_filter)
  then show "distinct found" using mset_eq_imp_distinct_iff [OF assms(2)] by simp
  have "set found = set (matching q its)" using assms(2) by (rule mset_eq_setD)
  also have "\<dots> = box_hits q (map_of its)" using d by (force simp: matching_def box_hits_def)
  finally show "set found = box_hits q (map_of its)" .
qed

lemma items_ok_size: "items_ok its \<Longrightarrow> finite (dom (map_of its)) \<and> length its = card (dom (map_of its))"
  by (simp add: items_ok_def dom_map_of_conv_image_fst finite_dom_map_of flip: distinct_card) 
    (metis distinct_card length_map list.set_map)

text \<open>Facts on boxes and item lists shared by the tree indexes.\<close>

fun fully_contains :: "bbox \<Rightarrow> bbox \<Rightarrow> bool" where
  "fully_contains outer NoBox = True"
| "fully_contains NoBox inner = False"
| "fully_contains (Box a b c d) (Box a' b' c' d') \<longleftrightarrow> a' \<ge> a \<and> c' \<le> c \<and> b' \<ge> b \<and> d' \<le> d"

lemma fully_contains_refl [simp]: "fully_contains r r"
  by (cases r) auto

lemma fully_contains_trans: "fully_contains a b \<Longrightarrow> fully_contains b c \<Longrightarrow> fully_contains a c"
  by (cases a; cases b; cases c) auto

lemma fully_contains_intersects: "fully_contains r b \<Longrightarrow> bb_intersects b q \<Longrightarrow> bb_intersects r q"
  by (cases r; cases b; cases q) auto

lemma bb_expand_covers: "fully_contains (bb_expand r b) r \<and> (bb_proper b \<longrightarrow> fully_contains (bb_expand r b) b)"
  by (cases r; cases b) auto

lemma matching_append [simp]: "matching q (xs @ ys) = matching q xs @ matching q ys"
  by (simp add: matching_def)

lemma matching_concat: "matching q (concat xss) = concat (map (matching q) xss)"
  by (induction xss) (simp_all add: matching_def)

lemma erase_id_append:
  "erase_id i (xs @ ys) = (case erase_id i xs of Some xs' \<Rightarrow> Some (xs' @ ys) | None \<Rightarrow> map_option ((@) xs) (erase_id i ys))"
proof (induction xs)
  case Nil
  show ?case by (cases "erase_id i ys") simp_all
next
  case (Cons x xs)
  have "(@) (x # xs) = (#) x \<circ> (@) xs" by auto
  with Cons show ?case by (auto split: option.splits simp: option.map_comp)
qed

lemma erase_id_subset: "erase_id i xs = Some ys \<Longrightarrow> set ys \<subseteq> set xs"
  by (induction xs arbitrary: ys) (fastforce split: if_splits)+

definition bf_inv :: "brute_force \<Rightarrow> bool" where
  "bf_inv s \<longleftrightarrow> items_ok (bf_items s)"

interpretation brute: spatial_index bf_ops bf_inv "\<lambda>s. map_of (bf_items s)"
proof (unfold_locales, goal_cases)
  case (1 s its)
  then show ?case by (simp add: bf_ops_def bf_build_def bf_inv_def)
next
  case (2 s b i)
  then show ?case
    using items_ok_insert [of "bf_items s" i b "bf_items s @ [(i, b)]"] by (simp add: bf_ops_def bf_insert_def bf_inv_def)
next
  case (3 s i)
  then show ?case
    using items_ok_erase [of "bf_items s" i _ _, OF _ _ refl] erase_id_None [of i "bf_items s"]
    by (fastforce simp: bf_ops_def bf_remove_def bf_inv_def split: option.splits)
next
  case (4 s q out)
  then show ?case
    using matching_hits [of "bf_items s" _ q, OF _ refl] by (simp add: bf_ops_def bf_query_def bf_inv_def Let_def)
next
  case (5 s)
  then show ?case using items_ok_size by (simp add: bf_ops_def bf_inv_def)
qed

end
