(* ===== verification/Quadtree.thy ===== *)
theory Quadtree
  imports Spatial_Index
begin

text \<open>
  The quadtree over boxes, \<^verbatim>\<open>src/index/quadtree.cpp\<close>. A node is its region, the items stored at it
  and its four children, none for a leaf. Depth is an argument of the recursion, as in the code. The
  items of a tree in the order the code walks them (\<open>gather\<close>) are its abstraction: a query is exactly
  the filter of that list, a removal erases the first match in it, and collapsing or growing the root
  leaves it as it is.
\<close>

datatype qtree = QNode (q_region: bbox) (q_items: "index_item list") (q_kids: "qtree list")

fun quadrant :: "bbox \<Rightarrow> nat \<Rightarrow> bbox" where
  "quadrant NoBox i = NoBox"
| "quadrant (Box a b c d) i =
     (let mlat = (a + c) / 2; mlon = (b + d) / 2
      in if i = 0 then Box a b mlat mlon else if i = 1 then Box a mlon mlat d
         else if i = 2 then Box mlat b c mlon else Box mlat mlon c d)"

definition subdivide :: "bbox \<Rightarrow> qtree list" where
  "subdivide r = map (\<lambda>i. QNode (quadrant r i) [] []) [0..<4]"

definition child_for :: "qtree list \<Rightarrow> bbox \<Rightarrow> nat option" where
  "child_for kids b = find (\<lambda>i. fully_contains (q_region (kids ! i)) b) [0..<length kids]"

lemma child_for_Some: "child_for kids b = Some i \<Longrightarrow> i < length kids \<and> fully_contains (q_region (kids ! i)) b"
  by (auto simp: child_for_def find_Some_iff)

lemma nth_size_less: "i < length kids \<Longrightarrow> size (kids ! i) < Suc (size_list size kids)"
  using size_list_estimation' [of "kids ! i" kids "size (kids ! i)" size] by simp

function insert_into :: "nat \<Rightarrow> nat \<Rightarrow> nat \<Rightarrow> qtree \<Rightarrow> index_item \<Rightarrow> qtree" where
  "insert_into cap md depth (QNode r its kids) it =
     (if kids \<noteq> [] then
        (case child_for kids (snd it) of
           Some i \<Rightarrow> QNode r its (kids[i := insert_into cap md (depth + 1) (kids ! i) it])
         | None \<Rightarrow> QNode r (its @ [it]) kids)
      else if length (its @ [it]) > cap \<and> depth < md then
        (let (stay, ks) = foldl (\<lambda>(stay, ks) x. case child_for ks (snd x) of
              Some i \<Rightarrow> (stay, ks[i := insert_into cap md (depth + 1) (ks ! i) x])
            | None \<Rightarrow> (stay @ [x], ks)) ([], subdivide r) (its @ [it])
         in QNode r stay ks)
      else QNode r (its @ [it]) [])"
  by pat_completeness auto
termination
proof (relation "measures [\<lambda>(cap, md, depth, n, it). md - depth, \<lambda>(cap, md, depth, n, it). size n]", goal_cases)
  case (2 cap md depth r its kids it i)
  then show ?case using child_for_Some [of kids "snd it" i] nth_size_less [of i kids] by auto
qed auto

fun gather :: "qtree \<Rightarrow> index_item list" where
  "gather (QNode r its kids) = its @ concat (map gather kids)"

fun query_node :: "bbox \<Rightarrow> qtree \<Rightarrow> zone_id list" where
  "query_node q (QNode r its kids) =
     (if \<not> bb_intersects r q then [] else matching q its @ concat (map (query_node q) kids))"

text \<open>The number of items below a node, given up as soon as it exceeds the limit.\<close>

fun count_upto :: "qtree \<Rightarrow> nat \<Rightarrow> nat" and count_kids :: "qtree list \<Rightarrow> nat \<Rightarrow> nat \<Rightarrow> nat" where
  "count_upto (QNode r its kids) limit =
     (if length its > limit then length its else count_kids kids limit (length its))"
| "count_kids [] limit acc = acc"
| "count_kids (k # ks) limit acc =
     (let acc = acc + count_upto k (limit - min limit acc)
      in if acc > limit then acc else count_kids ks limit acc)"

definition try_collapse :: "nat \<Rightarrow> qtree \<Rightarrow> qtree" where
  "try_collapse cap n =
     (if q_kids n = [] then n else if count_upto n cap > cap then n else QNode (q_region n) (gather n) [])"

fun remove_node :: "nat \<Rightarrow> zone_id \<Rightarrow> qtree \<Rightarrow> qtree option"
  and remove_kids :: "nat \<Rightarrow> zone_id \<Rightarrow> qtree list \<Rightarrow> qtree list option" where
  "remove_node cap i (QNode r its kids) =
     (case erase_id i its of
        Some its' \<Rightarrow> Some (try_collapse cap (QNode r its' kids))
      | None \<Rightarrow> map_option (\<lambda>ks. try_collapse cap (QNode r its ks)) (remove_kids cap i kids))"
| "remove_kids cap i [] = None"
| "remove_kids cap i (k # ks) =
     (case remove_node cap i k of Some k' \<Rightarrow> Some (k' # ks) | None \<Rightarrow> map_option ((#) k) (remove_kids cap i ks))"

text \<open>Node count, depth and boxes; the footprint in bytes is left out.\<close>

fun qt_walk :: "qtree \<Rightarrow> nat \<Rightarrow> nat \<times> nat \<times> bbox list \<Rightarrow> nat \<times> nat \<times> bbox list" where
  "qt_walk (QNode r its kids) depth acc =
     (case acc of (nodes, maxd, boxes) \<Rightarrow>
        foldl (\<lambda>acc k. qt_walk k (depth + 1) acc) (nodes + 1, max maxd depth, boxes @ [r]) kids)"

section \<open>The index\<close>

record quadtree =
  qt_root :: qtree
  qt_cap :: nat
  qt_max_depth :: nat
  qt_count :: nat
  qt_widened :: bool
  qt_st :: index_counters

definition world :: bbox where
  "world = Box (-90) (-180) 90 180"

definition qt_new :: "nat \<Rightarrow> nat \<Rightarrow> quadtree" where
  "qt_new cap md =
     \<lparr>qt_root = QNode world [] [], qt_cap = (if cap < 1 then 1 else cap), qt_max_depth = md, qt_count = 0,
      qt_widened = False, qt_st = no_counters\<rparr>"

definition set_region :: "bbox \<Rightarrow> qtree \<Rightarrow> qtree" where
  "set_region r n = QNode r (q_items n) (q_kids n)"

text \<open>Room around a box: two per cent of its extent and a little more.\<close>

definition padded :: "bbox \<Rightarrow> bbox" where
  "padded b =
     (let padlat = (max_lat b - min_lat b) * 0.02 + 1 / 10 ^ 6; padlon = (max_lon b - min_lon b) * 0.02 + 1 / 10 ^ 6
      in Box (min_lat b - padlat) (min_lon b - padlon) (max_lat b + padlat) (max_lon b + padlon))"

definition double_root :: "bbox \<Rightarrow> qtree \<Rightarrow> qtree" where
  "double_root box n =
     (let r = q_region n; h = max_lat r - min_lat r; w = max_lon r - min_lon r;
          north = (max_lat box > max_lat r \<or> \<not> min_lat box < min_lat r);
          east = (max_lon box > max_lon r \<or> \<not> min_lon box < min_lon r);
          nr = Box (if north then min_lat r else min_lat r - h) (if east then min_lon r else min_lon r - w)
                   (if north then max_lat r + h else max_lat r) (if east then max_lon r + w else max_lon r);
          slot = (if north then 0 else 2) + (if east then 0 else 1)
      in QNode nr [] ((subdivide nr)[slot := n]))"

fun cover_loop :: "nat \<Rightarrow> bbox \<Rightarrow> qtree \<Rightarrow> qtree" where
  "cover_loop 0 box n = n"
| "cover_loop (Suc guard) box n =
     (if fully_contains (q_region n) box then n else cover_loop guard box (double_root box n))"

definition degenerate :: "bbox \<Rightarrow> bool" where
  "degenerate r \<longleftrightarrow> max_lat r \<le> min_lat r \<or> max_lon r \<le> min_lon r"

definition expand_root_to_cover :: "bbox \<Rightarrow> quadtree \<Rightarrow> quadtree" where
  "expand_root_to_cover box s =
     (let r = q_region (qt_root s)
      in if degenerate r \<and> qt_count s = 0 then s\<lparr>qt_root := set_region (padded box) (qt_root s)\<rparr>
         else
           (let n = (if degenerate r
                     then set_region (Box (min_lat r) (min_lon r) (min_lat r + 1 / 10 ^ 6) (min_lon r + 1 / 10 ^ 6)) (qt_root s)
                     else qt_root s);
                n = cover_loop 64 box n
            in if fully_contains (q_region n) box then s\<lparr>qt_root := n\<rparr>
               else s\<lparr>qt_root := set_region (bb_expand (q_region n) box) n, qt_widened := True\<rparr>))"

definition qt_insert :: "zone_id \<Rightarrow> bbox \<Rightarrow> quadtree \<Rightarrow> quadtree" where
  "qt_insert i box s =
     (let s = (if fully_contains (q_region (qt_root s)) box then s else expand_root_to_cover box s)
      in s\<lparr>qt_root := insert_into (qt_cap s) (qt_max_depth s) 0 (qt_root s) (i, box), qt_count := qt_count s + 1\<rparr>)"

definition qt_build :: "index_item list \<Rightarrow> quadtree \<Rightarrow> quadtree" where
  "qt_build its s =
     (let s = s\<lparr>qt_root := QNode world [] [], qt_count := 0, qt_widened := False\<rparr>
      in if its = [] then s
         else (let ext = foldl (\<lambda>e it. bb_expand e (snd it)) NoBox its
               in foldl (\<lambda>s it. qt_insert (fst it) (snd it) s) (s\<lparr>qt_root := QNode (padded ext) [] []\<rparr>) its))"

definition qt_remove :: "zone_id \<Rightarrow> quadtree \<Rightarrow> bool \<times> quadtree" where
  "qt_remove i s = (case remove_node (qt_cap s) i (qt_root s) of
      Some n \<Rightarrow> (True, s\<lparr>qt_root := n, qt_count := qt_count s - 1\<rparr>) | None \<Rightarrow> (False, s))"

definition qt_query :: "bbox \<Rightarrow> zone_id list \<Rightarrow> quadtree \<Rightarrow> zone_id list \<times> quadtree" where
  "qt_query q out s =
     (let out' = out @ query_node q (qt_root s)
      in (out', s\<lparr>qt_st := count_query (length out' - length out) (qt_st s)\<rparr>))"

definition qt_stats :: "quadtree \<Rightarrow> index_shape" where
  "qt_stats s = (case qt_walk (qt_root s) 0 (0, 0, []) of (nodes, maxd, _) \<Rightarrow> \<lparr>node_count = nodes, tree_depth = maxd\<rparr>)"

definition qt_node_boxes :: "quadtree \<Rightarrow> bbox list" where
  "qt_node_boxes s = snd (snd (qt_walk (qt_root s) 0 (0, 0, [])))"

definition qt_reset_counters :: "quadtree \<Rightarrow> quadtree" where
  "qt_reset_counters s = s\<lparr>qt_st := no_counters\<rparr>"

definition qt_ops :: "quadtree index_ops" where
  "qt_ops = \<lparr>op_build = qt_build, op_insert = qt_insert, op_remove = qt_remove, op_query = qt_query, op_size = qt_count\<rparr>"

text \<open>The diagnostics; depths are \<open>uint16_t\<close> and item counts \<open>uint32_t\<close> there.\<close>

fun describe_node :: "qtree \<Rightarrow> nat \<Rightarrow> node_trace list" where
  "describe_node (QNode r its kids) depth =
     \<lparr>nt_box = r, nt_depth = depth, nt_leaf = (kids = []), nt_hit = False, nt_items = uint32_of (length its)\<rparr> #
     concat (map (\<lambda>k. describe_node k ((depth + 1) mod 65536)) kids)"

fun trace_node :: "bbox \<Rightarrow> qtree \<Rightarrow> nat \<Rightarrow> zone_id list \<times> node_trace list \<Rightarrow> zone_id list \<times> node_trace list" where
  "trace_node q (QNode r its kids) depth acc =
     (case acc of (out, visited) \<Rightarrow>
        let hit = bb_intersects r q;
            visited = visited @ [\<lparr>nt_box = r, nt_depth = depth, nt_leaf = (kids = []), nt_hit = hit,
                                  nt_items = uint32_of (length its)\<rparr>]
        in if \<not> hit then (out, visited)
           else foldl (\<lambda>acc k. trace_node q k ((depth + 1) mod 65536) acc) (out @ matching q its, visited) kids)"

definition near_box :: "bbox \<Rightarrow> bbox \<Rightarrow> real \<Rightarrow> bool" where
  "near_box a b tol \<longleftrightarrow> \<bar>min_lat a - min_lat b\<bar> \<le> tol \<and> \<bar>max_lat a - max_lat b\<bar> \<le> tol \<and>
     \<bar>min_lon a - min_lon b\<bar> \<le> tol \<and> \<bar>max_lon a - max_lon b\<bar> \<le> tol"

text \<open>The structural audit: the number of items, or nothing on a violation.\<close>

fun audit :: "qtree \<Rightarrow> bool \<Rightarrow> nat \<Rightarrow> nat option" and audit_kids :: "bbox \<Rightarrow> bool \<Rightarrow> real \<Rightarrow> nat \<Rightarrow> qtree list \<Rightarrow> nat \<Rightarrow> nat option" where
  "audit (QNode r its kids) tiling items =
     (if \<not> list_all (\<lambda>it. fully_contains r (snd it)) its then None
      else if kids = [] then Some (items + length its)
      else if length kids \<noteq> 4 then None
      else audit_kids r tiling (1 / 10 ^ 9 * max (max_lat r - min_lat r) (max_lon r - min_lon r)) 0 kids (items + length its))"
| "audit_kids r tiling tol i [] items = Some items"
| "audit_kids r tiling tol i (k # ks) items =
     (if \<not> fully_contains r (q_region k) then None
      else if tiling \<and> \<not> near_box (q_region k) (quadrant r i) tol then None
      else case audit k True items of None \<Rightarrow> None | Some items \<Rightarrow> audit_kids r tiling tol (i + 1) ks items)"

definition qt_check_invariants :: "quadtree \<Rightarrow> bool" where
  "qt_check_invariants s \<longleftrightarrow> audit (qt_root s) (\<not> qt_widened s) 0 = Some (qt_count s)"

section \<open>The invariant\<close>

fun qt_ok :: "qtree \<Rightarrow> bool" where
  "qt_ok (QNode r its kids) \<longleftrightarrow>
     bb_proper r \<and> (\<forall>it \<in> set its. fully_contains r (snd it)) \<and> (kids = [] \<or> length kids = 4) \<and>
     (\<forall>k \<in> set kids. fully_contains r (q_region k) \<and> qt_ok k)"

fun qt_tiled :: "qtree \<Rightarrow> bool" where
  "qt_tiled (QNode r its kids) \<longleftrightarrow>
     (\<forall>i < length kids. q_region (kids ! i) = quadrant r i) \<and> (\<forall>k \<in> set kids. qt_tiled k)"

lemma quadrant_proper: "bb_proper r \<Longrightarrow> bb_proper (quadrant r i) \<and> fully_contains r (quadrant r i)"
  by (cases r) (auto simp: bb_proper_def Let_def)

lemma length_subdivide [simp]: "length (subdivide r) = 4"
  by (simp add: subdivide_def)

lemma subdivide_not_Nil [simp]: "subdivide r \<noteq> []"
  using length_subdivide [of r] by (metis list.size(3) zero_neq_numeral)

lemma nth_subdivide: "i < 4 \<Longrightarrow> subdivide r ! i = QNode (quadrant r i) [] []"
  by (simp add: subdivide_def)

lemma subdivide_ok: "bb_proper r \<Longrightarrow> k \<in> set (subdivide r) \<Longrightarrow> fully_contains r (q_region k) \<and> qt_ok k \<and> qt_tiled k \<and> gather k = []"
  using quadrant_proper by (auto simp: subdivide_def)

lemma gather_region: "qt_ok n \<Longrightarrow> it \<in> set (gather n) \<Longrightarrow> fully_contains (q_region n) (snd it)"
proof (induction n)
  case (QNode r its kids)
  then show ?case by (auto intro: fully_contains_trans)
qed

lemma mset_concat_grow:
  "i < length ks \<Longrightarrow> mset (f k) = add_mset x (mset (f (ks ! i))) \<Longrightarrow>
   mset (concat (map f (ks[i := k]))) = add_mset x (mset (concat (map f ks)))"
proof (induction ks arbitrary: i)
  case (Cons y ys)
  then show ?case by (cases i) auto
qed simp

lemma update_ok:
  assumes "\<forall>k \<in> set ks. fully_contains r (q_region k) \<and> qt_ok k" "i < length ks" "qt_ok k" "q_region k = q_region (ks ! i)"
  shows "\<forall>k \<in> set (ks[i := k]). fully_contains r (q_region k) \<and> qt_ok k"
  using assms set_update_subset_insert [of ks i k] by (fastforce simp: in_set_conv_nth)

lemma update_tiled:
  assumes "\<forall>i < length ks. q_region (ks ! i) = quadrant r i" "\<forall>k \<in> set ks. qt_tiled k"
    and "q_region k = q_region (ks ! i)" "qt_tiled k" "i < length ks"
  shows "(\<forall>j < length ks. q_region (ks[i := k] ! j) = quadrant r j) \<and> (\<forall>k \<in> set (ks[i := k]). qt_tiled k)"
  using assms set_update_subset_insert [of ks i k] by (auto simp: nth_list_update)

text \<open>Insertion, for an item that the node's region covers. \<open>rebuilt r (stay, ks) its\<close> says that a node
  being split holds the items \<open>its\<close> so far.\<close>

definition rebuilt :: "bbox \<Rightarrow> index_item list \<times> qtree list \<Rightarrow> index_item list \<Rightarrow> bool" where
  "rebuilt r sk its \<longleftrightarrow> (\<forall>it \<in> set (fst sk). fully_contains r (snd it)) \<and> length (snd sk) = 4 \<and>
     (\<forall>k \<in> set (snd sk). fully_contains r (q_region k) \<and> qt_ok k) \<and>
     ((\<forall>i < length (snd sk). q_region (snd sk ! i) = quadrant r i) \<and> (\<forall>k \<in> set (snd sk). qt_tiled k)) \<and>
     mset (fst sk) + mset (concat (map gather (snd sk))) = mset its"

lemma rebuilt_subdivide: "bb_proper r \<Longrightarrow> rebuilt r ([], subdivide r) []"
  using subdivide_ok [of r] by (auto simp: rebuilt_def nth_subdivide)

lemma insert_into_correct:
  "qt_ok n \<Longrightarrow> fully_contains (q_region n) (snd it) \<Longrightarrow>
   qt_ok (insert_into cap md depth n it) \<and> q_region (insert_into cap md depth n it) = q_region n \<and>
   (qt_tiled n \<longrightarrow> qt_tiled (insert_into cap md depth n it)) \<and>
   mset (gather (insert_into cap md depth n it)) = add_mset it (mset (gather n))"
proof (induction cap md depth n it rule: insert_into.induct)
  case (1 cap md depth r its kids it)
  let ?ins = "insert_into cap md (depth + 1)"
  have ok: "bb_proper r" "\<forall>it \<in> set its. fully_contains r (snd it)" "kids = [] \<or> length kids = 4"
    "\<forall>k \<in> set kids. fully_contains r (q_region k) \<and> qt_ok k" "fully_contains r (snd it)"
    using "1.prems" by simp_all
  consider (inner) "kids \<noteq> []" | (split) "kids = []" "length (its @ [it]) > cap \<and> depth < md"
    | (leaf) "kids = []" "\<not> (length (its @ [it]) > cap \<and> depth < md)" by blast
  then show ?case
  proof cases
    case inner
    show ?thesis
    proof (cases "child_for kids (snd it)")
      case (Some i)
      note i = child_for_Some [OF Some]
      have k: "qt_ok (?ins (kids ! i) it)" "q_region (?ins (kids ! i) it) = q_region (kids ! i)"
        "qt_tiled (kids ! i) \<longrightarrow> qt_tiled (?ins (kids ! i) it)"
        "mset (gather (?ins (kids ! i) it)) = add_mset it (mset (gather (kids ! i)))"
        using "1.IH"(1) [OF inner Some] i ok(4) by auto
      have "qt_tiled (QNode r its kids) \<longrightarrow> qt_tiled (QNode r its (kids[i := ?ins (kids ! i) it]))"
        using update_tiled [of kids r "?ins (kids ! i) it" i] i k by auto
      moreover have "insert_into cap md depth (QNode r its kids) it = QNode r its (kids[i := ?ins (kids ! i) it])"
        using inner Some by simp
      ultimately show ?thesis
        using ok update_ok [OF ok(4) _ k(1,2)] mset_concat_grow [of i kids gather, OF _ k(4)] i by simp
    qed (use inner ok in simp)
  next
    case split
    define step where "step = (\<lambda>(stay, ks) x. case child_for ks (snd x) of
        Some i \<Rightarrow> (stay, ks[i := ?ins (ks ! i) x]) | None \<Rightarrow> (stay @ [x], ks))"
    have "rebuilt r (foldl step ([], subdivide r) xs) xs" if "set xs \<subseteq> set (its @ [it])" for xs
      using that
    proof (induction xs rule: rev_induct)
      case Nil
      then show ?case using rebuilt_subdivide [OF ok(1)] by simp
    next
      case (snoc x xs)
      obtain stay ks where sk: "foldl step ([], subdivide r) xs = (stay, ks)" by (cases "foldl step ([], subdivide r) xs")
      have g: "rebuilt r (stay, ks) xs" using snoc sk by simp
      have x: "fully_contains r (snd x)" "x \<in> set (its @ [it])" using snoc.prems ok(2,5) by auto
      show ?case
      proof (cases "child_for ks (snd x)")
        case (Some i)
        note i = child_for_Some [OF Some]
        have kok: "\<forall>k \<in> set ks. fully_contains r (q_region k) \<and> qt_ok k"
          and kt: "\<forall>i < length ks. q_region (ks ! i) = quadrant r i" "\<forall>k \<in> set ks. qt_tiled k"
          using g by (simp_all add: rebuilt_def)
        have k: "qt_ok (?ins (ks ! i) x)" "q_region (?ins (ks ! i) x) = q_region (ks ! i)" "qt_tiled (?ins (ks ! i) x)"
          "mset (gather (?ins (ks ! i) x)) = add_mset x (mset (gather (ks ! i)))"
          using "1.IH"(2) [OF _ split(2) x(2) refl Some] split(1) i kok kt(2) by auto
        have "foldl step ([], subdivide r) (xs @ [x]) = step (stay, ks) x" by (simp add: sk)
        also have "\<dots> = (stay, ks[i := ?ins (ks ! i) x])" by (simp add: step_def Some)
        finally show ?thesis
          using g update_ok [OF kok _ k(1,2)] update_tiled [OF kt k(2,3)] mset_concat_grow [of i ks gather, OF _ k(4)] i
          by (simp add: rebuilt_def)
      next
        case None
        have "foldl step ([], subdivide r) (xs @ [x]) = step (stay, ks) x" by (simp add: sk)
        also have "\<dots> = (stay @ [x], ks)" by (simp add: step_def None)
        finally show ?thesis using g x by (simp add: rebuilt_def)
      qed
    qed
    from this [of "its @ [it]"] have g: "rebuilt r (foldl step ([], subdivide r) (its @ [it])) (its @ [it])" by simp
    have e: "insert_into cap md depth (QNode r its kids) it = (case foldl step ([], subdivide r) (its @ [it]) of (stay, ks) \<Rightarrow> QNode r stay ks)"
      unfolding step_def using split by simp
    obtain stay ks where "foldl step ([], subdivide r) (its @ [it]) = (stay, ks)" by (cases "foldl step ([], subdivide r) (its @ [it])")
    then show ?thesis unfolding e using g ok split(1) by (auto simp: rebuilt_def)
  qed (use ok in auto)
qed

section \<open>Queries\<close>

lemma query_node_correct: "qt_ok n \<Longrightarrow> query_node q n = matching q (gather n)"
proof (induction n)
  case (QNode r its kids)
  show ?case
  proof (cases "bb_intersects r q")
    case True
    have "map (query_node q) kids = map (\<lambda>k. matching q (gather k)) kids" using QNode by simp
    then show ?thesis using True by (simp add: matching_concat comp_def cong: map_cong)
  next
    case False
    then have "\<forall>it \<in> set (gather (QNode r its kids)). \<not> bb_intersects (snd it) q"
      using gather_region [OF QNode.prems] fully_contains_intersects by fastforce
    then have "matching q (gather (QNode r its kids)) = []" unfolding matching_def by (simp only: map_is_Nil_conv filter_empty_conv)
    then show ?thesis using False by (simp del: gather.simps)
  qed
qed

text \<open>The traced query of the diagnostics appends what the query appends.\<close>

lemma trace_node_query: "fst (trace_node q n depth (out, visited)) = out @ query_node q n"
proof (induction n arbitrary: depth out visited)
  case (QNode r its kids)
  have "fst (foldl (\<lambda>acc k. trace_node q k d acc) acc ks) = fst acc @ concat (map (query_node q) ks)"
    if "set ks \<subseteq> set kids" for ks d acc
    using that QNode by (induction ks arbitrary: acc) (auto simp: prod_eq_iff)
  then show ?case by (simp add: Let_def)
qed

section \<open>Removal\<close>

lemma count_upto_exact:
  "(count_upto n limit > limit \<longleftrightarrow> length (gather n) > limit) \<and> (length (gather n) \<le> limit \<longrightarrow> count_upto n limit = length (gather n))"
proof (induction n arbitrary: limit)
  case (QNode r its kids)
  have "(count_kids ks limit m > limit \<longleftrightarrow> m + length (concat (map gather ks)) > limit) \<and>
      (m + length (concat (map gather ks)) \<le> limit \<longrightarrow> count_kids ks limit m = m + length (concat (map gather ks)))"
    if "set ks \<subseteq> set kids" "m \<le> limit" for ks m
    using that
  proof (induction ks arbitrary: m)
    case (Cons k ks)
    have k: "(count_upto k (limit - m) > limit - m \<longleftrightarrow> length (gather k) > limit - m) \<and>
        (length (gather k) \<le> limit - m \<longrightarrow> count_upto k (limit - m) = length (gather k))"
      using QNode Cons.prems by auto
    show ?case
    proof (cases "length (gather k) > limit - m")
      case True
      then show ?thesis using k Cons.prems by (auto simp: Let_def min_def)
    next
      case False
      then have c: "count_upto k (limit - m) = length (gather k)" and le: "m + length (gather k) \<le> limit"
        using k Cons.prems by auto
      have "count_kids (k # ks) limit m = count_kids ks limit (m + length (gather k))"
        using c le Cons.prems by (simp add: Let_def min_absorb2)
      then show ?thesis using Cons.IH [of "m + length (gather k)"] Cons.prems le by (simp add: add.assoc)
    qed
  qed simp
  then show ?case by (simp add: not_less)
qed

lemma try_collapse_correct:
  assumes "qt_ok n"
  shows "qt_ok (try_collapse cap n)" "q_region (try_collapse cap n) = q_region n" "gather (try_collapse cap n) = gather n"
    "qt_tiled n \<Longrightarrow> qt_tiled (try_collapse cap n)"
proof -
  have "bb_proper (q_region n)" using assms by (cases n) simp
  then show "qt_ok (try_collapse cap n)" using assms gather_region by (simp add: try_collapse_def)
qed (simp_all add: try_collapse_def)

lemma remove_correct:
  shows "qt_ok n \<Longrightarrow> (case remove_node cap i n of
      None \<Rightarrow> erase_id i (gather n) = None
    | Some n' \<Rightarrow> erase_id i (gather n) = Some (gather n') \<and> qt_ok n' \<and> q_region n' = q_region n \<and> (qt_tiled n \<longrightarrow> qt_tiled n'))"
    and "\<forall>k \<in> set ks. qt_ok k \<Longrightarrow> (case remove_kids cap i ks of
      None \<Rightarrow> erase_id i (concat (map gather ks)) = None
    | Some ks' \<Rightarrow> erase_id i (concat (map gather ks)) = Some (concat (map gather ks')) \<and> length ks' = length ks \<and>
        (\<forall>k \<in> set ks'. qt_ok k) \<and> map q_region ks' = map q_region ks \<and>
        ((\<forall>k \<in> set ks. qt_tiled k) \<longrightarrow> (\<forall>k \<in> set ks'. qt_tiled k)))"
proof (induction cap i n and cap i ks rule: remove_node_remove_kids.induct)
  case (1 cap i r its kids)
  show ?case
  proof (cases "erase_id i its")
    case (Some its')
    then have "qt_ok (QNode r its' kids)" using "1.prems" erase_id_subset [OF Some] by auto
    from try_collapse_correct [OF this, of cap] Some show ?thesis by (auto simp: erase_id_append)
  next
    case None
    show ?thesis
    proof (cases "remove_kids cap i kids")
      case None2: None
      then show ?thesis using None "1.IH" [OF None] "1.prems" by (simp add: erase_id_append)
    next
      case (Some ks)
      have ks: "erase_id i (concat (map gather kids)) = Some (concat (map gather ks))" "length ks = length kids"
        "\<forall>k \<in> set ks. qt_ok k" "map q_region ks = map q_region kids"
        "(\<forall>k \<in> set kids. qt_tiled k) \<longrightarrow> (\<forall>k \<in> set ks. qt_tiled k)"
        using "1.IH" [OF None] "1.prems" Some by auto
      have "q_region ` set ks = q_region ` set kids" using ks(4) by (metis list.set_map)
      moreover have "\<forall>b \<in> q_region ` set kids. fully_contains r b" using "1.prems" by auto
      ultimately have "\<forall>k \<in> set ks. fully_contains r (q_region k)" by blast
      then have ok: "qt_ok (QNode r its ks)" using "1.prems" ks(2,3) by auto
      have "\<forall>i < length ks. q_region (ks ! i) = q_region (kids ! i)" using ks(2,4) by (metis nth_map)
      then have "qt_tiled (QNode r its kids) \<longrightarrow> qt_tiled (QNode r its ks)" using ks(2,5) by auto
      with try_collapse_correct [OF ok, of cap] Some None ks(1) show ?thesis by (auto simp: erase_id_append)
    qed
  qed
next
  case (3 cap i k ks)
  then show ?case by (auto simp: erase_id_append split: option.splits)
qed simp

section \<open>Growing the root\<close>

definition strict :: "bbox \<Rightarrow> bool" where
  "strict r \<longleftrightarrow> r \<noteq> NoBox \<and> min_lat r < max_lat r \<and> min_lon r < max_lon r"

lemma strict_proper: "strict r \<Longrightarrow> bb_proper r \<and> \<not> degenerate r"
  by (auto simp: strict_def bb_proper_def degenerate_def)

lemma double_root_correct:
  assumes "qt_ok n" "strict (q_region n)"
  shows "qt_ok (double_root box n)" "strict (q_region (double_root box n))" "gather (double_root box n) = gather n"
    "qt_tiled n \<Longrightarrow> qt_tiled (double_root box n)" "fully_contains (q_region (double_root box n)) (q_region n)"
proof -
  let ?r = "q_region n"
  define h w where "h = max_lat ?r - min_lat ?r" and "w = max_lon ?r - min_lon ?r"
  define north east where "north = (max_lat box > max_lat ?r \<or> \<not> min_lat box < min_lat ?r)"
    and "east = (max_lon box > max_lon ?r \<or> \<not> min_lon box < min_lon ?r)"
  define nr where "nr = Box (if north then min_lat ?r else min_lat ?r - h) (if east then min_lon ?r else min_lon ?r - w)
      (if north then max_lat ?r + h else max_lat ?r) (if east then max_lon ?r + w else max_lon ?r)"
  define slot :: nat where "slot = (if north then 0 else 2) + (if east then 0 else 1)"
  have e: "double_root box n = QNode nr [] ((subdivide nr)[slot := n])"
    by (simp add: double_root_def Let_def nr_def slot_def north_def east_def h_def w_def)
  have pos: "0 < h" "0 < w" using assms(2) by (simp_all add: strict_def h_def w_def)
  obtain a b c d where r: "?r = Box a b c d" using assms(2) by (cases ?r) (auto simp: strict_def)
  have st: "strict nr" using pos by (simp add: nr_def strict_def h_def w_def)
  have slot: "slot < 4" by (simp add: slot_def)
  have q: "quadrant nr slot = ?r"
    using pos by (simp add: nr_def slot_def Let_def r h_def w_def field_simps)
  have nrk: "fully_contains nr ?r" using quadrant_proper [of nr slot] strict_proper [OF st] by (simp add: q)
  have kids: "k = n \<or> k \<in> set (subdivide nr)" if "k \<in> set ((subdivide nr)[slot := n])" for k
    using set_update_subset_insert [of "subdivide nr" slot n] that by blast
  show "qt_ok (double_root box n)"
    unfolding e using kids subdivide_ok strict_proper [OF st] assms(1) nrk by fastforce
  show "strict (q_region (double_root box n))" using st by (simp add: e)
  show "fully_contains (q_region (double_root box n)) ?r" using nrk by (simp add: e)
  have "concat (map gather (subdivide nr)) = []" using subdivide_ok strict_proper [OF st] by auto
  moreover have "concat (map gather ((subdivide nr)[slot := n])) = gather n"
    using slot by (auto simp: subdivide_def upt_rec numeral_eq_Suc less_Suc_eq)
  ultimately show "gather (double_root box n) = gather n" by (simp add: e)
  show "qt_tiled (double_root box n)" if "qt_tiled n"
    unfolding e using kids subdivide_ok strict_proper [OF st] that q slot
    by (fastforce simp: nth_list_update nth_subdivide)
qed

definition grown :: "qtree \<Rightarrow> qtree \<Rightarrow> bool" where
  "grown n n' \<longleftrightarrow> qt_ok n' \<and> strict (q_region n') \<and> gather n' = gather n \<and> (qt_tiled n \<longrightarrow> qt_tiled n') \<and>
     fully_contains (q_region n') (q_region n)"

lemma cover_loop_grown: "qt_ok n \<Longrightarrow> strict (q_region n) \<Longrightarrow> grown n (cover_loop g box n)"
proof (induction g arbitrary: n)
  case 0
  then show ?case by (simp add: grown_def)
next
  case (Suc g)
  then show ?case
    using double_root_correct [OF Suc.prems, of box] Suc.IH [of "double_root box n"]
    by (auto simp: grown_def intro: fully_contains_trans)
qed

text \<open>Sixty-four doublings cover every box of the globe: each one doubles both extents, and a doubling
  whose extent exceeds what is missing on a side closes that side for good.\<close>

lemma cover_stays: "qt_ok n \<Longrightarrow> strict (q_region n) \<Longrightarrow> fully_contains (q_region n) box \<Longrightarrow> fully_contains (q_region (cover_loop g box n)) box"
  by (cases g) auto

definition missing :: "bbox \<Rightarrow> bbox \<Rightarrow> real \<Rightarrow> real \<Rightarrow> bool" where
  "missing r box hgt wid \<longleftrightarrow> max_lat box - max_lat r \<le> hgt \<and> min_lat r - min_lat box \<le> hgt \<and>
     max_lon box - max_lon r \<le> wid \<and> min_lon r - min_lon box \<le> wid"

definition lat_ext :: "bbox \<Rightarrow> real" where "lat_ext r = max_lat r - min_lat r"
definition lon_ext :: "bbox \<Rightarrow> real" where "lon_ext r = max_lon r - min_lon r"

lemma double_root_region:
  "lat_ext (q_region (double_root box n)) = 2 * lat_ext (q_region n)"
  "lon_ext (q_region (double_root box n)) = 2 * lon_ext (q_region n)"
  by (simp_all add: double_root_def Let_def lat_ext_def lon_ext_def)

lemma double_root_missing:
  assumes "strict (q_region n)" "missing (q_region n) box a b"
  shows "missing (q_region (double_root box n)) box a b"
  using assms by (auto simp: double_root_def Let_def missing_def strict_def)

lemma two_doublings:
  assumes "strict (q_region n)" "bb_proper box" "missing (q_region n) box (lat_ext (q_region n)) (lon_ext (q_region n))"
  shows "fully_contains (q_region (double_root box (double_root box n))) box"
  using assms
  by (cases "q_region n"; cases box) (auto simp: double_root_def Let_def missing_def lat_ext_def lon_ext_def strict_def bb_proper_def)

lemma cover_loop_reaches:
  assumes "qt_ok n" "strict (q_region n)" "bb_proper box"
    and "missing (q_region n) box (2 ^ k * lat_ext (q_region n)) (2 ^ k * lon_ext (q_region n))"
  shows "fully_contains (q_region (cover_loop (Suc (Suc k)) box n)) box"
  using assms
proof (induction k arbitrary: n)
  case 0
  let ?m = "double_root box n"
  show ?case
    using two_doublings [OF 0(2,3)] 0 by simp
next
  case (Suc k)
  let ?m = "double_root box n"
  note m = double_root_correct [OF Suc.prems(1,2), of box]
  have "missing (q_region ?m) box (2 ^ k * lat_ext (q_region ?m)) (2 ^ k * lon_ext (q_region ?m))"
    using double_root_missing [OF Suc.prems(2,4)] by (simp add: double_root_region ac_simps)
  from Suc.IH [OF m(1,2) Suc.prems(3) this] show ?case by auto
qed

section \<open>Insertion into the index\<close>

definition qt_shape :: "quadtree \<Rightarrow> bool" where
  "qt_shape s \<longleftrightarrow> qt_ok (qt_root s) \<and> strict (q_region (qt_root s)) \<and> qt_count s = length (gather (qt_root s))"

lemma strict_mono: "fully_contains r' r \<Longrightarrow> strict r \<Longrightarrow> r' \<noteq> NoBox \<Longrightarrow> strict r'"
  by (cases r'; cases r) (auto simp: strict_def)

lemma set_region_ok:
  assumes "qt_ok n" "fully_contains r (q_region n)" "strict r"
  shows "qt_ok (set_region r n)" "gather (set_region r n) = gather n" "q_region (set_region r n) = r"
proof -
  show "qt_ok (set_region r n)"
    using assms strict_proper [OF assms(3)] by (cases n) (auto simp: set_region_def intro: fully_contains_trans)
  show "gather (set_region r n) = gather n" by (cases n) (simp add: set_region_def)
qed (simp add: set_region_def)

lemma expand_root_correct:
  assumes "qt_shape s" "bb_proper box"
  defines "s' \<equiv> expand_root_to_cover box s"
  shows "qt_shape s'" "gather (qt_root s') = gather (qt_root s)" "fully_contains (q_region (qt_root s')) box"
    "qt_cap s' = qt_cap s \<and> qt_max_depth s' = qt_max_depth s \<and> qt_count s' = qt_count s"
    "fully_contains (q_region (cover_loop 64 box (qt_root s))) box \<Longrightarrow>
       s' = s\<lparr>qt_root := cover_loop 64 box (qt_root s)\<rparr>"
proof -
  let ?n = "cover_loop 64 box (qt_root s)"
  have ok: "qt_ok (qt_root s)" "strict (q_region (qt_root s))" using assms(1) by (simp_all add: qt_shape_def)
  note g = cover_loop_grown [OF ok, of 64 box, unfolded grown_def]
  have s': "s' = (if fully_contains (q_region ?n) box then s\<lparr>qt_root := ?n\<rparr>
      else s\<lparr>qt_root := set_region (bb_expand (q_region ?n) box) ?n, qt_widened := True\<rparr>)"
    using strict_proper [OF ok(2)] by (simp add: s'_def expand_root_to_cover_def Let_def)
  note cov = bb_expand_covers [of "q_region ?n" box]
  have "bb_expand (q_region ?n) box \<noteq> NoBox"
    using g assms(2) by (cases "q_region ?n"; cases box) (auto simp: strict_def bb_proper_def)
  then have st: "strict (bb_expand (q_region ?n) box)" using strict_mono [of _ "q_region ?n"] cov g by blast
  note sr = set_region_ok [of ?n, OF _ cov [THEN conjunct1] st]
  show "qt_shape s'" using assms(1) g sr st by (auto simp: s' qt_shape_def)
  show "gather (qt_root s') = gather (qt_root s)" using g sr by (auto simp: s')
  show "fully_contains (q_region (qt_root s')) box" using cov assms(2) sr g by (auto simp: s')
  show "qt_cap s' = qt_cap s \<and> qt_max_depth s' = qt_max_depth s \<and> qt_count s' = qt_count s" by (simp add: s')
  show "fully_contains (q_region ?n) box \<Longrightarrow> s' = s\<lparr>qt_root := ?n\<rparr>" by (simp add: s')
qed

lemma qt_insert_correct:
  assumes "qt_shape s" "bb_proper b"
  shows "qt_shape (qt_insert i b s)" "mset (gather (qt_root (qt_insert i b s))) = add_mset (i, b) (mset (gather (qt_root s)))"
proof -
  define s0 where "s0 = (if fully_contains (q_region (qt_root s)) b then s else expand_root_to_cover b s)"
  have s0: "qt_shape s0" "gather (qt_root s0) = gather (qt_root s)" "fully_contains (q_region (qt_root s0)) b"
    using expand_root_correct [OF assms] assms(1) by (auto simp: s0_def)
  have e: "qt_insert i b s = s0\<lparr>qt_root := insert_into (qt_cap s0) (qt_max_depth s0) 0 (qt_root s0) (i, b), qt_count := qt_count s0 + 1\<rparr>"
    by (simp add: qt_insert_def s0_def Let_def)
  let ?n = "insert_into (qt_cap s0) (qt_max_depth s0) 0 (qt_root s0) (i, b)"
  have n: "qt_ok ?n \<and> q_region ?n = q_region (qt_root s0) \<and> mset (gather ?n) = add_mset (i, b) (mset (gather (qt_root s0)))"
    using insert_into_correct [of "qt_root s0" "(i, b)"] s0 by (simp add: qt_shape_def)
  then have "length (gather ?n) = Suc (length (gather (qt_root s0)))" by (metis size_add_mset size_mset)
  then show "qt_shape (qt_insert i b s)" using n s0(1) by (simp add: e qt_shape_def)
  show "mset (gather (qt_root (qt_insert i b s))) = add_mset (i, b) (mset (gather (qt_root s)))" using n s0(2) by (simp add: e)
qed

lemma qt_insert_all:
  "qt_shape s \<Longrightarrow> \<forall>it \<in> set its. bb_proper (snd it) \<Longrightarrow>
   qt_shape (foldl (\<lambda>s it. qt_insert (fst it) (snd it) s) s its) \<and>
   mset (gather (qt_root (foldl (\<lambda>s it. qt_insert (fst it) (snd it) s) s its))) = mset (gather (qt_root s)) + mset its"
  by (induction its arbitrary: s) (simp_all add: qt_insert_correct)

lemma padded_strict: "bb_proper b \<Longrightarrow> strict (padded b)"
  by (cases b) (auto simp: padded_def Let_def strict_def bb_proper_def field_simps)

lemma extent_proper: "bb_proper e \<Longrightarrow> \<forall>it \<in> set its. bb_proper (snd it) \<Longrightarrow> bb_proper (foldl (\<lambda>e it. bb_expand e (snd it)) e its)"
proof (induction its arbitrary: e)
  case (Cons it its)
  have "bb_proper (bb_expand e (snd it))"
    using Cons.prems by (cases e; cases "snd it") (auto simp: bb_proper_def)
  then show ?case using Cons by simp
qed simp

lemma qt_build_root:
  assumes "\<forall>it \<in> set its. bb_proper (snd it)"
  obtains r where "strict r" "its = [] \<Longrightarrow> r = world"
    "its \<noteq> [] \<Longrightarrow> r = padded (foldl (\<lambda>e it. bb_expand e (snd it)) NoBox its)"
    "qt_build its s = foldl (\<lambda>s it. qt_insert (fst it) (snd it) s)
       (s\<lparr>qt_count := 0, qt_widened := False, qt_root := QNode r [] []\<rparr>) its"
proof (cases its)
  case Nil
  then show ?thesis by (intro that [of world]) (auto simp: qt_build_def Let_def world_def strict_def)
next
  case (Cons it its')
  then have "bb_proper (foldl (\<lambda>e it. bb_expand e (snd it)) NoBox its)" using assms extent_proper [of "snd it" its'] by simp
  then show ?thesis
    using Cons padded_strict by (intro that [of "padded (foldl (\<lambda>e it. bb_expand e (snd it)) NoBox its)"]) (auto simp: qt_build_def Let_def)
qed

definition qt_inv :: "quadtree \<Rightarrow> bool" where
  "qt_inv s \<longleftrightarrow> qt_shape s \<and> items_ok (gather (qt_root s))"

lemma qt_build_correct:
  assumes "items_ok its"
  shows "qt_inv (qt_build its s) \<and> mset (gather (qt_root (qt_build its s))) = mset its"
proof -
  have p: "\<forall>it \<in> set its. bb_proper (snd it)" using assms by (simp add: items_ok_def)
  obtain r where r: "strict r" "qt_build its s = foldl (\<lambda>s it. qt_insert (fst it) (snd it) s)
       (s\<lparr>qt_count := 0, qt_widened := False, qt_root := QNode r [] []\<rparr>) its"
    by (rule qt_build_root [OF p])
  define s0 where "s0 = s\<lparr>qt_count := 0, qt_widened := False, qt_root := QNode r [] []\<rparr>"
  have s0: "qt_shape s0" "mset (gather (qt_root s0)) = {#}"
    using r(1) strict_proper by (simp_all add: s0_def qt_shape_def)
  have "qt_shape (qt_build its s) \<and> mset (gather (qt_root (qt_build its s))) = mset (gather (qt_root s0)) + mset its"
    unfolding r(2) s0_def [symmetric] by (rule qt_insert_all [OF s0(1) p])
  then show ?thesis using assms items_ok_mset [of "gather (qt_root (qt_build its s))" its] s0(2) by (simp add: qt_inv_def)
qed

lemma qt_remove_correct:
  assumes "qt_shape s"
  shows "qt_shape (snd (qt_remove i s))" "fst (qt_remove i s) = (erase_id i (gather (qt_root s)) \<noteq> None)"
    "gather (qt_root (snd (qt_remove i s))) =
       (case erase_id i (gather (qt_root s)) of Some its \<Rightarrow> its | None \<Rightarrow> gather (qt_root s))"
proof -
  have c: "case remove_node (qt_cap s) i (qt_root s) of
      None \<Rightarrow> erase_id i (gather (qt_root s)) = None
    | Some n' \<Rightarrow> erase_id i (gather (qt_root s)) = Some (gather n') \<and> qt_ok n' \<and> q_region n' = q_region (qt_root s) \<and>
        (qt_tiled (qt_root s) \<longrightarrow> qt_tiled n')"
    using remove_correct(1) assms by (simp add: qt_shape_def)
  have "length its' = length its - 1" if "erase_id i its = Some its'" for its its' :: "index_item list"
    using erase_id_Some_mset [OF that] by (metis diff_Suc_1 size_add_mset size_mset)
  then show "qt_shape (snd (qt_remove i s))"
    using c assms by (auto simp: qt_remove_def qt_shape_def split: option.splits)
  show "fst (qt_remove i s) = (erase_id i (gather (qt_root s)) \<noteq> None)"
    "gather (qt_root (snd (qt_remove i s))) =
       (case erase_id i (gather (qt_root s)) of Some its \<Rightarrow> its | None \<Rightarrow> gather (qt_root s))"
    using c by (auto simp: qt_remove_def split: option.splits)
qed

interpretation quad: spatial_index qt_ops qt_inv "\<lambda>s. map_of (gather (qt_root s))"
proof (unfold_locales, goal_cases)
  case (1 s its)
  then show ?case
    using qt_build_correct [of its s] map_of_mset [of its "gather (qt_root (qt_build its s))"] by (auto simp: qt_ops_def)
next
  case (2 s b i)
  then show ?case
    using qt_insert_correct [of s b i] items_ok_insert [of "gather (qt_root s)" i b "gather (qt_root (qt_insert i b s))"]
    by (auto simp: qt_ops_def qt_inv_def)
next
  case (3 s i)
  then show ?case
    using qt_remove_correct [of s i] items_ok_erase [of "gather (qt_root s)" i _ _, OF _ _ refl] erase_id_None [of i "gather (qt_root s)"]
    by (fastforce simp: qt_ops_def qt_inv_def split: option.splits)
next
  case (4 s q out)
  then show ?case
    using matching_hits [of "gather (qt_root s)" _ q, OF _ refl] query_node_correct [of "qt_root s" q]
    by (simp add: qt_ops_def qt_query_def qt_inv_def qt_shape_def Let_def)
next
  case (5 s)
  then show ?case using items_ok_size by (simp add: qt_ops_def qt_inv_def qt_shape_def)
qed

section \<open>The audit\<close>

lemma near_box_refl: "0 \<le> tol \<Longrightarrow> near_box a a tol"
  by (simp add: near_box_def)

lemma audit_passes: "qt_ok n \<Longrightarrow> qt_tiled n \<Longrightarrow> audit n tiling items = Some (items + length (gather n))"
proof (induction n arbitrary: tiling items)
  case (QNode r its kids)
  define tol where "tol = 1 / 10 ^ 9 * max (max_lat r - min_lat r) (max_lon r - min_lon r)"
  have tol: "0 \<le> tol" using QNode.prems(1) by (auto simp: tol_def bb_proper_def intro: order_trans [OF _ max.cobounded1])
  have regs: "\<forall>i < length kids. q_region (kids ! i) = quadrant r i" using QNode.prems(2) by simp
  have kids: "audit_kids r tiling tol i ks m = Some (m + length (concat (map gather ks)))"
    if "ks = drop i kids" for i ks m
    using that
  proof (induction ks arbitrary: i m)
    case (Cons k ks)
    have i: "i < length kids" using Cons.prems by (metis drop_eq_Nil list.distinct(1) not_less)
    have k: "k = kids ! i" "ks = drop (i + 1) kids"
      using Cons.prems i by (metis Cons_nth_drop_Suc list.inject, metis Cons_nth_drop_Suc Suc_eq_plus1 list.inject i)
    have kin: "k \<in> set kids" using k(1) i by simp
    have a: "audit k True m = Some (m + length (gather k))" for m using QNode.IH kin QNode.prems by simp
    have "fully_contains r (q_region k)" using kin QNode.prems(1) by simp
    moreover have "near_box (q_region k) (quadrant r i) tol" using regs i k(1) near_box_refl [OF tol] by simp
    ultimately have "fully_contains r (q_region k)" "near_box (q_region k) (quadrant r i) tol" by blast+
    then show ?case using a Cons.IH [OF k(2)] by (simp add: add.assoc)
  qed simp
  show ?case
    using kids [of kids 0 "items + length its"] QNode.prems(1)
    by (auto simp: list_all_iff tol_def)
qed

text \<open>Boxes of the globe never reach the last-resort widening, so the tiling is never given up.\<close>

definition on_globe :: "bbox \<Rightarrow> bool" where
  "on_globe b \<longleftrightarrow> bb_proper b \<and> fully_contains world b"

definition rooted :: "bbox \<Rightarrow> bool" where
  "rooted r \<longleftrightarrow> 2 / 10 ^ 6 \<le> lat_ext r \<and> 2 / 10 ^ 6 \<le> lon_ext r \<and>
     - 90 \<le> max_lat r \<and> min_lat r \<le> 90 \<and> - 180 \<le> max_lon r \<and> min_lon r \<le> 180"

lemma rooted_mono: "rooted r \<Longrightarrow> fully_contains r' r \<Longrightarrow> r \<noteq> NoBox \<Longrightarrow> r' \<noteq> NoBox \<Longrightarrow> rooted r'"
  by (cases r; cases r') (auto simp: rooted_def lat_ext_def lon_ext_def)

lemma rooted_missing: "rooted r \<Longrightarrow> on_globe b \<Longrightarrow> missing r b (2 ^ 62 * lat_ext r) (2 ^ 62 * lon_ext r)"
proof -
  assume r: "rooted r" and b: "on_globe b"
  have "360 \<le> 2 ^ 62 * lat_ext r" "360 \<le> 2 ^ 62 * lon_ext r"
    using r by (simp_all add: rooted_def)
  then show ?thesis using r b by (cases b) (auto simp: rooted_def missing_def on_globe_def world_def bb_proper_def)
qed

definition qt_sound :: "quadtree \<Rightarrow> bool" where
  "qt_sound s \<longleftrightarrow> qt_shape s \<and> qt_tiled (qt_root s) \<and> \<not> qt_widened s \<and> rooted (q_region (qt_root s))"

lemma qt_sound_check: "qt_sound s \<Longrightarrow> qt_check_invariants s"
  by (simp add: qt_sound_def qt_shape_def qt_check_invariants_def audit_passes)

lemma qt_insert_sound:
  assumes "qt_sound s" "on_globe b"
  shows "qt_sound (qt_insert i b s)"
proof -
  have sh: "qt_shape s" "bb_proper b" using assms by (simp_all add: qt_sound_def on_globe_def)
  define s0 where "s0 = (if fully_contains (q_region (qt_root s)) b then s else expand_root_to_cover b s)"
  have ok: "qt_ok (qt_root s)" "strict (q_region (qt_root s))" using sh(1) by (simp_all add: qt_shape_def)
  let ?n = "cover_loop 64 b (qt_root s)"
  have "missing (q_region (qt_root s)) b (2 ^ 62 * lat_ext (q_region (qt_root s))) (2 ^ 62 * lon_ext (q_region (qt_root s)))"
    using rooted_missing assms by (simp add: qt_sound_def)
  from cover_loop_reaches [OF ok sh(2) this]
  have cov: "fully_contains (q_region ?n) b" by (simp add: numeral_eq_Suc)
  note g = cover_loop_grown [OF ok, of 64 b, unfolded grown_def]
  have e0: "s0 = (if fully_contains (q_region (qt_root s)) b then s else s\<lparr>qt_root := ?n\<rparr>)"
    using expand_root_correct(5) [OF sh cov] by (simp add: s0_def)
  have "rooted (q_region ?n)"
    using rooted_mono [of "q_region (qt_root s)" "q_region ?n"] g ok assms(1) by (auto simp: qt_sound_def strict_def)
  then have s0: "qt_tiled (qt_root s0)" "\<not> qt_widened s0" "rooted (q_region (qt_root s0))"
    using g assms(1) by (auto simp: e0 qt_sound_def)
  have e: "qt_insert i b s = s0\<lparr>qt_root := insert_into (qt_cap s0) (qt_max_depth s0) 0 (qt_root s0) (i, b), qt_count := qt_count s0 + 1\<rparr>"
    by (simp add: qt_insert_def s0_def Let_def)
  have "qt_ok (qt_root s0)" "fully_contains (q_region (qt_root s0)) b"
    using expand_root_correct(1,3) [OF sh] ok by (auto simp: s0_def qt_shape_def)
  from insert_into_correct [of "qt_root s0" "(i, b)", OF this(1)] this(2) s0 qt_insert_correct(1) [OF sh, of i]
  show ?thesis by (simp add: qt_sound_def e)
qed

lemma qt_remove_sound: "qt_sound s \<Longrightarrow> qt_sound (snd (qt_remove i s))"
proof -
  assume s: "qt_sound s"
  have "case remove_node (qt_cap s) i (qt_root s) of
      None \<Rightarrow> erase_id i (gather (qt_root s)) = None
    | Some n' \<Rightarrow> erase_id i (gather (qt_root s)) = Some (gather n') \<and> qt_ok n' \<and> q_region n' = q_region (qt_root s) \<and>
        (qt_tiled (qt_root s) \<longrightarrow> qt_tiled n')"
    using remove_correct(1) s by (simp add: qt_sound_def qt_shape_def)
  then show ?thesis
    using s qt_remove_correct(1) [of s i] by (auto simp: qt_sound_def qt_remove_def split: option.splits)
qed

lemma qt_build_sound:
  assumes "\<forall>it \<in> set its. on_globe (snd it)"
  shows "qt_sound (qt_build its s)"
proof -
  have p: "\<forall>it \<in> set its. bb_proper (snd it)" using assms by (simp add: on_globe_def)
  obtain r where r: "strict r" "its = [] \<Longrightarrow> r = world"
    "its \<noteq> [] \<Longrightarrow> r = padded (foldl (\<lambda>e it. bb_expand e (snd it)) NoBox its)"
    "qt_build its s = foldl (\<lambda>s it. qt_insert (fst it) (snd it) s)
       (s\<lparr>qt_count := 0, qt_widened := False, qt_root := QNode r [] []\<rparr>) its"
    by (rule qt_build_root [OF p, of s]) blast
  have ext: "on_globe (foldl (\<lambda>e it. bb_expand e (snd it)) e is)"
    if "on_globe e" "\<forall>it \<in> set is. on_globe (snd it)" for e and "is" :: "index_item list"
    using that
  proof (induction "is" arbitrary: e)
    case (Cons it "is")
    have "on_globe (bb_expand e (snd it))"
      using Cons.prems by (cases e; cases "snd it") (auto simp: on_globe_def bb_proper_def world_def)
    then show ?case using Cons by simp
  qed simp
  have "rooted r"
  proof (cases its)
    case Nil
    then show ?thesis using r(2) by (simp add: rooted_def world_def lat_ext_def lon_ext_def)
  next
    case (Cons it its')
    then have "on_globe (foldl (\<lambda>e it. bb_expand e (snd it)) NoBox its)" using ext [of "snd it" its'] assms by simp
    moreover have "rooted (padded e)" if "on_globe e" for e
      using that
      by (cases e) (auto simp: padded_def Let_def rooted_def lat_ext_def lon_ext_def on_globe_def world_def bb_proper_def field_simps)
    ultimately show ?thesis using r(3) Cons by simp
  qed
  define s0 where "s0 = s\<lparr>qt_count := 0, qt_widened := False, qt_root := QNode r [] []\<rparr>"
  have s0: "qt_sound s0" using r(1) \<open>rooted r\<close> strict_proper by (simp add: s0_def qt_sound_def qt_shape_def)
  have "qt_sound (foldl (\<lambda>s it. qt_insert (fst it) (snd it) s) s0 its)"
    using s0 assms by (induction its arbitrary: s0) (simp_all add: qt_insert_sound)
  then show ?thesis unfolding r(4) s0_def .
qed

fun op_on_globe :: "index_op \<Rightarrow> bool" where
  "op_on_globe (IBuild its) = list_all (\<lambda>it. on_globe (snd it)) its"
| "op_on_globe (IInsert i b) = on_globe b"
| "op_on_globe _ = True"

lemma qt_step_sound: "qt_sound s \<Longrightarrow> op_on_globe p \<Longrightarrow> qt_sound (snd (index_step qt_ops p s))"
proof (cases p)
  case (IQuery q)
  assume "qt_sound s"
  then show ?thesis by (simp add: IQuery qt_ops_def qt_query_def Let_def qt_sound_def qt_shape_def)
qed (auto simp: qt_ops_def qt_build_sound qt_insert_sound qt_remove_sound list_all_iff Let_def)

lemma qt_new_sound: "qt_sound (qt_new cap md)" "qt_inv (qt_new cap md)" "gather (qt_root (qt_new cap md)) = []"
  by (auto simp: qt_new_def qt_sound_def qt_shape_def qt_inv_def items_ok_def strict_def world_def bb_proper_def rooted_def
      lat_ext_def lon_ext_def)

section \<open>Properties\<close>

text \<open>The structural audit holds after every sequence of operations on boxes of the globe: every item
  lies in the region of its node, children tile their parent, also after the root has grown, and the
  stored item count is the number of items.\<close>

lemma quadtree_audit_holds:
  assumes "list_all op_on_globe ps"
  shows "qt_check_invariants (index_state qt_ops ps (qt_new cap md))"
proof -
  have "qt_sound s \<Longrightarrow> list_all op_on_globe ps \<Longrightarrow> qt_sound (index_state qt_ops ps s)" for s
    by (induction ps arbitrary: s) (simp_all add: index_state_def qt_step_sound)
  then show ?thesis using assms qt_new_sound(1) qt_sound_check by blast
qed

theorem quadtree_audit_holds_witness:
  "qt_check_invariants (index_state qt_ops
     [IBuild [(1, Box 25 91 25.5 91.5), (2, Box 25.2 91.2 25.3 91.3)], IInsert 3 (Box (-10) 20 (-9) 21), IRemove 1] (qt_new 1 12))"
  by (rule quadtree_audit_holds) (simp add: on_globe_def world_def bb_proper_def)

end
