(* ===== verification/Versioned_Tree.thy ===== *)
theory Versioned_Tree
  imports Quadtree
begin

text \<open>
  The nodes of the persistent index, \<^verbatim>\<open>src/index/versioned_index.cpp\<close>: insertion and removal by path
  copying. A node carries the number of its allocation as its address, so that what two versions share is
  visible. The lemmas show that a copy holds exactly the changed items, that the one path a box selects leads
  to its item, and how few nodes are new.
\<close>

datatype vnode = VNode (v_addr: nat) (v_region: bbox) (v_depth: nat) (v_items: "index_item list") (v_kids: "vnode list")

definition kCap :: nat where "kCap = 8"
definition kMaxNodeDepth :: nat where "kMaxNodeDepth = 14"

fun push_first :: "vnode list \<Rightarrow> index_item \<Rightarrow> vnode list option" where
  "push_first [] x = None"
| "push_first (k # ks) x =
     (if fully_contains (v_region k) (snd x)
      then Some (VNode (v_addr k) (v_region k) (v_depth k) (v_items k @ [x]) (v_kids k) # ks)
      else map_option ((#) k) (push_first ks x))"

definition deal_items :: "vnode list \<Rightarrow> index_item list \<Rightarrow> index_item list \<times> vnode list" where
  "deal_items kids its =
     foldl (\<lambda>(stay, ks) x. case push_first ks x of Some ks \<Rightarrow> (stay, ks) | None \<Rightarrow> (stay @ [x], ks)) ([], kids) its"

text \<open>The copied node and the number of nodes allocated so far.\<close>

fun insert_copy :: "vnode \<Rightarrow> index_item \<Rightarrow> nat \<Rightarrow> bool \<Rightarrow> vnode \<times> nat"
  and insert_first :: "vnode list \<Rightarrow> index_item \<Rightarrow> nat \<Rightarrow> (vnode list \<times> nat) option" where
  "insert_copy (VNode a r d its ks) x allocated at_root =
     (let a = allocated; allocated = allocated + 1;
          r = (if at_root \<and> \<not> fully_contains r (snd x) then bb_expand r (snd x) else r)
      in if ks \<noteq> [] then
           (case insert_first ks x allocated of
              Some (ks, allocated) \<Rightarrow> (VNode a r d its ks, allocated)
            | None \<Rightarrow> (VNode a r d (its @ [x]) ks, allocated))
         else
           (let its = its @ [x] in
            if length its > kCap \<and> d < kMaxNodeDepth then
              (let (stay, ks) = deal_items (map (\<lambda>i. VNode (allocated + i) (quadrant r i) (d + 1) [] []) [0..<4]) its
               in (VNode a r d stay ks, allocated + 4))
            else (VNode a r d its [], allocated)))"
| "insert_first [] x allocated = None"
| "insert_first (k # ks) x allocated =
     (if fully_contains (v_region k) (snd x)
      then (case insert_copy k x allocated False of (k, allocated) \<Rightarrow> Some (k # ks, allocated))
      else map_option (\<lambda>(ks, allocated). (k # ks, allocated)) (insert_first ks x allocated))"

fun remove_copy :: "vnode \<Rightarrow> zone_id \<Rightarrow> bbox \<Rightarrow> nat \<Rightarrow> (vnode \<times> nat) option"
  and remove_first :: "vnode list \<Rightarrow> zone_id \<Rightarrow> bbox \<Rightarrow> nat \<Rightarrow> (vnode list \<times> nat) option" where
  "remove_copy (VNode a r d its ks) i box allocated =
     (case erase_id i its of
        Some its \<Rightarrow> Some (VNode allocated r d its ks, allocated + 1)
      | None \<Rightarrow> map_option (\<lambda>(ks, allocated). (VNode allocated r d its ks, allocated + 1)) (remove_first ks i box allocated))"
| "remove_first [] i box allocated = None"
| "remove_first (k # ks) i box allocated =
     (if fully_contains (v_region k) box
      then map_option (\<lambda>(k, allocated). (k # ks, allocated)) (remove_copy k i box allocated)
      else map_option (\<lambda>(ks, allocated). (k # ks, allocated)) (remove_first ks i box allocated))"

fun v_query_node :: "bbox \<Rightarrow> vnode \<Rightarrow> zone_id list" where
  "v_query_node q (VNode a r d its ks) =
     (if \<not> bb_intersects r q then [] else matching q its @ concat (map (v_query_node q) ks))"

fun count_node :: "vnode \<Rightarrow> nat \<times> nat \<Rightarrow> nat \<times> nat" where
  "count_node (VNode a r d its ks) acc = foldl (\<lambda>acc k. count_node k acc) (fst acc + length its, snd acc + 1) ks"

fun collect_addrs :: "vnode \<Rightarrow> nat list" where
  "collect_addrs (VNode a r d its ks) = a # concat (map collect_addrs ks)"

section \<open>The tree invariant\<close>

fun v_gather :: "vnode \<Rightarrow> index_item list" where
  "v_gather (VNode a r d its ks) = its @ concat (map v_gather ks)"

text \<open>Items lie in their node's region and on the one path that their box selects.\<close>

fun v_wf :: "vnode \<Rightarrow> bool" and v_wf_kids :: "bbox \<Rightarrow> nat \<Rightarrow> vnode list \<Rightarrow> bool" where
  "v_wf (VNode a r d its ks) \<longleftrightarrow>
     bb_proper r \<and> d \<le> kMaxNodeDepth \<and> (ks = [] \<or> length ks = 4) \<and>
     (\<forall>x \<in> set its. fully_contains r (snd x) \<and> (\<forall>k \<in> set ks. \<not> fully_contains (v_region k) (snd x))) \<and> v_wf_kids r d ks"
| "v_wf_kids r d [] = True"
| "v_wf_kids r d (k # ks) \<longleftrightarrow>
     v_wf k \<and> fully_contains r (v_region k) \<and> v_depth k = d + 1 \<and>
     (\<forall>x \<in> set (concat (map v_gather ks)). \<not> fully_contains (v_region k) (snd x)) \<and> v_wf_kids r d ks"

lemma v_wf_kids_mono: "v_wf_kids r d ks \<Longrightarrow> fully_contains r' r \<Longrightarrow> v_wf_kids r' d ks"
  by (induction ks) (auto intro: fully_contains_trans)

lemma v_wf_kids_all: "v_wf_kids r d ks \<Longrightarrow> k \<in> set ks \<Longrightarrow> v_wf k \<and> fully_contains r (v_region k) \<and> v_depth k = d + 1"
  by (induction ks) auto

lemma v_gather_region: "v_wf n \<Longrightarrow> x \<in> set (v_gather n) \<Longrightarrow> fully_contains (v_region n) (snd x)"
proof (induction n)
  case (VNode a r d its ks)
  consider "x \<in> set its" | k where "k \<in> set ks" "x \<in> set (v_gather k)" using VNode.prems(2) by auto
  then show ?case
  proof cases
    case (2 k)
    then show ?thesis
      using VNode.IH [OF 2(1)] v_wf_kids_all [of r d ks k] VNode.prems(1) by (auto intro: fully_contains_trans)
  qed (use VNode.prems in simp)
qed

lemma v_query_node_correct: "v_wf n \<Longrightarrow> v_query_node q n = matching q (v_gather n)"
proof (induction n)
  case (VNode a r d its ks)
  show ?case
  proof (cases "bb_intersects r q")
    case True
    have "map (v_query_node q) ks = map (\<lambda>k. matching q (v_gather k)) ks"
      using VNode.IH v_wf_kids_all [of r d ks] VNode.prems by simp
    then show ?thesis using True by (simp add: matching_concat comp_def cong: map_cong)
  next
    case False
    then have "\<forall>x \<in> set (v_gather (VNode a r d its ks)). \<not> bb_intersects (snd x) q"
      using v_gather_region [OF VNode.prems] fully_contains_intersects by fastforce
    then have "matching q (v_gather (VNode a r d its ks)) = []" unfolding matching_def by (simp only: map_is_Nil_conv filter_empty_conv)
    then show ?thesis using False by (simp del: v_gather.simps)
  qed
qed

lemma count_node_correct: "fst (count_node n acc) = fst acc + length (v_gather n)"
proof (induction n arbitrary: acc)
  case (VNode a r d its ks)
  have "fst (foldl (\<lambda>acc k. count_node k acc) acc xs) = fst acc + length (concat (map v_gather xs))" if "set xs \<subseteq> set ks" for xs acc
    using that VNode by (induction xs arbitrary: acc) auto
  then show ?case by simp
qed

section \<open>Insertion\<close>

lemma mset_add_set: "mset xs = add_mset x (mset ys) \<Longrightarrow> set xs = insert x (set ys)"
  by (metis set_mset_add_mset_insert set_mset_mset)

lemma push_first_correct:
  assumes "v_wf_kids r d ks" "\<forall>k \<in> set ks. v_kids k = []"
  shows "case push_first ks x of
      None \<Rightarrow> \<forall>k \<in> set ks. \<not> fully_contains (v_region k) (snd x)
    | Some ks' \<Rightarrow> v_wf_kids r d ks' \<and> (\<forall>k \<in> set ks'. v_kids k = []) \<and> length ks' = length ks \<and>
        map v_region ks' = map v_region ks \<and> map v_addr ks' = map v_addr ks \<and>
        mset (concat (map v_gather ks')) = add_mset x (mset (concat (map v_gather ks)))"
  using assms
proof (induction ks)
  case (Cons k ks)
  obtain a r' d' its ks0 where k: "k = VNode a r' d' its ks0" by (cases k)
  show ?case
  proof (cases "fully_contains (v_region k) (snd x)")
    case False
    have ih: "case push_first ks x of
      None \<Rightarrow> \<forall>k \<in> set ks. \<not> fully_contains (v_region k) (snd x)
    | Some ks' \<Rightarrow> v_wf_kids r d ks' \<and> (\<forall>k \<in> set ks'. v_kids k = []) \<and> length ks' = length ks \<and>
        map v_region ks' = map v_region ks \<and> map v_addr ks' = map v_addr ks \<and>
        mset (concat (map v_gather ks')) = add_mset x (mset (concat (map v_gather ks)))"
      using Cons by simp
    show ?thesis
    proof (cases "push_first ks x")
      case (Some ks')
      have "set (concat (map v_gather ks')) = insert x (set (concat (map v_gather ks)))"
        by (rule mset_add_set) (use ih Some in simp)
      then show ?thesis using False Cons.prems ih Some by simp
    qed (use ih False in simp)
  qed (use Cons.prems in \<open>simp add: k\<close>)
qed simp

definition dealing :: "bbox \<Rightarrow> nat \<Rightarrow> nat list \<Rightarrow> index_item list \<times> vnode list \<Rightarrow> index_item list \<Rightarrow> bool" where
  "dealing r d addrs sk its \<longleftrightarrow> v_wf_kids r d (snd sk) \<and> (\<forall>k \<in> set (snd sk). v_kids k = []) \<and> length (snd sk) = 4 \<and>
     map v_addr (snd sk) = addrs \<and>
     set (fst sk) \<subseteq> set its \<and> (\<forall>x \<in> set (fst sk). \<forall>k \<in> set (snd sk). \<not> fully_contains (v_region k) (snd x)) \<and>
     mset (fst sk) + mset (concat (map v_gather (snd sk))) = mset its"

lemma deal_items_correct:
  assumes "v_wf_kids r d kids" "\<forall>k \<in> set kids. v_kids k = [] \<and> v_gather k = []" "length kids = 4"
  shows "dealing r d (map v_addr kids) (deal_items kids its) its"
proof (induction its rule: rev_induct)
  case Nil
  then show ?case using assms by (simp add: dealing_def deal_items_def)
next
  case (snoc x its)
  obtain stay ks where sk: "deal_items kids its = (stay, ks)" by fastforce
  have g: "v_wf_kids r d ks" "\<forall>k \<in> set ks. v_kids k = []" using snoc by (simp_all add: sk dealing_def)
  have e: "deal_items kids (its @ [x]) = (case push_first ks x of Some ks \<Rightarrow> (stay, ks) | None \<Rightarrow> (stay @ [x], ks))"
    using sk by (simp add: deal_items_def)
  show ?case
  proof (cases "push_first ks x")
    case None
    then show ?thesis using push_first_correct [OF g, of x] snoc by (auto simp: e sk dealing_def)
  next
    case (Some ks')
    have p: "v_wf_kids r d ks' \<and> (\<forall>k \<in> set ks'. v_kids k = []) \<and> length ks' = length ks \<and>
        map v_region ks' = map v_region ks \<and> map v_addr ks' = map v_addr ks \<and>
        mset (concat (map v_gather ks')) = add_mset x (mset (concat (map v_gather ks)))"
      using push_first_correct [OF g, of x] Some by simp
    then have "v_region ` set ks' = v_region ` set ks" by (metis list.set_map)
    then have "(\<forall>k \<in> set ks'. \<not> fully_contains (v_region k) b) \<longleftrightarrow> (\<forall>k \<in> set ks. \<not> fully_contains (v_region k) b)" for b
      by (metis (no_types, lifting) imageE imageI)
    then show ?thesis using p snoc Some by (auto simp: e sk dealing_def)
  qed
qed

lemma fresh_kids:
  fixes n :: nat
  assumes "bb_proper r" "d < kMaxNodeDepth"
  defines "kids \<equiv> map (\<lambda>i. VNode (n + i) (quadrant r i) (d + 1) [] []) [0..<4]"
  shows "v_wf_kids r d kids" "\<forall>k \<in> set kids. v_kids k = [] \<and> v_gather k = []" "length kids = 4" "set (map v_addr kids) \<subseteq> {n..<n + 4}"
proof -
  have "v_wf_kids r d (map (\<lambda>i. VNode (n + i) (quadrant r i) (d + 1) [] []) is)" for "is"
    using quadrant_proper [OF assms(1)] assms(2) by (induction "is") auto
  then show "v_wf_kids r d kids" by (simp add: kids_def)
qed (auto simp: kids_def)

text \<open>All addresses of the new tree are shared with the old one or freshly allocated.\<close>

definition copied :: "vnode \<Rightarrow> nat \<Rightarrow> vnode \<Rightarrow> nat \<Rightarrow> bool" where
  "copied n m n' m' \<longleftrightarrow> m \<le> m' \<and> set (collect_addrs n') \<subseteq> set (collect_addrs n) \<union> {m..<m'}"

lemma insert_copy_correct:
  shows "v_wf n \<Longrightarrow> bb_proper (snd x) \<Longrightarrow> at_root \<or> fully_contains (v_region n) (snd x) \<Longrightarrow>
    insert_copy n x m at_root = (n', m') \<Longrightarrow>
    v_wf n' \<and> v_depth n' = v_depth n \<and> fully_contains (v_region n') (v_region n) \<and>
    (\<not> at_root \<longrightarrow> v_region n' = v_region n) \<and>
    mset (v_gather n') = add_mset x (mset (v_gather n)) \<and> copied n m n' m' \<and> m' \<le> m + (kMaxNodeDepth + 4 - v_depth n)"
    and "v_wf_kids r d ks \<Longrightarrow> bb_proper (snd x) \<Longrightarrow> (case insert_first ks x m of
      None \<Rightarrow> \<forall>k \<in> set ks. \<not> fully_contains (v_region k) (snd x)
    | Some (ks', m') \<Rightarrow> v_wf_kids r d ks' \<and> length ks' = length ks \<and> map v_region ks' = map v_region ks \<and>
        mset (concat (map v_gather ks')) = add_mset x (mset (concat (map v_gather ks))) \<and>
        m \<le> m' \<and> set (concat (map collect_addrs ks')) \<subseteq> set (concat (map collect_addrs ks)) \<union> {m..<m'} \<and>
        m' \<le> m + (kMaxNodeDepth + 4 - (d + 1)) \<and> d < kMaxNodeDepth)"
proof (induction n x m at_root and ks x m arbitrary: n' m' and r d rule: insert_copy_insert_first.induct)
  case (1 a r d its ks x m at_root)
  define r' where "r' = (if at_root \<and> \<not> fully_contains r (snd x) then bb_expand r (snd x) else r)"
  have w: "bb_proper r" "d \<le> kMaxNodeDepth" "ks = [] \<or> length ks = 4" "v_wf_kids r d ks"
    "\<forall>y \<in> set its. fully_contains r (snd y) \<and> (\<forall>k \<in> set ks. \<not> fully_contains (v_region k) (snd y))"
    using "1.prems"(1) by simp_all
  have r': "fully_contains r' r" "fully_contains r' (snd x)" "bb_proper r'" "\<not> at_root \<longrightarrow> r' = r"
    using "1.prems"(2,3) w(1) bb_expand_covers [of r "snd x"]
    by (auto simp: r'_def) (cases r; cases "snd x"; auto simp: bb_proper_def)
  have its: "\<forall>y \<in> set its. fully_contains r' (snd y)" using w(5) r'(1) by (auto intro: fully_contains_trans)
  have kids: "v_wf_kids r' d ks" by (rule v_wf_kids_mono [OF w(4) r'(1)])
  show ?case
  proof (cases "ks = []")
    case False
    then have l: "length ks = 4" using w(3) by simp
    show ?thesis
    proof (cases "insert_first ks x (m + 1)")
      case None
      have no: "\<forall>k \<in> set ks. \<not> fully_contains (v_region k) (snd x)"
        using "1.IH" [OF refl refl refl False kids "1.prems"(2)] None by simp
      have e: "n' = VNode m r' d (its @ [x]) ks" "m' = m + 1"
        using "1.prems"(4) False None by (auto simp: r'_def Let_def)
      show ?thesis using w r' its kids no l by (auto simp: e copied_def kMaxNodeDepth_def)
    next
      case (Some p)
      obtain ks' m1 where p: "p = (ks', m1)" by fastforce
      have f: "v_wf_kids r' d ks' \<and> length ks' = length ks \<and> map v_region ks' = map v_region ks \<and>
        mset (concat (map v_gather ks')) = add_mset x (mset (concat (map v_gather ks))) \<and>
        m + 1 \<le> m1 \<and> set (concat (map collect_addrs ks')) \<subseteq> set (concat (map collect_addrs ks)) \<union> {m + 1..<m1} \<and>
        m1 \<le> m + 1 + (kMaxNodeDepth + 4 - (d + 1)) \<and> d < kMaxNodeDepth"
        using "1.IH" [OF refl refl refl False kids "1.prems"(2)] unfolding Some p option.case prod.case .
      have e: "n' = VNode m r' d its ks'" "m' = m1"
        using "1.prems"(4) False Some p by (simp_all add: r'_def [symmetric] Let_def)
      have "v_region ` set ks' = v_region ` set ks" using f by (metis list.set_map)
      then have "(\<forall>k \<in> set ks'. \<not> fully_contains (v_region k) b) \<longleftrightarrow> (\<forall>k \<in> set ks. \<not> fully_contains (v_region k) b)" for b
        by (metis (no_types, lifting) imageE imageI)
      then have "v_wf n'" using w(2,5) r'(3) its f l by (simp add: e)
      moreover have "copied (VNode a r d its ks) m n' m'" using f by (fastforce simp: e copied_def)
      moreover have "m1 \<le> m + (kMaxNodeDepth + 4 - d)" using f by linarith
      ultimately show ?thesis using r' f by (simp add: e)
    qed
  next
    case True
    show ?thesis
    proof (cases "length (its @ [x]) > kCap \<and> d < kMaxNodeDepth")
      case split: True
      define kids where "kids = map (\<lambda>i. VNode (m + 1 + i) (quadrant r' i) (d + 1) [] []) [0..<4]"
      note fr = fresh_kids [OF r'(3), of d "m + 1", folded kids_def]
      obtain stay ks' where sk: "deal_items kids (its @ [x]) = (stay, ks')" by fastforce
      have g: "dealing r' d (map v_addr kids) (stay, ks') (its @ [x])"
        using deal_items_correct [OF fr(1-3), of "its @ [x]"] split sk by simp
      have e: "n' = VNode m r' d stay ks'" "m' = m + 1 + 4"
        using "1.prems"(4) True split sk by (simp_all add: r'_def [symmetric] kids_def Let_def del: upt_Suc)
      have leaf: "\<forall>k \<in> set ks'. v_kids k = []" using g by (simp add: dealing_def)
      then have "concat (map collect_addrs ks') = map v_addr ks'"
        by (induction ks') (auto, metis collect_addrs.simps concat.simps(1) list.simps(8) vnode.collapse)
      then have "set (concat (map collect_addrs ks')) \<subseteq> {m + 1..<m + 1 + 4}"
        using g fr(4) split by (simp add: dealing_def)
      then have "copied (VNode a r d its ks) m n' m'" by (fastforce simp: e copied_def)
      moreover have "m' \<le> m + (kMaxNodeDepth + 4 - d)" using split e(2) unfolding kMaxNodeDepth_def by linarith
      moreover have "v_wf n'" using g its r' w(2) by (fastforce simp: e dealing_def)
      moreover have "mset (v_gather n') = add_mset x (mset its)" using g by (simp add: e dealing_def)
      ultimately show ?thesis using r' True by (simp add: e)
    next
      case False
      have e: "n' = VNode m r' d (its @ [x]) []" "m' = m + 1"
        using "1.prems"(4) True False by (auto simp: r'_def Let_def)
      show ?thesis using w(2) r' its True by (auto simp: e copied_def)
    qed
  qed
next
  case (2 x m)
  then show ?case by simp
next
  case (3 k ks x m)
  have k: "v_wf k" "fully_contains r (v_region k)" "v_depth k = d + 1" "v_wf_kids r d ks"
    "\<forall>y \<in> set (concat (map v_gather ks)). \<not> fully_contains (v_region k) (snd y)" using "3.prems"(1) by simp_all
  have dk: "v_depth k \<le> kMaxNodeDepth" using k(1) by (cases k) simp
  show ?case
  proof (cases "fully_contains (v_region k) (snd x)")
    case True
    obtain k' m' where km: "insert_copy k x m False = (k', m')" by fastforce
    note ic = "3.IH"(1) [OF True k(1) "3.prems"(2) _ km]
    show ?thesis using ic True k dk km by (auto simp: copied_def)
  next
    case False
    show ?thesis
    proof (cases "insert_first ks x m")
      case None
      then show ?thesis using "3.IH"(2) [OF False k(4) "3.prems"(2)] False by simp
    next
      case (Some p)
      obtain ks' m1 where p: "p = (ks', m1)" by fastforce
      have f: "v_wf_kids r d ks' \<and> length ks' = length ks \<and> map v_region ks' = map v_region ks \<and>
        mset (concat (map v_gather ks')) = add_mset x (mset (concat (map v_gather ks))) \<and>
        m \<le> m1 \<and> set (concat (map collect_addrs ks')) \<subseteq> set (concat (map collect_addrs ks)) \<union> {m..<m1} \<and>
        m1 \<le> m + (kMaxNodeDepth + 4 - (d + 1)) \<and> d < kMaxNodeDepth"
        using "3.IH"(2) [OF False k(4) "3.prems"(2)] unfolding Some p option.case prod.case .
      have "set (concat (map v_gather ks')) = insert x (set (concat (map v_gather ks)))"
        using f by (intro mset_add_set) blast
      then show ?thesis using f False k Some p by auto
    qed
  qed
qed

section \<open>Removal\<close>

lemma remove_copy_correct:
  shows "v_wf n \<Longrightarrow> distinct (map fst (v_gather n)) \<Longrightarrow> (i, box) \<in> set (v_gather n) \<Longrightarrow>
    \<exists>n' m'. remove_copy n i box m = Some (n', m') \<and> v_wf n' \<and> v_depth n' = v_depth n \<and> v_region n' = v_region n \<and>
      mset (v_gather n) = add_mset (i, box) (mset (v_gather n')) \<and> copied n m n' m' \<and> m' \<le> m + (kMaxNodeDepth + 1 - v_depth n)"
    and "v_wf_kids r d ks \<Longrightarrow> distinct (map fst (concat (map v_gather ks))) \<Longrightarrow> (i, box) \<in> set (concat (map v_gather ks)) \<Longrightarrow>
    \<exists>ks' m'. remove_first ks i box m = Some (ks', m') \<and> v_wf_kids r d ks' \<and> length ks' = length ks \<and> map v_region ks' = map v_region ks \<and>
      mset (concat (map v_gather ks)) = add_mset (i, box) (mset (concat (map v_gather ks'))) \<and>
      m \<le> m' \<and> set (concat (map collect_addrs ks')) \<subseteq> set (concat (map collect_addrs ks)) \<union> {m..<m'} \<and>
      m' \<le> m + (kMaxNodeDepth + 1 - (d + 1)) \<and> d < kMaxNodeDepth"
proof (induction n i box m and ks i box m arbitrary: and r d rule: remove_copy_remove_first.induct)
  case (1 a r d its ks i box m)
  have w: "bb_proper r" "d \<le> kMaxNodeDepth" "ks = [] \<or> length ks = 4" "v_wf_kids r d ks"
    "\<forall>y \<in> set its. fully_contains r (snd y) \<and> (\<forall>k \<in> set ks. \<not> fully_contains (v_region k) (snd y))"
    using "1.prems"(1) by simp_all
  show ?case
  proof (cases "erase_id i its")
    case (Some its')
    obtain b where b: "(i, b) \<in> set its" "mset its = add_mset (i, b) (mset its')" using erase_id_Some_mset [OF Some] by blast
    have "b = box" using b(1) "1.prems"(2,3) by (metis UnCI eq_key_imp_eq_value set_append v_gather.simps)
    then show ?thesis using Some w b erase_id_subset [OF Some] by (auto simp: copied_def)
  next
    case None
    then have "(i, box) \<notin> set its" using erase_id_None [of i its] by (simp add: map_of_eq_None_iff) force
    then have m: "(i, box) \<in> set (concat (map v_gather ks))" using "1.prems"(3) by simp
    have "distinct (map fst (concat (map v_gather ks)))" using "1.prems"(2) by simp
    from "1.IH" [OF None w(4) this m] obtain ks' m' where f: "remove_first ks i box m = Some (ks', m')" "v_wf_kids r d ks'"
      "length ks' = length ks" "map v_region ks' = map v_region ks"
      "mset (concat (map v_gather ks)) = add_mset (i, box) (mset (concat (map v_gather ks')))"
      "m \<le> m'" "set (concat (map collect_addrs ks')) \<subseteq> set (concat (map collect_addrs ks)) \<union> {m..<m'}"
      "m' \<le> m + (kMaxNodeDepth + 1 - (d + 1))" "d < kMaxNodeDepth" by blast
    have "v_region ` set ks' = v_region ` set ks" using f(4) by (metis list.set_map)
    then have "(\<forall>k \<in> set ks'. \<not> fully_contains (v_region k) b) \<longleftrightarrow> (\<forall>k \<in> set ks. \<not> fully_contains (v_region k) b)" for b
      by (metis (no_types, lifting) imageE imageI)
    then have "v_wf (VNode m' r d its ks')" using w f(2,3) by auto
    moreover have "copied (VNode a r d its ks) m (VNode m' r d its ks') (m' + 1)" using f(6,7) by (fastforce simp: copied_def)
    moreover have "m' + 1 \<le> m + (kMaxNodeDepth + 1 - d)" using f(8,9) by linarith
    ultimately show ?thesis using None f by simp
  qed
next
  case (2 i box m)
  then show ?case by simp
next
  case (3 k ks i box m)
  have k: "v_wf k" "fully_contains r (v_region k)" "v_depth k = d + 1" "v_wf_kids r d ks"
    "\<forall>y \<in> set (concat (map v_gather ks)). \<not> fully_contains (v_region k) (snd y)" using "3.prems"(1) by simp_all
  have dk: "v_depth k \<le> kMaxNodeDepth" using k(1) by (cases k) simp
  show ?case
  proof (cases "fully_contains (v_region k) box")
    case True
    then have "(i, box) \<in> set (v_gather k)" using k(5) "3.prems"(3) by fastforce
    from "3.IH"(1) [OF True k(1) _ this] "3.prems"(2) obtain k' m' where km: "remove_copy k i box m = Some (k', m')" "v_wf k'"
      "v_depth k' = v_depth k" "v_region k' = v_region k" "mset (v_gather k) = add_mset (i, box) (mset (v_gather k'))"
      "copied k m k' m'" "m' \<le> m + (kMaxNodeDepth + 1 - v_depth k)" by auto
    then show ?thesis using True k dk by (auto simp: copied_def)
  next
    case False
    then have "(i, box) \<notin> set (v_gather k)" using v_gather_region [OF k(1)] by fastforce
    then have "(i, box) \<in> set (concat (map v_gather ks))" using "3.prems"(3) by simp
    from "3.IH"(2) [OF False k(4) _ this] "3.prems"(2) obtain ks' m' where f: "remove_first ks i box m = Some (ks', m')" "v_wf_kids r d ks'"
      "length ks' = length ks" "map v_region ks' = map v_region ks"
      "mset (concat (map v_gather ks)) = add_mset (i, box) (mset (concat (map v_gather ks')))"
      "m \<le> m'" "set (concat (map collect_addrs ks')) \<subseteq> set (concat (map collect_addrs ks)) \<union> {m..<m'}"
      "m' \<le> m + (kMaxNodeDepth + 1 - (d + 1))" "d < kMaxNodeDepth" by auto
    have "set (concat (map v_gather ks')) \<subseteq> set (concat (map v_gather ks))" using mset_add_set [OF f(5)] by blast
    then show ?thesis using False k f by auto
  qed
qed

end
