(* ===== verification/Versioned_Index.thy ===== *)
theory Versioned_Index
  imports Versioned_Tree Interval_Tree
begin

text \<open>
  The persistent index, \<^verbatim>\<open>src/index/versioned_index.cpp\<close>: a path-copied tree per version, an
  append-only validity history per zone and an interval tree over every historical validity. The
  specification is a list of snapshots, one per change, each a map from zones to boxes and validities.
\<close>

record time_validity =
  v_from :: timestamp
  v_to :: timestamp

definition always :: time_validity where
  "always = \<lparr>v_from = 0, v_to = kForever\<rparr>"

definition in_force :: "time_validity \<Rightarrow> timestamp \<Rightarrow> bool" where
  "in_force v t \<longleftrightarrow> t \<ge> v_from v \<and> t < v_to v"

section \<open>The index\<close>

datatype change_kind = ChAdded | ChRemoved | ChValidityChanged | ChReplaced

record change =
  ch_version :: nat
  ch_at :: timestamp
  ch_zone :: zone_id
  ch_kind :: change_kind

record validity_record =
  rc_version :: nat
  rc_validity :: time_validity
  rc_present :: bool

record versioned_index =
  vi_roots :: "vnode list"
  vi_times :: "timestamp list"
  vi_history :: "validity_record list list"
  vi_tree :: "nat interval_tree"
  vi_changelog :: "change list"
  vi_allocated :: nat
  vi_live_box :: "bbox list"

definition vi_new :: versioned_index where
  "vi_new = \<lparr>vi_roots = [VNode 0 world 0 [] []], vi_times = [0], vi_history = [], vi_tree = it_empty,
     vi_changelog = [], vi_allocated = 1, vi_live_box = []\<rparr>"

definition latest_version :: "versioned_index \<Rightarrow> nat" where
  "latest_version s = length (vi_roots s) - 1"

definition version_count :: "versioned_index \<Rightarrow> nat" where
  "version_count s = length (vi_roots s)"

definition vi_commit :: "vnode \<Rightarrow> timestamp \<Rightarrow> versioned_index \<Rightarrow> nat \<times> versioned_index" where
  "vi_commit nd t s = (length (vi_roots s), s\<lparr>vi_roots := vi_roots s @ [nd], vi_times := vi_times s @ [t]\<rparr>)"

definition pack :: "zone_id \<Rightarrow> nat \<Rightarrow> nat" where
  "pack zone slot = zone * 2 ^ 32 + uint32_of slot"

definition unpack_zone :: "nat \<Rightarrow> zone_id" where
  "unpack_zone v = v div 2 ^ 32"

definition unpack_slot :: "nat \<Rightarrow> nat" where
  "unpack_slot v = uint32_of v"

definition resize_for :: "nat \<Rightarrow> 'a \<Rightarrow> 'a list \<Rightarrow> 'a list" where
  "resize_for i d xs = (if length xs \<le> i then xs @ replicate (i + 1 - length xs) d else xs)"

definition push_record :: "zone_id \<Rightarrow> time_validity \<Rightarrow> bool \<Rightarrow> nat \<Rightarrow> versioned_index \<Rightarrow> versioned_index" where
  "push_record i v present version s =
     (let hs = resize_for i [] (vi_history s);
          h = hs ! i @ [\<lparr>rc_version = version, rc_validity = v, rc_present = present\<rparr>];
          s = s\<lparr>vi_history := hs[i := h]\<rparr>
      in if present then s\<lparr>vi_tree := it_insert (vi_tree s) (v_from v) (v_to v) (pack i (length h - 1))\<rparr> else s)"

text \<open>The binary search for the last record not after a version.\<close>

function bisect :: "validity_record list \<Rightarrow> nat \<Rightarrow> nat \<Rightarrow> nat \<Rightarrow> nat" where
  "bisect h v lo hi =
     (if lo + 1 < hi then
        (let mid = lo + (hi - lo) div 2
         in if rc_version (h ! mid) \<le> v then bisect h v mid hi else bisect h v lo mid)
      else lo)"
  by pat_completeness auto
termination by (relation "measure (\<lambda>(h, v, lo, hi). hi - lo)") auto

definition record_as_of :: "zone_id \<Rightarrow> nat \<Rightarrow> versioned_index \<Rightarrow> nat option" where
  "record_as_of i v s =
     (if i \<ge> length (vi_history s) then None
      else let h = vi_history s ! i
           in if h = [] \<or> rc_version (hd h) > v then None else Some (bisect h v 0 (length h)))"

definition record_at :: "zone_id \<Rightarrow> nat \<Rightarrow> versioned_index \<Rightarrow> validity_record" where
  "record_at i slot s = vi_history s ! i ! slot"

definition validity_records :: "versioned_index \<Rightarrow> nat" where
  "validity_records s = foldl (\<lambda>n h. n + length h) 0 (vi_history s)"

text \<open>\<open>std::upper_bound\<close> on the sorted commit times.\<close>

definition version_at :: "timestamp \<Rightarrow> versioned_index \<Rightarrow> nat" where
  "version_at t s = (let n = length (takeWhile (\<lambda>x. \<not> t < x) (vi_times s)) in if n = 0 then 0 else n - 1)"

definition validity_at :: "zone_id \<Rightarrow> timestamp \<Rightarrow> versioned_index \<Rightarrow> time_validity option" where
  "validity_at i t s =
     (case record_as_of i (version_at t s) s of
        None \<Rightarrow> None
      | Some slot \<Rightarrow> if rc_present (record_at i slot s) then Some (rc_validity (record_at i slot s)) else None)"

definition contains_zone :: "zone_id \<Rightarrow> versioned_index \<Rightarrow> bool" where
  "contains_zone i s \<longleftrightarrow> i < length (vi_history s) \<and> vi_history s ! i \<noteq> [] \<and> rc_present (last (vi_history s ! i))"

definition monotone :: "timestamp \<Rightarrow> versioned_index \<Rightarrow> timestamp" where
  "monotone t s = (if t < last (vi_times s) then last (vi_times s) else t)"

definition log_change :: "nat \<Rightarrow> timestamp \<Rightarrow> zone_id \<Rightarrow> change_kind \<Rightarrow> versioned_index \<Rightarrow> versioned_index" where
  "log_change ver t i k s =
     s\<lparr>vi_changelog := vi_changelog s @ [\<lparr>ch_version = ver, ch_at = t, ch_zone = i, ch_kind = k\<rparr>]\<rparr>"

definition add_zone :: "zone_id \<Rightarrow> bbox \<Rightarrow> time_validity \<Rightarrow> timestamp \<Rightarrow> versioned_index \<Rightarrow> nat \<times> versioned_index" where
  "add_zone i box v t s =
     (let t = monotone t s;
          replacing = contains_zone i s;
          (base, allocated) =
            (if replacing then
               (case remove_copy (last (vi_roots s)) i (vi_live_box s ! i) (vi_allocated s) of
                  Some (n, allocated) \<Rightarrow> (n, allocated) | None \<Rightarrow> (last (vi_roots s), vi_allocated s))
             else (last (vi_roots s), vi_allocated s));
          (nd, allocated) = insert_copy base (i, box) allocated True;
          (ver, s) = vi_commit nd t (s\<lparr>vi_allocated := allocated\<rparr>);
          s = s\<lparr>vi_live_box := (resize_for i NoBox (vi_live_box s))[i := box]\<rparr>;
          s = push_record i v True ver s
      in (ver, log_change ver t i (if replacing then ChReplaced else ChAdded) s))"

definition remove_zone :: "zone_id \<Rightarrow> timestamp \<Rightarrow> versioned_index \<Rightarrow> nat \<times> versioned_index" where
  "remove_zone i t s =
     (if \<not> contains_zone i s then (latest_version s, s)
      else
        (let t = monotone t s;
             (nd, allocated) =
               (case remove_copy (last (vi_roots s)) i (vi_live_box s ! i) (vi_allocated s) of
                  Some (n, allocated) \<Rightarrow> (n, allocated) | None \<Rightarrow> (last (vi_roots s), vi_allocated s));
             (ver, s) = vi_commit nd t (s\<lparr>vi_allocated := allocated\<rparr>);
             s = push_record i always False ver s
         in (ver, log_change ver t i ChRemoved s)))"

definition update_validity :: "zone_id \<Rightarrow> time_validity \<Rightarrow> timestamp \<Rightarrow> versioned_index \<Rightarrow> nat \<times> versioned_index" where
  "update_validity i v t s =
     (if \<not> contains_zone i s then (latest_version s, s)
      else
        (let t = monotone t s;
             (ver, s) = vi_commit (last (vi_roots s)) t s;
             s = push_record i v True ver s
         in (ver, log_change ver t i ChValidityChanged s)))"

definition query_at :: "timestamp \<Rightarrow> bbox \<Rightarrow> zone_id list \<Rightarrow> versioned_index \<Rightarrow> zone_id list" where
  "query_at t box out s =
     (let v = version_at t s
      in out @ filter (\<lambda>i. case record_as_of i v s of
            None \<Rightarrow> False
          | Some slot \<Rightarrow> rc_present (record_at i slot s) \<and> in_force (rc_validity (record_at i slot s)) t)
          (v_query_node box (vi_roots s ! v)))"

definition query_now :: "bbox \<Rightarrow> zone_id list \<Rightarrow> versioned_index \<Rightarrow> zone_id list" where
  "query_now box out s = out @ v_query_node box (last (vi_roots s))"

definition active_at :: "timestamp \<Rightarrow> zone_id list \<Rightarrow> versioned_index \<Rightarrow> zone_id list" where
  "active_at t out s =
     (let v = version_at t s
      in out @ map unpack_zone (filter (\<lambda>hit. case record_as_of (unpack_zone hit) v s of
            None \<Rightarrow> False
          | Some slot \<Rightarrow> rc_present (record_at (unpack_zone hit) slot s) \<and> unpack_slot hit = slot)
          (it_stabbing (vi_tree s) t)))"

definition history_for :: "zone_id \<Rightarrow> versioned_index \<Rightarrow> change list" where
  "history_for i s = filter (\<lambda>c. ch_zone c = i) (vi_changelog s)"

definition changes_between :: "timestamp \<Rightarrow> timestamp \<Rightarrow> versioned_index \<Rightarrow> change list" where
  "changes_between f t s = filter (\<lambda>c. ch_at c \<ge> f \<and> ch_at c < t) (vi_changelog s)"

definition zone_count_at :: "timestamp \<Rightarrow> versioned_index \<Rightarrow> nat" where
  "zone_count_at t s = fst (count_node (vi_roots s ! version_at t s) (0, 0))"

record share_stats =
  total_nodes_allocated :: nat
  nodes_if_full_copies :: nat

definition share_stats_of :: "versioned_index \<Rightarrow> share_stats" where
  "share_stats_of s =
     \<lparr>total_nodes_allocated = vi_allocated s,
      nodes_if_full_copies = foldl (\<lambda>n r. n + snd (count_node r (0, 0))) 0 (vi_roots s)\<rparr>"

text \<open>The audit of every retained version.\<close>

fun v_audit :: "vnode \<Rightarrow> zone_id list option" and v_audit_kids :: "bbox \<Rightarrow> nat \<Rightarrow> vnode list \<Rightarrow> zone_id list option" where
  "v_audit (VNode a r d its ks) =
     (if \<not> list_all (\<lambda>x. fully_contains r (snd x)) its then None
      else if ks = [] then Some (map fst its)
      else if length ks \<noteq> 4 then None
      else map_option ((@) (map fst its)) (v_audit_kids r d ks))"
| "v_audit_kids r d [] = Some []"
| "v_audit_kids r d (k # ks) =
     (if v_depth k \<noteq> d + 1 \<or> \<not> fully_contains r (v_region k) then None
      else case v_audit k of None \<Rightarrow> None | Some ids \<Rightarrow> map_option ((@) ids) (v_audit_kids r d ks))"

definition present_at :: "zone_id \<Rightarrow> nat \<Rightarrow> versioned_index \<Rightarrow> bool" where
  "present_at i v s \<longleftrightarrow> (case record_as_of i v s of None \<Rightarrow> False | Some slot \<Rightarrow> rc_present (record_at i slot s))"

definition version_sound :: "versioned_index \<Rightarrow> nat \<Rightarrow> bool" where
  "version_sound s v =
     (case v_audit (vi_roots s ! v) of None \<Rightarrow> False
      | Some ids \<Rightarrow> distinct ids \<and>
          (let present = filter (\<lambda>i. present_at i v s) [0..<length (vi_history s)]
           in list_all (\<lambda>i. i \<in> set ids) present \<and> length present = length ids))"

definition vi_check_invariants :: "versioned_index \<Rightarrow> bool" where
  "vi_check_invariants s \<longleftrightarrow>
     length (vi_roots s) = length (vi_times s) \<and> sorted (vi_times s) \<and>
     list_all (version_sound s) [0..<length (vi_roots s)]"

section \<open>The sharing view\<close>

record viz_node =
  vz_region :: bbox
  vz_depth :: nat
  vz_leaf :: bool
  vz_shared :: bool
  vz_items :: nat
  vz_kids :: "int list"

record viz_version =
  vz_version :: nat
  vz_at :: timestamp
  vz_nodes :: "viz_node list"
  vz_new :: nat
  vz_shared_count :: nat

definition blank_viz :: viz_node where
  "blank_viz = \<lparr>vz_region = Box 0 0 0 0, vz_depth = 0, vz_leaf = True, vz_shared = False, vz_items = 0, vz_kids = [-1, -1, -1, -1]\<rparr>"

text \<open>The slot of a node is taken before its children are flattened and filled in afterwards.\<close>

fun flatten_viz :: "nat list \<Rightarrow> vnode \<Rightarrow> viz_version \<Rightarrow> int \<times> viz_version" where
  "flatten_viz prev (VNode a r d its ks) vv =
     (let idx = length (vz_nodes vv);
          vv = vv\<lparr>vz_nodes := vz_nodes vv @ [blank_viz]\<rparr>;
          (kids, vv) = foldl (\<lambda>p k. let f = flatten_viz prev k (snd p) in (fst p @ [fst f], snd f)) ([], vv) ks;
          shared = List.member prev a;
          node = \<lparr>vz_region = r, vz_depth = d, vz_leaf = (ks = []), vz_shared = shared, vz_items = length its,
                  vz_kids = (if ks = [] then [-1, -1, -1, -1] else kids)\<rparr>;
          vv = vv\<lparr>vz_nodes := (vz_nodes vv)[idx := node]\<rparr>
      in (int idx, if shared then vv\<lparr>vz_shared_count := vz_shared_count vv + 1\<rparr> else vv\<lparr>vz_new := vz_new vv + 1\<rparr>))"

definition viz_versions :: "nat \<Rightarrow> versioned_index \<Rightarrow> viz_version list" where
  "viz_versions max_versions s =
     (let vc = length (vi_roots s) in
      if vc = 0 \<or> max_versions = 0 then []
      else
        (let cnt = min max_versions vc; start = (if vc > cnt then (vc - cnt) div 2 else 0)
         in map (\<lambda>k. let v = start + k; prev = (if k > 0 then collect_addrs (vi_roots s ! (v - 1)) else [])
              in snd (flatten_viz prev (vi_roots s ! v)
                   \<lparr>vz_version = v, vz_at = vi_times s ! v, vz_nodes = [], vz_new = 0, vz_shared_count = 0\<rparr>)) [0..<cnt]))"

section \<open>The specification\<close>

datatype vi_op = VAdd zone_id bbox time_validity timestamp | VRemove zone_id timestamp | VUpdate zone_id time_validity timestamp

fun vi_step :: "vi_op \<Rightarrow> versioned_index \<Rightarrow> versioned_index" where
  "vi_step (VAdd i b v t) s = snd (add_zone i b v t s)"
| "vi_step (VRemove i t) s = snd (remove_zone i t s)"
| "vi_step (VUpdate i v t) s = snd (update_validity i v t s)"

definition vi_run :: "vi_op list \<Rightarrow> versioned_index" where
  "vi_run ops = foldl (\<lambda>s p. vi_step p s) vi_new ops"

type_synonym zone_map = "zone_id \<rightharpoonup> bbox \<times> time_validity"

text \<open>A change appends a snapshot stamped no earlier than the one before it; a change to an absent zone is none.\<close>

definition stamp :: "timestamp \<Rightarrow> (timestamp \<times> zone_map) list \<Rightarrow> timestamp" where
  "stamp t ss = max t (fst (last ss))"

fun snap_step :: "vi_op \<Rightarrow> (timestamp \<times> zone_map) list \<Rightarrow> (timestamp \<times> zone_map) list" where
  "snap_step (VAdd i b v t) ss = ss @ [(stamp t ss, (snd (last ss))(i \<mapsto> (b, v)))]"
| "snap_step (VRemove i t) ss =
     (if snd (last ss) i = None then ss else ss @ [(stamp t ss, (snd (last ss))(i := None))])"
| "snap_step (VUpdate i v t) ss =
     (case snd (last ss) i of None \<Rightarrow> ss | Some (b, _) \<Rightarrow> ss @ [(stamp t ss, (snd (last ss))(i \<mapsto> (b, v)))])"

definition snap_run :: "vi_op list \<Rightarrow> (timestamp \<times> zone_map) list" where
  "snap_run ops = foldl (\<lambda>ss p. snap_step p ss) [(0, Map.empty)] ops"

definition snap_at :: "timestamp \<Rightarrow> (timestamp \<times> zone_map) list \<Rightarrow> zone_map" where
  "snap_at t ss = (case takeWhile (\<lambda>p. fst p \<le> t) ss of [] \<Rightarrow> snd (hd ss) | ps \<Rightarrow> snd (last ps))"

text \<open>Boxes are proper and \<open>to\<close> is an \<open>int64_t\<close>.\<close>

fun vi_op_ok :: "vi_op \<Rightarrow> bool" where
  "vi_op_ok (VAdd i b v t) \<longleftrightarrow> bb_proper b \<and> v_to v \<le> int64_max"
| "vi_op_ok (VRemove i t) = True"
| "vi_op_ok (VUpdate i v t) \<longleftrightarrow> v_to v \<le> int64_max"

fun vi_stamp :: "vi_op \<Rightarrow> timestamp" where
  "vi_stamp (VAdd i b v t) = t" | "vi_stamp (VRemove i t) = t" | "vi_stamp (VUpdate i v t) = t"

section \<open>The validity history\<close>

definition hist :: "versioned_index \<Rightarrow> zone_id \<Rightarrow> validity_record list" where
  "hist s i = (if i < length (vi_history s) then vi_history s ! i else [])"

definition current :: "validity_record list \<Rightarrow> nat \<Rightarrow> nat \<Rightarrow> bool" where
  "current h v k \<longleftrightarrow> k < length h \<and> rc_version (h ! k) \<le> v \<and> (\<forall>j. k < j \<and> j < length h \<longrightarrow> v < rc_version (h ! j))"

lemma current_unique: "current h v k \<Longrightarrow> current h v k' \<Longrightarrow> k = k'"
  by (metis current_def leD linorder_neqE_nat)

lemma current_append: "current (h @ [r]) v k \<longleftrightarrow> (if rc_version r \<le> v then k = length h else current h v k)"
proof (cases "rc_version r \<le> v")
  case True
  then show ?thesis by (force simp: current_def nth_append less_Suc_eq)
next
  case False
  then show ?thesis by (auto simp: current_def nth_append less_Suc_eq)
qed

declare bisect.simps [simp del]

lemma bisect_current:
  "sorted_wrt (<) (map rc_version h) \<Longrightarrow> lo < hi \<Longrightarrow> hi \<le> length h \<Longrightarrow> rc_version (h ! lo) \<le> v \<Longrightarrow> (\<forall>j. hi \<le> j \<and> j < length h \<longrightarrow> v < rc_version (h ! j)) \<Longrightarrow>
    current h v (bisect h v lo hi)"
proof (induction h v lo hi rule: bisect.induct)
  case (1 h v lo hi)
  define mid where "mid = lo + (hi - lo) div 2"
  show ?case
  proof (cases "lo + 1 < hi")
    case True
    then have m: "lo < mid" "mid < hi" by (auto simp: mid_def)
    show ?thesis
    proof (cases "rc_version (h ! mid) \<le> v")
      case le: True
      then show ?thesis
        using "1.IH"(1) [OF True mid_def] m True "1.prems" by (subst bisect.simps) (simp add: Let_def flip: mid_def)
    next
      case False
      have "v < rc_version (h ! j)" if "mid \<le> j" "j < length h" for j
      proof (cases "j = mid")
        case False
        then have "rc_version (h ! mid) < rc_version (h ! j)"
          using "1.prems"(1) that by (simp add: sorted_wrt_iff_nth_less)
        then show ?thesis using \<open>\<not> rc_version (h ! mid) \<le> v\<close> by simp
      qed (use \<open>\<not> rc_version (h ! mid) \<le> v\<close> in simp)
      then show ?thesis
        using "1.IH"(2) [OF True mid_def] m True "1.prems" False by (subst bisect.simps) (simp add: Let_def flip: mid_def)
    qed
  next
    case False
    then have "hi = lo + 1" using "1.prems"(2) by simp
    then show ?thesis using "1.prems" by (subst bisect.simps) (auto simp: current_def)
  qed
qed

lemma record_as_of_current:
  assumes "sorted_wrt (<) (map rc_version (hist s i))"
  shows "record_as_of i v s = Some k \<longleftrightarrow> current (hist s i) v k"
proof (cases "hist s i = [] \<or> rc_version (hd (hist s i)) > v")
  case True
  have "record_as_of i v s = None" using True by (auto simp: record_as_of_def hist_def Let_def split: if_splits)
  moreover have "\<not> current (hist s i) v k"
  proof
    assume c: "current (hist s i) v k"
    then have ne: "hist s i \<noteq> []" by (auto simp: current_def)
    then have "rc_version (hist s i ! 0) > v" using True by (simp add: hd_conv_nth)
    moreover have "rc_version (hist s i ! 0) \<le> rc_version (hist s i ! k)"
      using assms c by (cases k) (auto simp: sorted_wrt_iff_nth_less current_def less_imp_le)
    ultimately show False using c by (simp add: current_def)
  qed
  ultimately show ?thesis by simp
next
  case False
  then have r: "record_as_of i v s = Some (bisect (hist s i) v 0 (length (hist s i)))"
    by (auto simp: record_as_of_def hist_def Let_def split: if_splits)
  have "current (hist s i) v (bisect (hist s i) v 0 (length (hist s i)))"
    using False by (intro bisect_current [OF assms]) (auto simp: hd_conv_nth)
  then show ?thesis using r current_unique by auto
qed

definition recorded :: "zone_id \<Rightarrow> nat \<Rightarrow> versioned_index \<Rightarrow> time_validity option" where
  "recorded i v s = (case record_as_of i v s of None \<Rightarrow> None
     | Some k \<Rightarrow> if rc_present (record_at i k s) then Some (rc_validity (record_at i k s)) else None)"

lemma recorded_cong: "vi_history s' = vi_history s \<Longrightarrow> recorded i v s' = recorded i v s"
proof -
  assume h: "vi_history s' = vi_history s"
  then have "record_at i k s' = record_at i k s" "record_as_of i v s' = record_as_of i v s" for k
    by (simp_all add: record_at_def record_as_of_def)
  then show ?thesis by (simp add: recorded_def split: option.split)
qed

lemma recorded_current: "sorted_wrt (<) (map rc_version (hist s i)) \<Longrightarrow> current (hist s i) v k \<Longrightarrow>
    recorded i v s = (if rc_present (hist s i ! k) then Some (rc_validity (hist s i ! k)) else None)"
  using record_as_of_current [of s i v k] by (auto simp: recorded_def record_at_def hist_def current_def split: if_splits)

lemma recorded_none: "sorted_wrt (<) (map rc_version (hist s i)) \<Longrightarrow> (\<And>k. \<not> current (hist s i) v k) \<Longrightarrow> recorded i v s = None"
  using record_as_of_current [of s i v] by (auto simp: recorded_def split: option.split)

lemma hist_push: "hist (push_record i w p ver s) j =
    (if j = i then hist s i @ [\<lparr>rc_version = ver, rc_validity = w, rc_present = p\<rparr>] else hist s j)"
  by (auto simp: hist_def push_record_def resize_for_def Let_def nth_append nth_list_update)

lemma recorded_push:
  assumes "\<And>i. sorted_wrt (<) (map rc_version (hist s i)) \<and> (\<forall>r \<in> set (hist s i). rc_version r < ver)"
  shows "recorded j v (push_record i w p ver s) = (if j = i \<and> ver \<le> v then (if p then Some w else None) else recorded j v s)"
proof -
  let ?s = "push_record i w p ver s"
  have so: "sorted_wrt (<) (map rc_version (hist ?s j))"
    using assms [of j] by (auto simp: hist_push sorted_wrt_append)
  show ?thesis
  proof (cases "j = i \<and> ver \<le> v")
    case True
    then have "current (hist ?s j) v (length (hist s i))" by (simp add: hist_push current_append)
    from recorded_current [OF so this] True show ?thesis by (simp add: hist_push)
  next
    case False
    then have c: "current (hist ?s j) v k \<longleftrightarrow> current (hist s j) v k" for k by (auto simp: hist_push current_append)
    show ?thesis
    proof (cases "\<exists>k. current (hist s j) v k")
      case True
      then obtain k where k: "current (hist s j) v k" by blast
      have "hist ?s j ! k = hist s j ! k" using k by (auto simp: hist_push current_def nth_append)
      then show ?thesis using recorded_current [OF so, of v k] recorded_current [of s j v k] assms k c False by auto
    next
      case none: False
      then show ?thesis using recorded_none [OF so, of v] recorded_none [of s j v] assms c False by auto
    qed
  qed
qed

section \<open>The simulation\<close>

definition tree_ok :: "vnode \<Rightarrow> zone_map \<Rightarrow> bool" where
  "tree_ok nd m \<longleftrightarrow> v_wf nd \<and> v_depth nd = 0 \<and> items_ok (v_gather nd) \<and> map_of (v_gather nd) = (\<lambda>i. map_option fst (m i))"

definition live_entries :: "versioned_index \<Rightarrow> nat entry set" where
  "live_entries s = (\<Union>i < length (vi_history s). (\<lambda>j. \<lparr>low = v_from (rc_validity (hist s i ! j)), high = v_to (rc_validity (hist s i ! j)), val = pack i j\<rparr>) `
     {j. j < length (hist s i) \<and> rc_present (hist s i ! j)})"

definition hist_ok :: "versioned_index \<Rightarrow> nat \<Rightarrow> bool" where
  "hist_ok s n \<longleftrightarrow> (\<forall>i. sorted_wrt (<) (map rc_version (hist s i)) \<and> (\<forall>r \<in> set (hist s i). rc_version r < n \<and> v_to (rc_validity r) \<le> int64_max))"

definition vi_rel :: "versioned_index \<Rightarrow> (timestamp \<times> zone_map) list \<Rightarrow> bool" where
  "vi_rel s ss \<longleftrightarrow>
     ss \<noteq> [] \<and> length (vi_roots s) = length ss \<and> vi_times s = map fst ss \<and> sorted (map fst ss) \<and>
     (\<forall>v < length ss. tree_ok (vi_roots s ! v) (snd (ss ! v))) \<and>
     hist_ok s (length ss) \<and>
     (\<forall>v < length ss. \<forall>i. recorded i v s = map_option snd (snd (ss ! v) i)) \<and>
     (\<forall>i b va. snd (last ss) i = Some (b, va) \<longrightarrow> i < length (vi_live_box s) \<and> vi_live_box s ! i = b) \<and>
     it_inv (vi_tree s) \<and> it_entries (vi_tree s) = mset_set (live_entries s)"

lemma hist_length:
  assumes "hist_ok s n"
  shows "length (hist s i) \<le> n"
proof -
  have "sorted_wrt (<) (map rc_version (hist s i))" "set (map rc_version (hist s i)) \<subseteq> {..<n}"
    using assms by (auto simp: hist_ok_def)
  then have "distinct (map rc_version (hist s i))" by (simp add: strict_sorted_iff)
  then have "length (hist s i) = card (set (map rc_version (hist s i)))" by (metis distinct_card length_map)
  also have "\<dots> \<le> n" using \<open>set _ \<subseteq> _\<close> card_mono [of "{..<n}"] by fastforce
  finally show ?thesis .
qed

lemma pack_unpack: "slot < 2 ^ 32 \<Longrightarrow> unpack_zone (pack i slot) = i \<and> unpack_slot (pack i slot) = slot"
  by (simp add: pack_def unpack_zone_def unpack_slot_def uint32_of_def)

lemma finite_live_entries: "finite (live_entries s)"
  by (simp add: live_entries_def)

lemma live_entries_iff:
  "e \<in> live_entries s \<longleftrightarrow> (\<exists>i j. j < length (hist s i) \<and> rc_present (hist s i ! j) \<and>
     e = \<lparr>low = v_from (rc_validity (hist s i ! j)), high = v_to (rc_validity (hist s i ! j)), val = pack i j\<rparr>)"
proof
  assume "e \<in> live_entries s"
  then show "\<exists>i j. j < length (hist s i) \<and> rc_present (hist s i ! j) \<and>
     e = \<lparr>low = v_from (rc_validity (hist s i ! j)), high = v_to (rc_validity (hist s i ! j)), val = pack i j\<rparr>"
    unfolding live_entries_def by blast
next
  assume "\<exists>i j. j < length (hist s i) \<and> rc_present (hist s i ! j) \<and>
     e = \<lparr>low = v_from (rc_validity (hist s i ! j)), high = v_to (rc_validity (hist s i ! j)), val = pack i j\<rparr>"
  then obtain i j where ij: "j < length (hist s i)" "rc_present (hist s i ! j)"
    "e = \<lparr>low = v_from (rc_validity (hist s i ! j)), high = v_to (rc_validity (hist s i ! j)), val = pack i j\<rparr>" by blast
  then have "i < length (vi_history s)" by (auto simp: hist_def split: if_splits)
  then show "e \<in> live_entries s" unfolding live_entries_def using ij by blast
qed

lemma ex_slot_append:
  "(\<exists>j. j < length (xs @ [x]) \<and> P ((xs @ [x]) ! j) j) \<longleftrightarrow> (\<exists>j. j < length xs \<and> P (xs ! j) j) \<or> P x (length xs)"
  by (simp add: less_Suc_eq nth_append conj_disj_distribR ex_disj_distrib cong: conj_cong)

lemma sorted_le_last: "sorted xs \<Longrightarrow> y \<in> set xs \<Longrightarrow> y \<le> last xs"
  by (induction xs) auto

lemma live_entries_push:
  "live_entries (push_record i w p ver s) =
     (if p then insert \<lparr>low = v_from w, high = v_to w, val = pack i (length (hist s i))\<rparr> (live_entries s) else live_entries s)"
proof -
  define r where "r = \<lparr>rc_version = ver, rc_validity = w, rc_present = p\<rparr>"
  define f where "f i' (r :: validity_record) j = \<lparr>low = v_from (rc_validity r), high = v_to (rc_validity r), val = pack i' j\<rparr>" for i' r j
  have iff: "e \<in> live_entries u \<longleftrightarrow> (\<exists>i' j. j < length (hist u i') \<and> rc_present (hist u i' ! j) \<and> e = f i' (hist u i' ! j) j)" for e u
    unfolding live_entries_iff f_def ..
  have h: "hist (push_record i w p ver s) i' = (if i' = i then hist s i @ [r] else hist s i')" for i' by (simp add: hist_push r_def)
  have e_iff: "e \<in> live_entries (push_record i w p ver s) \<longleftrightarrow> e \<in> live_entries s \<or> (p \<and> e = f i r (length (hist s i)))" for e
  proof -
    have "(\<exists>j. j < length (hist (push_record i w p ver s) i') \<and> rc_present (hist (push_record i w p ver s) i' ! j) \<and> e = f i' (hist (push_record i w p ver s) i' ! j) j) \<longleftrightarrow>
        (\<exists>j. j < length (hist s i') \<and> rc_present (hist s i' ! j) \<and> e = f i' (hist s i' ! j) j) \<or> (i' = i \<and> p \<and> e = f i r (length (hist s i)))" for i'
      using ex_slot_append [of "hist s i" r "\<lambda>r j. rc_present r \<and> e = f i r j"] unfolding h by (cases "i' = i") (simp_all add: r_def)
    then show ?thesis unfolding iff by blast
  qed
  have "live_entries (push_record i w p ver s) = (if p then insert (f i r (length (hist s i))) (live_entries s) else live_entries s)"
    using e_iff by (cases p) auto
  then show ?thesis by (simp add: f_def r_def)
qed

lemma rel_init: "vi_rel vi_new [(0, Map.empty)]"
proof -
  have "bb_proper world" by (simp add: world_def bb_proper_def)
  then show ?thesis
    by (auto simp: hist_def vi_rel_def tree_ok_def hist_ok_def recorded_def record_as_of_def vi_new_def items_ok_def it_empty_inv
      it_entries_empty live_entries_def kMaxNodeDepth_def)
qed

lemma rel_extend:
  assumes rel: "vi_rel s ss" and small: "length ss < 2 ^ 32"
    and s2: "vi_roots s2 = vi_roots s @ [nd]" "vi_times s2 = vi_times s @ [t]" "vi_history s2 = vi_history s" "vi_tree s2 = vi_tree s"
    and nd: "tree_ok nd m" and others: "\<And>j. j \<noteq> i \<Longrightarrow> m j = snd (last ss) j"
    and new: "map_option snd (m i) = (if p then Some w else None)" and w: "v_to w \<le> int64_max"
    and t: "fst (last ss) \<le> t"
    and lb: "\<And>j b va. m j = Some (b, va) \<Longrightarrow> j < length (vi_live_box s2) \<and> vi_live_box s2 ! j = b"
  shows "vi_rel (log_change ver t' i k (push_record i w p (length ss) s2)) (ss @ [(t, m)])"
proof -
  let ?s = "push_record i w p (length ss) s2"
  have ne: "ss \<noteq> []" and ho: "hist_ok s (length ss)" using rel by (simp_all add: vi_rel_def)
  have h2: "hist s2 = hist s" by (simp add: hist_def fun_eq_iff s2)
  have r2: "recorded j v s2 = recorded j v s" for j v by (rule recorded_cong) (simp add: s2)
  have ext: "vi_roots ?s = vi_roots s @ [nd]" "vi_times ?s = vi_times s @ [t]" "vi_live_box ?s = vi_live_box s2"
    by (simp_all add: push_record_def Let_def s2)
  have ho2: "hist_ok ?s (length ss + 1)"
    using ho w by (auto simp: hist_ok_def hist_push h2 sorted_wrt_append less_Suc_eq)
  have rec: "recorded j v ?s = (if j = i \<and> length ss \<le> v then (if p then Some w else None) else recorded j v s)" for j v
    using recorded_push [of s2 "length ss" j v i w p] ho by (simp add: h2 r2 hist_ok_def)
  have beyond: "recorded j (length ss) s = recorded j (length ss - 1) s" for j
  proof -
    have so: "sorted_wrt (<) (map rc_version (hist s j))" using ho by (simp add: hist_ok_def)
    have "rc_version (hist s j ! k) < length ss" if "k < length (hist s j)" for k
      using ho nth_mem [OF that] by (simp add: hist_ok_def)
    then have "current (hist s j) (length ss) k \<longleftrightarrow> current (hist s j) (length ss - 1) k" for k
      by (fastforce simp: current_def)
    then show ?thesis using recorded_current [OF so] recorded_none [OF so] by metis
  qed
  have last_rec: "recorded j (length ss - 1) s = map_option snd (snd (last ss) j)" for j
    using rel ne by (simp add: vi_rel_def last_conv_nth)
  have recs: "recorded j v ?s = map_option snd (snd ((ss @ [(t, m)]) ! v) j)" if "v < length ss + 1" for v j
  proof (cases "v < length ss")
    case True
    then show ?thesis using rel by (simp add: rec nth_append vi_rel_def)
  next
    case False
    then have "v = length ss" using that by simp
    then show ?thesis using new others last_rec [of j] beyond [of j] by (simp add: rec)
  qed
  have len: "length (hist s i) < 2 ^ 32" using hist_length [OF ho, of i] small by simp
  have fresh: "\<lparr>low = v_from w, high = v_to w, val = pack i (length (hist s i))\<rparr> \<notin> live_entries s"
  proof
    assume "\<lparr>low = v_from w, high = v_to w, val = pack i (length (hist s i))\<rparr> \<in> live_entries s"
    then obtain i' j where j: "j < length (hist s i')" "pack i (length (hist s i)) = pack i' j" by (auto simp: live_entries_iff)
    have "j < 2 ^ 32" using j(1) hist_length [OF ho, of i'] small by linarith
    then have "i = i'" "length (hist s i) = j"
      using pack_unpack [OF len, of i] pack_unpack [of j i'] unfolding j(2) by simp_all
    then show False using j(1) by simp
  qed
  have "live_entries s2 = live_entries s" by (simp add: live_entries_def s2 h2)
  then have "it_inv (vi_tree ?s) \<and> it_entries (vi_tree ?s) = mset_set (live_entries ?s)"
  proof (cases p)
    case True
    have "vi_tree ?s = it_insert (vi_tree s) (v_from w) (v_to w) (pack i (length (hist s i)))"
      using True by (auto simp: push_record_def Let_def s2 hist_def resize_for_def nth_append)
    then show ?thesis
      using it_insert_correct [of "vi_tree s" "v_from w" "v_to w" "pack i (length (hist s i))"] rel True fresh
        live_entries_push [of i w p "length ss" s2] finite_live_entries [of s] \<open>live_entries s2 = live_entries s\<close>
      by (simp add: vi_rel_def h2)
  next
    case False
    then have "vi_tree ?s = vi_tree s" by (simp add: push_record_def Let_def s2)
    then show ?thesis using rel False live_entries_push [of i w p "length ss" s2] \<open>live_entries s2 = live_entries s\<close> by (simp add: vi_rel_def)
  qed
  moreover have "sorted (map fst (ss @ [(t, m)]))"
  proof -
    have so: "sorted (map fst ss)" using rel by (simp add: vi_rel_def)
    have "x \<le> t" if "x \<in> set (map fst ss)" for x
      using sorted_le_last [OF so that] t ne by (simp add: last_map)
    then show ?thesis using so by (simp add: sorted_append)
  qed
  moreover have "tree_ok (vi_roots ?s ! v) (snd ((ss @ [(t, m)]) ! v))" if "v < length ss + 1" for v
    using that rel nd by (cases "v < length ss") (auto simp: ext nth_append vi_rel_def less_Suc_eq)
  ultimately have "vi_rel ?s (ss @ [(t, m)])"
    using rel ho2 recs lb by (simp add: vi_rel_def ext)
  moreover have "vi_rel (log_change ver t' i k u) us = vi_rel u us" for u us
  proof -
    let ?u = "log_change ver t' i k u"
    have "hist ?u = hist u" by (simp add: hist_def log_change_def fun_eq_iff)
    moreover have "recorded j v ?u = recorded j v u" for j v by (rule recorded_cong) (simp add: log_change_def)
    ultimately show ?thesis by (simp add: vi_rel_def hist_ok_def live_entries_def) (simp add: log_change_def)
  qed
  ultimately show ?thesis by simp
qed

lemma removed_root:
  assumes "tree_ok nd m" "m i = Some (b, va)"
  shows "\<exists>n' al'. remove_copy nd i b al = Some (n', al') \<and> tree_ok n' (m(i := None)) \<and> copied nd al n' al' \<and> al' \<le> al + 15"
proof -
  have t: "v_wf nd" "v_depth nd = 0" "items_ok (v_gather nd)" "map_of (v_gather nd) = (\<lambda>i. map_option fst (m i))"
    using assms(1) by (simp_all add: tree_ok_def)
  have "(i, b) \<in> set (v_gather nd)" using t(4) assms(2) by (auto dest: fun_cong [of _ _ i] intro: map_of_SomeD)
  then obtain n' al' where r: "remove_copy nd i b al = Some (n', al')" "v_wf n'" "v_depth n' = v_depth nd"
    "mset (v_gather nd) = add_mset (i, b) (mset (v_gather n'))" "copied nd al n' al'" "al' \<le> al + (kMaxNodeDepth + 1 - v_depth nd)"
    using remove_copy_correct(1) [OF t(1)] t(3) unfolding items_ok_def by blast
  have m: "mset (v_gather nd) = mset ((i, b) # v_gather n')" using r(4) by simp
  then have ok: "items_ok ((i, b) # v_gather n')" using items_ok_mset [OF m] t(3) by simp
  have "map_of (v_gather nd) = (map_of (v_gather n'))(i \<mapsto> b)" using map_of_mset [OF m t(3)] by simp
  moreover have "map_of (v_gather n') i = None" using ok by (simp add: items_ok_Cons map_of_eq_None_iff)
  ultimately have "map_of (v_gather n') = (map_of (v_gather nd))(i := None)" by (auto simp: fun_eq_iff)
  then have "tree_ok n' (m(i := None))" using r(2,3) t ok by (auto simp: tree_ok_def items_ok_Cons)
  then show ?thesis using r(1,5,6) t(2) by (simp add: kMaxNodeDepth_def)
qed

lemma inserted_root:
  assumes "tree_ok nd m" "m i = None" "bb_proper b"
  shows "\<exists>n' al'. insert_copy nd (i, b) al True = (n', al') \<and> tree_ok n' (m(i \<mapsto> (b, va))) \<and> copied nd al n' al' \<and> al' \<le> al + 18"
proof -
  have t: "v_wf nd" "v_depth nd = 0" "items_ok (v_gather nd)" "map_of (v_gather nd) = (\<lambda>i. map_option fst (m i))"
    using assms(1) by (simp_all add: tree_ok_def)
  obtain n' al' where n': "insert_copy nd (i, b) al True = (n', al')" by fastforce
  have c: "v_wf n' \<and> v_depth n' = v_depth nd \<and> mset (v_gather n') = add_mset (i, b) (mset (v_gather nd)) \<and> copied nd al n' al' \<and>
      al' \<le> al + (kMaxNodeDepth + 4 - v_depth nd)"
    using insert_copy_correct(1) [OF t(1), of "(i, b)" True al n' al'] assms(3) n' by simp
  have "map_of (v_gather nd) i = None" using t(4) assms(2) by simp
  from items_ok_insert [OF t(3) this assms(3)] c have "items_ok (v_gather n')" "map_of (v_gather n') = (map_of (v_gather nd))(i \<mapsto> b)" by blast+
  then have "tree_ok n' (m(i \<mapsto> (b, va)))" using c t by (auto simp: tree_ok_def)
  then show ?thesis using n' c t(2) by (simp add: kMaxNodeDepth_def)
qed

lemma copied_trans: "copied n m n' m' \<Longrightarrow> copied n' m' n'' m'' \<Longrightarrow> copied n m n'' m''"
  by (fastforce simp: copied_def)

lemma copied_refl: "copied n m n m"
  by (simp add: copied_def)

lemma rel_contains:
  assumes "vi_rel s ss"
  shows "contains_zone i s \<longleftrightarrow> snd (last ss) i \<noteq> None"
proof -
  have ne: "ss \<noteq> []" and so: "sorted_wrt (<) (map rc_version (hist s i))" and lt: "\<forall>r \<in> set (hist s i). rc_version r < length ss"
    using assms by (auto simp: vi_rel_def hist_ok_def)
  have last: "recorded i (length ss - 1) s = map_option snd (snd (last ss) i)"
    using assms ne by (simp add: vi_rel_def last_conv_nth)
  show ?thesis
  proof (cases "hist s i = []")
    case True
    then have "recorded i (length ss - 1) s = None" by (intro recorded_none [OF so]) (simp add: current_def)
    then show ?thesis using last True by (auto simp: contains_zone_def hist_def split: if_splits)
  next
    case False
    have "rc_version (last (hist s i)) < length ss" using lt last_in_set [OF False] by blast
    then have "current (hist s i) (length ss - 1) (length (hist s i) - 1)"
      using False by (auto simp: current_def last_conv_nth)
    from recorded_current [OF so this] last False show ?thesis
      by (cases "snd (last ss) i") (auto simp: contains_zone_def hist_def last_conv_nth split: if_splits)
  qed
qed

definition grows :: "versioned_index \<Rightarrow> versioned_index \<Rightarrow> bool" where
  "grows s s' \<longleftrightarrow> (\<exists>nd. vi_roots s' = vi_roots s @ [nd] \<and> copied (last (vi_roots s)) (vi_allocated s) nd (vi_allocated s')) \<and>
     vi_allocated s' \<le> vi_allocated s + 33"

lemma rel_last:
  assumes "vi_rel s ss"
  shows "tree_ok (last (vi_roots s)) (snd (last ss))" "last (vi_times s) = fst (last ss)"
    "snd (last ss) i = Some (b, va) \<Longrightarrow> i < length (vi_live_box s) \<and> vi_live_box s ! i = b"
proof -
  have "ss \<noteq> []" "vi_roots s \<noteq> []" using assms by (auto simp: vi_rel_def)
  then show "tree_ok (last (vi_roots s)) (snd (last ss))" "last (vi_times s) = fst (last ss)"
    using assms by (auto simp: vi_rel_def last_conv_nth)
qed (use assms in \<open>simp add: vi_rel_def\<close>)

lemma roots_push: "vi_roots (log_change ver t i k (push_record i' w p ver' s)) = vi_roots s"
  "vi_allocated (log_change ver t i k (push_record i' w p ver' s)) = vi_allocated s"
  by (simp_all add: log_change_def push_record_def Let_def)

lemma step_correct:
  assumes rel: "vi_rel s ss" and small: "length ss < 2 ^ 32" and ok: "vi_op_ok p"
  shows "vi_rel (vi_step p s) (snap_step p ss) \<and> (vi_step p s = s \<or> grows s (vi_step p s))"
proof (cases p)
  case (VAdd i b v t)
  have mono: "monotone t s = stamp t ss" using rel_last(2) [OF rel] by (simp add: monotone_def stamp_def)
  obtain base al where base: "(if contains_zone i s then
               (case remove_copy (last (vi_roots s)) i (vi_live_box s ! i) (vi_allocated s) of
                  Some (n, allocated) \<Rightarrow> (n, allocated) | None \<Rightarrow> (last (vi_roots s), vi_allocated s))
             else (last (vi_roots s), vi_allocated s)) = (base, al)"
    "tree_ok base ((snd (last ss))(i := None))" "copied (last (vi_roots s)) (vi_allocated s) base al" "al \<le> vi_allocated s + 15"
  proof (cases "snd (last ss) i")
    case None
    then show thesis using rel_last(1) [OF rel] rel_contains [OF rel] copied_refl
      by (intro that [of "last (vi_roots s)" "vi_allocated s"]) (simp_all add: fun_upd_idem)
  next
    case (Some bv)
    obtain b0 v0 where bv: "bv = (b0, v0)" by fastforce
    from removed_root [OF rel_last(1) [OF rel] Some [unfolded bv]] rel_last(3) [OF rel Some [unfolded bv]]
    obtain n' al' where "remove_copy (last (vi_roots s)) i (vi_live_box s ! i) (vi_allocated s) = Some (n', al')"
      "tree_ok n' ((snd (last ss))(i := None))" "copied (last (vi_roots s)) (vi_allocated s) n' al'" "al' \<le> vi_allocated s + 15" by blast
    then show thesis using rel_contains [OF rel] Some by (intro that) simp_all
  qed
  obtain nd al' where nd: "insert_copy base (i, b) al True = (nd, al')" "tree_ok nd (((snd (last ss))(i := None))(i \<mapsto> (b, v)))"
    "copied base al nd al'" "al' \<le> al + 18"
    using inserted_root [OF base(2), of i b al v] ok VAdd by auto
  define s2 where "s2 = s\<lparr>vi_allocated := al', vi_roots := vi_roots s @ [nd], vi_times := vi_times s @ [stamp t ss],
      vi_live_box := (resize_for i NoBox (vi_live_box s))[i := b]\<rparr>"
  have step: "vi_step p s = log_change (length ss) (stamp t ss) i (if contains_zone i s then ChReplaced else ChAdded) (push_record i v True (length ss) s2)"
    using rel by (simp add: VAdd add_zone_def mono base(1) nd(1) vi_commit_def vi_rel_def s2_def Let_def)
  have "vi_rel (vi_step p s) (ss @ [(stamp t ss, (snd (last ss))(i \<mapsto> (b, v)))])"
    unfolding step
  proof (rule rel_extend [OF rel small, where nd = nd])
    show "j < length (vi_live_box s2) \<and> vi_live_box s2 ! j = b'" if "((snd (last ss))(i \<mapsto> (b, v))) j = Some (b', va)" for j b' va
      using that rel_last(3) [OF rel, of j b' va] by (auto simp: s2_def resize_for_def nth_append nth_list_update split: if_splits)
  qed (use nd(2) ok VAdd in \<open>simp_all add: s2_def stamp_def\<close>)
  moreover have "grows s (vi_step p s)"
    using copied_trans [OF base(3) nd(3)] base(4) nd(4) unfolding step by (auto simp: grows_def roots_push s2_def)
  ultimately show ?thesis by (simp add: VAdd)
next
  case (VRemove i t)
  show ?thesis
  proof (cases "snd (last ss) i")
    case None
    then show ?thesis using rel rel_contains [OF rel, of i] by (simp add: VRemove remove_zone_def)
  next
    case (Some bv)
    obtain b0 v0 where bv: "bv = (b0, v0)" by fastforce
    have mono: "monotone t s = stamp t ss" using rel_last(2) [OF rel] by (simp add: monotone_def stamp_def)
    from removed_root [OF rel_last(1) [OF rel] Some [unfolded bv]] rel_last(3) [OF rel Some [unfolded bv]]
    obtain nd al where nd: "remove_copy (last (vi_roots s)) i (vi_live_box s ! i) (vi_allocated s) = Some (nd, al)"
      "tree_ok nd ((snd (last ss))(i := None))" "copied (last (vi_roots s)) (vi_allocated s) nd al" "al \<le> vi_allocated s + 15" by blast
    define s2 where "s2 = s\<lparr>vi_allocated := al, vi_roots := vi_roots s @ [nd], vi_times := vi_times s @ [stamp t ss]\<rparr>"
    have step: "vi_step p s = log_change (length ss) (stamp t ss) i ChRemoved (push_record i always False (length ss) s2)"
      using rel rel_contains [OF rel, of i] Some by (simp add: VRemove remove_zone_def mono nd(1) vi_commit_def vi_rel_def s2_def Let_def)
    have "vi_rel (vi_step p s) (ss @ [(stamp t ss, (snd (last ss))(i := None))])"
      unfolding step
    proof (rule rel_extend [OF rel small, where nd = nd])
      show "j < length (vi_live_box s2) \<and> vi_live_box s2 ! j = b'" if "((snd (last ss))(i := None)) j = Some (b', va)" for j b' va
        using that rel_last(3) [OF rel, of j b' va] by (auto simp: s2_def split: if_splits)
    qed (use nd(2) in \<open>simp_all add: s2_def stamp_def always_def kForever_def\<close>)
    moreover have "grows s (vi_step p s)" using nd(3,4) unfolding step by (auto simp: grows_def roots_push s2_def)
    ultimately show ?thesis using Some by (simp add: VRemove)
  qed
next
  case (VUpdate i v t)
  show ?thesis
  proof (cases "snd (last ss) i")
    case None
    then show ?thesis using rel rel_contains [OF rel, of i] by (simp add: VUpdate update_validity_def)
  next
    case (Some bv)
    obtain b0 v0 where bv: "bv = (b0, v0)" by fastforce
    have mono: "monotone t s = stamp t ss" using rel_last(2) [OF rel] by (simp add: monotone_def stamp_def)
    define s2 where "s2 = s\<lparr>vi_roots := vi_roots s @ [last (vi_roots s)], vi_times := vi_times s @ [stamp t ss]\<rparr>"
    have step: "vi_step p s = log_change (length ss) (stamp t ss) i ChValidityChanged (push_record i v True (length ss) s2)"
      using rel rel_contains [OF rel, of i] Some by (simp add: VUpdate update_validity_def mono vi_commit_def vi_rel_def s2_def Let_def)
    have same: "map_option fst (((snd (last ss))(i \<mapsto> (b0, v))) j) = map_option fst (snd (last ss) j)" for j using Some bv by simp
    have "vi_rel (vi_step p s) (ss @ [(stamp t ss, (snd (last ss))(i \<mapsto> (b0, v)))])"
      unfolding step
    proof (rule rel_extend [OF rel small, where nd = "last (vi_roots s)"])
      show "tree_ok (last (vi_roots s)) ((snd (last ss))(i \<mapsto> (b0, v)))" using rel_last(1) [OF rel] unfolding tree_ok_def same .
      show "j < length (vi_live_box s2) \<and> vi_live_box s2 ! j = b'" if "((snd (last ss))(i \<mapsto> (b0, v))) j = Some (b', va)" for j b' va
        using that rel_last(3) [OF rel, of j b'] Some bv by (auto simp: s2_def split: if_splits)
    qed (use VUpdate ok in \<open>simp_all add: s2_def stamp_def\<close>)
    moreover have "grows s (vi_step p s)" unfolding step by (auto simp: grows_def roots_push s2_def copied_refl)
    ultimately show ?thesis using Some bv by (simp add: VUpdate)
  qed
qed

section \<open>Answers\<close>

lemma run_rel:
  assumes "list_all vi_op_ok ops" "length ops < 2 ^ 32"
  shows "vi_rel (vi_run ops) (snap_run ops) \<and> length (snap_run ops) \<le> length ops + 1"
  using assms
proof (induction ops rule: rev_induct)
  case Nil
  show ?case using rel_init by (simp add: vi_run_def snap_run_def)
next
  case (snoc p ops)
  then have ih: "vi_rel (vi_run ops) (snap_run ops)" "length (snap_run ops) \<le> length ops + 1" by simp_all
  have "length (snap_run ops) < 2 ^ 32" using ih(2) snoc.prems(2) by simp
  from step_correct [OF ih(1) this, of p] snoc.prems(1)
  have "vi_rel (vi_step p (vi_run ops)) (snap_step p (snap_run ops))" by simp
  moreover have "length (snap_step p (snap_run ops)) \<le> length (snap_run ops) + 1" by (cases p) (auto split: option.split)
  moreover have "vi_run (ops @ [p]) = vi_step p (vi_run ops)" "snap_run (ops @ [p]) = snap_step p (snap_run ops)"
    by (simp_all add: vi_run_def snap_run_def)
  ultimately show ?case using ih(2) by simp
qed

lemma version_at_snap:
  assumes "vi_rel s ss"
  shows "version_at t s < length ss \<and> snap_at t ss = snd (ss ! version_at t s)"
proof -
  let ?ps = "takeWhile (\<lambda>p. fst p \<le> t) ss"
  have ne: "ss \<noteq> []" and times: "vi_times s = map fst ss" using assms by (simp_all add: vi_rel_def)
  have v: "version_at t s = (if ?ps = [] then 0 else length ?ps - 1)"
    by (simp add: version_at_def times takeWhile_map comp_def not_less Let_def)
  show ?thesis
  proof (cases "?ps = []")
    case True
    then show ?thesis using ne v by (simp add: snap_at_def hd_conv_nth)
  next
    case False
    have "last ?ps = ss ! (length ?ps - 1)" using False by (simp add: last_conv_nth takeWhile_nth)
    moreover have "length ?ps \<le> length ss" by (rule length_takeWhile_le)
    ultimately show ?thesis using False v ne by (cases ?ps) (auto simp: snap_at_def split: list.splits)
  qed
qed

lemma rel_snap:
  assumes "vi_rel s ss"
  shows "tree_ok (vi_roots s ! version_at t s) (snap_at t ss)" "recorded i (version_at t s) s = map_option snd (snap_at t ss i)"
  using assms version_at_snap [OF assms, of t] by (simp_all add: vi_rel_def)

definition spec_hits :: "timestamp \<Rightarrow> bbox \<Rightarrow> zone_map \<Rightarrow> zone_id set" where
  "spec_hits t q m = {i. \<exists>b va. m i = Some (b, va) \<and> bb_intersects b q \<and> in_force va t}"

definition spec_active :: "timestamp \<Rightarrow> zone_map \<Rightarrow> zone_id set" where
  "spec_active t m = {i. \<exists>b va. m i = Some (b, va) \<and> in_force va t}"

lemma query_at_correct:
  assumes "vi_rel s ss"
  shows "distinct (query_at t q [] s) \<and> set (query_at t q [] s) = spec_hits t q (snap_at t ss)"
proof -
  let ?v = "version_at t s" and ?m = "snap_at t ss"
  have t: "v_wf (vi_roots s ! ?v)" "items_ok (v_gather (vi_roots s ! ?v))" "map_of (v_gather (vi_roots s ! ?v)) = (\<lambda>i. map_option fst (?m i))"
    using rel_snap(1) [OF assms, of t] by (simp_all add: tree_ok_def)
  have q: "query_at t q [] s = filter (\<lambda>i. case recorded i ?v s of None \<Rightarrow> False | Some va \<Rightarrow> in_force va t) (matching q (v_gather (vi_roots s ! ?v)))"
    unfolding query_at_def Let_def v_query_node_correct [OF t(1)] append_Nil
    by (rule filter_cong [OF refl]) (auto simp: recorded_def split: option.split)
  have "set (matching q (v_gather (vi_roots s ! ?v))) = {i. \<exists>b va. ?m i = Some (b, va) \<and> bb_intersects b q}"
    unfolding matching_hits(2) [OF t(2) refl] box_hits_def t(3) by auto
  then show ?thesis
    using matching_hits(1) [OF t(2) refl, of q] unfolding q spec_hits_def rel_snap(2) [OF assms]
    by (auto split: option.splits)
qed

lemma active_at_correct:
  assumes rel: "vi_rel s ss" and small: "length ss \<le> 2 ^ 32"
  shows "distinct (active_at t [] s) \<and> set (active_at t [] s) = spec_active t (snap_at t ss)"
proof -
  let ?v = "version_at t s" and ?m = "snap_at t ss"
  have ho: "hist_ok s (length ss)" using rel by (simp add: vi_rel_def)
  have so: "sorted_wrt (<) (map rc_version (hist s i))" for i using ho by (simp add: hist_ok_def)
  have un: "unpack_zone (pack i j) = i" "unpack_slot (pack i j) = j" if "j < length (hist s i)" for i j
    using pack_unpack [of j i] that hist_length [OF ho, of i] small by auto
  define E where "E = {e \<in> live_entries s. low e \<le> t \<and> t < high e}"
  have fin: "finite E" using finite_live_entries by (simp add: E_def)
  have inj: "inj_on val E"
  proof (rule inj_onI)
    fix e e' assume "e \<in> E" "e' \<in> E" and eq: "val e = val e'"
    then obtain i j i' j' where ij: "j < length (hist s i)" "j' < length (hist s i')" "val e = pack i j" "val e' = pack i' j'"
      "e = \<lparr>low = v_from (rc_validity (hist s i ! j)), high = v_to (rc_validity (hist s i ! j)), val = pack i j\<rparr>"
      "e' = \<lparr>low = v_from (rc_validity (hist s i' ! j')), high = v_to (rc_validity (hist s i' ! j')), val = pack i' j'\<rparr>"
      unfolding E_def live_entries_iff by auto
    have "i = i'" "j = j'" using un [OF ij(1)] un [OF ij(2)] eq ij(3,4) by simp_all
    then show "e = e'" using ij(5,6) by simp
  qed
  have bound: "\<forall>e \<in># it_entries (vi_tree s). high e \<le> int64_max"
  proof
    fix e assume "e \<in># it_entries (vi_tree s)"
    then have "e \<in> live_entries s" using rel finite_live_entries by (simp add: vi_rel_def)
    then obtain i j where j: "j < length (hist s i)" "high e = v_to (rc_validity (hist s i ! j))" by (auto simp: live_entries_iff)
    then show "high e \<le> int64_max" using ho nth_mem [OF j(1)] unfolding hist_ok_def by metis
  qed
  have "mset (it_stabbing (vi_tree s) t) = mset_set (val ` E)"
    using it_stabbing_correct [OF _ bound, of t] rel
    by (simp add: vi_rel_def filter_mset_mset_set [OF finite_live_entries] image_mset_mset_set [OF inj [unfolded E_def]] E_def)
  from mset_set_list [OF this] fin have st: "distinct (it_stabbing (vi_tree s) t)" "set (it_stabbing (vi_tree s) t) = val ` E" by simp_all
  let ?P = "\<lambda>hit. case record_as_of (unpack_zone hit) ?v s of
            None \<Rightarrow> False
          | Some slot \<Rightarrow> rc_present (record_at (unpack_zone hit) slot s) \<and> unpack_slot hit = slot"
  let ?L = "filter ?P (it_stabbing (vi_tree s) t)"
  have hit: "\<exists>i j. h = pack i j \<and> unpack_zone h = i \<and> current (hist s i) ?v j \<and> rc_present (hist s i ! j) \<and> in_force (rc_validity (hist s i ! j)) t"
    if "h \<in> set ?L" for h
  proof -
    have "h \<in> val ` E" and P: "?P h" using that st(2) by auto
    then obtain i j where ij: "j < length (hist s i)" "rc_present (hist s i ! j)" "h = pack i j" "in_force (rc_validity (hist s i ! j)) t"
      by (auto simp: E_def live_entries_iff in_force_def)
    have "current (hist s i) ?v j" using P un [OF ij(1)] record_as_of_current [of s i ?v, OF so] by (auto simp: ij(3) split: option.splits)
    then show ?thesis using ij un [OF ij(1)] by blast
  qed
  have "inj_on unpack_zone (set ?L)"
  proof (rule inj_onI)
    fix h h' assume h: "h \<in> set ?L" and h': "h' \<in> set ?L" and eq: "unpack_zone h = unpack_zone h'"
    from hit [OF h] obtain i j where 1: "h = pack i j" "unpack_zone h = i" "current (hist s i) ?v j" by blast
    from hit [OF h'] obtain i' j' where 2: "h' = pack i' j'" "unpack_zone h' = i'" "current (hist s i') ?v j'" by blast
    have "i = i'" using 1(2) 2(2) eq by simp
    then have "j = j'" using 1(3) 2(3) current_unique by simp
    then show "h = h'" using 1(1) 2(1) \<open>i = i'\<close> by simp
  qed
  then have d: "distinct (active_at t [] s)" using st(1) by (simp add: active_at_def distinct_map Let_def)
  have "i \<in> set (active_at t [] s) \<longleftrightarrow> i \<in> spec_active t ?m" for i
  proof
    assume "i \<in> set (active_at t [] s)"
    then obtain h where "h \<in> set ?L" "i = unpack_zone h" unfolding active_at_def Let_def by auto
    from hit [OF this(1)] obtain i' j where "unpack_zone h = i'" "current (hist s i') ?v j" "rc_present (hist s i' ! j)"
      "in_force (rc_validity (hist s i' ! j)) t" by blast
    with \<open>i = unpack_zone h\<close> have "current (hist s i) ?v j" "rc_present (hist s i ! j)" "in_force (rc_validity (hist s i ! j)) t" by simp_all
    then have "recorded i ?v s = Some (rc_validity (hist s i ! j)) \<and> in_force (rc_validity (hist s i ! j)) t"
      using recorded_current [OF so] by simp
    then show "i \<in> spec_active t ?m" using rel_snap(2) [OF rel, of i t] unfolding spec_active_def by auto
  next
    assume "i \<in> spec_active t ?m"
    then obtain va where va: "recorded i ?v s = Some va" "in_force va t" using rel_snap(2) [OF rel, of i t] unfolding spec_active_def by auto
    then obtain j where j: "current (hist s i) ?v j" using recorded_none [OF so, of i ?v] by fastforce
    then have p: "rc_present (hist s i ! j)" "rc_validity (hist s i ! j) = va" using recorded_current [OF so j] va by (simp_all split: if_splits)
    have jl: "j < length (hist s i)" using j by (simp add: current_def)
    then have "pack i j \<in> val ` E" using p va(2) unfolding E_def live_entries_iff in_force_def by force
    moreover have "?P (pack i j)"
      using j p jl un [OF jl] record_as_of_current [of s i ?v j, OF so] by (auto simp: record_at_def hist_def split: if_splits)
    ultimately have "pack i j \<in> set ?L" using st(2) by simp
    then show "i \<in> set (active_at t [] s)" using un(1) [OF jl] unfolding active_at_def Let_def by force
  qed
  then show ?thesis using d by blast
qed

lemma counted_at:
  assumes "vi_rel s ss"
  shows "zone_count_at t s = card (dom (snap_at t ss))" "validity_at i t s = map_option snd (snap_at t ss i)"
proof -
  have t: "items_ok (v_gather (vi_roots s ! version_at t s))" "map_of (v_gather (vi_roots s ! version_at t s)) = (\<lambda>i. map_option fst (snap_at t ss i))"
    using rel_snap(1) [OF assms, of t] by (simp_all add: tree_ok_def)
  have "dom (\<lambda>i. map_option fst (snap_at t ss i)) = dom (snap_at t ss)" by auto
  then show "zone_count_at t s = card (dom (snap_at t ss))"
    using items_ok_size [OF t(1)] unfolding t(2) by (simp add: zone_count_at_def count_node_correct)
  show "validity_at i t s = map_option snd (snap_at t ss i)"
    using rel_snap(2) [OF assms] by (simp add: validity_at_def recorded_def)
qed

section \<open>The audit and the sharing\<close>

lemma v_audit_correct:
  shows "v_wf n \<Longrightarrow> v_audit n = Some (map fst (v_gather n))"
    and "v_wf_kids r d ks \<Longrightarrow> v_audit_kids r d ks = Some (map fst (concat (map v_gather ks)))"
proof (induction n and r d ks rule: v_audit_v_audit_kids.induct)
  case (1 a r d its ks)
  then show ?case by (auto simp: list_all_iff)
qed auto

lemma audit_correct:
  assumes rel: "vi_rel s ss"
  shows "vi_check_invariants s"
proof -
  have "version_sound s v" if v: "v < length ss" for v
  proof -
    let ?nd = "vi_roots s ! v" and ?m = "snd (ss ! v)"
    have t: "v_wf ?nd" "items_ok (v_gather ?nd)" "map_of (v_gather ?nd) = (\<lambda>i. map_option fst (?m i))"
      using rel v by (simp_all add: vi_rel_def tree_ok_def)
    have rc: "recorded i v s = map_option snd (?m i)" for i using rel v by (simp add: vi_rel_def)
    have p: "present_at i v s \<longleftrightarrow> ?m i \<noteq> None" for i
      using rc [of i] by (cases "?m i") (auto simp: present_at_def recorded_def split: option.splits if_splits)
    have out: "\<not> present_at i v s" if "i \<ge> length (vi_history s)" for i
      using that by (simp add: present_at_def record_as_of_def)
    have ids: "fst ` set (v_gather ?nd) = {i. ?m i \<noteq> None}"
      using arg_cong [OF t(3), of dom] by (auto simp: dom_map_of_conv_image_fst)
    have pres: "set (filter (\<lambda>i. present_at i v s) [0..<length (vi_history s)]) = fst ` set (v_gather ?nd)"
      unfolding ids p [symmetric] using leI out by auto
    have d: "distinct (map fst (v_gather ?nd))" using t(2) by (simp add: items_ok_def)
    have "length (filter (\<lambda>i. present_at i v s) [0..<length (vi_history s)]) = length (map fst (v_gather ?nd))"
      using distinct_card [OF d] distinct_card [of "filter (\<lambda>i. present_at i v s) [0..<length (vi_history s)]"] pres by simp
    then show ?thesis using pres d by (simp add: version_sound_def v_audit_correct(1) [OF t(1)] list_all_iff Let_def)
  qed
  then show ?thesis using rel by (simp add: vi_check_invariants_def vi_rel_def list_all_iff)
qed

lemma grows_run:
  assumes "list_all vi_op_ok ops" "length ops < 2 ^ 32"
  shows "vi_allocated (vi_run ops) \<le> 33 * length ops + 1 \<and>
    (\<forall>v. v + 1 < length (vi_roots (vi_run ops)) \<longrightarrow>
      card (set (collect_addrs (vi_roots (vi_run ops) ! (v + 1))) - set (collect_addrs (vi_roots (vi_run ops) ! v))) \<le> 33)"
  using assms
proof (induction ops rule: rev_induct)
  case Nil
  show ?case by (simp add: vi_run_def vi_new_def)
next
  case (snoc p ops)
  let ?s = "vi_run ops"
  have run: "vi_run (ops @ [p]) = vi_step p ?s" by (simp add: vi_run_def)
  have rel: "vi_rel ?s (snap_run ops)" "length (snap_run ops) < 2 ^ 32"
    using run_rel [of ops] snoc.prems by auto
  have ih: "vi_allocated ?s \<le> 33 * length ops + 1"
    "\<forall>v. v + 1 < length (vi_roots ?s) \<longrightarrow> card (set (collect_addrs (vi_roots ?s ! (v + 1))) - set (collect_addrs (vi_roots ?s ! v))) \<le> 33"
    using snoc by auto
  from step_correct [OF rel, of p] snoc.prems consider "vi_step p ?s = ?s" | "grows ?s (vi_step p ?s)" by auto
  then show ?case
  proof cases
    case 1
    then show ?thesis using ih by (simp add: run)
  next
    case 2
    then obtain nd where nd: "vi_roots (vi_step p ?s) = vi_roots ?s @ [nd]"
      "copied (last (vi_roots ?s)) (vi_allocated ?s) nd (vi_allocated (vi_step p ?s))" "vi_allocated (vi_step p ?s) \<le> vi_allocated ?s + 33"
      by (auto simp: grows_def)
    have ne: "vi_roots ?s \<noteq> []" using rel(1) by (auto simp: vi_rel_def)
    have "set (collect_addrs nd) - set (collect_addrs (last (vi_roots ?s))) \<subseteq> {vi_allocated ?s..<vi_allocated (vi_step p ?s)}"
      using nd(2) by (auto simp: copied_def)
    from card_mono [OF _ this] nd(3) have new: "card (set (collect_addrs nd) - set (collect_addrs (last (vi_roots ?s)))) \<le> 33" by simp
    have "card (set (collect_addrs ((vi_roots ?s @ [nd]) ! (v + 1))) - set (collect_addrs ((vi_roots ?s @ [nd]) ! v))) \<le> 33"
      if v: "v + 1 < length (vi_roots ?s @ [nd])" for v
    proof (cases "v + 1 < length (vi_roots ?s)")
      case True
      then show ?thesis using ih(2) by (simp add: nth_append)
    next
      case False
      then have "v + 1 = length (vi_roots ?s)" using v by simp
      moreover from this have "v = length (vi_roots ?s) - 1" by simp
      ultimately have "(vi_roots ?s @ [nd]) ! (v + 1) = nd" "(vi_roots ?s @ [nd]) ! v = last (vi_roots ?s)"
        using ne by (auto simp: nth_append last_conv_nth)
      then show ?thesis using new by simp
    qed
    then show ?thesis using nd(1,3) ih(1) unfolding run by simp
  qed
qed

section \<open>Later changes do not touch earlier answers\<close>

lemma step_past:
  assumes rel: "vi_rel s ss" and small: "length ss < 2 ^ 32" and ok: "vi_op_ok p" and later: "vi_stamp p > t"
  shows "version_at t (vi_step p s) = version_at t s" "recorded i (version_at t s) (vi_step p s) = recorded i (version_at t s) s"
    "vi_roots (vi_step p s) ! version_at t s = vi_roots s ! version_at t s"
proof -
  let ?s = "vi_step p s" and ?ss = "snap_step p ss"
  have rel': "vi_rel ?s ?ss" using step_correct [OF rel small ok] by blast
  have ne: "ss \<noteq> []" using rel by (simp add: vi_rel_def)
  have lt: "version_at t s < length ss" using version_at_snap [OF rel] by blast
  have grow: "?ss = ss \<or> (\<exists>m. ?ss = ss @ [(stamp (vi_stamp p) ss, m)])" by (cases p) (auto split: option.split)
  then have pre: "?ss ! version_at t s = ss ! version_at t s" "length ss \<le> length ?ss" using lt by (auto simp: nth_append)
  have "takeWhile (\<lambda>x. \<not> t < x) (vi_times ?s) = takeWhile (\<lambda>x. \<not> t < x) (vi_times s)"
  proof -
    have "vi_times ?s = map fst ?ss" "vi_times s = map fst ss" using rel rel' by (simp_all add: vi_rel_def)
    moreover have "stamp (vi_stamp p) ss > t" using later by (simp add: stamp_def)
    ultimately show ?thesis using grow by (auto simp: takeWhile_tail)
  qed
  then show "version_at t ?s = version_at t s" by (simp add: version_at_def)
  show "recorded i (version_at t s) ?s = recorded i (version_at t s) s"
    using rel rel' lt pre by (simp add: vi_rel_def)
  show "vi_roots ?s ! version_at t s = vi_roots s ! version_at t s"
    using step_correct [OF rel small ok] lt rel by (auto simp: grows_def nth_append vi_rel_def)
qed

lemma query_at_recorded:
  "query_at t q out s = out @ filter (\<lambda>i. case recorded i (version_at t s) s of None \<Rightarrow> False | Some va \<Rightarrow> in_force va t)
     (v_query_node q (vi_roots s ! version_at t s))"
  unfolding query_at_def Let_def append_same_eq
  by (intro arg_cong [of _ _ "(@) out"] filter_cong [OF refl]) (auto simp: recorded_def split: option.split)

lemma run_past:
  assumes "list_all vi_op_ok (ops @ later)" "length (ops @ later) < 2 ^ 32" "\<forall>p \<in> set later. vi_stamp p > t"
  shows "version_at t (vi_run (ops @ later)) = version_at t (vi_run ops) \<and>
    (\<forall>i. recorded i (version_at t (vi_run ops)) (vi_run (ops @ later)) = recorded i (version_at t (vi_run ops)) (vi_run ops)) \<and>
    vi_roots (vi_run (ops @ later)) ! version_at t (vi_run ops) = vi_roots (vi_run ops) ! version_at t (vi_run ops)"
  using assms
proof (induction later rule: rev_induct)
  case (snoc p later)
  have "vi_rel (vi_run (ops @ later)) (snap_run (ops @ later))" "length (snap_run (ops @ later)) < 2 ^ 32"
    using run_rel [of "ops @ later"] snoc.prems by auto
  from step_past [OF this, of p t] snoc show ?case by (simp add: vi_run_def)
qed simp

section \<open>The properties of the index\<close>

definition vi_demo :: "vi_op list" where
  "vi_demo = [VAdd 1 (Box 0 0 1 1) always 10, VAdd 2 (Box 5 5 6 6) always 12,
     VUpdate 1 \<lparr>v_from = 100, v_to = 200\<rparr> 20, VRemove 2 30]"

lemma vi_demo_ok: "list_all vi_op_ok vi_demo" "length vi_demo < 2 ^ 32"
  by (simp_all add: vi_demo_def bb_proper_def always_def kForever_def int64_max_def)

lemma snap_demo: "snap_at 15 (snap_run vi_demo) = [1 \<mapsto> (Box 0 0 1 1, always), 2 \<mapsto> (Box 5 5 6 6, always)]"
  "length (snap_run vi_demo) = 5"
  by (simp_all add: vi_demo_def snap_run_def snap_at_def stamp_def)

text \<open>C15: A question about time t is answered from the snapshot in force at t. After any sequence of valid additions,
  replacements, removals and validity changes the spatial query finds each zone once, exactly those of the snapshot
  whose box meets the query and whose validity covers t; the temporal query, through the tree of all historical
  intervals, finds exactly those in force; the validity and the number of zones are those of the snapshot.\<close>

theorem versioned_time_travel:
  assumes "list_all vi_op_ok ops" "length ops < 2 ^ 32"
  shows "distinct (query_at t q [] (vi_run ops)) \<and>
    set (query_at t q [] (vi_run ops)) = spec_hits t q (snap_at t (snap_run ops)) \<and>
    distinct (active_at t [] (vi_run ops)) \<and>
    set (active_at t [] (vi_run ops)) = spec_active t (snap_at t (snap_run ops)) \<and>
    validity_at i t (vi_run ops) = map_option snd (snap_at t (snap_run ops) i) \<and>
    zone_count_at t (vi_run ops) = card (dom (snap_at t (snap_run ops)))"
proof -
  have rel: "vi_rel (vi_run ops) (snap_run ops)" and small: "length (snap_run ops) \<le> 2 ^ 32" using run_rel [OF assms] assms(2) by auto
  show ?thesis using query_at_correct [OF rel, of t q] active_at_correct [OF rel small, of t] counted_at [OF rel, where t = t] by blast
qed

theorem versioned_time_travel_witness:
  "set (query_at 15 (Box 0 0 2 2) [] (vi_run vi_demo)) = {1} \<and> set (active_at 15 [] (vi_run vi_demo)) = {1, 2} \<and>
   validity_at 2 15 (vi_run vi_demo) = Some always"
  using versioned_time_travel [OF vi_demo_ok, of 15 "Box 0 0 2 2" 2]
  unfolding snap_demo spec_hits_def spec_active_def
  by (auto simp: in_force_def always_def kForever_def int64_max_def split: if_splits)

text \<open>History is not rewritten. Changes stamped after t leave the answers about t as they were, in the same order.\<close>

lemma versioned_past_kept:
  assumes "list_all vi_op_ok (ops @ later)" "length (ops @ later) < 2 ^ 32" "\<forall>p \<in> set later. vi_stamp p > t"
  shows "query_at t q out (vi_run (ops @ later)) = query_at t q out (vi_run ops) \<and>
    validity_at i t (vi_run (ops @ later)) = validity_at i t (vi_run ops) \<and>
    zone_count_at t (vi_run (ops @ later)) = zone_count_at t (vi_run ops)"
proof -
  have "validity_at i t s = recorded i (version_at t s) s" for s by (simp add: validity_at_def recorded_def)
  then show ?thesis using run_past [OF assms] by (simp add: query_at_recorded zone_count_at_def cong: option.case_cong)
qed

theorem versioned_past_kept_witness:
  "query_at 15 (Box 0 0 9 9) [] (vi_run (vi_demo @ [VRemove 1 40])) = query_at 15 (Box 0 0 9 9) [] (vi_run vi_demo)"
  using versioned_past_kept [of vi_demo "[VRemove 1 40]" 15 "Box 0 0 9 9" "[]" 1] vi_demo_ok by (simp add: vi_demo_def)

text \<open>The index passes its own audit after any valid sequence of changes: as many commit times as roots, in order; in every
  version each item lies in its node's region, the ids are distinct and are the zones that the history calls present.\<close>

lemma versioned_audit_holds:
  assumes "list_all vi_op_ok ops" "length ops < 2 ^ 32"
  shows "vi_check_invariants (vi_run ops)"
  using run_rel [OF assms] audit_correct by blast

theorem versioned_audit_holds_witness: "vi_check_invariants (vi_run vi_demo)"
  by (rule versioned_audit_holds [OF vi_demo_ok])

text \<open>A change costs at most 33 nodes, whatever the size of the index, and a version differs from the one before by at most
  33 nodes: every other node is the old one.\<close>

lemma versioned_sharing:
  assumes "list_all vi_op_ok ops" "length ops < 2 ^ 32" "v + 1 < version_count (vi_run ops)"
  shows "total_nodes_allocated (share_stats_of (vi_run ops)) \<le> 33 * length ops + 1 \<and>
    card (set (collect_addrs (vi_roots (vi_run ops) ! (v + 1))) - set (collect_addrs (vi_roots (vi_run ops) ! v))) \<le> 33"
  using grows_run [OF assms(1,2)] assms(3) by (simp add: share_stats_of_def version_count_def)

theorem versioned_sharing_witness:
  "total_nodes_allocated (share_stats_of (vi_run vi_demo)) \<le> 133 \<and>
   card (set (collect_addrs (vi_roots (vi_run vi_demo) ! 2)) - set (collect_addrs (vi_roots (vi_run vi_demo) ! 1))) \<le> 33"
proof -
  have "version_count (vi_run vi_demo) = 5" using run_rel [OF vi_demo_ok] snap_demo(2) by (simp add: version_count_def vi_rel_def)
  then show ?thesis using versioned_sharing [OF vi_demo_ok, of 1] by (simp add: vi_demo_def numeral_2_eq_2)
qed

end
