(* ===== verification/Zone_Store.thy ===== *)
theory Zone_Store
  imports Versioned_Index Digital_Id Polygon Json
begin

text \<open>
  Zones, their store and its GeoJSON file, \<^verbatim>\<open>include/safetrail/fence/zone.hpp\<close> and
  \<^verbatim>\<open>src/fence/zone.cpp\<close>. A removed zone stays in the store as a tombstone with the id \<open>kNoId\<close>. Reading
  works on the parsed document of \<open>Json\<close>; writing produces text, with the formatting of a double
  (\<open>Json::number\<close>, a \<open>printf\<close>) as the parameter \<open>fmt\<close>. A file is the optional text of a path. Every feature is
  read before any zone is added.
\<close>

datatype zone_kind = Restricted | Caution | Safe | Advisory

record zone =
  z_id :: zone_id
  z_kind :: zone_kind
  z_severity :: nat
  z_name :: string
  z_shape :: polygon
  z_synthetic :: bool
  z_jurisdiction :: nat
  z_max_dwell_ms :: millis
  z_validity :: time_validity
  z_enter_margin_m :: real
  z_exit_margin_m :: real

definition zone_default :: zone where
  "zone_default =
     \<lparr>z_id = kNoId, z_kind = Caution, z_severity = 1, z_name = [], z_shape = polygon_of [], z_synthetic = False,
      z_jurisdiction = kNoId, z_max_dwell_ms = 0, z_validity = always, z_enter_margin_m = 0, z_exit_margin_m = 0\<rparr>"

section \<open>The store\<close>

definition zs_add :: "zone list \<Rightarrow> zone \<Rightarrow> zone_id \<times> zone list" where
  "zs_add s z = (uint32_of (length s), s @ [z\<lparr>z_id := uint32_of (length s)\<rparr>])"

definition zs_remove :: "zone list \<Rightarrow> zone_id \<Rightarrow> bool \<times> zone list" where
  "zs_remove s i = (if i \<ge> length s then (False, s) else (True, s[i := (s ! i)\<lparr>z_id := kNoId\<rparr>]))"

definition zs_get :: "zone list \<Rightarrow> zone_id \<Rightarrow> zone option" where
  "zs_get s i = (if i < length s \<and> z_id (s ! i) \<noteq> kNoId then Some (s ! i) else None)"

text \<open>A write through the pointer that \<open>get_mut\<close> returns.\<close>

definition zs_modify :: "(zone \<Rightarrow> zone) \<Rightarrow> zone list \<Rightarrow> zone_id \<Rightarrow> zone list" where
  "zs_modify f s i = (if i < length s \<and> z_id (s ! i) \<noteq> kNoId then s[i := f (s ! i)] else s)"

definition zs_size :: "zone list \<Rightarrow> nat" where
  "zs_size s = length s"

definition zs_live :: "zone list \<Rightarrow> zone list" where
  "zs_live s = filter (\<lambda>z. z_id z \<noteq> kNoId) s"

definition zs_all_ids :: "zone list \<Rightarrow> zone_id list" where
  "zs_all_ids s = map z_id (zs_live s)"

section \<open>Reading\<close>

definition strip_closing_vertex :: "ring \<Rightarrow> ring" where
  "strip_closing_vertex r =
     (if length r \<ge> 2
      then (let f = hd r; l = last r
            in if \<bar>lat f - lat l\<bar> < 1 / 10 ^ 12 \<and> \<bar>lon f - lon l\<bar> < 1 / 10 ^ 12 then butlast r else r)
      else r)"

definition kind_from :: "string \<Rightarrow> zone_kind" where
  "kind_from s =
     (if s = ''restricted'' then Restricted else if s = ''safe'' then Safe
      else if s = ''advisory'' then Advisory else Caution)"

fun zone_kind_string :: "zone_kind \<Rightarrow> string" where
  "zone_kind_string Restricted = ''restricted''"
| "zone_kind_string Caution = ''caution''"
| "zone_kind_string Safe = ''safe''"
| "zone_kind_string Advisory = ''advisory''"

fun validity_string :: "validity \<Rightarrow> string" where
  "validity_string Ok = ''ok''"
| "validity_string TooFewVertices = ''too few vertices''"
| "validity_string SelfIntersecting = ''self-intersecting''"
| "validity_string ZeroArea = ''zero area''"
| "validity_string HoleTooFewVertices = ''hole has too few vertices''"
| "validity_string HoleSelfIntersecting = ''hole is self-intersecting''"
| "validity_string HoleZeroArea = ''hole has zero area''"
| "validity_string HoleOutsideOuter = ''hole outside outer ring''"
| "validity_string HoleCrossesOuter = ''hole crosses the outer boundary''"
| "validity_string HolesOverlap = ''holes overlap''"

text \<open>The members \<open>arr\<close> and \<open>num\<close> of a value are empty and zero when it is of another type.\<close>

definition json_arr :: "json \<Rightarrow> json list" where
  "json_arr j = (case j of JArray xs \<Rightarrow> xs | _ \<Rightarrow> [])"

definition json_num :: "json \<Rightarrow> real" where
  "json_num j = (case j of JNumber x \<Rightarrow> x | _ \<Rightarrow> 0)"

definition is_array :: "json \<Rightarrow> bool" where
  "is_array j = (case j of JArray xs \<Rightarrow> True | _ \<Rightarrow> False)"

text \<open>The conversion of a double to an integer type truncates towards zero.\<close>

definition trunc_real :: "real \<Rightarrow> int" where
  "trunc_real v = (if v \<ge> 0 then \<lfloor>v\<rfloor> else \<lceil>v\<rceil>)"

definition kMaxSeconds :: real where
  "kMaxSeconds = 9000000000000000"

text \<open>A number in its range, or the lower bound once any field was bad; the last bad field is reported.\<close>

definition num_field :: "json \<Rightarrow> real \<Rightarrow> real \<Rightarrow> string \<Rightarrow> string \<Rightarrow> real \<times> string" where
  "num_field j lo hi what bad =
     (let v = number_or j lo; bad = (if v \<ge> lo \<and> v \<le> hi then bad else what)
      in (if bad = [] then v else lo, bad))"

definition with_num :: "json \<Rightarrow> string \<Rightarrow> real \<Rightarrow> real \<Rightarrow> string \<Rightarrow> (real \<Rightarrow> zone \<Rightarrow> zone) \<Rightarrow> zone \<times> string \<Rightarrow> zone \<times> string" where
  "with_num props k lo hi what upd zb =
     (case json_find props k of
        None \<Rightarrow> zb
      | Some j \<Rightarrow> (let (v, bad) = num_field j lo hi what (snd zb) in (upd v (fst zb), bad)))"

definition with_field :: "json \<Rightarrow> string \<Rightarrow> (json \<Rightarrow> zone \<Rightarrow> zone) \<Rightarrow> zone \<times> string \<Rightarrow> zone \<times> string" where
  "with_field props k upd zb = (case json_find props k of None \<Rightarrow> zb | Some j \<Rightarrow> (upd j (fst zb), snd zb))"

definition set_from :: "timestamp \<Rightarrow> time_validity \<Rightarrow> time_validity" where
  "set_from t v = v\<lparr>v_from := t\<rparr>"

definition set_to :: "timestamp \<Rightarrow> time_validity \<Rightarrow> time_validity" where
  "set_to t v = v\<lparr>v_to := t\<rparr>"

definition read_props :: "json \<Rightarrow> zone \<times> string" where
  "read_props props =
     (let zb = (zone_default, []);
          zb = with_field props ''name'' (\<lambda>j z. z\<lparr>z_name := string_or j []\<rparr>) zb;
          zb = with_field props ''kind'' (\<lambda>j z. z\<lparr>z_kind := kind_from (string_or j ''caution'')\<rparr>) zb;
          zb = with_num props ''severity'' 1 5 ''severity must be 1..5'' (\<lambda>v z. z\<lparr>z_severity := nat (trunc_real v)\<rparr>) zb;
          zb = with_num props ''max_dwell_s'' 0 kMaxSeconds ''max_dwell_s out of range''
                 (\<lambda>v z. z\<lparr>z_max_dwell_ms := trunc_real (v * 1000)\<rparr>) zb;
          zb = with_num props ''active_from_s'' (- kMaxSeconds) kMaxSeconds ''active_from_s out of range''
                 (\<lambda>v z. z\<lparr>z_validity := set_from (trunc_real (v * 1000)) (z_validity z)\<rparr>) zb;
          zb = with_num props ''active_to_s'' (- kMaxSeconds) kMaxSeconds ''active_to_s out of range''
                 (\<lambda>v z. z\<lparr>z_validity := set_to (trunc_real (v * 1000)) (z_validity z)\<rparr>) zb;
          zb = with_field props ''synthetic'' (\<lambda>j z. z\<lparr>z_synthetic := bool_or j False\<rparr>) zb;
          zb = with_num props ''jurisdiction'' 0 (real kNoId) ''jurisdiction out of range''
                 (\<lambda>v z. z\<lparr>z_jurisdiction := nat (trunc_real v)\<rparr>) zb;
          zb = with_num props ''enter_margin_m'' 0 1000000 ''enter_margin_m out of range'' (\<lambda>v z. z\<lparr>z_enter_margin_m := v\<rparr>) zb
      in with_num props ''exit_margin_m'' 0 1000000 ''exit_margin_m out of range'' (\<lambda>v z. z\<lparr>z_exit_margin_m := v\<rparr>) zb)"

text \<open>GeoJSON positions are [lon, lat].\<close>

definition read_ring :: "json \<Rightarrow> ring" where
  "read_ring j = strip_closing_vertex
     (map (\<lambda>pt. \<lparr>lat = json_num (json_arr pt ! 1), lon = json_num (json_arr pt ! 0)\<rparr>)
       (filter (\<lambda>pt. length (json_arr pt) \<ge> 2) (json_arr j)))"

definition read_holes :: "json list \<Rightarrow> polygon \<Rightarrow> polygon" where
  "read_holes js pg = foldl (\<lambda>pg j. let h = read_ring j in if length h \<ge> 3 then add_hole pg h else pg) pg js"

definition zone_error :: "zone \<Rightarrow> string \<Rightarrow> string" where
  "zone_error z what = ''zone '' @ [CHR 0x27] @ z_name z @ [CHR 0x27] @ '': '' @ what"

definition on_domain :: "ring \<Rightarrow> bool" where
  "on_domain r = list_all ll_valid r"

text \<open>One feature: an error, nothing (the feature is skipped), or a zone.\<close>

definition read_feature :: "json \<Rightarrow> string + zone option" where
  "read_feature f =
     (case json_find f ''geometry'' of
        None \<Rightarrow> Inr None
      | Some geom \<Rightarrow>
          (case json_find geom ''coordinates'' of
             None \<Rightarrow> Inr None
           | Some coords \<Rightarrow>
               if \<not> is_array coords \<or> json_arr coords = [] then Inr None
               else
                 (let (z, bad) = (case json_find f ''properties'' of None \<Rightarrow> (zone_default, []) | Some props \<Rightarrow> read_props props) in
                  if bad \<noteq> [] then Inl (zone_error z bad)
                  else
                    (let ring = read_ring (hd (json_arr coords)) in
                     if length ring < 3 then Inr None
                     else
                       (let shape = read_holes (tl (json_arr coords)) (polygon_of ring);
                            z = z\<lparr>z_shape := shape\<rparr>
                        in if \<not> (on_domain (outer shape) \<and> list_all on_domain (holes shape))
                           then Inl (zone_error z ''coordinate not finite or outside lat/lon range'')
                           else case validate shape of
                                  Ok \<Rightarrow> Inr (Some z)
                                | v \<Rightarrow> Inl (zone_error z (validity_string v)))))))"

fun read_features :: "json list \<Rightarrow> zone list \<Rightarrow> string option \<times> zone list" where
  "read_features [] out = (None, out)"
| "read_features (f # fs) out =
     (case read_feature f of
        Inl e \<Rightarrow> (Some e, out)
      | Inr None \<Rightarrow> read_features fs out
      | Inr (Some z) \<Rightarrow> read_features fs (out @ [z]))"

definition parse_features :: "json \<Rightarrow> zone list \<Rightarrow> string option \<times> zone list" where
  "parse_features j out =
     (case json_find j ''features'' of
        None \<Rightarrow> (Some ''no features array'', out)
      | Some feats \<Rightarrow> if \<not> is_array feats then (Some ''no features array'', out) else read_features (json_arr feats) out)"

definition parse_geojson :: "string \<Rightarrow> zone list \<Rightarrow> string option \<times> zone list" where
  "parse_geojson text out =
     (case json_parse text of
        Done j _ \<Rightarrow> parse_features j out
      | Fail e \<Rightarrow> (Some e, out)
      | NoFuel \<Rightarrow> (Some [], out))"

text \<open>The result is the error, if any, and the store.\<close>

definition load_geojson :: "string \<Rightarrow> string option \<Rightarrow> zone list \<Rightarrow> string option \<times> zone list" where
  "load_geojson path file s =
     (case file of
        None \<Rightarrow> (Some (''cannot open '' @ path), s)
      | Some text \<Rightarrow>
          (case parse_geojson text [] of
             (Some e, _) \<Rightarrow> (Some e, s)
           | (None, parsed) \<Rightarrow> (None, foldl (\<lambda>s z. snd (zs_add s z)) s parsed)))"

section \<open>Writing\<close>

definition quoted :: "string \<Rightarrow> string" where
  "quoted s = CHR 0x22 # s @ [CHR 0x22]"

definition write_point :: "(real \<Rightarrow> string) \<Rightarrow> lat_lon \<Rightarrow> string" where
  "write_point fmt p = ''['' @ fmt (lon p) @ '','' @ fmt (lat p) @ '']''"

fun write_points :: "(real \<Rightarrow> string) \<Rightarrow> bool \<Rightarrow> ring \<Rightarrow> string" where
  "write_points fmt sep [] = []"
| "write_points fmt sep (p # ps) = (if sep then '','' else []) @ write_point fmt p @ write_points fmt True ps"

definition write_ring :: "(real \<Rightarrow> string) \<Rightarrow> ring \<Rightarrow> string" where
  "write_ring fmt r =
     ''['' @ write_points fmt False r @ (if r \<noteq> [] then '','' @ write_point fmt (hd r) else []) @ '']''"

definition member_if :: "bool \<Rightarrow> string \<Rightarrow> string \<Rightarrow> string" where
  "member_if c k v = (if c then '','' @ quoted k @ '':'' @ v else [])"

definition write_zone :: "(real \<Rightarrow> string) \<Rightarrow> zone \<Rightarrow> string" where
  "write_zone fmt z =
     ''{'' @ quoted ''type'' @ '':'' @ quoted ''Feature'' @ '','' @ quoted ''properties'' @ '':{'' @
     quoted ''name'' @ '':'' @ json_escape (z_name z) @
     '','' @ quoted ''kind'' @ '':'' @ quoted (zone_kind_string (z_kind z)) @
     '','' @ quoted ''severity'' @ '':'' @ dec_string (z_severity z) @
     '','' @ quoted ''synthetic'' @ '':'' @ (if z_synthetic z then ''true'' else ''false'') @
     member_if (z_max_dwell_ms z > 0) ''max_dwell_s'' (fmt (of_int (z_max_dwell_ms z) / 1000)) @
     member_if (v_from (z_validity z) \<noteq> 0) ''active_from_s'' (fmt (of_int (v_from (z_validity z)) / 1000)) @
     member_if (v_to (z_validity z) \<noteq> kForever) ''active_to_s'' (fmt (of_int (v_to (z_validity z)) / 1000)) @
     member_if (z_jurisdiction z \<noteq> kNoId) ''jurisdiction'' (dec_string (z_jurisdiction z)) @
     member_if (z_enter_margin_m z > 0) ''enter_margin_m'' (fmt (z_enter_margin_m z)) @
     member_if (z_exit_margin_m z > 0) ''exit_margin_m'' (fmt (z_exit_margin_m z)) @
     ''},'' @ quoted ''geometry'' @ '':{'' @ quoted ''type'' @ '':'' @ quoted ''Polygon'' @ '','' @ quoted ''coordinates'' @ '':['' @
     write_ring fmt (outer (z_shape z)) @ concat (map (\<lambda>h. '','' @ write_ring fmt h) (holes (z_shape z))) @ '']}}''"

fun write_zones :: "(real \<Rightarrow> string) \<Rightarrow> bool \<Rightarrow> zone list \<Rightarrow> string" where
  "write_zones fmt first [] = []"
| "write_zones fmt first (z # zs) =
     (if z_id z = kNoId then write_zones fmt first zs
      else (if first then [] else '','') @ write_zone fmt z @ write_zones fmt False zs)"

definition save_geojson :: "(real \<Rightarrow> string) \<Rightarrow> zone list \<Rightarrow> string" where
  "save_geojson fmt s =
     ''{'' @ quoted ''type'' @ '':'' @ quoted ''FeatureCollection'' @ '','' @ quoted ''features'' @ '':['' @
     write_zones fmt True s @ '']}''"

section \<open>The text of a store as a document\<close>

lemma separated_concat: "separated (x # xs) = x @ concat (map (\<lambda>y. '','' @ y) xs)"
  by (induction xs arbitrary: x) auto

lemma separated_append: "xs \<noteq> [] \<Longrightarrow> separated (xs @ ys) = separated xs @ concat (map (\<lambda>y. '','' @ y) ys)"
  by (cases xs) (simp_all add: separated_concat)

definition plain_name :: "string \<Rightarrow> bool" where
  "plain_name s \<longleftrightarrow> (\<forall>c \<in> set s. escape_char c = [c])"

lemma escape_plain: "plain_name s \<Longrightarrow> json_escape s = quoted s"
  by (induction s) (auto simp: plain_name_def json_escape_def quoted_def)

definition pm :: "string \<Rightarrow> doc \<Rightarrow> string \<times> string \<times> string \<times> string \<times> doc \<times> string" where
  "pm k d = ([], k, [], [], d, [])"

definition pm_if :: "bool \<Rightarrow> string \<Rightarrow> doc \<Rightarrow> (string \<times> string \<times> string \<times> string \<times> doc \<times> string) list" where
  "pm_if c k d = (if c then [pm k d] else [])"

definition nat_doc :: "nat \<Rightarrow> doc" where
  "nat_doc n = DNumber \<lparr>nt_neg = False, nt_int = dec_string n, nt_frac = None, nt_exp = None\<rparr>"

definition point_doc :: "(real \<Rightarrow> numeral_text) \<Rightarrow> lat_lon \<Rightarrow> doc" where
  "point_doc nt p = DArray [] [([], DNumber (nt (lon p)), []), ([], DNumber (nt (lat p)), [])]"

definition ring_doc :: "(real \<Rightarrow> numeral_text) \<Rightarrow> ring \<Rightarrow> doc" where
  "ring_doc nt r = DArray [] (map (\<lambda>p. ([], point_doc nt p, [])) (r @ [hd r]))"

definition props_doc :: "(real \<Rightarrow> numeral_text) \<Rightarrow> zone \<Rightarrow> doc" where
  "props_doc nt z = DObject []
     ([pm ''name'' (DString (z_name z)), pm ''kind'' (DString (zone_kind_string (z_kind z))),
       pm ''severity'' (nat_doc (z_severity z)), pm ''synthetic'' (DBool (z_synthetic z))] @
      pm_if (z_max_dwell_ms z > 0) ''max_dwell_s'' (DNumber (nt (of_int (z_max_dwell_ms z) / 1000))) @
      pm_if (v_from (z_validity z) \<noteq> 0) ''active_from_s'' (DNumber (nt (of_int (v_from (z_validity z)) / 1000))) @
      pm_if (v_to (z_validity z) \<noteq> kForever) ''active_to_s'' (DNumber (nt (of_int (v_to (z_validity z)) / 1000))) @
      pm_if (z_jurisdiction z \<noteq> kNoId) ''jurisdiction'' (nat_doc (z_jurisdiction z)) @
      pm_if (z_enter_margin_m z > 0) ''enter_margin_m'' (DNumber (nt (z_enter_margin_m z))) @
      pm_if (z_exit_margin_m z > 0) ''exit_margin_m'' (DNumber (nt (z_exit_margin_m z))))"

definition geometry_doc :: "(real \<Rightarrow> numeral_text) \<Rightarrow> polygon \<Rightarrow> doc" where
  "geometry_doc nt pg = DObject [] [pm ''type'' (DString ''Polygon''),
     pm ''coordinates'' (DArray [] (map (\<lambda>r. ([], ring_doc nt r, [])) (outer pg # holes pg)))]"

definition zone_doc :: "(real \<Rightarrow> numeral_text) \<Rightarrow> zone \<Rightarrow> doc" where
  "zone_doc nt z = DObject [] [pm ''type'' (DString ''Feature''), pm ''properties'' (props_doc nt z),
     pm ''geometry'' (geometry_doc nt (z_shape z))]"

definition store_doc :: "(real \<Rightarrow> numeral_text) \<Rightarrow> zone list \<Rightarrow> doc" where
  "store_doc nt s = DObject [] [pm ''type'' (DString ''FeatureCollection''),
     pm ''features'' (DArray [] (map (\<lambda>z. ([], zone_doc nt z, [])) (zs_live s)))]"

lemma plain_names: "plain_name ''type''" "plain_name ''features''" "plain_name ''FeatureCollection''" "plain_name ''Feature''"
  "plain_name ''properties''" "plain_name ''geometry''" "plain_name ''Polygon''" "plain_name ''coordinates''"
  "plain_name ''name''" "plain_name ''kind''" "plain_name ''severity''" "plain_name ''synthetic''" "plain_name ''max_dwell_s''"
  "plain_name ''active_from_s''" "plain_name ''active_to_s''" "plain_name ''jurisdiction''" "plain_name ''enter_margin_m''"
  "plain_name ''exit_margin_m''" "plain_name ''restricted''" "plain_name ''caution''" "plain_name ''safe''" "plain_name ''advisory''"
  by (simp_all add: plain_name_def escape_char_def code_def)

lemma plain_kind: "plain_name (zone_kind_string k)"
  by (cases k) (simp_all add: plain_names)

lemma render_object: "ms \<noteq> [] \<Longrightarrow> render (DObject w ms) = ''{'' @ separated (map member_text ms) @ ''}''"
  by (simp add: member_text_def cong: map_cong)

lemma member_pm: "plain_name k \<Longrightarrow> member_text (pm k d) = quoted k @ '':'' @ render d"
  by (simp add: member_text_def pm_def escape_plain)

lemma members_pm_if: "plain_name k \<Longrightarrow> concat (map ((#) CHR '','' \<circ> member_text) (pm_if c k d)) = member_if c k (render d)"
  by (simp add: pm_if_def member_if_def member_pm)

lemma render_nat: "render (nat_doc n) = dec_string n"
  by (simp add: nat_doc_def numeral_string_def frac_text_def exp_text_def)

lemma render_point: "render (point_doc nt p) = write_point (\<lambda>x. numeral_string (nt x)) p"
  by (simp add: point_doc_def write_point_def)

lemma write_points_concat: "write_points fmt True r = concat (map (\<lambda>p. '','' @ write_point fmt p) r)"
  by (induction r) auto

lemma render_ring: "r \<noteq> [] \<Longrightarrow> render (ring_doc nt r) = write_ring (\<lambda>x. numeral_string (nt x)) r"
  by (cases r) (simp_all add: ring_doc_def write_ring_def comp_def render_point separated_concat write_points_concat)

lemma render_props:
  "render (props_doc nt z) =
     (let fmt = \<lambda>x. numeral_string (nt x) in
     ''{'' @ quoted ''name'' @ '':'' @ json_escape (z_name z) @
     '','' @ quoted ''kind'' @ '':'' @ quoted (zone_kind_string (z_kind z)) @
     '','' @ quoted ''severity'' @ '':'' @ dec_string (z_severity z) @
     '','' @ quoted ''synthetic'' @ '':'' @ (if z_synthetic z then ''true'' else ''false'') @
     member_if (z_max_dwell_ms z > 0) ''max_dwell_s'' (fmt (of_int (z_max_dwell_ms z) / 1000)) @
     member_if (v_from (z_validity z) \<noteq> 0) ''active_from_s'' (fmt (of_int (v_from (z_validity z)) / 1000)) @
     member_if (v_to (z_validity z) \<noteq> kForever) ''active_to_s'' (fmt (of_int (v_to (z_validity z)) / 1000)) @
     member_if (z_jurisdiction z \<noteq> kNoId) ''jurisdiction'' (dec_string (z_jurisdiction z)) @
     member_if (z_enter_margin_m z > 0) ''enter_margin_m'' (fmt (z_enter_margin_m z)) @
     member_if (z_exit_margin_m z > 0) ''exit_margin_m'' (fmt (z_exit_margin_m z)) @ ''}'')"
  unfolding props_doc_def Let_def
  by (subst render_object) (simp_all add: separated_append members_pm_if member_pm plain_names plain_kind escape_plain render_nat
      separated_concat del: render.simps(6))

lemma write_zones_live: "write_zones fmt False s = concat (map (\<lambda>z. '','' @ write_zone fmt z) (zs_live s))"
  "write_zones fmt True s = separated (map (write_zone fmt) (zs_live s))"
proof -
  show f: "write_zones fmt False s = concat (map (\<lambda>z. '','' @ write_zone fmt z) (zs_live s))" for s
    by (induction s) (auto simp: zs_live_def)
  show "write_zones fmt True s = separated (map (write_zone fmt) (zs_live s))"
    by (induction s) (auto simp: zs_live_def f separated_concat comp_def)
qed

lemma render_zone:
  assumes "[] \<notin> set (outer (z_shape z) # holes (z_shape z))"
  shows "render (zone_doc nt z) = write_zone (\<lambda>x. numeral_string (nt x)) z"
proof -
  have r: "render (ring_doc nt x) = write_ring (\<lambda>x. numeral_string (nt x)) x" if "x \<in> set (outer (z_shape z) # holes (z_shape z))" for x
    using that assms by (intro render_ring) metis
  have "render (geometry_doc nt (z_shape z)) =
      ''{'' @ quoted ''type'' @ '':'' @ quoted ''Polygon'' @ '','' @ quoted ''coordinates'' @ '':['' @
      write_ring (\<lambda>x. numeral_string (nt x)) (outer (z_shape z)) @
      concat (map (\<lambda>h. '','' @ write_ring (\<lambda>x. numeral_string (nt x)) h) (holes (z_shape z))) @ '']}''"
    unfolding geometry_doc_def using assms
    by (subst render_object) (auto simp: member_pm plain_names escape_plain separated_concat comp_def r
        intro!: arg_cong [of _ _ concat] map_cong simp del: render.simps(6))
  then show ?thesis unfolding zone_doc_def
    by (subst render_object) (simp_all add: member_pm plain_names escape_plain separated_concat render_props write_zone_def Let_def del: render.simps(6))
qed

definition rings_nonempty :: "zone \<Rightarrow> bool" where
  "rings_nonempty z \<longleftrightarrow> [] \<notin> set (outer (z_shape z) # holes (z_shape z))"

lemma render_store:
  assumes "\<forall>z \<in> set (zs_live s). rings_nonempty z"
  shows "render (store_doc nt s) = save_geojson (\<lambda>x. numeral_string (nt x)) s"
proof -
  have "map (\<lambda>z. render (zone_doc nt z)) (zs_live s) = map (write_zone (\<lambda>x. numeral_string (nt x))) (zs_live s)"
    using assms by (intro map_cong refl render_zone) (simp add: rings_nonempty_def)
  then show ?thesis unfolding store_doc_def save_geojson_def
    by (subst render_object) (simp_all add: member_pm plain_names escape_plain separated_concat write_zones_live comp_def
        del: render.simps(6) cong: map_cong)
qed

section \<open>Numbers and nesting\<close>

lemma dec_string_head: "hd (dec_string n) = CHR ''0'' \<Longrightarrow> length (dec_string n) = 1"
proof (induction n rule: dec_string.induct)
  case (1 n)
  show ?case
  proof (cases "n < 10")
    case True
    then show ?thesis by (subst dec_string.simps) simp
  next
    case False
    then have d: "dec_string n = dec_string (n div 10) @ [char_of (48 + n mod 10)]" by (subst dec_string.simps) simp
    then have "hd (dec_string (n div 10)) = CHR ''0''" using "1.prems" dec_string_nonempty [of "n div 10"] by simp
    then have l: "length (dec_string (n div 10)) = 1" using "1.IH" [OF False] by blast
    then have small: "n div 10 < 10"
      using dec_string_nonempty [of "n div 10 div 10"] by (cases "n div 10 < 10") (simp_all add: dec_string.simps [of "n div 10"])
    then have "dec_string (n div 10) = [char_of (48 + n div 10)]" by (simp add: dec_string.simps [of "n div 10"])
    then have "(of_char (char_of (48 + n div 10) :: char) :: nat) = 48"
      using \<open>hd (dec_string (n div 10)) = CHR ''0''\<close> by simp
    then have "n div 10 = 0" using small by (simp add: of_char_of)
    then show ?thesis using False by simp
  qed
qed

lemma dec_string_json: "\<forall>c \<in> set (dec_string n). Json.is_digit c"
  using dec_string_digits by (auto simp: Json.is_digit_def Digital_Id.is_digit_def code_def)

lemma nat_doc_ok: "doc_ok (nat_doc n)"
  using dec_string_json dec_string_head by (simp add: nat_doc_def numeral_ok_def digits_ok_def dec_string_nonempty)

lemma meaning_nat: "meaning (nat_doc n) = JNumber (real n)"
proof -
  have t: "takeWhile Json.is_digit (dec_string n) = dec_string n" "skip_digits (dec_string n) = []"
    using dec_string_json by (simp_all add: takeWhile_eq_all_conv skip_digits_def)
  have "Json.is_digit (hd (dec_string n))" using dec_string_json dec_string_nonempty hd_in_set by blast
  then have h: "hd (dec_string n) \<noteq> CHR ''-''" by (auto simp: Json.is_digit_def code_def)
  have "digits_value ds = dec_value ds" for ds
    by (simp add: digits_value_def dec_value_def code_def mult.commute)
  then have "digits_value (dec_string n) = n" using dec_value_string by simp
  then show ?thesis
    using h by (simp add: t nat_doc_def numeral_string_def frac_text_def exp_text_def strtod_def scale10_def Let_def del: takeWhile_eq_all_conv)
qed

lemma nesting_array: "(\<And>a d b. (a, d, b) \<in> set xs \<Longrightarrow> nesting d \<le> n) \<Longrightarrow> nesting (DArray w xs) \<le> n + 1"
  by auto

lemma nesting_object: "(\<And>a k b c d e. (a, k, b, c, d, e) \<in> set ms \<Longrightarrow> nesting d \<le> n) \<Longrightarrow> nesting (DObject w ms) \<le> n + 1"
  by auto

lemma nesting_ring: "nesting (ring_doc nt r) \<le> 3"
proof -
  have "nesting (point_doc nt p) \<le> 1 + 1" for p unfolding point_doc_def by (rule nesting_array) auto
  then have "nesting (point_doc nt p) \<le> 2" for p unfolding one_add_one .
  then have "nesting (ring_doc nt r) \<le> 2 + 1" unfolding ring_doc_def by (intro nesting_array) auto
  then show ?thesis by simp
qed

lemma nesting_props: "nesting (props_doc nt z) \<le> 1 + 1"
  unfolding props_doc_def by (rule nesting_object) (auto simp: pm_def pm_if_def nat_doc_def split: if_splits)

lemma nesting_geometry: "nesting (geometry_doc nt pg) \<le> 3 + 1 + 1"
proof -
  have "nesting (DArray [] (map (\<lambda>r. ([], ring_doc nt r, [])) (outer pg # holes pg))) \<le> 3 + 1"
    using nesting_ring [of nt] by (intro nesting_array) auto
  then show ?thesis unfolding geometry_doc_def by (intro nesting_object) (auto simp: pm_def)
qed

lemma nesting_store: "nesting (store_doc nt s) \<le> kMaxDepth"
proof -
  have z: "nesting (zone_doc nt z) \<le> 5 + 1" for z
    unfolding zone_doc_def using nesting_props [of nt z] nesting_geometry [of nt "z_shape z"]
    by (intro nesting_object) (auto simp: pm_def)
  then have "nesting (DArray [] (map (\<lambda>z. ([], zone_doc nt z, [])) (zs_live s))) \<le> 6 + 1" by (intro nesting_array) auto
  then have "nesting (store_doc nt s) \<le> 7 + 1" unfolding store_doc_def by (intro nesting_object) (auto simp: pm_def)
  then show ?thesis by (simp add: kMaxDepth_def)
qed

section \<open>Reading back what was written\<close>

definition zone_numbers :: "zone \<Rightarrow> real set" where
  "zone_numbers z =
     {of_int (z_max_dwell_ms z) / 1000, of_int (v_from (z_validity z)) / 1000, z_enter_margin_m z, z_exit_margin_m z} \<union>
     (if v_to (z_validity z) = kForever then {} else {of_int (v_to (z_validity z)) / 1000}) \<union>
     (\<Union>r \<in> set (outer (z_shape z) # holes (z_shape z)). lat ` set r \<union> lon ` set r)"

text \<open>The formatter writes a JSON numeral that reads back as the number.\<close>

definition prints :: "(real \<Rightarrow> numeral_text) \<Rightarrow> real \<Rightarrow> bool" where
  "prints nt x \<longleftrightarrow> numeral_ok (nt x) \<and> strtod (numeral_string (nt x)) = x"

definition storable :: "zone \<Rightarrow> bool" where
  "storable z \<longleftrightarrow>
     1 \<le> z_severity z \<and> z_severity z \<le> 5 \<and> 0 \<le> z_max_dwell_ms z \<and> z_max_dwell_ms z \<le> 9000000000000000000 \<and>
     \<bar>v_from (z_validity z)\<bar> \<le> 9000000000000000000 \<and>
     (v_to (z_validity z) = kForever \<or> \<bar>v_to (z_validity z)\<bar> \<le> 9000000000000000000) \<and>
     z_jurisdiction z \<le> kNoId \<and> 0 \<le> z_enter_margin_m z \<and> z_enter_margin_m z \<le> 1000000 \<and>
     0 \<le> z_exit_margin_m z \<and> z_exit_margin_m z \<le> 1000000 \<and>
     z_shape z = foldl add_hole (polygon_of (outer (z_shape z))) (holes (z_shape z)) \<and>
     on_domain (outer (z_shape z)) \<and> list_all on_domain (holes (z_shape z)) \<and> validate (z_shape z) = Ok"

lemma validate_rings: "validate pg = Ok \<Longrightarrow> length (outer pg) \<ge> 3 \<and> (\<forall>h \<in> set (holes pg). length h \<ge> 3)"
proof -
  assume v: "validate pg = Ok"
  have "validate_holes out hs = Ok \<Longrightarrow> \<forall>h \<in> set hs. length h \<ge> 3" for out hs
    by (induction out hs rule: validate_holes.induct) (auto split: if_splits)
  then show ?thesis using v by (auto simp: validate_def split: if_splits validity.splits)
qed

lemma trunc_thousand: "trunc_real (of_int n / 1000 * 1000) = n" "trunc_real (of_int n) = n"
  by (simp_all add: trunc_real_def)

lemma trunc_nat: "nat (trunc_real (real n)) = n"
  by (simp add: trunc_real_def)

lemma find_member: "find_key k ((k', v) # rest) = (if k' = k then Some v else find_key k rest)"
  by simp

definition meaning_member :: "string \<times> string \<times> string \<times> string \<times> doc \<times> string \<Rightarrow> string \<times> json" where
  "meaning_member m = (case m of (a, k, b, c, d, e) \<Rightarrow> (k, meaning d))"

lemma meaning_object: "meaning (DObject w ms) = JObject (map meaning_member ms)"
  by (simp add: meaning_member_def cong: map_cong)

lemma meaning_pm: "meaning_member (pm k d) = (k, meaning d)"
  by (simp add: meaning_member_def pm_def)

lemma find_pm_if: "find_key k (map meaning_member (pm_if c k' d) @ rest) = (if c \<and> k' = k then Some (meaning d) else find_key k rest)"
  "find_key k (map meaning_member (pm_if c k' d)) = (if c \<and> k' = k then Some (meaning d) else None)"
  by (simp_all add: pm_if_def meaning_pm)

lemma with_num_found:
  "json_find props k = (if c then Some (JNumber v) else None) \<Longrightarrow> (c \<longrightarrow> lo \<le> v \<and> v \<le> hi) \<Longrightarrow>
   with_num props k lo hi what upd (z, []) = (if c then upd v z else z, [])"
  by (auto simp: with_num_def num_field_def number_or_def)

lemma with_field_found: "json_find props k = Some j \<Longrightarrow> with_field props k upd zb = (upd j (fst zb), snd zb)"
  by (simp add: with_field_def)

lemma kind_from_string: "kind_from (zone_kind_string k) = k"
  by (cases k) (simp_all add: kind_from_def)

lemma validity_upd: "set_to b (set_from a v) = \<lparr>v_from = a, v_to = b\<rparr>"
  by (cases v) (simp add: set_to_def set_from_def)

lemma if_update:
  "(if c then z\<lparr>z_max_dwell_ms := x\<rparr> else z) = z\<lparr>z_max_dwell_ms := if c then x else z_max_dwell_ms z\<rparr>"
  "(if c then z\<lparr>z_validity := y\<rparr> else z) = z\<lparr>z_validity := if c then y else z_validity z\<rparr>"
  "(if c then z\<lparr>z_jurisdiction := n\<rparr> else z) = z\<lparr>z_jurisdiction := if c then n else z_jurisdiction z\<rparr>"
  "(if c then z\<lparr>z_enter_margin_m := r\<rparr> else z) = z\<lparr>z_enter_margin_m := if c then r else z_enter_margin_m z\<rparr>"
  "(if c then z\<lparr>z_exit_margin_m := r\<rparr> else z) = z\<lparr>z_exit_margin_m := if c then r else z_exit_margin_m z\<rparr>"
  by simp_all

lemma read_props_written:
  assumes st: "storable z" and nt: "\<forall>x \<in> zone_numbers z. prints nt x"
  shows "read_props (meaning (props_doc nt z)) = (z\<lparr>z_id := kNoId, z_shape := polygon_of []\<rparr>, [])"
proof -
  let ?p = "meaning (props_doc nt z)"
  have num: "meaning (DNumber (nt x)) = JNumber x" if "x \<in> zone_numbers z" for x using nt that by (simp add: prints_def)
  have nums: "of_int (z_max_dwell_ms z) / 1000 \<in> zone_numbers z" "of_int (v_from (z_validity z)) / 1000 \<in> zone_numbers z"
    "v_to (z_validity z) \<noteq> kForever \<Longrightarrow> of_int (v_to (z_validity z)) / 1000 \<in> zone_numbers z" "z_enter_margin_m z \<in> zone_numbers z" "z_exit_margin_m z \<in> zone_numbers z"
    by (simp_all add: zone_numbers_def)
  note look = props_doc_def meaning_object json_find_def find_pm_if meaning_pm meaning_nat num [OF nums(1)] num [OF nums(2)]
    num [OF nums(3)] num [OF nums(4)] num [OF nums(5)]
  have f: "json_find ?p ''name'' = Some (JString (z_name z))"
    "json_find ?p ''kind'' = Some (JString (zone_kind_string (z_kind z)))"
    "json_find ?p ''severity'' = (if True then Some (JNumber (real (z_severity z))) else None)"
    "json_find ?p ''max_dwell_s'' = (if z_max_dwell_ms z > 0 then Some (JNumber (of_int (z_max_dwell_ms z) / 1000)) else None)"
    "json_find ?p ''active_from_s'' = (if v_from (z_validity z) \<noteq> 0 then Some (JNumber (of_int (v_from (z_validity z)) / 1000)) else None)"
    "json_find ?p ''active_to_s'' = (if v_to (z_validity z) \<noteq> kForever then Some (JNumber (of_int (v_to (z_validity z)) / 1000)) else None)"
    "json_find ?p ''synthetic'' = Some (JBool (z_synthetic z))"
    "json_find ?p ''jurisdiction'' = (if z_jurisdiction z \<noteq> kNoId then Some (JNumber (real (z_jurisdiction z))) else None)"
    "json_find ?p ''enter_margin_m'' = (if z_enter_margin_m z > 0 then Some (JNumber (z_enter_margin_m z)) else None)"
    "json_find ?p ''exit_margin_m'' = (if z_exit_margin_m z > 0 then Some (JNumber (z_exit_margin_m z)) else None)"
    by (simp_all add: look del: meaning.simps(3,6) cong: if_cong)
  have scaled: "\<bar>of_int i / 1000\<bar> \<le> kMaxSeconds" if "\<bar>i\<bar> \<le> 9000000000000000000" for i :: int
    using that by (auto simp: kMaxSeconds_def abs_le_iff divide_le_eq le_divide_eq)
  have r: "True \<longrightarrow> 1 \<le> real (z_severity z) \<and> real (z_severity z) \<le> 5"
    "z_max_dwell_ms z > 0 \<longrightarrow> 0 \<le> real_of_int (z_max_dwell_ms z) / 1000 \<and> of_int (z_max_dwell_ms z) / 1000 \<le> kMaxSeconds"
    "v_from (z_validity z) \<noteq> 0 \<longrightarrow> - kMaxSeconds \<le> of_int (v_from (z_validity z)) / 1000 \<and> of_int (v_from (z_validity z)) / 1000 \<le> kMaxSeconds"
    "v_to (z_validity z) \<noteq> kForever \<longrightarrow> - kMaxSeconds \<le> of_int (v_to (z_validity z)) / 1000 \<and> of_int (v_to (z_validity z)) / 1000 \<le> kMaxSeconds"
    "z_jurisdiction z \<noteq> kNoId \<longrightarrow> 0 \<le> real (z_jurisdiction z) \<and> real (z_jurisdiction z) \<le> real kNoId"
    "z_enter_margin_m z > 0 \<longrightarrow> 0 \<le> z_enter_margin_m z \<and> z_enter_margin_m z \<le> 1000000"
    "z_exit_margin_m z > 0 \<longrightarrow> 0 \<le> z_exit_margin_m z \<and> z_exit_margin_m z \<le> 1000000"
    using st scaled [of "z_max_dwell_ms z"] scaled [of "v_from (z_validity z)"] scaled [of "v_to (z_validity z)"]
    by (auto simp: storable_def abs_le_iff)
  have z0: "(if z_max_dwell_ms z > 0 then z_max_dwell_ms z else 0) = z_max_dwell_ms z"
    "(if z_enter_margin_m z > 0 then z_enter_margin_m z else 0) = z_enter_margin_m z"
    "(if z_exit_margin_m z > 0 then z_exit_margin_m z else 0) = z_exit_margin_m z"
    "(if z_jurisdiction z \<noteq> kNoId then z_jurisdiction z else kNoId) = z_jurisdiction z"
    using st by (auto simp: storable_def)
  have v: "(if v_to (z_validity z) \<noteq> kForever
      then set_to (v_to (z_validity z)) (if v_from (z_validity z) \<noteq> 0 then set_from (v_from (z_validity z)) always else always)
      else if v_from (z_validity z) \<noteq> 0 then set_from (v_from (z_validity z)) always else always) = z_validity z"
    by (cases "z_validity z") (simp add: always_def set_to_def set_from_def)
  show ?thesis
    unfolding read_props_def Let_def
    by (simp only: with_field_found [OF f(1)] with_field_found [OF f(2)] with_field_found [OF f(7)] fst_conv snd_conv
      with_num_found [OF f(3) r(1)] with_num_found [OF f(4) r(2)] with_num_found [OF f(5) r(3)] with_num_found [OF f(6) r(4)]
      with_num_found [OF f(8) r(5)] with_num_found [OF f(9) r(6)] with_num_found [OF f(10) r(7)] if_True if_update)
      (intro arg_cong2 [of _ _ _ _ Pair] zone.equality refl,
        simp_all add: z0 v zone_default_def string_or_def bool_or_def kind_from_string trunc_thousand trunc_nat split del: if_split cong del: if_weak_cong)
qed

lemma ring_numbers: "r \<in> set (outer (z_shape z) # holes (z_shape z)) \<Longrightarrow> lat ` set r \<union> lon ` set r \<subseteq> zone_numbers z"
  unfolding zone_numbers_def by blast

lemma read_ring_written:
  assumes "length r \<ge> 3" "\<forall>x \<in> lat ` set r \<union> lon ` set r. prints nt x"
  shows "read_ring (meaning (ring_doc nt r)) = r"
proof -
  have p: "meaning (point_doc nt p) = JArray [JNumber (lon p), JNumber (lat p)]" if "p \<in> set r" for p
    using assms(2) that by (simp add: point_doc_def prints_def)
  have ne: "r \<noteq> []" using assms(1) by auto
  have pts: "map (\<lambda>pt. \<lparr>lat = json_num (json_arr pt ! 1), lon = json_num (json_arr pt ! 0)\<rparr>)
      (filter (\<lambda>pt. length (json_arr pt) \<ge> 2) (map (\<lambda>p. meaning (point_doc nt p)) ps)) = ps" if "set ps \<subseteq> set r" for ps
    using that by (induction ps) (auto simp: p json_arr_def json_num_def)
  have "json_arr (meaning (ring_doc nt r)) = map (\<lambda>p. meaning (point_doc nt p)) (r @ [hd r])"
    by (simp add: ring_doc_def json_arr_def comp_def)
  then have "read_ring (meaning (ring_doc nt r)) = strip_closing_vertex (r @ [hd r])"
    using pts [of "r @ [hd r]"] ne by (simp only: read_ring_def) simp
  moreover have "Suc 0 \<le> length r" using assms(1) by simp
  ultimately show ?thesis using ne by (simp add: strip_closing_vertex_def Let_def)
qed

lemma read_holes_written:
  assumes "\<forall>h \<in> set hs. length h \<ge> 3 \<and> (\<forall>x \<in> lat ` set h \<union> lon ` set h. prints nt x)"
  shows "read_holes (map (\<lambda>h. meaning (ring_doc nt h)) hs) pg = foldl add_hole pg hs"
  using assms by (induction hs arbitrary: pg) (simp_all add: read_holes_def read_ring_written Let_def)

lemma add_holes_outer: "outer (foldl add_hole pg hs) = outer pg \<and> holes (foldl add_hole pg hs) = holes pg @ hs"
  by (induction hs arbitrary: pg) (simp_all add: add_hole_def recompute_bbox_def)

lemma read_feature_written:
  assumes st: "storable z" and nt: "\<forall>x \<in> zone_numbers z. prints nt x"
  shows "read_feature (meaning (zone_doc nt z)) = Inr (Some (z\<lparr>z_id := kNoId\<rparr>))"
proof -
  have v: "validate (z_shape z) = Ok" "on_domain (outer (z_shape z))" "list_all on_domain (holes (z_shape z))"
    "z_shape z = foldl add_hole (polygon_of (outer (z_shape z))) (holes (z_shape z))" using st by (auto simp: storable_def)
  have rings: "length (outer (z_shape z)) \<ge> 3" "\<forall>h \<in> set (holes (z_shape z)). length h \<ge> 3" using validate_rings [OF v(1)] by blast+
  have pr: "\<forall>x \<in> lat ` set r \<union> lon ` set r. prints nt x" if "r \<in> set (outer (z_shape z) # holes (z_shape z))" for r
    using nt ring_numbers [OF that] by blast
  let ?f = "meaning (zone_doc nt z)" and ?g = "meaning (geometry_doc nt (z_shape z))"
  let ?rs = "meaning (ring_doc nt (outer (z_shape z))) # map (\<lambda>h. meaning (ring_doc nt h)) (holes (z_shape z))"
  let ?c = "JArray ?rs"
  have f: "json_find ?f ''geometry'' = Some ?g" "json_find ?f ''properties'' = Some (meaning (props_doc nt z))"
    by (simp_all add: zone_doc_def meaning_object meaning_pm json_find_def del: meaning.simps(6))
  have g: "json_find ?g ''coordinates'' = Some ?c"
    by (simp add: geometry_doc_def meaning_object meaning_pm json_find_def comp_def del: meaning.simps(6))
  have a: "is_array ?c" "json_arr ?c = ?rs"
    by (simp_all add: is_array_def json_arr_def)
  have o: "read_ring (meaning (ring_doc nt (outer (z_shape z)))) = outer (z_shape z)"
    using rings(1) pr by (intro read_ring_written) auto
  have h: "read_holes (map (\<lambda>h. meaning (ring_doc nt h)) (holes (z_shape z))) (polygon_of (outer (z_shape z))) = z_shape z"
  proof -
    have "\<forall>h \<in> set (holes (z_shape z)). length h \<ge> 3 \<and> (\<forall>x \<in> lat ` set h \<union> lon ` set h. prints nt x)"
      using rings(2) pr by (metis list.set_intros(2))
    from read_holes_written [OF this] show ?thesis using v(4) by metis
  qed
  show ?thesis
    unfolding read_feature_def
    by (simp add: f g a o h v(1-3) rings Let_def read_props_written [OF st nt] not_less del: meaning.simps)
qed

lemma read_features_written:
  assumes "\<forall>z \<in> set zs. storable z \<and> (\<forall>x \<in> zone_numbers z. prints nt x)"
  shows "read_features (map (\<lambda>z. meaning (zone_doc nt z)) zs) out = (None, out @ map (\<lambda>z. z\<lparr>z_id := kNoId\<rparr>) zs)"
  using assms by (induction zs arbitrary: out) (simp_all add: read_feature_written del: meaning.simps)

lemma point_doc_ok: "prints nt (lat p) \<Longrightarrow> prints nt (lon p) \<Longrightarrow> doc_ok (point_doc nt p)"
  by (simp add: point_doc_def prints_def blank_def)

lemma ring_doc_ok: "r \<noteq> [] \<Longrightarrow> \<forall>x \<in> lat ` set r \<union> lon ` set r. prints nt x \<Longrightarrow> doc_ok (ring_doc nt r)"
  by (auto simp: ring_doc_def blank_def intro!: point_doc_ok)

definition member_ok :: "string \<times> string \<times> string \<times> string \<times> doc \<times> string \<Rightarrow> bool" where
  "member_ok m \<longleftrightarrow> (case m of (a, k, b, c, d, e) \<Rightarrow> blank a \<and> blank b \<and> blank c \<and> doc_ok d \<and> blank e)"

lemma members_ok: "doc_ok (DObject [] ms) \<longleftrightarrow> list_all member_ok ms"
  by (simp add: blank_def [of "[]"] member_ok_def list_all_iff)

lemma member_ok_pm: "member_ok (pm k d) \<longleftrightarrow> doc_ok d" "list_all member_ok (pm_if c k d) \<longleftrightarrow> (c \<longrightarrow> doc_ok d)"
  by (simp_all add: member_ok_def pm_def pm_if_def blank_def [of "[]"])

lemma props_doc_ok:
  assumes "\<forall>x \<in> zone_numbers z. prints nt x"
  shows "doc_ok (props_doc nt z)"
proof -
  have n: "doc_ok (DNumber (nt x))" if "x \<in> zone_numbers z" for x using assms that by (simp add: prints_def)
  have "of_int (z_max_dwell_ms z) / 1000 \<in> zone_numbers z" "of_int (v_from (z_validity z)) / 1000 \<in> zone_numbers z"
    "v_to (z_validity z) \<noteq> kForever \<Longrightarrow> of_int (v_to (z_validity z)) / 1000 \<in> zone_numbers z"
    "z_enter_margin_m z \<in> zone_numbers z" "z_exit_margin_m z \<in> zone_numbers z"
    by (simp_all add: zone_numbers_def)
  note this [THEN n]
  then show ?thesis unfolding props_doc_def members_ok by (simp add: member_ok_pm nat_doc_ok del: doc_ok.simps(1))
qed

lemma zone_doc_ok:
  assumes "rings_nonempty z" "\<forall>x \<in> zone_numbers z. prints nt x"
  shows "doc_ok (zone_doc nt z)"
proof -
  have "doc_ok (ring_doc nt r)" if "r \<in> set (outer (z_shape z) # holes (z_shape z))" for r
  proof (rule ring_doc_ok)
    show "r \<noteq> []" using assms(1) that unfolding rings_nonempty_def by metis
    show "\<forall>x \<in> lat ` set r \<union> lon ` set r. prints nt x" using assms(2) ring_numbers [OF that] by blast
  qed
  then have "doc_ok (DArray [] (map (\<lambda>r. ([], ring_doc nt r, [])) (outer (z_shape z) # holes (z_shape z))))"
    by (simp add: blank_def [of "[]"])
  then have "doc_ok (geometry_doc nt (z_shape z))" unfolding geometry_doc_def members_ok by (simp add: member_ok_pm)
  then show ?thesis using props_doc_ok [OF assms(2)] unfolding zone_doc_def members_ok by (simp add: member_ok_pm)
qed

lemma storable_rings: "storable z \<Longrightarrow> rings_nonempty z"
  using validate_rings [of "z_shape z"] by (fastforce simp: storable_def rings_nonempty_def)

lemma add_all:
  "length s + length zs \<le> 2 ^ 32 \<Longrightarrow>
   foldl (\<lambda>s z. snd (zs_add s z)) s zs = s @ map (\<lambda>(i, z). z\<lparr>z_id := i\<rparr>) (enumerate (length s) zs)"
  by (induction zs arbitrary: s) (simp_all add: zs_add_def uint32_of_def)


definition demo_numeral :: "real \<Rightarrow> numeral_text" where
  "demo_numeral x = \<lparr>nt_neg = False, nt_int = (if x = 2 then ''2'' else ''0''), nt_frac = None, nt_exp = None\<rparr>"

definition demo_store :: "zone list" where
  "demo_store = snd (zs_remove (snd (zs_add (snd (zs_add [] (zone_default\<lparr>z_name := ''cave'', z_shape := sample_triangle\<rparr>)))
     (zone_default\<lparr>z_name := ''cliff'', z_kind := Restricted, z_shape := sample_triangle\<rparr>))) 0)"

lemma demo_live: "zs_live demo_store = [zone_default\<lparr>z_id := 1, z_name := ''cliff'', z_kind := Restricted, z_shape := sample_triangle\<rparr>]"
  by (simp add: demo_store_def zs_remove_def zs_add_def uint32_of_def zs_live_def kNoId_def)

lemma demo_storable: "storable (zone_default\<lparr>z_id := 1, z_name := ''cliff'', z_kind := Restricted, z_shape := sample_triangle\<rparr>)"
  by (simp add: storable_def zone_default_def always_def sample_triangle_def polygon_of_def on_domain_def ll_valid_def validate_def
      ring_self_intersects_def kSweepThresholdVertices_def ring_self_intersects_pairwise_def ring_signed_area_def ring_edges_def
      cross_term_def holes_overlap_def)

lemma demo_prints: "x = 0 \<or> x = 2 \<Longrightarrow> prints demo_numeral x"
  by (auto simp: prints_def demo_numeral_def numeral_ok_def digits_ok_def Json.is_digit_def code_def numeral_string_def frac_text_def exp_text_def
      strtod_def skip_digits_def digits_value_def scale10_def)


section \<open>What a file can put into the store\<close>

definition fields_ok :: "zone \<Rightarrow> bool" where
  "fields_ok z \<longleftrightarrow>
     1 \<le> z_severity z \<and> z_severity z \<le> 5 \<and> 0 \<le> z_max_dwell_ms z \<and> z_max_dwell_ms z \<le> 9000000000000000000 \<and>
     \<bar>v_from (z_validity z)\<bar> \<le> 9000000000000000000 \<and>
     (v_to (z_validity z) = kForever \<or> \<bar>v_to (z_validity z)\<bar> \<le> 9000000000000000000) \<and>
     z_jurisdiction z \<le> kNoId \<and> 0 \<le> z_enter_margin_m z \<and> z_enter_margin_m z \<le> 1000000 \<and>
     0 \<le> z_exit_margin_m z \<and> z_exit_margin_m z \<le> 1000000"

lemma with_num_inv:
  assumes "snd zb = [] \<longrightarrow> P (fst zb)" "what \<noteq> []" "\<And>v z. lo \<le> v \<Longrightarrow> v \<le> hi \<Longrightarrow> P z \<Longrightarrow> P (upd v z)"
  shows "snd (with_num props k lo hi what upd zb) = [] \<longrightarrow> P (fst (with_num props k lo hi what upd zb))"
  using assms by (auto simp: with_num_def num_field_def Let_def split: option.split)

lemma with_field_inv:
  assumes "snd zb = [] \<longrightarrow> P (fst zb)" "\<And>j z. P z \<Longrightarrow> P (upd j z)"
  shows "snd (with_field props k upd zb) = [] \<longrightarrow> P (fst (with_field props k upd zb))"
  using assms by (auto simp: with_field_def split: option.split)

lemma trunc_bounds: "of_int a \<le> v \<Longrightarrow> v \<le> of_int b \<Longrightarrow> a \<le> trunc_real v \<and> trunc_real v \<le> b"
  by (auto simp: trunc_real_def le_floor_iff ceiling_le_iff) linarith+

lemma read_props_ok: "snd (read_props props) = [] \<Longrightarrow> fields_ok (fst (read_props props))"
proof -
  have sec: "- 9000000000000000000 \<le> trunc_real (v * 1000) \<and> trunc_real (v * 1000) \<le> 9000000000000000000"
    if "- kMaxSeconds \<le> v" "v \<le> kMaxSeconds" for v
    using that by (intro trunc_bounds) (simp_all add: kMaxSeconds_def)
  have pos: "0 \<le> trunc_real (v * 1000) \<and> trunc_real (v * 1000) \<le> 9000000000000000000" if "0 \<le> v" "v \<le> kMaxSeconds" for v
    using that by (intro trunc_bounds) (simp_all add: kMaxSeconds_def)
  have sev: "1 \<le> nat (trunc_real v) \<and> nat (trunc_real v) \<le> 5" if "1 \<le> v" "v \<le> 5" for v
    using trunc_bounds [of 1 v 5] that by auto
  have jur: "nat (trunc_real v) \<le> kNoId" if "0 \<le> v" "v \<le> real kNoId" for v
    using trunc_bounds [of 0 v "int kNoId"] that by auto
  have upd: "fields_ok z \<Longrightarrow> fields_ok (z\<lparr>z_name := a\<rparr>)" "fields_ok z \<Longrightarrow> fields_ok (z\<lparr>z_kind := b\<rparr>)"
    "fields_ok z \<Longrightarrow> fields_ok (z\<lparr>z_synthetic := c\<rparr>)"
    "1 \<le> v \<Longrightarrow> v \<le> 5 \<Longrightarrow> fields_ok z \<Longrightarrow> fields_ok (z\<lparr>z_severity := nat (trunc_real v)\<rparr>)"
    "0 \<le> v \<Longrightarrow> v \<le> kMaxSeconds \<Longrightarrow> fields_ok z \<Longrightarrow> fields_ok (z\<lparr>z_max_dwell_ms := trunc_real (v * 1000)\<rparr>)"
    "- kMaxSeconds \<le> v \<Longrightarrow> v \<le> kMaxSeconds \<Longrightarrow> fields_ok z \<Longrightarrow> fields_ok (z\<lparr>z_validity := set_from (trunc_real (v * 1000)) (z_validity z)\<rparr>)"
    "- kMaxSeconds \<le> v \<Longrightarrow> v \<le> kMaxSeconds \<Longrightarrow> fields_ok z \<Longrightarrow> fields_ok (z\<lparr>z_validity := set_to (trunc_real (v * 1000)) (z_validity z)\<rparr>)"
    "0 \<le> v \<Longrightarrow> v \<le> real kNoId \<Longrightarrow> fields_ok z \<Longrightarrow> fields_ok (z\<lparr>z_jurisdiction := nat (trunc_real v)\<rparr>)"
    "0 \<le> v \<Longrightarrow> v \<le> 1000000 \<Longrightarrow> fields_ok z \<Longrightarrow> fields_ok (z\<lparr>z_enter_margin_m := v\<rparr>)"
    "0 \<le> v \<Longrightarrow> v \<le> 1000000 \<Longrightarrow> fields_ok z \<Longrightarrow> fields_ok (z\<lparr>z_exit_margin_m := v\<rparr>)" for z a b c v
    using sec [of v] pos [of v] sev [of v] jur [of v] by (simp_all add: fields_ok_def set_from_def set_to_def abs_le_iff)
  have default: "fields_ok zone_default" by (simp add: fields_ok_def zone_default_def always_def)
  have "snd (read_props props) = [] \<longrightarrow> fields_ok (fst (read_props props))"
    unfolding read_props_def Let_def
    by (intro with_num_inv with_field_inv upd) (simp_all add: default)
  then show "snd (read_props props) = [] \<Longrightarrow> fields_ok (fst (read_props props))" by blast
qed

lemma read_holes_built: "\<exists>hs. read_holes js pg = foldl add_hole pg hs"
proof (induction js arbitrary: pg)
  case Nil
  then show ?case by (intro exI [of _ "[]"]) (simp add: read_holes_def)
next
  case (Cons j js)
  obtain hs where "read_holes js (if length (read_ring j) \<ge> 3 then add_hole pg (read_ring j) else pg) =
      foldl add_hole (if length (read_ring j) \<ge> 3 then add_hole pg (read_ring j) else pg) hs" using Cons by blast
  then show ?case
    by (intro exI [of _ "(if length (read_ring j) \<ge> 3 then [read_ring j] else []) @ hs"]) (simp add: read_holes_def Let_def)
qed

lemma read_feature_storable:
  assumes "read_feature f = Inr (Some z)"
  shows "storable z"
proof -
  obtain z0 and bad :: string and shape ring where p: "bad = [] \<longrightarrow> fields_ok z0" "bad = []" "z = z0\<lparr>z_shape := shape\<rparr>"
    "on_domain (outer shape) \<and> list_all on_domain (holes shape)" "validate shape = Ok" "\<exists>js. shape = read_holes js (polygon_of ring)"
  proof -
    obtain geom coords where c: "json_find f ''geometry'' = Some geom" "json_find geom ''coordinates'' = Some coords"
      using assms by (auto simp: read_feature_def split: option.splits)
    obtain z0 bad where zb: "(case json_find f ''properties'' of None \<Rightarrow> (zone_default, []) | Some props \<Rightarrow> read_props props) = (z0, bad)" by fastforce
    have "bad = [] \<longrightarrow> fields_ok z0"
    proof (cases "json_find f ''properties''")
      case None
      then show ?thesis using zb by (auto simp: fields_ok_def zone_default_def always_def)
    next
      case (Some props)
      then show ?thesis using zb read_props_ok [of props] by simp
    qed
    then show thesis
      using assms c zb by (intro that [of bad z0]) (auto simp: read_feature_def Let_def split: if_splits validity.splits)
  qed
  obtain hs where hs: "shape = foldl add_hole (polygon_of ring) hs" using p(6) read_holes_built by metis
  then have "outer shape = ring" "holes shape = hs" using add_holes_outer [of "polygon_of ring" hs] by (simp_all add: polygon_of_def)
  then have "shape = foldl add_hole (polygon_of (outer shape)) (holes shape)" using hs by simp
  then show ?thesis using p by (simp add: storable_def fields_ok_def)
qed

lemma read_features_storable:
  "read_features fs out = (e, zs) \<Longrightarrow> \<forall>z \<in> set out. storable z \<Longrightarrow> \<forall>z \<in> set zs. storable z"
proof (induction fs arbitrary: out)
  case (Cons f fs)
  show ?case
  proof (cases "read_feature f")
    case (Inr r)
    show ?thesis
    proof (cases r)
      case None
      then show ?thesis using Inr Cons by simp
    next
      case (Some z)
      then have "storable z" using Inr read_feature_storable by simp
      then show ?thesis using Cons.IH [of "out @ [z]"] Cons.prems Inr Some by simp
    qed
  qed (use Cons.prems in simp)
qed simp

text \<open>C34: No file can put a bad zone into the store, and a refused file changes nothing. Whatever the text, loading either
  reports an error and leaves the store as it was, or appends zones that are all storable: fields in range, coordinates
  on the domain, geometry that passes validation.\<close>

theorem zone_load_all_or_nothing:
  assumes "load_geojson path file s = (e, s')"
  shows "(if e = None then (\<exists>zs. s' = s @ zs \<and> (\<forall>z \<in> set zs. storable z)) else s' = s)"
proof (cases e)
  case None
  then obtain txt0 parsed where p: "file = Some txt0" "parse_geojson txt0 [] = (None, parsed)"
    "s' = foldl (\<lambda>s z. snd (zs_add s z)) s parsed"
    using assms by (auto simp: load_geojson_def split: option.splits prod.splits)
  have "\<forall>z \<in> set parsed. storable z"
    using p(2) read_features_storable [of _ "[]"]
    by (auto simp: parse_geojson_def parse_features_def split: outcome.splits option.splits if_splits)
  then have "\<exists>zs. foldl (\<lambda>s z. snd (zs_add s z)) s parsed = s @ zs \<and> (\<forall>z \<in> set zs. storable z)"
  proof (induction parsed arbitrary: s)
    case (Cons z zs)
    have "storable (z\<lparr>z_id := n\<rparr>)" for n using Cons.prems by (simp add: storable_def)
    then show ?case using Cons.IH [of "s @ [z\<lparr>z_id := uint32_of (length s)\<rparr>]"] Cons.prems by (auto simp: zs_add_def)
  qed simp
  then show ?thesis using None p(3) by simp
next
  case (Some msg)
  then show ?thesis using assms by (auto simp: load_geojson_def split: option.splits prod.splits)
qed

theorem zone_load_all_or_nothing_witness:
  "snd (load_geojson ''x'' (Some ''{}'') demo_store) = demo_store"
proof -
  have "load_geojson ''x'' (Some ''{}'') demo_store = (Some ''no features array'', demo_store)"
    by (simp add: load_geojson_def parse_geojson_def json_parse_def kMaxDepth_def json_value.simps(2) eval_nat_numeral json_ws.simps Let_def
        parse_features_def json_find_def)
  from zone_load_all_or_nothing [OF this] this show ?thesis by simp
qed

end
