(* ===== verification/Tourist.thy ===== *)
theory Tourist
  imports Circular_Buffer Hysteresis Zone_Store
begin

text \<open>
  A tracked person, \<^verbatim>\<open>include/safetrail/track/tourist.hpp\<close> and \<^verbatim>\<open>src/track/tourist.cpp\<close>, with the state
  kept per zone, and the sampling controller \<^verbatim>\<open>src/power/adaptive_sampler.cpp\<close>. A reference to an entry of
  \<open>zone_states\<close> is its position in the list. Counters of 64 bits are naturals.
\<close>

section \<open>The adaptive sampler\<close>

record sampling_tier =
  max_distance_m :: real
  interval_ms :: int

record sampler_config =
  tiers :: "sampling_tier list"
  alert_active_interval_ms :: int
  fast_movement_mps :: real
  sampler_enabled :: bool

definition sampler_default :: sampler_config where
  "sampler_default =
     \<lparr>tiers = [\<lparr>max_distance_m = 200, interval_ms = 2000\<rparr>, \<lparr>max_distance_m = 1000, interval_ms = 15000\<rparr>,
        \<lparr>max_distance_m = 5000, interval_ms = 60000\<rparr>, \<lparr>max_distance_m = 1000000000000, interval_ms = 300000\<rparr>],
      alert_active_interval_ms = 1000, fast_movement_mps = 5, sampler_enabled = True\<rparr>"

record energy =
  fixes_taken :: nat
  fixes_skipped :: nat
  estimated_pct_per_hour :: real

definition savings_vs_continuous :: "energy \<Rightarrow> real" where
  "savings_vs_continuous e = (let continuous = 10 in if continuous > 0 then 1 - estimated_pct_per_hour e / continuous else 0)"

record sampler =
  sm_cfg :: sampler_config
  last_sample_ms :: int
  current_interval_ms :: int
  sm_energy :: energy

definition sampler_new :: "sampler_config \<Rightarrow> sampler" where
  "sampler_new cfg = \<lparr>sm_cfg = cfg, last_sample_ms = 0, current_interval_ms = 0,
     sm_energy = \<lparr>fixes_taken = 0, fixes_skipped = 0, estimated_pct_per_hour = 0\<rparr>\<rparr>"

definition note_sampled :: "int \<Rightarrow> sampler \<Rightarrow> sampler" where
  "note_sampled now_ms s = s\<lparr>last_sample_ms := now_ms\<rparr>"

text \<open>The first tier that reaches as far as the nearest zone, or the last one.\<close>

fun tier_interval :: "real \<Rightarrow> sampling_tier list \<Rightarrow> int \<Rightarrow> int" where
  "tier_interval d [] dflt = dflt"
| "tier_interval d (t # ts) dflt = (if d \<le> max_distance_m t then interval_ms t else tier_interval d ts dflt)"

definition sample_interval :: "sampler_config \<Rightarrow> real \<Rightarrow> real \<Rightarrow> bool \<Rightarrow> int" where
  "sample_interval cfg nearest_zone_m speed_mps alert_active =
     (let interval = tier_interval nearest_zone_m (tiers cfg) (if tiers cfg = [] then 1000 else interval_ms (last (tiers cfg)));
          interval = (if alert_active then alert_active_interval_ms cfg else interval);
          interval = (if speed_mps > fast_movement_mps cfg \<and> speed_mps > 0
                      then trunc_real (of_int interval * fast_movement_mps cfg / speed_mps) else interval)
      in if interval < 200 then 200 else interval)"

definition should_sample :: "int \<Rightarrow> real \<Rightarrow> real \<Rightarrow> bool \<Rightarrow> sampler \<Rightarrow> bool \<times> sampler" where
  "should_sample now_ms nearest_zone_m speed_mps alert_active s =
     (let e = sm_energy s in
      if \<not> sampler_enabled (sm_cfg s)
      then (True, s\<lparr>sm_energy := e\<lparr>fixes_taken := fixes_taken e + 1\<rparr>, last_sample_ms := now_ms, current_interval_ms := 0\<rparr>)
      else
        (let interval = sample_interval (sm_cfg s) nearest_zone_m speed_mps alert_active;
             s = s\<lparr>current_interval_ms := interval\<rparr>
         in if now_ms - last_sample_ms s \<ge> interval
            then (True, s\<lparr>last_sample_ms := now_ms, sm_energy := e\<lparr>fixes_taken := fixes_taken e + 1, estimated_pct_per_hour := 0\<rparr>\<rparr>)
            else (False, s\<lparr>sm_energy := e\<lparr>fixes_skipped := fixes_skipped e + 1\<rparr>\<rparr>)))"

section \<open>The tourist\<close>

record ping =
  pg_fix :: uncertain_point
  pg_speed_mps :: real
  pg_heading_deg :: real

definition ping_default :: ping where
  "ping_default = \<lparr>pg_fix = \<lparr>pos = \<lparr>lat = 0, lon = 0\<rparr>, accuracy_m = 0, t_ms = 0\<rparr>, pg_speed_mps = 0, pg_heading_deg = 0\<rparr>"

record zone_state =
  zst_zone :: zone_id
  zst_hyst :: hysteresis_state
  zst_confirmed :: containment
  zst_entered_ms :: timestamp
  zst_dwell_reported :: bool
  zst_approach_reported :: bool
  zst_seen_epoch :: nat

definition zone_state_new :: "zone_id \<Rightarrow> zone_state" where
  "zone_state_new z = \<lparr>zst_zone = z, zst_hyst = hysteresis_init, zst_confirmed = Outside, zst_entered_ms = 0,
     zst_dwell_reported = False, zst_approach_reported = False, zst_seen_epoch = 0\<rparr>"

record tourist =
  to_id :: tourist_id
  digital_id :: string
  to_group :: nat
  last_fix :: uncertain_point
  to_heading :: real
  to_speed :: real
  pings :: "ping circular_buffer"
  planned_route :: "lat_lon list"
  route_leg :: nat
  zone_states :: "zone_state list"
  eval_epoch :: nat
  to_sampler :: sampler
  alert_active :: bool

definition kPingWindow :: nat where
  "kPingWindow = 64"

definition tourist_new :: "tourist_id \<Rightarrow> tourist" where
  "tourist_new i = \<lparr>to_id = i, digital_id = [], to_group = kNoId, last_fix = \<lparr>pos = \<lparr>lat = 0, lon = 0\<rparr>, accuracy_m = 0, t_ms = 0\<rparr>,
     to_heading = 0, to_speed = 0, pings = cb_init kPingWindow ping_default, planned_route = [], route_leg = 0, zone_states = [],
     eval_epoch = 0, to_sampler = sampler_new sampler_default, alert_active = False\<rparr>"

definition find_state :: "zone_id \<Rightarrow> zone_state list \<Rightarrow> nat option" where
  "find_state z sts = first_index (\<lambda>s. zst_zone s = z) sts"

definition peek_state :: "zone_id \<Rightarrow> zone_state list \<Rightarrow> zone_state option" where
  "peek_state z sts = map_option ((!) sts) (find_state z sts)"

text \<open>The entry of a zone, appended if there is none: its position and the entries.\<close>

definition state_for :: "zone_id \<Rightarrow> zone_state list \<Rightarrow> nat \<times> zone_state list" where
  "state_for z sts = (case find_state z sts of Some i \<Rightarrow> (i, sts) | None \<Rightarrow> (length sts, sts @ [zone_state_new z]))"

definition kMinSpanS :: real where
  "kMinSpanS = 12"

definition speed_mps :: "tourist \<Rightarrow> real" where
  "speed_mps t =
     (if cb_count (pings t) < 4 then 0
      else
        (let newest = cb_get (pings t) 0; oldest = cb_get (pings t) (cb_count (pings t) - 1);
             elapsed = of_int (t_ms (pg_fix newest) - t_ms (pg_fix oldest)) / 1000
         in if elapsed < kMinSpanS then 0 else distance_m (pos (pg_fix oldest)) (pos (pg_fix newest)) / elapsed))"

definition heading_deg :: "tourist \<Rightarrow> real" where
  "heading_deg t =
     (if cb_count (pings t) < 4 then to_heading t
      else bearing_deg (pos (pg_fix (cb_get (pings t) (cb_count (pings t) - 1)))) (pos (pg_fix (cb_get (pings t) 0))))"

definition project_ahead :: "tourist \<Rightarrow> real \<Rightarrow> lat_lon" where
  "project_ahead t seconds_ahead =
     (let v = speed_mps t
      in if v < 1 / 5 then pos (last_fix t) else offset (pos (last_fix t)) (heading_deg t) (v * seconds_ahead))"

section \<open>The entries of a tourist\<close>

lemma find_state_Some: "find_state z sts = Some i \<Longrightarrow> i < length sts \<and> zst_zone (sts ! i) = z"
  using first_index_Some [of _ sts] by (fastforce simp: find_state_def)

lemma find_state_None: "find_state z sts = None \<longleftrightarrow> z \<notin> zst_zone ` set sts"
  by (auto simp: find_state_def first_index_None)

lemma state_for_correct:
  assumes "distinct (map zst_zone sts)" "state_for z sts = (i, sts')"
  shows "i < length sts'" "zst_zone (sts' ! i) = z" "distinct (map zst_zone sts')"
    "sts' = sts \<or> z \<notin> zst_zone ` set sts \<and> sts' = sts @ [zone_state_new z]"
  using assms find_state_Some [of z sts] find_state_None [of z sts]
  by (auto simp: state_for_def zone_state_new_def split: option.splits)

lemma sample_interval_floor: "200 \<le> sample_interval cfg d v a"
  by (simp add: sample_interval_def Let_def)

end
