(* ===== verification/Rtree.thy ===== *)
theory Rtree
  imports Spatial_Index "HOL-Library.Product_Lexorder"
begin

text \<open>
  The R-tree, \<^verbatim>\<open>src/index/rtree.cpp\<close>: insertion with the quadratic split, removal with
  condensing (orphaned entries are inserted again from the top) and Sort-Tile-Recursive bulk
  packing. A node is the code's: a leaf flag, the box, the entries and the children. \<open>std::sort\<close> is
  called with keys that are distinct when ids are, so the result is the sorted list; with equal keys
  the order is unspecified there and the stable one here.
\<close>

datatype rnode = RNode (r_leaf: bool) (r_box: bbox) (r_entries: "index_item list") (r_kids: "rnode list")

definition envelope :: "bbox list \<Rightarrow> bbox" where
  "envelope bs = foldl bb_expand NoBox bs"

fun r_refit :: "rnode \<Rightarrow> rnode" where
  "r_refit (RNode leaf b es ks) = RNode leaf (envelope (map snd es @ map r_box ks)) es ks"

definition r_fill :: "rnode \<Rightarrow> nat" where
  "r_fill n = (if r_leaf n then length (r_entries n) else length (r_kids n))"

definition new_node :: rnode where
  "new_node = RNode True NoBox [] []"

section \<open>The quadratic split\<close>

definition index_pairs :: "nat \<Rightarrow> (nat \<times> nat) list" where
  "index_pairs n = concat (map (\<lambda>i. map (Pair i) [i + 1..<n]) [0..<n])"

definition seed_pair :: "('a \<Rightarrow> bbox) \<Rightarrow> 'a list \<Rightarrow> nat \<times> nat" where
  "seed_pair boxof items =
     snd (foldl (\<lambda>(worst, s) (i, j).
       let d = bb_area (bb_expand (boxof (items ! i)) (boxof (items ! j))) - bb_area (boxof (items ! i)) - bb_area (boxof (items ! j))
       in if d > worst then (d, (i, j)) else (worst, s)) (-1, (0, 1)) (index_pairs (length items)))"

definition deal_one :: "('a \<Rightarrow> bbox) \<Rightarrow> nat \<Rightarrow> nat \<Rightarrow> (bbox \<times> 'a list) \<times> (bbox \<times> 'a list) \<Rightarrow> 'a \<Rightarrow> (bbox \<times> 'a list) \<times> (bbox \<times> 'a list)" where
  "deal_one boxof min_entries rest_size = (\<lambda>((b1, g1), (b2, g2)) x.
     let remaining = rest_size - (length g1 - 1) - (length g2 - 1);
         first = ((bb_expand b1 (boxof x), g1 @ [x]), (b2, g2));
         second = ((b1, g1), (bb_expand b2 (boxof x), g2 @ [x]))
     in if length g1 + remaining \<le> min_entries then first
        else if length g2 + remaining \<le> min_entries then second
        else let e1 = enlargement_to_include b1 (boxof x); e2 = enlargement_to_include b2 (boxof x)
             in if e1 < e2 \<or> (e1 = e2 \<and> bb_area b1 \<le> bb_area b2) then first else second)"

definition quadratic_split :: "('a \<Rightarrow> bbox) \<Rightarrow> 'a list \<Rightarrow> nat \<Rightarrow> 'a list \<times> 'a list" where
  "quadratic_split boxof items min_entries =
     (let (s1, s2) = seed_pair boxof items;
          rest = map ((!) items) (filter (\<lambda>i. i \<noteq> s1 \<and> i \<noteq> s2) [0..<length items]);
          r = foldl (deal_one boxof min_entries (length rest))
                ((boxof (items ! s1), [items ! s1]), (boxof (items ! s2), [items ! s2])) rest
      in (snd (fst r), snd (snd r)))"

section \<open>Insertion\<close>

text \<open>Least enlargement, area as tiebreak; nothing stands for the initial infinity.\<close>

definition choose_subtree :: "rnode list \<Rightarrow> bbox \<Rightarrow> nat" where
  "choose_subtree kids b =
     snd (foldl (\<lambda>(best, at_i) i.
       let e = enlargement_to_include (r_box (kids ! i)) b; a = bb_area (r_box (kids ! i))
       in case best of None \<Rightarrow> (Some (e, a), i)
          | Some (best_e, best_a) \<Rightarrow>
              if e < best_e \<or> (e = best_e \<and> a < best_a) then (Some (e, a), i) else (best, at_i))
       (None, 0) [0..<length kids])"

lemma choose_subtree_less: "kids \<noteq> [] \<Longrightarrow> choose_subtree kids b < length kids"
proof -
  have "snd (foldl (\<lambda>(best, at_i) i.
       let e = enlargement_to_include (r_box (kids ! i)) b; a = bb_area (r_box (kids ! i))
       in case best of None \<Rightarrow> (Some (e, a), i)
          | Some (best_e, best_a) \<Rightarrow>
              if e < best_e \<or> (e = best_e \<and> a < best_a) then (Some (e, a), i) else (best, at_i)) (z, k) is) < m"
    if "k < m" "\<forall>i \<in> set is. i < m" for "is" z k m
    using that by (induction "is" arbitrary: z k) (auto simp: Let_def split: option.splits)
  then show "kids \<noteq> [] \<Longrightarrow> choose_subtree kids b < length kids" unfolding choose_subtree_def by simp
qed

lemma r_nth_size_less: "i < length kids \<Longrightarrow> size (kids ! i) < Suc (size_list size kids)"
  using size_list_estimation' [of "kids ! i" kids "size (kids ! i)" size] by simp

text \<open>The node and its new sibling, when it split. An internal node without children, where the code
  would read out of range, does not arise and is left as it is.\<close>

function do_insert :: "nat \<Rightarrow> nat \<Rightarrow> rnode \<Rightarrow> index_item \<Rightarrow> rnode \<times> rnode option" where
  "do_insert max_entries min_entries (RNode leaf b es ks) it =
     (let b = bb_expand b (snd it) in
      if leaf then
        (let es = es @ [it]
         in if length es \<le> max_entries then (RNode leaf b es ks, None)
            else let (g1, g2) = quadratic_split snd es min_entries
                 in (r_refit (RNode leaf b g1 ks), Some (r_refit (RNode True NoBox g2 []))))
      else if ks = [] then (RNode leaf b es ks, None)
      else
        (let best = choose_subtree ks (snd it) in
         case do_insert max_entries min_entries (ks ! best) it of
           (k, None) \<Rightarrow> (r_refit (RNode leaf b es (ks[best := k])), None)
         | (k, Some sib) \<Rightarrow>
             let ks = ks[best := k] @ [sib]
             in if length ks \<le> max_entries then (r_refit (RNode leaf b es ks), None)
                else let (g1, g2) = quadratic_split r_box ks min_entries
                     in (r_refit (RNode leaf b es g1), Some (r_refit (RNode False NoBox [] g2)))))"
  by pat_completeness auto
termination
proof (relation "measure (\<lambda>(mx, mn, n, it). size n)", goal_cases)
  case (2 mx mn leaf b es ks it x best)
  then show ?case using r_nth_size_less [OF choose_subtree_less [of ks "snd it"]] by simp
qed simp

section \<open>Collection, queries, removal\<close>

fun collect :: "rnode \<Rightarrow> index_item list" where
  "collect (RNode leaf b es ks) = (if leaf then es else concat (map collect ks))"

fun rt_query_node :: "bbox \<Rightarrow> rnode \<Rightarrow> zone_id list" where
  "rt_query_node q (RNode leaf b es ks) =
     (if \<not> bb_intersects b q then [] else if leaf then matching q es else concat (map (rt_query_node q) ks))"

fun rt_remove_node :: "zone_id \<Rightarrow> nat \<Rightarrow> rnode \<Rightarrow> (rnode \<times> index_item list) option"
  and rt_remove_kids :: "zone_id \<Rightarrow> nat \<Rightarrow> rnode list \<Rightarrow> (rnode list \<times> index_item list) option" where
  "rt_remove_node i min_entries (RNode leaf b es ks) =
     (if leaf then map_option (\<lambda>es. (r_refit (RNode leaf b es ks), [])) (erase_id i es)
      else map_option (\<lambda>(ks, orphans). (r_refit (RNode leaf b es ks), orphans)) (rt_remove_kids i min_entries ks))"
| "rt_remove_kids i min_entries [] = None"
| "rt_remove_kids i min_entries (k # ks) =
     (case rt_remove_node i min_entries k of
        None \<Rightarrow> map_option (\<lambda>(ks, orphans). (k # ks, orphans)) (rt_remove_kids i min_entries ks)
      | Some (k, orphans) \<Rightarrow>
          if r_fill k < min_entries then Some (ks, orphans @ collect k) else Some (k # ks, orphans))"

fun collapse_root :: "rnode \<Rightarrow> rnode" where
  "collapse_root (RNode leaf b es ks) =
     (if \<not> leaf then (case ks of [only] \<Rightarrow> collapse_root only | _ \<Rightarrow> RNode leaf b es ks) else RNode leaf b es ks)"

section \<open>Sort-Tile-Recursive packing\<close>

definition str_slice_sort :: "bool \<Rightarrow> ('a \<Rightarrow> bbox) \<Rightarrow> ('a \<Rightarrow> zone_id) \<Rightarrow> 'a list \<Rightarrow> 'a list" where
  "str_slice_sort by_lon boxof idof xs =
     sort_key (\<lambda>x. (if by_lon then lon (bb_center (boxof x)) else lat (bb_center (boxof x)), idof x)) xs"

definition id_of_kid :: "rnode \<Rightarrow> zone_id" where
  "id_of_kid n = foldl min kNoId (map fst (collect n))"

text \<open>Runs of at most \<open>k\<close> elements; the step of the code's loops is positive.\<close>

function runs :: "nat \<Rightarrow> 'a list \<Rightarrow> 'a list list" where
  "runs k xs = (if k = 0 \<or> xs = [] then [] else take k xs # runs k (drop k xs))"
  by pat_completeness auto
termination by (relation "measure (\<lambda>(k, xs). length xs)") auto

definition str_partition :: "('a \<Rightarrow> bbox) \<Rightarrow> ('a \<Rightarrow> zone_id) \<Rightarrow> nat \<Rightarrow> 'a list \<Rightarrow> 'a list list" where
  "str_partition boxof idof M items =
     (let n = length items;
          P = (n + M - 1) div M;
          S = nat \<lceil>sqrt (real P)\<rceil>;
          per_slice = (n + S - 1) div S
      in concat (map (\<lambda>slice. runs M (str_slice_sort False boxof idof slice))
           (runs per_slice (str_slice_sort True boxof idof items))))"

definition pack_leaves :: "nat \<Rightarrow> index_item list \<Rightarrow> rnode list" where
  "pack_leaves M items = map (\<lambda>g. r_refit (RNode True NoBox g [])) (str_partition snd fst M items)"

definition pack_level :: "nat \<Rightarrow> rnode list \<Rightarrow> rnode list" where
  "pack_level M level = map (\<lambda>g. r_refit (RNode False NoBox [] g)) (str_partition r_box id_of_kid M level)"

text \<open>The loop over the levels, with fuel; every pass at least joins two nodes.\<close>

fun pack_levels :: "nat \<Rightarrow> nat \<Rightarrow> rnode list \<Rightarrow> rnode list" where
  "pack_levels 0 M level = level"
| "pack_levels (Suc fuel) M level = (if length level > 1 then pack_levels fuel M (pack_level M level) else level)"

section \<open>The index\<close>

record rtree =
  rt_root :: rnode
  rt_max :: nat
  rt_min :: nat
  rt_count :: nat
  rt_st :: index_counters

definition rt_new :: "nat \<Rightarrow> rtree" where
  "rt_new max_entries =
     \<lparr>rt_root = new_node, rt_max = (if max_entries < 4 then 4 else max_entries),
      rt_min = (if max_entries < 4 then 4 else max_entries) div 2, rt_count = 0, rt_st = no_counters\<rparr>"

definition rt_insert :: "zone_id \<Rightarrow> bbox \<Rightarrow> rtree \<Rightarrow> rtree" where
  "rt_insert i b s =
     (let root = (case do_insert (rt_max s) (rt_min s) (rt_root s) (i, b) of
         (n, None) \<Rightarrow> n | (n, Some sib) \<Rightarrow> r_refit (RNode False NoBox [] [n, sib]))
      in s\<lparr>rt_root := root, rt_count := rt_count s + 1\<rparr>)"

definition rt_build_incremental :: "index_item list \<Rightarrow> rtree \<Rightarrow> rtree" where
  "rt_build_incremental items s = foldl (\<lambda>s it. rt_insert (fst it) (snd it) s) (s\<lparr>rt_root := new_node, rt_count := 0\<rparr>) items"

definition rt_build :: "index_item list \<Rightarrow> rtree \<Rightarrow> rtree" where
  "rt_build items s =
     (if items = [] then s\<lparr>rt_root := new_node, rt_count := 0\<rparr>
      else s\<lparr>rt_root := hd (pack_levels (length items) (rt_max s) (pack_leaves (rt_max s) items)), rt_count := length items\<rparr>)"

definition drop_to_leaf :: "rnode \<Rightarrow> rnode" where
  "drop_to_leaf n = (if \<not> r_leaf n \<and> r_kids n = [] then r_refit (RNode True (r_box n) (r_entries n) (r_kids n)) else n)"

definition rt_remove :: "zone_id \<Rightarrow> rtree \<Rightarrow> bool \<times> rtree" where
  "rt_remove i s = (case rt_remove_node i (rt_min s) (rt_root s) of
      None \<Rightarrow> (False, s)
    | Some (n, orphans) \<Rightarrow>
        (True, foldl (\<lambda>s e. let s = rt_insert (fst e) (snd e) s in s\<lparr>rt_count := rt_count s - 1\<rparr>)
           (s\<lparr>rt_root := drop_to_leaf (collapse_root n), rt_count := rt_count s - 1\<rparr>) orphans))"

definition rt_query :: "bbox \<Rightarrow> zone_id list \<Rightarrow> rtree \<Rightarrow> zone_id list \<times> rtree" where
  "rt_query q out s =
     (let out' = out @ rt_query_node q (rt_root s)
      in (out', s\<lparr>rt_st := count_query (length out' - length out) (rt_st s)\<rparr>))"

fun rt_walk :: "rnode \<Rightarrow> nat \<Rightarrow> nat \<times> nat \<Rightarrow> nat \<times> nat" where
  "rt_walk (RNode leaf b es ks) depth acc =
     (let acc = (fst acc + 1, max (snd acc) depth)
      in if leaf then acc else foldl (\<lambda>acc k. rt_walk k (depth + 1) acc) acc ks)"

definition rt_stats :: "rtree \<Rightarrow> index_shape" where
  "rt_stats s = (let w = rt_walk (rt_root s) 0 (0, 0) in \<lparr>node_count = fst w, tree_depth = snd w\<rparr>)"

definition rt_reset_counters :: "rtree \<Rightarrow> rtree" where
  "rt_reset_counters s = s\<lparr>rt_st := no_counters\<rparr>"

definition rt_ops :: "rtree index_ops" where
  "rt_ops = \<lparr>op_build = rt_build, op_insert = rt_insert, op_remove = rt_remove, op_query = rt_query, op_size = rt_count\<rparr>"

fun rt_collect_boxes :: "rnode \<Rightarrow> bbox list" where
  "rt_collect_boxes (RNode leaf b es ks) = b # (if leaf then [] else concat (map rt_collect_boxes ks))"

fun rt_describe_node :: "rnode \<Rightarrow> nat \<Rightarrow> node_trace list" where
  "rt_describe_node (RNode leaf b es ks) depth =
     \<lparr>nt_box = b, nt_depth = depth, nt_leaf = leaf, nt_hit = False,
      nt_items = uint32_of (if leaf then length es else length ks)\<rparr> #
     (if leaf then [] else concat (map (\<lambda>k. rt_describe_node k ((depth + 1) mod 65536)) ks))"

fun rt_trace_node :: "bbox \<Rightarrow> rnode \<Rightarrow> nat \<Rightarrow> zone_id list \<times> node_trace list \<Rightarrow> zone_id list \<times> node_trace list" where
  "rt_trace_node q (RNode leaf b es ks) depth acc =
     (let hit = bb_intersects b q;
          visited = snd acc @ [\<lparr>nt_box = b, nt_depth = depth, nt_leaf = leaf, nt_hit = hit,
                                nt_items = uint32_of (if leaf then length es else length ks)\<rparr>]
      in if \<not> hit then (fst acc, visited)
         else if leaf then (fst acc @ matching q es, visited)
         else foldl (\<lambda>acc k. rt_trace_node q k ((depth + 1) mod 65536) acc) (fst acc, visited) ks)"

text \<open>The audit: the depth of the leaves, once seen, and the entries; nothing on a violation.\<close>

fun rt_audit :: "rnode \<Rightarrow> bool \<Rightarrow> nat \<Rightarrow> nat \<Rightarrow> nat option \<times> nat \<Rightarrow> (nat option \<times> nat) option"
  and rt_audit_kids :: "rnode list \<Rightarrow> nat \<Rightarrow> nat \<Rightarrow> nat option \<times> nat \<Rightarrow> (nat option \<times> nat) option" where
  "rt_audit (RNode leaf b es ks) is_root depth max_entries acc =
     (if (if leaf then length es else length ks) > max_entries then None
      else if \<not> is_root \<and> (if leaf then length es else length ks) = 0 then None
      else if leaf then
        (if ks \<noteq> [] then None
         else let leaf_depth = (case fst acc of None \<Rightarrow> depth | Some d \<Rightarrow> d)
              in if depth \<noteq> leaf_depth then None
                 else if b \<noteq> envelope (map snd es) then None else Some (Some leaf_depth, snd acc + length es))
      else if es \<noteq> [] then None
      else case rt_audit_kids ks (depth + 1) max_entries acc of
             None \<Rightarrow> None | Some acc \<Rightarrow> if b \<noteq> envelope (map r_box ks) then None else Some acc)"
| "rt_audit_kids [] depth max_entries acc = Some acc"
| "rt_audit_kids (k # ks) depth max_entries acc =
     (case rt_audit k False depth max_entries acc of None \<Rightarrow> None | Some acc \<Rightarrow> rt_audit_kids ks depth max_entries acc)"

definition rt_check_invariants :: "rtree \<Rightarrow> bool" where
  "rt_check_invariants s \<longleftrightarrow>
     (case rt_audit (rt_root s) True 0 (rt_max s) (None, 0) of None \<Rightarrow> False | Some acc \<Rightarrow> snd acc = rt_count s)"

section \<open>The invariant\<close>

text \<open>Tight boxes, leaves at one depth, nodes not over the maximum, and at least \<open>m\<close> children or
  entries in every node below the top one.\<close>

fun rt_wf :: "nat \<Rightarrow> nat \<Rightarrow> nat \<Rightarrow> rnode \<Rightarrow> bool" where
  "rt_wf m mx h (RNode leaf b es ks) \<longleftrightarrow>
     b = envelope (map snd es @ map r_box ks) \<and>
     (if leaf then ks = [] \<and> h = 0 \<and> length es \<le> mx
      else es = [] \<and> 0 < h \<and> length ks \<le> mx \<and> (\<forall>k \<in> set ks. rt_wf m mx (h - 1) k \<and> m \<le> r_fill k))"

lemma rt_wf_internal:
  "rt_wf m mx h (r_refit (RNode False b [] ks)) \<longleftrightarrow> 0 < h \<and> length ks \<le> mx \<and> (\<forall>k \<in> set ks. rt_wf m mx (h - 1) k \<and> m \<le> r_fill k)"
  by simp

lemma rt_wf_leaf: "rt_wf m mx h (r_refit (RNode True b es [])) \<longleftrightarrow> h = 0 \<and> length es \<le> mx"
  by auto

lemma r_fill_node [simp]: "r_fill (RNode leaf b es ks) = (if leaf then length es else length ks)"
  by (simp add: r_fill_def)

lemma collect_refit [simp]: "collect (r_refit (RNode leaf b es ks)) = (if leaf then es else concat (map collect ks))"
  by simp

lemma envelope_snoc: "envelope (bs @ [b]) = bb_expand (envelope bs) b"
  by (simp add: envelope_def)

lemma bb_expand_covers2: "fully_contains (bb_expand r b) b"
  by (cases r; cases b) auto

lemma envelope_covers: "b \<in> set bs \<Longrightarrow> fully_contains (envelope bs) b"
proof (induction bs rule: rev_induct)
  case (snoc x xs)
  then show ?case
    using bb_expand_covers [of "envelope xs" x] bb_expand_covers2 [of "envelope xs" x]
    by (auto simp: envelope_snoc intro: fully_contains_trans)
qed simp

section \<open>The split deals out all items\<close>

lemma index_pairs_less: "(i, j) \<in> set (index_pairs n) \<Longrightarrow> i < j \<and> j < n"
  by (auto simp: index_pairs_def)

lemma seed_pair_less:
  assumes "2 \<le> length items" "seed_pair boxof items = (s1, s2)"
  shows "s1 < s2 \<and> s2 < length items"
proof -
  define f where "f = (\<lambda>(worst, s) (i, j).
       let d = bb_area (bb_expand (boxof (items ! i)) (boxof (items ! j))) - bb_area (boxof (items ! i)) - bb_area (boxof (items ! j))
       in if d > worst then (d, (i, j)) else (worst, s))"
  have inv: "fst (snd (foldl f acc ps)) < snd (snd (foldl f acc ps)) \<and> snd (snd (foldl f acc ps)) < length items"
    if "fst (snd acc) < snd (snd acc) \<and> snd (snd acc) < length items" "\<forall>p \<in> set ps. fst p < snd p \<and> snd p < length items" for acc ps
    using that by (induction ps arbitrary: acc) (auto simp: f_def Let_def split_beta)
  have "\<forall>p \<in> set (index_pairs (length items)). fst p < snd p \<and> snd p < length items"
    using index_pairs_less by (metis prod.collapse)
  from inv [of "(-1, (0, 1))", OF _ this] assms(1)
  have "fst (seed_pair boxof items) < snd (seed_pair boxof items) \<and> snd (seed_pair boxof items) < length items"
    unfolding seed_pair_def f_def by simp
  then show ?thesis using assms(2) by simp
qed

lemma deal_one_cases:
  "deal_one boxof mn rs ((b1, g1), (b2, g2)) x \<in> {((bb_expand b1 (boxof x), g1 @ [x]), (b2, g2)), ((b1, g1), (bb_expand b2 (boxof x), g2 @ [x]))}"
  by (simp add: deal_one_def Let_def)

text \<open>The deal keeps enough items back for the minimum fill of both groups.\<close>

definition dealt :: "nat \<Rightarrow> nat \<Rightarrow> 'a list \<Rightarrow> (bbox \<times> 'a list) \<times> (bbox \<times> 'a list) \<Rightarrow> 'a multiset \<Rightarrow> bool" where
  "dealt mn n todo r done_items \<longleftrightarrow>
     (let g1 = snd (fst r); g2 = snd (snd r)
      in mset g1 + mset g2 = done_items \<and> 1 \<le> length g1 \<and> 1 \<le> length g2 \<and>
         length g1 + length g2 + length todo = n \<and>
         min mn (n - 1) \<le> length g1 + length todo \<and> min mn (n - 1) \<le> length g2 + length todo)"

lemma dealt_step:
  assumes "2 * mn \<le> n" "dealt mn n (x # todo) r ms"
  shows "dealt mn n todo (deal_one boxof mn (n - 2) r x) (add_mset x ms)"
proof -
  obtain b1 g1 b2 g2 where r: "r = ((b1, g1), (b2, g2))" by (metis surj_pair)
  have d: "mset g1 + mset g2 = ms" "1 \<le> length g1" "1 \<le> length g2" "length g1 + length g2 + Suc (length todo) = n"
    "min mn (n - 1) \<le> length g1 + Suc (length todo)" "min mn (n - 1) \<le> length g2 + Suc (length todo)"
    using assms(2) by (simp_all add: dealt_def r)
  have rem: "n - 2 - (length g1 - 1) - (length g2 - 1) = Suc (length todo)" using d by linarith
  have m: "min mn (n - 1) = (if mn \<le> n - 1 then mn else n - 1)" by (simp add: min_def)
  show ?thesis
    using assms(1) d rem unfolding r deal_one_def by (auto simp: dealt_def Let_def m split: if_splits)
qed

lemma quadratic_split_correct:
  assumes "2 \<le> length items" "2 * mn \<le> length items" "quadratic_split boxof items mn = (g1, g2)"
  shows "mset g1 + mset g2 = mset items" "1 \<le> length g1" "1 \<le> length g2" "min mn (length items - 1) \<le> length g1" "min mn (length items - 1) \<le> length g2"
    "length g1 + length g2 = length items"
proof -
  obtain s1 s2 where s: "seed_pair boxof items = (s1, s2)" by fastforce
  note lt = seed_pair_less [OF assms(1) s]
  define idx where "idx = filter (\<lambda>i. i \<noteq> s1 \<and> i \<noteq> s2) [0..<length items]"
  define rest where "rest = map ((!) items) idx"
  define r0 where "r0 = ((boxof (items ! s1), [items ! s1]), (boxof (items ! s2), [items ! s2]))"
  define r where "r = foldl (deal_one boxof mn (length rest)) r0 rest"
  have g: "g1 = snd (fst r)" "g2 = snd (snd r)"
    using assms(3) by (simp_all add: quadratic_split_def s Let_def idx_def rest_def r0_def r_def)
  have "mset [0..<length items] = mset idx + mset (filter (\<lambda>i. \<not> (i \<noteq> s1 \<and> i \<noteq> s2)) [0..<length items])"
    unfolding idx_def mset_filter by (rule multiset_partition)
  moreover have "mset (filter (\<lambda>i. \<not> (i \<noteq> s1 \<and> i \<noteq> s2)) [0..<length items]) = {#s1, s2#}"
  proof -
    have "set (filter (\<lambda>i. \<not> (i \<noteq> s1 \<and> i \<noteq> s2)) [0..<length items]) = set [s1, s2]" using lt by auto
    moreover have "distinct (filter (\<lambda>i. \<not> (i \<noteq> s1 \<and> i \<noteq> s2)) [0..<length items])" "distinct [s1, s2]" using lt by auto
    ultimately show ?thesis by (metis set_eq_iff_mset_eq_distinct mset.simps(1) mset.simps(2))
  qed
  ultimately have idx: "mset [0..<length items] = mset idx + {#s1, s2#}" by (simp only:)
  have "mset items = image_mset ((!) items) (mset [0..<length items])" by (simp only: map_nth flip: mset_map)
  then have all: "mset items = mset rest + {#items ! s1, items ! s2#}" unfolding idx by (simp add: rest_def)
  have len: "length items = length rest + 2" using arg_cong [OF all, of size] by simp
  have "dealt mn (length items) (drop k rest) (foldl (deal_one boxof mn (length rest)) r0 (take k rest)) ({#items ! s1, items ! s2#} + mset (take k rest))"
    if "k \<le> length rest" for k
    using that
  proof (induction k)
    case 0
    then show ?case using len by (auto simp: dealt_def r0_def Let_def)
  next
    case (Suc k)
    then have k: "drop k rest = rest ! k # drop (Suc k) rest" "take (Suc k) rest = take k rest @ [rest ! k]"
      by (simp_all add: Cons_nth_drop_Suc take_Suc_conv_app_nth)
    have "length items - 2 = length rest" using len by simp
    then show ?case using dealt_step [OF assms(2), of "rest ! k" "drop (Suc k) rest" _ _ boxof] Suc k by simp
  qed
  from this [of "length rest"] have d: "dealt mn (length items) [] r ({#items ! s1, items ! s2#} + mset rest)" by (simp add: r_def)
  then show "mset g1 + mset g2 = mset items" "1 \<le> length g1" "1 \<le> length g2" "min mn (length items - 1) \<le> length g1" "min mn (length items - 1) \<le> length g2"
    "length g1 + length g2 = length items"
    using all by (simp_all add: dealt_def Let_def g union_commute)
qed

section \<open>Insertion keeps the invariant\<close>

definition inserted_ok :: "nat \<Rightarrow> nat \<Rightarrow> nat \<Rightarrow> nat \<Rightarrow> rnode \<Rightarrow> index_item \<Rightarrow> rnode \<times> rnode option \<Rightarrow> bool" where
  "inserted_ok m mx mn h n it r \<longleftrightarrow> rt_wf m mx h (fst r) \<and>
     (case snd r of
        None \<Rightarrow> mset (collect (fst r)) = add_mset it (mset (collect n)) \<and> r_fill n \<le> r_fill (fst r) \<and> 1 \<le> r_fill (fst r)
      | Some sib \<Rightarrow> rt_wf m mx h sib \<and> mn \<le> r_fill (fst r) \<and> mn \<le> r_fill sib \<and>
          mset (collect (fst r)) + mset (collect sib) = add_mset it (mset (collect n)))"

lemma split_groups:
  assumes "length items = Suc mx" "1 \<le> mn" "2 * mn \<le> mx" "quadratic_split boxof items mn = (g1, g2)"
  shows "mset g1 + mset g2 = mset items" "mn \<le> length g1" "mn \<le> length g2" "length g1 \<le> mx" "length g2 \<le> mx" "set g1 \<union> set g2 = set items"
proof -
  note q = quadratic_split_correct [OF _ _ assms(4)]
  have l: "2 \<le> length items" "2 * mn \<le> length items" using assms(1-3) by linarith+
  show m: "mset g1 + mset g2 = mset items" by (rule q(1) [OF l])
  show "mn \<le> length g1" "mn \<le> length g2" "length g1 \<le> mx" "length g2 \<le> mx"
    using q(2-6) [OF l] assms(1-3) by linarith+
  show "set g1 \<union> set g2 = set items" by (metis m set_mset_mset set_mset_union)
qed

lemma collect_kids_mset: "mset ks = mset ks' \<Longrightarrow> mset (concat (map collect ks)) = mset (concat (map collect ks'))"
proof -
  assume m: "mset ks = mset ks'"
  have "mset (concat (map collect xs)) = \<Sum>\<^sub># (image_mset (\<lambda>k. mset (collect k)) (mset xs))" for xs
    by (induction xs) simp_all
  then show ?thesis using m by simp
qed

lemma collect_update:
  assumes "i < length ks"
  shows "mset (concat (map collect (ks[i := k]))) + mset (collect (ks ! i)) = mset (concat (map collect ks)) + mset (collect k)"
  using assms by (induction ks arbitrary: i) (auto split: nat.splits)

lemma do_insert_correct:
  assumes "1 \<le> m" "m \<le> mn" "2 * mn \<le> mx" "rt_wf m mx h n" "r_leaf n \<or> r_kids n \<noteq> []"
  shows "inserted_ok m mx mn h n it (do_insert mx mn n it)"
  using assms(4,5)
proof (induction n arbitrary: h)
  case (RNode leaf b es ks)
  have mn: "1 \<le> mn" using assms(1,2) by simp
  show ?case
  proof (cases leaf)
    case True
    then have n: "b = envelope (map snd es)" "ks = []" "h = 0" "length es \<le> mx" using RNode.prems(1) by auto
    show ?thesis
    proof (cases "length (es @ [it]) \<le> mx")
      case fits: True
      then have "do_insert mx mn (RNode leaf b es ks) it = (RNode leaf (bb_expand b (snd it)) (es @ [it]) ks, None)"
        using True by simp
      then show ?thesis using True fits n by (simp add: inserted_ok_def envelope_snoc)
    next
      case False
      then have l: "length (es @ [it]) = Suc mx" using n(4) by simp
      obtain g1 g2 where g: "quadratic_split snd (es @ [it]) mn = (g1, g2)" by fastforce
      note sp = split_groups [OF l mn assms(3) g]
      have e: "do_insert mx mn (RNode leaf b es ks) it =
          (r_refit (RNode True (bb_expand b (snd it)) g1 []), Some (r_refit (RNode True NoBox g2 [])))"
        using True False n(2) g by simp
      show ?thesis
        unfolding e inserted_ok_def fst_conv snd_conv option.case rt_wf_leaf
        using sp n(2,3) True by simp
    qed
  next
    case False
    define h' where "h' = h - 1"
    have n: "es = []" "0 < h" "length ks \<le> mx" "\<forall>k \<in> set ks. rt_wf m mx h' k \<and> m \<le> r_fill k" "ks \<noteq> []"
      using RNode.prems False by (auto simp: h'_def)
    define best where "best = choose_subtree ks (snd it)"
    have best: "best < length ks" using choose_subtree_less [OF n(5)] by (simp add: best_def)
    then have kin: "ks ! best \<in> set ks" by simp
    have k: "rt_wf m mx h' (ks ! best)" "m \<le> r_fill (ks ! best)" using n(4) kin by auto
    have "r_leaf (ks ! best) \<or> r_kids (ks ! best) \<noteq> []" using k(2) assms(1) by (auto simp: r_fill_def split: if_splits)
    from RNode.IH [OF kin k(1) this] have ih: "inserted_ok m mx mn h' (ks ! best) it (do_insert mx mn (ks ! best) it)" .
    obtain k' sib where d: "do_insert mx mn (ks ! best) it = (k', sib)" by fastforce
    let ?ks = "ks[best := k']"
    have up: "k \<in> set ?ks \<Longrightarrow> k = k' \<or> k \<in> set ks" for k using set_update_subset_insert by fast
    note mset_up = collect_update [OF best, of k']
    show ?thesis
    proof (cases sib)
      case None
      have k': "rt_wf m mx h' k'" "mset (collect k') = add_mset it (mset (collect (ks ! best)))" "m \<le> r_fill k'"
        using ih k(2) by (auto simp: inserted_ok_def d None)
      have e: "do_insert mx mn (RNode leaf b es ks) it = (r_refit (RNode False (bb_expand b (snd it)) [] ?ks), None)"
        using False n(1,5) d None by (simp add: best_def [symmetric])
      show ?thesis
        unfolding e inserted_ok_def fst_conv snd_conv option.case rt_wf_internal
        using n k' up mset_up False by (auto simp: h'_def Suc_leI)
    next
      case (Some s)
      let ?kss = "?ks @ [s]"
      have k': "rt_wf m mx h' k'" "rt_wf m mx h' s" "m \<le> r_fill k'" "m \<le> r_fill s"
        "mset (collect k') + mset (collect s) = add_mset it (mset (collect (ks ! best)))"
        using ih assms(2) by (auto simp: inserted_ok_def d Some)
      have all: "\<forall>k \<in> set ?kss. rt_wf m mx h' k \<and> m \<le> r_fill k" using n(4) k' up by auto
      have coll: "mset (concat (map collect ?kss)) = add_mset it (mset (concat (map collect ks)))"
      proof -
        have "mset (concat (map collect ?ks)) + (mset (collect k') + mset (collect s)) =
            mset (concat (map collect ?ks)) + mset (collect (ks ! best)) + {#it#}" using k'(5) by simp
        also have "\<dots> = mset (concat (map collect ks)) + mset (collect k') + {#it#}" using mset_up by simp
        finally have "mset (collect k') + (mset (concat (map collect ?ks)) + mset (collect s)) =
            mset (collect k') + (mset (concat (map collect ks)) + {#it#})" by (simp only: ac_simps)
        then have "mset (concat (map collect ?ks)) + mset (collect s) = mset (concat (map collect ks)) + {#it#}"
          by (simp only: add_left_cancel)
        then show ?thesis by simp
      qed
      show ?thesis
      proof (cases "length ?kss \<le> mx")
        case fits: True
        have e: "do_insert mx mn (RNode leaf b es ks) it = (r_refit (RNode False (bb_expand b (snd it)) [] ?kss), None)"
          using False n(1,5) d Some fits by (simp add: best_def [symmetric])
        show ?thesis
          unfolding e inserted_ok_def fst_conv snd_conv option.case rt_wf_internal
          using n(2) all coll fits False by (simp add: h'_def)
      next
        case full: False
        then have l: "length ?kss = Suc mx" using n(3) by simp
        obtain g1 g2 where g: "quadratic_split r_box ?kss mn = (g1, g2)" by fastforce
        note sp = split_groups [OF l mn assms(3) g]
        have e: "do_insert mx mn (RNode leaf b es ks) it =
            (r_refit (RNode False (bb_expand b (snd it)) [] g1), Some (r_refit (RNode False NoBox [] g2)))"
          using False n(1,5) d Some full g by (simp add: best_def [symmetric])
        have "mset (concat (map collect (g1 @ g2))) = mset (concat (map collect ?kss))"
          by (rule collect_kids_mset) (simp only: mset_append sp(1))
        then have c: "mset (concat (map collect g1)) + mset (concat (map collect g2)) = add_mset it (mset (concat (map collect ks)))"
          using coll by simp
        have "\<forall>k \<in> set g1 \<union> set g2. rt_wf m mx h' k \<and> m \<le> r_fill k" using all sp(6) by simp
        then show ?thesis
          unfolding e inserted_ok_def fst_conv snd_conv option.case rt_wf_internal
          using n(2) sp(2-5) c False by (simp add: h'_def ball_Un)
      qed
    qed
  qed
qed

section \<open>Queries\<close>

lemma box_covers: "rt_wf m mx h n \<Longrightarrow> it \<in> set (collect n) \<Longrightarrow> fully_contains (r_box n) (snd it)"
proof (induction n arbitrary: h)
  case (RNode leaf b es ks)
  have cov: "x \<in> set (map snd es @ map r_box ks) \<Longrightarrow> fully_contains b x" for x
    using envelope_covers RNode.prems(1) by fastforce
  show ?case
  proof (cases leaf)
    case True
    then show ?thesis using RNode.prems cov by auto
  next
    case False
    then obtain k where k: "k \<in> set ks" "it \<in> set (collect k)" using RNode.prems by auto
    then have "fully_contains (r_box k) (snd it)" using RNode.IH [of k "h - 1"] RNode.prems False by auto
    then show ?thesis using cov [of "r_box k"] k(1) by (auto intro: fully_contains_trans)
  qed
qed

lemma rt_query_node_correct: "rt_wf m mx h n \<Longrightarrow> rt_query_node q n = matching q (collect n)"
proof (induction n arbitrary: h)
  case (RNode leaf b es ks)
  show ?case
  proof (cases "bb_intersects b q")
    case True
    have "map (rt_query_node q) ks = map (\<lambda>k. matching q (collect k)) ks" if "\<not> leaf"
      using that RNode.IH RNode.prems by (auto intro!: map_cong)
    then show ?thesis using True by (cases leaf) (simp_all add: matching_concat comp_def cong: map_cong)
  next
    case False
    then have "\<forall>it \<in> set (collect (RNode leaf b es ks)). \<not> bb_intersects (snd it) q"
      using box_covers [OF RNode.prems] fully_contains_intersects by fastforce
    then have "matching q (collect (RNode leaf b es ks)) = []" unfolding matching_def by (simp only: map_is_Nil_conv filter_empty_conv)
    then show ?thesis using False by (simp del: collect.simps)
  qed
qed

lemma rt_trace_node_query: "fst (rt_trace_node q n depth acc) = fst acc @ rt_query_node q n"
proof (induction n arbitrary: depth acc)
  case (RNode leaf b es ks)
  have "fst (foldl (\<lambda>acc k. rt_trace_node q k d acc) acc xs) = fst acc @ concat (map (rt_query_node q) xs)"
    if "set xs \<subseteq> set ks" for xs d acc
    using that RNode by (induction xs arbitrary: acc) auto
  then show ?case by (simp add: Let_def)
qed

section \<open>Removal\<close>

lemma rt_remove_correct:
  shows "m \<le> mn \<Longrightarrow> rt_wf m mx h n \<Longrightarrow> (case rt_remove_node i mn n of
      None \<Rightarrow> erase_id i (collect n) = None
    | Some (n', orphans) \<Rightarrow> rt_wf m mx h n' \<and>
        (\<exists>its. erase_id i (collect n) = Some its \<and> mset (collect n') + mset orphans = mset its))"
    and "m \<le> mn \<Longrightarrow> \<forall>k \<in> set ks. rt_wf m mx h k \<and> m \<le> r_fill k \<Longrightarrow> (case rt_remove_kids i mn ks of
      None \<Rightarrow> erase_id i (concat (map collect ks)) = None
    | Some (ks', orphans) \<Rightarrow> (\<forall>k \<in> set ks'. rt_wf m mx h k \<and> m \<le> r_fill k) \<and> length ks' \<le> length ks \<and>
        (\<exists>its. erase_id i (concat (map collect ks)) = Some its \<and> mset (concat (map collect ks')) + mset orphans = mset its))"
proof (induction i mn n and i mn ks arbitrary: h and h rule: rt_remove_node_rt_remove_kids.induct)
  case (1 i mn leaf b es ks)
  show ?case
  proof (cases leaf)
    case True
    have "length es' \<le> length es" if "erase_id i es = Some es'" for es'
      using erase_id_Some_mset [OF that] by (metis add_mset_eq_single le_SucI le_refl size_add_mset size_mset)
    with True "1.prems" show ?thesis by (fastforce split: option.splits)
  next
    case False
    then have ks: "es = []" "0 < h" "length ks \<le> mx" "\<forall>k \<in> set ks. rt_wf m mx (h - 1) k \<and> m \<le> r_fill k" using "1.prems" by auto
    from "1.IH" [OF False "1.prems"(1) ks(4)] False ks(1-3) show ?thesis
      by (auto simp del: r_refit.simps simp: rt_wf_internal split: option.splits)
  qed
next
  case (2 i mn)
  then show ?case by simp
next
  case (3 i mn k ks)
  have mn: "m \<le> mn" and k: "rt_wf m mx h k" and fk: "m \<le> r_fill k" and ks: "\<forall>k \<in> set ks. rt_wf m mx h k \<and> m \<le> r_fill k" using "3.prems" by auto
  show ?case
  proof (cases "rt_remove_node i mn k")
    case None
    with "3.IH"(1) [OF mn k] "3.IH"(2) [OF None mn ks] k fk show ?thesis
      by (fastforce simp: erase_id_append split: option.splits)
  next
    case (Some r)
    obtain k' orphans where r: "r = (k', orphans)" by fastforce
    obtain its where its: "rt_wf m mx h k'" "erase_id i (collect k) = Some its" "mset (collect k') + mset orphans = mset its"
      using "3.IH"(1) [OF mn k] Some r by auto
    show ?thesis
      using Some r its ks mn by (auto simp: erase_id_append not_less ac_simps)
  qed
qed

lemma collapse_root_correct: "rt_wf m mx h n \<Longrightarrow> (\<exists>h'. rt_wf m mx h' (collapse_root n)) \<and> collect (collapse_root n) = collect n"
proof (induction n arbitrary: h)
  case (RNode leaf b es ks)
  show ?case
  proof (cases "\<not> leaf \<and> length ks = 1")
    case True
    then obtain k where ks: "ks = [k]" by (auto simp: length_Suc_conv)
    have "rt_wf m mx (h - 1) k" using RNode.prems True ks by auto
    from RNode.IH [OF _ this] show ?thesis using True ks by simp
  next
    case False
    then have "collapse_root (RNode leaf b es ks) = RNode leaf b es ks" by (auto split: list.splits)
    then show ?thesis using RNode.prems by (auto simp del: collapse_root.simps rt_wf.simps)
  qed
qed

lemma drop_to_leaf_correct:
  "rt_wf m mx h n \<Longrightarrow> (\<exists>h'. rt_wf m mx h' (drop_to_leaf n)) \<and> collect (drop_to_leaf n) = collect n \<and>
     (r_leaf (drop_to_leaf n) \<or> r_kids (drop_to_leaf n) \<noteq> [])"
  by (cases n) (auto simp: drop_to_leaf_def envelope_def)

section \<open>Packing\<close>

declare runs.simps [simp del]

lemma runs_correct:
  "0 < k \<Longrightarrow> concat (runs k xs) = xs \<and> (\<forall>g \<in> set (runs k xs). g \<noteq> [] \<and> length g \<le> k)"
proof (induction k xs rule: runs.induct)
  case (1 k xs)
  show ?case
  proof (cases "xs = []")
    case False
    then have "runs k xs = take k xs # runs k (drop k xs)" using "1.prems" by (simp add: runs.simps [of k xs])
    then show ?thesis using 1 False by simp
  qed (simp add: runs.simps)
qed

lemma runs_Cons: "0 < k \<Longrightarrow> xs \<noteq> [] \<Longrightarrow> runs k xs = take k xs # runs k (drop k xs)"
  by (simp add: runs.simps [of k xs])

lemma slice_numbers:
  assumes "0 < n" "0 < M"
  defines "S \<equiv> nat \<lceil>sqrt (real ((n + M - 1) div M))\<rceil>"
  shows "0 < S" "0 < (n + S - 1) div S" "2 \<le> n \<Longrightarrow> 2 \<le> M \<Longrightarrow> 2 \<le> (n + S - 1) div S"
proof -
  define p where "p = (n + M - 1) div M"
  have p1: "1 \<le> p" using assms(1,2) by (simp add: p_def div_greater_zero_iff Suc_leI)
  have "sqrt (real p) \<le> real p" using p1 by (intro real_le_lsqrt) (simp_all add: power2_eq_square)
  then have "\<lceil>sqrt (real p)\<rceil> \<le> int p" by (simp add: ceiling_le_iff)
  then have Sp: "S \<le> p" by (simp only: S_def flip: p_def)
  have "0 < sqrt (real p)" using p1 by simp
  then show S: "0 < S" unfolding S_def p_def [symmetric] by simp
  show "0 < (n + S - 1) div S" using S assms(1) by (simp add: div_greater_zero_iff)
  show "2 \<le> (n + S - 1) div S" if "2 \<le> n" "2 \<le> M"
  proof -
    have "p * M \<le> n + M - 1" unfolding p_def by (rule div_times_less_eq_dividend)
    then have "(p - 1) * M \<le> n - 1" using p1 by (simp add: diff_mult_distrib)
    moreover have "(p - 1) * 2 \<le> (p - 1) * M" using that(2) by simp
    ultimately have "p \<le> n - 1" using that(1) p1 by linarith
    then have "2 * S \<le> n + S - 1" using Sp that(1) by linarith
    then show ?thesis using S by (simp add: less_eq_div_iff_mult_less_eq)
  qed
qed

lemma length_concat_groups: "\<forall>g \<in> set gs. g \<noteq> [] \<Longrightarrow> length gs \<le> length (concat gs)"
proof (induction gs)
  case (Cons g gs)
  then have "1 \<le> length g" by (simp add: Suc_leI)
  moreover have "length gs \<le> length (concat gs)" using Cons by simp
  ultimately have "1 + length gs \<le> length g + length (concat gs)" by (rule add_mono)
  then show ?case by simp
qed simp

lemma str_partition_correct:
  fixes items :: "'a list"
  assumes "items \<noteq> []" "0 < M" and gs: "gs = str_partition boxof idof M items"
  shows "mset (concat gs) = mset items" "\<forall>g \<in> set gs. g \<noteq> [] \<and> length g \<le> M" "length gs \<le> length items"
    "2 \<le> length items \<Longrightarrow> 2 \<le> M \<Longrightarrow> length gs < length items" "gs \<noteq> []"
proof -
  define S where "S = nat \<lceil>sqrt (real ((length items + M - 1) div M))\<rceil>"
  define per where "per = (length items + S - 1) div S"
  define slices where "slices = runs per (str_slice_sort True boxof idof items)"
  define tile where "tile = (\<lambda>slice. runs M (str_slice_sort False boxof idof slice))"
  have gs: "gs = concat (map tile slices)"
    unfolding gs str_partition_def Let_def slices_def per_def S_def tile_def by (rule refl)
  have n: "0 < length items" using assms(1) by simp
  have per: "0 < per" using slice_numbers(2) [OF n assms(2)] by (simp add: per_def S_def)
  have srt: "mset (str_slice_sort d boxof idof xs) = mset xs" for d xs by (simp add: str_slice_sort_def)
  have tile: "mset (concat (tile sl)) = mset sl" "\<forall>g \<in> set (tile sl). g \<noteq> [] \<and> length g \<le> M" for sl
    using runs_correct [OF assms(2), of "str_slice_sort False boxof idof sl"] srt by (simp_all add: tile_def)
  have "mset (concat (concat (map tile sls))) = mset (concat sls)" for sls
    by (induction sls) (simp_all add: tile)
  then show m: "mset (concat gs) = mset items" using runs_correct [OF per, of "str_slice_sort True boxof idof items"] srt by (simp add: gs slices_def)
  show g: "\<forall>g \<in> set gs. g \<noteq> [] \<and> length g \<le> M" using tile(2) by (auto simp: gs)
  have len: "length (concat gs) = length items" using m by (metis size_mset)
  show "length gs \<le> length items" using length_concat_groups [of gs] g len by simp
  show "gs \<noteq> []" using len n by auto
  assume two: "2 \<le> length items" "2 \<le> M"
  have per2: "2 \<le> per" using slice_numbers(3) [OF n assms(2)] two by (simp add: per_def S_def)
  define s1 where "s1 = take per (str_slice_sort True boxof idof items)"
  have ls: "length (str_slice_sort b boxof idof xs) = length xs" for b xs using srt by (metis size_mset)
  have s1: "2 \<le> length s1" using per2 two by (simp add: s1_def ls)
  have "str_slice_sort True boxof idof items \<noteq> []" using n ls by (metis length_greater_0_conv)
  then obtain rest where "slices = s1 # rest"
    using runs_Cons [OF per, of "str_slice_sort True boxof idof items"] by (simp add: slices_def s1_def)
  moreover have "str_slice_sort False boxof idof s1 \<noteq> []" using s1 ls by (metis length_0_conv not_numeral_le_zero)
  ultimately obtain gs' where gs': "gs = take M (str_slice_sort False boxof idof s1) # gs'"
    using runs_Cons [OF assms(2), of "str_slice_sort False boxof idof s1"] by (simp add: gs tile_def)
  have "2 \<le> length (take M (str_slice_sort False boxof idof s1))" using s1 two(2) by (simp add: ls)
  moreover have "length gs' \<le> length (concat gs')" using length_concat_groups [of gs'] g gs' by simp
  moreover have "length gs = Suc (length gs')"
    "length (concat gs) = length (take M (str_slice_sort False boxof idof s1)) + length (concat gs')" by (simp_all add: gs')
  ultimately show "length gs < length items" unfolding len [symmetric] by linarith
qed

text \<open>A level of the packed tree.\<close>

definition level_ok :: "nat \<Rightarrow> nat \<Rightarrow> rnode list \<Rightarrow> index_item list \<Rightarrow> bool" where
  "level_ok mx h level items \<longleftrightarrow> level \<noteq> [] \<and> (\<forall>n \<in> set level. rt_wf 1 mx h n \<and> 1 \<le> r_fill n) \<and>
     mset (concat (map collect level)) = mset items"

lemma pack_leaves_ok:
  assumes "items \<noteq> []" "4 \<le> mx"
  shows "level_ok mx 0 (pack_leaves mx items) items" "length (pack_leaves mx items) \<le> length items"
proof -
  define gs where "gs = str_partition snd fst mx items"
  have "0 < mx" using assms(2) by simp
  note sp = str_partition_correct [OF assms(1) this gs_def]
  have "map collect (pack_leaves mx items) = gs" by (simp add: pack_leaves_def comp_def flip: gs_def)
  then show "level_ok mx 0 (pack_leaves mx items) items"
    using sp by (auto simp: level_ok_def pack_leaves_def Suc_leI simp flip: gs_def)
  show "length (pack_leaves mx items) \<le> length items" using sp(3) by (simp add: pack_leaves_def flip: gs_def)
qed

lemma pack_level_ok:
  assumes "level_ok mx h level items" "4 \<le> mx" "1 < length level"
  shows "level_ok mx (Suc h) (pack_level mx level) items" "length (pack_level mx level) < length level"
proof -
  define gs where "gs = str_partition r_box id_of_kid mx level"
  have ne: "level \<noteq> []" and mx: "0 < mx" using assms by auto
  note sp = str_partition_correct [OF ne mx gs_def]
  have "map collect (pack_level mx level) = map (\<lambda>g. concat (map collect g)) gs" by (simp add: pack_level_def comp_def flip: gs_def)
  moreover have "concat (map (\<lambda>g. concat (map collect g)) gs) = concat (map collect (concat gs))"
    by (induction gs) simp_all
  ultimately have "concat (map collect (pack_level mx level)) = concat (map collect (concat gs))" by simp
  then have "mset (concat (map collect (pack_level mx level))) = mset items"
    using collect_kids_mset [OF sp(1)] assms(1) by (simp add: level_ok_def)
  moreover have "set (concat gs) = set level" using sp(1) by (metis set_mset_mset)
  then have "\<forall>g \<in> set gs. \<forall>n \<in> set g. rt_wf 1 mx h n \<and> 1 \<le> r_fill n" using assms(1) by (auto simp: level_ok_def)
  ultimately show "level_ok mx (Suc h) (pack_level mx level) items"
    using sp(2,5) by (auto simp: level_ok_def pack_level_def Suc_leI simp flip: gs_def)
  show "length (pack_level mx level) < length level" using sp(4) assms(2,3) by (simp add: pack_level_def flip: gs_def)
qed

lemma pack_levels_ok:
  "level_ok mx h level items \<Longrightarrow> 4 \<le> mx \<Longrightarrow> length level \<le> fuel \<Longrightarrow>
   \<exists>h' n. pack_levels fuel mx level = [n] \<and> level_ok mx h' [n] items"
proof (induction fuel arbitrary: h level)
  case (Suc fuel)
  show ?case
  proof (cases "1 < length level")
    case True
    note p = pack_level_ok [OF Suc.prems(1,2) True]
    from Suc.IH [OF p(1) Suc.prems(2)] p(2) Suc.prems(3) True show ?thesis by simp
  next
    case False
    then obtain n where "level = [n]" using Suc.prems(1) by (cases level) (auto simp: level_ok_def)
    then show ?thesis using Suc.prems(1) by auto
  qed
qed (simp add: level_ok_def)

section \<open>The index keeps the invariant\<close>

definition rt_inv :: "nat \<Rightarrow> rtree \<Rightarrow> bool" where
  "rt_inv m s \<longleftrightarrow> 1 \<le> m \<and> m \<le> rt_min s \<and> 2 * rt_min s \<le> rt_max s \<and> 4 \<le> rt_max s \<and>
     (\<exists>h. rt_wf m (rt_max s) h (rt_root s)) \<and> (r_leaf (rt_root s) \<or> r_kids (rt_root s) \<noteq> []) \<and>
     rt_count s = length (collect (rt_root s))"

lemma rt_new_inv: "rt_inv (rt_min (rt_new mx)) (rt_new mx)" "collect (rt_root (rt_new mx)) = []"
  by (auto simp: rt_inv_def rt_new_def new_node_def envelope_def)

lemma rt_inv_mono:
  assumes "rt_inv m s"
  shows "rt_inv 1 s"
proof -
  have "rt_wf m mx h n \<Longrightarrow> rt_wf 1 mx h n" for mx h n
    using assms by (induction n arbitrary: h) (fastforce simp: rt_inv_def)
  then show ?thesis using assms by (auto simp: rt_inv_def)
qed

lemma rt_insert_correct:
  assumes "rt_inv m s"
  shows "rt_inv m (rt_insert i b s)" "mset (collect (rt_root (rt_insert i b s))) = add_mset (i, b) (mset (collect (rt_root s)))"
    "rt_max (rt_insert i b s) = rt_max s" "rt_min (rt_insert i b s) = rt_min s" "rt_count (rt_insert i b s) = rt_count s + 1"
proof -
  have a: "1 \<le> m" "m \<le> rt_min s" "2 * rt_min s \<le> rt_max s" "4 \<le> rt_max s" "r_leaf (rt_root s) \<or> r_kids (rt_root s) \<noteq> []"
    "rt_count s = length (collect (rt_root s))" using assms by (simp_all add: rt_inv_def)
  obtain h where h: "rt_wf m (rt_max s) h (rt_root s)" using assms by (auto simp: rt_inv_def)
  note ins = do_insert_correct [OF a(1-3) h a(5), of "(i, b)"]
  obtain n sib where d: "do_insert (rt_max s) (rt_min s) (rt_root s) (i, b) = (n, sib)" by fastforce
  show "rt_max (rt_insert i b s) = rt_max s" "rt_min (rt_insert i b s) = rt_min s" "rt_count (rt_insert i b s) = rt_count s + 1"
    by (simp_all add: rt_insert_def Let_def)
  have r: "\<exists>h. rt_wf m (rt_max s) h (rt_root (rt_insert i b s))" "mset (collect (rt_root (rt_insert i b s))) = add_mset (i, b) (mset (collect (rt_root s)))"
    "r_leaf (rt_root (rt_insert i b s)) \<or> r_kids (rt_root (rt_insert i b s)) \<noteq> []"
  proof (atomize (full), cases sib)
    case None
    then have "rt_root (rt_insert i b s) = n" by (simp add: rt_insert_def d Let_def)
    then show "(\<exists>h. rt_wf m (rt_max s) h (rt_root (rt_insert i b s))) \<and>
        mset (collect (rt_root (rt_insert i b s))) = add_mset (i, b) (mset (collect (rt_root s))) \<and>
        (r_leaf (rt_root (rt_insert i b s)) \<or> r_kids (rt_root (rt_insert i b s)) \<noteq> [])"
      using ins by (auto simp: inserted_ok_def d None r_fill_def split: if_splits)
  next
    case (Some sb)
    then have root: "rt_root (rt_insert i b s) = r_refit (RNode False NoBox [] [n, sb])" by (simp add: rt_insert_def d Let_def)
    have "rt_wf m (rt_max s) (Suc h) (r_refit (RNode False NoBox [] [n, sb]))"
      unfolding rt_wf_internal using ins a(2,4) by (auto simp: inserted_ok_def d Some)
    then show "(\<exists>h. rt_wf m (rt_max s) h (rt_root (rt_insert i b s))) \<and>
        mset (collect (rt_root (rt_insert i b s))) = add_mset (i, b) (mset (collect (rt_root s))) \<and>
        (r_leaf (rt_root (rt_insert i b s)) \<or> r_kids (rt_root (rt_insert i b s)) \<noteq> [])"
      unfolding root using ins by (auto simp: inserted_ok_def d Some simp del: rt_wf.simps)
  qed
  from r(2) have "length (collect (rt_root (rt_insert i b s))) = Suc (length (collect (rt_root s)))" by (metis size_add_mset size_mset)
  then show "rt_inv m (rt_insert i b s)" using a r by (simp add: rt_inv_def rt_insert_def Let_def)
  show "mset (collect (rt_root (rt_insert i b s))) = add_mset (i, b) (mset (collect (rt_root s)))" by (rule r(2))
qed

lemma rt_build_correct:
  assumes "rt_inv m s"
  shows "rt_inv 1 (rt_build items s)" "mset (collect (rt_root (rt_build items s))) = mset items"
proof -
  have a: "1 \<le> rt_min s" "2 * rt_min s \<le> rt_max s" "4 \<le> rt_max s" using assms by (simp_all add: rt_inv_def)
  show "rt_inv 1 (rt_build items s)" "mset (collect (rt_root (rt_build items s))) = mset items"
  proof (atomize (full), cases "items = []")
    case True
    then show "rt_inv 1 (rt_build items s) \<and> mset (collect (rt_root (rt_build items s))) = mset items"
      using a by (auto simp: rt_build_def rt_inv_def new_node_def envelope_def)
  next
    case False
    obtain h n where n: "pack_levels (length items) (rt_max s) (pack_leaves (rt_max s) items) = [n]" "level_ok (rt_max s) h [n] items"
      using pack_levels_ok [OF pack_leaves_ok(1) [OF False a(3)] a(3) pack_leaves_ok(2) [OF False a(3)]] by blast
    have m: "mset (collect n) = mset items" using n(2) by (simp add: level_ok_def)
    then have "length (collect n) = length items" by (metis size_mset)
    moreover have "r_leaf n \<or> r_kids n \<noteq> []" using n(2) by (auto simp: level_ok_def r_fill_def split: if_splits)
    moreover have "rt_wf 1 (rt_max s) h n" using n(2) by (simp add: level_ok_def)
    ultimately show "rt_inv 1 (rt_build items s) \<and> mset (collect (rt_root (rt_build items s))) = mset items"
      using False a m by (auto simp: rt_build_def rt_inv_def n(1))
  qed
qed

lemma rt_build_incremental_correct:
  assumes "rt_inv m s"
  shows "rt_inv m (rt_build_incremental items s)" "mset (collect (rt_root (rt_build_incremental items s))) = mset items"
proof -
  have fold: "rt_inv m s \<Longrightarrow> rt_inv m (foldl (\<lambda>s it. rt_insert (fst it) (snd it) s) s items) \<and>
      mset (collect (rt_root (foldl (\<lambda>s it. rt_insert (fst it) (snd it) s) s items))) = mset (collect (rt_root s)) + mset items" for s
    by (induction items arbitrary: s) (simp_all add: rt_insert_correct)
  have "rt_inv m (s\<lparr>rt_root := new_node, rt_count := 0\<rparr>)"
    using assms by (auto simp: rt_inv_def new_node_def envelope_def)
  from fold [OF this] show "rt_inv m (rt_build_incremental items s)" "mset (collect (rt_root (rt_build_incremental items s))) = mset items"
    by (simp_all add: rt_build_incremental_def new_node_def)
qed

lemma rt_remove_root:
  assumes "rt_inv m s"
  shows "rt_inv m (snd (rt_remove i s))" "fst (rt_remove i s) = (erase_id i (collect (rt_root s)) \<noteq> None)"
    "mset (collect (rt_root (snd (rt_remove i s)))) =
       mset (case erase_id i (collect (rt_root s)) of Some its \<Rightarrow> its | None \<Rightarrow> collect (rt_root s))"
proof -
  have a: "1 \<le> m" "m \<le> rt_min s" "2 * rt_min s \<le> rt_max s" "4 \<le> rt_max s" "r_leaf (rt_root s) \<or> r_kids (rt_root s) \<noteq> []"
    "rt_count s = length (collect (rt_root s))" using assms by (simp_all add: rt_inv_def)
  obtain h where h: "rt_wf m (rt_max s) h (rt_root s)" using assms by (auto simp: rt_inv_def)
  note rem = rt_remove_correct(1) [OF a(2) h, of i]
  have "rt_inv m (snd (rt_remove i s)) \<and> fst (rt_remove i s) = (erase_id i (collect (rt_root s)) \<noteq> None) \<and>
    mset (collect (rt_root (snd (rt_remove i s)))) =
       mset (case erase_id i (collect (rt_root s)) of Some its \<Rightarrow> its | None \<Rightarrow> collect (rt_root s))"
  proof (cases "rt_remove_node i (rt_min s) (rt_root s)")
    case None
    then show ?thesis using rem assms by (simp add: rt_remove_def)
  next
    case (Some r)
    obtain n orphans where r: "r = (n, orphans)" by fastforce
    obtain its where its: "rt_wf m (rt_max s) h n" "erase_id i (collect (rt_root s)) = Some its" "mset (collect n) + mset orphans = mset its"
      using rem Some r by auto
    define n' where "n' = drop_to_leaf (collapse_root n)"
    have n': "\<exists>h. rt_wf m (rt_max s) h n'" "collect n' = collect n" "r_leaf n' \<or> r_kids n' \<noteq> []"
      using collapse_root_correct [OF its(1)] drop_to_leaf_correct by (auto simp: n'_def)
    define s0 where "s0 = s\<lparr>rt_root := n', rt_count := rt_count s - 1\<rparr>"
    define f where "f = (\<lambda>s (e :: index_item). let s = rt_insert (fst e) (snd e) s in s\<lparr>rt_count := rt_count s - 1\<rparr>)"
    have e: "rt_remove i s = (True, foldl f s0 orphans)"
      using Some r by (simp add: rt_remove_def s0_def n'_def f_def)
    let ?fix = "\<lambda>t. t\<lparr>rt_count := length (collect (rt_root t))\<rparr>"
    have step: "rt_inv m (?fix (f t x)) \<and> rt_count (f t x) = rt_count t \<and>
        mset (collect (rt_root (f t x))) = add_mset x (mset (collect (rt_root t)))"
      if t: "rt_inv m (?fix t)" for t x
    proof -
      have same: "rt_root (rt_insert (fst x) (snd x) t) = rt_root (rt_insert (fst x) (snd x) (?fix t))"
        "rt_max (rt_insert (fst x) (snd x) t) = rt_max t" "rt_min (rt_insert (fst x) (snd x) t) = rt_min t"
        "rt_count (rt_insert (fst x) (snd x) t) = rt_count t + 1"
        by (simp_all add: rt_insert_def Let_def)
      note ic = rt_insert_correct [OF t, of "fst x" "snd x"]
      show ?thesis using ic same by (simp add: f_def Let_def rt_inv_def)
    qed
    have fold: "rt_inv m (?fix (foldl f t xs)) \<and> rt_count (foldl f t xs) = rt_count t \<and>
        mset (collect (rt_root (foldl f t xs))) = mset (collect (rt_root t)) + mset xs"
      if "rt_inv m (?fix t)" for t xs
      using that by (induction xs arbitrary: t) (simp_all add: step)
    have "rt_inv m (?fix s0)" using a n' by (simp add: s0_def rt_inv_def)
    note fo = fold [OF this, of orphans]
    have "length its = length (collect (rt_root s)) - 1"
      using erase_id_Some_mset [OF its(2)] by (metis diff_Suc_1 size_add_mset size_mset)
    moreover have m: "mset (collect (rt_root (foldl f s0 orphans))) = mset its" using fo n'(2) its(3) by (simp add: s0_def)
    then have "length (collect (rt_root (foldl f s0 orphans))) = length its" by (metis size_mset)
    ultimately have "rt_count (foldl f s0 orphans) = length (collect (rt_root (foldl f s0 orphans)))" using fo a(6) by (simp add: s0_def)
    then have "rt_inv m (foldl f s0 orphans)" using fo by (simp add: rt_inv_def)
    then show ?thesis using e m its(2) by simp
  qed
  then show "rt_inv m (snd (rt_remove i s))" "fst (rt_remove i s) = (erase_id i (collect (rt_root s)) \<noteq> None)"
    "mset (collect (rt_root (snd (rt_remove i s)))) =
       mset (case erase_id i (collect (rt_root s)) of Some its \<Rightarrow> its | None \<Rightarrow> collect (rt_root s))" by blast+
qed

interpretation rtree: spatial_index rt_ops "\<lambda>s. rt_inv 1 s \<and> items_ok (collect (rt_root s))" "\<lambda>s. map_of (collect (rt_root s))"
proof (unfold_locales, goal_cases)
  case (1 s its)
  have "rt_inv 1 s" using 1 by simp
  note b = rt_build_correct [OF this, of its]
  then show ?case
    using items_ok_mset [OF b(2)] map_of_mset [OF b(2) [symmetric]] 1(2) by (simp add: rt_ops_def)
next
  case (2 s b i)
  have "rt_inv 1 s" using 2 by simp
  note b = rt_insert_correct [OF this, of i b]
  then show ?case
    using items_ok_insert [OF _ _ _ b(2)] 2 by (simp add: rt_ops_def)
next
  case (3 s i)
  have "rt_inv 1 s" using 3 by simp
  note b = rt_remove_root [OF this, of i]
  show ?case
  proof (cases "erase_id i (collect (rt_root s))")
    case None
    then have m: "mset (collect (rt_root (snd (rt_remove i s)))) = mset (collect (rt_root s))" using b(3) by simp
    show ?thesis
      using b(1,2) None erase_id_None [of i "collect (rt_root s)"] items_ok_mset [OF m] map_of_mset [OF m [symmetric]] 3
      by (simp add: rt_ops_def fun_upd_idem)
  next
    case (Some its)
    then have m: "mset (collect (rt_root (snd (rt_remove i s)))) = mset its" using b(3) by simp
    have "items_ok (collect (rt_root s))" using 3 by simp
    from items_ok_erase [OF this Some m] b(1,2) Some show ?thesis by (simp add: rt_ops_def)
  qed
next
  case (4 s q out)
  then obtain h where "rt_wf 1 (rt_max s) h (rt_root s)" by (auto simp: rt_inv_def)
  from matching_hits [of "collect (rt_root s)" _ q, OF _ refl] rt_query_node_correct [OF this, of q] 4 show ?case
    by (simp add: rt_ops_def rt_query_def rt_inv_def Let_def)
next
  case (5 s)
  then show ?case using items_ok_size by (simp add: rt_ops_def rt_inv_def)
qed

section \<open>The audit\<close>

lemma rt_audit_passes:
  "rt_wf 1 mx h n \<Longrightarrow> r_leaf n \<or> r_kids n \<noteq> [] \<Longrightarrow> \<not> is_root \<longrightarrow> 1 \<le> r_fill n \<Longrightarrow> fst acc = None \<or> fst acc = Some (depth + h) \<Longrightarrow>
   rt_audit n is_root depth mx acc = Some (Some (depth + h), snd acc + length (collect n))"
proof (induction n arbitrary: h is_root depth acc)
  case (RNode leaf b es ks)
  show ?case
  proof (cases leaf)
    case True
    then show ?thesis using RNode.prems by (auto simp: Let_def split: option.splits)
  next
    case False
    then have n: "es = []" "0 < h" "length ks \<le> mx" "\<forall>k \<in> set ks. rt_wf 1 mx (h - 1) k \<and> 1 \<le> r_fill k" "ks \<noteq> []"
      "b = envelope (map r_box ks)" using RNode.prems by auto
    have kids: "rt_audit_kids xs (depth + 1) mx acc =
        Some (if xs = [] then fst acc else Some (depth + h), snd acc + length (concat (map collect xs)))"
      if "set xs \<subseteq> set ks" "fst acc = None \<or> fst acc = Some (depth + h)" for xs acc
      using that
    proof (induction xs arbitrary: acc)
      case (Cons k xs)
      have k: "k \<in> set ks" "rt_wf 1 mx (h - 1) k" "1 \<le> r_fill k" using Cons.prems n(4) by auto
      have "r_leaf k \<or> r_kids k \<noteq> []" using k(3) by (auto simp: r_fill_def split: if_splits)
      from RNode.IH [OF k(1,2) this, of False acc "depth + 1"] k(3) Cons.prems(2) n(2)
      have "rt_audit k False (depth + 1) mx acc = Some (Some (depth + h), snd acc + length (collect k))" by simp
      then show ?case using Cons by (simp add: add.assoc)
    qed simp
    have "rt_audit_kids ks (depth + 1) mx acc = Some (Some (depth + h), snd acc + length (concat (map collect ks)))"
      using kids [of ks acc] n(5) RNode.prems(4) by simp
    then show ?thesis using n False RNode.prems(3) by simp
  qed
qed

lemma rt_inv_check:
  assumes "rt_inv 1 s"
  shows "rt_check_invariants s"
proof -
  obtain h where h: "rt_wf 1 (rt_max s) h (rt_root s)" using assms by (auto simp: rt_inv_def)
  have "rt_audit (rt_root s) True 0 (rt_max s) (None, 0) = Some (Some h, length (collect (rt_root s)))"
    using rt_audit_passes [OF h, of True "(None, 0)" 0] assms by (simp add: rt_inv_def)
  then show ?thesis using assms by (simp add: rt_check_invariants_def rt_inv_def)
qed

fun is_build :: "index_op \<Rightarrow> bool" where
  "is_build (IBuild its) = True"
| "is_build _ = False"

lemma rt_step_inv:
  assumes "rt_inv m s"
  shows "rt_inv (if is_build p then 1 else m) (snd (index_step rt_ops p s))"
proof (cases p)
  case (IQuery q)
  then show ?thesis using assms by (simp add: rt_ops_def rt_query_def Let_def rt_inv_def)
qed (use assms rt_build_correct rt_insert_correct rt_remove_root in \<open>auto simp: rt_ops_def Let_def\<close>)

lemma rt_min_step: "rt_inv m s \<Longrightarrow> rt_min (snd (index_step rt_ops p s)) = rt_min s"
proof -
  have ins: "rt_min (rt_insert i b s) = rt_min s" for i b s by (simp add: rt_insert_def Let_def)
  have "rt_min (foldl (\<lambda>s e. let s = rt_insert (fst e) (snd e) s in s\<lparr>rt_count := rt_count s - 1\<rparr>) s xs) = rt_min s" for s xs
    by (induction xs arbitrary: s) (simp_all add: Let_def ins)
  then show ?thesis
    by (cases p) (auto simp: rt_ops_def rt_build_def ins rt_remove_def rt_query_def Let_def split: option.splits prod.splits)
qed

lemma rt_run_inv:
  "rt_inv m s \<Longrightarrow> \<exists>m'. rt_inv m' (index_state rt_ops ps s) \<and> (list_all (\<lambda>p. \<not> is_build p) ps \<longrightarrow> m' = m) \<and>
     rt_min (index_state rt_ops ps s) = rt_min s"
proof (induction ps arbitrary: m s)
  case Nil
  then show ?case by (auto simp: index_state_def)
next
  case (Cons p ps)
  obtain m' where "rt_inv m' (index_state rt_ops ps (snd (index_step rt_ops p s)))"
    "list_all (\<lambda>p. \<not> is_build p) ps \<longrightarrow> m' = (if is_build p then 1 else m)"
    "rt_min (index_state rt_ops ps (snd (index_step rt_ops p s))) = rt_min s"
    using Cons.IH [OF rt_step_inv [OF Cons.prems, of p]] rt_min_step [OF Cons.prems, of p] by auto
  moreover have "index_state rt_ops (p # ps) s = index_state rt_ops ps (snd (index_step rt_ops p s))" by (simp add: index_state_def)
  ultimately show ?case by auto
qed

text \<open>Every node below this one holds at least \<open>m\<close> entries or children.\<close>

fun rt_filled :: "nat \<Rightarrow> rnode \<Rightarrow> bool" where
  "rt_filled m (RNode leaf b es ks) \<longleftrightarrow> list_all (\<lambda>k. m \<le> r_fill k \<and> rt_filled m k) ks"

lemma rt_wf_filled: "rt_wf m mx h n \<Longrightarrow> rt_filled m n"
proof (induction n arbitrary: h)
  case (RNode leaf b es ks)
  show ?case
  proof (cases leaf)
    case False
    then have "\<forall>k \<in> set ks. rt_wf m mx (h - 1) k \<and> m \<le> r_fill k" using RNode.prems by simp
    then show ?thesis using RNode.IH by (auto simp: list_all_iff)
  qed (use RNode.prems in simp)
qed

section \<open>Properties\<close>

text \<open>The structural audit holds after every sequence of operations: leaves at one depth, every box
  exactly the envelope of what the node holds, no empty node below the root, no node over the maximum,
  and the entry count right. Without bulk packing every node below the root also keeps the minimum
  fill, through splits and through condensing.\<close>

lemma rtree_audit_holds:
  "rt_check_invariants (index_state rt_ops ps (rt_new mx)) \<and>
   (list_all (\<lambda>p. \<not> is_build p) ps \<longrightarrow>
    rt_filled (rt_min (rt_new mx)) (rt_root (index_state rt_ops ps (rt_new mx))))"
proof -
  obtain m where m: "rt_inv m (index_state rt_ops ps (rt_new mx))" "list_all (\<lambda>p. \<not> is_build p) ps \<longrightarrow> m = rt_min (rt_new mx)"
    using rt_run_inv [OF rt_new_inv(1)] by blast
  from m(1) have "\<exists>h. rt_wf m (rt_max (index_state rt_ops ps (rt_new mx))) h (rt_root (index_state rt_ops ps (rt_new mx)))"
    by (simp add: rt_inv_def)
  then show ?thesis using rt_inv_check [OF rt_inv_mono [OF m(1)]] m(2) rt_wf_filled by blast
qed

theorem rtree_audit_holds_witness:
  "rt_filled 2 (rt_root (index_state rt_ops
     [IInsert 1 (Box 0 0 1 1), IInsert 2 (Box 1 1 2 2), IInsert 3 (Box 2 2 3 3), IInsert 4 (Box 5 5 6 6), IInsert 5 (Box 6 6 7 7),
      IRemove 2] (rt_new 4)))"
  using rtree_audit_holds [of "[IInsert 1 (Box 0 0 1 1), IInsert 2 (Box 1 1 2 2), IInsert 3 (Box 2 2 3 3), IInsert 4 (Box 5 5 6 6),
      IInsert 5 (Box 6 6 7 7), IRemove 2]" 4]
  by (simp add: rt_new_def)

end
