(* ===== verification/Geohash.thy ===== *)
theory Geohash
  imports Spatial_Index Bytes
begin

text \<open>
  The geohash index, \<^verbatim>\<open>src/index/geohash.cpp\<close>: an array sorted by Morton key, queried by a key
  range around the query box padded with the largest half extent of an item. Keys have 48 bits, so
  they are naturals here. Coordinates are exact reals; on disk they are the 64 bits of a double,
  which are decoded here as IEEE-754 defines them, and encoded by a parameter that the round trip
  assumes to be the inverse on the stored values. A key range whose ends are in the wrong order, which
  makes the code's loop run past its end, is \<open>None\<close>.
\<close>

definition kBits :: nat where
  "kBits = 24"

definition spread :: "nat \<Rightarrow> nat" where
  "spread v = foldl (\<lambda>x i. if bit v i then x OR push_bit (2 * i) 1 else x) 0 [0..<kBits]"

definition clamp01 :: "real \<Rightarrow> real" where
  "clamp01 f = (if \<not> f \<ge> 0 then 0 else if f > 1 then 1 else f)"

definition morton :: "lat_lon \<Rightarrow> nat" where
  "morton p =
     (let flat = clamp01 ((lat p - - 90) / 180); flon = clamp01 ((lon p - - 180) / 360);
          maxq = 2 ^ kBits - 1;
          qlat = nat \<lfloor>flat * maxq\<rfloor>; qlon = nat \<lfloor>flon * maxq\<rfloor>
      in push_bit 1 (spread qlat) OR spread qlon)"

record geohash_rec =
  g_key :: nat
  g_id :: zone_id
  g_box :: bbox

record geohash =
  gh_recs :: "geohash_rec list"
  gh_half_lat :: real
  gh_half_lon :: real
  gh_st :: index_counters

definition gh_new :: geohash where
  "gh_new = \<lparr>gh_recs = [], gh_half_lat = 0, gh_half_lon = 0, gh_st = no_counters\<rparr>"

definition note_extent :: "bbox \<Rightarrow> geohash \<Rightarrow> geohash" where
  "note_extent b s =
     s\<lparr>gh_half_lat := max (gh_half_lat s) ((max_lat b - min_lat b) * 0.5),
       gh_half_lon := max (gh_half_lon s) ((max_lon b - min_lon b) * 0.5)\<rparr>"

definition recompute_extents :: "geohash \<Rightarrow> geohash" where
  "recompute_extents s = foldl (\<lambda>s r. note_extent (g_box r) s) (s\<lparr>gh_half_lat := 0, gh_half_lon := 0\<rparr>) (gh_recs s)"

definition rec_of :: "index_item \<Rightarrow> geohash_rec" where
  "rec_of it = \<lparr>g_key = morton (bb_center (snd it)), g_id = fst it, g_box = snd it\<rparr>"

definition gh_build :: "index_item list \<Rightarrow> geohash \<Rightarrow> geohash" where
  "gh_build its s =
     (let s = foldl (\<lambda>s it. note_extent (snd it) (s\<lparr>gh_recs := gh_recs s @ [rec_of it]\<rparr>))
            (s\<lparr>gh_recs := [], gh_half_lat := 0, gh_half_lon := 0\<rparr>) its
      in s\<lparr>gh_recs := sort_key g_key (gh_recs s)\<rparr>)"

definition gh_insert :: "zone_id \<Rightarrow> bbox \<Rightarrow> geohash \<Rightarrow> geohash" where
  "gh_insert i b s =
     (let r = rec_of (i, b); n = length (takeWhile (\<lambda>x. \<not> g_key r < g_key x) (gh_recs s))
      in note_extent b (s\<lparr>gh_recs := take n (gh_recs s) @ r # drop n (gh_recs s)\<rparr>))"

fun erase_rec :: "zone_id \<Rightarrow> geohash_rec list \<Rightarrow> geohash_rec list option" where
  "erase_rec i [] = None"
| "erase_rec i (r # rs) = (if g_id r = i then Some rs else map_option ((#) r) (erase_rec i rs))"

definition gh_remove :: "zone_id \<Rightarrow> geohash \<Rightarrow> bool \<times> geohash" where
  "gh_remove i s = (case erase_rec i (gh_recs s) of
      Some rs \<Rightarrow> (True, recompute_extents (s\<lparr>gh_recs := rs\<rparr>)) | None \<Rightarrow> (False, s))"

text \<open>The candidates are counted here as they are scanned, not as they are returned.\<close>

definition gh_query :: "bbox \<Rightarrow> zone_id list \<Rightarrow> geohash \<Rightarrow> (zone_id list \<times> geohash) option" where
  "gh_query q out s =
     (let s = s\<lparr>gh_st := count_query 0 (gh_st s)\<rparr> in
      if gh_recs s = [] then Some (out, s)
      else
        (let z_lo = morton \<lparr>lat = min_lat q - gh_half_lat s, lon = min_lon q - gh_half_lon s\<rparr>;
             z_hi = morton \<lparr>lat = max_lat q + gh_half_lat s, lon = max_lon q + gh_half_lon s\<rparr>;
             first = length (takeWhile (\<lambda>r. g_key r < z_lo) (gh_recs s));
             last = length (takeWhile (\<lambda>r. \<not> z_hi < g_key r) (gh_recs s))
         in if last < first then None
            else
              (let scanned = drop first (take last (gh_recs s))
               in Some (out @ matching q (map (\<lambda>r. (g_id r, g_box r)) scanned),
                    s\<lparr>gh_st := (gh_st s)\<lparr>st_candidates := st_candidates (gh_st s) + length scanned\<rparr>\<rparr>))))"

definition gh_stats :: "geohash \<Rightarrow> index_shape" where
  "gh_stats s = \<lparr>node_count = length (gh_recs s), tree_depth = kBits\<rparr>"

definition gh_ops :: "geohash index_ops" where
  "gh_ops = \<lparr>op_build = gh_build, op_insert = gh_insert, op_remove = gh_remove,
     op_query = \<lambda>q out s. (case gh_query q out s of Some r \<Rightarrow> r | None \<Rightarrow> (out, s)),
     op_size = \<lambda>s. length (gh_recs s)\<rparr>"

section \<open>The file\<close>

text \<open>The value of the 64 bits of a double; nothing for infinities and NaN.\<close>

definition double_value :: "64 word \<Rightarrow> real option" where
  "double_value w =
     (let e = unat (take_bit 11 (drop_bit 52 w)); m = real (unat (take_bit 52 w)); sgn = (if bit w 63 then -1 else 1)
      in if e = 2047 then None
         else if e = 0 then Some (sgn * m / 2 ^ 1074)
         else if e \<le> 1075 then Some (sgn * (2 ^ 52 + m) / 2 ^ (1075 - e)) else Some (sgn * (2 ^ 52 + m) * 2 ^ (e - 1075)))"

definition rd_f64 :: "reader \<Rightarrow> (real option \<times> reader) option" where
  "rd_f64 r = map_option (\<lambda>(w, r). (double_value w, r)) (rd_u64 r)"

definition kMagicGeo :: "32 word" where
  "kMagicGeo = 0x4F454732"

definition kRecBytes :: nat where
  "kRecBytes = 44"

definition put_rec :: "(real \<Rightarrow> 64 word) \<Rightarrow> byte list \<Rightarrow> geohash_rec \<Rightarrow> byte list" where
  "put_rec bits out r =
     foldl (\<lambda>b v. put_u64 b (bits v)) (put_u32 (put_u64 out (of_nat (g_key r))) (of_nat (g_id r)))
       [min_lat (g_box r), min_lon (g_box r), max_lat (g_box r), max_lon (g_box r)]"

definition gh_serialize :: "(real \<Rightarrow> 64 word) \<Rightarrow> geohash \<Rightarrow> byte list" where
  "gh_serialize bits s =
     foldl (put_rec bits)
       (put_u64 (put_u64 (put_u32 (put_u32 [] kMagicGeo) (of_nat (length (gh_recs s)))) (bits (gh_half_lat s))) (bits (gh_half_lon s)))
       (gh_recs s)"

text \<open>A finite double, or rejection.\<close>

definition rd_finite :: "reader \<Rightarrow> (real \<times> reader) option" where
  "rd_finite r = (case rd_f64 r of Some (Some x, r) \<Rightarrow> Some (x, r) | _ \<Rightarrow> None)"

definition rd_rec :: "reader \<Rightarrow> (geohash_rec \<times> reader) option" where
  "rd_rec r =
     (case rd_u64 r of None \<Rightarrow> None | Some (key, r) \<Rightarrow>
      case rd_u32 r of None \<Rightarrow> None | Some (i, r) \<Rightarrow>
      case rd_finite r of None \<Rightarrow> None | Some (a, r) \<Rightarrow>
      case rd_finite r of None \<Rightarrow> None | Some (b, r) \<Rightarrow>
      case rd_finite r of None \<Rightarrow> None | Some (c, r) \<Rightarrow>
      case rd_finite r of None \<Rightarrow> None | Some (d, r) \<Rightarrow>
        if a > c \<or> b > d then None
        else Some (\<lparr>g_key = unat key, g_id = unat i, g_box = Box a b c d\<rparr>, r))"

fun rd_recs :: "nat \<Rightarrow> reader \<Rightarrow> (geohash_rec list \<times> reader) option" where
  "rd_recs 0 r = Some ([], r)"
| "rd_recs (Suc n) r =
     (case rd_rec r of None \<Rightarrow> None | Some (x, r) \<Rightarrow> map_option (\<lambda>(xs, r). (x # xs, r)) (rd_recs n r))"

definition gh_deserialize :: "byte list \<Rightarrow> geohash \<Rightarrow> geohash option" where
  "gh_deserialize d s =
     (case rd_u32 (reader_of d) of None \<Rightarrow> None | Some (magic, r) \<Rightarrow>
      if magic \<noteq> kMagicGeo then None else
      case rd_u32 r of None \<Rightarrow> None | Some (cnt, r) \<Rightarrow>
      case rd_finite r of None \<Rightarrow> None | Some (half_lat, r) \<Rightarrow>
      case rd_finite r of None \<Rightarrow> None | Some (half_lon, r) \<Rightarrow>
      if remaining r \<noteq> unat cnt * kRecBytes then None else
      case rd_recs (unat cnt) r of None \<Rightarrow> None | Some (loaded, r) \<Rightarrow>
      if \<not> at_end r then None
      else if \<not> sorted (map g_key loaded) then None
      else Some (s\<lparr>gh_recs := loaded, gh_half_lat := half_lat, gh_half_lon := half_lon\<rparr>))"

section \<open>Interleaving is monotone\<close>

fun interleave :: "nat \<Rightarrow> nat" where
  "interleave v = (if v = 0 then 0 else v mod 2 + 4 * interleave (v div 2))"

declare interleave.simps [simp del]

lemma interleave_0 [simp]: "interleave 0 = 0"
  by (simp add: interleave.simps)

lemma interleave_rec: "interleave v = v mod 2 + 4 * interleave (v div 2)"
  by (cases "v = 0") (simp_all add: interleave.simps [of v])

lemma interleave_pos: "0 < v \<Longrightarrow> 0 < interleave v"
proof (induction v rule: less_induct)
  case (less v)
  show ?case
  proof (cases "odd v")
    case True
    then show ?thesis using interleave_rec [of v] by (simp add: odd_iff_mod_2_eq_one)
  next
    case False
    then have "2 \<le> v" using less.prems by (cases "v = 1") simp_all
    then have "0 < v div 2" "v div 2 < v" by (simp_all add: div_greater_zero_iff)
    then show ?thesis using less.IH [of "v div 2"] interleave_rec [of v] by simp
  qed
qed

lemma interleave_less: "a < b \<Longrightarrow> interleave a < interleave b"
proof (induction a arbitrary: b rule: less_induct)
  case (less a)
  note ab = interleave_rec [of a] interleave_rec [of b]
  show ?case
  proof (cases "a div 2 = b div 2")
    case True
    moreover have "a = 2 * (a div 2) + a mod 2" "b = 2 * (b div 2) + b mod 2" by simp_all
    ultimately have "a mod 2 < b mod 2" using less.prems by linarith
    then show ?thesis using True ab by simp
  next
    case False
    then have lt: "a div 2 < b div 2" using less.prems div_le_mono [of a b 2] by simp
    have "interleave (a div 2) < interleave (b div 2)"
    proof (cases "a = 0")
      case True
      have "0 < interleave (b div 2)" using lt by (intro interleave_pos) simp
      then show ?thesis using True lt by simp
    next
      case False
      then show ?thesis using less.IH [OF _ lt] by simp
    qed
    moreover have "a mod 2 \<le> 1" by simp
    ultimately show ?thesis using ab by linarith
  qed
qed

lemma interleave_mono: "a \<le> b \<Longrightarrow> interleave a \<le> interleave b"
  using interleave_less [of a b] by (cases "a = b") auto

lemma bit_interleave: "bit (interleave v) k \<longleftrightarrow> even k \<and> bit v (k div 2)"
proof (induction k arbitrary: v rule: less_induct)
  case (less k)
  have e1: "interleave v div 2 = 2 * interleave (v div 2)" using interleave_rec [of v] by presburger
  have e2: "odd (interleave v) \<longleftrightarrow> odd v" using interleave_rec [of v] by presburger
  note e = e1 e2
  consider "k = 0" | "k = 1" | j where "k = Suc (Suc j)" by (metis One_nat_def not0_implies_Suc)
  then show ?case
  proof cases
    case (3 j)
    then have "bit (interleave v) k \<longleftrightarrow> bit (interleave (v div 2)) j" by (simp add: bit_Suc e)
    also have "\<dots> \<longleftrightarrow> even j \<and> bit (v div 2) (j div 2)" using less 3 by simp
    finally show ?thesis using 3 by (simp add: bit_Suc)
  qed (simp_all add: bit_0 bit_Suc e)
qed

lemma spread_interleave: "v < 2 ^ kBits \<Longrightarrow> spread v = interleave v"
proof -
  have f: "bit (foldl (\<lambda>(x :: nat) i. if bit v i then x OR push_bit (2 * i) 1 else x) 0 [0..<n]) k \<longleftrightarrow> even k \<and> k div 2 < n \<and> bit v (k div 2)"
    for n k
  proof (induction n)
    case (Suc n)
    have "k = 2 * n \<longleftrightarrow> even k \<and> k div 2 = n" by auto
    then show ?case using Suc by (auto simp: bit_or_iff bit_exp_iff less_Suc_eq)
  qed simp
  assume v: "v < 2 ^ kBits"
  have "bit v j \<Longrightarrow> j < kBits" for j
    using v by (metis bit_take_bit_iff take_bit_nat_eq_self_iff)
  then show ?thesis unfolding spread_def by (intro bit_eqI) (auto simp: f bit_interleave)
qed

lemma clamp01_range: "0 \<le> clamp01 f \<and> clamp01 f \<le> 1"
  by (simp add: clamp01_def)

lemma clamp01_mono: "f \<le> g \<Longrightarrow> clamp01 f \<le> clamp01 g"
  by (simp add: clamp01_def)

definition cell :: "real \<Rightarrow> nat" where
  "cell f = nat \<lfloor>clamp01 f * (2 ^ kBits - 1)\<rfloor>"

lemma cell_mono: "f \<le> g \<Longrightarrow> cell f \<le> cell g"
  unfolding cell_def by (intro nat_mono floor_mono mult_right_mono clamp01_mono) (simp_all add: kBits_def)

lemma cell_less: "cell f < 2 ^ kBits"
proof -
  have "clamp01 f * (2 ^ kBits - 1) \<le> 2 ^ kBits - 1"
    using clamp01_range [of f] by (simp add: kBits_def)
  then have "\<lfloor>clamp01 f * (2 ^ kBits - 1)\<rfloor> < int (2 ^ kBits)" by (simp add: kBits_def floor_less_iff)
  moreover have "0 \<le> \<lfloor>clamp01 f * (2 ^ kBits - 1)\<rfloor>" using clamp01_range [of f] by (simp add: kBits_def)
  ultimately show ?thesis unfolding cell_def by (simp only: nat_less_iff)
qed

lemma morton_interleave:
  "morton p = 2 * interleave (cell ((lat p + 90) / 180)) + interleave (cell ((lon p + 180) / 360))"
proof -
  let ?a = "interleave (cell ((lat p + 90) / 180))" and ?b = "interleave (cell ((lon p + 180) / 360))"
  have "morton p = push_bit 1 ?a OR ?b"
    using spread_interleave [OF cell_less] by (simp add: morton_def Let_def cell_def)
  also have "\<dots> = push_bit 1 ?a + ?b"
  proof (rule disjunctive_add [symmetric])
    fix n
    show "\<not> bit (push_bit 1 ?a) n \<or> \<not> bit ?b n" by (cases n) (simp_all only: bit_push_bit_iff bit_interleave, auto)
  qed
  finally show ?thesis by (simp add: push_bit_eq_mult)
qed

lemma morton_mono: "lat p \<le> lat q \<Longrightarrow> lon p \<le> lon q \<Longrightarrow> morton p \<le> morton q"
  unfolding morton_interleave
  by (intro add_mono mult_left_mono interleave_mono cell_mono) (simp_all add: divide_right_mono)

section \<open>The query range covers every hit\<close>

definition gh_items :: "geohash \<Rightarrow> index_item list" where
  "gh_items s = map (\<lambda>r. (g_id r, g_box r)) (gh_recs s)"

definition rec_ok :: "real \<Rightarrow> real \<Rightarrow> geohash_rec \<Rightarrow> bool" where
  "rec_ok hlat hlon r \<longleftrightarrow> g_key r = morton (bb_center (g_box r)) \<and>
     (max_lat (g_box r) - min_lat (g_box r)) * 0.5 \<le> hlat \<and> (max_lon (g_box r) - min_lon (g_box r)) * 0.5 \<le> hlon"

definition gh_inv :: "geohash \<Rightarrow> bool" where
  "gh_inv s \<longleftrightarrow> sorted (map g_key (gh_recs s)) \<and> 0 \<le> gh_half_lat s \<and> 0 \<le> gh_half_lon s \<and>
     (\<forall>r \<in> set (gh_recs s). rec_ok (gh_half_lat s) (gh_half_lon s) r) \<and> items_ok (gh_items s)"

lemma sorted_takeWhile_filter:
  "sorted (map f xs) \<Longrightarrow> takeWhile (\<lambda>x. f x < z) xs = filter (\<lambda>x. f x < z) xs"
  "sorted (map f xs) \<Longrightarrow> drop (length (takeWhile (\<lambda>x. f x < z) xs)) xs = filter (\<lambda>x. \<not> f x < z) xs"
  for f :: "'a \<Rightarrow> nat"
proof -
  have "sorted (map f xs) \<Longrightarrow> takeWhile (\<lambda>x. f x < z) xs = filter (\<lambda>x. f x < z) xs \<and>
      dropWhile (\<lambda>x. f x < z) xs = filter (\<lambda>x. \<not> f x < z) xs"
  proof (induction xs)
    case (Cons x xs)
    have "filter (\<lambda>x. f x < z) xs = [] \<and> filter (\<lambda>x. \<not> f x < z) xs = xs" if "\<not> f x < z"
      using that Cons.prems by (auto simp: filter_empty_conv intro!: filter_True)
    then show ?case using Cons by auto
  qed simp
  then show "sorted (map f xs) \<Longrightarrow> takeWhile (\<lambda>x. f x < z) xs = filter (\<lambda>x. f x < z) xs"
    "sorted (map f xs) \<Longrightarrow> drop (length (takeWhile (\<lambda>x. f x < z) xs)) xs = filter (\<lambda>x. \<not> f x < z) xs"
    unfolding dropWhile_eq_drop by blast+
qed

lemma key_range:
  assumes "rec_ok hlat hlon r" "bb_intersects (g_box r) q"
  shows "morton \<lparr>lat = min_lat q - hlat, lon = min_lon q - hlon\<rparr> \<le> g_key r"
    and "g_key r \<le> morton \<lparr>lat = max_lat q + hlat, lon = max_lon q + hlon\<rparr>"
proof -
  obtain a b c d where r: "g_box r = Box a b c d" using assms(2) by (cases "g_box r") auto
  obtain a' b' c' d' where q: "q = Box a' b' c' d'" using assms(2) by (cases q) (auto simp: r)
  have "c - a \<le> 2 * hlat" "d - b \<le> 2 * hlon" "g_key r = morton \<lparr>lat = (a + c) / 2, lon = (b + d) / 2\<rparr>"
    using assms(1) by (auto simp: rec_ok_def r bb_center_def)
  then show "morton \<lparr>lat = min_lat q - hlat, lon = min_lon q - hlon\<rparr> \<le> g_key r"
    "g_key r \<le> morton \<lparr>lat = max_lat q + hlat, lon = max_lon q + hlon\<rparr>"
    using assms(2) by (auto simp: r q intro!: morton_mono)
qed

lemma gh_query_correct:
  assumes "sorted (map g_key (gh_recs s))" "0 \<le> gh_half_lat s" "0 \<le> gh_half_lon s"
    and "\<forall>r \<in> set (gh_recs s). rec_ok (gh_half_lat s) (gh_half_lon s) r" "bb_proper q"
  obtains s' where "gh_query q out s = Some (out @ matching q (gh_items s), s')"
    "gh_recs s' = gh_recs s" "gh_half_lat s' = gh_half_lat s" "gh_half_lon s' = gh_half_lon s"
proof (cases "gh_recs s = []")
  case True
  then show ?thesis
    by (intro that [of "s\<lparr>gh_st := count_query 0 (gh_st s)\<rparr>"]) (simp_all add: gh_query_def Let_def gh_items_def matching_def)
next
  case False
  define z_lo where "z_lo = morton \<lparr>lat = min_lat q - gh_half_lat s, lon = min_lon q - gh_half_lon s\<rparr>"
  define z_hi where "z_hi = morton \<lparr>lat = max_lat q + gh_half_lat s, lon = max_lon q + gh_half_lon s\<rparr>"
  let ?rs = "gh_recs s" and ?lo = "\<lambda>r. g_key r < z_lo" and ?hi = "\<lambda>r. g_key r < Suc z_hi"
  have lohi: "z_lo \<le> z_hi"
    using assms(2,3,5) unfolding z_lo_def z_hi_def by (intro morton_mono) (auto simp: bb_proper_def)
  have not: "(\<lambda>r. \<not> z_hi < g_key r) = ?hi" by auto
  note tw = sorted_takeWhile_filter [OF assms(1)]
  have last: "take (length (takeWhile ?hi ?rs)) ?rs = filter ?hi ?rs" using tw(1) by (metis takeWhile_eq_take)
  have "sorted (map g_key (filter ?hi ?rs))" using assms(1) by (rule sorted_filter)
  note tw' = sorted_takeWhile_filter [OF this]
  have "takeWhile ?lo (filter ?hi ?rs) = filter ?lo ?rs"
    using lohi unfolding tw'(1) filter_filter by (intro filter_cong) auto
  then have first: "takeWhile ?lo (filter ?hi ?rs) = takeWhile ?lo ?rs" using tw(1) by simp
  have scanned: "drop (length (takeWhile ?lo ?rs)) (take (length (takeWhile ?hi ?rs)) ?rs) = filter (\<lambda>r. \<not> ?lo r) (filter ?hi ?rs)"
    unfolding last using tw'(2) [of z_lo] first by simp
  have "length (filter ?lo xs) \<le> length (filter ?hi xs)" for xs
    using lohi by (induction xs) auto
  then have le: "length (takeWhile ?lo ?rs) \<le> length (takeWhile ?hi ?rs)" unfolding tw(1) .
  define hit where "hit = (\<lambda>r :: geohash_rec. bb_intersects (g_box r) q)"
  have "filter hit (filter (\<lambda>r. \<not> ?lo r) (filter ?hi ?rs)) = filter hit ?rs"
    unfolding filter_filter hit_def
    by (intro filter_cong refl) (use key_range assms(4) in \<open>fastforce simp: z_lo_def z_hi_def\<close>)
  then have m: "matching q (map (\<lambda>r. (g_id r, g_box r)) (filter (\<lambda>r. \<not> ?lo r) (filter ?hi ?rs))) = matching q (gh_items s)"
    by (simp add: matching_def gh_items_def filter_map comp_def hit_def)
  define sc where "sc = drop (length (takeWhile ?lo ?rs)) (take (length (takeWhile ?hi ?rs)) ?rs)"
  have m': "matching q (map (\<lambda>r. (g_id r, g_box r)) sc) = matching q (gh_items s)"
    unfolding sc_def scanned by (rule m)
  show ?thesis
    using False le
    by (intro that [of "s\<lparr>gh_st := (count_query 0 (gh_st s))\<lparr>st_candidates := st_candidates (count_query 0 (gh_st s)) + length sc\<rparr>\<rparr>"])
      (simp_all add: gh_query_def Let_def not m' flip: z_lo_def z_hi_def sc_def)
qed

section \<open>Every operation keeps the invariant\<close>

lemma rec_ok_mono: "rec_ok a b r \<Longrightarrow> a \<le> a' \<Longrightarrow> b \<le> b' \<Longrightarrow> rec_ok a' b' r"
  by (auto simp: rec_ok_def)

lemma rec_ok_rec_of:
  "(max_lat (snd it) - min_lat (snd it)) * 0.5 \<le> a \<Longrightarrow> (max_lon (snd it) - min_lon (snd it)) * 0.5 \<le> b \<Longrightarrow> rec_ok a b (rec_of it)"
  by (simp add: rec_ok_def rec_of_def)

lemma rec_of_item: "(g_id (rec_of it), g_box (rec_of it)) = it"
  by (simp add: rec_of_def)

lemma gh_insert_correct:
  assumes "gh_inv s" "bb_proper b" "map_of (gh_items s) i = None"
  shows "gh_inv (gh_insert i b s)" "map_of (gh_items (gh_insert i b s)) = (map_of (gh_items s))(i \<mapsto> b)"
proof -
  let ?r = "rec_of (i, b)" and ?rs = "gh_recs s"
  define n where "n = length (takeWhile (\<lambda>x. g_key x < Suc (g_key ?r)) ?rs)"
  have e: "gh_insert i b s = note_extent b (s\<lparr>gh_recs := take n ?rs @ ?r # drop n ?rs\<rparr>)"
    by (simp add: gh_insert_def Let_def n_def not_less less_Suc_eq_le)
  have srt: "sorted (map g_key ?rs)" using assms(1) by (simp add: gh_inv_def)
  note tw = sorted_takeWhile_filter [OF srt, of "Suc (g_key ?r)"]
  have "take n ?rs = filter (\<lambda>x. g_key x < Suc (g_key ?r)) ?rs" "drop n ?rs = filter (\<lambda>x. \<not> g_key x < Suc (g_key ?r)) ?rs"
    using tw takeWhile_eq_take [of "\<lambda>x. g_key x < Suc (g_key ?r)" ?rs] by (simp_all add: n_def)
  then have "sorted (map g_key (take n ?rs @ ?r # drop n ?rs))"
    using sorted_filter [OF srt] by (auto simp: sorted_append)
  moreover have st: "set (gh_recs (gh_insert i b s)) = insert ?r (set ?rs)"
    by (simp add: e note_extent_def) (metis append_take_drop_id set_append)
  moreover have "\<forall>r \<in> insert ?r (set ?rs). rec_ok (gh_half_lat (gh_insert i b s)) (gh_half_lon (gh_insert i b s)) r"
  proof
    fix r assume "r \<in> insert ?r (set ?rs)"
    then show "rec_ok (gh_half_lat (gh_insert i b s)) (gh_half_lon (gh_insert i b s)) r"
    proof
      assume "r = ?r"
      then show ?thesis by (simp only:) (rule rec_ok_rec_of, simp_all add: e note_extent_def)
    next
      assume "r \<in> set ?rs"
      then have "rec_ok (gh_half_lat s) (gh_half_lon s) r" using assms(1) by (simp add: gh_inv_def)
      then show ?thesis by (rule rec_ok_mono) (simp_all add: e note_extent_def)
    qed
  qed
  moreover have "mset (gh_items (gh_insert i b s)) = add_mset (i, b) (mset (gh_items s))"
  proof -
    have "mset (take n ?rs) + mset (drop n ?rs) = mset ?rs" by (metis append_take_drop_id mset_append)
    then show ?thesis by (simp add: e note_extent_def gh_items_def rec_of_item flip: image_mset_union)
  qed
  ultimately show "gh_inv (gh_insert i b s)" "map_of (gh_items (gh_insert i b s)) = (map_of (gh_items s))(i \<mapsto> b)"
    using items_ok_insert [of "gh_items s" i b "gh_items (gh_insert i b s)"] assms
    by (simp_all add: gh_inv_def) (simp_all add: e note_extent_def max.coboundedI1)
qed

lemma extents_fold:
  "let s' = foldl (\<lambda>s r. note_extent (g_box r) s) s rs
   in gh_recs s' = gh_recs s \<and> gh_half_lat s \<le> gh_half_lat s' \<and> gh_half_lon s \<le> gh_half_lon s' \<and>
      (\<forall>r \<in> set rs. g_key r = morton (bb_center (g_box r)) \<longrightarrow> rec_ok (gh_half_lat s') (gh_half_lon s') r)"
proof (induction rs arbitrary: s)
  case (Cons r rs)
  let ?s1 = "note_extent (g_box r) s"
  have "g_key r = morton (bb_center (g_box r)) \<longrightarrow> rec_ok (gh_half_lat ?s1) (gh_half_lon ?s1) r"
    by (auto simp: rec_ok_def note_extent_def)
  moreover have "gh_recs ?s1 = gh_recs s" "gh_half_lat s \<le> gh_half_lat ?s1" "gh_half_lon s \<le> gh_half_lon ?s1"
    by (simp_all add: note_extent_def)
  ultimately show ?case
    using Cons [of ?s1] by (auto simp: Let_def intro: rec_ok_mono)
qed simp

lemma erase_rec_items: "map_option (map (\<lambda>r. (g_id r, g_box r))) (erase_rec i rs) = erase_id i (map (\<lambda>r. (g_id r, g_box r)) rs)"
proof (induction rs)
  case (Cons r rs)
  then show ?case by (simp add: Cons [symmetric] option.map_comp comp_def)
qed simp

lemma erase_rec_sorted: "erase_rec i rs = Some rs' \<Longrightarrow> sorted (map g_key rs) \<Longrightarrow> sorted (map g_key rs') \<and> set rs' \<subseteq> set rs"
proof (induction rs arbitrary: rs')
  case (Cons r rs)
  then show ?case by (fastforce split: if_splits)
qed simp

lemma gh_remove_correct:
  assumes "gh_inv s"
  shows "fst (gh_remove i s) = (map_of (gh_items s) i \<noteq> None)" "gh_inv (snd (gh_remove i s))"
    "map_of (gh_items (snd (gh_remove i s))) = (map_of (gh_items s))(i := None)"
proof -
  note ei = erase_rec_items [of i "gh_recs s", folded gh_items_def]
  have "fst (gh_remove i s) = (map_of (gh_items s) i \<noteq> None) \<and> gh_inv (snd (gh_remove i s)) \<and>
    map_of (gh_items (snd (gh_remove i s))) = (map_of (gh_items s))(i := None)"
  proof (cases "erase_rec i (gh_recs s)")
    case None
    then have "map_of (gh_items s) i = None" using ei erase_id_None by (metis option.map_disc_iff)
    then show ?thesis using None assms by (simp add: gh_remove_def fun_upd_idem)
  next
    case (Some rs)
    have e: "snd (gh_remove i s) = foldl (\<lambda>s r. note_extent (g_box r) s) (s\<lparr>gh_recs := rs, gh_half_lat := 0, gh_half_lon := 0\<rparr>) rs"
      by (simp add: gh_remove_def Some recompute_extents_def)
    note x = extents_fold [of "s\<lparr>gh_recs := rs, gh_half_lat := 0, gh_half_lon := 0\<rparr>" rs, folded e, unfolded Let_def]
    note es = erase_rec_sorted [OF Some]
    have it: "gh_items (snd (gh_remove i s)) = map (\<lambda>r. (g_id r, g_box r)) rs" using x by (simp add: gh_items_def)
    have "items_ok (gh_items s)" using assms by (simp add: gh_inv_def)
    moreover have "erase_id i (gh_items s) = Some (map (\<lambda>r. (g_id r, g_box r)) rs)" using ei Some by simp
    ultimately have "items_ok (gh_items (snd (gh_remove i s)))"
      "map_of (gh_items (snd (gh_remove i s))) = (map_of (gh_items s))(i := None)" "map_of (gh_items s) i \<noteq> None"
      using items_ok_erase [of "gh_items s" i] it by metis+
    moreover have "\<forall>r \<in> set rs. g_key r = morton (bb_center (g_box r))" using es assms by (auto simp: gh_inv_def rec_ok_def)
    ultimately show ?thesis using x es assms by (auto simp: gh_inv_def gh_remove_def Some)
  qed
  then show "fst (gh_remove i s) = (map_of (gh_items s) i \<noteq> None)" "gh_inv (snd (gh_remove i s))"
    "map_of (gh_items (snd (gh_remove i s))) = (map_of (gh_items s))(i := None)" by blast+
qed

lemma gh_build_correct:
  assumes "items_ok its"
  shows "gh_inv (gh_build its s)" "map_of (gh_items (gh_build its s)) = map_of its"
proof -
  let ?s0 = "s\<lparr>gh_recs := [], gh_half_lat := 0, gh_half_lon := 0\<rparr>"
  define f where "f = (\<lambda>s it. note_extent (snd it) (s\<lparr>gh_recs := gh_recs s @ [rec_of it]\<rparr>))"
  have f: "gh_recs (foldl f ?s0 xs) = map rec_of xs \<and> 0 \<le> gh_half_lat (foldl f ?s0 xs) \<and> 0 \<le> gh_half_lon (foldl f ?s0 xs) \<and>
      (\<forall>it \<in> set xs. rec_ok (gh_half_lat (foldl f ?s0 xs)) (gh_half_lon (foldl f ?s0 xs)) (rec_of it))" for xs
  proof (induction xs rule: rev_induct)
    case (snoc x xs)
    let ?s = "foldl f ?s0 xs"
    have "rec_ok (gh_half_lat (f ?s x)) (gh_half_lon (f ?s x)) (rec_of x)"
      by (rule rec_ok_rec_of) (simp_all add: f_def note_extent_def)
    moreover have "gh_half_lat ?s \<le> gh_half_lat (f ?s x)" "gh_half_lon ?s \<le> gh_half_lon (f ?s x)"
      by (simp_all add: f_def note_extent_def)
    ultimately show ?case using snoc by (auto simp: f_def note_extent_def intro: rec_ok_mono)
  qed simp
  have e: "gh_build its s = (foldl f ?s0 its)\<lparr>gh_recs := sort_key g_key (map rec_of its)\<rparr>"
    using f [of its] by (simp add: gh_build_def Let_def f_def)
  have m: "mset its = mset (gh_items (gh_build its s))"
    by (simp add: e gh_items_def comp_def rec_of_item image_mset.compositionality)
  show "map_of (gh_items (gh_build its s)) = map_of its" using map_of_mset [OF m assms] by simp
  show "gh_inv (gh_build its s)" using f [of its] items_ok_mset [OF m] assms by (auto simp: gh_inv_def e)
qed

interpretation geohash: spatial_index gh_ops gh_inv "\<lambda>s. map_of (gh_items s)"
proof (unfold_locales, goal_cases)
  case (1 s its)
  then show ?case using gh_build_correct by (simp add: gh_ops_def)
next
  case (2 s b i)
  then show ?case using gh_insert_correct by (simp add: gh_ops_def)
next
  case (3 s i)
  then show ?case using gh_remove_correct [of s i] by (simp add: gh_ops_def)
next
  case (4 s q out)
  then have inv: "sorted (map g_key (gh_recs s))" "0 \<le> gh_half_lat s" "0 \<le> gh_half_lon s"
    "\<forall>r \<in> set (gh_recs s). rec_ok (gh_half_lat s) (gh_half_lon s) r" "items_ok (gh_items s)" by (simp_all add: gh_inv_def)
  obtain s' where q: "gh_query q out s = Some (out @ matching q (gh_items s), s')"
    "gh_recs s' = gh_recs s" "gh_half_lat s' = gh_half_lat s" "gh_half_lon s' = gh_half_lon s"
    using gh_query_correct [OF inv(1-4) 4(2)] .
  have "gh_items s' = gh_items s" by (simp add: gh_items_def q(2))
  then show ?case using q inv matching_hits [OF inv(5) refl, of q] by (simp add: gh_ops_def gh_inv_def)
next
  case (5 s)
  then show ?case using items_ok_size [of "gh_items s"] by (simp add: gh_ops_def gh_inv_def gh_items_def)
qed

section \<open>The file round trip\<close>

definition rec_bytes :: "(real \<Rightarrow> 64 word) \<Rightarrow> geohash_rec \<Rightarrow> byte list" where
  "rec_bytes bits r = le64 (of_nat (g_key r)) @ le32 (of_nat (g_id r)) @ le64 (bits (min_lat (g_box r))) @
     le64 (bits (min_lon (g_box r))) @ le64 (bits (max_lat (g_box r))) @ le64 (bits (max_lon (g_box r)))"

lemma put_rec_bytes: "put_rec bits out r = out @ rec_bytes bits r"
  by (simp add: put_rec_def rec_bytes_def put_u64_append put_u32_append)

lemma put_recs_bytes: "foldl (put_rec bits) out rs = out @ concat (map (rec_bytes bits) rs)"
  by (induction rs arbitrary: out) (simp_all add: put_rec_bytes)

lemma length_rec_bytes: "length (rec_bytes bits r) = kRecBytes"
  by (simp add: rec_bytes_def kRecBytes_def)

lemma length_recs_bytes: "length (concat (map (rec_bytes bits) rs)) = length rs * kRecBytes"
  by (induction rs) (simp_all add: length_rec_bytes)

lemma gh_serialize_bytes:
  "gh_serialize bits s = le32 kMagicGeo @ le32 (of_nat (length (gh_recs s))) @ le64 (bits (gh_half_lat s)) @
     le64 (bits (gh_half_lon s)) @ concat (map (rec_bytes bits) (gh_recs s))"
  by (simp add: gh_serialize_def put_recs_bytes put_u64_append put_u32_append)

lemma rd_finite_put:
  assumes "rest_of r = le64 (bits x) @ t" "double_value (bits x) = Some x"
  shows "\<exists>r'. rd_finite r = Some (x, r') \<and> rest_of r' = t \<and> (in_range r \<longrightarrow> in_range r')"
  using rd_u64_put [OF assms(1)] assms(2) by (auto simp: rd_finite_def rd_f64_def)

text \<open>What fits the file: the widths of its integers and doubles with a bit pattern.\<close>

definition rec_fits :: "(real \<Rightarrow> 64 word) \<Rightarrow> geohash_rec \<Rightarrow> bool" where
  "rec_fits bits r \<longleftrightarrow> g_key r < 2 ^ 64 \<and> g_id r < 2 ^ 32 \<and> bb_proper (g_box r) \<and>
     (\<forall>x \<in> {min_lat (g_box r), min_lon (g_box r), max_lat (g_box r), max_lon (g_box r)}. double_value (bits x) = Some x)"

lemma rd_rec_put:
  assumes "rest_of r = rec_bytes bits x @ t" "rec_fits bits x" "in_range r"
  shows "\<exists>r'. rd_rec r = Some (x, r') \<and> rest_of r' = t \<and> in_range r'"
proof -
  obtain a b c d where box: "g_box x = Box a b c d" "a \<le> c" "b \<le> d"
  proof -
    have "bb_proper (g_box x)" using assms(2) by (simp add: rec_fits_def)
    then show thesis by (rule bb_proper_cases) (rule that)
  qed
  have f: "g_key x < 2 ^ 64" "g_id x < 2 ^ 32" "double_value (bits a) = Some a" "double_value (bits b) = Some b"
    "double_value (bits c) = Some c" "double_value (bits d) = Some d" using assms(2) by (simp_all add: rec_fits_def box)
  have r0: "rest_of r = le64 (of_nat (g_key x)) @ le32 (of_nat (g_id x)) @ le64 (bits a) @ le64 (bits b) @ le64 (bits c) @ le64 (bits d) @ t"
    using assms(1) by (simp add: rec_bytes_def box)
  obtain r1 where r1: "rd_u64 r = Some (of_nat (g_key x), r1)"
    "rest_of r1 = le32 (of_nat (g_id x)) @ le64 (bits a) @ le64 (bits b) @ le64 (bits c) @ le64 (bits d) @ t" "in_range r1"
    using rd_u64_put [OF r0] assms(3) by blast
  obtain r2 where r2: "rd_u32 r1 = Some (of_nat (g_id x), r2)" "rest_of r2 = le64 (bits a) @ le64 (bits b) @ le64 (bits c) @ le64 (bits d) @ t" "in_range r2"
    using rd_u32_put [OF r1(2)] r1(3) by blast
  obtain r3 where r3: "rd_finite r2 = Some (a, r3)" "rest_of r3 = le64 (bits b) @ le64 (bits c) @ le64 (bits d) @ t" "in_range r3"
    using rd_finite_put [where bits = bits, OF r2(2) f(3)] r2(3) by blast
  obtain r4 where r4: "rd_finite r3 = Some (b, r4)" "rest_of r4 = le64 (bits c) @ le64 (bits d) @ t" "in_range r4"
    using rd_finite_put [where bits = bits, OF r3(2) f(4)] r3(3) by blast
  obtain r5 where r5: "rd_finite r4 = Some (c, r5)" "rest_of r5 = le64 (bits d) @ t" "in_range r5"
    using rd_finite_put [where bits = bits, OF r4(2) f(5)] r4(3) by blast
  obtain r6 where r6: "rd_finite r5 = Some (d, r6)" "rest_of r6 = t" "in_range r6"
    using rd_finite_put [where bits = bits, OF r5(2) f(6)] r5(3) by blast
  have "unat (of_nat (g_key x) :: 64 word) = g_key x" "unat (of_nat (g_id x) :: 32 word) = g_id x"
    using f(1,2) by (simp_all add: unat_of_nat take_bit_nat_eq_self)
  moreover have "x = \<lparr>g_key = g_key x, g_id = g_id x, g_box = Box a b c d\<rparr>" by (simp add: box(1) [symmetric])
  ultimately have "rd_rec r = Some (x, r6)"
    unfolding rd_rec_def r1(1) using r2(1) r3(1) r4(1) r5(1) r6(1) box by simp
  then show ?thesis using r6 by blast
qed

lemma rd_recs_put:
  "rest_of r = concat (map (rec_bytes bits) rs) @ t \<Longrightarrow> \<forall>x \<in> set rs. rec_fits bits x \<Longrightarrow> in_range r \<Longrightarrow>
   \<exists>r'. rd_recs (length rs) r = Some (rs, r') \<and> rest_of r' = t \<and> in_range r'"
proof (induction rs arbitrary: r)
  case (Cons x rs)
  then obtain r1 where "rd_rec r = Some (x, r1)" "rest_of r1 = concat (map (rec_bytes bits) rs) @ t" "in_range r1"
    using rd_rec_put [of r bits x "concat (map (rec_bytes bits) rs) @ t"] by auto
  with Cons.IH [of r1] Cons.prems(2) show ?case by auto
qed auto

definition gh_fits :: "(real \<Rightarrow> 64 word) \<Rightarrow> geohash \<Rightarrow> bool" where
  "gh_fits bits s \<longleftrightarrow> length (gh_recs s) < 2 ^ 32 \<and> double_value (bits (gh_half_lat s)) = Some (gh_half_lat s) \<and>
     double_value (bits (gh_half_lon s)) = Some (gh_half_lon s) \<and> (\<forall>r \<in> set (gh_recs s). rec_fits bits r)"

lemma remaining_rest: "in_range r \<Longrightarrow> remaining r = length (rest_of r)"
  by (simp add: remaining_def rest_of_def)

lemma gh_file_lemma:
  assumes "gh_fits bits s" "sorted (map g_key (gh_recs s))"
  shows "gh_deserialize (gh_serialize bits s @ extra) t =
    (if extra = [] then Some (t\<lparr>gh_recs := gh_recs s, gh_half_lat := gh_half_lat s, gh_half_lon := gh_half_lon s\<rparr>) else None)"
proof -
  let ?rs = "gh_recs s" and ?d = "gh_serialize bits s @ extra"
  let ?body = "concat (map (rec_bytes bits) ?rs) @ extra"
  have r0: "rest_of (reader_of ?d) = le32 kMagicGeo @ le32 (of_nat (length ?rs)) @ le64 (bits (gh_half_lat s)) @
     le64 (bits (gh_half_lon s)) @ ?body" by (simp add: gh_serialize_bytes)
  obtain r1 where r1: "rd_u32 (reader_of ?d) = Some (kMagicGeo, r1)"
    "rest_of r1 = le32 (of_nat (length ?rs)) @ le64 (bits (gh_half_lat s)) @ le64 (bits (gh_half_lon s)) @ ?body" "in_range r1"
    using rd_u32_put [OF r0] in_range_reader by blast
  obtain r2 where r2: "rd_u32 r1 = Some (of_nat (length ?rs), r2)"
    "rest_of r2 = le64 (bits (gh_half_lat s)) @ le64 (bits (gh_half_lon s)) @ ?body" "in_range r2"
    using rd_u32_put [OF r1(2)] r1(3) by blast
  have v: "double_value (bits (gh_half_lat s)) = Some (gh_half_lat s)" "double_value (bits (gh_half_lon s)) = Some (gh_half_lon s)"
    using assms(1) by (simp_all add: gh_fits_def)
  obtain r3 where r3: "rd_finite r2 = Some (gh_half_lat s, r3)" "rest_of r3 = le64 (bits (gh_half_lon s)) @ ?body" "in_range r3"
    using rd_finite_put [where bits = bits, OF r2(2) v(1)] r2(3) by blast
  obtain r4 where r4: "rd_finite r3 = Some (gh_half_lon s, r4)" "rest_of r4 = ?body" "in_range r4"
    using rd_finite_put [where bits = bits, OF r3(2) v(2)] r3(3) by blast
  have cnt: "unat (of_nat (length ?rs) :: 32 word) = length ?rs"
    using assms(1) by (simp add: gh_fits_def unat_of_nat take_bit_nat_eq_self)
  have rem: "remaining r4 = length ?rs * kRecBytes + length extra"
    using remaining_rest [OF r4(3)] r4(2) by (simp add: length_recs_bytes)
  show ?thesis
  proof (cases "extra = []")
    case True
    obtain r5 where r5: "rd_recs (length ?rs) r4 = Some (?rs, r5)" "rest_of r5 = []" "in_range r5"
      using rd_recs_put [of r4 bits ?rs "[]"] r4 assms(1) True by (auto simp: gh_fits_def)
    then have "at_end r5" by (simp add: at_end_rest)
    then show ?thesis
      unfolding gh_deserialize_def r1(1) using r2(1) r3(1) r4(1) r5(1) rem cnt True assms(2) by simp
  next
    case False
    then show ?thesis
      unfolding gh_deserialize_def r1(1) using r2(1) r3(1) r4(1) rem cnt by simp
  qed
qed

section \<open>Properties\<close>

text \<open>A saved index loads back with the same records and padding, and the file followed by any further
  bytes is refused.\<close>

lemma geohash_file_roundtrip:
  assumes "gh_inv s" "gh_fits bits s"
  shows "gh_deserialize (gh_serialize bits s @ extra) t =
    (if extra = [] then Some (t\<lparr>gh_recs := gh_recs s, gh_half_lat := gh_half_lat s, gh_half_lon := gh_half_lon s\<rparr>) else None)"
  using gh_file_lemma [OF assms(2)] assms(1) by (simp add: gh_inv_def)

text \<open>The bit patterns of the doubles 0 and 1.\<close>

definition bits01 :: "real \<Rightarrow> 64 word" where
  "bits01 x = (if x = 1 then 0x3FF0000000000000 else 0)"

lemma double_value_01: "double_value (bits01 0) = Some 0" "double_value (bits01 1) = Some 1"
proof -
  show "double_value (bits01 0) = Some 0" by (simp add: bits01_def double_value_def)
  have "take_bit 11 (drop_bit 52 (0x3FF0000000000000 :: 64 word)) = 1023" "take_bit 52 (0x3FF0000000000000 :: 64 word) = 0"
    "\<not> bit (0x3FF0000000000000 :: 64 word) 63" by simp_all
  then show "double_value (bits01 1) = Some 1" by (simp add: bits01_def double_value_def)
qed

theorem geohash_file_roundtrip_witness:
  "gh_deserialize (gh_serialize bits01 gh_new @ [1]) gh_new = None"
proof -
  have "gh_inv gh_new" by (simp add: gh_inv_def gh_new_def gh_items_def items_ok_def)
  moreover have "gh_fits bits01 gh_new" using double_value_01 by (simp add: gh_fits_def gh_new_def)
  ultimately show ?thesis using geohash_file_roundtrip [of gh_new bits01 "[1]" gh_new] by simp
qed

text \<open>The loader checks that the keys are sorted, not that they or the padding belong to the boxes: it
  accepts a file after which a zone that meets the query box is not found.\<close>

lemma geohash_load_trusts_keys:
  "\<exists>d s. gh_deserialize d gh_new = Some s \<and> gh_items s = [(1, Box 0 0 1 1)] \<and>
     bb_intersects (Box 0 0 1 1) (Box 1 1 1 1) \<and> map_option fst (gh_query (Box 1 1 1 1) [] s) = Some []"
proof -
  define r where "r = \<lparr>g_key = 0, g_id = 1, g_box = Box 0 0 1 1\<rparr>"
  define s where "s = gh_new\<lparr>gh_recs := [r]\<rparr>"
  have "gh_fits bits01 s" using double_value_01 by (simp add: gh_fits_def s_def gh_new_def rec_fits_def r_def bb_proper_def)
  from gh_file_lemma [OF this, of "[]" gh_new]
  have "gh_deserialize (gh_serialize bits01 s) gh_new = Some s" by (simp add: s_def gh_new_def)
  moreover have "0 < cell ((1 + 90) / 180)" by (simp add: cell_def clamp01_def kBits_def)
  then have "0 < morton \<lparr>lat = 1, lon = 1\<rparr>" using interleave_pos by (simp add: morton_interleave)
  then have "map_option fst (gh_query (Box 1 1 1 1) [] s) = Some []"
    by (simp add: gh_query_def s_def gh_new_def Let_def r_def matching_def)
  ultimately show ?thesis by (intro exI [of _ "gh_serialize bits01 s"] exI [of _ s]) (simp add: s_def gh_items_def r_def)
qed

end
