(* ===== verification/Index_Factory.thy ===== *)
theory Index_Factory
  imports Quadtree Rtree Geohash
begin

text \<open>
  The factory at the end of \<^verbatim>\<open>src/index/quadtree.cpp\<close>: one state type for the four indexes, whose
  operations dispatch as the virtual calls do, with the default constructor arguments.
\<close>

datatype index_kind = KBruteForce | KQuadtree | KRTree | KGeohash

datatype any_index = AnyBrute brute_force | AnyQuad quadtree | AnyRtree rtree | AnyGeo geohash

definition make_index :: "index_kind \<Rightarrow> any_index" where
  "make_index kind = (case kind of
     KQuadtree \<Rightarrow> AnyQuad (qt_new 8 12) | KRTree \<Rightarrow> AnyRtree (rt_new 8) | KGeohash \<Rightarrow> AnyGeo gh_new
   | KBruteForce \<Rightarrow> AnyBrute bf_new)"

definition index_name :: "index_kind \<Rightarrow> string" where
  "index_name kind = (case kind of
     KBruteForce \<Rightarrow> ''brute-force'' | KQuadtree \<Rightarrow> ''quadtree'' | KRTree \<Rightarrow> ''r-tree'' | KGeohash \<Rightarrow> ''geohash'')"

fun any_build :: "index_item list \<Rightarrow> any_index \<Rightarrow> any_index" where
  "any_build its (AnyBrute s) = AnyBrute (op_build bf_ops its s)"
| "any_build its (AnyQuad s) = AnyQuad (op_build qt_ops its s)"
| "any_build its (AnyRtree s) = AnyRtree (op_build rt_ops its s)"
| "any_build its (AnyGeo s) = AnyGeo (op_build gh_ops its s)"

fun any_insert :: "zone_id \<Rightarrow> bbox \<Rightarrow> any_index \<Rightarrow> any_index" where
  "any_insert i b (AnyBrute s) = AnyBrute (op_insert bf_ops i b s)"
| "any_insert i b (AnyQuad s) = AnyQuad (op_insert qt_ops i b s)"
| "any_insert i b (AnyRtree s) = AnyRtree (op_insert rt_ops i b s)"
| "any_insert i b (AnyGeo s) = AnyGeo (op_insert gh_ops i b s)"

fun any_remove :: "zone_id \<Rightarrow> any_index \<Rightarrow> bool \<times> any_index" where
  "any_remove i (AnyBrute s) = map_prod id AnyBrute (op_remove bf_ops i s)"
| "any_remove i (AnyQuad s) = map_prod id AnyQuad (op_remove qt_ops i s)"
| "any_remove i (AnyRtree s) = map_prod id AnyRtree (op_remove rt_ops i s)"
| "any_remove i (AnyGeo s) = map_prod id AnyGeo (op_remove gh_ops i s)"

fun any_query :: "bbox \<Rightarrow> zone_id list \<Rightarrow> any_index \<Rightarrow> zone_id list \<times> any_index" where
  "any_query q out (AnyBrute s) = map_prod id AnyBrute (op_query bf_ops q out s)"
| "any_query q out (AnyQuad s) = map_prod id AnyQuad (op_query qt_ops q out s)"
| "any_query q out (AnyRtree s) = map_prod id AnyRtree (op_query rt_ops q out s)"
| "any_query q out (AnyGeo s) = map_prod id AnyGeo (op_query gh_ops q out s)"

fun any_size :: "any_index \<Rightarrow> nat" where
  "any_size (AnyBrute s) = op_size bf_ops s"
| "any_size (AnyQuad s) = op_size qt_ops s"
| "any_size (AnyRtree s) = op_size rt_ops s"
| "any_size (AnyGeo s) = op_size gh_ops s"

definition any_ops :: "any_index index_ops" where
  "any_ops = \<lparr>op_build = any_build, op_insert = any_insert, op_remove = any_remove, op_query = any_query, op_size = any_size\<rparr>"

fun any_inv :: "any_index \<Rightarrow> bool" where
  "any_inv (AnyBrute s) = bf_inv s"
| "any_inv (AnyQuad s) = qt_inv s"
| "any_inv (AnyRtree s) = (rt_inv 1 s \<and> items_ok (collect (rt_root s)))"
| "any_inv (AnyGeo s) = gh_inv s"

fun any_contents :: "any_index \<Rightarrow> (zone_id \<rightharpoonup> bbox)" where
  "any_contents (AnyBrute s) = map_of (bf_items s)"
| "any_contents (AnyQuad s) = map_of (gather (qt_root s))"
| "any_contents (AnyRtree s) = map_of (collect (rt_root s))"
| "any_contents (AnyGeo s) = map_of (gh_items s)"

interpretation any: spatial_index any_ops any_inv any_contents
proof (unfold_locales, goal_cases)
  case (1 s its)
  then show ?case
    by (cases s) (simp_all add: any_ops_def brute.built quad.built geohash.built rtree.built del: One_nat_def)
next
  case (2 s b i)
  then show ?case
    by (cases s) (simp_all add: any_ops_def brute.inserted quad.inserted geohash.inserted rtree.inserted del: One_nat_def)
next
  case (3 s i)
  then show ?case
    by (cases s) (simp_all add: any_ops_def brute.removed quad.removed geohash.removed rtree.removed del: One_nat_def)
next
  case (4 s q out)
  then show ?case
    by (cases s) (simp_all add: any_ops_def brute.queried quad.queried geohash.queried rtree.queried del: One_nat_def)
next
  case (5 s)
  then show ?case
    by (cases s) (simp_all add: any_ops_def brute.sized quad.sized geohash.sized rtree.sized del: One_nat_def)
qed

lemma make_index_ok: "any_inv (make_index k) \<and> any_contents (make_index k) = Map.empty"
proof -
  have "rt_inv 1 (rt_new 8)" using rt_inv_mono [OF rt_new_inv(1)] .
  moreover have "gh_inv gh_new" by (simp add: gh_inv_def gh_new_def gh_items_def items_ok_def)
  ultimately show ?thesis
    by (cases k) (simp_all add: make_index_def bf_inv_def bf_new_def items_ok_def qt_new_sound rt_new_inv(2) gh_items_def gh_new_def)
qed

section \<open>Properties\<close>

text \<open>C17: The four indexes are interchangeable: the same operations get the same answers from each, and they
  are the answers of the map from ids to boxes, with the candidates of a query exactly the stored
  boxes that meet it.\<close>

theorem indexes_equivalent:
  assumes "ops_ok ps Map.empty"
  shows "index_run any_ops ps (make_index k) = spec_run ps Map.empty"
  using any.run_refines [of "make_index k" ps] assms make_index_ok by simp

theorem indexes_equivalent_witness:
  "index_run any_ops [IBuild [(1, Box 0 0 2 2), (2, Box 5 5 6 6)], IInsert 3 (Box 1 1 3 3), IQuery (Box 1 1 4 4),
     IRemove 1, IRemove 9, IQuery (Box 1 1 4 4), ISize] (make_index KRTree) =
   index_run any_ops [IBuild [(1, Box 0 0 2 2), (2, Box 5 5 6 6)], IInsert 3 (Box 1 1 3 3), IQuery (Box 1 1 4 4),
     IRemove 1, IRemove 9, IQuery (Box 1 1 4 4), ISize] (make_index KGeohash)"
proof -
  let ?ps = "[IBuild [(1, Box 0 0 2 2), (2, Box 5 5 6 6)], IInsert 3 (Box 1 1 3 3), IQuery (Box 1 1 4 4),
     IRemove 1, IRemove 9, IQuery (Box 1 1 4 4), ISize]"
  have "ops_ok ?ps Map.empty" by (simp add: items_ok_def bb_proper_def)
  then show ?thesis using indexes_equivalent [of ?ps KRTree] indexes_equivalent [of ?ps KGeohash] by simp
qed

end
