(* ===== verification/Evaluator.thy ===== *)
theory Evaluator
  imports Tourist Index_Factory
begin

text \<open>
  The evaluator, \<^verbatim>\<open>include/safetrail/fence/evaluator.hpp\<close> and \<^verbatim>\<open>src/fence/evaluator.cpp\<close>: one fix of one
  tourist against the zones near it. The spatial index is any record of operations; the theorems about the
  candidates are proved for every index that satisfies the contract \<open>spatial_index\<close>. The signed distance to a
  polygon without edges is infinite, \<open>None\<close>: the hysteresis compares it with its margins only, so it is handed
  a value above both.
\<close>

datatype event_kind = EvZoneEnter | EvZoneExit | EvZoneUncertain | EvZoneApproaching | EvDwellExceeded

record event =
  ev_kind :: event_kind
  ev_tourist :: tourist_id
  ev_zone :: zone_id
  ev_t_ms :: timestamp
  ev_depth_m :: "real option"
  ev_accuracy_m :: real
  ev_eta_s :: real
  ev_containment :: containment

datatype candidate_policy = ExactAlways | NearestFirstCapped

fun policy_string :: "candidate_policy \<Rightarrow> string" where
  "policy_string ExactAlways = ''exact-always''"
| "policy_string NearestFirstCapped = ''nearest-first-capped''"

record evaluator_config =
  prediction_horizon_s :: real
  max_candidates :: nat
  candidate_policy :: candidate_policy
  min_query_radius_m :: real
  max_query_radius_m :: real
  bbox_slack_m :: real
  ev_hysteresis :: hysteresis_config

definition evaluator_default :: evaluator_config where
  "evaluator_default =
     \<lparr>prediction_horizon_s = 300, max_candidates = 64, candidate_policy = ExactAlways,
      min_query_radius_m = 100, max_query_radius_m = 10000, bbox_slack_m = 0, ev_hysteresis = hysteresis_default\<rparr>"

record eval_counters =
  n_ticks :: nat
  n_evaluations :: nat
  n_candidates_examined :: nat
  n_exact_tests_run :: nat
  n_fixes_rejected_noise :: nat
  n_flaps_suppressed :: nat
  n_candidate_cap_hits :: nat
  n_candidates_dropped :: nat
  n_radius_clamped_max :: nat
  n_out_of_window :: nat
  n_states_closed :: nat

definition zero_counters :: eval_counters where
  "zero_counters =
     \<lparr>n_ticks = 0, n_evaluations = 0, n_candidates_examined = 0, n_exact_tests_run = 0, n_fixes_rejected_noise = 0,
      n_flaps_suppressed = 0, n_candidate_cap_hits = 0, n_candidates_dropped = 0, n_radius_clamped_max = 0,
      n_out_of_window = 0, n_states_closed = 0\<rparr>"

section \<open>The steps\<close>

definition query_radius_m :: "evaluator_config \<Rightarrow> tourist \<Rightarrow> real" where
  "query_radius_m cfg t =
     (let reach = speed_mps t * prediction_horizon_s cfg;
          r = accuracy_m (last_fix t) + (if reach > 0 then reach else 0)
      in if r < min_query_radius_m cfg then min_query_radius_m cfg
         else if r > max_query_radius_m cfg then max_query_radius_m cfg else r)"

definition blank_event :: "event_kind \<Rightarrow> tourist_id \<Rightarrow> zone_id \<Rightarrow> timestamp \<Rightarrow> event" where
  "blank_event k i z now_ms = \<lparr>ev_kind = k, ev_tourist = i, ev_zone = z, ev_t_ms = now_ms, ev_depth_m = Some 0,
     ev_accuracy_m = 0, ev_eta_s = 0, ev_containment = Outside\<rparr>"

definition config_for :: "evaluator_config \<Rightarrow> zone \<Rightarrow> hysteresis_config" where
  "config_for cfg z =
     (let hc = ev_hysteresis cfg;
          hc = (if z_enter_margin_m z > 0 then hc\<lparr>enter_margin_m := z_enter_margin_m z\<rparr> else hc)
      in if z_exit_margin_m z > 0 then hc\<lparr>exit_margin_m := z_exit_margin_m z\<rparr> else hc)"

definition sd_value :: "hysteresis_config \<Rightarrow> real option \<Rightarrow> real" where
  "sd_value hc sd = (case sd of Some d \<Rightarrow> d | None \<Rightarrow> max (exit_margin_m hc) (- enter_margin_m hc) + 1)"

text \<open>The new entry and the events; \<open>t\<close> is only read.\<close>

definition emit_transition ::
  "tourist \<Rightarrow> zone_state \<Rightarrow> containment \<Rightarrow> real option \<Rightarrow> timestamp \<Rightarrow> zone_state \<times> event list" where
  "emit_transition t st confirmed sd now_ms =
     (if confirmed = zst_confirmed st then (st, [])
      else
        (let e = (blank_event EvZoneEnter (to_id t) (zst_zone st) now_ms)
                   \<lparr>ev_depth_m := sd, ev_accuracy_m := accuracy_m (last_fix t), ev_containment := confirmed\<rparr>;
             (st, out) =
               (if confirmed = Inside
                then (st\<lparr>zst_entered_ms := now_ms, zst_dwell_reported := False\<rparr>, [e\<lparr>ev_kind := EvZoneEnter\<rparr>])
                else if zst_confirmed st = Inside then (st, [e\<lparr>ev_kind := EvZoneExit\<rparr>])
                else if confirmed = Uncertain then (st, [e\<lparr>ev_kind := EvZoneUncertain\<rparr>])
                else (st, []))
         in (st\<lparr>zst_confirmed := confirmed, zst_approach_reported := False\<rparr>, out)))"

definition dwell_step :: "tourist \<Rightarrow> zone \<Rightarrow> zone_id \<Rightarrow> zone_state \<Rightarrow> real option \<Rightarrow> timestamp \<Rightarrow> zone_state \<times> event list" where
  "dwell_step t z zid st sd now_ms =
     (if zst_confirmed st = Inside \<and> z_max_dwell_ms z > 0 \<and> \<not> zst_dwell_reported st \<and>
         now_ms - zst_entered_ms st > z_max_dwell_ms z
      then (st\<lparr>zst_dwell_reported := True\<rparr>,
            [(blank_event EvDwellExceeded (to_id t) zid now_ms)\<lparr>ev_depth_m := sd, ev_containment := zst_confirmed st\<rparr>])
      else (st, []))"

definition predict_step :: "evaluator_config \<Rightarrow> tourist \<Rightarrow> zone \<Rightarrow> zone_id \<Rightarrow> zone_state \<Rightarrow> real option \<Rightarrow> timestamp \<Rightarrow> zone_state \<times> event list" where
  "predict_step cfg t z zid st sd now_ms =
     (let v = speed_mps t in
      case sd of
        None \<Rightarrow> (st, [])
      | Some d \<Rightarrow>
          (if zst_confirmed st = Outside \<and> \<not> zst_approach_reported st \<and> v > 3 / 10 \<and> v < 8 \<and> d > 0 \<and>
              d / v \<le> prediction_horizon_s cfg \<and>
              pg_contains (z_shape z) (project_ahead t (min (d / v * (115 / 100)) (prediction_horizon_s cfg)))
           then (st\<lparr>zst_approach_reported := True\<rparr>,
                 [(blank_event EvZoneApproaching (to_id t) zid now_ms)
                    \<lparr>ev_depth_m := sd, ev_eta_s := d / v, ev_accuracy_m := accuracy_m (last_fix t), ev_containment := Outside\<rparr>])
           else (st, [])))"

text \<open>What the loop over the candidates changes.\<close>

record eval_run =
  er_states :: "zone_state list"
  er_nearest :: real
  er_counters :: eval_counters
  er_out :: "event list"

definition count_flap :: "hysteresis_state \<Rightarrow> eval_counters \<Rightarrow> eval_counters" where
  "count_flap h c = (if suppressed h then c\<lparr>n_flaps_suppressed := n_flaps_suppressed c + 1\<rparr> else c)"

definition observe_zone :: "evaluator_config \<Rightarrow> tourist \<Rightarrow> nat \<Rightarrow> timestamp \<Rightarrow> zone \<Rightarrow> zone_id \<Rightarrow> eval_run \<Rightarrow> eval_run" where
  "observe_zone cfg t epoch now_ms z zid r =
     (let box_d = bb_min_distance_m (pg_bbox (z_shape z)) (pos (last_fix t));
          nearest = (if box_d > 0 then min (er_nearest r) box_d else er_nearest r);
          c = (er_counters r)\<lparr>n_exact_tests_run := n_exact_tests_run (er_counters r) + 1\<rparr>;
          (raw, sd) = evaluate_fix (z_shape z) (last_fix t);
          nearest = (case sd of None \<Rightarrow> nearest | Some d \<Rightarrow> min nearest \<bar>d\<bar>);
          (i, sts) = state_for zid (er_states r);
          st = (sts ! i)\<lparr>zst_seen_epoch := epoch\<rparr>;
          hc = config_for cfg z;
          (confirmed, h) = hy_update raw (sd_value hc sd) now_ms hc (zst_hyst st);
          st = st\<lparr>zst_hyst := h\<rparr>;
          c = count_flap h c;
          (st, out1) = emit_transition t st confirmed sd now_ms;
          (st, out2) = dwell_step t z zid st sd now_ms;
          (st, out3) = predict_step cfg t z zid st sd now_ms
      in r\<lparr>er_states := sts[i := st], er_nearest := nearest, er_counters := c, er_out := er_out r @ out1 @ out2 @ out3\<rparr>)"

definition candidate_step :: "evaluator_config \<Rightarrow> zone list \<Rightarrow> tourist \<Rightarrow> nat \<Rightarrow> timestamp \<Rightarrow> eval_run \<Rightarrow> zone_id \<Rightarrow> eval_run" where
  "candidate_step cfg zones t epoch now_ms r zid =
     (case zs_get zones zid of
        None \<Rightarrow> r
      | Some z \<Rightarrow> if \<not> in_force (z_validity z) now_ms then r else observe_zone cfg t epoch now_ms z zid r)"

text \<open>The candidates above the cap under the capped policy: the ones to evaluate and the ones dropped.\<close>

definition candidate_rank :: "zone list \<Rightarrow> tourist \<Rightarrow> zone_id \<Rightarrow> real \<times> zone_id" where
  "candidate_rank zones t zid =
     (case zs_get zones zid of
        None \<Rightarrow> (1000000000000, zid)
      | Some z \<Rightarrow> (bb_min_distance_m (pg_bbox (z_shape z)) (pos (last_fix t)) - real (z_severity z) * (1 / 1000000), zid))"

definition cap_candidates :: "evaluator_config \<Rightarrow> zone list \<Rightarrow> tourist \<Rightarrow> zone_id list \<Rightarrow> zone_id list \<times> zone_id list" where
  "cap_candidates cfg zones t cs =
     (let ranked = map snd (sort (map (candidate_rank zones t) cs))
      in (sort (take (max_candidates cfg) ranked), drop (max_candidates cfg) ranked))"

definition mark_seen :: "nat \<Rightarrow> zone_state list \<Rightarrow> zone_id \<Rightarrow> zone_state list" where
  "mark_seen epoch sts zid = (case find_state zid sts of None \<Rightarrow> sts | Some i \<Rightarrow> sts[i := (sts ! i)\<lparr>zst_seen_epoch := epoch\<rparr>])"

text \<open>Step 9 on one entry: whether it is dropped, its new value, the counters and the events.\<close>

definition reconcile_one ::
  "evaluator_config \<Rightarrow> zone list \<Rightarrow> tourist \<Rightarrow> nat \<Rightarrow> timestamp \<Rightarrow> zone_state \<Rightarrow> eval_counters \<Rightarrow>
   bool \<times> zone_state \<times> eval_counters \<times> event list" where
  "reconcile_one cfg zones t epoch now_ms st c =
     (if zst_seen_epoch st = epoch then (False, st, c, [])
      else
        (let closed =
               (True, st, c\<lparr>n_states_closed := n_states_closed c + 1\<rparr>,
                if zst_confirmed st = Inside
                then [(blank_event EvZoneExit (to_id t) (zst_zone st) now_ms)\<lparr>ev_accuracy_m := accuracy_m (last_fix t), ev_containment := Outside\<rparr>]
                else [])
         in case zs_get zones (zst_zone st) of
              None \<Rightarrow> closed
            | Some z \<Rightarrow>
                if \<not> in_force (z_validity z) now_ms then closed
                else
                  (let c = c\<lparr>n_out_of_window := n_out_of_window c + 1\<rparr>;
                       sd = bb_min_distance_m (pg_bbox (z_shape z)) (pos (last_fix t));
                       hc = config_for cfg z;
                       (confirmed, h) = hy_update Outside sd now_ms hc (zst_hyst st);
                       st = st\<lparr>zst_hyst := h\<rparr>;
                       c = count_flap h c;
                       (st, out) = emit_transition t st confirmed (Some sd) now_ms
                   in (zst_confirmed st = Outside \<and> hy_phase h = POutside, st, c, out))))"

fun reconcile ::
  "evaluator_config \<Rightarrow> zone list \<Rightarrow> tourist \<Rightarrow> nat \<Rightarrow> timestamp \<Rightarrow> zone_state list \<Rightarrow> eval_counters \<Rightarrow>
   zone_state list \<times> eval_counters \<times> event list" where
  "reconcile cfg zones t epoch now_ms [] c = ([], c, [])"
| "reconcile cfg zones t epoch now_ms (st # sts) c =
     (let (drop_it, st, c, out) = reconcile_one cfg zones t epoch now_ms st c;
          (kept, c, out2) = reconcile cfg zones t epoch now_ms sts c
      in (if drop_it then kept else st # kept, c, out @ out2))"

record 's evaluator =
  ev_index :: 's
  ev_counters :: eval_counters

text \<open>The part of an evaluation after the index query, on the candidates in id order.\<close>

definition count_candidates :: "evaluator_config \<Rightarrow> nat \<Rightarrow> eval_counters \<Rightarrow> eval_counters" where
  "count_candidates cfg n c =
     (let c = (if n > max_candidates cfg then c\<lparr>n_candidate_cap_hits := n_candidate_cap_hits c + 1\<rparr> else c)
      in if n > max_candidates cfg \<and> candidate_policy cfg = NearestFirstCapped
         then c\<lparr>n_candidates_dropped := n_candidates_dropped c + (n - max_candidates cfg)\<rparr> else c)"

definition choose_candidates :: "evaluator_config \<Rightarrow> zone list \<Rightarrow> tourist \<Rightarrow> zone_id list \<Rightarrow> zone_id list \<times> zone_id list" where
  "choose_candidates cfg zones t cs =
     (if length cs > max_candidates cfg \<and> candidate_policy cfg = NearestFirstCapped
      then cap_candidates cfg zones t cs else (cs, []))"

definition examine_candidates ::
  "evaluator_config \<Rightarrow> zone list \<Rightarrow> timestamp \<Rightarrow> tourist \<Rightarrow> zone_state list \<Rightarrow> eval_counters \<Rightarrow> zone_id list \<Rightarrow> eval_run" where
  "examine_candidates cfg zones now_ms t sts c cs =
     foldl (candidate_step cfg zones t (eval_epoch t) now_ms)
       \<lparr>er_states = sts, er_nearest = 1000000000000,
        er_counters = c\<lparr>n_candidates_examined := n_candidates_examined c + length cs\<rparr>, er_out = []\<rparr> cs"

definition evaluate_candidates ::
  "evaluator_config \<Rightarrow> zone list \<Rightarrow> timestamp \<Rightarrow> tourist \<Rightarrow> eval_counters \<Rightarrow> zone_id list \<Rightarrow> tourist \<times> eval_counters \<times> event list" where
  "evaluate_candidates cfg zones now_ms t c cs =
     (let (cs', dropped) = choose_candidates cfg zones t cs;
          sts = foldl (mark_seen (eval_epoch t)) (zone_states t) dropped;
          r = examine_candidates cfg zones now_ms t sts (count_candidates cfg (length cs) c) cs';
          (sts, c, out) = reconcile cfg zones t (eval_epoch t) now_ms (er_states r) (er_counters r);
          sampler = snd (should_sample now_ms (er_nearest r) (speed_mps t) (alert_active t) (to_sampler t))
      in (t\<lparr>zone_states := sts, to_sampler := sampler\<rparr>, c, er_out r @ out))"

text \<open>One fix: the new tourist, the new evaluator, and the events appended.\<close>

definition count_evaluation :: "evaluator_config \<Rightarrow> tourist \<Rightarrow> eval_counters \<Rightarrow> eval_counters" where
  "count_evaluation cfg t c =
     (let c = c\<lparr>n_evaluations := n_evaluations c + 1\<rparr>
      in if query_radius_m cfg t \<ge> max_query_radius_m cfg then c\<lparr>n_radius_clamped_max := n_radius_clamped_max c + 1\<rparr> else c)"

definition count_rejected :: "eval_counters \<Rightarrow> eval_counters" where
  "count_rejected c = c\<lparr>n_evaluations := n_evaluations c + 1, n_fixes_rejected_noise := n_fixes_rejected_noise c + 1\<rparr>"

definition evaluate ::
  "evaluator_config \<Rightarrow> 's index_ops \<Rightarrow> zone list \<Rightarrow> timestamp \<Rightarrow> tourist \<Rightarrow> 's evaluator \<Rightarrow> tourist \<times> 's evaluator \<times> event list" where
  "evaluate cfg ops zones now_ms t e =
     (if \<not> usable (last_fix t) then (t, e\<lparr>ev_counters := count_rejected (ev_counters e)\<rparr>, [])
      else
        (let t = t\<lparr>eval_epoch := eval_epoch t + 1\<rparr>;
             (found, idx) = op_query ops (bb_around (pos (last_fix t)) (query_radius_m cfg t)) [] (ev_index e);
             (t, c, out) = evaluate_candidates cfg zones now_ms t (count_evaluation cfg t (ev_counters e)) (sort found)
         in (t, e\<lparr>ev_index := idx, ev_counters := c\<rparr>, out)))"

fun evaluate_each ::
  "evaluator_config \<Rightarrow> 's index_ops \<Rightarrow> zone list \<Rightarrow> timestamp \<Rightarrow> tourist list \<Rightarrow> 's evaluator \<Rightarrow> tourist list \<times> 's evaluator \<times> event list" where
  "evaluate_each cfg ops zones now_ms [] e = ([], e, [])"
| "evaluate_each cfg ops zones now_ms (t # ts) e =
     (let (t, e, out1) = evaluate cfg ops zones now_ms t e;
          (ts, e, out2) = evaluate_each cfg ops zones now_ms ts e
      in (t # ts, e, out1 @ out2))"

definition evaluate_all ::
  "evaluator_config \<Rightarrow> 's index_ops \<Rightarrow> zone list \<Rightarrow> timestamp \<Rightarrow> tourist list \<Rightarrow> 's evaluator \<Rightarrow> tourist list \<times> 's evaluator \<times> event list" where
  "evaluate_all cfg ops zones now_ms ts e =
     evaluate_each cfg ops zones now_ms ts (e\<lparr>ev_counters := (ev_counters e)\<lparr>n_ticks := n_ticks (ev_counters e) + 1\<rparr>\<rparr>)"

definition ev_reset_counters :: "'s evaluator \<Rightarrow> 's evaluator" where
  "ev_reset_counters e = e\<lparr>ev_counters := zero_counters\<rparr>"

definition evaluator_new :: "'s \<Rightarrow> 's evaluator" where
  "evaluator_new idx = \<lparr>ev_index = idx, ev_counters = zero_counters\<rparr>"

section \<open>The protocol of the events\<close>

text \<open>What the events about one zone may be, as an automaton: \<open>None\<close> outside, \<open>Some r\<close> inside with \<open>r\<close> telling
  whether the dwell limit has been reported.\<close>

fun stay :: "bool option \<Rightarrow> event_kind list \<Rightarrow> bool option option" where
  "stay s [] = Some s"
| "stay s (k # ks) =
     (case (s, k) of
        (None, EvZoneEnter) \<Rightarrow> stay (Some False) ks
      | (None, EvZoneUncertain) \<Rightarrow> stay None ks
      | (None, EvZoneApproaching) \<Rightarrow> stay None ks
      | (Some False, EvDwellExceeded) \<Rightarrow> stay (Some True) ks
      | (Some r, EvZoneExit) \<Rightarrow> stay None ks
      | _ \<Rightarrow> None)"

lemma stay_append: "stay s (xs @ ys) = (case stay s xs of None \<Rightarrow> None | Some s' \<Rightarrow> stay s' ys)"
  by (induction s xs rule: stay.induct) (auto split: option.split event_kind.split bool.split)

definition kinds_at :: "zone_id \<Rightarrow> event list \<Rightarrow> event_kind list" where
  "kinds_at z out = map ev_kind (filter (\<lambda>e. ev_zone e = z) out)"

lemma kinds_at_append: "kinds_at z (xs @ ys) = kinds_at z xs @ kinds_at z ys"
  by (simp add: kinds_at_def)

lemma kinds_at_all: "\<forall>e \<in> set out. ev_zone e = z \<Longrightarrow> kinds_at z' out = (if z' = z then map ev_kind out else [])"
  by (auto simp: kinds_at_def filter_empty_conv)

definition stay_of :: "zone_state \<Rightarrow> bool option" where
  "stay_of st = (if zst_confirmed st = Inside then Some (zst_dwell_reported st) else None)"

definition stay_in :: "zone_id \<Rightarrow> zone_state list \<Rightarrow> bool option" where
  "stay_in z sts = (case peek_state z sts of None \<Rightarrow> None | Some st \<Rightarrow> stay_of st)"

text \<open>A step on one entry: the zone stays, the events are about it and follow the protocol.\<close>

definition lawful :: "zone_state \<Rightarrow> zone_state \<times> event list \<Rightarrow> bool" where
  "lawful st p \<longleftrightarrow> zst_zone (fst p) = zst_zone st \<and> zst_seen_epoch (fst p) = zst_seen_epoch st \<and>
     (\<forall>e \<in> set (snd p). ev_zone e = zst_zone st) \<and> stay (stay_of st) (map ev_kind (snd p)) = Some (stay_of (fst p))"

lemma emit_lawful: "lawful st (emit_transition t st confirmed sd now_ms)"
  by (cases confirmed; cases "zst_confirmed st"; simp add: lawful_def emit_transition_def stay_of_def Let_def blank_event_def split: bool.split)

lemma emit_confirmed: "zst_confirmed (fst (emit_transition t st confirmed sd now_ms)) = confirmed"
  by (simp add: emit_transition_def Let_def)

lemma dwell_lawful: "zst_zone st = zid \<Longrightarrow> lawful st (dwell_step t z zid st sd now_ms)"
  by (auto simp: lawful_def dwell_step_def stay_of_def blank_event_def)

lemma predict_lawful: "zst_zone st = zid \<Longrightarrow> lawful st (predict_step cfg t z zid st sd now_ms)"
  by (simp add: lawful_def predict_step_def stay_of_def blank_event_def Let_def split: option.split)

lemma lawful_trans: "lawful st (st1, out1) \<Longrightarrow> lawful st1 (st2, out2) \<Longrightarrow> lawful st (st2, out1 @ out2)"
  by (auto simp: lawful_def stay_append)

lemma first_index_distinct:
  "distinct (map f xs) \<Longrightarrow> i < length xs \<Longrightarrow> first_index (\<lambda>x. f x = f (xs ! i)) xs = Some i"
proof (induction xs arbitrary: i)
  case (Cons x xs)
  show ?case
  proof (cases i)
    case (Suc k)
    then have "f x \<noteq> f (xs ! k)" using Cons.prems nth_mem [of k xs] by (metis Suc_less_SucD distinct.simps(2) imageI length_Cons list.set_map list.simps(9))
    then show ?thesis using Cons Suc by simp
  qed simp
qed simp

lemma stay_in_nth: "distinct (map zst_zone sts) \<Longrightarrow> i < length sts \<Longrightarrow> stay_in (zst_zone (sts ! i)) sts = stay_of (sts ! i)"
  using first_index_distinct [of zst_zone sts i] by (simp add: stay_in_def peek_state_def find_state_def)

lemma stay_in_absent: "z \<notin> zst_zone ` set sts \<Longrightarrow> stay_in z sts = None"
  using find_state_None [of z sts] by (simp add: stay_in_def peek_state_def)

lemma stay_in_member: "distinct (map zst_zone sts) \<Longrightarrow> st \<in> set sts \<Longrightarrow> stay_in (zst_zone st) sts = stay_of st"
  by (metis in_set_conv_nth stay_in_nth)

lemma stay_in_cong:
  assumes "distinct (map zst_zone sts)" "distinct (map zst_zone sts')"
    "{st \<in> set sts. zst_zone st = z} = {st \<in> set sts'. zst_zone st = z}"
  shows "stay_in z sts = stay_in z sts'"
proof (cases "z \<in> zst_zone ` set sts")
  case True
  then obtain st where st: "st \<in> set sts" "zst_zone st = z" by blast
  then have "st \<in> set sts'" using assms(3) by blast
  then show ?thesis using stay_in_member [OF assms(1) st(1)] stay_in_member [OF assms(2)] st(2) by metis
next
  case False
  then have "z \<notin> zst_zone ` set sts'" using assms(3) by auto
  then show ?thesis using False stay_in_absent by metis
qed

text \<open>A step on the entries: zones stay distinct and the events about every zone follow the protocol.\<close>

definition lawful_all :: "zone_state list \<Rightarrow> zone_state list \<Rightarrow> event list \<Rightarrow> bool" where
  "lawful_all sts sts' out \<longleftrightarrow> distinct (map zst_zone sts') \<and> (\<forall>z. stay (stay_in z sts) (kinds_at z out) = Some (stay_in z sts'))"

lemma lawful_all_trans: "lawful_all a b out1 \<Longrightarrow> lawful_all b c out2 \<Longrightarrow> lawful_all a c (out1 @ out2)"
  by (simp add: lawful_all_def kinds_at_append stay_append)

lemma lawful_all_refl: "distinct (map zst_zone sts) \<Longrightarrow> lawful_all sts sts []"
  by (simp add: lawful_all_def kinds_at_def)

lemma lawful_update:
  assumes "distinct (map zst_zone sts)" "i < length sts" "lawful (sts ! i) (st', out)"
  shows "lawful_all sts (sts[i := st']) out"
proof -
  have z: "zst_zone st' = zst_zone (sts ! i)" using assms(3) by (simp add: lawful_def)
  have m: "map zst_zone (sts[i := st']) = map zst_zone sts" using z assms(2) by (simp add: map_update) (metis list_update_id nth_map)
  have "stay (stay_in z sts) (kinds_at z out) = Some (stay_in z (sts[i := st']))" for z
  proof (cases "z = zst_zone (sts ! i)")
    case True
    have "stay_in z (sts[i := st']) = stay_of st'"
      using stay_in_nth [of "sts[i := st']" i] m assms(1,2) z True by simp
    moreover have "stay_in z sts = stay_of (sts ! i)" using stay_in_nth [OF assms(1,2)] True by simp
    ultimately show ?thesis using assms(3) True kinds_at_all [of out "zst_zone (sts ! i)" z] by (simp add: lawful_def)
  next
    case False
    have "{st \<in> set sts. zst_zone st = z} = {st \<in> set (sts[i := st']). zst_zone st = z}"
      using False z assms(2) by (auto simp: set_conv_nth nth_list_update)
    then have "stay_in z sts = stay_in z (sts[i := st'])" using assms(1) m by (intro stay_in_cong) simp_all
    then show ?thesis using assms(3) False kinds_at_all [of out "zst_zone (sts ! i)" z] by (simp add: lawful_def)
  qed
  then show ?thesis using assms(1) m by (simp add: lawful_all_def)
qed

lemma stay_of_silent: "stay_of (st\<lparr>zst_seen_epoch := n\<rparr>) = stay_of st" "stay_of (st\<lparr>zst_hyst := h\<rparr>) = stay_of st"
  by (simp_all add: stay_of_def)

text \<open>The parts of one observation.\<close>

definition observed :: "evaluator_config \<Rightarrow> tourist \<Rightarrow> timestamp \<Rightarrow> zone \<Rightarrow> zone_id \<Rightarrow> zone_state \<Rightarrow> zone_state \<times> event list" where
  "observed cfg t now_ms z zid st0 =
     (let (raw, sd) = evaluate_fix (z_shape z) (last_fix t);
          hc = config_for cfg z;
          (confirmed, h) = hy_update raw (sd_value hc sd) now_ms hc (zst_hyst st0);
          (st, out1) = emit_transition t (st0\<lparr>zst_hyst := h\<rparr>) confirmed sd now_ms;
          (st, out2) = dwell_step t z zid st sd now_ms;
          (st, out3) = predict_step cfg t z zid st sd now_ms
      in (st, out1 @ out2 @ out3))"

lemma lawful_hyst: "lawful (st\<lparr>zst_hyst := h\<rparr>) p \<Longrightarrow> lawful st p"
  by (simp add: lawful_def stay_of_silent)

lemma observed_lawful:
  assumes "zst_zone st0 = zid"
  shows "lawful st0 (observed cfg t now_ms z zid st0)"
proof -
  obtain raw sd where e: "evaluate_fix (z_shape z) (last_fix t) = (raw, sd)" by fastforce
  obtain confirmed h where hy: "hy_update raw (sd_value (config_for cfg z) sd) now_ms (config_for cfg z) (zst_hyst st0) = (confirmed, h)" by fastforce
  obtain st1 o1 where s1: "emit_transition t (st0\<lparr>zst_hyst := h\<rparr>) confirmed sd now_ms = (st1, o1)" by fastforce
  obtain st2 o2 where s2: "dwell_step t z zid st1 sd now_ms = (st2, o2)" by fastforce
  obtain st3 o3 where s3: "predict_step cfg t z zid st2 sd now_ms = (st3, o3)" by fastforce
  have l1: "lawful st0 (st1, o1)" using emit_lawful [of "st0\<lparr>zst_hyst := h\<rparr>" t confirmed sd now_ms] s1 lawful_hyst by metis
  then have z1: "zst_zone st1 = zid" using assms by (simp add: lawful_def)
  have l2: "lawful st1 (st2, o2)" using dwell_lawful [OF z1, of t z sd now_ms] s2 by simp
  then have z2: "zst_zone st2 = zid" using z1 by (simp add: lawful_def)
  have l3: "lawful st2 (st3, o3)" using predict_lawful [OF z2, of cfg t z sd now_ms] s3 by simp
  have "observed cfg t now_ms z zid st0 = (st3, o1 @ o2 @ o3)" by (simp add: observed_def e hy s1 s2 s3 Let_def)
  then show ?thesis using lawful_trans [OF l1 lawful_trans [OF l2 l3]] by simp
qed

lemma observe_zone_parts:
  assumes "state_for zid (er_states r) = (i, sts)"
  shows "er_states (observe_zone cfg t epoch now_ms z zid r) = sts[i := fst (observed cfg t now_ms z zid ((sts ! i)\<lparr>zst_seen_epoch := epoch\<rparr>))]"
    "er_out (observe_zone cfg t epoch now_ms z zid r) = er_out r @ snd (observed cfg t now_ms z zid ((sts ! i)\<lparr>zst_seen_epoch := epoch\<rparr>))"
  by (simp_all add: observe_zone_def observed_def assms Let_def split: prod.split)

lemma lawful_seen: "lawful (st\<lparr>zst_seen_epoch := n\<rparr>) p \<Longrightarrow> zst_zone (fst p) = zst_zone st \<and> zst_seen_epoch (fst p) = n \<and>
    (\<forall>e \<in> set (snd p). ev_zone e = zst_zone st) \<and> stay (stay_of st) (map ev_kind (snd p)) = Some (stay_of (fst p))"
  by (simp add: lawful_def stay_of_silent)

lemma lawful_update_seen:
  assumes d: "distinct (map zst_zone sts)" and i: "i < length sts" and l: "lawful ((sts ! i)\<lparr>zst_seen_epoch := n\<rparr>) (st', out)"
  shows "lawful_all sts (sts[i := st']) out"
proof -
  let ?m = "sts[i := (sts ! i)\<lparr>zst_seen_epoch := n\<rparr>]"
  have m: "map zst_zone ?m = map zst_zone sts" using i by (simp add: map_update) (metis list_update_id nth_map)
  have "lawful_all sts ?m []"
  proof -
    have "stay_in z ?m = stay_in z sts" for z
    proof (cases "z \<in> zst_zone ` set sts")
      case True
      then obtain j where j: "j < length sts" "z = zst_zone (sts ! j)" by (auto simp: in_set_conv_nth)
      have "zst_zone (?m ! j) = z" "stay_of (?m ! j) = stay_of (sts ! j)" using j i by (simp_all add: nth_list_update stay_of_silent)
      then show ?thesis using stay_in_nth [of ?m j] stay_in_nth [OF d j(1)] m d j by simp
    next
      case False
      then have "z \<notin> zst_zone ` set ?m" using m by (metis list.set_map)
      then show ?thesis using False stay_in_absent by metis
    qed
    then show ?thesis using d m by (simp add: lawful_all_def kinds_at_def)
  qed
  moreover have "lawful_all ?m (?m[i := st']) out" using lawful_update [of ?m i st' out] l i m d by simp
  ultimately show ?thesis using lawful_all_trans [of sts ?m "[]"] by simp
qed

lemma state_for_stay: "distinct (map zst_zone sts) \<Longrightarrow> state_for z sts = (i, sts') \<Longrightarrow> lawful_all sts sts' []"
proof -
  assume d: "distinct (map zst_zone sts)" and s: "state_for z sts = (i, sts')"
  note c = state_for_correct [OF d s]
  show "lawful_all sts sts' []"
  proof (cases "sts' = sts")
    case False
    then have n: "z \<notin> zst_zone ` set sts" "sts' = sts @ [zone_state_new z]" using c(4) by auto
    have "stay_in z' sts' = stay_in z' sts" for z'
    proof (cases "z' = z")
      case True
      have "stay_in z sts' = stay_of (zone_state_new z)"
        using stay_in_member [OF c(3), of "zone_state_new z"] n(2) by (simp add: zone_state_new_def)
      then show ?thesis using True stay_in_absent [OF n(1)] by (simp add: stay_of_def zone_state_new_def)
    next
      case False
      then show ?thesis using d c(3) n(2) by (intro stay_in_cong) (auto simp: zone_state_new_def)
    qed
    then show ?thesis using c(3) by (simp add: lawful_all_def kinds_at_def)
  qed (use lawful_all_refl [OF d] in simp)
qed

lemma observe_zone_lawful:
  assumes "distinct (map zst_zone (er_states r))"
  shows "\<exists>out. er_out (observe_zone cfg t epoch now_ms z zid r) = er_out r @ out \<and>
    lawful_all (er_states r) (er_states (observe_zone cfg t epoch now_ms z zid r)) out \<and>
    (\<exists>st \<in> set (er_states (observe_zone cfg t epoch now_ms z zid r)). zst_zone st = zid \<and> zst_seen_epoch st = epoch) \<and>
    (\<forall>st \<in> set (er_states r). zst_seen_epoch st = epoch \<longrightarrow>
       (\<exists>st' \<in> set (er_states (observe_zone cfg t epoch now_ms z zid r)). zst_zone st' = zst_zone st \<and> zst_seen_epoch st' = epoch))"
proof -
  obtain i sts where s: "state_for zid (er_states r) = (i, sts)" by fastforce
  note c = state_for_correct [OF assms s]
  obtain st' out where o: "observed cfg t now_ms z zid ((sts ! i)\<lparr>zst_seen_epoch := epoch\<rparr>) = (st', out)" by fastforce
  have l: "lawful ((sts ! i)\<lparr>zst_seen_epoch := epoch\<rparr>) (st', out)"
    using observed_lawful [of "(sts ! i)\<lparr>zst_seen_epoch := epoch\<rparr>" zid cfg t now_ms z] c(2) o by simp
  have st': "zst_zone st' = zid" "zst_seen_epoch st' = epoch" using lawful_seen [OF l] c(2) by simp_all
  have e: "er_states (observe_zone cfg t epoch now_ms z zid r) = sts[i := st']" "er_out (observe_zone cfg t epoch now_ms z zid r) = er_out r @ out"
    using observe_zone_parts [OF s, of cfg t epoch now_ms z] o by simp_all
  have "lawful_all (er_states r) (sts[i := st']) out"
    using lawful_all_trans [OF state_for_stay [OF assms s] lawful_update_seen [OF c(3,1) l]] by simp
  moreover have "st' \<in> set (sts[i := st'])" using c(1) by (rule set_update_memI)
  moreover have "\<exists>st2 \<in> set (sts[i := st']). zst_zone st2 = zst_zone st \<and> zst_seen_epoch st2 = epoch"
    if "st \<in> set (er_states r)" "zst_seen_epoch st = epoch" for st
  proof (cases "zst_zone st = zid")
    case True
    then show ?thesis using st' \<open>st' \<in> set (sts[i := st'])\<close> by metis
  next
    case False
    have "st \<in> set sts" using that c(4) by auto
    then obtain j where j: "j < length sts" "sts ! j = st" by (auto simp: in_set_conv_nth)
    then have "j \<noteq> i" using False c(2) by auto
    then have "st \<in> set (sts[i := st'])" using j by (metis length_list_update nth_list_update_neq nth_mem)
    then show ?thesis using that by blast
  qed
  ultimately show ?thesis using e st' by auto
qed

definition seen_kept :: "nat \<Rightarrow> zone_state list \<Rightarrow> zone_state list \<Rightarrow> bool" where
  "seen_kept epoch sts sts' \<longleftrightarrow> (\<forall>st \<in> set sts. zst_seen_epoch st = epoch \<longrightarrow>
     (\<exists>st' \<in> set sts'. zst_zone st' = zst_zone st \<and> zst_seen_epoch st' = epoch))"

lemma seen_kept_trans: "seen_kept e a b \<Longrightarrow> seen_kept e b c \<Longrightarrow> seen_kept e a c"
  unfolding seen_kept_def by metis

lemma candidate_step_lawful:
  assumes "distinct (map zst_zone (er_states r))"
  shows "\<exists>out. er_out (candidate_step cfg zones t epoch now_ms r zid) = er_out r @ out \<and>
    lawful_all (er_states r) (er_states (candidate_step cfg zones t epoch now_ms r zid)) out \<and>
    seen_kept epoch (er_states r) (er_states (candidate_step cfg zones t epoch now_ms r zid)) \<and>
    (\<forall>z. zs_get zones zid = Some z \<and> in_force (z_validity z) now_ms \<longrightarrow>
      (\<exists>st \<in> set (er_states (candidate_step cfg zones t epoch now_ms r zid)). zst_zone st = zid \<and> zst_seen_epoch st = epoch))"
proof (cases "\<exists>z. zs_get zones zid = Some z \<and> in_force (z_validity z) now_ms")
  case True
  then obtain z where z: "zs_get zones zid = Some z" "in_force (z_validity z) now_ms" by blast
  have "candidate_step cfg zones t epoch now_ms r zid = observe_zone cfg t epoch now_ms z zid r" using z by (simp add: candidate_step_def)
  then show ?thesis using observe_zone_lawful [OF assms, of cfg t epoch now_ms z zid] z unfolding seen_kept_def by auto
next
  case False
  then have "candidate_step cfg zones t epoch now_ms r zid = r" by (auto simp: candidate_step_def split: option.split)
  then show ?thesis using False lawful_all_refl [OF assms] by (auto simp: seen_kept_def)
qed

lemma candidates_lawful:
  assumes "distinct (map zst_zone (er_states r))"
  shows "\<exists>out. er_out (foldl (candidate_step cfg zones t epoch now_ms) r cs) = er_out r @ out \<and>
    lawful_all (er_states r) (er_states (foldl (candidate_step cfg zones t epoch now_ms) r cs)) out \<and>
    seen_kept epoch (er_states r) (er_states (foldl (candidate_step cfg zones t epoch now_ms) r cs)) \<and>
    (\<forall>zid \<in> set cs. \<forall>z. zs_get zones zid = Some z \<and> in_force (z_validity z) now_ms \<longrightarrow>
      (\<exists>st \<in> set (er_states (foldl (candidate_step cfg zones t epoch now_ms) r cs)). zst_zone st = zid \<and> zst_seen_epoch st = epoch))"
  using assms
proof (induction cs arbitrary: r)
  case Nil
  then show ?case using lawful_all_refl by (auto simp: seen_kept_def)
next
  case (Cons c cs)
  let ?r = "candidate_step cfg zones t epoch now_ms r c"
  obtain o1 where s: "er_out ?r = er_out r @ o1" "lawful_all (er_states r) (er_states ?r) o1" "seen_kept epoch (er_states r) (er_states ?r)"
    "\<forall>z. zs_get zones c = Some z \<and> in_force (z_validity z) now_ms \<longrightarrow> (\<exists>st \<in> set (er_states ?r). zst_zone st = c \<and> zst_seen_epoch st = epoch)"
    using candidate_step_lawful [OF Cons.prems] by blast
  have "distinct (map zst_zone (er_states ?r))" using s(2) by (simp add: lawful_all_def)
  from Cons.IH [OF this] obtain o2 where t: "er_out (foldl (candidate_step cfg zones t epoch now_ms) ?r cs) = er_out ?r @ o2"
    "lawful_all (er_states ?r) (er_states (foldl (candidate_step cfg zones t epoch now_ms) ?r cs)) o2"
    "seen_kept epoch (er_states ?r) (er_states (foldl (candidate_step cfg zones t epoch now_ms) ?r cs))"
    "\<forall>zid \<in> set cs. \<forall>z. zs_get zones zid = Some z \<and> in_force (z_validity z) now_ms \<longrightarrow>
      (\<exists>st \<in> set (er_states (foldl (candidate_step cfg zones t epoch now_ms) ?r cs)). zst_zone st = zid \<and> zst_seen_epoch st = epoch)" by blast
  have "\<exists>st \<in> set (er_states (foldl (candidate_step cfg zones t epoch now_ms) ?r cs)). zst_zone st = c \<and> zst_seen_epoch st = epoch"
    if "zs_get zones c = Some z" "in_force (z_validity z) now_ms" for z
    using s(4) that t(3) unfolding seen_kept_def by metis
  then show ?case
    using lawful_all_trans [OF s(2) t(2)] seen_kept_trans [OF s(3) t(3)] s(1) t(1,4) by (intro exI [of _ "o1 @ o2"]) auto
qed

lemma examine_lawful:
  assumes "distinct (map zst_zone sts)"
  shows "\<exists>out. er_out (examine_candidates cfg zones now_ms t sts c cs) = out \<and>
    lawful_all sts (er_states (examine_candidates cfg zones now_ms t sts c cs)) out \<and>
    (\<forall>zid \<in> set cs. \<forall>z. zs_get zones zid = Some z \<and> in_force (z_validity z) now_ms \<longrightarrow>
      (\<exists>st \<in> set (er_states (examine_candidates cfg zones now_ms t sts c cs)). zst_zone st = zid \<and> zst_seen_epoch st = eval_epoch t))"
  using candidates_lawful [of "\<lparr>er_states = sts, er_nearest = 1000000000000,
      er_counters = c\<lparr>n_candidates_examined := n_candidates_examined c + length cs\<rparr>, er_out = []\<rparr>" cfg zones t "eval_epoch t" now_ms cs] assms
  unfolding examine_candidates_def by (simp only: eval_run.simps append_Nil) blast

text \<open>An entry seen in this evaluation is of a zone in force.\<close>

definition zone_open :: "zone list \<Rightarrow> timestamp \<Rightarrow> zone_id \<Rightarrow> bool" where
  "zone_open zones now_ms i \<longleftrightarrow> (case zs_get zones i of None \<Rightarrow> False | Some z \<Rightarrow> in_force (z_validity z) now_ms)"

lemma zone_open_iff: "zone_open zones now_ms i \<longleftrightarrow> (\<exists>z. zs_get zones i = Some z \<and> in_force (z_validity z) now_ms)"
  by (simp add: zone_open_def split: option.split)

definition seen_open :: "zone list \<Rightarrow> timestamp \<Rightarrow> nat \<Rightarrow> zone_state list \<Rightarrow> bool" where
  "seen_open zones now_ms epoch sts \<longleftrightarrow> (\<forall>st \<in> set sts. zst_seen_epoch st = epoch \<longrightarrow> zone_open zones now_ms (zst_zone st))"

lemma candidate_step_open:
  assumes "distinct (map zst_zone (er_states r))" "0 < epoch" "seen_open zones now_ms epoch (er_states r)"
  shows "seen_open zones now_ms epoch (er_states (candidate_step cfg zones t epoch now_ms r zid))"
proof (cases "zone_open zones now_ms zid")
  case True
  then obtain z where z: "zs_get zones zid = Some z" "in_force (z_validity z) now_ms" by (auto simp: zone_open_iff)
  obtain i sts where s: "state_for zid (er_states r) = (i, sts)" by fastforce
  note c = state_for_correct [OF assms(1) s]
  let ?st = "fst (observed cfg t now_ms z zid ((sts ! i)\<lparr>zst_seen_epoch := epoch\<rparr>))"
  have "lawful ((sts ! i)\<lparr>zst_seen_epoch := epoch\<rparr>) (observed cfg t now_ms z zid ((sts ! i)\<lparr>zst_seen_epoch := epoch\<rparr>))"
    using c(2) by (intro observed_lawful) simp
  then have "zst_zone ?st = zid" using c(2) by (simp add: lawful_def)
  moreover have "er_states (candidate_step cfg zones t epoch now_ms r zid) = sts[i := ?st]"
    using z observe_zone_parts(1) [OF s] by (simp add: candidate_step_def)
  moreover have "seen_open zones now_ms epoch sts"
    using c(4) assms(2,3) by (auto simp: seen_open_def zone_state_new_def)
  ultimately show ?thesis using True set_update_subset_insert [of sts i ?st] unfolding seen_open_def by auto
next
  case False
  then have "candidate_step cfg zones t epoch now_ms r zid = r" by (auto simp: candidate_step_def zone_open_def split: option.splits)
  then show ?thesis using assms(3) by simp
qed

lemma candidates_open:
  "distinct (map zst_zone (er_states r)) \<Longrightarrow> 0 < epoch \<Longrightarrow> seen_open zones now_ms epoch (er_states r) \<Longrightarrow>
   seen_open zones now_ms epoch (er_states (foldl (candidate_step cfg zones t epoch now_ms) r cs))"
proof (induction cs arbitrary: r)
  case (Cons c cs)
  have "distinct (map zst_zone (er_states (candidate_step cfg zones t epoch now_ms r c)))"
    using candidate_step_lawful [OF Cons.prems(1)] unfolding lawful_all_def by blast
  then show ?case using Cons.IH candidate_step_open Cons.prems by simp
qed simp

lemma examine_open:
  assumes "distinct (map zst_zone sts)" "\<forall>st \<in> set sts. zst_seen_epoch st < eval_epoch t" "0 < eval_epoch t"
  shows "seen_open zones now_ms (eval_epoch t) (er_states (examine_candidates cfg zones now_ms t sts c cs))"
  unfolding examine_candidates_def using assms by (intro candidates_open) (auto simp: seen_open_def)

section \<open>Reconciliation\<close>

lemma reconcile_one_lawful:
  assumes "reconcile_one cfg zones t epoch now_ms st c = (dropped, st', c', out)"
  shows "zst_zone st' = zst_zone st" "\<forall>e \<in> set out. ev_zone e = zst_zone st"
    "stay (stay_of st) (map ev_kind out) = Some (if dropped then None else stay_of st')"
    "zst_seen_epoch st = epoch \<Longrightarrow> \<not> dropped \<and> st' = st"
    "zst_seen_epoch st \<noteq> epoch \<Longrightarrow> \<not> (\<exists>z. zs_get zones (zst_zone st) = Some z \<and> in_force (z_validity z) now_ms) \<Longrightarrow> dropped"
proof -
  define closing where "closing = (if zst_confirmed st = Inside
      then [(blank_event EvZoneExit (to_id t) (zst_zone st) now_ms)\<lparr>ev_accuracy_m := accuracy_m (last_fix t), ev_containment := Outside\<rparr>] else [])"
  have cl: "\<forall>e \<in> set closing. ev_zone e = zst_zone st" "stay (stay_of st) (map ev_kind closing) = Some None"
    by (simp_all add: closing_def blank_event_def stay_of_def split: bool.split)
  consider "zst_seen_epoch st = epoch" | "zst_seen_epoch st \<noteq> epoch" "\<not> (\<exists>z. zs_get zones (zst_zone st) = Some z \<and> in_force (z_validity z) now_ms)"
    | z where "zst_seen_epoch st \<noteq> epoch" "zs_get zones (zst_zone st) = Some z" "in_force (z_validity z) now_ms" by blast
  then have "zst_zone st' = zst_zone st \<and> (\<forall>e \<in> set out. ev_zone e = zst_zone st) \<and>
    stay (stay_of st) (map ev_kind out) = Some (if dropped then None else stay_of st') \<and>
    (zst_seen_epoch st = epoch \<longrightarrow> \<not> dropped \<and> st' = st) \<and>
    (zst_seen_epoch st \<noteq> epoch \<and> \<not> (\<exists>z. zs_get zones (zst_zone st) = Some z \<and> in_force (z_validity z) now_ms) \<longrightarrow> dropped)"
  proof cases
    case 1
    then show ?thesis using assms by (auto simp: reconcile_one_def)
  next
    case 2
    then have "dropped \<and> st' = st \<and> out = closing"
      using assms by (auto simp: reconcile_one_def closing_def Let_def split: option.splits if_splits)
    then show ?thesis using 2 cl by simp
  next
    case (3 z)
    define sd where "sd = bb_min_distance_m (pg_bbox (z_shape z)) (pos (last_fix t))"
    obtain confirmed h where hy: "hy_update Outside sd now_ms (config_for cfg z) (zst_hyst st) = (confirmed, h)" by fastforce
    obtain st1 o1 where em: "emit_transition t (st\<lparr>zst_hyst := h\<rparr>) confirmed (Some sd) now_ms = (st1, o1)" by fastforce
    have r: "st' = st1 \<and> out = o1 \<and> dropped = (zst_confirmed st1 = Outside \<and> hy_phase h = POutside)"
      using assms 3 by (auto simp: reconcile_one_def hy em sd_def [symmetric] Let_def)
    have l: "lawful st (st1, o1)" using emit_lawful [of "st\<lparr>zst_hyst := h\<rparr>" t confirmed "Some sd" now_ms] em lawful_hyst by metis
    have "dropped \<longrightarrow> stay_of st1 = None" using r by (simp add: stay_of_def)
    then show ?thesis using l 3 unfolding lawful_def by (auto simp: r)
  qed
  then show "zst_zone st' = zst_zone st" "\<forall>e \<in> set out. ev_zone e = zst_zone st"
    "stay (stay_of st) (map ev_kind out) = Some (if dropped then None else stay_of st')"
    "zst_seen_epoch st = epoch \<Longrightarrow> \<not> dropped \<and> st' = st"
    "zst_seen_epoch st \<noteq> epoch \<Longrightarrow> \<not> (\<exists>z. zs_get zones (zst_zone st) = Some z \<and> in_force (z_validity z) now_ms) \<Longrightarrow> dropped" by blast+
qed

lemma stay_in_Cons: "stay_in z (st # sts) = (if zst_zone st = z then stay_of st else stay_in z sts)"
  by (simp add: stay_in_def peek_state_def find_state_def option.map_comp comp_def cong: option.case_cong)

lemma reconcile_lawful:
  assumes "distinct (map zst_zone sts)" "reconcile cfg zones t epoch now_ms sts c = (sts', c', out)"
  shows "zst_zone ` set sts' \<subseteq> zst_zone ` set sts \<and> lawful_all sts sts' out \<and> seen_kept epoch sts sts' \<and>
    (\<forall>st \<in> set sts'. st \<in> set sts \<and> zst_seen_epoch st = epoch \<or> (\<exists>z. zs_get zones (zst_zone st) = Some z \<and> in_force (z_validity z) now_ms)) \<and>
    (\<forall>e \<in> set out. ev_zone e \<in> zst_zone ` set sts)"
  using assms
proof (induction sts arbitrary: c sts' c' out)
  case Nil
  then show ?case by (simp add: lawful_all_def kinds_at_def seen_kept_def)
next
  case (Cons st sts)
  obtain dropped st1 c1 o1 where one: "reconcile_one cfg zones t epoch now_ms st c = (dropped, st1, c1, o1)" by (metis prod_cases4)
  obtain kept c2 o2 where rest: "reconcile cfg zones t epoch now_ms sts c1 = (kept, c2, o2)" by (metis prod_cases3)
  have r: "sts' = (if dropped then kept else st1 # kept)" "out = o1 @ o2" using Cons.prems(2) by (simp_all add: one rest)
  note o = reconcile_one_lawful [OF one]
  have ih: "zst_zone ` set kept \<subseteq> zst_zone ` set sts" "lawful_all sts kept o2" "seen_kept epoch sts kept"
    "\<forall>st \<in> set kept. st \<in> set sts \<and> zst_seen_epoch st = epoch \<or> (\<exists>z. zs_get zones (zst_zone st) = Some z \<and> in_force (z_validity z) now_ms)"
    "\<forall>e \<in> set o2. ev_zone e \<in> zst_zone ` set sts"
    using Cons.IH [OF _ rest] Cons.prems(1) by auto
  have new: "zst_zone st \<notin> zst_zone ` set sts" using Cons.prems(1) by auto
  have dk: "distinct (map zst_zone kept)" using ih(2) by (simp add: lawful_all_def)
  have "stay (stay_in z (st # sts)) (kinds_at z out) = Some (stay_in z sts')" for z
  proof (cases "zst_zone st = z")
    case True
    have "ev_zone e \<noteq> z" if "e \<in> set o2" for e
    proof -
      have "ev_zone e \<in> zst_zone ` set sts" using ih(5) that by (rule bspec)
      moreover have "z \<notin> zst_zone ` set sts" using new True by simp
      ultimately show ?thesis by auto
    qed
    then have "kinds_at z o2 = []" by (simp add: kinds_at_def filter_empty_conv)
    moreover have "stay_in z kept = None" using new True ih(1) by (intro stay_in_absent) auto
    ultimately show ?thesis using o(1-3) True kinds_at_all [OF o(2)] by (simp add: r kinds_at_append stay_in_Cons)
  next
    case False
    have "kinds_at z o1 = []" using False o(2) by (auto simp: kinds_at_def filter_empty_conv)
    then show ?thesis using ih(2) False o(1) by (simp add: r kinds_at_append stay_in_Cons lawful_all_def)
  qed
  moreover have "distinct (map zst_zone sts')" using dk new ih(1) o(1) by (auto simp: r)
  ultimately have "lawful_all (st # sts) sts' out" by (simp add: lawful_all_def)
  moreover have "seen_kept epoch (st # sts) sts'" using ih(3) o(4) by (auto simp: seen_kept_def r)
  moreover have "\<forall>st' \<in> set sts'. st' \<in> set (st # sts) \<and> zst_seen_epoch st' = epoch \<or> (\<exists>z. zs_get zones (zst_zone st') = Some z \<and> in_force (z_validity z) now_ms)"
    using ih(4) o(1,4,5) by (auto simp: r)
  moreover have "zst_zone ` set sts' \<subseteq> zst_zone ` set (st # sts)" using ih(1) o(1) by (auto simp: r)
  moreover have "\<forall>e \<in> set out. ev_zone e \<in> zst_zone ` set (st # sts)" using ih(5) o(2) by (auto simp: r)
  ultimately show ?case by blast
qed

section \<open>A whole evaluation\<close>

lemma map_update_same: "i < length xs \<Longrightarrow> f x = f (xs ! i) \<Longrightarrow> map f (xs[i := x]) = map f xs"
  by (simp add: map_update) (metis list_update_id nth_map)

lemma mark_seen_same:
  "map zst_zone (mark_seen epoch sts zid) = map zst_zone sts" "map stay_of (mark_seen epoch sts zid) = map stay_of sts"
  using find_state_Some [of zid sts]
  by (auto simp: mark_seen_def stay_of_silent intro!: map_update_same split: option.split)

lemma marks_seen_same:
  "map zst_zone (foldl (mark_seen epoch) sts zs) = map zst_zone sts \<and> map stay_of (foldl (mark_seen epoch) sts zs) = map stay_of sts"
  by (induction zs arbitrary: sts) (simp_all add: mark_seen_same)

lemma stay_in_Nil: "stay_in z [] = None"
  by (rule stay_in_absent) simp

lemma stay_in_maps: "map zst_zone a = map zst_zone b \<Longrightarrow> map stay_of a = map stay_of b \<Longrightarrow> stay_in z a = stay_in z b"
proof (induction a arbitrary: b)
  case (Cons x a)
  then obtain y b' where "b = y # b'" by (cases b) auto
  then show ?case using Cons by (auto simp: stay_in_Cons)
qed simp

lemma dropped_count_loop: "n_candidates_dropped (er_counters (foldl (candidate_step cfg zones t epoch now_ms) r cs)) = n_candidates_dropped (er_counters r)"
proof (induction cs arbitrary: r)
  case (Cons c cs)
  have "n_candidates_dropped (er_counters (candidate_step cfg zones t epoch now_ms r c)) = n_candidates_dropped (er_counters r)"
    by (auto simp: candidate_step_def observe_zone_def count_flap_def Let_def split: option.split prod.split)
  then show ?case using Cons by simp
qed simp

lemma dropped_count_examine: "n_candidates_dropped (er_counters (examine_candidates cfg zones now_ms t sts c cs)) = n_candidates_dropped c"
  by (simp add: examine_candidates_def dropped_count_loop)

lemma dropped_count_reconcile: "reconcile cfg zones t epoch now_ms sts c = (sts', c', out) \<Longrightarrow> n_candidates_dropped c' = n_candidates_dropped c"
proof (induction sts arbitrary: c sts' c' out)
  case (Cons st sts)
  obtain dropped st1 c1 o1 where one: "reconcile_one cfg zones t epoch now_ms st c = (dropped, st1, c1, o1)" by (metis prod_cases4)
  obtain kept c2 o2 where rest: "reconcile cfg zones t epoch now_ms sts c1 = (kept, c2, o2)" by (metis prod_cases3)
  have "n_candidates_dropped c1 = n_candidates_dropped c"
    using one by (auto simp: reconcile_one_def count_flap_def Let_def split: option.splits if_splits prod.splits)
  then show ?case using Cons.IH [OF rest] Cons.prems by (simp add: one rest)
qed simp

lemma evaluate_candidates_lawful:
  assumes d: "distinct (map zst_zone (zone_states t))" and e: "evaluate_candidates cfg zones now_ms t c cs = (t', c', out)"
  shows "lawful_all (zone_states t) (zone_states t') out \<and> to_id t' = to_id t \<and> eval_epoch t' = eval_epoch t \<and>
    (candidate_policy cfg = ExactAlways \<and> 0 < eval_epoch t \<and> (\<forall>st \<in> set (zone_states t). zst_seen_epoch st < eval_epoch t) \<longrightarrow>
      (\<forall>st \<in> set (zone_states t'). zone_open zones now_ms (zst_zone st))) \<and>
    (candidate_policy cfg = ExactAlways \<longrightarrow> n_candidates_dropped c' = n_candidates_dropped c \<and>
      (\<forall>zid \<in> set cs. \<forall>z. zs_get zones zid = Some z \<and> in_force (z_validity z) now_ms \<longrightarrow>
        (\<exists>st \<in> set (zone_states t'). zst_zone st = zid \<and> zst_seen_epoch st = eval_epoch t)))"
proof -
  obtain cs' dropped where cd: "choose_candidates cfg zones t cs = (cs', dropped)" by fastforce
  define sts where "sts = foldl (mark_seen (eval_epoch t)) (zone_states t) dropped"
  define r where "r = examine_candidates cfg zones now_ms t sts (count_candidates cfg (length cs) c) cs'"
  obtain sts' c3 o2 where rc: "reconcile cfg zones t (eval_epoch t) now_ms (er_states r) (er_counters r) = (sts', c3, o2)" by (metis prod_cases3)
  have res: "t' = t\<lparr>zone_states := sts', to_sampler := snd (should_sample now_ms (er_nearest r) (speed_mps t) (alert_active t) (to_sampler t))\<rparr> \<and> c' = c3 \<and> out = er_out r @ o2"
    using e unfolding evaluate_candidates_def Let_def cd prod.case sts_def [symmetric] r_def [symmetric] rc by simp
  have same: "map zst_zone sts = map zst_zone (zone_states t)" "map stay_of sts = map stay_of (zone_states t)"
    using marks_seen_same unfolding sts_def by blast+
  have ds: "distinct (map zst_zone sts)" using d same(1) by simp
  obtain o1 where l: "er_out r = o1" "lawful_all sts (er_states r) o1"
    "\<forall>zid \<in> set cs'. \<forall>z. zs_get zones zid = Some z \<and> in_force (z_validity z) now_ms \<longrightarrow>
      (\<exists>st \<in> set (er_states r). zst_zone st = zid \<and> zst_seen_epoch st = eval_epoch t)"
    using examine_lawful [OF ds, of cfg zones now_ms t "count_candidates cfg (length cs) c" cs'] unfolding r_def [symmetric] by blast
  have dr: "distinct (map zst_zone (er_states r))" using l(2) by (simp add: lawful_all_def)
  note rl = reconcile_lawful [OF dr rc]
  have "lawful_all (zone_states t) sts []" using same ds stay_in_maps [OF same] by (simp add: lawful_all_def kinds_at_def)
  then have "lawful_all (zone_states t) sts' (o1 @ o2)" using lawful_all_trans l(2) rl by (metis append_Nil)
  moreover have "n_candidates_dropped c' = n_candidates_dropped c \<and> cs' = cs" if "candidate_policy cfg = ExactAlways"
    using that dropped_count_reconcile [OF rc] cd res
    by (auto simp: r_def dropped_count_examine count_candidates_def choose_candidates_def Let_def)
  moreover have "\<forall>zid \<in> set cs'. \<forall>z. zs_get zones zid = Some z \<and> in_force (z_validity z) now_ms \<longrightarrow>
      (\<exists>st \<in> set sts'. zst_zone st = zid \<and> zst_seen_epoch st = eval_epoch t)"
  proof (intro ballI allI impI)
    fix zid z
    assume "zid \<in> set cs'" "zs_get zones zid = Some z \<and> in_force (z_validity z) now_ms"
    then obtain st where "st \<in> set (er_states r)" "zst_zone st = zid" "zst_seen_epoch st = eval_epoch t" using l(3) by blast
    then show "\<exists>st \<in> set sts'. zst_zone st = zid \<and> zst_seen_epoch st = eval_epoch t"
      using rl unfolding seen_kept_def by metis
  qed
  moreover have "\<forall>st \<in> set sts'. zone_open zones now_ms (zst_zone st)"
    if "candidate_policy cfg = ExactAlways" "0 < eval_epoch t" "\<forall>st \<in> set (zone_states t). zst_seen_epoch st < eval_epoch t"
  proof -
    have "sts = zone_states t" using that(1) cd by (auto simp: sts_def choose_candidates_def)
    then have "seen_open zones now_ms (eval_epoch t) (er_states r)"
      using examine_open [of "zone_states t" t] d that(2,3) unfolding r_def by blast
    then show ?thesis using rl unfolding seen_open_def zone_open_iff by blast
  qed
  moreover have "zone_states t' = sts'" "to_id t' = to_id t" "eval_epoch t' = eval_epoch t" "out = o1 @ o2" using res l(1) by simp_all
  ultimately show ?thesis using rl by simp
qed

lemma evaluate_parts:
  assumes "usable (last_fix t)"
    and "evaluate_candidates cfg zones now_ms (t\<lparr>eval_epoch := eval_epoch t + 1\<rparr>)
      (count_evaluation cfg t (ev_counters e))
      (sort (fst (op_query ops (bb_around (pos (last_fix t)) (query_radius_m cfg t)) [] (ev_index e)))) = (t', c', out)"
  shows "evaluate cfg ops zones now_ms t e =
    (t', e\<lparr>ev_index := snd (op_query ops (bb_around (pos (last_fix t)) (query_radius_m cfg t)) [] (ev_index e)), ev_counters := c'\<rparr>, out)"
proof -
  have r: "query_radius_m cfg (t\<lparr>eval_epoch := n\<rparr>) = query_radius_m cfg t" for n
    by (simp add: query_radius_m_def speed_mps_def)
  have "count_evaluation cfg (t\<lparr>eval_epoch := n\<rparr>) = count_evaluation cfg t" for n
    by (rule ext) (simp add: count_evaluation_def r)
  then show ?thesis using assms by (simp add: evaluate_def Let_def r case_prod_beta)
qed

lemma evaluate_unusable: "\<not> usable (last_fix t) \<Longrightarrow> fst (evaluate cfg ops zones now_ms t e) = t \<and> snd (snd (evaluate cfg ops zones now_ms t e)) = []"
  by (simp add: evaluate_def Let_def)

lemma evaluate_lawful:
  assumes d: "distinct (map zst_zone (zone_states t))" and e: "evaluate cfg ops zones now_ms t e = (t', e', out)"
  shows "lawful_all (zone_states t) (zone_states t') out \<and> to_id t' = to_id t"
proof (cases "usable (last_fix t)")
  case False
  then show ?thesis using e evaluate_unusable [OF False, of cfg ops zones now_ms e] lawful_all_refl [OF d] by simp
next
  case True
  obtain t1 c1 o1 where ec: "evaluate_candidates cfg zones now_ms (t\<lparr>eval_epoch := eval_epoch t + 1\<rparr>)
      (count_evaluation cfg t (ev_counters e))
      (sort (fst (op_query ops (bb_around (pos (last_fix t)) (query_radius_m cfg t)) [] (ev_index e)))) = (t1, c1, o1)" by (metis prod_cases3)
  have "t1 = t'" "o1 = out" using evaluate_parts [OF True ec] e by simp_all
  then show ?thesis using evaluate_candidates_lawful [OF _ ec] d by simp
qed

text \<open>The life of a tourist: between two evaluations everything may change but what the evaluator keeps,
  so an input is the zones, the state of the index, the instant and the tourist as the caller has refreshed it.\<close>

definition carry :: "tourist \<Rightarrow> tourist \<Rightarrow> tourist" where
  "carry t fresh = fresh\<lparr>to_id := to_id t, zone_states := zone_states t, eval_epoch := eval_epoch t, to_sampler := to_sampler t\<rparr>"

fun track_run ::
  "evaluator_config \<Rightarrow> 's index_ops \<Rightarrow> (zone list \<times> 's \<times> timestamp \<times> tourist) list \<Rightarrow> tourist \<Rightarrow> 's evaluator \<Rightarrow> tourist \<times> 's evaluator \<times> event list" where
  "track_run cfg ops [] t e = (t, e, [])"
| "track_run cfg ops ((zones, idx, now_ms, fresh) # ins) t e =
     (let (t, e, out1) = evaluate cfg ops zones now_ms (carry t fresh) (e\<lparr>ev_index := idx\<rparr>);
          (t, e, out2) = track_run cfg ops ins t e
      in (t, e, out1 @ out2))"

lemma track_run_lawful:
  "distinct (map zst_zone (zone_states t)) \<Longrightarrow> track_run cfg ops ins t e = (t', e', out) \<Longrightarrow> lawful_all (zone_states t) (zone_states t') out"
proof (induction ins arbitrary: t e t' e' out)
  case Nil
  then show ?case using lawful_all_refl by simp
next
  case (Cons i ins)
  obtain zones idx now_ms fresh where i: "i = (zones, idx, now_ms, fresh)" by (metis prod_cases4)
  obtain t1 e1 o1 where s: "evaluate cfg ops zones now_ms (carry t fresh) (e\<lparr>ev_index := idx\<rparr>) = (t1, e1, o1)" by (metis prod_cases3)
  obtain t2 e2 o2 where r: "track_run cfg ops ins t1 e1 = (t2, e2, o2)" by (metis prod_cases3)
  have out: "t' = t2" "out = o1 @ o2" using Cons.prems(2) by (simp_all add: i s r)
  have l1: "lawful_all (zone_states t) (zone_states t1) o1" using evaluate_lawful [OF _ s] Cons.prems(1) by (simp add: carry_def)
  then have "lawful_all (zone_states t1) (zone_states t2) o2" using Cons.IH [OF _ r] by (simp add: lawful_all_def)
  then show ?case using lawful_all_trans [OF l1] out by simp
qed

section \<open>Which index is plugged in\<close>

lemma bb_around_nonneg: "bb_around c r = bb_around c (if r > 0 then r else 0)"
  by (simp add: bb_around_def)

lemma bb_around_proper:
  assumes "ll_valid c"
  shows "bb_proper (bb_around c r)"
proof -
  have "bb_contains (bb_around c (if r > 0 then r else 0)) c"
    using assms by (intro around_covers) (simp_all add: distance_m_def haversine_def)
  then have "bb_contains (bb_around c r) c" using bb_around_nonneg [of c r] by (rule ssubst [rotated])
  then show ?thesis by (cases "bb_around c r") (auto simp: bb_proper_def)
qed

text \<open>What the evaluator makes of an index with the contents \<open>m\<close>.\<close>

definition evaluate_by ::
  "evaluator_config \<Rightarrow> (zone_id \<rightharpoonup> bbox) \<Rightarrow> zone list \<Rightarrow> timestamp \<Rightarrow> tourist \<Rightarrow> eval_counters \<Rightarrow> tourist \<times> eval_counters \<times> event list" where
  "evaluate_by cfg m zones now_ms t c =
     (if \<not> usable (last_fix t) then (t, count_rejected c, [])
      else evaluate_candidates cfg zones now_ms (t\<lparr>eval_epoch := eval_epoch t + 1\<rparr>) (count_evaluation cfg t c)
             (sorted_list_of_set (box_hits (bb_around (pos (last_fix t)) (query_radius_m cfg t)) m)))"

fun evaluate_each_by ::
  "evaluator_config \<Rightarrow> (zone_id \<rightharpoonup> bbox) \<Rightarrow> zone list \<Rightarrow> timestamp \<Rightarrow> tourist list \<Rightarrow> eval_counters \<Rightarrow> tourist list \<times> eval_counters \<times> event list" where
  "evaluate_each_by cfg m zones now_ms [] c = ([], c, [])"
| "evaluate_each_by cfg m zones now_ms (t # ts) c =
     (let (t, c, out1) = evaluate_by cfg m zones now_ms t c;
          (ts, c, out2) = evaluate_each_by cfg m zones now_ms ts c
      in (t # ts, c, out1 @ out2))"

definition without_index :: "'t \<times> 's evaluator \<times> event list \<Rightarrow> 't \<times> eval_counters \<times> event list" where
  "without_index r = (fst r, ev_counters (fst (snd r)), snd (snd r))"

context spatial_index
begin

lemma evaluate_index:
  assumes "inv (ev_index e)" "ll_valid (pos (last_fix t))"
  shows "without_index (evaluate cfg ops zones now_ms t e) = evaluate_by cfg (contents (ev_index e)) zones now_ms t (ev_counters e) \<and>
    inv (ev_index (fst (snd (evaluate cfg ops zones now_ms t e)))) \<and>
    contents (ev_index (fst (snd (evaluate cfg ops zones now_ms t e)))) = contents (ev_index e)"
proof (cases "usable (last_fix t)")
  case False
  then show ?thesis using assms(1) by (simp add: evaluate_def evaluate_by_def without_index_def Let_def)
next
  case True
  let ?q = "bb_around (pos (last_fix t)) (query_radius_m cfg t)"
  have q: "bb_proper ?q" using assms(2) by (rule bb_around_proper)
  obtain t1 c1 o1 where ec: "evaluate_candidates cfg zones now_ms (t\<lparr>eval_epoch := eval_epoch t + 1\<rparr>)
      (count_evaluation cfg t (ev_counters e))
      (sort (fst (op_query ops ?q [] (ev_index e)))) = (t1, c1, o1)" by (metis prod_cases3)
  have "evaluate_by cfg (contents (ev_index e)) zones now_ms t (ev_counters e) = (t1, c1, o1)"
    using ec True unfolding query_sorted [OF assms(1) q] evaluate_by_def Let_def by simp
  then show ?thesis using evaluate_parts [OF True ec] queried [OF assms(1) q, of "[]"] by (simp add: without_index_def)
qed

lemma evaluate_each_index:
  "inv (ev_index e) \<Longrightarrow> (\<And>t. t \<in> set ts \<Longrightarrow> ll_valid (pos (last_fix t))) \<Longrightarrow>
   without_index (evaluate_each cfg ops zones now_ms ts e) = evaluate_each_by cfg (contents (ev_index e)) zones now_ms ts (ev_counters e)"
proof (induction ts arbitrary: e)
  case (Cons t ts)
  obtain t1 e1 o1 where s: "evaluate cfg ops zones now_ms t e = (t1, e1, o1)" by (metis prod_cases3)
  obtain ts2 e2 o2 where r: "evaluate_each cfg ops zones now_ms ts e1 = (ts2, e2, o2)" by (metis prod_cases3)
  have one: "evaluate_by cfg (contents (ev_index e)) zones now_ms t (ev_counters e) = (t1, ev_counters e1, o1)"
    "inv (ev_index e1)" "contents (ev_index e1) = contents (ev_index e)"
    using evaluate_index [of e t cfg zones now_ms] Cons.prems s by (simp_all add: without_index_def)
  have "evaluate_each_by cfg (contents (ev_index e1)) zones now_ms ts (ev_counters e1) = (ts2, ev_counters e2, o2)"
    using Cons.IH [OF one(2)] Cons.prems(2) r by (simp add: without_index_def)
  then show ?case using one by (simp add: s r without_index_def)
qed (simp add: without_index_def)

end

section \<open>The index of a store\<close>

text \<open>A store as \<open>zs_add\<close> and \<open>zs_remove\<close> leave it, and the boxes of its zones.\<close>

definition store_ok :: "zone list \<Rightarrow> bool" where
  "store_ok zones \<longleftrightarrow> (\<forall>i < length zones. z_id (zones ! i) = i \<or> z_id (zones ! i) = kNoId) \<and>
     (\<forall>z \<in> set (zs_live zones). bb_proper (pg_bbox (z_shape z)))"

definition store_items :: "zone list \<Rightarrow> index_item list" where
  "store_items zones = map (\<lambda>z. (z_id z, pg_bbox (z_shape z))) (zs_live zones)"

lemma zs_live_indices: "zs_live zones = map ((!) zones) (filter (\<lambda>i. z_id (zones ! i) \<noteq> kNoId) [0..<length zones])"
proof -
  have "zs_live zones = filter (\<lambda>z. z_id z \<noteq> kNoId) (map ((!) zones) [0..<length zones])" by (simp add: zs_live_def map_nth)
  then show ?thesis by (simp only: filter_map comp_def)
qed

lemma store_ids:
  assumes "store_ok zones"
  shows "map fst (store_items zones) = filter (\<lambda>i. z_id (zones ! i) \<noteq> kNoId) [0..<length zones]"
proof -
  have "map (\<lambda>i. z_id (zones ! i)) (filter (\<lambda>i. z_id (zones ! i) \<noteq> kNoId) [0..<length zones]) =
    map (\<lambda>i. i) (filter (\<lambda>i. z_id (zones ! i) \<noteq> kNoId) [0..<length zones])"
    using assms by (intro map_cong) (auto simp: store_ok_def)
  then show ?thesis by (simp add: store_items_def zs_live_indices comp_def)
qed

lemma store_items_ok: "store_ok zones \<Longrightarrow> items_ok (store_items zones)"
  using store_ids [of zones] by (auto simp: items_ok_def store_items_def store_ok_def)

lemma store_lookup:
  assumes "store_ok zones" "zs_get zones i = Some z"
  shows "map_of (store_items zones) i = Some (pg_bbox (z_shape z))"
proof -
  have z: "z = zones ! i" "i < length zones" "z_id z \<noteq> kNoId" using assms(2) by (auto simp: zs_get_def split: if_splits)
  then have "z_id z = i" using assms(1) by (auto simp: store_ok_def)
  moreover have "z \<in> set (zs_live zones)" using z by (simp add: zs_live_def)
  ultimately have "(i, pg_bbox (z_shape z)) \<in> set (store_items zones)" by (auto simp: store_items_def)
  then show ?thesis using store_items_ok [OF assms(1)] by (simp add: items_ok_def)
qed

section \<open>No zone is missed\<close>

lemma pg_contains_bbox: "pg_contains pg p \<Longrightarrow> bb_contains (pg_bbox pg) p"
  by (simp add: pg_contains_def split: if_splits)

lemma radius_covers:
  assumes "accuracy_m (last_fix t) \<le> max_query_radius_m cfg"
  shows "accuracy_m (last_fix t) \<le> query_radius_m cfg t"
  using assms by (auto simp: query_radius_m_def Let_def)

lemma zone_is_candidate:
  assumes "store_ok zones" "zs_get zones zid = Some z" "pg_contains (z_shape z) p"
    and "ll_valid (pos (last_fix t))" "ll_valid p" "\<bar>lon p - lon (pos (last_fix t))\<bar> \<le> 180"
    and "distance_m (pos (last_fix t)) p \<le> accuracy_m (last_fix t)" "accuracy_m (last_fix t) \<le> max_query_radius_m cfg"
  shows "zid \<in> box_hits (bb_around (pos (last_fix t)) (query_radius_m cfg t)) (map_of (store_items zones))"
proof -
  have "bb_contains (bb_around (pos (last_fix t)) (query_radius_m cfg t)) p"
    using assms(4-7) radius_covers [OF assms(8)] by (intro around_covers) auto
  then have "bb_intersects (pg_bbox (z_shape z)) (bb_around (pos (last_fix t)) (query_radius_m cfg t))"
    using pg_contains_bbox [OF assms(3)] bb_intersects_common by blast
  then show ?thesis using store_lookup [OF assms(1,2)] by (auto simp: box_hits_def)
qed

lemma box_hits_finite: "finite (box_hits q (map_of its))"
  by (rule finite_subset [of _ "fst ` set its"]) (auto simp: box_hits_def dest: map_of_SomeD intro: rev_image_eqI)

lemma evaluate_by_sees:
  assumes "usable (last_fix t)" "candidate_policy cfg = ExactAlways" "distinct (map zst_zone (zone_states t))"
    and "evaluate_by cfg (map_of its) zones now_ms t c = (t', c', out)"
    and "zid \<in> box_hits (bb_around (pos (last_fix t)) (query_radius_m cfg t)) (map_of its)"
    and "zs_get zones zid = Some z" "in_force (z_validity z) now_ms"
  shows "n_candidates_dropped c' = n_candidates_dropped c \<and>
    (\<exists>st \<in> set (zone_states t'). zst_zone st = zid \<and> zst_seen_epoch st = eval_epoch t + 1)"
proof -
  have e: "evaluate_candidates cfg zones now_ms (t\<lparr>eval_epoch := eval_epoch t + 1\<rparr>) (count_evaluation cfg t c)
     (sorted_list_of_set (box_hits (bb_around (pos (last_fix t)) (query_radius_m cfg t)) (map_of its))) = (t', c', out)"
    using assms(1,4) by (simp add: evaluate_by_def)
  have "zid \<in> set (sorted_list_of_set (box_hits (bb_around (pos (last_fix t)) (query_radius_m cfg t)) (map_of its)))"
    using assms(5) box_hits_finite by simp
  then show ?thesis using evaluate_candidates_lawful [OF _ e] assms(2,3,6,7) by (simp add: count_evaluation_def Let_def)
qed

section \<open>Epochs\<close>

definition seen_within :: "nat \<Rightarrow> zone_state list \<Rightarrow> bool" where
  "seen_within n sts \<longleftrightarrow> (\<forall>st \<in> set sts. zst_seen_epoch st \<le> n)"

lemma seen_within_update: "seen_within n sts \<Longrightarrow> zst_seen_epoch st \<le> n \<Longrightarrow> seen_within n (sts[i := st])"
  using set_update_subset_insert [of sts i st] unfolding seen_within_def by blast

lemma mark_seen_within: "seen_within n sts \<Longrightarrow> seen_within n (mark_seen n sts zid)"
  by (auto simp: mark_seen_def intro!: seen_within_update split: option.split)

lemma marks_seen_within: "seen_within n sts \<Longrightarrow> seen_within n (foldl (mark_seen n) sts zs)"
  by (induction zs arbitrary: sts) (simp_all add: mark_seen_within)

lemma candidate_step_within:
  assumes "distinct (map zst_zone (er_states r))" "seen_within epoch (er_states r)"
  shows "seen_within epoch (er_states (candidate_step cfg zones t epoch now_ms r zid))"
proof (cases "zone_open zones now_ms zid")
  case True
  then obtain z where z: "zs_get zones zid = Some z" "in_force (z_validity z) now_ms" by (auto simp: zone_open_iff)
  obtain i sts where s: "state_for zid (er_states r) = (i, sts)" by fastforce
  note c = state_for_correct [OF assms(1) s]
  let ?st = "fst (observed cfg t now_ms z zid ((sts ! i)\<lparr>zst_seen_epoch := epoch\<rparr>))"
  have "lawful ((sts ! i)\<lparr>zst_seen_epoch := epoch\<rparr>) (observed cfg t now_ms z zid ((sts ! i)\<lparr>zst_seen_epoch := epoch\<rparr>))"
    using c(2) by (intro observed_lawful) simp
  then have "zst_seen_epoch ?st = epoch" by (simp add: lawful_def)
  moreover have "er_states (candidate_step cfg zones t epoch now_ms r zid) = sts[i := ?st]"
    using z observe_zone_parts(1) [OF s] by (simp add: candidate_step_def)
  moreover have "seen_within epoch sts" using c(4) assms(2) by (auto simp: seen_within_def zone_state_new_def)
  ultimately show ?thesis using seen_within_update by simp
next
  case False
  then have "candidate_step cfg zones t epoch now_ms r zid = r" by (auto simp: candidate_step_def zone_open_def split: option.splits)
  then show ?thesis using assms(2) by simp
qed

lemma candidates_within:
  "distinct (map zst_zone (er_states r)) \<Longrightarrow> seen_within epoch (er_states r) \<Longrightarrow>
   seen_within epoch (er_states (foldl (candidate_step cfg zones t epoch now_ms) r cs))"
proof (induction cs arbitrary: r)
  case (Cons c cs)
  have "distinct (map zst_zone (er_states (candidate_step cfg zones t epoch now_ms r c)))"
    using candidate_step_lawful [OF Cons.prems(1)] unfolding lawful_all_def by blast
  then show ?case using Cons.IH candidate_step_within Cons.prems by simp
qed simp

lemma reconcile_one_seen: "reconcile_one cfg zones t epoch now_ms st c = (dropped, st', c', out) \<Longrightarrow> zst_seen_epoch st' = zst_seen_epoch st"
  by (auto simp: reconcile_one_def emit_transition_def Let_def split: option.splits if_splits prod.splits)

lemma reconcile_within:
  "seen_within n sts \<Longrightarrow> reconcile cfg zones t epoch now_ms sts c = (sts', c', out) \<Longrightarrow> seen_within n sts'"
proof (induction sts arbitrary: c sts' c' out)
  case (Cons st sts)
  obtain dropped st1 c1 o1 where one: "reconcile_one cfg zones t epoch now_ms st c = (dropped, st1, c1, o1)" by (metis prod_cases4)
  obtain kept c2 o2 where rest: "reconcile cfg zones t epoch now_ms sts c1 = (kept, c2, o2)" by (metis prod_cases3)
  have k: "seen_within n kept" using Cons.IH [OF _ rest] Cons.prems(1) by (simp add: seen_within_def)
  have "zst_seen_epoch st1 \<le> n" using Cons.prems(1) reconcile_one_seen [OF one] by (simp add: seen_within_def)
  moreover have "sts' = (if dropped then kept else st1 # kept)" using Cons.prems(2) by (simp add: one rest)
  ultimately show ?case using k by (simp add: seen_within_def)
qed (simp add: seen_within_def)

lemma evaluate_candidates_within:
  assumes "distinct (map zst_zone (zone_states t))" "seen_within (eval_epoch t) (zone_states t)"
    and "evaluate_candidates cfg zones now_ms t c cs = (t', c', out)"
  shows "seen_within (eval_epoch t') (zone_states t')"
proof -
  obtain cs' dropped where cd: "choose_candidates cfg zones t cs = (cs', dropped)" by fastforce
  define sts where "sts = foldl (mark_seen (eval_epoch t)) (zone_states t) dropped"
  define r where "r = examine_candidates cfg zones now_ms t sts (count_candidates cfg (length cs) c) cs'"
  obtain sts' c3 o2 where rc: "reconcile cfg zones t (eval_epoch t) now_ms (er_states r) (er_counters r) = (sts', c3, o2)" by (metis prod_cases3)
  have t': "zone_states t' = sts'" "eval_epoch t' = eval_epoch t"
    using assms(3) unfolding evaluate_candidates_def Let_def cd prod.case sts_def [symmetric] r_def [symmetric] rc by auto
  have "seen_within (eval_epoch t) sts" using marks_seen_within assms(2) by (simp add: sts_def)
  moreover have "distinct (map zst_zone sts)" using marks_seen_same assms(1) unfolding sts_def by metis
  ultimately have "seen_within (eval_epoch t) (er_states r)" unfolding r_def examine_candidates_def by (intro candidates_within) simp_all
  then show ?thesis using reconcile_within rc t' by metis
qed

text \<open>What every tourist keeps.\<close>

definition tourist_inv :: "tourist \<Rightarrow> bool" where
  "tourist_inv t \<longleftrightarrow> distinct (map zst_zone (zone_states t)) \<and> seen_within (eval_epoch t) (zone_states t)"

lemma tourist_new_inv: "tourist_inv (tourist_new i)"
  by (simp add: tourist_inv_def tourist_new_def seen_within_def)

lemma evaluate_inv:
  assumes "tourist_inv t" "evaluate cfg ops zones now_ms t e = (t', e', out)"
  shows "tourist_inv t' \<and>
    (usable (last_fix t) \<and> candidate_policy cfg = ExactAlways \<longrightarrow> (\<forall>st \<in> set (zone_states t'). zone_open zones now_ms (zst_zone st)))"
proof (cases "usable (last_fix t)")
  case False
  then show ?thesis using assms evaluate_unusable [OF False, of cfg ops zones now_ms e] by simp
next
  case True
  obtain t1 c1 o1 where ec: "evaluate_candidates cfg zones now_ms (t\<lparr>eval_epoch := eval_epoch t + 1\<rparr>)
      (count_evaluation cfg t (ev_counters e))
      (sort (fst (op_query ops (bb_around (pos (last_fix t)) (query_radius_m cfg t)) [] (ev_index e)))) = (t1, c1, o1)" by (metis prod_cases3)
  have t1: "t1 = t'" using evaluate_parts [OF True ec] assms(2) by simp
  have d: "distinct (map zst_zone (zone_states (t\<lparr>eval_epoch := eval_epoch t + 1\<rparr>)))" using assms(1) by (simp add: tourist_inv_def)
  have "seen_within (eval_epoch t + 1) (zone_states t)" "\<forall>st \<in> set (zone_states t). zst_seen_epoch st < eval_epoch t + 1"
    using assms(1) by (auto simp: tourist_inv_def seen_within_def)
  then show ?thesis
    using evaluate_candidates_within [OF d _ ec] evaluate_candidates_lawful [OF d ec] t1
    by (auto simp: tourist_inv_def lawful_all_def)
qed

lemma track_run_inv: "tourist_inv t \<Longrightarrow> tourist_inv (fst (track_run cfg ops ins t e))"
proof (induction ins arbitrary: t e)
  case (Cons i ins)
  obtain zones idx now_ms fresh where i: "i = (zones, idx, now_ms, fresh)" by (metis prod_cases4)
  obtain t1 e1 o1 where s: "evaluate cfg ops zones now_ms (carry t fresh) (e\<lparr>ev_index := idx\<rparr>) = (t1, e1, o1)" by (metis prod_cases3)
  have "tourist_inv (carry t fresh)" using Cons.prems by (simp add: tourist_inv_def carry_def)
  then show ?case using Cons.IH [of t1 e1] evaluate_inv [OF _ s] by (simp add: i s case_prod_beta)
qed simp

section \<open>Properties\<close>

text \<open>C7: Through the whole life of a tourist - any fixes, any changes of the zones and of the index between
  them - the events about one zone follow the protocol: enter, at most one dwell report, exit, and
  approach or uncertainty warnings only from outside; and at every instant the entry kept for the zone says where
  in that protocol the tourist is.\<close>

theorem zone_events_follow_protocol:
  "stay None (kinds_at z (snd (snd (track_run cfg ops ins (tourist_new i) e)))) =
   Some (stay_in z (zone_states (fst (track_run cfg ops ins (tourist_new i) e))))"
proof -
  obtain t' e' out where r: "track_run cfg ops ins (tourist_new i) e = (t', e', out)" by (metis prod_cases3)
  have new: "zone_states (tourist_new i) = []" by (simp add: tourist_new_def)
  have "lawful_all (zone_states (tourist_new i)) (zone_states t') out" using r by (rule track_run_lawful [rotated]) (simp add: new)
  then show ?thesis by (simp add: r lawful_all_def new stay_in_Nil)
qed

text \<open>C8: The events, the tourists and the counters of a tick do not depend on which of the four indexes is
  plugged in.\<close>

theorem events_independent_of_index:
  assumes "items_ok its" "list_all (\<lambda>t. ll_valid (pos (last_fix t))) ts"
  shows "without_index (evaluate_all cfg any_ops zones now_ms ts (evaluator_new (any_build its (make_index k)))) =
    without_index (evaluate_all cfg any_ops zones now_ms ts (evaluator_new (any_build its (make_index k'))))"
proof -
  have "any_inv (any_build its (make_index k)) \<and> any_contents (any_build its (make_index k)) = map_of its" for k
    using any.built [of "make_index k" its] make_index_ok [of k] assms(1) by (simp add: any_ops_def)
  then show ?thesis
    using assms(2) any.evaluate_each_index by (simp add: evaluate_all_def evaluator_new_def list_all_iff)
qed


text \<open>C32: The state of a tourist is bounded by the zones in force: after any life, a usable fix under the exact
  policy leaves no entry of a zone that is deleted or out of force.\<close>

theorem closed_zones_forgotten:
  assumes "usable (last_fix fresh)" "candidate_policy cfg = ExactAlways"
  shows "list_all (\<lambda>st. zone_open zones now_ms (zst_zone st))
    (zone_states (fst (evaluate cfg ops zones now_ms (carry (fst (track_run cfg ops ins (tourist_new i) e)) fresh) e')))"
proof -
  let ?t = "carry (fst (track_run cfg ops ins (tourist_new i) e)) fresh"
  obtain t1 e1 o1 where s: "evaluate cfg ops zones now_ms ?t e' = (t1, e1, o1)" by (metis prod_cases3)
  have "tourist_inv ?t" using track_run_inv [OF tourist_new_inv] by (simp add: tourist_inv_def carry_def)
  then show ?thesis using evaluate_inv [OF _ s] assms s by (simp add: carry_def list_all_iff)
qed

section \<open>Witnesses\<close>

definition demo_zones :: "zone list" where
  "demo_zones = [zone_default\<lparr>z_id := 0, z_shape := sample_triangle\<rparr>]"

definition demo_tourist :: tourist where
  "demo_tourist = (tourist_new 7)\<lparr>last_fix := \<lparr>pos = \<lparr>lat = 0, lon = 0\<rparr>, accuracy_m = 10, t_ms = 0\<rparr>\<rparr>"

lemma demo_usable: "usable (last_fix demo_tourist)" "ll_valid (pos (last_fix demo_tourist))"
  by (simp_all add: demo_tourist_def usable_def kUnusableAccuracy_def ll_valid_def)

lemma demo_zones_ok: "store_ok demo_zones" "zs_get demo_zones 0 = Some (zone_default\<lparr>z_id := 0, z_shape := sample_triangle\<rparr>)"
  by (simp_all add: store_ok_def demo_zones_def zs_live_def kNoId_def zs_get_def sample_triangle_def polygon_of_def bb_of_def bb_proper_def)

lemma demo_contains: "pg_contains sample_triangle \<lparr>lat = 0, lon = 0\<rparr>"
  by (simp add: sample_triangle_def polygon_of_def pg_contains_def bb_of_def ring_crossings_def ring_edges_def
      point_on_segment_def within_extent_def kOnEdgeEps_def)

lemma events_independent_of_index_witness:
  "without_index (evaluate_all evaluator_default any_ops demo_zones 0 [demo_tourist] (evaluator_new (any_build [(0, Box 0 0 2 2)] (make_index KRTree)))) =
   without_index (evaluate_all evaluator_default any_ops demo_zones 0 [demo_tourist] (evaluator_new (any_build [(0, Box 0 0 2 2)] (make_index KGeohash))))"
  by (rule events_independent_of_index) (simp_all add: items_ok_def bb_proper_def demo_usable)


lemma closed_zones_forgotten_witness:
  "list_all (\<lambda>st. zone_open demo_zones 0 (zst_zone st))
    (zone_states (fst (evaluate evaluator_default any_ops demo_zones 0
      (carry (fst (track_run evaluator_default any_ops [] (tourist_new 7) (evaluator_new (make_index KQuadtree)))) demo_tourist)
      (evaluator_new (make_index KQuadtree)))))"
  by (rule closed_zones_forgotten) (simp_all add: demo_usable evaluator_default_def)

end
