(* ===== verification/Kd_Tree.thy ===== *)
theory Kd_Tree
  imports Geo_Base "HOL-Library.Product_Lexorder"
begin

text \<open>
  The k-d tree of \<^verbatim>\<open>include/safetrail/index/kd_tree.hpp\<close>. A node refers to its item by the position in
  \<open>kd_items\<close>, as in the code; the arena of nodes is a datatype whose nodes carry their position in it.
  \<open>nth_element\<close> with a strict total order leaves the median in the middle, the smaller elements before it and the
  greater ones behind it: sorting does the same, and no later step depends on the order inside a half. Distances are exact.
\<close>

record kd_item =
  kd_id :: nat
  kd_pos :: lat_lon

datatype kd_node = KdNil | KdNode (kd_me: nat) (kd_item_at: nat) (kd_left: kd_node) (kd_right: kd_node) (kd_axis: nat)

record kd_tree =
  kd_items :: "kd_item list"
  kd_root :: kd_node
  kd_nodes :: nat
  lon_scale :: real

definition kd_empty :: kd_tree where
  "kd_empty = \<lparr>kd_items = [], kd_root = KdNil, kd_nodes = 0, lon_scale = 1\<rparr>"

definition axis_val :: "kd_item list \<Rightarrow> nat \<Rightarrow> nat \<Rightarrow> real" where
  "axis_val its axis i = (if axis = 0 then lat (kd_pos (its ! i)) else lon (kd_pos (its ! i)))"

definition dist2 :: "real \<Rightarrow> lat_lon \<Rightarrow> lat_lon \<Rightarrow> real" where
  "dist2 s a b = (let dlat = lat a - lat b; dlon = (lon a - lon b) * s in dlat * dlat + dlon * dlon)"

definition kMetersPerDegLat :: real where
  "kMetersPerDegLat = 6371008.8 * kDeg2Rad"

definition kd_distance_m :: "kd_tree \<Rightarrow> lat_lon \<Rightarrow> lat_lon \<Rightarrow> real" where
  "kd_distance_m t a b = sqrt (dist2 (lon_scale t) a b) * kMetersPerDegLat"

section \<open>Building\<close>

definition nth_element :: "kd_item list \<Rightarrow> nat \<Rightarrow> nat list \<Rightarrow> nat list" where
  "nth_element its axis idx = sort_key (\<lambda>i. (axis_val its axis i, kd_id (its ! i))) idx"

function build_rec :: "kd_item list \<Rightarrow> nat list \<Rightarrow> nat \<Rightarrow> nat \<Rightarrow> kd_node \<times> nat" where
  "build_rec its idx depth next =
     (if idx = [] then (KdNil, next)
      else
        (let axis = depth mod 2;
             mid = length idx div 2;
             srt = nth_element its axis idx;
             (l, next1) = build_rec its (take mid srt) ((depth + 1) mod 256) (next + 1);
             (r, next2) = build_rec its (drop (mid + 1) srt) ((depth + 1) mod 256) next1
         in (KdNode next (srt ! mid) l r axis, next2)))"
  by pat_completeness auto
termination
  by (relation "measure (\<lambda>(its, idx, depth, next). length idx)") (auto simp: nth_element_def)

declare build_rec.simps [simp del]

definition kd_build :: "kd_item list \<Rightarrow> kd_tree" where
  "kd_build its =
     (if its = [] then kd_empty
      else
        (let sum_lat = foldl (\<lambda>s it. s + lat (kd_pos it)) 0 its;
             (r, n) = build_rec its [0..<length its] 0 0
         in \<lparr>kd_items = its, kd_root = r, kd_nodes = n, lon_scale = cos (sum_lat / of_nat (length its) * kDeg2Rad)\<rparr>))"

definition kd_size :: "kd_tree \<Rightarrow> nat" where
  "kd_size t = length (kd_items t)"

text \<open>The nodes in the order of the arena.\<close>

fun kd_view :: "kd_item list \<Rightarrow> kd_node \<Rightarrow> (nat \<times> lat_lon \<times> nat) list" where
  "kd_view its KdNil = []"
| "kd_view its (KdNode me i l r axis) = (kd_id (its ! i), kd_pos (its ! i), axis) # kd_view its l @ kd_view its r"

section \<open>Searching\<close>

definition plane_diff :: "kd_item list \<Rightarrow> real \<Rightarrow> lat_lon \<Rightarrow> nat \<Rightarrow> nat \<Rightarrow> real" where
  "plane_diff its s q axis i = (if axis = 0 then lat q - lat (kd_pos (its ! i)) else (lon q - lon (kd_pos (its ! i))) * s)"

definition kd_far :: real where
  "kd_far = 10 ^ 300"

text \<open>The best item so far, its squared distance, and the visited nodes.\<close>

type_synonym nn_state = "nat option \<times> real \<times> nat list"

definition nn_visit :: "kd_item list \<Rightarrow> real \<Rightarrow> lat_lon \<Rightarrow> nat \<Rightarrow> nat \<Rightarrow> nn_state \<Rightarrow> nn_state" where
  "nn_visit its s q me i st =
     (let (best, best_d2, trace) = st;
          trace = trace @ [me];
          d2 = dist2 s q (kd_pos (its ! i))
      in if d2 < best_d2 \<or>
            d2 = best_d2 \<and> (case best of None \<Rightarrow> False | Some b \<Rightarrow> kd_id (its ! i) < kd_id (its ! b))
         then (Some i, d2, trace) else (best, best_d2, trace))"

function nn_rec :: "kd_item list \<Rightarrow> real \<Rightarrow> lat_lon \<Rightarrow> kd_node \<Rightarrow> nn_state \<Rightarrow> nn_state" where
  "nn_rec its s q KdNil st = st"
| "nn_rec its s q (KdNode me i l r axis) st =
     (let diff = plane_diff its s q axis i;
          near = (if diff < 0 then l else r);
          far = (if diff < 0 then r else l);
          st = nn_rec its s q near (nn_visit its s q me i st)
      in if diff * diff \<le> fst (snd st) then nn_rec its s q far st else st)"
  by pat_completeness auto
termination
  by (relation "measure (\<lambda>(its, s, q, n, st). size n)") auto

definition kd_nearest_traced :: "kd_tree \<Rightarrow> lat_lon \<Rightarrow> nat option \<times> nat list" where
  "kd_nearest_traced t q =
     (if kd_root t = KdNil then (None, [])
      else (let (best, d2, trace) = nn_rec (kd_items t) (lon_scale t) q (kd_root t) (None, kd_far, [])
            in (map_option (\<lambda>b. kd_id (kd_items t ! b)) best, trace)))"

definition kd_nearest :: "kd_tree \<Rightarrow> lat_lon \<Rightarrow> nat option" where
  "kd_nearest t q =
     (if kd_root t = KdNil then None
      else (let (best, d2, trace) = nn_rec (kd_items t) (lon_scale t) q (kd_root t) (None, kd_far, [])
            in map_option (\<lambda>b. kd_id (kd_items t ! b)) best))"

text \<open>The candidates of \<open>k_nearest\<close>: squared distance and item, best first.\<close>

definition worse_than :: "kd_item list \<Rightarrow> real \<times> nat \<Rightarrow> real \<times> nat \<Rightarrow> bool" where
  "worse_than its a b = (if fst a \<noteq> fst b then fst a < fst b else kd_id (its ! snd a) < kd_id (its ! snd b))"

definition insert_upper :: "('a \<Rightarrow> 'a \<Rightarrow> bool) \<Rightarrow> 'a \<Rightarrow> 'a list \<Rightarrow> 'a list" where
  "insert_upper lt c xs = takeWhile (\<lambda>x. \<not> lt c x) xs @ c # dropWhile (\<lambda>x. \<not> lt c x) xs"

definition knn_visit :: "kd_item list \<Rightarrow> real \<Rightarrow> lat_lon \<Rightarrow> nat \<Rightarrow> nat \<Rightarrow> (real \<times> nat) list \<Rightarrow> (real \<times> nat) list" where
  "knn_visit its s q k i heap =
     (let d2 = dist2 s q (kd_pos (its ! i))
      in if length heap < k \<or> d2 \<le> fst (last heap)
         then (let heap = insert_upper (worse_than its) (d2, i) heap in if length heap > k then butlast heap else heap)
         else heap)"

function knn_rec :: "kd_item list \<Rightarrow> real \<Rightarrow> lat_lon \<Rightarrow> nat \<Rightarrow> kd_node \<Rightarrow> (real \<times> nat) list \<Rightarrow> (real \<times> nat) list" where
  "knn_rec its s q k KdNil heap = heap"
| "knn_rec its s q k (KdNode me i l r axis) heap =
     (let diff = plane_diff its s q axis i;
          near = (if diff < 0 then l else r);
          far = (if diff < 0 then r else l);
          heap = knn_rec its s q k near (knn_visit its s q k i heap)
      in if length heap < k \<or> diff * diff \<le> fst (last heap) then knn_rec its s q k far heap else heap)"
  by pat_completeness auto
termination
  by (relation "measure (\<lambda>(its, s, q, k, n, heap). size n)") auto

definition kd_k_nearest :: "kd_tree \<Rightarrow> lat_lon \<Rightarrow> nat \<Rightarrow> nat list" where
  "kd_k_nearest t q k =
     map (\<lambda>c. kd_id (kd_items t ! snd c)) (if k > 0 then knn_rec (kd_items t) (lon_scale t) q k (kd_root t) [] else [])"

section \<open>The split invariant\<close>

fun node_items :: "kd_node \<Rightarrow> nat list" where
  "node_items KdNil = []"
| "node_items (KdNode me i l r axis) = i # node_items l @ node_items r"

fun split_ok :: "kd_item list \<Rightarrow> kd_node \<Rightarrow> bool" where
  "split_ok its KdNil = True"
| "split_ok its (KdNode me i l r axis) \<longleftrightarrow>
     (\<forall>j \<in> set (node_items l). axis_val its axis j \<le> axis_val its axis i) \<and>
     (\<forall>j \<in> set (node_items r). axis_val its axis i \<le> axis_val its axis j) \<and> split_ok its l \<and> split_ok its r"

lemma length_nth_element [simp]: "length (nth_element its axis idx) = length idx"
  by (simp add: nth_element_def)

lemma mset_nth_element: "mset (nth_element its axis idx) = mset idx"
  by (simp add: nth_element_def)

lemma nth_element_le:
  assumes "i \<le> j" "j < length idx"
  shows "axis_val its axis (nth_element its axis idx ! i) \<le> axis_val its axis (nth_element its axis idx ! j)"
proof -
  have "sorted (map (\<lambda>i. (axis_val its axis i, kd_id (its ! i))) (nth_element its axis idx))"
    by (simp add: nth_element_def)
  from sorted_nth_mono [OF this assms(1)] assms show ?thesis by (auto simp: less_eq_prod_def)
qed

lemma build_rec_parts:
  assumes "idx \<noteq> []"
  obtains l n1 r n2 where
    "build_rec its (take (length idx div 2) (nth_element its (depth mod 2) idx)) ((depth + 1) mod 256) (next + 1) = (l, n1)"
    "build_rec its (drop (length idx div 2 + 1) (nth_element its (depth mod 2) idx)) ((depth + 1) mod 256) n1 = (r, n2)"
    "build_rec its idx depth next = (KdNode next (nth_element its (depth mod 2) idx ! (length idx div 2)) l r (depth mod 2), n2)"
proof -
  obtain l n1 where l: "build_rec its (take (length idx div 2) (nth_element its (depth mod 2) idx)) ((depth + 1) mod 256) (next + 1) = (l, n1)" by fastforce
  obtain r n2 where r: "build_rec its (drop (length idx div 2 + 1) (nth_element its (depth mod 2) idx)) ((depth + 1) mod 256) n1 = (r, n2)" by fastforce
  have "build_rec its idx depth next = (KdNode next (nth_element its (depth mod 2) idx ! (length idx div 2)) l r (depth mod 2), n2)"
    using assms by (subst build_rec.simps) (simp only: if_False Let_def l r prod.case)
  then show thesis using that l r by blast
qed

lemma build_rec_items: "mset (node_items (fst (build_rec its idx depth next))) = mset idx"
proof (induction "length idx" arbitrary: idx depth "next" rule: less_induct)
  case less
  show ?case
  proof (cases "idx = []")
    case True
    then show ?thesis by (subst build_rec.simps) simp
  next
    case False
    let ?m = "length idx div 2" and ?s = "nth_element its (depth mod 2) idx"
    from False obtain l n1 r n2 where p: "build_rec its (take ?m ?s) ((depth + 1) mod 256) (next + 1) = (l, n1)"
      "build_rec its (drop (?m + 1) ?s) ((depth + 1) mod 256) n1 = (r, n2)"
      "build_rec its idx depth next = (KdNode next (?s ! ?m) l r (depth mod 2), n2)" by (rule build_rec_parts)
    have len: "?m < length idx" using False by simp
    have "mset (node_items l) = mset (take ?m ?s)" using less(1) [of "take ?m ?s" "(depth + 1) mod 256" "next + 1"] p(1) len by simp
    moreover have "mset (node_items r) = mset (drop (?m + 1) ?s)" using less(1) [of "drop (?m + 1) ?s" "(depth + 1) mod 256" n1] p(2) len by simp
    moreover have "?s = take ?m ?s @ ?s ! ?m # drop (?m + 1) ?s" using id_take_nth_drop [of ?m ?s] len by simp
    then have "mset idx = mset (take ?m ?s @ ?s ! ?m # drop (?m + 1) ?s)" using mset_nth_element by metis
    ultimately show ?thesis using p(3) by simp
  qed
qed

lemma build_rec_split: "split_ok its (fst (build_rec its idx depth next))"
proof (induction "length idx" arbitrary: idx depth "next" rule: less_induct)
  case less
  show ?case
  proof (cases "idx = []")
    case True
    then show ?thesis by (subst build_rec.simps) simp
  next
    case False
    let ?m = "length idx div 2" and ?s = "nth_element its (depth mod 2) idx"
    from False obtain l n1 r n2 where p: "build_rec its (take ?m ?s) ((depth + 1) mod 256) (next + 1) = (l, n1)"
      "build_rec its (drop (?m + 1) ?s) ((depth + 1) mod 256) n1 = (r, n2)"
      "build_rec its idx depth next = (KdNode next (?s ! ?m) l r (depth mod 2), n2)" by (rule build_rec_parts)
    have len: "?m < length idx" using False by simp
    have "set (node_items l) = set (take ?m ?s)" using build_rec_items [of its "take ?m ?s" "(depth + 1) mod 256" "next + 1"] p(1) by (metis fst_conv mset_eq_setD)
    then have "\<forall>j \<in> set (node_items l). axis_val its (depth mod 2) j \<le> axis_val its (depth mod 2) (?s ! ?m)"
      using nth_element_le [of _ ?m idx its "depth mod 2"] len by (auto simp: in_set_conv_nth)
    moreover have "set (node_items r) = set (drop (?m + 1) ?s)" using build_rec_items [of its "drop (?m + 1) ?s" "(depth + 1) mod 256" n1] p(2) by (metis fst_conv mset_eq_setD)
    then have "\<forall>j \<in> set (node_items r). axis_val its (depth mod 2) (?s ! ?m) \<le> axis_val its (depth mod 2) j"
      using nth_element_le [of ?m _ idx its "depth mod 2"] len by (auto simp: in_set_conv_nth)
    moreover have "split_ok its l" using less(1) [of "take ?m ?s" "(depth + 1) mod 256" "next + 1"] p(1) len by simp
    moreover have "split_ok its r" using less(1) [of "drop (?m + 1) ?s" "(depth + 1) mod 256" n1] p(2) len by simp
    ultimately show ?thesis using p(3) by simp
  qed
qed

text \<open>Everything across the splitting plane is at least as far as the plane.\<close>

lemma square_le_mono: "0 \<le> (a::real) \<Longrightarrow> a \<le> b \<Longrightarrow> a * a \<le> b * b"
  by (intro mult_mono) simp_all

lemma far_side:
  assumes "0 \<le> s" "plane_diff its s q axis i < 0 \<Longrightarrow> axis_val its axis i \<le> axis_val its axis j"
    "\<not> plane_diff its s q axis i < 0 \<Longrightarrow> axis_val its axis j \<le> axis_val its axis i"
  shows "plane_diff its s q axis i * plane_diff its s q axis i \<le> dist2 s q (kd_pos (its ! j))"
proof -
  let ?d = "plane_diff its s q axis i" and ?e = "plane_diff its s q axis j"
  have mono: "(lon q - b) * s \<le> (lon q - a) * s" if "a \<le> b" for a b using that assms(1) by (intro mult_right_mono) simp_all
  have "\<bar>?d\<bar> \<le> \<bar>?e\<bar>"
  proof (cases "?d < 0")
    case True
    have "?e \<le> ?d" using assms(2) [OF True] mono by (simp add: plane_diff_def axis_val_def split: if_splits)
    then show ?thesis using True by simp
  next
    case False
    have "?d \<le> ?e" using assms(3) [OF False] mono by (simp add: plane_diff_def axis_val_def split: if_splits)
    then show ?thesis using False by simp
  qed
  then have "\<bar>?d\<bar> * \<bar>?d\<bar> \<le> \<bar>?e\<bar> * \<bar>?e\<bar>" by (intro square_le_mono) simp_all
  also have "\<bar>?e\<bar> * \<bar>?e\<bar> \<le> dist2 s q (kd_pos (its ! j))" by (simp add: plane_diff_def dist2_def Let_def)
  finally show ?thesis by simp
qed

section \<open>The nearest item\<close>

definition kd_key :: "kd_item list \<Rightarrow> real \<Rightarrow> lat_lon \<Rightarrow> nat \<Rightarrow> real \<times> nat" where
  "kd_key its s q i = (dist2 s q (kd_pos (its ! i)), kd_id (its ! i))"

definition nn_ok :: "kd_item list \<Rightarrow> real \<Rightarrow> lat_lon \<Rightarrow> nat set \<Rightarrow> nn_state \<Rightarrow> bool" where
  "nn_ok its s q seen st \<longleftrightarrow>
     (case fst st of
        None \<Rightarrow> seen = {} \<and> fst (snd st) = kd_far
      | Some b \<Rightarrow> b \<in> seen \<and> fst (snd st) = fst (kd_key its s q b) \<and> (\<forall>j \<in> seen. kd_key its s q b \<le> kd_key its s q j))"

lemma nn_visit_ok:
  assumes "nn_ok its s q seen st" "dist2 s q (kd_pos (its ! i)) < kd_far"
  shows "nn_ok its s q (insert i seen) (nn_visit its s q me i st)"
proof -
  obtain best d trace where st: "st = (best, d, trace)" by (metis prod_cases3)
  show ?thesis
  proof (cases best)
    case None
    then show ?thesis using assms by (simp add: nn_ok_def nn_visit_def st kd_key_def Let_def)
  next
    case (Some b)
    then have b: "b \<in> seen" "d = fst (kd_key its s q b)" "\<forall>j \<in> seen. kd_key its s q b \<le> kd_key its s q j"
      using assms(1) by (simp_all add: nn_ok_def st)
    show ?thesis
    proof (cases "kd_key its s q i < kd_key its s q b")
      case True
      then have "nn_visit its s q me i st = (Some i, fst (kd_key its s q i), trace @ [me])"
        using b(2) Some by (auto simp: nn_visit_def st kd_key_def less_prod_def Let_def)
      moreover have "\<forall>j \<in> insert i seen. kd_key its s q i \<le> kd_key its s q j" using b(3) True by fastforce
      ultimately show ?thesis by (simp add: nn_ok_def)
    next
      case False
      then have "nn_visit its s q me i st = (best, d, trace @ [me])"
        using b(2) Some by (auto simp: nn_visit_def st kd_key_def less_prod_def Let_def)
      then show ?thesis using b Some False by (auto simp: nn_ok_def not_less)
    qed
  qed
qed

lemma nn_skip_ok:
  assumes "nn_ok its s q seen st" "seen \<noteq> {}" "\<And>j. j \<in> far \<Longrightarrow> fst (snd st) < dist2 s q (kd_pos (its ! j))"
  shows "nn_ok its s q (seen \<union> far) st"
proof -
  obtain b where b: "fst st = Some b" "b \<in> seen" "fst (snd st) = fst (kd_key its s q b)" "\<forall>j \<in> seen. kd_key its s q b \<le> kd_key its s q j"
    using assms(1,2) by (auto simp: nn_ok_def split: option.splits)
  then have "kd_key its s q b \<le> kd_key its s q j" if "j \<in> far" for j
    using assms(3) [OF that] by (simp add: kd_key_def less_eq_prod_def)
  then show ?thesis using b by (auto simp: nn_ok_def)
qed

lemma nn_rec_ok:
  assumes "split_ok its n" "0 \<le> s" "\<And>j. j \<in> set (node_items n) \<Longrightarrow> dist2 s q (kd_pos (its ! j)) < kd_far" "nn_ok its s q seen st"
  shows "nn_ok its s q (seen \<union> set (node_items n)) (nn_rec its s q n st)"
  using assms
proof (induction its s q n st arbitrary: seen rule: nn_rec.induct)
  case (2 its s q me i l r axis st)
  define diff where "diff = plane_diff its s q axis i"
  define near where "near = (if diff < 0 then l else r)"
  define far where "far = (if diff < 0 then r else l)"
  define st1 where "st1 = nn_rec its s q near (nn_visit its s q me i st)"
  have sides: "set (node_items near) \<union> set (node_items far) = set (node_items l) \<union> set (node_items r)" "split_ok its near" "split_ok its far"
    using "2.prems"(1) by (auto simp: near_def far_def)
  have ok0: "nn_ok its s q (insert i seen) (nn_visit its s q me i st)" using nn_visit_ok "2.prems" by simp
  have ok1: "nn_ok its s q (insert i seen \<union> set (node_items near)) st1"
    unfolding st1_def
  proof (rule "2.IH"(1) [OF diff_def near_def far_def sides(2) "2.prems"(2) _ ok0])
    fix j assume "j \<in> set (node_items near)"
    then have "j \<in> set (node_items (KdNode me i l r axis))" using sides(1) by auto
    then show "dist2 s q (kd_pos (its ! j)) < kd_far" by (rule "2.prems"(3))
  qed
  have eq: "nn_rec its s q (KdNode me i l r axis) st = (if diff * diff \<le> fst (snd st1) then nn_rec its s q far st1 else st1)"
    by (simp add: Let_def diff_def near_def far_def st1_def)
  have all: "insert i seen \<union> set (node_items near) \<union> set (node_items far) = seen \<union> set (node_items (KdNode me i l r axis))" using sides(1) by auto
  show ?case
  proof (cases "diff * diff \<le> fst (snd st1)")
    case True
    have "nn_ok its s q (insert i seen \<union> set (node_items near) \<union> set (node_items far)) (nn_rec its s q far st1)"
      using "2.IH"(2) [OF diff_def near_def far_def st1_def True sides(3) "2.prems"(2) _ ok1] "2.prems"(3) sides(1) by auto
    then show ?thesis unfolding eq all using True by simp
  next
    case False
    have "fst (snd st1) < dist2 s q (kd_pos (its ! j))" if "j \<in> set (node_items far)" for j
    proof -
      have "diff * diff \<le> dist2 s q (kd_pos (its ! j))"
        unfolding diff_def using that "2.prems"(1,2) by (intro far_side) (auto simp: far_def diff_def)
      then show ?thesis using False by simp
    qed
    then have "nn_ok its s q (insert i seen \<union> set (node_items near) \<union> set (node_items far)) st1"
      by (intro nn_skip_ok [OF ok1]) auto
    then show ?thesis unfolding eq all using False by simp
  qed
qed simp

section \<open>The k nearest items\<close>

text \<open>The list holds the best of the items seen: the others are all worse, and there are others only when it is full.\<close>

definition knn_ok :: "kd_item list \<Rightarrow> real \<Rightarrow> lat_lon \<Rightarrow> nat \<Rightarrow> nat multiset \<Rightarrow> (real \<times> nat) list \<Rightarrow> bool" where
  "knn_ok its s q k seen heap \<longleftrightarrow>
     (\<forall>c \<in> set heap. fst c = dist2 s q (kd_pos (its ! snd c))) \<and> sorted (map (\<lambda>c. kd_key its s q (snd c)) heap) \<and> length heap \<le> k \<and>
     (\<exists>rest. seen = mset (map snd heap) + rest \<and> (rest = {#} \<or> length heap = k) \<and>
       (\<forall>c \<in> set heap. \<forall>j \<in># rest. kd_key its s q (snd c) \<le> kd_key its s q j))"

lemma insert_upper_simps [simp]:
  "insert_upper lt c [] = [c]" "insert_upper lt c (x # xs) = (if lt c x then c # x # xs else x # insert_upper lt c xs)"
  by (simp_all add: insert_upper_def)

lemma mset_insert_upper [simp]: "mset (insert_upper lt c xs) = add_mset c (mset xs)"
  by (induction xs) simp_all

lemma set_insert_upper [simp]: "set (insert_upper lt c xs) = insert c (set xs)"
  by (induction xs) auto

lemma length_insert_upper [simp]: "length (insert_upper lt c xs) = Suc (length xs)"
  by (induction xs) simp_all

lemma sorted_insert_upper:
  "(\<And>x. x \<in> set xs \<Longrightarrow> lt c x \<longleftrightarrow> f c < (f x :: 'b :: linorder)) \<Longrightarrow> sorted (map f xs) \<Longrightarrow> sorted (map f (insert_upper lt c xs))"
  by (induction xs) (auto simp: not_less)

lemma sorted_last: "sorted (map f xs) \<Longrightarrow> x \<in> set xs \<Longrightarrow> f x \<le> (f (last xs) :: 'b :: linorder)"
  by (induction xs) auto

lemma knn_rest:
  assumes "knn_ok its s q k seen heap" "length heap = k" "heap \<noteq> []"
    "\<And>j. j \<in># M \<Longrightarrow> fst (last heap) < dist2 s q (kd_pos (its ! j))"
  shows "knn_ok its s q k (seen + M) heap"
proof -
  let ?K = "\<lambda>c. kd_key its s q (snd c)"
  obtain rest where r: "seen = mset (map snd heap) + rest" "\<forall>c \<in> set heap. \<forall>j \<in># rest. ?K c \<le> kd_key its s q j"
    using assms(1) by (auto simp: knn_ok_def)
  have d: "fst (last heap) = dist2 s q (kd_pos (its ! snd (last heap)))" "sorted (map ?K heap)"
    using assms(1,3) by (simp_all add: knn_ok_def)
  have "?K c \<le> kd_key its s q j" if "c \<in> set heap" "j \<in># M" for c j
  proof -
    have "?K c \<le> ?K (last heap)" using sorted_last [OF d(2) that(1)] .
    also have "?K (last heap) \<le> kd_key its s q j" using assms(4) [OF that(2)] d(1) by (simp add: kd_key_def less_eq_prod_def)
    finally show ?thesis .
  qed
  then have "\<forall>c \<in> set heap. \<forall>j \<in># rest + M. ?K c \<le> kd_key its s q j" using r(2) by auto
  moreover have "seen + M = mset (map snd heap) + (rest + M)" using r(1) by simp
  ultimately show ?thesis using assms(1,2) unfolding knn_ok_def by blast
qed

lemma knn_visit_ok:
  assumes "knn_ok its s q k seen heap" "0 < k"
  shows "knn_ok its s q k (add_mset i seen) (knn_visit its s q k i heap)"
proof -
  let ?K = "\<lambda>c. kd_key its s q (snd c)"
  define c where "c = (dist2 s q (kd_pos (its ! i)), i)"
  define new where "new = insert_upper (worse_than its) c heap"
  obtain rest where r: "seen = mset (map snd heap) + rest" "rest = {#} \<or> length heap = k" "\<forall>c \<in> set heap. \<forall>j \<in># rest. ?K c \<le> kd_key its s q j"
    using assms(1) by (auto simp: knn_ok_def)
  have h: "\<forall>c \<in> set heap. fst c = dist2 s q (kd_pos (its ! snd c))" "sorted (map ?K heap)" "length heap \<le> k"
    using assms(1) by (simp_all add: knn_ok_def)
  have "worse_than its c x \<longleftrightarrow> ?K c < ?K x" if "x \<in> set heap" for x
    using h(1) that by (cases "dist2 s q (kd_pos (its ! i)) = dist2 s q (kd_pos (its ! snd x))")
      (auto simp: worse_than_def kd_key_def less_prod_def c_def)
  then have sn: "sorted (map ?K new)" unfolding new_def using h(2) by (intro sorted_insert_upper)
  have dn: "\<forall>x \<in> set new. fst x = dist2 s q (kd_pos (its ! snd x))" using h(1) by (simp add: new_def c_def)
  have mn: "mset new = add_mset c (mset heap)" by (simp add: new_def)
  have ln: "length new = Suc (length heap)" by (simp add: new_def)
  consider (room) "length heap < k" | (better) "length heap = k" "fst c \<le> fst (last heap)" | (full) "length heap = k" "fst (last heap) < fst c"
    using h(3) by linarith
  then show ?thesis
  proof cases
    case room
    then have "knn_visit its s q k i heap = new" using ln by (simp add: knn_visit_def new_def c_def Let_def)
    moreover have "add_mset i seen = mset (map snd new) + {#}" using r room mn by (simp add: c_def)
    ultimately show ?thesis using sn dn ln room unfolding knn_ok_def by (intro conjI exI [of _ "{#}"]) simp_all
  next
    case better
    then have v: "knn_visit its s q k i heap = butlast new" using ln by (simp add: knn_visit_def new_def c_def Let_def)
    have ne: "new \<noteq> []" using ln by auto
    have split: "new = butlast new @ [last new]" using ne by simp
    have mm: "mset new = add_mset (last new) (mset (butlast new))" using arg_cong [OF split, of mset] by simp
    have s2: "sorted (map ?K (butlast new))" using sn by (subst (asm) split) (simp add: sorted_append)
    have below: "?K x \<le> ?K (last new)" if "x \<in> set new" for x using sorted_last [OF sn that] .
    have far: "?K x \<le> kd_key its s q j" if "x \<in> set (butlast new)" "j \<in># add_mset (snd (last new)) rest" for x j
    proof (cases "j = snd (last new)")
      case True
      then show ?thesis using below [of x] that(1) in_set_butlastD by fastforce
    next
      case False
      then have j: "j \<in># rest" using that(2) by simp
      show ?thesis
      proof (cases "x \<in> set heap")
        case True
        then show ?thesis using r(3) j by blast
      next
        case no: False
        have "mset (butlast new) + {#last new#} = mset heap + {#c#}" using mm mn by simp
        moreover have "x = c" using no that(1) in_set_butlastD [of x new] by (simp add: new_def)
        moreover have "last new \<in> set heap"
        proof (rule ccontr)
          assume "last new \<notin> set heap"
          then have "last new = c" using ne last_in_set [OF ne] by (simp add: new_def)
          then have "mset (butlast new) = mset heap" using mm mn by simp
          then show False using no that(1) mset_eq_setD by blast
        qed
        then have "?K (last new) \<le> kd_key its s q j" using r(3) j by blast
        then show ?thesis using below [of x] that(1) in_set_butlastD [of x new] by fastforce
      qed
    qed
    have "add_mset i seen = mset (map snd (butlast new)) + add_mset (snd (last new)) rest"
    proof -
      have "mset (map snd new) = add_mset i (mset (map snd heap))" using arg_cong [OF mn, of "image_mset snd"] by (simp add: c_def)
      moreover have "mset (map snd new) = add_mset (snd (last new)) (mset (map snd (butlast new)))" using arg_cong [OF mm, of "image_mset snd"] by simp
      ultimately show ?thesis using r(1) by simp
    qed
    moreover have "\<forall>x \<in> set (butlast new). fst x = dist2 s q (kd_pos (its ! snd x))" using dn in_set_butlastD by fast
    ultimately show ?thesis using s2 ln better(1) far v unfolding knn_ok_def
      by (intro conjI exI [of _ "add_mset (snd (last new)) rest"]) simp_all
  next
    case full
    then have "knn_visit its s q k i heap = heap" by (simp add: knn_visit_def c_def Let_def)
    moreover have "knn_ok its s q k (seen + {#i#}) heap"
      using full assms(2) by (intro knn_rest [OF assms(1)]) (auto simp: c_def)
    ultimately show ?thesis by simp
  qed
qed

lemma knn_rec_ok:
  assumes "split_ok its n" "0 \<le> s" "0 < k" "knn_ok its s q k seen heap"
  shows "knn_ok its s q k (seen + mset (node_items n)) (knn_rec its s q k n heap)"
  using assms
proof (induction its s q k n heap arbitrary: seen rule: knn_rec.induct)
  case (2 its s q k me i l r axis heap)
  define diff where "diff = plane_diff its s q axis i"
  define near where "near = (if diff < 0 then l else r)"
  define far where "far = (if diff < 0 then r else l)"
  define h1 where "h1 = knn_rec its s q k near (knn_visit its s q k i heap)"
  have sides: "split_ok its near" "split_ok its far" using "2.prems"(1) by (auto simp: near_def far_def)
  have all: "add_mset i seen + mset (node_items near) + mset (node_items far) = seen + mset (node_items (KdNode me i l r axis))"
    by (simp add: near_def far_def)
  have ok1: "knn_ok its s q k (add_mset i seen + mset (node_items near)) h1"
    unfolding h1_def using "2.IH"(1) [OF diff_def near_def far_def sides(1) "2.prems"(2,3) knn_visit_ok [OF "2.prems"(4,3)]] .
  have eq: "knn_rec its s q k (KdNode me i l r axis) heap = (if length h1 < k \<or> diff * diff \<le> fst (last h1) then knn_rec its s q k far h1 else h1)"
    by (simp add: Let_def diff_def near_def far_def h1_def)
  show ?case
  proof (cases "length h1 < k \<or> diff * diff \<le> fst (last h1)")
    case True
    have "knn_ok its s q k (add_mset i seen + mset (node_items near) + mset (node_items far)) (knn_rec its s q k far h1)"
      using "2.IH"(2) [OF diff_def near_def far_def h1_def True sides(2) "2.prems"(2,3) ok1] .
    then show ?thesis unfolding eq all using True by simp
  next
    case False
    have "fst (last h1) < dist2 s q (kd_pos (its ! j))" if "j \<in># mset (node_items far)" for j
    proof -
      have "diff * diff \<le> dist2 s q (kd_pos (its ! j))"
        unfolding diff_def using that "2.prems"(1,2) by (intro far_side) (auto simp: far_def diff_def)
      then show ?thesis using False by simp
    qed
    moreover have "length h1 = k" using ok1 False by (simp add: knn_ok_def)
    ultimately have "knn_ok its s q k (add_mset i seen + mset (node_items near) + mset (node_items far)) h1"
      using "2.prems"(3) by (intro knn_rest [OF ok1]) auto
    then show ?thesis unfolding eq all using False by simp
  qed
qed simp

section \<open>The built tree\<close>

lemma sum_lat_bound: "list_all (\<lambda>it. ll_valid (kd_pos it)) its \<Longrightarrow> \<bar>foldl (\<lambda>s it. s + lat (kd_pos it)) a its - a\<bar> \<le> 90 * real (length its)"
proof (induction its arbitrary: a)
  case (Cons it its)
  have "\<bar>lat (kd_pos it)\<bar> \<le> 90" using Cons.prems by (auto simp: ll_valid_def)
  moreover have "\<bar>foldl (\<lambda>s it. s + lat (kd_pos it)) (a + lat (kd_pos it)) its - (a + lat (kd_pos it))\<bar> \<le> 90 * real (length its)"
    using Cons by simp
  ultimately have "\<bar>foldl (\<lambda>s it. s + lat (kd_pos it)) (a + lat (kd_pos it)) its - a\<bar> \<le> 90 + 90 * real (length its)" by linarith
  then show ?case by (simp add: algebra_simps)
qed simp

lemma build_scale:
  assumes "list_all (\<lambda>it. ll_valid (kd_pos it)) its"
  shows "0 \<le> lon_scale (kd_build its) \<and> lon_scale (kd_build its) \<le> 1"
proof (cases "its = []")
  case False
  let ?m = "foldl (\<lambda>s it. s + lat (kd_pos it)) 0 its / of_nat (length its)"
  have "\<bar>?m\<bar> \<le> 90" using sum_lat_bound [OF assms, of 0] False by (simp add: abs_divide divide_le_eq)
  then have "0 \<le> cos (?m * kDeg2Rad)" by (rule cos_lat_nonneg)
  then show ?thesis using False by (simp add: kd_build_def case_prod_beta)
qed (simp add: kd_build_def kd_empty_def)

lemma dist2_small:
  assumes "ll_valid a" "ll_valid b" "0 \<le> s" "s \<le> 1"
  shows "dist2 s a b < kd_far"
proof -
  have "\<bar>lat a - lat b\<bar> \<le> 180" "\<bar>lon a - lon b\<bar> \<le> 360" using assms(1,2) by (auto simp: ll_valid_def)
  moreover from this have "\<bar>lon a - lon b\<bar> * s \<le> 360 * 1" using assms(3,4) by (intro mult_mono) simp_all
  ultimately have "\<bar>lat a - lat b\<bar> * \<bar>lat a - lat b\<bar> \<le> 180 * 180" "\<bar>(lon a - lon b) * s\<bar> * \<bar>(lon a - lon b) * s\<bar> \<le> 360 * 360"
    using assms(3) by (intro square_le_mono; simp add: abs_mult)+
  then have "dist2 s a b \<le> 180 * 180 + 360 * 360" by (simp add: dist2_def Let_def)
  also have "\<dots> < kd_far" by (simp add: kd_far_def)
  finally show ?thesis .
qed

lemma build_root:
  assumes "its \<noteq> []"
  shows "kd_items (kd_build its) = its" "split_ok its (kd_root (kd_build its))"
    "mset (node_items (kd_root (kd_build its))) = mset [0..<length its]" "kd_root (kd_build its) \<noteq> KdNil"
proof -
  have r: "kd_root (kd_build its) = fst (build_rec its [0..<length its] 0 0)" using assms by (simp add: kd_build_def case_prod_beta)
  show "kd_items (kd_build its) = its" using assms by (simp add: kd_build_def case_prod_beta)
  show "split_ok its (kd_root (kd_build its))" unfolding r by (rule build_rec_split)
  show m: "mset (node_items (kd_root (kd_build its))) = mset [0..<length its]" unfolding r by (rule build_rec_items)
  have "node_items (kd_root (kd_build its)) \<noteq> []" using arg_cong [OF m, of size] assms by auto
  then show "kd_root (kd_build its) \<noteq> KdNil" by auto
qed

definition kd_ranking :: "kd_item list \<Rightarrow> lat_lon \<Rightarrow> (real \<times> nat) list" where
  "kd_ranking its q = sort (map (\<lambda>it. (dist2 (lon_scale (kd_build its)) q (kd_pos it), kd_id it)) its)"

lemma ranking_indices: "kd_ranking its q = sort (map (kd_key its (lon_scale (kd_build its)) q) [0..<length its])"
proof -
  have "map (\<lambda>it. (dist2 (lon_scale (kd_build its)) q (kd_pos it), kd_id it)) its = map (kd_key its (lon_scale (kd_build its)) q) [0..<length its]"
    by (rule nth_equalityI) (simp_all add: kd_key_def)
  then show ?thesis by (simp add: kd_ranking_def)
qed

lemma sort_prefix:
  fixes xs :: "'a :: linorder list"
  assumes "sorted xs" "mset ys = mset xs + rest" "\<forall>x \<in> set xs. \<forall>r \<in># rest. x \<le> r"
  shows "sort ys = xs @ sort (sorted_list_of_multiset rest)"
  by (rule properties_for_sort) (use assms in \<open>auto simp: sorted_append\<close>)

lemma k_nearest_ranking:
  assumes "list_all (\<lambda>it. ll_valid (kd_pos it)) its"
  shows "kd_k_nearest (kd_build its) q k = map snd (take k (kd_ranking its q))"
proof (cases "its = [] \<or> k = 0")
  case True
  then show ?thesis by (auto simp: kd_k_nearest_def kd_ranking_def kd_build_def kd_empty_def)
next
  case False
  let ?s = "lon_scale (kd_build its)"
  let ?K = "kd_key its ?s q"
  define heap where "heap = knn_rec its ?s q k (kd_root (kd_build its)) []"
  note b = build_root [of its]
  have "knn_ok its ?s q k ({#} + mset (node_items (kd_root (kd_build its)))) heap"
    unfolding heap_def using False b build_scale [OF assms] by (intro knn_rec_ok) (simp_all add: knn_ok_def)
  then have ok: "knn_ok its ?s q k (mset [0..<length its]) heap" using b(3) False by simp
  then obtain rest where r: "mset [0..<length its] = mset (map snd heap) + rest" "rest = {#} \<or> length heap = k"
    "\<forall>c \<in> set heap. \<forall>j \<in># rest. ?K (snd c) \<le> ?K j" "sorted (map (\<lambda>c. ?K (snd c)) heap)" "length heap \<le> k"
    unfolding knn_ok_def by blast
  have "kd_ranking its q = map (\<lambda>c. ?K (snd c)) heap @ sort (sorted_list_of_multiset (image_mset ?K rest))"
    unfolding ranking_indices
  proof (rule sort_prefix)
    have "mset (map ?K [0..<length its]) = image_mset ?K (mset (map snd heap) + rest)" using r(1) by (simp only: mset_map)
    then show "mset (map ?K [0..<length its]) = mset (map (\<lambda>c. ?K (snd c)) heap) + image_mset ?K rest" by (simp add: image_mset.compositionality comp_def)
  qed (use r in auto)
  then have "take k (kd_ranking its q) = map (\<lambda>c. ?K (snd c)) heap" using r(2,5) by auto
  then show ?thesis using False b(1) by (simp add: kd_k_nearest_def heap_def kd_key_def)
qed

lemma nearest_ranking:
  assumes "list_all (\<lambda>it. ll_valid (kd_pos it)) its" "ll_valid q"
  shows "kd_nearest (kd_build its) q = (case kd_ranking its q of [] \<Rightarrow> None | x # _ \<Rightarrow> Some (snd x))"
proof (cases "its = []")
  case True
  then show ?thesis by (simp add: kd_nearest_def kd_ranking_def kd_build_def kd_empty_def)
next
  case False
  let ?s = "lon_scale (kd_build its)"
  let ?K = "kd_key its ?s q"
  note b = build_root [OF False]
  have all: "set (node_items (kd_root (kd_build its))) = {0..<length its}" using b(3) by (metis mset_eq_setD set_upt)
  have far: "dist2 ?s q (kd_pos (its ! j)) < kd_far" if "j < length its" for j
    using assms build_scale [OF assms(1)] that by (intro dist2_small) (simp_all add: list_all_length)
  have ok: "nn_ok its ?s q ({} \<union> set (node_items (kd_root (kd_build its)))) (nn_rec its ?s q (kd_root (kd_build its)) (None, kd_far, []))"
    using b build_scale [OF assms(1)] far all by (intro nn_rec_ok) (auto simp: nn_ok_def)
  obtain best d tr where st: "nn_rec its ?s q (kd_root (kd_build its)) (None, kd_far, []) = (best, d, tr)" by (metis prod_cases3)
  obtain j where j: "best = Some j" "j < length its" "\<forall>i < length its. ?K j \<le> ?K i"
    using ok False all by (auto simp: nn_ok_def st split: option.splits)
  have "kd_ranking its q = ?K j # sort (sorted_list_of_multiset (image_mset ?K (mset [0..<length its] - {#j#})))"
  proof -
    have "mset [0..<length its] = {#j#} + (mset [0..<length its] - {#j#})" using j(2) by (simp flip: mset_upt)
    then have "image_mset ?K (mset [0..<length its]) = mset [?K j] + image_mset ?K (mset [0..<length its] - {#j#})"
      by (metis add_mset_add_single image_mset_add_mset mset.simps add.commute)
    moreover have "\<forall>r \<in># image_mset ?K (mset [0..<length its] - {#j#}). ?K j \<le> r"
      using j(3) by (auto dest!: in_diffD)
    ultimately show ?thesis unfolding ranking_indices using sort_prefix [of "[?K j]" "map ?K [0..<length its]"] by simp
  qed
  then show ?thesis using b(1,4) j(1) by (simp add: kd_nearest_def st kd_key_def)
qed

section \<open>Properties\<close>

text \<open>C12: The k-d tree answers exactly what ranking all the items by distance and id would: the nearest item is the first of
  that ranking and the k nearest are its first k, so that pruning loses nothing and ties go to the lower id.\<close>

theorem kd_tree_exact:
  assumes "list_all (\<lambda>it. ll_valid (kd_pos it)) its" "ll_valid q"
  shows "kd_nearest (kd_build its) q = (case kd_ranking its q of [] \<Rightarrow> None | x # _ \<Rightarrow> Some (snd x)) \<and>
    kd_k_nearest (kd_build its) q k = map snd (take k (kd_ranking its q))"
  using nearest_ranking [OF assms] k_nearest_ranking [OF assms(1)] by blast

lemma kd_tree_exact_witness:
  "kd_k_nearest (kd_build [\<lparr>kd_id = 4, kd_pos = \<lparr>lat = 0, lon = 0\<rparr>\<rparr>, \<lparr>kd_id = 2, kd_pos = \<lparr>lat = 0, lon = 0\<rparr>\<rparr>,
     \<lparr>kd_id = 1, kd_pos = \<lparr>lat = 5, lon = 0\<rparr>\<rparr>]) \<lparr>lat = 1, lon = 0\<rparr> 2 = [2, 4]"
proof -
  let ?its = "[\<lparr>kd_id = 4, kd_pos = \<lparr>lat = 0, lon = 0\<rparr>\<rparr>, \<lparr>kd_id = 2, kd_pos = \<lparr>lat = 0, lon = 0\<rparr>\<rparr>, \<lparr>kd_id = 1, kd_pos = \<lparr>lat = 5, lon = 0\<rparr>\<rparr>]"
  have "list_all (\<lambda>it. ll_valid (kd_pos it)) ?its" "ll_valid \<lparr>lat = 1, lon = 0\<rparr>" by (simp_all add: ll_valid_def)
  from kd_tree_exact [OF this, of 2] show ?thesis by (simp add: kd_ranking_def dist2_def less_eq_prod_def)
qed

end
