(* ===== verification/Road_Graph.thy ===== *)
theory Road_Graph
  imports Kd_Tree "HOL-Library.Word"
begin

unbundle bit_operations_syntax

text \<open>
  The road network of \<^verbatim>\<open>include/safetrail/graph/road_graph.hpp\<close> and \<^verbatim>\<open>src/graph/road_graph.cpp\<close>: an adjacency list
  with the lazily built k-d tree for snapping, and the synthetic grid with its generator. A \<open>NodeId\<close> is an integer,
  \<open>-1\<close> meaning none. A weight is a real, so the guard against NaN and infinity has no counterpart. The file format is not
  modelled: \<open>printf\<close> rounds the numbers it writes.
\<close>

type_synonym node_id = int

definition kNoNode :: node_id where
  "kNoNode = - 1"

record edge =
  e_to :: node_id
  e_weight :: real

record road_graph =
  rg_nodes :: "lat_lon list"
  rg_adj :: "edge list list"
  edge_count :: nat
  snap_index :: "kd_tree option"

definition rg_empty :: road_graph where
  "rg_empty = \<lparr>rg_nodes = [], rg_adj = [], edge_count = 0, snap_index = None\<rparr>"

definition rg_count :: "road_graph \<Rightarrow> nat" where
  "rg_count g = length (rg_nodes g)"

definition rg_valid :: "road_graph \<Rightarrow> node_id \<Rightarrow> bool" where
  "rg_valid g u \<longleftrightarrow> u \<ge> 0 \<and> nat u < length (rg_nodes g)"

definition neighbors :: "road_graph \<Rightarrow> node_id \<Rightarrow> edge list" where
  "neighbors g u = rg_adj g ! nat u"

definition rg_pos :: "road_graph \<Rightarrow> node_id \<Rightarrow> lat_lon" where
  "rg_pos g u = rg_nodes g ! nat u"

definition add_node :: "lat_lon \<Rightarrow> road_graph \<Rightarrow> node_id \<times> road_graph" where
  "add_node p g = (int (length (rg_nodes g)),
     g\<lparr>rg_nodes := rg_nodes g @ [p], rg_adj := rg_adj g @ [[]], snap_index := None\<rparr>)"

definition add_edge :: "node_id \<Rightarrow> node_id \<Rightarrow> real \<Rightarrow> road_graph \<Rightarrow> bool \<times> road_graph" where
  "add_edge u v weight_m g =
     (if \<not> rg_valid g u \<or> \<not> rg_valid g v then (False, g)
      else if \<not> weight_m \<ge> 0 then (False, g)
      else (True, g\<lparr>rg_adj := (rg_adj g)[nat u := rg_adj g ! nat u @ [\<lparr>e_to = v, e_weight = weight_m\<rparr>]],
              edge_count := edge_count g + 1\<rparr>))"

definition add_road :: "node_id \<Rightarrow> node_id \<Rightarrow> road_graph \<Rightarrow> bool \<times> road_graph" where
  "add_road u v g =
     (if \<not> rg_valid g u \<or> \<not> rg_valid g v then (False, g)
      else
        (let w = distance_m (rg_pos g u) (rg_pos g v);
             (ok, g) = add_edge u v w g
         in if ok then add_edge v u w g else (False, g)))"

section \<open>Snapping\<close>

definition snap_items :: "lat_lon list \<Rightarrow> kd_item list" where
  "snap_items ps = map (\<lambda>(i, p). \<lparr>kd_id = i, kd_pos = p\<rparr>) (enumerate 0 ps)"

definition ensure_snap_index :: "road_graph \<Rightarrow> road_graph" where
  "ensure_snap_index g =
     (if snap_index g \<noteq> None \<or> rg_nodes g = [] then g
      else g\<lparr>snap_index := Some (kd_build (snap_items (rg_nodes g)))\<rparr>)"

definition nearest_node :: "lat_lon \<Rightarrow> road_graph \<Rightarrow> node_id \<times> road_graph" where
  "nearest_node p g =
     (if rg_nodes g = [] then (kNoNode, g)
      else
        (let g = ensure_snap_index g
         in (case kd_nearest (the (snap_index g)) p of None \<Rightarrow> kNoNode | Some i \<Rightarrow> int i, g)))"

fun scan_nearest :: "kd_tree \<Rightarrow> lat_lon \<Rightarrow> (nat \<times> lat_lon) list \<Rightarrow> node_id \<Rightarrow> real option \<Rightarrow> node_id" where
  "scan_nearest t p [] best best_d = best"
| "scan_nearest t p ((i, n) # ns) best best_d =
     (let d = kd_distance_m t p n
      in if (case best_d of None \<Rightarrow> True | Some b \<Rightarrow> d < b) then scan_nearest t p ns (int i) (Some d)
         else scan_nearest t p ns best best_d)"

definition nearest_node_linear :: "lat_lon \<Rightarrow> road_graph \<Rightarrow> node_id \<times> road_graph" where
  "nearest_node_linear p g =
     (if rg_nodes g = [] then (kNoNode, g)
      else
        (let g = ensure_snap_index g
         in (scan_nearest (the (snap_index g)) p (enumerate 0 (rg_nodes g)) kNoNode None, g)))"

section \<open>The synthetic grid\<close>

definition rng_gamma :: "64 word" where
  "rng_gamma = 0x9E3779B97F4A7C15"

definition rng_new :: "64 word \<Rightarrow> 64 word" where
  "rng_new seed = (if seed \<noteq> 0 then seed else rng_gamma)"

definition rng_next :: "64 word \<Rightarrow> 64 word \<times> 64 word" where
  "rng_next s =
     (let s = s + rng_gamma;
          z = s;
          z = (z XOR drop_bit 30 z) * 0xBF58476D1CE4E5B9;
          z = (z XOR drop_bit 27 z) * 0x94D049BB133111EB
      in (z XOR drop_bit 31 z, s))"

definition rng_unit :: "64 word \<Rightarrow> real \<times> 64 word" where
  "rng_unit s = (let (z, s) = rng_next s in (of_nat (unat (drop_bit 11 z)) * (1 / 9007199254740992), s))"

definition rng_centered :: "64 word \<Rightarrow> real \<times> 64 word" where
  "rng_centered s = (let (x, s) = rng_unit s in (x * 2 - 1, s))"

definition place_node :: "bbox \<Rightarrow> real \<Rightarrow> real \<Rightarrow> real \<Rightarrow> real \<Rightarrow> road_graph \<times> 64 word \<Rightarrow> nat \<times> nat \<Rightarrow> road_graph \<times> 64 word" where
  "place_node area dlat dlon jlat jlon st rc =
     (let (g, rng) = st;
          (a, rng) = rng_centered rng;
          (b, rng) = rng_centered rng
      in (snd (add_node \<lparr>lat = min_lat area + of_nat (fst rc) * dlat + a * jlat * (1 / 2),
                         lon = min_lon area + of_nat (snd rc) * dlon + b * jlon * (1 / 2)\<rparr> g), rng))"

definition grid_cells :: "nat \<Rightarrow> nat \<Rightarrow> (nat \<times> nat) list" where
  "grid_cells rows cols = concat (map (\<lambda>r. map (\<lambda>c. (r, c)) [0..<cols]) [0..<rows])"

definition grid_id :: "nat \<Rightarrow> nat \<Rightarrow> nat \<Rightarrow> node_id" where
  "grid_id cols r c = int (r * cols + c)"

definition street_step :: "nat \<Rightarrow> nat \<Rightarrow> road_graph \<Rightarrow> nat \<times> nat \<Rightarrow> road_graph" where
  "street_step rows cols g rc =
     (let r = fst rc; c = snd rc;
          g = (if c + 1 < cols then snd (add_road (grid_id cols r c) (grid_id cols r (c + 1)) g) else g)
      in if r + 1 < rows then snd (add_road (grid_id cols r c) (grid_id cols (r + 1) c) g) else g)"

definition diagonal_step :: "nat \<Rightarrow> real \<Rightarrow> road_graph \<times> 64 word \<Rightarrow> nat \<times> nat \<Rightarrow> road_graph \<times> 64 word" where
  "diagonal_step cols p st rc =
     (let (g, rng) = st; r = fst rc; c = snd rc; (a, rng) = rng_unit rng
      in if a < p
         then (let (b, rng) = rng_unit rng
               in (if b < 1 / 2 then snd (add_road (grid_id cols r c) (grid_id cols (r + 1) (c + 1)) g)
                   else snd (add_road (grid_id cols r (c + 1)) (grid_id cols (r + 1) c) g), rng))
         else (g, rng))"

definition rg_grid :: "bbox \<Rightarrow> int \<Rightarrow> int \<Rightarrow> 64 word \<Rightarrow> real \<Rightarrow> real \<Rightarrow> road_graph" where
  "rg_grid area rows cols seed jitter_frac diagonal_probability =
     (if rows < 1 \<or> cols < 1 then rg_empty
      else
        (let dlat = (max_lat area - min_lat area) / of_int (if rows > 1 then rows - 1 else 1);
             dlon = (max_lon area - min_lon area) / of_int (if cols > 1 then cols - 1 else 1);
             (g, rng) = foldl (place_node area dlat dlon (dlat * jitter_frac) (dlon * jitter_frac))
                          (rg_empty, rng_new seed) (grid_cells (nat rows) (nat cols));
             g = foldl (street_step (nat rows) (nat cols)) g (grid_cells (nat rows) (nat cols))
         in fst (foldl (diagonal_step (nat cols) diagonal_probability) (g, rng) (grid_cells (nat rows - 1) (nat cols - 1)))))"

section \<open>Well-formed graphs\<close>

definition edge_ok :: "road_graph \<Rightarrow> edge \<Rightarrow> bool" where
  "edge_ok g e \<longleftrightarrow> rg_valid g (e_to e) \<and> 0 \<le> e_weight e"

definition rg_inv :: "road_graph \<Rightarrow> bool" where
  "rg_inv g \<longleftrightarrow> length (rg_adj g) = length (rg_nodes g) \<and> (\<forall>es \<in> set (rg_adj g). \<forall>e \<in> set es. edge_ok g e) \<and>
     edge_count g = sum_list (map length (rg_adj g)) \<and>
     (snap_index g = None \<or> snap_index g = Some (kd_build (snap_items (rg_nodes g))))"

lemma rg_empty_inv: "rg_inv rg_empty"
  by (simp add: rg_inv_def rg_empty_def)

lemma add_node_inv: "rg_inv g \<Longrightarrow> rg_inv (snd (add_node p g))"
  by (fastforce simp: rg_inv_def add_node_def edge_ok_def rg_valid_def)

lemma add_edge_inv:
  assumes "rg_inv g"
  shows "rg_inv (snd (add_edge u v w g))"
proof (cases "rg_valid g u \<and> rg_valid g v \<and> 0 \<le> w")
  case True
  let ?i = "nat u" and ?es = "rg_adj g ! nat u @ [\<lparr>e_to = v, e_weight = w\<rparr>]"
  have i: "?i < length (rg_adj g)" using True assms by (simp add: rg_valid_def rg_inv_def)
  have old: "\<forall>es \<in> set (rg_adj g). \<forall>e \<in> set es. edge_ok g e" using assms by (simp add: rg_inv_def)
  have "\<forall>e \<in> set ?es. edge_ok g e" using True old nth_mem [OF i] by (auto simp: edge_ok_def)
  then have "\<forall>es \<in> set ((rg_adj g)[?i := ?es]). \<forall>e \<in> set es. edge_ok g e"
    using old set_update_subset_insert [of "rg_adj g" ?i ?es] by fast
  moreover have "sum_list (map length ((rg_adj g)[?i := ?es])) = sum_list (map length (rg_adj g)) + 1"
  proof -
    have "map length ((rg_adj g)[?i := ?es]) = (map length (rg_adj g))[?i := length (rg_adj g ! ?i) + 1]" by (simp add: map_update)
    then show ?thesis using sum_list_update [of ?i "map length (rg_adj g)" "length (rg_adj g ! ?i) + 1"] i
        elem_le_sum_list [of ?i "map length (rg_adj g)"] by simp
  qed
  ultimately show ?thesis using assms True by (simp add: rg_inv_def add_edge_def edge_ok_def rg_valid_def)
qed (use assms in \<open>auto simp: add_edge_def\<close>)

lemma add_road_inv: "rg_inv g \<Longrightarrow> rg_inv (snd (add_road u v g))"
  using add_edge_inv [of g u v] add_edge_inv [of _ v u] by (auto simp: add_road_def Let_def case_prod_beta)

lemma ensure_inv: "rg_inv g \<Longrightarrow> rg_inv (ensure_snap_index g)"
  by (auto simp: rg_inv_def ensure_snap_index_def edge_ok_def rg_valid_def)

lemma rg_grid_inv: "rg_inv (rg_grid area rows cols seed jf dp)"
proof -
  have nodes: "rg_inv g \<Longrightarrow> rg_inv (fst (foldl (place_node area dlat dlon jlat jlon) (g, rng) cells))" for g rng dlat dlon jlat jlon cells
    by (induction cells arbitrary: g rng) (simp_all add: place_node_def case_prod_beta Let_def add_node_inv)
  have streets: "rg_inv g \<Longrightarrow> rg_inv (foldl (street_step r c) g cells)" for g r c cells
    by (induction cells arbitrary: g) (simp_all add: street_step_def Let_def add_road_inv)
  have diagonals: "rg_inv g \<Longrightarrow> rg_inv (fst (foldl (diagonal_step c dp) (g, rng) cells))" for g rng c cells
    by (induction cells arbitrary: g rng) (simp_all add: diagonal_step_def Let_def case_prod_beta add_road_inv)
  show ?thesis
    unfolding rg_grid_def Let_def case_prod_beta by (simp add: rg_empty_inv nodes streets diagonals)
qed

section \<open>Snapping agrees with the scan\<close>

lemma kd_distance_less: "kd_distance_m t p a < kd_distance_m t p b \<longleftrightarrow> dist2 (lon_scale t) p a < dist2 (lon_scale t) p b"
  using kPi_bounds(3) by (simp add: kd_distance_m_def kMetersPerDegLat_def)

lemma scan_fold:
  "sorted_wrt (<) (b # map fst ns) \<Longrightarrow>
   scan_nearest t p ns (int b) (Some (kd_distance_m t p n)) =
   int (snd (fold min (map (\<lambda>(i, n). (dist2 (lon_scale t) p n, i)) ns) (dist2 (lon_scale t) p n, b)))"
proof (induction ns arbitrary: b n)
  case (Cons x ns)
  obtain i m where x: "x = (i, m)" by fastforce
  have i: "b < i" "sorted_wrt (<) (b # map fst ns)" "sorted_wrt (<) (i # map fst ns)" using Cons.prems by (simp_all add: x)
  show ?case
  proof (cases "dist2 (lon_scale t) p m < dist2 (lon_scale t) p n")
    case True
    then have "min (dist2 (lon_scale t) p m, i) (dist2 (lon_scale t) p n, b) = (dist2 (lon_scale t) p m, i)" by (simp add: min_def less_eq_prod_def)
    then show ?thesis using Cons.IH [OF i(3), of m] True by (simp add: x kd_distance_less Let_def)
  next
    case False
    then have "min (dist2 (lon_scale t) p m, i) (dist2 (lon_scale t) p n, b) = (dist2 (lon_scale t) p n, b)" using i(1) by (auto simp: min_def less_eq_prod_def)
    then show ?thesis using Cons.IH [OF i(2), of n] False by (simp add: x kd_distance_less Let_def)
  qed
qed simp

lemma hd_sort_fold:
  fixes x :: "'a :: linorder"
  assumes "sort (x # xs) = y # ys"
  shows "y = fold min xs x"
proof -
  have "set (y # ys) = set (x # xs)" "sorted (y # ys)" using assms by (metis set_sort, metis sorted_sort)
  then have "y = Min (set (x # xs))" by (intro Min_eqI [symmetric]) auto
  then show ?thesis by (simp only: Min.set_eq_fold)
qed

text \<open>Snapping a position to the road network through the cached k-d tree finds the same junction as the linear scan that is kept
  as its oracle, in every graph with valid coordinates, and leaves the same graph.\<close>

lemma snapping_agrees_with_scan:
  assumes "rg_inv g" "list_all ll_valid (rg_nodes g)" "ll_valid p"
  shows "nearest_node p g = nearest_node_linear p g"
proof (cases "rg_nodes g")
  case Nil
  then show ?thesis by (simp add: nearest_node_def nearest_node_linear_def)
next
  case (Cons n ns)
  define t where "t = kd_build (snap_items (rg_nodes g))"
  have idx: "snap_index (ensure_snap_index g) = Some t" "rg_nodes (ensure_snap_index g) = rg_nodes g"
    using assms(1) Cons by (auto simp: rg_inv_def ensure_snap_index_def t_def)
  have valid: "list_all (\<lambda>it. ll_valid (kd_pos it)) (snap_items (rg_nodes g))"
    using assms(2) by (auto simp: snap_items_def list_all_iff in_set_enumerate_eq)
  let ?key = "\<lambda>(i, n). (dist2 (lon_scale t) p n, i :: nat)"
  have items: "kd_ranking (snap_items (rg_nodes g)) p = sort (map ?key (enumerate 0 (rg_nodes g)))"
    unfolding kd_ranking_def t_def [symmetric] by (simp add: snap_items_def comp_def split_def)
  have e: "enumerate 0 (rg_nodes g) = (0, n) # enumerate 1 ns" by (simp add: Cons)
  obtain y ys where y: "sort (map ?key (enumerate 0 (rg_nodes g))) = y # ys"
    using length_sort [of "\<lambda>x. x" "map ?key (enumerate 0 (rg_nodes g))"] Cons by (cases "sort (map ?key (enumerate 0 (rg_nodes g)))") auto
  have "y = fold min (map ?key (enumerate 1 ns)) (dist2 (lon_scale t) p n, 0)"
  proof -
    have "sort ((dist2 (lon_scale t) p n, 0) # map ?key (enumerate 1 ns)) = y # ys" using y by (simp add: e)
    then show ?thesis by (rule hd_sort_fold)
  qed
  moreover have "sorted_wrt (<) (0 # map fst (enumerate 1 ns))" by (simp add: sorted_wrt_upt del: upt_Suc)
  from scan_fold [OF this, of t p n] have "scan_nearest t p (enumerate 0 (rg_nodes g)) kNoNode None =
      int (snd (fold min (map ?key (enumerate 1 ns)) (dist2 (lon_scale t) p n, 0)))" by (simp add: e Let_def)
  moreover have "kd_nearest t p = Some (snd y)"
    using nearest_ranking [OF valid assms(3)] items y by (simp add: t_def)
  ultimately show ?thesis using idx Cons by (simp add: nearest_node_def nearest_node_linear_def Let_def)
qed

lemma snapping_agrees_with_scan_witness:
  "nearest_node \<lparr>lat = 1, lon = 1\<rparr> (snd (add_node \<lparr>lat = 0, lon = 0\<rparr> rg_empty)) =
   nearest_node_linear \<lparr>lat = 1, lon = 1\<rparr> (snd (add_node \<lparr>lat = 0, lon = 0\<rparr> rg_empty))"
  by (rule snapping_agrees_with_scan [OF add_node_inv [OF rg_empty_inv]]) (simp_all add: add_node_def rg_empty_def ll_valid_def)

end
