(* ===== verification/Dijkstra.thy ===== *)
theory Dijkstra
  imports Road_Graph Binary_Heap
begin

text \<open>
  Shortest paths, \<^verbatim>\<open>include/safetrail/graph/dijkstra.hpp\<close> and \<^verbatim>\<open>src/graph/dijkstra.cpp\<close>, on the binary heap of
  \<open>Binary_Heap\<close> with lazy deletion. The loop runs on fuel, \<open>None\<close> when it is used up: one unit per frontier entry
  popped, and the number of edges plus two is proved to be enough for a run. Costs are exact reals.
\<close>

definition kUnreachable :: real where
  "kUnreachable = 10 ^ 300"

record q_item =
  q_dist :: real
  q_node :: node_id

definition q_less :: "q_item \<Rightarrow> q_item \<Rightarrow> bool" where
  "q_less a b = (if q_dist a \<noteq> q_dist b then q_dist a < q_dist b else q_node a < q_node b)"

record shortest_paths =
  sp_source :: node_id
  sp_dist :: "real list"
  sp_parent :: "node_id list"
  nodes_expanded :: nat

record search_trace =
  tr_settled :: "node_id list"
  tr_frontier_size :: "nat list"
  tr_frontier :: "(real \<times> node_id) list list"
  snapshot_limit :: nat
  tr_pushes :: nat
  stale_pops :: nat

definition sp_reachable :: "shortest_paths \<Rightarrow> node_id \<Rightarrow> bool" where
  "sp_reachable sp v \<longleftrightarrow> sp_dist sp ! nat v < kUnreachable"

text \<open>The walk up the parents, at most \<open>fuel\<close> steps.\<close>

fun parent_chain :: "nat \<Rightarrow> node_id list \<Rightarrow> node_id \<Rightarrow> node_id list option" where
  "parent_chain fuel ps v =
     (if v = kNoNode then Some []
      else case fuel of 0 \<Rightarrow> None | Suc fuel' \<Rightarrow> map_option (Cons v) (parent_chain fuel' ps (ps ! nat v)))"

declare parent_chain.simps [simp del]

definition path_to :: "shortest_paths \<Rightarrow> node_id \<Rightarrow> node_id list option" where
  "path_to sp target =
     (if target < 0 \<or> nat target \<ge> length (sp_dist sp) \<or> \<not> sp_reachable sp target then Some []
      else map_option rev (parent_chain (length (sp_dist sp)) (sp_parent sp) target))"

section \<open>The search\<close>

record search =
  s_paths :: shortest_paths
  s_heap :: "q_item list"
  s_trace :: "search_trace option"

definition on_trace :: "(search_trace \<Rightarrow> search_trace) \<Rightarrow> search \<Rightarrow> search" where
  "on_trace f s = s\<lparr>s_trace := map_option f (s_trace s)\<rparr>"

definition relax :: "q_item \<Rightarrow> search \<Rightarrow> edge \<Rightarrow> search" where
  "relax cur s e =
     (let sp = s_paths s; nd = q_dist cur + e_weight e; t = nat (e_to e) in
      if nd < sp_dist sp ! t
      then on_trace (\<lambda>tr. tr\<lparr>tr_pushes := tr_pushes tr + 1\<rparr>)
             (s\<lparr>s_paths := sp\<lparr>sp_dist := (sp_dist sp)[t := nd], sp_parent := (sp_parent sp)[t := q_node cur]\<rparr>,
                s_heap := heap_push q_less (s_heap s) \<lparr>q_dist = nd, q_node = e_to e\<rparr>\<rparr>)
      else if e_weight e > 0 \<and> nd = sp_dist sp ! t \<and> q_node cur < sp_parent sp ! t
      then s\<lparr>s_paths := sp\<lparr>sp_parent := (sp_parent sp)[t := q_node cur]\<rparr>\<rparr>
      else s)"

definition snap_frontier :: "q_item list \<Rightarrow> search_trace \<Rightarrow> search_trace" where
  "snap_frontier heap tr =
     (if length (tr_frontier tr) < snapshot_limit tr
      then tr\<lparr>tr_frontier := tr_frontier tr @ [map (\<lambda>q. (q_dist q, q_node q)) heap]\<rparr> else tr)"

definition settle :: "q_item \<Rightarrow> search \<Rightarrow> search" where
  "settle cur s =
     on_trace (\<lambda>tr. tr\<lparr>tr_settled := tr_settled tr @ [q_node cur], tr_frontier_size := tr_frontier_size tr @ [length (s_heap s)]\<rparr>)
       (s\<lparr>s_paths := (s_paths s)\<lparr>nodes_expanded := nodes_expanded (s_paths s) + 1\<rparr>\<rparr>)"

fun search_loop :: "nat \<Rightarrow> road_graph \<Rightarrow> node_id \<Rightarrow> search \<Rightarrow> search option" where
  "search_loop fuel g target s =
     (case heap_pop q_less (s_heap s) of
        None \<Rightarrow> Some s
      | Some (cur, heap) \<Rightarrow>
          (case fuel of 0 \<Rightarrow> None | Suc fuel' \<Rightarrow>
             (let s = (on_trace (snap_frontier (s_heap s)) s)\<lparr>s_heap := heap\<rparr> in
              if q_dist cur > sp_dist (s_paths s) ! nat (q_node cur)
              then search_loop fuel' g target (on_trace (\<lambda>tr. tr\<lparr>stale_pops := stale_pops tr + 1\<rparr>) s)
              else if q_node cur = target then Some (settle cur s)
              else search_loop fuel' g target (foldl (relax cur) (settle cur s) (neighbors g (q_node cur))))))"

declare search_loop.simps [simp del]

definition search_start :: "road_graph \<Rightarrow> node_id \<Rightarrow> search_trace option \<Rightarrow> search" where
  "search_start g source tr =
     \<lparr>s_paths = \<lparr>sp_source = source, sp_dist = (replicate (rg_count g) kUnreachable)[nat source := 0],
        sp_parent = replicate (rg_count g) kNoNode, nodes_expanded = 0\<rparr>,
      s_heap = heap_push q_less [] \<lparr>q_dist = 0, q_node = source\<rparr>, s_trace = tr\<rparr>"

definition run_search :: "road_graph \<Rightarrow> node_id \<Rightarrow> node_id \<Rightarrow> search_trace option \<Rightarrow> (shortest_paths \<times> search_trace option) option" where
  "run_search g source target tr =
     (if \<not> rg_valid g source
      then Some (\<lparr>sp_source = source, sp_dist = replicate (rg_count g) kUnreachable,
                  sp_parent = replicate (rg_count g) kNoNode, nodes_expanded = 0\<rparr>, tr)
      else map_option (\<lambda>s. (s_paths s, s_trace s)) (search_loop (edge_count g + 2) g target (search_start g source tr)))"

definition dijkstra_to :: "road_graph \<Rightarrow> node_id \<Rightarrow> node_id \<Rightarrow> shortest_paths option" where
  "dijkstra_to g source target = map_option fst (run_search g source target None)"

definition dijkstra :: "road_graph \<Rightarrow> node_id \<Rightarrow> shortest_paths option" where
  "dijkstra g source = dijkstra_to g source kNoNode"

interpretation frontier: heap_order q_less
  by unfold_locales (auto simp: q_less_def split: if_splits)

section \<open>Walks\<close>

text \<open>The walks from a node along edges of the graph: the nodes passed and the cost.\<close>

inductive walk :: "road_graph \<Rightarrow> node_id \<Rightarrow> node_id list \<Rightarrow> node_id \<Rightarrow> real \<Rightarrow> bool" for g s where
  walk_start: "walk g s [s] s 0"
| walk_step: "walk g s ps u c \<Longrightarrow> rg_valid g u \<Longrightarrow> e \<in> set (neighbors g u) \<Longrightarrow> walk g s (ps @ [e_to e]) (e_to e) (c + e_weight e)"

lemma edge_facts:
  assumes "rg_inv g" "rg_valid g u" "e \<in> set (neighbors g u)"
  shows "rg_valid g (e_to e)" "0 \<le> e_weight e"
proof -
  have "rg_adj g ! nat u \<in> set (rg_adj g)" using assms(1,2) by (simp add: rg_inv_def rg_valid_def)
  then have "edge_ok g e" using assms(1,3) unfolding rg_inv_def neighbors_def by blast
  then show "rg_valid g (e_to e)" "0 \<le> e_weight e" by (simp_all add: edge_ok_def)
qed

lemma walk_facts: "walk g s ps v c \<Longrightarrow> rg_inv g \<Longrightarrow> rg_valid g s \<Longrightarrow> rg_valid g v \<and> 0 \<le> c"
  by (induction rule: walk.induct) (auto simp: edge_facts)

section \<open>The invariant\<close>

text \<open>\<open>S\<close> are the settled nodes, in the order in which they were settled.\<close>

abbreviation dist_at :: "search \<Rightarrow> node_id \<Rightarrow> real" where
  "dist_at s v \<equiv> sp_dist (s_paths s) ! nat v"

abbreviation parent_at :: "search \<Rightarrow> node_id \<Rightarrow> node_id" where
  "parent_at s v \<equiv> sp_parent (s_paths s) ! nat v"

definition shape_inv :: "road_graph \<Rightarrow> node_id \<Rightarrow> node_id list \<Rightarrow> search \<Rightarrow> bool" where
  "shape_inv g src S s \<longleftrightarrow>
     length (sp_dist (s_paths s)) = rg_count g \<and> length (sp_parent (s_paths s)) = rg_count g \<and>
     distinct S \<and> (\<forall>v \<in> set S. rg_valid g v \<and> dist_at s v < kUnreachable) \<and> heap_ordered q_less (s_heap s) \<and>
     dist_at s src = 0 \<and> parent_at s src = kNoNode \<and> (\<forall>v. rg_valid g v \<longrightarrow> 0 \<le> dist_at s v \<and> dist_at s v \<le> kUnreachable)"

text \<open>The frontier: every entry is no better than what is recorded and no nearer than what is settled, and exactly the open nodes
  have their recorded distance in it, once.\<close>

definition frontier_inv :: "road_graph \<Rightarrow> node_id list \<Rightarrow> search \<Rightarrow> bool" where
  "frontier_inv g S s \<longleftrightarrow>
     (\<forall>q \<in> set (s_heap s). rg_valid g (q_node q) \<and> dist_at s (q_node q) \<le> q_dist q \<and> (\<forall>u \<in> set S. dist_at s u \<le> q_dist q)) \<and>
     (\<forall>v. rg_valid g v \<longrightarrow> count (mset (s_heap s)) \<lparr>q_dist = dist_at s v, q_node = v\<rparr> =
        (if v \<notin> set S \<and> dist_at s v < kUnreachable then 1 else 0))"

text \<open>A parent is settled before its child, and the recorded distance goes through it.\<close>

definition parent_inv :: "road_graph \<Rightarrow> node_id \<Rightarrow> node_id list \<Rightarrow> search \<Rightarrow> bool" where
  "parent_inv g src S s \<longleftrightarrow>
     (\<forall>v. rg_valid g v \<and> v \<noteq> src \<and> dist_at s v < kUnreachable \<longrightarrow>
        (\<exists>e \<in> set (neighbors g (parent_at s v)). e_to e = v \<and> dist_at s v = dist_at s (parent_at s v) + e_weight e) \<and>
        parent_at s v \<in> set (takeWhile (\<lambda>u. u \<noteq> v) S))"

definition relaxed :: "road_graph \<Rightarrow> search \<Rightarrow> node_id \<Rightarrow> edge set \<Rightarrow> bool" where
  "relaxed g s u es \<longleftrightarrow> (\<forall>e \<in> es. dist_at s (e_to e) \<le> dist_at s u + e_weight e)"

lemma valid_nat_eq: "rg_valid g a \<Longrightarrow> rg_valid g b \<Longrightarrow> nat a = nat b \<longleftrightarrow> a = b"
  by (auto simp: rg_valid_def)

section \<open>Relaxing\<close>

definition mid_inv :: "road_graph \<Rightarrow> node_id \<Rightarrow> node_id list \<Rightarrow> node_id \<Rightarrow> search \<Rightarrow> bool" where
  "mid_inv g src S x s \<longleftrightarrow> shape_inv g src (S @ [x]) s \<and> frontier_inv g (S @ [x]) s \<and> parent_inv g src (S @ [x]) s \<and>
     (\<forall>u \<in> set S. dist_at s u \<le> dist_at s x)"

definition improves :: "road_graph \<Rightarrow> node_id list \<Rightarrow> search \<Rightarrow> search \<Rightarrow> bool" where
  "improves g S s s' \<longleftrightarrow> (\<forall>u \<in> set S. dist_at s' u = dist_at s u) \<and> (\<forall>v. rg_valid g v \<longrightarrow> dist_at s' v \<le> dist_at s v)"

lemma improves_refl: "improves g S s s"
  by (simp add: improves_def)

lemma improves_trans: "improves g S a b \<Longrightarrow> improves g S b c \<Longrightarrow> improves g S a c"
  unfolding improves_def by (metis order_trans)

lemma improves_relaxed:
  assumes "improves g S s s'" "relaxed g s u es" "u \<in> set S" "\<And>e. e \<in> es \<Longrightarrow> rg_valid g (e_to e)"
  shows "relaxed g s' u es"
  using assms unfolding improves_def relaxed_def by (metis order_trans)

lemma on_trace_simps [simp]: "s_paths (on_trace f s) = s_paths s" "s_heap (on_trace f s) = s_heap s"
  by (simp_all add: on_trace_def)

lemma takeWhile_unsettled: "v \<notin> set S \<Longrightarrow> takeWhile (\<lambda>u. u \<noteq> v) S = S"
  by (simp add: takeWhile_eq_all_conv) blast

lemma relax_shorter:
  assumes g: "rg_inv g" and m: "mid_inv g src S x s" and e: "e \<in> set (neighbors g x)" and src: "rg_valid g src"
    and less: "dist_at s x + e_weight e < dist_at s (e_to e)"
  defines "nd \<equiv> dist_at s x + e_weight e"
  defines "s' \<equiv> relax \<lparr>q_dist = dist_at s x, q_node = x\<rparr> s e"
  shows "mid_inv g src S x s' \<and> improves g (S @ [x]) s s' \<and> dist_at s' (e_to e) \<le> nd \<and> length (s_heap s') = length (s_heap s) + 1"
proof -
  let ?t = "e_to e"
  have sh: "shape_inv g src (S @ [x]) s" and fr: "frontier_inv g (S @ [x]) s" and pa: "parent_inv g src (S @ [x]) s"
    and near: "\<And>u. u \<in> set (S @ [x]) \<Longrightarrow> dist_at s u \<le> dist_at s x"
    using m by (auto simp: mid_inv_def)
  have x: "rg_valid g x" "x \<in> set (S @ [x])" using sh by (auto simp: shape_inv_def)
  note ef = edge_facts [OF g x(1) e]
  have len: "length (sp_dist (s_paths s)) = rg_count g" "length (sp_parent (s_paths s)) = rg_count g" using sh by (simp_all add: shape_inv_def)
  have t: "nat ?t < rg_count g" using ef(1) by (simp add: rg_valid_def rg_count_def)
  have nd: "dist_at s x \<le> nd" "nd < dist_at s ?t" "0 \<le> nd" using ef(2) less sh x(1) unfolding nd_def shape_inv_def by (simp, simp, fastforce)
  have unsettled: "?t \<notin> set (S @ [x])" using near [of ?t] nd by force
  have nsrc: "?t \<noteq> src" using nd sh by (auto simp: shape_inv_def)
  have D: "dist_at s' v = (if v = ?t then nd else dist_at s v)" if "rg_valid g v" for v
    using that less t len valid_nat_eq [OF that ef(1)] by (auto simp: s'_def relax_def nd_def Let_def nth_list_update)
  have P: "parent_at s' v = (if v = ?t then x else parent_at s v)" if "rg_valid g v" for v
    using that less t len valid_nat_eq [OF that ef(1)] by (auto simp: s'_def relax_def nd_def Let_def nth_list_update)
  have H: "s_heap s' = heap_push q_less (s_heap s) \<lparr>q_dist = nd, q_node = ?t\<rparr>" using less by (simp add: s'_def relax_def nd_def Let_def)
  then have MH: "mset (s_heap s') = add_mset \<lparr>q_dist = nd, q_node = ?t\<rparr> (mset (s_heap s))" by (simp add: frontier.mset_push)
  have SH: "set (s_heap s') = insert \<lparr>q_dist = nd, q_node = ?t\<rparr> (set (s_heap s))" using arg_cong [OF MH, of set_mset] by simp
  have L: "length (sp_dist (s_paths s')) = rg_count g" "length (sp_parent (s_paths s')) = rg_count g"
    using len by (simp_all add: s'_def relax_def Let_def)
  have settled: "dist_at s' u = dist_at s u" if "u \<in> set (S @ [x])" for u
    using that unsettled D sh unfolding shape_inv_def by metis
  have kU: "dist_at s ?t \<le> kUnreachable" using sh ef(1) by (simp add: shape_inv_def)
  have "shape_inv g src (S @ [x]) s'"
    unfolding shape_inv_def
  proof (intro conjI ballI allI impI)
    show "distinct (S @ [x])" using sh by (simp add: shape_inv_def)
    show "heap_ordered q_less (s_heap s')" using sh H frontier.push_heap_ordered by (simp add: shape_inv_def)
    show "dist_at s' src = 0" using D [OF src] nsrc sh by (simp add: shape_inv_def)
    show "parent_at s' src = kNoNode" using P [OF src] nsrc sh by (simp add: shape_inv_def)
  next
    fix v assume v: "v \<in> set (S @ [x])"
    show "rg_valid g v" using sh v unfolding shape_inv_def by blast
    show "dist_at s' v < kUnreachable" using settled [OF v] sh v unfolding shape_inv_def by metis
  next
    fix v assume v: "rg_valid g v"
    show "0 \<le> dist_at s' v" using D [OF v] nd(3) sh v by (simp add: shape_inv_def)
    show "dist_at s' v \<le> kUnreachable" using D [OF v] nd(2) kU sh v by (simp add: shape_inv_def)
  qed (use L in simp_all)
  moreover have "frontier_inv g (S @ [x]) s'"
    unfolding frontier_inv_def
  proof (intro conjI ballI allI impI)
    fix q assume "q \<in> set (s_heap s')"
    then consider "q = \<lparr>q_dist = nd, q_node = ?t\<rparr>" | "q \<in> set (s_heap s)" by (auto simp: SH)
    then have *: "rg_valid g (q_node q) \<and> dist_at s' (q_node q) \<le> q_dist q \<and> (\<forall>u \<in> set (S @ [x]). dist_at s u \<le> q_dist q)"
    proof cases
      case 1
      then show ?thesis using ef(1) D [OF ef(1)] near nd(1) by force
    next
      case 2
      then have q: "rg_valid g (q_node q)" "dist_at s (q_node q) \<le> q_dist q" "\<forall>u \<in> set (S @ [x]). dist_at s u \<le> q_dist q"
        using fr unfolding frontier_inv_def by blast+
      then show ?thesis using D [OF q(1)] nd(2) by auto
    qed
    show "rg_valid g (q_node q)" "dist_at s' (q_node q) \<le> q_dist q" using * by simp_all
    fix u assume "u \<in> set (S @ [x])"
    then show "dist_at s' u \<le> q_dist q" using * settled by metis
  next
    fix v assume v: "rg_valid g v"
    show "count (mset (s_heap s')) \<lparr>q_dist = dist_at s' v, q_node = v\<rparr> = (if v \<notin> set (S @ [x]) \<and> dist_at s' v < kUnreachable then 1 else 0)"
    proof (cases "v = ?t")
      case True
      have "\<lparr>q_dist = nd, q_node = ?t\<rparr> \<notin> set (s_heap s)" using fr nd(2) unfolding frontier_inv_def by fastforce
      then have "count (mset (s_heap s)) \<lparr>q_dist = nd, q_node = ?t\<rparr> = 0" by (simp add: count_eq_zero_iff)
      then show ?thesis using True D [OF v] unsettled nd(2) kU by (simp add: MH)
    next
      case False
      then show ?thesis using D [OF v] fr v by (simp add: MH frontier_inv_def)
    qed
  qed
  moreover have "parent_inv g src (S @ [x]) s'"
    unfolding parent_inv_def
  proof (intro allI impI)
    fix v assume v: "rg_valid g v \<and> v \<noteq> src \<and> dist_at s' v < kUnreachable"
    show "(\<exists>e \<in> set (neighbors g (parent_at s' v)). e_to e = v \<and> dist_at s' v = dist_at s' (parent_at s' v) + e_weight e) \<and>
      parent_at s' v \<in> set (takeWhile (\<lambda>u. u \<noteq> v) (S @ [x]))"
    proof (cases "v = ?t")
      case True
      then have "parent_at s' v = x" "dist_at s' v = nd" using P D ef(1) by simp_all
      moreover have "dist_at s' x = dist_at s x" using settled [OF x(2)] .
      moreover have "takeWhile (\<lambda>u. u \<noteq> v) (S @ [x]) = S @ [x]" using takeWhile_unsettled [OF unsettled] True by simp
      ultimately show ?thesis using e True by (auto simp: nd_def)
    next
      case False
      then have same: "parent_at s' v = parent_at s v" "dist_at s' v = dist_at s v" using P D v by simp_all
      then have old: "(\<exists>e \<in> set (neighbors g (parent_at s v)). e_to e = v \<and> dist_at s v = dist_at s (parent_at s v) + e_weight e)"
        "parent_at s v \<in> set (takeWhile (\<lambda>u. u \<noteq> v) (S @ [x]))" using pa v unfolding parent_inv_def by metis+
      have "dist_at s' (parent_at s v) = dist_at s (parent_at s v)" using settled old(2) set_takeWhileD by metis
      then show ?thesis using old same by simp
    qed
  qed
  moreover have "\<forall>u \<in> set S. dist_at s' u \<le> dist_at s' x" using settled near by simp
  moreover have "improves g (S @ [x]) s s'" using settled D nd(2) by (auto simp: improves_def)
  moreover have "dist_at s' ?t \<le> nd" using D [OF ef(1)] by simp
  moreover have "length (s_heap s') = length (s_heap s) + 1" using arg_cong [OF MH, of size] by simp
  ultimately show ?thesis by (simp add: mid_inv_def)
qed

lemma relax_reparent:
  assumes g: "rg_inv g" and m: "mid_inv g src S x s" and e: "e \<in> set (neighbors g x)" and src: "rg_valid g src"
    and eq: "dist_at s x + e_weight e = dist_at s (e_to e)" "e_weight e > 0" "x < parent_at s (e_to e)"
  defines "s' \<equiv> relax \<lparr>q_dist = dist_at s x, q_node = x\<rparr> s e"
  shows "mid_inv g src S x s' \<and> sp_dist (s_paths s') = sp_dist (s_paths s) \<and> s_heap s' = s_heap s"
proof -
  let ?t = "e_to e"
  have sh: "shape_inv g src (S @ [x]) s" and fr: "frontier_inv g (S @ [x]) s" and pa: "parent_inv g src (S @ [x]) s"
    and near: "\<And>u. u \<in> set (S @ [x]) \<Longrightarrow> dist_at s u \<le> dist_at s x"
    using m by (auto simp: mid_inv_def)
  have x: "rg_valid g x" "x \<in> set (S @ [x])" using sh by (auto simp: shape_inv_def)
  note ef = edge_facts [OF g x(1) e]
  have len: "length (sp_parent (s_paths s)) = rg_count g" using sh by (simp add: shape_inv_def)
  have t: "nat ?t < rg_count g" using ef(1) by (simp add: rg_valid_def rg_count_def)
  have unsettled: "?t \<notin> set (S @ [x])" using near [of ?t] eq by force
  have "0 \<le> dist_at s x" using sh x(1) by (simp add: shape_inv_def)
  then have nsrc: "?t \<noteq> src" using eq sh by (auto simp: shape_inv_def)
  have s': "s_paths s' = (s_paths s)\<lparr>sp_parent := (sp_parent (s_paths s))[nat ?t := x]\<rparr>" "s_heap s' = s_heap s"
    using eq by (simp_all add: s'_def relax_def Let_def)
  have P: "parent_at s' v = (if v = ?t then x else parent_at s v)" if "rg_valid g v" for v
    using t len valid_nat_eq [OF that ef(1)] by (auto simp: s' nth_list_update)
  have D: "sp_dist (s_paths s') = sp_dist (s_paths s)" by (simp add: s')
  have "shape_inv g src (S @ [x]) s'" using sh P [OF src] nsrc len by (simp add: shape_inv_def s'(2) D) (simp add: s'(1))
  moreover have "frontier_inv g (S @ [x]) s'" using fr by (simp add: frontier_inv_def s'(2) D)
  moreover have "parent_inv g src (S @ [x]) s'"
    unfolding parent_inv_def D
  proof (intro allI impI)
    fix v assume v: "rg_valid g v \<and> v \<noteq> src \<and> dist_at s v < kUnreachable"
    show "(\<exists>e \<in> set (neighbors g (parent_at s' v)). e_to e = v \<and> dist_at s v = dist_at s (parent_at s' v) + e_weight e) \<and>
      parent_at s' v \<in> set (takeWhile (\<lambda>u. u \<noteq> v) (S @ [x]))"
    proof (cases "v = ?t")
      case True
      then have "parent_at s' v = x" using P ef(1) by simp
      moreover have "takeWhile (\<lambda>u. u \<noteq> v) (S @ [x]) = S @ [x]" using takeWhile_unsettled [OF unsettled] True by simp
      moreover have "dist_at s v = dist_at s x + e_weight e" using eq(1) True by simp
      ultimately show ?thesis using e True by auto
    next
      case False
      then have "parent_at s' v = parent_at s v" using P v by simp
      then show ?thesis using pa v unfolding parent_inv_def by metis
    qed
  qed
  ultimately show ?thesis using near D s' by (simp add: mid_inv_def)
qed

lemma relax_inv:
  assumes g: "rg_inv g" and m: "mid_inv g src S x s" and e: "e \<in> set (neighbors g x)" and src: "rg_valid g src" and d: "d = dist_at s x"
  defines "s' \<equiv> relax \<lparr>q_dist = d, q_node = x\<rparr> s e"
  shows "mid_inv g src S x s' \<and> improves g (S @ [x]) s s' \<and> relaxed g s' x {e} \<and> length (s_heap s') \<le> length (s_heap s) + 1"
proof -
  have D: "dist_at s2 x = dist_at s x" if "improves g (S @ [x]) s s2" for s2 using that by (simp add: improves_def)
  consider (shorter) "dist_at s x + e_weight e < dist_at s (e_to e)"
    | (same) "dist_at s x + e_weight e = dist_at s (e_to e)" "e_weight e > 0" "x < parent_at s (e_to e)"
    | (no) "\<not> dist_at s x + e_weight e < dist_at s (e_to e)"
        "\<not> (e_weight e > 0 \<and> dist_at s x + e_weight e = dist_at s (e_to e) \<and> x < parent_at s (e_to e))" by blast
  then show ?thesis
  proof cases
    case shorter
    then show ?thesis using relax_shorter [OF g m e src shorter] D unfolding s'_def d relaxed_def by simp
  next
    case same
    note r = relax_reparent [OF g m e src same]
    then have "improves g (S @ [x]) s s'" by (simp add: s'_def d improves_def)
    then show ?thesis using r same(1) unfolding s'_def d relaxed_def by simp
  next
    case no
    then have "s' = s" by (auto simp: s'_def d relax_def Let_def)
    then show ?thesis using m no(1) improves_refl by (simp add: relaxed_def)
  qed
qed

lemma relax_all:
  assumes g: "rg_inv g" and src: "rg_valid g src"
  shows "mid_inv g src S x s \<Longrightarrow> set es \<subseteq> set (neighbors g x) \<Longrightarrow> d = dist_at s x \<Longrightarrow>
    s' = foldl (relax \<lparr>q_dist = d, q_node = x\<rparr>) s es \<Longrightarrow>
    mid_inv g src S x s' \<and> improves g (S @ [x]) s s' \<and> relaxed g s' x (set es) \<and> length (s_heap s') \<le> length (s_heap s) + length es"
proof (induction es arbitrary: s)
  case Nil
  then show ?case using improves_refl by (simp add: relaxed_def)
next
  case (Cons e es)
  let ?s = "relax \<lparr>q_dist = d, q_node = x\<rparr> s e"
  have e: "e \<in> set (neighbors g x)" using Cons.prems(2) by simp
  have x: "rg_valid g x" using Cons.prems(1) by (simp add: mid_inv_def shape_inv_def)
  have one: "mid_inv g src S x ?s" "improves g (S @ [x]) s ?s" "relaxed g ?s x {e}" "length (s_heap ?s) \<le> length (s_heap s) + 1"
    using relax_inv [OF g Cons.prems(1) e src Cons.prems(3)] by blast+
  have "d = dist_at ?s x" using one(2) Cons.prems(3) by (simp add: improves_def)
  then have all: "mid_inv g src S x s'" "improves g (S @ [x]) ?s s'" "relaxed g s' x (set es)" "length (s_heap s') \<le> length (s_heap ?s) + length es"
    using Cons.IH [OF one(1)] Cons.prems(2,4) by simp_all
  have "relaxed g s' x {e}" using edge_facts [OF g x e] by (intro improves_relaxed [OF all(2) one(3)]) simp_all
  then show ?case using all one improves_trans [OF one(2) all(2)] by (auto simp: relaxed_def)
qed

section \<open>The loop\<close>

definition loop_inv :: "road_graph \<Rightarrow> node_id \<Rightarrow> node_id list \<Rightarrow> search \<Rightarrow> bool" where
  "loop_inv g src S s \<longleftrightarrow> shape_inv g src S s \<and> frontier_inv g S s \<and> parent_inv g src S s \<and>
     (\<forall>u \<in> set S. relaxed g s u (set (neighbors g u)))"

lemma takeWhile_snoc_mono: "set (takeWhile P xs) \<subseteq> set (takeWhile P (xs @ ys))"
  by (induction xs) auto

lemma inv_paths: "s_paths a = s_paths b \<Longrightarrow> s_heap a = s_heap b \<Longrightarrow> loop_inv g src S a = loop_inv g src S b"
  by (simp add: loop_inv_def shape_inv_def frontier_inv_def parent_inv_def relaxed_def)

lemma pop_stale:
  assumes i: "loop_inv g src S s" and m: "mset (s_heap s) = add_mset cur (mset heap)" and h: "heap_ordered q_less heap"
    and d: "dist_at s (q_node cur) < q_dist cur"
  shows "loop_inv g src S (s\<lparr>s_heap := heap\<rparr>)"
proof -
  have "set (s_heap s) = insert cur (set heap)" using arg_cong [OF m, of set_mset] by simp
  moreover have "count (mset heap) \<lparr>q_dist = dist_at s v, q_node = v\<rparr> = count (mset (s_heap s)) \<lparr>q_dist = dist_at s v, q_node = v\<rparr>" for v
    using d by (auto simp: m)
  ultimately have "frontier_inv g S (s\<lparr>s_heap := heap\<rparr>)" using i by (simp add: loop_inv_def frontier_inv_def)
  then show ?thesis using i h by (simp add: loop_inv_def shape_inv_def parent_inv_def relaxed_def)
qed

lemma pop_fresh:
  assumes i: "loop_inv g src S s" and m: "mset (s_heap s) = add_mset cur (mset heap)" and h: "heap_ordered q_less heap"
    and least: "\<And>q. q \<in> set (s_heap s) \<Longrightarrow> q_dist cur \<le> q_dist q" and d: "\<not> dist_at s (q_node cur) < q_dist cur"
    and s': "s_paths s' = (s_paths s)\<lparr>nodes_expanded := n\<rparr>" "s_heap s' = heap"
  shows "mid_inv g src S (q_node cur) s' \<and> q_dist cur = dist_at s' (q_node cur) \<and> q_node cur \<notin> set S \<and> rg_valid g (q_node cur)"
proof -
  let ?x = "q_node cur"
  have sh: "shape_inv g src S s" and fr: "frontier_inv g S s" and pa: "parent_inv g src S s" using i by (simp_all add: loop_inv_def)
  have SH: "set (s_heap s) = insert cur (set heap)" using arg_cong [OF m, of set_mset] by simp
  have q: "rg_valid g (q_node q)" "dist_at s (q_node q) \<le> q_dist q" "\<forall>u \<in> set S. dist_at s u \<le> q_dist q" if "q \<in> set (s_heap s)" for q
    using fr that unfolding frontier_inv_def by blast+
  have x: "rg_valid g ?x" "dist_at s ?x \<le> q_dist cur" "\<forall>u \<in> set S. dist_at s u \<le> q_dist cur" using q [of cur] SH by simp_all
  have dx: "dist_at s ?x = q_dist cur" using x(2) d by simp
  have cur: "cur = \<lparr>q_dist = dist_at s ?x, q_node = ?x\<rparr>" using dx by simp
  have cnt: "count (mset (s_heap s)) \<lparr>q_dist = dist_at s v, q_node = v\<rparr> = (if v \<notin> set S \<and> dist_at s v < kUnreachable then 1 else 0)"
    if "rg_valid g v" for v using fr that unfolding frontier_inv_def by blast
  have "count (mset (s_heap s)) \<lparr>q_dist = dist_at s ?x, q_node = ?x\<rparr> \<noteq> 0" using cur SH by (metis count_eq_zero_iff list.set_intros(1) insertI1 set_mset_mset)
  then have new: "?x \<notin> set S" "dist_at s ?x < kUnreachable" using cnt [OF x(1)] by (simp_all split: if_splits)
  have D: "sp_dist (s_paths s') = sp_dist (s_paths s)" "sp_parent (s_paths s') = sp_parent (s_paths s)" using s' by simp_all
  have "shape_inv g src (S @ [?x]) s'" using sh new x(1) h by (auto simp: shape_inv_def D s')
  moreover have "frontier_inv g (S @ [?x]) s'"
    unfolding frontier_inv_def D s'(2)
  proof (intro conjI ballI allI impI)
    fix q assume "q \<in> set heap"
    then have qq: "q \<in> set (s_heap s)" using SH by simp
    show "rg_valid g (q_node q)" "dist_at s (q_node q) \<le> q_dist q" using q [OF qq] by simp_all
    fix u assume "u \<in> set (S @ [?x])"
    then show "dist_at s u \<le> q_dist q" using q(3) [OF qq] least [OF qq] dx by auto
  next
    fix v assume v: "rg_valid g v"
    show "count (mset heap) \<lparr>q_dist = dist_at s v, q_node = v\<rparr> = (if v \<notin> set (S @ [?x]) \<and> dist_at s v < kUnreachable then 1 else 0)"
    proof (cases "v = ?x")
      case True
      have "count (mset (s_heap s)) cur = 1" using cnt [OF x(1)] new cur by simp
      then have "count (mset heap) cur = 0" by (simp add: m)
      then show ?thesis using True cur by simp
    next
      case False
      then have "cur \<noteq> \<lparr>q_dist = dist_at s v, q_node = v\<rparr>" by auto
      then have "count (mset heap) \<lparr>q_dist = dist_at s v, q_node = v\<rparr> = count (mset (s_heap s)) \<lparr>q_dist = dist_at s v, q_node = v\<rparr>" by (simp add: m)
      then show ?thesis using cnt [OF v] False by simp
    qed
  qed
  moreover have "parent_inv g src (S @ [?x]) s'"
    unfolding parent_inv_def D
  proof (intro allI impI conjI)
    fix v assume v: "rg_valid g v \<and> v \<noteq> src \<and> dist_at s v < kUnreachable"
    then have p: "\<exists>e \<in> set (neighbors g (parent_at s v)). e_to e = v \<and> dist_at s v = dist_at s (parent_at s v) + e_weight e"
      "parent_at s v \<in> set (takeWhile (\<lambda>u. u \<noteq> v) S)" using pa unfolding parent_inv_def by metis+
    then show "\<exists>e \<in> set (neighbors g (parent_at s v)). e_to e = v \<and> dist_at s v = dist_at s (parent_at s v) + e_weight e" by blast
    show "parent_at s v \<in> set (takeWhile (\<lambda>u. u \<noteq> v) (S @ [?x]))" by (rule subsetD [OF takeWhile_snoc_mono p(2)])
  qed
  moreover have "\<forall>u \<in> set S. dist_at s' u \<le> dist_at s' ?x" using x(3) dx by (simp add: D)
  ultimately show ?thesis using dx new(1) x(1) by (simp add: mid_inv_def D)
qed

text \<open>The work left: the entries of the frontier and the edges of the nodes not settled.\<close>

definition work :: "road_graph \<Rightarrow> node_id list \<Rightarrow> search \<Rightarrow> nat" where
  "work g S s = length (s_heap s) + (\<Sum>i \<in> {i. i < rg_count g \<and> int i \<notin> set S}. length (rg_adj g ! i))"

lemma work_settle:
  assumes "rg_valid g x" "x \<notin> set S"
  shows "(\<Sum>i \<in> {i. i < rg_count g \<and> int i \<notin> set S}. length (rg_adj g ! i)) =
    length (neighbors g x) + (\<Sum>i \<in> {i. i < rg_count g \<and> int i \<notin> set (S @ [x])}. length (rg_adj g ! i))"
proof -
  let ?R = "{i. i < rg_count g \<and> int i \<notin> set (S @ [x])}"
  have "{i. i < rg_count g \<and> int i \<notin> set S} = insert (nat x) ?R" using assms by (auto simp: rg_valid_def rg_count_def)
  moreover have n: "nat x \<notin> ?R" using assms by (simp add: rg_valid_def)
  moreover have f: "finite ?R" by (rule finite_subset [of _ "{..<rg_count g}"]) auto
  ultimately show ?thesis using sum.insert [OF f n, of "\<lambda>i. length (rg_adj g ! i)"] by (simp only: neighbors_def)
qed

text \<open>What a search that has ended leaves: everything settled and relaxed, or the target settled last.\<close>

definition search_done :: "road_graph \<Rightarrow> node_id \<Rightarrow> node_id \<Rightarrow> search \<Rightarrow> bool" where
  "search_done g src target s \<longleftrightarrow>
     (\<exists>S. loop_inv g src S s \<and> s_heap s = []) \<or>
     (\<exists>S. mid_inv g src S target s \<and> (\<forall>u \<in> set S. relaxed g s u (set (neighbors g u))))"

lemma search_loop_unfold:
  "search_loop fuel g target s =
     (case heap_pop q_less (s_heap s) of
        None \<Rightarrow> Some s
      | Some (cur, heap) \<Rightarrow>
          (case fuel of 0 \<Rightarrow> None | Suc fuel' \<Rightarrow>
             (if q_dist cur > dist_at s (q_node cur)
              then search_loop fuel' g target (on_trace (\<lambda>tr. tr\<lparr>stale_pops := stale_pops tr + 1\<rparr>) ((on_trace (snap_frontier (s_heap s)) s)\<lparr>s_heap := heap\<rparr>))
              else if q_node cur = target then Some (settle cur ((on_trace (snap_frontier (s_heap s)) s)\<lparr>s_heap := heap\<rparr>))
              else search_loop fuel' g target
                (foldl (relax cur) (settle cur ((on_trace (snap_frontier (s_heap s)) s)\<lparr>s_heap := heap\<rparr>)) (neighbors g (q_node cur))))))"
  by (subst search_loop.simps) (simp add: Let_def split: option.split nat.split)

lemma search_loop_done:
  assumes g: "rg_inv g" and src: "rg_valid g src"
  shows "loop_inv g src S s \<Longrightarrow> work g S s \<le> fuel \<Longrightarrow> \<exists>s'. search_loop fuel g target s = Some s' \<and> search_done g src target s'"
proof (induction fuel arbitrary: S s)
  case 0
  then have "s_heap s = []" by (simp add: work_def)
  then show ?case using 0 by (subst search_loop_unfold) (auto simp: heap_pop_def search_done_def)
next
  case (Suc fuel)
  show ?case
  proof (cases "s_heap s = []")
    case True
    then show ?thesis using Suc.prems by (subst search_loop_unfold) (auto simp: heap_pop_def search_done_def)
  next
    case False
    have "heap_ordered q_less (s_heap s)" using Suc.prems(1) by (simp add: loop_inv_def shape_inv_def)
    from frontier.pop_heap [OF this False] obtain heap where p: "heap_pop q_less (s_heap s) = Some (hd (s_heap s), heap)"
      "heap_ordered q_less heap" "mset (s_heap s) = add_mset (hd (s_heap s)) (mset heap)" "\<forall>x \<in> set (s_heap s). \<not> q_less x (hd (s_heap s))" by blast
    define cur where "cur = hd (s_heap s)"
    have least: "q_dist cur \<le> q_dist q" if "q \<in> set (s_heap s)" for q
      using p(4) that by (fastforce simp: q_less_def cur_def split: if_splits)
    define s1 where "s1 = (on_trace (snap_frontier (s_heap s)) s)\<lparr>s_heap := heap\<rparr>"
    have s1: "s_paths s1 = s_paths s" "s_heap s1 = heap" by (simp_all add: s1_def on_trace_def)
    have len: "length (s_heap s) = Suc (length heap)" using arg_cong [OF p(3), of size] by simp
    note step = search_loop_unfold [of "Suc fuel" g target s, unfolded p(1) option.case prod.case nat.case, folded cur_def s1_def]
    show ?thesis
    proof (cases "q_dist cur > dist_at s (q_node cur)")
      case True
      let ?s = "on_trace (\<lambda>tr. tr\<lparr>stale_pops := stale_pops tr + 1\<rparr>) s1"
      have "loop_inv g src S (s\<lparr>s_heap := heap\<rparr>)" using pop_stale [OF Suc.prems(1) p(3,2)] True by (simp add: cur_def)
      then have "loop_inv g src S ?s" using inv_paths [of ?s "s\<lparr>s_heap := heap\<rparr>"] s1 by simp
      moreover have "work g S ?s \<le> fuel" using Suc.prems(2) len by (simp add: work_def s1)
      ultimately show ?thesis using Suc.IH step True by simp
    next
      case False
      let ?s = "settle cur s1" and ?x = "q_node cur"
      have sp: "s_paths ?s = (s_paths s)\<lparr>nodes_expanded := nodes_expanded (s_paths s1) + 1\<rparr>" "s_heap ?s = heap"
        by (simp_all add: settle_def s1)
      have f: "mid_inv g src S ?x ?s" "q_dist cur = dist_at ?s ?x" "?x \<notin> set S" "rg_valid g ?x"
        using pop_fresh [OF Suc.prems(1) p(3) [folded cur_def] p(2) least False sp] by blast+
      have rel: "\<forall>u \<in> set S. relaxed g ?s u (set (neighbors g u))" using Suc.prems(1) sp(1) by (simp add: loop_inv_def relaxed_def)
      show ?thesis
      proof (cases "?x = target")
        case True
        then show ?thesis using step False f(1) rel unfolding search_done_def by auto
      next
        case no: False
        define s2 where "s2 = foldl (relax cur) ?s (neighbors g ?x)"
        have "cur = \<lparr>q_dist = q_dist cur, q_node = ?x\<rparr>" by simp
        then have "s2 = foldl (relax \<lparr>q_dist = q_dist cur, q_node = ?x\<rparr>) ?s (neighbors g ?x)" unfolding s2_def by (rule arg_cong)
        from relax_all [OF g src f(1) order_refl f(2) this]
        have r: "mid_inv g src S ?x s2" "improves g (S @ [?x]) ?s s2" "relaxed g s2 ?x (set (neighbors g ?x))"
          "length (s_heap s2) \<le> length (s_heap ?s) + length (neighbors g ?x)" by blast+
        have "relaxed g s2 u (set (neighbors g u))" if "u \<in> set S" for u
        proof (rule improves_relaxed [OF r(2)])
          show "relaxed g ?s u (set (neighbors g u))" using rel that by blast
          show "u \<in> set (S @ [?x])" using that by simp
          have "rg_valid g u" using f(1) that by (simp add: mid_inv_def shape_inv_def)
          then show "rg_valid g (e_to e)" if "e \<in> set (neighbors g u)" for e using edge_facts(1) [OF g] that by blast
        qed
        then have "loop_inv g src (S @ [?x]) s2" using r(1,3) by (auto simp: loop_inv_def mid_inv_def)
        moreover have "work g (S @ [?x]) s2 \<le> fuel"
          using Suc.prems(2) work_settle [OF f(4,3)] len r(4) by (simp add: work_def sp(2))
        ultimately show ?thesis using Suc.IH step False no by (simp add: s2_def)
      qed
    qed
  qed
qed

lemma work_start: "rg_inv g \<Longrightarrow> work g [] s = length (s_heap s) + edge_count g"
proof -
  assume g: "rg_inv g"
  have "{i. i < rg_count g \<and> int i \<notin> set []} = {0..<length (rg_adj g)}" using g by (auto simp: rg_inv_def rg_count_def)
  then show ?thesis using g by (simp add: work_def rg_inv_def sum_list_sum_nth)
qed

lemma start_inv:
  assumes "rg_inv g" "rg_valid g src"
  shows "loop_inv g src [] (search_start g src tr)"
proof -
  have n: "nat src < rg_count g" using assms(2) by (simp add: rg_valid_def rg_count_def)
  have kU: "0 < kUnreachable" by (simp add: kUnreachable_def)
  have h: "s_heap (search_start g src tr) = [\<lparr>q_dist = 0, q_node = src\<rparr>]"
    by (simp add: search_start_def heap_push_def sift_up.simps)
  have D: "dist_at (search_start g src tr) v = (if v = src then 0 else kUnreachable)" if "rg_valid g v" for v
    using that n valid_nat_eq [OF that assms(2)] by (auto simp: search_start_def nth_list_update rg_valid_def rg_count_def)
  have P: "parent_at (search_start g src tr) src = kNoNode" using n by (simp add: search_start_def)
  have "shape_inv g src [] (search_start g src tr)"
    using D kU P assms(2) unfolding shape_inv_def h by (auto simp: search_start_def heap_ordered_def)
  moreover have "frontier_inv g [] (search_start g src tr)"
    using D kU assms(2) unfolding frontier_inv_def h by auto
  moreover have "parent_inv g src [] (search_start g src tr)" using D by (auto simp: parent_inv_def)
  ultimately show ?thesis by (simp add: loop_inv_def)
qed

lemma run_search_done:
  assumes "rg_inv g" "rg_valid g src"
  shows "\<exists>s. run_search g src target tr = Some (s_paths s, s_trace s) \<and> search_done g src target s"
proof -
  have "length (s_heap (search_start g src tr)) = 1" by (simp add: search_start_def heap_push_def sift_up.simps)
  then have "work g [] (search_start g src tr) \<le> edge_count g + 2" using work_start [OF assms(1)] by simp
  from search_loop_done [OF assms start_inv [OF assms] this] obtain s where
    "search_loop (edge_count g + 2) g target (search_start g src tr) = Some s" "search_done g src target s" by blast
  then show ?thesis using assms(2) unfolding run_search_def by (intro exI [of _ s]) simp
qed

section \<open>What a search answers\<close>

text \<open>No walk is cheaper than the recorded distance.\<close>

lemma end_lower:
  assumes "rg_inv g" "rg_valid g src" "loop_inv g src S s" "s_heap s = []" "walk g src ps v c"
  shows "dist_at s v \<le> c"
  using assms(5)
proof (induction rule: walk.induct)
  case walk_start
  then show ?case using assms(3) by (simp add: loop_inv_def shape_inv_def)
next
  case (walk_step ps u c e)
  note ef = edge_facts [OF assms(1) walk_step(2,3)]
  show ?case
  proof (cases "u \<in> set S")
    case True
    then have "dist_at s (e_to e) \<le> dist_at s u + e_weight e" using assms(3) walk_step(3) by (simp add: loop_inv_def relaxed_def)
    then show ?thesis using walk_step.IH by simp
  next
    case False
    have "count (mset (s_heap s)) \<lparr>q_dist = dist_at s u, q_node = u\<rparr> = (if u \<notin> set S \<and> dist_at s u < kUnreachable then 1 else 0)"
      using assms(3) walk_step(2) unfolding loop_inv_def frontier_inv_def by blast
    then have "\<not> dist_at s u < kUnreachable" using assms(4) False by (simp split: if_splits)
    moreover have "dist_at s (e_to e) \<le> kUnreachable" using assms(3) ef(1) by (simp add: loop_inv_def shape_inv_def)
    ultimately show ?thesis using walk_step.IH ef(2) by simp
  qed
qed

lemma target_lower:
  assumes g: "rg_inv g" "rg_valid g src" and m: "mid_inv g src S t s" and r: "\<forall>u \<in> set S. relaxed g s u (set (neighbors g u))"
    and w: "walk g src ps v c" and lt: "c < dist_at s t"
  shows "v \<in> set S \<and> dist_at s v \<le> c"
proof -
  have sh: "shape_inv g src (S @ [t]) s" and fr: "frontier_inv g (S @ [t]) s" using m by (simp_all add: mid_inv_def)
  have settled: "v \<in> set S" if "rg_valid g v" "dist_at s v < dist_at s t" for v
  proof (rule ccontr)
    assume no: "v \<notin> set S"
    have "dist_at s t < kUnreachable" using sh by (simp add: shape_inv_def)
    then have "v \<notin> set (S @ [t]) \<and> dist_at s v < kUnreachable" using no that by auto
    moreover have "count (mset (s_heap s)) \<lparr>q_dist = dist_at s v, q_node = v\<rparr> = (if v \<notin> set (S @ [t]) \<and> dist_at s v < kUnreachable then 1 else 0)"
      using fr that(1) unfolding frontier_inv_def by blast
    ultimately have "\<lparr>q_dist = dist_at s v, q_node = v\<rparr> \<in> set (s_heap s)" by (metis count_eq_zero_iff one_neq_zero set_mset_mset)
    then have "dist_at s t \<le> dist_at s v" using fr unfolding frontier_inv_def by fastforce
    then show False using that(2) by simp
  qed
  from w lt show ?thesis
  proof (induction rule: walk.induct)
    case walk_start
    have "dist_at s src = 0" using sh by (simp add: shape_inv_def)
    then show ?case using settled [OF g(2)] walk_start by simp
  next
    case (walk_step ps u c e)
    note ef = edge_facts [OF g(1) walk_step(2,3)]
    have u: "u \<in> set S" "dist_at s u \<le> c" using walk_step.IH walk_step.prems ef(2) by simp_all
    then have "dist_at s (e_to e) \<le> dist_at s u + e_weight e" using r walk_step(3) by (simp add: relaxed_def)
    then show ?case using settled [OF ef(1)] u(2) walk_step.prems by simp
  qed
qed

text \<open>The parents lead back to the source along a walk of the recorded cost.\<close>

lemma parent_walk:
  assumes g: "rg_inv g" "rg_valid g src" and sh: "shape_inv g src S s" and pa: "parent_inv g src S s"
  shows "rg_valid g v \<Longrightarrow> dist_at s v < kUnreachable \<Longrightarrow> length (takeWhile (\<lambda>u. u \<noteq> v) S) < fuel \<Longrightarrow>
    \<exists>ps. parent_chain fuel (sp_parent (s_paths s)) v = Some (rev ps) \<and> walk g src ps v (dist_at s v)"
proof (induction fuel arbitrary: v)
  case (Suc fuel)
  have v: "v \<noteq> kNoNode" using Suc.prems(1) by (auto simp: rg_valid_def kNoNode_def)
  show ?case
  proof (cases "v = src")
    case True
    have z: "dist_at s src = 0" "parent_at s src = kNoNode" using sh by (simp_all add: shape_inv_def)
    have "parent_chain fuel (sp_parent (s_paths s)) kNoNode = Some []" by (subst parent_chain.simps) simp
    then have "parent_chain (Suc fuel) (sp_parent (s_paths s)) v = Some [src]" using v True z by (subst parent_chain.simps) simp
    then show ?thesis using True z walk.walk_start [of g src] by (intro exI [of _ "[src]"]) simp
  next
    case False
    let ?p = "parent_at s v"
    obtain e where e: "e \<in> set (neighbors g ?p)" "e_to e = v" "dist_at s v = dist_at s ?p + e_weight e" "?p \<in> set (takeWhile (\<lambda>u. u \<noteq> v) S)"
      using pa Suc.prems False unfolding parent_inv_def by metis
    have p: "?p \<in> set S" using e(4) set_takeWhileD by metis
    then have vp: "rg_valid g ?p" "dist_at s ?p < kUnreachable" using sh by (simp_all add: shape_inv_def)
    have "length (takeWhile (\<lambda>u. u \<noteq> ?p) S) < length (takeWhile (\<lambda>u. u \<noteq> v) S)"
    proof -
      obtain i where i: "i < length (takeWhile (\<lambda>u. u \<noteq> v) S)" "takeWhile (\<lambda>u. u \<noteq> v) S ! i = ?p" using e(4) by (metis in_set_conv_nth)
      then have "S ! i = ?p" using takeWhile_nth by metis
      then have "length (takeWhile (\<lambda>u. u \<noteq> ?p) S) \<le> i"
        using i(1) length_takeWhile_le [of "\<lambda>u. u \<noteq> v" S] by (metis (mono_tags, lifting) leI nth_mem set_takeWhileD takeWhile_nth)
      then show ?thesis using i(1) by simp
    qed
    then obtain ps where ps: "parent_chain fuel (sp_parent (s_paths s)) ?p = Some (rev ps)" "walk g src ps ?p (dist_at s ?p)"
      using Suc.IH [OF vp] Suc.prems(3) by auto
    have "parent_chain (Suc fuel) (sp_parent (s_paths s)) v = Some (rev (ps @ [v]))" using v ps(1) by (subst parent_chain.simps) simp
    moreover have "walk g src (ps @ [v]) v (dist_at s v)" using walk.walk_step [OF ps(2) vp(1) e(1)] e(2,3) by simp
    ultimately show ?thesis by blast
  qed
qed simp

lemma settled_count:
  assumes "shape_inv g src S s" "rg_valid g v"
  shows "length (takeWhile (\<lambda>u. u \<noteq> v) S) < rg_count g"
proof -
  let ?T = "takeWhile (\<lambda>u. u \<noteq> v) S"
  have "distinct (v # ?T)" using assms(1) by (auto simp: shape_inv_def dest: set_takeWhileD)
  moreover have valid: "\<forall>u \<in> set (v # ?T). rg_valid g u" using assms by (auto simp: shape_inv_def dest: set_takeWhileD)
  ultimately have "card (set (v # ?T)) = length (v # ?T)" by (simp only: distinct_card)
  moreover have "set (v # ?T) \<subseteq> int ` {..<rg_count g}"
  proof
    fix u assume "u \<in> set (v # ?T)"
    then have "rg_valid g u" using valid by blast
    then show "u \<in> int ` {..<rg_count g}" by (intro image_eqI [of _ _ "nat u"]) (auto simp: rg_valid_def rg_count_def)
  qed
  then have "card (set (v # ?T)) \<le> card (int ` {..<rg_count g})" by (intro card_mono) simp_all
  moreover have "card (int ` {..<rg_count g}) = rg_count g" by (simp add: card_image)
  ultimately show ?thesis by simp
qed

text \<open>The answer of a search about a node: the cheapest cost there is, with a walk of that cost, or the mark that there is none below it.\<close>

definition shortest :: "road_graph \<Rightarrow> shortest_paths \<Rightarrow> node_id \<Rightarrow> node_id \<Rightarrow> bool" where
  "shortest g sp src v \<longleftrightarrow>
     (\<forall>ps c. walk g src ps v c \<longrightarrow> sp_dist sp ! nat v \<le> c) \<and>
     (if sp_reachable sp v then \<exists>ps. path_to sp v = Some ps \<and> walk g src ps v (sp_dist sp ! nat v)
      else path_to sp v = Some [] \<and> sp_dist sp ! nat v = kUnreachable)"

lemma path_of_inv:
  assumes "rg_inv g" "rg_valid g src" "shape_inv g src S s" "parent_inv g src S s" "rg_valid g v"
  shows "if sp_reachable (s_paths s) v then \<exists>ps. path_to (s_paths s) v = Some ps \<and> walk g src ps v (dist_at s v)
    else path_to (s_paths s) v = Some [] \<and> dist_at s v = kUnreachable"
proof (cases "sp_reachable (s_paths s) v")
  case True
  have len: "length (sp_dist (s_paths s)) = rg_count g" using assms(3) by (simp add: shape_inv_def)
  have v: "\<not> v < 0" "\<not> rg_count g \<le> nat v" using assms(5) by (auto simp: rg_valid_def rg_count_def)
  obtain ps where "parent_chain (rg_count g) (sp_parent (s_paths s)) v = Some (rev ps)" "walk g src ps v (dist_at s v)"
    using parent_walk [OF assms(1-5) _ settled_count [OF assms(3,5)]] True by (auto simp: sp_reachable_def)
  then show ?thesis using True v len by (simp add: path_to_def)
next
  case False
  have "dist_at s v \<le> kUnreachable" using assms(3,5) by (simp add: shape_inv_def)
  then show ?thesis using False by (simp add: path_to_def sp_reachable_def)
qed

lemma done_shortest:
  assumes g: "rg_inv g" "rg_valid g src" and d: "search_done g src target s" and v: "rg_valid g v" "target = v \<or> target = kNoNode"
  shows "shortest g (s_paths s) src v"
proof -
  from d consider S where "loop_inv g src S s" "s_heap s = []"
    | S where "mid_inv g src S target s" "\<forall>u \<in> set S. relaxed g s u (set (neighbors g u))" unfolding search_done_def by blast
  then show ?thesis
  proof cases
    case (1 S)
    then have i: "shape_inv g src S s" "parent_inv g src S s" by (simp_all add: loop_inv_def)
    show ?thesis using end_lower [OF g 1] path_of_inv [OF g i v(1)] unfolding shortest_def by blast
  next
    case (2 S)
    then have i: "shape_inv g src (S @ [target]) s" "parent_inv g src (S @ [target]) s" by (simp_all add: mid_inv_def)
    then have "rg_valid g target" by (simp add: shape_inv_def)
    then have t: "target = v" using v(2) by (auto simp: rg_valid_def kNoNode_def)
    have "dist_at s v \<le> c" if "walk g src ps v c" for ps c
      using target_lower [OF g 2 that] t by fastforce
    then show ?thesis using path_of_inv [OF g i v(1)] unfolding shortest_def by blast
  qed
qed

section \<open>Properties\<close>

text \<open>C10: Dijkstra is correct: on every well-formed graph the run returns, and its answer about every junction is the least cost
  of a walk from the source, with the reconstructed path being a walk of just that cost; the search that stops as soon as its
  target is settled answers the same about the target.\<close>

theorem dijkstra_shortest:
  assumes "rg_inv g" "rg_valid g src" "rg_valid g v"
  shows "(\<exists>sp. dijkstra g src = Some sp \<and> shortest g sp src v) \<and>
    (\<exists>sp. dijkstra_to g src v = Some sp \<and> shortest g sp src v)"
proof -
  have "\<exists>sp. dijkstra_to g src t = Some sp \<and> shortest g sp src v" if "t = v \<or> t = kNoNode" for t
    using run_search_done [OF assms(1,2), of t None] done_shortest [OF assms(1,2) _ assms(3) that] by (auto simp: dijkstra_to_def)
  then show ?thesis by (simp add: dijkstra_def)
qed

definition demo_roads :: road_graph where
  "demo_roads = snd (add_edge 1 2 1 (snd (add_edge 0 1 1 (snd (add_edge 0 2 5
     (snd (add_node \<lparr>lat = 0, lon = 2\<rparr> (snd (add_node \<lparr>lat = 0, lon = 1\<rparr> (snd (add_node \<lparr>lat = 0, lon = 0\<rparr> rg_empty)))))))))))"

lemma demo_roads_ok: "rg_inv demo_roads" "rg_count demo_roads = 3"
  by (simp_all add: demo_roads_def rg_count_def add_edge_inv add_node_inv rg_empty_inv) (simp add: add_edge_def add_node_def rg_empty_def)

lemma dijkstra_shortest_witness: "\<exists>sp. dijkstra demo_roads 0 = Some sp \<and> shortest demo_roads sp 0 2"
proof -
  have "rg_valid demo_roads 0" "rg_valid demo_roads 2" using demo_roads_ok(2) unfolding rg_valid_def rg_count_def by simp_all
  from dijkstra_shortest [OF demo_roads_ok(1) this] show ?thesis by blast
qed

end
