(* ===== verification/Hungarian.thy ===== *)
theory Hungarian
  imports Prelude Complex_Main
begin

text \<open>
  Minimum-cost assignment, the second half of \<^verbatim>\<open>include/safetrail/graph/bipartite_match.hpp\<close> and
  \<^verbatim>\<open>src/graph/bipartite_match.cpp\<close>: the potentials method, 1-indexed as in the code, with index 0 the sentinel.
  Costs are exact reals, so the check for NaN and infinities has no counterpart; \<open>kInf\<close> is the finite mark of the code.
  The two loops of an augmentation run on fuel, \<open>None\<close> when it is used up; each marks or unwinds a new column in every round,
  and one unit per column is proved to be enough.
\<close>

datatype assignment_status = AsgOk | EmptyInput | Ragged | MoreRowsThanCols | NonFiniteCost

record assignment =
  row_to_col :: "int list"
  total_cost :: real
  asg_status :: assignment_status

fun status_string :: "assignment_status \<Rightarrow> string" where
  "status_string AsgOk = ''ok''"
| "status_string EmptyInput = ''empty input''"
| "status_string Ragged = ''ragged cost matrix''"
| "status_string MoreRowsThanCols = ''more rows than columns''"
| "status_string NonFiniteCost = ''non-finite cost entry''"

definition refused :: "assignment_status \<Rightarrow> assignment" where
  "refused st = \<lparr>row_to_col = [], total_cost = 0, asg_status = st\<rparr>"

definition kInf :: real where
  "kInf = (2 - 1 / 2 ^ 52) * 2 ^ 1023 / 4"

text \<open>The potentials, the column partners and the tree of one augmentation.\<close>

record duals =
  du_u :: "real list"
  du_v :: "real list"
  du_p :: "nat list"
  du_way :: "nat list"

record column_scan =
  cs_minv :: "real list"
  cs_way :: "nat list"
  cs_delta :: real
  cs_j1 :: "nat option"

definition cost_at :: "real list list \<Rightarrow> nat \<Rightarrow> nat \<Rightarrow> real" where
  "cost_at cost i j = cost ! (i - 1) ! (j - 1)"

definition scan_col :: "real list list \<Rightarrow> duals \<Rightarrow> bool list \<Rightarrow> nat \<Rightarrow> nat \<Rightarrow> column_scan \<Rightarrow> nat \<Rightarrow> column_scan" where
  "scan_col cost d used i0 j0 s j =
     (if used ! j then s
      else
        (let cur = cost_at cost i0 j - du_u d ! i0 - du_v d ! j;
             s = (if cur < cs_minv s ! j then s\<lparr>cs_minv := (cs_minv s)[j := cur], cs_way := (cs_way s)[j := j0]\<rparr> else s)
         in if cs_minv s ! j < cs_delta s then s\<lparr>cs_delta := cs_minv s ! j, cs_j1 := Some j\<rparr> else s))"

definition shift_col :: "nat list \<Rightarrow> bool list \<Rightarrow> real \<Rightarrow> real list \<times> real list \<times> real list \<Rightarrow> nat \<Rightarrow> real list \<times> real list \<times> real list" where
  "shift_col p used delta s j =
     (let (u, v, minv) = s in
      if used ! j then (u[p ! j := u ! (p ! j) + delta], v[j := v ! j - delta], minv)
      else (u, v, minv[j := minv ! j - delta]))"

text \<open>One round of the search for a free column.\<close>

definition aug_round :: "real list list \<Rightarrow> nat \<Rightarrow> duals \<Rightarrow> real list \<Rightarrow> bool list \<Rightarrow> nat \<Rightarrow> duals \<times> real list \<times> nat option" where
  "aug_round cost m d minv used j0 =
     (let i0 = du_p d ! j0;
          s = foldl (scan_col cost d used i0 j0) \<lparr>cs_minv = minv, cs_way = du_way d, cs_delta = kInf, cs_j1 = None\<rparr> [1..<m + 1];
          (u, v, minv) = foldl (shift_col (du_p d) used (cs_delta s)) (du_u d, du_v d, cs_minv s) [0..<m + 1]
      in (d\<lparr>du_u := u, du_v := v, du_way := cs_way s\<rparr>, minv, cs_j1 s))"

fun aug_search :: "nat \<Rightarrow> real list list \<Rightarrow> nat \<Rightarrow> duals \<Rightarrow> real list \<Rightarrow> bool list \<Rightarrow> nat \<Rightarrow> (duals \<times> nat option) option" where
  "aug_search 0 cost m d minv used j0 = None"
| "aug_search (Suc fuel) cost m d minv used j0 =
     (let used = used[j0 := True];
          (d, minv, j1) = aug_round cost m d minv used j0
      in case j1 of
           None \<Rightarrow> Some (d, None)
         | Some j \<Rightarrow> if du_p d ! j \<noteq> 0 then aug_search fuel cost m d minv used j else Some (d, Some j))"

fun unwind :: "nat \<Rightarrow> nat list \<Rightarrow> nat list \<Rightarrow> nat \<Rightarrow> nat list option" where
  "unwind 0 way p j0 = None"
| "unwind (Suc fuel) way p j0 =
     (let j1 = way ! j0; p = p[j0 := p ! j1]
      in if j1 \<noteq> 0 then unwind fuel way p j1 else Some p)"

text \<open>Row \<open>i\<close> gets its column; \<open>Inl\<close> is the early return.\<close>

definition assign_row :: "real list list \<Rightarrow> nat \<Rightarrow> duals \<Rightarrow> nat \<Rightarrow> (unit + duals) option" where
  "assign_row cost m d i =
     (let d = d\<lparr>du_p := (du_p d)[0 := i]\<rparr> in
      case aug_search (m + 1) cost m d (replicate (m + 1) kInf) (replicate (m + 1) False) 0 of
        None \<Rightarrow> None
      | Some (d, None) \<Rightarrow> Some (Inl ())
      | Some (d, Some j0) \<Rightarrow> map_option (\<lambda>p. Inr (d\<lparr>du_p := p\<rparr>)) (unwind (m + 1) (du_way d) (du_p d) j0))"

fun assign_rows :: "real list list \<Rightarrow> nat \<Rightarrow> duals \<Rightarrow> nat list \<Rightarrow> (unit + duals) option" where
  "assign_rows cost m d [] = Some (Inr d)"
| "assign_rows cost m d (i # is) =
     (case assign_row cost m d i of
        None \<Rightarrow> None
      | Some (Inl ()) \<Rightarrow> Some (Inl ())
      | Some (Inr d) \<Rightarrow> assign_rows cost m d is)"

definition read_rows :: "nat \<Rightarrow> nat list \<Rightarrow> nat \<Rightarrow> int list" where
  "read_rows n p m =
     foldl (\<lambda>r j. if p ! j \<noteq> 0 then r[p ! j - 1 := int j - 1] else r) (replicate n (- 1)) [1..<m + 1]"

definition row_total :: "real list list \<Rightarrow> int list \<Rightarrow> real" where
  "row_total cost r =
     foldl (\<lambda>total i. if r ! i \<ge> 0 then total + cost ! i ! nat (r ! i) else total) 0 [0..<length cost]"

definition hungarian :: "real list list \<Rightarrow> assignment option" where
  "hungarian cost =
     (if cost = [] then Some (refused EmptyInput)
      else
        (let n = length cost; m = length (hd cost) in
         if m = 0 then Some (refused Ragged)
         else if \<exists>row \<in> set cost. length row \<noteq> m then Some (refused Ragged)
         else if m < n then Some (refused MoreRowsThanCols)
         else
           (case assign_rows cost m \<lparr>du_u = replicate (n + 1) 0, du_v = replicate (m + 1) 0,
                    du_p = replicate (m + 1) 0, du_way = replicate (m + 1) 0\<rparr> [1..<n + 1] of
              None \<Rightarrow> None
            | Some (Inl ()) \<Rightarrow> Some (refused NonFiniteCost)
            | Some (Inr d) \<Rightarrow>
                (let r = read_rows n (du_p d) m
                 in Some \<lparr>row_to_col = r, total_cost = row_total cost r, asg_status = AsgOk\<rparr>))))"

section \<open>One round\<close>

lemma scan_len:
  "length (cs_minv (foldl (scan_col cost d used i0 j0) s js)) = length (cs_minv s) \<and>
   length (cs_way (foldl (scan_col cost d used i0 j0) s js)) = length (cs_way s)"
  by (induction js arbitrary: s) (auto simp: scan_col_def Let_def)

definition reduced :: "real list list \<Rightarrow> duals \<Rightarrow> nat \<Rightarrow> nat \<Rightarrow> real" where
  "reduced cost d i j = cost_at cost i j - du_u d ! i - du_v d ! j"

text \<open>What the scan computes for the columns up to \<open>k\<close>.\<close>

lemma scan_spec:
  assumes "length minv = m + 1" "length way = m + 1" "k \<le> m"
    and "s = foldl (scan_col cost d used i0 j0) \<lparr>cs_minv = minv, cs_way = way, cs_delta = kInf, cs_j1 = None\<rparr> [1..<k + 1]"
  shows "(\<forall>j. 1 \<le> j \<and> j \<le> k \<and> \<not> used ! j \<longrightarrow>
      cs_minv s ! j = min (minv ! j) (reduced cost d i0 j) \<and>
      cs_way s ! j = (if reduced cost d i0 j < minv ! j then j0 else way ! j) \<and> cs_delta s \<le> cs_minv s ! j) \<and>
    (\<forall>j. j < 1 \<or> k < j \<or> used ! j \<longrightarrow> cs_minv s ! j = minv ! j \<and> cs_way s ! j = way ! j) \<and> cs_delta s \<le> kInf \<and>
    (case cs_j1 s of None \<Rightarrow> cs_delta s = kInf | Some j \<Rightarrow> 1 \<le> j \<and> j \<le> k \<and> \<not> used ! j \<and> cs_delta s = cs_minv s ! j \<and> cs_delta s < kInf)"
  using assms(3,4)
proof (induction k arbitrary: s)
  case 0
  then show ?case by simp
next
  case (Suc k)
  define s0 where "s0 = foldl (scan_col cost d used i0 j0) \<lparr>cs_minv = minv, cs_way = way, cs_delta = kInf, cs_j1 = None\<rparr> [1..<k + 1]"
  have s: "s = scan_col cost d used i0 j0 s0 (Suc k)" using Suc.prems(2) by (simp add: s0_def)
  have ih: "\<forall>j. 1 \<le> j \<and> j \<le> k \<and> \<not> used ! j \<longrightarrow>
      cs_minv s0 ! j = min (minv ! j) (reduced cost d i0 j) \<and>
      cs_way s0 ! j = (if reduced cost d i0 j < minv ! j then j0 else way ! j) \<and> cs_delta s0 \<le> cs_minv s0 ! j"
    "\<forall>j. j < 1 \<or> k < j \<or> used ! j \<longrightarrow> cs_minv s0 ! j = minv ! j \<and> cs_way s0 ! j = way ! j" "cs_delta s0 \<le> kInf"
    "case cs_j1 s0 of None \<Rightarrow> cs_delta s0 = kInf | Some j \<Rightarrow> 1 \<le> j \<and> j \<le> k \<and> \<not> used ! j \<and> cs_delta s0 = cs_minv s0 ! j \<and> cs_delta s0 < kInf"
    using Suc.IH [OF Suc_leD [OF Suc.prems(1)] s0_def] by blast+
  have len: "length (cs_minv s0) = m + 1" "length (cs_way s0) = m + 1" using scan_len assms(1,2) by (simp_all add: s0_def)
  show ?case
  proof (cases "used ! Suc k")
    case True
    then have "s = s0" by (simp add: s scan_col_def)
    show ?thesis
    proof (intro conjI allI impI)
      fix j assume "1 \<le> j \<and> j \<le> Suc k \<and> \<not> used ! j"
      then have "1 \<le> j \<and> j \<le> k \<and> \<not> used ! j" using True by (auto simp: le_Suc_eq)
      then show "cs_minv s ! j = min (minv ! j) (reduced cost d i0 j)" "cs_way s ! j = (if reduced cost d i0 j < minv ! j then j0 else way ! j)"
        "cs_delta s \<le> cs_minv s ! j" using ih(1) \<open>s = s0\<close> by blast+
    next
      fix j assume "j < 1 \<or> Suc k < j \<or> used ! j"
      then have "j < 1 \<or> k < j \<or> used ! j" by auto
      then show "cs_minv s ! j = minv ! j" "cs_way s ! j = way ! j" using ih(2) \<open>s = s0\<close> by blast+
    next
      show "case cs_j1 s of None \<Rightarrow> cs_delta s = kInf | Some j \<Rightarrow> 1 \<le> j \<and> j \<le> Suc k \<and> \<not> used ! j \<and> cs_delta s = cs_minv s ! j \<and> cs_delta s < kInf"
        using ih(4) \<open>s = s0\<close> by (simp split: option.splits)
    qed (use ih(3) \<open>s = s0\<close> in blast)
  next
    case False
    have old: "cs_minv s0 ! Suc k = minv ! Suc k" "cs_way s0 ! Suc k = way ! Suc k" using ih(2) by auto
    define r where "r = reduced cost d i0 (Suc k)"
    have in_range: "Suc k < length (cs_minv s0)" "Suc k < length (cs_way s0)" using Suc.prems(1) len by simp_all
    define s1 where "s1 = (if r < minv ! Suc k then s0\<lparr>cs_minv := (cs_minv s0)[Suc k := r], cs_way := (cs_way s0)[Suc k := j0]\<rparr> else s0)"
    have M: "cs_minv s1 ! j = (if j = Suc k then min (minv ! j) r else cs_minv s0 ! j)"
      "cs_way s1 ! j = (if j = Suc k then (if r < minv ! j then j0 else way ! j) else cs_way s0 ! j)" for j
      using in_range old by (auto simp: s1_def nth_list_update)
    have D: "cs_delta s1 = cs_delta s0" "cs_j1 s1 = cs_j1 s0" by (simp_all add: s1_def)
    have s': "s = (if cs_minv s1 ! Suc k < cs_delta s0 then s1\<lparr>cs_delta := cs_minv s1 ! Suc k, cs_j1 := Some (Suc k)\<rparr> else s1)"
      using False old by (simp add: s scan_col_def s1_def r_def reduced_def Let_def)
    have SM: "cs_minv s = cs_minv s1" "cs_way s = cs_way s1" by (simp_all add: s')
    have SD: "cs_delta s = min (cs_delta s0) (cs_minv s1 ! Suc k)" using D by (simp add: s' min_def)
    have SJ: "cs_j1 s = (if cs_minv s1 ! Suc k < cs_delta s0 then Some (Suc k) else cs_j1 s0)" using D by (simp add: s')
    show ?thesis
    proof (intro conjI allI impI)
      fix j assume j: "1 \<le> j \<and> j \<le> Suc k \<and> \<not> used ! j"
      have "cs_minv s ! j = min (minv ! j) (reduced cost d i0 j) \<and> cs_way s ! j = (if reduced cost d i0 j < minv ! j then j0 else way ! j)
        \<and> cs_delta s \<le> cs_minv s ! j"
      proof (cases "j = Suc k")
        case True
        then show ?thesis by (auto simp: SM SD M r_def min_le_iff_disj)
      next
        case no: False
        have "1 \<le> j \<and> j \<le> k \<and> \<not> used ! j" using j no by simp
        then have old: "cs_minv s0 ! j = min (minv ! j) (reduced cost d i0 j)"
          "cs_way s0 ! j = (if reduced cost d i0 j < minv ! j then j0 else way ! j)" "cs_delta s0 \<le> cs_minv s0 ! j" using ih(1) by blast+
        have "cs_minv s ! j = cs_minv s0 ! j" "cs_way s ! j = cs_way s0 ! j" "cs_delta s \<le> cs_delta s0" using no by (simp_all add: SM SD M)
        then show ?thesis using old(1,2) order_trans [OF _ old(3)] by metis
      qed
      then show "cs_minv s ! j = min (minv ! j) (reduced cost d i0 j)" "cs_way s ! j = (if reduced cost d i0 j < minv ! j then j0 else way ! j)"
        "cs_delta s \<le> cs_minv s ! j" by blast+
    next
      fix j assume j: "j < 1 \<or> Suc k < j \<or> used ! j"
      then have "j \<noteq> Suc k" using False by auto
      then show "cs_minv s ! j = minv ! j" "cs_way s ! j = way ! j" using ih(2) j by (auto simp: SM M)
    next
      show "cs_delta s \<le> kInf" using ih(3) by (simp add: SD min.coboundedI1)
    next
      show "case cs_j1 s of None \<Rightarrow> cs_delta s = kInf | Some j \<Rightarrow> 1 \<le> j \<and> j \<le> Suc k \<and> \<not> used ! j \<and> cs_delta s = cs_minv s ! j \<and> cs_delta s < kInf"
      proof (cases "cs_minv s1 ! Suc k < cs_delta s0")
        case True
        then have "cs_delta s = cs_minv s1 ! Suc k" "cs_minv s1 ! Suc k < kInf" using ih(3) by (simp_all add: SD)
        then show ?thesis using True False by (simp add: SJ SM)
      next
        case no: False
        then have d: "cs_delta s = cs_delta s0" by (simp add: SD)
        show ?thesis using ih(4) no by (auto simp: SJ SM M d split: option.splits)
      qed
    qed
  qed
qed

text \<open>What the shift does, when no two used columns have the same partner.\<close>

lemma shift_spec:
  assumes "length u = n + 1" "length v = m + 1" "length minv = m + 1" "k \<le> m + 1"
    and "\<And>j. j \<le> m \<Longrightarrow> used ! j \<Longrightarrow> p ! j \<le> n"
    and "\<And>i j. i \<le> m \<Longrightarrow> j \<le> m \<Longrightarrow> used ! i \<Longrightarrow> used ! j \<Longrightarrow> p ! i = p ! j \<Longrightarrow> i = j"
    and "foldl (shift_col p used delta) (u, v, minv) [0..<k] = (u', v', minv')"
  shows "length u' = n + 1 \<and> length v' = m + 1 \<and> length minv' = m + 1 \<and>
    (\<forall>i \<le> n. u' ! i = (if \<exists>j < k. used ! j \<and> p ! j = i then u ! i + delta else u ! i)) \<and>
    (\<forall>j \<le> m. v' ! j = (if j < k \<and> used ! j then v ! j - delta else v ! j)) \<and>
    (\<forall>j \<le> m. minv' ! j = (if j < k \<and> \<not> used ! j then minv ! j - delta else minv ! j))"
  using assms(4,7)
proof (induction k arbitrary: u' v' minv')
  case 0
  then show ?case using assms(1-3) by simp
next
  case (Suc k)
  obtain u0 v0 minv0 where s0: "foldl (shift_col p used delta) (u, v, minv) [0..<k] = (u0, v0, minv0)" by (metis prod_cases3)
  have ih: "length u0 = n + 1 \<and> length v0 = m + 1 \<and> length minv0 = m + 1 \<and>
    (\<forall>i \<le> n. u0 ! i = (if \<exists>j < k. used ! j \<and> p ! j = i then u ! i + delta else u ! i)) \<and>
    (\<forall>j \<le> m. v0 ! j = (if j < k \<and> used ! j then v ! j - delta else v ! j)) \<and>
    (\<forall>j \<le> m. minv0 ! j = (if j < k \<and> \<not> used ! j then minv ! j - delta else minv ! j))"
    using Suc.IH [OF _ s0] Suc.prems(1) by simp
  then have L: "length u0 = n + 1" "length v0 = m + 1" "length minv0 = m + 1" by blast+
  then have kl: "k < length v0" "k < length minv0" using Suc.prems(1) by simp_all
  have step: "(u', v', minv') = shift_col p used delta (u0, v0, minv0) k" using Suc.prems(2) s0 by simp
  have k: "k \<le> m" using Suc.prems(1) by simp
  show ?case
  proof (cases "used ! k")
    case True
    then have e: "u' = u0[p ! k := u0 ! (p ! k) + delta]" "v' = v0[k := v0 ! k - delta]" "minv' = minv0" using step by (simp_all add: shift_col_def)
    have pk: "p ! k \<le> n" using assms(5) [OF k True] .
    have fresh: "\<not> (\<exists>j < k. used ! j \<and> p ! j = p ! k)"
    proof
      assume "\<exists>j < k. used ! j \<and> p ! j = p ! k"
      then obtain j where "j < k" "used ! j" "p ! j = p ! k" by blast
      then show False using assms(6) [of j k] k True by simp
    qed
    have "u' ! i = (if \<exists>j < Suc k. used ! j \<and> p ! j = i then u ! i + delta else u ! i)" if "i \<le> n" for i
    proof (cases "i = p ! k")
      case eq: True
      then have "u' ! i = u ! i + delta" using e(1) ih pk fresh by simp
      then show ?thesis using True eq by auto
    next
      case False
      then have "u' ! i = u0 ! i" using e(1) by simp
      moreover have "(\<exists>j < Suc k. used ! j \<and> p ! j = i) \<longleftrightarrow> (\<exists>j < k. used ! j \<and> p ! j = i)" using False by (auto simp: less_Suc_eq)
      ultimately show ?thesis using ih that by simp
    qed
    moreover have "v' ! j = (if j < Suc k \<and> used ! j then v ! j - delta else v ! j)" if "j \<le> m" for j
      using ih that True nth_list_update_eq [OF kl(1)] by (cases "j = k") (simp_all add: e(2) less_Suc_eq)
    moreover have "minv' ! j = (if j < Suc k \<and> \<not> used ! j then minv ! j - delta else minv ! j)" if "j \<le> m" for j
      using ih that True by (cases "j = k") (auto simp: e(3) less_Suc_eq)
    ultimately show ?thesis using L e by simp
  next
    case False
    then have e: "u' = u0" "v' = v0" "minv' = minv0[k := minv0 ! k - delta]" using step by (simp_all add: shift_col_def)
    have "(\<exists>j < Suc k. used ! j \<and> p ! j = i) \<longleftrightarrow> (\<exists>j < k. used ! j \<and> p ! j = i)" for i using False by (auto simp: less_Suc_eq)
    then have "u' ! i = (if \<exists>j < Suc k. used ! j \<and> p ! j = i then u ! i + delta else u ! i)" if "i \<le> n" for i
      using ih that e(1) by simp
    moreover have "v' ! j = (if j < Suc k \<and> used ! j then v ! j - delta else v ! j)" if "j \<le> m" for j
      using ih that False by (cases "j = k") (auto simp: e(2) less_Suc_eq)
    moreover have "minv' ! j = (if j < Suc k \<and> \<not> used ! j then minv ! j - delta else minv ! j)" if "j \<le> m" for j
      using ih that False nth_list_update_eq [OF kl(2)] by (cases "j = k") (simp_all add: e(3) less_Suc_eq)
    ultimately show ?thesis using L e by simp
  qed
qed

section \<open>The invariants\<close>

text \<open>The column partners: rows \<open>1\<close> to \<open>i\<close> have a column each, and no row has two.\<close>

definition partner_ok :: "nat \<Rightarrow> nat \<Rightarrow> nat list \<Rightarrow> bool" where
  "partner_ok m i p \<longleftrightarrow> length p = m + 1 \<and> (\<forall>j \<in> {1..m}. p ! j \<le> i) \<and> (\<forall>r \<in> {1..i}. \<exists>j \<in> {1..m}. p ! j = r) \<and>
     (\<forall>j \<in> {1..m}. \<forall>k \<in> {1..m}. p ! j = p ! k \<and> p ! j \<noteq> 0 \<longrightarrow> j = k)"

lemma partner_facts:
  assumes "partner_ok m i p"
  shows "length p = m + 1" "\<And>j. j \<in> {1..m} \<Longrightarrow> p ! j \<le> i" "\<And>r. r \<in> {1..i} \<Longrightarrow> \<exists>j \<in> {1..m}. p ! j = r"
    "\<And>j k. j \<in> {1..m} \<Longrightarrow> k \<in> {1..m} \<Longrightarrow> p ! j = p ! k \<Longrightarrow> p ! j \<noteq> 0 \<Longrightarrow> j = k"
  using assms unfolding partner_ok_def by blast+

text \<open>The potentials: feasible everywhere and tight on the partners; a column without partner is free.\<close>

definition price_ok :: "real list list \<Rightarrow> nat \<Rightarrow> nat \<Rightarrow> duals \<Rightarrow> bool" where
  "price_ok cost n m d \<longleftrightarrow> length (du_u d) = n + 1 \<and> length (du_v d) = m + 1 \<and> length (du_way d) = m + 1 \<and>
     (\<forall>r \<in> {1..n}. \<forall>j \<in> {1..m}. 0 \<le> reduced cost d r j) \<and>
     (\<forall>j \<in> {1..m}. du_p d ! j \<noteq> 0 \<longrightarrow> reduced cost d (du_p d ! j) j = 0) \<and>
     (\<forall>j \<in> {1..m}. du_v d ! j \<le> 0 \<and> (du_p d ! j = 0 \<longrightarrow> du_v d ! j = 0)) \<and>
     (\<forall>r \<le> n. 0 \<le> du_u d ! r)"

definition row_inv :: "real list list \<Rightarrow> nat \<Rightarrow> nat \<Rightarrow> nat \<Rightarrow> duals \<Rightarrow> bool" where
  "row_inv cost n m i d \<longleftrightarrow> partner_ok m (i - 1) (du_p d) \<and> price_ok cost n m d \<and> du_p d ! 0 = i \<and> 1 \<le> i \<and> i \<le> n"

text \<open>The tree: the columns marked so far in order, and \<open>j0\<close>, the next one.\<close>

definition tree_inv :: "real list list \<Rightarrow> nat \<Rightarrow> nat \<Rightarrow> nat \<Rightarrow> nat list \<Rightarrow> duals \<Rightarrow> real list \<Rightarrow> nat \<Rightarrow> bool" where
  "tree_inv cost n m i U d minv j0 \<longleftrightarrow> row_inv cost n m i d \<and> distinct U \<and> set U \<subseteq> {0..m} \<and> j0 \<le> m \<and> j0 \<notin> set U \<and>
     (if U = [] then j0 = 0 else 0 \<in> set U) \<and> (\<forall>j \<in> set U. du_p d ! j \<noteq> 0) \<and>
     (\<forall>j \<in> set U \<union> {j0}. j \<noteq> 0 \<longrightarrow> du_way d ! j \<in> set (takeWhile (\<lambda>k. k \<noteq> j) U) \<and> reduced cost d (du_p d ! (du_way d ! j)) j = 0) \<and>
     length minv = m + 1 \<and>
     (\<forall>j \<in> {1..m}. j \<notin> set U \<longrightarrow>
        (if U = [] then minv ! j = kInf
         else du_way d ! j \<in> set U \<and> minv ! j = reduced cost d (du_p d ! (du_way d ! j)) j \<and>
              (\<forall>k \<in> set U. minv ! j \<le> reduced cost d (du_p d ! k) j)))"

lemma partner_card:
  assumes "partner_ok m i p"
  shows "card {j \<in> {1..m}. p ! j \<noteq> 0} = i"
proof -
  note pf = partner_facts [OF assms]
  have inj: "inj_on ((!) p) {j \<in> {1..m}. p ! j \<noteq> 0}" using pf(4) unfolding inj_on_def by blast
  have "(!) p ` {j \<in> {1..m}. p ! j \<noteq> 0} = {1..i}"
  proof (rule set_eqI)
    fix r
    show "r \<in> (!) p ` {j \<in> {1..m}. p ! j \<noteq> 0} \<longleftrightarrow> r \<in> {1..i}"
    proof
      assume "r \<in> (!) p ` {j \<in> {1..m}. p ! j \<noteq> 0}"
      then obtain j where "j \<in> {1..m}" "p ! j \<noteq> 0" "r = p ! j" by blast
      then show "r \<in> {1..i}" using pf(2) [of j] by simp
    next
      assume r: "r \<in> {1..i}"
      then obtain j where "j \<in> {1..m}" "p ! j = r" using pf(3) by blast
      then show "r \<in> (!) p ` {j \<in> {1..m}. p ! j \<noteq> 0}" using r by (intro image_eqI [of _ _ j]) simp_all
    qed
  qed
  then show ?thesis using card_image [OF inj] by simp
qed

lemma free_column:
  assumes "partner_ok m i p" "i < m"
  obtains j where "j \<in> {1..m}" "p ! j = 0"
proof -
  have "\<exists>j \<in> {1..m}. p ! j = 0"
  proof (rule ccontr)
    assume "\<not> (\<exists>j \<in> {1..m}. p ! j = 0)"
    then have "{j \<in> {1..m}. p ! j \<noteq> 0} = {1..m}" by auto
    then show False using partner_card [OF assms(1)] assms(2) by simp
  qed
  then show thesis using that by blast
qed

lemma tree_partners:
  assumes "tree_inv cost n m i U d minv j0" "du_p d ! j0 \<noteq> 0" "j \<in> set (U @ [j0])"
  shows "j \<le> m" "du_p d ! j \<in> {1..i}"
proof -
  have "set U \<subseteq> {0..m}" "j0 \<le> m" using assms(1) unfolding tree_inv_def by blast+
  then show jm: "j \<le> m" using assms(3) by auto
  have "\<forall>j \<in> set U. du_p d ! j \<noteq> 0" using assms(1) unfolding tree_inv_def by blast
  then have nz: "du_p d ! j \<noteq> 0" using assms(2,3) by auto
  have "du_p d ! j \<le> i"
  proof (cases "j = 0")
    case True
    then show ?thesis using assms(1) by (simp add: tree_inv_def row_inv_def)
  next
    case False
    then have "j \<in> {1..m}" using jm by simp
    then have "du_p d ! j \<le> i - 1" using assms(1) partner_facts(2) unfolding tree_inv_def row_inv_def by blast
    then show ?thesis by simp
  qed
  then show "du_p d ! j \<in> {1..i}" using nz by simp
qed

lemma tree_inj:
  assumes "tree_inv cost n m i U d minv j0" "j \<le> m" "k \<le> m" "du_p d ! j = du_p d ! k" "du_p d ! j \<noteq> 0"
  shows "j = k"
proof -
  have r: "partner_ok m (i - 1) (du_p d)" "du_p d ! 0 = i" "1 \<le> i" using assms(1) by (simp_all add: tree_inv_def row_inv_def)
  have other: "du_p d ! l \<noteq> i" if "l \<in> {1..m}" for l
  proof -
    have "du_p d ! l \<le> i - 1" using partner_facts(2) [OF r(1) that] .
    then show ?thesis using r(3) by simp
  qed
  consider "j = 0" "k = 0" | "j = 0" "k \<in> {1..m}" | "k = 0" "j \<in> {1..m}" | "j \<in> {1..m}" "k \<in> {1..m}" using assms(2,3) by fastforce
  then show ?thesis
  proof cases
    case 4
    then show ?thesis using partner_facts(4) [OF r(1)] assms(4,5) by blast
  qed (use r(2) other assms(4) in auto)
qed

section \<open>A round keeps the invariants\<close>

definition costs_ok :: "real list list \<Rightarrow> nat \<Rightarrow> nat \<Rightarrow> bool" where
  "costs_ok cost n m \<longleftrightarrow> (\<forall>r \<in> {1..n}. \<forall>j \<in> {1..m}. 0 \<le> cost_at cost r j \<and> cost_at cost r j < kInf / 2)"

lemma takeWhile_grows: "set (takeWhile P xs) \<subseteq> set (takeWhile P (xs @ ys))"
  by (induction xs) auto

lemma takeWhile_absent: "j \<notin> set xs \<Longrightarrow> takeWhile (\<lambda>k. k \<noteq> j) xs = xs"
  by (induction xs) auto

lemma tree_facts:
  assumes "tree_inv cost n m i U d minv j0"
  shows "row_inv cost n m i d" "distinct U" "set U \<subseteq> {0..m}" "j0 \<le> m" "j0 \<notin> set U" "if U = [] then j0 = 0 else 0 \<in> set U"
    "\<And>j. j \<in> set U \<Longrightarrow> du_p d ! j \<noteq> 0"
    "\<And>j. j \<in> set U \<union> {j0} \<Longrightarrow> j \<noteq> 0 \<Longrightarrow> du_way d ! j \<in> set (takeWhile (\<lambda>k. k \<noteq> j) U) \<and> reduced cost d (du_p d ! (du_way d ! j)) j = 0"
    "length minv = m + 1"
    "\<And>j. j \<in> {1..m} \<Longrightarrow> j \<notin> set U \<Longrightarrow> (if U = [] then minv ! j = kInf
         else du_way d ! j \<in> set U \<and> minv ! j = reduced cost d (du_p d ! (du_way d ! j)) j \<and> (\<forall>k \<in> set U. minv ! j \<le> reduced cost d (du_p d ! k) j))"
  using assms unfolding tree_inv_def by blast+

lemma price_facts:
  assumes "price_ok cost n m d"
  shows "length (du_u d) = n + 1" "length (du_v d) = m + 1" "length (du_way d) = m + 1"
    "\<And>r j. r \<in> {1..n} \<Longrightarrow> j \<in> {1..m} \<Longrightarrow> 0 \<le> reduced cost d r j"
    "\<And>j. j \<in> {1..m} \<Longrightarrow> du_p d ! j \<noteq> 0 \<Longrightarrow> reduced cost d (du_p d ! j) j = 0"
    "\<And>j. j \<in> {1..m} \<Longrightarrow> du_v d ! j \<le> 0" "\<And>j. j \<in> {1..m} \<Longrightarrow> du_p d ! j = 0 \<Longrightarrow> du_v d ! j = 0"
    "\<And>r. r \<le> n \<Longrightarrow> 0 \<le> du_u d ! r"
  using assms unfolding price_ok_def by blast+

lemma costs_facts:
  assumes "costs_ok cost n m" "r \<in> {1..n}" "j \<in> {1..m}"
  shows "0 \<le> cost_at cost r j" "cost_at cost r j < kInf / 2"
  using assms unfolding costs_ok_def by blast+

text \<open>As long as some column is free, the potentials stay between minus and plus the largest cost.\<close>

lemma reduced_small:
  assumes "row_inv cost n m i d" "costs_ok cost n m" "n \<le> m" "r \<in> {1..n}" "j \<in> {1..m}"
  shows "reduced cost d r j < kInf"
proof -
  have pa: "partner_ok m (i - 1) (du_p d)" and pr: "price_ok cost n m d" and i: "1 \<le> i" "i \<le> n" using assms(1) by (simp_all add: row_inv_def)
  note pf = price_facts [OF pr]
  have "i - 1 < m" using i assms(3) by simp
  from free_column [OF pa this] obtain f where f: "f \<in> {1..m}" "du_p d ! f = 0" by blast
  have u: "du_u d ! k < kInf / 2" if "k \<in> {1..n}" for k
    using pf(4) [OF that f(1)] pf(7) [OF f] costs_facts(2) [OF assms(2) that f(1)] by (simp add: reduced_def)
  have "- kInf / 2 < du_v d ! j"
  proof (cases "du_p d ! j = 0")
    case True
    then show ?thesis using pf(7) [OF assms(5)] by (simp add: kInf_def)
  next
    case False
    have r: "du_p d ! j \<in> {1..n}" using partner_facts(2) [OF pa assms(5)] False i by simp
    show ?thesis using pf(5) [OF assms(5) False] u [OF r] costs_facts(1) [OF assms(2) r assms(5)] by (simp add: reduced_def)
  qed
  moreover have "0 \<le> du_u d ! r" using pf(8) assms(4) by simp
  ultimately show ?thesis using costs_facts(2) [OF assms(2,4,5)] unfolding reduced_def by linarith
qed

lemma aug_round_inv:
  assumes t: "tree_inv cost n m i U d minv j0" and p0: "du_p d ! j0 \<noteq> 0" and c: "costs_ok cost n m" and nm: "n \<le> m"
    and used: "\<And>j. j \<le> m \<Longrightarrow> used ! j \<longleftrightarrow> j \<in> set (U @ [j0])"
  shows "\<exists>d' minv' j1. aug_round cost m d minv used j0 = (d', minv', Some j1) \<and> tree_inv cost n m i (U @ [j0]) d' minv' j1 \<and>
    du_p d' = du_p d"
proof -
  let ?U = "U @ [j0]" and ?p = "\<lambda>j. du_p d ! j"
  note tf = tree_facts [OF t]
  have pa: "partner_ok m (i - 1) (du_p d)" and pr: "price_ok cost n m d" and i: "?p 0 = i" "1 \<le> i" "i \<le> n"
    using tf(1) by (simp_all add: row_inv_def)
  note pf = price_facts [OF pr]
  have par: "j \<le> m \<and> ?p j \<in> {1..i}" if "j \<in> set ?U" for j using tree_partners [OF t p0 that] by blast
  define i0 where "i0 = ?p j0"
  have i0: "i0 \<in> {1..n}" using par [of j0] i(3) by (simp add: i0_def)
  define s where "s = foldl (scan_col cost d used i0 j0) \<lparr>cs_minv = minv, cs_way = du_way d, cs_delta = kInf, cs_j1 = None\<rparr> [1..<m + 1]"
  note sc = scan_spec [OF tf(9) pf(3) order_refl s_def]
  have M: "cs_minv s ! j = min (minv ! j) (reduced cost d i0 j)" "cs_way s ! j = (if reduced cost d i0 j < minv ! j then j0 else du_way d ! j)"
    "cs_delta s \<le> cs_minv s ! j" if "j \<in> {1..m}" "j \<notin> set ?U" for j
  proof -
    have "1 \<le> j \<and> j \<le> m \<and> \<not> used ! j" using that used [of j] by simp
    then show "cs_minv s ! j = min (minv ! j) (reduced cost d i0 j)" "cs_way s ! j = (if reduced cost d i0 j < minv ! j then j0 else du_way d ! j)"
      "cs_delta s \<le> cs_minv s ! j" using sc by blast+
  qed
  have W: "cs_way s ! j = du_way d ! j" if "j \<in> set ?U" for j
  proof -
    have "used ! j" using used par that by blast
    then show ?thesis using sc by blast
  qed
  have near: "cs_way s ! j \<in> set ?U \<and> cs_minv s ! j = reduced cost d (?p (cs_way s ! j)) j \<and>
      (\<forall>k \<in> set ?U. cs_minv s ! j \<le> reduced cost d (?p k) j)" if j: "j \<in> {1..m}" "j \<notin> set ?U" for j
  proof (cases "U = []")
    case True
    have "minv ! j = kInf" using tf(10) [OF j(1)] True by simp
    moreover have "reduced cost d i0 j < kInf" using reduced_small [OF tf(1) c nm i0 j(1)] .
    ultimately have "cs_way s ! j = j0" "cs_minv s ! j = reduced cost d i0 j" using M(1,2) [OF j] by simp_all
    then show ?thesis using True by (simp add: i0_def)
  next
    case False
    have old: "du_way d ! j \<in> set U" "minv ! j = reduced cost d (?p (du_way d ! j)) j" "\<And>k. k \<in> set U \<Longrightarrow> minv ! j \<le> reduced cost d (?p k) j"
      using tf(10) [OF j(1)] False j(2) by auto
    show ?thesis
    proof (cases "reduced cost d i0 j < minv ! j")
      case True
      then have w: "cs_way s ! j = j0" "cs_minv s ! j = reduced cost d i0 j" using M(1,2) [OF j] by simp_all
      moreover have "reduced cost d i0 j \<le> reduced cost d (?p k) j" if "k \<in> set U" for k using old(3) [OF that] True by simp
      ultimately show ?thesis by (simp add: i0_def)
    next
      case no: False
      then have w: "cs_way s ! j = du_way d ! j" "cs_minv s ! j = minv ! j" using M(1,2) [OF j] by simp_all
      then show ?thesis using old no by (simp add: i0_def)
    qed
  qed
  have jn: "?p k \<in> {1..n}" if "k \<in> set ?U" for k using par [OF that] i(3) by simp
  have M0: "0 \<le> cs_minv s ! j" if "j \<in> {1..m}" "j \<notin> set ?U" for j
    using near [OF that] pf(4) [OF jn that(1)] by auto
  have "i - 1 < m" using i nm by simp
  from free_column [OF pa this] obtain f where f: "f \<in> {1..m}" "?p f = 0" by blast
  have fu: "f \<notin> set ?U" using par [of f] f(2) by auto
  have "cs_delta s \<le> reduced cost d i0 f" using M(1,3) [OF f(1) fu] by simp
  then have "cs_delta s < kInf" using reduced_small [OF tf(1) c nm i0 f(1)] by simp
  then obtain j1 where j1: "cs_j1 s = Some j1" "1 \<le> j1 \<and> j1 \<le> m \<and> \<not> used ! j1" "cs_delta s = cs_minv s ! j1"
    using sc by (auto split: option.splits)
  have j1': "j1 \<in> {1..m}" "j1 \<notin> set ?U" using j1(2) used by auto
  define delta where "delta = cs_delta s"
  have d0: "0 \<le> delta" using M0 [OF j1'] j1(3) by (simp add: delta_def)
  obtain u v minv' where sh: "foldl (shift_col (du_p d) used delta) (du_u d, du_v d, cs_minv s) [0..<m + 1] = (u, v, minv')" by (metis prod_cases3)
  have lm: "length (cs_minv s) = m + 1" "length (cs_way s) = m + 1" using scan_len tf(9) pf(3) by (simp_all add: s_def)
  have un: "?p j \<le> n" if "j \<le> m" "used ! j" for j using jn used [OF that(1)] that(2) by simp
  have ui: "a = b" if "a \<le> m" "b \<le> m" "used ! a" "used ! b" "?p a = ?p b" for a b
  proof -
    have "?p a \<noteq> 0" using par [of a] used [OF that(1)] that(3) by simp
    then show ?thesis by (rule tree_inj [OF t that(1,2,5)])
  qed
  note ss = shift_spec [OF pf(1,2) lm(1) order_refl un ui sh]
  have sv: "v ! j = (if j < m + 1 \<and> used ! j then du_v d ! j - delta else du_v d ! j)"
    "minv' ! j = (if j < m + 1 \<and> \<not> used ! j then cs_minv s ! j - delta else cs_minv s ! j)" if "j \<le> m" for j using ss that by blast+
  have U1: "u ! r = (if r \<in> ?p ` set ?U then du_u d ! r + delta else du_u d ! r)" if "r \<le> n" for r
  proof -
    have "(\<exists>j < m + 1. used ! j \<and> ?p j = r) \<longleftrightarrow> r \<in> ?p ` set ?U"
    proof
      assume "\<exists>j < m + 1. used ! j \<and> ?p j = r"
      then obtain j where "j < m + 1" "used ! j" "?p j = r" by blast
      then show "r \<in> ?p ` set ?U" using used [of j] by (intro image_eqI [of _ _ j]) simp_all
    next
      assume "r \<in> ?p ` set ?U"
      then obtain j where "j \<in> set ?U" "?p j = r" by blast
      then show "\<exists>j < m + 1. used ! j \<and> ?p j = r" using par [of j] used [of j] by (intro exI [of _ j]) simp
    qed
    moreover have "u ! r = (if \<exists>j < m + 1. used ! j \<and> ?p j = r then du_u d ! r + delta else du_u d ! r)" using ss that by blast
    ultimately show ?thesis by simp
  qed
  have V1: "v ! j = (if j \<in> set ?U then du_v d ! j - delta else du_v d ! j)" if "j \<le> m" for j
    using sv(1) [OF that] used [OF that] that by simp
  have N1: "minv' ! j = cs_minv s ! j - delta" if "j \<in> {1..m}" "j \<notin> set ?U" for j
    using sv(2) [of j] used [of j] that by simp
  have lens: "length u = n + 1" "length v = m + 1" "length minv' = m + 1" using ss by blast+
  define d' where "d' = d\<lparr>du_u := u, du_v := v, du_way := cs_way s\<rparr>"
  have P': "du_p d' = du_p d" by (simp add: d'_def)
  have R: "reduced cost d' r j = reduced cost d r j - (if r \<in> ?p ` set ?U then delta else 0) + (if j \<in> set ?U then delta else 0)"
    if "r \<le> n" "j \<le> m" for r j
    using U1 [OF that(1)] V1 [OF that(2)] by (simp add: reduced_def d'_def)
  have RU: "reduced cost d' (?p k) j = reduced cost d (?p k) j - delta + (if j \<in> set ?U then delta else 0)" if "k \<in> set ?U" "j \<le> m" for k j
  proof -
    have "?p k \<in> ?p ` set ?U" using that(1) by (rule imageI)
    moreover have "?p k \<le> n" using jn [OF that(1)] by simp
    ultimately show ?thesis using R [of "?p k" j] that(2) by (simp only: if_True)
  qed
  have round: "aug_round cost m d minv used j0 = (d', minv', Some j1)"
    unfolding aug_round_def Let_def i0_def [symmetric] s_def [symmetric] delta_def [symmetric] sh prod.case d'_def j1(1) by (rule refl)
  have "price_ok cost n m d'"
    unfolding price_ok_def P'
  proof (intro conjI ballI allI impI)
    show "length (du_u d') = n + 1" "length (du_v d') = m + 1" "length (du_way d') = m + 1" using lens lm by (simp_all add: d'_def)
  next
    fix r j assume rj: "r \<in> {1..n}" "j \<in> {1..m}"
    show "0 \<le> reduced cost d' r j"
    proof (cases "r \<in> ?p ` set ?U \<and> j \<notin> set ?U")
      case True
      then obtain k where k: "k \<in> set ?U" "r = ?p k" by blast
      have "delta \<le> cs_minv s ! j" using M(3) [OF rj(2)] True by (simp add: delta_def)
      then have "delta \<le> reduced cost d r j" using near [OF rj(2)] True k by auto
      then show ?thesis using R [of r j] rj True by simp
    next
      case False
      then show ?thesis using R [of r j] rj pf(4) [OF rj] d0 by auto
    qed
  next
    fix j assume j: "j \<in> {1..m}" "?p j \<noteq> 0"
    have "?p j \<in> ?p ` set ?U \<longleftrightarrow> j \<in> set ?U"
    proof
      assume "?p j \<in> ?p ` set ?U"
      then obtain k where k: "k \<in> set ?U" "?p j = ?p k" by blast
      have "j \<le> m" "k \<le> m" using j(1) par [OF k(1)] by simp_all
      then have "j = k" using k(2) j(2) by (rule tree_inj [OF t])
      then show "j \<in> set ?U" using k(1) by simp
    qed blast
    moreover have "?p j \<le> n" using partner_facts(2) [OF pa j(1)] i by simp
    ultimately show "reduced cost d' (?p j) j = 0" using R [of "?p j" j] pf(5) [OF j] j(1) by simp
  next
    fix j assume j: "j \<in> {1..m}"
    show "du_v d' ! j \<le> 0" using V1 [of j] pf(6) [OF j] d0 j by (simp add: d'_def)
    show "du_v d' ! j = 0" if "?p j = 0"
      using V1 [of j] pf(7) [OF j that] par [of j] that j by (auto simp: d'_def)
  next
    fix r assume "r \<le> n"
    then show "0 \<le> du_u d' ! r" using U1 [of r] pf(8) [of r] d0 by (simp add: d'_def)
  qed
  then have row: "row_inv cost n m i d'" using tf(1) by (simp add: row_inv_def P')
  have z: "0 \<in> set ?U" using tf(6) by (auto split: if_splits)
  have "tree_inv cost n m i ?U d' minv' j1"
    unfolding tree_inv_def P'
  proof (intro conjI ballI impI)
    show "row_inv cost n m i d'" by (rule row)
    show "distinct ?U" "set ?U \<subseteq> {0..m}" "j1 \<le> m" "j1 \<notin> set ?U" "if ?U = [] then j1 = 0 else 0 \<in> set ?U" "length minv' = m + 1"
      using tf(2-5) j1' z lens(3) by auto
    show "?p j \<noteq> 0" if "j \<in> set ?U" for j using par [OF that] by simp
  next
    fix j assume j: "j \<in> set ?U \<union> {j1}" "j \<noteq> 0"
    have "du_way d' ! j \<in> set (takeWhile (\<lambda>k. k \<noteq> j) ?U) \<and> reduced cost d' (?p (du_way d' ! j)) j = 0"
    proof (cases "j \<in> set ?U")
      case True
      then have w: "du_way d ! j \<in> set (takeWhile (\<lambda>k. k \<noteq> j) U)" "reduced cost d (?p (du_way d ! j)) j = 0" using tf(8) [of j] j(2) by auto
      have wu: "du_way d ! j \<in> set ?U" using set_takeWhileD [OF w(1)] by simp
      have "du_way d' ! j = du_way d ! j" using W [OF True] by (simp add: d'_def)
      moreover have "du_way d ! j \<in> set (takeWhile (\<lambda>k. k \<noteq> j) ?U)" by (rule subsetD [OF takeWhile_grows w(1)])
      moreover have "reduced cost d' (?p (du_way d ! j)) j = 0" using RU [OF wu] w(2) True par [OF True] by simp
      ultimately show ?thesis by simp
    next
      case False
      then have eq: "j = j1" using j by simp
      note nj = near [OF j1']
      have "takeWhile (\<lambda>k. k \<noteq> j) ?U = ?U" by (rule takeWhile_absent [OF False])
      moreover have "reduced cost d' (?p (cs_way s ! j1)) j1 = 0" using RU [of "cs_way s ! j1" j1] nj j1' j1(3) by (simp add: delta_def)
      ultimately show ?thesis using nj eq by (simp add: d'_def)
    qed
    then show "du_way d' ! j \<in> set (takeWhile (\<lambda>k. k \<noteq> j) ?U)" "reduced cost d' (?p (du_way d' ! j)) j = 0" by blast+
  next
    fix j assume j: "j \<in> {1..m}" "j \<notin> set ?U"
    note nj = near [OF j]
    have "minv' ! j \<le> reduced cost d' (?p k) j" if "k \<in> set ?U" for k
    proof -
      have "cs_minv s ! j \<le> reduced cost d (?p k) j" using nj that by blast
      then show ?thesis using RU [OF that, of j] N1 [OF j] j by simp
    qed
    moreover have "minv' ! j = reduced cost d' (?p (cs_way s ! j)) j" using RU [of "cs_way s ! j" j] N1 [OF j] nj j by simp
    ultimately show "if ?U = [] then minv' ! j = kInf
      else du_way d' ! j \<in> set ?U \<and> minv' ! j = reduced cost d' (?p (du_way d' ! j)) j \<and> (\<forall>k \<in> set ?U. minv' ! j \<le> reduced cost d' (?p k) j)"
      using nj by (simp add: d'_def)
  qed
  then show ?thesis using round P' by blast
qed

section \<open>One row\<close>

definition marked :: "nat \<Rightarrow> nat list \<Rightarrow> bool list" where
  "marked m U = map (\<lambda>j. j \<in> set U) [0..<m + 1]"

lemma marked_snoc: "j0 \<le> m \<Longrightarrow> (marked m U)[j0 := True] = marked m (U @ [j0])"
  by (rule nth_equalityI) (auto simp: marked_def nth_list_update simp del: upt_Suc)

lemma marked_nth: "j \<le> m \<Longrightarrow> marked m U ! j \<longleftrightarrow> j \<in> set U"
  by (simp add: marked_def del: upt_Suc)

lemma aug_search_ok:
  assumes c: "costs_ok cost n m" and nm: "n \<le> m"
  shows "tree_inv cost n m i U d minv j0 \<Longrightarrow> du_p d ! j0 \<noteq> 0 \<Longrightarrow> m + 1 \<le> fuel + length U \<Longrightarrow>
    \<exists>U' d' minv' j. aug_search fuel cost m d minv (marked m U) j0 = Some (d', Some j) \<and> tree_inv cost n m i U' d' minv' j \<and>
      du_p d' ! j = 0 \<and> du_p d' = du_p d"
proof (induction fuel arbitrary: U d minv j0)
  case 0
  note tf = tree_facts [OF "0.prems"(1)]
  have "card (insert j0 (set U)) \<le> card {0..m}" using tf(3,4) by (intro card_mono) auto
  then show ?case using tf(2,5) "0.prems"(3) by (simp add: distinct_card)
next
  case (Suc fuel)
  note tf = tree_facts [OF Suc.prems(1)]
  have u: "marked m (U @ [j0]) ! j \<longleftrightarrow> j \<in> set (U @ [j0])" if "j \<le> m" for j by (rule marked_nth [OF that])
  obtain d' minv' j1 where r: "aug_round cost m d minv (marked m (U @ [j0])) j0 = (d', minv', Some j1)"
    "tree_inv cost n m i (U @ [j0]) d' minv' j1" "du_p d' = du_p d"
    using aug_round_inv [OF Suc.prems(1,2) c nm u] by blast
  have step: "aug_search (Suc fuel) cost m d minv (marked m U) j0 =
    (if du_p d' ! j1 \<noteq> 0 then aug_search fuel cost m d' minv' (marked m (U @ [j0])) j1 else Some (d', Some j1))"
    using r(1) by (simp add: marked_snoc [OF tf(4)] Let_def)
  show ?case
  proof (cases "du_p d' ! j1 = 0")
    case True
    then show ?thesis using step r(2,3) by auto
  next
    case False
    then obtain U' d2 minv2 j where "aug_search fuel cost m d' minv' (marked m (U @ [j0])) j1 = Some (d2, Some j)"
      "tree_inv cost n m i U' d2 minv2 j" "du_p d2 ! j = 0" "du_p d2 = du_p d'"
      using Suc.IH [OF r(2) False] Suc.prems(3) by auto
    then show ?thesis using step False r(3) by auto
  qed
qed

text \<open>Unwinding moves a hole up the tree: the other columns hold the rows up to \<open>i\<close>, each once, on tight edges.\<close>

definition hole_inv :: "real list list \<Rightarrow> nat \<Rightarrow> nat \<Rightarrow> duals \<Rightarrow> nat list \<Rightarrow> nat list \<Rightarrow> nat \<Rightarrow> bool" where
  "hole_inv cost m i d U p h \<longleftrightarrow> length p = m + 1 \<and> h \<le> m \<and>
     (\<forall>j \<le> m. j \<noteq> h \<longrightarrow> p ! j \<le> i) \<and> (\<forall>r \<in> {1..i}. \<exists>j \<le> m. j \<noteq> h \<and> p ! j = r) \<and>
     (\<forall>j \<le> m. \<forall>k \<le> m. j \<noteq> h \<and> k \<noteq> h \<and> p ! j = p ! k \<and> p ! j \<noteq> 0 \<longrightarrow> j = k) \<and>
     (\<forall>j \<in> {1..m}. j \<noteq> h \<longrightarrow> (if p ! j = 0 then du_v d ! j = 0 else reduced cost d (p ! j) j = 0)) \<and>
     (\<forall>k \<in> set (takeWhile (\<lambda>k. k \<noteq> h) U). p ! k = du_p d ! k)"

lemma hole_facts:
  assumes "hole_inv cost m i d U p h"
  shows "length p = m + 1" "h \<le> m" "\<And>j. j \<le> m \<Longrightarrow> j \<noteq> h \<Longrightarrow> p ! j \<le> i" "\<And>r. r \<in> {1..i} \<Longrightarrow> \<exists>j \<le> m. j \<noteq> h \<and> p ! j = r"
    "\<And>j k. j \<le> m \<Longrightarrow> k \<le> m \<Longrightarrow> j \<noteq> h \<Longrightarrow> k \<noteq> h \<Longrightarrow> p ! j = p ! k \<Longrightarrow> p ! j \<noteq> 0 \<Longrightarrow> j = k"
    "\<And>j. j \<in> {1..m} \<Longrightarrow> j \<noteq> h \<Longrightarrow> p ! j = 0 \<Longrightarrow> du_v d ! j = 0"
    "\<And>j. j \<in> {1..m} \<Longrightarrow> j \<noteq> h \<Longrightarrow> p ! j \<noteq> 0 \<Longrightarrow> reduced cost d (p ! j) j = 0"
    "\<And>k. k \<in> set (takeWhile (\<lambda>k. k \<noteq> h) U) \<Longrightarrow> p ! k = du_p d ! k"
  using assms unfolding hole_inv_def by (blast, blast, blast, blast, blast, metis, metis, blast)

lemma takeWhile_prefix:
  assumes "j \<in> set (takeWhile (\<lambda>k. k \<noteq> h) U)"
  shows "set (takeWhile (\<lambda>k. k \<noteq> j) U) \<subseteq> set (takeWhile (\<lambda>k. k \<noteq> h) U)"
    "length (takeWhile (\<lambda>k. k \<noteq> j) U) < length (takeWhile (\<lambda>k. k \<noteq> h) U)"
  using assms by (induction U) (auto split: if_splits)

lemma hole_step:
  assumes t: "tree_inv cost n m i U d minv j0" and h: "hole_inv cost m i d U p h" and hU: "h \<in> set U \<union> {j0}" "h \<noteq> 0"
  shows "hole_inv cost m i d U (p[h := p ! (du_way d ! h)]) (du_way d ! h) \<and> du_way d ! h \<in> set U"
proof -
  let ?w = "du_way d ! h"
  let ?p = "p[h := p ! ?w]"
  note tf = tree_facts [OF t] and hf = hole_facts [OF h]
  have w: "?w \<in> set (takeWhile (\<lambda>k. k \<noteq> h) U)" "reduced cost d (du_p d ! ?w) h = 0" using tf(8) [OF hU] by blast+
  have wU: "?w \<in> set U" "?w \<noteq> h" using set_takeWhileD [OF w(1)] by simp_all
  have wm: "?w \<le> m" using wU(1) tf(3) by auto
  have pw: "p ! ?w = du_p d ! ?w" using hf(8) [OF w(1)] .
  have nz: "p ! ?w \<noteq> 0" using pw tf(7) [OF wU(1)] by simp
  have N: "?p ! j = (if j = h then p ! ?w else p ! j)" if "j \<le> m" for j using hf(1,2) by (auto simp: nth_list_update)
  have "hole_inv cost m i d U ?p ?w"
    unfolding hole_inv_def
  proof (intro conjI allI ballI impI)
    show "length ?p = m + 1" "?w \<le> m" using hf(1) wm by simp_all
  next
    fix j assume "j \<le> m" "j \<noteq> ?w"
    then show "?p ! j \<le> i" using N [of j] hf(3) [of j] hf(3) [OF wm wU(2)] by simp
  next
    fix r assume "r \<in> {1..i}"
    then obtain j where j: "j \<le> m" "j \<noteq> h" "p ! j = r" using hf(4) by blast
    show "\<exists>j \<le> m. j \<noteq> ?w \<and> ?p ! j = r"
    proof (cases "j = ?w")
      case True
      then show ?thesis using N [OF hf(2)] j wU(2) hf(2) by (intro exI [of _ h]) simp
    next
      case False
      then show ?thesis using N [OF j(1)] j by (intro exI [of _ j]) simp
    qed
  next
    fix j k assume jk: "j \<le> m" "k \<le> m" "j \<noteq> ?w \<and> k \<noteq> ?w \<and> ?p ! j = ?p ! k \<and> ?p ! j \<noteq> 0"
    show "j = k"
    proof (cases "j = h \<or> k = h")
      case False
      then show ?thesis using N [OF jk(1)] N [OF jk(2)] hf(5) [OF jk(1,2)] jk(3) by simp
    next
      case True
      show ?thesis
      proof (rule ccontr)
        assume ne: "j \<noteq> k"
        then obtain l where "l \<le> m" "l \<noteq> h" "l \<noteq> ?w" "p ! l = p ! ?w" using True jk N [OF jk(1)] N [OF jk(2)] by (cases "j = h") auto
        then show False using hf(5) [of l ?w] wm wU(2) nz by simp
      qed
    qed
  next
    fix j assume j: "j \<in> {1..m}" "j \<noteq> ?w"
    show "if ?p ! j = 0 then du_v d ! j = 0 else reduced cost d (?p ! j) j = 0"
    proof (cases "j = h")
      case True
      then show ?thesis using N [of j] j nz w(2) pw by simp
    next
      case False
      then show ?thesis using N [of j] j hf(6,7) [OF j(1) False] by simp
    qed
  next
    fix k assume k: "k \<in> set (takeWhile (\<lambda>k. k \<noteq> ?w) U)"
    then have k': "k \<in> set (takeWhile (\<lambda>k. k \<noteq> h) U)" using takeWhile_prefix(1) [OF w(1)] by blast
    then have "k \<noteq> h" "k \<le> m" using set_takeWhileD [OF k'] tf(3) by auto
    then show "?p ! k = du_p d ! k" using N [of k] hf(8) [OF k'] by simp
  qed
  then show ?thesis using wU(1) by blast
qed

lemma unwind_ok:
  assumes t: "tree_inv cost n m i U d minv j0"
  shows "hole_inv cost m i d U p h \<Longrightarrow> h \<in> set U \<union> {j0} \<Longrightarrow> h \<noteq> 0 \<Longrightarrow> length (takeWhile (\<lambda>k. k \<noteq> h) U) \<le> fuel \<Longrightarrow>
    \<exists>p'. unwind fuel (du_way d) p h = Some p' \<and> hole_inv cost m i d U p' 0"
proof (induction fuel arbitrary: p h)
  case 0
  have "du_way d ! h \<in> set (takeWhile (\<lambda>k. k \<noteq> h) U)" using tree_facts(8) [OF t "0.prems"(2,3)] by blast
  then show ?case using "0.prems"(4) by simp
next
  case (Suc fuel)
  note s = hole_step [OF t Suc.prems(1-3)]
  have "du_way d ! h \<in> set (takeWhile (\<lambda>k. k \<noteq> h) U)" using tree_facts(8) [OF t Suc.prems(2,3)] by blast
  then have "length (takeWhile (\<lambda>k. k \<noteq> du_way d ! h) U) \<le> fuel" using takeWhile_prefix(2) Suc.prems(4) by fastforce
  then show ?case using s Suc.IH [of "p[h := p ! (du_way d ! h)]" "du_way d ! h"] by (cases "du_way d ! h = 0") (auto simp: Let_def)
qed

definition rows_inv :: "real list list \<Rightarrow> nat \<Rightarrow> nat \<Rightarrow> nat \<Rightarrow> duals \<Rightarrow> bool" where
  "rows_inv cost n m i d \<longleftrightarrow> partner_ok m i (du_p d) \<and> price_ok cost n m d"

lemma assign_row_ok:
  assumes r: "rows_inv cost n m (i - 1) d" and i: "1 \<le> i" "i \<le> n" and c: "costs_ok cost n m" and nm: "n \<le> m"
  shows "\<exists>d'. assign_row cost m d i = Some (Inr d') \<and> rows_inv cost n m i d'"
proof -
  let ?d = "d\<lparr>du_p := (du_p d)[0 := i]\<rparr>"
  have pa: "partner_ok m (i - 1) (du_p d)" and pr: "price_ok cost n m d" using r by (simp_all add: rows_inv_def)
  note pf = partner_facts [OF pa]
  have same: "(du_p d)[0 := i] ! j = du_p d ! j" if "j \<in> {1..m}" for j using that by simp
  have red: "reduced cost ?d = reduced cost d" by (rule ext)+ (simp add: reduced_def)
  have "partner_ok m (i - 1) (du_p ?d)"
    unfolding partner_ok_def
  proof (intro conjI ballI impI)
    show "length (du_p ?d) = m + 1" using pf(1) by simp
  next
    fix j assume "j \<in> {1..m}"
    then show "du_p ?d ! j \<le> i - 1" using pf(2) same by simp
  next
    fix q assume "q \<in> {1..i - 1}"
    then obtain j where "j \<in> {1..m}" "du_p d ! j = q" using pf(3) by blast
    then show "\<exists>j \<in> {1..m}. du_p ?d ! j = q" using same by (intro bexI [of _ j]) simp_all
  next
    fix a b assume "a \<in> {1..m}" "b \<in> {1..m}" "du_p ?d ! a = du_p ?d ! b \<and> du_p ?d ! a \<noteq> 0"
    then show "a = b" using pf(4) [of a b] same by simp
  qed
  moreover have "price_ok cost n m ?d"
    unfolding price_ok_def red
  proof (intro conjI ballI allI impI)
    fix j assume j: "j \<in> {1..m}"
    show "reduced cost d (du_p ?d ! j) j = 0" if "du_p ?d ! j \<noteq> 0" using price_facts(5) [OF pr j] same [OF j] that by simp
    show "du_v ?d ! j = 0" if "du_p ?d ! j = 0" using price_facts(7) [OF pr j] same [OF j] that by simp
    show "du_v ?d ! j \<le> 0" using price_facts(6) [OF pr j] by simp
  qed (use price_facts [OF pr] in auto)
  moreover have z: "du_p ?d ! 0 = i" using pf(1) by simp
  ultimately have row: "row_inv cost n m i ?d" using i by (simp add: row_inv_def)
  have "tree_inv cost n m i [] ?d (replicate (m + 1) kInf) 0"
    unfolding tree_inv_def using row by (simp del: replicate_Suc)
  moreover have mk: "replicate (m + 1) False = marked m []" by (rule nth_equalityI) (simp_all add: marked_def del: upt_Suc replicate_Suc)
  ultimately obtain U d' minv' j where s: "aug_search (m + 1) cost m ?d (replicate (m + 1) kInf) (replicate (m + 1) False) 0 = Some (d', Some j)"
    "tree_inv cost n m i U d' minv' j" "du_p d' ! j = 0" "du_p d' = du_p ?d"
  proof -
    assume *: "\<And>d' j U minv'. aug_search (m + 1) cost m ?d (replicate (m + 1) kInf) (replicate (m + 1) False) 0 = Some (d', Some j) \<Longrightarrow>
      tree_inv cost n m i U d' minv' j \<Longrightarrow> du_p d' ! j = 0 \<Longrightarrow> du_p d' = du_p ?d \<Longrightarrow> thesis"
    assume tr: "tree_inv cost n m i [] ?d (replicate (m + 1) kInf) 0"
    have "du_p ?d ! 0 \<noteq> 0" using z i by simp
    moreover have "m + 1 \<le> m + 1 + length []" by simp
    ultimately show thesis using aug_search_ok [OF c nm tr] * unfolding mk by blast
  qed
  note tf = tree_facts [OF s(2)]
  have row': "row_inv cost n m i d'" by (rule tf(1))
  then have pa': "partner_ok m (i - 1) (du_p d')" and pr': "price_ok cost n m d'" and z': "du_p d' ! 0 = i" by (simp_all add: row_inv_def)
  note pf' = partner_facts [OF pa'] and qf = price_facts [OF pr']
  have j0: "j \<noteq> 0"
  proof
    assume "j = 0"
    then show False using s(3) z' i(1) by simp
  qed
  have "hole_inv cost m i d' U (du_p d') j"
    unfolding hole_inv_def
  proof (intro conjI allI ballI impI)
    show "length (du_p d') = m + 1" "j \<le> m" using pf'(1) tf(4) by simp_all
  next
    fix k assume k: "k \<le> m" "k \<noteq> j"
    show "du_p d' ! k \<le> i"
    proof (cases "k = 0")
      case False
      then have "du_p d' ! k \<le> i - 1" using pf'(2) [of k] k by simp
      then show ?thesis by simp
    qed (simp add: z')
  next
    fix q assume q: "q \<in> {1..i}"
    show "\<exists>k \<le> m. k \<noteq> j \<and> du_p d' ! k = q"
    proof (cases "q = i")
      case True
      then show ?thesis using z' j0 by (intro exI [of _ 0]) simp
    next
      case False
      then have "q \<in> {1..i - 1}" using q by auto
      then obtain k where "k \<in> {1..m}" "du_p d' ! k = q" using pf'(3) by blast
      then show ?thesis using s(3) q by (intro exI [of _ k]) auto
    qed
  next
    fix a b assume "a \<le> m" "b \<le> m" "a \<noteq> j \<and> b \<noteq> j \<and> du_p d' ! a = du_p d' ! b \<and> du_p d' ! a \<noteq> 0"
    then show "a = b" using tree_inj [OF s(2)] by blast
  next
    fix k assume k: "k \<in> {1..m}" "k \<noteq> j"
    show "if du_p d' ! k = 0 then du_v d' ! k = 0 else reduced cost d' (du_p d' ! k) k = 0"
      using qf(5,7) [OF k(1)] by simp
  qed simp
  moreover have "length (takeWhile (\<lambda>k. k \<noteq> j) U) \<le> m + 1"
  proof -
    have "length U = card (set U)" using tf(2) by (simp add: distinct_card)
    also have "\<dots> \<le> card {0..m}" using tf(3) by (intro card_mono) simp_all
    finally show ?thesis using length_takeWhile_le [of "\<lambda>k. k \<noteq> j" U] by simp
  qed
  ultimately obtain p' where u: "unwind (m + 1) (du_way d') (du_p d') j = Some p'" "hole_inv cost m i d' U p' 0"
    using unwind_ok [OF s(2), of "du_p d'" j "m + 1"] j0 by auto
  note hf = hole_facts [OF u(2)]
  let ?r = "d'\<lparr>du_p := p'\<rparr>"
  have red': "reduced cost ?r = reduced cost d'" by (rule ext)+ (simp add: reduced_def)
  have "partner_ok m i p'"
    unfolding partner_ok_def
  proof (intro conjI ballI impI)
    show "length p' = m + 1" using hf(1) .
  next
    fix k assume "k \<in> {1..m}"
    then show "p' ! k \<le> i" using hf(3) [of k] by simp
  next
    fix q assume "q \<in> {1..i}"
    then obtain k where "k \<le> m" "k \<noteq> 0" "p' ! k = q" using hf(4) by blast
    then show "\<exists>k \<in> {1..m}. p' ! k = q" by (intro bexI [of _ k]) simp_all
  next
    fix a b assume "a \<in> {1..m}" "b \<in> {1..m}" "p' ! a = p' ! b \<and> p' ! a \<noteq> 0"
    then show "a = b" using hf(5) [of a b] by simp
  qed
  moreover have "price_ok cost n m ?r"
    unfolding price_ok_def red'
  proof (intro conjI ballI allI impI)
    fix k assume k: "k \<in> {1..m}"
    show "du_v ?r ! k \<le> 0" using qf(6) [OF k] by simp
    show "du_v ?r ! k = 0" if "du_p ?r ! k = 0" using hf(6) [OF k] k that by simp
    show "reduced cost d' (du_p ?r ! k) k = 0" if "du_p ?r ! k \<noteq> 0" using hf(7) [OF k] k that by simp
  qed (use qf in auto)
  ultimately have "rows_inv cost n m i ?r" by (simp add: rows_inv_def)
  moreover have "assign_row cost m d i = Some (Inr ?r)" 
    unfolding assign_row_def Let_def s(1) option.case prod.case u(1) by simp
  ultimately show ?thesis by blast
qed

section \<open>All rows\<close>

lemma assign_rows_ok:
  assumes c: "costs_ok cost n m" and nm: "n \<le> m"
  shows "rows_inv cost n m k d \<Longrightarrow> k \<le> n \<Longrightarrow> \<exists>d'. assign_rows cost m d [k + 1..<n + 1] = Some (Inr d') \<and> rows_inv cost n m n d'"
proof (induction "n - k" arbitrary: k d)
  case 0
  then show ?case by (intro exI [of _ d]) simp
next
  case (Suc x)
  have k: "1 \<le> k + 1" "k + 1 \<le> n" using Suc.hyps(2) by simp_all
  obtain d1 where d1: "assign_row cost m d (k + 1) = Some (Inr d1)" "rows_inv cost n m (k + 1) d1"
    using assign_row_ok [OF _ k c nm] Suc.prems(1) by (metis diff_add_inverse2)
  obtain d' where "assign_rows cost m d1 [k + 1 + 1..<n + 1] = Some (Inr d')" "rows_inv cost n m n d'"
  proof -
    assume *: "\<And>d'. assign_rows cost m d1 [k + 1 + 1..<n + 1] = Some (Inr d') \<Longrightarrow> rows_inv cost n m n d' \<Longrightarrow> thesis"
    have "x = n - (k + 1)" using Suc.hyps(2) by simp
    from Suc.hyps(1) [OF this d1(2) k(2)] show thesis using * by blast
  qed
  moreover have "[k + 1..<n + 1] = (k + 1) # [k + 1 + 1..<n + 1]" using k(2) by (simp add: upt_conv_Cons)
  ultimately show ?case using d1(1) by (simp del: upt_Suc)
qed

text \<open>Reading the rows off the columns.\<close>

lemma read_rows_spec:
  assumes "length p = m + 1" "\<And>j. j \<in> {1..m} \<Longrightarrow> p ! j \<le> n"
    "\<And>j k. j \<in> {1..m} \<Longrightarrow> k \<in> {1..m} \<Longrightarrow> p ! j = p ! k \<Longrightarrow> p ! j \<noteq> 0 \<Longrightarrow> j = k" "l \<le> m"
  shows "length (read_rows n p l) = n \<and>
    (\<forall>j \<in> {1..l}. p ! j \<noteq> 0 \<longrightarrow> read_rows n p l ! (p ! j - 1) = int j - 1)"
  using assms(4)
proof (induction l)
  case 0
  then show ?case by (simp add: read_rows_def)
next
  case (Suc l)
  let ?r = "read_rows n p l"
  have step: "read_rows n p (Suc l) = (if p ! Suc l \<noteq> 0 then ?r[p ! Suc l - 1 := int (Suc l) - 1] else ?r)" by (simp add: read_rows_def)
  have ih: "length ?r = n" "\<And>j. j \<in> {1..l} \<Longrightarrow> p ! j \<noteq> 0 \<Longrightarrow> ?r ! (p ! j - 1) = int j - 1" using Suc by simp_all
  have le: "p ! Suc l \<le> n" using assms(2) [of "Suc l"] Suc.prems by simp
  have "read_rows n p (Suc l) ! (p ! j - 1) = int j - 1" if j: "j \<in> {1..Suc l}" "p ! j \<noteq> 0" for j
  proof (cases "j = Suc l")
    case True
    then show ?thesis using j(2) le ih(1) by (simp add: step)
  next
    case False
    then have jl: "j \<in> {1..l}" using j(1) by auto
    have "p ! j \<noteq> p ! Suc l"
    proof
      assume "p ! j = p ! Suc l"
      moreover have "j \<in> {1..m}" "Suc l \<in> {1..m}" using Suc.prems jl by simp_all
      ultimately have "j = Suc l" using j(2) assms(3) by blast
      then show False using False by simp
    qed
    then have "p ! j - 1 \<noteq> p ! Suc l - 1 \<or> p ! Suc l = 0" using j(2) by arith
    then show ?thesis using ih(2) [OF jl j(2)] by (auto simp: step)
  qed
  then show ?case using ih(1) by (simp add: step)
qed

text \<open>An assignment: every row gets a column of its own.\<close>

definition assigns :: "nat \<Rightarrow> nat \<Rightarrow> (nat \<Rightarrow> nat) \<Rightarrow> bool" where
  "assigns n m f \<longleftrightarrow> f ` {..<n} \<subseteq> {..<m} \<and> inj_on f {..<n}"

definition assign_cost :: "real list list \<Rightarrow> (nat \<Rightarrow> nat) \<Rightarrow> real" where
  "assign_cost cost f = (\<Sum>i < length cost. cost ! i ! f i)"

lemma row_total_sum:
  assumes "\<And>i. i < length cost \<Longrightarrow> 0 \<le> r ! i"
  shows "row_total cost r = assign_cost cost (\<lambda>i. nat (r ! i))"
proof -
  have "foldl (\<lambda>total i. if r ! i \<ge> 0 then total + cost ! i ! nat (r ! i) else total) a [0..<k] = a + (\<Sum>i < k. cost ! i ! nat (r ! i))"
    if "k \<le> length cost" for k a using that
  proof (induction k)
    case (Suc k)
    then show ?case using assms [of k] by simp
  qed simp
  from this [of "length cost" 0] show ?thesis by (simp add: row_total_def assign_cost_def)
qed

text \<open>The duals bound every assignment from below, and the partners attain the bound.\<close>

lemma dual_bound:
  assumes pr: "price_ok cost n m d" and n: "n = length cost" and f: "assigns n m f"
  shows "(\<Sum>i < n. du_u d ! Suc i) + (\<Sum>j < m. du_v d ! Suc j) \<le> assign_cost cost f"
proof -
  note pf = price_facts [OF pr]
  have sub: "f ` {..<n} \<subseteq> {..<m}" and inj: "inj_on f {..<n}" using f by (simp_all add: assigns_def)
  have each: "du_u d ! Suc i + du_v d ! Suc (f i) \<le> cost ! i ! f i" if "i < n" for i
  proof -
    have "f i < m" using sub that by auto
    then have "0 \<le> reduced cost d (Suc i) (Suc (f i))" using pf(4) [of "Suc i" "Suc (f i)"] that by simp
    then show ?thesis by (simp add: reduced_def cost_at_def)
  qed
  have "(\<Sum>j < m. du_v d ! Suc j) \<le> (\<Sum>j \<in> f ` {..<n}. du_v d ! Suc j)"
  proof -
    have "(\<Sum>j \<in> {..<m} - f ` {..<n}. du_v d ! Suc j) \<le> 0" using pf(6) by (intro sum_nonpos) simp
    moreover have "(\<Sum>j < m. du_v d ! Suc j) = (\<Sum>j \<in> {..<m} - f ` {..<n}. du_v d ! Suc j) + (\<Sum>j \<in> f ` {..<n}. du_v d ! Suc j)"
      using sub by (intro sum.subset_diff) simp_all
    ultimately show ?thesis by simp
  qed
  also have "(\<Sum>j \<in> f ` {..<n}. du_v d ! Suc j) = (\<Sum>i < n. du_v d ! Suc (f i))" using inj by (simp add: sum.reindex)
  finally have "(\<Sum>i < n. du_u d ! Suc i) + (\<Sum>j < m. du_v d ! Suc j) \<le> (\<Sum>i < n. du_u d ! Suc i + du_v d ! Suc (f i))" by (simp add: sum.distrib)
  also have "\<dots> \<le> (\<Sum>i < n. cost ! i ! f i)" using each by (intro sum_mono) simp
  finally show ?thesis by (simp add: assign_cost_def n)
qed

lemma dual_attained:
  assumes r: "rows_inv cost n m n d" and n: "n = length cost" and f: "\<And>i. i < n \<Longrightarrow> f i < m \<and> du_p d ! Suc (f i) = Suc i"
  shows "assigns n m f \<and> assign_cost cost f = (\<Sum>i < n. du_u d ! Suc i) + (\<Sum>j < m. du_v d ! Suc j)"
proof -
  have pa: "partner_ok m n (du_p d)" and pr: "price_ok cost n m d" using r by (simp_all add: rows_inv_def)
  note pf = price_facts [OF pr] and qf = partner_facts [OF pa]
  have inj: "inj_on f {..<n}"
  proof (rule inj_onI)
    fix a b assume ab: "a \<in> {..<n}" "b \<in> {..<n}" "f a = f b"
    have "du_p d ! Suc (f a) = Suc a" "du_p d ! Suc (f b) = Suc b" using f ab(1,2) by blast+
    then have "Suc a = Suc b" unfolding ab(3) by (rule trans [OF sym])
    then show "a = b" by simp
  qed
  have sub: "f ` {..<n} \<subseteq> {..<m}" using f by auto
  have each: "cost ! i ! f i = du_u d ! Suc i + du_v d ! Suc (f i)" if "i < n" for i
  proof -
    have "reduced cost d (Suc i) (Suc (f i)) = 0" using pf(5) [of "Suc (f i)"] f [OF that] by simp
    then show ?thesis by (simp add: reduced_def cost_at_def)
  qed
  have rest: "du_v d ! Suc j = 0" if "j \<in> {..<m} - f ` {..<n}" for j
  proof -
    have "du_p d ! Suc j = 0"
    proof (rule ccontr)
      assume nz: "du_p d ! Suc j \<noteq> 0"
      define i where "i = du_p d ! Suc j - 1"
      have "du_p d ! Suc j \<le> n" using qf(2) [of "Suc j"] that by simp
      then have i: "i < n" "du_p d ! Suc j = Suc i" using nz by (simp_all add: i_def)
      have "Suc j \<in> {1..m}" "Suc (f i) \<in> {1..m}" "du_p d ! Suc j = du_p d ! Suc (f i)" using f [OF i(1)] i(2) that by simp_all
      then have "Suc j = Suc (f i)" using nz by (rule qf(4))
      then show False using that i(1) by auto
    qed
    then show ?thesis using pf(7) [of "Suc j"] that by simp
  qed
  have "(\<Sum>j < m. du_v d ! Suc j) = (\<Sum>j \<in> {..<m} - f ` {..<n}. du_v d ! Suc j) + (\<Sum>j \<in> f ` {..<n}. du_v d ! Suc j)"
    using sub by (intro sum.subset_diff) simp_all
  also have "(\<Sum>j \<in> {..<m} - f ` {..<n}. du_v d ! Suc j) = 0" using rest by (intro sum.neutral) blast
  also have "(\<Sum>j \<in> f ` {..<n}. du_v d ! Suc j) = (\<Sum>i < n. du_v d ! Suc (f i))" using inj by (simp add: sum.reindex)
  finally have "(\<Sum>j < m. du_v d ! Suc j) = (\<Sum>i < n. du_v d ! Suc (f i))" by simp
  moreover have "assign_cost cost f = (\<Sum>i < n. du_u d ! Suc i + du_v d ! Suc (f i))" using each by (simp add: assign_cost_def n)
  ultimately show ?thesis using inj sub by (simp add: assigns_def sum.distrib)
qed

definition costs_valid :: "real list list \<Rightarrow> nat \<Rightarrow> bool" where
  "costs_valid cost m \<longleftrightarrow> cost \<noteq> [] \<and> length cost \<le> m \<and> (\<forall>row \<in> set cost. length row = m \<and> (\<forall>c \<in> set row. 0 \<le> c \<and> c < kInf / 2))"

lemma costs_valid_ok: "costs_valid cost m \<Longrightarrow> costs_ok cost (length cost) m"
proof -
  assume v: "costs_valid cost m"
  have "0 \<le> cost_at cost r j \<and> cost_at cost r j < kInf / 2" if "r \<in> {1..length cost}" "j \<in> {1..m}" for r j
  proof -
    have row: "cost ! (r - 1) \<in> set cost" using that(1) by (intro nth_mem) auto
    then have "length (cost ! (r - 1)) = m" using v by (simp add: costs_valid_def)
    then have "cost ! (r - 1) ! (j - 1) \<in> set (cost ! (r - 1))" using that(2) by (intro nth_mem) auto
    then show ?thesis using v row unfolding costs_valid_def cost_at_def by blast
  qed
  then show ?thesis by (simp add: costs_ok_def)
qed

lemma hungarian_least:
  assumes "costs_valid cost m" "assigns (length cost) m g"
  shows "\<exists>a. hungarian cost = Some a \<and> asg_status a = AsgOk \<and> length (row_to_col a) = length cost \<and> list_all (\<lambda>c. 0 \<le> c) (row_to_col a) \<and>
    assigns (length cost) m (\<lambda>i. nat (row_to_col a ! i)) \<and> total_cost a = assign_cost cost (\<lambda>i. nat (row_to_col a ! i)) \<and>
    total_cost a \<le> assign_cost cost g"
proof -
  let ?n = "length cost"
  let ?d = "\<lparr>du_u = replicate (?n + 1) 0, du_v = replicate (m + 1) 0, du_p = replicate (m + 1) 0, du_way = replicate (m + 1) 0\<rparr>"
  have v: "cost \<noteq> []" "?n \<le> m" "\<And>row. row \<in> set cost \<Longrightarrow> length row = m" using assms(1) by (simp_all add: costs_valid_def)
  have c: "costs_ok cost ?n m" by (rule costs_valid_ok [OF assms(1)])
  have z: "replicate (m + 1) (0::nat) ! j = 0" "replicate (m + 1) (0::real) ! j = 0" if "j \<le> m" for j using that by (simp_all del: replicate_Suc)
  have zu: "replicate (?n + 1) (0::real) ! j = 0" if "j \<le> ?n" for j using that by (simp del: replicate_Suc)
  have red: "reduced cost ?d r j = cost_at cost r j" if "r \<le> ?n" "j \<le> m" for r j using z zu that by (simp add: reduced_def)
  have "partner_ok m 0 (du_p ?d)" using z unfolding partner_ok_def by (simp del: replicate_Suc)
  moreover have "price_ok cost ?n m ?d"
    using z zu red costs_facts [OF c] unfolding price_ok_def by (simp del: replicate_Suc)
  ultimately have "rows_inv cost ?n m 0 ?d" by (simp add: rows_inv_def)
  from assign_rows_ok [OF c v(2) this] obtain d where d: "assign_rows cost m ?d [1..<?n + 1] = Some (Inr d)" "rows_inv cost ?n m ?n d" by auto
  have pa: "partner_ok m ?n (du_p d)" and pr: "price_ok cost ?n m d" using d(2) by (simp_all add: rows_inv_def)
  note qf = partner_facts [OF pa]
  define r where "r = read_rows ?n (du_p d) m"
  have rs: "length r = ?n" "\<And>j. j \<in> {1..m} \<Longrightarrow> du_p d ! j \<noteq> 0 \<Longrightarrow> r ! (du_p d ! j - 1) = int j - 1"
    using read_rows_spec [OF qf(1,2,4) order_refl] unfolding r_def by blast+
  have row: "0 \<le> r ! i \<and> nat (r ! i) < m \<and> du_p d ! Suc (nat (r ! i)) = Suc i" if "i < ?n" for i
  proof -
    obtain j where j: "j \<in> {1..m}" "du_p d ! j = Suc i" using qf(3) [of "Suc i"] \<open>i < ?n\<close> by auto
    then have "r ! i = int j - 1" using rs(2) [of j] by simp
    then show ?thesis using j by (auto simp: nat_diff_distrib)
  qed
  have "hd cost \<in> set cost" using v(1) by simp
  then have "length (hd cost) = m" using v(3) by blast
  moreover have "m \<noteq> 0" using v(1,2) by (cases cost) auto
  ultimately have m: "length (hd cost) = m" "m \<noteq> 0" by simp_all
  have h: "hungarian cost = Some \<lparr>row_to_col = r, total_cost = row_total cost r, asg_status = AsgOk\<rparr>"
    unfolding hungarian_def Let_def m(1) d(1) option.case sum.case r_def using v m(2) by auto
  have tot: "row_total cost r = assign_cost cost (\<lambda>i. nat (r ! i))" using row by (intro row_total_sum) blast
  have att: "assigns ?n m (\<lambda>i. nat (r ! i)) \<and> assign_cost cost (\<lambda>i. nat (r ! i)) = (\<Sum>i < ?n. du_u d ! Suc i) + (\<Sum>j < m. du_v d ! Suc j)"
    using row by (intro dual_attained [OF d(2) refl]) blast
  moreover have "list_all (\<lambda>c. 0 \<le> c) r" using row rs(1) by (simp add: list_all_length)
  ultimately show ?thesis using h tot rs(1) dual_bound [OF pr refl assms(2)] by simp
qed

section \<open>Properties\<close>

text \<open>C11: The Hungarian method is optimal: on every rectangular matrix with no more rows than columns and costs between zero and an eighth
  of the largest double, it returns with status ok, gives every row a column of its own, and the total it reports is the cost of
  that assignment and is at most the cost of any other.\<close>

theorem hungarian_optimal:
  assumes "costs_valid cost m" "assigns (length cost) m g"
  shows "\<exists>a. hungarian cost = Some a \<and> asg_status a = AsgOk \<and> length (row_to_col a) = length cost \<and> list_all (\<lambda>c. 0 \<le> c) (row_to_col a) \<and>
    assigns (length cost) m (\<lambda>i. nat (row_to_col a ! i)) \<and> total_cost a = assign_cost cost (\<lambda>i. nat (row_to_col a ! i)) \<and>
    total_cost a \<le> assign_cost cost g"
  using assms by (rule hungarian_least)

lemma hungarian_optimal_witness:
  "\<exists>a. hungarian [[4, 1, 3], [2, 0, 5]] = Some a \<and> total_cost a \<le> 3"
proof -
  let ?c = "[[4, 1, 3], [2, 0, 5]] :: real list list"
  have "costs_valid ?c 3" by (simp add: costs_valid_def kInf_def)
  moreover have "assigns (length ?c) 3 (\<lambda>i. 1 - i)" by (auto simp: assigns_def inj_on_def)
  moreover have "assign_cost ?c (\<lambda>i. 1 - i) = 3" by (simp add: assign_cost_def numeral_2_eq_2)
  ultimately show ?thesis using hungarian_optimal [of ?c 3 "\<lambda>i. 1 - i"] by metis
qed

end
