(* ===== verification/Assigner.thy ===== *)
theory Assigner
  imports Dijkstra Hungarian
begin

text \<open>
  Dispatch, \<^verbatim>\<open>include/safetrail/dispatch/responder.hpp\<close>, \<^verbatim>\<open>include/safetrail/dispatch/assigner.hpp\<close> and
  \<^verbatim>\<open>src/dispatch/assigner.cpp\<close>: responders and incidents snapped to the road network, the matrix of road distances from
  \<open>Dijkstra\<close>, the greedy plan and the optimal plan by \<open>Hungarian\<close>. \<open>None\<close> would be a search that used up its fuel.
\<close>

record responder =
  rs_id :: nat
  rs_pos :: lat_lon
  rs_node :: node_id
  rs_available :: bool
  rs_name :: string

record incident =
  in_id :: nat
  in_pos :: lat_lon
  in_node :: node_id

record dispatch =
  dp_responder :: nat
  dp_incident :: nat
  travel_m :: real

record plan =
  dispatches :: "dispatch list"
  total_m :: real
  makespan_m :: real
  unassigned :: nat

definition kUnreachableCost :: real where
  "kUnreachableCost = 1000000000"

section \<open>The pool\<close>

definition pool_add :: "responder \<Rightarrow> responder list \<Rightarrow> nat \<times> responder list" where
  "pool_add r pool =
     (let r = (if rs_id r = kNoId then r\<lparr>rs_id := uint32_of (length pool)\<rparr> else r) in (rs_id r, pool @ [r]))"

fun snap_all :: "responder list \<Rightarrow> road_graph \<Rightarrow> responder list \<times> road_graph" where
  "snap_all [] g = ([], g)"
| "snap_all (r # rs) g =
     (let (n, g) = nearest_node (rs_pos r) g; (rs, g) = snap_all rs g in (r\<lparr>rs_node := n\<rparr> # rs, g))"

definition available_indices :: "responder list \<Rightarrow> nat list" where
  "available_indices pool = filter (\<lambda>i. rs_available (pool ! i)) [0..<length pool]"

fun snap_incidents :: "incident list \<Rightarrow> road_graph \<Rightarrow> incident list \<times> road_graph" where
  "snap_incidents [] g = ([], g)"
| "snap_incidents (i # is) g =
     (let (n, g) = nearest_node (in_pos i) g; (is, g) = snap_incidents is g in (i\<lparr>in_node := n\<rparr> # is, g))"

section \<open>The matrix\<close>

definition cost_row :: "road_graph \<Rightarrow> incident list \<Rightarrow> responder \<Rightarrow> real list option" where
  "cost_row g incidents r =
     (if \<not> rg_valid g (rs_node r) then Some (replicate (length incidents) kUnreachableCost)
      else map_option (\<lambda>sp. map (\<lambda>i. if rg_valid g (in_node i) \<and> sp_reachable sp (in_node i)
                                      then sp_dist sp ! nat (in_node i) else kUnreachableCost) incidents)
             (dijkstra g (rs_node r)))"

definition cost_matrix :: "responder list \<Rightarrow> incident list \<Rightarrow> road_graph \<Rightarrow> real list list option" where
  "cost_matrix pool incidents g = those (map (cost_row g incidents) pool)"

definition finalize :: "dispatch list \<Rightarrow> nat \<Rightarrow> plan" where
  "finalize ds incident_count =
     \<lparr>dispatches = ds, total_m = foldl (\<lambda>t d. t + travel_m d) 0 ds, makespan_m = foldl (\<lambda>m d. max m (travel_m d)) 0 ds,
      unassigned = incident_count - length ds\<rparr>"

section \<open>Greedy\<close>

text \<open>The best pair so far: its cost, the position among the available responders and the incident.\<close>

definition pick_step :: "real list list \<Rightarrow> nat list \<Rightarrow> bool list \<Rightarrow> bool list \<Rightarrow> (real \<times> nat \<times> nat) option \<Rightarrow> nat \<times> nat \<Rightarrow> (real \<times> nat \<times> nat) option" where
  "pick_step cost avail resp_used inc_used best ai =
     (let (a, i) = ai in
      if resp_used ! a \<or> inc_used ! i then best
      else (let c = cost ! (avail ! a) ! i
            in if c < (case best of None \<Rightarrow> kUnreachableCost | Some (b, _) \<Rightarrow> b) then Some (c, a, i) else best))"

definition pick_pair :: "real list list \<Rightarrow> nat list \<Rightarrow> nat \<Rightarrow> bool list \<Rightarrow> bool list \<Rightarrow> (real \<times> nat \<times> nat) option" where
  "pick_pair cost avail n_inc resp_used inc_used =
     foldl (pick_step cost avail resp_used inc_used) None
       (concat (map (\<lambda>a. map (\<lambda>i. (a, i)) [0..<n_inc]) [0..<length avail]))"

text \<open>The pairs committed, in order; every round uses up an incident.\<close>

fun greedy_pairs :: "nat \<Rightarrow> real list list \<Rightarrow> nat list \<Rightarrow> nat \<Rightarrow> bool list \<Rightarrow> bool list \<Rightarrow> (nat \<times> nat) list option" where
  "greedy_pairs fuel cost avail n_inc resp_used inc_used =
     (case pick_pair cost avail n_inc resp_used inc_used of
        None \<Rightarrow> Some []
      | Some (c, a, i) \<Rightarrow>
          (case fuel of 0 \<Rightarrow> None
           | Suc fuel' \<Rightarrow> map_option (Cons (a, i)) (greedy_pairs fuel' cost avail n_inc (resp_used[a := True]) (inc_used[i := True]))))"

declare greedy_pairs.simps [simp del]

definition dispatch_of :: "responder list \<Rightarrow> incident list \<Rightarrow> real list list \<Rightarrow> nat list \<Rightarrow> nat \<times> nat \<Rightarrow> dispatch" where
  "dispatch_of pool incidents cost avail ai =
     \<lparr>dp_responder = rs_id (pool ! (avail ! fst ai)), dp_incident = in_id (incidents ! snd ai), travel_m = cost ! (avail ! fst ai) ! snd ai\<rparr>"

definition assign_greedy :: "responder list \<Rightarrow> incident list \<Rightarrow> road_graph \<Rightarrow> plan option" where
  "assign_greedy pool incidents g =
     (case cost_matrix pool incidents g of
        None \<Rightarrow> None
      | Some cost \<Rightarrow>
          (let avail = available_indices pool in
           map_option (\<lambda>ps. finalize (map (dispatch_of pool incidents cost avail) ps) (length incidents))
             (greedy_pairs (length incidents) cost avail (length incidents)
               (replicate (length avail) False) (replicate (length incidents) False))))"

section \<open>Optimal\<close>

text \<open>The pairs the Hungarian method matches, the smaller side as the rows.\<close>

definition matched_pairs :: "real list list \<Rightarrow> nat \<Rightarrow> nat \<Rightarrow> (nat \<times> nat) list option" where
  "matched_pairs C n_resp n_inc =
     (if n_resp \<le> n_inc
      then map_option (\<lambda>asg. if asg_status asg = AsgOk
             then map (\<lambda>r. (r, nat (row_to_col asg ! r))) (filter (\<lambda>r. row_to_col asg ! r \<ge> 0) [0..<n_resp]) else [])
             (hungarian C)
      else map_option (\<lambda>asg. if asg_status asg = AsgOk
             then map (\<lambda>i. (nat (row_to_col asg ! i), i)) (filter (\<lambda>i. row_to_col asg ! i \<ge> 0) [0..<n_inc]) else [])
             (hungarian (map (\<lambda>i. map (\<lambda>r. C ! r ! i) [0..<n_resp]) [0..<n_inc])))"

definition committed :: "real list list \<Rightarrow> nat list \<Rightarrow> (nat \<times> nat) list \<Rightarrow> (nat \<times> nat) list" where
  "committed cost avail ps = filter (\<lambda>(r, i). cost ! (avail ! r) ! i < kUnreachableCost) ps"

definition assign_optimal :: "responder list \<Rightarrow> incident list \<Rightarrow> road_graph \<Rightarrow> plan option" where
  "assign_optimal pool incidents g =
     (case cost_matrix pool incidents g of
        None \<Rightarrow> None
      | Some full \<Rightarrow>
          (let avail = available_indices pool; n_inc = length incidents in
           if avail = [] \<or> n_inc = 0
           then Some \<lparr>dispatches = [], total_m = 0, makespan_m = 0, unassigned = n_inc\<rparr>
           else map_option (\<lambda>ps. finalize (map (dispatch_of pool incidents full avail) (committed full avail ps)) n_inc)
                  (matched_pairs (map (\<lambda>r. map (\<lambda>i. full ! (avail ! r) ! i) [0..<n_inc]) [0..<length avail]) (length avail) n_inc)))"

section \<open>The matrix is good for matching\<close>

lemma kUnreachableCost_bounds: "0 \<le> kUnreachableCost" "kUnreachableCost < kInf / 2" "kUnreachable < kInf / 2"
  by (simp_all add: kUnreachableCost_def kInf_def kUnreachable_def)

definition entry_ok :: "real \<Rightarrow> bool" where
  "entry_ok c \<longleftrightarrow> 0 \<le> c \<and> c < kInf / 2"

lemma cost_row_ok:
  assumes "rg_inv g"
  shows "\<exists>row. cost_row g incidents r = Some row \<and> length row = length incidents \<and> (\<forall>c \<in> set row. entry_ok c)"
proof (cases "rg_valid g (rs_node r)")
  case False
  then show ?thesis using kUnreachableCost_bounds by (simp add: cost_row_def entry_ok_def)
next
  case True
  obtain s where s: "run_search g (rs_node r) kNoNode None = Some (s_paths s, s_trace s)" "search_done g (rs_node r) kNoNode s"
    using run_search_done [OF assms True] by blast
  then have d: "dijkstra g (rs_node r) = Some (s_paths s)" by (simp add: dijkstra_def dijkstra_to_def)
  from s(2) obtain S where sh: "shape_inv g (rs_node r) S s" unfolding search_done_def loop_inv_def mid_inv_def by blast
  have "entry_ok (sp_dist (s_paths s) ! nat v)" if "rg_valid g v" "sp_reachable (s_paths s) v" for v
    using sh that kUnreachableCost_bounds(3) by (auto simp: shape_inv_def entry_ok_def sp_reachable_def)
  then show ?thesis using True d kUnreachableCost_bounds by (auto simp: cost_row_def entry_ok_def)
qed

lemma cost_matrix_ok:
  assumes "rg_inv g"
  shows "\<exists>full. cost_matrix pool incidents g = Some full \<and> length full = length pool \<and>
    (\<forall>row \<in> set full. length row = length incidents \<and> (\<forall>c \<in> set row. entry_ok c))"
proof (induction pool)
  case (Cons r pool)
  then obtain full where "cost_matrix pool incidents g = Some full" "length full = length pool"
    "\<forall>row \<in> set full. length row = length incidents \<and> (\<forall>c \<in> set row. entry_ok c)" by blast
  then show ?case using cost_row_ok [OF assms, of incidents r] by (auto simp: cost_matrix_def)
qed (simp add: cost_matrix_def)

section \<open>Pairings\<close>

definition pairing :: "nat \<Rightarrow> nat \<Rightarrow> (nat \<times> nat) list \<Rightarrow> bool" where
  "pairing n_resp n_inc ps \<longleftrightarrow> distinct (map fst ps) \<and> distinct (map snd ps) \<and> (\<forall>(r, i) \<in> set ps. r < n_resp \<and> i < n_inc)"

definition pair_cost :: "(nat \<Rightarrow> nat \<Rightarrow> real) \<Rightarrow> (nat \<times> nat) list \<Rightarrow> real" where
  "pair_cost c ps = (\<Sum>(r, i) \<leftarrow> ps. c r i)"

text \<open>A pairing that uses up one side is an assignment of it.\<close>

lemma pairing_assigns:
  assumes d: "distinct (map fst ps)" "distinct (map snd ps)" and b: "\<And>r i. (r, i) \<in> set ps \<Longrightarrow> r < n \<and> i < m" and l: "length ps = n"
  shows "assigns n m (\<lambda>r. the (map_of ps r)) \<and> (\<Sum>r < n. c r (the (map_of ps r))) = (\<Sum>(r, i) \<leftarrow> ps. c r i)"
proof -
  have sub: "fst ` set ps \<subseteq> {..<n}" using b by auto
  have "card (fst ` set ps) = n" using distinct_card [OF d(1)] l by simp
  then have all: "fst ` set ps = {..<n}" using card_subset_eq [OF _ sub] by simp
  have look: "(r, the (map_of ps r)) \<in> set ps" if "r < n" for r
  proof -
    have "r \<in> fst ` set ps" using all that by simp
    then obtain i where "(r, i) \<in> set ps" by auto
    then show ?thesis using d(1) by (simp add: map_of_eq_Some_iff)
  qed
  have "inj_on (\<lambda>r. the (map_of ps r)) {..<n}"
  proof (rule inj_onI)
    fix a b assume ab: "a \<in> {..<n}" "b \<in> {..<n}" "the (map_of ps a) = the (map_of ps b)"
    have "inj_on snd (set ps)" using d(2) by (simp add: distinct_map)
    moreover have "(a, the (map_of ps a)) \<in> set ps" "(b, the (map_of ps b)) \<in> set ps" using look ab(1,2) by simp_all
    ultimately have "(a, the (map_of ps a)) = (b, the (map_of ps b))" using ab(3) by (metis inj_onD snd_conv)
    then show "a = b" by simp
  qed
  moreover have "(\<lambda>r. the (map_of ps r)) ` {..<n} \<subseteq> {..<m}" using look b by auto
  moreover have "(\<Sum>r < n. c r (the (map_of ps r))) = (\<Sum>(r, i) \<leftarrow> ps. c r i)"
  proof -
    have "distinct ps" using d(1) by (simp add: distinct_map)
    then have "(\<Sum>(r, i) \<leftarrow> ps. c r i) = (\<Sum>p \<in> set ps. case p of (r, i) \<Rightarrow> c r i)" by (simp add: sum_list_distinct_conv_sum_set)
    also have "\<dots> = (\<Sum>p \<in> set ps. c (fst p) (the (map_of ps (fst p))))"
      using d(1) by (intro sum.cong) (auto simp: map_of_eq_Some_iff)
    also have "\<dots> = (\<Sum>r \<in> fst ` set ps. c r (the (map_of ps r)))"
      using d(1) by (subst sum.reindex) (auto simp: distinct_map)
    finally show ?thesis using all by simp
  qed
  ultimately show ?thesis by (simp add: assigns_def)
qed

section \<open>The greedy plan\<close>

definition pick_ok :: "real list list \<Rightarrow> nat list \<Rightarrow> bool list \<Rightarrow> bool list \<Rightarrow> (nat \<times> nat) list \<Rightarrow> real \<times> nat \<times> nat \<Rightarrow> bool" where
  "pick_ok cost avail ru iu L r \<longleftrightarrow>
     (let (c, a, i) = r in (a, i) \<in> set L \<and> \<not> ru ! a \<and> \<not> iu ! i \<and> c = cost ! (avail ! a) ! i \<and> c < kUnreachableCost)"

lemma pick_fold:
  assumes "\<And>b. best = Some b \<Longrightarrow> fst b < kUnreachableCost"
  shows "case foldl (pick_step cost avail ru iu) best L of
      None \<Rightarrow> best = None \<and> (\<forall>(a, i) \<in> set L. ru ! a \<or> iu ! i \<or> kUnreachableCost \<le> cost ! (avail ! a) ! i)
    | Some r \<Rightarrow> best = Some r \<or> pick_ok cost avail ru iu L r"
  using assms
proof (induction L arbitrary: best)
  case Nil
  then show ?case by (simp split: option.split)
next
  case (Cons ai L)
  obtain a i where ai: "ai = (a, i)" by fastforce
  define c bound where "c = cost ! (avail ! a) ! i" and "bound = (case best of None \<Rightarrow> kUnreachableCost | Some b \<Rightarrow> fst b)"
  let ?b = "pick_step cost avail ru iu best ai"
  have b: "?b = (if \<not> ru ! a \<and> \<not> iu ! i \<and> c < bound then Some (c, a, i) else best)"
    by (auto simp: pick_step_def ai Let_def c_def bound_def split: option.splits)
  have le: "bound \<le> kUnreachableCost" using Cons.prems by (force simp: bound_def split: option.splits)
  have "\<And>r. ?b = Some r \<Longrightarrow> fst r < kUnreachableCost" using b le Cons.prems by (auto split: if_splits)
  note IH = Cons.IH [of ?b, OF this]
  have mono: "pick_ok cost avail ru iu L r \<Longrightarrow> pick_ok cost avail ru iu (ai # L) r" for r by (auto simp: pick_ok_def)
  have new: "?b \<noteq> best \<Longrightarrow> ?b = Some (c, a, i) \<and> pick_ok cost avail ru iu (ai # L) (c, a, i)"
    using b le by (auto simp: pick_ok_def ai c_def split: if_splits)
  show ?case
  proof (cases "foldl (pick_step cost avail ru iu) ?b L")
    case None
    with IH have n: "?b = None" "\<forall>(a, i) \<in> set L. ru ! a \<or> iu ! i \<or> kUnreachableCost \<le> cost ! (avail ! a) ! i" by simp_all
    with new have "best = None" by fastforce
    moreover then have "ru ! a \<or> iu ! i \<or> kUnreachableCost \<le> c" using b n(1) by (auto simp: bound_def split: if_splits)
    ultimately show ?thesis using None n(2) by (simp add: ai c_def)
  next
    case (Some r)
    with IH have "?b = Some r \<or> pick_ok cost avail ru iu L r" by simp
    then have "best = Some r \<or> pick_ok cost avail ru iu (ai # L) r" using new mono [of r] by (metis option.inject)
    then show ?thesis using Some by simp
  qed
qed

lemma pick_pair_Some:
  assumes "pick_pair cost avail n_inc ru iu = Some (c, a, i)"
  shows "a < length avail" "i < n_inc" "\<not> ru ! a" "\<not> iu ! i" "cost ! (avail ! a) ! i < kUnreachableCost"
  using pick_fold [of None, where L = "concat (map (\<lambda>a. map (\<lambda>i. (a, i)) [0..<n_inc]) [0..<length avail])"
      and cost = cost and avail = avail and ru = ru and iu = iu] assms
  by (auto simp: pick_pair_def pick_ok_def)

lemma pick_pair_None:
  assumes "pick_pair cost avail n_inc ru iu = None" "a < length avail" "i < n_inc"
  shows "ru ! a \<or> iu ! i \<or> kUnreachableCost \<le> cost ! (avail ! a) ! i"
  using pick_fold [of None, where L = "concat (map (\<lambda>a. map (\<lambda>i. (a, i)) [0..<n_inc]) [0..<length avail])"
      and cost = cost and avail = avail and ru = ru and iu = iu] assms
  by (fastforce simp: pick_pair_def)

definition unused :: "bool list \<Rightarrow> nat" where
  "unused bs = length (filter Not bs)"

lemma unused_set: "i < length bs \<Longrightarrow> \<not> bs ! i \<Longrightarrow> unused bs = Suc (unused (bs[i := True]))"
  by (induction bs arbitrary: i) (auto simp: unused_def nth_Cons split: nat.splits)

lemma unused_zero: "unused bs = 0 \<longleftrightarrow> (\<forall>i < length bs. bs ! i)"
  by (simp add: unused_def filter_empty_conv) (metis in_set_conv_nth)

lemma greedy_pairs_ok:
  "length ru = length avail \<Longrightarrow> length iu = n_inc \<Longrightarrow> unused iu \<le> fuel \<Longrightarrow>
   \<exists>ps. greedy_pairs fuel cost avail n_inc ru iu = Some ps \<and> pairing (length avail) n_inc ps \<and>
     (\<forall>(a, i) \<in> set ps. \<not> ru ! a \<and> \<not> iu ! i \<and> cost ! (avail ! a) ! i < kUnreachableCost) \<and>
     ((\<forall>a < length avail. \<forall>i < n_inc. cost ! (avail ! a) ! i < kUnreachableCost) \<longrightarrow> length ps = min (unused ru) (unused iu))"
proof (induction fuel arbitrary: ru iu)
  case 0
  then have "\<forall>i < n_inc. iu ! i" using unused_zero by auto
  then have "pick_pair cost avail n_inc ru iu = None"
    using pick_pair_Some(2,4) [of cost avail n_inc ru iu] by (metis option.exhaust prod_cases3)
  then show ?case using 0 by (subst greedy_pairs.simps) (simp add: pairing_def)
next
  case (Suc fuel)
  show ?case
  proof (cases "pick_pair cost avail n_inc ru iu")
    case None
    have "min (unused ru) (unused iu) = 0" if all: "\<forall>a < length avail. \<forall>i < n_inc. cost ! (avail ! a) ! i < kUnreachableCost"
    proof (rule ccontr)
      assume "min (unused ru) (unused iu) \<noteq> 0"
      then have "unused ru \<noteq> 0" "unused iu \<noteq> 0" by simp_all
      then obtain a i where "a < length avail" "\<not> ru ! a" "i < n_inc" "\<not> iu ! i" using unused_zero Suc.prems(1,2) by metis
      then show False using pick_pair_None [OF None, of a i] all by fastforce
    qed
    then show ?thesis using None by (subst greedy_pairs.simps) (simp add: pairing_def)
  next
    case (Some r)
    obtain c a i where r: "r = (c, a, i)" by (metis prod_cases3)
    note p = pick_pair_Some [OF Some [unfolded r]]
    have u: "unused ru = Suc (unused (ru[a := True]))" "unused iu = Suc (unused (iu[i := True]))"
      using unused_set p(1-4) Suc.prems(1,2) by simp_all
    obtain ps where ps: "greedy_pairs fuel cost avail n_inc (ru[a := True]) (iu[i := True]) = Some ps" "pairing (length avail) n_inc ps"
      "\<forall>(b, j) \<in> set ps. \<not> ru[a := True] ! b \<and> \<not> iu[i := True] ! j \<and> cost ! (avail ! b) ! j < kUnreachableCost"
      "(\<forall>a < length avail. \<forall>i < n_inc. cost ! (avail ! a) ! i < kUnreachableCost) \<longrightarrow> length ps = min (unused (ru[a := True])) (unused (iu[i := True]))"
      using Suc.IH [of "ru[a := True]" "iu[i := True]"] Suc.prems u(2) by auto
    have new: "b \<noteq> a \<and> j \<noteq> i \<and> \<not> ru ! b \<and> \<not> iu ! j \<and> cost ! (avail ! b) ! j < kUnreachableCost" if "(b, j) \<in> set ps" for b j
    proof -
      have "\<not> ru[a := True] ! b \<and> \<not> iu[i := True] ! j \<and> cost ! (avail ! b) ! j < kUnreachableCost" using ps(3) that by blast
      then show ?thesis using p(1,2) Suc.prems(1,2) by (metis nth_list_update_eq nth_list_update_neq)
    qed
    have "a \<notin> fst ` set ps" "i \<notin> snd ` set ps" using new by force+
    then have "pairing (length avail) n_inc ((a, i) # ps)" using ps(2) p(1,2) by (simp add: pairing_def)
    moreover have "greedy_pairs (Suc fuel) cost avail n_inc ru iu = Some ((a, i) # ps)"
      using Some r ps(1) by (subst greedy_pairs.simps) simp
    moreover have "\<forall>(b, j) \<in> set ((a, i) # ps). \<not> ru ! b \<and> \<not> iu ! j \<and> cost ! (avail ! b) ! j < kUnreachableCost" using new p(3-5) by auto
    ultimately show ?thesis using ps(4) u by simp
  qed
qed

section \<open>The optimal plan\<close>

lemma matched_rows:
  assumes v: "costs_valid C m"
  shows "\<exists>asg. hungarian C = Some asg \<and> asg_status asg = AsgOk \<and> (\<forall>i < length C. 0 \<le> row_to_col asg ! i) \<and>
    assigns (length C) m (\<lambda>i. nat (row_to_col asg ! i)) \<and>
    (\<forall>f. assigns (length C) m f \<longrightarrow> assign_cost C (\<lambda>i. nat (row_to_col asg ! i)) \<le> assign_cost C f)"
proof -
  have "assigns (length C) m id" using v by (auto simp: assigns_def costs_valid_def)
  then obtain a where a: "hungarian C = Some a" "asg_status a = AsgOk" "length (row_to_col a) = length C" "list_all (\<lambda>c. 0 \<le> c) (row_to_col a)"
    "assigns (length C) m (\<lambda>i. nat (row_to_col a ! i))" "total_cost a = assign_cost C (\<lambda>i. nat (row_to_col a ! i))"
    using hungarian_least [OF v] by blast
  have "assign_cost C (\<lambda>i. nat (row_to_col a ! i)) \<le> assign_cost C f" if "assigns (length C) m f" for f
    using hungarian_least [OF v that] a(1,6) by auto
  moreover have "\<forall>i < length C. 0 \<le> row_to_col a ! i" using a(3,4) by (simp add: list_all_length)
  ultimately show ?thesis using a by blast
qed

text \<open>The pairs read off an assignment of the rows.\<close>

lemma pairs_of_rows:
  assumes "assigns n m f"
  shows "pairing n m (map (\<lambda>r. (r, f r)) [0..<n])" "pair_cost c (map (\<lambda>r. (r, f r)) [0..<n]) = (\<Sum>r < n. c r (f r))"
    "pairing m n (map (\<lambda>r. (f r, r)) [0..<n])" "pair_cost d (map (\<lambda>r. (f r, r)) [0..<n]) = (\<Sum>r < n. d (f r) r)"
proof -
  have "distinct (map f [0..<n])" using assms by (simp add: assigns_def distinct_map atLeast0LessThan)
  moreover have "f x < m" if "x < n" for x using assms that by (auto simp: assigns_def)
  ultimately show "pairing n m (map (\<lambda>r. (r, f r)) [0..<n])" "pairing m n (map (\<lambda>r. (f r, r)) [0..<n])"
    by (auto simp: pairing_def comp_def)
  show "pair_cost c (map (\<lambda>r. (r, f r)) [0..<n]) = (\<Sum>r < n. c r (f r))"
    "pair_cost d (map (\<lambda>r. (f r, r)) [0..<n]) = (\<Sum>r < n. d (f r) r)"
    by (simp_all add: pair_cost_def comp_def interv_sum_list_conv_sum_set_nat atLeast0LessThan)
qed

lemma pairing_rows:
  assumes "pairing n m qs" "length qs = n"
  shows "\<exists>f. assigns n m f \<and> (\<Sum>r < n. c r (f r)) = pair_cost c qs"
proof -
  have "assigns n m (\<lambda>r. the (map_of qs r)) \<and> (\<Sum>r < n. c r (the (map_of qs r))) = (\<Sum>(r, i) \<leftarrow> qs. c r i)"
    using assms by (intro pairing_assigns) (auto simp: pairing_def)
  then show ?thesis by (auto simp: pair_cost_def)
qed

lemma pairing_swap: "pairing n m (map prod.swap qs) = pairing m n qs"
  by (auto simp: pairing_def comp_def)

lemma pair_cost_swap: "pair_cost (\<lambda>a b. c b a) (map prod.swap qs) = pair_cost c qs"
  by (simp add: pair_cost_def comp_def case_prod_unfold)

lemma filter_upt_all: "(\<And>i. i < n \<Longrightarrow> P i) \<Longrightarrow> filter P [0..<n] = [0..<n]"
  by (simp add: filter_id_conv)

lemma matched_pairs_least:
  assumes C: "length C = R" "\<And>row. row \<in> set C \<Longrightarrow> length row = I \<and> (\<forall>c \<in> set row. entry_ok c)" and ne: "0 < R" "0 < I"
  shows "\<exists>ps. matched_pairs C R I = Some ps \<and> pairing R I ps \<and> length ps = min R I \<and>
    (\<forall>qs. pairing R I qs \<longrightarrow> length qs = min R I \<longrightarrow> pair_cost (\<lambda>r i. C ! r ! i) ps \<le> pair_cost (\<lambda>r i. C ! r ! i) qs)"
proof (cases "R \<le> I")
  case True
  have "costs_valid C I" using C ne True by (auto simp: costs_valid_def entry_ok_def)
  from matched_rows [OF this] obtain a where a: "hungarian C = Some a" "asg_status a = AsgOk" "\<forall>i < R. 0 \<le> row_to_col a ! i"
    "assigns R I (\<lambda>i. nat (row_to_col a ! i))"
    "\<And>f. assigns R I f \<Longrightarrow> assign_cost C (\<lambda>i. nat (row_to_col a ! i)) \<le> assign_cost C f" unfolding C(1) by blast
  let ?ps = "map (\<lambda>r. (r, nat (row_to_col a ! r))) [0..<R]"
  have "filter (\<lambda>r. row_to_col a ! r \<ge> 0) [0..<R] = [0..<R]" using a(3) by (intro filter_upt_all) blast
  then have m: "matched_pairs C R I = Some ?ps" using True a(1,2) by (simp add: matched_pairs_def)
  have "pair_cost (\<lambda>r i. C ! r ! i) ?ps \<le> pair_cost (\<lambda>r i. C ! r ! i) qs" if q: "pairing R I qs" "length qs = min R I" for qs
  proof -
    obtain f where f: "assigns R I f" "(\<Sum>r < R. C ! r ! f r) = pair_cost (\<lambda>r i. C ! r ! i) qs"
      using pairing_rows [OF q(1), where c = "\<lambda>r i. C ! r ! i"] q(2) True by auto
    show ?thesis using a(5) [OF f(1)] f(2) pairs_of_rows(2) [OF a(4), of "\<lambda>r i. C ! r ! i"] by (simp add: assign_cost_def C(1))
  qed
  then show ?thesis using m pairs_of_rows(1) [OF a(4)] True by auto
next
  case False
  let ?T = "map (\<lambda>i. map (\<lambda>r. C ! r ! i) [0..<R]) [0..<I]"
  have e: "entry_ok (C ! r ! i)" if "r < R" "i < I" for r i using C that by (metis nth_mem)
  have "costs_valid ?T R" using e ne False by (fastforce simp: costs_valid_def entry_ok_def)
  from matched_rows [OF this] obtain a where a: "hungarian ?T = Some a" "asg_status a = AsgOk" "\<forall>i < I. 0 \<le> row_to_col a ! i"
    "assigns I R (\<lambda>i. nat (row_to_col a ! i))"
    "\<And>f. assigns I R f \<Longrightarrow> assign_cost ?T (\<lambda>i. nat (row_to_col a ! i)) \<le> assign_cost ?T f" by auto
  have T: "assign_cost ?T f = (\<Sum>i < I. C ! f i ! i)" if "assigns I R f" for f
    using that by (auto simp: assign_cost_def assigns_def intro!: sum.cong)
  let ?ps = "map (\<lambda>i. (nat (row_to_col a ! i), i)) [0..<I]"
  have "filter (\<lambda>r. row_to_col a ! r \<ge> 0) [0..<I] = [0..<I]" using a(3) by (intro filter_upt_all) blast
  then have m: "matched_pairs C R I = Some ?ps" using False a(1,2) by (simp add: matched_pairs_def)
  have "pair_cost (\<lambda>r i. C ! r ! i) ?ps \<le> pair_cost (\<lambda>r i. C ! r ! i) qs" if q: "pairing R I qs" "length qs = min R I" for qs
  proof -
    have "pairing I R (map prod.swap qs)" "length (map prod.swap qs) = I" using q False by (simp_all add: pairing_swap)
    then obtain f where f: "assigns I R f" "(\<Sum>i < I. C ! f i ! i) = pair_cost (\<lambda>i r. C ! r ! i) (map prod.swap qs)"
      using pairing_rows [of I R "map prod.swap qs" "\<lambda>i r. C ! r ! i"] by blast
    show ?thesis
      using a(5) [OF f(1)] f(2) T [OF f(1)] T [OF a(4)] pairs_of_rows(4) [OF a(4), of "\<lambda>r i. C ! r ! i"]
        pair_cost_swap [of "\<lambda>r i. C ! r ! i" qs] by simp
  qed
  then show ?thesis using m pairs_of_rows(3) [OF a(4)] False by auto
qed

lemma total_dispatched: "total_m (finalize (map (dispatch_of pool incidents full avail) ps) n) = pair_cost (\<lambda>a i. full ! (avail ! a) ! i) ps"
proof -
  have f: "foldl (\<lambda>t d. t + travel_m d) t ds = t + sum_list (map travel_m ds)" for t :: real and ds :: "dispatch list"
    by (induction ds arbitrary: t) simp_all
  show ?thesis by (simp add: finalize_def f pair_cost_def comp_def dispatch_of_def case_prod_unfold)
qed

lemma committed_cost:
  assumes "\<And>a i. (a, i) \<in> set ps \<Longrightarrow> 0 \<le> cost ! (avail ! a) ! i"
  shows "pair_cost (\<lambda>a i. cost ! (avail ! a) ! i) (committed cost avail ps)
    + kUnreachableCost * real (length ps - length (committed cost avail ps)) \<le> pair_cost (\<lambda>a i. cost ! (avail ! a) ! i) ps"
proof -
  have "real (length ps - length (committed cost avail ps)) = real (length ps) - real (length (committed cost avail ps))"
    by (simp add: committed_def of_nat_diff)
  moreover have "pair_cost (\<lambda>a i. cost ! (avail ! a) ! i) (committed cost avail ps)
    + kUnreachableCost * (real (length ps) - real (length (committed cost avail ps))) \<le> pair_cost (\<lambda>a i. cost ! (avail ! a) ! i) ps"
    by (induction ps) (auto simp: committed_def pair_cost_def algebra_simps not_less)
  ultimately show ?thesis by simp
qed

lemma pairing_filter: "pairing n m ps \<Longrightarrow> pairing n m (filter P ps)"
  by (auto simp: pairing_def distinct_map_filter)

lemma available_in_pool: "a < length (available_indices pool) \<Longrightarrow> available_indices pool ! a < length pool"
  using nth_mem [of a "available_indices pool"] by (auto simp: available_indices_def)

lemma assign_optimal_least:
  assumes g: "rg_inv g" and q: "pairing (length (available_indices pool)) (length incidents) qs"
    "length qs = min (length (available_indices pool)) (length incidents)"
  shows "\<exists>full plan ps. cost_matrix pool incidents g = Some full \<and> assign_optimal pool incidents g = Some plan \<and>
    dispatches plan = map (dispatch_of pool incidents full (available_indices pool)) ps \<and>
    pairing (length (available_indices pool)) (length incidents) ps \<and>
    list_all (\<lambda>(a, i). full ! (available_indices pool ! a) ! i < kUnreachableCost) ps \<and>
    total_m plan + kUnreachableCost * real (length qs - length ps) \<le> pair_cost (\<lambda>a i. full ! (available_indices pool ! a) ! i) qs"
proof -
  define avail I where "avail = available_indices pool" and "I = length incidents"
  note q = q [folded avail_def I_def]
  obtain full where full: "cost_matrix pool incidents g = Some full" "length full = length pool"
    "\<And>row. row \<in> set full \<Longrightarrow> length row = I \<and> (\<forall>c \<in> set row. entry_ok c)"
    using cost_matrix_ok [OF g] unfolding I_def by blast
  have e: "entry_ok (full ! (avail ! a) ! i)" if "a < length avail" "i < I" for a i
    using full(3) [OF nth_mem] full(2) available_in_pool [of a pool] that nth_mem [of i] by (metis avail_def)
  show ?thesis
  proof (cases "avail = [] \<or> I = 0")
    case True
    then have "qs = []" using q(2) by auto
    then show ?thesis using True full(1) 
      by (intro exI [of _ full] exI [of _ "\<lparr>dispatches = [], total_m = 0, makespan_m = 0, unassigned = I\<rparr>"] exI [of _ "[]"])
        (auto simp: assign_optimal_def avail_def I_def pairing_def pair_cost_def)
  next
    case False
    define C where "C = map (\<lambda>r. map (\<lambda>i. full ! (avail ! r) ! i) [0..<I]) [0..<length avail]"
    have "\<exists>ps. matched_pairs C (length avail) I = Some ps \<and> pairing (length avail) I ps \<and> length ps = min (length avail) I \<and>
      (\<forall>qs. pairing (length avail) I qs \<longrightarrow> length qs = min (length avail) I \<longrightarrow> pair_cost (\<lambda>r i. C ! r ! i) ps \<le> pair_cost (\<lambda>r i. C ! r ! i) qs)"
      using e False by (intro matched_pairs_least) (auto simp: C_def)
    then obtain ps where ps: "matched_pairs C (length avail) I = Some ps" "pairing (length avail) I ps" "length ps = min (length avail) I"
      "pair_cost (\<lambda>r i. C ! r ! i) ps \<le> pair_cost (\<lambda>r i. C ! r ! i) qs" using q by blast
    have same: "pair_cost (\<lambda>r i. C ! r ! i) xs = pair_cost (\<lambda>a i. full ! (avail ! a) ! i) xs" if "pairing (length avail) I xs" for xs
      unfolding pair_cost_def using that by (intro arg_cong [where f = sum_list] map_cong) (auto simp: pairing_def C_def)
    define cs where "cs = committed full avail ps"
    have opt: "assign_optimal pool incidents g = Some (finalize (map (dispatch_of pool incidents full avail) cs) I)"
      using False full(1) ps(1) by (simp add: assign_optimal_def Let_def avail_def [symmetric] I_def [symmetric] C_def cs_def)
    have "0 \<le> full ! (avail ! a) ! i" if "(a, i) \<in> set ps" for a i using e ps(2) that by (auto simp: pairing_def entry_ok_def)
    then have "pair_cost (\<lambda>a i. full ! (avail ! a) ! i) cs + kUnreachableCost * real (length ps - length cs) \<le> pair_cost (\<lambda>a i. full ! (avail ! a) ! i) qs"
      using committed_cost [of ps full avail] ps(4) same [OF ps(2)] same [OF q(1)] unfolding cs_def by force
    moreover have "pairing (length avail) I cs" using ps(2) by (simp add: cs_def committed_def pairing_filter)
    moreover have "list_all (\<lambda>(a, i). full ! (avail ! a) ! i < kUnreachableCost) cs" by (auto simp: cs_def committed_def list_all_iff)
    moreover have "dispatches (finalize ds I) = ds" for ds by (simp add: finalize_def)
    ultimately show ?thesis using full(1) opt ps(3) q(2) total_dispatched [of pool incidents full avail cs I]
      unfolding avail_def [symmetric] I_def [symmetric] by (intro exI [of _ full] exI [of _ "finalize (map (dispatch_of pool incidents full avail) cs) I"] exI [of _ cs]) simp
  qed
qed

text \<open>The optimal plan costs no more than the greedy one when every available responder reaches every incident.\<close>

lemma assign_optimal_beats_greedy:
  assumes g: "rg_inv g" and m: "cost_matrix pool incidents g = Some full"
    and all: "\<And>a i. a < length (available_indices pool) \<Longrightarrow> i < length incidents \<Longrightarrow> full ! (available_indices pool ! a) ! i < kUnreachableCost"
  shows "\<exists>plan gplan. assign_optimal pool incidents g = Some plan \<and> assign_greedy pool incidents g = Some gplan \<and> total_m plan \<le> total_m gplan"
proof -
  define avail I where "avail = available_indices pool" and "I = length incidents"
  have u: "unused (replicate n False) = n" for n by (simp add: unused_def)
  obtain gs where gs: "greedy_pairs I full avail I (replicate (length avail) False) (replicate I False) = Some gs"
    "pairing (length avail) I gs" "length gs = min (length avail) I"
    using greedy_pairs_ok [of "replicate (length avail) False" avail "replicate I False" I I full] all u by (auto simp: avail_def I_def)
  have gr: "assign_greedy pool incidents g = Some (finalize (map (dispatch_of pool incidents full avail) gs) I)"
    using m gs(1) by (simp add: assign_greedy_def Let_def avail_def I_def)
  obtain full' plan ps where o: "cost_matrix pool incidents g = Some full'" "assign_optimal pool incidents g = Some plan"
    "total_m plan + kUnreachableCost * real (length gs - length (ps :: (nat \<times> nat) list)) \<le> pair_cost (\<lambda>a i. full' ! (avail ! a) ! i) gs"
    using assign_optimal_least [OF g gs(2,3) [unfolded avail_def I_def]] unfolding avail_def by blast
  have "0 \<le> kUnreachableCost * real (length gs - length ps)" by (simp add: kUnreachableCost_def)
  then have "total_m plan \<le> pair_cost (\<lambda>a i. full ! (avail ! a) ! i) gs" using o(1,3) m by simp
  then show ?thesis using o(2) gr total_dispatched [of pool incidents full avail gs I] by simp
qed

section \<open>Properties\<close>

text \<open>C9: Optimal dispatch: on a well-formed road network both the matrix of road distances and the plan are computed; the plan pairs
  distinct available responders with distinct incidents they can reach, and its total, with the sentinel cost for every incident or
  responder of the smaller side left out, is at most the total of any complete pairing under the same matrix.\<close>

theorem dispatch_optimal:
  assumes "rg_inv g" "pairing (length (available_indices pool)) (length incidents) qs"
    "length qs = min (length (available_indices pool)) (length incidents)"
  shows "\<exists>full plan ps. cost_matrix pool incidents g = Some full \<and> assign_optimal pool incidents g = Some plan \<and>
    dispatches plan = map (dispatch_of pool incidents full (available_indices pool)) ps \<and>
    pairing (length (available_indices pool)) (length incidents) ps \<and>
    list_all (\<lambda>(a, i). full ! (available_indices pool ! a) ! i < kUnreachableCost) ps \<and>
    total_m plan + kUnreachableCost * real (length qs - length ps) \<le> pair_cost (\<lambda>a i. full ! (available_indices pool ! a) ! i) qs"
  using assms by (rule assign_optimal_least)

lemma dispatch_optimal_witness:
  "\<exists>full plan. cost_matrix [\<lparr>rs_id = 0, rs_pos = \<lparr>lat = 0, lon = 0\<rparr>, rs_node = 0, rs_available = True, rs_name = ''post''\<rparr>]
      [\<lparr>in_id = 0, in_pos = \<lparr>lat = 0, lon = 2\<rparr>, in_node = 2\<rparr>] demo_roads = Some full \<and>
    assign_optimal [\<lparr>rs_id = 0, rs_pos = \<lparr>lat = 0, lon = 0\<rparr>, rs_node = 0, rs_available = True, rs_name = ''post''\<rparr>]
      [\<lparr>in_id = 0, in_pos = \<lparr>lat = 0, lon = 2\<rparr>, in_node = 2\<rparr>] demo_roads = Some plan \<and> total_m plan \<le> full ! 0 ! 0"
proof -
  let ?p = "[\<lparr>rs_id = 0, rs_pos = \<lparr>lat = 0, lon = 0\<rparr>, rs_node = 0, rs_available = True, rs_name = ''post''\<rparr>]"
    and ?i = "[\<lparr>in_id = 0, in_pos = \<lparr>lat = 0, lon = 2\<rparr>, in_node = 2\<rparr>]"
  have a: "available_indices ?p = [0]" by (simp add: available_indices_def)
  have q1: "pairing (length (available_indices ?p)) (length ?i) [(0, 0)]" by (simp add: a pairing_def)
  have q2: "length [(0 :: nat, 0 :: nat)] = min (length (available_indices ?p)) (length ?i)" by (simp add: a)
  obtain full plan ps where o: "cost_matrix ?p ?i demo_roads = Some full" "assign_optimal ?p ?i demo_roads = Some plan"
    "total_m plan + kUnreachableCost * real (length [(0 :: nat, 0 :: nat)] - length (ps :: (nat \<times> nat) list))
      \<le> pair_cost (\<lambda>a i. full ! (available_indices ?p ! a) ! i) [(0, 0)]"
    using dispatch_optimal [OF demo_roads_ok(1) q1 q2] by blast
  have "0 \<le> kUnreachableCost * real (length [(0 :: nat, 0 :: nat)] - length ps)" by (simp add: kUnreachableCost_def)
  moreover have "pair_cost (\<lambda>a i. full ! (available_indices ?p ! a) ! i) [(0, 0)] = full ! 0 ! 0" unfolding a by (simp add: pair_cost_def)
  ultimately have "total_m plan \<le> full ! 0 ! 0" using o(3) by linarith
  then show ?thesis using o(1,2) by blast
qed

end
