(* ===== verification/Kuhn.thy ===== *)
theory Kuhn
  imports Prelude
begin

text \<open>
  Kuhn's augmenting paths, the first half of \<^verbatim>\<open>src/graph/bipartite_match.cpp\<close>: a matching of most edges in a bipartite graph.
  \<open>match_right ! v\<close> is the left vertex matched to the right vertex \<open>v\<close>, or \<open>-1\<close>. The recursion marks a right vertex before it
  descends, so one unit of fuel per right vertex is enough.
\<close>

text \<open>The loop over the neighbours of \<open>u\<close> still to try.\<close>

fun try_augment :: "nat \<Rightarrow> nat list list \<Rightarrow> nat \<Rightarrow> nat list \<Rightarrow> int list \<times> bool list \<Rightarrow> (bool \<times> int list \<times> bool list) option" where
  "try_augment fuel adj u [] (match_right, seen) = Some (False, match_right, seen)"
| "try_augment fuel adj u (v # vs) (match_right, seen) =
     (if seen ! v then try_augment fuel adj u vs (match_right, seen)
      else
        (let seen = seen[v := True] in
         if match_right ! v < 0 then Some (True, match_right[v := int u], seen)
         else
           (case fuel of
              0 \<Rightarrow> None
            | Suc fuel' \<Rightarrow>
                (let w = nat (match_right ! v) in
                 case try_augment fuel' adj w (adj ! w) (match_right, seen) of
                   None \<Rightarrow> None
                 | Some (True, match_right, seen) \<Rightarrow> Some (True, match_right[v := int u], seen)
                 | Some (False, match_right, seen) \<Rightarrow> try_augment fuel adj u vs (match_right, seen)))))"

definition kuhn_step :: "nat list list \<Rightarrow> nat \<Rightarrow> (int list \<times> nat) option \<Rightarrow> nat \<Rightarrow> (int list \<times> nat) option" where
  "kuhn_step adj right_n st u =
     (case st of
        None \<Rightarrow> None
      | Some (match_right, n) \<Rightarrow>
          map_option (\<lambda>(found, match_right, _). (match_right, if found then n + 1 else n))
            (try_augment right_n adj u (adj ! u) (match_right, replicate right_n False)))"

definition kuhn_matching :: "nat \<Rightarrow> nat \<Rightarrow> nat list list \<Rightarrow> (int list \<times> nat) option" where
  "kuhn_matching left_n right_n adj = foldl (kuhn_step adj right_n) (Some (replicate right_n (- 1), 0)) [0..<left_n]"

section \<open>Partial matchings\<close>

definition matched :: "int list \<Rightarrow> nat set" where
  "matched mr = {v. v < length mr \<and> mr ! v \<ge> 0}"

definition lefts :: "int list \<Rightarrow> nat set" where
  "lefts mr = (\<lambda>v. nat (mr ! v)) ` matched mr"

definition is_matching :: "nat list list \<Rightarrow> int list \<Rightarrow> bool" where
  "is_matching adj mr \<longleftrightarrow> (\<forall>v \<in> matched mr. v \<in> set (adj ! nat (mr ! v))) \<and> inj_on (\<lambda>v. nat (mr ! v)) (matched mr)"

text \<open>No augmenting path enters a closed set of right vertices and gets out.\<close>

definition closed_set :: "nat list list \<Rightarrow> int list \<Rightarrow> nat set \<Rightarrow> bool" where
  "closed_set adj mr S \<longleftrightarrow> S \<subseteq> matched mr \<and> (\<forall>v \<in> S. set (adj ! nat (mr ! v)) \<subseteq> S)"

definition unseen :: "bool list \<Rightarrow> nat" where
  "unseen seen = length (filter Not seen)"

lemma unseen_mark: "v < length seen \<Longrightarrow> \<not> seen ! v \<Longrightarrow> unseen seen = Suc (unseen (seen[v := True]))"
  by (induction seen arbitrary: v) (auto simp: unseen_def nth_Cons split: nat.splits)

text \<open>The outcome of a call: a failure leaves the matching alone and everything it saw is matched, with the neighbours of the partners seen.\<close>

definition seen_set :: "bool list \<Rightarrow> nat set" where
  "seen_set seen = {v. v < length seen \<and> seen ! v}"

definition failed :: "nat list list \<Rightarrow> nat list \<Rightarrow> int list \<Rightarrow> bool list \<Rightarrow> int list \<Rightarrow> bool list \<Rightarrow> bool" where
  "failed adj vs mr seen mr' seen' \<longleftrightarrow>
     mr' = mr \<and> length seen' = length seen \<and> seen_set seen \<subseteq> seen_set seen' \<and> set vs \<subseteq> seen_set seen' \<and>
     (\<forall>v \<in> seen_set seen' - seen_set seen. v \<in> matched mr \<and> set (adj ! nat (mr ! v)) \<subseteq> seen_set seen')"

text \<open>A success gives \<open>u\<close> a partner besides the place \<open>h\<close> where it was, and keeps all it had seen before as it was.\<close>

definition found :: "nat list list \<Rightarrow> nat \<Rightarrow> nat \<Rightarrow> int list \<Rightarrow> bool list \<Rightarrow> int list \<Rightarrow> bool" where
  "found adj u h mr seen mr' \<longleftrightarrow>
     length mr' = length mr \<and> is_matching adj (mr'[h := - 1]) \<and> lefts (mr'[h := - 1]) = insert u (lefts mr) \<and>
     (\<forall>v \<in> seen_set seen. mr' ! v = mr ! v)"

text \<open>The place of the vertex on whose behalf the call is made: none, or one already seen.\<close>

definition home :: "nat \<Rightarrow> int list \<Rightarrow> bool list \<Rightarrow> nat \<Rightarrow> bool" where
  "home u mr seen h \<longleftrightarrow>
     (if h = length mr then u \<notin> lefts mr else h < length mr \<and> mr ! h = int u \<and> h \<in> seen_set seen)"

lemma matched_update: "matched (mr[v := int u]) = (if v < length mr then insert v (matched mr) else matched mr)"
  by (auto simp: matched_def nth_list_update)

lemma matched_clear: "matched (mr[h := - 1]) = matched mr - {h}"
proof -
  have "x < length mr \<Longrightarrow> 0 \<le> mr[h := - 1] ! x \<longleftrightarrow> x \<noteq> h \<and> 0 \<le> mr ! x" for x
    by (cases "x = h") (simp_all add: nth_list_update_neq)
  then show ?thesis by (auto simp: matched_def)
qed

lemma lefts_clear: "lefts (mr[h := - 1]) = (\<lambda>v. nat (mr ! v)) ` (matched mr - {h})"
  unfolding lefts_def matched_clear by (intro image_cong) (auto simp: nth_list_update)

lemma is_matching_clear:
  "is_matching adj (mr[h := - 1]) \<longleftrightarrow>
   (\<forall>v \<in> matched mr - {h}. v \<in> set (adj ! nat (mr ! v))) \<and> inj_on (\<lambda>v. nat (mr ! v)) (matched mr - {h})"
proof -
  have "inj_on (\<lambda>v. nat (mr[h := - 1] ! v)) (matched mr - {h}) = inj_on (\<lambda>v. nat (mr ! v)) (matched mr - {h})"
    by (intro inj_on_cong) (auto simp: nth_list_update)
  then show ?thesis by (auto simp: is_matching_def matched_clear)
qed

text \<open>Matching \<open>v\<close> to \<open>u\<close> once the vertex that held \<open>v\<close>, if any, has another partner.\<close>

lemma place_vertex:
  assumes m: "is_matching adj (mr'[v := - 1])" and l: "lefts (mr'[v := - 1]) = lefts mr" and len: "length mr' = length mr"
    and v: "v < length mr" "v \<in> set (adj ! u)" and h: "home u mr seen h" and vh: "v \<noteq> h" and same: "\<forall>x \<in> seen_set seen. mr' ! x = mr ! x"
  shows "is_matching adj (mr'[v := int u, h := - 1]) \<and> lefts (mr'[v := int u, h := - 1]) = insert u (lefts mr)"
proof -
  let ?D = "matched mr' - {v}"
  have inj: "inj_on (\<lambda>x. nat (mr' ! x)) ?D" and edge: "\<And>x. x \<in> ?D \<Longrightarrow> x \<in> set (adj ! nat (mr' ! x))"
    using m by (auto simp: is_matching_clear)
  have img: "(\<lambda>x. nat (mr' ! x)) ` ?D = lefts mr" using l by (simp add: lefts_clear)
  have dom: "matched (mr'[v := int u]) - {h} = insert v (?D - {h})" using v(1) vh len by (auto simp: matched_update)
  have eq: "(\<lambda>x. nat (mr'[v := int u] ! x)) ` (?D - {h}) = (\<lambda>x. nat (mr' ! x)) ` (?D - {h})"
    by (intro image_cong) (auto simp: nth_list_update)
  have rest: "(\<lambda>x. nat (mr' ! x)) ` (?D - {h}) = lefts mr - {u}"
  proof (cases "h = length mr")
    case True
    then have "?D - {h} = ?D" using len by (auto simp: matched_def)
    then show ?thesis using True h img by (simp add: home_def)
  next
    case False
    then have hh: "h < length mr" "mr ! h = int u" "h \<in> seen_set seen" using h by (simp_all add: home_def)
    then have "h \<in> ?D" "nat (mr' ! h) = u" using same vh len by (auto simp: matched_def)
    then show ?thesis using img inj_on_image_set_diff [OF inj, of ?D "{h}"] by auto
  qed
  have "inj_on (\<lambda>x. nat (mr'[v := int u] ! x)) (insert v (?D - {h}))"
  proof -
    have "inj_on (\<lambda>x. nat (mr'[v := int u] ! x)) (?D - {h}) = inj_on (\<lambda>x. nat (mr' ! x)) (?D - {h})"
      by (intro inj_on_cong) simp
    then have "inj_on (\<lambda>x. nat (mr'[v := int u] ! x)) (?D - {h})" using inj_on_subset [OF inj, of "?D - {h}"] by blast
    moreover have "nat (mr'[v := int u] ! v) \<notin> (\<lambda>x. nat (mr'[v := int u] ! x)) ` (?D - {h} - {v})"
      using eq rest v(1) len by auto
    ultimately show ?thesis unfolding inj_on_insert by blast
  qed
  moreover have "x \<in> set (adj ! nat (mr'[v := int u] ! x))" if "x \<in> insert v (?D - {h})" for x
    using that edge v len by (cases "x = v") (auto simp: nth_list_update)
  moreover have "(\<lambda>x. nat (mr'[v := int u] ! x)) ` insert v (?D - {h}) = insert u (lefts mr)"
    using eq rest v(1) len by auto
  ultimately show ?thesis unfolding is_matching_clear lefts_clear dom by blast
qed

section \<open>One search\<close>

lemma seen_mark: "v < length seen \<Longrightarrow> seen_set (seen[v := True]) = insert v (seen_set seen)"
  by (auto simp: seen_set_def nth_list_update)

lemma unseen_card: "unseen seen = length seen - card (seen_set seen)"
proof -
  have "length (filter Not seen) = card {i. i < length seen \<and> \<not> seen ! i}" by (simp add: length_filter_conv_card)
  also have "{i. i < length seen \<and> \<not> seen ! i} = {..<length seen} - seen_set seen" by (auto simp: seen_set_def)
  also have "card \<dots> = length seen - card (seen_set seen)"
    by (subst card_Diff_subset) (auto simp: seen_set_def intro: finite_subset [of _ "{..<length seen}"])
  finally show ?thesis by (simp add: unseen_def)
qed

lemma unseen_mono: "length seen' = length seen \<Longrightarrow> seen_set seen \<subseteq> seen_set seen' \<Longrightarrow> unseen seen' \<le> unseen seen"
proof -
  assume a: "length seen' = length seen" "seen_set seen \<subseteq> seen_set seen'"
  have "finite (seen_set seen')" by (rule finite_subset [of _ "{..<length seen'}"]) (auto simp: seen_set_def)
  then have "card (seen_set seen) \<le> card (seen_set seen')" using a(2) by (rule card_mono)
  then show ?thesis using a(1) by (simp add: unseen_card)
qed

text \<open>A neighbour whose holder cannot move, then the others.\<close>

lemma failed_Cons:
  assumes v: "v < length seen" "v \<in> matched mr" and w: "w = nat (mr ! v)" and one: "failed adj (adj ! w) mr (seen[v := True]) mr seen2"
    and rest: "failed adj vs mr seen2 mr' seen'"
  shows "failed adj (v # vs) mr seen mr' seen'"
proof -
  note sm = seen_mark [OF v(1)]
  have s: "insert v (seen_set seen) \<subseteq> seen_set seen2" "set (adj ! w) \<subseteq> seen_set seen2" "length seen2 = length seen"
    "\<And>x. x \<in> seen_set seen2 - insert v (seen_set seen) \<Longrightarrow> x \<in> matched mr \<and> set (adj ! nat (mr ! x)) \<subseteq> seen_set seen2"
    using one unfolding failed_def sm by auto
  have r: "mr' = mr" "seen_set seen2 \<subseteq> seen_set seen'" "set vs \<subseteq> seen_set seen'" "length seen' = length seen2"
    "\<And>x. x \<in> seen_set seen' - seen_set seen2 \<Longrightarrow> x \<in> matched mr \<and> set (adj ! nat (mr ! x)) \<subseteq> seen_set seen'"
    using rest unfolding failed_def by auto
  have "x \<in> matched mr \<and> set (adj ! nat (mr ! x)) \<subseteq> seen_set seen'" if x: "x \<in> seen_set seen' - seen_set seen" for x
  proof (cases "x \<in> seen_set seen2")
    case False
    then show ?thesis using r(5) x by blast
  next
    case True
    then show ?thesis using s(2,4) r(2) v(2) w x by (cases "x = v") blast+
  qed
  then show ?thesis using s(1,3) r(1-4) unfolding failed_def by auto
qed

lemma failed_seen:
  assumes "v \<in> seen_set seen" "failed adj vs mr seen mr' seen'"
  shows "failed adj (v # vs) mr seen mr' seen'"
  using assms unfolding failed_def by auto

lemma home_mono: "home u mr seen h \<Longrightarrow> seen_set seen \<subseteq> seen_set seen' \<Longrightarrow> home u mr seen' h"
  by (auto simp: home_def split: if_splits)

lemma found_mono: "found adj u h mr seen' mr' \<Longrightarrow> seen_set seen \<subseteq> seen_set seen' \<Longrightarrow> found adj u h mr seen mr'"
  by (auto simp: found_def)

lemma home_unseen: "home u mr seen h \<Longrightarrow> v < length mr \<Longrightarrow> v \<notin> seen_set seen \<Longrightarrow> v \<noteq> h"
  by (auto simp: home_def split: if_splits)

lemma found_free:
  assumes m: "is_matching adj mr" and v: "v < length mr" "v \<in> set (adj ! u)" "v \<notin> seen_set seen" "mr ! v < 0" and h: "home u mr seen h"
  shows "found adj u h mr seen (mr[v := int u])"
proof -
  have "matched mr - {v} = matched mr" using v(4) by (auto simp: matched_def)
  then have "is_matching adj (mr[v := - 1])" "lefts (mr[v := - 1]) = lefts mr"
    using m by (simp_all add: is_matching_clear lefts_clear) (simp_all add: is_matching_def lefts_def)
  from place_vertex [OF this _ v(1,2) h home_unseen [OF h v(1,3)]] show ?thesis using v(3) unfolding found_def by (metis length_list_update nth_list_update_neq)
qed

lemma found_moved:
  assumes v: "v < length mr" "v \<in> set (adj ! u)" "v \<notin> seen_set seen" "v \<in> matched mr" and l: "length seen = length mr"
    and h: "home u mr seen h" and f: "found adj (nat (mr ! v)) v mr (seen[v := True]) mr'"
  shows "found adj u h mr seen (mr'[v := int u])"
proof -
  have "nat (mr ! v) \<in> lefts mr" using v(4) by (auto simp: lefts_def)
  then have f': "length mr' = length mr" "is_matching adj (mr'[v := - 1])" "lefts (mr'[v := - 1]) = lefts mr"
    "\<forall>x \<in> seen_set seen. mr' ! x = mr ! x"
    using f l v(1) by (auto simp: found_def insert_absorb seen_mark)
  from place_vertex [OF f'(2,3,1) v(1,2) h home_unseen [OF h v(1,3)] f'(4)] show ?thesis
    using f'(1,4) v(3) unfolding found_def by (metis length_list_update nth_list_update_neq)
qed

lemma try_augment_ok:
  "length seen = length mr \<Longrightarrow> is_matching adj mr \<Longrightarrow> (\<And>ws x. ws \<in> set adj \<Longrightarrow> x \<in> set ws \<Longrightarrow> x < length mr) \<Longrightarrow>
   lefts mr \<subseteq> {..<length adj} \<Longrightarrow> u < length adj \<Longrightarrow> set vs \<subseteq> set (adj ! u) \<Longrightarrow> home u mr seen h \<Longrightarrow> unseen seen \<le> fuel \<Longrightarrow>
   \<exists>b mr' seen'. try_augment fuel adj u vs (mr, seen) = Some (b, mr', seen') \<and>
     (if b then found adj u h mr seen mr' else failed adj vs mr seen mr' seen')"
proof (induction fuel adj u vs "(mr, seen)" arbitrary: mr seen h rule: try_augment.induct)
  case (1 fuel adj u match_right seen)
  then show ?case by (simp add: failed_def exI [of _ False])
next
  case (2 fuel adj u v vs mr seen)
  note IH = "2.hyps" and prems = "2.prems"
  have v: "v < length mr" "v \<in> set (adj ! u)" using prems(3,5,6) nth_mem by fastforce+
  have sub: "set vs \<subseteq> set (adj ! u)" using prems(6) by simp
  show ?case
  proof (cases "seen ! v")
    case True
    then have "v \<in> seen_set seen" using v(1) prems(1) by (simp add: seen_set_def)
    moreover note IH(1) [OF True prems(1,2) _ prems(4,5) sub prems(7,8)]
    ultimately show ?thesis using True prems(3) failed_seen by fastforce
  next
    case unseen_v: False
    then have nv: "v \<notin> seen_set seen" by (simp add: seen_set_def)
    show ?thesis
    proof (cases "mr ! v < 0")
      case True
      then show ?thesis using unseen_v found_free [OF prems(2) v nv True prems(7)] by auto
    next
      case False
      then have mv: "v \<in> matched mr" using v(1) by (simp add: matched_def)
      define w seen1 where "w = nat (mr ! v)" and "seen1 = seen[v := True]"
      have dec: "unseen seen = Suc (unseen seen1)" using unseen_mark unseen_v v(1) prems(1) by (simp add: seen1_def)
      then obtain fuel' where fuel: "fuel = Suc fuel'" using prems(8) by (cases fuel) auto
      have wl: "w < length adj" using prems(4) mv by (auto simp: w_def lefts_def)
      have hw: "home w mr seen1 v" using v(1) prems(1) False by (auto simp: home_def seen1_def seen_mark w_def)
      have l1: "length seen1 = length mr" using prems(1) by (simp add: seen1_def)
      have "\<exists>b mr' seen'. try_augment fuel' adj w (adj ! w) (mr, seen1) = Some (b, mr', seen') \<and>
         (if b then found adj w v mr seen1 mr' else failed adj (adj ! w) mr seen1 mr' seen')"
        using IH(2) [OF unseen_v seen1_def False fuel w_def l1 prems(2) _ prems(4) wl subset_refl hw] prems(3) dec prems(8) fuel by auto
      then obtain b mr1 seen2 where r: "try_augment fuel' adj w (adj ! w) (mr, seen1) = Some (b, mr1, seen2)"
        "if b then found adj w v mr seen1 mr1 else failed adj (adj ! w) mr seen1 mr1 seen2" by blast
      show ?thesis
      proof (cases b)
        case True
        then have "found adj u h mr seen (mr1[v := int u])"
          using r(2) found_moved [OF v nv mv prems(1,7)] by (simp add: w_def seen1_def)
        then show ?thesis using True r(1) unseen_v False fuel by (simp add: w_def seen1_def exI [of _ True])
      next
        case bf: False
        then have f: "failed adj (adj ! w) mr seen1 mr1 seen2" "mr1 = mr" using r(2) by (auto simp: failed_def)
        have s2: "seen_set seen \<subseteq> seen_set seen2" "length seen2 = length mr"
          using f(1) l1 v(1) prems(1) by (auto simp: failed_def seen1_def seen_mark)
        have "unseen seen2 \<le> fuel" using unseen_mono [of seen2 seen] s2 prems(1,8) by simp
        then have "\<exists>b mr' seen'. try_augment fuel adj u vs (mr, seen2) = Some (b, mr', seen') \<and>
          (if b then found adj u h mr seen2 mr' else failed adj vs mr seen2 mr' seen')"
          using IH(3) [OF unseen_v seen1_def False fuel w_def r(1) _ _ _ s2(2) prems(2) _ prems(4,5) sub home_mono [OF prems(7) s2(1)]] prems(3) bf f(2)
          by auto
        then obtain b' mr' seen' where q: "try_augment fuel adj u vs (mr, seen2) = Some (b', mr', seen')"
          "if b' then found adj u h mr seen2 mr' else failed adj vs mr seen2 mr' seen'" by blast
        have "if b' then found adj u h mr seen mr' else failed adj (v # vs) mr seen mr' seen'"
          using q(2) found_mono [OF _ s2(1)] failed_Cons [OF _ mv w_def _ , of seen adj seen2 vs mr' seen'] f v(1) prems(1)
          by (auto simp: seen1_def split: if_splits)
        then show ?thesis using q(1) r(1) bf f(2) unseen_v False fuel by (simp add: w_def seen1_def)
      qed
    qed
  qed
qed

section \<open>Closed sets stop augmenting paths\<close>

lemma closed_blocks:
  "closed_set adj mr S \<Longrightarrow> try_augment fuel adj u vs (mr, seen) = Some (b, mr', seen') \<Longrightarrow>
   length mr' = length mr \<and> (b \<longrightarrow> \<not> set vs \<subseteq> S) \<and> (\<forall>v \<in> S. mr' ! v = mr ! v)"
proof (induction fuel adj u vs "(mr, seen)" arbitrary: mr seen b mr' seen' rule: try_augment.induct)
  case (1 fuel adj u match_right seen)
  then show ?case by simp
next
  case (2 fuel adj u v vs mr seen)
  note IH = "2.hyps" and closed = "2.prems"(1) and run = "2.prems"(2)
  show ?case
  proof (cases "seen ! v")
    case True
    then show ?thesis using IH(1) [OF True closed] run by auto
  next
    case unseen_v: False
    show ?thesis
    proof (cases "mr ! v < 0")
      case True
      then have "v \<notin> S" using closed by (auto simp: closed_set_def matched_def)
      then show ?thesis using run unseen_v True by (simp add: Let_def) (metis length_list_update list.set_intros(1) nth_list_update_neq subsetD)
    next
      case False
      define w seen1 where "w = nat (mr ! v)" and "seen1 = seen[v := True]"
      obtain fuel' where fuel: "fuel = Suc fuel'" using run unseen_v False by (cases fuel) (auto simp: Let_def)
      obtain b1 mr1 seen2 where r: "try_augment fuel' adj w (adj ! w) (mr, seen1) = Some (b1, mr1, seen2)"
        using run unseen_v False fuel by (auto simp: w_def seen1_def Let_def split: option.splits)
      have one: "length mr1 = length mr \<and> (b1 \<longrightarrow> \<not> set (adj ! w) \<subseteq> S) \<and> (\<forall>v \<in> S. mr1 ! v = mr ! v)"
        by (rule IH(2) [OF unseen_v seen1_def False fuel w_def closed r])
      show ?thesis
      proof (cases b1)
        case True
        then have "v \<notin> S" using one closed by (auto simp: closed_set_def w_def)
        moreover have "b" "mr' = mr1[v := int u]" using run unseen_v False fuel r True by (auto simp: w_def seen1_def Let_def)
        ultimately show ?thesis using one by simp (metis nth_list_update_neq)
      next
        case bf: False
        have go: "try_augment fuel adj u vs (mr1, seen2) = Some (b, mr', seen')"
          using run unseen_v False fuel r bf by (simp add: w_def seen1_def Let_def)
        have "closed_set adj mr1 S" using closed one unfolding closed_set_def by (auto simp: matched_def)
        then have "length mr' = length mr1 \<and> (b \<longrightarrow> \<not> set vs \<subseteq> S) \<and> (\<forall>v \<in> S. mr' ! v = mr1 ! v)"
          using IH(3) [OF unseen_v seen1_def False fuel w_def r _ _ _ _ go] bf by auto
        then show ?thesis using one by auto
      qed
    qed
  qed
qed

section \<open>The matching is maximal\<close>

definition graph_ok :: "nat \<Rightarrow> nat \<Rightarrow> nat list list \<Rightarrow> bool" where
  "graph_ok left_n right_n adj \<longleftrightarrow> length adj = left_n \<and> (\<forall>ws \<in> set adj. \<forall>v \<in> set ws. v < right_n)"

text \<open>After the left vertices below \<open>k\<close>: those left out only see a closed set.\<close>

definition kuhn_inv :: "nat \<Rightarrow> nat list list \<Rightarrow> nat \<Rightarrow> int list \<times> nat \<Rightarrow> nat set \<Rightarrow> bool" where
  "kuhn_inv right_n adj k st S \<longleftrightarrow>
     (let (mr, n) = st in length mr = right_n \<and> is_matching adj mr \<and> lefts mr \<subseteq> {..<k} \<and> n = card (matched mr) \<and>
        closed_set adj mr S \<and> (\<forall>u \<in> {..<k} - lefts mr. set (adj ! u) \<subseteq> S))"

lemma finite_matched [simp]: "finite (matched mr)"
  by (rule finite_subset [of _ "{..<length mr}"]) (auto simp: matched_def)

lemma card_lefts: "is_matching adj mr \<Longrightarrow> card (lefts mr) = card (matched mr)"
  by (simp add: lefts_def is_matching_def card_image)

lemma closed_same:
  assumes "closed_set adj mr S" "length mr' = length mr" "\<forall>v \<in> S. mr' ! v = mr ! v"
  shows "closed_set adj mr' S"
  using assms by (auto simp: closed_set_def matched_def)

lemma kuhn_step_inv:
  assumes g: "graph_ok left_n right_n adj" and k: "k < left_n" and i: "kuhn_inv right_n adj k (mr, n) S"
  shows "\<exists>mr' n' S'. kuhn_step adj right_n (Some (mr, n)) k = Some (mr', n') \<and> kuhn_inv right_n adj (Suc k) (mr', n') S'"
proof -
  let ?seen = "replicate right_n False"
  have s0: "seen_set ?seen = {}" by (auto simp: seen_set_def)
  have inv: "length mr = right_n" "is_matching adj mr" "lefts mr \<subseteq> {..<k}" "n = card (matched mr)" "closed_set adj mr S"
    "\<And>u. u \<in> {..<k} - lefts mr \<Longrightarrow> set (adj ! u) \<subseteq> S" using i by (auto simp: kuhn_inv_def)
  have ok: "length adj = left_n" "\<And>ws v. ws \<in> set adj \<Longrightarrow> v \<in> set ws \<Longrightarrow> v < length mr" using g inv(1) by (auto simp: graph_ok_def)
  have clear: "x[right_n := - 1] = x" if "length x = right_n" for x :: "int list" using that by (simp add: list_update_beyond)
  have "home k mr ?seen right_n" using inv(1,3) by (auto simp: home_def)
  moreover have "lefts mr \<subseteq> {..<length adj}" using inv(3) k ok(1) by auto
  moreover have "unseen ?seen \<le> right_n" by (simp add: unseen_def)
  ultimately obtain b mr' seen' where r: "try_augment right_n adj k (adj ! k) (mr, ?seen) = Some (b, mr', seen')"
    "if b then found adj k right_n mr ?seen mr' else failed adj (adj ! k) mr ?seen mr' seen'"
    using try_augment_ok [of ?seen mr adj k "adj ! k" right_n right_n] inv(1,2) ok k by auto
  have step: "kuhn_step adj right_n (Some (mr, n)) k = Some (mr', if b then n + 1 else n)" using r(1) by (simp add: kuhn_step_def)
  show ?thesis
  proof (cases b)
    case True
    then have f: "length mr' = right_n" "is_matching adj mr'" "lefts mr' = insert k (lefts mr)"
      using r(2) inv(1) clear [of mr'] by (auto simp: found_def)
    have "k \<notin> lefts mr" "finite (lefts mr)" using inv(3) by (auto simp: lefts_def)
    then have "card (matched mr') = Suc (card (matched mr))" using card_lefts [OF f(2)] card_lefts [OF inv(2)] f(3) by simp
    moreover have "closed_set adj mr' S" using closed_same [OF inv(5)] closed_blocks [OF inv(5) r(1)] by blast
    moreover have "set (adj ! u) \<subseteq> S" if "u \<in> {..<Suc k} - lefts mr'" for u using inv(6) [of u] f(3) that by (cases "u = k") auto
    ultimately have "kuhn_inv right_n adj (Suc k) (mr', n + 1) S" using f inv(3,4) by (simp add: kuhn_inv_def) auto
    then show ?thesis using step True by auto
  next
    case False
    then have f: "mr' = mr" "set (adj ! k) \<subseteq> seen_set seen'" "seen_set seen' \<subseteq> matched mr"
      "\<And>v. v \<in> seen_set seen' \<Longrightarrow> set (adj ! nat (mr ! v)) \<subseteq> seen_set seen'" using r(2) s0 by (auto simp: failed_def)
    have "closed_set adj mr (S \<union> seen_set seen')" using inv(5) f(3,4) unfolding closed_set_def by blast
    moreover have "set (adj ! u) \<subseteq> S \<union> seen_set seen'" if "u \<in> {..<Suc k} - lefts mr" for u
      using inv(6) [of u] f(2) that by (cases "u = k") auto
    ultimately have "kuhn_inv right_n adj (Suc k) (mr', n) (S \<union> seen_set seen')" using inv(1-4) f(1) by (auto simp: kuhn_inv_def)
    then show ?thesis using step False by auto
  qed
qed

lemma kuhn_loop:
  assumes g: "graph_ok left_n right_n adj"
  shows "k \<le> left_n \<Longrightarrow> \<exists>mr n S. foldl (kuhn_step adj right_n) (Some (replicate right_n (- 1), 0)) [0..<k] = Some (mr, n) \<and>
    kuhn_inv right_n adj k (mr, n) S"
proof (induction k)
  case 0
  have "matched (replicate right_n (- 1)) = {}" by (auto simp: matched_def)
  then have "kuhn_inv right_n adj 0 (replicate right_n (- 1), 0) {}" by (simp add: kuhn_inv_def is_matching_def lefts_def closed_set_def)
  then show ?case by auto
next
  case (Suc k)
  then obtain mr n S where "foldl (kuhn_step adj right_n) (Some (replicate right_n (- 1), 0)) [0..<k] = Some (mr, n)"
    "kuhn_inv right_n adj k (mr, n) S" by auto
  then show ?case using kuhn_step_inv [OF g, of k mr n S] Suc.prems by auto
qed

text \<open>A matching as a list of edges, and the count no other can exceed.\<close>

definition edges_matching :: "nat list list \<Rightarrow> (nat \<times> nat) list \<Rightarrow> bool" where
  "edges_matching adj qs \<longleftrightarrow> distinct (map fst qs) \<and> distinct (map snd qs) \<and> (\<forall>(u, v) \<in> set qs. u < length adj \<and> v \<in> set (adj ! u))"

lemma closed_bound:
  assumes g: "graph_ok left_n right_n adj" and i: "kuhn_inv right_n adj left_n (mr, n) S" and q: "edges_matching adj qs"
  shows "length qs \<le> n"
proof -
  have inv: "is_matching adj mr" "lefts mr \<subseteq> {..<left_n}" "n = card (matched mr)" "S \<subseteq> matched mr"
    "\<And>v. v \<in> S \<Longrightarrow> set (adj ! nat (mr ! v)) \<subseteq> S" "\<And>u. u < left_n \<Longrightarrow> u \<notin> lefts mr \<Longrightarrow> set (adj ! u) \<subseteq> S"
    using i by (auto simp: kuhn_inv_def closed_set_def)
  define P where "P = (\<lambda>v. nat (mr ! v)) ` S"
  have inj: "inj_on (\<lambda>v. nat (mr ! v)) (matched mr)" using inv(1) by (simp add: is_matching_def)
  have P: "P \<subseteq> lefts mr" "card P = card S" using inv(4) inj_on_subset [OF inj inv(4)] by (auto simp: P_def lefts_def card_image)
  let ?in = "{p \<in> set qs. snd p \<in> S}" and ?out = "{p \<in> set qs. snd p \<notin> S}"
  have d: "inj_on fst (set qs)" "inj_on snd (set qs)" "distinct qs" using q by (auto simp: edges_matching_def distinct_map)
  have fs: "finite S" using inv(4) by (rule finite_subset) simp
  have "card ?in \<le> card S"
    using card_image [OF inj_on_subset [OF d(2)], of ?in] card_mono [OF fs, of "snd ` ?in"] by auto
  moreover have "card ?out \<le> card (lefts mr) - card P"
  proof -
    have "fst ` ?out \<subseteq> lefts mr - P"
    proof
      fix u assume "u \<in> fst ` ?out"
      then obtain v where uv: "(u, v) \<in> set qs" "v \<notin> S" by auto
      then have "u < left_n" "v \<in> set (adj ! u)" using q g by (auto simp: edges_matching_def graph_ok_def)
      then show "u \<in> lefts mr - P" using inv(5,6) uv(2) by (auto simp: P_def)
    qed
    moreover have "finite (lefts mr)" by (simp add: lefts_def)
    ultimately have "card (fst ` ?out) \<le> card (lefts mr) - card P"
      using card_mono [of "lefts mr - P" "fst ` ?out"] P(1) finite_subset [OF P(1)] by (simp add: card_Diff_subset)
    moreover have "card (fst ` ?out) = card ?out" by (rule card_image) (rule inj_on_subset [OF d(1)], auto)
    ultimately show ?thesis by simp
  qed
  moreover have "card (set qs) = card ?in + card ?out"
    by (subst card_Un_disjoint [symmetric]) (auto intro: arg_cong [where f = card])
  moreover have "card P \<le> card (lefts mr)" using P(1) by (intro card_mono) (simp_all add: lefts_def)
  ultimately show ?thesis using distinct_card [OF d(3)] P(2) card_lefts [OF inv(1)] inv(3) by linarith
qed

text \<open>The edges the result stands for.\<close>

definition matched_edges :: "int list \<Rightarrow> (nat \<times> nat) list" where
  "matched_edges mr = map (\<lambda>v. (nat (mr ! v), v)) (filter (\<lambda>v. mr ! v \<ge> 0) [0..<length mr])"

lemma matched_edges_ok:
  assumes "is_matching adj mr" "lefts mr \<subseteq> {..<length adj}"
  shows "edges_matching adj (matched_edges mr) \<and> length (matched_edges mr) = card (matched mr)"
proof -
  have s: "set (filter (\<lambda>v. mr ! v \<ge> 0) [0..<length mr]) = matched mr" by (auto simp: matched_def)
  have "distinct (map (\<lambda>v. nat (mr ! v)) (filter (\<lambda>v. mr ! v \<ge> 0) [0..<length mr]))"
    unfolding distinct_map s using assms(1) by (simp add: is_matching_def)
  moreover have "nat (mr ! v) < length adj \<and> v \<in> set (adj ! nat (mr ! v))" if "v \<in> matched mr" for v
    using assms that by (auto simp: is_matching_def lefts_def)
  moreover have "length (filter (\<lambda>v. mr ! v \<ge> 0) [0..<length mr]) = card (matched mr)"
    by (simp only: distinct_card [symmetric] distinct_filter distinct_upt s)
  ultimately show ?thesis by (auto simp: edges_matching_def matched_edges_def comp_def matched_def)
qed

section \<open>Properties\<close>

text \<open>Kuhn's algorithm is maximal: on every bipartite graph it returns, the pairs of the result are a matching along edges of the
  graph, the count it reports is their number, and no matching of the graph has more.\<close>

lemma kuhn_matching_maximum:
  assumes "graph_ok left_n right_n adj" "edges_matching adj qs"
  shows "\<exists>mr n. kuhn_matching left_n right_n adj = Some (mr, n) \<and> length mr = right_n \<and> edges_matching adj (matched_edges mr) \<and>
    length (matched_edges mr) = n \<and> length qs \<le> n"
proof -
  obtain mr n S where r: "kuhn_matching left_n right_n adj = Some (mr, n)" "kuhn_inv right_n adj left_n (mr, n) S"
    using kuhn_loop [OF assms(1) order_refl] by (auto simp: kuhn_matching_def)
  then show ?thesis
    using closed_bound [OF assms(1) r(2) assms(2)] matched_edges_ok [of adj mr] assms(1) by (auto simp: kuhn_inv_def graph_ok_def)
qed

lemma kuhn_matching_maximum_witness: "\<exists>mr n. kuhn_matching 2 2 [[0, 1], [0]] = Some (mr, n) \<and> 2 \<le> n"
proof -
  have "graph_ok 2 2 [[0, 1], [0]]" by (simp add: graph_ok_def)
  moreover have "edges_matching [[0, 1], [0]] [(0, 1), (1, 0)]" by (simp add: edges_matching_def)
  ultimately show ?thesis using kuhn_matching_maximum [of 2 2 "[[0, 1], [0]]" "[(0, 1), (1, 0)]"] by auto
qed

end
