(* ===== verification/Triage.thy ===== *)
theory Triage
  imports Binary_Heap Geo_Base
begin

text \<open>
  Alerts and their triage, \<^verbatim>\<open>include/safetrail/alert/alert.hpp\<close>, \<^verbatim>\<open>triage.hpp\<close> and \<^verbatim>\<open>src/alert/alert.cpp\<close>:
  the score that ranks an alert and the queue on it, the binary heap of \<open>Binary_Heap\<close> with the comparator
  \<open>MoreUrgent\<close>. The comparator is shown to be an order, so the heap lemmas apply to it.
\<close>

datatype alert_kind =
  ZoneBreach | ZoneApproaching | ZoneUncertain | DwellExceeded | Straggler | GroupFragmented
| RouteDeviation | Stationary | SignalLost | SosTriggered

datatype alert_state = AlertOpen | Acknowledged | Dispatched | Resolved | Dismissed

record alert =
  al_id :: alert_id
  al_kind :: alert_kind
  al_state :: alert_state
  al_severity :: nat
  al_tourist :: tourist_id
  al_zone :: zone_id
  al_incident :: incident_id
  al_position :: lat_lon
  al_accuracy_m :: real
  al_raised_ms :: timestamp
  al_acknowledged_ms :: timestamp
  al_eta_s :: real
  al_note :: string
  al_priority :: real

definition blank_alert :: "alert_kind \<Rightarrow> alert" where
  "blank_alert k = \<lparr>al_id = kNoId, al_kind = k, al_state = AlertOpen, al_severity = 1, al_tourist = kNoId, al_zone = kNoId,
     al_incident = kNoId, al_position = \<lparr>lat = 0, lon = 0\<rparr>, al_accuracy_m = 0, al_raised_ms = 0, al_acknowledged_ms = 0,
     al_eta_s = 0, al_note = [], al_priority = 0\<rparr>"

fun kind_string :: "alert_kind \<Rightarrow> string" where
  "kind_string ZoneBreach = ''ZONE BREACH''"
| "kind_string ZoneApproaching = ''APPROACHING''"
| "kind_string ZoneUncertain = ''UNCERTAIN''"
| "kind_string DwellExceeded = ''DWELL EXCEEDED''"
| "kind_string Straggler = ''STRAGGLER''"
| "kind_string GroupFragmented = ''GROUP SPLIT''"
| "kind_string RouteDeviation = ''ROUTE DEVIATION''"
| "kind_string Stationary = ''STATIONARY''"
| "kind_string SignalLost = ''SIGNAL LOST''"
| "kind_string SosTriggered = ''SOS''"

fun state_string :: "alert_state \<Rightarrow> string" where
  "state_string AlertOpen = ''open''"
| "state_string Acknowledged = ''ack''"
| "state_string Dispatched = ''dispatched''"
| "state_string Resolved = ''resolved''"
| "state_string Dismissed = ''dismissed''"

record triage_weights =
  per_severity :: real
  per_age_minute :: real
  per_isolation_km :: real
  sos_boost :: real

definition default_weights :: triage_weights where
  "default_weights = \<lparr>per_severity = 1, per_age_minute = 1 / 2, per_isolation_km = 1 / 10, sos_boost = 100\<rparr>"

definition triage_score :: "alert \<Rightarrow> timestamp \<Rightarrow> real \<Rightarrow> triage_weights \<Rightarrow> real" where
  "triage_score a now_ms nearest_responder_m w =
     (let sev = real (al_severity a);
          age_min = (if now_ms > al_raised_ms a then of_int (now_ms - al_raised_ms a) / 60000 else 0);
          iso_km = nearest_responder_m / 1000;
          s = per_severity w * sev + per_age_minute w * age_min + per_isolation_km w * iso_km
      in if al_kind a = SosTriggered then s + sos_boost w else s)"

definition more_urgent :: "alert \<Rightarrow> alert \<Rightarrow> bool" where
  "more_urgent a b \<longleftrightarrow> al_priority a > al_priority b"

definition tq_push :: "alert list \<Rightarrow> alert \<Rightarrow> alert list" where
  "tq_push q a = heap_push more_urgent q a"

definition tq_top :: "alert list \<Rightarrow> alert" where
  "tq_top q = heap_top q"

definition tq_pop :: "alert list \<Rightarrow> (alert \<times> alert list) option" where
  "tq_pop q = heap_pop more_urgent q"

definition tq_empty :: "alert list \<Rightarrow> bool" where
  "tq_empty q \<longleftrightarrow> q = []"

definition tq_size :: "alert list \<Rightarrow> nat" where
  "tq_size q = length q"

interpretation urgency: heap_order more_urgent
  by unfold_locales (auto simp: more_urgent_def)

section \<open>The order of triage\<close>

text \<open>The operator's loop: pop until the queue is empty.\<close>

fun tq_drain :: "nat \<Rightarrow> alert list \<Rightarrow> alert list" where
  "tq_drain 0 q = []"
| "tq_drain (Suc n) q = (case tq_pop q of None \<Rightarrow> [] | Some (a, q') \<Rightarrow> a # tq_drain n q')"

definition tq_pushes :: "alert list \<Rightarrow> alert list" where
  "tq_pushes as = foldl tq_push [] as"

lemma tq_drain_heap: "tq_drain n q = heap_drain more_urgent n q"
  by (induction n arbitrary: q) (simp_all add: tq_pop_def split: option.split)

lemma tq_pushes_ordered: "heap_ordered more_urgent (tq_pushes as) \<and> mset (tq_pushes as) = mset as"
proof (induction as rule: rev_induct)
  case Nil
  then show ?case by (simp add: tq_pushes_def heap_ordered_def)
next
  case (snoc a as)
  have "tq_pushes (as @ [a]) = heap_push more_urgent (tq_pushes as) a" by (simp add: tq_pushes_def tq_push_def)
  then show ?case using snoc urgency.push_heap_ordered [of "tq_pushes as" a] urgency.mset_push [of "tq_pushes as" a] by simp
qed

text \<open>Triage hands the operator every alert, the most urgent first: popping the whole queue yields the alerts pushed,
  none lost or repeated, in order of falling priority, and the top is one of the highest priority.\<close>

lemma triage_most_urgent_first:
  "mset (tq_drain (length as) (tq_pushes as)) = mset as \<and>
   sorted_wrt (\<lambda>a b. al_priority a \<ge> al_priority b) (tq_drain (length as) (tq_pushes as)) \<and>
   (as = [] \<or> al_priority (tq_top (tq_pushes as)) = Max (al_priority ` set as))"
proof -
  have o: "heap_ordered more_urgent (tq_pushes as)" and m: "mset (tq_pushes as) = mset as" using tq_pushes_ordered by blast+
  have l: "length (tq_pushes as) = length as" using arg_cong [OF m, of size] by simp
  have s: "set (tq_pushes as) = set as" using m by (rule mset_eq_setD)
  have "al_priority (tq_top (tq_pushes as)) = Max (al_priority ` set as)" if "as \<noteq> []"
  proof (rule Max_eqI [symmetric])
    have ne: "tq_pushes as \<noteq> []" using that l by auto
    then show "al_priority (tq_top (tq_pushes as)) \<in> al_priority ` set as" using s by (simp add: tq_top_def heap_top_def) (metis hd_in_set image_eqI)
    fix p assume "p \<in> al_priority ` set as"
    then obtain i where "i < length (tq_pushes as)" "p = al_priority (tq_pushes as ! i)" unfolding s [symmetric] by (auto simp: in_set_conv_nth)
    then show "p \<le> al_priority (tq_top (tq_pushes as))"
      using urgency.heap_top_least [OF o] ne by (auto simp: more_urgent_def tq_top_def heap_top_def hd_conv_nth not_less)
  qed simp
  then show ?thesis using urgency.pops_ordered [OF o] m l by (auto simp: tq_drain_heap more_urgent_def not_less)
qed

lemma triage_score_documented:
  "triage_score ((blank_alert Stationary)\<lparr>al_severity := 3\<rparr>) 240000 20000 default_weights = 7 \<and>
   triage_score ((blank_alert Stationary)\<lparr>al_severity := 4\<rparr>) 0 0 default_weights = 4"
  by (simp add: triage_score_def blank_alert_def default_weights_def)

end
