(* ===== verification/Correlator.thy ===== *)
theory Correlator
  imports Triage Rollback_DSU
begin

text \<open>
  Alert correlation, \<^verbatim>\<open>include/safetrail/alert/correlator.hpp\<close> and \<^verbatim>\<open>src/alert/correlator.cpp\<close>: a batch of alerts is clustered by
  union-find over the pairs near in space and time, and every cluster is folded into a live incident or opens incidents of its own.
  An alert enters exactly one incident, and the circle of an incident covers all its alerts. Positions and radii are exact reals,
  times unbounded integers; \<open>None\<close> would be a find that used up its fuel.
\<close>

record correlation_config =
  space_radius_m :: real
  time_window_ms :: int
  min_cluster :: nat
  same_zone_only :: bool

datatype incident_status = IncidentOpen | IncidentClosed

fun incident_status_string :: "incident_status \<Rightarrow> string" where
  "incident_status_string IncidentOpen = ''open''"
| "incident_status_string IncidentClosed = ''closed''"

record incident_card =
  ic_id :: incident_id
  ic_status :: incident_status
  opened_ms :: timestamp
  last_update_ms :: timestamp
  closed_ms :: timestamp
  centroid :: lat_lon
  ic_radius_m :: real
  ic_alerts :: "alert_id list"
  affected :: "tourist_id list"
  alert_positions :: "lat_lon list"
  max_severity :: nat

definition people :: "incident_card \<Rightarrow> nat" where
  "people inc = length (affected inc)"

definition is_open :: "incident_card \<Rightarrow> bool" where
  "is_open inc \<longleftrightarrow> ic_status inc = IncidentOpen"

definition outranks :: "incident_card \<Rightarrow> incident_card \<Rightarrow> bool" where
  "outranks a b =
     (if people a \<noteq> people b then people a > people b
      else if max_severity a \<noteq> max_severity b then max_severity a > max_severity b
      else ic_id a < ic_id b)"

record corr_stats =
  alerts_ingested :: nat
  incidents_opened :: nat
  incidents_closed :: nat
  alerts_absorbed :: nat

definition compression_ratio :: "corr_stats \<Rightarrow> real" where
  "compression_ratio s = (if incidents_opened s \<noteq> 0 then of_nat (alerts_ingested s) / of_nat (incidents_opened s) else 1)"

record correlator =
  co_cfg :: correlation_config
  co_incidents :: "incident_card list"
  open_idx :: "nat list"
  co_stats :: corr_stats

definition corr_init :: "correlation_config \<Rightarrow> correlator" where
  "corr_init cfg = \<lparr>co_cfg = cfg, co_incidents = [], open_idx = [],
     co_stats = \<lparr>alerts_ingested = 0, incidents_opened = 0, incidents_closed = 0, alerts_absorbed = 0\<rparr>\<rparr>"

section \<open>Incidents\<close>

definition add_alert :: "incident_card \<Rightarrow> alert \<Rightarrow> incident_card" where
  "add_alert inc a =
     inc\<lparr>ic_alerts := ic_alerts inc @ [al_id a], alert_positions := alert_positions inc @ [al_position a],
         affected := (if al_tourist a \<in> set (affected inc) then affected inc else affected inc @ [al_tourist a]),
         opened_ms := min (opened_ms inc) (al_raised_ms a), last_update_ms := max (last_update_ms inc) (al_raised_ms a),
         max_severity := max (max_severity inc) (al_severity a)\<rparr>"

definition mean_pos :: "lat_lon list \<Rightarrow> lat_lon" where
  "mean_pos ps =
     (let (slat, slon) = foldl (\<lambda>(slat, slon) p. (slat + lat p, slon + lon p)) (0, 0) ps
      in \<lparr>lat = slat / of_nat (length ps), lon = slon / of_nat (length ps)\<rparr>)"

definition reach_m :: "lat_lon \<Rightarrow> lat_lon list \<Rightarrow> real" where
  "reach_m c ps = foldl (\<lambda>r p. max r (distance_m c p)) 0 ps"

definition merge_into :: "incident_card \<Rightarrow> nat list \<Rightarrow> alert list \<Rightarrow> incident_card" where
  "merge_into inc cl fresh =
     (let inc = foldl (\<lambda>inc idx. add_alert inc (fresh ! idx)) inc cl;
          inc = inc\<lparr>centroid := mean_pos (alert_positions inc)\<rparr>
      in inc\<lparr>ic_radius_m := reach_m (centroid inc) (alert_positions inc)\<rparr>)"

definition lone_incident :: "nat \<Rightarrow> alert \<Rightarrow> incident_card" where
  "lone_incident n a =
     \<lparr>ic_id = uint32_of n, ic_status = IncidentOpen, opened_ms = al_raised_ms a, last_update_ms = al_raised_ms a, closed_ms = 0,
      centroid = al_position a, ic_radius_m = al_accuracy_m a, ic_alerts = [al_id a], affected = [al_tourist a],
      alert_positions = [al_position a], max_severity = al_severity a\<rparr>"

definition cluster_incident :: "nat \<Rightarrow> nat list \<Rightarrow> alert list \<Rightarrow> incident_card" where
  "cluster_incident n cl fresh =
     (let inc = foldl (\<lambda>inc idx. add_alert inc (fresh ! idx))
                  \<lparr>ic_id = uint32_of n, ic_status = IncidentOpen, opened_ms = int64_max, last_update_ms = 0, closed_ms = 0,
                   centroid = \<lparr>lat = 0, lon = 0\<rparr>, ic_radius_m = 0, ic_alerts = [], affected = [], alert_positions = [], max_severity = 0\<rparr> cl;
          inc = inc\<lparr>centroid := mean_pos (map (\<lambda>idx. al_position (fresh ! idx)) cl)\<rparr>
      in inc\<lparr>ic_radius_m := reach_m (centroid inc) (map (\<lambda>idx. al_position (fresh ! idx)) cl)\<rparr>)"

section \<open>Ingesting a batch\<close>

definition near_pair :: "correlation_config \<Rightarrow> alert list \<Rightarrow> nat \<times> nat \<Rightarrow> bool" where
  "near_pair cfg fresh ij =
     (let a = fresh ! fst ij; b = fresh ! snd ij in
      \<not> (same_zone_only cfg \<and> al_zone a \<noteq> al_zone b) \<and>
      distance_m (al_position a) (al_position b) \<le> space_radius_m cfg \<and> \<bar>al_raised_ms a - al_raised_ms b\<bar> \<le> time_window_ms cfg)"

definition near_pairs :: "correlation_config \<Rightarrow> alert list \<Rightarrow> (nat \<times> nat) list" where
  "near_pairs cfg fresh =
     filter (near_pair cfg fresh) (concat (map (\<lambda>i. map (\<lambda>j. (i, j)) [i + 1..<length fresh]) [0..<length fresh]))"

definition batch_clusters :: "correlation_config \<Rightarrow> alert list \<Rightarrow> nat list list option" where
  "batch_clusters cfg fresh =
     (case unite_all (dsu_init (length fresh)) (near_pairs cfg fresh) of None \<Rightarrow> None | Some d \<Rightarrow> dsu_components d)"

definition batch_now :: "alert list \<Rightarrow> timestamp" where
  "batch_now fresh = foldl (\<lambda>t a. max t (al_raised_ms a)) (al_raised_ms (hd fresh)) fresh"

definition retire :: "timestamp \<Rightarrow> correlator \<Rightarrow> correlator" where
  "retire now c =
     c\<lparr>open_idx := filter (\<lambda>idx. is_open (co_incidents c ! idx) \<and>
         now - last_update_ms (co_incidents c ! idx) \<le> time_window_ms (co_cfg c)) (open_idx c)\<rparr>"

definition nearest_open :: "correlator \<Rightarrow> lat_lon \<Rightarrow> timestamp \<Rightarrow> nat option" where
  "nearest_open c ccent cmin =
     fst (foldl (\<lambda>(best, best_d) oi.
        (let inc = co_incidents c ! oi in
         if \<not> is_open inc then (best, best_d)
         else if cmin - last_update_ms inc > time_window_ms (co_cfg c) then (best, best_d)
         else (let d = distance_m ccent (centroid inc) in if d \<le> best_d then (Some oi, d) else (best, best_d))))
        (None, space_radius_m (co_cfg c)) (open_idx c))"

definition on_stats :: "(corr_stats \<Rightarrow> corr_stats) \<Rightarrow> correlator \<Rightarrow> correlator" where
  "on_stats f c = c\<lparr>co_stats := f (co_stats c)\<rparr>"

definition open_incident :: "incident_card \<Rightarrow> correlator \<Rightarrow> correlator" where
  "open_incident inc c =
     on_stats (\<lambda>s. s\<lparr>incidents_opened := incidents_opened s + 1\<rparr>)
       (c\<lparr>open_idx := open_idx c @ [length (co_incidents c)], co_incidents := co_incidents c @ [inc]\<rparr>)"

fun open_lone :: "alert list \<Rightarrow> incident_id list \<times> correlator \<Rightarrow> nat \<Rightarrow> incident_id list \<times> correlator" where
  "open_lone fresh (touched, c) idx =
     (let inc = lone_incident (length (co_incidents c)) (fresh ! idx) in (touched @ [ic_id inc], open_incident inc c))"

fun route_cluster :: "alert list \<Rightarrow> incident_id list \<times> correlator \<Rightarrow> nat list \<Rightarrow> incident_id list \<times> correlator" where
  "route_cluster fresh (touched, c) cl =
     (let ccent = mean_pos (map (\<lambda>idx. al_position (fresh ! idx)) cl);
          cmin = foldl (\<lambda>m idx. min m (al_raised_ms (fresh ! idx))) int64_max cl
      in case nearest_open c ccent cmin of
           Some best \<Rightarrow>
             (let inc = merge_into (co_incidents c ! best) cl fresh
              in (touched @ [ic_id inc],
                  on_stats (\<lambda>s. s\<lparr>alerts_absorbed := alerts_absorbed s + length cl\<rparr>)
                    (c\<lparr>co_incidents := (co_incidents c)[best := inc]\<rparr>)))
         | None \<Rightarrow>
             if length cl < min_cluster (co_cfg c) then foldl (open_lone fresh) (touched, c) cl
             else
               (let inc = cluster_incident (length (co_incidents c)) cl fresh
                in (touched @ [ic_id inc],
                    on_stats (\<lambda>s. s\<lparr>alerts_absorbed := alerts_absorbed s + (length cl - 1)\<rparr>) (open_incident inc c))))"

definition corr_ingest :: "alert list \<Rightarrow> correlator \<Rightarrow> (incident_id list \<times> correlator) option" where
  "corr_ingest fresh c =
     (if fresh = [] then Some ([], c)
      else
        (let c = on_stats (\<lambda>s. s\<lparr>alerts_ingested := alerts_ingested s + length fresh\<rparr>) c;
             c = retire (batch_now fresh) c
         in map_option (foldl (route_cluster fresh) ([], c)) (batch_clusters (co_cfg c) fresh)))"

section \<open>The board\<close>

definition get_incident :: "correlator \<Rightarrow> incident_id \<Rightarrow> incident_card option" where
  "get_incident c i = (if i < length (co_incidents c) then Some (co_incidents c ! i) else None)"

definition open_incidents :: "correlator \<Rightarrow> incident_card list" where
  "open_incidents c = filter is_open (co_incidents c)"

definition all_incidents :: "correlator \<Rightarrow> incident_card list" where
  "all_incidents c = co_incidents c"

definition open_count :: "correlator \<Rightarrow> nat" where
  "open_count c = foldl (\<lambda>n i. if is_open i then n + 1 else n) 0 (co_incidents c)"

definition close_incident :: "incident_id \<Rightarrow> timestamp \<Rightarrow> correlator \<Rightarrow> bool \<times> correlator" where
  "close_incident i at_ms c =
     (if i \<ge> length (co_incidents c) then (False, c)
      else if \<not> is_open (co_incidents c ! i) then (False, c)
      else (True, on_stats (\<lambda>s. s\<lparr>incidents_closed := incidents_closed s + 1\<rparr>)
              (c\<lparr>co_incidents := (co_incidents c)[i := (co_incidents c ! i)\<lparr>ic_status := IncidentClosed, closed_ms := at_ms\<rparr>],
                 open_idx := remove1 i (open_idx c)\<rparr>)))"

fun insert_ranked :: "incident_card \<Rightarrow> incident_card list \<Rightarrow> incident_card list" where
  "insert_ranked x [] = [x]"
| "insert_ranked x (y # ys) = (if outranks y x then y # insert_ranked x ys else x # y # ys)"

definition rank_by_seriousness :: "incident_card list \<Rightarrow> incident_card list" where
  "rank_by_seriousness v = foldr insert_ranked v []"

section \<open>What a card promises\<close>

text \<open>The circle drawn on the map bounds every alert of the incident.\<close>

definition covers :: "incident_card \<Rightarrow> bool" where
  "covers inc \<longleftrightarrow> list_all (\<lambda>p. distance_m (centroid inc) p \<le> ic_radius_m inc) (alert_positions inc)"

definition card_ok :: "incident_card \<Rightarrow> bool" where
  "card_ok inc \<longleftrightarrow> covers inc \<and> length (ic_alerts inc) = length (alert_positions inc) \<and> distinct (affected inc)"

definition corr_inv :: "correlator \<Rightarrow> bool" where
  "corr_inv c \<longleftrightarrow> list_all card_ok (co_incidents c) \<and> distinct (open_idx c) \<and>
     list_all (\<lambda>i. i < length (co_incidents c) \<and> is_open (co_incidents c ! i)) (open_idx c)"

definition filed :: "correlator \<Rightarrow> alert_id list" where
  "filed c = concat (map ic_alerts (co_incidents c))"

text \<open>Cards are only added to: a closed card stays as it is, an open one keeps its id and the alerts it has.\<close>

definition grows :: "correlator \<Rightarrow> correlator \<Rightarrow> bool" where
  "grows c c' \<longleftrightarrow> co_cfg c' = co_cfg c \<and> length (co_incidents c) \<le> length (co_incidents c') \<and>
     (\<forall>i < length (co_incidents c).
        (\<not> is_open (co_incidents c ! i) \<longrightarrow> co_incidents c' ! i = co_incidents c ! i) \<and>
        (is_open (co_incidents c ! i) \<longrightarrow> is_open (co_incidents c' ! i)))"

lemma grows_refl [simp]: "grows c c"
  by (simp add: grows_def)

lemma grows_trans: "grows a b \<Longrightarrow> grows b c \<Longrightarrow> grows a c"
  unfolding grows_def by (metis order_trans order_less_le_trans)

lemma reach_covers: "p \<in> set ps \<Longrightarrow> distance_m c p \<le> reach_m c ps"
proof -
  have "r \<le> foldl (\<lambda>r p. max r (distance_m c p)) r ps \<and> (p \<in> set ps \<longrightarrow> distance_m c p \<le> foldl (\<lambda>r p. max r (distance_m c p)) r ps)" for r
  proof (induction ps arbitrary: r)
    case (Cons q ps)
    have "max r (distance_m c q) \<le> foldl (\<lambda>r p. max r (distance_m c p)) (max r (distance_m c q)) ps" using Cons.IH by blast
    then have "r \<le> foldl (\<lambda>r p. max r (distance_m c p)) r (q # ps)" "distance_m c q \<le> foldl (\<lambda>r p. max r (distance_m c p)) r (q # ps)" by simp_all
    then show ?case using Cons.IH [of "max r (distance_m c q)"] by auto
  qed simp
  then show "p \<in> set ps \<Longrightarrow> distance_m c p \<le> reach_m c ps" by (simp add: reach_m_def)
qed

lemma add_alerts:
  "let inc' = foldl (\<lambda>inc idx. add_alert inc (fresh ! idx)) inc cl in
     ic_alerts inc' = ic_alerts inc @ map (\<lambda>idx. al_id (fresh ! idx)) cl \<and>
     alert_positions inc' = alert_positions inc @ map (\<lambda>idx. al_position (fresh ! idx)) cl \<and>
     (distinct (affected inc) \<longrightarrow> distinct (affected inc')) \<and> ic_status inc' = ic_status inc \<and> ic_id inc' = ic_id inc"
  by (induction cl arbitrary: inc) (auto simp: Let_def add_alert_def)

lemma merge_into_ok:
  assumes "card_ok inc"
  shows "card_ok (merge_into inc cl fresh)" "ic_alerts (merge_into inc cl fresh) = ic_alerts inc @ map (\<lambda>idx. al_id (fresh ! idx)) cl"
    "is_open (merge_into inc cl fresh) = is_open inc"
  using add_alerts [of fresh inc cl] assms reach_covers
  by (auto simp: merge_into_def Let_def card_ok_def covers_def list_all_iff is_open_def)

lemma cluster_incident_ok:
  "card_ok (cluster_incident n cl fresh)" "ic_alerts (cluster_incident n cl fresh) = map (\<lambda>idx. al_id (fresh ! idx)) cl"
  "is_open (cluster_incident n cl fresh)"
proof -
  define inc0 where "inc0 = \<lparr>ic_id = uint32_of n, ic_status = IncidentOpen, opened_ms = int64_max, last_update_ms = 0, closed_ms = 0,
    centroid = \<lparr>lat = 0, lon = 0\<rparr>, ic_radius_m = 0, ic_alerts = [], affected = [], alert_positions = [], max_severity = 0\<rparr>"
  have i: "ic_alerts inc0 = []" "alert_positions inc0 = []" "affected inc0 = []" "ic_status inc0 = IncidentOpen" by (simp_all add: inc0_def)
  show "card_ok (cluster_incident n cl fresh)" "ic_alerts (cluster_incident n cl fresh) = map (\<lambda>idx. al_id (fresh ! idx)) cl"
    "is_open (cluster_incident n cl fresh)"
    using add_alerts [of fresh inc0 cl] i reach_covers unfolding cluster_incident_def inc0_def [symmetric]
    by (auto simp: Let_def card_ok_def covers_def list_all_iff is_open_def)
qed

lemma distance_self: "distance_m p p = 0"
  by (simp add: distance_m_def haversine_def)

lemma lone_incident_ok:
  assumes "0 \<le> al_accuracy_m a"
  shows "card_ok (lone_incident n a)" "ic_alerts (lone_incident n a) = [al_id a]" "is_open (lone_incident n a)"
  using assms by (simp_all add: lone_incident_def card_ok_def covers_def distance_self is_open_def)

section \<open>A batch\<close>

lemma on_stats_simps [simp]:
  "co_incidents (on_stats f c) = co_incidents c" "open_idx (on_stats f c) = open_idx c" "co_cfg (on_stats f c) = co_cfg c"
  "corr_inv (on_stats f c) = corr_inv c" "filed (on_stats f c) = filed c" "grows b (on_stats f c) = grows b c" "grows (on_stats f c) b = grows c b"
  by (simp_all add: on_stats_def corr_inv_def filed_def grows_def)

lemma open_incident_ok:
  assumes "corr_inv c" "card_ok inc" "is_open inc"
  shows "corr_inv (open_incident inc c)" "filed (open_incident inc c) = filed c @ ic_alerts inc" "grows c (open_incident inc c)"
  using assms by (auto simp: open_incident_def corr_inv_def filed_def grows_def list_all_iff nth_append)

lemma nearest_open_member:
  assumes "nearest_open c p t = Some oi"
  shows "oi \<in> set (open_idx c)"
proof -
  have "fst (foldl f (b, d) xs) = Some oi \<Longrightarrow> (\<And>b d x. fst (f (b, d) x) \<in> {b, Some x}) \<Longrightarrow> b = Some oi \<or> oi \<in> set xs"
    for f :: "nat option \<times> real \<Rightarrow> nat \<Rightarrow> nat option \<times> real" and b d xs
  proof (induction xs arbitrary: b d)
    case (Cons x xs)
    obtain b' d' where f: "f (b, d) x = (b', d')" by fastforce
    then have "b' = b \<or> b' = Some x" using Cons.prems(2) [of b d x] by auto
    moreover have "b' = Some oi \<or> oi \<in> set xs" using Cons.IH [of b' d'] Cons.prems f by simp
    ultimately show ?case by auto
  qed simp
  then show ?thesis using assms unfolding nearest_open_def by (force simp: Let_def split: if_splits)
qed

lemma mset_concat_append:
  "i < length xss \<Longrightarrow> mset (concat (xss[i := xss ! i @ ys])) = mset (concat xss) + mset ys"
  by (induction xss arbitrary: i) (auto split: nat.splits)

lemma merge_card_ok:
  fixes fresh :: "alert list" and cl :: "nat list"
  assumes inv: "corr_inv c" and b: "b \<in> set (open_idx c)"
  defines "c' \<equiv> c\<lparr>co_incidents := (co_incidents c)[b := merge_into (co_incidents c ! b) cl fresh]\<rparr>"
  shows "corr_inv c'" "mset (filed c') = mset (filed c) + mset (map (\<lambda>idx. al_id (fresh ! idx)) cl)" "grows c c'"
proof -
  have bl: "b < length (co_incidents c)" "is_open (co_incidents c ! b)" using inv b by (auto simp: corr_inv_def list_all_iff)
  then have ok: "card_ok (co_incidents c ! b)" using inv by (simp add: corr_inv_def list_all_length)
  note m = merge_into_ok [OF ok, of cl fresh]
  show "corr_inv c'" using inv m(1,3) bl by (auto simp: corr_inv_def c'_def list_all_length nth_list_update)
  have "map ic_alerts (co_incidents c') = (map ic_alerts (co_incidents c))[b := map ic_alerts (co_incidents c) ! b @ map (\<lambda>idx. al_id (fresh ! idx)) cl]"
    using m(2) bl by (simp add: c'_def map_update)
  then show "mset (filed c') = mset (filed c) + mset (map (\<lambda>idx. al_id (fresh ! idx)) cl)"
    unfolding filed_def using mset_concat_append [of b "map ic_alerts (co_incidents c)"] bl(1) by simp
  show "grows c c'" using m(3) bl by (auto simp: grows_def c'_def nth_list_update)
qed

lemma open_lone_ok:
  assumes "\<And>a. a \<in> set fresh \<Longrightarrow> 0 \<le> al_accuracy_m a"
  shows "corr_inv c \<Longrightarrow> set cl \<subseteq> {..<length fresh} \<Longrightarrow>
    (let c' = snd (foldl (open_lone fresh) (touched, c) cl) in
     corr_inv c' \<and> mset (filed c') = mset (filed c) + mset (map (\<lambda>idx. al_id (fresh ! idx)) cl) \<and> grows c c')"
proof (induction cl arbitrary: touched c)
  case Nil
  then show ?case by simp
next
  case (Cons idx cl)
  let ?inc = "lone_incident (length (co_incidents c)) (fresh ! idx)"
  have "0 \<le> al_accuracy_m (fresh ! idx)" using assms Cons.prems(2) by simp
  note l = lone_incident_ok [OF this, of "length (co_incidents c)"]
  note o = open_incident_ok [OF Cons.prems(1) l(1,3)]
  show ?case using Cons.IH [OF o(1), of "touched @ [ic_id ?inc]"] Cons.prems(2) o(2,3) l(2) grows_trans [OF o(3)] by (simp add: Let_def)
qed

lemma route_cluster_ok:
  assumes acc: "\<And>a. a \<in> set fresh \<Longrightarrow> 0 \<le> al_accuracy_m a" and inv: "corr_inv c" and cl: "set cl \<subseteq> {..<length fresh}"
  shows "let c' = snd (route_cluster fresh (touched, c) cl) in
     corr_inv c' \<and> mset (filed c') = mset (filed c) + mset (map (\<lambda>idx. al_id (fresh ! idx)) cl) \<and> grows c c'"
proof -
  define near where "near = nearest_open c (mean_pos (map (\<lambda>idx. al_position (fresh ! idx)) cl))
    (foldl (\<lambda>m idx. min m (al_raised_ms (fresh ! idx))) int64_max cl)"
  show ?thesis
  proof (cases near)
    case (Some b)
    then have "b \<in> set (open_idx c)" using nearest_open_member unfolding near_def by blast
    from merge_card_ok [OF inv this, of cl fresh] show ?thesis using Some unfolding near_def by (simp add: Let_def)
  next
    case None
    show ?thesis
    proof (cases "length cl < min_cluster (co_cfg c)")
      case True
      then show ?thesis using open_lone_ok [OF acc inv cl, of touched] None unfolding near_def by (simp add: Let_def)
    next
      case False
      then show ?thesis
        using open_incident_ok [OF inv cluster_incident_ok(1,3), of "length (co_incidents c)" cl fresh] cluster_incident_ok(2) None
        unfolding near_def by (simp add: Let_def)
    qed
  qed
qed

text \<open>The clusters of a batch share the alerts out.\<close>

lemma mset_classes:
  "distinct rs \<Longrightarrow> (\<forall>x \<in> set xs. f x \<in> set rs) \<Longrightarrow> mset (concat (map (\<lambda>r. filter (\<lambda>x. f x = r) xs) rs)) = mset xs"
proof (induction rs arbitrary: xs)
  case Nil
  then have "xs = []" by auto
  then show ?case by simp
next
  case (Cons r rs)
  let ?ys = "filter (\<lambda>x. f x \<noteq> r) xs"
  have "filter (\<lambda>x. f x = s) xs = filter (\<lambda>x. f x = s) ?ys" if "s \<in> set rs" for s
    using that Cons.prems(1) by (auto simp: filter_filter intro!: filter_cong)
  then have e: "map (\<lambda>s. filter (\<lambda>x. f x = s) xs) rs = map (\<lambda>s. filter (\<lambda>x. f x = s) ?ys) rs" by (intro map_cong) simp_all
  have "mset (concat (map (\<lambda>s. filter (\<lambda>x. f x = s) ?ys) rs)) = mset ?ys" using Cons.IH [of ?ys] Cons.prems by auto
  then have "mset (concat (map (\<lambda>s. filter (\<lambda>x. f x = s) xs) rs)) = mset ?ys" unfolding e .
  then show ?case using multiset_partition [of "mset xs" "\<lambda>x. f x = r"] by simp
qed

lemma near_pairs_in: "edges_in (length fresh) (near_pairs cfg fresh)"
  by (auto simp: edges_in_def near_pairs_def)

lemma batch_clusters_share:
  "\<exists>out. batch_clusters cfg fresh = Some out \<and> mset (concat out) = mset [0..<length fresh]"
proof -
  obtain d where d: "unite_all (dsu_init (length fresh)) (near_pairs cfg fresh) = Some d" "dsu_inv d" "nodes d = length fresh"
    using unite_all_init [OF near_pairs_in] by metis
  obtain rs where rs: "distinct rs" "set rs = roots d" "dsu_components d = Some (map (class_of d [0..<length fresh]) rs)"
    using components_correct [OF d(2)] d(3) by metis
  have "\<forall>x \<in> set [0..<length fresh]. rep d x \<in> set rs" using rs(2) dsu_find_rep(2) [OF d(2)] d(3) by simp
  from mset_classes [OF rs(1) this] show ?thesis using d(1) rs(3) by (simp add: batch_clusters_def class_of_def [abs_def])
qed

lemma route_all_ok:
  assumes acc: "\<And>a. a \<in> set fresh \<Longrightarrow> 0 \<le> al_accuracy_m a"
  shows "corr_inv c \<Longrightarrow> set (concat cls) \<subseteq> {..<length fresh} \<Longrightarrow>
    (let c' = snd (foldl (route_cluster fresh) (touched, c) cls) in
     corr_inv c' \<and> mset (filed c') = mset (filed c) + mset (map (\<lambda>idx. al_id (fresh ! idx)) (concat cls)) \<and> grows c c')"
proof (induction cls arbitrary: touched c)
  case Nil
  then show ?case by simp
next
  case (Cons cl cls)
  obtain t1 c1 where r: "route_cluster fresh (touched, c) cl = (t1, c1)" by fastforce
  have one: "corr_inv c1" "mset (filed c1) = mset (filed c) + mset (map (\<lambda>idx. al_id (fresh ! idx)) cl)" "grows c c1"
    using route_cluster_ok [where fresh = fresh and cl = cl and touched = touched, OF acc Cons.prems(1)] Cons.prems(2) r
    by (simp_all add: Let_def del: route_cluster.simps)
  have "let c' = snd (foldl (route_cluster fresh) (t1, c1) cls) in
     corr_inv c' \<and> mset (filed c') = mset (filed c1) + mset (map (\<lambda>idx. al_id (fresh ! idx)) (concat cls)) \<and> grows c1 c'"
    using Cons.IH [OF one(1)] Cons.prems(2) by simp
  then show ?case using one(2) grows_trans [OF one(3)] r by (simp add: Let_def del: route_cluster.simps)
qed

lemma retire_ok:
  "corr_inv c \<Longrightarrow> corr_inv (retire now c)" "filed (retire now c) = filed c" "grows b (retire now c) = grows b c" "co_cfg (retire now c) = co_cfg c"
  by (auto simp: retire_def corr_inv_def filed_def grows_def list_all_iff)

lemma ingest_ok:
  assumes inv: "corr_inv c" and acc: "\<And>a. a \<in> set fresh \<Longrightarrow> 0 \<le> al_accuracy_m a"
  shows "\<exists>touched c'. corr_ingest fresh c = Some (touched, c') \<and> corr_inv c' \<and>
    mset (filed c') = mset (filed c) + mset (map al_id fresh) \<and> grows c c'"
proof (cases "fresh = []")
  case True
  then show ?thesis using inv by (simp add: corr_ingest_def)
next
  case False
  define c1 where "c1 = retire (batch_now fresh) (on_stats (\<lambda>s. s\<lparr>alerts_ingested := alerts_ingested s + length fresh\<rparr>) c)"
  have c1: "corr_inv c1" "filed c1 = filed c" "grows c c1"
    unfolding c1_def using inv by (simp_all add: retire_ok)
  obtain out where out: "batch_clusters (co_cfg c1) fresh = Some out" "mset (concat out) = mset [0..<length fresh]"
    using batch_clusters_share by blast
  have "set (concat out) = set [0..<length fresh]" using out(2) by (rule mset_eq_setD)
  then have sub: "set (concat out) \<subseteq> {..<length fresh}" by auto
  obtain t c' where r: "foldl (route_cluster fresh) ([], c1) out = (t, c')" by fastforce
  have "mset (map (\<lambda>idx. al_id (fresh ! idx)) (concat out)) = mset (map (\<lambda>idx. al_id (fresh ! idx)) [0..<length fresh])"
    unfolding mset_map out(2) ..
  also have "map (\<lambda>idx. al_id (fresh ! idx)) [0..<length fresh] = map al_id fresh" by (rule nth_equalityI) simp_all
  finally have ids: "mset (map (\<lambda>idx. al_id (fresh ! idx)) (concat out)) = mset (map al_id fresh)" .
  have "corr_inv c' \<and> mset (filed c') = mset (filed c) + mset (map al_id fresh) \<and> grows c1 c'"
    using route_all_ok [OF acc c1(1) sub, of "[]"] r c1(2) ids by (simp add: Let_def)
  moreover have "corr_ingest fresh c = Some (t, c')" using False out(1) r unfolding corr_ingest_def Let_def c1_def [symmetric] by simp
  ultimately show ?thesis using grows_trans [OF c1(3)] by blast
qed

lemma close_ok:
  assumes "corr_inv c"
  shows "corr_inv (snd (close_incident i t c))" "filed (snd (close_incident i t c)) = filed c"
proof -
  have "map ic_alerts ((co_incidents c)[i := (co_incidents c ! i)\<lparr>ic_status := IncidentClosed, closed_ms := t\<rparr>]) = map ic_alerts (co_incidents c)"
    by (simp add: map_update) (metis list_update_id map_update)
  then show "filed (snd (close_incident i t c)) = filed c" by (simp add: close_incident_def filed_def on_stats_def)
  show "corr_inv (snd (close_incident i t c))"
    using assms set_update_subset_insert [of "co_incidents c" i "(co_incidents c ! i)\<lparr>ic_status := IncidentClosed, closed_ms := t\<rparr>"]
      nth_mem [of i "co_incidents c"]
    by (auto simp: close_incident_def corr_inv_def list_all_iff card_ok_def covers_def)
qed

section \<open>Ranking\<close>

text \<open>The order is strict and total between cards with different ids, so the ranking is the only ordered arrangement of its input.\<close>

lemma outranks_trans: "outranks a b \<Longrightarrow> outranks b c \<Longrightarrow> outranks a c"
  by (auto simp: outranks_def split: if_splits)

lemma outranks_asym: "outranks a b \<Longrightarrow> \<not> outranks b a"
  by (auto simp: outranks_def split: if_splits)

lemma outranks_total: "ic_id a \<noteq> ic_id b \<Longrightarrow> outranks a b \<or> outranks b a"
  by (auto simp: outranks_def)

lemma insert_ranked_mset: "mset (insert_ranked x ys) = add_mset x (mset ys)"
  by (induction ys) auto

lemma insert_ranked_sorted:
  "sorted_wrt outranks ys \<Longrightarrow> \<forall>y \<in> set ys. ic_id x \<noteq> ic_id y \<Longrightarrow> sorted_wrt outranks (insert_ranked x ys)"
proof (induction ys)
  case (Cons y ys)
  have s: "set (insert_ranked x ys) = insert x (set ys)" using mset_eq_setD [OF insert_ranked_mset [of x ys, folded mset.simps(2)]] by simp
  show ?case
  proof (cases "outranks y x")
    case True
    then show ?thesis using Cons s by auto
  next
    case False
    then have "outranks x y" using outranks_total [of x y] Cons.prems(2) by auto
    then show ?thesis using False Cons.prems(1) outranks_trans by auto
  qed
qed simp

lemma rank_sorted:
  "mset (rank_by_seriousness v) = mset v" "distinct (map ic_id v) \<Longrightarrow> sorted_wrt outranks (rank_by_seriousness v)"
proof -
  show m: "mset (rank_by_seriousness v) = mset v" for v by (induction v) (simp_all add: rank_by_seriousness_def insert_ranked_mset)
  show "distinct (map ic_id v) \<Longrightarrow> sorted_wrt outranks (rank_by_seriousness v)"
  proof (induction v)
    case (Cons x v)
    have "set (foldr insert_ranked v []) = set v" using mset_eq_setD [OF m [of v]] by (simp add: rank_by_seriousness_def)
    then show ?case using Cons by (auto simp: rank_by_seriousness_def intro!: insert_ranked_sorted)
  qed (simp add: rank_by_seriousness_def)
qed

lemma sorted_outranks_unique:
  "sorted_wrt outranks xs \<Longrightarrow> sorted_wrt outranks ys \<Longrightarrow> mset xs = mset ys \<Longrightarrow> xs = ys"
proof (induction xs arbitrary: ys)
  case Nil
  then show ?case by simp
next
  case (Cons x xs)
  obtain y ys' where ys: "ys = y # ys'" using Cons.prems(3) by (cases ys) auto
  have "x \<in> set ys" "y \<in> set (x # xs)" using mset_eq_setD [OF Cons.prems(3)] ys by auto
  then have "x = y" using Cons.prems(1,2) ys outranks_asym by fastforce
  then show ?case using Cons ys by simp
qed

lemma rank_canonical:
  "distinct (map ic_id v) \<Longrightarrow> mset w = mset v \<Longrightarrow> sorted_wrt outranks w \<Longrightarrow> w = rank_by_seriousness v"
  using sorted_outranks_unique rank_sorted by metis

section \<open>Runs\<close>

datatype corr_op = IngestBatch "alert list" | CloseCard incident_id timestamp

fun corr_run :: "corr_op list \<Rightarrow> correlator \<Rightarrow> correlator option" where
  "corr_run [] c = Some c"
| "corr_run (IngestBatch fresh # ops) c = (case corr_ingest fresh c of None \<Rightarrow> None | Some (touched, c) \<Rightarrow> corr_run ops c)"
| "corr_run (CloseCard i t # ops) c = corr_run ops (snd (close_incident i t c))"

fun batch_of :: "corr_op \<Rightarrow> alert list" where
  "batch_of (IngestBatch fresh) = fresh"
| "batch_of (CloseCard i t) = []"

definition all_alerts :: "corr_op list \<Rightarrow> alert list" where
  "all_alerts ops = concat (map batch_of ops)"

definition accuracies_ok :: "corr_op list \<Rightarrow> bool" where
  "accuracies_ok ops \<longleftrightarrow> list_all (\<lambda>a. 0 \<le> al_accuracy_m a) (all_alerts ops)"

definition closed_kept :: "correlator \<Rightarrow> correlator \<Rightarrow> bool" where
  "closed_kept c c' \<longleftrightarrow> (\<forall>i < length (co_incidents c). \<not> is_open (co_incidents c ! i) \<longrightarrow>
     i < length (co_incidents c') \<and> co_incidents c' ! i = co_incidents c ! i)"

lemma closed_kept_trans: "closed_kept a b \<Longrightarrow> closed_kept b c \<Longrightarrow> closed_kept a c"
  unfolding closed_kept_def by metis

lemma grows_closed_kept: "grows c c' \<Longrightarrow> closed_kept c c'"
  by (auto simp: grows_def closed_kept_def)

lemma close_closed_kept: "closed_kept c (snd (close_incident i t c))"
  by (auto simp: closed_kept_def close_incident_def nth_list_update)

lemma corr_run_ok:
  "corr_inv c \<Longrightarrow> accuracies_ok ops \<Longrightarrow>
   \<exists>c'. corr_run ops c = Some c' \<and> corr_inv c' \<and> mset (filed c') = mset (filed c) + mset (map al_id (all_alerts ops)) \<and> closed_kept c c'"
proof (induction ops arbitrary: c)
  case Nil
  then show ?case by (simp add: all_alerts_def closed_kept_def)
next
  case (Cons op ops)
  have ok: "accuracies_ok ops" "\<And>a. a \<in> set (batch_of op) \<Longrightarrow> 0 \<le> al_accuracy_m a"
    using Cons.prems(2) by (auto simp: accuracies_ok_def all_alerts_def list_all_iff)
  have "\<exists>c1. corr_run (op # ops) c = corr_run ops c1 \<and> corr_inv c1 \<and> mset (filed c1) = mset (filed c) + mset (map al_id (batch_of op)) \<and> closed_kept c c1"
  proof (cases op)
    case (IngestBatch fresh)
    then show ?thesis using ingest_ok [OF Cons.prems(1), of fresh] ok(2) grows_closed_kept by fastforce
  next
    case (CloseCard i t)
    then show ?thesis using close_ok [OF Cons.prems(1)] close_closed_kept by fastforce
  qed
  then obtain c1 where c1: "corr_run (op # ops) c = corr_run ops c1" "corr_inv c1"
    "mset (filed c1) = mset (filed c) + mset (map al_id (batch_of op))" "closed_kept c c1" by blast
  then show ?case using Cons.IH [OF c1(2) ok(1)] closed_kept_trans [OF c1(4)] by (auto simp: all_alerts_def)
qed

lemma corr_init_inv: "corr_inv (corr_init cfg)"
  by (simp add: corr_inv_def corr_init_def)

section \<open>Properties\<close>

text \<open>C6: No alert is lost or counted twice: whatever batches are ingested and cards closed, the correlator returns, the alerts on
  its cards are exactly the alerts ingested, each as often as it came, and the circle of every card covers the position of each of
  its alerts.\<close>

theorem alerts_filed_once:
  assumes "accuracies_ok ops"
  shows "\<exists>c. corr_run ops (corr_init cfg) = Some c \<and> mset (filed c) = mset (map al_id (all_alerts ops)) \<and> list_all covers (all_incidents c)"
proof -
  obtain c where c: "corr_run ops (corr_init cfg) = Some c" "corr_inv c"
    "mset (filed c) = mset (filed (corr_init cfg)) + mset (map al_id (all_alerts ops))"
    using corr_run_ok [OF corr_init_inv assms] by blast
  have "filed (corr_init cfg) = []" by (simp add: filed_def corr_init_def)
  moreover have "list_all covers (all_incidents c)" using c(2) by (auto simp: corr_inv_def card_ok_def all_incidents_def list_all_iff)
  ultimately show ?thesis using c(1,3) by simp
qed

definition demo_alert :: "alert_id \<Rightarrow> alert" where
  "demo_alert i = (blank_alert ZoneBreach)\<lparr>al_id := i\<rparr>"

lemma alerts_filed_once_witness:
  "\<exists>c. corr_run [IngestBatch [demo_alert 4, demo_alert 7], CloseCard 0 5, IngestBatch [demo_alert 9]]
      (corr_init \<lparr>space_radius_m = 200, time_window_ms = 60000, min_cluster = 2, same_zone_only = False\<rparr>) = Some c \<and>
    mset (filed c) = {#4, 7, 9#}"
proof -
  let ?ops = "[IngestBatch [demo_alert 4, demo_alert 7], CloseCard 0 5, IngestBatch [demo_alert 9]]"
  have "accuracies_ok ?ops" by (simp add: accuracies_ok_def all_alerts_def demo_alert_def blank_alert_def)
  from alerts_filed_once [OF this] show ?thesis by (auto simp: all_alerts_def demo_alert_def)
qed

text \<open>C31: A card the operator has closed is never touched again: later batches and closings leave it exactly as it is, whatever
  alerts come in at the same place.\<close>

theorem closed_card_final:
  assumes "accuracies_ok ops" "corr_run ops (corr_init cfg) = Some c" "get_incident c i = Some inc" "\<not> is_open inc" "accuracies_ok ops'"
  shows "\<exists>c'. corr_run ops' c = Some c' \<and> get_incident c' i = Some inc"
proof -
  have "corr_inv c" using corr_run_ok [OF corr_init_inv [of cfg] assms(1)] assms(2) by auto
  from corr_run_ok [OF this assms(5)] obtain c' where c': "corr_run ops' c = Some c'" "closed_kept c c'" by blast
  then show ?thesis using assms(3,4) by (auto simp: closed_kept_def get_incident_def split: if_splits)
qed

lemma closed_card_final_witness:
  "\<exists>c inc c'. corr_run [IngestBatch [demo_alert 4], CloseCard 0 5]
      (corr_init \<lparr>space_radius_m = 200, time_window_ms = 60000, min_cluster = 2, same_zone_only = False\<rparr>) = Some c \<and>
    get_incident c 0 = Some inc \<and> corr_run [IngestBatch [demo_alert 9]] c = Some c' \<and> get_incident c' 0 = Some inc"
proof -
  let ?cfg = "\<lparr>space_radius_m = 200, time_window_ms = 60000, min_cluster = 2, same_zone_only = False\<rparr>"
  have "find_root [0] 0 = Some 0" by (rule find_root_root) simp
  then have "dsu_components (dsu_init 1) = Some [[0]]" by (simp add: dsu_components_def dsu_init_def dsu_find_def)
  then have b: "batch_clusters ?cfg [demo_alert 4] = Some [[0]]" by (simp add: batch_clusters_def near_pairs_def)
  have acc: "accuracies_ok [IngestBatch [demo_alert 4], CloseCard 0 5]" "accuracies_ok [IngestBatch [demo_alert 9]]"
    by (simp_all add: accuracies_ok_def all_alerts_def demo_alert_def blank_alert_def)
  obtain c1 where c1: "corr_ingest [demo_alert 4] (corr_init ?cfg) = Some ([0], c1)" "co_incidents c1 = [lone_incident 0 (demo_alert 4)]"
    by (simp add: corr_ingest_def b corr_init_def retire_def on_stats_def nearest_open_def open_incident_def Let_def lone_incident_def uint32_of_def)
  have cl: "snd (close_incident 0 5 c1) = on_stats (\<lambda>s. s\<lparr>incidents_closed := incidents_closed s + 1\<rparr>)
      (c1\<lparr>co_incidents := [(lone_incident 0 (demo_alert 4))\<lparr>ic_status := IncidentClosed, closed_ms := 5\<rparr>], open_idx := remove1 0 (open_idx c1)\<rparr>)"
    using c1(2) by (simp add: close_incident_def is_open_def lone_incident_def)
  let ?c = "snd (close_incident 0 5 c1)"
  have r: "corr_run [IngestBatch [demo_alert 4], CloseCard 0 5] (corr_init ?cfg) = Some ?c" using c1(1) by simp
  have g: "get_incident ?c 0 = Some ((lone_incident 0 (demo_alert 4))\<lparr>ic_status := IncidentClosed, closed_ms := 5\<rparr>)"
    unfolding cl by (simp add: get_incident_def)
  have "\<not> is_open ((lone_incident 0 (demo_alert 4))\<lparr>ic_status := IncidentClosed, closed_ms := 5\<rparr>)" by (simp add: is_open_def)
  from closed_card_final [OF acc(1) r g this acc(2)] show ?thesis using r g by blast
qed

end
