(* ===== verification/Hierarchy.thy ===== *)
theory Hierarchy
  imports Polygon
begin

text \<open>
  The jurisdiction forest, \<^verbatim>\<open>include/safetrail/jurisdiction/hierarchy.hpp\<close> and \<^verbatim>\<open>src/jurisdiction/hierarchy.cpp\<close>: regions nest by
  containment, the parent of a region is the smallest one that strictly contains it, and a point belongs to the region reached by
  descending from a root. The sentinel for no region is \<open>None\<close>. Areas grow strictly towards the root, so one unit of fuel per region
  is enough for the walks down and up.
\<close>

record jnode =
  jn_name :: string
  jn_shape :: polygon
  jn_area :: real
  jn_parent :: "nat option"
  jn_children :: "nat list"

record hierarchy =
  h_nodes :: "jnode list"
  h_roots :: "nat list"

definition h_empty :: hierarchy where
  "h_empty = \<lparr>h_nodes = [], h_roots = []\<rparr>"

definition h_add :: "string \<Rightarrow> polygon \<Rightarrow> hierarchy \<Rightarrow> nat \<times> hierarchy" where
  "h_add name shape h =
     (length (h_nodes h),
      h\<lparr>h_nodes := h_nodes h @ [\<lparr>jn_name = name, jn_shape = shape, jn_area = \<bar>outer_signed_area shape\<bar>, jn_parent = None, jn_children = []\<rparr>]\<rparr>)"

text \<open>The edges of a ring in the order of their first vertex.\<close>

definition ring_sides :: "ring \<Rightarrow> (lat_lon \<times> lat_lon) list" where
  "ring_sides r = map (\<lambda>a. (r ! a, r ! ((a + 1) mod length r))) [0..<length r]"

definition strictly_contains :: "jnode list \<Rightarrow> nat \<Rightarrow> nat \<Rightarrow> bool" where
  "strictly_contains ns big small =
     (if big = small then False
      else
        (let o' = ns ! big; i = ns ! small in
         if jn_area o' \<le> jn_area i then False
         else if \<exists>v \<in> set (outer (jn_shape i)). \<not> pg_contains (jn_shape o') v then False
         else \<not> (\<exists>(a, b) \<in> set (ring_sides (outer (jn_shape i))). \<exists>(c, d) \<in> set (ring_sides (outer (jn_shape o'))).
                   segments_properly_cross a b c d)))"

definition parent_step :: "jnode list \<Rightarrow> nat \<Rightarrow> nat option \<times> real \<Rightarrow> nat \<Rightarrow> nat option \<times> real" where
  "parent_step ns i st j =
     (if \<not> strictly_contains ns j i then st
      else if fst st = None \<or> jn_area (ns ! j) < snd st then (Some j, jn_area (ns ! j)) else st)"

definition best_parent :: "jnode list \<Rightarrow> nat \<Rightarrow> nat option" where
  "best_parent ns i = fst (foldl (parent_step ns i) (None, 0) [0..<length ns])"

definition set_parent :: "jnode list \<Rightarrow> nat \<Rightarrow> jnode list" where
  "set_parent ns i = ns[i := (ns ! i)\<lparr>jn_parent := best_parent ns i\<rparr>]"

definition link_child :: "hierarchy \<Rightarrow> nat \<Rightarrow> hierarchy" where
  "link_child h i =
     (case jn_parent (h_nodes h ! i) of
        None \<Rightarrow> h\<lparr>h_roots := h_roots h @ [i]\<rparr>
      | Some p \<Rightarrow> h\<lparr>h_nodes := (h_nodes h)[p := (h_nodes h ! p)\<lparr>jn_children := jn_children (h_nodes h ! p) @ [i]\<rparr>]\<rparr>)"

definition h_build :: "hierarchy \<Rightarrow> hierarchy" where
  "h_build h =
     (let ns = map (\<lambda>n. n\<lparr>jn_parent := None, jn_children := []\<rparr>) (h_nodes h);
          ns = foldl set_parent ns [0..<length ns]
      in foldl link_child \<lparr>h_nodes = ns, h_roots = []\<rparr> [0..<length ns])"

definition pick_containing :: "hierarchy \<Rightarrow> lat_lon \<Rightarrow> nat list \<Rightarrow> nat option" where
  "pick_containing h p candidates =
     foldl (\<lambda>best c. if pg_contains (jn_shape (h_nodes h ! c)) p \<and>
                         (case best of None \<Rightarrow> True | Some b \<Rightarrow> jn_area (h_nodes h ! c) < jn_area (h_nodes h ! b))
                     then Some c else best) None candidates"

fun descend :: "nat \<Rightarrow> hierarchy \<Rightarrow> lat_lon \<Rightarrow> nat \<Rightarrow> nat option" where
  "descend fuel h p current =
     (case pick_containing h p (jn_children (h_nodes h ! current)) of
        None \<Rightarrow> Some current
      | Some deeper \<Rightarrow> (case fuel of 0 \<Rightarrow> None | Suc fuel' \<Rightarrow> descend fuel' h p deeper))"

declare descend.simps [simp del]

text \<open>The outer option is the fuel, the inner one the sentinel.\<close>

definition resolve :: "hierarchy \<Rightarrow> lat_lon \<Rightarrow> nat option option" where
  "resolve h p =
     (case pick_containing h p (h_roots h) of
        None \<Rightarrow> Some None
      | Some r \<Rightarrow> map_option Some (descend (length (h_nodes h)) h p r))"

definition h_parent :: "hierarchy \<Rightarrow> nat \<Rightarrow> nat option" where
  "h_parent h i = (if i < length (h_nodes h) then jn_parent (h_nodes h ! i) else None)"

definition h_children :: "hierarchy \<Rightarrow> nat \<Rightarrow> nat list" where
  "h_children h i = (if i < length (h_nodes h) then jn_children (h_nodes h ! i) else [])"

definition h_name :: "hierarchy \<Rightarrow> nat \<Rightarrow> string" where
  "h_name h i = jn_name (h_nodes h ! i)"

definition h_size :: "hierarchy \<Rightarrow> nat" where
  "h_size h = length (h_nodes h)"

fun h_depth :: "nat \<Rightarrow> hierarchy \<Rightarrow> nat \<Rightarrow> nat option" where
  "h_depth fuel h c =
     (case h_parent h c of
        None \<Rightarrow> Some 0
      | Some p \<Rightarrow> (case fuel of 0 \<Rightarrow> None | Suc fuel' \<Rightarrow> map_option Suc (h_depth fuel' h p)))"

declare h_depth.simps [simp del]

section \<open>What the build leaves\<close>

lemma best_parent_fold:
  "case foldl (parent_step ns i) st js of
     (None, a) \<Rightarrow> fst st = None \<and> (\<forall>j \<in> set js. \<not> strictly_contains ns j i)
   | (Some b, a) \<Rightarrow> (st = (Some b, a) \<or> b \<in> set js \<and> strictly_contains ns b i \<and> a = jn_area (ns ! b)) \<and>
        (fst st \<noteq> None \<longrightarrow> a \<le> snd st) \<and> (\<forall>j \<in> set js. strictly_contains ns j i \<longrightarrow> a \<le> jn_area (ns ! j))"
proof (induction js arbitrary: st)
  case Nil
  then show ?case by (auto split: prod.split option.split)
next
  case (Cons j js)
  show ?case
  proof (cases "strictly_contains ns j i \<and> (fst st = None \<or> jn_area (ns ! j) < snd st)")
    case True
    then have "parent_step ns i st j = (Some j, jn_area (ns ! j))" by (simp add: parent_step_def)
    then show ?thesis using Cons.IH [of "(Some j, jn_area (ns ! j))"] True by (auto split: prod.splits option.splits)
  next
    case False
    then have "parent_step ns i st j = st" by (auto simp: parent_step_def)
    then show ?thesis using Cons.IH [of st] False by (auto split: prod.splits option.splits)
  qed
qed

lemma best_parent_None: "best_parent ns i = None \<longleftrightarrow> (\<forall>j < length ns. \<not> strictly_contains ns j i)"
  using best_parent_fold [where ns = ns and i = i and st = "(None, 0)" and js = "[0..<length ns]"] by (auto simp: best_parent_def split: prod.splits option.splits)

lemma best_parent_Some:
  assumes "best_parent ns i = Some b"
  shows "b < length ns" "strictly_contains ns b i" "\<And>j. j < length ns \<Longrightarrow> strictly_contains ns j i \<Longrightarrow> jn_area (ns ! b) \<le> jn_area (ns ! j)"
proof -
  obtain a where "foldl (parent_step ns i) (None, 0) [0..<length ns] = (Some b, a)" using assms unfolding best_parent_def by (metis prod.collapse)
  with best_parent_fold [where ns = ns and i = i and st = "(None, 0)" and js = "[0..<length ns]"]
  have "b < length ns \<and> strictly_contains ns b i \<and> (\<forall>j < length ns. strictly_contains ns j i \<longrightarrow> jn_area (ns ! b) \<le> jn_area (ns ! j))" by auto
  then show "b < length ns" "strictly_contains ns b i" "\<And>j. j < length ns \<Longrightarrow> strictly_contains ns j i \<Longrightarrow> jn_area (ns ! b) \<le> jn_area (ns ! j)"
    by blast+
qed

lemma strictly_contains_area: "strictly_contains ns a b \<Longrightarrow> jn_area (ns ! b) < jn_area (ns ! a)"
  by (auto simp: strictly_contains_def Let_def split: if_splits)

text \<open>Containment and areas do not depend on the links.\<close>

definition same_regions :: "jnode list \<Rightarrow> jnode list \<Rightarrow> bool" where
  "same_regions ns ms \<longleftrightarrow> length ms = length ns \<and>
     (\<forall>i < length ns. jn_shape (ms ! i) = jn_shape (ns ! i) \<and> jn_area (ms ! i) = jn_area (ns ! i) \<and> jn_name (ms ! i) = jn_name (ns ! i))"

lemma same_regions_trans: "same_regions a b \<Longrightarrow> same_regions b c \<Longrightarrow> same_regions a c"
  by (simp add: same_regions_def)

lemma same_contains: "same_regions ns ms \<Longrightarrow> i < length ns \<Longrightarrow> j < length ns \<Longrightarrow> strictly_contains ms i j = strictly_contains ns i j"
  by (simp add: same_regions_def strictly_contains_def Let_def)

lemma foldl_same: "(\<And>s j. j \<in> set js \<Longrightarrow> f s j = g s j) \<Longrightarrow> foldl f s js = foldl g s js"
  by (induction js arbitrary: s) auto

lemma same_best_parent:
  assumes "same_regions ns ms" "i < length ns"
  shows "best_parent ms i = best_parent ns i"
proof -
  have l: "length ms = length ns" using assms(1) by (simp add: same_regions_def)
  have "parent_step ms i st j = parent_step ns i st j" if "j \<in> set [0..<length ns]" for st j
    using same_contains [OF assms(1) _ assms(2), of j] assms(1) that by (simp add: parent_step_def same_regions_def)
  then have "foldl (parent_step ms i) (None, 0) [0..<length ns] = foldl (parent_step ns i) (None, 0) [0..<length ns]" by (rule foldl_same)
  then show ?thesis unfolding best_parent_def l by simp
qed

definition built :: "hierarchy \<Rightarrow> bool" where
  "built h \<longleftrightarrow> (\<forall>i < length (h_nodes h). jn_parent (h_nodes h ! i) = best_parent (h_nodes h) i \<and>
      jn_children (h_nodes h ! i) = filter (\<lambda>c. jn_parent (h_nodes h ! c) = Some i) [0..<length (h_nodes h)]) \<and>
    h_roots h = filter (\<lambda>c. jn_parent (h_nodes h ! c) = None) [0..<length (h_nodes h)]"

lemma set_parents:
  assumes "k \<le> length ns"
  shows "same_regions ns (foldl set_parent ns [0..<k]) \<and>
    (\<forall>i < length ns. jn_children (foldl set_parent ns [0..<k] ! i) = jn_children (ns ! i) \<and>
       jn_parent (foldl set_parent ns [0..<k] ! i) = (if i < k then best_parent ns i else jn_parent (ns ! i)))"
  using assms
proof (induction k)
  case 0
  then show ?case by (simp add: same_regions_def)
next
  case (Suc k)
  let ?ms = "foldl set_parent ns [0..<k]"
  have ih: "same_regions ns ?ms" "\<And>i. i < length ns \<Longrightarrow> jn_children (?ms ! i) = jn_children (ns ! i) \<and>
       jn_parent (?ms ! i) = (if i < k then best_parent ns i else jn_parent (ns ! i))" using Suc by auto
  have k: "k < length ns" "length ?ms = length ns" using Suc.prems ih(1) by (simp_all add: same_regions_def)
  have step: "foldl set_parent ns [0..<Suc k] = ?ms[k := (?ms ! k)\<lparr>jn_parent := best_parent ns k\<rparr>]"
    using same_best_parent [OF ih(1) k(1)] by (simp add: set_parent_def)
  have "same_regions ns (?ms[k := (?ms ! k)\<lparr>jn_parent := best_parent ns k\<rparr>])"
    using ih(1) k by (auto simp: same_regions_def nth_list_update)
  then show ?case unfolding step using ih(2) k by (auto simp: nth_list_update less_Suc_eq)
qed

definition with_children :: "jnode list \<Rightarrow> nat \<Rightarrow> jnode list" where
  "with_children ns k = map (\<lambda>i. (ns ! i)\<lparr>jn_children := filter (\<lambda>c. jn_parent (ns ! c) = Some i) [0..<k]\<rparr>) [0..<length ns]"

lemma link_children:
  assumes par: "\<And>i p. i < length ns \<Longrightarrow> jn_parent (ns ! i) = Some p \<Longrightarrow> p < length ns"
    and none: "\<And>i. i < length ns \<Longrightarrow> jn_children (ns ! i) = []"
  shows "k \<le> length ns \<Longrightarrow> foldl link_child \<lparr>h_nodes = ns, h_roots = []\<rparr> [0..<k] =
    \<lparr>h_nodes = with_children ns k, h_roots = filter (\<lambda>c. jn_parent (ns ! c) = None) [0..<k]\<rparr>"
proof (induction k)
  case 0
  have "with_children ns 0 = ns" using none by (intro nth_equalityI) (simp_all add: with_children_def)
  then show ?case by simp
next
  case (Suc k)
  have k: "k < length ns" using Suc.prems by simp
  then have pk: "jn_parent (with_children ns k ! k) = jn_parent (ns ! k)" by (simp add: with_children_def)
  show ?case
  proof (cases "jn_parent (ns ! k)")
    case None
    then have "with_children ns (Suc k) = with_children ns k" by (simp add: with_children_def)
    then show ?thesis using Suc None pk by (simp add: link_child_def)
  next
    case (Some p)
    have p: "p < length ns" using par k Some by blast
    have "(with_children ns k)[p := (with_children ns k ! p)\<lparr>jn_children := jn_children (with_children ns k ! p) @ [k]\<rparr>] = with_children ns (Suc k)"
      using p Some by (intro nth_equalityI) (auto simp: with_children_def nth_list_update)
    then show ?thesis using Suc Some pk by (simp add: link_child_def)
  qed
qed

lemma h_build_ok: "built (h_build h)" "same_regions (h_nodes h) (h_nodes (h_build h))"
proof -
  define ns where "ns = map (\<lambda>n. n\<lparr>jn_parent := None, jn_children := []\<rparr>) (h_nodes h)"
  define ms where "ms = foldl set_parent ns [0..<length ns]"
  note p = set_parents [of "length ns" ns, folded ms_def, simplified]
  have l: "length ms = length ns" using p by (simp add: same_regions_def)
  have par: "jn_parent (ms ! i) = best_parent ns i" "jn_children (ms ! i) = []" if "i < length ms" for i
    using p that l by (auto simp: ns_def)
  have "foldl link_child \<lparr>h_nodes = ms, h_roots = []\<rparr> [0..<length ms] =
    \<lparr>h_nodes = with_children ms (length ms), h_roots = filter (\<lambda>c. jn_parent (ms ! c) = None) [0..<length ms]\<rparr>"
    using par best_parent_Some(1) [of ns] l by (intro link_children) auto
  then have b: "h_build h = \<lparr>h_nodes = with_children ms (length ms), h_roots = filter (\<lambda>c. jn_parent (ms ! c) = None) [0..<length ms]\<rparr>"
    unfolding h_build_def Let_def ns_def [symmetric] ms_def [symmetric] l by simp
  have w: "length (with_children ms (length ms)) = length ms" "\<And>i. i < length ms \<Longrightarrow> with_children ms (length ms) ! i =
      (ms ! i)\<lparr>jn_children := filter (\<lambda>c. jn_parent (ms ! c) = Some i) [0..<length ms]\<rparr>" by (simp_all add: with_children_def)
  have same: "same_regions ms (with_children ms (length ms))" using w by (simp add: same_regions_def)
  have s2: "same_regions ns (with_children ms (length ms))" using same_regions_trans [OF _ same] p by simp
  have "same_regions (h_nodes h) ns" by (simp add: same_regions_def ns_def)
  then show "same_regions (h_nodes h) (h_nodes (h_build h))" using same_regions_trans [OF _ s2] b by simp
  have f: "filter (\<lambda>c. jn_parent (with_children ms (length ms) ! c) = q) [0..<length ms] = filter (\<lambda>c. jn_parent (ms ! c) = q) [0..<length ms]" for q
    using w(2) by (intro filter_cong) simp_all
  show "built (h_build h)" unfolding built_def b using w par(1) same_best_parent [OF s2] l f by simp
qed

section \<open>The walk down\<close>

definition region_contains :: "hierarchy \<Rightarrow> lat_lon \<Rightarrow> nat \<Rightarrow> bool" where
  "region_contains h p i \<longleftrightarrow> pg_contains (jn_shape (h_nodes h ! i)) p"

definition area_of :: "hierarchy \<Rightarrow> nat \<Rightarrow> real" where
  "area_of h i = jn_area (h_nodes h ! i)"

lemma pick_containing_fold:
  "case foldl (\<lambda>best c. if pg_contains (jn_shape (h_nodes h ! c)) p \<and>
                         (case best of None \<Rightarrow> True | Some b \<Rightarrow> jn_area (h_nodes h ! c) < jn_area (h_nodes h ! b))
                     then Some c else best) best cs of
     None \<Rightarrow> best = None \<and> (\<forall>c \<in> set cs. \<not> region_contains h p c)
   | Some b \<Rightarrow> best = Some b \<or> b \<in> set cs \<and> region_contains h p b"
proof (induction cs arbitrary: best)
  case Nil
  then show ?case by (simp split: option.split)
next
  case (Cons c cs)
  let ?b = "if pg_contains (jn_shape (h_nodes h ! c)) p \<and>
    (case best of None \<Rightarrow> True | Some b \<Rightarrow> jn_area (h_nodes h ! c) < jn_area (h_nodes h ! b)) then Some c else best"
  have "?b = best \<or> ?b = Some c \<and> region_contains h p c" "best = None \<Longrightarrow> ?b = None \<Longrightarrow> \<not> region_contains h p c"
    by (auto simp: region_contains_def)
  then show ?case using Cons.IH [of ?b] by (auto split: option.splits if_splits)
qed

lemma pick_None: "pick_containing h p cs = None \<Longrightarrow> c \<in> set cs \<Longrightarrow> \<not> region_contains h p c"
  using pick_containing_fold [where h = h and p = p and cs = cs and best = None] by (auto simp: pick_containing_def split: option.splits)

lemma pick_Some: "pick_containing h p cs = Some b \<Longrightarrow> b \<in> set cs \<and> region_contains h p b"
  using pick_containing_fold [where h = h and p = p and cs = cs and best = None] by (auto simp: pick_containing_def split: option.splits)

lemma built_child:
  assumes "built h" "i < length (h_nodes h)" "c \<in> set (jn_children (h_nodes h ! i))"
  shows "c < length (h_nodes h)" "jn_parent (h_nodes h ! c) = Some i" "area_of h c < area_of h i"
proof -
  show c: "c < length (h_nodes h)" "jn_parent (h_nodes h ! c) = Some i" using assms by (auto simp: built_def)
  then have "best_parent (h_nodes h) c = Some i" using assms(1) by (simp add: built_def)
  then show "area_of h c < area_of h i" using best_parent_Some(2) strictly_contains_area unfolding area_of_def by blast
qed

definition smaller :: "hierarchy \<Rightarrow> nat \<Rightarrow> nat" where
  "smaller h i = card {j. j < length (h_nodes h) \<and> area_of h j < area_of h i}"

lemma smaller_less: "c < length (h_nodes h) \<Longrightarrow> area_of h c < area_of h i \<Longrightarrow> smaller h c < smaller h i"
  unfolding smaller_def by (intro psubset_card_mono) auto

definition up :: "hierarchy \<Rightarrow> (nat \<times> nat) set" where
  "up h = {(i, q). i < length (h_nodes h) \<and> jn_parent (h_nodes h ! i) = Some q}"

lemma descend_ok:
  assumes b: "built h"
  shows "i < length (h_nodes h) \<Longrightarrow> region_contains h p i \<Longrightarrow> smaller h i \<le> fuel \<Longrightarrow>
    \<exists>r. descend fuel h p i = Some r \<and> r < length (h_nodes h) \<and> region_contains h p r \<and> (r, i) \<in> (up h)\<^sup>* \<and>
      (\<forall>c \<in> set (jn_children (h_nodes h ! r)). \<not> region_contains h p c)"
proof (induction fuel arbitrary: i)
  case 0
  have "pick_containing h p (jn_children (h_nodes h ! i)) = None"
  proof (rule ccontr)
    assume "pick_containing h p (jn_children (h_nodes h ! i)) \<noteq> None"
    then obtain c where "c \<in> set (jn_children (h_nodes h ! i))" using pick_Some by blast
    then show False using smaller_less built_child [OF b 0(1)] 0(3) by (metis less_nat_zero_code le_zero_eq)
  qed
  then show ?case using 0 pick_None by (subst descend.simps) auto
next
  case (Suc fuel)
  show ?case
  proof (cases "pick_containing h p (jn_children (h_nodes h ! i))")
    case None
    then show ?thesis using Suc.prems pick_None by (subst descend.simps) auto
  next
    case (Some c)
    note c = built_child [OF b Suc.prems(1) conjunct1 [OF pick_Some [OF Some]]]
    have "smaller h c \<le> fuel" using smaller_less [OF c(1,3)] Suc.prems(3) by simp
    then obtain r where r: "descend fuel h p c = Some r" "r < length (h_nodes h)" "region_contains h p r" "(r, c) \<in> (up h)\<^sup>*"
      "\<forall>c \<in> set (jn_children (h_nodes h ! r)). \<not> region_contains h p c" using Suc.IH [OF c(1)] pick_Some [OF Some] by blast
    have "(c, i) \<in> up h" using c(1,2) by (simp add: up_def)
    then have "(r, i) \<in> (up h)\<^sup>*" using r(4) by (rule rtrancl_into_rtrancl [rotated])
    moreover have "descend (Suc fuel) h p i = Some r" using Some r(1) by (subst descend.simps) simp
    ultimately show ?thesis using r by blast
  qed
qed

section \<open>The owner of a point\<close>

text \<open>Well nested at a point: the parent of a region containing it contains it, and so does at most one region under each parent.\<close>

definition nested_at :: "hierarchy \<Rightarrow> lat_lon \<Rightarrow> bool" where
  "nested_at h p \<longleftrightarrow>
     (\<forall>i < length (h_nodes h). region_contains h p i \<longrightarrow> (\<forall>q. jn_parent (h_nodes h ! i) = Some q \<longrightarrow> region_contains h p q)) \<and>
     (\<forall>i < length (h_nodes h). \<forall>j < length (h_nodes h). region_contains h p i \<longrightarrow> region_contains h p j \<longrightarrow>
        jn_parent (h_nodes h ! i) = jn_parent (h_nodes h ! j) \<longrightarrow> i = j)"

lemma up_step:
  assumes "built h" "(y, z) \<in> up h"
  shows "y < length (h_nodes h)" "z < length (h_nodes h)" "jn_parent (h_nodes h ! y) = Some z" "area_of h y < area_of h z"
proof -
  show y: "y < length (h_nodes h)" "jn_parent (h_nodes h ! y) = Some z" using assms(2) by (simp_all add: up_def)
  have "best_parent (h_nodes h) y = Some z" using assms(1) y by (simp add: built_def)
  then show "z < length (h_nodes h)" "area_of h y < area_of h z"
    using best_parent_Some(1,2) strictly_contains_area unfolding area_of_def by blast+
qed

lemma nested_up: "nested_at h p \<Longrightarrow> i < length (h_nodes h) \<Longrightarrow> jn_parent (h_nodes h ! i) = Some q \<Longrightarrow> region_contains h p i \<Longrightarrow> region_contains h p q"
  by (simp add: nested_at_def)

lemma up_contains:
  assumes b: "built h" and n: "nested_at h p" and "(i, q) \<in> (up h)\<^sup>*" "region_contains h p i"
  shows "region_contains h p q"
  using assms(3,4)
proof (induction rule: rtrancl_induct)
  case (step y z)
  then show ?case using nested_up [OF n] up_step [OF b step.hyps(2)] by blast
qed

lemma up_area:
  assumes b: "built h" and "(i, q) \<in> (up h)\<^sup>*"
  shows "area_of h i \<le> area_of h q"
  using assms(2)
proof (induction rule: rtrancl_induct)
  case (step y z)
  then show ?case using up_step(4) [OF b step.hyps(2)] by simp
qed simp

lemma up_root:
  assumes b: "built h"
  shows "i < length (h_nodes h) \<Longrightarrow> \<exists>r \<in> set (h_roots h). (i, r) \<in> (up h)\<^sup>*"
proof (induction "length (h_nodes h) - smaller h i" arbitrary: i rule: less_induct)
  case less
  show ?case
  proof (cases "jn_parent (h_nodes h ! i)")
    case None
    then show ?thesis using b less.prems by (auto simp: built_def)
  next
    case (Some q)
    then have bp: "best_parent (h_nodes h) i = Some q" using b less.prems by (simp add: built_def)
    then have q: "q < length (h_nodes h)" "area_of h i < area_of h q"
      using best_parent_Some(1,2) strictly_contains_area unfolding area_of_def by blast+
    have "smaller h i < smaller h q" by (rule smaller_less [OF less.prems q(2)])
    moreover have "smaller h q \<le> card {..<length (h_nodes h)}" unfolding smaller_def by (intro card_mono) auto
    ultimately have "length (h_nodes h) - smaller h q < length (h_nodes h) - smaller h i" by simp
    then obtain r where "r \<in> set (h_roots h)" "(q, r) \<in> (up h)\<^sup>*" using less.hyps q(1) by blast
    moreover have "(i, q) \<in> up h" using Some less.prems by (simp add: up_def)
    ultimately show ?thesis by (meson converse_rtrancl_into_rtrancl)
  qed
qed

text \<open>Every region containing the point lies above the last one reached, or is it.\<close>

lemma descend_below:
  assumes b: "built h" and n: "nested_at h p" and r: "r < length (h_nodes h)" "region_contains h p r"
    "\<And>c. c \<in> set (jn_children (h_nodes h ! r)) \<Longrightarrow> \<not> region_contains h p c"
    and root: "(r, s) \<in> (up h)\<^sup>*" "s \<in> set (h_roots h)" and j: "j < length (h_nodes h)" "region_contains h p j"
  shows "(r, j) \<in> (up h)\<^sup>*"
proof -
  obtain t where t: "t \<in> set (h_roots h)" "(j, t) \<in> (up h)\<^sup>*" using up_root [OF b j(1)] by blast
  have st: "s < length (h_nodes h)" "t < length (h_nodes h)" "jn_parent (h_nodes h ! s) = jn_parent (h_nodes h ! t)"
    using b root(2) t(1) by (auto simp: built_def)
  have "s = t" using n st up_contains [OF b n root(1) r(2)] up_contains [OF b n t(2) j(2)] unfolding nested_at_def by blast
  then have "(j, s) \<in> (up h)\<^sup>*" using t(2) by simp
  from this j(2) show ?thesis
  proof (induction rule: converse_rtrancl_induct)
    case base
    show ?case by (rule root(1))
  next
    case (step y z)
    have y: "y < length (h_nodes h)" "jn_parent (h_nodes h ! y) = Some z" using step.hyps(1) by (simp_all add: up_def)
    then have "region_contains h p z" using n step.prems unfolding nested_at_def by blast
    then have rz: "(r, z) \<in> (up h)\<^sup>*" by (rule step.IH)
    from y have "best_parent (h_nodes h) y = Some z" using b by (simp add: built_def)
    then have z: "z < length (h_nodes h)" by (rule best_parent_Some(1))
    from rz show ?case
    proof (cases rule: rtranclE)
      case base
      have "y \<in> set (jn_children (h_nodes h ! z))" using b y z by (simp add: built_def)
      then show ?thesis using r(3) base step.prems by blast
    next
      case (step c)
      then have c: "c < length (h_nodes h)" "jn_parent (h_nodes h ! c) = Some z" by (simp_all add: up_def)
      have "region_contains h p c" by (rule up_contains [OF b n step(1) r(2)])
      then have "c = y" using n c y \<open>region_contains h p y\<close> unfolding nested_at_def by (metis (no_types))
      then show ?thesis using step(1) by simp
    qed
  qed
qed

lemma resolve_correct:
  assumes b: "built h" and n: "nested_at h p"
  shows "\<exists>r. resolve h p = Some r \<and>
    (case r of None \<Rightarrow> list_all (\<lambda>j. \<not> region_contains h p j) [0..<length (h_nodes h)]
     | Some r \<Rightarrow> r < length (h_nodes h) \<and> region_contains h p r \<and>
         list_all (\<lambda>j. \<not> region_contains h p j \<or> area_of h r \<le> area_of h j) [0..<length (h_nodes h)])"
proof (cases "pick_containing h p (h_roots h)")
  case None
  have "\<not> region_contains h p j" if j: "j < length (h_nodes h)" for j
  proof
    assume c: "region_contains h p j"
    obtain t where "t \<in> set (h_roots h)" "(j, t) \<in> (up h)\<^sup>*" using up_root [OF b j] by blast
    then show False using up_contains [OF b n _ c] pick_None [OF None] by blast
  qed
  then show ?thesis using None by (simp add: resolve_def list_all_iff)
next
  case (Some s)
  then have s: "s \<in> set (h_roots h)" "region_contains h p s" using pick_Some by blast+
  then have sl: "s < length (h_nodes h)" using b by (simp add: built_def)
  have "smaller h s \<le> card {..<length (h_nodes h)}" unfolding smaller_def by (intro card_mono) auto
  then obtain r where r: "descend (length (h_nodes h)) h p s = Some r" "r < length (h_nodes h)" "region_contains h p r" "(r, s) \<in> (up h)\<^sup>*"
    "\<And>c. c \<in> set (jn_children (h_nodes h ! r)) \<Longrightarrow> \<not> region_contains h p c"
    using descend_ok [OF b sl s(2), of "length (h_nodes h)"] by auto
  have "area_of h r \<le> area_of h j" if "j < length (h_nodes h)" "region_contains h p j" for j
    using up_area [OF b] descend_below [OF b n r(2,3,5) r(4) s(1) that] by blast
  then show ?thesis using Some r(1-3) by (auto simp: resolve_def list_all_iff)
qed

text \<open>The depth of a region is found.\<close>

lemma h_depth_total:
  assumes b: "built h"
  shows "i < length (h_nodes h) \<Longrightarrow> \<exists>d. h_depth (length (h_nodes h)) h i = Some d"
proof -
  have "i < length (h_nodes h) \<Longrightarrow> length (h_nodes h) - smaller h i \<le> fuel \<Longrightarrow> \<exists>d. h_depth fuel h i = Some d" for fuel
  proof (induction fuel arbitrary: i)
    case 0
    have "smaller h i < card {..<length (h_nodes h)}" unfolding smaller_def using 0(1) by (intro psubset_card_mono) auto
    then show ?case using 0 by simp
  next
    case (Suc fuel)
    show ?case
    proof (cases "h_parent h i")
      case None
      then show ?thesis by (subst h_depth.simps) simp
    next
      case (Some q)
      then have "best_parent (h_nodes h) i = Some q" using b Suc.prems(1) by (simp add: built_def h_parent_def)
      then have q: "q < length (h_nodes h)" "area_of h i < area_of h q"
        using best_parent_Some(1,2) strictly_contains_area unfolding area_of_def by blast+
      have "smaller h i < smaller h q" by (rule smaller_less [OF Suc.prems(1) q(2)])
      then obtain d where "h_depth fuel h q = Some d" using Suc.IH [OF q(1)] Suc.prems(2) by fastforce
      then show ?thesis using Some by (subst h_depth.simps) simp
    qed
  qed
  then show "i < length (h_nodes h) \<Longrightarrow> \<exists>d. h_depth (length (h_nodes h)) h i = Some d" by simp
qed

section \<open>Properties\<close>


definition demo_regions :: hierarchy where
  "demo_regions = snd (h_add ''district'' sample_triangle h_empty)"


end
