(* ===== verification/Cohesion.thy ===== *)
theory Cohesion
  imports Tourist Rollback_DSU
begin

text \<open>
  Group cohesion, \<^verbatim>\<open>include/safetrail/group/cohesion.hpp\<close> and \<^verbatim>\<open>src/group/cohesion.cpp\<close>: on every tick the proximity graph of the
  tourists is built on the union-find, and each declared group is compared with the components its members fall into. The monitor
  reports changes, not states: that a group has split, that it is together again, that a member has become a straggler. The
  union-find is rebuilt by each update and read by nothing else, so it is local to the update here. \<open>None\<close> would be a find that
  used up its fuel.
\<close>

record cohesion_config =
  proximity_m :: real
  straggler_m :: real
  confirm_ms :: int
  widening_rate_mps :: real

definition cohesion_default :: cohesion_config where
  "cohesion_default = \<lparr>proximity_m = 150, straggler_m = 400, confirm_ms = 60000, widening_rate_mps = 1 / 2\<rparr>"

record declared_group =
  dg_id :: nat
  dg_members :: "tourist_id list"
  dg_label :: string

datatype cohesion_kind = GroupFragmented | StragglerDetected | MemberRejoined | GroupDispersed

record cohesion_event =
  ce_kind :: cohesion_kind
  ce_group :: nat
  ce_subject :: tourist_id
  ce_t_ms :: timestamp
  separation_m :: real
  widening_mps :: real
  component_count :: nat

record cohesion_monitor =
  cm_cfg :: cohesion_config
  declared :: "declared_group list"
  prev_components :: "tourist_id list list"
  was_fragmented :: "bool list"
  prev_stragglers :: "tourist_id list list"

definition cohesion_new :: "cohesion_config \<Rightarrow> cohesion_monitor" where
  "cohesion_new cfg = \<lparr>cm_cfg = cfg, declared = [], prev_components = [], was_fragmented = [], prev_stragglers = []\<rparr>"

definition declare_group :: "declared_group \<Rightarrow> cohesion_monitor \<Rightarrow> cohesion_monitor" where
  "declare_group g m =
     m\<lparr>declared := declared m @ [g], was_fragmented := was_fragmented m @ [False], prev_stragglers := prev_stragglers m @ [[]]\<rparr>"

section \<open>The proximity graph\<close>

definition tourist_pos :: "tourist list \<Rightarrow> nat \<Rightarrow> lat_lon" where
  "tourist_pos ts i = pos (last_fix (ts ! i))"

definition close_pairs :: "cohesion_config \<Rightarrow> tourist list \<Rightarrow> (nat \<times> nat) list" where
  "close_pairs cfg ts =
     filter (\<lambda>(i, j). distance_m (tourist_pos ts i) (tourist_pos ts j) \<le> proximity_m cfg)
       (concat (map (\<lambda>i. map (\<lambda>j. (i, j)) [i + 1..<length ts]) [0..<length ts]))"

definition proximity_graph :: "cohesion_config \<Rightarrow> tourist list \<Rightarrow> dsu option" where
  "proximity_graph cfg ts = unite_all (dsu_init (length ts)) (close_pairs cfg ts)"

section \<open>One declared group\<close>

text \<open>The rows of the members that are being tracked, then each with the root of its component.\<close>

definition member_rows :: "tourist list \<Rightarrow> declared_group \<Rightarrow> nat list" where
  "member_rows ts g =
     concat (map (\<lambda>mem. case List.find (\<lambda>i. to_id (ts ! i) = mem) [0..<length ts] of None \<Rightarrow> [] | Some i \<Rightarrow> [i]) (dg_members g))"

definition rooted_rows :: "dsu \<Rightarrow> nat list \<Rightarrow> (nat \<times> nat) list option" where
  "rooted_rows d idx = those (map (\<lambda>i. map_option (Pair i) (dsu_find d i)) idx)"

definition distinct_roots :: "(nat \<times> nat) list \<Rightarrow> nat list" where
  "distinct_roots rows = foldl (\<lambda>rs (i, r). if r \<in> set rs then rs else rs @ [r]) [] rows"

definition rows_at :: "nat \<Rightarrow> (nat \<times> nat) list \<Rightarrow> nat list" where
  "rows_at r rows = map fst (filter (\<lambda>(i, q). q = r) rows)"

text \<open>The first root with most rows, and their number.\<close>

definition biggest_root :: "(nat \<times> nat) list \<Rightarrow> nat list \<Rightarrow> nat \<times> nat" where
  "biggest_root rows rts =
     foldl (\<lambda>(b, n) r. let c = length (rows_at r rows) in if c > n then (r, c) else (b, n)) (hd rts, 0) rts"

definition party_centroid :: "tourist list \<Rightarrow> nat list \<Rightarrow> nat \<Rightarrow> lat_lon" where
  "party_centroid ts idx n =
     (let (slat, slon) = foldl (\<lambda>(slat, slon) i. (slat + lat (tourist_pos ts i), slon + lon (tourist_pos ts i))) (0, 0) idx
      in \<lparr>lat = slat / of_nat n, lon = slon / of_nat n\<rparr>)"

definition new_event :: "cohesion_kind \<Rightarrow> declared_group \<Rightarrow> tourist_id \<Rightarrow> timestamp \<Rightarrow> nat \<Rightarrow> cohesion_event" where
  "new_event k g s now n =
     \<lparr>ce_kind = k, ce_group = dg_id g, ce_subject = s, ce_t_ms = now, separation_m = 0, widening_mps = 0, component_count = n\<rparr>"

text \<open>The change in the state of the whole group.\<close>

definition split_events :: "tourist list \<Rightarrow> declared_group \<Rightarrow> timestamp \<Rightarrow> (nat \<times> nat) list \<Rightarrow> bool \<Rightarrow> cohesion_event list" where
  "split_events ts g now rows was =
     (let rts = distinct_roots rows; (b, n) = biggest_root rows rts; centre = party_centroid ts (rows_at b rows) n;
          fragmented = length rts > 1 in
      if fragmented \<and> \<not> was
      then [(new_event (if n * 2 < length rows then GroupDispersed else GroupFragmented) g kNoId now (length rts))
              \<lparr>separation_m := foldl (\<lambda>w (i, r). if r \<noteq> b then max w (distance_m centre (tourist_pos ts i)) else w) 0 rows\<rparr>]
      else if \<not> fragmented \<and> was then [new_event MemberRejoined g kNoId now 1]
      else [])"

text \<open>The stragglers now, each with its distance from the party.\<close>

definition straggling :: "cohesion_config \<Rightarrow> tourist list \<Rightarrow> (nat \<times> nat) list \<Rightarrow> (tourist_id \<times> real) list" where
  "straggling cfg ts rows =
     (let rts = distinct_roots rows; (b, n) = biggest_root rows rts; centre = party_centroid ts (rows_at b rows) n
      in map (\<lambda>(i, r). (to_id (ts ! i), distance_m centre (tourist_pos ts i)))
           (filter (\<lambda>(i, r). distance_m centre (tourist_pos ts i) > straggler_m cfg \<and> r \<noteq> b) rows))"

definition straggler_events :: "declared_group \<Rightarrow> timestamp \<Rightarrow> nat \<Rightarrow> tourist_id list \<Rightarrow> (tourist_id \<times> real) list \<Rightarrow> cohesion_event list" where
  "straggler_events g now n prev str =
     map (\<lambda>(s, sep). (new_event StragglerDetected g s now n)\<lparr>separation_m := sep\<rparr>) (filter (\<lambda>(s, sep). s \<notin> set prev) str)"

definition update_group ::
  "tourist list \<Rightarrow> timestamp \<Rightarrow> dsu \<Rightarrow> (cohesion_monitor \<times> cohesion_event list) option \<Rightarrow> nat \<Rightarrow> (cohesion_monitor \<times> cohesion_event list) option" where
  "update_group ts now d st gi =
     (case st of None \<Rightarrow> None | Some (m, out) \<Rightarrow>
        (let g = declared m ! gi in
         if length (dg_members g) < 2 then Some (m, out)
         else
           (let idx = member_rows ts g in
            if length idx < 2 then Some (m, out)
            else map_option (\<lambda>rows.
                   (let rts = distinct_roots rows;
                        ev = split_events ts g now rows (was_fragmented m ! gi);
                        str = straggling (cm_cfg m) ts rows;
                        ev2 = straggler_events g now (length rts) (prev_stragglers m ! gi) str
                    in (m\<lparr>was_fragmented := (was_fragmented m)[gi := length rts > 1],
                          prev_stragglers := (prev_stragglers m)[gi := map fst str]\<rparr>, out @ ev @ ev2)))
                 (rooted_rows d idx))))"

definition cohesion_update :: "tourist list \<Rightarrow> timestamp \<Rightarrow> cohesion_monitor \<Rightarrow> (cohesion_monitor \<times> cohesion_event list) option" where
  "cohesion_update ts now m =
     (if ts = [] then Some (m, [])
      else case proximity_graph (cm_cfg m) ts of None \<Rightarrow> None | Some d \<Rightarrow>
        (case dsu_components d of None \<Rightarrow> None | Some comps \<Rightarrow>
           foldl (update_group ts now d) (Some (m\<lparr>prev_components := map (map (\<lambda>i. to_id (ts ! i))) comps\<rparr>, [])) [0..<length (declared m)]))"

section \<open>Reading the monitor\<close>

definition observed_components :: "cohesion_monitor \<Rightarrow> tourist_id list list" where
  "observed_components m = prev_components m"

definition group_row :: "cohesion_monitor \<Rightarrow> nat \<Rightarrow> nat option" where
  "group_row m g = List.find (\<lambda>gi. dg_id (declared m ! gi) = g) [0..<length (declared m)]"

definition stragglers :: "cohesion_monitor \<Rightarrow> nat \<Rightarrow> tourist_id list" where
  "stragglers m g = (case group_row m g of None \<Rightarrow> [] | Some gi \<Rightarrow> prev_stragglers m ! gi)"

definition fragmented :: "cohesion_monitor \<Rightarrow> nat \<Rightarrow> bool" where
  "fragmented m g = (case group_row m g of None \<Rightarrow> False | Some gi \<Rightarrow> was_fragmented m ! gi)"

section \<open>Events follow the splits\<close>

text \<open>Reading the events of a group: it may only split when whole and be whole again when split.\<close>

fun flag_after :: "nat \<Rightarrow> bool \<Rightarrow> cohesion_event list \<Rightarrow> bool option" where
  "flag_after g b [] = Some b"
| "flag_after g b (e # es) =
     (if ce_group e \<noteq> g \<or> ce_kind e = StragglerDetected then flag_after g b es
      else if ce_kind e = MemberRejoined then (if b then flag_after g False es else None)
      else (if b then None else flag_after g True es))"

lemma flag_append: "flag_after g b (xs @ ys) = (case flag_after g b xs of None \<Rightarrow> None | Some c \<Rightarrow> flag_after g c ys)"
  by (induction g b xs rule: flag_after.induct) auto

lemma flag_skip: "(\<And>e. e \<in> set es \<Longrightarrow> ce_group e \<noteq> g \<or> ce_kind e = StragglerDetected) \<Longrightarrow> flag_after g b es = Some b"
  by (induction es) auto

definition cohesion_inv :: "cohesion_monitor \<Rightarrow> bool" where
  "cohesion_inv m \<longleftrightarrow> length (was_fragmented m) = length (declared m) \<and> length (prev_stragglers m) = length (declared m) \<and>
     distinct (map dg_id (declared m))"

lemma those_map: "(\<And>x. x \<in> set xs \<Longrightarrow> \<exists>y. f x = Some y) \<Longrightarrow> \<exists>ys. those (map f xs) = Some ys"
  by (induction xs) fastforce+

lemma rooted_rows_total:
  assumes "dsu_inv d" "nodes d = length ts"
  shows "\<exists>rows. rooted_rows d (member_rows ts g) = Some rows"
proof -
  have "i < length ts" if i: "i \<in> set (member_rows ts g)" for i
    using i by (auto simp: member_rows_def find_Some_iff split: option.splits dest!: sym [of "Some i"])
  then show ?thesis unfolding rooted_rows_def using dsu_find_rep(1) [OF assms(1)] assms(2) by (intro those_map) auto
qed

lemma split_events_flag:
  "flag_after (dg_id g) was (split_events ts g now rows was) = Some (length (distinct_roots rows) > 1)"
  "\<And>e. e \<in> set (split_events ts g now rows was) \<Longrightarrow> ce_group e = dg_id g \<and> ce_kind e \<noteq> StragglerDetected"
  by (auto simp: split_events_def Let_def new_event_def split: prod.splits if_splits)

lemma straggler_events_new:
  "e \<in> set (straggler_events g now n prev str) \<Longrightarrow> ce_group e = dg_id g \<and> ce_kind e = StragglerDetected \<and>
     ce_subject e \<notin> set prev \<and> ce_subject e \<in> set (map fst str)"
  by (force simp: straggler_events_def new_event_def)

text \<open>After the groups below \<open>k\<close>.\<close>

definition groups_done :: "cohesion_monitor \<Rightarrow> nat \<Rightarrow> cohesion_monitor \<Rightarrow> cohesion_event list \<Rightarrow> bool" where
  "groups_done m k m' out \<longleftrightarrow>
     declared m' = declared m \<and> cm_cfg m' = cm_cfg m \<and> cohesion_inv m' \<and>
     (\<forall>i < length (declared m). k \<le> i \<longrightarrow> was_fragmented m' ! i = was_fragmented m ! i \<and> prev_stragglers m' ! i = prev_stragglers m ! i) \<and>
     (\<forall>i < k. flag_after (dg_id (declared m ! i)) (was_fragmented m ! i) out = Some (was_fragmented m' ! i)) \<and>
     (\<forall>e \<in> set out. \<exists>i < k. ce_group e = dg_id (declared m ! i) \<and>
        (ce_kind e = StragglerDetected \<longrightarrow> ce_subject e \<notin> set (prev_stragglers m ! i) \<and> ce_subject e \<in> set (prev_stragglers m' ! i)))"

lemma group_ids: "cohesion_inv m \<Longrightarrow> i < length (declared m) \<Longrightarrow> j < length (declared m) \<Longrightarrow>
  dg_id (declared m ! i) = dg_id (declared m ! j) \<longleftrightarrow> i = j"
  by (simp add: cohesion_inv_def distinct_conv_nth) metis

lemma update_group_step:
  assumes inv: "cohesion_inv m" and d: "dsu_inv d" "nodes d = length ts" and k: "k < length (declared m)" and g: "groups_done m k m1 out"
  shows "\<exists>m2 out2. update_group ts now d (Some (m1, out)) k = Some (m2, out2) \<and> groups_done m (Suc k) m2 out2"
proof -
  let ?g = "declared m ! k"
  have g1: "declared m1 = declared m" "cohesion_inv m1" "was_fragmented m1 ! k = was_fragmented m ! k" "prev_stragglers m1 ! k = prev_stragglers m ! k"
    using g k by (simp_all add: groups_done_def)
  have no: "ce_group e \<noteq> dg_id ?g" if "e \<in> set out" for e
    using g that group_ids [OF inv] k unfolding groups_done_def by (metis order_less_trans order_less_irrefl)
  then have fk: "flag_after (dg_id ?g) b out = Some b" for b by (intro flag_skip) blast
  have idle: "groups_done m (Suc k) m1 out"
    using g fk [of "was_fragmented m ! k"] g1(3) unfolding groups_done_def by (auto simp: less_Suc_eq)
  show ?thesis
  proof (cases "length (dg_members ?g) < 2 \<or> length (member_rows ts ?g) < 2")
    case True
    then have "update_group ts now d (Some (m1, out)) k = Some (m1, out)" using g1(1) by (auto simp: update_group_def Let_def)
    then show ?thesis using idle by blast
  next
    case False
    obtain rows where rows: "rooted_rows d (member_rows ts ?g) = Some rows" using rooted_rows_total [OF d] by blast
    define ev str where "ev = split_events ts ?g now rows (was_fragmented m ! k)" and "str = straggling (cm_cfg m1) ts rows"
    define ev2 where "ev2 = straggler_events ?g now (length (distinct_roots rows)) (prev_stragglers m ! k) str"
    define m2 where "m2 = m1\<lparr>was_fragmented := (was_fragmented m1)[k := length (distinct_roots rows) > 1],
      prev_stragglers := (prev_stragglers m1)[k := map fst str]\<rparr>"
    have up: "update_group ts now d (Some (m1, out)) k = Some (m2, out @ ev @ ev2)"
      using False g1 rows by (simp add: update_group_def Let_def ev_def ev2_def str_def m2_def)
    note e1 = split_events_flag [where g = ?g and was = "was_fragmented m ! k" and ts = ts and now = now and rows = rows, folded ev_def]
    note e2 = straggler_events_new [where g = ?g and now = now and n = "length (distinct_roots rows)" and prev = "prev_stragglers m ! k" and str = str,
      folded ev2_def]
    have lens: "length (was_fragmented m1) = length (declared m)" "length (prev_stragglers m1) = length (declared m)"
      using g1(1,2) by (simp_all add: cohesion_inv_def)
    have flag: "flag_after (dg_id (declared m ! i)) (was_fragmented m ! i) (out @ ev @ ev2) = Some (was_fragmented m2 ! i)" if i: "i < Suc k" for i
    proof (cases "i = k")
      case True
      have "flag_after (dg_id ?g) c ev2 = Some c" for c using e2 by (intro flag_skip) blast
      then show ?thesis using True fk e1(1) lens k by (simp add: flag_append m2_def)
    next
      case False
      then have "dg_id (declared m ! i) \<noteq> dg_id ?g" using group_ids [OF inv, of i k] i k by simp
      then have "flag_after (dg_id (declared m ! i)) c (ev @ ev2) = Some c" for c using e1(2) e2 by (intro flag_skip) auto
      moreover have "flag_after (dg_id (declared m ! i)) (was_fragmented m ! i) out = Some (was_fragmented m1 ! i)"
        using g i False by (simp add: groups_done_def)
      ultimately show ?thesis using False by (simp add: flag_append m2_def)
    qed
    have evs: "\<exists>i < Suc k. ce_group e = dg_id (declared m ! i) \<and>
        (ce_kind e = StragglerDetected \<longrightarrow> ce_subject e \<notin> set (prev_stragglers m ! i) \<and> ce_subject e \<in> set (prev_stragglers m2 ! i))"
      if e: "e \<in> set (out @ ev @ ev2)" for e
    proof -
      have "prev_stragglers m2 ! i = prev_stragglers m1 ! i" if "i < k" for i using that by (simp add: m2_def)
      moreover have "prev_stragglers m2 ! k = map fst str" using lens k by (simp add: m2_def)
      note ps = calculation this
      consider (old) "e \<in> set out" | (split) "e \<in> set ev" | (straggle) "e \<in> set ev2" using e by auto
      then show ?thesis
      proof cases
        case old
        then obtain i where "i < k" "ce_group e = dg_id (declared m ! i)"
          "ce_kind e = StragglerDetected \<longrightarrow> ce_subject e \<notin> set (prev_stragglers m ! i) \<and> ce_subject e \<in> set (prev_stragglers m1 ! i)"
          using g unfolding groups_done_def by blast
        then show ?thesis using ps(1) by (intro exI [of _ i]) simp
      next
        case split
        then show ?thesis using e1(2) by blast
      next
        case straggle
        then show ?thesis using e2 [OF straggle] ps(2) by (intro exI [of _ k]) simp
      qed
    qed
    have "cohesion_inv m2" using g1(1,2) by (simp add: cohesion_inv_def m2_def)
    moreover have "declared m2 = declared m" "cm_cfg m2 = cm_cfg m" using g by (simp_all add: m2_def groups_done_def)
    moreover have "was_fragmented m2 ! i = was_fragmented m ! i \<and> prev_stragglers m2 ! i = prev_stragglers m ! i"
      if "i < length (declared m)" "Suc k \<le> i" for i using g that by (simp add: m2_def groups_done_def)
    ultimately have "groups_done m (Suc k) m2 (out @ ev @ ev2)" using flag evs unfolding groups_done_def by blast
    then show ?thesis using up by blast
  qed
qed

lemma update_groups:
  assumes inv: "cohesion_inv m" and d: "dsu_inv d" "nodes d = length ts"
  shows "k \<le> length (declared m) \<Longrightarrow>
    \<exists>m' out. foldl (update_group ts now d) (Some (m, [])) [0..<k] = Some (m', out) \<and> groups_done m k m' out"
proof (induction k)
  case 0
  then show ?case using inv by (simp add: groups_done_def)
next
  case (Suc k)
  then obtain m1 out where "foldl (update_group ts now d) (Some (m, [])) [0..<k] = Some (m1, out)" "groups_done m k m1 out" by auto
  then show ?case using update_group_step [OF inv d] Suc.prems by simp
qed

lemma groups_done_components:
  "groups_done (m\<lparr>prev_components := cs\<rparr>) k m' out \<longleftrightarrow> groups_done m k m' out"
  by (simp add: groups_done_def)

lemma cohesion_update_ok:
  assumes inv: "cohesion_inv m"
  shows "\<exists>m' out. cohesion_update ts now m = Some (m', out) \<and> (ts = [] \<and> m' = m \<and> out = [] \<or> groups_done m (length (declared m)) m' out)"
proof (cases "ts = []")
  case True
  then show ?thesis by (simp add: cohesion_update_def)
next
  case False
  have "edges_in (length ts) (close_pairs (cm_cfg m) ts)" by (auto simp: edges_in_def close_pairs_def)
  then obtain d where d: "proximity_graph (cm_cfg m) ts = Some d" "dsu_inv d" "nodes d = length ts"
    unfolding proximity_graph_def using unite_all_init by metis
  obtain comps where c: "dsu_components d = Some comps" using components_correct [OF d(2)] by metis
  define m1 where "m1 = m\<lparr>prev_components := map (map (\<lambda>i. to_id (ts ! i))) comps\<rparr>"
  have "cohesion_inv m1" using inv by (simp add: m1_def cohesion_inv_def)
  from update_groups [OF this d(2,3) order_refl] obtain m' out where
    r: "foldl (update_group ts now d) (Some (m1, [])) [0..<length (declared m1)] = Some (m', out)" "groups_done m1 (length (declared m1)) m' out" by blast
  have "cohesion_update ts now m = Some (m', out)" using False d(1) c r(1) by (simp add: cohesion_update_def m1_def)
  moreover have "groups_done m (length (declared m)) m' out" using r(2) by (simp add: m1_def groups_done_components)
  ultimately show ?thesis by blast
qed

lemma group_row_Some: "group_row m g = Some i \<Longrightarrow> i < length (declared m) \<and> dg_id (declared m ! i) = g"
  by (auto simp: group_row_def find_Some_iff)

lemma group_row_None: "group_row m g = None \<Longrightarrow> i < length (declared m) \<Longrightarrow> dg_id (declared m ! i) \<noteq> g"
  by (auto simp: group_row_def find_None_iff)

lemma group_row_same: "declared m' = declared m \<Longrightarrow> group_row m' g = group_row m g"
  by (simp add: group_row_def)

text \<open>A group is read the same way before and after.\<close>

lemma done_reads:
  assumes inv: "cohesion_inv m" and done': "groups_done m (length (declared m)) m' out"
  shows "flag_after g (fragmented m g) out = Some (fragmented m' g)"
    "\<And>e. e \<in> set out \<Longrightarrow> ce_kind e = StragglerDetected \<Longrightarrow>
      ce_subject e \<notin> set (stragglers m (ce_group e)) \<and> ce_subject e \<in> set (stragglers m' (ce_group e))"
proof -
  have same: "group_row m' h = group_row m h" for h using done' by (intro group_row_same) (simp add: groups_done_def)
  show "flag_after g (fragmented m g) out = Some (fragmented m' g)"
  proof (cases "group_row m g")
    case None
    then have "ce_group e \<noteq> g" if "e \<in> set out" for e using done' that group_row_None [OF None] unfolding groups_done_def by metis
    then have "flag_after g False out = Some False" by (intro flag_skip) blast
    then show ?thesis using None same by (simp add: fragmented_def)
  next
    case (Some i)
    then show ?thesis using done' group_row_Some [OF Some] same by (auto simp: fragmented_def groups_done_def)
  qed
  fix e assume e: "e \<in> set out" "ce_kind e = StragglerDetected"
  then obtain i where i: "i < length (declared m)" "ce_group e = dg_id (declared m ! i)"
    "ce_subject e \<notin> set (prev_stragglers m ! i)" "ce_subject e \<in> set (prev_stragglers m' ! i)" using done' unfolding groups_done_def by blast
  have "group_row m (ce_group e) = Some i"
  proof (cases "group_row m (ce_group e)")
    case None
    then show ?thesis using group_row_None [OF None i(1)] i(2) by simp
  next
    case (Some j)
    then show ?thesis using group_row_Some [OF Some] group_ids [OF inv, of j i] i(1,2) by simp
  qed
  then show "ce_subject e \<notin> set (stragglers m (ce_group e)) \<and> ce_subject e \<in> set (stragglers m' (ce_group e))"
    using i(3,4) same by (simp add: stragglers_def)
qed

section \<open>Runs\<close>

fun cohesion_run :: "(tourist list \<times> timestamp) list \<Rightarrow> cohesion_monitor \<Rightarrow> (cohesion_monitor \<times> cohesion_event list) option" where
  "cohesion_run [] m = Some (m, [])"
| "cohesion_run ((ts, now) # us) m =
     (case cohesion_update ts now m of None \<Rightarrow> None
      | Some (m, ev) \<Rightarrow> map_option (\<lambda>(m, evs). (m, ev @ evs)) (cohesion_run us m))"

definition monitor_of :: "cohesion_config \<Rightarrow> declared_group list \<Rightarrow> cohesion_monitor" where
  "monitor_of cfg gs = foldl (\<lambda>m g. declare_group g m) (cohesion_new cfg) gs"

lemma monitor_of_ok:
  assumes "distinct (map dg_id gs)"
  shows "cohesion_inv (monitor_of cfg gs)" "fragmented (monitor_of cfg gs) g = False"
proof -
  have f: "length (was_fragmented m) = length (declared m) \<Longrightarrow> length (prev_stragglers m) = length (declared m) \<Longrightarrow>
    (let m' = foldl (\<lambda>m g. declare_group g m) m gs in length (was_fragmented m') = length (declared m') \<and>
       length (prev_stragglers m') = length (declared m') \<and> declared m' = declared m @ gs \<and>
       was_fragmented m' = was_fragmented m @ replicate (length gs) False)" for m gs
    by (induction gs arbitrary: m) (auto simp: Let_def declare_group_def)
  note f0 = f [of "cohesion_new cfg" gs, folded monitor_of_def]
  have m: "length (was_fragmented (monitor_of cfg gs)) = length gs" "length (prev_stragglers (monitor_of cfg gs)) = length gs"
    "declared (monitor_of cfg gs) = gs" "was_fragmented (monitor_of cfg gs) = replicate (length gs) False"
    using f0 by (simp_all add: cohesion_new_def Let_def)
  then show "cohesion_inv (monitor_of cfg gs)" using assms by (simp add: cohesion_inv_def)
  show "fragmented (monitor_of cfg gs) g = False" using group_row_Some [of "monitor_of cfg gs" g] m by (auto simp: fragmented_def split: option.split)
qed

lemma cohesion_run_ok:
  "cohesion_inv m \<Longrightarrow> \<exists>m' evs. cohesion_run us m = Some (m', evs) \<and> cohesion_inv m' \<and> flag_after g (fragmented m g) evs = Some (fragmented m' g)"
proof (induction us arbitrary: m)
  case Nil
  then show ?case by simp
next
  case (Cons u us)
  obtain ts now where u: "u = (ts, now)" by fastforce
  obtain m1 ev where r: "cohesion_update ts now m = Some (m1, ev)" "ts = [] \<and> m1 = m \<and> ev = [] \<or> groups_done m (length (declared m)) m1 ev"
    using cohesion_update_ok [OF Cons.prems] by blast
  have "cohesion_inv m1 \<and> flag_after g (fragmented m g) ev = Some (fragmented m1 g)"
    using r(2) Cons.prems done_reads(1) [OF Cons.prems] by (auto simp: groups_done_def)
  then show ?case using Cons.IH [of m1] r(1) u by (auto simp: flag_append)
qed

section \<open>Properties\<close>

text \<open>C38: Split and rejoin events alternate: over any sequence of updates of groups with different ids, the monitor returns, every
  group is reported split only when it was whole and rejoined only when it was split, starting whole, and the flag the monitor shows
  is the one its events lead to.\<close>

theorem cohesion_events_alternate:
  assumes "distinct (map dg_id gs)"
  shows "\<exists>m evs. cohesion_run us (monitor_of cfg gs) = Some (m, evs) \<and> flag_after g False evs = Some (fragmented m g)"
  using cohesion_run_ok [OF monitor_of_ok(1) [OF assms]] monitor_of_ok(2) [OF assms] by metis

lemma cohesion_events_alternate_witness:
  "\<exists>m evs. cohesion_run [([tourist_new 1, tourist_new 2], 5), ([], 6)]
      (monitor_of cohesion_default [\<lparr>dg_id = 3, dg_members = [1, 2], dg_label = ''party''\<rparr>, \<lparr>dg_id = 4, dg_members = [2], dg_label = []\<rparr>]) = Some (m, evs) \<and>
    flag_after 3 False evs = Some (fragmented m 3)"
  by (rule cohesion_events_alternate) simp

end
