(* ===== verification/Crypto.thy ===== *)
theory Crypto
  imports Digital_Id
begin

text \<open>
  Message authentication and password records, \<^verbatim>\<open>include/safetrail/app/crypto.hpp\<close> and \<^verbatim>\<open>src/app/crypto.cpp\<close>, on the SHA-256 of
  \<open>Sha256\<close>. The random bytes of the operating system are an argument: \<open>None\<close> when the source cannot be read, and the program
  aborts. A password is a string of characters, each one byte.
\<close>

definition bytes_of :: "string \<Rightarrow> byte list" where
  "bytes_of s = map (\<lambda>c. of_nat (of_char c)) s"

definition hmac_key :: "byte list \<Rightarrow> byte list" where
  "hmac_key key = (let k = (if length key > 64 then sha256 key else key) in k @ replicate (64 - length k) 0)"

definition hmac_sha256 :: "byte list \<Rightarrow> byte list \<Rightarrow> hash" where
  "hmac_sha256 key msg =
     (let k = hmac_key key;
          ih = sha256 (map (\<lambda>b. b XOR 0x36) k @ msg)
      in sha256 (map (\<lambda>b. b XOR 0x5C) k @ ih))"

section \<open>Key derivation\<close>

definition be32 :: "32 word \<Rightarrow> byte list" where
  "be32 v = [ucast (drop_bit 24 v), ucast (drop_bit 16 v), ucast (drop_bit 8 v), ucast v]"

definition xor_bytes :: "byte list \<Rightarrow> byte list \<Rightarrow> byte list" where
  "xor_bytes t u = map2 (XOR) t u"

definition chain_step :: "byte list \<Rightarrow> hash \<times> hash \<Rightarrow> nat \<Rightarrow> hash \<times> hash" where
  "chain_step pw ut i = (let u = hmac_sha256 pw (fst ut) in (u, xor_bytes (snd ut) u))"

definition derived_block :: "byte list \<Rightarrow> byte list \<Rightarrow> nat \<Rightarrow> 32 word \<Rightarrow> hash" where
  "derived_block pw salt iterations block =
     (let u = hmac_sha256 pw (salt @ be32 block) in snd (foldl (chain_step pw) (u, u) [1..<iterations]))"

lemma length_hmac [simp]: "length (hmac_sha256 key msg) = 32"
  by (simp add: hmac_sha256_def Let_def)

lemma length_derived_block [simp]: "length (derived_block pw salt iterations block) = 32"
proof -
  have "length (fst ut) = 32 \<Longrightarrow> length (snd ut) = 32 \<Longrightarrow> length (snd (foldl (chain_step pw) ut is)) = 32" for ut "is"
    by (induction "is" arbitrary: ut) (simp_all add: chain_step_def xor_bytes_def Let_def)
  then show ?thesis by (simp add: derived_block_def Let_def)
qed

function derive_blocks :: "byte list \<Rightarrow> byte list \<Rightarrow> nat \<Rightarrow> nat \<Rightarrow> 32 word \<Rightarrow> byte list \<Rightarrow> byte list" where
  "derive_blocks pw salt iterations out_len block out =
     (if length out < out_len
      then derive_blocks pw salt iterations out_len (block + 1) (out @ take (out_len - length out) (derived_block pw salt iterations block))
      else out)"
  by pat_completeness auto
termination by (relation "measure (\<lambda>(pw, salt, iterations, out_len, block, out). out_len - length out)") auto

declare derive_blocks.simps [simp del]

definition pbkdf2_sha256 :: "string \<Rightarrow> byte list \<Rightarrow> nat \<Rightarrow> nat \<Rightarrow> byte list" where
  "pbkdf2_sha256 password salt iterations out_len =
     derive_blocks (bytes_of password) salt (if iterations = 0 then 1 else iterations) out_len 1 []"

section \<open>Comparison\<close>

definition constant_time_equal :: "byte list \<Rightarrow> byte list \<Rightarrow> bool" where
  "constant_time_equal a b =
     (if length a \<noteq> length b then False else foldl (\<lambda>diff i. diff OR (a ! i XOR b ! i)) 0 [0..<length a] = 0)"

definition constant_time_equal_str :: "string \<Rightarrow> string \<Rightarrow> bool" where
  "constant_time_equal_str a b =
     (if length a \<noteq> length b then False
      else foldl (\<lambda>diff i. diff OR (bytes_of [a ! i] ! 0 XOR bytes_of [b ! i] ! 0)) 0 [0..<length a] = 0)"

section \<open>Hexadecimal\<close>

definition hex_val :: "char \<Rightarrow> int" where
  "hex_val c =
     (let n = of_char c in
      if 48 \<le> n \<and> n \<le> 57 then int (n - 48)
      else if 97 \<le> n \<and> n \<le> 102 then int (n - 97 + 10)
      else if 65 \<le> n \<and> n \<le> 70 then int (n - 65 + 10)
      else - 1)"

fun unhex_pairs :: "string \<Rightarrow> byte list option" where
  "unhex_pairs (c1 # c2 # cs) =
     (let hi = hex_val c1; lo = hex_val c2
      in if hi < 0 \<or> lo < 0 then None else map_option (Cons (word_of_int (hi * 16 + lo))) (unhex_pairs cs))"
| "unhex_pairs cs = Some []"

definition unhex :: "string \<Rightarrow> byte list option" where
  "unhex s = (if length s mod 2 \<noteq> 0 then None else unhex_pairs s)"

definition hex_digits :: string where
  "hex_digits = ''0123456789abcdef''"

definition hex_string :: "byte list \<Rightarrow> string" where
  "hex_string v = concat (map (\<lambda>b. [hex_digits ! unat (drop_bit 4 b), hex_digits ! unat (b AND 15)]) v)"

section \<open>Password records\<close>

definition pw_prefix :: string where
  "pw_prefix = ''pbkdf2-sha256$''"

definition hash_password :: "byte list option \<Rightarrow> string \<Rightarrow> nat \<Rightarrow> string option" where
  "hash_password salt password iterations =
     map_option (\<lambda>salt. pw_prefix @ dec_string iterations @ ''$'' @ hex_string salt @ ''$''
       @ hex_string (pbkdf2_sha256 password salt iterations 32)) salt"

text \<open>What comes before the first dollar and what after it.\<close>

definition cut_dollar :: "string \<Rightarrow> (string \<times> string) option" where
  "cut_dollar s = (if CHR ''$'' \<in> set s then Some (takeWhile (\<lambda>c. c \<noteq> CHR ''$'') s, tl (dropWhile (\<lambda>c. c \<noteq> CHR ''$'') s)) else None)"

definition verify_password :: "string \<Rightarrow> string \<Rightarrow> bool" where
  "verify_password password stored =
     (if take (length pw_prefix) stored \<noteq> pw_prefix then False
      else
        case cut_dollar (drop (length pw_prefix) stored) of
          None \<Rightarrow> False
        | Some (it_s, rest) \<Rightarrow>
            (case cut_dollar rest of
               None \<Rightarrow> False
             | Some (salt_s, want_s) \<Rightarrow>
                 if it_s = [] \<or> length it_s > 9 then False
                 else if \<not> list_all is_digit it_s then False
                 else
                   (let iterations = dec_value it_s in
                    case unhex salt_s of None \<Rightarrow> False | Some salt \<Rightarrow>
                      (case unhex want_s of None \<Rightarrow> False | Some want \<Rightarrow>
                         if want = [] then False
                         else constant_time_equal (pbkdf2_sha256 password salt iterations (length want)) want))))"

section \<open>Lemmas\<close>

lemma length_derive_blocks: "length out \<le> out_len \<Longrightarrow> length (derive_blocks pw salt iterations out_len block out) = out_len"
proof (induction pw salt iterations out_len block out rule: derive_blocks.induct)
  case (1 pw salt iterations out_len block out)
  then show ?case by (subst derive_blocks.simps) auto
qed

lemma length_pbkdf2: "length (pbkdf2_sha256 password salt iterations out_len) = out_len"
  by (simp add: pbkdf2_sha256_def length_derive_blocks)

lemma or_zero_iff: "(a OR b = 0) \<longleftrightarrow> a = 0 \<and> b = (0 :: 'a::len word)"
  by (auto simp: bit_eq_iff bit_simps)

lemma xor_zero_iff: "(a XOR b = 0) \<longleftrightarrow> a = (b :: 'a::len word)"
  by (auto simp: bit_eq_iff bit_simps)

lemma or_fold_zero: "foldl (\<lambda>d i. d OR f i) d is = 0 \<longleftrightarrow> d = 0 \<and> (\<forall>i \<in> set is. f i = (0 :: 'a::len word))"
  by (induction "is" arbitrary: d) (auto simp: or_zero_iff)

lemma constant_time_equal_eq: "constant_time_equal a b \<longleftrightarrow> a = b"
  by (auto simp: constant_time_equal_def or_fold_zero xor_zero_iff intro: nth_equalityI)

lemma constant_time_equal_str_eq: "constant_time_equal_str a b \<longleftrightarrow> a = b"
proof -
  have "bytes_of [c] ! 0 = bytes_of [d] ! 0 \<longleftrightarrow> c = d" for c d
  proof
    assume "bytes_of [c] ! 0 = bytes_of [d] ! 0"
    then have "unat (of_nat (of_char c) :: byte) = unat (of_nat (of_char d) :: byte)" by (simp add: bytes_of_def)
    moreover have "(of_char x :: nat) < 256" for x by (metis of_char_mod_256 mod_less_divisor zero_less_numeral)
    ultimately have "(of_char c :: nat) = of_char d" by (simp add: unat_of_nat)
    then show "c = d" by simp
  qed simp
  then show ?thesis by (auto simp: constant_time_equal_str_def or_fold_zero xor_zero_iff intro: nth_equalityI)
qed

lemma hex_digit_val: "n < 16 \<Longrightarrow> hex_val (hex_digits ! n) = int n \<and> hex_digits ! n \<noteq> CHR ''$''"
proof -
  assume "n < 16"
  moreover have "\<forall>n \<in> set [0..<16]. hex_val (hex_digits ! n) = int n \<and> hex_digits ! n \<noteq> CHR ''$''" by code_simp
  ultimately show ?thesis by simp
qed

lemma nibbles_sum: "word_of_int (int (unat (drop_bit 4 b)) * 16 + int (unat (b AND 15))) = (b :: byte)"
proof -
  have "unat b = unat b div 16 * 16 + unat b mod 16" by simp
  moreover have "unat (drop_bit 4 b) = unat b div 16" using unat_drop_bit_eq [of 4 b] by (simp add: drop_bit_eq_div [of 4 "unat b"])
  moreover have "unat (b AND 15) = unat b mod 16"
  proof -
    have "b AND 15 = take_bit 4 b" by (simp add: take_bit_eq_mask mask_eq_exp_minus_1)
    then have "unat (b AND 15) = take_bit 4 (unat b)" by (simp only: unsigned_take_bit_eq)
    then show ?thesis by (simp add: take_bit_eq_mod)
  qed
  ultimately have "int (unat (drop_bit 4 b)) * 16 + int (unat (b AND 15)) = int (unat b)" by (metis of_nat_add of_nat_mult of_nat_numeral)
  then show ?thesis by simp
qed

lemma unhex_hex_string: "unhex_pairs (hex_string v) = Some v \<and> length (hex_string v) = 2 * length v \<and> CHR ''$'' \<notin> set (hex_string v)"
proof (induction v)
  case (Cons b v)
  then show ?case
    using hex_digit_val [OF nibble_bounds(1) [of b]] hex_digit_val [OF nibble_bounds(2) [of b]] nibbles_sum [of b]
    by (simp add: hex_string_def Let_def) metis
qed (simp add: hex_string_def)

lemma unhex_hex: "unhex (hex_string v) = Some v"
  using unhex_hex_string by (simp add: unhex_def)

lemma cut_dollar_append: "CHR ''$'' \<notin> set a \<Longrightarrow> cut_dollar (a @ CHR ''$'' # b) = Some (a, b)"
proof -
  assume a: "CHR ''$'' \<notin> set a"
  then have "takeWhile (\<lambda>c. c \<noteq> CHR ''$'') (a @ CHR ''$'' # b) = a" "dropWhile (\<lambda>c. c \<noteq> CHR ''$'') (a @ CHR ''$'' # b) = CHR ''$'' # b"
    by (induction a) auto
  then show ?thesis by (simp add: cut_dollar_def)
qed

lemma dec_string_length: "length (dec_string n) \<le> 9 \<longleftrightarrow> n < 10 ^ 9"
proof -
  have "0 < k \<Longrightarrow> length (dec_string n) \<le> k \<longleftrightarrow> n < 10 ^ k" for k n
  proof (induction k arbitrary: n)
    case (Suc k)
    show ?case
    proof (cases "n < 10")
      case True
      then have "n < 10 ^ Suc k" by (rule less_le_trans) simp
      then show ?thesis using True by (subst dec_string.simps) simp
    next
      case False
      show ?thesis
      proof (cases k)
        case 0
        then show ?thesis using False dec_string_nonempty [of "n div 10"] by (subst dec_string.simps) simp
      next
        case (Suc k')
        then have "length (dec_string (n div 10)) \<le> k \<longleftrightarrow> n div 10 < 10 ^ k" using Suc.IH by simp
        also have "\<dots> \<longleftrightarrow> n < 10 ^ Suc k" by (simp add: div_less_iff_less_mult mult.commute)
        finally show ?thesis using False by (subst dec_string.simps) simp
      qed
    qed
  qed simp
  then show ?thesis by simp
qed

lemma hash_verify:
  "verify_password password' (the (hash_password (Some salt) password iterations)) \<longleftrightarrow>
     iterations < 10 ^ 9 \<and> pbkdf2_sha256 password' salt iterations 32 = pbkdf2_sha256 password salt iterations 32"
proof -
  let ?dk = "pbkdf2_sha256 password salt iterations 32"
  have it: "CHR ''$'' \<notin> set (dec_string iterations)" using dec_string_digits [of iterations] by (auto simp: is_digit_def)
  have st: "the (hash_password (Some salt) password iterations) =
      pw_prefix @ dec_string iterations @ CHR ''$'' # hex_string salt @ CHR ''$'' # hex_string ?dk" by (simp add: hash_password_def)
  have c1: "cut_dollar (dec_string iterations @ CHR ''$'' # hex_string salt @ CHR ''$'' # hex_string ?dk) =
      Some (dec_string iterations, hex_string salt @ CHR ''$'' # hex_string ?dk)" by (rule cut_dollar_append [OF it])
  have c2: "cut_dollar (hex_string salt @ CHR ''$'' # hex_string ?dk) = Some (hex_string salt, hex_string ?dk)"
    using unhex_hex_string [of salt] by (intro cut_dollar_append) blast
  have d: "list_all is_digit (dec_string iterations)" using dec_string_digits by (simp add: list_all_iff)
  have l: "length ?dk = 32" by (rule length_pbkdf2)
  then have "?dk \<noteq> []" by auto
  moreover have "9 < length (dec_string iterations) \<longleftrightarrow> \<not> iterations < 10 ^ 9" using dec_string_length [of iterations] by linarith
  ultimately show ?thesis unfolding st verify_password_def
    by (simp add: c1 c2 d unhex_hex dec_value_string dec_string_nonempty constant_time_equal_eq l Let_def)
qed

section \<open>Properties\<close>

text \<open>C37: A stored password verifies: the record made for a password under any salt and an iteration count of at most nine digits is
  accepted for exactly the passwords that derive the same key, the password itself among them; a record with a longer count is refused
  for every password.\<close>

theorem password_record_verifies:
  "verify_password password' (the (hash_password (Some salt) password iterations)) \<longleftrightarrow>
     iterations < 10 ^ 9 \<and> pbkdf2_sha256 password' salt iterations 32 = pbkdf2_sha256 password salt iterations 32"
  by (rule hash_verify)

end
