(* ===== verification/Great_Circle.thy ===== *)
theory Great_Circle
  imports Geo_Base
begin

text \<open>
  The haversine distance of \<open>Geo_Base\<close> is a metric: it is the angle between the unit vectors of the two points, times the radius,
  and angles satisfy the triangle inequality.
\<close>

section \<open>Unit vectors\<close>

record vec =
  vx :: real
  vy :: real
  vz :: real

definition unit_vec :: "lat_lon \<Rightarrow> vec" where
  "unit_vec p =
     (let phi = lat p * kDeg2Rad; lam = lon p * kDeg2Rad
      in \<lparr>vx = cos phi * cos lam, vy = cos phi * sin lam, vz = sin phi\<rparr>)"

definition dot :: "vec \<Rightarrow> vec \<Rightarrow> real" where
  "dot a b = vx a * vx b + vy a * vy b + vz a * vz b"

lemma dot_commute: "dot a b = dot b a"
  by (simp add: dot_def mult.commute)

lemma unit_norm: "dot (unit_vec p) (unit_vec p) = 1"
proof -
  have n: "(c * d) * (c * d) + (c * e) * (c * e) + s * s = 1" if "s\<^sup>2 + c\<^sup>2 = 1" "e\<^sup>2 + d\<^sup>2 = 1" for c d e s :: real
  proof -
    have "(c * d) * (c * d) + (c * e) * (c * e) + s * s = c\<^sup>2 * (e\<^sup>2 + d\<^sup>2) + s\<^sup>2" by (simp add: power2_eq_square algebra_simps)
    then show ?thesis using that by simp
  qed
  show ?thesis unfolding dot_def unit_vec_def Let_def vec.select_convs by (rule n) (rule sin_cos_squared_add)+
qed

lemma gram:
  "(vx a * (vy b * vz c - vz b * vy c) - vy a * (vx b * vz c - vz b * vx c) + vz a * (vx b * vy c - vy b * vx c))\<^sup>2 =
   dot a a * dot b b * dot c c + 2 * dot a b * dot b c * dot a c - dot a a * (dot b c)\<^sup>2 - dot b b * (dot a c)\<^sup>2 - dot c c * (dot a b)\<^sup>2"
  by (simp add: dot_def power2_eq_square algebra_simps)

lemma gram_unit:
  assumes "dot a a = 1" "dot b b = 1" "dot c c = 1"
  shows "(dot a c - dot a b * dot b c)\<^sup>2 \<le> (1 - (dot a b)\<^sup>2) * (1 - (dot b c)\<^sup>2)"
proof -
  have "0 \<le> 1 + 2 * dot a b * dot b c * dot a c - (dot b c)\<^sup>2 - (dot a c)\<^sup>2 - (dot a b)\<^sup>2"
    using gram [of a b c] assms by (metis mult_1 zero_le_power2)
  then show ?thesis by (simp add: power2_eq_square algebra_simps)
qed

lemma dot_bound:
  assumes "dot a a = 1" "dot b b = 1"
  shows "- 1 \<le> dot a b" "dot a b \<le> 1"
proof -
  have "0 \<le> (vx a - vx b)\<^sup>2 + (vy a - vy b)\<^sup>2 + (vz a - vz b)\<^sup>2" "0 \<le> (vx a + vx b)\<^sup>2 + (vy a + vy b)\<^sup>2 + (vz a + vz b)\<^sup>2" by simp_all
  then have "0 \<le> dot a a + dot b b - 2 * dot a b" "0 \<le> dot a a + dot b b + 2 * dot a b"
    by (simp_all add: dot_def power2_eq_square algebra_simps)
  then show "- 1 \<le> dot a b" "dot a b \<le> 1" using assms by simp_all
qed

section \<open>Angles\<close>

definition angle :: "lat_lon \<Rightarrow> lat_lon \<Rightarrow> real" where
  "angle p q = arccos (dot (unit_vec p) (unit_vec q))"

lemmas dot_units = dot_bound [OF unit_norm unit_norm]

lemma angle_range: "0 \<le> angle p q" "angle p q \<le> pi"
  using dot_units [of p q] by (simp_all add: angle_def arccos_lbound arccos_ubound)

lemma cos_angle: "cos (angle p q) = dot (unit_vec p) (unit_vec q)"
  using dot_units [of p q] by (simp add: angle_def)

lemma angle_triangle: "angle p r \<le> angle p q + angle q r"
proof (cases "angle p q + angle q r \<le> pi")
  case True
  let ?a = "angle p q" and ?b = "angle q r"
  have s: "0 \<le> sin ?a" "0 \<le> sin ?b" using angle_range by (simp_all add: sin_ge_zero)
  have sq: "1 - (cos t)\<^sup>2 = (sin t)\<^sup>2" for t :: real using sin_cos_squared_add [of t] by linarith
  have "(dot (unit_vec p) (unit_vec r) - cos ?a * cos ?b)\<^sup>2 \<le> (1 - (cos ?a)\<^sup>2) * (1 - (cos ?b)\<^sup>2)"
    unfolding cos_angle by (rule gram_unit) (rule unit_norm)+
  then have "(cos ?a * cos ?b - dot (unit_vec p) (unit_vec r))\<^sup>2 \<le> (sin ?a * sin ?b)\<^sup>2"
    unfolding sq power_mult_distrib by (subst power2_commute)
  then have "cos ?a * cos ?b - dot (unit_vec p) (unit_vec r) \<le> sin ?a * sin ?b"
    by (rule power2_le_imp_le) (rule mult_nonneg_nonneg [OF s])
  then have "cos (?a + ?b) \<le> cos (angle p r)" unfolding cos_angle [of p r] by (simp add: cos_add)
  moreover have "0 \<le> ?a + ?b" using angle_range by (simp add: add_nonneg_nonneg)
  ultimately show ?thesis using True angle_range cos_mono_le_eq [of "?a + ?b" "angle p r"] by blast
next
  case False
  then show ?thesis using angle_range(2) [of p r] by linarith
qed

section \<open>The distance\<close>

lemma sin_half: "sin (t / 2) * sin (t / 2) = (1 - cos t) / 2" for t :: real
proof -
  have "2 * (t / 2) = t" by simp
  then have "cos t = 1 - 2 * (sin (t / 2) * sin (t / 2))" using cos_double_sin [of "t / 2"] unfolding power2_eq_square by metis
  then show ?thesis by (simp add: field_simps)
qed

lemma haversine_dot: "haversine p q = (1 - dot (unit_vec p) (unit_vec q)) / 2"
proof -
  have poly: "(1 - (cb * ca + sb * sa)) / 2 + ca * cb * ((1 - (cm * cl + sm * sl)) / 2) =
      (1 - ((ca * cl) * (cb * cm) + (ca * sl) * (cb * sm) + sa * sb)) / 2" for ca cb cl cm sa sb sl sm :: real
    by (simp add: field_simps)
  let ?a = "lat p * kDeg2Rad" and ?b = "lat q * kDeg2Rad" and ?l = "lon p * kDeg2Rad" and ?m = "lon q * kDeg2Rad"
  have d: "(lat q - lat p) * kDeg2Rad = ?b - ?a" "(lon q - lon p) * kDeg2Rad = ?m - ?l" by (simp_all add: left_diff_distrib)
  have "haversine p q = sin ((?b - ?a) / 2) * sin ((?b - ?a) / 2) + cos ?a * cos ?b * (sin ((?m - ?l) / 2) * sin ((?m - ?l) / 2))"
    unfolding haversine_def Let_def d by (simp only: mult.assoc)
  also have "\<dots> = (1 - (cos ?b * cos ?a + sin ?b * sin ?a)) / 2 + cos ?a * cos ?b * ((1 - (cos ?m * cos ?l + sin ?m * sin ?l)) / 2)"
    unfolding sin_half cos_diff ..
  also have "\<dots> = (1 - dot (unit_vec p) (unit_vec q)) / 2"
    unfolding dot_def unit_vec_def Let_def vec.select_convs by (rule poly)
  finally show ?thesis .
qed

lemma distance_angle: "distance_m p q = kEarthR * angle p q"
proof -
  let ?t = "angle p q"
  have h: "haversine p q = (sin (?t / 2))\<^sup>2"
    unfolding power2_eq_square sin_half cos_angle by (rule haversine_dot)
  have r: "0 \<le> ?t / 2" "?t / 2 \<le> pi / 2" using angle_range [of p q] by simp_all
  then have s: "0 \<le> sin (?t / 2)" by (intro sin_ge_zero) simp_all
  have "0 \<le> haversine p q" "haversine p q \<le> 1" using dot_units [of p q] by (simp_all add: haversine_dot)
  then have "distance_m p q = 2 * kEarthR * arcsin (sqrt (haversine p q))" by (simp add: distance_m_def)
  also have "sqrt (haversine p q) = sin (?t / 2)" using s h by simp
  also have "arcsin (sin (?t / 2)) = ?t / 2" using r by (intro arcsin_sin) linarith+
  finally show ?thesis by simp
qed

lemma kEarthR_pos: "0 < kEarthR"
  by (simp add: kEarthR_def)

lemma distance_triangle: "distance_m p r \<le> distance_m p q + distance_m q r"
  using mult_left_mono [OF angle_triangle [of p r q], of kEarthR] kEarthR_pos by (simp add: distance_angle distrib_left)

lemma distance_nonneg: "0 \<le> distance_m p q"
  using angle_range(1) [of p q] kEarthR_pos by (simp add: distance_angle)

lemma distance_commute: "distance_m p q = distance_m q p"
  by (simp add: distance_angle angle_def dot_commute)

lemma distance_zero: "distance_m p p = 0"
  by (simp add: distance_angle angle_def unit_norm)

lemma distance_max: "distance_m p q \<le> kEarthR * pi"
  using mult_left_mono [OF angle_range(2) [of p q], of kEarthR] kEarthR_pos by (simp add: distance_angle)

end
