(* ===== verification/Trajectory.thy ===== *)
theory Trajectory
  imports Tourist Great_Circle
begin

text \<open>
  Trajectory statistics and anomaly detection over the recent pings, \<^verbatim>\<open>include/safetrail/track/trajectory.hpp\<close>,
  \<^verbatim>\<open>src/track/trajectory.cpp\<close>, \<^verbatim>\<open>include/safetrail/track/anomaly.hpp\<close> and \<^verbatim>\<open>src/track/anomaly.cpp\<close>. Ping 0 is the newest.
  Distances are exact reals, times unbounded integers.
\<close>

definition ping_pos :: "tourist \<Rightarrow> nat \<Rightarrow> lat_lon" where
  "ping_pos t i = pos (pg_fix (cb_get (pings t) i))"

definition ping_ms :: "tourist \<Rightarrow> nat \<Rightarrow> timestamp" where
  "ping_ms t i = t_ms (pg_fix (cb_get (pings t) i))"

section \<open>Trajectories\<close>

definition path_length_m :: "tourist \<Rightarrow> real" where
  "path_length_m t =
     (let n = cb_count (pings t)
      in if n < 2 then 0 else foldl (\<lambda>total i. total + distance_m (ping_pos t i) (ping_pos t (i + 1))) 0 [0..<n - 1])"

definition displacement_m :: "tourist \<Rightarrow> real" where
  "displacement_m t = (let n = cb_count (pings t) in if n < 2 then 0 else distance_m (ping_pos t 0) (ping_pos t (n - 1)))"

definition tortuosity :: "tourist \<Rightarrow> real" where
  "tortuosity t =
     (let disp = displacement_m t; path = path_length_m t
      in if disp < 1 / 1000000 then (if path > 1 / 1000000 then 1000000000 else 1) else path / disp)"

text \<open>The loop of \<open>average_speed_mps\<close>: the distance and the span covered before the first ping older than the window.\<close>

fun speed_scan :: "tourist \<Rightarrow> int \<Rightarrow> nat list \<Rightarrow> real \<times> int \<Rightarrow> real \<times> int" where
  "speed_scan t window_ms [] st = st"
| "speed_scan t window_ms (i # is) (d, span_ms) =
     (if ping_ms t 0 - ping_ms t (i + 1) > window_ms then (d, span_ms)
      else speed_scan t window_ms is (d + distance_m (ping_pos t i) (ping_pos t (i + 1)), ping_ms t 0 - ping_ms t (i + 1)))"

definition average_speed_mps :: "tourist \<Rightarrow> int \<Rightarrow> real" where
  "average_speed_mps t window_ms =
     (let n = cb_count (pings t)
      in if n < 2 then 0
         else (let (d, span_ms) = speed_scan t window_ms [0..<n - 1] (0, 0)
               in if span_ms > 0 then d / (of_int span_ms / 1000) else 0))"

section \<open>Anomalies\<close>

datatype anomaly_kind = NoAnomaly | AnSignalLost | AnStationary | AnRouteDeviation

fun anomaly_string :: "anomaly_kind \<Rightarrow> string" where
  "anomaly_string NoAnomaly = ''none''"
| "anomaly_string AnSignalLost = ''signal-lost''"
| "anomaly_string AnStationary = ''stationary''"
| "anomaly_string AnRouteDeviation = ''route-deviation''"

record anomaly_config =
  signal_gap_ms :: int
  stationary_radius_m :: real
  stationary_window_ms :: int
  route_deviation_m :: real

definition anomaly_default :: anomaly_config where
  "anomaly_default = \<lparr>signal_gap_ms = 120000, stationary_radius_m = 15, stationary_window_ms = 300000, route_deviation_m = 200\<rparr>"

definition point_seg_m :: "lat_lon \<Rightarrow> lat_lon \<Rightarrow> lat_lon \<Rightarrow> real" where
  "point_seg_m p a b =
     (let kM = 111320; clat = cos (lat a * kPi / 180);
          bx = (lon b - lon a) * kM * clat; by' = (lat b - lat a) * kM;
          px = (lon p - lon a) * kM * clat; py = (lat p - lat a) * kM;
          len2 = bx * bx + by' * by';
          s = (if len2 > 0 then (px * bx + py * by') / len2 else 0);
          s = (if s < 0 then 0 else if s > 1 then 1 else s);
          dx = px - s * bx; dy = py - s * by'
      in sqrt (dx * dx + dy * dy))"

text \<open>How far back the pings reach before the window is covered: the last ping looked at and the time covered.\<close>

fun window_scan :: "tourist \<Rightarrow> int \<Rightarrow> nat list \<Rightarrow> nat \<times> int \<Rightarrow> nat \<times> int" where
  "window_scan t w [] st = st"
| "window_scan t w (i # is) st =
     (let covered = ping_ms t 0 - ping_ms t i in if covered \<ge> w then (i, covered) else window_scan t w is (i, covered))"

definition ping_avg :: "tourist \<Rightarrow> nat \<Rightarrow> nat \<Rightarrow> lat_lon" where
  "ping_avg t a b =
     (let is = [a..<min (b + 1) (cb_count (pings t))];
          c = (if is \<noteq> [] then length is else 1)
      in \<lparr>lat = foldl (\<lambda>s i. s + lat (ping_pos t i)) 0 is / of_nat c, lon = foldl (\<lambda>s i. s + lon (ping_pos t i)) 0 is / of_nat c\<rparr>)"

text \<open>The net movement over the window, if the pings cover it.\<close>

definition net_movement :: "tourist \<Rightarrow> anomaly_config \<Rightarrow> real option" where
  "net_movement t cfg =
     (let (final, covered) = window_scan t (stationary_window_ms cfg) [1..<cb_count (pings t)] (0, 0) in
      if covered \<ge> stationary_window_ms cfg
      then (let k = min 5 (if final div 2 \<noteq> 0 then final div 2 else 1)
            in Some (distance_m (ping_avg t 0 k) (ping_avg t (if final > k then final - k else 0) final)))
      else None)"

definition route_distance :: "tourist \<Rightarrow> real" where
  "route_distance t =
     foldl (\<lambda>best i. min best (point_seg_m (ping_pos t 0) (planned_route t ! i) (planned_route t ! (i + 1)))) (10 ^ 300)
       [0..<length (planned_route t) - 1]"

definition detect :: "tourist \<Rightarrow> timestamp \<Rightarrow> anomaly_config \<Rightarrow> anomaly_kind \<times> real" where
  "detect t now_ms cfg =
     (if cb_count (pings t) = 0 then (AnSignalLost, of_int (signal_gap_ms cfg))
      else
        (let gap = now_ms - ping_ms t 0;
             net = net_movement t cfg in
         if gap > signal_gap_ms cfg then (AnSignalLost, of_int gap)
         else if (case net of None \<Rightarrow> False | Some d \<Rightarrow> d < stationary_radius_m cfg) then (AnStationary, the net)
         else if length (planned_route t) \<ge> 2 \<and> route_distance t > route_deviation_m cfg then (AnRouteDeviation, route_distance t)
         else (NoAnomaly, 0)))"

section \<open>A path is at least as long as the line\<close>

lemma path_ge:
  "distance_m (ping_pos t 0) (ping_pos t k) \<le> foldl (\<lambda>total i. total + distance_m (ping_pos t i) (ping_pos t (i + 1))) 0 [0..<k]"
proof (induction k)
  case 0
  then show ?case by (simp add: distance_zero)
next
  case (Suc k)
  then show ?case using distance_triangle [of "ping_pos t 0" "ping_pos t (Suc k)" "ping_pos t k"] by simp
qed

lemma displacement_le_path: "displacement_m t \<le> path_length_m t"
  using path_ge [of t "cb_count (pings t) - 1"] by (simp add: displacement_m_def path_length_m_def Let_def)

lemma path_nonneg: "0 \<le> path_length_m t"
proof -
  have "0 \<le> displacement_m t" by (simp add: displacement_m_def Let_def distance_nonneg)
  then show ?thesis using displacement_le_path by (rule order_trans)
qed

text \<open>The verdict by its reasons.\<close>

lemma detect_signal_lost:
  "fst (detect t now_ms cfg) = AnSignalLost \<longleftrightarrow> cb_count (pings t) = 0 \<or> now_ms - ping_ms t 0 > signal_gap_ms cfg"
  by (simp add: detect_def Let_def)

lemma detect_route_deviation:
  assumes "detect t now_ms cfg = (AnRouteDeviation, d)" "i + 1 < length (planned_route t)"
  shows "route_deviation_m cfg < d \<and> d \<le> point_seg_m (ping_pos t 0) (planned_route t ! i) (planned_route t ! (i + 1))"
proof -
  have le: "foldl (\<lambda>best i. min best (f i)) b js \<le> b \<and> (\<forall>i \<in> set js. foldl (\<lambda>best i. min best (f i)) b js \<le> f i)" for f :: "nat \<Rightarrow> real" and b and js :: "nat list"
  proof (induction js arbitrary: b)
    case (Cons x xs)
    then have "foldl (\<lambda>best i. min best (f i)) (min b (f x)) xs \<le> min b (f x)" by blast
    then have "foldl (\<lambda>best i. min best (f i)) (min b (f x)) xs \<le> b" "foldl (\<lambda>best i. min best (f i)) (min b (f x)) xs \<le> f x" by simp_all
    then show ?case using Cons by auto
  qed simp
  have "d = route_distance t" "route_deviation_m cfg < route_distance t"
    using assms(1) by (auto simp: detect_def Let_def split: if_splits)
  moreover have "route_distance t \<le> point_seg_m (ping_pos t 0) (planned_route t ! i) (planned_route t ! (i + 1))"
    using le [where f = "\<lambda>i. point_seg_m (ping_pos t 0) (planned_route t ! i) (planned_route t ! (i + 1))" and b = "10 ^ 300"
        and js = "[0..<length (planned_route t) - 1]"] assms(2) unfolding route_distance_def by auto
  ultimately show ?thesis by simp
qed

section \<open>Properties\<close>

text \<open>C40: A walk is never shorter than its chord: the tortuosity of a tourist, path over displacement, is at least one, whatever the
  pings are; it rests on the triangle inequality of the haversine distance.\<close>

theorem tortuosity_at_least_one: "1 \<le> tortuosity t"
  using displacement_le_path [of t] by (auto simp: tortuosity_def Let_def)

end
