(* ===== verification/Astar.thy ===== *)
theory Astar
  imports Dijkstra Great_Circle
begin

text \<open>
  A*, \<^verbatim>\<open>include/safetrail/graph/astar.hpp\<close> and \<^verbatim>\<open>src/graph/astar.cpp\<close>: Dijkstra's search with the frontier ordered by the cost so
  far plus the great-circle distance to the target. Nothing bounds the re-expansions when the weights are not distances, so the
  loop is a partial function. Costs are exact reals.
\<close>

record a_item =
  a_f :: real
  a_g :: real
  a_node :: node_id

definition a_less :: "a_item \<Rightarrow> a_item \<Rightarrow> bool" where
  "a_less a b = (if a_f a \<noteq> a_f b then a_f a < a_f b else a_node a < a_node b)"

record astar_result =
  as_found :: bool
  as_cost :: real
  as_path :: "node_id list"
  as_expanded :: nat

definition astar_none :: astar_result where
  "astar_none = \<lparr>as_found = False, as_cost = 0, as_path = [], as_expanded = 0\<rparr>"

definition edge_admissible :: "road_graph \<Rightarrow> nat \<Rightarrow> edge \<Rightarrow> bool" where
  "edge_admissible g u e \<longleftrightarrow> \<not> (e_weight e + 1 / 1000 < distance_m (rg_pos g (int u)) (rg_pos g (e_to e)))"

definition heuristic_is_admissible :: "road_graph \<Rightarrow> bool" where
  "heuristic_is_admissible g \<longleftrightarrow> list_all (\<lambda>u. list_all (edge_admissible g u) (neighbors g (int u))) [0..<rg_count g]"

section \<open>The search\<close>

definition heuristic :: "road_graph \<Rightarrow> node_id \<Rightarrow> node_id \<Rightarrow> real" where
  "heuristic g target n = distance_m (rg_pos g n) (rg_pos g target)"

record a_search =
  a_best :: "real list"
  a_parent :: "node_id list"
  a_heap :: "a_item list"
  a_count :: nat
  a_trace :: "search_trace option"

definition a_on_trace :: "(search_trace \<Rightarrow> search_trace) \<Rightarrow> a_search \<Rightarrow> a_search" where
  "a_on_trace f s = s\<lparr>a_trace := map_option f (a_trace s)\<rparr>"

definition a_relax :: "road_graph \<Rightarrow> node_id \<Rightarrow> a_item \<Rightarrow> a_search \<Rightarrow> edge \<Rightarrow> a_search" where
  "a_relax g target cur s e =
     (let ng = a_g cur + e_weight e; t = nat (e_to e) in
      if ng < a_best s ! t
      then a_on_trace (\<lambda>tr. tr\<lparr>tr_pushes := tr_pushes tr + 1\<rparr>)
             (s\<lparr>a_best := (a_best s)[t := ng], a_parent := (a_parent s)[t := a_node cur],
                a_heap := heap_push a_less (a_heap s) \<lparr>a_f = ng + heuristic g target (e_to e), a_g = ng, a_node = e_to e\<rparr>\<rparr>)
      else if e_weight e > 0 \<and> ng = a_best s ! t \<and> a_node cur < a_parent s ! t
      then s\<lparr>a_parent := (a_parent s)[t := a_node cur]\<rparr>
      else s)"

definition a_snap_frontier :: "a_item list \<Rightarrow> search_trace \<Rightarrow> search_trace" where
  "a_snap_frontier heap tr =
     (if length (tr_frontier tr) < snapshot_limit tr
      then tr\<lparr>tr_frontier := tr_frontier tr @ [map (\<lambda>q. (a_f q, a_node q)) heap]\<rparr> else tr)"

definition a_settle :: "a_item \<Rightarrow> a_search \<Rightarrow> a_search" where
  "a_settle cur s =
     a_on_trace (\<lambda>tr. tr\<lparr>tr_settled := tr_settled tr @ [a_node cur], tr_frontier_size := tr_frontier_size tr @ [length (a_heap s)]\<rparr>)
       (s\<lparr>a_count := a_count s + 1\<rparr>)"

text \<open>The walk back over the parents has at most as many nodes as the graph.\<close>

definition a_answer :: "road_graph \<Rightarrow> node_id \<Rightarrow> a_item \<Rightarrow> a_search \<Rightarrow> (astar_result \<times> search_trace option) option" where
  "a_answer g target cur s =
     map_option (\<lambda>ps. (\<lparr>as_found = True, as_cost = a_g cur, as_path = rev ps, as_expanded = a_count s\<rparr>, a_trace s))
       (parent_chain (rg_count g) (a_parent s) target)"

partial_function (option) astar_loop :: "road_graph \<Rightarrow> node_id \<Rightarrow> a_search \<Rightarrow> (astar_result \<times> search_trace option) option" where
  "astar_loop g target s =
     (case heap_pop a_less (a_heap s) of
        None \<Rightarrow> Some (astar_none\<lparr>as_expanded := a_count s\<rparr>, a_trace s)
      | Some (cur, heap) \<Rightarrow>
          (let s = (a_on_trace (a_snap_frontier (a_heap s)) s)\<lparr>a_heap := heap\<rparr> in
           if a_g cur > a_best s ! nat (a_node cur)
           then astar_loop g target (a_on_trace (\<lambda>tr. tr\<lparr>stale_pops := stale_pops tr + 1\<rparr>) s)
           else if a_node cur = target then a_answer g target cur (a_settle cur s)
           else astar_loop g target (foldl (a_relax g target cur) (a_settle cur s) (neighbors g (a_node cur)))))"

definition a_start :: "road_graph \<Rightarrow> node_id \<Rightarrow> node_id \<Rightarrow> search_trace option \<Rightarrow> a_search" where
  "a_start g source target tr =
     \<lparr>a_best = (replicate (rg_count g) kUnreachable)[nat source := 0], a_parent = replicate (rg_count g) kNoNode,
      a_heap = heap_push a_less [] \<lparr>a_f = heuristic g target source, a_g = 0, a_node = source\<rparr>, a_count = 0, a_trace = tr\<rparr>"

definition astar_traced :: "road_graph \<Rightarrow> node_id \<Rightarrow> node_id \<Rightarrow> search_trace option \<Rightarrow> (astar_result \<times> search_trace option) option" where
  "astar_traced g source target tr =
     (if \<not> rg_valid g source \<or> \<not> rg_valid g target then Some (astar_none, tr) else astar_loop g target (a_start g source target tr))"

definition astar :: "road_graph \<Rightarrow> node_id \<Rightarrow> node_id \<Rightarrow> astar_result option" where
  "astar g source target = map_option fst (astar_traced g source target None)"

interpretation a_frontier: heap_order a_less
  by unfold_locales (auto simp: a_less_def split: if_splits)

end
