(* ===== verification/Platform.thy ===== *)
theory Platform
  imports Evaluator Escalation Correlator Cohesion Assigner Merkle_Log Crypto Lamport Trajectory Versioned_Index Rtree Geohash Astar
    "HOL-Library.Monad_Syntax"
begin

text \<open>
  The state of the platform, \<^verbatim>\<open>include/safetrail/app/platform.hpp\<close>, and what every operation of \<^verbatim>\<open>src/app/platform.cpp\<close>
  shares: accounts, tracked users, the event log with its evidence tree, the audit log of accesses. The components it owns are the
  modelled ones: the R-tree inside the evaluator, the versioned index, the correlator, the escalation tracker, the hash table of
  names, the Merkle logs. A pointer to an element of a vector is its position; a null \<open>unique_ptr\<close> is \<open>None\<close>. The times that are
  measured with \<^verbatim>\<open>steady_clock\<close> for the statistics are left out. An operation whose callee is partial in the model (a probe of
  the hash table, a find of the union-find, a search on fuel) is partial itself.
\<close>

section \<open>Names\<close>

datatype role = RAdmin | ROperator | RResponder | RTourist

fun role_string :: "role \<Rightarrow> string" where
  "role_string RAdmin = ''admin''"
| "role_string ROperator = ''operator''"
| "role_string RResponder = ''responder''"
| "role_string RTourist = ''tourist''"

definition role_from :: "string \<Rightarrow> role option" where
  "role_from s =
     (if s = ''admin'' then Some RAdmin else if s = ''operator'' then Some ROperator
      else if s = ''responder'' then Some RResponder else if s = ''tourist'' then Some RTourist else None)"

datatype record_source = SrcApi | SrcFixture | SrcScenario

fun source_string :: "record_source \<Rightarrow> string" where
  "source_string SrcApi = ''api''"
| "source_string SrcFixture = ''fixture''"
| "source_string SrcScenario = ''scenario''"

datatype fix_status = FxAccepted | FxDuplicate | FxOutOfOrder | FxInvalid | FxNotTracking | FxOffline | FxUnknownUser

fun fix_status_string :: "fix_status \<Rightarrow> string" where
  "fix_status_string FxAccepted = ''accepted''"
| "fix_status_string FxDuplicate = ''duplicate''"
| "fix_status_string FxOutOfOrder = ''out_of_order''"
| "fix_status_string FxInvalid = ''invalid''"
| "fix_status_string FxNotTracking = ''not_tracking''"
| "fix_status_string FxOffline = ''offline''"
| "fix_status_string FxUnknownUser = ''unknown_user''"

datatype case_state = CaseOpen | CaseAcknowledged | CaseDispatched | CaseResolved

fun case_string :: "case_state \<Rightarrow> string" where
  "case_string CaseOpen = ''open''"
| "case_string CaseAcknowledged = ''acknowledged''"
| "case_string CaseDispatched = ''dispatched''"
| "case_string CaseResolved = ''resolved''"

datatype log_kind =
  LgZoneEnter | LgZoneExit | LgZoneUncertain | LgZoneApproaching | LgDwellExceeded
| LgAlertRaised | LgAlertAcknowledged | LgAlertEscalated | LgAlertResolved | LgAlertDismissed
| LgIncidentOpened | LgIncidentUpdated | LgIncidentAcknowledged | LgIncidentAssigned | LgIncidentResolved
| LgSessionStarted | LgSessionStopped | LgConsentGranted | LgConsentWithdrawn | LgHistoryErased
| LgUserCreated | LgUserUpdated | LgGroupCreated | LgGroupChanged | LgGroupSeparated | LgGroupRejoined
| LgZoneCreated | LgZoneUpdated | LgZoneDeleted | LgZoneValidity
| LgResponderCreated | LgResponderUpdated | LgDeviceOffline | LgDeviceReconnected | LgSyncMerged

fun log_kind_string :: "log_kind \<Rightarrow> string" where
  "log_kind_string LgZoneEnter = ''zone_enter''"
| "log_kind_string LgZoneExit = ''zone_exit''"
| "log_kind_string LgZoneUncertain = ''zone_uncertain''"
| "log_kind_string LgZoneApproaching = ''zone_approaching''"
| "log_kind_string LgDwellExceeded = ''dwell_exceeded''"
| "log_kind_string LgAlertRaised = ''alert_raised''"
| "log_kind_string LgAlertAcknowledged = ''alert_acknowledged''"
| "log_kind_string LgAlertEscalated = ''alert_escalated''"
| "log_kind_string LgAlertResolved = ''alert_resolved''"
| "log_kind_string LgAlertDismissed = ''alert_dismissed''"
| "log_kind_string LgIncidentOpened = ''incident_opened''"
| "log_kind_string LgIncidentUpdated = ''incident_updated''"
| "log_kind_string LgIncidentAcknowledged = ''incident_acknowledged''"
| "log_kind_string LgIncidentAssigned = ''incident_assigned''"
| "log_kind_string LgIncidentResolved = ''incident_resolved''"
| "log_kind_string LgSessionStarted = ''session_started''"
| "log_kind_string LgSessionStopped = ''session_stopped''"
| "log_kind_string LgConsentGranted = ''consent_granted''"
| "log_kind_string LgConsentWithdrawn = ''consent_withdrawn''"
| "log_kind_string LgHistoryErased = ''history_erased''"
| "log_kind_string LgUserCreated = ''user_created''"
| "log_kind_string LgUserUpdated = ''user_updated''"
| "log_kind_string LgGroupCreated = ''group_created''"
| "log_kind_string LgGroupChanged = ''group_changed''"
| "log_kind_string LgGroupSeparated = ''group_separated''"
| "log_kind_string LgGroupRejoined = ''group_rejoined''"
| "log_kind_string LgZoneCreated = ''zone_created''"
| "log_kind_string LgZoneUpdated = ''zone_updated''"
| "log_kind_string LgZoneDeleted = ''zone_deleted''"
| "log_kind_string LgZoneValidity = ''zone_validity''"
| "log_kind_string LgResponderCreated = ''responder_created''"
| "log_kind_string LgResponderUpdated = ''responder_updated''"
| "log_kind_string LgDeviceOffline = ''device_offline''"
| "log_kind_string LgDeviceReconnected = ''device_reconnected''"
| "log_kind_string LgSyncMerged = ''sync_merged''"

text \<open>\<^verbatim>\<open>std::to_string\<close> of a signed integer and the rounding of \<^verbatim>\<open>std::lround\<close>, half away from zero.\<close>

definition int_string :: "int \<Rightarrow> string" where
  "int_string i = (if i < 0 then CHR ''-'' # dec_string (nat (- i)) else dec_string (nat i))"

definition lround :: "real \<Rightarrow> int" where
  "lround x = (if x < 0 then - \<lfloor>1 / 2 - x\<rfloor> else \<lfloor>x + 1 / 2\<rfloor>)"

section \<open>The records\<close>

record account =
  us_id :: nat
  us_username :: string
  us_display_name :: string
  us_role :: role
  us_active :: bool
  us_source :: record_source
  us_password_hash :: string
  us_created_ms :: timestamp
  us_consent :: bool
  us_consent_ms :: timestamp
  us_sharing :: bool
  us_sessions :: nat
  us_session_started_ms :: timestamp
  us_session_ended_ms :: timestamp
  us_group :: nat
  us_battery_aware :: bool
  us_connected :: bool
  us_unit :: nat

record fix_input =
  fi_lat :: real
  fi_lon :: real
  fi_accuracy_m :: real
  fi_t_ms :: timestamp
  fi_seq :: nat

record fix_result =
  fr_status :: fix_status
  fr_reason :: string
  fr_events :: nat
  fr_jump :: bool

definition fix_refused :: "fix_status \<Rightarrow> string \<Rightarrow> fix_result" where
  "fix_refused st why = \<lparr>fr_status = st, fr_reason = why, fr_events = 0, fr_jump = False\<rparr>"

text \<open>The flags of a trail point: late, jump, synced, noisy.\<close>

definition kTrailLate :: nat where "kTrailLate = 1"
definition kTrailJump :: nat where "kTrailJump = 2"
definition kTrailSynced :: nat where "kTrailSynced = 4"
definition kTrailNoisy :: nat where "kTrailNoisy = 8"

record trail_point =
  tp_t_ms :: timestamp
  tp_pos :: lat_lon
  tp_accuracy_m :: real
  tp_flags :: nat
  tp_recorded_ms :: timestamp

record tracked =
  tk_tourist :: tourist
  tk_has_fix :: bool
  tk_last_fix_ms :: timestamp
  tk_last_seq :: nat
  tk_accepted :: nat
  tk_duplicates :: nat
  tk_out_of_order :: nat
  tk_invalid :: nat
  tk_jumps :: nat
  tk_trail :: "trail_point list"
  tk_anomaly :: anomaly_kind
  tk_anomaly_raw :: anomaly_kind
  tk_anomaly_raw_since :: timestamp
  tk_signal_alert :: alert_id
  tk_fixes_sent :: nat
  tk_session_time_ms :: int

definition tracked_new :: "nat \<Rightarrow> tracked" where
  "tracked_new u =
     \<lparr>tk_tourist = (tourist_new u)\<lparr>digital_id := ''ST-'' @ dec_string u\<rparr>, tk_has_fix = False, tk_last_fix_ms = 0, tk_last_seq = 0,
      tk_accepted = 0, tk_duplicates = 0, tk_out_of_order = 0, tk_invalid = 0, tk_jumps = 0, tk_trail = [], tk_anomaly = NoAnomaly,
      tk_anomaly_raw = NoAnomaly, tk_anomaly_raw_since = 0, tk_signal_alert = kNoId, tk_fixes_sent = 0, tk_session_time_ms = 0\<rparr>"

record log_entry =
  le_seq :: nat
  le_stamp :: lamport_clock
  le_t_ms :: timestamp
  le_recorded_ms :: timestamp
  le_kind :: log_kind
  le_user :: nat
  le_actor :: nat
  le_zone :: zone_id
  le_alert :: alert_id
  le_incident :: incident_id
  le_group :: nat
  le_responder :: nat
  le_late :: bool
  le_detail :: string
  le_evidence :: nat

definition blank_entry :: "log_kind \<Rightarrow> timestamp \<Rightarrow> log_entry" where
  "blank_entry k t =
     \<lparr>le_seq = 0, le_stamp = \<lparr>lc_counter = 0, lc_device = 0\<rparr>, le_t_ms = t, le_recorded_ms = 0, le_kind = k, le_user = kNoId,
      le_actor = kNoId, le_zone = kNoId, le_alert = kNoId, le_incident = kNoId, le_group = kNoId, le_responder = kNoId,
      le_late = False, le_detail = [], le_evidence = 0\<rparr>"

definition bar :: string where
  "bar = ''|''"

definition canonical :: "log_entry \<Rightarrow> string" where
  "canonical e =
     ''safetrail-log-v1|'' @ dec_string (le_seq e) @ bar @ dec_string (unat (lc_counter (le_stamp e))) @ bar @
     dec_string (unat (lc_device (le_stamp e))) @ bar @ int_string (le_t_ms e) @ bar @ int_string (le_recorded_ms e) @ bar @
     log_kind_string (le_kind e) @ bar @ dec_string (le_user e) @ bar @ dec_string (le_actor e) @ bar @ dec_string (le_zone e) @ bar @
     dec_string (le_alert e) @ bar @ dec_string (le_incident e) @ bar @ dec_string (le_group e) @ bar @
     dec_string (le_responder e) @ bar @ (if le_late e then ''late'' else ''live'') @ bar @ le_detail e"

record access_record =
  ac_t_ms :: timestamp
  ac_actor :: nat
  ac_subject :: nat
  ac_what :: string
  ac_allowed :: bool

record alert_record =
  ar_alert :: alert
  ar_group :: nat
  ar_original_severity :: nat
  ar_escalated :: bool
  ar_redacted :: bool
  ar_late :: bool
  ar_acted_by :: nat
  ar_history :: "(timestamp \<times> alert_state) list"
  ar_source :: record_source

record route =
  ro_found :: bool
  ro_distance_m :: real
  ro_points :: "lat_lon list"
  ro_astar_expanded :: nat
  ro_dijkstra_expanded :: nat
  ro_from :: node_id
  ro_to :: node_id

definition route_none :: route where
  "route_none = \<lparr>ro_found = False, ro_distance_m = 0, ro_points = [], ro_astar_expanded = 0, ro_dijkstra_expanded = 0,
     ro_from = kNoNode, ro_to = kNoNode\<rparr>"

record incident_case =
  cs_id :: incident_id
  cs_state :: case_state
  cs_recommended :: nat
  cs_recommended_m :: real
  cs_responder :: nat
  cs_route :: route
  cs_acknowledged_ms :: timestamp
  cs_dispatched_ms :: timestamp
  cs_resolved_ms :: timestamp
  cs_acknowledged_by :: nat
  cs_resolved_by :: nat
  cs_resolution :: string
  cs_history :: "(timestamp \<times> case_state) list"

definition case_blank :: incident_case where
  "case_blank =
     \<lparr>cs_id = kNoId, cs_state = CaseOpen, cs_recommended = kNoId, cs_recommended_m = 0, cs_responder = kNoId, cs_route = route_none,
      cs_acknowledged_ms = 0, cs_dispatched_ms = 0, cs_resolved_ms = 0, cs_acknowledged_by = kNoId, cs_resolved_by = kNoId,
      cs_resolution = [], cs_history = []\<rparr>"

record straggler =
  sg_user :: nat
  sg_since_ms :: timestamp
  sg_separation_m :: real
  sg_alerted :: bool

record group_record =
  gr_id :: nat
  gr_name :: string
  gr_members :: "nat list"
  gr_cfg :: cohesion_config
  gr_source :: record_source
  gr_created_ms :: timestamp
  gr_tracked_members :: nat
  gr_components :: nat
  gr_fragmented :: bool
  gr_fragmented_since :: timestamp
  gr_centre :: lat_lon
  gr_has_centre :: bool
  gr_stragglers :: "straggler list"
  gr_monitor :: cohesion_monitor

record responder_info =
  ri_unit_type :: string
  ri_source :: record_source
  ri_account :: nat
  ri_assigned :: incident_id
  ri_position_ms :: timestamp

record device_agent =
  da_user :: nat
  da_queue :: offline_queue
  da_zones :: "zone list"
  da_eval :: "geohash evaluator"
  da_tourist :: tourist
  da_skew_ms :: int
  da_offline_since :: timestamp
  da_fixes :: nat
  da_last_fix_true_ms :: timestamp

record platform_config =
  cf_eval :: evaluator_config
  cf_correlation :: correlation_config
  cf_warning_ttl_ms :: int
  cf_escalation_timeout_ms :: int
  cf_cohesion_interval_ms :: int
  cf_trail_retention_ms :: int
  cf_trail_max_points :: nat
  cf_jump_speed_mps :: real
  cf_max_future_skew_ms :: int
  cf_anomaly_confirm_ms :: int
  cf_stationary_confirm_ms :: int
  cf_warning_min_severity :: nat
  cf_approach_alert_eta_s :: real
  cf_incident_min_breach_severity :: nat
  cf_pbkdf2_iterations :: nat
  cf_auto_dispatch :: bool
  cf_max_users :: nat
  cf_max_zones :: nat
  cf_max_zone_vertices :: nat

definition platform_config_default :: platform_config where
  "platform_config_default =
     \<lparr>cf_eval = evaluator_default,
      cf_correlation = \<lparr>space_radius_m = 200, time_window_ms = 600000, min_cluster = 2, same_zone_only = False\<rparr>,
      cf_warning_ttl_ms = 600000, cf_escalation_timeout_ms = 120000, cf_cohesion_interval_ms = 10000,
      cf_trail_retention_ms = 6 * 3600000, cf_trail_max_points = 20000, cf_jump_speed_mps = 70, cf_max_future_skew_ms = 60000,
      cf_anomaly_confirm_ms = 30000, cf_stationary_confirm_ms = 90000, cf_warning_min_severity = 4, cf_approach_alert_eta_s = 180,
      cf_incident_min_breach_severity = 3, cf_pbkdf2_iterations = 120000, cf_auto_dispatch = False, cf_max_users = 5000,
      cf_max_zones = 20000, cf_max_zone_vertices = 4096\<rparr>"

record principal =
  pr_id :: nat
  pr_role :: role
  pr_system :: bool

definition principal_sys :: principal where
  "principal_sys = \<lparr>pr_id = kNoId, pr_role = RAdmin, pr_system = True\<rparr>"

record outcome =
  oc_code :: nat
  oc_error :: string
  oc_id :: nat

definition oc_ok :: "outcome \<Rightarrow> bool" where
  "oc_ok o' \<longleftrightarrow> oc_code o' \<ge> 200 \<and> oc_code o' < 300"

definition good :: "nat \<Rightarrow> outcome" where
  "good i = \<lparr>oc_code = 200, oc_error = [], oc_id = i\<rparr>"

definition failed :: "nat \<Rightarrow> string \<Rightarrow> outcome" where
  "failed c e = \<lparr>oc_code = c, oc_error = e, oc_id = kNoId\<rparr>"

record platform_stats =
  ps_fixes_accepted :: nat
  ps_fixes_duplicate :: nat
  ps_fixes_out_of_order :: nat
  ps_fixes_invalid :: nat
  ps_fixes_refused :: nat
  ps_jumps :: nat
  ps_transitions :: nat
  ps_alerts :: nat
  ps_escalations :: nat
  ps_eval_calls :: nat
  ps_cohesion_passes :: nat

definition stats_zero :: platform_stats where
  "stats_zero = \<lparr>ps_fixes_accepted = 0, ps_fixes_duplicate = 0, ps_fixes_out_of_order = 0, ps_fixes_invalid = 0, ps_fixes_refused = 0,
     ps_jumps = 0, ps_transitions = 0, ps_alerts = 0, ps_escalations = 0, ps_eval_calls = 0, ps_cohesion_passes = 0\<rparr>"

text \<open>What the language leaves to the machine: the bits of a double, and \<^verbatim>\<open>lround\<close> of an infinite distance.\<close>

record machine =
  mc_double_bits :: "real \<Rightarrow> 64 word"
  mc_round_infinite :: int

record platform =
  pf_machine :: machine
  pf_cfg :: platform_config
  pf_dummy_hash :: string
  pf_now :: timestamp
  pf_users :: "account list"
  pf_by_name :: "(string, nat) hash_map"
  pf_tracked :: "tracked option list"
  pf_zones :: "zone list"
  pf_zone_source :: "record_source list"
  pf_vindex :: versioned_index
  pf_eval :: "rtree evaluator"
  pf_corr :: correlator
  pf_escalation :: tracker
  pf_alerts :: "alert_record list"
  pf_alerts_by_user :: "alert_id list list"
  pf_cases :: "incident_case list"
  pf_groups :: "group_record list"
  pf_next_cohesion :: timestamp
  pf_next_retention :: timestamp
  pf_roads :: road_graph
  pf_pool :: "responder list"
  pf_rinfo :: "responder_info list"
  pf_log :: "log_entry list"
  pf_merkle :: merkle_log
  pf_clock :: lamport_clock
  pf_access :: "access_record list"
  pf_access_merkle :: merkle_log
  pf_devices :: "device_agent option list"
  pf_reconciler :: reconciler
  pf_stats :: platform_stats

definition platform_new :: "machine \<Rightarrow> platform_config \<Rightarrow> platform" where
  "platform_new mc cfg =
     \<lparr>pf_machine = mc, pf_cfg = cfg, pf_dummy_hash = [], pf_now = 0, pf_users = [], pf_by_name = hm_init, pf_tracked = [], pf_zones = [],
      pf_zone_source = [], pf_vindex = vi_new, pf_eval = \<lparr>ev_index = rt_new 8, ev_counters = zero_counters\<rparr>,
      pf_corr = corr_init (cf_correlation cfg), pf_escalation = esc_init (cf_escalation_timeout_ms cfg) 1000 512 0, pf_alerts = [],
      pf_alerts_by_user = [], pf_cases = [], pf_groups = [], pf_next_cohesion = 0, pf_next_retention = 0, pf_roads = rg_empty,
      pf_pool = [], pf_rinfo = [], pf_log = [], pf_merkle = ml_empty, pf_clock = \<lparr>lc_counter = 0, lc_device = 0\<rparr>, pf_access = [],
      pf_access_merkle = ml_empty, pf_devices = [], pf_reconciler = rc_new, pf_stats = stats_zero\<rparr>"

section \<open>Access to the parts\<close>

text \<open>A loop whose body may not return.\<close>

fun fold_opt :: "('a \<Rightarrow> 's \<Rightarrow> 's option) \<Rightarrow> 'a list \<Rightarrow> 's \<Rightarrow> 's option" where
  "fold_opt f [] s = Some s"
| "fold_opt f (x # xs) s = do { s \<leftarrow> f x s; fold_opt f xs s }"

definition count_in :: "(platform_stats \<Rightarrow> platform_stats) \<Rightarrow> platform \<Rightarrow> platform" where
  "count_in f p = p\<lparr>pf_stats := f (pf_stats p)\<rparr>"

definition user_of :: "platform \<Rightarrow> nat \<Rightarrow> account option" where
  "user_of p u = (if u < length (pf_users p) then Some (pf_users p ! u) else None)"

definition modify_user :: "nat \<Rightarrow> (account \<Rightarrow> account) \<Rightarrow> platform \<Rightarrow> platform" where
  "modify_user u f p = p\<lparr>pf_users := (pf_users p)[u := f (pf_users p ! u)]\<rparr>"

definition user_by_name :: "platform \<Rightarrow> string \<Rightarrow> account option" where
  "user_by_name p name = (case hm_get hash_string (pf_by_name p) name of None \<Rightarrow> None | Some i \<Rightarrow> user_of p i)"

definition tracked_of :: "platform \<Rightarrow> nat \<Rightarrow> tracked option" where
  "tracked_of p u = (if u < length (pf_tracked p) then pf_tracked p ! u else None)"

text \<open>\<open>tracked_mut\<close>: the entry exists afterwards; then a write through the reference it returns.\<close>

definition ensure_tracked :: "nat \<Rightarrow> platform \<Rightarrow> platform" where
  "ensure_tracked u p =
     (let ts = (if length (pf_tracked p) \<le> u then pf_tracked p @ replicate (u + 1 - length (pf_tracked p)) None else pf_tracked p)
      in p\<lparr>pf_tracked := (case ts ! u of None \<Rightarrow> ts[u := Some (tracked_new u)] | Some _ \<Rightarrow> ts)\<rparr>)"

definition modify_tracked :: "nat \<Rightarrow> (tracked \<Rightarrow> tracked) \<Rightarrow> platform \<Rightarrow> platform" where
  "modify_tracked u f p =
     (if u < length (pf_tracked p) then p\<lparr>pf_tracked := (pf_tracked p)[u := map_option f (pf_tracked p ! u)]\<rparr> else p)"

definition is_staff :: "principal \<Rightarrow> bool" where
  "is_staff by' \<longleftrightarrow> pr_system by' \<or> pr_role by' = RAdmin \<or> pr_role by' = ROperator"

definition is_admin :: "principal \<Rightarrow> bool" where
  "is_admin by' \<longleftrightarrow> pr_system by' \<or> pr_role by' = RAdmin"

definition is_self :: "principal \<Rightarrow> nat \<Rightarrow> bool" where
  "is_self by' u \<longleftrightarrow> pr_system by' \<or> pr_id by' = u"

definition is_offline :: "platform \<Rightarrow> nat \<Rightarrow> bool" where
  "is_offline p u \<longleftrightarrow> u < length (pf_devices p) \<and> pf_devices p ! u \<noteq> None"

definition valid_username :: "string \<Rightarrow> bool" where
  "valid_username s \<longleftrightarrow> \<not> (length s < 3 \<or> length s > 32) \<and>
     list_all (\<lambda>c. (CHR ''a'' \<le> c \<and> c \<le> CHR ''z'') \<or> (CHR ''0'' \<le> c \<and> c \<le> CHR ''9'') \<or> c = CHR ''.'' \<or> c = CHR ''_'' \<or> c = CHR ''-'') s"

definition valid_label :: "string \<Rightarrow> nat \<Rightarrow> bool" where
  "valid_label s max_len \<longleftrightarrow> \<not> (s = [] \<or> length s > max_len) \<and> list_all (\<lambda>c. \<not> ((of_char c :: nat) < 32 \<or> (of_char c :: nat) = 127)) s"

definition alert_is_open :: "alert_state \<Rightarrow> bool" where
  "alert_is_open s \<longleftrightarrow> s = Triage.AlertOpen \<or> s = Triage.Acknowledged \<or> s = Triage.Dispatched"

definition incident_worthy :: "alert_record \<Rightarrow> nat \<Rightarrow> bool" where
  "incident_worthy r min_breach =
     (case al_kind (ar_alert r) of
        ZoneBreach \<Rightarrow> al_severity (ar_alert r) \<ge> min_breach
      | Triage.DwellExceeded \<Rightarrow> True | Triage.Straggler \<Rightarrow> True | Triage.Stationary \<Rightarrow> True
      | Triage.SignalLost \<Rightarrow> True | Triage.SosTriggered \<Rightarrow> True | _ \<Rightarrow> False)"

fun event_log_kind :: "event_kind \<Rightarrow> log_kind" where
  "event_log_kind EvZoneEnter = LgZoneEnter"
| "event_log_kind EvZoneExit = LgZoneExit"
| "event_log_kind EvZoneUncertain = LgZoneUncertain"
| "event_log_kind EvZoneApproaching = LgZoneApproaching"
| "event_log_kind EvDwellExceeded = LgDwellExceeded"

section \<open>The event log and the audit log\<close>

text \<open>The entry is sealed: it is numbered, stamped by the server's clock unless a device stamped it, and hashed into the evidence.\<close>

definition seal :: "log_entry \<Rightarrow> platform \<Rightarrow> log_entry \<times> lamport_clock" where
  "seal e p =
     (let e = e\<lparr>le_seq := length (pf_log p)\<rparr>;
          e = (if le_recorded_ms e = 0 then e\<lparr>le_recorded_ms := pf_now p\<rparr> else e);
          clk = (if lc_counter (le_stamp e) = 0 then snd (lc_tick (pf_clock p)) else pf_clock p);
          e = (if lc_counter (le_stamp e) = 0 then e\<lparr>le_stamp := clk\<rparr> else e)
      in (e, clk))"

definition append_log :: "log_entry \<Rightarrow> platform \<Rightarrow> platform" where
  "append_log e p =
     (let (e, clk) = seal e p;
          (i, m) = ml_append (pf_merkle p) (bytes_of (canonical e))
      in p\<lparr>pf_clock := clk, pf_merkle := m, pf_log := pf_log p @ [e\<lparr>le_evidence := i\<rparr>]\<rparr>)"

text \<open>The records already written, newest first: whether one of the last 64, at most a minute old, says the same.\<close>

fun recent_same :: "access_record list \<Rightarrow> nat \<Rightarrow> access_record \<Rightarrow> bool" where
  "recent_same [] n r = False"
| "recent_same (q # qs) n r =
     (if n \<ge> 64 then False
      else if ac_t_ms r - ac_t_ms q > 60000 then False
      else if ac_actor q = ac_actor r \<and> ac_subject q = ac_subject r \<and> ac_what q = ac_what r \<and> ac_allowed q = ac_allowed r then True
      else recent_same qs (n + 1) r)"

definition access_text :: "access_record \<Rightarrow> string" where
  "access_text r = ''access-v1|'' @ int_string (ac_t_ms r) @ bar @ dec_string (ac_actor r) @ bar @ dec_string (ac_subject r) @ bar @
     ac_what r @ bar @ (if ac_allowed r then ''allowed'' else ''denied'')"

definition audit_access :: "principal \<Rightarrow> nat \<Rightarrow> string \<Rightarrow> bool \<Rightarrow> platform \<Rightarrow> platform" where
  "audit_access by' subject what allowed p =
     (if pr_system by' then p
      else if pr_id by' = subject \<and> allowed then p
      else
        (let r = \<lparr>ac_t_ms = pf_now p, ac_actor = pr_id by', ac_subject = subject, ac_what = what, ac_allowed = allowed\<rparr>
         in if recent_same (rev (pf_access p)) 0 r then p
            else p\<lparr>pf_access_merkle := snd (ml_append (pf_access_merkle p) (bytes_of (access_text r))), pf_access := pf_access p @ [r]\<rparr>))"

end
