(* ===== verification/Platform_Alerts.thy ===== *)
theory Platform_Alerts
  imports Platform
begin

text \<open>
  Alerts, incidents and responders of the platform, \<^verbatim>\<open>src/app/platform.cpp\<close>: raising an alert, its states, triage, the
  escalation pass, the incident cases behind the correlator's cards, the recommended responder, assignment and the dispatch plan.
  A reference to an alert, a case or a responder is its position.
\<close>

section \<open>Alerts\<close>

definition modify_alert :: "alert_id \<Rightarrow> (alert_record \<Rightarrow> alert_record) \<Rightarrow> platform \<Rightarrow> platform" where
  "modify_alert i f p = p\<lparr>pf_alerts := (pf_alerts p)[i := f (pf_alerts p ! i)]\<rparr>"

definition alert_at :: "platform \<Rightarrow> alert_id \<Rightarrow> alert" where
  "alert_at p i = ar_alert (pf_alerts p ! i)"

definition alerts_of :: "platform \<Rightarrow> nat \<Rightarrow> alert_id list" where
  "alerts_of p u = (if u < length (pf_alerts_by_user p) then pf_alerts_by_user p ! u else [])"

definition file_alert :: "nat \<Rightarrow> alert_id \<Rightarrow> platform \<Rightarrow> platform" where
  "file_alert u i p =
     (let by_user = resize_for u [] (pf_alerts_by_user p) in p\<lparr>pf_alerts_by_user := by_user[u := by_user ! u @ [i]]\<rparr>)"

definition set_active_flag :: "nat \<Rightarrow> bool \<Rightarrow> platform \<Rightarrow> platform" where
  "set_active_flag u b p = modify_tracked u (\<lambda>tr. tr\<lparr>tk_tourist := (tk_tourist tr)\<lparr>alert_active := b\<rparr>\<rparr>) p"

definition new_alert_record :: "alert \<Rightarrow> nat \<Rightarrow> bool \<Rightarrow> record_source \<Rightarrow> timestamp \<Rightarrow> alert_record" where
  "new_alert_record a g late src now =
     \<lparr>ar_alert = a, ar_group = g, ar_original_severity = al_severity a, ar_escalated = False, ar_redacted = False, ar_late = late,
      ar_acted_by = kNoId, ar_history = [(now, AlertOpen)], ar_source = src\<rparr>"

definition store_alert :: "alert \<Rightarrow> nat \<Rightarrow> bool \<Rightarrow> record_source \<Rightarrow> platform \<Rightarrow> alert_record \<times> platform" where
  "store_alert a g late src p =
     (let a = a\<lparr>al_id := uint32_of (length (pf_alerts p)), al_state := AlertOpen\<rparr>;
          r = new_alert_record a g late src (pf_now p);
          p = p\<lparr>pf_alerts := pf_alerts p @ [r]\<rparr>
      in (r, if al_tourist a \<noteq> kNoId then file_alert (al_tourist a) (al_id a) p else p))"

definition raise_alert :: "alert \<Rightarrow> nat \<Rightarrow> bool \<Rightarrow> record_source \<Rightarrow> platform \<Rightarrow> (alert_id \<times> platform) option" where
  "raise_alert a g late src p =
     (let (r, p) = store_alert a g late src p; a = ar_alert r
      in do {
        esc \<leftarrow> (if incident_worthy r (cf_incident_min_breach_severity (pf_cfg p))
               then esc_arm (pf_escalation p) (al_id a) (max (al_raised_ms a) (pf_now p)) else Some (pf_escalation p));
        let p = count_in (\<lambda>s. s\<lparr>ps_alerts := ps_alerts s + 1\<rparr>) (p\<lparr>pf_escalation := esc\<rparr>);
        let p = (if al_tourist a \<noteq> kNoId \<and> al_severity a \<ge> 3 then set_active_flag (al_tourist a) True p else p);
        Some (al_id a, append_log ((blank_entry LgAlertRaised (al_raised_ms a))
          \<lparr>le_user := al_tourist a, le_zone := al_zone a, le_alert := al_id a, le_group := g, le_late := late,
           le_detail := kind_string (al_kind a) @ '' severity '' @ dec_string (al_severity a)\<rparr>) p)
      })"

fun state_log_kind :: "alert_state \<Rightarrow> log_kind" where
  "state_log_kind Resolved = LgAlertResolved"
| "state_log_kind Dismissed = LgAlertDismissed"
| "state_log_kind _ = LgAlertAcknowledged"

definition serious_open :: "platform \<Rightarrow> nat \<Rightarrow> bool" where
  "serious_open p u \<longleftrightarrow> list_ex (\<lambda>i. alert_is_open (al_state (alert_at p i)) \<and> al_severity (alert_at p i) \<ge> 3) (alerts_of p u)"

definition change_alert :: "alert_state \<Rightarrow> nat \<Rightarrow> timestamp \<Rightarrow> alert_record \<Rightarrow> alert_record" where
  "change_alert s by' now r =
     (let a = (ar_alert r)\<lparr>al_state := s\<rparr>;
          a = (if s = Triage.Acknowledged then a\<lparr>al_acknowledged_ms := now\<rparr> else a)
      in r\<lparr>ar_alert := a, ar_acted_by := by', ar_history := ar_history r @ [(now, s)]\<rparr>)"

definition set_alert_state :: "alert_id \<Rightarrow> alert_state \<Rightarrow> nat \<Rightarrow> platform \<Rightarrow> platform" where
  "set_alert_state i s by' p =
     (if al_state (alert_at p i) = s then p
      else
        (let p = modify_alert i (change_alert s by' (pf_now p)) p;
             a = alert_at p i;
             p = (if s \<noteq> AlertOpen then p\<lparr>pf_escalation := esc_acknowledge (pf_escalation p) (al_id a)\<rparr> else p);
             p = append_log ((blank_entry (state_log_kind s) (pf_now p))
                   \<lparr>le_user := al_tourist a, le_alert := al_id a, le_actor := by', le_incident := al_incident a,
                    le_detail := state_string s @ (if al_note a \<noteq> [] \<and> s = Resolved then '': '' @ al_note a else [])\<rparr>) p
         in if al_tourist a \<noteq> kNoId then set_active_flag (al_tourist a) (serious_open p (al_tourist a)) p else p))"

definition note_alert :: "alert_id \<Rightarrow> string \<Rightarrow> platform \<Rightarrow> platform" where
  "note_alert i why p = modify_alert i (\<lambda>r. r\<lparr>ar_alert := (ar_alert r)\<lparr>al_note := why\<rparr>\<rparr>) p"

definition resolve_with_note :: "alert_id \<Rightarrow> string \<Rightarrow> nat \<Rightarrow> platform \<Rightarrow> platform" where
  "resolve_with_note i why by' p = set_alert_state i Resolved by' (note_alert i why p)"

definition acknowledge_alert :: "principal \<Rightarrow> alert_id \<Rightarrow> platform \<Rightarrow> outcome \<times> platform" where
  "acknowledge_alert by' a p =
     (if \<not> is_staff by' then (failed 403 ''operators and administrators acknowledge alerts'', p)
      else if a \<ge> length (pf_alerts p) then (failed 404 ''no such alert'', p)
      else if al_state (alert_at p a) \<noteq> AlertOpen then (failed 409 ''alert is not open'', p)
      else (good a, set_alert_state a Triage.Acknowledged (pr_id by') p))"

definition resolve_alert :: "principal \<Rightarrow> alert_id \<Rightarrow> bool \<Rightarrow> platform \<Rightarrow> outcome \<times> platform" where
  "resolve_alert by' a dismiss p =
     (if \<not> is_staff by' then (failed 403 ''operators and administrators resolve alerts'', p)
      else if a \<ge> length (pf_alerts p) then (failed 404 ''no such alert'', p)
      else if \<not> alert_is_open (al_state (alert_at p a)) then (failed 409 ''alert is already closed'', p)
      else (good a, set_alert_state a (if dismiss then Dismissed else Resolved) (pr_id by') p))"

definition is_warning :: "alert \<Rightarrow> bool" where
  "is_warning a \<longleftrightarrow> al_kind a = ZoneApproaching \<or> al_kind a = ZoneUncertain"

definition settle_one :: "zone_id \<Rightarrow> string \<Rightarrow> platform \<Rightarrow> alert_id \<Rightarrow> platform" where
  "settle_one z why p i =
     (if al_zone (alert_at p i) = z \<and> alert_is_open (al_state (alert_at p i)) \<and> is_warning (alert_at p i)
      then resolve_with_note i why kNoId p else p)"

definition settle_warnings :: "nat \<Rightarrow> zone_id \<Rightarrow> string \<Rightarrow> platform \<Rightarrow> platform" where
  "settle_warnings u z why p = foldl (settle_one z why) p (alerts_of p u)"

definition expire_one :: "timestamp \<Rightarrow> platform \<Rightarrow> alert_id \<Rightarrow> platform" where
  "expire_one now p i =
     (if al_state (alert_at p i) = AlertOpen \<and> now - al_raised_ms (alert_at p i) > cf_warning_ttl_ms (pf_cfg p) \<and> is_warning (alert_at p i)
      then resolve_with_note i ''expired: no entry followed'' kNoId p else p)"

definition expire_warnings :: "timestamp \<Rightarrow> platform \<Rightarrow> platform" where
  "expire_warnings now p = foldl (expire_one now) p [0..<length (pf_alerts p)]"

definition raise_severity :: "alert_record \<Rightarrow> alert_record" where
  "raise_severity r =
     r\<lparr>ar_escalated := True,
       ar_alert := (if al_severity (ar_alert r) < 5 then (ar_alert r)\<lparr>al_severity := al_severity (ar_alert r) + 1\<rparr> else ar_alert r)\<rparr>"

definition escalate_one :: "timestamp \<Rightarrow> platform \<Rightarrow> alert_id \<Rightarrow> platform" where
  "escalate_one now p i =
     (if i \<ge> length (pf_alerts p) then p
      else if al_state (alert_at p i) \<noteq> AlertOpen then p
      else
        (let p = modify_alert i raise_severity p;
             p = count_in (\<lambda>s. s\<lparr>ps_escalations := ps_escalations s + 1\<rparr>) p
         in append_log ((blank_entry LgAlertEscalated now)
              \<lparr>le_user := al_tourist (alert_at p i), le_alert := i, le_incident := al_incident (alert_at p i),
               le_detail := ''unacknowledged for '' @ int_string (trunc_div (cf_escalation_timeout_ms (pf_cfg p)) 1000) @
                 '' s; severity now '' @ dec_string (al_severity (alert_at p i))\<rparr>) p))"

definition escalate :: "timestamp \<Rightarrow> platform \<Rightarrow> platform" where
  "escalate now p =
     (let (due, esc) = esc_advance (pf_escalation p) now in foldl (escalate_one now) (p\<lparr>pf_escalation := esc\<rparr>) due)"

definition nearest_responder_m :: "platform \<Rightarrow> lat_lon \<Rightarrow> real" where
  "nearest_responder_m p x =
     (let best = foldl (\<lambda>best r. if rs_available r then min best (distance_m x (rs_pos r)) else best) (10 ^ 9) (pf_pool p)
      in if best \<ge> 10 ^ 9 then 50000 else best)"

definition triaged :: "platform \<Rightarrow> alert_record \<Rightarrow> alert" where
  "triaged p r = (ar_alert r)\<lparr>al_priority := triage_score (ar_alert r) (pf_now p) (nearest_responder_m p (al_position (ar_alert r))) default_weights\<rparr>"

definition triage_order :: "platform \<Rightarrow> (alert_id \<times> real) list" where
  "triage_order p =
     (let open_alerts = map (triaged p) (filter (\<lambda>r. alert_is_open (al_state (ar_alert r))) (pf_alerts p));
          q = tq_pushes open_alerts
      in map (\<lambda>a. (al_id a, al_priority a)) (tq_drain (tq_size q) q))"

section \<open>Cases and responders\<close>

definition modify_case :: "incident_id \<Rightarrow> (incident_case \<Rightarrow> incident_case) \<Rightarrow> platform \<Rightarrow> platform" where
  "modify_case i f p = p\<lparr>pf_cases := (pf_cases p)[i := f (pf_cases p ! i)]\<rparr>"

definition case_of_incident :: "platform \<Rightarrow> incident_id \<Rightarrow> incident_case option" where
  "case_of_incident p i = (if i < length (pf_cases p) \<and> cs_id (pf_cases p ! i) \<noteq> kNoId then Some (pf_cases p ! i) else None)"

definition set_case_state :: "incident_id \<Rightarrow> case_state \<Rightarrow> platform \<Rightarrow> platform" where
  "set_case_state i s p = modify_case i (\<lambda>c. c\<lparr>cs_state := s, cs_history := cs_history c @ [(pf_now p, s)]\<rparr>) p"

text \<open>The available responder nearest by road, the first of several.\<close>

definition nearest_by_road :: "shortest_paths \<Rightarrow> responder list \<Rightarrow> real \<times> nat" where
  "nearest_by_road sp pool =
     foldl (\<lambda>(best, who) r. if \<not> rs_available r \<or> rs_node r = kNoNode then (best, who)
        else if sp_dist sp ! nat (rs_node r) < best then (sp_dist sp ! nat (rs_node r), rs_id r) else (best, who))
       (kUnreachable, kNoId) pool"

definition note_recommended :: "incident_id \<Rightarrow> nat \<Rightarrow> real \<Rightarrow> platform \<Rightarrow> platform" where
  "note_recommended i who m p = modify_case i (\<lambda>c. c\<lparr>cs_recommended := who, cs_recommended_m := m\<rparr>) p"

definition recommend :: "incident_id \<Rightarrow> platform \<Rightarrow> platform option" where
  "recommend i p =
     (let p = note_recommended i kNoId 0 p in
      case get_incident (pf_corr p) (cs_id (pf_cases p ! i)) of
        None \<Rightarrow> Some p
      | Some inc \<Rightarrow>
          if rg_count (pf_roads p) = 0 then Some p
          else
            (let (nd, g) = nearest_node (Correlator.centroid inc) (pf_roads p); p = p\<lparr>pf_roads := g\<rparr> in
             if nd = kNoNode then Some p
             else do {
               sp \<leftarrow> dijkstra g nd;
               let (best, who) = nearest_by_road sp (pf_pool p);
               Some (if who \<noteq> kNoId then note_recommended i who best p else p)
             }))"

definition route_between :: "lat_lon \<Rightarrow> lat_lon \<Rightarrow> platform \<Rightarrow> (route \<times> platform) option" where
  "route_between src dst p =
     (if rg_count (pf_roads p) = 0 then Some (route_none, p)
      else
        (let (a, g) = nearest_node src (pf_roads p); (b, g) = nearest_node dst g;
             p = p\<lparr>pf_roads := g\<rparr>; r = route_none\<lparr>ro_from := a, ro_to := b\<rparr>
         in if a = kNoNode \<or> b = kNoNode then Some (r, p)
            else do {
              w \<leftarrow> astar g a b;
              d \<leftarrow> dijkstra_to g a b;
              let r = r\<lparr>ro_astar_expanded := as_expanded w, ro_dijkstra_expanded := nodes_expanded d\<rparr>;
              Some (if as_found w then r\<lparr>ro_found := True, ro_distance_m := as_cost w, ro_points := map (rg_pos g) (as_path w)\<rparr> else r, p)
            }))"

definition modify_responder :: "nat \<Rightarrow> (responder \<Rightarrow> responder) \<Rightarrow> platform \<Rightarrow> platform" where
  "modify_responder r f p = p\<lparr>pf_pool := (pf_pool p)[r := f (pf_pool p ! r)]\<rparr>"

definition modify_rinfo :: "nat \<Rightarrow> (responder_info \<Rightarrow> responder_info) \<Rightarrow> platform \<Rightarrow> platform" where
  "modify_rinfo r f p = p\<lparr>pf_rinfo := (pf_rinfo p)[r := f (pf_rinfo p ! r)]\<rparr>"

definition free_responder :: "nat \<Rightarrow> platform \<Rightarrow> platform" where
  "free_responder r p =
     (if r \<ge> length (pf_pool p) then p
      else modify_rinfo r (\<lambda>i. i\<lparr>ri_assigned := kNoId\<rparr>) (modify_responder r (\<lambda>x. x\<lparr>rs_available := True\<rparr>) p))"

definition take_responder :: "nat \<Rightarrow> incident_id \<Rightarrow> platform \<Rightarrow> platform" where
  "take_responder r i p = modify_rinfo r (\<lambda>x. x\<lparr>ri_assigned := i\<rparr>) (modify_responder r (\<lambda>x. x\<lparr>rs_available := False\<rparr>) p)"

text \<open>The alerts of a card that are in the table and in a state of \<open>sts\<close> move on.\<close>

definition move_alerts :: "(alert_state \<Rightarrow> bool) \<Rightarrow> (alert_id \<Rightarrow> platform \<Rightarrow> platform) \<Rightarrow> alert_id list \<Rightarrow> platform \<Rightarrow> platform" where
  "move_alerts sts f as p = foldl (\<lambda>p a. if a < length (pf_alerts p) \<and> sts (al_state (alert_at p a)) then f a p else p) p as"

definition needs_recommendation :: "incident_case \<Rightarrow> bool" where
  "needs_recommendation c \<longleftrightarrow> cs_id c \<noteq> kNoId \<and> cs_state c \<noteq> CaseResolved \<and> cs_responder c = kNoId"

definition recommend_where :: "(incident_case \<Rightarrow> bool) \<Rightarrow> platform \<Rightarrow> platform option" where
  "recommend_where P p = fold_opt (\<lambda>i p. if P (pf_cases p ! i) then recommend i p else Some p) [0..<length (pf_cases p)] p"

definition assign_detail :: "nat \<Rightarrow> route \<Rightarrow> string" where
  "assign_detail previous ro =
     (if previous \<noteq> kNoId then ''reassigned from responder '' @ dec_string previous @ '', '' else []) @
     (if ro_found ro then ''route '' @ int_string (lround (ro_distance_m ro)) @ '' m'' else ''no road route'')"

definition assign_incident :: "principal \<Rightarrow> incident_id \<Rightarrow> nat \<Rightarrow> platform \<Rightarrow> (outcome \<times> platform) option" where
  "assign_incident by' i r p =
     (if \<not> is_staff by' then Some (failed 403 ''operators and administrators assign responders'', p)
      else if case_of_incident p i = None then Some (failed 404 ''no such incident'', p)
      else
        (let c = pf_cases p ! i; r = (if r = kNoId then cs_recommended c else r); previous = cs_responder c in
         if cs_state c = CaseResolved then Some (failed 409 ''incident is resolved'', p)
         else if r = kNoId \<or> r \<ge> length (pf_pool p) then Some (failed 409 ''no available responder'', p)
         else if r = cs_responder c then Some (good i, p)
         else if \<not> rs_available (pf_pool p ! r) then Some (failed 409 ''that responder is not available'', p)
         else
           case get_incident (pf_corr p) i of
             None \<Rightarrow> Some (failed 404 ''no such incident'', p)
           | Some inc \<Rightarrow>
               (let p = (if previous \<noteq> kNoId then free_responder previous p else p);
                    p = modify_case i (\<lambda>c. c\<lparr>cs_responder := r\<rparr>) p
                in do {
                  (ro, p) \<leftarrow> route_between (rs_pos (pf_pool p ! r)) (Correlator.centroid inc) p;
                  let p = take_responder r i (modify_case i (\<lambda>c. c\<lparr>cs_route := ro\<rparr>) p);
                  let p = (if cs_state (pf_cases p ! i) \<noteq> CaseDispatched then set_case_state i CaseDispatched p else p);
                  let p = modify_case i (\<lambda>c. c\<lparr>cs_dispatched_ms := pf_now p\<rparr>) p;
                  let p = move_alerts alert_is_open (\<lambda>a. set_alert_state a Triage.Dispatched (pr_id by')) (ic_alerts inc) p;
                  let p = append_log ((blank_entry LgIncidentAssigned (pf_now p))
                    \<lparr>le_incident := i, le_actor := pr_id by', le_responder := r, le_detail := assign_detail previous ro\<rparr>) p;
                  p \<leftarrow> recommend_where (\<lambda>o'. needs_recommendation o' \<and> cs_id o' \<noteq> i \<and> cs_recommended o' = r) p;
                  Some (good i, p)
                })))"

definition staffs_case :: "principal \<Rightarrow> incident_case \<Rightarrow> platform \<Rightarrow> bool" where
  "staffs_case by' c p \<longleftrightarrow> pr_role by' = RResponder \<and> cs_responder c \<noteq> kNoId \<and>
     (case user_of p (pr_id by') of None \<Rightarrow> False | Some u \<Rightarrow> us_unit u = cs_responder c)"

definition acknowledge_incident :: "principal \<Rightarrow> incident_id \<Rightarrow> platform \<Rightarrow> outcome \<times> platform" where
  "acknowledge_incident by' i p =
     (case case_of_incident p i of
        None \<Rightarrow> (failed 404 ''no such incident'', p)
      | Some c \<Rightarrow>
          if \<not> is_staff by' \<and> \<not> staffs_case by' c p then (failed 403 ''not allowed'', p)
          else if cs_state c = CaseResolved then (failed 409 ''incident is resolved'', p)
          else if cs_acknowledged_ms c \<noteq> 0 then (failed 409 ''already acknowledged'', p)
          else
            (let p = modify_case i (\<lambda>c. c\<lparr>cs_acknowledged_ms := pf_now p, cs_acknowledged_by := pr_id by'\<rparr>) p;
                 p = (if cs_state c = CaseOpen then set_case_state i CaseAcknowledged p else p);
                 p = (case get_incident (pf_corr p) i of
                        None \<Rightarrow> p
                      | Some inc \<Rightarrow> move_alerts (\<lambda>s. s = AlertOpen) (\<lambda>a. set_alert_state a Triage.Acknowledged (pr_id by')) (ic_alerts inc) p)
             in (good i, append_log ((blank_entry LgIncidentAcknowledged (pf_now p))\<lparr>le_incident := i, le_actor := pr_id by'\<rparr>) p)))"

definition resolve_incident :: "principal \<Rightarrow> incident_id \<Rightarrow> string \<Rightarrow> platform \<Rightarrow> (outcome \<times> platform) option" where
  "resolve_incident by' i note p =
     (case case_of_incident p i of
        None \<Rightarrow> Some (failed 404 ''no such incident'', p)
      | Some c \<Rightarrow>
          if \<not> is_staff by' \<and> \<not> staffs_case by' c p then Some (failed 403 ''not allowed'', p)
          else if cs_state c = CaseResolved then Some (failed 409 ''already resolved'', p)
          else if length note > 500 then Some (failed 400 ''note too long'', p)
          else
            (let p = modify_case i (\<lambda>c. c\<lparr>cs_resolved_ms := pf_now p, cs_resolved_by := pr_id by', cs_resolution := note\<rparr>) (set_case_state i CaseResolved p);
                 p = p\<lparr>pf_corr := snd (close_incident i (pf_now p) (pf_corr p))\<rparr>;
                 p = (if cs_responder c \<noteq> kNoId then free_responder (cs_responder c) p else p);
                 p = (case get_incident (pf_corr p) i of
                        None \<Rightarrow> p
                      | Some inc \<Rightarrow> move_alerts alert_is_open (\<lambda>a. resolve_with_note a ''incident resolved'' (pr_id by')) (ic_alerts inc) p);
                 p = append_log ((blank_entry LgIncidentResolved (pf_now p))
                       \<lparr>le_incident := i, le_actor := pr_id by', le_responder := cs_responder c, le_detail := note\<rparr>) p
             in do { p \<leftarrow> recommend_where needs_recommendation p; Some (good i, p) }))"

section \<open>Correlation\<close>

definition tag_record :: "incident_id \<Rightarrow> alert_record \<Rightarrow> alert_record" where
  "tag_record i r = r\<lparr>ar_alert := (ar_alert r)\<lparr>al_incident := i\<rparr>\<rparr>"

definition tag_alert :: "incident_id \<Rightarrow> platform \<Rightarrow> alert_id \<Rightarrow> platform" where
  "tag_alert i p a =
     (if a < length (pf_alerts p) \<and> al_incident (alert_at p a) = kNoId
      then modify_alert a (tag_record i) p else p)"

definition first_or_none :: "nat list \<Rightarrow> nat" where
  "first_or_none xs = (case xs of [] \<Rightarrow> kNoId | x # _ \<Rightarrow> x)"

definition new_case :: "incident_id \<Rightarrow> platform \<Rightarrow> platform" where
  "new_case i p = set_case_state i CaseOpen (modify_case i (\<lambda>c. c\<lparr>cs_id := i\<rparr>) (p\<lparr>pf_cases := resize_for i case_blank (pf_cases p)\<rparr>))"

definition open_case :: "incident_id \<Rightarrow> incident_card \<Rightarrow> platform \<Rightarrow> platform" where
  "open_case i inc p =
     append_log ((blank_entry LgIncidentOpened (opened_ms inc))
       \<lparr>le_incident := i, le_user := first_or_none (affected inc), le_alert := first_or_none (ic_alerts inc),
        le_detail := dec_string (people inc) @ '' people, severity '' @ dec_string (max_severity inc)\<rparr>) (new_case i p)"

definition after_incident_touched :: "incident_id \<Rightarrow> platform \<Rightarrow> platform option" where
  "after_incident_touched i p =
     (case get_incident (pf_corr p) i of
        None \<Rightarrow> Some p
      | Some inc \<Rightarrow>
          (let p = foldl (tag_alert i) p (ic_alerts inc) in
           if length (pf_cases p) \<le> i
           then do {
             p \<leftarrow> recommend i (open_case i inc p);
             if cf_auto_dispatch (pf_cfg p) \<and> cs_recommended (pf_cases p ! i) \<noteq> kNoId
             then map_option snd (assign_incident principal_sys i (cs_recommended (pf_cases p ! i)) p) else Some p
           }
           else
             (let p = append_log ((blank_entry LgIncidentUpdated (last_update_ms inc))
                    \<lparr>le_incident := i, le_detail := dec_string (length (ic_alerts inc)) @ '' alerts, '' @ dec_string (people inc) @ '' people''\<rparr>) p
              in if cs_responder (pf_cases p ! i) = kNoId \<and> cs_state (pf_cases p ! i) \<noteq> CaseResolved then recommend i p else Some p)))"

definition correlate :: "alert_id list \<Rightarrow> platform \<Rightarrow> platform option" where
  "correlate fresh p =
     (let batch = map (alert_at p) (filter (\<lambda>i. incident_worthy (pf_alerts p ! i) (cf_incident_min_breach_severity (pf_cfg p))) fresh) in
      if batch = [] then Some p
      else do {
        (touched, c) \<leftarrow> corr_ingest batch (pf_corr p);
        fold_opt after_incident_touched touched (p\<lparr>pf_corr := c\<rparr>)
      })"

definition raise_sos :: "principal \<Rightarrow> nat \<Rightarrow> platform \<Rightarrow> (outcome \<times> platform) option" where
  "raise_sos by' u p =
     (if \<not> is_self by' u then Some (failed 403 ''only the user can raise their own SOS'', p)
      else
        case (user_of p u, tracked_of p u) of
          (Some usr, Some tr) \<Rightarrow>
            (if \<not> us_sharing usr \<or> \<not> tk_has_fix tr then Some (failed 409 ''SOS needs an active session with a position'', p)
             else do {
               (i, p) \<leftarrow> raise_alert ((blank_alert SosTriggered)
                 \<lparr>al_severity := 5, al_tourist := u, al_position := pos (last_fix (tk_tourist tr)),
                  al_accuracy_m := accuracy_m (last_fix (tk_tourist tr)), al_raised_ms := pf_now p, al_note := ''SOS''\<rparr>)
                 (us_group usr) False (us_source usr) p;
               p \<leftarrow> correlate [i] p;
               Some (good i, p)
             })
        | _ \<Rightarrow> Some (failed 404 ''no such tourist'', p))"

section \<open>The dispatch plan\<close>

record plan_summary =
  pl_greedy :: plan
  pl_optimal :: plan
  pl_incidents :: "incident_id list"
  pl_responders :: "nat list"

definition plan_empty :: plan where
  "plan_empty = \<lparr>dispatches = [], total_m = 0, makespan_m = 0, unassigned = 0\<rparr>"

definition waiting_incidents :: "platform \<Rightarrow> incident list" where
  "waiting_incidents p =
     concat (map (\<lambda>c. case get_incident (pf_corr p) (cs_id c) of
        None \<Rightarrow> [] | Some inc \<Rightarrow> [\<lparr>in_id = cs_id c, in_pos = Correlator.centroid inc, in_node = kNoNode\<rparr>])
       (filter needs_recommendation (pf_cases p)))"

definition apply_dispatch :: "principal \<Rightarrow> dispatch \<Rightarrow> platform \<Rightarrow> platform option" where
  "apply_dispatch by' d p =
     (if travel_m d < kUnreachableCost then map_option snd (assign_incident by' (dp_incident d) (dp_responder d) p) else Some p)"

definition plan_dispatch :: "principal \<Rightarrow> bool \<Rightarrow> platform \<Rightarrow> (plan_summary \<times> platform) option" where
  "plan_dispatch by' apply_plan p =
     (let s = \<lparr>pl_greedy = plan_empty, pl_optimal = plan_empty, pl_incidents = [], pl_responders = []\<rparr> in
      if \<not> is_staff by' \<or> rg_count (pf_roads p) = 0 then Some (s, p)
      else
        (let incs = waiting_incidents p;
             s = s\<lparr>pl_incidents := map in_id incs, pl_responders := map (\<lambda>i. rs_id (pf_pool p ! i)) (available_indices (pf_pool p))\<rparr>
         in if incs = [] \<or> pl_responders s = [] then Some (s, p)
            else
              (let (incs, g) = snap_incidents incs (pf_roads p); p = p\<lparr>pf_roads := g\<rparr> in
               do {
                 gr \<leftarrow> assign_greedy (pf_pool p) incs g;
                 opt \<leftarrow> assign_optimal (pf_pool p) incs g;
                 let s = s\<lparr>pl_greedy := gr, pl_optimal := opt\<rparr>;
                 p \<leftarrow> (if apply_plan then fold_opt (apply_dispatch by') (dispatches opt) p else Some p);
                 Some (s, p)
               })))"

section \<open>Responders\<close>

definition snap_position :: "lat_lon \<Rightarrow> platform \<Rightarrow> node_id \<times> platform" where
  "snap_position x p =
     (if rg_count (pf_roads p) \<noteq> 0 then (let (n, g) = nearest_node x (pf_roads p) in (n, p\<lparr>pf_roads := g\<rparr>)) else (kNoNode, p))"

definition enlist :: "string \<Rightarrow> string \<Rightarrow> lat_lon \<Rightarrow> node_id \<Rightarrow> record_source \<Rightarrow> nat \<Rightarrow> platform \<Rightarrow> nat \<times> platform" where
  "enlist name type x n src account p =
     (let (i, pool) = pool_add \<lparr>rs_id = kNoId, rs_pos = x, rs_node = n, rs_available = True, rs_name = name\<rparr> (pf_pool p)
      in (i, p\<lparr>pf_pool := pool,
                pf_rinfo := pf_rinfo p @ [\<lparr>ri_unit_type = type, ri_source = src, ri_account = account, ri_assigned = kNoId, ri_position_ms = pf_now p\<rparr>]\<rparr>))"

definition create_responder ::
  "principal \<Rightarrow> string \<Rightarrow> string \<Rightarrow> lat_lon \<Rightarrow> record_source \<Rightarrow> nat \<Rightarrow> platform \<Rightarrow> (outcome \<times> platform) option" where
  "create_responder by' name type x src account p =
     (if \<not> is_admin by' then Some (failed 403 ''only an administrator can register responders'', p)
      else if \<not> valid_label name 64 \<or> \<not> valid_label type 32 then Some (failed 400 ''name and type required'', p)
      else if \<not> ll_valid x then Some (failed 400 ''position out of range'', p)
      else if account \<noteq> kNoId \<and> (case user_of p account of None \<Rightarrow> True | Some a \<Rightarrow> us_role a \<noteq> RResponder)
      then Some (failed 400 ''account must be a responder account'', p)
      else
        (let (n, p) = snap_position x p;
             (i, p) = enlist name type x n src account p;
             p = (if account \<noteq> kNoId then modify_user account (\<lambda>u. u\<lparr>us_unit := i\<rparr>) p else p);
             p = append_log ((blank_entry LgResponderCreated (pf_now p))
                   \<lparr>le_responder := i, le_actor := pr_id by', le_detail := name @ '' ('' @ type @ '', '' @ source_string src @ '')''\<rparr>) p
         in do { p \<leftarrow> recommend_where needs_recommendation p; Some (good i, p) }))"

definition staffs_unit :: "principal \<Rightarrow> nat \<Rightarrow> platform \<Rightarrow> bool" where
  "staffs_unit by' r p \<longleftrightarrow> pr_role by' = RResponder \<and> (case user_of p (pr_id by') of None \<Rightarrow> False | Some u \<Rightarrow> us_unit u = r)"

definition set_responder_available :: "principal \<Rightarrow> nat \<Rightarrow> bool \<Rightarrow> platform \<Rightarrow> (outcome \<times> platform) option" where
  "set_responder_available by' r available p =
     (if r \<ge> length (pf_pool p) then Some (failed 404 ''no such responder'', p)
      else if \<not> is_staff by' \<and> \<not> staffs_unit by' r p then Some (failed 403 ''not allowed'', p)
      else if ri_assigned (pf_rinfo p ! r) \<noteq> kNoId \<and> available
      then Some (failed 409 ''responder is assigned to an incident; resolve or reassign it first'', p)
      else
        (let p = modify_responder r (\<lambda>x. x\<lparr>rs_available := available\<rparr>) p;
             p = append_log ((blank_entry LgResponderUpdated (pf_now p))
                   \<lparr>le_responder := r, le_actor := pr_id by', le_detail := (if available then ''available'' else ''unavailable'')\<rparr>) p
         in do { p \<leftarrow> recommend_where needs_recommendation p; Some (good r, p) }))"

definition set_responder_position :: "principal \<Rightarrow> nat \<Rightarrow> lat_lon \<Rightarrow> platform \<Rightarrow> outcome \<times> platform" where
  "set_responder_position by' r x p =
     (if r \<ge> length (pf_pool p) then (failed 404 ''no such responder'', p)
      else if \<not> is_admin by' \<and> \<not> staffs_unit by' r p then (failed 403 ''not allowed'', p)
      else if \<not> ll_valid x then (failed 400 ''position out of range'', p)
      else
        (let (n, p) = snap_position x p;
             p = modify_responder r (\<lambda>y. y\<lparr>rs_pos := x, rs_node := n\<rparr>) p
         in (good r, modify_rinfo r (\<lambda>y. y\<lparr>ri_position_ms := pf_now p\<rparr>) p)))"

section \<open>Who may see a location, and what the records said at a time\<close>

definition may_view_location :: "principal \<Rightarrow> nat \<Rightarrow> platform \<Rightarrow> bool" where
  "may_view_location by' subject p \<longleftrightarrow>
     (if pr_system by' \<or> pr_id by' = subject then True
      else if pr_role by' = RAdmin \<or> pr_role by' = ROperator then True
      else if pr_role by' = RResponder then
        (case user_of p (pr_id by') of
           None \<Rightarrow> False
         | Some me \<Rightarrow>
             us_unit me \<noteq> kNoId \<and>
             list_ex (\<lambda>c. \<not> (cs_id c = kNoId \<or> cs_state c = CaseResolved \<or> cs_responder c \<noteq> us_unit me) \<and>
                (case get_incident (pf_corr p) (cs_id c) of None \<Rightarrow> False | Some inc \<Rightarrow> subject \<in> set (affected inc))) (pf_cases p))
      else False)"

definition alert_state_at :: "alert_id \<Rightarrow> timestamp \<Rightarrow> platform \<Rightarrow> alert_state \<times> bool" where
  "alert_state_at a t p =
     (if a \<ge> length (pf_alerts p) then (AlertOpen, False)
      else let past = takeWhile (\<lambda>(when, st). \<not> when > t) (ar_history (pf_alerts p ! a))
           in (if past = [] then AlertOpen else snd (last past), past \<noteq> []))"

definition case_state_at :: "incident_id \<Rightarrow> timestamp \<Rightarrow> platform \<Rightarrow> case_state \<times> bool" where
  "case_state_at i t p =
     (if i \<ge> length (pf_cases p) then (CaseOpen, False)
      else let past = takeWhile (\<lambda>(when, st). \<not> when > t) (cs_history (pf_cases p ! i))
           in (if past = [] then CaseOpen else snd (last past), past \<noteq> []))"

end
