(* ===== verification/Platform_Users.thy ===== *)
theory Platform_Users
  imports Platform_Alerts
begin

text \<open>
  Accounts, consent, tracking sessions and groups of the platform, \<^verbatim>\<open>src/app/platform.cpp\<close>. The salt of a password is an argument,
  the bytes read from \<^verbatim>\<open>/dev/urandom\<close>; without them \<open>hash_password\<close> throws and the operation does not return.
\<close>

section \<open>Groups\<close>

definition modify_group :: "nat \<Rightarrow> (group_record \<Rightarrow> group_record) \<Rightarrow> platform \<Rightarrow> platform" where
  "modify_group g f p = p\<lparr>pf_groups := (pf_groups p)[g := f (pf_groups p ! g)]\<rparr>"

definition rebuild_monitor :: "group_record \<Rightarrow> group_record" where
  "rebuild_monitor g =
     g\<lparr>gr_monitor := declare_group \<lparr>dg_id = gr_id g, dg_members = gr_members g, dg_label = gr_name g\<rparr> (cohesion_new (gr_cfg g)),
       gr_fragmented := False, gr_stragglers := []\<rparr>"

definition group_new :: "nat \<Rightarrow> string \<Rightarrow> record_source \<Rightarrow> timestamp \<Rightarrow> group_record" where
  "group_new i name src now =
     \<lparr>gr_id = i, gr_name = name, gr_members = [], gr_cfg = cohesion_default, gr_source = src, gr_created_ms = now,
      gr_tracked_members = 0, gr_components = 0, gr_fragmented = False, gr_fragmented_since = 0, gr_centre = \<lparr>lat = 0, lon = 0\<rparr>,
      gr_has_centre = False, gr_stragglers = [], gr_monitor = cohesion_new cohesion_default\<rparr>"

definition group_entry :: "principal \<Rightarrow> nat \<Rightarrow> nat \<Rightarrow> string \<Rightarrow> platform \<Rightarrow> platform" where
  "group_entry by' g u what p =
     append_log ((blank_entry LgGroupChanged (pf_now p))\<lparr>le_group := g, le_user := u, le_actor := pr_id by', le_detail := what\<rparr>) p"

definition create_group :: "principal \<Rightarrow> string \<Rightarrow> record_source \<Rightarrow> platform \<Rightarrow> outcome \<times> platform" where
  "create_group by' name src p =
     (if \<not> is_staff by' then (failed 403 ''operators and administrators create groups'', p)
      else if \<not> valid_label name 64 then (failed 400 ''group name: 1-64 printable characters'', p)
      else
        (let i = uint32_of (length (pf_groups p));
             p = p\<lparr>pf_groups := pf_groups p @ [rebuild_monitor (group_new i name src (pf_now p))]\<rparr>
         in (good i, append_log ((blank_entry LgGroupCreated (pf_now p))\<lparr>le_group := i, le_actor := pr_id by', le_detail := name\<rparr>) p)))"

definition remove_member :: "principal \<Rightarrow> nat \<Rightarrow> nat \<Rightarrow> platform \<Rightarrow> outcome \<times> platform" where
  "remove_member by' g u p =
     (if \<not> is_staff by' then (failed 403 ''operators and administrators manage groups'', p)
      else if g \<ge> length (pf_groups p) then (failed 404 ''no such group'', p)
      else if u \<notin> set (gr_members (pf_groups p ! g)) then (failed 404 ''not a member'', p)
      else
        (let p = modify_group g (\<lambda>r. r\<lparr>gr_members := remove1 u (gr_members r)\<rparr>) p;
             p = modify_user u (\<lambda>x. x\<lparr>us_group := kNoId\<rparr>) p;
             p = modify_group g rebuild_monitor p
         in (good g, group_entry by' g u ''left'' p)))"

definition add_member :: "principal \<Rightarrow> nat \<Rightarrow> nat \<Rightarrow> platform \<Rightarrow> outcome \<times> platform" where
  "add_member by' g u p =
     (if \<not> is_staff by' then (failed 403 ''operators and administrators manage groups'', p)
      else if g \<ge> length (pf_groups p) then (failed 404 ''no such group'', p)
      else
        case user_of p u of
          None \<Rightarrow> (failed 400 ''only tourists join groups'', p)
        | Some usr \<Rightarrow>
            if us_role usr \<noteq> RTourist then (failed 400 ''only tourists join groups'', p)
            else if us_group usr = g then (good g, p)
            else
              (let p = (if us_group usr \<noteq> kNoId \<and> us_group usr < length (pf_groups p) then snd (remove_member by' (us_group usr) u p) else p);
                   p = modify_group g (\<lambda>r. r\<lparr>gr_members := gr_members r @ [u]\<rparr>) p;
                   p = modify_user u (\<lambda>x. x\<lparr>us_group := g\<rparr>) p;
                   p = modify_group g rebuild_monitor p
               in (good g, group_entry by' g u ''joined'' p)))"

definition set_group_thresholds :: "principal \<Rightarrow> nat \<Rightarrow> real \<Rightarrow> real \<Rightarrow> int \<Rightarrow> platform \<Rightarrow> outcome \<times> platform" where
  "set_group_thresholds by' g prox strag confirm p =
     (if \<not> is_staff by' then (failed 403 ''operators and administrators manage groups'', p)
      else if g \<ge> length (pf_groups p) then (failed 404 ''no such group'', p)
      else if \<not> (prox \<ge> 10 \<and> prox \<le> 5000 \<and> strag \<ge> prox \<and> strag \<le> 20000 \<and> confirm \<ge> 0 \<and> confirm \<le> 3600000)
      then (failed 400 ''need 10 <= proximity <= straggler <= 20000 m and confirm 0..3600 s'', p)
      else
        (let p = modify_group g (\<lambda>r. r\<lparr>gr_cfg := (gr_cfg r)\<lparr>proximity_m := prox, straggler_m := strag, confirm_ms := confirm\<rparr>\<rparr>) p;
             p = modify_group g rebuild_monitor p
         in (good g, group_entry by' g kNoId (''thresholds '' @ int_string (trunc_real prox) @ ''/'' @ int_string (trunc_real strag) @
               '' m, confirm '' @ int_string (trunc_div confirm 1000) @ '' s'') p)))"

section \<open>Accounts\<close>

definition account_new :: "nat \<Rightarrow> string \<Rightarrow> string \<Rightarrow> role \<Rightarrow> record_source \<Rightarrow> string \<Rightarrow> timestamp \<Rightarrow> account" where
  "account_new i username display role src pw now =
     \<lparr>us_id = i, us_username = username, us_display_name = display, us_role = role, us_active = True, us_source = src,
      us_password_hash = pw, us_created_ms = now, us_consent = False, us_consent_ms = 0, us_sharing = False, us_sessions = 0,
      us_session_started_ms = 0, us_session_ended_ms = 0, us_group = kNoId, us_battery_aware = False, us_connected = True, us_unit = kNoId\<rparr>"

definition user_entry :: "log_kind \<Rightarrow> principal \<Rightarrow> nat \<Rightarrow> string \<Rightarrow> platform \<Rightarrow> platform" where
  "user_entry k by' u detail p =
     append_log ((blank_entry k (pf_now p))\<lparr>le_user := u, le_actor := pr_id by', le_detail := detail\<rparr>) p"

definition create_user ::
  "byte list option \<Rightarrow> principal \<Rightarrow> string \<Rightarrow> string \<Rightarrow> role \<Rightarrow> string \<Rightarrow> record_source \<Rightarrow> platform \<Rightarrow> (outcome \<times> platform) option" where
  "create_user salt by' username display role password src p =
     (if \<not> is_admin by' then Some (failed 403 ''only an administrator can create users'', p)
      else if length (pf_users p) \<ge> cf_max_users (pf_cfg p) then Some (failed 409 ''user limit reached'', p)
      else if \<not> valid_username username then Some (failed 400 ''username: 3-32 characters, lower-case letters, digits, . _ -'', p)
      else if \<not> valid_label display 64 then Some (failed 400 ''display name: 1-64 printable characters'', p)
      else if hm_contains hash_string (pf_by_name p) username then Some (failed 409 ''username already taken'', p)
      else if src = SrcApi \<and> length password < 10 then Some (failed 400 ''password must be at least 10 characters'', p)
      else if length password > 256 then Some (failed 400 ''password too long'', p)
      else
        (let i = uint32_of (length (pf_users p)) in do {
           pw \<leftarrow> (if password \<noteq> [] then hash_password salt password (cf_pbkdf2_iterations (pf_cfg p)) else Some []);
           (fresh, names) \<leftarrow> hm_put hash_string (pf_by_name p) username i;
           let p = p\<lparr>pf_by_name := names, pf_users := pf_users p @ [account_new i username display role src pw (pf_now p)]\<rparr>;
           let p = (if role = RTourist then ensure_tracked i p else p);
           Some (good i, user_entry LgUserCreated by' i (role_string role @ '' '' @ source_string src) p)
         }))"

text \<open>The derivation runs in every case, against the dummy for an unknown name; the dummy is made on the first sign-in.\<close>

definition authenticate :: "byte list option \<Rightarrow> string \<Rightarrow> string \<Rightarrow> platform \<Rightarrow> (account option \<times> platform) option" where
  "authenticate salt username password p =
     do {
       let u = user_by_name p username;
       dummy \<leftarrow> (if pf_dummy_hash p = [] then hash_password salt ''not anyone's password'' (cf_pbkdf2_iterations (pf_cfg p)) else Some (pf_dummy_hash p));
       let p = p\<lparr>pf_dummy_hash := dummy\<rparr>;
       let ok = verify_password password (case u of Some x \<Rightarrow> if us_password_hash x \<noteq> [] then us_password_hash x else dummy | None \<Rightarrow> dummy);
       Some (case u of None \<Rightarrow> None | Some x \<Rightarrow> if \<not> ok \<or> \<not> us_active x \<or> us_password_hash x = [] then None else Some x, p)
     }"

definition set_password :: "byte list option \<Rightarrow> principal \<Rightarrow> nat \<Rightarrow> string \<Rightarrow> platform \<Rightarrow> (outcome \<times> platform) option" where
  "set_password salt by' u password p =
     (if user_of p u = None then Some (failed 404 ''no such user'', p)
      else if \<not> (is_admin by' \<or> pr_id by' = u) then Some (failed 403 ''not allowed'', p)
      else if length password < 10 \<or> length password > 256 then Some (failed 400 ''password must be 10-256 characters'', p)
      else do {
        pw \<leftarrow> hash_password salt password (cf_pbkdf2_iterations (pf_cfg p));
        Some (good u, modify_user u (\<lambda>x. x\<lparr>us_password_hash := pw\<rparr>) p)
      })"

definition set_display_name :: "principal \<Rightarrow> nat \<Rightarrow> string \<Rightarrow> platform \<Rightarrow> outcome \<times> platform" where
  "set_display_name by' u name p =
     (if user_of p u = None then (failed 404 ''no such user'', p)
      else if \<not> (is_admin by' \<or> pr_id by' = u) then (failed 403 ''not allowed'', p)
      else if \<not> valid_label name 64 then (failed 400 ''display name: 1-64 printable characters'', p)
      else (good u, modify_user u (\<lambda>x. x\<lparr>us_display_name := name\<rparr>) p))"

definition set_battery_aware :: "principal \<Rightarrow> nat \<Rightarrow> bool \<Rightarrow> platform \<Rightarrow> outcome \<times> platform" where
  "set_battery_aware by' u on p =
     (if user_of p u = None then (failed 404 ''no such user'', p)
      else if \<not> (is_self by' u \<or> pr_role by' = RAdmin) then (failed 403 ''not allowed'', p)
      else (good u, modify_user u (\<lambda>x. x\<lparr>us_battery_aware := on\<rparr>) p))"

section \<open>Consent and sessions\<close>

definition drop_device :: "nat \<Rightarrow> platform \<Rightarrow> platform" where
  "drop_device u p = (if u < length (pf_devices p) then p\<lparr>pf_devices := (pf_devices p)[u := None]\<rparr> else p)"

definition rebuild_groups_of :: "nat \<Rightarrow> platform \<Rightarrow> platform" where
  "rebuild_groups_of u p = p\<lparr>pf_groups := map (\<lambda>g. if u \<in> set (gr_members g) then rebuild_monitor g else g) (pf_groups p)\<rparr>"

definition stop_sharing :: "principal \<Rightarrow> nat \<Rightarrow> platform \<Rightarrow> outcome \<times> platform" where
  "stop_sharing by' u p =
     (case user_of p u of
        None \<Rightarrow> (failed 404 ''no such user'', p)
      | Some usr \<Rightarrow>
          if \<not> is_self by' u then (failed 403 ''only the user can stop sharing'', p)
          else if \<not> us_sharing usr then (good u, p)
          else
            (let p = modify_user u (\<lambda>x. x\<lparr>us_sharing := False, us_session_ended_ms := pf_now p\<rparr>) p;
                 p = modify_tracked u (\<lambda>tr. tr\<lparr>tk_session_time_ms := tk_session_time_ms tr + (pf_now p - us_session_started_ms usr),
                       tk_tourist := (tk_tourist tr)\<lparr>zone_states := []\<rparr>\<rparr>) (ensure_tracked u p);
                 p = modify_user u (\<lambda>x. x\<lparr>us_connected := True\<rparr>) (drop_device u p);
                 p = user_entry LgSessionStopped by' u [] p
             in (good u, rebuild_groups_of u p)))"

definition fresh_session :: "timestamp \<Rightarrow> tracked \<Rightarrow> tracked" where
  "fresh_session now tr =
     tr\<lparr>tk_tourist := (tk_tourist tr)\<lparr>zone_states := [], pings := cb_clear (pings (tk_tourist tr)), to_sampler := sampler_new sampler_default\<rparr>,
        tk_has_fix := False, tk_last_seq := 0, tk_anomaly := NoAnomaly, tk_anomaly_raw := NoAnomaly, tk_anomaly_raw_since := now\<rparr>"

definition start_sharing :: "principal \<Rightarrow> nat \<Rightarrow> platform \<Rightarrow> outcome \<times> platform" where
  "start_sharing by' u p =
     (case user_of p u of
        None \<Rightarrow> (failed 404 ''no such user'', p)
      | Some usr \<Rightarrow>
          if \<not> is_self by' u then (failed 403 ''only the user can start sharing their location'', p)
          else if us_role usr \<noteq> RTourist then (failed 400 ''only tourists are tracked'', p)
          else if \<not> us_active usr then (failed 409 ''account is deactivated'', p)
          else if \<not> us_consent usr then (failed 409 ''consent has not been given'', p)
          else if us_sharing usr then (good u, p)
          else
            (let p = modify_user u (\<lambda>x. x\<lparr>us_sharing := True, us_sessions := us_sessions x + 1, us_session_started_ms := pf_now p\<rparr>) p;
                 p = modify_tracked u (fresh_session (pf_now p)) (ensure_tracked u p)
             in (good u, user_entry LgSessionStarted by' u (''session '' @ dec_string (us_sessions usr + 1)) p)))"

definition set_active :: "principal \<Rightarrow> nat \<Rightarrow> bool \<Rightarrow> platform \<Rightarrow> outcome \<times> platform" where
  "set_active by' u active p =
     (if \<not> is_admin by' then (failed 403 ''only an administrator can change activation'', p)
      else
        case user_of p u of
          None \<Rightarrow> (failed 404 ''no such user'', p)
        | Some usr \<Rightarrow>
            (let p = (if \<not> active \<and> us_sharing usr then snd (stop_sharing principal_sys u p) else p);
                 p = modify_user u (\<lambda>x. x\<lparr>us_active := active\<rparr>) p
             in (good u, user_entry LgUserUpdated by' u (if active then ''activated'' else ''deactivated'') p)))"

definition set_consent :: "principal \<Rightarrow> nat \<Rightarrow> bool \<Rightarrow> platform \<Rightarrow> outcome \<times> platform" where
  "set_consent by' u consent p =
     (case user_of p u of
        None \<Rightarrow> (failed 404 ''no such user'', p)
      | Some usr \<Rightarrow>
          if \<not> is_self by' u then (failed 403 ''only the user can give or withdraw consent'', p)
          else if us_role usr \<noteq> RTourist then (failed 400 ''only tourists are tracked'', p)
          else if us_consent usr = consent then (good u, p)
          else
            (let p = (if \<not> consent \<and> us_sharing usr then snd (stop_sharing by' u p) else p);
                 p = modify_user u (\<lambda>x. x\<lparr>us_consent := consent, us_consent_ms := pf_now p\<rparr>) p
             in (good u, user_entry (if consent then LgConsentGranted else LgConsentWithdrawn) by' u [] p)))"

text \<open>Alerts that are closed lose their position; the number redacted comes with the platform.\<close>

definition redact_record :: "alert_record \<Rightarrow> alert_record" where
  "redact_record r = r\<lparr>ar_alert := (ar_alert r)\<lparr>al_position := \<lparr>lat = 0, lon = 0\<rparr>\<rparr>, ar_redacted := True\<rparr>"

definition redact_one :: "nat \<times> platform \<Rightarrow> alert_id \<Rightarrow> nat \<times> platform" where
  "redact_one np i =
     (let (n, p) = np in
      if alert_is_open (al_state (alert_at p i)) \<or> ar_redacted (pf_alerts p ! i) then (n, p)
      else (n + 1, modify_alert i redact_record p))"

definition erase_history :: "principal \<Rightarrow> nat \<Rightarrow> platform \<Rightarrow> outcome \<times> platform" where
  "erase_history by' u p =
     (if user_of p u = None then (failed 404 ''no such user'', p)
      else if \<not> (is_self by' u \<or> pr_role by' = RAdmin) then (failed 403 ''not allowed'', p)
      else
        (let p = ensure_tracked u p;
             n = (case tracked_of p u of None \<Rightarrow> 0 | Some tr \<Rightarrow> length (tk_trail tr));
             p = modify_tracked u (\<lambda>tr. tr\<lparr>tk_trail := []\<rparr>) p;
             (redacted, p) = foldl redact_one (0, p) (alerts_of p u)
         in (good u, user_entry LgHistoryErased by' u (dec_string n @ '' trail points, '' @ dec_string redacted @ '' alert positions'') p)))"

end
