(* ===== verification/Platform_Zones.thy ===== *)
theory Platform_Zones
  imports Platform_Users
begin

text \<open>
  The zones of the platform and its road network, \<^verbatim>\<open>src/app/platform.cpp\<close>: every change goes to the store, to the R-tree that the
  evaluator queries and to the versioned index. Reading a file is an optional text; a road file is the parsed graph, because reading
  it is not modelled.
\<close>

record zone_input =
  zi_name :: string
  zi_kind :: zone_kind
  zi_severity :: int
  zi_ring :: "lat_lon list"
  zi_max_dwell_s :: int
  zi_active_from :: timestamp
  zi_active_to :: timestamp

definition zone_source :: "platform \<Rightarrow> zone_id \<Rightarrow> record_source" where
  "zone_source p z = (if z < length (pf_zone_source p) then pf_zone_source p ! z else SrcApi)"

text \<open>The error, or the zone.\<close>

definition validate_zone :: "platform_config \<Rightarrow> zone_input \<Rightarrow> outcome + zone" where
  "validate_zone cfg i =
     (if \<not> valid_label (zi_name i) 80 then Inl (failed 400 ''zone name: 1-80 printable characters'')
      else if zi_severity i < 1 \<or> zi_severity i > 5 then Inl (failed 400 ''severity must be 1..5'')
      else if length (zi_ring i) < 3 then Inl (failed 400 ''a polygon needs at least 3 vertices'')
      else if length (zi_ring i) > cf_max_zone_vertices cfg then Inl (failed 400 ''too many vertices'')
      else if zi_max_dwell_s i < 0 \<or> zi_max_dwell_s i > 7 * 86400 then Inl (failed 400 ''dwell limit out of range'')
      else if zi_active_from i \<ge> zi_active_to i then Inl (failed 400 ''validity must end after it starts'')
      else if \<not> list_all ll_valid (zi_ring i) then Inl (failed 400 ''coordinate out of range'')
      else
        (let z = zone_default\<lparr>z_name := zi_name i, z_kind := zi_kind i, z_severity := nat (zi_severity i), z_shape := polygon_of (zi_ring i),
                   z_max_dwell_ms := zi_max_dwell_s i * 1000, z_validity := \<lparr>v_from = zi_active_from i, v_to = zi_active_to i\<rparr>\<rparr>;
             v = validate (z_shape z)
         in if v \<noteq> Ok then Inl (failed 400 (''invalid polygon: '' @ validity_string v)) else Inr z))"

definition on_index :: "(rtree \<Rightarrow> rtree) \<Rightarrow> platform \<Rightarrow> platform" where
  "on_index f p = p\<lparr>pf_eval := (pf_eval p)\<lparr>ev_index := f (ev_index (pf_eval p))\<rparr>\<rparr>"

definition index_zone :: "zone_id \<Rightarrow> timestamp \<Rightarrow> platform \<Rightarrow> platform" where
  "index_zone i t p =
     (case zs_get (pf_zones p) i of
        None \<Rightarrow> p
      | Some z \<Rightarrow>
          (let p = on_index (\<lambda>ix. rt_insert i (pg_bbox (z_shape z)) (snd (rt_remove i ix))) p
           in p\<lparr>pf_vindex := snd (add_zone i (pg_bbox (z_shape z)) (z_validity z) t (pf_vindex p))\<rparr>))"

definition zone_entry :: "log_kind \<Rightarrow> principal \<Rightarrow> zone_id \<Rightarrow> string \<Rightarrow> platform \<Rightarrow> platform" where
  "zone_entry k by' i detail p = append_log ((blank_entry k (pf_now p))\<lparr>le_zone := i, le_actor := pr_id by', le_detail := detail\<rparr>) p"

text \<open>\<open>zone_source_.resize(n, src)\<close>.\<close>

definition resize_sources :: "nat \<Rightarrow> record_source \<Rightarrow> record_source list \<Rightarrow> record_source list" where
  "resize_sources n src xs = (if length xs \<le> n then xs @ replicate (n - length xs) src else take n xs)"

definition add_stored_zone :: "zone \<Rightarrow> platform \<Rightarrow> zone_id \<times> platform" where
  "add_stored_zone z p =
     (let (i, zs) = zs_add (pf_zones p) z
      in (i, p\<lparr>pf_zones := zs, pf_zone_source := resize_sources (zs_size zs) SrcApi (pf_zone_source p)\<rparr>))"

definition create_zone :: "principal \<Rightarrow> zone_input \<Rightarrow> record_source \<Rightarrow> platform \<Rightarrow> outcome \<times> platform" where
  "create_zone by' i src p =
     (if \<not> is_admin by' then (failed 403 ''only an administrator manages zones'', p)
      else if length (zs_all_ids (pf_zones p)) \<ge> cf_max_zones (pf_cfg p) then (failed 409 ''zone limit reached'', p)
      else
        case validate_zone (pf_cfg p) i of
          Inl e \<Rightarrow> (e, p)
        | Inr z \<Rightarrow>
            (let (n, p) = add_stored_zone z p;
                 p = p\<lparr>pf_zone_source := (pf_zone_source p)[n := src]\<rparr>;
                 p = index_zone n (pf_now p) p
             in (good n, zone_entry LgZoneCreated by' n
                   (zi_name i @ '' ('' @ zone_kind_string (zi_kind i) @ '', severity '' @ int_string (zi_severity i) @ '')'') p)))"

definition update_zone :: "principal \<Rightarrow> zone_id \<Rightarrow> zone_input \<Rightarrow> platform \<Rightarrow> outcome \<times> platform" where
  "update_zone by' n i p =
     (if \<not> is_admin by' then (failed 403 ''only an administrator manages zones'', p)
      else
        case zs_get (pf_zones p) n of
          None \<Rightarrow> (failed 404 ''no such zone'', p)
        | Some cur \<Rightarrow>
            (case validate_zone (pf_cfg p) i of
               Inl e \<Rightarrow> (e, p)
             | Inr z \<Rightarrow>
                 (let z = z\<lparr>z_id := n, z_synthetic := z_synthetic cur, z_jurisdiction := z_jurisdiction cur,
                            z_enter_margin_m := z_enter_margin_m cur, z_exit_margin_m := z_exit_margin_m cur\<rparr>;
                      p = index_zone n (pf_now p) (p\<lparr>pf_zones := zs_modify (\<lambda>_. z) (pf_zones p) n\<rparr>)
                  in (good n, zone_entry LgZoneUpdated by' n (zi_name i @ '', '' @ dec_string (length (zi_ring i)) @ '' vertices'') p))))"

definition delete_zone :: "principal \<Rightarrow> zone_id \<Rightarrow> platform \<Rightarrow> outcome \<times> platform" where
  "delete_zone by' n p =
     (if \<not> is_admin by' then (failed 403 ''only an administrator manages zones'', p)
      else
        case zs_get (pf_zones p) n of
          None \<Rightarrow> (failed 404 ''no such zone'', p)
        | Some z \<Rightarrow>
            (let p = on_index (\<lambda>ix. snd (rt_remove n ix)) p;
                 p = p\<lparr>pf_vindex := snd (remove_zone n (pf_now p) (pf_vindex p)), pf_zones := snd (zs_remove (pf_zones p) n)\<rparr>
             in (good n, zone_entry LgZoneDeleted by' n (z_name z) p)))"

definition validity_text :: "timestamp \<Rightarrow> timestamp \<Rightarrow> string" where
  "validity_text f t = ''in force '' @ int_string (trunc_div f 1000) @ '' s to '' @
     (if t = kForever then ''open-ended'' else int_string (trunc_div t 1000) @ '' s'')"

definition set_zone_validity :: "principal \<Rightarrow> zone_id \<Rightarrow> timestamp \<Rightarrow> timestamp \<Rightarrow> platform \<Rightarrow> outcome \<times> platform" where
  "set_zone_validity by' n f t p =
     (if \<not> is_admin by' then (failed 403 ''only an administrator manages zones'', p)
      else if zs_get (pf_zones p) n = None then (failed 404 ''no such zone'', p)
      else if f \<ge> t then (failed 400 ''validity must end after it starts'', p)
      else
        (let v = \<lparr>v_from = f, v_to = t\<rparr>;
             p = p\<lparr>pf_zones := zs_modify (\<lambda>z. z\<lparr>z_validity := v\<rparr>) (pf_zones p) n,
                   pf_vindex := snd (update_validity n v (pf_now p) (pf_vindex p))\<rparr>
         in (good n, zone_entry LgZoneValidity by' n (validity_text f t) p)))"

definition set_zone_dwell :: "principal \<Rightarrow> zone_id \<Rightarrow> int \<Rightarrow> platform \<Rightarrow> outcome \<times> platform" where
  "set_zone_dwell by' n s p =
     (if \<not> is_admin by' then (failed 403 ''only an administrator manages zones'', p)
      else if zs_get (pf_zones p) n = None then (failed 404 ''no such zone'', p)
      else if s < 0 \<or> s > 7 * 86400 then (failed 400 ''dwell limit out of range'', p)
      else
        (good n, zone_entry LgZoneUpdated by' n (''dwell limit '' @ int_string s @ '' s'')
           (p\<lparr>pf_zones := zs_modify (\<lambda>z. z\<lparr>z_max_dwell_ms := s * 1000\<rparr>) (pf_zones p) n\<rparr>)))"

definition import_one :: "principal \<Rightarrow> platform \<Rightarrow> zone \<Rightarrow> platform" where
  "import_one by' p z =
     (let z = z\<lparr>z_name := (if z_name z = [] then ''imported zone'' else z_name z), z_synthetic := False\<rparr>;
          (n, p) = add_stored_zone z p;
          p = index_zone n (pf_now p) p
      in zone_entry LgZoneCreated by' n (z_name z @ '' (GeoJSON import)'') p)"

definition quote :: string where
  "quote = [char_of (39::nat)]"

text \<open>The outcome, the number of zones added and the platform.\<close>

definition import_geojson :: "principal \<Rightarrow> string \<Rightarrow> platform \<Rightarrow> outcome \<times> nat \<times> platform" where
  "import_geojson by' text p =
     (if \<not> is_admin by' then (failed 403 ''only an administrator manages zones'', 0, p)
      else
        case parse_geojson text [] of
          (Some err, _) \<Rightarrow> (failed 400 (''GeoJSON rejected: '' @ err), 0, p)
        | (None, parsed) \<Rightarrow>
            if parsed = [] then (failed 400 ''no polygon features found'', 0, p)
            else if length (zs_all_ids (pf_zones p)) + length parsed > cf_max_zones (pf_cfg p) then (failed 409 ''zone limit reached'', 0, p)
            else
              case List.find (\<lambda>z. vertex_count (z_shape z) > cf_max_zone_vertices (pf_cfg p)) parsed of
                Some z \<Rightarrow> (failed 400 (''zone '' @ quote @ z_name z @ quote @ '' has too many vertices''), 0, p)
              | None \<Rightarrow> (good kNoId, length parsed, foldl (import_one by') p parsed))"

section \<open>Loading the world\<close>

definition load_versions :: "nat \<Rightarrow> platform \<Rightarrow> platform" where
  "load_versions before p =
     foldl (\<lambda>p i. case zs_get (pf_zones p) i of
          None \<Rightarrow> p
        | Some z \<Rightarrow> p\<lparr>pf_vindex := snd (add_zone (z_id z) (pg_bbox (z_shape z)) (z_validity z) (pf_now p) (pf_vindex p))\<rparr>)
       p [before..<zs_size (pf_zones p)]"

definition zone_items :: "zone list \<Rightarrow> index_item list" where
  "zone_items zs = map (\<lambda>z. (z_id z, pg_bbox (z_shape z))) (zs_live zs)"

text \<open>The error, if any, and the platform.\<close>

definition load_zones_file :: "string \<Rightarrow> string option \<Rightarrow> platform \<Rightarrow> string option \<times> platform" where
  "load_zones_file path file p =
     (case load_geojson path file (pf_zones p) of
        (Some err, zs) \<Rightarrow> (Some err, p\<lparr>pf_zones := zs\<rparr>)
      | (None, zs) \<Rightarrow>
          (let before = zs_size (pf_zones p);
               p = p\<lparr>pf_zones := zs, pf_zone_source := resize_sources (zs_size zs) SrcFixture (pf_zone_source p)\<rparr>;
               p = on_index (rt_build (zone_items zs)) p
           in (None, load_versions before p)))"

definition resnap_pool :: "platform \<Rightarrow> platform" where
  "resnap_pool p = (let (pool, g) = snap_all (pf_pool p) (pf_roads p) in p\<lparr>pf_pool := pool, pf_roads := g\<rparr>)"

definition load_roads_file :: "(string + road_graph) \<Rightarrow> platform \<Rightarrow> string option \<times> platform" where
  "load_roads_file parsed p =
     (case parsed of Inl err \<Rightarrow> (Some err, p) | Inr g \<Rightarrow> (None, resnap_pool (p\<lparr>pf_roads := g\<rparr>)))"

definition use_grid_roads :: "int \<Rightarrow> int \<Rightarrow> platform \<Rightarrow> platform" where
  "use_grid_roads rows cols p =
     (let area = foldl (\<lambda>b z. bb_expand b (pg_bbox (z_shape z))) NoBox (zs_live (pf_zones p));
          area = (if area \<noteq> NoBox \<and> max_lat area > min_lat area then area else Box (255 / 10) (918 / 10) (2562 / 100) (9195 / 100))
      in resnap_pool (p\<lparr>pf_roads := rg_grid area rows cols 7 (1 / 4) (15 / 100)\<rparr>))"

end
