(* ===== verification/Platform_Fixes.thy ===== *)
theory Platform_Fixes
  imports Platform_Zones
begin

text \<open>
  Positions in the platform, \<^verbatim>\<open>src/app/platform.cpp\<close>: ingesting a fix, turning the evaluator's events into log entries, alerts and
  incidents, anomalies, group cohesion, retention, the clock, and reading where somebody was. \<^verbatim>\<open>std::upper_bound\<close> and
  \<^verbatim>\<open>std::lower_bound\<close> are what the standard specifies for a trail in time order. A null pointer that would be followed is \<open>None\<close>.
\<close>

section \<open>The trail\<close>

definition upper_pos :: "timestamp \<Rightarrow> trail_point list \<Rightarrow> nat" where
  "upper_pos t pts = length (takeWhile (\<lambda>q. \<not> t < tp_t_ms q) pts)"

definition trail_insert :: "trail_point \<Rightarrow> trail_point list \<Rightarrow> trail_point list" where
  "trail_insert q pts = (let n = upper_pos (tp_t_ms q) pts in take n pts @ q # drop n pts)"

definition trail_push :: "nat \<Rightarrow> trail_point \<Rightarrow> trail_point list \<Rightarrow> trail_point list" where
  "trail_push max_points q pts =
     (let pts = pts @ [q] in if length pts > max_points then drop (length pts - max_points) pts else pts)"

definition position_near :: "tracked \<Rightarrow> timestamp \<Rightarrow> lat_lon" where
  "position_near tr t =
     (if tk_trail tr = [] then pos (last_fix (tk_tourist tr))
      else (let n = upper_pos t (tk_trail tr) in tp_pos (tk_trail tr ! (if n = 0 then 0 else n - 1))))"

text \<open>The last point that was taken and received by then.\<close>

definition position_at :: "nat \<Rightarrow> timestamp \<Rightarrow> platform \<Rightarrow> trail_point option" where
  "position_at u t p =
     (case tracked_of p u of
        None \<Rightarrow> None
      | Some tr \<Rightarrow> List.find (\<lambda>q. tp_recorded_ms q \<le> t) (rev (take (upper_pos t (tk_trail tr)) (tk_trail tr))))"

definition enforce_retention :: "timestamp \<Rightarrow> platform \<Rightarrow> platform" where
  "enforce_retention now p =
     (let cutoff = now - cf_trail_retention_ms (pf_cfg p)
      in p\<lparr>pf_tracked := map (map_option (\<lambda>tr. tr\<lparr>tk_trail := dropWhile (\<lambda>q. tp_t_ms q < cutoff) (tk_trail tr)\<rparr>)) (pf_tracked p)\<rparr>)"

section \<open>Events\<close>

fun containment_string :: "containment \<Rightarrow> string" where
  "containment_string Inside = ''inside''"
| "containment_string Outside = ''outside''"
| "containment_string Uncertain = ''uncertain''"

definition round_depth :: "machine \<Rightarrow> real option \<Rightarrow> int" where
  "round_depth mc d = (case d of None \<Rightarrow> mc_round_infinite mc | Some x \<Rightarrow> lround x)"

definition event_detail :: "machine \<Rightarrow> event \<Rightarrow> string" where
  "event_detail mc ev =
     containment_string (ev_containment ev) @ '' depth '' @ int_string (round_depth mc (ev_depth_m ev)) @ '' m, accuracy '' @
     int_string (lround (ev_accuracy_m ev)) @ '' m'' @
     (if ev_kind ev = EvZoneApproaching then '', eta '' @ int_string (lround (ev_eta_s ev)) @ '' s'' else [])"

fun event_alert_kind :: "event_kind \<Rightarrow> alert_kind" where
  "event_alert_kind EvZoneApproaching = Triage.ZoneApproaching"
| "event_alert_kind EvZoneUncertain = Triage.ZoneUncertain"
| "event_alert_kind EvDwellExceeded = Triage.DwellExceeded"
| "event_alert_kind _ = Triage.ZoneBreach"

text \<open>Whether an event in a zone is worth an alert.\<close>

definition alert_worthy :: "platform_config \<Rightarrow> zone option \<Rightarrow> event \<Rightarrow> bool" where
  "alert_worthy cfg z ev =
     (case z of
        None \<Rightarrow> False
      | Some z \<Rightarrow>
          if z_kind z = Safe \<or> z_synthetic z then False
          else if ev_kind ev = EvZoneApproaching \<and> (z_severity z < cf_warning_min_severity cfg \<or> ev_eta_s ev > cf_approach_alert_eta_s cfg) then False
          else if ev_kind ev = EvZoneUncertain \<and> z_severity z < cf_warning_min_severity cfg then False
          else True)"

definition event_alert :: "platform \<Rightarrow> nat \<Rightarrow> event \<Rightarrow> zone \<Rightarrow> alert" where
  "event_alert p u ev z =
     (blank_alert (event_alert_kind (ev_kind ev)))
       \<lparr>al_severity := z_severity z, al_tourist := u, al_zone := ev_zone ev,
        al_position := (case tracked_of p u of Some tr \<Rightarrow> position_near tr (ev_t_ms ev) | None \<Rightarrow> \<lparr>lat = 0, lon = 0\<rparr>),
        al_accuracy_m := ev_accuracy_m ev, al_raised_ms := ev_t_ms ev, al_eta_s := ev_eta_s ev, al_note := z_name z\<rparr>"

definition event_entry :: "nat \<Rightarrow> bool \<Rightarrow> timestamp \<Rightarrow> lamport_clock option \<Rightarrow> event \<Rightarrow> platform \<Rightarrow> platform" where
  "event_entry u late rec_ms st ev p =
     append_log ((blank_entry (event_log_kind (ev_kind ev)) (ev_t_ms ev))
       \<lparr>le_recorded_ms := rec_ms, le_user := u, le_zone := ev_zone ev, le_late := late,
        le_stamp := (case st of None \<Rightarrow> \<lparr>lc_counter = 0, lc_device = 0\<rparr> | Some s \<Rightarrow> s),
        le_detail := event_detail (pf_machine p) ev\<rparr>) (count_in (\<lambda>s. s\<lparr>ps_transitions := ps_transitions s + 1\<rparr>) p)"

definition apply_event ::
  "nat \<Rightarrow> bool \<Rightarrow> timestamp \<Rightarrow> lamport_clock option \<Rightarrow> event \<Rightarrow> alert_id list \<times> platform \<Rightarrow> (alert_id list \<times> platform) option" where
  "apply_event u late rec_ms st ev fp =
     (let (fresh, p) = fp; p = event_entry u late rec_ms st ev p in
      if ev_kind ev = EvZoneExit then Some (fresh, settle_warnings u (ev_zone ev) ''left the zone'' p)
      else
        (let p = (if ev_kind ev = EvZoneEnter then settle_warnings u (ev_zone ev) ''superseded by entry'' p else p);
             z = zs_get (pf_zones p) (ev_zone ev)
         in if \<not> alert_worthy (pf_cfg p) z ev then Some (fresh, p)
            else do {
              let usr = user_of p u;
              (i, p) \<leftarrow> raise_alert (event_alert p u ev (the z)) (case usr of Some x \<Rightarrow> us_group x | None \<Rightarrow> kNoId) late
                (case usr of Some x \<Rightarrow> us_source x | None \<Rightarrow> SrcApi) p;
              Some (fresh @ [i], p)
            }))"

definition apply_events ::
  "nat \<Rightarrow> event list \<Rightarrow> bool \<Rightarrow> timestamp \<Rightarrow> lamport_clock option \<Rightarrow> platform \<Rightarrow> platform option" where
  "apply_events u evs late rec_ms st p =
     do {
       (fresh, p) \<leftarrow> fold_opt (apply_event u late rec_ms st) evs ([], p);
       correlate fresh p
     }"

section \<open>Ingestion\<close>

definition observe_fix :: "nat \<Rightarrow> uncertain_point \<Rightarrow> platform \<Rightarrow> event list \<times> platform" where
  "observe_fix u f p =
     (case tracked_of p u of
        None \<Rightarrow> ([], p)
      | Some tr \<Rightarrow>
          (let t = (tk_tourist tr)\<lparr>last_fix := f, pings := cb_push (pings (tk_tourist tr)) (ping_default\<lparr>pg_fix := f\<rparr>)\<rparr>;
               (t, e, out) = evaluate (cf_eval (pf_cfg p)) rt_ops (pf_zones p) (t_ms f) t (pf_eval p);
               p = modify_tracked u (\<lambda>tr. tr\<lparr>tk_tourist := t\<rparr>) (p\<lparr>pf_eval := e\<rparr>)
           in (out, count_in (\<lambda>s. s\<lparr>ps_eval_calls := ps_eval_calls s + 1\<rparr>) p)))"

definition same_place :: "lat_lon \<Rightarrow> lat_lon \<Rightarrow> bool" where
  "same_place a b \<longleftrightarrow> \<bar>lat a - lat b\<bar> < 1 / 10 ^ 12 \<and> \<bar>lon a - lon b\<bar> < 1 / 10 ^ 12"

definition is_duplicate :: "tracked \<Rightarrow> fix_input \<Rightarrow> uncertain_point \<Rightarrow> bool" where
  "is_duplicate tr i f \<longleftrightarrow> (fi_seq i \<noteq> 0 \<and> fi_seq i = tk_last_seq tr) \<or>
     (t_ms f = tk_last_fix_ms tr \<and> same_place (pos (last_fix (tk_tourist tr))) (pos f))"

definition is_stale :: "tracked \<Rightarrow> fix_input \<Rightarrow> uncertain_point \<Rightarrow> bool" where
  "is_stale tr i f \<longleftrightarrow> t_ms f < tk_last_fix_ms tr \<or> (fi_seq i \<noteq> 0 \<and> tk_last_seq tr \<noteq> 0 \<and> fi_seq i < tk_last_seq tr)"

definition is_jump :: "platform_config \<Rightarrow> tracked \<Rightarrow> uncertain_point \<Rightarrow> bool" where
  "is_jump cfg tr f \<longleftrightarrow>
     (let dt_s = of_int (t_ms f - tk_last_fix_ms tr) / 1000; d = distance_m (pos (last_fix (tk_tourist tr))) (pos f)
      in (dt_s > 0 \<and> d / dt_s > cf_jump_speed_mps cfg) \<or> (dt_s \<le> 0 \<and> d > 50))"

definition fix_point :: "platform \<Rightarrow> fix_input \<Rightarrow> uncertain_point" where
  "fix_point p i = \<lparr>pos = \<lparr>lat = fi_lat i, lon = fi_lon i\<rparr>, accuracy_m = fi_accuracy_m i, t_ms = (if fi_t_ms i < 0 then pf_now p else fi_t_ms i)\<rparr>"

text \<open>Why the fix of a user being tracked is refused.\<close>

definition fix_error :: "platform \<Rightarrow> account \<Rightarrow> uncertain_point \<Rightarrow> string option" where
  "fix_error p usr f =
     (if \<not> ll_valid (pos f) \<or> accuracy_m f \<le> 0 \<or> accuracy_m f > 5000 then Some ''coordinates or accuracy out of range''
      else if t_ms f > pf_now p + cf_max_future_skew_ms (pf_cfg p) then Some ''timestamp is in the future''
      else if t_ms f < us_session_started_ms usr then Some ''timestamp is before the tracking session began''
      else None)"

definition late_point :: "platform \<Rightarrow> uncertain_point \<Rightarrow> nat \<Rightarrow> trail_point" where
  "late_point p f flags = \<lparr>tp_t_ms = t_ms f, tp_pos = pos f, tp_accuracy_m = accuracy_m f, tp_flags = flags, tp_recorded_ms = pf_now p\<rparr>"

definition close_signal_alert :: "nat \<Rightarrow> string \<Rightarrow> platform \<Rightarrow> platform" where
  "close_signal_alert u why p =
     (case tracked_of p u of
        None \<Rightarrow> p
      | Some tr \<Rightarrow>
          if tk_signal_alert tr \<noteq> kNoId \<and> tk_signal_alert tr < length (pf_alerts p) \<and> alert_is_open (al_state (alert_at p (tk_signal_alert tr)))
          then resolve_with_note (tk_signal_alert tr) why kNoId p else p)"

definition contact_restored :: "nat \<Rightarrow> platform \<Rightarrow> platform" where
  "contact_restored u p =
     (case tracked_of p u of
        None \<Rightarrow> p
      | Some tr \<Rightarrow>
          (let p = (if tk_signal_alert tr \<noteq> kNoId \<and> tk_signal_alert tr < length (pf_alerts p)
                    then modify_tracked u (\<lambda>tr. tr\<lparr>tk_signal_alert := kNoId\<rparr>) (close_signal_alert u ''contact restored'' p) else p)
           in modify_tracked u (\<lambda>tr. if tk_anomaly tr = AnSignalLost then tr\<lparr>tk_anomaly := NoAnomaly\<rparr> else tr) p))"

definition trail_flags :: "bool \<Rightarrow> uncertain_point \<Rightarrow> nat" where
  "trail_flags jump f = (if jump then kTrailJump else 0) + (if usable f then 0 else kTrailNoisy)"

text \<open>A fix that is in order: into the trail, through the evaluator, and its events applied.\<close>

definition accept_fix :: "nat \<Rightarrow> fix_input \<Rightarrow> uncertain_point \<Rightarrow> bool \<Rightarrow> platform \<Rightarrow> (fix_result \<times> platform) option" where
  "accept_fix u i f jump p =
     (let p = modify_tracked u (\<lambda>tr. tr\<lparr>tk_trail := trail_push (cf_trail_max_points (pf_cfg p)) (late_point p f (trail_flags jump f)) (tk_trail tr)\<rparr>) p;
          (evs, p) = observe_fix u f p;
          p = modify_tracked u (\<lambda>tr. tr\<lparr>tk_has_fix := True, tk_last_fix_ms := t_ms f,
                tk_last_seq := (if fi_seq i \<noteq> 0 then fi_seq i else tk_last_seq tr),
                tk_accepted := tk_accepted tr + 1, tk_fixes_sent := tk_fixes_sent tr + 1\<rparr>) p;
          p = count_in (\<lambda>s. s\<lparr>ps_fixes_accepted := ps_fixes_accepted s + 1\<rparr>) p;
          p = contact_restored u p
      in do {
        p \<leftarrow> apply_events u evs False (pf_now p) None p;
        Some (\<lparr>fr_status = FxAccepted, fr_reason = [], fr_events = length evs, fr_jump = jump\<rparr>, p)
      })"

definition ingest_fix :: "principal \<Rightarrow> nat \<Rightarrow> fix_input \<Rightarrow> platform \<Rightarrow> (fix_result \<times> platform) option" where
  "ingest_fix by' u i p =
     (let refuse = count_in (\<lambda>s. s\<lparr>ps_fixes_refused := ps_fixes_refused s + 1\<rparr>) p in
      case user_of p u of
        None \<Rightarrow> Some (fix_refused FxUnknownUser ''no such user'', p)
      | Some usr \<Rightarrow>
          if \<not> is_self by' u then Some (fix_refused FxNotTracking ''a fix can only come from the user's own device'', refuse)
          else if us_role usr \<noteq> RTourist \<or> \<not> us_active usr \<or> \<not> us_consent usr \<or> \<not> us_sharing usr
          then Some (fix_refused FxNotTracking
                 (if \<not> us_consent usr then ''no consent'' else if \<not> us_sharing usr then ''no active tracking session'' else ''not trackable''), refuse)
          else if is_offline p u
          then Some (fix_refused FxOffline ''device is offline; its fixes are queued on the device until it reconnects'', p)
          else
            (let p = ensure_tracked u p; f = fix_point p i; tr = the (tracked_of p u) in
             case fix_error p usr f of
               Some why \<Rightarrow>
                 Some (fix_refused FxInvalid why,
                   count_in (\<lambda>s. s\<lparr>ps_fixes_invalid := ps_fixes_invalid s + 1\<rparr>) (modify_tracked u (\<lambda>tr. tr\<lparr>tk_invalid := tk_invalid tr + 1\<rparr>) p))
             | None \<Rightarrow>
                 if tk_has_fix tr \<and> is_duplicate tr i f
                 then Some (fix_refused FxDuplicate ''already received'',
                        count_in (\<lambda>s. s\<lparr>ps_fixes_duplicate := ps_fixes_duplicate s + 1\<rparr>) (modify_tracked u (\<lambda>tr. tr\<lparr>tk_duplicates := tk_duplicates tr + 1\<rparr>) p))
                 else if tk_has_fix tr \<and> is_stale tr i f
                 then Some (fix_refused FxOutOfOrder ''older than the last accepted fix; recorded in history, not evaluated'',
                        count_in (\<lambda>s. s\<lparr>ps_fixes_out_of_order := ps_fixes_out_of_order s + 1\<rparr>)
                          (modify_tracked u (\<lambda>tr. tr\<lparr>tk_trail := trail_insert (late_point p f kTrailLate) (tk_trail tr), tk_out_of_order := tk_out_of_order tr + 1\<rparr>) p))
                 else
                   (let jump = tk_has_fix tr \<and> is_jump (pf_cfg p) tr f;
                        p = (if jump then count_in (\<lambda>s. s\<lparr>ps_jumps := ps_jumps s + 1\<rparr>) (modify_tracked u (\<lambda>tr. tr\<lparr>tk_jumps := tk_jumps tr + 1\<rparr>) p) else p)
                    in accept_fix u i f jump p)))"

section \<open>Anomalies\<close>

definition anomaly_gap :: "account \<Rightarrow> tracked \<Rightarrow> int" where
  "anomaly_gap usr tr =
     (if us_battery_aware usr then max 120000 (trunc_div (current_interval_ms (to_sampler (tk_tourist tr)) * 5) 2) else 120000)"

definition anomaly_cfg :: "account \<Rightarrow> tracked \<Rightarrow> anomaly_config" where
  "anomaly_cfg usr tr = anomaly_default\<lparr>stationary_window_ms := 50000, stationary_radius_m := 30, signal_gap_ms := anomaly_gap usr tr\<rparr>"

text \<open>Whether a companion is next to the user: another tracked member of the group within the group's proximity.\<close>

definition beside_companion :: "platform \<Rightarrow> nat \<Rightarrow> tracked \<Rightarrow> group_record \<Rightarrow> bool" where
  "beside_companion p u tr g \<longleftrightarrow>
     list_ex (\<lambda>m. case tracked_of p m of
        None \<Rightarrow> False
      | Some o' \<Rightarrow> m \<noteq> u \<and> tk_has_fix o' \<and> us_sharing (pf_users p ! m) \<and>
          distance_m (pos (last_fix (tk_tourist o'))) (pos (last_fix (tk_tourist tr))) \<le> proximity_m (gr_cfg g)) (gr_members g)"

definition raw_anomaly :: "platform \<Rightarrow> nat \<Rightarrow> account \<Rightarrow> tracked \<Rightarrow> timestamp \<Rightarrow> anomaly_kind \<times> real" where
  "raw_anomaly p u usr tr now =
     (let (k, v) = detect (tk_tourist tr) now (anomaly_cfg usr tr) in
      if k = AnStationary \<and> us_group usr \<noteq> kNoId \<and> us_group usr < length (pf_groups p) \<and>
         beside_companion p u tr (pf_groups p ! us_group usr)
      then (NoAnomaly, v) else (k, v))"

definition confirm_needed :: "platform_config \<Rightarrow> anomaly_kind \<Rightarrow> int" where
  "confirm_needed cfg k =
     (if k = AnSignalLost then 0 else if k = AnStationary then cf_stationary_confirm_ms cfg else cf_anomaly_confirm_ms cfg)"

fun anomaly_alert_kind :: "anomaly_kind \<Rightarrow> alert_kind" where
  "anomaly_alert_kind AnSignalLost = Triage.SignalLost"
| "anomaly_alert_kind AnStationary = Triage.Stationary"
| "anomaly_alert_kind _ = Triage.RouteDeviation"

definition anomaly_note :: "anomaly_config \<Rightarrow> anomaly_kind \<Rightarrow> real \<Rightarrow> string" where
  "anomaly_note acfg k v =
     (if k = AnSignalLost then ''no fix for '' @ int_string (trunc_real (v / 1000)) @ '' s''
      else ''moved under '' @ int_string (trunc_real (stationary_radius_m acfg)) @ '' m in '' @ int_string (trunc_div (stationary_window_ms acfg) 1000) @ '' s'')"

definition anomaly_alert :: "nat \<Rightarrow> account \<Rightarrow> tracked \<Rightarrow> anomaly_kind \<Rightarrow> real \<Rightarrow> timestamp \<Rightarrow> alert" where
  "anomaly_alert u usr tr k v now =
     (blank_alert (anomaly_alert_kind k))
       \<lparr>al_severity := 3, al_tourist := uint32_of u, al_position := pos (last_fix (tk_tourist tr)),
        al_accuracy_m := accuracy_m (last_fix (tk_tourist tr)), al_raised_ms := now, al_note := anomaly_note (anomaly_cfg usr tr) k v\<rparr>"

definition detect_one :: "timestamp \<Rightarrow> nat \<Rightarrow> alert_id list \<times> platform \<Rightarrow> (alert_id list \<times> platform) option" where
  "detect_one now u fp =
     (let (fresh, p) = fp; usr = pf_users p ! u in
      case tracked_of p u of
        None \<Rightarrow> Some (fresh, p)
      | Some tr \<Rightarrow>
          if \<not> us_sharing usr \<or> \<not> tk_has_fix tr then Some (fresh, p)
          else
            (let (k, v) = raw_anomaly p u usr tr now;
                 tr' = (if k \<noteq> tk_anomaly_raw tr then tr\<lparr>tk_anomaly_raw := k, tk_anomaly_raw_since := now\<rparr> else tr)
             in if now - tk_anomaly_raw_since tr' < confirm_needed (pf_cfg p) k \<or> k = tk_anomaly tr'
                then Some (fresh, modify_tracked u (\<lambda>_. tr') p)
                else if k = NoAnomaly then Some (fresh, modify_tracked u (\<lambda>_. tr'\<lparr>tk_anomaly := k\<rparr>) p)
                else do {
                  (i, p) \<leftarrow> raise_alert (anomaly_alert u usr tr' k v now) (us_group usr) False (us_source usr) (modify_tracked u (\<lambda>_. tr'\<lparr>tk_anomaly := k\<rparr>) p);
                  let p = (if k = AnSignalLost then modify_tracked u (\<lambda>tr. tr\<lparr>tk_signal_alert := i\<rparr>) p else p);
                  Some (fresh @ [i], p)
                }))"

definition detect_anomalies :: "timestamp \<Rightarrow> platform \<Rightarrow> platform option" where
  "detect_anomalies now p =
     do {
       (fresh, p) \<leftarrow> fold_opt (detect_one now) [0..<length (pf_tracked p)] ([], p);
       correlate fresh p
     }"

end
