(* ===== verification/Platform_Devices.thy ===== *)
theory Platform_Devices
  imports Platform_Fixes
begin

text \<open>
  The cohesion pass, the clock and the status of a user, and the devices that are offline, \<^verbatim>\<open>src/app/platform.cpp\<close>. An offline device
  holds a copy of the zones and an index that came as bytes, runs its own evaluator and queues what it sees; on reconnecting, the
  queue is merged by the reconciler and what is admitted is read back from its bytes.
\<close>

section \<open>The cohesion pass\<close>

definition cohesion_tracked :: "platform \<Rightarrow> group_record \<Rightarrow> tourist list" where
  "cohesion_tracked p g =
     concat (map (\<lambda>m. case (tracked_of p m, user_of p m) of
        (Some tr, Some usr) \<Rightarrow> if us_sharing usr \<and> tk_has_fix tr \<and> \<not> is_offline p m then [tk_tourist tr] else []
      | _ \<Rightarrow> []) (gr_members g))"

definition resolve_rejoined :: "nat \<Rightarrow> platform \<Rightarrow> alert_id \<Rightarrow> platform" where
  "resolve_rejoined gid p i =
     (if ar_group (pf_alerts p ! i) = gid \<and> alert_is_open (al_state (alert_at p i)) \<and>
         (al_kind (alert_at p i) = Triage.Straggler \<or> al_kind (alert_at p i) = Triage.GroupFragmented)
      then resolve_with_note i ''member rejoined'' kNoId p else p)"

definition cohesion_entry :: "nat \<Rightarrow> platform \<Rightarrow> cohesion_event \<Rightarrow> platform" where
  "cohesion_entry gid p ce =
     (let e = (blank_entry LgGroupSeparated (pf_now p))\<lparr>le_group := gid, le_user := ce_subject ce\<rparr> in
      if ce_kind ce = MemberRejoined
      then (let p = append_log (e\<lparr>le_kind := LgGroupRejoined, le_detail := ''group whole again''\<rparr>) p
            in foldl (resolve_rejoined gid) p [0..<length (pf_alerts p)])
      else if ce_kind ce \<noteq> StragglerDetected
      then append_log (e\<lparr>le_detail := (if ce_kind ce = GroupDispersed then ''dispersed'' else ''fragmented'') @ '' into '' @
             dec_string (component_count ce) @ '' components, worst '' @ int_string (trunc_real (separation_m ce)) @ '' m''\<rparr>) p
      else p)"

definition fix_pos_of :: "platform \<Rightarrow> nat \<Rightarrow> lat_lon option" where
  "fix_pos_of p u = map_option (\<lambda>tr. pos (last_fix (tk_tourist tr))) (tracked_of p u)"

text \<open>The first component with most members, and the mean of its positions.\<close>

definition largest_component :: "tourist_id list list \<Rightarrow> nat" where
  "largest_component comps = foldl (\<lambda>best i. if length (comps ! i) > length (comps ! best) then i else best) 0 [1..<length comps]"

definition component_centre :: "platform \<Rightarrow> tourist_id list \<Rightarrow> lat_lon option" where
  "component_centre p ids =
     map_option (\<lambda>ps. let (slat, slon) = foldl (\<lambda>(a, b) q. (a + lat q, b + lon q)) (0, 0) ps
                      in \<lparr>lat = slat / of_nat (length ids), lon = slon / of_nat (length ids)\<rparr>)
       (those (map (fix_pos_of p) ids))"

definition straggler_record :: "straggler list \<Rightarrow> nat \<Rightarrow> timestamp \<Rightarrow> straggler" where
  "straggler_record old sid now =
     foldl (\<lambda>s x. if sg_user x = sid then x else s) \<lparr>sg_user = sid, sg_since_ms = now, sg_separation_m = 0, sg_alerted = False\<rparr> old"

definition straggler_alert :: "platform \<Rightarrow> group_record \<Rightarrow> straggler \<Rightarrow> tracked \<Rightarrow> alert" where
  "straggler_alert p g s tr =
     (blank_alert Triage.Straggler)
       \<lparr>al_severity := 4, al_tourist := sg_user s, al_position := pos (last_fix (tk_tourist tr)),
        al_accuracy_m := accuracy_m (last_fix (tk_tourist tr)), al_raised_ms := pf_now p,
        al_note := int_string (trunc_real (sg_separation_m s)) @ '' m from '' @ gr_name g @ '' for '' @
          int_string (trunc_div (pf_now p - sg_since_ms s) 1000) @ '' s''\<rparr>"

definition straggler_step ::
  "group_record \<Rightarrow> nat \<Rightarrow> straggler list \<times> alert_id list \<times> platform \<Rightarrow> (straggler list \<times> alert_id list \<times> platform) option" where
  "straggler_step g sid st =
     (let (rest, fresh, p) = st in
      case tracked_of p sid of
        None \<Rightarrow> None
      | Some tr \<Rightarrow>
          (let s = (straggler_record (gr_stragglers g) sid (pf_now p))\<lparr>sg_separation_m := distance_m (gr_centre g) (pos (last_fix (tk_tourist tr)))\<rparr> in
           if \<not> sg_alerted s \<and> pf_now p - sg_since_ms s \<ge> confirm_ms (gr_cfg g)
           then
             (case user_of p sid of
                None \<Rightarrow> None
              | Some usr \<Rightarrow> do {
                  (i, p) \<leftarrow> raise_alert (straggler_alert p g s tr) (gr_id g) False (us_source usr) p;
                  Some (rest @ [s\<lparr>sg_alerted := True\<rparr>], fresh @ [i], p)
                })
           else Some (rest @ [s], fresh, p)))"

definition fragment_alert :: "platform \<Rightarrow> group_record \<Rightarrow> alert" where
  "fragment_alert p g =
     (blank_alert Triage.GroupFragmented)
       \<lparr>al_severity := 3, al_position := gr_centre g, al_raised_ms := pf_now p,
        al_note := gr_name g @ '' split into '' @ dec_string (gr_components g) @ '' parts''\<rparr>"

definition fragment_open :: "platform \<Rightarrow> nat \<Rightarrow> bool" where
  "fragment_open p gid \<longleftrightarrow>
     list_ex (\<lambda>r. ar_group r = gid \<and> al_kind (ar_alert r) = Triage.GroupFragmented \<and> alert_is_open (al_state (ar_alert r))) (pf_alerts p)"

text \<open>The observed state of a group after its monitor has been updated.\<close>

definition observe_group :: "platform \<Rightarrow> group_record \<Rightarrow> group_record option" where
  "observe_group p g =
     (let comps = observed_components (gr_monitor g); frag = fragmented (gr_monitor g) (gr_id g) in
      if comps = [] then None
      else map_option (\<lambda>c. g\<lparr>gr_components := length comps, gr_centre := c, gr_has_centre := True,
             gr_fragmented_since := (if frag \<and> \<not> gr_fragmented g then pf_now p else gr_fragmented_since g), gr_fragmented := frag\<rparr>)
           (component_centre p (comps ! largest_component comps)))"

definition cohesion_group :: "nat \<Rightarrow> alert_id list \<times> platform \<Rightarrow> (alert_id list \<times> platform) option" where
  "cohesion_group gi fp =
     (let (fresh, p) = fp; g = pf_groups p ! gi; ts = cohesion_tracked p g; g = g\<lparr>gr_tracked_members := length ts\<rparr> in
      if length ts < 2
      then Some (fresh, modify_group gi (\<lambda>_. g\<lparr>gr_components := length ts, gr_has_centre := ts \<noteq> [],
             gr_centre := (if ts \<noteq> [] then pos (last_fix (hd ts)) else gr_centre g), gr_stragglers := []\<rparr>) p)
      else do {
        (m, evs) \<leftarrow> cohesion_update ts (pf_now p) (gr_monitor g);
        let p = foldl (cohesion_entry (gr_id g)) p evs;
        g \<leftarrow> observe_group p (g\<lparr>gr_monitor := m\<rparr>);
        (rest, fresh, p) \<leftarrow> fold_opt (straggler_step g) (stragglers (gr_monitor g) (gr_id g)) ([], fresh, p);
        let g = g\<lparr>gr_stragglers := rest\<rparr>;
        let p = modify_group gi (\<lambda>_. g) p;
        if gr_fragmented g \<and> pf_now p - gr_fragmented_since g \<ge> confirm_ms (gr_cfg g) \<and> rest = [] \<and> \<not> fragment_open p (gr_id g)
        then do {
          (i, p) \<leftarrow> raise_alert (fragment_alert p g) (gr_id g) False (gr_source g) p;
          Some (fresh @ [i], p)
        }
        else Some (fresh, p)
      })"

definition run_cohesion :: "platform \<Rightarrow> platform option" where
  "run_cohesion p =
     do {
       (fresh, p) \<leftarrow> fold_opt cohesion_group [0..<length (pf_groups p)] ([], p);
       p \<leftarrow> correlate fresh p;
       Some (count_in (\<lambda>s. s\<lparr>ps_cohesion_passes := ps_cohesion_passes s + 1\<rparr>) p)
     }"

section \<open>The clock\<close>

definition tick :: "timestamp \<Rightarrow> platform \<Rightarrow> platform option" where
  "tick now p =
     (if now < pf_now p then Some p
      else do {
        p \<leftarrow> detect_anomalies now (p\<lparr>pf_now := now\<rparr>);
        p \<leftarrow> (if pf_now p \<ge> pf_next_cohesion p
             then map_option (\<lambda>p. p\<lparr>pf_next_cohesion := pf_now p + cf_cohesion_interval_ms (pf_cfg p)\<rparr>) (run_cohesion p) else Some p);
        let p = escalate (pf_now p) p;
        Some (if pf_now p \<ge> pf_next_retention p
              then (expire_warnings (pf_now p) (enforce_retention (pf_now p) p))\<lparr>pf_next_retention := pf_now p + 60000\<rparr> else p)
      })"

section \<open>The status of a user\<close>

record zone_status =
  zs_zone :: zone_id
  zs_state :: containment
  zs_distance_m :: "real option"

text \<open>Nearest first, the infinite distance last, then the id.\<close>

definition status_key :: "zone_status \<Rightarrow> nat \<times> real \<times> zone_id" where
  "status_key z = (case zs_distance_m z of None \<Rightarrow> (1, 0, zs_zone z) | Some d \<Rightarrow> (0, d, zs_zone z))"

definition confirmed_status :: "zone list \<Rightarrow> lat_lon \<Rightarrow> zone_state list \<Rightarrow> zone_status list" where
  "confirmed_status zones x sts =
     concat (map (\<lambda>st. case zs_get zones (zst_zone st) of
        None \<Rightarrow> []
      | Some z \<Rightarrow> if zst_confirmed st = Outside then []
                  else [\<lparr>zs_zone = zst_zone st, zs_state = zst_confirmed st, zs_distance_m = signed_distance_m (z_shape z) x\<rparr>]) sts)"

definition near_status :: "zone list \<Rightarrow> lat_lon \<Rightarrow> zone_status list \<Rightarrow> zone_id list \<Rightarrow> zone_status list" where
  "near_status zones x out cand =
     concat (map (\<lambda>i. case zs_get zones i of
        None \<Rightarrow> []
      | Some z \<Rightarrow> if z_synthetic z \<or> i \<in> zs_zone ` set out then []
                  else [\<lparr>zs_zone = i, zs_state = Outside, zs_distance_m = signed_distance_m (z_shape z) x\<rparr>]) cand)"

definition zone_status :: "nat \<Rightarrow> nat \<Rightarrow> platform \<Rightarrow> zone_status list \<times> platform" where
  "zone_status u nearest p =
     (case tracked_of p u of
        None \<Rightarrow> ([], p)
      | Some tr \<Rightarrow>
          if \<not> tk_has_fix tr then ([], p)
          else
            (let x = pos (last_fix (tk_tourist tr));
                 out = confirmed_status (pf_zones p) x (zone_states (tk_tourist tr));
                 (cand, ix) = rt_query (bb_around x 3000) [] (ev_index (pf_eval p));
                 near = near_status (pf_zones p) x out cand
             in (out @ take nearest (sort_key status_key near), on_index (\<lambda>_. ix) p)))"

definition inside_rank :: "zone_kind \<Rightarrow> nat" where
  "inside_rank k = (if k = Restricted then 5 else if k = Caution then 4 else 2)"

definition label_step :: "zone list \<Rightarrow> nat \<times> string \<Rightarrow> zone_state \<Rightarrow> nat \<times> string" where
  "label_step zones rw st =
     (let (rank, worst) = rw in
      case zs_get zones (zst_zone st) of
        None \<Rightarrow> (rank, worst)
      | Some z \<Rightarrow>
          if zst_confirmed st = Inside
          then (if inside_rank (z_kind z) > rank then (inside_rank (z_kind z), ''inside '' @ zone_kind_string (z_kind z)) else (rank, worst))
          else if zst_confirmed st = Uncertain \<and> rank < 3 then (3, ''uncertain'')
          else if zst_approach_reported st \<and> rank < 1 then (1, ''approaching'')
          else (rank, worst))"

definition status_label :: "nat \<Rightarrow> platform \<Rightarrow> string" where
  "status_label u p =
     (case user_of p u of
        None \<Rightarrow> ''staff''
      | Some usr \<Rightarrow>
          if us_role usr \<noteq> RTourist then ''staff''
          else if \<not> us_sharing usr then (if us_consent usr then ''not sharing'' else ''no consent'')
          else
            (case tracked_of p u of
               None \<Rightarrow> ''awaiting fix''
             | Some tr \<Rightarrow>
                 if \<not> tk_has_fix tr then ''awaiting fix''
                 else if tk_anomaly tr = AnSignalLost then ''no contact''
                 else
                   (let (rank, worst) = foldl (label_step (pf_zones p)) (0, ''clear'') (zone_states (tk_tourist tr));
                        (rank, worst) = (if list_ex (\<lambda>g. list_ex (\<lambda>s. sg_user s = u) (gr_stragglers g)) (pf_groups p) \<and> rank < 3
                                         then (3, ''separated'') else (rank, worst))
                    in if tk_anomaly tr = AnStationary \<and> rank < 3 then ''stationary'' else worst)))"

definition users_inside :: "zone_id \<Rightarrow> platform \<Rightarrow> nat" where
  "users_inside z p =
     length (filter (\<lambda>u. case pf_tracked p ! u of
        None \<Rightarrow> False
      | Some tr \<Rightarrow> us_sharing (pf_users p ! u) \<and>
          (case peek_state z (zone_states (tk_tourist tr)) of None \<Rightarrow> False | Some st \<Rightarrow> zst_confirmed st \<noteq> Outside))
       [0..<length (pf_tracked p)])"

section \<open>Going offline\<close>

definition kPayloadFix :: byte where "kPayloadFix = 1"
definition kPayloadEvent :: byte where "kPayloadEvent = 2"

definition put_f64 :: "machine \<Rightarrow> byte list \<Rightarrow> real \<Rightarrow> byte list" where
  "put_f64 mc b x = put_u64 b (mc_double_bits mc x)"

definition encode_fix :: "machine \<Rightarrow> uncertain_point \<Rightarrow> byte list" where
  "encode_fix mc f =
     (let b = put_u8 [] kPayloadFix; b = put_i64 b (t_ms f); b = put_f64 mc b (lat (pos f)); b = put_f64 mc b (lon (pos f))
      in put_f64 mc b (accuracy_m f))"

fun event_code :: "event_kind \<Rightarrow> byte" where
  "event_code EvZoneEnter = 0" | "event_code EvZoneExit = 1" | "event_code EvZoneUncertain = 2"
| "event_code EvZoneApproaching = 3" | "event_code EvDwellExceeded = 4"

fun containment_code :: "containment \<Rightarrow> byte" where
  "containment_code Outside = 0" | "containment_code Inside = 1" | "containment_code Uncertain = 2"

text \<open>The bits of the infinite distance.\<close>

definition infinity_bits :: "64 word" where
  "infinity_bits = 0x7FF0000000000000"

definition put_depth :: "machine \<Rightarrow> byte list \<Rightarrow> real option \<Rightarrow> byte list" where
  "put_depth mc b d = (case d of None \<Rightarrow> put_u64 b infinity_bits | Some x \<Rightarrow> put_f64 mc b x)"

definition encode_event :: "machine \<Rightarrow> event \<Rightarrow> byte list" where
  "encode_event mc ev =
     (let b = put_u8 [] kPayloadEvent; b = put_u8 b (event_code (ev_kind ev)); b = put_u32 b (of_nat (ev_zone ev));
          b = put_i64 b (ev_t_ms ev); b = put_depth mc b (ev_depth_m ev); b = put_f64 mc b (ev_accuracy_m ev);
          b = put_f64 mc b (ev_eta_s ev)
      in put_u8 b (containment_code (ev_containment ev)))"

definition device_index :: "machine \<Rightarrow> zone list \<Rightarrow> geohash" where
  "device_index mc zones =
     (let items = zone_items zones; server = gh_build items gh_new in
      case gh_deserialize (gh_serialize (mc_double_bits mc) server) gh_new of Some ix \<Rightarrow> ix | None \<Rightarrow> gh_build items gh_new)"

definition go_offline :: "principal \<Rightarrow> nat \<Rightarrow> int \<Rightarrow> platform \<Rightarrow> outcome \<times> platform" where
  "go_offline by' u skew p =
     (case user_of p u of
        None \<Rightarrow> (failed 404 ''no such user'', p)
      | Some usr \<Rightarrow>
          if \<not> is_self by' u then (failed 403 ''only the device's owner (or the simulator) can do this'', p)
          else if \<not> us_sharing usr then (failed 409 ''no active tracking session'', p)
          else if is_offline p u then (good u, p)
          else
            (let p = ensure_tracked u p;
                 d = \<lparr>da_user = u, da_queue = oq_new (of_nat (u + 1)), da_zones = pf_zones p,
                      da_eval = \<lparr>ev_index = device_index (pf_machine p) (pf_zones p), ev_counters = zero_counters\<rparr>,
                      da_tourist = tk_tourist (the (tracked_of p u)), da_skew_ms = skew, da_offline_since = pf_now p,
                      da_fixes = 0, da_last_fix_true_ms = 0\<rparr>;
                 p = p\<lparr>pf_devices := (resize_for u None (pf_devices p))[u := Some d]\<rparr>
             in (good u, modify_user u (\<lambda>x. x\<lparr>us_connected := False\<rparr>) p)))"

definition device_pending :: "nat \<Rightarrow> platform \<Rightarrow> nat" where
  "device_pending u p = (if is_offline p u then oq_pending (da_queue (the (pf_devices p ! u))) else 0)"

definition queue_events :: "machine \<Rightarrow> timestamp \<Rightarrow> event list \<Rightarrow> offline_queue \<Rightarrow> offline_queue" where
  "queue_events mc t evs q = foldl (\<lambda>q ev. snd (oq_append q (encode_event mc ev) t)) q evs"

definition device_observe :: "machine \<Rightarrow> platform_config \<Rightarrow> uncertain_point \<Rightarrow> timestamp \<Rightarrow> device_agent \<Rightarrow> event list \<times> device_agent" where
  "device_observe mc cfg f true_t d =
     (let t = (da_tourist d)\<lparr>last_fix := f, pings := cb_push (pings (da_tourist d)) (ping_default\<lparr>pg_fix := f\<rparr>)\<rparr>;
          (t, e, evs) = evaluate (cf_eval cfg) gh_ops (da_zones d) (t_ms f) t (da_eval d);
          q = queue_events mc (t_ms f) evs (snd (oq_append (da_queue d) (encode_fix mc f) (t_ms f)))
      in (evs, d\<lparr>da_tourist := t, da_eval := e, da_queue := q, da_fixes := da_fixes d + 1, da_last_fix_true_ms := true_t\<rparr>))"

definition device_fix :: "nat \<Rightarrow> fix_input \<Rightarrow> platform \<Rightarrow> fix_result \<times> platform" where
  "device_fix u i p =
     (if \<not> is_offline p u then (fix_refused FxInvalid ''device is online'', p)
      else
        (let d = the (pf_devices p ! u); true_t = (if fi_t_ms i < 0 then pf_now p else fi_t_ms i);
             f = \<lparr>pos = \<lparr>lat = fi_lat i, lon = fi_lon i\<rparr>, accuracy_m = fi_accuracy_m i, t_ms = true_t + da_skew_ms d\<rparr>
         in if \<not> ll_valid (pos f) \<or> \<not> accuracy_m f > 0 then (fix_refused FxInvalid [], p)
            else
              (let (evs, d) = device_observe (pf_machine p) (pf_cfg p) f true_t d
               in (\<lparr>fr_status = FxAccepted, fr_reason = [], fr_events = length evs, fr_jump = False\<rparr>,
                   p\<lparr>pf_devices := (pf_devices p)[u := Some d]\<rparr>))))"

section \<open>Reconnecting\<close>

record sync_report =
  sr_uploaded :: nat
  sr_admitted :: nat
  sr_duplicates :: nat
  sr_reordered :: nat
  sr_estimated_skew_ms :: int
  sr_alerts_raised :: nat

definition report_empty :: sync_report where
  "report_empty = \<lparr>sr_uploaded = 0, sr_admitted = 0, sr_duplicates = 0, sr_reordered = 0, sr_estimated_skew_ms = 0, sr_alerts_raised = 0\<rparr>"

text \<open>The batch is sent again; what is counted is what the reconciler turns away.\<close>

fun resend :: "nat \<Rightarrow> stamped_event list \<Rightarrow> nat \<times> reconciler \<Rightarrow> (nat \<times> reconciler) option" where
  "resend 0 batch st = Some st"
| "resend (Suc n) batch st =
     (case rc_merge batch (snd st) of
        None \<Rightarrow> None
      | Some (k, admitted, rc) \<Rightarrow>
          resend n batch (fst st + (duplicates_rejected (rc_stats rc) - duplicates_rejected (rc_stats (snd st))), rc))"

text \<open>A payload read back; a double that is not finite is only ever a depth.\<close>

definition read_fix :: "reader \<Rightarrow> (timestamp \<times> lat_lon \<times> real) option" where
  "read_fix r =
     do {
       (t, r) \<leftarrow> rd_i64 r;
       (a, r) \<leftarrow> rd_finite r;
       (b, r) \<leftarrow> rd_finite r;
       (acc, r) \<leftarrow> rd_finite r;
       Some (t, \<lparr>lat = a, lon = b\<rparr>, acc)
     }"

definition kind_of_code :: "byte \<Rightarrow> event_kind" where
  "kind_of_code b =
     (if b = 0 then EvZoneEnter else if b = 1 then EvZoneExit else if b = 2 then EvZoneUncertain
      else if b = 3 then EvZoneApproaching else EvDwellExceeded)"

definition containment_of_code :: "byte \<Rightarrow> containment" where
  "containment_of_code b = (if b = 1 then Inside else if b = 2 then Uncertain else Outside)"

definition read_device_event :: "nat \<Rightarrow> int \<Rightarrow> reader \<Rightarrow> event option" where
  "read_device_event u skew r =
     do {
       (k, r) \<leftarrow> rd_u8 r;
       (z, r) \<leftarrow> rd_u32 r;
       (t, r) \<leftarrow> rd_i64 r;
       (depth, r) \<leftarrow> rd_f64 r;
       (acc, r) \<leftarrow> rd_finite r;
       (eta, r) \<leftarrow> rd_finite r;
       (c, r) \<leftarrow> rd_u8 r;
       if k > event_code EvDwellExceeded then None
       else Some \<lparr>ev_kind = kind_of_code k, ev_tourist = u, ev_zone = unat z, ev_t_ms = t - skew, ev_depth_m = depth,
              ev_accuracy_m = acc, ev_eta_s = eta, ev_containment = containment_of_code c\<rparr>
     }"

definition sync_fix :: "nat \<Rightarrow> timestamp \<Rightarrow> lat_lon \<Rightarrow> real \<Rightarrow> platform \<Rightarrow> platform" where
  "sync_fix u t x acc p =
     modify_tracked u (\<lambda>tr. tr\<lparr>tk_trail := trail_insert \<lparr>tp_t_ms = t, tp_pos = x, tp_accuracy_m = acc, tp_flags = kTrailSynced,
         tp_recorded_ms = pf_now p\<rparr> (tk_trail tr), tk_fixes_sent := tk_fixes_sent tr + 1\<rparr>) p"

text \<open>One admitted event; the latest time of a fix is carried along.\<close>

definition admit_event :: "nat \<Rightarrow> int \<Rightarrow> stamped_event \<Rightarrow> timestamp \<times> platform \<Rightarrow> (timestamp \<times> platform) option" where
  "admit_event u skew se st =
     (let (last_t, p) = st in
      case rd_u8 (reader_of (payload se)) of
        None \<Rightarrow> Some (last_t, p)
      | Some (kind, r) \<Rightarrow>
          (let p = p\<lparr>pf_clock := lc_observe (lc_counter (ev_stamp se)) (pf_clock p)\<rparr> in
           if kind = kPayloadFix
           then (case read_fix r of
                   None \<Rightarrow> Some (last_t, p)
                 | Some (t, x, acc) \<Rightarrow> Some (max last_t (t - skew), sync_fix u (t - skew) x acc p))
           else if kind = kPayloadEvent
           then (case read_device_event u skew r of
                   None \<Rightarrow> Some (last_t, p)
                 | Some ev \<Rightarrow> map_option (Pair last_t) (apply_events u [ev] True (pf_now p) (Some (ev_stamp se)) p))
           else Some (last_t, p)))"

definition rebase_pings :: "int \<Rightarrow> ping circular_buffer \<Rightarrow> ping circular_buffer" where
  "rebase_pings skew b =
     foldl (\<lambda>b g. cb_push b (g\<lparr>pg_fix := (pg_fix g)\<lparr>t_ms := t_ms (pg_fix g) - skew\<rparr>\<rparr>)) (cb_clear b)
       (map (cb_get b) (rev [0..<cb_count b]))"

definition adopt_tourist :: "int \<Rightarrow> tourist \<Rightarrow> tourist" where
  "adopt_tourist skew t =
     t\<lparr>zone_states := map (\<lambda>st. st\<lparr>zst_entered_ms := zst_entered_ms st - skew\<rparr>) (zone_states t),
       pings := rebase_pings skew (pings t), last_fix := (last_fix t)\<lparr>t_ms := t_ms (last_fix t) - skew\<rparr>\<rparr>"

definition reconnect :: "principal \<Rightarrow> nat \<Rightarrow> nat \<Rightarrow> platform \<Rightarrow> (outcome \<times> sync_report \<times> platform) option" where
  "reconnect by' u retries p =
     (if \<not> is_self by' u then Some (failed 403 ''not allowed'', report_empty, p)
      else if \<not> is_offline p u then Some (failed 409 ''device is not offline'', report_empty, p)
      else
        (let d = the (pf_devices p ! u);
             p = modify_user u (\<lambda>x. x\<lparr>us_connected := True\<rparr>) (drop_device u p);
             skew = pf_now p + da_skew_ms d - pf_now p;
             batch = fst (oq_drain (da_queue d))
         in do {
           (n, admitted, rc) \<leftarrow> rc_merge batch (pf_reconciler p);
           (dups, rc) \<leftarrow> resend retries batch (0, rc);
           let p = append_log ((blank_entry LgDeviceOffline (da_offline_since d))\<lparr>le_user := u, le_late := True, le_detail := ''learned on reconnect''\<rparr>)
                     (p\<lparr>pf_reconciler := rc\<rparr>);
           let p = ensure_tracked u p;
           let before = length (pf_alerts p);
           (last_t, p) \<leftarrow> fold_opt (admit_event u skew) admitted (tk_last_fix_ms (the (tracked_of p u)), p);
           let rep = \<lparr>sr_uploaded = length batch, sr_admitted = n, sr_duplicates = dups, sr_reordered = reordered (rc_stats rc),
                      sr_estimated_skew_ms = skew, sr_alerts_raised = length (pf_alerts p) - before\<rparr>;
           let p = modify_tracked u (\<lambda>tr. tr\<lparr>tk_tourist := adopt_tourist skew (da_tourist d), tk_has_fix := True, tk_last_fix_ms := last_t, tk_last_seq := 0\<rparr>) p;
           let p = close_signal_alert u ''device reconnected'' p;
           let p = modify_tracked u (\<lambda>tr. tr\<lparr>tk_signal_alert := kNoId, tk_anomaly := NoAnomaly, tk_anomaly_raw := NoAnomaly, tk_anomaly_raw_since := pf_now p\<rparr>) p;
           let p = append_log ((blank_entry LgDeviceReconnected (pf_now p))\<lparr>le_user := u, le_detail := ''clock skew '' @ int_string (trunc_div skew 1000) @ '' s''\<rparr>) p;
           let p = append_log ((blank_entry LgSyncMerged (pf_now p))\<lparr>le_user := u,
                     le_detail := dec_string (sr_uploaded rep) @ '' uploaded, '' @ dec_string n @ '' admitted, '' @ dec_string dups @
                       '' duplicates rejected, '' @ dec_string (sr_alerts_raised rep) @ '' alerts raised late''\<rparr>) p;
           Some (good u, rep, p)
         }))"

end
