(* ===== verification/Platform_Commands.thy ===== *)
theory Platform_Commands
  imports Platform_Devices
begin

text \<open>
  The platform as a state machine: a step is one public operation of \<^verbatim>\<open>app::Platform\<close> that can change its state, with any
  arguments, and returning. The reachable states are those that steps lead to from a new platform.
\<close>

inductive platform_step :: "platform \<Rightarrow> platform \<Rightarrow> bool" where
  step_create_user: "create_user salt by' n d r pw src p = Some (out, q) \<Longrightarrow> platform_step p q"
| step_authenticate: "authenticate salt n pw p = Some (out, q) \<Longrightarrow> platform_step p q"
| step_set_password: "set_password salt by' u pw p = Some (out, q) \<Longrightarrow> platform_step p q"
| step_set_active: "set_active by' u a p = (out, q) \<Longrightarrow> platform_step p q"
| step_set_display_name: "set_display_name by' u n p = (out, q) \<Longrightarrow> platform_step p q"
| step_set_consent: "set_consent by' u c p = (out, q) \<Longrightarrow> platform_step p q"
| step_start_sharing: "start_sharing by' u p = (out, q) \<Longrightarrow> platform_step p q"
| step_stop_sharing: "stop_sharing by' u p = (out, q) \<Longrightarrow> platform_step p q"
| step_set_battery_aware: "set_battery_aware by' u b p = (out, q) \<Longrightarrow> platform_step p q"
| step_erase_history: "erase_history by' u p = (out, q) \<Longrightarrow> platform_step p q"
| step_ingest_fix: "ingest_fix by' u i p = Some (out, q) \<Longrightarrow> platform_step p q"
| step_audit_access: "audit_access by' u what a p = q \<Longrightarrow> platform_step p q"
| step_zone_status: "zone_status u n p = (out, q) \<Longrightarrow> platform_step p q"
| step_create_group: "create_group by' n src p = (out, q) \<Longrightarrow> platform_step p q"
| step_add_member: "add_member by' g u p = (out, q) \<Longrightarrow> platform_step p q"
| step_remove_member: "remove_member by' g u p = (out, q) \<Longrightarrow> platform_step p q"
| step_set_group_thresholds: "set_group_thresholds by' g a b c p = (out, q) \<Longrightarrow> platform_step p q"
| step_run_cohesion: "run_cohesion p = Some q \<Longrightarrow> platform_step p q"
| step_create_zone: "create_zone by' i src p = (out, q) \<Longrightarrow> platform_step p q"
| step_update_zone: "update_zone by' n i p = (out, q) \<Longrightarrow> platform_step p q"
| step_delete_zone: "delete_zone by' n p = (out, q) \<Longrightarrow> platform_step p q"
| step_set_zone_validity: "set_zone_validity by' n f t p = (out, q) \<Longrightarrow> platform_step p q"
| step_set_zone_dwell: "set_zone_dwell by' n s p = (out, q) \<Longrightarrow> platform_step p q"
| step_import_geojson: "import_geojson by' txt p = (out, n, q) \<Longrightarrow> platform_step p q"
| step_acknowledge_alert: "acknowledge_alert by' a p = (out, q) \<Longrightarrow> platform_step p q"
| step_resolve_alert: "resolve_alert by' a d p = (out, q) \<Longrightarrow> platform_step p q"
| step_raise_sos: "raise_sos by' u p = Some (out, q) \<Longrightarrow> platform_step p q"
| step_acknowledge_incident: "acknowledge_incident by' i p = (out, q) \<Longrightarrow> platform_step p q"
| step_assign_incident: "assign_incident by' i r p = Some (out, q) \<Longrightarrow> platform_step p q"
| step_resolve_incident: "resolve_incident by' i n p = Some (out, q) \<Longrightarrow> platform_step p q"
| step_plan_dispatch: "plan_dispatch by' a p = Some (out, q) \<Longrightarrow> platform_step p q"
| step_create_responder: "create_responder by' n t x src acc p = Some (out, q) \<Longrightarrow> platform_step p q"
| step_set_responder_available: "set_responder_available by' r a p = Some (out, q) \<Longrightarrow> platform_step p q"
| step_set_responder_position: "set_responder_position by' r x p = (out, q) \<Longrightarrow> platform_step p q"
| step_route_between: "route_between a b p = Some (out, q) \<Longrightarrow> platform_step p q"
| step_go_offline: "go_offline by' u s p = (out, q) \<Longrightarrow> platform_step p q"
| step_device_fix: "device_fix u i p = (out, q) \<Longrightarrow> platform_step p q"
| step_reconnect: "reconnect by' u n p = Some (out, rpt, q) \<Longrightarrow> platform_step p q"
| step_tick: "tick t p = Some q \<Longrightarrow> platform_step p q"
| step_load_zones: "load_zones_file path f p = (out, q) \<Longrightarrow> platform_step p q"
| step_load_roads: "load_roads_file r p = (out, q) \<Longrightarrow> platform_step p q"
| step_grid_roads: "use_grid_roads r c p = q \<Longrightarrow> platform_step p q"

text \<open>The 32-bit ids in use have not run out.\<close>

definition ids_fit :: "platform \<Rightarrow> bool" where
  "ids_fit p \<longleftrightarrow> length (pf_users p) < kNoId \<and> length (pf_groups p) < kNoId \<and> length (pf_zones p) < kNoId \<and>
     length (pf_alerts p) < kNoId \<and> length (pf_cases p) < kNoId \<and> length (pf_pool p) < kNoId"

inductive runs_to :: "platform \<Rightarrow> platform \<Rightarrow> bool" for p where
  runs_here: "runs_to p p"
| runs_step: "runs_to p q \<Longrightarrow> platform_step q r \<Longrightarrow> ids_fit r \<Longrightarrow> runs_to p r"

definition reachable :: "platform \<Rightarrow> bool" where
  "reachable p \<longleftrightarrow> (\<exists>mc cfg. runs_to (platform_new mc cfg) p)"

lemma runs_trans: "runs_to p q \<Longrightarrow> runs_to q r \<Longrightarrow> runs_to p r"
  by (rotate_tac, induction rule: runs_to.induct) (auto intro: runs_to.intros)

lemma reachable_runs: "reachable p \<Longrightarrow> runs_to p q \<Longrightarrow> reachable q"
  unfolding reachable_def by (blast intro: runs_trans)

text \<open>What holds of a new platform and is kept by every step holds of every reachable one.\<close>

lemma reachable_induct [consumes 1, case_names new step]:
  assumes "reachable p"
    and "\<And>mc cfg. P (platform_new mc cfg)"
    and "\<And>p q. P p \<Longrightarrow> platform_step p q \<Longrightarrow> ids_fit q \<Longrightarrow> P q"
  shows "P p"
proof -
  have "runs_to p0 p \<Longrightarrow> P p0 \<Longrightarrow> P p" for p0 by (induction rule: runs_to.induct) (use assms(3) in blast)+
  then show ?thesis using assms(1,2) unfolding reachable_def by blast
qed

text \<open>A platform on some machine, and its first group, for concrete runs.\<close>

definition blank_platform :: platform where
  "blank_platform = platform_new \<lparr>mc_double_bits = \<lambda>_. 0, mc_round_infinite = 0\<rparr> platform_config_default"

definition first_group :: platform where
  "first_group = snd (create_group principal_sys ''north'' SrcApi blank_platform)"

lemma first_group_runs: "runs_to blank_platform first_group" "length (pf_log first_group) = 1"
proof -
  have q: "length (pf_log first_group) = 1 \<and> ids_fit first_group"
    by (simp add: first_group_def create_group_def is_staff_def principal_sys_def valid_label_def append_log_def Let_def split_def
        ids_fit_def blank_platform_def platform_new_def kNoId_def)
  have "platform_step blank_platform first_group" by (rule step_create_group) (simp add: first_group_def prod_eq_iff)
  then show "runs_to blank_platform first_group" "length (pf_log first_group) = 1" using q by (auto intro: runs_to.intros)
qed

lemma blank_reachable: "reachable blank_platform"
  unfolding reachable_def blank_platform_def by (blast intro: runs_here)

end
