(* ===== verification/Platform_Frames.thy ===== *)
theory Platform_Frames
  imports Platform_Commands
begin

text \<open>
  What the operations of the platform have in common: they are made of a few kinds of writes. A relation between platforms that is
  a preorder and admits each kind of write admits every operation, and so every step. The locales say this layer by layer, for the
  alerts, for the incidents behind them and for the whole platform; the invariants of the platform are interpretations.
\<close>

fun alert_rank :: "alert_state \<Rightarrow> nat" where
  "alert_rank AlertOpen = 0" | "alert_rank Triage.Acknowledged = 1" | "alert_rank Triage.Dispatched = 2"
| "alert_rank Resolved = 3" | "alert_rank Dismissed = 3"

lemma open_rank: "alert_is_open s \<longleftrightarrow> alert_rank s < 3"
  by (cases s) (simp_all add: alert_is_open_def)

lemma modify_alert_out: "\<not> i < length (pf_alerts p) \<Longrightarrow> modify_alert i f p = p"
  by (cases p) (simp add: modify_alert_def list_update_beyond)

lemma nth_update_out: "\<not> i < length xs \<Longrightarrow> xs[i := x] ! j = xs ! j"
  by (simp add: list_update_beyond)

lemma nth_kept: "(\<And>r. g (f r) = g r) \<Longrightarrow> g (xs[i := f (xs ! i)] ! a) = g (xs ! a)"
  by (cases "i < length xs"; cases "a = i") (simp_all add: nth_update_out)

text \<open>The writes that touch only the field they name.\<close>

lemmas plain_writes = count_in_def set_active_flag_def modify_tracked_def file_alert_def Let_def modify_alert_def note_alert_def
  modify_case_def note_recommended_def modify_responder_def modify_rinfo_def modify_user_def modify_group_def ensure_tracked_def
  enforce_retention_def on_index_def

locale alert_layer =
  fixes R :: "platform \<Rightarrow> platform \<Rightarrow> bool"
  assumes refl: "R p p"
    and trans: "R p q \<Longrightarrow> R q r \<Longrightarrow> R p r"
    and logging: "R p (append_log e p)"
    and counting: "R p (count_in f p)"
    and escalation: "R p (p\<lparr>pf_escalation := esc\<rparr>)"
    and flagging: "R p (set_active_flag u b p)"
    and filing: "R p (file_alert u i p)"
    and raising: "R p (p\<lparr>pf_alerts := pf_alerts p @
      [new_alert_record (a\<lparr>al_id := uint32_of (length (pf_alerts p)), al_state := AlertOpen\<rparr>) g late src (pf_now p)]\<rparr>)"
    and changing: "i < length (pf_alerts p) \<Longrightarrow> alert_rank (al_state (alert_at p i)) < alert_rank s \<Longrightarrow>
      R p (modify_alert i (change_alert s w (pf_now p)) p)"
    and noting: "i < length (pf_alerts p) \<Longrightarrow> R p (note_alert i why p)"
    and severity: "i < length (pf_alerts p) \<Longrightarrow> al_state (alert_at p i) = AlertOpen \<Longrightarrow> R p (modify_alert i raise_severity p)"
    and tagging: "i < length (pf_alerts p) \<Longrightarrow> al_incident (alert_at p i) = kNoId \<Longrightarrow> R p (modify_alert i (tag_record c) p)"
begin

lemma logging': "R p q \<Longrightarrow> R p (append_log e q)"
  by (rule trans [OF _ logging])

lemma counting': "R p q \<Longrightarrow> R p (count_in f q)"
  by (rule trans [OF _ counting])

lemma escalation': "R p q \<Longrightarrow> R p (q\<lparr>pf_escalation := esc\<rparr>)"
  by (rule trans [OF _ escalation])

lemma flagging': "R p q \<Longrightarrow> R p (set_active_flag u b q)"
  by (rule trans [OF _ flagging])

lemma noting': "R p q \<Longrightarrow> R p (note_alert i why q)"
  by (cases "i < length (pf_alerts q)") (erule trans [OF _ noting], simp_all add: note_alert_def modify_alert_out)

lemmas alert_writes = logging' counting' escalation' flagging' noting'

lemma if_rel: "(b \<Longrightarrow> R p q) \<Longrightarrow> (\<not> b \<Longrightarrow> R p r) \<Longrightarrow> R p (if b then q else r)"
  by simp

lemma foldl_rel: "R p q \<Longrightarrow> (\<And>x q. R q (f q x)) \<Longrightarrow> R p (foldl f q xs)"
proof (induction xs arbitrary: q)
  case (Cons x xs)
  have "R p (f q x)" using Cons.prems(2) by (rule trans [OF Cons.prems(1)])
  then show ?case using Cons.IH Cons.prems(2) by simp
qed simp

lemma fold_opt_rel: "fold_opt f xs q = Some r \<Longrightarrow> (\<And>x q r. f x q = Some r \<Longrightarrow> R q r) \<Longrightarrow> R q r"
proof (induction xs arbitrary: q)
  case (Cons x xs)
  then obtain m where "f x q = Some m" "fold_opt f xs m = Some r" by (auto simp: bind_eq_Some_conv)
  then show ?case using Cons.IH Cons.prems(2) trans by blast
qed (simp add: refl)

lemma store_rel: "store_alert a g late src p = (r, q) \<Longrightarrow> R p q"
  by (auto simp: store_alert_def Let_def split: if_splits intro: raising trans [OF raising filing])

lemma raise_rel: "raise_alert a g late src p = Some (i, q) \<Longrightarrow> R p q"
  by (auto simp: raise_alert_def Let_def bind_eq_Some_conv split: prod.splits intro!: alert_writes dest!: store_rel)

lemma set_state_rel:
  assumes "alert_rank (al_state (alert_at p i)) < alert_rank s \<or> al_state (alert_at p i) = s"
  shows "R p (set_alert_state i s w p)"
proof (cases "al_state (alert_at p i) = s")
  case True
  then show ?thesis by (simp add: set_alert_state_def refl)
next
  case False
  have "R p (modify_alert i (change_alert s w (pf_now p)) p)"
  proof (cases "i < length (pf_alerts p)")
    case True
    then show ?thesis using False assms by (intro changing) auto
  next
    case out: False
    then show ?thesis by (simp add: modify_alert_out refl)
  qed
  then show ?thesis using False by (simp add: set_alert_state_def Let_def if_rel alert_writes)
qed

lemma note_state: "al_state (alert_at (note_alert i why p) j) = al_state (alert_at p j)"
  by (cases "i < length (pf_alerts p)") (simp_all add: note_alert_def modify_alert_def alert_at_def nth_list_update list_update_beyond)

lemma resolve_rel: "alert_is_open (al_state (alert_at p i)) \<Longrightarrow> R p (resolve_with_note i why w p)"
  unfolding resolve_with_note_def
  by (rule trans [OF noting' [OF refl] set_state_rel]) (simp add: note_state open_rank)

lemma settle_rel: "R p (settle_warnings u z why p)"
  unfolding settle_warnings_def by (rule foldl_rel [OF refl]) (auto simp: settle_one_def refl intro: resolve_rel)

lemma expire_rel: "R p (expire_warnings now p)"
  unfolding expire_warnings_def
  by (rule foldl_rel [OF refl]) (auto simp: expire_one_def refl alert_is_open_def intro!: resolve_rel)

lemma escalate_rel: "R p (escalate now p)"
proof -
  have "R q (escalate_one now q i)" for q i
    by (auto simp: escalate_one_def Let_def refl intro!: logging' counting' severity)
  then show ?thesis unfolding escalate_def by (auto split: prod.splits intro!: foldl_rel escalation' refl)
qed

lemma move_rel:
  assumes "\<And>a p. a < length (pf_alerts p) \<Longrightarrow> sts (al_state (alert_at p a)) \<Longrightarrow> R p (f a p)"
  shows "R p (move_alerts sts f as p)"
  unfolding move_alerts_def by (rule foldl_rel [OF refl]) (auto simp: refl assms)

lemma dispatched_rel: "R p (move_alerts alert_is_open (\<lambda>a. set_alert_state a Triage.Dispatched w) as p)"
proof (rule move_rel)
  fix a p assume "alert_is_open (al_state (alert_at p a))"
  then show "R p (set_alert_state a Triage.Dispatched w p)" by (intro set_state_rel) (cases "al_state (alert_at p a)"; simp add: alert_is_open_def)
qed

lemma acknowledged_rel: "R p (move_alerts (\<lambda>s. s = AlertOpen) (\<lambda>a. set_alert_state a Triage.Acknowledged w) as p)"
  by (rule move_rel, rule set_state_rel) simp

lemma resolved_rel: "R p (move_alerts alert_is_open (\<lambda>a. resolve_with_note a why w) as p)"
  by (rule move_rel, rule resolve_rel)

lemma acknowledge_alert_rel: "acknowledge_alert w a p = (out, q) \<Longrightarrow> R p q"
  by (auto simp: acknowledge_alert_def refl split: if_splits intro!: set_state_rel)

lemma resolve_alert_rel: "resolve_alert w a d p = (out, q) \<Longrightarrow> R p q"
  by (auto simp: resolve_alert_def refl open_rank split: if_splits intro!: set_state_rel)

lemma close_signal_rel: "R p q \<Longrightarrow> R p (close_signal_alert u why q)"
  by (auto simp: close_signal_alert_def split: option.splits intro: trans [OF _ resolve_rel])

text \<open>What the cohesion pass writes before a group is put back.\<close>

lemma cohesion_entry_rel: "R p (cohesion_entry g p ce)"
proof -
  have "R q (resolve_rejoined g q i)" for q i by (auto simp: resolve_rejoined_def refl intro: resolve_rel)
  then show ?thesis by (auto simp: cohesion_entry_def Let_def refl intro!: logging foldl_rel)
qed

lemma straggler_step_rel:
  assumes "straggler_step g sid (rest, fresh, p) = Some (rest', fresh', q)"
  shows "R p q"
  using assms by (auto simp: straggler_step_def Let_def split_def bind_eq_Some_conv refl split: if_splits option.splits intro: raise_rel)

lemma stragglers_rel: "fold_opt (straggler_step g) xs (rest, fresh, p) = Some (rest', fresh', q) \<Longrightarrow> R p q"
proof (induction xs arbitrary: rest fresh p)
  case (Cons x xs)
  then obtain a b m where "straggler_step g x (rest, fresh, p) = Some (a, b, m)" "fold_opt (straggler_step g) xs (a, b, m) = Some (rest', fresh', q)"
    by (auto simp: bind_eq_Some_conv)
  then show ?case using Cons.IH straggler_step_rel trans by blast
qed (simp add: refl)

lemma raise_after: "raise_alert a g late src q = Some (i, r) \<Longrightarrow> R p q \<Longrightarrow> R p r"
  by (rule trans [OF _ raise_rel])

lemma stragglers_after: "fold_opt (straggler_step g) xs (rest, fresh, q) = Some (rest', fresh', r) \<Longrightarrow> R p q \<Longrightarrow> R p r"
  by (rule trans [OF _ stragglers_rel])

end

section \<open>Incidents\<close>

locale case_reads = alert_layer +
  assumes roads: "R p (p\<lparr>pf_roads := g\<rparr>)"
    and recommending: "R p (note_recommended i w m p)"
begin

lemma roads': "R p q \<Longrightarrow> R p (q\<lparr>pf_roads := g\<rparr>)"
  by (rule trans [OF _ roads])

lemma recommending': "R p q \<Longrightarrow> R p (note_recommended i w m q)"
  by (rule trans [OF _ recommending])

lemma recommend_rel: "recommend i p = Some q \<Longrightarrow> R p q"
  by (auto simp: recommend_def Let_def split_def bind_eq_Some_conv split: option.splits if_splits intro!: roads' recommending' refl)

lemma recommend_where_rel: "recommend_where P p = Some q \<Longrightarrow> R p q"
  unfolding recommend_where_def by (erule fold_opt_rel) (auto split: if_splits intro: recommend_rel refl)

lemma recommended: "recommend_where P q = Some r \<Longrightarrow> R p q \<Longrightarrow> R p r"
  by (rule trans [OF _ recommend_where_rel])

lemma route_rel: "route_between a b p = Some (ro, q) \<Longrightarrow> R p q"
  by (auto simp: route_between_def Let_def bind_eq_Some_conv split: if_splits prod.splits intro!: roads' refl)

lemma route_after: "route_between a b q = Some (ro, r) \<Longrightarrow> R p q \<Longrightarrow> R p r"
  by (rule trans [OF _ route_rel])

end

locale case_layer = case_reads +
  assumes correlating: "R p (p\<lparr>pf_corr := c\<rparr>)"
    and new_casing: "length (pf_cases p) \<le> i \<Longrightarrow> R p (new_case i p)"
    and assigning: "assign_incident by' i r p = Some (out, q) \<Longrightarrow> R p q"
begin

lemma tag_rel: "R p (foldl (tag_alert i) p as)"
  by (rule foldl_rel [OF refl]) (auto simp: tag_alert_def refl intro: tagging)

lemma touched_rel:
  assumes "after_incident_touched i p = Some q"
  shows "R p q"
proof (cases "get_incident (pf_corr p) i")
  case None
  then show ?thesis using assms by (simp add: after_incident_touched_def refl)
next
  case (Some inc)
  define p' where "p' = foldl (tag_alert i) p (ic_alerts inc)"
  have p': "R p p'" unfolding p'_def by (rule tag_rel)
  show ?thesis
  proof (cases "length (pf_cases p') \<le> i")
    case True
    obtain p1 where r: "recommend i (open_case i inc p') = Some p1"
      and q: "(if cf_auto_dispatch (pf_cfg p1) \<and> cs_recommended (pf_cases p1 ! i) \<noteq> kNoId
             then map_option snd (assign_incident principal_sys i (cs_recommended (pf_cases p1 ! i)) p1) else Some p1) = Some q"
      using assms Some True by (auto simp: after_incident_touched_def Let_def p'_def [symmetric] bind_eq_Some_conv)
    have "R p' (open_case i inc p')" unfolding open_case_def by (intro logging' new_casing True)
    moreover have "R p1 q" using q by (auto split: if_splits intro: assigning refl)
    ultimately show ?thesis using p' recommend_rel [OF r] trans by blast
  next
    case False
    then show ?thesis using assms Some p'
      by (auto simp: after_incident_touched_def Let_def p'_def [symmetric] split: if_splits intro!: logging' intro: trans [OF logging' recommend_rel])
  qed
qed

lemma correlate_rel: "correlate fresh p = Some q \<Longrightarrow> R p q"
  by (auto simp: correlate_def Let_def bind_eq_Some_conv refl split: if_splits
      intro: trans [OF correlating fold_opt_rel [OF _ touched_rel]])

lemma sos_rel: "raise_sos w u p = Some (out, q) \<Longrightarrow> R p q"
  by (auto simp: raise_sos_def bind_eq_Some_conv refl split: if_splits option.splits prod.splits intro: trans [OF raise_rel correlate_rel])

lemma snap_rel: "snap_position x p = (n, q) \<Longrightarrow> R p q"
  by (auto simp: snap_position_def Let_def refl split: if_splits prod.splits intro: roads)

lemma plan_rel: "plan_dispatch w b p = Some (s, q) \<Longrightarrow> R p q"
proof -
  have apply_rel: "apply_dispatch w d p = Some q \<Longrightarrow> R p q" for d p q
    by (auto simp: apply_dispatch_def refl split: if_splits intro: assigning)
  have "R p q" if "(if b then fold_opt (apply_dispatch w) ds (p\<lparr>pf_roads := g\<rparr>) else Some (p\<lparr>pf_roads := g\<rparr>)) = Some q" for ds g
    using that by (auto split: if_splits intro: trans [OF roads fold_opt_rel [OF _ apply_rel]] roads)
  then show "plan_dispatch w b p = Some (s, q) \<Longrightarrow> R p q"
    by (auto simp: plan_dispatch_def Let_def bind_eq_Some_conv refl roads split: if_splits prod.splits)
qed

lemma event_entry_rel: "R p (event_entry u late t st ev p)"
  unfolding event_entry_def by (intro logging' counting)

lemma apply_event_rel:
  assumes "apply_event u late t st ev (fresh, p) = Some (fresh', q)"
  shows "R p q"
proof -
  have e: "R p (event_entry u late t st ev p)" by (rule event_entry_rel)
  have s: "R p (settle_warnings u z why (event_entry u late t st ev p))" for z why by (rule trans [OF e settle_rel])
  show ?thesis using assms
    by (auto simp: apply_event_def Let_def bind_eq_Some_conv split: if_splits intro: e s trans [OF e raise_rel] trans [OF s raise_rel])
qed

lemma fold_pair_rel: "fold_opt f xs (a, q) = Some (b, r) \<Longrightarrow> (\<And>x a q b r. f x (a, q) = Some (b, r) \<Longrightarrow> R q r) \<Longrightarrow> R q r"
proof (induction xs arbitrary: a q)
  case (Cons x xs)
  then obtain c m where "f x (a, q) = Some (c, m)" "fold_opt f xs (c, m) = Some (b, r)" by (auto simp: bind_eq_Some_conv)
  then show ?case using Cons.IH Cons.prems(2) trans by blast
qed (simp add: refl)

lemma apply_events_rel: "apply_events u evs late t st p = Some q \<Longrightarrow> R p q"
  unfolding apply_events_def by (auto simp: bind_eq_Some_conv intro: trans [OF fold_pair_rel [OF _ apply_event_rel] correlate_rel])

end

section \<open>The case operations by what they write\<close>

text \<open>What an assignment, a resolution and an acknowledgement write to the case and its responder, before the alerts follow.\<close>

definition dispatch_writes :: "incident_id \<Rightarrow> nat \<Rightarrow> route \<Rightarrow> road_graph \<Rightarrow> platform \<Rightarrow> platform" where
  "dispatch_writes i r ro g p =
     (let previous = cs_responder (pf_cases p ! i);
          p = (if previous \<noteq> kNoId then free_responder previous p else p);
          p = (modify_case i (\<lambda>c. c\<lparr>cs_responder := r\<rparr>) p)\<lparr>pf_roads := g\<rparr>;
          p = take_responder r i (modify_case i (\<lambda>c. c\<lparr>cs_route := ro\<rparr>) p);
          p = (if cs_state (pf_cases p ! i) \<noteq> CaseDispatched then set_case_state i CaseDispatched p else p)
      in modify_case i (\<lambda>c. c\<lparr>cs_dispatched_ms := pf_now p\<rparr>) p)"

definition close_writes :: "incident_id \<Rightarrow> nat \<Rightarrow> string \<Rightarrow> platform \<Rightarrow> platform" where
  "close_writes i w note p =
     (let r = cs_responder (pf_cases p ! i);
          p = modify_case i (\<lambda>c. c\<lparr>cs_resolved_ms := pf_now p, cs_resolved_by := w, cs_resolution := note\<rparr>) (set_case_state i CaseResolved p);
          p = p\<lparr>pf_corr := snd (close_incident i (pf_now p) (pf_corr p))\<rparr>
      in if r \<noteq> kNoId then free_responder r p else p)"

definition ack_writes :: "incident_id \<Rightarrow> nat \<Rightarrow> platform \<Rightarrow> platform" where
  "ack_writes i w p =
     (let c = pf_cases p ! i; p = modify_case i (\<lambda>c. c\<lparr>cs_acknowledged_ms := pf_now p, cs_acknowledged_by := w\<rparr>) p
      in if cs_state c = CaseOpen then set_case_state i CaseAcknowledged p else p)"

lemma route_roads: "route_between a b p = Some (ro, q) \<Longrightarrow> \<exists>g. q = p\<lparr>pf_roads := g\<rparr>"
  by (auto simp: route_between_def Let_def bind_eq_Some_conv split: if_splits prod.splits) (rule exI [of _ "pf_roads p"], simp)

lemma case_of_incident_Some: "case_of_incident p i = Some c \<longleftrightarrow> i < length (pf_cases p) \<and> cs_id (pf_cases p ! i) \<noteq> kNoId \<and> c = pf_cases p ! i"
  by (auto simp: case_of_incident_def)

lemma assign_cases:
  assumes "assign_incident w i r p = Some (out, q)"
  obtains "q = p"
  | r ro g e as P where "i < length (pf_cases p)" "cs_id (pf_cases p ! i) \<noteq> kNoId" "cs_state (pf_cases p ! i) \<noteq> CaseResolved"
      "r < length (pf_pool p)" "r \<noteq> kNoId" "r \<noteq> cs_responder (pf_cases p ! i)" "rs_available (pf_pool p ! r)"
      "recommend_where P (append_log e (move_alerts alert_is_open (\<lambda>a. set_alert_state a Triage.Dispatched (pr_id w)) as
         (dispatch_writes i r ro g p))) = Some q"
proof (cases "q = p")
  case False
  let ?c = "pf_cases p ! i"
  define r' where "r' = (if r = kNoId then cs_recommended ?c else r)"
  define p1 where "p1 = modify_case i (\<lambda>c. c\<lparr>cs_responder := r'\<rparr>) (if cs_responder ?c \<noteq> kNoId then free_responder (cs_responder ?c) p else p)"
  note a = assms [unfolded assign_incident_def Let_def, folded r'_def, folded p1_def]
  have g: "i < length (pf_cases p)" "cs_id ?c \<noteq> kNoId" "cs_state ?c \<noteq> CaseResolved" "r' < length (pf_pool p)" "r' \<noteq> kNoId"
      "r' \<noteq> cs_responder ?c" "rs_available (pf_pool p ! r')"
    using a False by (auto simp: case_of_incident_def split: if_splits)
  obtain inc where inc: "get_incident (pf_corr p) i = Some inc" using a False g by (fastforce simp: case_of_incident_def split: option.splits if_splits)
  obtain ro p2 where ro: "route_between (rs_pos (pf_pool p1 ! r')) (Correlator.centroid inc) p1 = Some (ro, p2)"
    using a g inc False by (cases "route_between (rs_pos (pf_pool p1 ! r')) (Correlator.centroid inc) p1")
      (auto simp: case_of_incident_def split: if_splits)
  obtain rd where p2: "p2 = p1\<lparr>pf_roads := rd\<rparr>" using route_roads [OF ro] by blast
  define p3 where "p3 = take_responder r' i (modify_case i (\<lambda>c. c\<lparr>cs_route := ro\<rparr>) p2)"
  define p4 where "p4 = (if cs_state (pf_cases p3 ! i) \<noteq> CaseDispatched then set_case_state i CaseDispatched p3 else p3)"
  define p5 where "p5 = modify_case i (\<lambda>c. c\<lparr>cs_dispatched_ms := pf_now p4\<rparr>) p4"
  have d: "dispatch_writes i r' ro rd p = p5" by (simp add: dispatch_writes_def Let_def p5_def p4_def p3_def p2 p1_def)
  have st: "is_staff w" using a False by (auto split: if_splits)
  have "\<exists>P e. recommend_where P (append_log e (move_alerts alert_is_open (\<lambda>a. set_alert_state a Triage.Dispatched (pr_id w))
      (ic_alerts inc) p5)) = Some q"
    using a g inc st unfolding p5_def p4_def p3_def by (simp add: case_of_incident_def ro bind_eq_Some_conv split del: if_split) blast
  then show thesis using that(2) [OF g] unfolding d [symmetric] by blast
qed

lemma move_none: "move_alerts sts f [] p = p"
  by (simp add: move_alerts_def)

definition followed :: "(alert_id list \<Rightarrow> platform \<Rightarrow> platform) \<Rightarrow> incident_id \<Rightarrow> platform \<Rightarrow> platform" where
  "followed f i p = (case get_incident (pf_corr p) i of None \<Rightarrow> p | Some inc \<Rightarrow> f (ic_alerts inc) p)"

lemma followed_move: "\<exists>as. followed (move_alerts sts f) i p = move_alerts sts f as p"
  by (cases "get_incident (pf_corr p) i") (auto simp: followed_def move_none intro: exI [of _ "[]"])

lemma resolve_cases:
  assumes "resolve_incident w i n p = Some (out, q)"
  obtains "q = p"
  | e as P where "i < length (pf_cases p)" "cs_id (pf_cases p ! i) \<noteq> kNoId" "cs_state (pf_cases p ! i) \<noteq> CaseResolved"
      "recommend_where P (append_log e (move_alerts alert_is_open (\<lambda>a. resolve_with_note a ''incident resolved'' (pr_id w)) as
         (close_writes i (pr_id w) n p))) = Some q"
proof (cases "q = p")
  case False
  let ?m = "move_alerts alert_is_open (\<lambda>a. resolve_with_note a ''incident resolved'' (pr_id w))"
  have g: "i < length (pf_cases p)" "cs_id (pf_cases p ! i) \<noteq> kNoId" "cs_state (pf_cases p ! i) \<noteq> CaseResolved"
    using assms False by (auto simp: resolve_incident_def case_of_incident_Some split: option.splits if_splits)
  have "\<exists>e. recommend_where needs_recommendation (append_log e (followed ?m i (close_writes i (pr_id w) n p))) = Some q"
    using assms False unfolding resolve_incident_def followed_def close_writes_def Let_def
    by (auto simp: case_of_incident_Some bind_eq_Some_conv simp del: ex_simps split: option.splits if_splits)
  then show thesis using followed_move [of alert_is_open "\<lambda>a. resolve_with_note a ''incident resolved'' (pr_id w)" i] that(2) [OF g] by metis
qed

lemma acknowledge_cases:
  assumes "acknowledge_incident w i p = (out, q)"
  obtains "q = p"
  | e as where "i < length (pf_cases p)" "cs_id (pf_cases p ! i) \<noteq> kNoId" "cs_state (pf_cases p ! i) \<noteq> CaseResolved"
      "q = append_log e (move_alerts (\<lambda>s. s = AlertOpen) (\<lambda>a. set_alert_state a Triage.Acknowledged (pr_id w)) as (ack_writes i (pr_id w) p))"
proof (cases "q = p")
  case False
  let ?m = "move_alerts (\<lambda>s. s = AlertOpen) (\<lambda>a. set_alert_state a Triage.Acknowledged (pr_id w))"
  have g: "i < length (pf_cases p)" "cs_id (pf_cases p ! i) \<noteq> kNoId" "cs_state (pf_cases p ! i) \<noteq> CaseResolved"
    using assms False by (auto simp: acknowledge_incident_def case_of_incident_Some split: option.splits if_splits)
  have "\<exists>e. q = append_log e (followed ?m i (ack_writes i (pr_id w) p))"
    using assms False unfolding acknowledge_incident_def followed_def ack_writes_def Let_def
    by (simp add: case_of_incident_Some split: option.splits if_splits) blast+
  then show thesis using followed_move [of "\<lambda>s. s = AlertOpen" "\<lambda>a. set_alert_state a Triage.Acknowledged (pr_id w)" i] that(2) [OF g] by metis
qed

locale case_steps = case_reads +
  assumes correlates: "R p (p\<lparr>pf_corr := c\<rparr>)"
    and case_opening: "length (pf_cases p) \<le> i \<Longrightarrow> R p (new_case i p)"
    and dispatching: "i < length (pf_cases p) \<Longrightarrow> cs_id (pf_cases p ! i) \<noteq> kNoId \<Longrightarrow> cs_state (pf_cases p ! i) \<noteq> CaseResolved \<Longrightarrow>
      r < length (pf_pool p) \<Longrightarrow> r \<noteq> kNoId \<Longrightarrow> r \<noteq> cs_responder (pf_cases p ! i) \<Longrightarrow> rs_available (pf_pool p ! r) \<Longrightarrow>
      R p (dispatch_writes i r ro g p)"
    and closing: "i < length (pf_cases p) \<Longrightarrow> cs_id (pf_cases p ! i) \<noteq> kNoId \<Longrightarrow> cs_state (pf_cases p ! i) \<noteq> CaseResolved \<Longrightarrow>
      R p (close_writes i w txt p)"
    and ack_noting: "i < length (pf_cases p) \<Longrightarrow> cs_id (pf_cases p ! i) \<noteq> kNoId \<Longrightarrow> cs_state (pf_cases p ! i) \<noteq> CaseResolved \<Longrightarrow>
      R p (ack_writes i w p)"
begin

lemma assigned: "assign_incident w i r p = Some (out, q) \<Longrightarrow> R p q"
proof (elim assign_cases)
  fix r ro g e as P assume *: "recommend_where P (append_log e (move_alerts alert_is_open (\<lambda>a. set_alert_state a Triage.Dispatched (pr_id w)) as
      (dispatch_writes i r ro g p))) = Some q" and w: "i < length (pf_cases p)" "cs_id (pf_cases p ! i) \<noteq> kNoId"
      "cs_state (pf_cases p ! i) \<noteq> CaseResolved" "r < length (pf_pool p)" "r \<noteq> kNoId" "r \<noteq> cs_responder (pf_cases p ! i)"
      "rs_available (pf_pool p ! r)"
  show "R p q" by (rule recommended [OF *], rule logging', rule trans [OF dispatching [OF w] dispatched_rel])
qed (simp add: refl)

lemma resolves: "resolve_incident w i n p = Some (out, q) \<Longrightarrow> R p q"
proof (elim resolve_cases)
  fix e as P assume *: "recommend_where P (append_log e (move_alerts alert_is_open (\<lambda>a. resolve_with_note a ''incident resolved'' (pr_id w)) as
      (close_writes i (pr_id w) n p))) = Some q" and w: "i < length (pf_cases p)" "cs_id (pf_cases p ! i) \<noteq> kNoId"
      "cs_state (pf_cases p ! i) \<noteq> CaseResolved"
  show "R p q" by (rule recommended [OF *], rule logging', rule trans [OF closing [OF w] resolved_rel])
qed (simp add: refl)

lemma case_acknowledges: "acknowledge_incident w i p = (out, q) \<Longrightarrow> R p q"
  by (elim acknowledge_cases) (auto simp: refl intro!: logging' trans [OF ack_noting acknowledged_rel])

end

sublocale case_steps \<subseteq> case_layer
  by unfold_locales (rule correlates case_opening assigned; assumption)+

text \<open>Where every write to the cases and the responders is admitted.\<close>

locale free_cases = case_reads +
  assumes corr_writing: "R p (p\<lparr>pf_corr := c\<rparr>)"
    and casing: "R p (modify_case i f p)"
    and resizing: "R p (p\<lparr>pf_cases := cs\<rparr>)"
    and pooling: "R p (p\<lparr>pf_pool := rs\<rparr>)"
    and informing: "R p (p\<lparr>pf_rinfo := ri\<rparr>)"
begin

lemma casing': "R p q \<Longrightarrow> R p (modify_case i f q)"
  by (rule trans [OF _ casing])

lemma modify_responder': "R p q \<Longrightarrow> R p (modify_responder r f q)"
  unfolding modify_responder_def by (rule trans [OF _ pooling])

lemma modify_rinfo': "R p q \<Longrightarrow> R p (modify_rinfo r f q)"
  unfolding modify_rinfo_def by (rule trans [OF _ informing])

lemma case_state': "R p q \<Longrightarrow> R p (set_case_state i s q)"
  unfolding set_case_state_def by (rule casing')

lemma free': "R p q \<Longrightarrow> R p (free_responder r q)"
  by (simp add: free_responder_def modify_responder' modify_rinfo')

lemma take': "R p q \<Longrightarrow> R p (take_responder r i q)"
  unfolding take_responder_def by (intro modify_responder' modify_rinfo')

lemma enlists: "enlist n t x k src acc p = (i, q) \<Longrightarrow> R p q"
  by (auto simp: enlist_def Let_def split_def intro: trans [OF pooling informing])

end

sublocale free_cases \<subseteq> case_steps
  by unfold_locales
    (auto simp: new_case_def dispatch_writes_def close_writes_def ack_writes_def Let_def refl
      intro!: case_state' casing' resizing take' roads' free' corr_writing trans [OF _ corr_writing])

section \<open>What leaves accounts, trails, groups and zones as they are\<close>

definition same_account :: "account \<Rightarrow> account \<Rightarrow> bool" where
  "same_account x y \<longleftrightarrow> us_id x = us_id y \<and> us_role x = us_role y \<and> us_active x = us_active y \<and> us_consent x = us_consent y \<and>
     us_sharing x = us_sharing y \<and> us_group x = us_group y \<and> us_session_started_ms x = us_session_started_ms y"

definition same_group :: "group_record \<Rightarrow> group_record \<Rightarrow> bool" where
  "same_group g h \<longleftrightarrow> gr_id g = gr_id h \<and> gr_members g = gr_members h"

text \<open>Alerts do not touch the groups.\<close>

interpretation groups_stay: alert_layer "\<lambda>p q. pf_groups q = pf_groups p"
  by unfold_locales (auto simp: append_log_def count_in_def set_active_flag_def modify_tracked_def file_alert_def Let_def split_def
      modify_alert_def note_alert_def)

lemma observe_group_same: "observe_group p g = Some h \<Longrightarrow> same_group h g"
  by (auto simp: observe_group_def same_group_def Let_def split: if_splits)

locale quiet_layer = case_layer +
  assumes resolving: "resolve_incident by' i txt p = Some (out, q) \<Longrightarrow> R p q"
    and case_acknowledging: "acknowledge_incident by' i p = (out, q) \<Longrightarrow> R p q"
    and enlisting: "enlist name type x nd src acc p = (k, q) \<Longrightarrow> R p q"
    and placing: "R p (modify_responder r (\<lambda>y. y\<lparr>rs_pos := x, rs_node := nd\<rparr>) p)"
    and place_noting: "R p (modify_rinfo r (\<lambda>y. y\<lparr>ri_position_ms := t\<rparr>) p)"
    and availing: "r < length (pf_pool p) \<Longrightarrow> \<not> (ri_assigned (pf_rinfo p ! r) \<noteq> kNoId \<and> b) \<Longrightarrow>
      R p (modify_responder r (\<lambda>x. x\<lparr>rs_available := b\<rparr>) p)"
    and resnapping: "R p (p\<lparr>pf_pool := fst (snap_all (pf_pool p) g)\<rparr>)"
    and redacting: "i < length (pf_alerts p) \<Longrightarrow> \<not> alert_is_open (al_state (alert_at p i)) \<Longrightarrow> R p (modify_alert i redact_record p)"
    and clocking: "pf_now p \<le> now \<Longrightarrow> R p (p\<lparr>pf_now := now\<rparr>)"
    and auditing: "R p (audit_access by' u what allowed p)"
    and account_kept: "(\<And>x. same_account (h x) x) \<Longrightarrow> R p (modify_user u h p)"
    and group_kept: "same_group (m (pf_groups p ! gi)) (pf_groups p ! gi) \<Longrightarrow> R p (modify_group gi m p)"
    and track_kept: "(\<And>tr. tracked_of p u = Some tr \<Longrightarrow> set (tk_trail (n tr)) \<subseteq> set (tk_trail tr)) \<Longrightarrow> R p (modify_tracked u n p)"
    and ensuring: "R p (ensure_tracked u p)"
    and retaining: "R p (enforce_retention now p)"
    and observing: "R p (p\<lparr>pf_eval := fst (snd (evaluate (cf_eval (pf_cfg p)) rt_ops (pf_zones p) t tr (pf_eval p)))\<rparr>)"
    and querying: "R p (on_index (\<lambda>_. snd (rt_query bx [] (ev_index (pf_eval p)))) p)"
    and cohesion_time: "R p (p\<lparr>pf_next_cohesion := t\<rparr>)"
    and retention_time: "R p (p\<lparr>pf_next_retention := t\<rparr>)"
    and reconciling: "R p (p\<lparr>pf_reconciler := rc\<rparr>)"
    and dummying: "R p (p\<lparr>pf_dummy_hash := dh\<rparr>)"
    and stamping: "R p (p\<lparr>pf_clock := clk\<rparr>)"
begin

lemma stamping': "R p q \<Longrightarrow> R p (q\<lparr>pf_clock := clk\<rparr>)" by (rule trans [OF _ stamping])
lemma reconciling': "R p q \<Longrightarrow> R p (q\<lparr>pf_reconciler := rc\<rparr>)" by (rule trans [OF _ reconciling])
lemma account_kept': "R p q \<Longrightarrow> (\<And>x. same_account (h x) x) \<Longrightarrow> R p (modify_user u h q)" by (rule trans [OF _ account_kept])
lemma ensure_tracked': "R p q \<Longrightarrow> R p (ensure_tracked u q)" by (rule trans [OF _ ensuring])

lemma track_kept': "R p q \<Longrightarrow> (\<And>tr. set (tk_trail (n tr)) \<subseteq> set (tk_trail tr)) \<Longrightarrow> R p (modify_tracked u n q)"
  by (rule trans [OF _ track_kept])

lemma group_kept': "R p q \<Longrightarrow> same_group (m (pf_groups q ! gi)) (pf_groups q ! gi) \<Longrightarrow> R p (modify_group gi m q)"
  by (rule trans [OF _ group_kept])

lemma user_entry': "R p q \<Longrightarrow> R p (user_entry k w u d q)"
  unfolding user_entry_def by (rule logging')

lemma group_entry': "R p q \<Longrightarrow> R p (group_entry w g u d q)"
  unfolding group_entry_def by (rule logging')

lemma zone_entry': "R p q \<Longrightarrow> R p (zone_entry k w z d q)"
  unfolding zone_entry_def by (rule logging')

lemmas quiet_writes = stamping' reconciling' account_kept' track_kept' ensure_tracked' user_entry' group_entry' zone_entry' alert_writes

lemma snap': "R p q \<Longrightarrow> R p (snd (snap_position x q))"
  by (cases "snap_position x q") (auto intro: trans [OF _ snap_rel])

lemma enlist': "R p q \<Longrightarrow> R p (snd (enlist n t x k src acc q))"
  by (cases "enlist n t x k src acc q") (auto intro: trans [OF _ enlisting])

lemma authenticate_rel: "authenticate salt n pw p = Some (out, q) \<Longrightarrow> R p q"
  by (auto simp: authenticate_def Let_def bind_eq_Some_conv dummying)

lemma set_password_rel: "set_password salt w u pw p = Some (out, q) \<Longrightarrow> R p q"
  by (auto simp: set_password_def bind_eq_Some_conv refl same_account_def split: if_splits intro!: account_kept')

lemma set_display_name_rel: "set_display_name w u n p = (out, q) \<Longrightarrow> R p q"
  by (auto simp: set_display_name_def refl same_account_def split: if_splits intro!: account_kept')

lemma set_battery_aware_rel: "set_battery_aware w u b p = (out, q) \<Longrightarrow> R p q"
  by (auto simp: set_battery_aware_def refl same_account_def split: if_splits intro!: account_kept')

lemma redact_rel: "R p (snd (foldl redact_one (n, p) is))"
proof (induction "is" arbitrary: n p)
  case (Cons i "is")
  have "R p (snd (redact_one (n, p) i))"
    by (cases "i < length (pf_alerts p)") (auto simp: redact_one_def refl modify_alert_out intro: redacting)
  then show ?case using trans [OF _ Cons.IH [of "snd (redact_one (n, p) i)" "fst (redact_one (n, p) i)"]] by simp
qed (simp add: refl)

lemma erase_history_rel: "erase_history w u p = (out, q) \<Longrightarrow> R p q"
proof -
  have *: "R p (snd (foldl redact_one (n, q) is))" if "R p q" for p n q "is" using that redact_rel by (rule trans)
  show "erase_history w u p = (out, q) \<Longrightarrow> R p q"
    by (auto simp: erase_history_def Let_def split_def refl split: if_splits intro!: user_entry' * track_kept' ensure_tracked')
qed

lemma set_group_thresholds_rel: "set_group_thresholds w g a b c p = (out, q) \<Longrightarrow> R p q"
  by (auto simp: set_group_thresholds_def Let_def refl modify_group_def nth_list_update rebuild_monitor_def same_group_def
      split: if_splits intro!: group_entry' group_kept' [unfolded modify_group_def])

lemma resnap_rel: "R p (resnap_pool p)"
proof -
  have "resnap_pool p = (p\<lparr>pf_pool := fst (snap_all (pf_pool p) (pf_roads p))\<rparr>)\<lparr>pf_roads := snd (snap_all (pf_pool p) (pf_roads p))\<rparr>"
    by (simp add: resnap_pool_def Let_def split_def)
  then show ?thesis by (simp only: roads' resnapping)
qed

lemma load_roads_rel: "load_roads_file r p = (out, q) \<Longrightarrow> R p q"
  by (auto simp: load_roads_file_def refl split: sum.splits intro: trans [OF roads resnap_rel])

lemma grid_rel: "R p (use_grid_roads r c p)"
  unfolding use_grid_roads_def Let_def by (rule trans [OF roads resnap_rel])

lemma create_responder_rel: "create_responder w n t x src acc p = Some (out, q) \<Longrightarrow> R p q"
  by (simp add: create_responder_def Let_def split_def bind_eq_Some_conv refl split: if_splits)
    (auto simp: same_account_def intro!: refl logging' account_kept' enlist' snap' elim!: recommended)

lemma set_responder_available_rel: "set_responder_available w r b p = Some (out, q) \<Longrightarrow> R p q"
  by (simp add: set_responder_available_def Let_def bind_eq_Some_conv split: if_splits)
    (auto intro!: refl logging' availing elim!: recommended)

lemma set_responder_position_rel: "set_responder_position w r x p = (out, q) \<Longrightarrow> R p q"
  by (auto simp: set_responder_position_def Let_def refl split: if_splits prod.splits
      intro: trans [OF snap_rel trans [OF placing place_noting]])

lemma contact_restored': "R p q \<Longrightarrow> R p (contact_restored u q)"
  by (auto simp: contact_restored_def Let_def split: option.splits if_splits intro!: track_kept' close_signal_rel)

lemma events_after: "apply_events u evs late t st q = Some r \<Longrightarrow> R p q \<Longrightarrow> R p r"
  by (rule trans [OF _ apply_events_rel])

lemma detect_one_rel:
  assumes "detect_one now u (fresh, p) = Some (fresh', q)"
  shows "R p q"
proof -
  have *: "R p r" if "raise_alert a g late src q = Some (i, r)" "R p q" for a g late src q i r
    using that(2) raise_rel [OF that(1)] by (rule trans)
  show ?thesis using assms
    by (auto simp: detect_one_def Let_def split_def bind_eq_Some_conv refl split: if_splits option.splits intro!: track_kept' track_kept elim!: *)
qed

lemma detect_anomalies_rel: "detect_anomalies now p = Some q \<Longrightarrow> R p q"
  unfolding detect_anomalies_def by (auto simp: bind_eq_Some_conv intro: trans [OF fold_pair_rel [OF _ detect_one_rel] correlate_rel])

lemma cohesion_group_rel:
  assumes "cohesion_group gi (fresh, p) = Some (fresh', q)"
  shows "R p q"
proof (cases "length (cohesion_tracked p (pf_groups p ! gi)) < 2")
  case True
  then show ?thesis using assms by (auto simp: cohesion_group_def Let_def same_group_def intro!: group_kept)
next
  case False
  obtain m evs g rest f2 p2 where p2: "fold_opt (straggler_step g) (stragglers (gr_monitor g) (gr_id g)) ([], fresh,
        foldl (cohesion_entry (gr_id (pf_groups p ! gi))) p evs) = Some (rest, f2, p2)"
    and g: "observe_group (foldl (cohesion_entry (gr_id (pf_groups p ! gi))) p evs)
        ((pf_groups p ! gi)\<lparr>gr_tracked_members := length (cohesion_tracked p (pf_groups p ! gi)), gr_monitor := m\<rparr>) = Some g"
    and q: "R (modify_group gi (\<lambda>_. g\<lparr>gr_stragglers := rest\<rparr>) p2) q"
    using assms False by (auto simp: cohesion_group_def Let_def bind_eq_Some_conv refl split: if_splits dest: raise_rel)
  have fold: "R p (foldl (cohesion_entry (gr_id (pf_groups p ! gi))) p evs)" by (intro foldl_rel refl cohesion_entry_rel)
  have "pf_groups p2 = pf_groups (foldl (cohesion_entry (gr_id (pf_groups p ! gi))) p evs)" using p2 by (rule groups_stay.stragglers_rel)
  also have "\<dots> = pf_groups p" by (rule groups_stay.foldl_rel) (auto intro: groups_stay.cohesion_entry_rel)
  finally have "R p (modify_group gi (\<lambda>_. g\<lparr>gr_stragglers := rest\<rparr>) p2)"
    using observe_group_same [OF g] by (intro group_kept' trans [OF fold stragglers_rel [OF p2]]) (simp add: same_group_def)
  then show ?thesis using q by (rule trans)
qed

lemma run_cohesion_rel: "run_cohesion p = Some q \<Longrightarrow> R p q"
  unfolding run_cohesion_def
  by (auto simp: bind_eq_Some_conv intro!: counting' intro: trans [OF fold_pair_rel [OF _ cohesion_group_rel] correlate_rel])

lemma tick_rel:
  assumes "tick now p = Some q"
  shows "R p q"
proof (cases "now < pf_now p")
  case True
  then show ?thesis using assms by (simp add: tick_def refl)
next
  case False
  obtain p1 p2 where d: "detect_anomalies now (p\<lparr>pf_now := now\<rparr>) = Some p1"
    and c: "(if pf_now p1 \<ge> pf_next_cohesion p1
             then map_option (\<lambda>p. p\<lparr>pf_next_cohesion := pf_now p + cf_cohesion_interval_ms (pf_cfg p)\<rparr>) (run_cohesion p1) else Some p1) = Some p2"
    and q: "q = (if pf_now (escalate (pf_now p2) p2) \<ge> pf_next_retention (escalate (pf_now p2) p2)
              then (expire_warnings (pf_now (escalate (pf_now p2) p2)) (enforce_retention (pf_now (escalate (pf_now p2) p2)) (escalate (pf_now p2) p2)))
                \<lparr>pf_next_retention := pf_now (escalate (pf_now p2) p2) + 60000\<rparr> else escalate (pf_now p2) p2)"
    using assms False by (auto simp: tick_def Let_def bind_eq_Some_conv)
  have "R p p1" using False by (intro trans [OF clocking detect_anomalies_rel [OF d]]) simp
  moreover have "R p1 p2" using c by (auto simp: refl split: if_splits intro: trans [OF run_cohesion_rel cohesion_time])
  moreover have "R p2 q"
  proof -
    have e: "R r (enforce_retention n r)" for r n by (rule retaining)
    have "R (escalate (pf_now p2) p2) q" unfolding q
      by (intro if_rel refl trans [OF _ retention_time] trans [OF e expire_rel])
    then show ?thesis by (rule trans [OF escalate_rel])
  qed
  ultimately show ?thesis using trans by blast
qed

lemma zone_status_rel: "zone_status u n p = (out, q) \<Longrightarrow> R p q"
  by (auto simp: zone_status_def Let_def split_def refl split: if_splits option.splits intro: querying)

end

section \<open>Where one person's trail may be written\<close>

locale trail_writes = quiet_layer R for R :: "platform \<Rightarrow> platform \<Rightarrow> bool" +
  fixes u :: nat
  assumes trail_writing: "R p (modify_tracked u n p)"
    and dropping: "R p (drop_device u p)"
begin

lemma modify_tracked_u: "R p q \<Longrightarrow> R p (modify_tracked u n q)"
  by (rule trans [OF _ trail_writing])

lemma drop_device_u: "R p q \<Longrightarrow> R p (drop_device u q)"
  by (rule trans [OF _ dropping])

lemma observe_fix': "R p q \<Longrightarrow> R p (snd (observe_fix u f q))"
  by (auto simp: observe_fix_def Let_def split_def split: option.splits intro!: counting' modify_tracked_u trans [OF _ observing])

lemma accept_fix_rel: "accept_fix u i f jump p = Some (out, q) \<Longrightarrow> R p q"
  by (auto simp: accept_fix_def Let_def split_def bind_eq_Some_conv refl
      intro!: contact_restored' counting' modify_tracked_u observe_fix' elim!: events_after)

lemma ingest_fix_rel: "ingest_fix w u i p = Some (out, q) \<Longrightarrow> R p q"
proof -
  have *: "R p r" if "accept_fix u i f jump q = Some (out, r)" "R p q" for f jump q r using that(2) accept_fix_rel [OF that(1)] by (rule trans)
  show "ingest_fix w u i p = Some (out, q) \<Longrightarrow> R p q"
    by (auto simp: ingest_fix_def Let_def refl split: if_splits option.splits intro!: counting' modify_tracked_u ensure_tracked' elim!: *)
qed

lemma admit_rel:
  assumes "admit_event u skew se (t, p) = Some (t', q)"
  shows "R p q"
  using assms
  by (auto simp: admit_event_def Let_def split_def sync_fix_def refl stamping split: if_splits option.splits
      intro!: modify_tracked_u stamping elim!: events_after)

lemma reconnect_rel:
  assumes "reconnect w u n p = Some (out, rpt, q)"
  shows "R p q"
proof (cases "is_self w u \<and> is_offline p u")
  case False
  then show ?thesis using assms by (auto simp: reconnect_def refl split: if_splits)
next
  case True
  have admits: "R p r" if "fold_opt (admit_event u skew) adm (t0, p1) = Some (t1, r)" "R p p1" for skew adm t0 p1 t1 r
    using that(2) fold_pair_rel [OF that(1) admit_rel] by (rule trans)
  show ?thesis using assms True
    by (auto simp: reconnect_def Let_def split_def bind_eq_Some_conv refl same_account_def
        intro!: logging' modify_tracked_u close_signal_rel ensure_tracked' reconciling' account_kept' drop_device_u elim!: admits)
qed

end

section \<open>Where every write to the accounts, trails, groups and devices is admitted\<close>

locale account_writes = quiet_layer +
  assumes users: "R p (p\<lparr>pf_users := us\<rparr>)"
    and naming: "R p (p\<lparr>pf_by_name := ns\<rparr>)"
    and tracking: "R p (p\<lparr>pf_tracked := ts\<rparr>)"
    and grouping: "R p (p\<lparr>pf_groups := gs\<rparr>)"
    and devices: "R p (p\<lparr>pf_devices := ds\<rparr>)"
begin

lemma users': "R p q \<Longrightarrow> R p (q\<lparr>pf_users := us\<rparr>)" by (rule trans [OF _ users])
lemma naming': "R p q \<Longrightarrow> R p (q\<lparr>pf_by_name := ns\<rparr>)" by (rule trans [OF _ naming])
lemma tracking': "R p q \<Longrightarrow> R p (q\<lparr>pf_tracked := ts\<rparr>)" by (rule trans [OF _ tracking])
lemma grouping': "R p q \<Longrightarrow> R p (q\<lparr>pf_groups := gs\<rparr>)" by (rule trans [OF _ grouping])
lemma devices': "R p q \<Longrightarrow> R p (q\<lparr>pf_devices := ds\<rparr>)" by (rule trans [OF _ devices])

lemma modify_user': "R p q \<Longrightarrow> R p (modify_user u f q)"
  unfolding modify_user_def by (rule users')

lemma modify_tracked': "R p q \<Longrightarrow> R p (modify_tracked u f q)"
  by (simp add: modify_tracked_def tracking')

lemma modify_group': "R p q \<Longrightarrow> R p (modify_group g f q)"
  unfolding modify_group_def by (rule grouping')

lemma drop_device': "R p q \<Longrightarrow> R p (drop_device u q)"
  by (simp add: drop_device_def devices')

lemma rebuild_groups': "R p q \<Longrightarrow> R p (rebuild_groups_of u q)"
  unfolding rebuild_groups_of_def by (rule grouping')

lemmas writes = users' naming' tracking' grouping' devices' modify_user' modify_tracked' modify_group' drop_device' rebuild_groups'
  quiet_writes

lemma create_user_rel: "create_user salt w n d r pw src p = Some (out, q) \<Longrightarrow> R p q"
  by (auto simp: create_user_def Let_def bind_eq_Some_conv refl split: if_splits intro!: writes)

lemma stop_sharing_rel: "stop_sharing w u p = (out, q) \<Longrightarrow> R p q"
  by (auto simp: stop_sharing_def Let_def refl split: if_splits option.splits intro!: writes)

lemma start_sharing_rel: "start_sharing w u p = (out, q) \<Longrightarrow> R p q"
  by (auto simp: start_sharing_def Let_def refl split: if_splits option.splits intro!: writes)

lemma stop_sharing': "R p (snd (stop_sharing w u p))"
  by (cases "stop_sharing w u p") (auto intro: stop_sharing_rel)

lemma set_active_rel: "set_active w u a p = (out, q) \<Longrightarrow> R p q"
  by (auto simp: set_active_def Let_def refl split: if_splits option.splits intro!: writes stop_sharing')

lemma set_consent_rel: "set_consent w u c p = (out, q) \<Longrightarrow> R p q"
  by (auto simp: set_consent_def Let_def refl split: if_splits option.splits intro!: writes stop_sharing')

lemma create_group_rel: "create_group w n src p = (out, q) \<Longrightarrow> R p q"
  by (auto simp: create_group_def Let_def refl split: if_splits intro!: writes)

lemma remove_member_rel: "remove_member w g u p = (out, q) \<Longrightarrow> R p q"
  by (auto simp: remove_member_def Let_def refl split: if_splits intro!: writes)

lemma remove_member': "R p q \<Longrightarrow> R p (snd (remove_member w h u q))"
  by (cases "remove_member w h u q") (auto intro: trans [OF _ remove_member_rel])

lemma add_member_rel: "add_member w g u p = (out, q) \<Longrightarrow> R p q"
  by (simp add: add_member_def Let_def split: if_splits option.splits)
    (auto intro!: group_entry' modify_group' modify_user' remove_member' refl)

lemma go_offline_rel: "go_offline w u s p = (out, q) \<Longrightarrow> R p q"
  by (auto simp: go_offline_def Let_def refl split: if_splits option.splits intro!: writes)

lemma device_fix_rel: "device_fix u i p = (out, q) \<Longrightarrow> R p q"
  by (auto simp: device_fix_def Let_def split_def refl devices split: if_splits)

end

sublocale account_writes \<subseteq> own: trail_writes R u for u
  by unfold_locales (auto intro: modify_tracked' drop_device' refl)

section \<open>Where every write to the zones and their indexes is admitted\<close>

locale zone_writes = quiet_layer +
  assumes zoning: "R p (p\<lparr>pf_zones := zs\<rparr>)"
    and sourcing: "R p (p\<lparr>pf_zone_source := ss\<rparr>)"
    and versioning: "R p (p\<lparr>pf_vindex := vi\<rparr>)"
    and evaluating: "R p (p\<lparr>pf_eval := ev\<rparr>)"
begin

lemma zoning': "R p q \<Longrightarrow> R p (q\<lparr>pf_zones := zs\<rparr>)" by (rule trans [OF _ zoning])
lemma sourcing': "R p q \<Longrightarrow> R p (q\<lparr>pf_zone_source := ss\<rparr>)" by (rule trans [OF _ sourcing])
lemma versioning': "R p q \<Longrightarrow> R p (q\<lparr>pf_vindex := vi\<rparr>)" by (rule trans [OF _ versioning])
lemma evaluating': "R p q \<Longrightarrow> R p (q\<lparr>pf_eval := ev\<rparr>)" by (rule trans [OF _ evaluating])

lemma on_index': "R p q \<Longrightarrow> R p (on_index f q)"
  unfolding on_index_def by (rule evaluating')

lemma index_zone': "R p q \<Longrightarrow> R p (index_zone i t q)"
  by (auto simp: index_zone_def Let_def split: option.splits intro: versioning' on_index')

lemmas zone_writing = zoning' sourcing' versioning' evaluating' on_index' index_zone' quiet_writes

lemma add_stored_zone': "R p q \<Longrightarrow> R p (snd (add_stored_zone z q))"
  by (simp add: add_stored_zone_def Let_def split_def sourcing' zoning')

lemma create_zone_rel: "create_zone w i src p = (out, q) \<Longrightarrow> R p q"
  by (auto simp: create_zone_def Let_def split_def refl split: if_splits sum.splits intro!: zone_entry' index_zone' sourcing' add_stored_zone' refl)

lemma update_zone_rel: "update_zone w n i p = (out, q) \<Longrightarrow> R p q"
  by (auto simp: update_zone_def Let_def refl split: if_splits sum.splits option.splits intro!: zone_writing)

lemma delete_zone_rel: "delete_zone w n p = (out, q) \<Longrightarrow> R p q"
  by (auto simp: delete_zone_def Let_def refl split: if_splits option.splits intro!: zone_writing)

lemma set_zone_validity_rel: "set_zone_validity w n f t p = (out, q) \<Longrightarrow> R p q"
  by (auto simp: set_zone_validity_def Let_def refl split: if_splits intro!: zone_writing)

lemma set_zone_dwell_rel: "set_zone_dwell w n s p = (out, q) \<Longrightarrow> R p q"
  by (auto simp: set_zone_dwell_def refl split: if_splits intro!: zone_writing)

lemma import_rel: "import_geojson w txt p = (out, n, q) \<Longrightarrow> R p q"
proof -
  have "R p' (import_one w p' z)" for p' z
    unfolding import_one_def Let_def split_def by (intro zone_entry' index_zone' add_stored_zone' refl)
  then have "R p (foldl (import_one w) p zs)" for zs by (rule foldl_rel [OF refl])
  then show "import_geojson w txt p = (out, n, q) \<Longrightarrow> R p q"
    by (auto simp: import_geojson_def refl split: if_splits prod.splits option.splits)
qed

lemma load_versions': "R p q \<Longrightarrow> R p (load_versions n q)"
  unfolding load_versions_def by (erule foldl_rel) (auto simp: refl versioning split: option.splits)

lemma load_zones_rel: "load_zones_file path f p = (out, q) \<Longrightarrow> R p q"
  by (auto simp: load_zones_file_def Let_def split: prod.splits option.splits intro!: load_versions' on_index' sourcing' zoning' refl)

end

section \<open>Every step\<close>

text \<open>A quiet write is in \<open>R\<close>; the other operations are in \<open>S\<close>, each by its own proof.\<close>

locale step_layer = quiet_layer R for R :: "platform \<Rightarrow> platform \<Rightarrow> bool" +
  fixes S :: "platform \<Rightarrow> platform \<Rightarrow> bool"
  assumes quiet: "R p q \<Longrightarrow> S p q"
    and creating: "create_user salt by' uname dname rl pw usrc p = Some (out, q) \<Longrightarrow> S p q"
    and activating: "set_active by' u b p = (out, q) \<Longrightarrow> S p q"
    and consenting: "set_consent by' u b p = (out, q) \<Longrightarrow> S p q"
    and starting: "start_sharing by' u p = (out, q) \<Longrightarrow> S p q"
    and stopping: "stop_sharing by' u p = (out, q) \<Longrightarrow> S p q"
    and ingesting: "ingest_fix by' u fin p = Some (res, q) \<Longrightarrow> S p q"
    and group_creating: "create_group by' gname usrc p = (out, q) \<Longrightarrow> S p q"
    and joining: "add_member by' gi u p = (out, q) \<Longrightarrow> S p q"
    and leaving: "remove_member by' gi u p = (out, q) \<Longrightarrow> S p q"
    and disconnecting: "go_offline by' u skew p = (out, q) \<Longrightarrow> S p q"
    and fixing: "device_fix u fin p = (res, q) \<Longrightarrow> S p q"
    and reconnecting: "reconnect by' u retries p = Some (out, rpt, q) \<Longrightarrow> S p q"
    and zone_creating: "create_zone by' zin usrc p = (out, q) \<Longrightarrow> S p q"
    and zone_updating: "update_zone by' z zin p = (out, q) \<Longrightarrow> S p q"
    and zone_deleting: "delete_zone by' z p = (out, q) \<Longrightarrow> S p q"
    and validating: "set_zone_validity by' z t1 t2 p = (out, q) \<Longrightarrow> S p q"
    and dwelling: "set_zone_dwell by' z secs p = (out, q) \<Longrightarrow> S p q"
    and importing: "import_geojson by' txt p = (out, cnt, q) \<Longrightarrow> S p q"
    and loading: "load_zones_file path file p = (oerr, q) \<Longrightarrow> S p q"
begin

theorem step_S: "platform_step p q \<Longrightarrow> S p q"
  by (induction rule: platform_step.induct)
    (rule creating activating consenting starting stopping ingesting group_creating joining leaving disconnecting fixing reconnecting
       zone_creating zone_updating zone_deleting validating dwelling importing loading; assumption |
     rule quiet, rule authenticate_rel set_password_rel set_display_name_rel set_battery_aware_rel erase_history_rel
       set_group_thresholds_rel run_cohesion_rel acknowledge_alert_rel resolve_alert_rel sos_rel case_acknowledging assigning resolving
       plan_rel create_responder_rel set_responder_available_rel set_responder_position_rel route_rel tick_rel load_roads_rel
       zone_status_rel; assumption | hypsubst, rule quiet, rule auditing grid_rel)+

lemma runs_S:
  assumes "\<And>p q r. S p q \<Longrightarrow> S q r \<Longrightarrow> S p r" "runs_to p q"
  shows "S p q"
  using assms(2) by (induction rule: runs_to.induct) (auto intro: quiet refl assms(1) step_S)

end

text \<open>Where all these writes are admitted, a step is in the relation, and so is a run.\<close>

locale platform_layer = account_writes R + zone_writes R for R :: "platform \<Rightarrow> platform \<Rightarrow> bool"

sublocale platform_layer \<subseteq> step_layer R R
  by unfold_locales
    (fact create_user_rel set_active_rel set_consent_rel start_sharing_rel stop_sharing_rel own.ingest_fix_rel create_group_rel add_member_rel
       remove_member_rel go_offline_rel device_fix_rel own.reconnect_rel create_zone_rel update_zone_rel delete_zone_rel set_zone_validity_rel
       set_zone_dwell_rel import_rel load_zones_rel | assumption)+

context platform_layer begin

lemma runs_rel: "runs_to p q \<Longrightarrow> R p q"
  by (rule runs_S [OF trans])

end

end
