(* ===== verification/Platform_Evidence.thy ===== *)
theory Platform_Evidence
  imports Platform_Frames "HOL-Library.Sublist"
begin

text \<open>
  The evidence of the platform: the Merkle log holds exactly the canonical texts of the event log, in order, the access log likewise,
  and both only grow, in every reachable state and whatever operations follow.
\<close>

definition log_sealed :: "platform \<Rightarrow> bool" where
  "log_sealed p \<longleftrightarrow> pf_merkle p = ml_of (map (\<lambda>e. bytes_of (canonical e)) (pf_log p)) \<and>
     (\<forall>i < length (pf_log p). le_seq (pf_log p ! i) = i \<and> le_evidence (pf_log p ! i) = i)"

definition access_sealed :: "platform \<Rightarrow> bool" where
  "access_sealed p \<longleftrightarrow> pf_access_merkle p = ml_of (map (\<lambda>r. bytes_of (access_text r)) (pf_access p))"

definition evidence_kept :: "platform \<Rightarrow> platform \<Rightarrow> bool" where
  "evidence_kept p q \<longleftrightarrow> (log_sealed p \<longrightarrow> log_sealed q) \<and> prefix (pf_log p) (pf_log q) \<and>
     (access_sealed p \<longrightarrow> access_sealed q) \<and> prefix (pf_access p) (pf_access q)"

lemma ml_append_of: "ml_append (ml_of es) e = (length es, ml_of (es @ [e]))"
proof -
  have "fst (ml_append (ml_of es) e) = length es" unfolding ml_append_def by (simp add: Let_def)
  moreover have "snd (ml_append (ml_of es) e) = ml_of (es @ [e])" by (simp add: ml_of_def)
  ultimately show ?thesis by (simp add: prod_eq_iff)
qed

lemma canonical_evidence [simp]: "canonical (e\<lparr>le_evidence := i\<rparr>) = canonical e"
  by (simp add: canonical_def)

lemma seal_seq: "seal e p = (e', clk) \<Longrightarrow> le_seq e' = length (pf_log p)"
  by (auto simp: seal_def Let_def split: if_splits)

lemma append_log_kept: "evidence_kept p (append_log e p)"
proof -
  obtain e' clk where s: "seal e p = (e', clk)" by (cases "seal e p")
  obtain i m where a: "ml_append (pf_merkle p) (bytes_of (canonical e')) = (i, m)" by (cases "ml_append (pf_merkle p) (bytes_of (canonical e'))")
  have "log_sealed p \<Longrightarrow> i = length (pf_log p) \<and> m = ml_of (map (\<lambda>e. bytes_of (canonical e)) (pf_log p) @ [bytes_of (canonical e')])"
    using a by (auto simp: log_sealed_def ml_append_of)
  then show ?thesis using s a seal_seq [OF s]
    by (auto simp: evidence_kept_def append_log_def log_sealed_def access_sealed_def nth_append less_Suc_eq)
qed

lemma audit_kept: "evidence_kept p (audit_access w u what b p)"
  by (auto simp: evidence_kept_def audit_access_def Let_def log_sealed_def access_sealed_def ml_append_of)

interpretation evidence: free_cases evidence_kept
proof unfold_locales
  show "evidence_kept p q \<Longrightarrow> evidence_kept q r \<Longrightarrow> evidence_kept p r" for p q r
    by (auto simp: evidence_kept_def intro: prefix_order.trans)
qed (auto simp: append_log_kept, auto simp: evidence_kept_def log_sealed_def access_sealed_def plain_writes)

interpretation evidence: platform_layer evidence_kept
proof unfold_locales
  show "resolve_incident w i n p = Some (out, q) \<Longrightarrow> evidence_kept p q" for w i n p out q by (rule evidence.resolves)
  show "acknowledge_incident w i p = (out, q) \<Longrightarrow> evidence_kept p q" for w i p out q by (rule evidence.case_acknowledges)
  show "enlist n t x k src acc p = (i, q) \<Longrightarrow> evidence_kept p q" for n t x k src acc p i q by (rule evidence.enlists)
  show "evidence_kept p (audit_access w u what b p)" for p w u what b by (rule audit_kept)
qed (auto simp: evidence_kept_def log_sealed_def access_sealed_def plain_writes)

lemma new_sealed: "log_sealed (platform_new mc cfg) \<and> access_sealed (platform_new mc cfg)"
  by (simp add: platform_new_def log_sealed_def access_sealed_def ml_of_def)

lemma reachable_sealed: "reachable p \<Longrightarrow> log_sealed p \<and> access_sealed p"
proof (induction rule: reachable_induct)
  case (step p q)
  then show ?case using evidence.step_S [OF step.hyps(1)] by (simp add: evidence_kept_def)
qed (rule new_sealed)

lemma sealed_consistent:
  assumes "log_sealed p" "log_sealed q" "prefix (pf_log p) (pf_log q)"
  shows "verify_consistency (length (pf_log p)) (ml_root (pf_merkle p)) (length (pf_log q)) (ml_root (pf_merkle q))
    (prove_consistency (pf_merkle q) (length (pf_log p)))"
proof -
  let ?n = "length (pf_log p)" and ?text = "\<lambda>e. bytes_of (canonical e)"
  have p: "pf_merkle p = ml_of (map ?text (pf_log p))" and q: "pf_merkle q = ml_of (map ?text (pf_log q))" using assms by (auto simp: log_sealed_def)
  have t: "take ?n (pf_log q) = pf_log p" using assms(3) by (auto simp: prefix_def)
  have "tree_root (take ?n (leaves (pf_merkle q))) = ml_root (pf_merkle p)" by (simp add: p q ml_root_tree take_map t)
  moreover have "?n \<le> ml_size (pf_merkle q)" "ml_size (pf_merkle q) = length (pf_log q)"
    using prefix_length_le [OF assms(3)] by (simp_all add: q ml_size_def)
  ultimately show ?thesis using issued_consistency [of ?n "pf_merkle q"] by simp
qed

text \<open>C3: The evidence cannot fall behind or be rewritten: whatever operations lead to a state, its Merkle log holds exactly the
  canonical texts of its event log, every entry carries its own position, and the access log is sealed the same way; whatever
  operations follow, nothing of either log is removed or changed, and the later tree proves to an auditor who holds the earlier
  root that it extends it.\<close>

theorem evidence_append_only:
  assumes "reachable p" "runs_to p q"
  shows "pf_merkle q = ml_of (map (\<lambda>e. bytes_of (canonical e)) (pf_log q)) \<and>
    (\<forall>i < length (pf_log q). le_seq (pf_log q ! i) = i \<and> le_evidence (pf_log q ! i) = i) \<and>
    pf_access_merkle q = ml_of (map (\<lambda>r. bytes_of (access_text r)) (pf_access q)) \<and>
    prefix (pf_log p) (pf_log q) \<and> prefix (pf_access p) (pf_access q) \<and>
    verify_consistency (length (pf_log p)) (ml_root (pf_merkle p)) (length (pf_log q)) (ml_root (pf_merkle q))
      (prove_consistency (pf_merkle q) (length (pf_log p)))"
proof -
  have p: "log_sealed p" and q: "log_sealed q" "access_sealed q"
    using reachable_sealed assms(1) reachable_sealed [OF reachable_runs [OF assms]] by blast+
  have k: "evidence_kept p q" using assms(2) by (rule evidence.runs_rel)
  then show ?thesis using q sealed_consistent [OF p q(1)] by (auto simp: log_sealed_def access_sealed_def evidence_kept_def)
qed

lemma evidence_append_only_witness:
  "verify_consistency 0 (ml_root ml_empty) 1 (ml_root (pf_merkle first_group)) (prove_consistency (pf_merkle first_group) 0) \<and>
   le_evidence (pf_log first_group ! 0) = 0"
proof -
  note e = evidence_append_only [OF blank_reachable first_group_runs(1), unfolded first_group_runs(2)]
  then have "verify_consistency (length (pf_log blank_platform)) (ml_root (pf_merkle blank_platform)) 1 (ml_root (pf_merkle first_group))
      (prove_consistency (pf_merkle first_group) (length (pf_log blank_platform)))" by blast
  then show ?thesis using e by (simp add: blank_platform_def platform_new_def)
qed

end
