(* ===== verification/Platform_History.thy ===== *)
theory Platform_History
  imports Platform_Evidence
begin

text \<open>
  The histories of the platform: the states of an alert and of an incident only go forward, their histories only grow at the end, and so
  what the platform says about a past time never changes.
\<close>

fun case_rank :: "case_state \<Rightarrow> nat" where
  "case_rank CaseOpen = 0" | "case_rank CaseAcknowledged = 1" | "case_rank CaseDispatched = 2" | "case_rank CaseResolved = 3"

section \<open>A history and its growth\<close>

definition extends :: "timestamp \<Rightarrow> (timestamp \<times> 's) list \<Rightarrow> (timestamp \<times> 's) list \<Rightarrow> bool" where
  "extends t h h' \<longleftrightarrow> (\<exists>ext. h' = h @ ext \<and> (\<forall>e \<in> set ext. t \<le> fst e))"

definition orderly :: "('s \<Rightarrow> nat) \<Rightarrow> timestamp \<Rightarrow> (timestamp \<times> 's) list \<Rightarrow> 's \<Rightarrow> bool" where
  "orderly rk t h s \<longleftrightarrow> h \<noteq> [] \<and> snd (last h) = s \<and> fst (last h) \<le> t \<and> sorted_wrt (\<lambda>a b. fst a \<le> fst b \<and> rk (snd a) < rk (snd b)) h"

lemma extends_refl [simp]: "extends t h h"
  by (simp add: extends_def)

lemma extends_append [simp]: "extends t h (h @ [(t, s)])"
  by (simp add: extends_def)

lemma extends_trans: "extends t h h' \<Longrightarrow> extends u h' h'' \<Longrightarrow> t \<le> u \<Longrightarrow> extends t h h''"
  unfolding extends_def by fastforce

lemma orderly_later: "orderly rk t h s \<Longrightarrow> t \<le> u \<Longrightarrow> orderly rk u h s"
  by (auto simp: orderly_def)

lemma orderly_last: "orderly rk t h s \<Longrightarrow> e \<in> set h \<Longrightarrow> fst e \<le> fst (last h) \<and> rk (snd e) \<le> rk s"
proof (induction h)
  case (Cons a h)
  then show ?case by (cases "h = []") (auto simp: orderly_def less_imp_le)
qed simp

lemma orderly_append: "orderly rk t h s \<Longrightarrow> rk s < rk s' \<Longrightarrow> orderly rk t (h @ [(t, s')]) s'"
  using orderly_last [of rk t h s] by (fastforce simp: orderly_def sorted_wrt_append)

lemma orderly_single [simp]: "orderly rk t [(t, s)] s"
  by (simp add: orderly_def)

lemma extends_past: "extends u h h' \<Longrightarrow> t < u \<Longrightarrow> takeWhile (\<lambda>(when, st). \<not> when > t) h' = takeWhile (\<lambda>(when, st). \<not> when > t) h"
proof (induction h arbitrary: h')
  case Nil
  then show ?case by (cases h') (auto simp: extends_def)
next
  case (Cons a h)
  then obtain ext where "h' = a # (h @ ext)" "\<forall>e \<in> set ext. u \<le> fst e" by (auto simp: extends_def)
  then show ?case using Cons.IH [of "h @ ext"] Cons.prems(2) by (auto simp: extends_def)
qed

section \<open>The relation\<close>

definition alert_past :: "platform \<Rightarrow> alert_id \<Rightarrow> (timestamp \<times> alert_state) list" where
  "alert_past p a = (if a < length (pf_alerts p) then ar_history (pf_alerts p ! a) else [])"

definition case_past :: "platform \<Rightarrow> incident_id \<Rightarrow> (timestamp \<times> case_state) list" where
  "case_past p i = (if i < length (pf_cases p) then cs_history (pf_cases p ! i) else [])"

definition alerts_settled :: "platform \<Rightarrow> bool" where
  "alerts_settled p \<longleftrightarrow> (\<forall>a < length (pf_alerts p). orderly alert_rank (pf_now p) (alert_past p a) (al_state (alert_at p a)))"

definition cases_settled :: "platform \<Rightarrow> bool" where
  "cases_settled p \<longleftrightarrow> (\<forall>i < length (pf_cases p). cs_id (pf_cases p ! i) \<noteq> kNoId \<longrightarrow>
     orderly case_rank (pf_now p) (case_past p i) (cs_state (pf_cases p ! i)))"

definition alerts_forward :: "platform \<Rightarrow> platform \<Rightarrow> bool" where
  "alerts_forward p q \<longleftrightarrow> length (pf_alerts p) \<le> length (pf_alerts q) \<and> (\<forall>a. extends (pf_now p) (alert_past p a) (alert_past q a)) \<and>
     (\<forall>a < length (pf_alerts p). al_state (alert_at q a) = al_state (alert_at p a) \<or>
        alert_rank (al_state (alert_at p a)) < alert_rank (al_state (alert_at q a))) \<and>
     (alerts_settled p \<longrightarrow> alerts_settled q)"

definition cases_forward :: "platform \<Rightarrow> platform \<Rightarrow> bool" where
  "cases_forward p q \<longleftrightarrow> length (pf_cases p) \<le> length (pf_cases q) \<and> (\<forall>i. extends (pf_now p) (case_past p i) (case_past q i)) \<and>
     (\<forall>i < length (pf_cases p). cs_state (pf_cases q ! i) = cs_state (pf_cases p ! i) \<or>
        case_rank (cs_state (pf_cases p ! i)) < case_rank (cs_state (pf_cases q ! i))) \<and>
     (cases_settled p \<longrightarrow> cases_settled q)"

definition history_kept :: "platform \<Rightarrow> platform \<Rightarrow> bool" where
  "history_kept p q \<longleftrightarrow> pf_now p \<le> pf_now q \<and> alerts_forward p q \<and> cases_forward p q"

lemma alerts_forward_same: "pf_alerts q = pf_alerts p \<Longrightarrow> pf_now p \<le> pf_now q \<Longrightarrow> alerts_forward p q"
  by (auto simp: alerts_forward_def alert_past_def alerts_settled_def alert_at_def intro: orderly_later)

lemma cases_forward_same: "pf_cases q = pf_cases p \<Longrightarrow> pf_now p \<le> pf_now q \<Longrightarrow> cases_forward p q"
  by (auto simp: cases_forward_def case_past_def cases_settled_def intro: orderly_later)

lemma history_same: "pf_alerts q = pf_alerts p \<Longrightarrow> pf_cases q = pf_cases p \<Longrightarrow> pf_now p \<le> pf_now q \<Longrightarrow> history_kept p q"
  by (simp add: history_kept_def alerts_forward_same cases_forward_same)

lemma alerts_forward_trans:
  assumes "alerts_forward p q" "alerts_forward q r" "pf_now p \<le> pf_now q"
  shows "alerts_forward p r"
proof -
  have "extends (pf_now p) (alert_past p a) (alert_past r a)" for a
    using assms by (auto simp: alerts_forward_def intro: extends_trans [of _ _ "alert_past q a"])
  moreover have "al_state (alert_at r a) = al_state (alert_at p a) \<or> alert_rank (al_state (alert_at p a)) < alert_rank (al_state (alert_at r a))"
    if "a < length (pf_alerts p)" for a
  proof -
    have "a < length (pf_alerts q)" using assms(1) that by (simp add: alerts_forward_def)
    then have "al_state (alert_at r a) = al_state (alert_at q a) \<or> alert_rank (al_state (alert_at q a)) < alert_rank (al_state (alert_at r a))" using assms(2) by (auto simp: alerts_forward_def)
    moreover have "al_state (alert_at q a) = al_state (alert_at p a) \<or> alert_rank (al_state (alert_at p a)) < alert_rank (al_state (alert_at q a))" using assms(1) that by (auto simp: alerts_forward_def)
    ultimately show ?thesis by auto
  qed
  ultimately show ?thesis using assms by (auto simp: alerts_forward_def)
qed

lemma cases_forward_trans:
  assumes "cases_forward p q" "cases_forward q r" "pf_now p \<le> pf_now q"
  shows "cases_forward p r"
proof -
  have "extends (pf_now p) (case_past p a) (case_past r a)" for a
    using assms by (auto simp: cases_forward_def intro: extends_trans [of _ _ "case_past q a"])
  moreover have "cs_state (pf_cases r ! a) = cs_state (pf_cases p ! a) \<or> case_rank (cs_state (pf_cases p ! a)) < case_rank (cs_state (pf_cases r ! a))"
    if "a < length (pf_cases p)" for a
  proof -
    have "a < length (pf_cases q)" using assms(1) that by (simp add: cases_forward_def)
    then have "cs_state (pf_cases r ! a) = cs_state (pf_cases q ! a) \<or> case_rank (cs_state (pf_cases q ! a)) < case_rank (cs_state (pf_cases r ! a))" using assms(2) by (auto simp: cases_forward_def)
    moreover have "cs_state (pf_cases q ! a) = cs_state (pf_cases p ! a) \<or> case_rank (cs_state (pf_cases p ! a)) < case_rank (cs_state (pf_cases q ! a))" using assms(1) that by (auto simp: cases_forward_def)
    ultimately show ?thesis by auto
  qed
  ultimately show ?thesis using assms by (auto simp: cases_forward_def)
qed

lemma history_trans: "history_kept p q \<Longrightarrow> history_kept q r \<Longrightarrow> history_kept p r"
  by (auto simp: history_kept_def intro: alerts_forward_trans cases_forward_trans)

lemma alert_kept:
  assumes "\<And>r. ar_history (f r) = ar_history r" "\<And>r. al_state (ar_alert (f r)) = al_state (ar_alert r)"
  shows "history_kept p (modify_alert i f p)"
proof -
  have "alert_past (modify_alert i f p) a = alert_past p a" "al_state (alert_at (modify_alert i f p) a) = al_state (alert_at p a)" for a
    using nth_kept [of ar_history f] nth_kept [of "\<lambda>r. al_state (ar_alert r)" f] assms
    by (simp_all add: alert_past_def alert_at_def modify_alert_def)
  then show ?thesis
    by (simp add: history_kept_def alerts_forward_def alerts_settled_def cases_forward_same modify_alert_def)
qed

lemma alert_changed:
  assumes "i < length (pf_alerts p)" "alert_rank (al_state (alert_at p i)) < alert_rank s"
  shows "history_kept p (modify_alert i (change_alert s w (pf_now p)) p)"
proof -
  let ?q = "modify_alert i (change_alert s w (pf_now p)) p"
  have "alert_past ?q a = (if a = i then alert_past p i @ [(pf_now p, s)] else alert_past p a)"
    "al_state (alert_at ?q a) = (if a = i then s else al_state (alert_at p a))" for a
    using assms(1) by (auto simp: alert_past_def alert_at_def modify_alert_def change_alert_def Let_def)
  then show ?thesis using assms
    by (auto simp: history_kept_def alerts_forward_def alerts_settled_def cases_forward_same modify_alert_def intro: orderly_append)
qed

lemma alert_raised:
  assumes "al_state a = AlertOpen"
  shows "history_kept p (p\<lparr>pf_alerts := pf_alerts p @ [new_alert_record a g late src (pf_now p)]\<rparr>)"
  using assms
  by (auto simp: history_kept_def alerts_forward_def alerts_settled_def cases_forward_same alert_past_def alert_at_def nth_append
      new_alert_record_def extends_def less_Suc_eq)

text \<open>Whatever is written to a case, its state and its history say.\<close>

lemma cases_forwardI:
  assumes "pf_cases q = (pf_cases p)[i := c]" "i < length (pf_cases p)" "pf_now q = pf_now p" "pf_alerts q = pf_alerts p"
    and "cs_id c = cs_id (pf_cases p ! i)"
    and "cs_state c = cs_state (pf_cases p ! i) \<and> cs_history c = cs_history (pf_cases p ! i) \<or>
      case_rank (cs_state (pf_cases p ! i)) < case_rank (cs_state c) \<and> cs_history c = cs_history (pf_cases p ! i) @ [(pf_now p, cs_state c)]"
  shows "history_kept p q"
proof -
  have "case_past q j = (if j = i then cs_history c else case_past p j)" "cs_history (pf_cases p ! i) = case_past p i" for j
    using assms(1,2) by (auto simp: case_past_def)
  then show ?thesis using assms orderly_append [of case_rank "pf_now p" "case_past p i" "cs_state (pf_cases p ! i)" "cs_state c"]
    by (auto simp: history_kept_def cases_forward_def cases_settled_def alerts_forward_same nth_list_update)
qed

lemma case_kept:
  assumes "\<And>c. cs_id (f c) = cs_id c \<and> cs_state (f c) = cs_state c \<and> cs_history (f c) = cs_history c"
  shows "history_kept p (modify_case i f p)"
proof (cases "i < length (pf_cases p)")
  case True
  then show ?thesis using assms by (intro cases_forwardI [of _ _ i "f (pf_cases p ! i)"]) (auto simp: modify_case_def)
next
  case False
  then show ?thesis by (intro history_same) (simp_all add: modify_case_def list_update_beyond)
qed

lemma dispatch_kept:
  assumes "i < length (pf_cases p)" "cs_state (pf_cases p ! i) \<noteq> CaseResolved"
  shows "history_kept p (dispatch_writes i r ro g p)"
proof -
  define s where "s = cs_state (pf_cases p ! i)"
  have "\<exists>c. pf_cases (dispatch_writes i r ro g p) = (pf_cases p)[i := c] \<and> cs_id c = cs_id (pf_cases p ! i) \<and> cs_state c = CaseDispatched \<and>
      cs_history c = cs_history (pf_cases p ! i) @ (if s = CaseDispatched then [] else [(pf_now p, CaseDispatched)])"
    using assms(1)
    by (auto simp: dispatch_writes_def Let_def modify_case_def set_case_state_def take_responder_def free_responder_def modify_responder_def
        modify_rinfo_def s_def)
  then obtain c where c: "pf_cases (dispatch_writes i r ro g p) = (pf_cases p)[i := c]" "cs_id c = cs_id (pf_cases p ! i)" "cs_state c = CaseDispatched"
      "cs_history c = cs_history (pf_cases p ! i) @ (if s = CaseDispatched then [] else [(pf_now p, CaseDispatched)])" by blast
  show ?thesis
  proof (rule cases_forwardI [OF c(1) assms(1)])
    show "pf_now (dispatch_writes i r ro g p) = pf_now p" "pf_alerts (dispatch_writes i r ro g p) = pf_alerts p"
      by (simp_all add: dispatch_writes_def Let_def modify_case_def set_case_state_def take_responder_def free_responder_def
        modify_responder_def modify_rinfo_def)
  qed (use c assms in \<open>cases "cs_state (pf_cases p ! i)"; simp add: s_def\<close>)+
qed

lemma close_kept:
  assumes "i < length (pf_cases p)" "cs_state (pf_cases p ! i) \<noteq> CaseResolved"
  shows "history_kept p (close_writes i w note p)"
  by (rule cases_forwardI [of _ _ i "(pf_cases p ! i)\<lparr>cs_state := CaseResolved, cs_history := cs_history (pf_cases p ! i) @ [(pf_now p, CaseResolved)],
      cs_resolved_ms := pf_now p, cs_resolved_by := w, cs_resolution := note\<rparr>"])
    (use assms in \<open>cases "cs_state (pf_cases p ! i)"; auto simp: close_writes_def Let_def modify_case_def set_case_state_def free_responder_def
      modify_responder_def modify_rinfo_def\<close>)+

lemma ack_kept:
  assumes "i < length (pf_cases p)" "cs_state (pf_cases p ! i) \<noteq> CaseResolved"
  shows "history_kept p (ack_writes i w p)"
proof (cases "cs_state (pf_cases p ! i) = CaseOpen")
  case True
  show ?thesis
    by (rule cases_forwardI [of _ _ i "(pf_cases p ! i)\<lparr>cs_acknowledged_ms := pf_now p, cs_acknowledged_by := w, cs_state := CaseAcknowledged,
        cs_history := cs_history (pf_cases p ! i) @ [(pf_now p, CaseAcknowledged)]\<rparr>"])
      (use True assms in \<open>auto simp: ack_writes_def Let_def modify_case_def set_case_state_def\<close>)
next
  case False
  then show ?thesis by (simp add: ack_writes_def case_kept)
qed

lemma new_case_kept:
  assumes "length (pf_cases p) \<le> i"
  shows "history_kept p (new_case i p)"
proof -
  let ?q = "new_case i p" and ?c = "case_blank\<lparr>cs_id := i, cs_state := CaseOpen, cs_history := [(pf_now p, CaseOpen)]\<rparr>"
  have "pf_cases ?q = (resize_for i case_blank (pf_cases p))[i := ?c]" "i < length (resize_for i case_blank (pf_cases p))"
    using assms by (simp_all add: new_case_def set_case_state_def modify_case_def resize_for_def case_blank_def nth_append)
  then have q: "pf_cases ?q = pf_cases p @ replicate (i - length (pf_cases p)) case_blank @ [?c]"
    using assms by (simp add: resize_for_def Suc_diff_le list_update_append replicate_append_same [symmetric])
  have "case_past ?q j = (if j = i then [(pf_now p, CaseOpen)] else case_past p j)" for j
    using assms by (auto simp: case_past_def q nth_append nth_Cons' case_blank_def)
  moreover have "pf_alerts ?q = pf_alerts p" "pf_now ?q = pf_now p" by (simp_all add: new_case_def set_case_state_def modify_case_def)
  ultimately show ?thesis using assms
    by (auto simp: history_kept_def alerts_forward_same cases_forward_def cases_settled_def q nth_append nth_Cons' case_blank_def extends_def case_past_def
        less_Suc_eq split: if_splits)
qed

interpretation history: case_steps history_kept
proof unfold_locales
  show "history_kept p q \<Longrightarrow> history_kept q r \<Longrightarrow> history_kept p r" for p q r by (rule history_trans)
  show "history_kept p (append_log e p)" for p e by (intro history_same) (simp_all add: append_log_def split_def Let_def)
  show "history_kept p (p\<lparr>pf_alerts := pf_alerts p @
      [new_alert_record (a\<lparr>al_id := uint32_of (length (pf_alerts p)), al_state := AlertOpen\<rparr>) g late src (pf_now p)]\<rparr>)" for p a g late src
    by (rule alert_raised) simp
  show "i < length (pf_alerts p) \<Longrightarrow> alert_rank (al_state (alert_at p i)) < alert_rank s \<Longrightarrow>
      history_kept p (modify_alert i (change_alert s w (pf_now p)) p)" for p i s w by (rule alert_changed)
  show "history_kept p (note_alert i why p)" for p i why unfolding note_alert_def by (rule alert_kept) simp_all
  show "history_kept p (modify_alert i raise_severity p)" for p i by (rule alert_kept) (simp_all add: raise_severity_def)
  show "history_kept p (modify_alert i (tag_record c) p)" for p i c by (rule alert_kept) (simp_all add: tag_record_def)
  show "history_kept p (note_recommended i w m p)" for p i w m unfolding note_recommended_def by (rule case_kept) simp
  show "length (pf_cases p) \<le> i \<Longrightarrow> history_kept p (new_case i p)" for p i by (rule new_case_kept)
qed (auto intro: history_same dispatch_kept close_kept ack_kept simp: plain_writes)

interpretation history: platform_layer history_kept
proof unfold_locales
  show "resolve_incident w i n p = Some (out, q) \<Longrightarrow> history_kept p q" for w i n p out q by (rule history.resolves)
  show "acknowledge_incident w i p = (out, q) \<Longrightarrow> history_kept p q" for w i p out q by (rule history.case_acknowledges)
  show "enlist n t x k src acc p = (i, q) \<Longrightarrow> history_kept p q" for n t x k src acc p i q
    by (intro history_same) (auto simp: enlist_def Let_def split_def)
  show "history_kept p (modify_alert i redact_record p)" for p i by (rule alert_kept) (simp_all add: redact_record_def)
  show "history_kept p (audit_access w u what b p)" for p w u what b by (intro history_same) (simp_all add: audit_access_def Let_def)
qed (auto intro: history_same simp: plain_writes)

lemma new_settled: "alerts_settled (platform_new mc cfg) \<and> cases_settled (platform_new mc cfg)"
  by (simp add: platform_new_def alerts_settled_def cases_settled_def)

text \<open>C5: What the platform says about the past is final: the state it gives for any alert and any incident at a time before now is the
  one it will give after whatever operations follow, late synchronisation of an offline device included.\<close>

theorem past_readings_final:
  assumes "runs_to p q" "t < pf_now p"
  shows "alert_state_at a t q = alert_state_at a t p \<and> case_state_at i t q = case_state_at i t p"
proof -
  have k: "extends (pf_now p) (alert_past p a) (alert_past q a)" "extends (pf_now p) (case_past p i) (case_past q i)"
    using history.runs_rel [OF assms(1)] by (auto simp: history_kept_def alerts_forward_def cases_forward_def)
  have "alert_state_at a t r = (let past = takeWhile (\<lambda>(when, st). \<not> when > t) (alert_past r a)
      in (if past = [] then AlertOpen else snd (last past), past \<noteq> []))"
    "case_state_at i t r = (let past = takeWhile (\<lambda>(when, st). \<not> when > t) (case_past r i)
      in (if past = [] then CaseOpen else snd (last past), past \<noteq> []))" for r
    by (simp_all add: alert_state_at_def case_state_at_def alert_past_def case_past_def)
  then show ?thesis using extends_past [OF k(1) assms(2)] extends_past [OF k(2) assms(2)] by simp
qed

text \<open>C18: No alert and no incident is ever reopened: along every run the state of an alert stays or moves forward from open through
  acknowledged and dispatched to closed, a closed alert stays as it was closed, and the same holds of a case; and from a new platform
  on, the history of each ends in its present state, in time order and with every state entered at most once.\<close>

theorem alerts_and_cases_forward:
  assumes "runs_to p q"
  shows "(\<forall>a < length (pf_alerts p). al_state (alert_at q a) = al_state (alert_at p a) \<or>
      alert_is_open (al_state (alert_at p a)) \<and> alert_rank (al_state (alert_at p a)) < alert_rank (al_state (alert_at q a))) \<and>
    (\<forall>i < length (pf_cases p). cs_state (pf_cases q ! i) = cs_state (pf_cases p ! i) \<or>
      cs_state (pf_cases p ! i) \<noteq> CaseResolved \<and> case_rank (cs_state (pf_cases p ! i)) < case_rank (cs_state (pf_cases q ! i))) \<and>
    (p = platform_new mc cfg \<or> alerts_settled p \<and> cases_settled p \<longrightarrow>
      (\<forall>a < length (pf_alerts q). orderly alert_rank (pf_now q) (ar_history (pf_alerts q ! a)) (al_state (alert_at q a))) \<and>
      (\<forall>i < length (pf_cases q). cs_id (pf_cases q ! i) \<noteq> kNoId \<longrightarrow>
        orderly case_rank (pf_now q) (cs_history (pf_cases q ! i)) (cs_state (pf_cases q ! i))))"
proof -
  have k: "alerts_forward p q" "cases_forward p q" using history.runs_rel [OF assms] by (auto simp: history_kept_def)
  have s: "alerts_settled q \<and> cases_settled q" if "p = platform_new mc cfg \<or> alerts_settled p \<and> cases_settled p"
    using that k new_settled by (auto simp: alerts_forward_def cases_forward_def)
  have a: "alert_rank st < alert_rank st' \<Longrightarrow> alert_is_open st" for st st' by (cases st; cases st'; simp add: alert_is_open_def)
  have c: "case_rank st < case_rank st' \<Longrightarrow> st \<noteq> CaseResolved" for st st' by (cases st; cases st'; simp)
  show ?thesis using k s a c
    by (auto simp: alerts_forward_def cases_forward_def alerts_settled_def cases_settled_def alert_past_def case_past_def)
qed

text \<open>An alert raised at time 2, and acknowledged at time 5.\<close>

definition one_alert :: platform where
  "one_alert = blank_platform\<lparr>pf_now := 5, pf_alerts := [new_alert_record (blank_alert SosTriggered) kNoId False SrcApi 2]\<rparr>"

lemma one_alert_acknowledged: "runs_to one_alert (snd (acknowledge_alert principal_sys 0 one_alert))"
proof (rule runs_step [OF runs_here])
  show "platform_step one_alert (snd (acknowledge_alert principal_sys 0 one_alert))"
    by (rule step_acknowledge_alert) (rule surjective_pairing)
  show "ids_fit (snd (acknowledge_alert principal_sys 0 one_alert))"
    by (simp add: acknowledge_alert_def one_alert_def blank_platform_def platform_new_def set_alert_state_def Let_def modify_alert_def
        append_log_def split_def ids_fit_def kNoId_def set_active_flag_def modify_tracked_def)
qed

lemma one_alert_state: "alert_state_at 0 3 one_alert = (AlertOpen, True)"
  by (simp add: alert_state_at_def one_alert_def new_alert_record_def)

lemma past_readings_final_witness:
  "alert_state_at 0 3 (snd (acknowledge_alert principal_sys 0 one_alert)) = (AlertOpen, True)"
  using past_readings_final [OF one_alert_acknowledged, of 3 0 0] one_alert_state by (simp add: one_alert_def)

lemma alerts_and_cases_forward_witness:
  "orderly alert_rank (pf_now (snd (acknowledge_alert principal_sys 0 one_alert)))
     (ar_history (pf_alerts (snd (acknowledge_alert principal_sys 0 one_alert)) ! 0))
     (al_state (alert_at (snd (acknowledge_alert principal_sys 0 one_alert)) 0))"
proof -
  have s: "alerts_settled one_alert \<and> cases_settled one_alert"
    by (simp add: alerts_settled_def cases_settled_def alert_past_def alert_at_def one_alert_def blank_platform_def platform_new_def
        new_alert_record_def orderly_def blank_alert_def)
  have "length (pf_alerts (snd (acknowledge_alert principal_sys 0 one_alert))) = 1"
    by (simp add: acknowledge_alert_def one_alert_def set_alert_state_def Let_def modify_alert_def append_log_def split_def
        set_active_flag_def modify_tracked_def)
  then show ?thesis using alerts_and_cases_forward [OF one_alert_acknowledged, of undefined undefined] s by simp
qed

end
