(* ===== verification/Platform_Duty.thy ===== *)
theory Platform_Duty
  imports Platform_Evidence
begin

text \<open>
  Responders of the platform: whoever is assigned to an open incident is not available and is assigned to that incident only, in every
  reachable state.
\<close>

definition serves :: "platform \<Rightarrow> nat \<Rightarrow> incident_id \<Rightarrow> bool" where
  "serves p r i \<longleftrightarrow> i < length (pf_cases p) \<and> cs_state (pf_cases p ! i) \<noteq> CaseResolved \<and> cs_responder (pf_cases p ! i) = r \<and> r \<noteq> kNoId"

definition duty_ok :: "platform \<Rightarrow> bool" where
  "duty_ok p \<longleftrightarrow> length (pf_rinfo p) = length (pf_pool p) \<and>
     (\<forall>r i. serves p r i \<longrightarrow> r < length (pf_pool p) \<and> \<not> rs_available (pf_pool p ! r) \<and> ri_assigned (pf_rinfo p ! r) = i)"

definition duty_kept :: "platform \<Rightarrow> platform \<Rightarrow> bool" where
  "duty_kept p q \<longleftrightarrow> length (pf_cases p) \<le> length (pf_cases q) \<and> (length (pf_cases q) \<le> kNoId \<longrightarrow> duty_ok p \<longrightarrow> duty_ok q)"

lemma duty_keptI:
  assumes "pf_cases q = pf_cases p" "pf_pool q = pf_pool p" "pf_rinfo q = pf_rinfo p"
  shows "duty_kept p q"
  using assms by (simp add: duty_kept_def duty_ok_def serves_def)

lemma dispatch_duty:
  assumes "i < length (pf_cases p)" "cs_state (pf_cases p ! i) \<noteq> CaseResolved" "r < length (pf_pool p)" "r \<noteq> kNoId"
    "r \<noteq> cs_responder (pf_cases p ! i)" "rs_available (pf_pool p ! r)"
  shows "duty_kept p (dispatch_writes i r ro g p)"
proof -
  let ?q = "dispatch_writes i r ro g p" and ?prev = "cs_responder (pf_cases p ! i)"
  have c: "\<exists>c. pf_cases ?q = (pf_cases p)[i := c] \<and> cs_responder c = r \<and> cs_state c = CaseDispatched"
    using assms(1)
    by (auto simp: dispatch_writes_def Let_def modify_case_def set_case_state_def take_responder_def free_responder_def modify_responder_def
        modify_rinfo_def)
  have pool: "pf_pool ?q = (if ?prev \<noteq> kNoId \<and> ?prev < length (pf_pool p) then (pf_pool p)[?prev := (pf_pool p ! ?prev)\<lparr>rs_available := True\<rparr>] else pf_pool p)
      [r := (pf_pool p ! r)\<lparr>rs_available := False\<rparr>]"
    and info: "pf_rinfo ?q = (if ?prev \<noteq> kNoId \<and> ?prev < length (pf_pool p) then (pf_rinfo p)[?prev := (pf_rinfo p ! ?prev)\<lparr>ri_assigned := kNoId\<rparr>] else pf_rinfo p)
      [r := (pf_rinfo p ! r)\<lparr>ri_assigned := i\<rparr>]"
    using assms(5) by (simp_all add: dispatch_writes_def Let_def modify_case_def set_case_state_def take_responder_def free_responder_def
        modify_responder_def modify_rinfo_def)
  have "duty_ok ?q" if ok: "duty_ok p"
  proof -
    obtain c where c: "pf_cases ?q = (pf_cases p)[i := c]" "cs_responder c = r" using c by blast
    have len: "length (pf_rinfo p) = length (pf_pool p)" using ok by (simp add: duty_ok_def)
    have "r' < length (pf_pool ?q) \<and> \<not> rs_available (pf_pool ?q ! r') \<and> ri_assigned (pf_rinfo ?q ! r') = j" if s: "serves ?q r' j" for r' j
    proof (cases "j = i")
      case True
      then have "r' = r" using s c assms(1) by (simp add: serves_def)
      then show ?thesis using assms len True by (simp add: pool info)
    next
      case False
      then have "serves p r' j" using s by (simp add: serves_def c)
      then have r': "r' < length (pf_pool p)" "\<not> rs_available (pf_pool p ! r')" "ri_assigned (pf_rinfo p ! r') = j"
        using ok by (auto simp: duty_ok_def)
      have "r' \<noteq> r" using r'(2) assms(6) by blast
      moreover have "?prev \<noteq> kNoId \<Longrightarrow> ri_assigned (pf_rinfo p ! ?prev) = i"
        using ok assms(1,2) unfolding duty_ok_def serves_def by blast
      then have "?prev \<noteq> kNoId \<Longrightarrow> r' \<noteq> ?prev" using r'(3) False by blast
      ultimately show ?thesis using r' by (auto simp: pool info)
    qed
    then show ?thesis using len by (simp add: duty_ok_def pool info)
  qed
  then show ?thesis using c by (auto simp: duty_kept_def)
qed

lemma close_duty:
  assumes "i < length (pf_cases p)" "cs_state (pf_cases p ! i) \<noteq> CaseResolved"
  shows "duty_kept p (close_writes i w note p)"
proof -
  let ?q = "close_writes i w note p" and ?r = "cs_responder (pf_cases p ! i)"
  have c: "\<exists>c. pf_cases ?q = (pf_cases p)[i := c] \<and> cs_state c = CaseResolved"
    using assms(1) by (auto simp: close_writes_def Let_def modify_case_def set_case_state_def free_responder_def modify_responder_def modify_rinfo_def)
  have pool: "pf_pool ?q = (if ?r \<noteq> kNoId \<and> ?r < length (pf_pool p) then (pf_pool p)[?r := (pf_pool p ! ?r)\<lparr>rs_available := True\<rparr>] else pf_pool p)"
    and info: "pf_rinfo ?q = (if ?r \<noteq> kNoId \<and> ?r < length (pf_pool p) then (pf_rinfo p)[?r := (pf_rinfo p ! ?r)\<lparr>ri_assigned := kNoId\<rparr>] else pf_rinfo p)"
    by (simp_all add: close_writes_def Let_def modify_case_def set_case_state_def free_responder_def modify_responder_def modify_rinfo_def)
  have "duty_ok ?q" if ok: "duty_ok p"
  proof -
    obtain c where c: "pf_cases ?q = (pf_cases p)[i := c]" "cs_state c = CaseResolved" using c by blast
    have "r' < length (pf_pool ?q) \<and> \<not> rs_available (pf_pool ?q ! r') \<and> ri_assigned (pf_rinfo ?q ! r') = j" if s: "serves ?q r' j" for r' j
    proof -
      have j: "j \<noteq> i" using s c assms(1) by (auto simp: serves_def)
      then have "serves p r' j" using s by (simp add: serves_def c)
      then have r': "r' < length (pf_pool p)" "\<not> rs_available (pf_pool p ! r')" "ri_assigned (pf_rinfo p ! r') = j"
        using ok by (auto simp: duty_ok_def)
      have "?r \<noteq> kNoId \<Longrightarrow> ri_assigned (pf_rinfo p ! ?r) = i" using ok assms unfolding duty_ok_def serves_def by blast
      then have "?r \<noteq> kNoId \<Longrightarrow> r' \<noteq> ?r" using r'(3) j by blast
      then show ?thesis using r' by (auto simp: pool info)
    qed
    then show ?thesis using ok by (simp add: duty_ok_def pool info)
  qed
  then show ?thesis using c by (auto simp: duty_kept_def)
qed

text \<open>A change to a case that leaves its state open or closed and its responder.\<close>

lemma case_duty:
  assumes "pf_cases q = (pf_cases p)[i := c]" "pf_pool q = pf_pool p" "pf_rinfo q = pf_rinfo p"
    and "cs_responder c = cs_responder (pf_cases p ! i)" "cs_state (pf_cases p ! i) = CaseResolved \<longrightarrow> cs_state c = CaseResolved"
  shows "duty_kept p q"
proof -
  have "serves q r j \<Longrightarrow> serves p r j" for r j
    using assms by (cases "j = i") (auto simp: serves_def)
  then show ?thesis using assms(1-3) by (auto simp: duty_kept_def duty_ok_def)
qed

lemma note_duty: "duty_kept p (note_recommended i w m p)"
proof (cases "i < length (pf_cases p)")
  case True
  then show ?thesis
    by (intro case_duty [of _ _ i "(pf_cases p ! i)\<lparr>cs_recommended := w, cs_recommended_m := m\<rparr>"]) (simp_all add: note_recommended_def modify_case_def)
next
  case False
  then show ?thesis by (intro duty_keptI) (simp_all add: note_recommended_def modify_case_def list_update_beyond)
qed

lemma new_case_duty:
  assumes "length (pf_cases p) \<le> i"
  shows "duty_kept p (new_case i p)"
proof -
  let ?q = "new_case i p"
  have "serves ?q r j \<Longrightarrow> serves p r j" for r j
    using assms
    by (cases "j = i"; cases "j < length (pf_cases p)")
      (auto simp: serves_def new_case_def set_case_state_def modify_case_def resize_for_def case_blank_def nth_append nth_list_update)
  moreover have "length (pf_cases p) \<le> length (pf_cases ?q)" "pf_pool ?q = pf_pool p" "pf_rinfo ?q = pf_rinfo p"
    by (simp_all add: new_case_def set_case_state_def modify_case_def resize_for_def)
  ultimately show ?thesis by (auto simp: duty_kept_def duty_ok_def)
qed

lemma pool_duty:
  assumes "pf_cases q = pf_cases p" "length (pf_pool q) = length (pf_pool p)" "pf_rinfo q = pf_rinfo p"
    and "\<And>r. r < length (pf_pool p) \<Longrightarrow> (\<exists>i. serves p r i) \<Longrightarrow> rs_available (pf_pool q ! r) \<Longrightarrow> rs_available (pf_pool p ! r)"
  shows "duty_kept p q"
  using assms unfolding duty_kept_def duty_ok_def serves_def by (metis order_refl)

lemma info_duty:
  assumes "pf_cases q = pf_cases p" "pf_pool q = pf_pool p" "length (pf_rinfo q) = length (pf_rinfo p)"
    and "\<And>r. ri_assigned (pf_rinfo q ! r) = ri_assigned (pf_rinfo p ! r)"
  shows "duty_kept p q"
  using assms by (simp add: duty_kept_def duty_ok_def serves_def)

lemma snap_all_available: "map rs_available (fst (snap_all rs g)) = map rs_available rs"
  by (induction rs arbitrary: g) (simp_all add: split_def Let_def)

lemma availing_duty:
  assumes "r < length (pf_pool p)" "\<not> (ri_assigned (pf_rinfo p ! r) \<noteq> kNoId \<and> b)"
  shows "duty_kept p (modify_responder r (\<lambda>x. x\<lparr>rs_available := b\<rparr>) p)"
proof -
  let ?q = "modify_responder r (\<lambda>x. x\<lparr>rs_available := b\<rparr>) p"
  have "duty_ok ?q" if ok: "duty_ok p" and len: "length (pf_cases p) \<le> kNoId"
  proof -
    have "r' < length (pf_pool ?q) \<and> \<not> rs_available (pf_pool ?q ! r') \<and> ri_assigned (pf_rinfo ?q ! r') = i" if s: "serves ?q r' i" for r' i
    proof -
      have "serves p r' i" using s by (simp add: serves_def modify_responder_def)
      then have r': "r' < length (pf_pool p)" "\<not> rs_available (pf_pool p ! r')" "ri_assigned (pf_rinfo p ! r') = i" "i < length (pf_cases p)"
        using ok by (auto simp: duty_ok_def serves_def)
      then show ?thesis using assms len by (cases "r' = r") (auto simp: modify_responder_def)
    qed
    then show ?thesis using ok by (simp add: duty_ok_def modify_responder_def)
  qed
  then show ?thesis by (simp add: duty_kept_def modify_responder_def)
qed

lemma enlist_duty:
  assumes "enlist n t x k src acc p = (i, q)"
  shows "duty_kept p q"
proof -
  obtain r ri where "pf_pool q = pf_pool p @ [r]" "pf_rinfo q = pf_rinfo p @ [ri]" "pf_cases q = pf_cases p"
    using assms by (auto simp: enlist_def Let_def split_def pool_add_def)
  then show ?thesis unfolding duty_kept_def duty_ok_def serves_def by (auto simp: nth_append)
qed

interpretation duty: case_steps duty_kept
proof unfold_locales
  show "duty_kept p q \<Longrightarrow> duty_kept q r \<Longrightarrow> duty_kept p r" for p q r by (auto simp: duty_kept_def)
  show "duty_kept p (append_log e p)" for p e by (rule duty_keptI) (simp_all add: append_log_def split_def Let_def)
  show "duty_kept p (note_recommended i w m p)" for p i w m by (rule note_duty)
  show "length (pf_cases p) \<le> i \<Longrightarrow> duty_kept p (new_case i p)" for p i by (rule new_case_duty)
  show "i < length (pf_cases p) \<Longrightarrow> cs_state (pf_cases p ! i) \<noteq> CaseResolved \<Longrightarrow> duty_kept p (ack_writes i w p)" for p i w
    by (rule case_duty [of _ _ i "pf_cases (ack_writes i w p) ! i"])
      (auto simp: ack_writes_def Let_def modify_case_def set_case_state_def)
qed (auto intro: duty_keptI dispatch_duty close_duty simp: plain_writes)

interpretation duty: platform_layer duty_kept
proof unfold_locales
  show "resolve_incident w i n p = Some (out, q) \<Longrightarrow> duty_kept p q" for w i n p out q by (rule duty.resolves)
  show "acknowledge_incident w i p = (out, q) \<Longrightarrow> duty_kept p q" for w i p out q by (rule duty.case_acknowledges)
  show "enlist n t x k src acc p = (i, q) \<Longrightarrow> duty_kept p q" for n t x k src acc p i q by (rule enlist_duty)
  show "duty_kept p (audit_access w u what b p)" for p w u what b by (rule duty_keptI) (simp_all add: audit_access_def Let_def)
  show "duty_kept p (modify_responder r (\<lambda>y. y\<lparr>rs_pos := x, rs_node := nd\<rparr>) p)" for p r x nd
    by (rule pool_duty) (auto simp: modify_responder_def nth_list_update nth_update_out split: if_splits
      intro: nth_kept [of rs_available "\<lambda>y. y\<lparr>rs_pos := x, rs_node := nd\<rparr>", THEN iffD1])
  show "duty_kept p (modify_rinfo r (\<lambda>y. y\<lparr>ri_position_ms := t\<rparr>) p)" for p r t
    by (rule info_duty) (simp_all add: modify_rinfo_def nth_kept [of ri_assigned "\<lambda>y. y\<lparr>ri_position_ms := t\<rparr>"])
  show "duty_kept p (p\<lparr>pf_pool := fst (snap_all (pf_pool p) g)\<rparr>)" for p g
    using snap_all_available [of "pf_pool p" g] by (intro pool_duty) (auto simp: list_eq_iff_nth_eq)
  show "r < length (pf_pool p) \<Longrightarrow> \<not> (ri_assigned (pf_rinfo p ! r) \<noteq> kNoId \<and> b) \<Longrightarrow>
      duty_kept p (modify_responder r (\<lambda>x. x\<lparr>rs_available := b\<rparr>) p)" for p r b by (rule availing_duty)
qed (auto intro: duty_keptI simp: plain_writes)

lemma new_duty: "duty_ok (platform_new mc cfg)"
  by (simp add: platform_new_def duty_ok_def serves_def)

text \<open>C4: A responder serves one incident: from a new platform, and from any where this holds, every run keeps the responder assigned to
  an open incident in the pool, not available and recorded as assigned to just that incident, so that no responder is on two open
  incidents at once.\<close>

theorem one_incident_per_responder:
  assumes "runs_to p q" "p = platform_new mc cfg \<or> duty_ok p"
    and "i < length (pf_cases q)" "cs_state (pf_cases q ! i) \<noteq> CaseResolved" "cs_responder (pf_cases q ! i) \<noteq> kNoId"
  shows "cs_responder (pf_cases q ! i) < length (pf_pool q) \<and> \<not> rs_available (pf_pool q ! cs_responder (pf_cases q ! i)) \<and>
    ri_assigned (pf_rinfo q ! cs_responder (pf_cases q ! i)) = i \<and>
    (\<forall>j < length (pf_cases q). cs_state (pf_cases q ! j) \<noteq> CaseResolved \<and> cs_responder (pf_cases q ! j) = cs_responder (pf_cases q ! i) \<longrightarrow> j = i)"
proof -
  have "duty_ok p" using assms(2) new_duty by blast
  moreover have "p = q \<or> length (pf_cases q) < kNoId" using assms(1) by (cases rule: runs_to.cases) (auto simp: ids_fit_def)
  ultimately have "duty_ok q" using duty.runs_rel [OF assms(1)] by (auto simp: duty_kept_def)
  then show ?thesis using assms(3-5) unfolding duty_ok_def serves_def by blast
qed

text \<open>An open incident and a free responder, and the responder assigned to it.\<close>

definition one_case :: platform where
  "one_case = blank_platform
     \<lparr>pf_corr := (pf_corr blank_platform)\<lparr>co_incidents := [\<lparr>ic_id = 0, ic_status = IncidentOpen, opened_ms = 0, last_update_ms = 0, closed_ms = 0,
        centroid = \<lparr>lat = 0, lon = 0\<rparr>, ic_radius_m = 0, ic_alerts = [], affected = [], alert_positions = [], max_severity = 5\<rparr>]\<rparr>,
      pf_cases := [case_blank\<lparr>cs_id := 0\<rparr>],
      pf_pool := [\<lparr>rs_id = 0, rs_pos = \<lparr>lat = 0, lon = 0\<rparr>, rs_node = kNoNode, rs_available = True, rs_name = ''unit''\<rparr>],
      pf_rinfo := [\<lparr>ri_unit_type = ''medical'', ri_source = SrcApi, ri_account = kNoId, ri_assigned = kNoId, ri_position_ms = 0\<rparr>]\<rparr>"

lemma one_case_assigned:
  "\<exists>q. assign_incident principal_sys 0 0 one_case = Some (good 0, q) \<and> ids_fit q \<and> length (pf_cases q) = 1 \<and>
     cs_state (pf_cases q ! 0) = CaseDispatched \<and> cs_responder (pf_cases q ! 0) = 0"
  by (simp add: assign_incident_def one_case_def blank_platform_def platform_new_def is_staff_def principal_sys_def case_of_incident_def
      case_blank_def kNoId_def get_incident_def route_between_def rg_count_def rg_empty_def Let_def modify_case_def take_responder_def
      modify_responder_def modify_rinfo_def set_case_state_def move_alerts_def append_log_def split_def recommend_where_def
      needs_recommendation_def ids_fit_def)

lemma one_incident_per_responder_witness:
  "\<exists>q. platform_step one_case q \<and> ri_assigned (pf_rinfo q ! 0) = 0 \<and> \<not> rs_available (pf_pool q ! 0)"
proof -
  obtain q where q: "assign_incident principal_sys 0 0 one_case = Some (good 0, q)" "ids_fit q" "length (pf_cases q) = 1"
      "cs_state (pf_cases q ! 0) = CaseDispatched" "cs_responder (pf_cases q ! 0) = 0" using one_case_assigned by blast
  have st: "platform_step one_case q" using q(1) by (rule step_assign_incident)
  have ok: "p = platform_new undefined undefined \<or> duty_ok one_case" for p
    by (simp add: duty_ok_def serves_def one_case_def case_blank_def)
  show ?thesis
    using one_incident_per_responder [OF runs_step [OF runs_here st q(2)], of undefined undefined 0] ok st q(3-5) by (auto simp: kNoId_def)
qed

end
