(* ===== verification/Platform_Consent.thy ===== *)
theory Platform_Consent
  imports Platform_Evidence
begin

text \<open>
  Consent: whoever shares a location has consented to it, and a position is stored of nobody else, in every reachable state.
\<close>

definition consents :: "platform \<Rightarrow> nat \<Rightarrow> bool" where
  "consents p u \<longleftrightarrow> u < length (pf_users p) \<and> us_sharing (pf_users p ! u) \<and> us_consent (pf_users p ! u) \<and> us_active (pf_users p ! u) \<and>
     us_role (pf_users p ! u) = RTourist"

definition sharing_ok :: "platform \<Rightarrow> bool" where
  "sharing_ok p \<longleftrightarrow> (\<forall>u < length (pf_users p). us_sharing (pf_users p ! u) \<longrightarrow> consents p u) \<and> (\<forall>u. is_offline p u \<longrightarrow> consents p u)"

text \<open>The points stored of a user.\<close>

definition stored :: "platform \<Rightarrow> nat \<Rightarrow> trail_point set" where
  "stored p u = (case tracked_of p u of None \<Rightarrow> {} | Some tr \<Rightarrow> set (tk_trail tr))"

text \<open>Sharing stays in order, and only the people in a set may have gained a point.\<close>

definition consent_only :: "nat set \<Rightarrow> platform \<Rightarrow> platform \<Rightarrow> bool" where
  "consent_only U p q \<longleftrightarrow> (sharing_ok p \<longrightarrow> sharing_ok q) \<and> (\<forall>v. v \<notin> U \<longrightarrow> stored q v \<subseteq> stored p v)"

definition consent_step :: "platform \<Rightarrow> platform \<Rightarrow> bool" where
  "consent_step p q \<longleftrightarrow> (sharing_ok p \<longrightarrow> sharing_ok q \<and> (\<forall>v. stored q v \<subseteq> stored p v \<or> consents p v))"

lemma consent_onlyI:
  assumes "pf_users q = pf_users p" "pf_devices q = pf_devices p" "pf_tracked q = pf_tracked p"
  shows "consent_only U p q"
  using assms by (simp add: consent_only_def sharing_ok_def stored_def consents_def is_offline_def tracked_of_def)

text \<open>Only what these fields say of an account matters.\<close>

lemma sharing_okI:
  assumes "sharing_ok p" "\<And>u. u < length (pf_users q) \<Longrightarrow> us_sharing (pf_users q ! u) \<Longrightarrow> consents q u" "\<And>u. is_offline q u \<Longrightarrow> consents q u"
  shows "sharing_ok q"
  using assms by (simp add: sharing_ok_def)

lemma stored_modify: "(\<And>tr. tracked_of p u = Some tr \<Longrightarrow> set (tk_trail (f tr)) \<subseteq> set (tk_trail tr)) \<Longrightarrow> stored (modify_tracked u f p) v \<subseteq> stored p v"
  by (cases "v = u") (auto simp: stored_def modify_tracked_def tracked_of_def split: option.splits)

lemma stored_modify_other: "v \<noteq> u \<Longrightarrow> stored (modify_tracked u f p) v = stored p v"
  by (simp add: stored_def modify_tracked_def tracked_of_def)

lemma stored_ensure: "stored (ensure_tracked u p) v = stored p v"
  by (auto simp: stored_def ensure_tracked_def tracked_of_def Let_def nth_append tracked_new_def nth_list_update split: option.splits)

lemma stored_retention: "stored (enforce_retention t p) v \<subseteq> stored p v"
  by (auto simp: stored_def enforce_retention_def tracked_of_def Let_def split: option.splits dest: set_dropWhileD)

lemma users_at:
  "pf_users (modify_user u f p) ! v = (if v = u \<and> u < length (pf_users p) then f (pf_users p ! u) else pf_users p ! v)"
  "length (pf_users (modify_user u f p)) = length (pf_users p)" "is_offline (modify_user u f p) v = is_offline p v"
  "stored (modify_user u f p) v = stored p v"
  by (cases "u < length (pf_users p)") (simp_all add: modify_user_def nth_update_out is_offline_def stored_def tracked_of_def)

lemma consents_account:
  assumes "\<And>x. us_sharing (f x) = us_sharing x \<and> us_consent (f x) = us_consent x \<and> us_active (f x) = us_active x \<and> us_role (f x) = us_role x"
  shows "us_sharing (pf_users (modify_user u f p) ! v) = us_sharing (pf_users p ! v)" "consents (modify_user u f p) v = consents p v"
  using assms by (simp_all add: modify_user_def consents_def nth_kept [of us_sharing f] nth_kept [of us_consent f] nth_kept [of us_active f]
      nth_kept [of us_role f])

lemma account_consent:
  assumes "\<And>x. us_sharing (f x) = us_sharing x \<and> us_consent (f x) = us_consent x \<and> us_active (f x) = us_active x \<and> us_role (f x) = us_role x"
  shows "consent_only U p (modify_user u f p)"
  using consents_account [of f u p, OF assms]
  by (auto simp: consent_only_def sharing_ok_def stored_def tracked_of_def is_offline_def modify_user_def)

lemma tracked_consent: "(\<And>v. v \<notin> U \<Longrightarrow> stored q v \<subseteq> stored p v) \<Longrightarrow> pf_users q = pf_users p \<Longrightarrow> pf_devices q = pf_devices p \<Longrightarrow> consent_only U p q"
  by (simp add: consent_only_def sharing_ok_def consents_def is_offline_def)

lemma drop_consent: "consent_only U p (drop_device u p)"
  by (auto simp: consent_only_def sharing_ok_def consents_def is_offline_def stored_def tracked_of_def drop_device_def nth_list_update split: if_splits)

interpretation consent: free_cases "consent_only U" for U
proof unfold_locales
  show "consent_only U p q \<Longrightarrow> consent_only U q r \<Longrightarrow> consent_only U p r" for p q r by (auto simp: consent_only_def)
  show "consent_only U p (append_log e p)" for p e by (rule consent_onlyI) (simp_all add: append_log_def split_def Let_def)
  show "consent_only U p (set_active_flag u b p)" for p u b
    unfolding set_active_flag_def by (intro tracked_consent stored_modify) (simp_all add: modify_tracked_def)
qed (auto intro: consent_onlyI simp: plain_writes)

interpretation consent: quiet_layer "consent_only U" for U
proof unfold_locales
  show "resolve_incident w i n p = Some (out, q) \<Longrightarrow> consent_only U p q" for w i n p out q by (rule consent.resolves)
  show "acknowledge_incident w i p = (out, q) \<Longrightarrow> consent_only U p q" for w i p out q by (rule consent.case_acknowledges)
  show "enlist n t x k src acc p = (i, q) \<Longrightarrow> consent_only U p q" for n t x k src acc p i q by (rule consent.enlists)
  show "consent_only U p (audit_access w u what b p)" for p w u what b by (rule consent_onlyI) (simp_all add: audit_access_def Let_def)
  show "(\<And>x. same_account (h x) x) \<Longrightarrow> consent_only U p (modify_user u h p)" for h p u
    by (rule account_consent) (simp add: same_account_def)
  show "(\<And>tr. tracked_of p u = Some tr \<Longrightarrow> set (tk_trail (n tr)) \<subseteq> set (tk_trail tr)) \<Longrightarrow> consent_only U p (modify_tracked u n p)" for p u n
    by (intro tracked_consent stored_modify) (simp_all add: modify_tracked_def)
  show "consent_only U p (ensure_tracked u p)" for p u
    by (intro tracked_consent) (simp add: stored_ensure, simp_all add: ensure_tracked_def Let_def)
  show "consent_only U p (enforce_retention t p)" for p t
    by (intro tracked_consent stored_retention) (simp_all add: enforce_retention_def Let_def)
qed (auto intro: consent_onlyI simp: plain_writes)

interpretation consent: zone_writes "consent_only U" for U
  by unfold_locales (auto intro: consent_onlyI)

interpretation sync: trail_writes "consent_only {u}" u for u
proof unfold_locales
  show "consent_only {u} p (modify_tracked u n p)" for p n
    by (intro tracked_consent) (simp_all add: stored_modify_other, simp_all add: modify_tracked_def)
qed (rule drop_consent)

section \<open>The operations on accounts\<close>

lemma group_write_consent: "consent_only U p q \<Longrightarrow> consent_only U p (q\<lparr>pf_groups := gs\<rparr>)"
  by (erule consent.trans) (rule consent_onlyI; simp)

lemma account_consent': "consent_only U p q \<Longrightarrow>
    (\<And>x. us_sharing (f x) = us_sharing x \<and> us_consent (f x) = us_consent x \<and> us_active (f x) = us_active x \<and> us_role (f x) = us_role x) \<Longrightarrow>
    consent_only U p (modify_user u f q)"
  by (erule consent.trans) (rule account_consent)

lemma idle_consent:
  assumes "sharing_ok p \<Longrightarrow> \<not> us_sharing (pf_users p ! u)" "\<And>x. us_sharing (f x) = us_sharing x"
  shows "consent_only U p (modify_user u f p)"
proof -
  have "sharing_ok (modify_user u f p)" if ok: "sharing_ok p"
  proof -
    have sh: "us_sharing (pf_users (modify_user u f p) ! v) = us_sharing (pf_users p ! v)" for v
      using assms(2) by (simp add: modify_user_def nth_kept [of us_sharing f])
    moreover have "pf_users (modify_user u f p) ! v = pf_users p ! v" if "us_sharing (pf_users p ! v)" for v
      using that assms(1) ok by (cases "v = u") (auto simp: modify_user_def)
    ultimately show ?thesis using ok by (auto simp: sharing_ok_def consents_def is_offline_def) (simp_all add: modify_user_def)
  qed
  then show ?thesis by (simp add: consent_only_def stored_def tracked_of_def modify_user_def)
qed

lemma enrol_consent:
  assumes "\<not> us_sharing x"
  shows "consent_only U p (p\<lparr>pf_by_name := ns, pf_users := pf_users p @ [x]\<rparr>)"
  using assms
  by (auto simp: consent_only_def sharing_ok_def consents_def is_offline_def stored_def tracked_of_def nth_append less_Suc_eq)

lemma create_user_consent: "create_user salt w n d r pw src p = Some (out, q) \<Longrightarrow> consent_only U p q"
  by (auto simp: create_user_def Let_def bind_eq_Some_conv consent.refl split: if_splits
      intro!: consent.user_entry' consent.ensure_tracked' enrol_consent simp: account_new_def)

lemma end_session_consent:
  assumes "\<And>x. \<not> us_sharing (f x)" "\<And>tr. set (tk_trail (n tr)) \<subseteq> set (tk_trail tr)"
  shows "consent_only U p (drop_device u (modify_tracked u n (ensure_tracked u (modify_user u f p))))"
proof -
  let ?q = "drop_device u (modify_tracked u n (ensure_tracked u (modify_user u f p)))"
  have q: "pf_users ?q = pf_users (modify_user u f p)" "is_offline ?q v \<longleftrightarrow> is_offline p v \<and> v \<noteq> u" for v
    by (cases "v = u"; simp add: drop_device_def modify_tracked_def ensure_tracked_def modify_user_def Let_def is_offline_def)+
  have "stored ?q v \<subseteq> stored p v" for v
    using stored_modify [of "ensure_tracked u (modify_user u f p)" u n v] assms(2)
    by (auto simp: stored_ensure) (auto simp: stored_def tracked_of_def drop_device_def modify_user_def split: if_splits)
  moreover have "sharing_ok ?q" if "sharing_ok p"
    using that assms(1) by (auto simp: sharing_ok_def consents_def q users_at split: if_splits)
  ultimately show ?thesis by (simp add: consent_only_def)
qed

lemma stop_sharing_consent: "stop_sharing w u p = (out, q) \<Longrightarrow> consent_only U p q"
  by (auto simp: stop_sharing_def Let_def rebuild_groups_of_def consent.refl split: if_splits option.splits
      intro!: group_write_consent consent.user_entry' account_consent' end_session_consent)

lemma stop_sharing_stops:
  "us_sharing (pf_users (snd (stop_sharing w u p)) ! u) \<Longrightarrow> \<not> is_self w u \<or> user_of p u = None"
  by (auto simp: stop_sharing_def Let_def rebuild_groups_of_def user_entry_def append_log_def split_def modify_user_def drop_device_def
      modify_tracked_def ensure_tracked_def user_of_def split: if_splits option.splits)

lemma stop_first: "consent_only U p (if b then snd (stop_sharing w u p) else p)"
  using stop_sharing_consent [of w u p] by (cases "stop_sharing w u p") (auto simp: consent.refl)

lemma set_active_consent:
  assumes "set_active w u a p = (out, q)"
  shows "consent_only U p q"
proof (cases "is_admin w \<and> user_of p u \<noteq> None")
  case True
  then obtain usr where usr: "user_of p u = Some usr" "usr = pf_users p ! u" "u < length (pf_users p)" by (auto simp: user_of_def split: if_splits)
  let ?p1 = "if \<not> a \<and> us_sharing usr then snd (stop_sharing principal_sys u p) else p"
  have q: "q = user_entry LgUserUpdated w u (if a then ''activated'' else ''deactivated'') (modify_user u (\<lambda>x. x\<lparr>us_active := a\<rparr>) ?p1)"
    using assms True usr by (simp add: set_active_def Let_def)
  have "consent_only U ?p1 (modify_user u (\<lambda>x. x\<lparr>us_active := a\<rparr>) ?p1)"
  proof (cases a)
    case True
    then show ?thesis by (auto simp: consent_only_def sharing_ok_def consents_def users_at)
  next
    case False
    have "\<not> us_sharing (pf_users ?p1 ! u)" using stop_sharing_stops [of principal_sys u p] usr False by (auto simp: is_self_def principal_sys_def)
    then show ?thesis by (intro idle_consent) simp_all
  qed
  then show ?thesis unfolding q by (rule consent.user_entry' [OF consent.trans [OF stop_first]])
next
  case False
  then show ?thesis using assms by (auto simp: set_active_def consent.refl split: if_splits option.splits)
qed

lemma set_consent_consent:
  assumes "set_consent w u c p = (out, q)"
  shows "consent_only U p q"
proof (cases "q = p")
  case False
  then obtain usr where usr: "user_of p u = Some usr" "usr = pf_users p ! u" "u < length (pf_users p)" "is_self w u" "us_consent usr \<noteq> c"
    using assms by (auto simp: set_consent_def user_of_def split: if_splits)
  let ?p1 = "if \<not> c \<and> us_sharing usr then snd (stop_sharing w u p) else p"
  have q: "\<exists>k. q = user_entry k w u [] (modify_user u (\<lambda>x. x\<lparr>us_consent := c, us_consent_ms := pf_now ?p1\<rparr>) ?p1)"
    using assms usr False by (auto simp: set_consent_def Let_def split: if_splits)
  have "sharing_ok ?p1 \<Longrightarrow> \<not> us_sharing (pf_users ?p1 ! u)"
    using stop_sharing_stops [of w u p] usr by (auto simp: sharing_ok_def consents_def)
  then have "consent_only U ?p1 (modify_user u (\<lambda>x. x\<lparr>us_consent := c, us_consent_ms := pf_now ?p1\<rparr>) ?p1)"
    by (rule idle_consent) simp_all
  then have "consent_only U p (modify_user u (\<lambda>x. x\<lparr>us_consent := c, us_consent_ms := pf_now ?p1\<rparr>) ?p1)" by (rule consent.trans [OF stop_first])
  then show ?thesis using q by (auto intro: consent.user_entry')
qed (simp add: consent.refl)

lemma begin_consent:
  assumes "u < length (pf_users p) \<Longrightarrow> us_consent (pf_users p ! u) \<and> us_active (pf_users p ! u) \<and> us_role (pf_users p ! u) = RTourist"
    and "\<And>x. us_sharing (f x) \<and> us_consent (f x) = us_consent x \<and> us_active (f x) = us_active x \<and> us_role (f x) = us_role x"
  shows "consent_only U p (modify_user u f p)"
  using assms
  by (auto simp: consent_only_def sharing_ok_def consents_def users_at)

lemma start_sharing_consent: "start_sharing w u p = (out, q) \<Longrightarrow> consent_only U p q"
  by (auto simp: start_sharing_def Let_def user_of_def fresh_session_def consent.refl split: if_splits option.splits
      intro!: consent.user_entry' consent.track_kept' consent.ensure_tracked' begin_consent)

lemma remove_member_consent: "remove_member w g u p = (out, q) \<Longrightarrow> consent_only U p q"
  by (auto simp: remove_member_def Let_def modify_group_def consent.refl split: if_splits
      intro!: consent.group_entry' group_write_consent account_consent')

lemma add_member_consent:
  assumes "add_member w g u p = (out, q)"
  shows "consent_only U p q"
proof -
  have *: "consent_only U p (snd (remove_member w h u p))" for h
    by (cases "remove_member w h u p") (auto intro: remove_member_consent)
  show ?thesis using assms
    by (auto simp: add_member_def Let_def modify_group_def consent.refl split: if_splits option.splits
        intro!: consent.group_entry' group_write_consent account_consent' *)
qed

lemma create_group_consent: "create_group w n src p = (out, q) \<Longrightarrow> consent_only U p q"
  by (auto simp: create_group_def Let_def consent.refl split: if_splits intro!: consent.logging' group_write_consent)

section \<open>Positions\<close>

lemma consents_guard:
  assumes "user_of p u = Some usr" "\<not> (us_role usr \<noteq> RTourist \<or> \<not> us_active usr \<or> \<not> us_consent usr \<or> \<not> us_sharing usr)"
  shows "consents p u"
  using assms by (auto simp: user_of_def consents_def split: if_splits)

lemma ingest_fix_consent:
  assumes "ingest_fix w u i p = Some (out, q)"
  shows "consent_step p q"
proof (cases "consents p u")
  case True
  then show ?thesis using sync.ingest_fix_rel [OF assms] by (auto simp: consent_step_def consent_only_def)
next
  case False
  have "consent_only {} p q" using assms False consents_guard [of p u]
    by (auto simp: ingest_fix_def Let_def consent.refl split: option.splits if_splits intro: consent.counting)
  then show ?thesis by (auto simp: consent_step_def consent_only_def)
qed

lemma reconnect_consent:
  assumes "reconnect w u n p = Some (out, rpt, q)"
  shows "consent_step p q"
proof (cases "is_offline p u")
  case True
  then show ?thesis using sync.reconnect_rel [OF assms] by (auto simp: consent_step_def consent_only_def sharing_ok_def)
next
  case False
  then have "q = p" using assms by (auto simp: reconnect_def split: if_splits)
  then show ?thesis by (simp add: consent_step_def)
qed

lemma device_fix_consent:
  assumes "device_fix u i p = (out, q)"
  shows "consent_only U p q"
proof (cases "q = p")
  case False
  obtain d where "q = p\<lparr>pf_devices := (pf_devices p)[u := Some d]\<rparr>" "is_offline p u"
    using assms False by (auto simp: device_fix_def Let_def split_def split: if_splits)
  then have "is_offline q v = is_offline p v" "pf_users q = pf_users p" "pf_tracked q = pf_tracked p" for v
    by (cases "v = u"; simp add: is_offline_def)+
  then show ?thesis by (simp add: consent_only_def sharing_ok_def consents_def stored_def tracked_of_def)
qed (simp add: consent.refl)

lemma go_offline_consent:
  assumes "go_offline w u sk p = (out, q)"
  shows "consent_only U p q"
proof (cases "q = p")
  case False
  obtain d where d: "q = modify_user u (\<lambda>x. x\<lparr>us_connected := False\<rparr>) ((ensure_tracked u p)\<lparr>pf_devices := (resize_for u None (pf_devices p))[u := Some d]\<rparr>)"
    and u: "u < length (pf_users p)" "us_sharing (pf_users p ! u)"
    using assms False
    by (auto simp: go_offline_def Let_def user_of_def ensure_tracked_def split: if_splits option.splits)
  let ?p1 = "ensure_tracked u p" and ?ds = "(resize_for u None (pf_devices p))[u := Some d]"
  have off: "is_offline (?p1\<lparr>pf_devices := ?ds\<rparr>) v \<Longrightarrow> v = u \<or> is_offline p v" for v
    by (cases "v = u") (auto simp: is_offline_def resize_for_def nth_append split: if_splits)
  have "consent_only U ?p1 (?p1\<lparr>pf_devices := ?ds\<rparr>)"
  proof -
    have "sharing_ok (?p1\<lparr>pf_devices := ?ds\<rparr>)" if ok: "sharing_ok ?p1"
    proof -
      have "is_offline p v = is_offline ?p1 v" "consents (?p1\<lparr>pf_devices := ?ds\<rparr>) v = consents ?p1 v"
        "pf_users (?p1\<lparr>pf_devices := ?ds\<rparr>) = pf_users ?p1" "pf_users ?p1 = pf_users p" for v
        by (simp_all add: is_offline_def ensure_tracked_def Let_def consents_def)
      then show ?thesis using ok off u by (fastforce simp: sharing_ok_def)
    qed
    then show ?thesis by (simp add: consent_only_def stored_def tracked_of_def)
  qed
  then have "consent_only U p (?p1\<lparr>pf_devices := ?ds\<rparr>)" by (rule consent.trans [OF consent.ensuring])
  then show ?thesis unfolding d by (rule account_consent') simp
qed (simp add: consent.refl)

section \<open>Every step\<close>

lemma consent_quiet: "consent_only {} p q \<Longrightarrow> consent_step p q"
  by (auto simp: consent_step_def consent_only_def)

interpretation consent: step_layer "consent_only {}" consent_step
  by unfold_locales
    (rule consent_quiet, assumption |
     rule ingest_fix_consent reconnect_consent, assumption |
     rule consent_quiet, rule create_user_consent set_active_consent set_consent_consent start_sharing_consent stop_sharing_consent
       create_group_consent add_member_consent remove_member_consent go_offline_consent device_fix_consent consent.create_zone_rel
       consent.update_zone_rel consent.delete_zone_rel consent.set_zone_validity_rel consent.set_zone_dwell_rel consent.import_rel
       consent.load_zones_rel, assumption)+

lemma new_sharing: "sharing_ok (platform_new mc cfg)"
  by (simp add: platform_new_def sharing_ok_def is_offline_def)

lemma runs_sharing: "runs_to p q \<Longrightarrow> sharing_ok p \<Longrightarrow> sharing_ok q"
proof (induction rule: runs_to.induct)
  case (runs_step q r)
  then show ?case using consent.step_S [of q r] by (simp add: consent_step_def)
qed

text \<open>C2: No position is kept without consent: from a new platform, and from any where this holds, every run keeps it so that whoever
  shares a location is a tourist with an active account who has consented, and that only of such a person a device is offline; and a
  step that puts a point into somebody's trail, live or synchronised late, finds that person consenting and sharing.\<close>

theorem positions_need_consent:
  assumes "runs_to p q" "platform_step q r" "p = platform_new mc cfg \<or> sharing_ok p"
  shows "(\<forall>u < length (pf_users q). us_sharing (pf_users q ! u) \<or> is_offline q u \<longrightarrow>
      us_consent (pf_users q ! u) \<and> us_active (pf_users q ! u) \<and> us_role (pf_users q ! u) = RTourist \<and> us_sharing (pf_users q ! u)) \<and>
    (\<forall>u tr. tracked_of r u = Some tr \<and>
        \<not> set (tk_trail tr) \<subseteq> (case tracked_of q u of None \<Rightarrow> {} | Some tr' \<Rightarrow> set (tk_trail tr')) \<longrightarrow>
      u < length (pf_users q) \<and> us_consent (pf_users q ! u) \<and> us_sharing (pf_users q ! u) \<and> us_active (pf_users q ! u) \<and>
      us_role (pf_users q ! u) = RTourist)"
proof -
  have ok: "sharing_ok q" using assms(1,3) new_sharing runs_sharing by blast
  then have "consents q u" if "tracked_of r u = Some tr" "\<not> set (tk_trail tr) \<subseteq> stored q u" for u tr
    using consent.step_S [OF assms(2)] that unfolding consent_step_def stored_def by (metis option.simps(5))
  then show ?thesis using ok unfolding sharing_ok_def consents_def stored_def by blast
qed

text \<open>Somebody who shares, with a fix at time 100, sends one taken at 50.\<close>

definition late_user :: platform where
  "late_user = blank_platform
     \<lparr>pf_now := 100,
      pf_users := [(account_new 0 ''ann'' ''Ann'' RTourist SrcApi [] 0)\<lparr>us_consent := True, us_sharing := True\<rparr>],
      pf_tracked := [Some ((tracked_new 0)\<lparr>tk_has_fix := True, tk_last_fix_ms := 100\<rparr>)]\<rparr>"

definition old_fix :: fix_input where
  "old_fix = \<lparr>fi_lat = 1, fi_lon = 1, fi_accuracy_m = 10, fi_t_ms = 50, fi_seq = 0\<rparr>"

lemma late_user_stored:
  "\<exists>out r. ingest_fix principal_sys 0 old_fix late_user = Some (out, r) \<and> (\<exists>tr. tracked_of r 0 = Some tr \<and> tk_trail tr \<noteq> [])"
  by (simp add: ingest_fix_def late_user_def old_fix_def blank_platform_def platform_new_def user_of_def is_self_def principal_sys_def
      account_new_def is_offline_def ensure_tracked_def tracked_of_def Let_def fix_error_def fix_point_def ll_valid_def is_duplicate_def
      is_stale_def platform_config_default_def modify_tracked_def count_in_def trail_insert_def upper_pos_def tracked_new_def)

lemma positions_need_consent_witness:
  "\<exists>r tr. platform_step late_user r \<and> tracked_of r 0 = Some tr \<and> tk_trail tr \<noteq> [] \<and> us_consent (pf_users late_user ! 0)"
proof -
  obtain out r tr where r: "ingest_fix principal_sys 0 old_fix late_user = Some (out, r)" "tracked_of r 0 = Some tr" "tk_trail tr \<noteq> []"
    using late_user_stored by blast
  have st: "platform_step late_user r" using r(1) by (rule step_ingest_fix)
  have "sharing_ok late_user"
    by (simp add: sharing_ok_def consents_def late_user_def account_new_def is_offline_def blank_platform_def platform_new_def)
  moreover have "(case tracked_of late_user 0 of None \<Rightarrow> {} | Some tr' \<Rightarrow> set (tk_trail tr')) = {}"
    by (simp add: late_user_def tracked_of_def tracked_new_def)
  ultimately show ?thesis
    using positions_need_consent [OF runs_here st] r st by (fastforce simp: late_user_def tracked_of_def tracked_new_def)
qed

end
