(* ===== verification/Platform_Groups.thy ===== *)
theory Platform_Groups
  imports Platform_Evidence
begin

text \<open>
  Groups: the lists of members and the group an account names agree, in every reachable state.
\<close>

definition members_of :: "platform \<Rightarrow> nat \<Rightarrow> nat list" where
  "members_of p g = gr_members (pf_groups p ! g)"

definition membership_ok :: "platform \<Rightarrow> bool" where
  "membership_ok p \<longleftrightarrow> (\<forall>g < length (pf_groups p). distinct (members_of p g) \<and>
     (\<forall>u. u \<in> set (members_of p g) \<longleftrightarrow> u < length (pf_users p) \<and> us_group (pf_users p ! u) = g)) \<and>
     (\<forall>u < length (pf_users p). us_group (pf_users p ! u) < length (pf_groups p) \<or> us_group (pf_users p ! u) = kNoId)"

text \<open>No user is lost, and as long as the ids last, membership stays in order.\<close>

definition membership_kept :: "platform \<Rightarrow> platform \<Rightarrow> bool" where
  "membership_kept p q \<longleftrightarrow> length (pf_groups p) \<le> length (pf_groups q) \<and>
     (length (pf_groups q) \<le> kNoId \<longrightarrow> membership_ok p \<longrightarrow> membership_ok q)"

lemma membership_keptI:
  assumes "length (pf_users q) = length (pf_users p)" "\<And>u. us_group (pf_users q ! u) = us_group (pf_users p ! u)"
    and "length (pf_groups q) = length (pf_groups p)" "\<And>g. g < length (pf_groups p) \<Longrightarrow> members_of q g = members_of p g"
  shows "membership_kept p q"
  using assms by (simp add: membership_kept_def membership_ok_def)

lemma membership_same: "pf_users q = pf_users p \<Longrightarrow> pf_groups q = pf_groups p \<Longrightarrow> membership_kept p q"
  by (rule membership_keptI) (simp_all add: members_of_def)

lemma users_write: "(\<And>x. us_group (f x) = us_group x) \<Longrightarrow> membership_kept p (modify_user u f p)"
  by (rule membership_keptI) (simp_all add: modify_user_def members_of_def nth_kept [of us_group f])

lemma group_write:
  assumes "gr_members (m (pf_groups p ! gi)) = gr_members (pf_groups p ! gi)"
  shows "membership_kept p (modify_group gi m p)"
proof (rule membership_keptI)
  show "members_of (modify_group gi m p) g = members_of p g" for g
    using assms by (cases "gi < length (pf_groups p)"; cases "g = gi") (simp_all add: members_of_def modify_group_def nth_update_out)
qed (simp_all add: modify_group_def)

interpretation membership: free_cases membership_kept
proof unfold_locales
  show "membership_kept p q \<Longrightarrow> membership_kept q r \<Longrightarrow> membership_kept p r" for p q r by (auto simp: membership_kept_def)
  show "membership_kept p (append_log e p)" for p e by (rule membership_same) (simp_all add: append_log_def split_def Let_def)
qed (auto intro: membership_same simp: plain_writes)

interpretation membership: quiet_layer membership_kept
proof unfold_locales
  show "resolve_incident w i n p = Some (out, q) \<Longrightarrow> membership_kept p q" for w i n p out q by (rule membership.resolves)
  show "acknowledge_incident w i p = (out, q) \<Longrightarrow> membership_kept p q" for w i p out q by (rule membership.case_acknowledges)
  show "enlist n t x k src acc p = (i, q) \<Longrightarrow> membership_kept p q" for n t x k src acc p i q by (rule membership.enlists)
  show "membership_kept p (audit_access w u what b p)" for p w u what b by (rule membership_same) (simp_all add: audit_access_def Let_def)
  show "(\<And>x. same_account (h x) x) \<Longrightarrow> membership_kept p (modify_user u h p)" for h p u
    by (rule users_write) (simp add: same_account_def)
  show "same_group (m (pf_groups p ! gi)) (pf_groups p ! gi) \<Longrightarrow> membership_kept p (modify_group gi m p)" for m p gi
    by (rule group_write) (simp add: same_group_def)
qed (auto intro: membership_same simp: plain_writes)

interpretation membership: zone_writes membership_kept
  by unfold_locales (auto intro: membership_same)

interpretation membership: trail_writes membership_kept u for u
  by unfold_locales (auto intro: membership_same simp: plain_writes drop_device_def)

section \<open>The operations on accounts\<close>

lemma users_write': "membership_kept p q \<Longrightarrow> (\<And>x. us_group (f x) = us_group x) \<Longrightarrow> membership_kept p (modify_user u f q)"
  by (erule membership.trans) (rule users_write)

lemma enrol_membership:
  assumes "us_group x = kNoId"
  shows "membership_kept p (p\<lparr>pf_by_name := ns, pf_users := pf_users p @ [x]\<rparr>)"
  using assms by (auto simp: membership_kept_def membership_ok_def members_of_def nth_append less_Suc_eq)

lemma create_user_membership: "create_user salt w n d r pw src p = Some (out, q) \<Longrightarrow> membership_kept p q"
  by (auto simp: create_user_def Let_def bind_eq_Some_conv membership.refl account_new_def split: if_splits
      intro!: membership.user_entry' membership.ensure_tracked' enrol_membership)

lemma rebuild_membership: "membership_kept p q \<Longrightarrow> membership_kept p (rebuild_groups_of u q)"
  by (erule membership.trans, rule membership_keptI) (auto simp: rebuild_groups_of_def members_of_def rebuild_monitor_def)

lemma stop_sharing_membership: "stop_sharing w u p = (out, q) \<Longrightarrow> membership_kept p q"
  by (auto simp: stop_sharing_def Let_def membership.refl split: if_splits option.splits
      intro!: rebuild_membership membership.user_entry' users_write' membership.drop_device_u membership.modify_tracked_u
        membership.ensure_tracked')

lemma stop_membership: "membership_kept p (if b then snd (stop_sharing w u p) else p)"
  using stop_sharing_membership [of w u p] by (cases "stop_sharing w u p") (auto simp: membership.refl)

lemma set_active_membership: "set_active w u a p = (out, q) \<Longrightarrow> membership_kept p q"
  by (auto simp: set_active_def Let_def membership.refl split: if_splits option.splits
      intro!: membership.user_entry' users_write' stop_membership [where b = True, simplified])

lemma set_consent_membership: "set_consent w u c p = (out, q) \<Longrightarrow> membership_kept p q"
  by (auto simp: set_consent_def Let_def membership.refl split: if_splits option.splits
      intro!: membership.user_entry' users_write' stop_membership [where b = True, simplified])

lemma start_sharing_membership: "start_sharing w u p = (out, q) \<Longrightarrow> membership_kept p q"
  by (auto simp: start_sharing_def Let_def membership.refl split: if_splits option.splits
      intro!: membership.user_entry' users_write' membership.modify_tracked_u membership.ensure_tracked')

lemma devices_write: "membership_kept p q \<Longrightarrow> membership_kept p (q\<lparr>pf_devices := ds\<rparr>)"
  by (erule membership.trans) (rule membership_same; simp)

lemma go_offline_membership: "go_offline w u sk p = (out, q) \<Longrightarrow> membership_kept p q"
  by (auto simp: go_offline_def Let_def membership.refl split: if_splits option.splits
      intro!: users_write' devices_write membership.ensuring)

lemma device_fix_membership: "device_fix u i p = (out, q) \<Longrightarrow> membership_kept p q"
  by (auto simp: device_fix_def Let_def split_def membership.refl split: if_splits intro!: membership_same)

section \<open>The operations on groups\<close>

lemma entry_parts [simp]:
  "pf_users (group_entry w g u d p) = pf_users p" "pf_groups (group_entry w g u d p) = pf_groups p"
  by (simp_all add: group_entry_def append_log_def split_def Let_def)

lemma create_group_membership:
  assumes "create_group w n src p = (out, q)"
  shows "membership_kept p q"
proof (cases "q = p")
  case False
  obtain g where "pf_groups q = pf_groups p @ [g]" "gr_members g = []" "pf_users q = pf_users p"
    using assms False
    by (auto simp: create_group_def Let_def append_log_def split_def rebuild_monitor_def group_new_def split: if_splits)
  then show ?thesis by (auto simp: membership_kept_def membership_ok_def members_of_def nth_append less_Suc_eq)
qed (simp add: membership.refl)

text \<open>What leaving and joining do.\<close>

lemma remove_member_effect:
  assumes "is_staff w" "g < length (pf_groups p)" "u \<in> set (members_of p g)"
  defines "q \<equiv> snd (remove_member w g u p)"
  shows "length (pf_users q) = length (pf_users p)" "length (pf_groups q) = length (pf_groups p)"
    and "v < length (pf_users p) \<Longrightarrow> us_group (pf_users q ! v) = (if v = u then kNoId else us_group (pf_users p ! v))"
    and "h < length (pf_groups p) \<Longrightarrow> members_of q h = (if h = g then remove1 u (members_of p h) else members_of p h)"
  using assms(1-3)
  by (auto simp: q_def remove_member_def Let_def modify_group_def modify_user_def members_of_def rebuild_monitor_def nth_list_update)

lemma remove_member_membership:
  assumes "remove_member w g u p = (out, q)"
  shows "membership_kept p q"
proof (cases "q = p")
  case False
  then have g: "is_staff w" "g < length (pf_groups p)" "u \<in> set (members_of p g)"
    using assms by (auto simp: remove_member_def members_of_def split: if_splits)
  have q: "q = snd (remove_member w g u p)" using assms by simp
  note e = remove_member_effect [OF g, folded q]
  have "membership_ok q" if ok: "membership_ok p" and len: "length (pf_groups q) \<le> kNoId"
  proof -
    have u: "u < length (pf_users p)" "us_group (pf_users p ! u) = g" using ok g(2,3) by (auto simp: membership_ok_def)
    then show ?thesis using ok len g(2) e by (auto simp: membership_ok_def split: if_splits)
  qed
  then show ?thesis by (simp add: membership_kept_def e)
qed (simp add: membership.refl)

lemma join_membership:
  assumes "g < length (pf_groups p)" "u < length (pf_users p)"
    and "membership_ok p \<Longrightarrow> length (pf_groups p) \<le> kNoId \<Longrightarrow> us_group (pf_users p ! u) = kNoId"
    and "length (pf_users q) = length (pf_users p)" "length (pf_groups q) = length (pf_groups p)"
    and "\<And>v. v < length (pf_users p) \<Longrightarrow> us_group (pf_users q ! v) = (if v = u then g else us_group (pf_users p ! v))"
    and "\<And>h. h < length (pf_groups p) \<Longrightarrow> members_of q h = (if h = g then members_of p h @ [u] else members_of p h)"
  shows "membership_kept p q"
proof -
  have "membership_ok q" if ok: "membership_ok p" and len: "length (pf_groups p) \<le> kNoId"
  proof -
    have "us_group (pf_users p ! u) = kNoId" using assms(3) ok len by blast
    then have "u \<notin> set (members_of p h)" if "h < length (pf_groups p)" for h using ok len that by (auto simp: membership_ok_def)
    then show ?thesis using ok len assms by (auto simp: membership_ok_def)
  qed
  then show ?thesis using assms(5) by (simp add: membership_kept_def)
qed

lemma add_member_membership:
  assumes "add_member w g u p = (out, q)"
  shows "membership_kept p q"
proof (cases "q = p")
  case False
  let ?usr = "pf_users p ! u"
  let ?p1 = "if us_group ?usr \<noteq> kNoId \<and> us_group ?usr < length (pf_groups p) then snd (remove_member w (us_group ?usr) u p) else p"
  have g: "is_staff w" "g < length (pf_groups p)" "u < length (pf_users p)"
    using assms False by (auto simp: add_member_def user_of_def split: if_splits option.splits)
  have q: "q = group_entry w g u ''joined'' (modify_group g rebuild_monitor (modify_user u (\<lambda>x. x\<lparr>us_group := g\<rparr>)
      (modify_group g (\<lambda>r. r\<lparr>gr_members := gr_members r @ [u]\<rparr>) ?p1)))"
    using assms False g by (auto simp: add_member_def Let_def user_of_def split: if_splits)
  have rm: "membership_kept p ?p1"
    using remove_member_membership [of w "us_group ?usr" u p] by (cases "remove_member w (us_group ?usr) u p") (auto simp: membership.refl)
  have len: "length (pf_groups ?p1) = length (pf_groups p)" "length (pf_users ?p1) = length (pf_users p)"
    by (auto simp: remove_member_def Let_def modify_group_def modify_user_def)
  have free: "us_group (pf_users ?p1 ! u) = kNoId" if ok: "membership_ok ?p1" "membership_ok p" "length (pf_groups p) \<le> kNoId"
  proof (cases "us_group ?usr \<noteq> kNoId \<and> us_group ?usr < length (pf_groups p)")
    case True
    then have "u \<in> set (members_of p (us_group ?usr))" using ok(2) g(3) by (auto simp: membership_ok_def)
    then show ?thesis using True remove_member_effect(3) [OF g(1), of "us_group ?usr" p u u] g(3) by simp
  next
    case False
    then show ?thesis using ok(2) g(3) by (auto simp: membership_ok_def)
  qed
  show ?thesis
  proof (cases "membership_ok p \<and> length (pf_groups p) \<le> kNoId")
    case True
    then have "membership_kept ?p1 q"
      using g len free by (intro join_membership [of g ?p1 u])
        (auto simp: q modify_group_def modify_user_def members_of_def rebuild_monitor_def nth_list_update)
    then show ?thesis by (rule membership.trans [OF rm])
  next
    case False
    then show ?thesis by (auto simp: membership_kept_def q modify_group_def modify_user_def len simp del: if_split_asm)
  qed
qed (simp add: membership.refl)

section \<open>Every step\<close>

interpretation membership: step_layer membership_kept membership_kept
  by unfold_locales
    (assumption |
     rule create_user_membership set_active_membership set_consent_membership start_sharing_membership stop_sharing_membership
       create_group_membership add_member_membership remove_member_membership go_offline_membership device_fix_membership
       membership.ingest_fix_rel membership.reconnect_rel membership.create_zone_rel membership.update_zone_rel membership.delete_zone_rel
       membership.set_zone_validity_rel membership.set_zone_dwell_rel membership.import_rel membership.load_zones_rel, assumption)+

lemma new_membership: "membership_ok (platform_new mc cfg)"
  by (simp add: platform_new_def membership_ok_def)

text \<open>C19: Groups and accounts agree: from a new platform, and from any where this holds, after every run a user is in the list of
  members of a group exactly if the account names that group, is in no list twice, and so is in one group at most.\<close>

theorem membership_agrees:
  assumes "runs_to p q" "p = platform_new mc cfg \<or> membership_ok p \<and> length (pf_groups p) < kNoId"
  shows "(\<forall>g < length (pf_groups q). distinct (gr_members (pf_groups q ! g)) \<and>
      (\<forall>u. u \<in> set (gr_members (pf_groups q ! g)) \<longleftrightarrow> u < length (pf_users q) \<and> us_group (pf_users q ! u) = g)) \<and>
    (\<forall>g < length (pf_groups q). \<forall>h < length (pf_groups q).
      set (gr_members (pf_groups q ! g)) \<inter> set (gr_members (pf_groups q ! h)) \<noteq> {} \<longrightarrow> g = h)"
proof -
  have "membership_ok p" using assms(2) new_membership by blast
  moreover have "length (pf_groups q) < kNoId"
    using assms by (cases rule: runs_to.cases) (auto simp: ids_fit_def platform_new_def kNoId_def)
  ultimately have "membership_ok q" using membership.runs_S [OF membership.trans assms(1)] by (simp add: membership_kept_def)
  then have ok: "distinct (gr_members (pf_groups q ! g))"
      "\<And>u. u \<in> set (gr_members (pf_groups q ! g)) \<longleftrightarrow> u < length (pf_users q) \<and> us_group (pf_users q ! u) = g"
      if "g < length (pf_groups q)" for g
    using that unfolding membership_ok_def members_of_def by blast+
  have "g = h" if gh: "g < length (pf_groups q)" "h < length (pf_groups q)"
      "set (gr_members (pf_groups q ! g)) \<inter> set (gr_members (pf_groups q ! h)) \<noteq> {}" for g h
  proof -
    obtain u where "u \<in> set (gr_members (pf_groups q ! g))" "u \<in> set (gr_members (pf_groups q ! h))" using gh(3) by blast
    then show ?thesis using ok(2) [OF gh(1), of u] ok(2) [OF gh(2), of u] by simp
  qed
  then show ?thesis using ok by simp
qed

text \<open>One group and one tourist, who joins it.\<close>

definition one_tourist :: platform where
  "one_tourist = first_group\<lparr>pf_users := [account_new 0 ''ann'' ''Ann'' RTourist SrcApi [] 0]\<rparr>"

lemma first_group_members: "length (pf_groups first_group) = 1" "gr_members (pf_groups first_group ! 0) = []"
  by (simp_all add: first_group_def create_group_def is_staff_def principal_sys_def valid_label_def append_log_def Let_def split_def
      blank_platform_def platform_new_def rebuild_monitor_def group_new_def)

lemma one_tourist_joins:
  "runs_to one_tourist (snd (add_member principal_sys 0 0 one_tourist)) \<and>
   us_group (pf_users (snd (add_member principal_sys 0 0 one_tourist)) ! 0) = 0 \<and>
   length (pf_groups (snd (add_member principal_sys 0 0 one_tourist))) = 1 \<and>
   length (pf_users (snd (add_member principal_sys 0 0 one_tourist))) = 1"
proof -
  let ?q = "snd (add_member principal_sys 0 0 one_tourist)"
  have q: "us_group (pf_users ?q ! 0) = 0 \<and> length (pf_groups ?q) = 1 \<and> length (pf_users ?q) = 1 \<and> pf_zones ?q = pf_zones first_group \<and>
      pf_alerts ?q = pf_alerts first_group \<and> pf_cases ?q = pf_cases first_group \<and> pf_pool ?q = pf_pool first_group"
    by (simp add: add_member_def one_tourist_def is_staff_def principal_sys_def user_of_def account_new_def kNoId_def Let_def
        group_entry_def append_log_def split_def modify_group_def modify_user_def first_group_members)
  have "ids_fit first_group"
    by (simp add: ids_fit_def first_group_def create_group_def is_staff_def principal_sys_def valid_label_def append_log_def Let_def
        split_def blank_platform_def platform_new_def rebuild_monitor_def group_new_def kNoId_def)
  then have "ids_fit ?q" using q by (simp add: ids_fit_def kNoId_def)
  moreover have "platform_step one_tourist ?q" by (rule step_add_member) (rule surjective_pairing)
  ultimately show ?thesis using q by (auto intro: runs_to.intros)
qed

lemma membership_agrees_witness:
  "0 \<in> set (gr_members (pf_groups (snd (add_member principal_sys 0 0 one_tourist)) ! 0))"
proof -
  have "membership_ok one_tourist" "length (pf_groups one_tourist) < kNoId"
    by (auto simp: membership_ok_def members_of_def one_tourist_def first_group_members account_new_def kNoId_def intro!: gr0I)
  then show ?thesis using membership_agrees [of one_tourist _ undefined undefined] one_tourist_joins by auto
qed

end
