(* ===== verification/Spec2Isabelle.thy ===== *)
theory Spec2Isabelle
  imports Circular_Buffer Binary_Heap Hash_Table Timer_Wheel Escalation Rollback_DSU Interval_Tree Json Digital_Id Lamport Hysteresis
    Evaluator Assigner Kuhn Correlator Hierarchy Cohesion Crypto Trajectory Platform_Evidence Platform_History Platform_Duty
    Platform_Consent Platform_Groups
begin

text \<open>
  A verification development of the SafeTrail geofencing engine (C++17): \<^verbatim>\<open>include/safetrail\<close> holds the headers, \<^verbatim>\<open>src\<close> the
  sources, \<^verbatim>\<open>apps\<close> the programs, all under \<^verbatim>\<open>src/\<close> of the repository.

  \<^bold>\<open>The program.\<close> People's phones send positions with an accuracy. \<^verbatim>\<open>app::Platform\<close> takes them in, keeps a trail for those who have
  consented and are sharing, and hands each fix to the evaluator, which asks a spatial index for the zones near by, measures the
  distance to their boundaries, filters the verdicts through hysteresis and reports entries, exits, uncertainty, approaches and
  overstays. Events become alerts; alerts are correlated into incidents, put on an escalation clock, ordered by triage and answered
  by responders, who are assigned over a road network by shortest paths and a minimum-cost matching. Groups are watched for members
  who drift apart. Every step is written to an event log that a Merkle tree makes tamper-evident. A phone without a network runs the
  same evaluator on an index that was sent to it as bytes, queues what it sees under a logical clock, and is reconciled later.

  \<^bold>\<open>Which theory models what.\<close>
  \<^item> \<open>Prelude\<close>: the ids and times of \<^verbatim>\<open>types.hpp\<close>, integer conversions and division, lemmas every theory shares.
  \<^item> \<^verbatim>\<open>ds/\<close>: \<open>Circular_Buffer\<close>, \<open>Binary_Heap\<close>, \<open>Hash_Table\<close>, \<open>Timer_Wheel\<close>, \<open>Rollback_DSU\<close>, \<open>Interval_Tree\<close>.
  \<^item> \<^verbatim>\<open>util/\<close> and \<^verbatim>\<open>evidence/\<close>: \<open>Json\<close>, \<open>Bytes\<close>, \<open>Sha256\<close>, \<open>Merkle_Log\<close>, \<open>Digital_Id\<close>; \<open>Crypto\<close> is \<^verbatim>\<open>app/crypto.cpp\<close>.
  \<^item> \<^verbatim>\<open>geo/\<close>: \<open>Geo_Base\<close> (points, boxes, the haversine distance), \<open>Great_Circle\<close> (it is a metric), \<open>Geo_Plane\<close> (segments, the
    metric plane), \<open>Sweep_Line\<close>, \<open>Polygon\<close> (validation, containment, boundary distance).
  \<^item> \<^verbatim>\<open>index/\<close>: \<open>Spatial_Index\<close> (the interface and the brute-force index), \<open>Quadtree\<close>, \<open>Rtree\<close>, \<open>Geohash\<close>, \<open>Index_Factory\<close>, \<open>Kd_Tree\<close>,
    \<open>Versioned_Tree\<close> and \<open>Versioned_Index\<close>.
  \<^item> \<^verbatim>\<open>graph/\<close> and \<^verbatim>\<open>dispatch/\<close>: \<open>Road_Graph\<close>, \<open>Dijkstra\<close>, \<open>Astar\<close>, \<open>Kuhn\<close>, \<open>Hungarian\<close>, \<open>Assigner\<close>.
  \<^item> \<^verbatim>\<open>fence/\<close>, \<^verbatim>\<open>track/\<close>, \<^verbatim>\<open>power/\<close>, \<^verbatim>\<open>jurisdiction/\<close>, \<^verbatim>\<open>group/\<close>: \<open>Hysteresis\<close>, \<open>Zone_Store\<close>, \<open>Tourist\<close>, \<open>Trajectory\<close>, \<open>Evaluator\<close>, \<open>Hierarchy\<close>,
    \<open>Cohesion\<close>.
  \<^item> \<^verbatim>\<open>alert/\<close> and \<^verbatim>\<open>sync/\<close>: \<open>Triage\<close>, \<open>Escalation\<close>, \<open>Correlator\<close>, \<open>Lamport\<close>.
  \<^item> \<^verbatim>\<open>app/platform.cpp\<close>: \<open>Platform\<close> (the state and the log), \<open>Platform_Alerts\<close>, \<open>Platform_Users\<close>, \<open>Platform_Zones\<close>, \<open>Platform_Fixes\<close>,
    \<open>Platform_Devices\<close> (one definition per operation, in the order of the code), \<open>Platform_Commands\<close> (the public operations as a step
    relation and the reachable states), \<open>Platform_Frames\<close> (locales that carry a relation through every operation) and the invariants
    of the platform: \<open>Platform_Evidence\<close>, \<open>Platform_Consent\<close>, \<open>Platform_Duty\<close>, \<open>Platform_History\<close>, \<open>Platform_Groups\<close>.
  A definition has the name of the function it models where HOL allows it; the loop bodies of a long function are definitions of their
  own.

  \<^bold>\<open>Modelling decisions.\<close> Doubles are exact reals; a distance that can be infinite is an option, an empty box the constructor \<open>NoBox\<close>;
  so rounding, NaN and overflow to infinity are not seen. Timestamps are unbounded integers; ids and counters keep their width where
  the code relies on wrap-around, and the platform's step relation asks that the 32-bit ids have not run out (\<open>ids_fit\<close>). Hashes, keys
  and file formats are on machine words and bytes. A pointer or reference into a vector is a position; a mutable cache of a const
  method is part of the state that the method returns. The bits of a double, \<^verbatim>\<open>lround\<close> of an infinite distance and random bytes are
  parameters. Reading a file is an optional text or byte list. Measured wall-clock times are left out.

  \<^bold>\<open>Termination.\<close> Recursion is structural or has a measure where possible. The loops whose end depends on the data are
  \<open>partial_function (option)\<close> (probing, finding a root, Dijkstra, A*, the Hungarian augmentation) or take the fuel named at the
  definition; each has a lemma that it returns under the invariant of its component. An operation of the platform that calls one is
  partial in the same sense.

  \<^bold>\<open>What is proved.\<close> Every component has its invariant and the behaviour of each operation: the data structures refine maps, multisets
  and intervals; the indexes are interchangeable and miss no zone; the versioned index answers for the past; Dijkstra, the matching and
  the dispatch plan are optimal; verified Merkle proofs are sound up to collisions; files round-trip; the evaluator's events follow the
  protocol of a zone and do not depend on the index; escalation fires once; reconciliation does not depend on the order of arrival;
  and the invariants of the platform hold in every reachable state. The interfaces are locales (the index a client queries, the queue a
  search pops, the layers of the platform), interpreted on the code's own definitions.

  \<^bold>\<open>Not modelled.\<close> The programs under \<^verbatim>\<open>apps/\<close>, the HTTP server and the JSON API over the platform, the lab pages, the scenario runner and
  its world loader, the simulator with its random movement, and the HTML export: text and network glue, measurements and demonstration
  data around the modelled operations. \<^verbatim>\<open>mutable_config\<close> of the platform, which only those programs call, is left out, so the
  configuration of a platform is fixed.
\<close>

end
